(* ===== verification/Prelude.thy ===== *)
theory Prelude
  imports Main "HOL-Library.Word"
begin

text \<open>
  What every component of the kernel model shares: the widths of the C integers, the outcome of
  a kernel routine (it returns, it calls \<open>panic\<close>, or it would go to sleep on a channel), the
  sequencing of such routines, and byte-level access to little-endian memory.
  The collections \<open>outcome\<close> and \<open>bytes\<close> gather the facts the component proofs use.
\<close>

unbundle bit_operations_syntax

named_theorems outcome "facts on the results of kernel routines"
named_theorems bytes "facts on reading and writing bytes"

section \<open>Integers\<close>

type_synonym u8 = "8 word"
type_synonym u16 = "16 word"
type_synonym u32 = "32 word"

lemma unat_u32_less [bytes]: "unat (x :: u32) < 2 ^ 32"
  using unsigned_less [of x] by simp

lemma unat_u8_less [bytes]: "unat (x :: u8) < 256"
  using unsigned_less [of x] by simp

lemma unat_minus_one_u32: "unat (- 1 :: u32) = 2 ^ 32 - 1"
  by (simp add: unsigned_minus_1_eq_mask mask_eq_exp_minus_1)

lemma unat_of_nat_u32: "n < 2 ^ 32 \<Longrightarrow> unat (of_nat n :: u32) = n"
  by (simp add: unsigned_of_nat take_bit_nat_eq_self)

text \<open>A negative \<open>int\<close> is a large unsigned number.\<close>

lemma sless_zero_u32: "(x :: u32) <s 0 \<longleftrightarrow> 2 ^ 31 \<le> unat x"
proof -
  have "0 \<le> sint x \<longleftrightarrow> uint x < 2 ^ 31"
  proof
    assume "uint x < 2 ^ 31"
    then have "sint x = uint x"
      using signed_take_bit_int_eq_self [of 31 "uint x"] order_trans [OF _ uint_ge_0 [of x], of "- (2 ^ 31)"]
      by (simp add: sint_uint)
    then show "0 \<le> sint x" by simp
  next
    assume "0 \<le> sint x"
    moreover have lt: "sint x < 2 ^ 31" using sint_less [of x] by simp
    ultimately have "take_bit 32 (sint x) = sint x" by (simp add: take_bit_int_eq_self_iff)
    then have "uint x = sint x" using uint_sint [of x] by simp
    then show "uint x < 2 ^ 31" using lt by simp
  qed
  moreover have "int (unat x) < int (2 ^ 31) \<longleftrightarrow> unat x < 2 ^ 31" by (simp only: of_nat_less_iff)
  then have "uint x < 2 ^ 31 \<longleftrightarrow> unat x < 2 ^ 31" by simp
  ultimately show ?thesis unfolding word_sless_alt by simp linarith
qed

section \<open>Outcomes of kernel routines\<close>

text \<open>
  The channels of \<open>sleep\<close> and \<open>wakeup\<close>. In C a channel is an address; the kernel only ever
  passes the address of one of these objects.
\<close>

datatype chan =
    ChTicks              \<comment> \<open>\<open>&ticks\<close>\<close>
  | ChLog                \<comment> \<open>\<open>&log\<close>\<close>
  | ChBuf nat            \<comment> \<open>the sleep lock of a disk buffer\<close>
  | ChIde nat            \<comment> \<open>a disk buffer whose request is with the driver\<close>
  | ChInode nat          \<comment> \<open>the sleep lock of a cached inode\<close>
  | ChPipeR nat          \<comment> \<open>\<open>&p->nread\<close>\<close>
  | ChPipeW nat          \<comment> \<open>\<open>&p->nwrite\<close>\<close>
  | ChProc nat           \<comment> \<open>a process waiting for its children\<close>
  | ChInput              \<comment> \<open>\<open>&input.r\<close>\<close>

text \<open>
  A routine returns a value, stops the machine in \<open>panic\<close>, dereferences a null pointer (or an
  unmapped user address), leaves an array, loops forever, or calls \<open>sleep\<close> on a channel. All but the
  first end the run of the caller as well.
\<close>

datatype 'a res =
    Ok 'a
  | Panic string
  | NullDeref
  | OutOfBounds
  | Hang
  | Blocked chan

primrec bindr :: "'a res \<Rightarrow> ('a \<Rightarrow> 'b res) \<Rightarrow> 'b res" where
  "bindr (Ok x) f = f x"
| "bindr (Panic m) f = Panic m"
| "bindr NullDeref f = NullDeref"
| "bindr OutOfBounds f = OutOfBounds"
| "bindr Hang f = Hang"
| "bindr (Blocked c) f = Blocked c"

lemma bindr_eq_Ok [outcome]: "bindr m f = Ok y \<longleftrightarrow> (\<exists>x. m = Ok x \<and> f x = Ok y)"
  by (cases m) auto

lemma bindr_OkE: "bindr m f = Ok y \<Longrightarrow> (\<And>x. m = Ok x \<Longrightarrow> f x = Ok y \<Longrightarrow> P) \<Longrightarrow> P"
  by (cases m) auto

lemma bindr_assoc: "bindr (bindr m f) g = bindr m (\<lambda>x. bindr (f x) g)"
  by (cases m) auto

lemma bindr_cong [fundef_cong]:
  "m = m' \<Longrightarrow> (\<And>x. m' = Ok x \<Longrightarrow> f x = f' x) \<Longrightarrow> bindr m f = bindr m' f'"
  by (cases m') auto

text \<open>Running a routine for each element of a list, in order, until one fails.\<close>

primrec foldr_res :: "('a \<Rightarrow> 's \<Rightarrow> 's res) \<Rightarrow> 'a list \<Rightarrow> 's \<Rightarrow> 's res" where
  "foldr_res f [] s = Ok s"
| "foldr_res f (x # xs) s = bindr (f x s) (foldr_res f xs)"

lemma foldr_res_append:
  "foldr_res f (xs @ ys) s = bindr (foldr_res f xs s) (foldr_res f ys)"
  by (induction xs arbitrary: s) (auto simp: bindr_assoc intro!: bindr_cong)

text \<open>A loop invariant over such a run.\<close>

lemma foldr_res_invariant:
  assumes "foldr_res f xs s = Ok t" and "P s"
    and "\<And>x s t. x \<in> set xs \<Longrightarrow> P s \<Longrightarrow> f x s = Ok t \<Longrightarrow> P t"
  shows "P t"
  using assms
proof (induction xs arbitrary: s)
  case Nil
  then show ?case by simp
next
  case (Cons x xs)
  from Cons.prems(1) obtain u where u: "f x s = Ok u" "foldr_res f xs u = Ok t"
    by (auto simp: bindr_eq_Ok)
  with Cons.prems have "P u" by auto
  with u(2) Cons show ?case by (metis list.set_intros(2))
qed

section \<open>Searching tables\<close>

text \<open>
  The kernel's tables are scanned from the first entry; \<open>List.find\<close> on the indices gives the
  first one that satisfies the test.
\<close>

lemma find_upt_Some:
  "find P [0..<n] = Some i \<longleftrightarrow> i < n \<and> P i \<and> (\<forall>j<i. \<not> P j)"
  by (auto simp: find_Some_iff)

lemma find_upt_None: "find P [0..<n] = None \<longleftrightarrow> (\<forall>i<n. \<not> P i)"
  by (auto simp: find_None_iff)

section \<open>Bytes\<close>

text \<open>Byte \<open>k\<close> of a 32-bit value, and the value stored little-endian at an address.\<close>

definition byte :: "u32 \<Rightarrow> nat \<Rightarrow> u8" where
  "byte v k = ucast (drop_bit (8 * k) v)"

definition rd32 :: "('i::semiring_1 \<Rightarrow> u8) \<Rightarrow> 'i \<Rightarrow> u32" where
  "rd32 m a = ucast (m a) OR push_bit 8 (ucast (m (a + 1)))
     OR push_bit 16 (ucast (m (a + 2))) OR push_bit 24 (ucast (m (a + 3)))"

definition wr32 :: "('i::semiring_1 \<Rightarrow> u8) \<Rightarrow> 'i \<Rightarrow> u32 \<Rightarrow> 'i \<Rightarrow> u8" where
  "wr32 m a v = m(a := byte v 0, a + 1 := byte v 1, a + 2 := byte v 2, a + 3 := byte v 3)"

definition rd16 :: "('i::semiring_1 \<Rightarrow> u8) \<Rightarrow> 'i \<Rightarrow> u16" where
  "rd16 m a = ucast (m a) OR push_bit 8 (ucast (m (a + 1)))"

definition wr16 :: "('i::semiring_1 \<Rightarrow> u8) \<Rightarrow> 'i \<Rightarrow> u16 \<Rightarrow> 'i \<Rightarrow> u8" where
  "wr16 m a v = m(a := ucast v, a + 1 := ucast (drop_bit 8 v))"

lemma bytes_join32:
  "ucast (byte v 0) OR push_bit 8 (ucast (byte v 1)) OR push_bit 16 (ucast (byte v 2))
     OR push_bit 24 (ucast (byte v 3)) = (v :: u32)"
proof (rule bit_word_eqI)
  fix n :: nat
  assume "n < LENGTH(32)"
  then consider "n < 8" | "8 \<le> n \<and> n < 16" | "16 \<le> n \<and> n < 24" | "24 \<le> n \<and> n < 32"
    by force
  then show "bit (ucast (byte v 0) OR push_bit 8 (ucast (byte v 1))
      OR push_bit 16 (ucast (byte v 2)) OR push_bit 24 (ucast (byte v 3)) :: u32) n = bit v n"
    by cases (auto simp: byte_def bit_simps)
qed

lemma bytes_join16:
  "ucast (ucast v :: u8) OR push_bit 8 (ucast (ucast (drop_bit 8 v) :: u8)) = (v :: u16)"
  by (rule bit_word_eqI) (auto simp: bit_simps)

lemma rd32_wr32_nat [simp, bytes]: "rd32 (wr32 m (a :: nat) v) a = v"
  using bytes_join32 [of v] by (simp add: rd32_def wr32_def)

lemma rd32_wr32_word [simp, bytes]: "rd32 (wr32 m (a :: u32) v) a = v"
  using bytes_join32 [of v] by (simp add: rd32_def wr32_def)

lemma rd16_wr16_nat [simp, bytes]: "rd16 (wr16 m (a :: nat) v) a = v"
  using bytes_join16 [of v] by (simp add: rd16_def wr16_def)

text \<open>Accesses that do not overlap.\<close>

lemma wr32_other_nat [bytes]: "i < a \<or> a + 4 \<le> i \<Longrightarrow> wr32 m (a :: nat) v i = m i"
  by (auto simp: wr32_def)

lemma wr16_other_nat [bytes]: "i < a \<or> a + 2 \<le> i \<Longrightarrow> wr16 m (a :: nat) v i = m i"
  by (auto simp: wr16_def)

lemma rd32_cong_nat: "(\<And>i. a \<le> i \<Longrightarrow> i < a + 4 \<Longrightarrow> m i = m' i) \<Longrightarrow> rd32 m (a :: nat) = rd32 m' a"
  by (simp add: rd32_def)

lemma rd16_cong_nat: "(\<And>i. a \<le> i \<Longrightarrow> i < a + 2 \<Longrightarrow> m i = m' i) \<Longrightarrow> rd16 m (a :: nat) = rd16 m' a"
  by (simp add: rd16_def)

lemma rd32_wr32_other_nat [bytes]:
  "b + 4 \<le> a \<or> a + 4 \<le> b \<Longrightarrow> rd32 (wr32 m (a :: nat) v) b = rd32 m b"
  by (rule rd32_cong_nat) (auto simp: wr32_other_nat)

lemma rd32_wr16_other_nat [bytes]:
  "b + 4 \<le> a \<or> a + 2 \<le> b \<Longrightarrow> rd32 (wr16 m (a :: nat) v) b = rd32 m b"
  by (rule rd32_cong_nat) (auto simp: wr16_other_nat)

lemma rd16_wr32_other_nat [bytes]:
  "b + 2 \<le> a \<or> a + 4 \<le> b \<Longrightarrow> rd16 (wr32 m (a :: nat) v) b = rd16 m b"
  by (rule rd16_cong_nat) (auto simp: wr32_other_nat)

lemma rd16_wr16_other_nat [bytes]:
  "b + 2 \<le> a \<or> a + 2 \<le> b \<Longrightarrow> rd16 (wr16 m (a :: nat) v) b = rd16 m b"
  by (rule rd16_cong_nat) (auto simp: wr16_other_nat)

end
