(* ===== verification/CString.thy ===== *)
theory CString
  imports Prelude
begin

text \<open>
  \<open>string.c\<close>: the kernel's memory and string routines over a byte-addressed 32-bit memory.
  Pointers are 32-bit words and wrap; loops are recursions on the remaining count. The two
  string-store instructions of \<open>x86.h\<close> that \<open>memset\<close> uses are modelled by what they store.
  Lemmas: \<open>memset\<close> fills exactly its range whichever instruction it picks, \<open>memmove\<close> copies as if
  through a temporary, comparison and copy routines behave as bounded C strings require.
\<close>

type_synonym memory = "u32 \<Rightarrow> u8"

section \<open>memset\<close>

fun stosb :: "memory \<Rightarrow> u32 \<Rightarrow> u8 \<Rightarrow> nat \<Rightarrow> memory" where
  "stosb m d c 0 = m"
| "stosb m d c (Suc n) = stosb (m(d := c)) (d + 1) c n"

fun stosl :: "memory \<Rightarrow> u32 \<Rightarrow> u32 \<Rightarrow> nat \<Rightarrow> memory" where
  "stosl m d v 0 = m"
| "stosl m d v (Suc n) = stosl (wr32 m d v) (d + 4) v n"

definition memset :: "memory \<Rightarrow> u32 \<Rightarrow> u32 \<Rightarrow> u32 \<Rightarrow> memory" where
  "memset m dst c n =
     (if dst mod 4 = 0 \<and> n mod 4 = 0
      then let c = c AND 0xFF
           in stosl m dst (push_bit 24 c OR push_bit 16 c OR push_bit 8 c OR c) (unat (n div 4))
      else stosb m dst (ucast c) (unat n))"

definition filled :: "memory \<Rightarrow> u32 \<Rightarrow> u8 \<Rightarrow> nat \<Rightarrow> memory" where
  "filled m d c n = (\<lambda>a. if unat (a - d) < n then c else m a)"

lemma unat_diff_Suc: "(a :: u32) \<noteq> d \<Longrightarrow> unat (a - d) = Suc (unat (a - (d + 1)))"
proof -
  assume "a \<noteq> d"
  then have "a - d \<noteq> 0" by simp
  then have "unat (a - d - 1) = unat (a - d) - 1" "0 < unat (a - d)"
    by (simp_all add: unat_minus_one unat_gt_0)
  then show ?thesis by (simp add: diff_diff_add)
qed

lemma filled_Suc: "n < 2 ^ 32 \<Longrightarrow> filled (m(d := c)) (d + 1) c n = filled m d c (Suc n)"
proof (rule ext)
  fix a
  assume n: "n < 2 ^ 32"
  show "filled (m(d := c)) (d + 1) c n a = filled m d c (Suc n) a"
    by (cases "a = d") (simp_all add: filled_def unat_diff_Suc)
qed

lemma stosb_filled: "n < 2 ^ 32 \<Longrightarrow> stosb m d c n = filled m d c n"
proof (induction n arbitrary: m d)
  case 0
  then show ?case by (simp add: filled_def)
next
  case (Suc n)
  then show ?case by (simp add: filled_Suc)
qed

lemma byte_replicated:
  fixes c :: u32
  assumes "k < 4"
  shows "byte (push_bit 24 (c AND 0xFF) OR push_bit 16 (c AND 0xFF)
      OR push_bit 8 (c AND 0xFF) OR (c AND 0xFF)) k = ucast c"
proof -
  have mask: "c AND 0xFF = take_bit 8 c" by (simp add: take_bit_eq_mask mask_eq_exp_minus_1)
  from assms consider "k = 0" | "k = 1" | "k = 2" | "k = 3" by linarith
  then show ?thesis
    unfolding mask byte_def by cases (rule bit_word_eqI; auto simp: bit_simps)+
qed

lemma wr32_same_bytes:
  assumes "\<And>k. k < 4 \<Longrightarrow> byte v k = c"
  shows "wr32 m d v = m(d := c, d + 1 := c, d + 2 := c, d + 3 := c)"
  using assms [of 0] assms [of 1] assms [of 2] assms [of 3] by (simp add: wr32_def)

lemma stosl_stosb:
  assumes "\<And>k. k < 4 \<Longrightarrow> byte v k = c"
  shows "stosl m d v n = stosb m d c (4 * n)"
proof (induction n arbitrary: m d)
  case 0
  then show ?case by simp
next
  case (Suc n)
  have four: "4 * Suc n = Suc (Suc (Suc (Suc (4 * n))))" by simp
  have adds: "d + 1 + 1 = d + 2" "d + 2 + 1 = d + 3" "d + 3 + 1 = d + 4" by simp_all
  show ?case
    by (simp only: four stosb.simps stosl.simps adds wr32_same_bytes [OF assms] Suc)
qed

lemma memset_filled: "memset m dst c n = filled m dst (ucast c) (unat n)"
proof (cases "dst mod 4 = 0 \<and> n mod 4 = 0")
  case True
  let ?c = "c AND 0xFF"
  let ?v = "push_bit 24 ?c OR push_bit 16 ?c OR push_bit 8 ?c OR ?c"
  have "4 * unat (n div 4) = unat n"
  proof -
    from True have "unat (n mod 4) = 0" by simp
    then have "unat n mod 4 = 0" by (simp add: unat_mod)
    then show ?thesis by (auto simp: unat_div)
  qed
  moreover have "unat n < 2 ^ 32" by (rule unat_u32_less)
  ultimately show ?thesis
    using True stosl_stosb [OF byte_replicated, where m = m and d = dst and n = "unat (n div 4)"]
    by (simp add: memset_def Let_def stosb_filled)
next
  case False
  moreover have "unat n < 2 ^ 32" by (rule unat_u32_less)
  ultimately show ?thesis by (auto simp: memset_def Let_def stosb_filled)
qed

section \<open>memmove\<close>

text \<open>
  The two loops of \<open>memmove\<close>: \<open>*--d = *--s\<close> from the end, and \<open>*d++ = *s++\<close> from the start.
  Each iteration reads the memory the previous one has written.
\<close>

fun copy_down :: "memory \<Rightarrow> u32 \<Rightarrow> u32 \<Rightarrow> nat \<Rightarrow> memory" where
  "copy_down m d s 0 = m"
| "copy_down m d s (Suc n) = copy_down (m(d - 1 := m (s - 1))) (d - 1) (s - 1) n"

fun copy_up :: "memory \<Rightarrow> u32 \<Rightarrow> u32 \<Rightarrow> nat \<Rightarrow> memory" where
  "copy_up m d s 0 = m"
| "copy_up m d s (Suc n) = copy_up (m(d := m s)) (d + 1) (s + 1) n"

definition memmove :: "memory \<Rightarrow> u32 \<Rightarrow> u32 \<Rightarrow> u32 \<Rightarrow> memory" where
  "memmove m dst src n =
     (if src < dst \<and> src + n > dst
      then copy_down m (dst + n) (src + n) (unat n)
      else copy_up m dst src (unat n))"

definition memcpy :: "memory \<Rightarrow> u32 \<Rightarrow> u32 \<Rightarrow> u32 \<Rightarrow> memory" where
  "memcpy m dst src n = memmove m dst src n"

text \<open>What a copy should leave: the old source bytes in the range, the old memory elsewhere.\<close>

definition copied :: "memory \<Rightarrow> u32 \<Rightarrow> u32 \<Rightarrow> nat \<Rightarrow> memory" where
  "copied m d s n = (\<lambda>a. if unat (a - d) < n then m (s + (a - d)) else m a)"

text \<open>Iteration \<open>i\<close> must not read what an earlier iteration \<open>j\<close> has written.\<close>

lemma copy_up_copied:
  assumes "n < 2 ^ 32" "\<And>i j. j < i \<Longrightarrow> i < n \<Longrightarrow> s + of_nat i \<noteq> d + of_nat j"
  shows "copy_up m d s n = copied m d s n"
  using assms
proof (induction n arbitrary: m d s)
  case 0
  then show ?case by (simp add: copied_def)
next
  case (Suc n)
  have "copy_up (m(d := m s)) (d + 1) (s + 1) n = copied (m(d := m s)) (d + 1) (s + 1) n"
  proof (rule Suc.IH)
    show "n < 2 ^ 32" using Suc.prems(1) by simp
    fix i j :: nat
    assume "j < i" "i < n"
    then show "s + 1 + of_nat i \<noteq> d + 1 + of_nat j"
      using Suc.prems(2) [of "Suc j" "Suc i"] by (simp add: ac_simps)
  qed
  moreover have "copied (m(d := m s)) (d + 1) (s + 1) n a = copied m d s (Suc n) a" for a
  proof (cases "a = d")
    case True
    then show ?thesis
      using Suc.prems(1) by (simp add: copied_def unat_minus_one_u32)
  next
    case False
    have "s + (a - d) \<noteq> d" if "unat (a - (d + 1)) < n"
      using Suc.prems(2) [of 0 "unat (a - d)"] that unat_diff_Suc [OF False] by simp
    then show ?thesis
      using False by (auto simp: copied_def unat_diff_Suc)
  qed
  ultimately show ?case by (simp add: fun_eq_iff)
qed

lemma copy_down_copied:
  assumes "n < 2 ^ 32" "\<And>i j. j < i \<Longrightarrow> i < n \<Longrightarrow> s - of_nat i \<noteq> d - of_nat j"
  shows "copy_down m d s n = copied m (d - of_nat n) (s - of_nat n) n"
  using assms
proof (induction n arbitrary: m d s)
  case 0
  then show ?case by (simp add: copied_def)
next
  case (Suc n)
  let ?m = "m(d - 1 := m (s - 1))"
  have n: "unat (of_nat n :: u32) = n" using Suc.prems(1) by (simp add: unat_of_nat_u32)
  have "copy_down ?m (d - 1) (s - 1) n = copied ?m (d - 1 - of_nat n) (s - 1 - of_nat n) n"
  proof (rule Suc.IH)
    show "n < 2 ^ 32" using Suc.prems(1) by simp
    fix i j :: nat
    assume "j < i" "i < n"
    then show "s - 1 - of_nat i \<noteq> d - 1 - of_nat j"
      using Suc.prems(2) [of "Suc j" "Suc i"] by (simp add: algebra_simps)
  qed
  moreover have "copied ?m (d - 1 - of_nat n) (s - 1 - of_nat n) n a
      = copied m (d - of_nat (Suc n)) (s - of_nat (Suc n)) (Suc n) a" for a
  proof (cases "a = d - 1")
    case True
    then show ?thesis by (simp add: copied_def n)
  next
    case False
    define x where "x = a - (d - 1 - of_nat n)"
    have a: "a = d - 1 - of_nat n + x" by (simp add: x_def)
    have "unat x \<noteq> n"
    proof
      assume "unat x = n"
      then have "x = of_nat n" by auto
      with a False show False by simp
    qed
    moreover have "s - 1 - of_nat n + x \<noteq> d - 1" if "unat x < n"
    proof
      assume "s - 1 - of_nat n + x = d - 1"
      moreover have "of_nat n = (of_nat (n - unat x) :: u32) + x"
        using that by (simp add: of_nat_diff)
      ultimately have "s - of_nat (n - unat x) = d - of_nat 0" by (simp add: algebra_simps)
      moreover have "0 < n - unat x" "n - unat x < Suc n" using that by simp_all
      ultimately show False using Suc.prems(2) [of 0 "n - unat x"] by blast
    qed
    ultimately show ?thesis
      using n by (auto simp: copied_def a algebra_simps less_Suc_eq)
  qed
  ultimately show ?case by (simp add: fun_eq_iff)
qed

text \<open>For objects that do not wrap around the end of memory, \<open>memmove\<close> is an exact copy, overlapping or not.\<close>

lemma memmove_copied:
  assumes s: "unat src + unat n < 2 ^ 32" and d: "unat dst + unat n < 2 ^ 32"
  shows "memmove m dst src n = copied m dst src (unat n)"
proof -
  let ?n = "unat n"
  have n: "?n < 2 ^ 32" by (rule unat_u32_less)
  have sn: "unat (src + n) = unat src + ?n" using s by (simp add: unat_word_ariths)
  have at: "unat (p + of_nat i) = unat p + i" if "unat p + ?n < 2 ^ 32" "i < ?n" for p :: u32 and i
    using that by (simp add: unat_word_ariths unat_of_nat)
  show ?thesis
  proof (cases "src < dst \<and> src + n > dst")
    case True
    then have less: "unat src < unat dst" "unat dst < unat src + ?n"
      using sn by (simp_all add: word_less_nat_alt)
    have "copy_down m (dst + n) (src + n) ?n
        = copied m (dst + n - of_nat ?n) (src + n - of_nat ?n) ?n"
    proof (rule copy_down_copied [OF n])
      fix i j :: nat
      assume ij: "j < i" "i < ?n"
      show "src + n - of_nat i \<noteq> dst + n - of_nat j"
      proof
        assume "src + n - of_nat i = dst + n - of_nat j"
        then have "src + of_nat j = dst + of_nat i" by (simp add: algebra_simps)
        then have "unat src + j = unat dst + i" using at [OF s, of j] at [OF d, of i] ij by simp
        with ij less show False by simp
      qed
    qed
    with True show ?thesis by (simp add: memmove_def)
  next
    case False
    have "copy_up m dst src ?n = copied m dst src ?n"
    proof (rule copy_up_copied [OF n])
      fix i j :: nat
      assume ij: "j < i" "i < ?n"
      show "src + of_nat i \<noteq> dst + of_nat j"
      proof
        assume "src + of_nat i = dst + of_nat j"
        then have eq: "unat src + i = unat dst + j" using at [OF s, of i] at [OF d, of j] ij by simp
        with ij have "unat src < unat dst" "unat dst < unat (src + n)" by (simp_all add: sn)
        with False show False by (simp add: word_less_nat_alt)
      qed
    qed
    with False show ?thesis by (auto simp: memmove_def)
  qed
qed

section \<open>Strings\<close>

text \<open>The bytes \<open>xs\<close>, none of them NUL, stand at \<open>p\<close> and a NUL follows them.\<close>

fun str_at :: "memory \<Rightarrow> u32 \<Rightarrow> u8 list \<Rightarrow> bool" where
  "str_at m p [] \<longleftrightarrow> m p = 0"
| "str_at m p (x # xs) \<longleftrightarrow> m p = x \<and> x \<noteq> 0 \<and> str_at m (p + 1) xs"

text \<open>The C result \<open>*s1 - *s2\<close> of two unsigned bytes, as an \<open>int\<close>.\<close>

definition byte_diff :: "u8 \<Rightarrow> u8 \<Rightarrow> int" where
  "byte_diff a b = uint a - uint b"

fun memcmp :: "memory \<Rightarrow> u32 \<Rightarrow> u32 \<Rightarrow> nat \<Rightarrow> int" where
  "memcmp m s1 s2 0 = 0"
| "memcmp m s1 s2 (Suc n) =
     (if m s1 \<noteq> m s2 then byte_diff (m s1) (m s2) else memcmp m (s1 + 1) (s2 + 1) n)"

fun strncmp :: "memory \<Rightarrow> u32 \<Rightarrow> u32 \<Rightarrow> nat \<Rightarrow> int" where
  "strncmp m p q 0 = 0"
| "strncmp m p q (Suc n) =
     (if m p \<noteq> 0 \<and> m p = m q then strncmp m (p + 1) (q + 1) n else byte_diff (m p) (m q))"

text \<open>
  \<open>strncpy\<close> copies up to and including the NUL, then writes NULs for the rest of the count; a
  negative count copies nothing.
\<close>

fun strncpy_loop :: "memory \<Rightarrow> u32 \<Rightarrow> u32 \<Rightarrow> nat \<Rightarrow> memory" where
  "strncpy_loop m s t 0 = m"
| "strncpy_loop m s t (Suc n) =
     (let m' = m(s := m t)
      in if m t \<noteq> 0 then strncpy_loop m' (s + 1) (t + 1) n else stosb m' (s + 1) 0 n)"

definition strncpy :: "memory \<Rightarrow> u32 \<Rightarrow> u32 \<Rightarrow> int \<Rightarrow> memory" where
  "strncpy m s t n = strncpy_loop m s t (nat n)"

text \<open>\<open>safestrcpy\<close>: \<open>n\<close> is the count left after the test \<open>--n > 0\<close>; the final \<open>*s = 0\<close> ends it.\<close>

fun safestrcpy_loop :: "memory \<Rightarrow> u32 \<Rightarrow> u32 \<Rightarrow> nat \<Rightarrow> memory" where
  "safestrcpy_loop m s t 0 = m(s := 0)"
| "safestrcpy_loop m s t (Suc n) =
     (let m' = m(s := m t)
      in if m t \<noteq> 0 then safestrcpy_loop m' (s + 1) (t + 1) n else m'(s + 1 := 0))"

definition safestrcpy :: "memory \<Rightarrow> u32 \<Rightarrow> u32 \<Rightarrow> int \<Rightarrow> memory" where
  "safestrcpy m s t n = (if n \<le> 0 then m else safestrcpy_loop m s t (nat n - 1))"

text \<open>\<open>strlen\<close> has no bound: without a NUL it does not return.\<close>

partial_function (option) strlen_from :: "memory \<Rightarrow> u32 \<Rightarrow> nat \<Rightarrow> nat option" where
  "strlen_from m s n = (if m (s + of_nat n) = 0 then Some n else strlen_from m s (Suc n))"

definition strlen :: "memory \<Rightarrow> u32 \<Rightarrow> nat option" where
  "strlen m s = strlen_from m s 0"

declare strlen_from.simps [code]

lemma str_at_upd: "(\<forall>i\<le>length xs. p + of_nat i \<noteq> a) \<Longrightarrow> str_at (m(a := v)) p xs = str_at m p xs"
proof (induction xs arbitrary: p)
  case Nil
  then show ?case by auto
next
  case (Cons x xs)
  have "\<forall>i\<le>length xs. p + 1 + of_nat i \<noteq> a"
  proof (intro allI impI)
    fix i
    assume "i \<le> length xs"
    then have "p + of_nat (Suc i) \<noteq> a" using Cons.prems by (metis length_Cons Suc_le_mono)
    then show "p + 1 + of_nat i \<noteq> a" by (simp add: ac_simps)
  qed
  then have "str_at (m(a := v)) (p + 1) xs = str_at m (p + 1) xs" by (rule Cons.IH)
  moreover have "p \<noteq> a" using Cons.prems by force
  ultimately show ?case by (simp add: fun_upd_def)
qed

lemma strlen_from_str_at:
  "str_at m (s + of_nat n) xs \<Longrightarrow> strlen_from m s n = Some (n + length xs)"
proof (induction xs arbitrary: n)
  case Nil
  then show ?case by (simp add: strlen_from.simps)
next
  case (Cons x xs)
  then have "str_at m (s + of_nat (Suc n)) xs" by (simp add: ac_simps)
  from Cons.IH [OF this] Cons.prems show ?case by (subst strlen_from.simps) simp
qed

lemma strlen_str_at: "str_at m s xs \<Longrightarrow> strlen m s = Some (length xs)"
  using strlen_from_str_at [of m s 0 xs] by (simp add: strlen_def)

lemma strncmp_zero_iff:
  "str_at m p xs \<Longrightarrow> str_at m q ys \<Longrightarrow> strncmp m p q n = 0 \<longleftrightarrow> take n xs = take n ys"
proof (induction n arbitrary: p q xs ys)
  case 0
  then show ?case by simp
next
  case (Suc n)
  then show ?case
    by (cases xs; cases ys) (auto simp: byte_diff_def word_uint_eq_iff)
qed

text \<open>The two strings of a copy must not overlap: no byte of the source is in the target.\<close>

definition apart :: "u32 \<Rightarrow> nat \<Rightarrow> u32 \<Rightarrow> nat \<Rightarrow> bool" where
  "apart t k s n \<longleftrightarrow> (\<forall>i<k. \<forall>j<n. t + of_nat i \<noteq> s + of_nat j)"

lemma apart_upt:
  "apart t k s n \<longleftrightarrow> (\<forall>i\<in>set [0..<k]. \<forall>j\<in>set [0..<n]. t + of_nat i \<noteq> s + of_nat j)"
  by (auto simp: apart_def)

lemma apartD: "apart t k s n \<Longrightarrow> i < k \<Longrightarrow> j < n \<Longrightarrow> t + of_nat i \<noteq> s + of_nat j"
  by (simp add: apart_def)

lemma apart_Suc:
  assumes "apart t (Suc k) s (Suc n)"
  shows "apart (t + 1) k (s + 1) n"
  unfolding apart_def
proof (intro allI impI)
  fix i j
  assume "i < k" "j < n"
  then have "t + of_nat (Suc i) \<noteq> s + of_nat (Suc j)" by (intro apartD [OF assms]) auto
  then show "t + 1 + of_nat i \<noteq> s + 1 + of_nat j" by (simp add: ac_simps)
qed

lemma safestrcpy_loop_other:
  "n < 2 ^ 32 - 1 \<Longrightarrow> n < unat (a - s) \<Longrightarrow> safestrcpy_loop m s t n a = m a"
proof (induction n arbitrary: m s t)
  case 0
  then show ?case by auto
next
  case (Suc n)
  then have ne: "a \<noteq> s" "a \<noteq> s + 1" by auto
  moreover have "n < unat (a - (s + 1))" using Suc.prems(2) unat_diff_Suc [OF ne(1)] by simp
  moreover note Suc
  ultimately show ?case by (auto simp: Let_def)
qed

lemma safestrcpy_loop_str:
  assumes "str_at m t xs" "apart t (Suc (length xs)) s (Suc n)" "n < 2 ^ 32 - 1"
  shows "str_at (safestrcpy_loop m s t n) s (take n xs)"
  using assms
proof (induction n arbitrary: m s t xs)
  case 0
  then show ?case by simp
next
  case (Suc n)
  show ?case
  proof (cases xs)
    case Nil
    with Suc.prems show ?thesis by simp
  next
    case (Cons x xs')
    have ap: "apart (t + 1) (Suc (length xs')) (s + 1) (Suc n)"
      using apart_Suc Suc.prems(2) Cons by simp
    have "t + 1 + of_nat i \<noteq> s" if "i \<le> length xs'" for i
      using apartD [OF Suc.prems(2), of "Suc i" 0] that Cons by (simp add: ac_simps)
    then have "str_at (m(s := x)) (t + 1) xs'"
      using Suc.prems(1) Cons by (subst str_at_upd) auto
    from Suc.IH [OF this ap] Suc.prems(3)
    have "str_at (safestrcpy_loop (m(s := x)) (s + 1) (t + 1) n) (s + 1) (take n xs')"
      by (simp add: fun_upd_def)
    moreover have "safestrcpy_loop (m(s := x)) (s + 1) (t + 1) n s = x"
      using Suc.prems(3) by (subst safestrcpy_loop_other) (simp_all add: unat_minus_one_u32)
    ultimately show ?thesis using Suc.prems(1) Cons by (simp add: fun_upd_def)
  qed
qed

lemma safestrcpy_terminated:
  assumes "str_at m t xs" "0 < n" "n < 2 ^ 31" "apart t (Suc (length xs)) s (nat n)"
  shows "str_at (safestrcpy m s t n) s (take (nat n - 1) xs)"
    and "nat n \<le> unat (a - s) \<Longrightarrow> safestrcpy m s t n a = m a"
proof -
  have n: "Suc (nat n - 1) = nat n" "nat n - 1 < 2 ^ 32 - 1" using assms by auto
  show "str_at (safestrcpy m s t n) s (take (nat n - 1) xs)"
    using safestrcpy_loop_str [OF assms(1), of s "nat n - 1"] n assms by (simp add: safestrcpy_def)
  show "safestrcpy m s t n a = m a" if "nat n \<le> unat (a - s)"
    using safestrcpy_loop_other [of "nat n - 1" a s] n that assms by (simp add: safestrcpy_def)
qed

section \<open>Properties\<close>

text \<open>
  \<open>memset\<close> sets the \<open>n\<close> bytes from \<open>dst\<close> to the low byte of \<open>c\<close> and nothing else, whether
  it takes the path that stores bytes or the one that stores words.
\<close>

theorem memset_sets:
  "memset m dst c n = (\<lambda>a. if unat (a - dst) < unat n then ucast c else m a)"
  by (simp add: memset_filled filled_def)

text \<open>
  \<open>memmove\<close> copies correctly for overlapping ranges in both directions: afterwards every
  destination byte is what its source byte was before, and the other bytes are unchanged, unless
  one of the ranges wraps around the end of the address space.
\<close>

theorem memmove_overlap:
  assumes "unat src + unat n < 2 ^ 32" and "unat dst + unat n < 2 ^ 32"
  shows "memmove m dst src n =
    (\<lambda>a. if unat (a - dst) < unat n then m (src + (a - dst)) else m a)"
  using memmove_copied [OF assms] by (simp add: copied_def)

lemma memmove_overlap_witness:
  "memmove (\<lambda>a. ucast a) 102 100 4 =
     (\<lambda>a. if unat (a - 102) < 4 then ucast (100 + (a - 102) :: u32) else ucast a)"
  using memmove_overlap [of 100 4 102 "\<lambda>a. ucast a"] by simp

text \<open>
  \<open>safestrcpy\<close> always leaves a terminated string, the first \<open>n - 1\<close> characters of the source
  at most, and writes nothing outside the \<open>n\<close> bytes of the destination.
\<close>

theorem safestrcpy_safe:
  assumes "str_at m t xs" and "0 < n" and "n < 2 ^ 31" and "apart t (Suc (length xs)) s (nat n)"
  shows "str_at (safestrcpy m s t n) s (take (nat n - 1) xs)
    \<and> (\<forall>a. safestrcpy m s t n a \<noteq> m a \<longrightarrow> unat (a - s) < nat n)"
  using safestrcpy_terminated [OF assms] by (meson not_less)

lemma safestrcpy_safe_witness:
  "str_at (safestrcpy ((\<lambda>a. 0)(8 := 97, 9 := 98, 10 := 99)) 32 8 3) 32 [97, 98]"
proof -
  have "apart 8 (Suc (length [97, 98, 99 :: u8])) 32 (nat 3)"
    by (simp add: apart_upt upt_rec)
  from safestrcpy_safe [OF _ _ _ this, of "(\<lambda>a. 0)(8 := 97, 9 := 98, 10 := 99)"]
  show ?thesis by simp
qed

end
