(* ===== verification/ProcTable.thy ===== *)
theory ProcTable
  imports Prelude
begin

text \<open>
  The process table of \<open>Lab3/OS3-main/xv6-public/proc.c\<close> and \<open>proc.h\<close>, as far as every other
  component needs it: the process structure with its paging data, the current process, and
  \<open>sleep\<close>, \<open>wakeup\<close> and \<open>kill\<close>. Pointers to processes, files and inodes are indices into their
  tables, a null pointer is \<open>None\<close>. A region protected by \<open>ptable.lock\<close> is one atomic step.
\<close>

section \<open>Limits\<close>

definition NPROC :: nat where "NPROC = 64"
definition NOFILE :: nat where "NOFILE = 16"
definition MAX_PSYC_PAGES :: nat where "MAX_PSYC_PAGES = 15"
definition MAX_TOTAL_PAGES :: nat where "MAX_TOTAL_PAGES = 30"

section \<open>The process structure\<close>

text \<open>
  One entry of \<open>paging_meta_data\<close>: \<open>struct page\<close> and the links of \<open>struct page_in_mem\<close>, whose
  pointers are indices into the same array.
\<close>

record page =
  virtualAddr :: u32
  pagestate :: u32
  offset_in_file :: u32
  counter :: u32
  pages_array_index :: u32

record page_in_mem = page +
  pg_next :: "nat option"
  pg_prev :: "nat option"

record trapframe =
  tf_edi :: u32
  tf_esi :: u32
  tf_ebp :: u32
  tf_oesp :: u32
  tf_ebx :: u32
  tf_edx :: u32
  tf_ecx :: u32
  tf_eax :: u32
  tf_gs :: u16
  tf_fs :: u16
  tf_es :: u16
  tf_ds :: u16
  tf_trapno :: u32
  tf_err :: u32
  tf_eip :: u32
  tf_cs :: u16
  tf_eflags :: u32
  tf_esp :: u32
  tf_ss :: u16

datatype procstate = UNUSED | EMBRYO | SLEEPING | RUNNABLE | RUNNING | ZOMBIE

text \<open>
  \<open>tf\<close> is the content of the trap frame that \<open>p->tf\<close> points to; \<open>kcontext\<close> is the address of
  the saved kernel context on the kernel stack.
\<close>

record proc =
  sz :: u32
  pgdir :: u32
  kstack :: u32
  pstate :: procstate
  pid :: int
  parent :: "nat option"
  tf :: trapframe
  kcontext :: u32
  chan :: "chan option"
  killed :: bool
  ofile :: "nat \<Rightarrow> nat option"
  cwd :: "nat option"
  pname :: string
  va :: u32
  swapFile :: "nat option"
  paging_meta_data :: "nat \<Rightarrow> page_in_mem"
  head_page_in_mem :: "nat option"
  num_pages_in_file :: u32
  num_pages_in_main_mem :: u32

text \<open>
  The kernel state starts with the process table. \<open>curproc\<close> is the process on whose behalf the
  kernel is running, the value of \<open>myproc()\<close>.
\<close>

record ptable =
  procs :: "nat \<Rightarrow> proc"
  curproc :: nat
  initproc :: "nat option"
  nextpid :: int
  ticks :: u32

definition myproc :: "'a ptable_scheme \<Rightarrow> proc" where
  "myproc s = procs s (curproc s)"

definition upd_proc :: "nat \<Rightarrow> (proc \<Rightarrow> proc) \<Rightarrow> 'a ptable_scheme \<Rightarrow> 'a ptable_scheme" where
  "upd_proc i f s = s\<lparr>procs := (procs s)(i := f (procs s i))\<rparr>"

section \<open>sleep, wakeup, kill\<close>

text \<open>
  \<open>sleep\<close> up to the call of \<open>sched\<close>, which gives the CPU away, and after it, when the process has
  been scheduled again.
\<close>

definition sleep_enter :: "chan \<Rightarrow> 'a ptable_scheme \<Rightarrow> 'a ptable_scheme" where
  "sleep_enter c s = upd_proc (curproc s) (\<lambda>p. p\<lparr>chan := Some c, pstate := SLEEPING\<rparr>) s"

definition sleep_exit :: "'a ptable_scheme \<Rightarrow> 'a ptable_scheme" where
  "sleep_exit s = upd_proc (curproc s) (\<lambda>p. p\<lparr>chan := None\<rparr>) s"

definition wake_proc :: "chan \<Rightarrow> proc \<Rightarrow> proc" where
  "wake_proc c p = (if pstate p = SLEEPING \<and> chan p = Some c then p\<lparr>pstate := RUNNABLE\<rparr> else p)"

definition wakeup1 :: "chan \<Rightarrow> 'a ptable_scheme \<Rightarrow> 'a ptable_scheme" where
  "wakeup1 c s = s\<lparr>procs := (\<lambda>i. if i < NPROC then wake_proc c (procs s i) else procs s i)\<rparr>"

definition wakeup :: "chan \<Rightarrow> 'a ptable_scheme \<Rightarrow> 'a ptable_scheme" where
  "wakeup c s = wakeup1 c s"

definition kill :: "int \<Rightarrow> 'a ptable_scheme \<Rightarrow> int \<times> 'a ptable_scheme" where
  "kill n s =
     (case List.find (\<lambda>i. pid (procs s i) = n) [0..<NPROC] of
        None \<Rightarrow> (- 1, s)
      | Some i \<Rightarrow>
          (0, upd_proc i (\<lambda>p. let p' = p\<lparr>killed := True\<rparr>
                in if pstate p' = SLEEPING then p'\<lparr>pstate := RUNNABLE\<rparr> else p') s))"

text \<open>The static table starts out zeroed: \<open>UNUSED\<close> is 0, a null pointer is \<open>None\<close>.\<close>

definition zero_page :: page_in_mem where
  "zero_page = \<lparr>virtualAddr = 0, pagestate = 0, offset_in_file = 0, counter = 0,
     pages_array_index = 0, pg_next = None, pg_prev = None\<rparr>"

definition zero_tf :: trapframe where
  "zero_tf = \<lparr>tf_edi = 0, tf_esi = 0, tf_ebp = 0, tf_oesp = 0, tf_ebx = 0, tf_edx = 0, tf_ecx = 0,
     tf_eax = 0, tf_gs = 0, tf_fs = 0, tf_es = 0, tf_ds = 0, tf_trapno = 0, tf_err = 0, tf_eip = 0,
     tf_cs = 0, tf_eflags = 0, tf_esp = 0, tf_ss = 0\<rparr>"

definition zero_proc :: proc where
  "zero_proc = \<lparr>sz = 0, pgdir = 0, kstack = 0, pstate = UNUSED, pid = 0, parent = None,
     tf = zero_tf, kcontext = 0, chan = None, killed = False, ofile = (\<lambda>i. None), cwd = None,
     pname = [], va = 0, swapFile = None, paging_meta_data = (\<lambda>i. zero_page),
     head_page_in_mem = None, num_pages_in_file = 0, num_pages_in_main_mem = 0\<rparr>"

lemma curproc_upd_proc [simp]: "curproc (upd_proc i f s) = curproc s"
  by (simp add: upd_proc_def)

lemma procs_upd_proc [simp]: "procs (upd_proc i f s) = (procs s)(i := f (procs s i))"
  by (simp add: upd_proc_def)

lemma curproc_wakeup [simp]: "curproc (wakeup c s) = curproc s"
  by (simp add: wakeup_def wakeup1_def)

lemma pid_wake_proc [simp]: "pid (wake_proc c p) = pid p"
  by (simp add: wake_proc_def)

lemma pid_wakeup [simp]: "pid (procs (wakeup c s) i) = pid (procs s i)"
  by (simp add: wakeup_def wakeup1_def)

lemma pid_myproc_wakeup [simp]: "pid (myproc (wakeup c s)) = pid (myproc s)"
  by (simp add: myproc_def)

lemma ofile_wakeup [simp]: "ofile (procs (wakeup c s) i) = ofile (procs s i)"
  by (simp add: wakeup_def wakeup1_def wake_proc_def)

text \<open>Waking twice is waking once, and wakes no one on another channel.\<close>

lemma wake_proc_idem: "wake_proc c (wake_proc c p) = wake_proc c p"
  by (simp add: wake_proc_def)

lemma wakeup_idem: "wakeup c (wakeup c s) = wakeup c s"
  by (auto simp: wakeup_def wakeup1_def wake_proc_idem fun_eq_iff)

lemma pstate_wakeup:
  "i < NPROC \<Longrightarrow> pstate (procs (wakeup c s) i) =
     (if pstate (procs s i) = SLEEPING \<and> chan (procs s i) = Some c then RUNNABLE
      else pstate (procs s i))"
  by (simp add: wakeup_def wakeup1_def wake_proc_def)

lemma pstate_wakeup_other:
  "pstate (procs s i) \<noteq> SLEEPING \<or> chan (procs s i) \<noteq> Some c \<Longrightarrow>
   procs (wakeup c s) i = procs s i"
  by (auto simp: wakeup_def wakeup1_def wake_proc_def)

end
