(* ===== verification/Kalloc.thy ===== *)
theory Kalloc
  imports ProcTable CString
begin

text \<open>
  \<open>kalloc.c\<close>: the physical page allocator. \<open>mem\<close> is the memory the kernel sees through its direct
  map, indexed by kernel virtual address (physical address plus \<open>KERNBASE\<close>); the free list is
  threaded through the first word of each free page, as \<open>struct run\<close> does. \<open>kend\<close> is the linker
  symbol \<open>end\<close>. The locale \<open>page_allocator\<close> states what clients rely on: pages in use are
  distinct, a page is never handed out again before it is freed, and no page is lost.
\<close>

section \<open>The memory layout (memlayout.h, mmu.h)\<close>

definition EXTMEM :: u32 where "EXTMEM = 0x100000"
definition PHYSTOP :: u32 where "PHYSTOP = 0xF00000"
definition DEVSPACE :: u32 where "DEVSPACE = 0xFE000000"
definition KERNBASE :: u32 where "KERNBASE = 0x80000000"
definition KERNLINK :: u32 where "KERNLINK = KERNBASE + EXTMEM"
definition V2P :: "u32 \<Rightarrow> u32" where "V2P a = a - KERNBASE"
definition P2V :: "u32 \<Rightarrow> u32" where "P2V a = a + KERNBASE"
definition PGSIZE :: u32 where "PGSIZE = 4096"

definition PGROUNDUP :: "u32 \<Rightarrow> u32" where
  "PGROUNDUP x = (x + PGSIZE - 1) AND NOT (PGSIZE - 1)"

definition PGROUNDDOWN :: "u32 \<Rightarrow> u32" where
  "PGROUNDDOWN x = x AND NOT (PGSIZE - 1)"

section \<open>The allocator\<close>

record kmem = ptable +
  mem :: memory
  freelist :: u32
  kend :: u32

definition kfree :: "u32 \<Rightarrow> 'a kmem_scheme \<Rightarrow> 'a kmem_scheme res" where
  "kfree v s =
     (if v mod PGSIZE \<noteq> 0 \<or> v < kend s \<or> V2P v \<ge> PHYSTOP then Panic ''kfree??????????''
      else let m = memset (mem s) v 1 PGSIZE
           in Ok (s\<lparr>mem := wr32 m v (freelist s), freelist := v\<rparr>))"

definition kalloc :: "'a kmem_scheme \<Rightarrow> u32 \<times> 'a kmem_scheme" where
  "kalloc s =
     (let r = freelist s
      in if r \<noteq> 0 then (r, s\<lparr>freelist := rd32 (mem s) r\<rparr>) else (r, s))"

text \<open>
  \<open>freerange\<close> stops when the next page would pass \<open>vend\<close>; if the pointer wraps first it never
  returns (\<open>None\<close>).
\<close>

partial_function (option) freerange_loop ::
    "u32 \<Rightarrow> u32 \<Rightarrow> 'a kmem_scheme \<Rightarrow> 'a kmem_scheme res option" where
  "freerange_loop p vend s =
     (if p + PGSIZE \<le> vend
      then (case kfree p s of
              Ok s' \<Rightarrow> freerange_loop (p + PGSIZE) vend s'
            | e \<Rightarrow> Some e)
      else Some (Ok s))"

definition freerange :: "u32 \<Rightarrow> u32 \<Rightarrow> 'a kmem_scheme \<Rightarrow> 'a kmem_scheme res option" where
  "freerange vstart vend s = freerange_loop (PGROUNDUP vstart) vend s"

section \<open>Page arithmetic\<close>

lemma page_mod_unat: "(v :: u32) mod 4096 = 0 \<longleftrightarrow> unat v mod 4096 = 0"
proof -
  have "v mod 4096 = 0 \<longleftrightarrow> unat (v mod 4096) = 0" by (simp add: unat_eq_0)
  then show ?thesis by (simp add: unat_mod)
qed

lemma page_diff:
  fixes x y :: u32
  assumes "x mod 4096 = 0" "y mod 4096 = 0"
  shows "unat (x - y) mod 4096 = 0"
proof -
  have "4096 dvd unat x" "4096 dvd unat y"
    using assms page_mod_unat by (auto simp: mod_eq_0_iff_dvd)
  then obtain a b where a: "unat x = 4096 * a" and b: "unat y = 4096 * b" by (auto elim!: dvdE)
  have "unat y < 4294967296" using unat_u32_less [of y] by simp
  with a b show ?thesis by (simp add: unat_sub_if' mod_eq_0_iff_dvd)
qed

lemma other_page:
  fixes x y k :: u32
  assumes "x mod 4096 = 0" "y mod 4096 = 0" "x \<noteq> y" "unat k < 4096"
  shows "4096 \<le> unat (x + k - y)"
proof -
  let ?z = "x - y"
  have z: "unat ?z mod 4096 = 0" using assms(1,2) by (rule page_diff)
  have "unat ?z \<noteq> 0" using assms(3) by (simp add: unat_eq_0)
  with z have ge: "4096 \<le> unat ?z" by (metis mod_less not_less)
  have "unat ?z < 2 ^ 32" by (rule unat_u32_less)
  with z have "unat ?z + 4096 \<le> 2 ^ 32" by (auto simp: mod_eq_0_iff_dvd elim!: dvdE)
  with assms(4) have "unat (?z + k) = unat ?z + unat k" by (simp add: unat_word_ariths)
  moreover have "x + k - y = ?z + k" by simp
  ultimately show ?thesis using ge by (simp only: trans_le_add1)
qed

lemma unat_4096 [simp]: "unat (4096 :: u32) = 4096"
  by simp

section \<open>The allocator's invariant\<close>

text \<open>
  \<open>flist m p xs\<close>: the list threaded through memory from \<open>p\<close> consists of the pages \<open>xs\<close>.
  \<open>page_ok\<close> is what \<open>kfree\<close> tests.
\<close>

fun flist :: "memory \<Rightarrow> u32 \<Rightarrow> u32 list \<Rightarrow> bool" where
  "flist m p [] \<longleftrightarrow> p = 0"
| "flist m p (x # xs) \<longleftrightarrow> p = x \<and> x \<noteq> 0 \<and> flist m (rd32 m x) xs"

definition page_ok :: "'a kmem_scheme \<Rightarrow> u32 \<Rightarrow> bool" where
  "page_ok s v \<longleftrightarrow> v mod PGSIZE = 0 \<and> kend s \<le> v \<and> V2P v < PHYSTOP"

definition kmem_free :: "'a kmem_scheme \<Rightarrow> u32 list \<Rightarrow> bool" where
  "kmem_free s xs \<longleftrightarrow> 0 < kend s \<and> flist (mem s) (freelist s) xs \<and> distinct xs
     \<and> (\<forall>x\<in>set xs. page_ok s x)"

lemma flist_cong: "(\<forall>x\<in>set xs. rd32 m x = rd32 m' x) \<Longrightarrow> flist m p xs = flist m' p xs"
  by (induction xs arbitrary: p) auto

lemma kfree_memory:
  "wr32 (memset m v 1 PGSIZE) v w a =
     (if unat (a - v) < 4 then byte w (unat (a - v))
      else if unat (a - v) < 4096 then 1 else m a)"
proof (cases "unat (a - v) < 4")
  case True
  have offset: "a = v + of_nat k" if "unat (a - v) = k" for k using that by auto
  from True consider "unat (a - v) = 0" | "unat (a - v) = 1" | "unat (a - v) = 2" | "unat (a - v) = 3"
    by linarith
  then have "a = v \<and> unat (a - v) = 0 \<or> a = v + 1 \<and> unat (a - v) = 1
      \<or> a = v + 2 \<and> unat (a - v) = 2 \<or> a = v + 3 \<and> unat (a - v) = 3"
    using offset [of 0] offset [of 1] offset [of 2] offset [of 3] by cases simp_all
  with True show ?thesis by (auto simp: wr32_def)
next
  case False
  then have "a \<noteq> v" "a \<noteq> v + 1" "a \<noteq> v + 2" "a \<noteq> v + 3" by auto
  with False show ?thesis by (simp add: wr32_def memset_filled filled_def PGSIZE_def)
qed

lemma kfree_frame:
  assumes "x mod PGSIZE = 0" "v mod PGSIZE = 0" "x \<noteq> v" "unat k < 4096"
  shows "wr32 (memset m v 1 PGSIZE) v w (x + k) = m (x + k)"
proof -
  have "4096 \<le> unat (x + k - v)" using other_page [of x v k] assms by (simp add: PGSIZE_def)
  then show ?thesis by (simp add: kfree_memory)
qed

lemma kfree_frame_word:
  assumes "x mod PGSIZE = 0" "v mod PGSIZE = 0" "x \<noteq> v"
  shows "rd32 (wr32 (memset m v 1 PGSIZE) v w) x = rd32 m x"
  using kfree_frame [OF assms, of 0] kfree_frame [OF assms, of 1] kfree_frame [OF assms, of 2]
    kfree_frame [OF assms, of 3]
  by (simp add: rd32_def)

section \<open>What the operations do\<close>

lemma kfree_free:
  assumes s: "kmem_free s xs" and v: "page_ok s v" "v \<notin> set xs"
  shows "\<exists>s'. kfree v s = Ok s' \<and> kmem_free s' (v # xs)"
proof -
  let ?m = "wr32 (memset (mem s) v 1 PGSIZE) v (freelist s)"
  let ?s = "s\<lparr>mem := ?m, freelist := v\<rparr>"
  have ok: "\<And>x. page_ok ?s x = page_ok s x" by (simp add: page_ok_def)
  have "v \<noteq> 0" using s v by (auto simp: kmem_free_def page_ok_def word_le_nat_alt word_less_nat_alt)
  moreover have "flist ?m (freelist s) xs"
  proof -
    have "\<forall>x\<in>set xs. rd32 (mem s) x = rd32 ?m x"
    proof
      fix x
      assume x: "x \<in> set xs"
      then have "x mod PGSIZE = 0" using s by (simp add: kmem_free_def page_ok_def)
      moreover have "v mod PGSIZE = 0" using v by (simp add: page_ok_def)
      moreover have "x \<noteq> v" using x v by metis
      ultimately show "rd32 (mem s) x = rd32 ?m x" by (simp add: kfree_frame_word)
    qed
    from flist_cong [OF this] s show ?thesis by (simp add: kmem_free_def)
  qed
  ultimately have "kmem_free ?s (v # xs)"
    using s v ok by (simp add: kmem_free_def)
  moreover have "kfree v s = Ok ?s"
    using v by (simp add: kfree_def page_ok_def Let_def not_less not_le)
  ultimately show ?thesis by blast
qed

lemma kalloc_free:
  assumes "kmem_free s xs"
  shows "case xs of
      [] \<Rightarrow> kalloc s = (0, s)
    | x # ys \<Rightarrow> \<exists>s'. kalloc s = (x, s') \<and> x \<noteq> 0 \<and> mem s' = mem s \<and> kmem_free s' ys"
  using assms
  by (cases xs) (auto simp: kalloc_def kmem_free_def page_ok_def Let_def)

lemma kfree_bad: "\<not> page_ok s v \<Longrightarrow> kfree v s = Panic ''kfree??????????''"
  unfolding kfree_def page_ok_def by (metis not_le)

section \<open>The contract of a page allocator\<close>

text \<open>
  A client that only frees what it owns. \<open>owned\<close> are the pages it holds; each request names
  either an allocation or the owned page to give back.
\<close>

fun page_client ::
    "('s \<Rightarrow> 'p option \<times> 's) \<Rightarrow> ('p \<Rightarrow> 's \<Rightarrow> 's option) \<Rightarrow> 'p option list \<Rightarrow> 'p list \<Rightarrow> 's \<Rightarrow> ('p list \<times> 's) option" where
  "page_client alloc free [] owned s = Some (owned, s)"
| "page_client alloc free (None # rs) owned s =
     (case alloc s of
        (None, s') \<Rightarrow> page_client alloc free rs owned s'
      | (Some p, s') \<Rightarrow> page_client alloc free rs (p # owned) s')"
| "page_client alloc free (Some p # rs) owned s =
     (if p \<in> set owned
      then (case free p s of None \<Rightarrow> None | Some s' \<Rightarrow> page_client alloc free rs (remove1 p owned) s')
      else page_client alloc free rs owned s)"

text \<open>
  \<open>rep s X\<close>: in state \<open>s\<close> the free pages are the list \<open>X\<close>. \<open>valid\<close> says which pages may be freed.
\<close>

locale page_allocator =
  fixes alloc :: "'s \<Rightarrow> 'p option \<times> 's"
    and free :: "'p \<Rightarrow> 's \<Rightarrow> 's option"
    and rep :: "'s \<Rightarrow> 'p list \<Rightarrow> bool"
    and valid :: "'p \<Rightarrow> 's \<Rightarrow> bool"
  assumes rep_distinct: "rep s X \<Longrightarrow> distinct X"
    and rep_valid: "rep s X \<Longrightarrow> p \<in> set X \<Longrightarrow> valid p s"
    and alloc_none: "rep s [] \<Longrightarrow> alloc s = (None, s)"
    and alloc_some: "rep s (p # X) \<Longrightarrow> \<exists>s'. alloc s = (Some p, s') \<and> rep s' X"
    and alloc_valid: "alloc s = (r, s') \<Longrightarrow> valid p s' = valid p s"
    and free_some: "rep s X \<Longrightarrow> valid p s \<Longrightarrow> p \<notin> set X \<Longrightarrow> \<exists>s'. free p s = Some s' \<and> rep s' (p # X)"
    and free_valid: "free p s = Some s' \<Longrightarrow> valid q s' = valid q s"
begin

text \<open>The pages of \<open>U\<close>, each once: some owned by the client, the rest free.\<close>

definition pools :: "'p set \<Rightarrow> 'p list \<Rightarrow> 's \<Rightarrow> bool" where
  "pools U owned s \<longleftrightarrow>
     (\<exists>X. rep s X \<and> distinct (owned @ X) \<and> set (owned @ X) = U \<and> (\<forall>p\<in>U. valid p s))"

lemma alloc_pools:
  assumes "pools U owned s"
  shows "(alloc s = (None, s)) \<or>
     (\<exists>p s'. alloc s = (Some p, s') \<and> p \<notin> set owned \<and> pools U (p # owned) s')"
proof -
  obtain X where X: "rep s X" "distinct (owned @ X)" "set (owned @ X) = U" "\<forall>p\<in>U. valid p s"
    using assms by (auto simp: pools_def)
  show ?thesis
  proof (cases X)
    case Nil
    with X show ?thesis using alloc_none by simp
  next
    case (Cons p Y)
    with X alloc_some obtain s' where s': "alloc s = (Some p, s')" "rep s' Y" by blast
    moreover have "pools U (p # owned) s'"
      unfolding pools_def using X Cons s' alloc_valid [OF s'(1)]
      by (intro exI [of _ Y]) auto
    ultimately show ?thesis using X(2) Cons by auto
  qed
qed

lemma free_pools:
  assumes "pools U owned s" "p \<in> set owned"
  shows "\<exists>s'. free p s = Some s' \<and> pools U (remove1 p owned) s'"
proof -
  obtain X where X: "rep s X" "distinct (owned @ X)" "set (owned @ X) = U" "\<forall>p\<in>U. valid p s"
    using assms by (auto simp: pools_def)
  with assms(2) free_some [of s X p] obtain s' where s': "free p s = Some s'" "rep s' (p # X)"
    by auto
  moreover have "pools U (remove1 p owned) s'"
    unfolding pools_def using X assms(2) s' free_valid [OF s'(1)]
    by (intro exI [of _ "p # X"]) auto
  ultimately show ?thesis by blast
qed

lemma client_safe:
  "pools U owned s \<Longrightarrow>
   \<exists>owned' s'. page_client alloc free rs owned s = Some (owned', s') \<and> pools U owned' s'"
proof (induction rs arbitrary: owned s)
  case Nil
  then show ?case by simp
next
  case (Cons r rs)
  show ?case
  proof (cases r)
    case None
    with Cons alloc_pools [OF Cons.prems] show ?thesis by (elim disjE exE conjE) auto
  next
    case (Some p)
    with Cons free_pools [OF Cons.prems, of p] show ?thesis
      by (cases "p \<in> set owned") auto
  qed
qed

end

section \<open>The kernel's allocator meets the contract\<close>

definition kalloc_opt :: "'a kmem_scheme \<Rightarrow> u32 option \<times> 'a kmem_scheme" where
  "kalloc_opt s = (case kalloc s of (r, s') \<Rightarrow> (if r = 0 then None else Some r, s'))"

definition kfree_opt :: "u32 \<Rightarrow> 'a kmem_scheme \<Rightarrow> 'a kmem_scheme option" where
  "kfree_opt v s = (case kfree v s of Ok s' \<Rightarrow> Some s' | _ \<Rightarrow> None)"

lemma page_ok_cong: "kend s' = kend s \<Longrightarrow> page_ok s' v = page_ok s v"
  by (simp add: page_ok_def)

lemma page_ok_kalloc: "kalloc_opt s = (r, s') \<Longrightarrow> page_ok s' v = page_ok s v"
  by (rule page_ok_cong) (auto simp: kalloc_opt_def kalloc_def Let_def split: if_splits)

lemma page_ok_kfree: "kfree_opt u s = Some s' \<Longrightarrow> page_ok s' v = page_ok s v"
  by (rule page_ok_cong)
    (auto simp: kfree_opt_def kfree_def Let_def split: if_splits res.splits)

interpretation ka: page_allocator kalloc_opt kfree_opt kmem_free "\<lambda>v s. page_ok s v"
proof unfold_locales
  fix s :: "'a kmem_scheme" and X p
  show "kmem_free s X \<Longrightarrow> distinct X" by (simp add: kmem_free_def)
  show "kmem_free s X \<Longrightarrow> p \<in> set X \<Longrightarrow> page_ok s p" by (simp add: kmem_free_def)
  show "kmem_free s [] \<Longrightarrow> kalloc_opt s = (None, s)"
    using kalloc_free [of s "[]"] by (simp add: kalloc_opt_def)
  show "kmem_free s (p # X) \<Longrightarrow> \<exists>s'. kalloc_opt s = (Some p, s') \<and> kmem_free s' X"
    using kalloc_free [of s "p # X"] by (auto simp: kalloc_opt_def)
  show "kmem_free s X \<Longrightarrow> page_ok s p \<Longrightarrow> p \<notin> set X \<Longrightarrow>
      \<exists>s'. kfree_opt p s = Some s' \<and> kmem_free s' (p # X)"
    using kfree_free [of s X p] by (auto simp: kfree_opt_def)
qed (auto simp: page_ok_kalloc page_ok_kfree)

section \<open>Building the pool\<close>

text \<open>The pages \<open>freerange\<close> visits from \<open>p\<close>: \<open>n\<close> of them, the last one freed first in the list.\<close>

definition page_run :: "u32 \<Rightarrow> nat \<Rightarrow> u32 list" where
  "page_run p n = map (\<lambda>i. p + of_nat i * PGSIZE) [0..<n]"

lemma page_run_Suc: "page_run p (Suc n) = p # page_run (p + PGSIZE) n"
  by (simp add: page_run_def map_upt_Suc algebra_simps del: upt_Suc)

text \<open>
  \<open>p\<close> is a page, \<open>n\<close> pages fit between it and \<open>vend\<close> and no more, and nothing wraps.
\<close>

definition run_fits :: "u32 \<Rightarrow> u32 \<Rightarrow> nat \<Rightarrow> bool" where
  "run_fits p vend n \<longleftrightarrow> unat p mod 4096 = 0 \<and> unat p + 4096 * n \<le> unat vend
     \<and> unat vend < unat p + 4096 * Suc n \<and> unat p + 4096 * Suc n < 2 ^ 32"

lemma run_fits_next:
  assumes "run_fits p vend (Suc n)"
  shows "run_fits (p + PGSIZE) vend n" "p + PGSIZE \<le> vend" "unat (p + PGSIZE) = unat p + 4096"
proof -
  show u: "unat (p + PGSIZE) = unat p + 4096"
    using assms by (simp add: run_fits_def PGSIZE_def unat_word_ariths)
  then show "run_fits (p + PGSIZE) vend n" "p + PGSIZE \<le> vend"
    using assms by (auto simp: run_fits_def word_le_nat_alt)
qed

lemma run_fits_last: "run_fits p vend 0 \<Longrightarrow> \<not> p + PGSIZE \<le> vend"
  by (simp add: run_fits_def PGSIZE_def word_le_nat_alt unat_word_ariths)

lemma unat_page_run:
  "run_fits p vend n \<Longrightarrow> x \<in> set (page_run p n) \<Longrightarrow> unat p \<le> unat x"
proof (induction n arbitrary: p)
  case 0
  then show ?case by (simp add: page_run_def)
next
  case (Suc n)
  then show ?case using run_fits_next [OF Suc.prems(1)] by (fastforce simp: page_run_Suc)
qed

lemma freerange_loop_pages:
  assumes "run_fits p vend n" "kmem_free s xs" "\<forall>x\<in>set (page_run p n). page_ok s x \<and> x \<notin> set xs"
  shows "\<exists>s'. freerange_loop p vend s = Some (Ok s') \<and> kmem_free s' (rev (page_run p n) @ xs)
           \<and> kend s' = kend s"
  using assms
proof (induction n arbitrary: p s xs)
  case 0
  then show ?case
    using run_fits_last [of p vend] by (simp add: freerange_loop.simps [of p] page_run_def)
next
  case (Suc n)
  note next_run = run_fits_next [OF Suc.prems(1)]
  have p: "page_ok s p" "p \<notin> set xs" using Suc.prems(3) by (auto simp: page_run_Suc)
  from kfree_free [OF Suc.prems(2) this]
  obtain t where t: "kfree p s = Ok t" "kmem_free t (p # xs)" by blast
  have kt: "kend t = kend s"
    using t(1) by (auto simp: kfree_def Let_def split: if_splits)
  have "p \<notin> set (page_run (p + PGSIZE) n)"
    using unat_page_run [OF next_run(1), of p] next_run(3) by auto
  then have "\<forall>x\<in>set (page_run (p + PGSIZE) n). page_ok t x \<and> x \<notin> set (p # xs)"
    using Suc.prems(3) page_ok_cong [OF kt] by (auto simp: page_run_Suc)
  from Suc.IH [OF next_run(1) t(2) this] t(1) next_run(2) kt show ?case
    by (auto simp: freerange_loop.simps [of p] page_run_Suc)
qed

section \<open>Properties\<close>

text \<open>
  C13: No page is ever handed out twice or lost. A client that only frees pages it holds runs any
  sequence of \<open>kalloc\<close> and \<open>kfree\<close> without a panic, and at the end the pages it holds and the
  pages of the free list are the same pages as at the start, each exactly once.
\<close>

theorem no_double_allocation:
  assumes "kmem_free s xs" and "distinct (owned @ xs)" and "\<forall>p\<in>set owned. page_ok s p"
  shows "\<exists>owned' s' xs'. page_client kalloc_opt kfree_opt rs owned s = Some (owned', s')
           \<and> kmem_free s' xs' \<and> distinct (owned' @ xs') \<and> set (owned' @ xs') = set (owned @ xs)"
proof -
  have "ka.pools (set (owned @ xs)) owned s"
    unfolding ka.pools_def using assms by (intro exI [of _ xs]) (auto simp: kmem_free_def)
  from ka.client_safe [OF this] show ?thesis unfolding ka.pools_def by blast
qed

text \<open>A machine whose kernel ends at \<open>0x80115000\<close>, with an empty free list.\<close>

definition kmem0 :: kmem where
  "kmem0 = \<lparr>procs = (\<lambda>i. zero_proc), curproc = 0, initproc = None, nextpid = 1, ticks = 0,
     mem = (\<lambda>a. 0), freelist = 0, kend = 0x80115000\<rparr>"

lemma no_double_allocation_witness:
  "\<exists>owned' s' xs'. page_client kalloc_opt kfree_opt [Some 0x80400000, None, Some 0x80401000, None]
        [0x80400000, 0x80401000] kmem0 = Some (owned', s')
     \<and> kmem_free s' xs' \<and> distinct (owned' @ xs') \<and> set (owned' @ xs') = {0x80400000, 0x80401000}"
  using no_double_allocation [of kmem0 "[]" "[0x80400000, 0x80401000]"
      "[Some 0x80400000, None, Some 0x80401000, None]"]
  by (simp add: kmem0_def kmem_free_def page_ok_def V2P_def KERNBASE_def PHYSTOP_def PGSIZE_def)

text \<open>
  C38: \<open>freerange\<close> returns and puts every whole page between its bounds on the free list, exactly
  once, when the range lies inside the memory that \<open>kfree\<close> accepts and does not wrap.
\<close>

theorem freerange_frees_range:
  assumes "run_fits (PGROUNDUP vstart) vend n" and "kmem_free s []"
    and "\<forall>x\<in>set (page_run (PGROUNDUP vstart) n). page_ok s x"
  shows "\<exists>s'. freerange vstart vend s = Some (Ok s')
           \<and> kmem_free s' (rev (page_run (PGROUNDUP vstart) n))"
  using freerange_loop_pages [OF assms(1,2)] assms(3) by (auto simp: freerange_def)

lemma freerange_frees_range_witness:
  "\<exists>s'. freerange 0x80115001 0x80119fff kmem0 = Some (Ok s')
     \<and> kmem_free s' [0x80118000, 0x80117000, 0x80116000]"
proof -
  have up: "PGROUNDUP 0x80115001 = 0x80116000" by (simp add: PGROUNDUP_def PGSIZE_def)
  have run: "page_run 0x80116000 3 = [0x80116000, 0x80117000, 0x80118000]"
    by (simp add: page_run_def PGSIZE_def upt_rec)
  show ?thesis
    using freerange_frees_range [of "0x80115001" "0x80119fff" 3 kmem0]
    by (simp add: up run run_fits_def kmem0_def kmem_free_def page_ok_def V2P_def KERNBASE_def
        PHYSTOP_def PGSIZE_def)
qed

end
