(* ===== verification/SleepLock.thy ===== *)
theory SleepLock
  imports ProcTable
begin

text \<open>
  \<open>sleeplock.c\<close>: the long-term locks of buffers and inodes. The spin lock inside the structure
  makes each routine one atomic step; \<open>acquiresleep\<close> on a lock that is held goes to sleep on the
  lock's channel. The locale \<open>mutex\<close> is the contract of a lock that names its holder.
\<close>

record sleeplock =
  locked :: bool
  lk_pid :: int

definition initsleeplock :: sleeplock where
  "initsleeplock = \<lparr>locked = False, lk_pid = 0\<rparr>"

definition acquiresleep :: "chan \<Rightarrow> int \<Rightarrow> sleeplock \<Rightarrow> sleeplock res" where
  "acquiresleep c me lk = (if locked lk then Blocked c else Ok (lk\<lparr>locked := True, lk_pid := me\<rparr>))"

text \<open>\<open>releasesleep\<close> frees the lock and wakes the processes that sleep on it.\<close>

definition unlocked :: "sleeplock \<Rightarrow> sleeplock" where
  "unlocked lk = lk\<lparr>locked := False, lk_pid := 0\<rparr>"

definition releasesleep ::
    "chan \<Rightarrow> sleeplock \<Rightarrow> 'a ptable_scheme \<Rightarrow> sleeplock \<times> 'a ptable_scheme" where
  "releasesleep c lk s = (unlocked lk, wakeup c s)"

definition holdingsleep :: "int \<Rightarrow> sleeplock \<Rightarrow> bool" where
  "holdingsleep me lk \<longleftrightarrow> locked lk \<and> lk_pid lk = me"

section \<open>The contract of a lock\<close>

text \<open>
  Processes that take the lock when they can and release it only while holding it: a schedule is
  a list of (process, whether it wants to take or to release). At every point at most one process
  believes that it is in the critical section, and it is the holder.
\<close>

fun lock_run ::
    "('p \<Rightarrow> 'l \<Rightarrow> 'l option) \<Rightarrow> ('l \<Rightarrow> 'l) \<Rightarrow> ('p \<times> bool) list \<Rightarrow> 'l \<times> 'p set \<Rightarrow> 'l \<times> 'p set" where
  "lock_run attempt rel [] st = st"
| "lock_run attempt rel ((p, True) # es) (l, crit) =
     (if p \<in> crit then lock_run attempt rel es (l, crit)
      else (case attempt p l of None \<Rightarrow> lock_run attempt rel es (l, crit) | Some l' \<Rightarrow> lock_run attempt rel es (l', insert p crit)))"
| "lock_run attempt rel ((p, False) # es) (l, crit) =
     (if p \<in> crit then lock_run attempt rel es (rel l, crit - {p}) else lock_run attempt rel es (l, crit))"

text \<open>\<open>attempt me l\<close> takes the lock for \<open>me\<close> or fails; \<open>free\<close> means that nobody holds it.\<close>

locale mutex =
  fixes attempt :: "'p \<Rightarrow> 'l \<Rightarrow> 'l option"
    and rel :: "'l \<Rightarrow> 'l"
    and holds :: "'p \<Rightarrow> 'l \<Rightarrow> bool"
    and free :: "'l \<Rightarrow> bool"
  assumes attempt_free: "free l \<Longrightarrow> \<exists>l'. attempt p l = Some l' \<and> holds p l' \<and> \<not> free l'"
    and attempt_held: "\<not> free l \<Longrightarrow> attempt p l = None"
    and holds_unique: "holds p l \<Longrightarrow> holds q l \<Longrightarrow> p = q"
    and holds_not_free: "holds p l \<Longrightarrow> \<not> free l"
    and rel_free: "free (rel l)"
begin

definition agrees :: "'l \<times> 'p set \<Rightarrow> bool" where
  "agrees st \<longleftrightarrow> (free (fst st) \<longrightarrow> snd st = {}) \<and>
     (\<not> free (fst st) \<longrightarrow> (\<exists>p. snd st = {p} \<and> holds p (fst st)))"

lemma run_agrees: "agrees st \<Longrightarrow> agrees (lock_run attempt rel es st)"
proof (induction es arbitrary: st)
  case Nil
  then show ?case by simp
next
  case (Cons e es)
  obtain p w l crit where e: "e = (p, w)" "st = (l, crit)" by (cases e; cases st) auto
  show ?case
  proof (cases "p \<in> crit")
    case True
    then have "crit - {p} = {}" using Cons.prems e by (auto simp: agrees_def split: if_splits)
    with True Cons e show ?thesis by (cases w) (simp_all add: agrees_def rel_free)
  next
    case False
    note out = this
    show ?thesis
    proof (cases "free l")
      case True
      with attempt_free obtain l' where "attempt p l = Some l'" "holds p l'" "\<not> free l'" by blast
      moreover from True Cons.prems e have "crit = {}" by (simp add: agrees_def)
      ultimately show ?thesis using Cons out e by (cases w) (simp_all add: agrees_def)
    next
      case False
      then show ?thesis using Cons out e by (cases w) (simp_all add: attempt_held)
    qed
  qed
qed

lemma mutual_exclusion:
  assumes "free l" "lock_run attempt rel es (l, {}) = (l', crit)" "p \<in> crit" "q \<in> crit"
  shows "p = q" "holds p l'"
proof -
  have "agrees (l', crit)" using run_agrees [of "(l, {})" es] assms by (simp add: agrees_def)
  with assms(3,4) show "p = q" "holds p l'" by (auto simp: agrees_def split: if_splits)
qed

end

definition acquiresleep_try :: "int \<Rightarrow> sleeplock \<Rightarrow> sleeplock option" where
  "acquiresleep_try me lk = (case acquiresleep ChLog me lk of Ok l \<Rightarrow> Some l | _ \<Rightarrow> None)"

interpretation sl: mutex acquiresleep_try unlocked holdingsleep "\<lambda>lk. \<not> locked lk"
  by unfold_locales
    (auto simp: acquiresleep_try_def acquiresleep_def unlocked_def holdingsleep_def)

section \<open>Properties\<close>

text \<open>
  A sleep lock excludes. Whatever the interleaving of processes that take the lock when
  \<open>acquiresleep\<close> lets them and release it only while they hold it, at most one process is in
  its critical section, and \<open>holdingsleep\<close> is true of exactly that one.
\<close>

theorem sleeplock_exclusive:
  assumes "lock_run acquiresleep_try unlocked es (initsleeplock, {}) = (lk, crit)"
  shows "crit = {q. holdingsleep q lk} \<and> (\<forall>p q. {p, q} \<subseteq> crit \<longrightarrow> p = q)"
proof -
  have "sl.agrees (lk, crit)"
    using sl.run_agrees [of "(initsleeplock, {})" es] assms
    by (simp add: sl.agrees_def initsleeplock_def)
  then show ?thesis by (auto simp: sl.agrees_def holdingsleep_def)
qed

lemma sleeplock_exclusive_witness:
  "{2} = {q. holdingsleep q \<lparr>locked = True, lk_pid = 2\<rparr>}"
  using sleeplock_exclusive [of "[(1, True), (2, True), (1, False), (2, True), (1, True)]"
      "\<lparr>locked = True, lk_pid = 2\<rparr>" "{2}"]
  by (simp add: initsleeplock_def acquiresleep_try_def acquiresleep_def unlocked_def)

end
