(* ===== verification/Ring.thy ===== *)
theory Ring
  imports Prelude
begin

text \<open>
  Circular doubly linked lists with a sentinel, as the buffer cache keeps its buffers: \<open>nx\<close> and
  \<open>pv\<close> are the link fields as functions on node numbers, \<open>h\<close> is the sentinel.
  \<open>ring nx pv h xs\<close> says that the nodes after the sentinel are \<open>xs\<close>, in both directions.
\<close>

fun chain :: "('a \<Rightarrow> 'a) \<Rightarrow> 'a \<Rightarrow> 'a list \<Rightarrow> 'a \<Rightarrow> bool" where
  "chain f a [] b \<longleftrightarrow> f a = b"
| "chain f a (x # xs) b \<longleftrightarrow> f a = x \<and> chain f x xs b"

definition ring :: "('a \<Rightarrow> 'a) \<Rightarrow> ('a \<Rightarrow> 'a) \<Rightarrow> 'a \<Rightarrow> 'a list \<Rightarrow> bool" where
  "ring nx pv h xs \<longleftrightarrow> distinct (h # xs) \<and> chain nx h xs h \<and> chain pv h (rev xs) h"

text \<open>Following links until the sentinel: the first node that satisfies a test, within \<open>k\<close> steps.\<close>

fun scan :: "('a \<Rightarrow> 'a) \<Rightarrow> 'a \<Rightarrow> ('a \<Rightarrow> bool) \<Rightarrow> nat \<Rightarrow> 'a \<Rightarrow> 'a option" where
  "scan f h P 0 b = None"
| "scan f h P (Suc k) b = (if b = h then None else if P b then Some b else scan f h P k (f b))"

lemma chain_append: "chain f a (xs @ y # ys) b \<longleftrightarrow> chain f a xs y \<and> chain f y ys b"
  by (induction xs arbitrary: a) auto

lemma chain_upd: "u \<noteq> a \<Longrightarrow> u \<notin> set xs \<Longrightarrow> chain (f(u := v)) a xs b = chain f a xs b"
  by (induction xs arbitrary: a) auto

lemma chain_first: "chain f a xs b \<Longrightarrow> f a = hd (xs @ [b])"
  by (cases xs) auto

text \<open>Redirecting the last link of a path.\<close>

lemma chain_redirect:
  "chain f a xs y \<Longrightarrow> distinct (a # xs) \<Longrightarrow> chain (f(last (a # xs) := b)) a xs b"
proof (induction xs arbitrary: a)
  case Nil
  then show ?case by simp
next
  case (Cons x xs)
  then have "chain f x xs y" "distinct (x # xs)" by simp_all
  then have "chain (f(last (x # xs) := b)) x xs b" by (rule Cons.IH)
  moreover have "a \<noteq> last (x # xs)"
    using Cons.prems by (metis distinct.simps(2) last_in_set list.distinct(1))
  ultimately show ?case using Cons.prems
    by (simp del: last.simps add: last_ConsR fun_upd_def)
qed

lemma chain_cut:
  assumes "chain f a (xs @ y # ys) b" "distinct (a # xs @ y # ys)" "z = hd (ys @ [b])"
  shows "chain (f(last (a # xs) := z)) a (xs @ ys) b"
proof (cases ys)
  case Nil
  with assms have "chain f a xs y" "distinct (a # xs)" by (simp_all add: chain_append)
  from chain_redirect [OF this] Nil assms(3) show ?thesis by simp
next
  case (Cons w ws)
  with assms have c: "chain f a xs y" "chain f y (w # ws) b" by (simp_all add: chain_append)
  have "last (a # xs) \<in> set (a # xs)" by (rule last_in_set) simp
  then have "last (a # xs) \<noteq> w" "last (a # xs) \<notin> set ws" using assms(2) Cons by auto
  moreover have "chain (f(last (a # xs) := w)) a xs w"
    using chain_redirect [OF c(1)] assms(2) by simp
  ultimately show ?thesis using c(2) Cons assms(3) by (simp add: chain_append chain_upd)
qed

lemma scan_find:
  "chain f a xs h \<Longrightarrow> h \<notin> set xs \<Longrightarrow> length xs < k \<Longrightarrow> scan f h P k (f a) = List.find P xs"
proof (induction xs arbitrary: a k)
  case Nil
  then show ?case by (cases k) auto
next
  case (Cons x xs)
  then show ?case by (cases k) auto
qed

lemma ring_scan_next:
  "ring nx pv h xs \<Longrightarrow> length xs < k \<Longrightarrow> scan nx h P k (nx h) = List.find P xs"
  by (simp add: ring_def scan_find)

lemma ring_scan_prev:
  "ring nx pv h xs \<Longrightarrow> length xs < k \<Longrightarrow> scan pv h P k (pv h) = List.find P (rev xs)"
  by (simp add: ring_def scan_find)

declare scan.simps [simp del]

text \<open>
  Taking a node out and putting it behind the sentinel, as the six assignments of \<open>brelse\<close> do,
  in their order.
\<close>

definition move_front ::
    "'a \<Rightarrow> 'a \<Rightarrow> ('a \<Rightarrow> 'a) \<times> ('a \<Rightarrow> 'a) \<Rightarrow> ('a \<Rightarrow> 'a) \<times> ('a \<Rightarrow> 'a)" where
  "move_front h b l =
     (let (nx, pv) = l;
          pv = pv(nx b := pv b);
          nx = nx(pv b := nx b);
          nx = nx(b := nx h);
          pv = pv(b := h);
          pv = pv(nx h := b);
          nx = nx(h := b)
      in (nx, pv))"

lemma ring_unlink:
  assumes "ring nx pv h (xs @ b # ys)"
  shows "ring (nx(pv b := nx b)) (pv(nx b := pv b)) h (xs @ ys)"
proof -
  have d: "distinct (h # xs @ b # ys)" using assms by (simp add: ring_def)
  have nx: "chain nx h (xs @ b # ys) h" and pv: "chain pv h (rev ys @ b # rev xs) h"
    using assms by (simp_all add: ring_def)
  have nxb: "nx b = hd (ys @ [h])" using nx by (simp add: chain_append chain_first)
  have pvb: "pv b = hd (rev xs @ [h])" using pv by (simp add: chain_append chain_first)
  have l1: "last (h # xs) = pv b" by (cases xs rule: rev_cases) (auto simp: pvb)
  have l2: "last (h # rev ys) = nx b" by (cases ys) (auto simp: nxb)
  have "chain (nx(pv b := nx b)) h (xs @ ys) h"
    using chain_cut [OF nx d nxb] l1 by simp
  moreover have "chain (pv(nx b := pv b)) h (rev ys @ rev xs) h"
    using chain_cut [OF pv _ pvb] l2 d by auto
  ultimately show ?thesis using d by (simp add: ring_def)
qed

lemma ring_push:
  assumes "ring nx pv h xs" "b \<notin> set (h # xs)"
  shows "ring (nx(b := nx h, h := b)) (pv(b := h, nx h := b)) h (b # xs)"
proof -
  let ?nx = "nx(b := nx h, h := b)" and ?pv = "pv(b := h, nx h := b)"
  have d: "distinct (h # xs)" using assms by (simp add: ring_def)
  have nx: "chain nx h xs h" and pv: "chain pv h (rev xs) h" using assms by (simp_all add: ring_def)
  have nxh: "nx h = hd (xs @ [h])" using nx by (rule chain_first)
  have "chain ?nx b xs h"
    using nx assms(2) d nxh by (cases xs) (auto simp: chain_upd)
  then have "chain ?nx h (b # xs) h" by simp
  moreover have "chain ?pv h (rev (b # xs)) h"
  proof -
    have l: "last (h # rev xs) = nx h" by (cases xs) (auto simp: nxh)
    have "chain (pv(b := h)) h (rev xs) h" using pv assms(2) by (simp add: chain_upd)
    from chain_redirect [OF this, of b] d l have "chain ?pv h (rev xs) b" by simp
    moreover have "?pv b = h"
    proof -
      have "nx h \<in> set (h # xs)" using nxh by (cases xs) auto
      then have "nx h \<noteq> b" using assms(2) by metis
      then show ?thesis by simp
    qed
    ultimately have "chain ?pv h (rev xs @ [b]) h" unfolding chain_append chain.simps by (rule conjI)
    then show ?thesis by simp
  qed
  moreover have "distinct (h # b # xs)" using d assms(2) by auto
  ultimately show ?thesis unfolding ring_def by blast
qed

lemma ring_move_front:
  assumes r: "ring nx pv h (xs @ b # ys)" and m: "move_front h b (nx, pv) = (nx', pv')"
  shows "ring nx' pv' h (b # xs @ ys)"
proof -
  let ?pv = "pv(nx b := pv b)"
  have d: "distinct (h # xs @ b # ys)" using r by (simp add: ring_def)
  have "chain nx b ys h" using r by (simp add: ring_def chain_append)
  then have "nx b = hd (ys @ [h])" by (rule chain_first)
  then have "nx b \<noteq> b" using d by (cases ys) auto
  then have pvb: "?pv b = pv b" by simp
  let ?nx = "nx(pv b := nx b)"
  have "pv b \<noteq> b"
  proof -
    have "chain pv h (rev ys @ b # rev xs) h" using r by (simp add: ring_def)
    then have "chain pv b (rev xs) h" by (simp add: chain_append)
    then have "pv b = hd (rev xs @ [h])" by (rule chain_first)
    then show ?thesis using d by (cases xs rule: rev_cases) auto
  qed
  have h: "b \<noteq> h" using d by auto
  have "ring ?nx ?pv h (xs @ ys)" using r by (rule ring_unlink)
  then have "ring (?nx(b := ?nx h, h := b)) (?pv(b := h, ?nx h := b)) h (b # xs @ ys)"
    using d by (intro ring_push) auto
  moreover have "move_front h b (nx, pv) = (?nx(b := ?nx h, h := b), ?pv(b := h, ?nx h := b))"
  proof -
    have nxh: "(?nx(b := ?nx h)) h = ?nx h" using h by simp
    show ?thesis by (simp only: move_front_def Let_def prod.case pvb nxh)
  qed
  ultimately show ?thesis using m by (metis prod.inject)
qed

end
