(* ===== verification/RingBuf.thy ===== *)
theory RingBuf
  imports Prelude
begin

text \<open>
  The ring buffers of the pipe and of the console: an array of \<open>n\<close> bytes and two 32-bit counters
  that only grow and wrap around; element \<open>k\<close> is at index \<open>k % n\<close>. \<open>n\<close> is a power of two, so the
  index stays right when a counter wraps. The locale \<open>fifo\<close> is what both clients rely on: bytes
  come out in the order in which they went in, none is lost and none appears twice.
\<close>

definition contents :: "nat \<Rightarrow> (nat \<Rightarrow> u8) \<Rightarrow> u32 \<Rightarrow> u32 \<Rightarrow> u8 list" where
  "contents n d r w = map (\<lambda>i. d (unat (r + of_nat i) mod n)) [0..<unat (w - r)]"

lemma length_contents [simp]: "length (contents n d r w) = unat (w - r)"
  by (simp add: contents_def)

lemma contents_empty [simp]: "contents n d r r = []"
  by (simp add: contents_def)

text \<open>Two elements at most \<open>n\<close> apart share an index only if they are the same.\<close>

lemma ring_index_inj:
  assumes n: "n dvd 2 ^ 32" "i < n" "j < n"
    and e: "unat ((r :: u32) + of_nat i) mod n = unat (r + of_nat j) mod n"
  shows "i = j"
proof -
  have m: "unat (r + of_nat k) mod n = (unat r + k) mod n" for k
  proof -
    have "unat (r + of_nat k) = (unat r + unat (of_nat k :: u32)) mod 2 ^ 32"
      by (simp add: unat_word_ariths)
    also have "unat (of_nat k :: u32) = k mod 2 ^ 32" by (simp add: unsigned_of_nat take_bit_eq_mod)
    finally have "unat (r + of_nat k) = (unat r + k) mod 2 ^ 32" by (simp add: mod_simps)
    then show ?thesis using n(1) by (simp add: mod_mod_cancel)
  qed
  have mm: "(unat r + i) mod n = (unat r + j) mod n" using e by (simp only: m)
  show ?thesis
  proof (cases i j rule: le_cases)
    case le
    then have "n dvd j - i" using mod_eq_dvd_iff_nat [of "unat r + i" "unat r + j" n] mm by simp
    then show ?thesis using n(3) le by (cases "j - i = 0") (auto dest: dvd_imp_le)
  next
    case ge
    then have "n dvd i - j" using mod_eq_dvd_iff_nat [of "unat r + j" "unat r + i" n] mm by simp
    then show ?thesis using n(2) ge by (cases "i - j = 0") (auto dest: dvd_imp_le)
  qed
qed

lemma contents_put:
  assumes n: "n dvd 2 ^ 32" "n < 2 ^ 32" and room: "unat (w - r) < n"
  shows "contents n (d(unat w mod n := c)) r (w + 1) = contents n d r w @ [c]"
proof -
  let ?k = "unat (w - r)"
  have "unat (w - r + 1) = ?k + 1" using n(2) room by (simp add: unat_word_ariths)
  then have k1: "unat (w + 1 - r) = Suc ?k" by (simp add: algebra_simps)
  have w: "w = r + of_nat ?k" by simp
  have "(d(unat w mod n := c)) (unat (r + of_nat i) mod n) = d (unat (r + of_nat i) mod n)" if "i < ?k" for i
  proof -
    have "unat (r + of_nat i) mod n \<noteq> unat (r + of_nat ?k) mod n"
      using ring_index_inj [OF n(1), of i ?k r] that room by linarith
    then show ?thesis using w by simp
  qed
  then have "contents n (d(unat w mod n := c)) r (w + 1)
      = map (\<lambda>i. d (unat (r + of_nat i) mod n)) [0..<?k] @ [c]"
    unfolding contents_def k1 using w by simp
  then show ?thesis by (simp add: contents_def)
qed

lemma contents_get:
  assumes "r \<noteq> w"
  shows "contents n d r w = d (unat r mod n) # contents n d (r + 1) w"
proof -
  let ?k = "unat (w - r)"
  have "0 < ?k" using assms by (simp add: unat_gt_0)
  then have k: "unat (w - (r + 1)) = ?k - 1" "?k = Suc (?k - 1)"
    using unat_minus_one [of "w - r"] assms by (simp_all add: diff_diff_add)
  have "[0..<?k] = 0 # map Suc [0..<?k - 1]" using k(2) by (metis map_Suc_upt upt_conv_Cons zero_less_Suc)
  then have "contents n d r w = d (unat r mod n) # map (\<lambda>i. d (unat (r + of_nat (Suc i)) mod n)) [0..<?k - 1]"
    by (simp add: contents_def)
  moreover have "contents n d (r + 1) w = map (\<lambda>i. d (unat (r + 1 + of_nat i) mod n)) [0..<?k - 1]"
    by (simp only: contents_def k(1))
  ultimately show ?thesis by (simp add: ac_simps)
qed

lemma unat_ring_put: "unat (w - r) < n \<Longrightarrow> n < 2 ^ 32 \<Longrightarrow> unat (w + 1 - r) = Suc (unat (w - r))" for w r :: u32
proof -
  assume "unat (w - r) < n" "n < 2 ^ 32"
  then have "unat (w - r + 1) = unat (w - r) + 1" by (simp add: unat_word_ariths)
  then show ?thesis by (simp add: algebra_simps)
qed

lemma unat_ring_get: "r \<noteq> w \<Longrightarrow> unat (w - (r + 1)) = unat (w - r) - 1" for w r :: u32
  using unat_minus_one [of "w - r"] by (simp add: diff_diff_add)

section \<open>The contract of a queue of bytes\<close>

text \<open>A run: \<open>Some c\<close> offers a byte (dropped when there is no room), \<open>None\<close> takes one if there is one.\<close>

fun fifo_run ::
    "('a \<Rightarrow> 's \<Rightarrow> 's option) \<Rightarrow> ('s \<Rightarrow> ('a \<times> 's) option) \<Rightarrow> 'a option list \<Rightarrow> 's \<Rightarrow> 'a list \<times> 'a list \<times> 's" where
  "fifo_run put get [] s = ([], [], s)"
| "fifo_run put get (Some c # es) s =
     (case put c s of
        None \<Rightarrow> fifo_run put get es s
      | Some t \<Rightarrow> (case fifo_run put get es t of (ins, outs, u) \<Rightarrow> (c # ins, outs, u)))"
| "fifo_run put get (None # es) s =
     (case get s of
        None \<Rightarrow> fifo_run put get es s
      | Some (c, t) \<Rightarrow> (case fifo_run put get es t of (ins, outs, u) \<Rightarrow> (ins, c # outs, u)))"

locale fifo =
  fixes put :: "'a \<Rightarrow> 's \<Rightarrow> 's option"
    and get :: "'s \<Rightarrow> ('a \<times> 's) option"
    and queue :: "'s \<Rightarrow> 'a list"
    and ok :: "'s \<Rightarrow> bool"
    and room :: nat
  assumes put_full: "ok s \<Longrightarrow> put c s = None \<longleftrightarrow> length (queue s) \<ge> room"
    and put_queue: "ok s \<Longrightarrow> put c s = Some t \<Longrightarrow> ok t \<and> queue t = queue s @ [c]"
    and get_empty: "ok s \<Longrightarrow> get s = None \<longleftrightarrow> queue s = []"
    and get_queue: "ok s \<Longrightarrow> get s = Some (c, t) \<Longrightarrow> ok t \<and> queue s = c # queue t"
begin

lemma run_in_order:
  "ok s \<Longrightarrow> fifo_run put get es s = (ins, outs, t) \<Longrightarrow> ok t \<and> queue s @ ins = outs @ queue t"
proof (induction es arbitrary: s ins outs t)
  case Nil
  then show ?case by simp
next
  case (Cons e es)
  show ?case
  proof (cases e)
    case None
    show ?thesis
    proof (cases "get s")
      case n: None
      then show ?thesis using Cons None by simp
    next
      case (Some ct)
      obtain c u where g: "get s = Some (c, u)" using Some by (cases ct) auto
      obtain xs ys v where r: "fifo_run put get es u = (xs, ys, v)" by (metis prod_cases3)
      then have "ins = xs" "outs = c # ys" "t = v" using Cons.prems None g by auto
      then show ?thesis using Cons.IH [OF _ r] get_queue [OF Cons.prems(1) g] by auto
    qed
  next
    case e: (Some c)
    show ?thesis
    proof (cases "put c s")
      case None
      then show ?thesis using Cons e by simp
    next
      case (Some u)
      obtain xs ys v where r: "fifo_run put get es u = (xs, ys, v)" by (metis prod_cases3)
      then have "ins = c # xs" "outs = ys" "t = v" using Cons.prems e Some by auto
      then show ?thesis using Cons.IH [OF _ r] put_queue [OF Cons.prems(1) Some] by auto
    qed
  qed
qed

end

end
