(* ===== verification/Bio.thy ===== *)
theory Bio
  imports Kalloc SleepLock Ring
begin

text \<open>
  \<open>bio.c\<close> and \<open>memide.c\<close>: the buffer cache over a disk. A buffer is an index below \<open>NBUF\<close>, the
  list head is the index \<open>NBUF\<close>; the links are kept as the code keeps them and searched along the
  links. The disk is the memory disk of \<open>memide.c\<close>, whose \<open>iderw\<close> completes at once. \<open>iolog\<close>
  records the writes that have reached the disk, in order; no routine reads it, it only lets the
  crash theorems of the log speak about the disk at every earlier moment.
  Lemmas: the cache never holds two copies of a block, \<open>bread\<close> returns the block's current
  content, and the content seen through the cache (\<open>blk\<close>) changes only where a caller changes it.
\<close>

definition BSIZE :: nat where "BSIZE = 512"
definition NBUF :: nat where "NBUF = 30"
definition ROOTDEV :: u32 where "ROOTDEV = 1"

lemma ROOTDEV_one [simp]: "ROOTDEV = 1 \<longleftrightarrow> True"
  by (simp add: ROOTDEV_def)

type_synonym block = "nat \<Rightarrow> u8"

record buf =
  flags :: u32
  bdev :: u32
  blockno :: u32
  block_lock :: sleeplock
  refcnt :: u32
  bprev :: nat
  bnext :: nat
  data :: block

definition B_VALID :: u32 where "B_VALID = 2"
definition B_DIRTY :: u32 where "B_DIRTY = 4"

record bcache = kmem +
  bufs :: "nat \<Rightarrow> buf"
  disk :: "nat \<Rightarrow> block"
  disksize :: u32
  iolog :: "(nat \<times> block) list"

definition upd_buf :: "nat \<Rightarrow> (buf \<Rightarrow> buf) \<Rightarrow> 'a bcache_scheme \<Rightarrow> 'a bcache_scheme" where
  "upd_buf i f s = s\<lparr>bufs := (bufs s)(i := f (bufs s i))\<rparr>"

section \<open>The disk (memide.c)\<close>

definition holding_buf :: "nat \<Rightarrow> 'a bcache_scheme \<Rightarrow> bool" where
  "holding_buf i s \<longleftrightarrow> holdingsleep (pid (myproc s)) (block_lock (bufs s i))"

definition iderw :: "nat \<Rightarrow> 'a bcache_scheme \<Rightarrow> 'a bcache_scheme res" where
  "iderw i s =
     (let b = bufs s i; n = unat (blockno b) in
      if \<not> holding_buf i s then Panic ''iderw: buf not locked''
      else if flags b AND (B_VALID OR B_DIRTY) = B_VALID then Panic ''iderw: nothing to do''
      else if bdev b \<noteq> 1 then Panic ''iderw: request not for disk 1''
      else if blockno b \<ge> disksize s then Panic ''iderw: block out of range''
      else if flags b AND B_DIRTY \<noteq> 0
      then Ok (upd_buf i (\<lambda>b. b\<lparr>flags := (flags b AND NOT B_DIRTY) OR B_VALID\<rparr>)
                 (s\<lparr>disk := (disk s)(n := data b), iolog := iolog s @ [(n, data b)]\<rparr>))
      else Ok (upd_buf i (\<lambda>b. b\<lparr>data := disk s n, flags := flags b OR B_VALID\<rparr>) s))"

section \<open>The cache (bio.c)\<close>

text \<open>\<open>binit\<close> links the buffers one by one behind the head.\<close>

definition binit_one :: "nat \<Rightarrow> 'a bcache_scheme \<Rightarrow> 'a bcache_scheme" where
  "binit_one b s =
     (let s = upd_buf b (\<lambda>x. x\<lparr>bnext := bnext (bufs s NBUF)\<rparr>) s;
          s = upd_buf b (\<lambda>x. x\<lparr>bprev := NBUF, block_lock := initsleeplock\<rparr>) s;
          s = upd_buf (bnext (bufs s NBUF)) (\<lambda>x. x\<lparr>bprev := b\<rparr>) s
      in upd_buf NBUF (\<lambda>x. x\<lparr>bnext := b\<rparr>) s)"

definition binit :: "'a bcache_scheme \<Rightarrow> 'a bcache_scheme" where
  "binit s = fold binit_one [0..<NBUF] (upd_buf NBUF (\<lambda>x. x\<lparr>bprev := NBUF, bnext := NBUF\<rparr>) s)"

text \<open>
  \<open>bget\<close> follows \<open>next\<close> from the head for a cached copy, then \<open>prev\<close> for a buffer to recycle. A
  walk visits at most \<open>NBUF\<close> buffers before it is back at the head.
\<close>

definition bget_lock :: "nat \<Rightarrow> 'a bcache_scheme \<Rightarrow> (nat \<times> 'a bcache_scheme) res" where
  "bget_lock i s =
     bindr (acquiresleep (ChBuf i) (pid (myproc s)) (block_lock (bufs s i)))
       (\<lambda>lk. Ok (i, upd_buf i (\<lambda>b. b\<lparr>block_lock := lk\<rparr>) s))"

definition bget :: "u32 \<Rightarrow> u32 \<Rightarrow> 'a bcache_scheme \<Rightarrow> (nat \<times> 'a bcache_scheme) res" where
  "bget d n s =
     (case scan (\<lambda>i. bnext (bufs s i)) NBUF
             (\<lambda>i. bdev (bufs s i) = d \<and> blockno (bufs s i) = n) (Suc NBUF) (bnext (bufs s NBUF)) of
        Some i \<Rightarrow> bget_lock i (upd_buf i (\<lambda>b. b\<lparr>refcnt := refcnt b + 1\<rparr>) s)
      | None \<Rightarrow>
          (case scan (\<lambda>i. bprev (bufs s i)) NBUF
                  (\<lambda>i. refcnt (bufs s i) = 0 \<and> flags (bufs s i) AND B_DIRTY = 0)
                  (Suc NBUF) (bprev (bufs s NBUF)) of
             Some i \<Rightarrow>
               bget_lock i (upd_buf i (\<lambda>b. b\<lparr>bdev := d, blockno := n, flags := 0, refcnt := 1\<rparr>) s)
           | None \<Rightarrow> Panic ''bget: no buffers''))"

definition bread :: "u32 \<Rightarrow> u32 \<Rightarrow> 'a bcache_scheme \<Rightarrow> (nat \<times> 'a bcache_scheme) res" where
  "bread d n s =
     bindr (bget d n s) (\<lambda>(i, s).
       if flags (bufs s i) AND B_VALID = 0
       then bindr (iderw i s) (\<lambda>s. Ok (i, s))
       else Ok (i, s))"

definition bwrite :: "nat \<Rightarrow> 'a bcache_scheme \<Rightarrow> 'a bcache_scheme res" where
  "bwrite i s =
     (if \<not> holding_buf i s then Panic ''bwrite''
      else iderw i (upd_buf i (\<lambda>b. b\<lparr>flags := flags b OR B_DIRTY\<rparr>) s))"

text \<open>The six link assignments of \<open>brelse\<close>, in order.\<close>

definition brelse_links :: "nat \<Rightarrow> 'a bcache_scheme \<Rightarrow> 'a bcache_scheme" where
  "brelse_links i s =
     (let s = upd_buf (bnext (bufs s i)) (\<lambda>x. x\<lparr>bprev := bprev (bufs s i)\<rparr>) s;
          s = upd_buf (bprev (bufs s i)) (\<lambda>x. x\<lparr>bnext := bnext (bufs s i)\<rparr>) s;
          s = upd_buf i (\<lambda>x. x\<lparr>bnext := bnext (bufs s NBUF)\<rparr>) s;
          s = upd_buf i (\<lambda>x. x\<lparr>bprev := NBUF\<rparr>) s;
          s = upd_buf (bnext (bufs s NBUF)) (\<lambda>x. x\<lparr>bprev := i\<rparr>) s
      in upd_buf NBUF (\<lambda>x. x\<lparr>bnext := i\<rparr>) s)"

definition brelse :: "nat \<Rightarrow> 'a bcache_scheme \<Rightarrow> 'a bcache_scheme res" where
  "brelse i s =
     (if \<not> holding_buf i s then Panic ''brelse''
      else
        let (lk, s) = releasesleep (ChBuf i) (block_lock (bufs s i)) s;
            s = upd_buf i (\<lambda>b. b\<lparr>block_lock := lk\<rparr>) s;
            s = upd_buf i (\<lambda>b. b\<lparr>refcnt := refcnt b - 1\<rparr>) s
        in Ok (if refcnt (bufs s i) = 0 then brelse_links i s else s))"

section \<open>Flags\<close>

definition valid :: "buf \<Rightarrow> bool" where "valid b \<longleftrightarrow> flags b AND B_VALID \<noteq> 0"
definition dirty :: "buf \<Rightarrow> bool" where "dirty b \<longleftrightarrow> flags b AND B_DIRTY \<noteq> 0"

lemma valid_bit: "valid b \<longleftrightarrow> bit (flags b) 1"
  using and_exp_eq_0_iff_not_bit [of "flags b" 1] by (simp add: valid_def B_VALID_def)

lemma dirty_bit: "dirty b \<longleftrightarrow> bit (flags b) 2"
  using and_exp_eq_0_iff_not_bit [of "flags b" 2] by (simp add: dirty_def B_DIRTY_def)

lemma bit_VALID: "bit B_VALID n \<longleftrightarrow> n = 1"
  using bit_exp_iff [where 'a = u32, of 1 n] by (auto simp: B_VALID_def)

lemma bit_DIRTY: "bit B_DIRTY n \<longleftrightarrow> n = 2"
  using bit_exp_iff [where 'a = u32, of 2 n] by (auto simp: B_DIRTY_def)

lemma flags_valid_only: "flags b AND (B_VALID OR B_DIRTY) = B_VALID \<longleftrightarrow> valid b \<and> \<not> dirty b"
proof
  assume "flags b AND (B_VALID OR B_DIRTY) = B_VALID"
  then have "bit (flags b AND (B_VALID OR B_DIRTY)) n = bit B_VALID n" for n by simp
  from this [of 1] this [of 2] show "valid b \<and> \<not> dirty b"
    by (simp add: bit_simps bit_VALID bit_DIRTY valid_bit dirty_bit)
next
  assume "valid b \<and> \<not> dirty b"
  then show "flags b AND (B_VALID OR B_DIRTY) = B_VALID"
    by (intro bit_word_eqI) (auto simp: bit_simps bit_VALID bit_DIRTY valid_bit dirty_bit)
qed

lemma valid_flags [simp]:
  "valid (b\<lparr>flags := 0\<rparr>) = False" "dirty (b\<lparr>flags := 0\<rparr>) = False"
  "valid (b\<lparr>flags := f OR B_VALID\<rparr>)" "dirty (b\<lparr>flags := flags b OR B_VALID\<rparr>) = dirty b"
  "valid (b\<lparr>flags := flags b OR B_DIRTY\<rparr>) = valid b" "dirty (b\<lparr>flags := f OR B_DIRTY\<rparr>)"
  "\<not> dirty (b\<lparr>flags := (f AND NOT B_DIRTY) OR B_VALID\<rparr>)"
  by (auto simp: valid_bit dirty_bit bit_simps bit_VALID bit_DIRTY)

lemma valid_cong: "flags b = flags c \<Longrightarrow> valid b = valid c"
  by (simp add: valid_def)

lemma dirty_cong: "flags b = flags c \<Longrightarrow> dirty b = dirty c"
  by (simp add: dirty_def)

lemma flags_fields [simp]:
  "valid (b\<lparr>data := x\<rparr>) = valid b" "valid (b\<lparr>refcnt := r\<rparr>) = valid b"
  "valid (b\<lparr>block_lock := l\<rparr>) = valid b" "valid (b\<lparr>bnext := k\<rparr>) = valid b"
  "valid (b\<lparr>bprev := k\<rparr>) = valid b"
  "dirty (b\<lparr>data := x\<rparr>) = dirty b" "dirty (b\<lparr>refcnt := r\<rparr>) = dirty b"
  "dirty (b\<lparr>block_lock := l\<rparr>) = dirty b" "dirty (b\<lparr>bnext := k\<rparr>) = dirty b"
  "dirty (b\<lparr>bprev := k\<rparr>) = dirty b"
  by (simp_all add: valid_def dirty_def)

section \<open>The links\<close>

definition nx :: "'a bcache_scheme \<Rightarrow> nat \<Rightarrow> nat" where "nx s i = bnext (bufs s i)"
definition pv :: "'a bcache_scheme \<Rightarrow> nat \<Rightarrow> nat" where "pv s i = bprev (bufs s i)"

lemma nx_pv_upd [simp]:
  "nx (upd_buf i f s) = (nx s)(i := bnext (f (bufs s i)))"
  "pv (upd_buf i f s) = (pv s)(i := bprev (f (bufs s i)))"
  by (auto simp: nx_def pv_def upd_buf_def fun_eq_iff)

lemma bufs_upd_buf [simp]: "bufs (upd_buf i f s) = (bufs s)(i := f (bufs s i))"
  by (simp add: upd_buf_def)

lemma upd_buf_rest [simp]:
  "procs (upd_buf i f s) = procs s" "curproc (upd_buf i f s) = curproc s"
  "disk (upd_buf i f s) = disk s" "disksize (upd_buf i f s) = disksize s"
  "iolog (upd_buf i f s) = iolog s" "myproc (upd_buf i f s) = myproc s"
  by (simp_all add: upd_buf_def myproc_def)

text \<open>A buffer without its links.\<close>

definition body :: "buf \<Rightarrow> buf" where "body b = b\<lparr>bprev := 0, bnext := 0\<rparr>"

lemma body_fields [simp]:
  "flags (body b) = flags b" "bdev (body b) = bdev b" "blockno (body b) = blockno b"
  "block_lock (body b) = block_lock b" "refcnt (body b) = refcnt b" "data (body b) = data b"
  "valid (body b) = valid b" "dirty (body b) = dirty b"
  by (simp_all add: body_def)

lemma body_links [simp]: "body (b\<lparr>bprev := k\<rparr>) = body b" "body (b\<lparr>bnext := k\<rparr>) = body b"
  by (simp_all add: body_def)

lemma body_upd_links:
  "body (bufs (upd_buf i (\<lambda>x. x\<lparr>bprev := k\<rparr>) s) j) = body (bufs s j)"
  "body (bufs (upd_buf i (\<lambda>x. x\<lparr>bnext := k\<rparr>) s) j) = body (bufs s j)"
  by simp_all

lemma body_brelse_links: "body (bufs (brelse_links i s) j) = body (bufs s j)"
  by (simp only: brelse_links_def Let_def body_upd_links)

lemma links_upd_links:
  "nx (upd_buf i (\<lambda>x. x\<lparr>bprev := k\<rparr>) s) = nx s" "pv (upd_buf i (\<lambda>x. x\<lparr>bprev := k\<rparr>) s) = (pv s)(i := k)"
  "nx (upd_buf i (\<lambda>x. x\<lparr>bnext := k\<rparr>) s) = (nx s)(i := k)" "pv (upd_buf i (\<lambda>x. x\<lparr>bnext := k\<rparr>) s) = pv s"
  by (auto simp: nx_def pv_def fun_eq_iff)

lemma links_brelse_links: "(nx (brelse_links i s), pv (brelse_links i s)) = move_front NBUF i (nx s, pv s)"
proof -
  define a where "a = upd_buf (nx s i) (\<lambda>x. x\<lparr>bprev := pv s i\<rparr>) s"
  define b where "b = upd_buf (pv a i) (\<lambda>x. x\<lparr>bnext := nx a i\<rparr>) a"
  define c where "c = upd_buf i (\<lambda>x. x\<lparr>bnext := nx b NBUF\<rparr>) b"
  define d where "d = upd_buf i (\<lambda>x. x\<lparr>bprev := NBUF\<rparr>) c"
  define e where "e = upd_buf (nx d NBUF) (\<lambda>x. x\<lparr>bprev := i\<rparr>) d"
  have "brelse_links i s = upd_buf NBUF (\<lambda>x. x\<lparr>bnext := i\<rparr>) e"
    unfolding brelse_links_def Let_def nx_def [symmetric] pv_def [symmetric]
      a_def [symmetric] b_def [symmetric] c_def [symmetric] d_def [symmetric] e_def [symmetric] ..
  then show ?thesis
    by (simp only: e_def d_def c_def b_def a_def links_upd_links move_front_def Let_def prod.case)
qed

lemma upd_bufs_frame: "upd_buf i f s = s\<lparr>bufs := bufs (upd_buf i f s)\<rparr>"
  by (simp add: upd_buf_def)

lemma brelse_links_frame: "brelse_links i s = s\<lparr>bufs := bufs (brelse_links i s)\<rparr>"
  by (simp add: brelse_links_def Let_def upd_buf_def)

definition ring_ok :: "'a bcache_scheme \<Rightarrow> bool" where
  "ring_ok s \<longleftrightarrow> (\<exists>xs. ring (nx s) (pv s) NBUF xs \<and> set xs = {..<NBUF})"

lemma ring_ok_brelse_links:
  assumes "ring_ok s" "i < NBUF"
  shows "ring_ok (brelse_links i s)"
proof -
  obtain xs where xs: "ring (nx s) (pv s) NBUF xs" "set xs = {..<NBUF}"
    using assms by (auto simp: ring_ok_def)
  then obtain ys zs where ys: "xs = ys @ i # zs" using assms(2) by (metis lessThan_iff split_list)
  have "ring (nx (brelse_links i s)) (pv (brelse_links i s)) NBUF (i # ys @ zs)"
    using xs(1) ys links_brelse_links [symmetric] by (metis ring_move_front)
  moreover have "set (i # ys @ zs) = {..<NBUF}" using xs ys by auto
  ultimately show ?thesis unfolding ring_ok_def by blast
qed

lemma ring_binit_one:
  assumes "ring (nx s) (pv s) NBUF xs" "b \<notin> set (NBUF # xs)"
  shows "ring (nx (binit_one b s)) (pv (binit_one b s)) NBUF (b # xs)"
proof -
  have "nx s NBUF \<noteq> b" "b \<noteq> NBUF"
  proof -
    have "nx s NBUF = hd (xs @ [NBUF])" using assms(1) unfolding ring_def by (blast intro: chain_first)
    then have "nx s NBUF \<in> set (NBUF # xs)" by (cases xs) auto
    then show "nx s NBUF \<noteq> b" using assms(2) by metis
    show "b \<noteq> NBUF" using assms(2) by auto
  qed
  define p where "p = upd_buf b (\<lambda>x. x\<lparr>bnext := nx s NBUF\<rparr>) s"
  define q where "q = upd_buf b (\<lambda>x. x\<lparr>bprev := NBUF, block_lock := initsleeplock\<rparr>) p"
  define r where "r = upd_buf (nx q NBUF) (\<lambda>x. x\<lparr>bprev := b\<rparr>) q"
  have "binit_one b s = upd_buf NBUF (\<lambda>x. x\<lparr>bnext := b\<rparr>) r"
    unfolding binit_one_def Let_def nx_def [symmetric] p_def [symmetric] q_def [symmetric] r_def [symmetric] ..
  moreover have "nx q = (nx s)(b := nx s NBUF)" "pv q = (pv s)(b := NBUF)"
    by (auto simp: q_def p_def nx_def pv_def fun_eq_iff)
  ultimately have "nx (binit_one b s) = (nx s)(b := nx s NBUF, NBUF := b)"
    "pv (binit_one b s) = (pv s)(b := NBUF, nx s NBUF := b)"
    using \<open>b \<noteq> NBUF\<close> by (simp_all only: r_def links_upd_links fun_upd_other)
  then show ?thesis using ring_push [OF assms] by simp
qed

lemma ring_binit_fold:
  assumes "ring (nx s) (pv s) NBUF []" "k \<le> NBUF"
  shows "ring (nx (fold binit_one [0..<k] s)) (pv (fold binit_one [0..<k] s)) NBUF (rev [0..<k])"
  using assms(2)
proof (induction k)
  case 0
  then show ?case using assms(1) by simp
next
  case (Suc k)
  then have "ring (nx (fold binit_one [0..<k] s)) (pv (fold binit_one [0..<k] s)) NBUF (rev [0..<k])"
    by simp
  from ring_binit_one [OF this, of k] Suc.prems show ?case by simp
qed

lemma ring_ok_binit: "ring_ok (binit s)"
proof -
  let ?s = "upd_buf NBUF (\<lambda>x. x\<lparr>bprev := NBUF, bnext := NBUF\<rparr>) s"
  have "ring (nx ?s) (pv ?s) NBUF []" by (simp add: ring_def)
  from ring_binit_fold [OF this, of NBUF] show ?thesis
    unfolding ring_ok_def binit_def by (intro exI [of _ "rev [0..<NBUF]"]) auto
qed

section \<open>The cache's invariant\<close>

text \<open>
  No block is cached twice; the reference count of a buffer is 1 while a process holds it and 0
  otherwise; a clean buffer that nobody holds equals the disk; a dirty or held buffer is valid.
\<close>

definition buf_ok :: "'a bcache_scheme \<Rightarrow> buf \<Rightarrow> bool" where
  "buf_ok s b \<longleftrightarrow> refcnt b = of_bool (locked (block_lock b))
     \<and> (valid b \<longrightarrow> bdev b = ROOTDEV \<and> blockno b < disksize s)
     \<and> (dirty b \<longrightarrow> valid b) \<and> (locked (block_lock b) \<longrightarrow> valid b)
     \<and> (valid b \<and> \<not> dirty b \<and> \<not> locked (block_lock b) \<longrightarrow> data b = disk s (unat (blockno b)))
     \<and> (\<not> valid b \<longrightarrow> bdev b = 0)"

definition bio_ok :: "'a bcache_scheme \<Rightarrow> bool" where
  "bio_ok s \<longleftrightarrow> ring_ok s \<and> (\<forall>i<NBUF. buf_ok s (bufs s i))
     \<and> (\<forall>i<NBUF. \<forall>j<NBUF. valid (bufs s i) \<and> valid (bufs s j)
           \<and> blockno (bufs s i) = blockno (bufs s j) \<longrightarrow> i = j)"

text \<open>The buffer that caches block \<open>n\<close>, and the content of block \<open>n\<close> as the kernel sees it.\<close>

definition cached :: "'a bcache_scheme \<Rightarrow> nat \<Rightarrow> nat \<Rightarrow> bool" where
  "cached s n i \<longleftrightarrow> i < NBUF \<and> valid (bufs s i) \<and> unat (blockno (bufs s i)) = n"

definition blk :: "'a bcache_scheme \<Rightarrow> nat \<Rightarrow> block" where
  "blk s n = (case List.find (\<lambda>i. valid (bufs s i) \<and> unat (blockno (bufs s i)) = n) [0..<NBUF] of
      Some i \<Rightarrow> data (bufs s i) | None \<Rightarrow> disk s n)"

definition pinned :: "'a bcache_scheme \<Rightarrow> nat set" where
  "pinned s = {unat (blockno (bufs s i)) | i. i < NBUF \<and> dirty (bufs s i)}"

definition held :: "'a bcache_scheme \<Rightarrow> nat set" where
  "held s = {unat (blockno (bufs s i)) | i. i < NBUF \<and> locked (block_lock (bufs s i))}"

text \<open>The current process holds buffer \<open>i\<close>, which caches block \<open>n\<close>.\<close>

definition holds :: "'a bcache_scheme \<Rightarrow> nat \<Rightarrow> nat \<Rightarrow> bool" where
  "holds s i n \<longleftrightarrow> cached s n i \<and> holding_buf i s"

text \<open>What the buffer routines may change: buffers, the disk, its trace, and sleepers.\<close>

definition woken :: "proc \<Rightarrow> proc \<Rightarrow> bool" where
  "woken p q \<longleftrightarrow> q = p \<or> pstate p = SLEEPING \<and> q = p\<lparr>pstate := RUNNABLE\<rparr>"

definition bio_frame :: "'a bcache_scheme \<Rightarrow> 'a bcache_scheme \<Rightarrow> bool" where
  "bio_frame s s' \<longleftrightarrow>
     s' = s\<lparr>procs := procs s', bufs := bufs s', disk := disk s', iolog := iolog s'\<rparr>
     \<and> (\<forall>i. woken (procs s i) (procs s' i))"

lemma woken_refl [simp]: "woken p p" by (simp add: woken_def)

lemma woken_trans: "woken p q \<Longrightarrow> woken q r \<Longrightarrow> woken p r" by (auto simp: woken_def)

lemma woken_fields: "woken p q \<Longrightarrow> pid q = pid p \<and> sz q = sz p \<and> ofile q = ofile p \<and> cwd q = cwd p
    \<and> killed q = killed p \<and> parent q = parent p"
  by (auto simp: woken_def)

lemma woken_wakeup: "woken (procs s i) (procs (wakeup c s) i)"
  by (simp add: wakeup_def wakeup1_def wake_proc_def woken_def)

lemma bio_frame_refl [simp]: "bio_frame s s" by (simp add: bio_frame_def)

lemma bio_frame_trans: "bio_frame s t \<Longrightarrow> bio_frame t u \<Longrightarrow> bio_frame s u"
  unfolding bio_frame_def
proof (intro conjI allI; elim conjE)
  assume t: "t = s\<lparr>procs := procs t, bufs := bufs t, disk := disk t, iolog := iolog t\<rparr>"
    and u: "u = t\<lparr>procs := procs u, bufs := bufs u, disk := disk u, iolog := iolog u\<rparr>"
  show "u = s\<lparr>procs := procs u, bufs := bufs u, disk := disk u, iolog := iolog u\<rparr>"
    by (subst u, subst t) simp
next
  fix i
  assume "\<forall>i. woken (procs s i) (procs t i)" "\<forall>i. woken (procs t i) (procs u i)"
  then show "woken (procs s i) (procs u i)" by (blast intro: woken_trans)
qed

lemma bio_frame_eq: "bio_frame s s' \<Longrightarrow> curproc s' = curproc s \<and> disksize s' = disksize s
    \<and> mem s' = mem s \<and> freelist s' = freelist s \<and> kend s' = kend s \<and> ticks s' = ticks s
    \<and> nextpid s' = nextpid s \<and> initproc s' = initproc s \<and> bcache.more s' = bcache.more s
    \<and> pid (myproc s') = pid (myproc s)"
proof -
  assume f: "bio_frame s s'"
  then have e: "s' = s\<lparr>procs := procs s', bufs := bufs s', disk := disk s', iolog := iolog s'\<rparr>"
    by (simp add: bio_frame_def)
  have c: "curproc s' = curproc s" by (subst e) simp
  have "pid (procs s' (curproc s)) = pid (procs s (curproc s))"
    using f by (auto simp: bio_frame_def dest: woken_fields)
  with c show ?thesis by (subst (1 2 3 4 5 6 7 8 9) e) (simp add: myproc_def)
qed

lemma bio_frame_bufs: "bio_frame s (upd_buf i f s)"
  by (simp add: bio_frame_def upd_buf_def)

lemma bio_frame_procs_bufs:
  "s' = s\<lparr>procs := P, bufs := B\<rparr> \<Longrightarrow> \<forall>i. woken (procs s i) (P i) \<Longrightarrow> bio_frame s s'"
  by (simp add: bio_frame_def)

lemma unat_blockno_inject: "unat (blockno b) = unat (blockno c) \<longleftrightarrow> blockno b = blockno c"
  by (simp add: word_unat_eq_iff)

lemma bio_ok_buf: "bio_ok s \<Longrightarrow> i < NBUF \<Longrightarrow> buf_ok s (bufs s i)"
  by (simp add: bio_ok_def)

lemma cached_unique: "bio_ok s \<Longrightarrow> cached s n i \<Longrightarrow> cached s n j \<Longrightarrow> i = j"
  by (simp add: bio_ok_def cached_def flip: unat_blockno_inject)

lemma blk_cached:
  assumes "bio_ok s" "cached s n i"
  shows "blk s n = data (bufs s i)"
proof -
  have "List.find (\<lambda>i. valid (bufs s i) \<and> unat (blockno (bufs s i)) = n) [0..<NBUF] = Some i"
    unfolding find_upt_Some
  proof (intro conjI allI impI)
    show "i < NBUF" "valid (bufs s i)" "unat (blockno (bufs s i)) = n"
      using assms(2) by (simp_all add: cached_def)
    fix j
    assume "j < i"
    then show "\<not> (valid (bufs s j) \<and> unat (blockno (bufs s j)) = n)"
      using cached_unique [OF assms, of j] \<open>i < NBUF\<close> by (auto simp: cached_def)
  qed
  then show ?thesis by (simp add: blk_def)
qed

lemma blk_uncached: "(\<nexists>i. cached s n i) \<Longrightarrow> blk s n = disk s n"
proof -
  assume "\<nexists>i. cached s n i"
  then have "List.find (\<lambda>i. valid (bufs s i) \<and> unat (blockno (bufs s i)) = n) [0..<NBUF] = None"
    unfolding find_upt_None cached_def by blast
  then show ?thesis by (simp add: blk_def)
qed

lemma blk_unpinned:
  assumes "bio_ok s" "n \<notin> pinned s" "n \<notin> held s"
  shows "blk s n = disk s n"
proof (cases "\<exists>i. cached s n i")
  case True
  then obtain i where i: "cached s n i" by blast
  then have "buf_ok s (bufs s i)" "\<not> dirty (bufs s i)" "\<not> locked (block_lock (bufs s i))"
    using assms by (auto simp: cached_def bio_ok_def pinned_def held_def)
  then show ?thesis using blk_cached [OF assms(1) i] i by (simp add: buf_ok_def cached_def)
qed (simp add: blk_uncached)

lemma holds_held: "holds s i n \<Longrightarrow> n \<in> held s"
  by (auto simp: holds_def cached_def held_def holding_buf_def holdingsleep_def)

lemma pinned_cached: "n \<in> pinned s \<longleftrightarrow> (\<exists>i. cached s n i \<and> dirty (bufs s i))"
  if ok: "bio_ok s"
proof
  assume "n \<in> pinned s"
  then obtain i where i: "i < NBUF" "dirty (bufs s i)" "n = unat (blockno (bufs s i))"
    by (auto simp: pinned_def)
  then show "\<exists>i. cached s n i \<and> dirty (bufs s i)"
    using bio_ok_buf [OF ok i(1)] by (auto simp: cached_def buf_ok_def)
qed (auto simp: pinned_def cached_def)

lemma held_cached: "n \<in> held s \<longleftrightarrow> (\<exists>i. cached s n i \<and> locked (block_lock (bufs s i)))"
  if ok: "bio_ok s"
proof
  assume "n \<in> held s"
  then obtain i where i: "i < NBUF" "locked (block_lock (bufs s i))" "n = unat (blockno (bufs s i))"
    by (auto simp: held_def)
  then show "\<exists>i. cached s n i \<and> locked (block_lock (bufs s i))"
    using bio_ok_buf [OF ok i(1)] by (auto simp: cached_def buf_ok_def)
qed (auto simp: held_def cached_def)

text \<open>A buffer can be recycled as long as fewer than \<open>NBUF\<close> blocks are pinned or held.\<close>

lemma free_buffer:
  assumes "bio_ok s" "card (pinned s \<union> held s) < NBUF"
  shows "\<exists>i<NBUF. \<not> dirty (bufs s i) \<and> \<not> locked (block_lock (bufs s i))"
proof (rule ccontr)
  assume "\<not> ?thesis"
  then have all: "\<forall>i<NBUF. dirty (bufs s i) \<or> locked (block_lock (bufs s i))" by blast
  then have v: "\<forall>i<NBUF. valid (bufs s i)"
    using bio_ok_buf [OF assms(1)] by (auto simp: buf_ok_def)
  have "inj_on (\<lambda>i. unat (blockno (bufs s i))) {..<NBUF}"
  proof (rule inj_onI)
    fix i j
    assume "i \<in> {..<NBUF}" "j \<in> {..<NBUF}" "unat (blockno (bufs s i)) = unat (blockno (bufs s j))"
    then show "i = j" using cached_unique [OF assms(1), of _ i j] v by (simp add: cached_def)
  qed
  then have "card ((\<lambda>i. unat (blockno (bufs s i))) ` {..<NBUF}) = NBUF" by (simp add: card_image)
  moreover have "(\<lambda>i. unat (blockno (bufs s i))) ` {..<NBUF} = pinned s \<union> held s"
    using all by (auto simp: pinned_def held_def)
  ultimately show False using assms(2) by simp
qed

lemma finite_pinned [simp]: "finite (pinned s)"
  by (rule finite_subset [of _ "(\<lambda>i. unat (blockno (bufs s i))) ` {..<NBUF}"])
    (auto simp: pinned_def)

lemma finite_held [simp]: "finite (held s)"
  by (rule finite_subset [of _ "(\<lambda>i. unat (blockno (bufs s i))) ` {..<NBUF}"])
    (auto simp: held_def)

section \<open>What the operations do\<close>

text \<open>An update of one held buffer that keeps its identity and lock.\<close>

lemma cached_cong:
  "\<forall>j<NBUF. body (bufs s' j) = body (bufs s j) \<Longrightarrow> cached s' n i = cached s n i"
  unfolding cached_def by (metis body_fields(3) body_fields(7))

lemma blk_eqI:
  assumes "bio_ok s" "bio_ok s'"
    and "\<And>i. cached s n i \<Longrightarrow> cached s' n i \<and> data (bufs s' i) = data (bufs s i)"
    and "(\<nexists>i. cached s n i) \<Longrightarrow> blk s' n = disk s n"
  shows "blk s' n = blk s n"
proof (cases "\<exists>i. cached s n i")
  case True
  then obtain i where "cached s n i" by blast
  then show ?thesis using assms blk_cached by metis
next
  case False
  then show ?thesis using assms(4) blk_uncached by metis
qed

lemma refcnt_held: "buf_ok s b \<Longrightarrow> refcnt b = 0 \<longleftrightarrow> \<not> locked (block_lock b)"
  by (simp add: buf_ok_def)

lemma buf_ok_dev: "buf_ok s b \<Longrightarrow> valid b \<longleftrightarrow> bdev b = ROOTDEV"
  by (auto simp: buf_ok_def ROOTDEV_def)

lemma bget_lock_free:
  "\<not> locked (block_lock (bufs s i)) \<Longrightarrow>
   bget_lock i s = Ok (i, upd_buf i (\<lambda>b. b\<lparr>block_lock := (block_lock b)\<lparr>locked := True, lk_pid := pid (myproc s)\<rparr>\<rparr>) s)"
  by (simp add: bget_lock_def acquiresleep_def upd_buf_def)

lemma holding_bufI:
  "block_lock (bufs s i) = l\<lparr>locked := True, lk_pid := pid (myproc s)\<rparr> \<Longrightarrow> holding_buf i s"
  by (simp add: holding_buf_def holdingsleep_def)

lemma scan_next_find:
  assumes "ring_ok s"
  shows "\<exists>xs. set xs = {..<NBUF} \<and> scan (\<lambda>i. bnext (bufs s i)) NBUF P (Suc NBUF) (bnext (bufs s NBUF)) = List.find P xs
     \<and> scan (\<lambda>i. bprev (bufs s i)) NBUF Q (Suc NBUF) (bprev (bufs s NBUF)) = List.find Q (rev xs)"
proof -
  obtain xs where xs: "ring (nx s) (pv s) NBUF xs" "set xs = {..<NBUF}"
    using assms by (auto simp: ring_ok_def)
  then have "distinct xs" by (simp add: ring_def)
  then have "length xs = NBUF" using distinct_card [of xs] xs(2) by simp
  then have "scan (nx s) NBUF P (Suc NBUF) (nx s NBUF) = List.find P xs"
    "scan (pv s) NBUF Q (Suc NBUF) (pv s NBUF) = List.find Q (rev xs)"
    using ring_scan_next [OF xs(1)] ring_scan_prev [OF xs(1)] by simp_all
  moreover have "nx s = (\<lambda>i. bnext (bufs s i))" "pv s = (\<lambda>i. bprev (bufs s i))"
    by (simp_all add: nx_def pv_def fun_eq_iff)
  ultimately show ?thesis using xs(2) by auto
qed

text \<open>\<open>bget\<close> on a cached block, and on a block that is not cached.\<close>

lemma bget_cached:
  assumes ok: "bio_ok s" and c: "cached s (unat n) i" and l: "\<not> locked (block_lock (bufs s i))"
  shows "bget ROOTDEV n s = Ok (i, upd_buf i (\<lambda>b. b\<lparr>refcnt := refcnt b + 1,
      block_lock := (block_lock b)\<lparr>locked := True, lk_pid := pid (myproc s)\<rparr>\<rparr>) s)"
proof -
  let ?P = "\<lambda>i. bdev (bufs s i) = ROOTDEV \<and> blockno (bufs s i) = n"
  have ring: "ring_ok s" using ok by (simp add: bio_ok_def)
  obtain xs where xs: "set xs = {..<NBUF}"
    "scan (\<lambda>i. bnext (bufs s i)) NBUF ?P (Suc NBUF) (bnext (bufs s NBUF)) = List.find ?P xs"
    using scan_next_find [OF ring, of ?P ?P] by blast
  have iff: "j < NBUF \<Longrightarrow> ?P j \<longleftrightarrow> j = i" for j
  proof -
    assume j: "j < NBUF"
    have "?P j \<longleftrightarrow> cached s (unat n) j"
      using buf_ok_dev [OF bio_ok_buf [OF ok j]] j by (auto simp: cached_def word_unat_eq_iff)
    then show ?thesis using cached_unique [OF ok c, of j] c by auto
  qed
  have "i \<in> set xs" using c xs by (simp add: cached_def)
  then have "List.find ?P xs = Some i"
  proof -
    have "List.find ?P xs = List.find (\<lambda>j. j = i) xs"
      by (rule find_cong) (use iff xs in auto)
    also have "\<dots> = Some i" using \<open>i \<in> set xs\<close> by (induction xs) auto
    finally show ?thesis .
  qed
  then show ?thesis using l
    by (simp add: bget_def xs(2) bget_lock_free) (simp add: upd_buf_def)
qed

lemma bget_uncached:
  assumes ok: "bio_ok s" and c: "\<nexists>i. cached s (unat n) i"
    and free: "\<exists>i<NBUF. \<not> dirty (bufs s i) \<and> \<not> locked (block_lock (bufs s i))"
  shows "\<exists>i<NBUF. \<not> dirty (bufs s i) \<and> \<not> locked (block_lock (bufs s i)) \<and>
     bget ROOTDEV n s = Ok (i, upd_buf i (\<lambda>b. b\<lparr>bdev := ROOTDEV, blockno := n, flags := 0, refcnt := 1,
      block_lock := (block_lock b)\<lparr>locked := True, lk_pid := pid (myproc s)\<rparr>\<rparr>) s)"
proof -
  let ?P = "\<lambda>i. bdev (bufs s i) = ROOTDEV \<and> blockno (bufs s i) = n"
  let ?Q = "\<lambda>i. refcnt (bufs s i) = 0 \<and> flags (bufs s i) AND B_DIRTY = 0"
  have ring: "ring_ok s" using ok by (simp add: bio_ok_def)
  obtain xs where xs: "set xs = {..<NBUF}"
    "scan (\<lambda>i. bnext (bufs s i)) NBUF ?P (Suc NBUF) (bnext (bufs s NBUF)) = List.find ?P xs"
    "scan (\<lambda>i. bprev (bufs s i)) NBUF ?Q (Suc NBUF) (bprev (bufs s NBUF)) = List.find ?Q (rev xs)"
    using scan_next_find [OF ring, of ?P ?Q] by blast
  have "?P j \<Longrightarrow> j < NBUF \<Longrightarrow> cached s (unat n) j" for j
    using buf_ok_dev [OF bio_ok_buf [OF ok]] by (auto simp: cached_def)
  then have P: "List.find ?P xs = None" using c xs(1) by (auto simp: find_None_iff)
  have Q: "j < NBUF \<Longrightarrow> ?Q j \<longleftrightarrow> \<not> dirty (bufs s j) \<and> \<not> locked (block_lock (bufs s j))" for j
    using refcnt_held [OF bio_ok_buf [OF ok]] by (auto simp: dirty_def)
  have "List.find ?Q (rev xs) \<noteq> None" using free Q xs(1) by (auto simp: find_None_iff)
  then obtain i where i: "List.find ?Q (rev xs) = Some i" by blast
  then have "i \<in> set xs" "?Q i" by (auto simp: find_Some_iff) (metis nth_mem length_rev set_rev)
  then have i': "i < NBUF" "\<not> dirty (bufs s i)" "\<not> locked (block_lock (bufs s i))" using xs(1) Q by auto
  then show ?thesis
    by (intro exI [of _ i])
      (simp add: bget_def xs(2,3) P i bget_lock_free, simp add: upd_buf_def)
qed

text \<open>Replacing one buffer by another, links kept.\<close>

lemma ring_ok_cong: "nx s' = nx s \<Longrightarrow> pv s' = pv s \<Longrightarrow> ring_ok s' = ring_ok s"
  by (simp add: ring_ok_def)

lemma bio_ok_upd:
  assumes ok: "bio_ok s" and links: "bnext (f (bufs s i)) = bnext (bufs s i)" "bprev (f (bufs s i)) = bprev (bufs s i)"
    and b: "buf_ok s (f (bufs s i))"
    and u: "\<And>j. j < NBUF \<Longrightarrow> j \<noteq> i \<Longrightarrow> valid (f (bufs s i)) \<Longrightarrow> \<not> cached s (unat (blockno (f (bufs s i)))) j"
  shows "bio_ok (upd_buf i f s)"
  unfolding bio_ok_def
proof (intro conjI allI impI; (elim conjE)?)
  have "nx (upd_buf i f s) = nx s" "pv (upd_buf i f s) = pv s"
    using links by (auto simp: nx_def pv_def fun_eq_iff)
  then have "ring_ok (upd_buf i f s) = ring_ok s" by (rule ring_ok_cong)
  then show "ring_ok (upd_buf i f s)" using ok by (simp add: bio_ok_def)
  fix j
  assume j: "j < NBUF"
  show "buf_ok (upd_buf i f s) (bufs (upd_buf i f s) j)"
    using b bio_ok_buf [OF ok j] by (simp add: buf_ok_def)
  fix k
  assume "k < NBUF" "valid (bufs (upd_buf i f s) j)" "valid (bufs (upd_buf i f s) k)"
    "blockno (bufs (upd_buf i f s) j) = blockno (bufs (upd_buf i f s) k)"
  note k = this
  consider "j = i" "k = i" | "j = i" "k \<noteq> i" | "j \<noteq> i" "k = i" | "j \<noteq> i" "k \<noteq> i" by blast
  then show "j = k"
  proof cases
    case 2
    then show ?thesis using k u [of k] by (simp add: cached_def)
  next
    case 3
    then show ?thesis using k j u [of j] by (simp add: cached_def)
  next
    case 4
    then show ?thesis
      using k j cached_unique [OF ok, of "unat (blockno (bufs s j))" j k] by (simp add: cached_def)
  qed simp
qed

text \<open>The blocks that are cached, pinned and held after such a step.\<close>

lemma cached_upd: "cached (upd_buf i f s) n j \<longleftrightarrow>
    (if j = i then i < NBUF \<and> valid (f (bufs s i)) \<and> unat (blockno (f (bufs s i))) = n else cached s n j)"
  by (auto simp: cached_def)

lemma holds_data: "bio_ok s \<Longrightarrow> holds s i n \<Longrightarrow> data (bufs s i) = blk s n"
  by (auto simp: holds_def intro: blk_cached [symmetric])

definition bread_post :: "'a bcache_scheme \<Rightarrow> u32 \<Rightarrow> nat \<Rightarrow> 'a bcache_scheme \<Rightarrow> bool" where
  "bread_post s n i s' \<longleftrightarrow> bio_ok s' \<and> holds s' i (unat n) \<and> bio_frame s s'
     \<and> disk s' = disk s \<and> iolog s' = iolog s \<and> procs s' = procs s \<and> blk s' = blk s \<and> pinned s' = pinned s
     \<and> held s' = insert (unat n) (held s) \<and> (\<forall>j m. holds s j m \<longrightarrow> holds s' j m)
     \<and> (\<forall>j. j \<noteq> i \<longrightarrow> bufs s' j = bufs s j)"

lemma bread_post_cached:
  assumes ok: "bio_ok s" and c: "cached s (unat n) i" and l: "\<not> locked (block_lock (bufs s i))"
  shows "bread_post s n i (upd_buf i (\<lambda>b. b\<lparr>refcnt := refcnt b + 1,
      block_lock := (block_lock b)\<lparr>locked := True, lk_pid := pid (myproc s)\<rparr>\<rparr>) s)"
    (is "bread_post s n i ?t")
proof -
  have i: "i < NBUF" "valid (bufs s i)" "unat (blockno (bufs s i)) = unat n" using c by (auto simp: cached_def)
  have ok': "bio_ok ?t"
  proof (rule bio_ok_upd [OF ok])
    show "buf_ok s ((bufs s i)\<lparr>refcnt := refcnt (bufs s i) + 1,
        block_lock := (block_lock (bufs s i))\<lparr>locked := True, lk_pid := pid (myproc s)\<rparr>\<rparr>)"
      using bio_ok_buf [OF ok i(1)] l i(2) by (simp add: buf_ok_def)
  qed (use cached_unique [OF ok c] i in auto)
  have c': "cached ?t m j = cached s m j" for m j using i by (auto simp: cached_upd cached_def)
  have "blk ?t m = blk s m" for m
  proof (rule blk_eqI [OF ok ok'])
    show "(\<nexists>j. cached s m j) \<Longrightarrow> blk ?t m = disk s m" using blk_uncached [of ?t m] by (simp add: c')
    show "cached s m j \<Longrightarrow> cached ?t m j \<and> data (bufs ?t j) = data (bufs s j)" for j by (simp add: c')
  qed
  moreover have "pinned ?t = pinned s"
  proof -
    have "dirty (bufs ?t j) = dirty (bufs s j)" for j by simp
    then show ?thesis by (auto simp: pinned_cached [OF ok] pinned_cached [OF ok'] c')
  qed
  moreover have "held ?t = insert (unat n) (held s)"
  proof -
    have "m \<in> held ?t \<longleftrightarrow> m = unat n \<or> m \<in> held s" for m
    proof -
      have "m \<in> held ?t \<longleftrightarrow> (\<exists>j. cached s m j \<and> (j = i \<or> locked (block_lock (bufs s j))))"
        unfolding held_cached [OF ok'] c' by (intro arg_cong [where f = Ex] ext) auto
      also have "\<dots> \<longleftrightarrow> cached s m i \<or> m \<in> held s" unfolding held_cached [OF ok] by blast
      also have "cached s m i \<longleftrightarrow> m = unat n" using i by (auto simp: cached_def)
      finally show ?thesis .
    qed
    then show ?thesis by blast
  qed
  moreover have "holds ?t i (unat n)"
    using c by (simp add: holds_def c' holding_buf_def holdingsleep_def)
  moreover have "holds s j m \<longrightarrow> holds ?t j m" for j m
    using l by (auto simp: holds_def c' holding_buf_def holdingsleep_def)
  ultimately show ?thesis using ok' by (simp add: bread_post_def bio_frame_bufs fun_eq_iff)
qed

lemma bread_post_uncached:
  assumes ok: "bio_ok s" and c: "\<nexists>i. cached s (unat n) i" and n: "n < disksize s"
    and i: "i < NBUF" "\<not> dirty (bufs s i)" "\<not> locked (block_lock (bufs s i))"
  shows "bread_post s n i (upd_buf i (\<lambda>b. b\<lparr>bdev := ROOTDEV, blockno := n, refcnt := 1,
      block_lock := (block_lock b)\<lparr>locked := True, lk_pid := pid (myproc s)\<rparr>, data := disk s (unat n), flags := B_VALID\<rparr>) s)"
    (is "bread_post s n i ?t")
proof -
  have v: "valid (b\<lparr>flags := B_VALID\<rparr>)" "\<not> dirty (b\<lparr>flags := B_VALID\<rparr>)" for b
    by (simp_all add: valid_bit dirty_bit bit_VALID)
  define b' where "b' = (bufs s i)\<lparr>bdev := ROOTDEV, blockno := n, refcnt := 1,
      block_lock := (block_lock (bufs s i))\<lparr>locked := True, lk_pid := pid (myproc s)\<rparr>, data := disk s (unat n), flags := B_VALID\<rparr>"
  have b': "valid b'" "\<not> dirty b'" "blockno b' = n" "bdev b' = ROOTDEV" "refcnt b' = 1"
    "locked (block_lock b')" "data b' = disk s (unat n)"
    by (simp_all add: b'_def valid_bit dirty_bit bit_VALID)
  have ok': "bio_ok ?t"
  proof (rule bio_ok_upd [OF ok])
    show "buf_ok s ((bufs s i)\<lparr>bdev := ROOTDEV, blockno := n, refcnt := 1,
      block_lock := (block_lock (bufs s i))\<lparr>locked := True, lk_pid := pid (myproc s)\<rparr>, data := disk s (unat n), flags := B_VALID\<rparr>)"
      unfolding b'_def [symmetric] using b' n by (simp add: buf_ok_def ROOTDEV_def)
  qed (use c in auto)
  have t: "bufs ?t i = b'" by (simp add: b'_def)
  have c': "cached ?t m j \<longleftrightarrow> (if j = i then m = unat n else cached s m j)" for m j
    using b' i by (auto simp: cached_upd b'_def [symmetric])
  have "blk ?t m = blk s m" for m
  proof (cases "m = unat n")
    case True
    then show ?thesis using blk_cached [OF ok', of m i] blk_uncached [of s m] c t b' by (simp add: c')
  next
    case m: False
    show ?thesis
    proof (cases "cached s m i")
      case True
      have "\<nexists>j. cached ?t m j" using m cached_unique [OF ok True] by (auto simp: c')
      moreover have "blk s m = disk s m"
        using True bio_ok_buf [OF ok i(1)] i blk_cached [OF ok True] by (simp add: buf_ok_def cached_def)
      ultimately show ?thesis by (simp add: blk_uncached)
    next
      case False
      show ?thesis
      proof (rule blk_eqI [OF ok ok'])
        show "(\<nexists>j. cached s m j) \<Longrightarrow> blk ?t m = disk s m" using m blk_uncached [of ?t m] by (simp add: c')
        show "cached s m j \<Longrightarrow> cached ?t m j \<and> data (bufs ?t j) = data (bufs s j)" for j
          using False by (auto simp: c')
      qed
    qed
  qed
  moreover have "pinned ?t = pinned s"
  proof -
    have "m \<in> pinned ?t \<longleftrightarrow> m \<in> pinned s" for m
      unfolding pinned_cached [OF ok] pinned_cached [OF ok'] c' using i b' t by auto
    then show ?thesis by blast
  qed
  moreover have "held ?t = insert (unat n) (held s)"
  proof -
    have "m \<in> held ?t \<longleftrightarrow> m = unat n \<or> m \<in> held s" for m
      unfolding held_cached [OF ok] held_cached [OF ok'] c' using i b' t by auto
    then show ?thesis by blast
  qed
  moreover have "holds ?t i (unat n)"
    by (simp add: holds_def c' holding_buf_def holdingsleep_def)
  moreover have "holds s j m \<longrightarrow> holds ?t j m" for j m
    using i by (auto simp: holds_def c' holding_buf_def holdingsleep_def)
  ultimately show ?thesis using ok' by (simp add: bread_post_def bio_frame_bufs fun_eq_iff)
qed

lemma bread_spec:
  assumes ok: "bio_ok s" and n: "n < disksize s" and h: "unat n \<notin> held s"
    and free: "unat n \<in> pinned s \<or> card (pinned s \<union> held s) < NBUF"
  shows "\<exists>i s'. bread ROOTDEV n s = Ok (i, s') \<and> bread_post s n i s'"
proof (cases "\<exists>i. cached s (unat n) i")
  case True
  then obtain i where i: "cached s (unat n) i" by blast
  then have "\<not> locked (block_lock (bufs s i))" using h by (auto simp: held_def cached_def)
  moreover have "flags (bufs s i) AND B_VALID \<noteq> 0" using i by (simp add: cached_def valid_def)
  ultimately show ?thesis
    using bget_cached [OF ok i] bread_post_cached [OF ok i] by (auto simp: bread_def)
next
  case False
  then have "unat n \<notin> pinned s" using pinned_cached [OF ok] by blast
  with free free_buffer [OF ok] bget_uncached [OF ok False]
  obtain i where i: "i < NBUF" "\<not> dirty (bufs s i)" "\<not> locked (block_lock (bufs s i))"
    and g: "bget ROOTDEV n s = Ok (i, upd_buf i (\<lambda>b. b\<lparr>bdev := ROOTDEV, blockno := n, flags := 0, refcnt := 1,
      block_lock := (block_lock b)\<lparr>locked := True, lk_pid := pid (myproc s)\<rparr>\<rparr>) s)"
    by blast
  have "B_VALID \<noteq> 0" by (simp add: B_VALID_def)
  then have "bread ROOTDEV n s = Ok (i, upd_buf i (\<lambda>b. b\<lparr>bdev := ROOTDEV, blockno := n, refcnt := 1,
      block_lock := (block_lock b)\<lparr>locked := True, lk_pid := pid (myproc s)\<rparr>, data := disk s (unat n), flags := B_VALID\<rparr>) s)"
    using n by (simp add: bread_def g iderw_def Let_def holding_buf_def holdingsleep_def not_le)
      (simp add: upd_buf_def)
  with bread_post_uncached [OF ok False n i] show ?thesis by blast
qed

text \<open>Changing the data or the flags of a held buffer.\<close>

lemma holds_buf: "holds s i n \<Longrightarrow> i < NBUF \<and> valid (bufs s i) \<and> unat (blockno (bufs s i)) = n
    \<and> locked (block_lock (bufs s i)) \<and> holding_buf i s"
  by (simp add: holds_def cached_def holding_buf_def holdingsleep_def)

lemma holding_buf_upd: "block_lock (f (bufs s i)) = block_lock (bufs s i) \<Longrightarrow>
    holding_buf j (upd_buf i f s) = holding_buf j s"
  by (simp add: holding_buf_def)

definition same_id :: "buf \<Rightarrow> buf \<Rightarrow> bool" where
  "same_id b c \<longleftrightarrow> bnext c = bnext b \<and> bprev c = bprev b \<and> blockno c = blockno b \<and> bdev c = bdev b
     \<and> block_lock c = block_lock b \<and> refcnt c = refcnt b \<and> valid c"

lemma touch:
  assumes ok: "bio_ok s" and h: "holds s i n" and f: "same_id (bufs s i) (f (bufs s i))"
  shows "bio_ok (upd_buf i f s)" "blk (upd_buf i f s) = (blk s)(n := data (f (bufs s i)))"
    "pinned (upd_buf i f s) = (if dirty (f (bufs s i)) then insert n (pinned s) else pinned s - {n})"
    "held (upd_buf i f s) = held s" "holds (upd_buf i f s) j m = holds s j m"
proof -
  let ?t = "upd_buf i f s"
  have i: "cached s n i" "i < NBUF" "valid (bufs s i)" "unat (blockno (bufs s i)) = n"
    "locked (block_lock (bufs s i))"
    using h holds_buf [OF h] by (simp_all add: holds_def)
  have f': "bnext (f (bufs s i)) = bnext (bufs s i)" "bprev (f (bufs s i)) = bprev (bufs s i)"
    "blockno (f (bufs s i)) = blockno (bufs s i)" "bdev (f (bufs s i)) = bdev (bufs s i)"
    "block_lock (f (bufs s i)) = block_lock (bufs s i)" "refcnt (f (bufs s i)) = refcnt (bufs s i)"
    "valid (f (bufs s i))"
    using f by (simp_all add: same_id_def)
  show ok': "bio_ok ?t"
  proof (rule bio_ok_upd [where f = f, OF ok f'(1,2)])
    show "buf_ok s (f (bufs s i))" using bio_ok_buf [OF ok i(2)] i f' by (simp add: buf_ok_def)
    fix j
    assume "j \<noteq> i"
    then show "\<not> cached s (unat (blockno (f (bufs s i)))) j"
      using cached_unique [OF ok i(1), of j] i(4) f'(3) by auto
  qed
  have c': "cached ?t m j = cached s m j" for m j
    using i f' by (auto simp: cached_upd cached_def)
  show "blk ?t = (blk s)(n := data (f (bufs s i)))"
  proof
    fix m
    show "blk ?t m = ((blk s)(n := data (f (bufs s i)))) m"
    proof (cases "m = n")
      case True
      then show ?thesis using blk_cached [OF ok', of n i] i(1) by (simp add: c')
    next
      case False
      have "blk ?t m = blk s m"
      proof (rule blk_eqI [OF ok ok'])
        show "(\<nexists>j. cached s m j) \<Longrightarrow> blk ?t m = disk s m" using blk_uncached [of ?t m] by (simp add: c')
        show "cached s m j \<Longrightarrow> cached ?t m j \<and> data (bufs ?t j) = data (bufs s j)" for j
          using False i(4) by (auto simp: c' cached_def)
      qed
      then show ?thesis using False by simp
    qed
  qed
  show "pinned ?t = (if dirty (f (bufs s i)) then insert n (pinned s) else pinned s - {n})"
  proof -
    have "m \<in> pinned ?t \<longleftrightarrow> (\<exists>j. cached s m j \<and> (if j = i then dirty (f (bufs s i)) else dirty (bufs s j)))" for m
      unfolding pinned_cached [OF ok'] c' by (intro arg_cong [where f = Ex] ext) auto
    moreover have "(\<exists>j. cached s m j \<and> (if j = i then dirty (f (bufs s i)) else dirty (bufs s j)))
        \<longleftrightarrow> (if m = n then dirty (f (bufs s i)) else m \<in> pinned s)" for m
    proof (cases "m = n")
      case True
      then have "cached s m j \<longleftrightarrow> j = i" for j
        using i(1) cached_unique [OF ok i(1), of j] by blast
      then show ?thesis using True by simp
    next
      case False
      then have "cached s m j \<Longrightarrow> j \<noteq> i" for j using i(4) by (auto simp: cached_def)
      then show ?thesis using False unfolding pinned_cached [OF ok] by auto
    qed
    ultimately have "m \<in> pinned ?t \<longleftrightarrow> (if m = n then dirty (f (bufs s i)) else m \<in> pinned s)" for m
      by simp
    then show ?thesis by (simp add: set_eq_iff)
  qed
  show "held ?t = held s"
  proof -
    have "locked (block_lock (bufs ?t j)) = locked (block_lock (bufs s j))" for j using f' by simp
    then show ?thesis by (auto simp: held_cached [OF ok] held_cached [OF ok'] c')
  qed
  show "holds ?t j m = holds s j m" using f' by (simp add: holds_def c' holding_buf_upd)
qed

lemma write_held_disk:
  assumes ok: "bio_ok s" and h: "holds s i n"
  shows "bio_ok (s\<lparr>disk := (disk s)(n := d), iolog := l\<rparr>)" (is "bio_ok ?t")
    "blk (s\<lparr>disk := (disk s)(n := d), iolog := l\<rparr>) = blk s"
proof -
  have c: "cached s n i" using h by (simp add: holds_def)
  have c': "cached ?t m j = cached s m j" for m j by (simp add: cached_def)
  have b: "buf_ok ?t (bufs s j)" if "j < NBUF" for j
  proof (cases "cached s n j")
    case True
    then have "j = i" using cached_unique [OF ok c] by blast
    then show ?thesis using bio_ok_buf [OF ok that] holds_buf [OF h] by (simp add: buf_ok_def)
  next
    case False
    then show ?thesis using bio_ok_buf [OF ok that] that by (auto simp: buf_ok_def cached_def)
  qed
  have "nx ?t = nx s" "pv ?t = pv s" by (auto simp: nx_def pv_def)
  then have "ring_ok ?t = ring_ok s" by (rule ring_ok_cong)
  then show ok': "bio_ok ?t" using ok b by (simp add: bio_ok_def)
  show "blk ?t = blk s"
  proof
    fix m
    show "blk ?t m = blk s m"
    proof (rule blk_eqI [OF ok ok'])
      show "(\<nexists>j. cached s m j) \<Longrightarrow> blk ?t m = disk s m" using blk_uncached [of ?t m] c by (auto simp: c')
      show "cached s m j \<Longrightarrow> cached ?t m j \<and> data (bufs ?t j) = data (bufs s j)" for j by (simp add: c')
    qed
  qed
qed

definition set_data :: "nat \<Rightarrow> block \<Rightarrow> 'a bcache_scheme \<Rightarrow> 'a bcache_scheme" where
  "set_data i d s = upd_buf i (\<lambda>b. b\<lparr>data := d\<rparr>) s"

lemma set_data_spec:
  assumes "bio_ok s" "holds s i n"
  shows "bio_ok (set_data i d s)" "blk (set_data i d s) = (blk s)(n := d)" "pinned (set_data i d s) = pinned s"
    "held (set_data i d s) = held s" "holds (set_data i d s) j m = holds s j m" "bio_frame s (set_data i d s)"
    "disk (set_data i d s) = disk s" "iolog (set_data i d s) = iolog s" "procs (set_data i d s) = procs s"
proof -
  have id: "same_id (bufs s i) ((bufs s i)\<lparr>data := d\<rparr>)" using holds_buf [OF assms(2)] by (simp add: same_id_def)
  note t = touch [where f = "\<lambda>b. b\<lparr>data := d\<rparr>", OF assms id]
  show "bio_ok (set_data i d s)" "blk (set_data i d s) = (blk s)(n := d)"
    "held (set_data i d s) = held s" "holds (set_data i d s) j m = holds s j m"
    using t by (simp_all add: set_data_def)
  have "dirty (bufs s i) \<longleftrightarrow> n \<in> pinned s"
    using cached_unique [OF assms(1)] assms(2) unfolding pinned_cached [OF assms(1)] holds_def by blast
  then show "pinned (set_data i d s) = pinned s" using t(3) by (auto simp: set_data_def split: if_splits)
qed (simp_all add: set_data_def bio_frame_bufs)

definition set_dirty :: "nat \<Rightarrow> 'a bcache_scheme \<Rightarrow> 'a bcache_scheme" where
  "set_dirty i s = upd_buf i (\<lambda>b. b\<lparr>flags := flags b OR B_DIRTY\<rparr>) s"

lemma set_dirty_spec:
  assumes "bio_ok s" "holds s i n"
  shows "bio_ok (set_dirty i s)" "blk (set_dirty i s) = blk s" "pinned (set_dirty i s) = insert n (pinned s)"
    "held (set_dirty i s) = held s" "holds (set_dirty i s) j m = holds s j m" "bio_frame s (set_dirty i s)"
    "disk (set_dirty i s) = disk s" "iolog (set_dirty i s) = iolog s" "procs (set_dirty i s) = procs s"
proof -
  have id: "same_id (bufs s i) ((bufs s i)\<lparr>flags := flags (bufs s i) OR B_DIRTY\<rparr>)"
    using holds_buf [OF assms(2)] by (simp add: same_id_def)
  note t = touch [where f = "\<lambda>b. b\<lparr>flags := flags b OR B_DIRTY\<rparr>", OF assms id]
  show "bio_ok (set_dirty i s)"
    "held (set_dirty i s) = held s" "holds (set_dirty i s) j m = holds s j m"
    "pinned (set_dirty i s) = insert n (pinned s)"
    using t by (simp_all add: set_dirty_def)
  show "blk (set_dirty i s) = blk s"
    using t(2) holds_data [OF assms] by (simp add: set_dirty_def fun_upd_idem)
qed (simp_all add: set_dirty_def bio_frame_bufs)

definition bwrite_post :: "'a bcache_scheme \<Rightarrow> nat \<Rightarrow> 'a bcache_scheme \<Rightarrow> bool" where
  "bwrite_post s n s' \<longleftrightarrow> bio_ok s' \<and> bio_frame s s' \<and> disk s' = (disk s)(n := blk s n)
     \<and> iolog s' = iolog s @ [(n, blk s n)] \<and> procs s' = procs s \<and> blk s' = blk s \<and> pinned s' = pinned s - {n}
     \<and> held s' = held s \<and> (\<forall>j m. holds s' j m = holds s j m)"

lemma bwrite_spec:
  assumes ok: "bio_ok s" and h: "holds s i n"
  shows "\<exists>s'. bwrite i s = Ok s' \<and> bwrite_post s n s'"
proof -
  let ?s1 = "set_dirty i s"
  let ?s2 = "?s1\<lparr>disk := (disk ?s1)(n := blk s n), iolog := iolog ?s1 @ [(n, blk s n)]\<rparr>"
  let ?f = "\<lambda>b :: buf. b\<lparr>flags := (flags b AND NOT B_DIRTY) OR B_VALID\<rparr>"
  let ?s3 = "upd_buf i ?f ?s2"
  note d = set_dirty_spec [OF ok h]
  have h1: "holds ?s1 i n" using d h by simp
  note w = write_held_disk [OF d(1) h1, where d = "blk s n" and l = "iolog ?s1 @ [(n, blk s n)]"]
  have h2: "holds ?s2 i n"
    using h1 by (simp add: holds_def cached_def holding_buf_def myproc_def)
  have pin: "pinned ?s2 = pinned ?s1" "held ?s2 = held ?s1" "holds ?s2 j m = holds ?s1 j m" for j m
    by (simp_all add: pinned_def held_def holds_def cached_def holding_buf_def myproc_def)
  have id: "same_id (bufs ?s2 i) (?f (bufs ?s2 i))" by (simp add: same_id_def)
  note t = touch [where f = ?f, OF w(1) h2 id]
  note hb = holds_buf [OF h]
  have dev: "bdev (bufs s i) = 1" "blockno (bufs s i) < disksize s"
    using bio_ok_buf [OF ok] hb by (auto simp: buf_ok_def)
  have "iderw i ?s1 = Ok ?s3"
  proof -
    have bit: "flags (bufs ?s1 i) AND B_DIRTY \<noteq> 0"
      using valid_flags(6) [where b = "bufs s i" and f = "flags (bufs s i)"] by (simp add: dirty_def set_dirty_def)
    then have "flags (bufs ?s1 i) AND (B_VALID OR B_DIRTY) \<noteq> B_VALID"
      using flags_valid_only [of "bufs ?s1 i"] by (simp add: dirty_def)
    moreover have "data (bufs ?s1 i) = blk s n" using holds_data [OF d(1) h1] d by simp
    moreover have "holding_buf i ?s1" using h1 by (simp add: holds_def)
    moreover have "bdev (bufs ?s1 i) = 1" "unat (blockno (bufs ?s1 i)) = n" "\<not> blockno (bufs ?s1 i) \<ge> disksize ?s1"
      using dev hb by (simp_all add: set_dirty_def not_le)
    ultimately show ?thesis using bit by (simp only: iderw_def Let_def if_False if_True simp_thms)
  qed
  then have "bwrite i s = Ok ?s3" using hb by (simp add: bwrite_def set_dirty_def)
  moreover have "bwrite_post s n ?s3"
    unfolding bwrite_post_def
  proof (intro conjI allI)
    show "bio_ok ?s3" by (rule t)
    show "blk ?s3 = blk s"
      using t(2) w(2) d(2) holds_data [OF w(1) h2] by (simp add: fun_upd_idem)
    show "pinned ?s3 = pinned s - {n}" using t(3) pin d by simp
    show "held ?s3 = held s" using t(4) pin d by simp
    show "holds ?s3 j m = holds s j m" for j m using t(5) pin d by simp
    show "bio_frame s ?s3"
      using d(6) by (simp add: bio_frame_def upd_buf_def set_dirty_def)
  qed (use d in simp_all)
  ultimately show ?thesis by blast
qed

definition brelse_post :: "'a bcache_scheme \<Rightarrow> nat \<Rightarrow> nat \<Rightarrow> 'a bcache_scheme \<Rightarrow> bool" where
  "brelse_post s i n s' \<longleftrightarrow> bio_ok s' \<and> bio_frame s s' \<and> disk s' = disk s
     \<and> iolog s' = iolog s \<and> procs s' = procs (wakeup (ChBuf i) s) \<and> blk s' = blk s \<and> pinned s' = pinned s
     \<and> held s' = held s - {n} \<and> (\<forall>j m. j \<noteq> i \<longrightarrow> holds s j m \<longrightarrow> holds s' j m)"

lemma brelse_spec:
  assumes ok: "bio_ok s" and h: "holds s i n" and clean: "n \<in> pinned s \<or> blk s n = disk s n"
  shows "\<exists>s'. brelse i s = Ok s' \<and> brelse_post s i n s'"
proof -
  note hb = holds_buf [OF h]
  define f :: "buf \<Rightarrow> buf" where "f = (\<lambda>b. b\<lparr>block_lock := unlocked (block_lock (bufs s i)), refcnt := refcnt b - 1\<rparr>)"
  let ?w = "wakeup (ChBuf i) s"
  let ?s2 = "upd_buf i f ?w"
  let ?s3 = "brelse_links i ?s2"
  have w: "bufs ?w = bufs s" "disk ?w = disk s" "iolog ?w = iolog s" "disksize ?w = disksize s"
    "pid (myproc ?w) = pid (myproc s)"
    by (simp_all add: wakeup_def wakeup1_def myproc_def wake_proc_def)
  have r: "refcnt (bufs s i) = 1" using bio_ok_buf [OF ok] hb by (simp add: buf_ok_def)
  have run: "brelse i s = Ok ?s3"
    using hb r w by (simp add: brelse_def releasesleep_def f_def Let_def upd_buf_def)
  have body3: "body (bufs ?s3 j) = body (bufs ?s2 j)" for j by (rule body_brelse_links)
  have okw: "bio_ok ?w"
  proof -
    have "nx ?w = nx s" "pv ?w = pv s" using w(1) by (simp_all add: nx_def pv_def fun_eq_iff)
    then have "ring_ok ?w = ring_ok s" by (rule ring_ok_cong)
    then show ?thesis using ok w by (simp add: bio_ok_def buf_ok_def)
  qed
  have c1: "cached ?w m j = cached s m j" for m j using w by (simp add: cached_def)
  have ci: "cached s n i" using h by (simp add: holds_def)
  have dp: "dirty (bufs s i) \<longleftrightarrow> n \<in> pinned s"
    using cached_unique [OF ok ci] ci unfolding pinned_cached [OF ok] by blast
  have f': "valid (f (bufs ?w i)) = valid (bufs s i)" "blockno (f (bufs ?w i)) = blockno (bufs s i)"
    "dirty (f (bufs ?w i)) = dirty (bufs s i)" "data (f (bufs ?w i)) = data (bufs s i)"
    "\<not> locked (block_lock (f (bufs ?w i)))" "bdev (f (bufs ?w i)) = bdev (bufs s i)"
    "refcnt (f (bufs ?w i)) = 0" "bnext (f (bufs ?w i)) = bnext (bufs ?w i)" "bprev (f (bufs ?w i)) = bprev (bufs ?w i)"
    using w(1) r by (simp_all add: f_def unlocked_def)
  have ok2: "bio_ok ?s2"
  proof (rule bio_ok_upd [where f = f, OF okw f'(8,9)])
    have "data (bufs s i) = disk s n" if "\<not> dirty (bufs s i)"
      using clean dp that holds_data [OF ok h] by simp
    then show "buf_ok ?w (f (bufs ?w i))"
      using bio_ok_buf [OF ok] hb f' w by (simp add: buf_ok_def)
    fix j
    assume "j \<noteq> i"
    then show "\<not> cached ?w (unat (blockno (f (bufs ?w i)))) j"
      using cached_unique [OF ok ci, of j] hb f'(2) unfolding c1 by auto
  qed
  have same: "\<forall>j<NBUF. body (bufs ?s3 j) = body (bufs ?s2 j)" using body3 by blast
  have c3: "cached ?s3 m j = cached s m j" for m j
    using cached_cong [OF same] hb f' w by (auto simp: cached_upd c1 cached_def)
  have b3: "valid (bufs ?s3 j) = valid (bufs ?s2 j)" "blockno (bufs ?s3 j) = blockno (bufs ?s2 j)"
    "dirty (bufs ?s3 j) = dirty (bufs ?s2 j)" "data (bufs ?s3 j) = data (bufs ?s2 j)"
    "block_lock (bufs ?s3 j) = block_lock (bufs ?s2 j)" "bdev (bufs ?s3 j) = bdev (bufs ?s2 j)"
    "refcnt (bufs ?s3 j) = refcnt (bufs ?s2 j)" for j
    using body3 [of j] by (metis body_fields)+
  have disk3: "disk ?s3 = disk ?s2" "disksize ?s3 = disksize ?s2" "iolog ?s3 = iolog ?s2"
    "procs ?s3 = procs ?s2" "curproc ?s3 = curproc ?s2"
    by (subst brelse_links_frame, simp)+
  have ok3: "bio_ok ?s3"
  proof -
    have "ring_ok ?s3" using ok2 hb by (intro ring_ok_brelse_links) (simp_all add: bio_ok_def)
    then show ?thesis using ok2 unfolding bio_ok_def buf_ok_def b3 disk3 by blast
  qed
  have same_bufs: "dirty (bufs ?s3 j) = dirty (bufs s j)" "data (bufs ?s3 j) = data (bufs s j)" for j
    using f' w by (auto simp: b3)
  have "blk ?s3 m = blk s m" for m
  proof (rule blk_eqI [OF ok ok3])
    show "(\<nexists>j. cached s m j) \<Longrightarrow> blk ?s3 m = disk s m"
      using blk_uncached [of ?s3 m] w by (simp add: c3 disk3)
    show "cached s m j \<Longrightarrow> cached ?s3 m j \<and> data (bufs ?s3 j) = data (bufs s j)" for j
      by (simp add: c3 same_bufs)
  qed
  moreover have "pinned ?s3 = pinned s"
    by (auto simp: pinned_cached [OF ok] pinned_cached [OF ok3] c3 same_bufs)
  moreover have "held ?s3 = held s - {n}"
  proof -
    have "locked (block_lock (bufs ?s3 j)) \<longleftrightarrow> j \<noteq> i \<and> locked (block_lock (bufs s j))" for j
      using f' w by (auto simp: b3)
    then have "m \<in> held ?s3 \<longleftrightarrow> (\<exists>j. cached s m j \<and> j \<noteq> i \<and> locked (block_lock (bufs s j)))" for m
      unfolding held_cached [OF ok3] c3 by presburger
    moreover have "cached s m j \<Longrightarrow> j \<noteq> i \<longleftrightarrow> m \<noteq> n" for m j
      using ci cached_unique [OF ok ci, of j] by (auto simp: cached_def)
    ultimately show ?thesis unfolding set_eq_iff Diff_iff held_cached [OF ok] by blast
  qed
  moreover have "holds ?s3 j m" if "j \<noteq> i" "holds s j m" for j m
  proof -
    have "pid (myproc ?s3) = pid (myproc s)" using w by (simp add: myproc_def disk3)
    then show ?thesis using that w by (simp add: holds_def c3 holding_buf_def b3)
  qed
  moreover have "bio_frame s ?s3"
  proof -
    have "?s3 = ?s2\<lparr>bufs := bufs ?s3\<rparr>" by (rule brelse_links_frame)
    also have "\<dots> = s\<lparr>procs := procs ?w, bufs := bufs ?s3\<rparr>"
      by (simp add: upd_buf_def wakeup_def wakeup1_def)
    finally have "?s3 = s\<lparr>procs := procs ?w, bufs := bufs ?s3\<rparr>" .
    then show ?thesis by (rule bio_frame_procs_bufs) (simp add: woken_wakeup)
  qed
  ultimately have "brelse_post s i n ?s3"
    using ok3 w by (simp add: brelse_post_def disk3 fun_eq_iff)
  with run show ?thesis by blast
qed

section \<open>The cache at boot\<close>

definition zero_buf :: buf where
  "zero_buf = \<lparr>flags = 0, bdev = 0, blockno = 0, block_lock = \<lparr>locked = False, lk_pid = 0\<rparr>, refcnt = 0,
     bprev = 0, bnext = 0, data = (\<lambda>i. 0)\<rparr>"

definition idle_buf :: "buf \<Rightarrow> bool" where
  "idle_buf b \<longleftrightarrow> flags b = 0 \<and> bdev b = 0 \<and> refcnt b = 0 \<and> \<not> locked (block_lock b)"

lemma idle_zero_buf: "idle_buf zero_buf"
  by (simp add: idle_buf_def zero_buf_def)

lemma idle_buf_flags: "idle_buf b \<Longrightarrow> \<not> valid b \<and> \<not> dirty b"
  by (simp add: idle_buf_def valid_def dirty_def)

lemma idle_upd: "\<forall>j. idle_buf (bufs s j) \<Longrightarrow> idle_buf (f (bufs s i)) \<Longrightarrow> \<forall>j. idle_buf (bufs (upd_buf i f s) j)"
  by simp

lemma idle_fields [simp]:
  "idle_buf (b\<lparr>bnext := k\<rparr>) = idle_buf b" "idle_buf (b\<lparr>bprev := k\<rparr>) = idle_buf b"
  "idle_buf b \<Longrightarrow> idle_buf (b\<lparr>bprev := k, block_lock := initsleeplock\<rparr>)"
  by (simp_all add: idle_buf_def initsleeplock_def)

lemma idle_binit_one: "\<forall>j. idle_buf (bufs s j) \<Longrightarrow> \<forall>j. idle_buf (bufs (binit_one b s) j)"
  unfolding binit_one_def Let_def by (intro idle_upd) simp_all

lemma idle_binit: "\<forall>j. idle_buf (bufs s j) \<Longrightarrow> \<forall>j. idle_buf (bufs (binit s) j)"
proof -
  have fold: "\<forall>j. idle_buf (bufs t j) \<Longrightarrow> \<forall>j. idle_buf (bufs (fold binit_one xs t) j)" for xs t
  proof (induction xs arbitrary: t)
    case Nil
    then show ?case by simp
  next
    case (Cons x xs)
    then show ?case using idle_binit_one [of t x] by simp
  qed
  assume "\<forall>j. idle_buf (bufs s j)"
  then show ?thesis unfolding binit_def by (intro fold) (auto simp: idle_buf_def)
qed

lemma binit_one_frame: "binit_one b s = s\<lparr>bufs := bufs (binit_one b s)\<rparr>"
  by (simp add: binit_one_def Let_def upd_buf_def)

lemma binit_frame: "binit s = s\<lparr>bufs := bufs (binit s)\<rparr>"
proof -
  have "fold binit_one xs t = t\<lparr>bufs := bufs (fold binit_one xs t)\<rparr>" for xs and t :: "'a bcache_scheme"
  proof (induction xs arbitrary: t)
    case Nil
    then show ?case by simp
  next
    case (Cons x xs)
    show ?case
      using Cons.IH [of "binit_one x t"] binit_one_frame [of x t]
      by (metis (no_types, lifting) bcache.fold_congs(1) bcache.simps(7) fold_simps(2) bcache.surjective bcache.update_convs(1))
  qed
  from this [of "[0..<NBUF]" "upd_buf NBUF (\<lambda>x. x\<lparr>bprev := NBUF, bnext := NBUF\<rparr>) s"]
  show ?thesis unfolding binit_def by (simp add: upd_buf_def)
qed

lemma binit_ok:
  assumes "\<forall>j. idle_buf (bufs s j)"
  shows "bio_ok (binit s)" "blk (binit s) = disk s" "pinned (binit s) = {}" "held (binit s) = {}"
proof -
  have idle: "idle_buf (bufs (binit s) j)" for j using idle_binit [OF assms] by blast
  have "disk (binit s) = disk s" by (subst binit_frame) simp
  moreover have "\<not> cached (binit s) n i" for n i using idle_buf_flags [OF idle] by (simp add: cached_def)
  ultimately show "blk (binit s) = disk s" by (simp add: fun_eq_iff blk_uncached)
  show "pinned (binit s) = {}" using idle_buf_flags [OF idle] by (simp add: pinned_def)
  show "held (binit s) = {}" using idle by (simp add: held_def idle_buf_def)
  show "bio_ok (binit s)"
    using ring_ok_binit idle_buf_flags [OF idle] idle by (simp add: bio_ok_def buf_ok_def idle_buf_def)
qed

section \<open>Properties\<close>

text \<open>
  C11: The buffer cache never lies. From any consistent cache, \<open>bread\<close> of a block in range that
  nobody holds returns a buffer locked by the caller whose data is the block's current content
  (the cached copy if there is one, else the disk), as long as a buffer can be recycled; the
  cache stays consistent (one copy per block, the ring intact) and no block's content changes.
\<close>

theorem bread_returns_content:
  assumes "bio_ok s" and "n < disksize s" and "unat n \<notin> held s"
    and "unat n \<in> pinned s \<or> card (pinned s \<union> held s) < NBUF"
  shows "\<exists>i s'. bread ROOTDEV n s = Ok (i, s') \<and> bio_ok s' \<and> holds s' i (unat n)
     \<and> data (bufs s' i) = blk s (unat n) \<and> blk s' = blk s \<and> disk s' = disk s"
proof -
  obtain i s' where "bread ROOTDEV n s = Ok (i, s')" "bread_post s n i s'"
    using bread_spec [OF assms] by blast
  then show ?thesis using holds_data [of s' i "unat n"]
    by (intro exI [of _ i] exI [of _ s']) (simp add: bread_post_def)
qed

definition bcache0 :: bcache where
  "bcache0 = kmem.extend kmem0
     (bcache.fields (\<lambda>i. zero_buf) (\<lambda>n i. of_nat (n + i)) 1000 [])"

lemma bcache0_idle: "\<forall>j. idle_buf (bufs bcache0 j)"
  by (simp add: bcache0_def kmem0_def kmem.defs bcache.defs idle_zero_buf)

lemma bread_returns_content_witness:
  "\<exists>i s'. bread ROOTDEV 5 (binit bcache0) = Ok (i, s') \<and> bio_ok s' \<and> holds s' i 5
     \<and> data (bufs s' i) = (\<lambda>i. of_nat (5 + i))"
proof -
  note b = binit_ok [OF bcache0_idle]
  have d: "disksize (binit bcache0) = 1000" "disk bcache0 = (\<lambda>n i. of_nat (n + i))"
    by (subst binit_frame, simp add: bcache0_def kmem0_def kmem.defs bcache.defs)
      (simp add: bcache0_def kmem0_def kmem.defs bcache.defs)
  show ?thesis
    using bread_returns_content [OF b(1), of 5] b(2-4) d by (auto simp: NBUF_def)
qed

text \<open>
  A write reaches the disk. \<open>bwrite\<close> followed by \<open>brelse\<close> of a buffer the caller holds puts the
  buffer's data on the disk under its block number and nothing else, records exactly that write,
  leaves the cache consistent and the buffer unpinned and unlocked.
\<close>

theorem bwrite_reaches_disk:
  assumes "bio_ok s" and "holds s i n"
  shows "\<exists>s'. bindr (bwrite i s) (brelse i) = Ok s' \<and> bio_ok s'
     \<and> disk s' = (disk s)(n := data (bufs s i)) \<and> iolog s' = iolog s @ [(n, data (bufs s i))]
     \<and> blk s' = blk s \<and> n \<notin> pinned s' \<and> n \<notin> held s'"
proof -
  obtain t where t: "bwrite i s = Ok t" "bwrite_post s n t" using bwrite_spec [OF assms] by blast
  then have "bio_ok t" "holds t i n" "blk t n = disk t n" "n \<notin> pinned t"
    using assms(2) by (simp_all add: bwrite_post_def)
  with brelse_spec obtain u where u: "brelse i t = Ok u" "brelse_post t i n u" by blast
  show ?thesis
    using t u holds_data [OF assms] by (intro exI [of _ u]) (simp add: bwrite_post_def brelse_post_def)
qed

lemma bwrite_reaches_disk_witness:
  "\<exists>i s s'. bread ROOTDEV 5 (binit bcache0) = Ok (i, s) \<and> bindr (bwrite i (set_data i (\<lambda>i. 7) s)) (brelse i) = Ok s'
     \<and> disk s' 5 = (\<lambda>i. 7) \<and> disk s' 6 = disk bcache0 6"
proof -
  note b = binit_ok [OF bcache0_idle]
  have d: "disksize (binit bcache0) = 1000" "disk (binit bcache0) = disk bcache0"
    by (subst binit_frame, simp add: bcache0_def kmem0_def kmem.defs bcache.defs)+
  obtain i s where s: "bread ROOTDEV 5 (binit bcache0) = Ok (i, s)" "bread_post (binit bcache0) 5 i s"
    using bread_spec [OF b(1), of 5] b(2-4) d by (auto simp: NBUF_def)
  then have "bio_ok s" "holds s i 5" "disk s = disk bcache0" using d by (simp_all add: bread_post_def)
  moreover note set_data_spec [OF this(1,2), of "\<lambda>i. 7"]
  ultimately show ?thesis
    using bwrite_reaches_disk [of "set_data i (\<lambda>i. 7) s" i 5] s(1)
    by (auto simp: set_data_def)
qed

end
