(* ===== verification/Log.thy ===== *)
theory Log
  imports Bio
begin

text \<open>
  \<open>log.c\<close>: the write-ahead log, with \<open>readsb\<close> and the superblock of \<open>fs.c\<close> and \<open>fs.h\<close>. The log
  header is kept in memory (\<open>lh_n\<close>, \<open>lh_block\<close>) and, encoded as the C structure, in block
  \<open>lstart\<close>. Each disk write is atomic, so a crash leaves a prefix of the writes that \<open>iolog\<close> records.
  Lemmas: the exact sequence of writes of a commit, and that recovery from any of its prefixes
  leaves all of the transaction or none of it.
\<close>

definition MAXOPBLOCKS :: int where "MAXOPBLOCKS = 10"
definition LOGSIZE :: int where "LOGSIZE = MAXOPBLOCKS * 3"

record superblock =
  sb_size :: u32
  sb_nblocks :: u32
  sb_ninodes :: u32
  sb_nlog :: u32
  sb_logstart :: u32
  sb_inodestart :: u32
  sb_bmapstart :: u32

record logst =
  lstart :: u32
  lsize :: int
  outstanding :: int
  committing :: bool
  ldev :: u32
  lh_n :: int
  lh_block :: "nat \<Rightarrow> u32"

record logfs = bcache +
  log :: logst
  sb :: superblock

definition upd_log :: "(logst \<Rightarrow> logst) \<Rightarrow> 'a logfs_scheme \<Rightarrow> 'a logfs_scheme" where
  "upd_log f s = s\<lparr>log := f (log s)\<rparr>"

section \<open>The structures on disk\<close>

definition dec_sb :: "block \<Rightarrow> superblock" where
  "dec_sb d = \<lparr>sb_size = rd32 d 0, sb_nblocks = rd32 d 4, sb_ninodes = rd32 d 8, sb_nlog = rd32 d 12,
     sb_logstart = rd32 d 16, sb_inodestart = rd32 d 20, sb_bmapstart = rd32 d 24\<rparr>"

text \<open>\<open>struct logheader\<close> in the header block: \<open>n\<close>, then the block numbers.\<close>

definition hdr_n :: "block \<Rightarrow> int" where "hdr_n d = sint (rd32 d 0)"
definition hdr_block :: "block \<Rightarrow> nat \<Rightarrow> u32" where "hdr_block d i = rd32 d (4 + 4 * i)"

fun put_hdr :: "(nat \<Rightarrow> u32) \<Rightarrow> nat \<Rightarrow> block \<Rightarrow> block" where
  "put_hdr bs 0 d = d"
| "put_hdr bs (Suc i) d = wr32 (put_hdr bs i d) (4 + 4 * i) (bs i)"

section \<open>The routines\<close>

text \<open>Copying one block over another through two buffers, as both copying loops do.\<close>

definition readsb :: "u32 \<Rightarrow> 'a logfs_scheme \<Rightarrow> (superblock \<times> 'a logfs_scheme) res" where
  "readsb dev s =
     bindr (bread dev 1 s) (\<lambda>(bp, s).
       let v = dec_sb (data (bufs s bp)) in bindr (brelse bp s) (\<lambda>s. Ok (v, s)))"

definition install_one :: "nat \<Rightarrow> 'a logfs_scheme \<Rightarrow> 'a logfs_scheme res" where
  "install_one tail s =
     bindr (bread (ldev (log s)) (lstart (log s) + of_nat tail + 1) s) (\<lambda>(lbuf, s).
     bindr (bread (ldev (log s)) (lh_block (log s) tail) s) (\<lambda>(dbuf, s).
       let s = set_data dbuf (data (bufs s lbuf)) s in
       bindr (bwrite dbuf s) (\<lambda>s.
       bindr (brelse lbuf s) (\<lambda>s.
       brelse dbuf s))))"

definition install_trans :: "'a logfs_scheme \<Rightarrow> 'a logfs_scheme res" where
  "install_trans s = foldr_res install_one [0..<nat (lh_n (log s))] s"

definition read_head :: "'a logfs_scheme \<Rightarrow> 'a logfs_scheme res" where
  "read_head s =
     bindr (bread (ldev (log s)) (lstart (log s)) s) (\<lambda>(buf, s).
       let lh = data (bufs s buf);
           s = upd_log (\<lambda>l. l\<lparr>lh_n := hdr_n lh\<rparr>) s;
           s = upd_log (\<lambda>l. l\<lparr>lh_block := (\<lambda>i. if int i < lh_n l then hdr_block lh i else lh_block l i)\<rparr>) s
       in brelse buf s)"

definition write_head :: "'a logfs_scheme \<Rightarrow> 'a logfs_scheme res" where
  "write_head s =
     bindr (bread (ldev (log s)) (lstart (log s)) s) (\<lambda>(buf, s).
       let hb = wr32 (data (bufs s buf)) 0 (of_int (lh_n (log s)));
           s = set_data buf (put_hdr (lh_block (log s)) (nat (lh_n (log s))) hb) s in
       bindr (bwrite buf s) (\<lambda>s. brelse buf s))"

definition recover_from_log :: "'a logfs_scheme \<Rightarrow> 'a logfs_scheme res" where
  "recover_from_log s =
     bindr (read_head s) (\<lambda>s.
     bindr (install_trans s) (\<lambda>s.
     write_head (upd_log (\<lambda>l. l\<lparr>lh_n := 0\<rparr>) s)))"

definition SIZEOF_LOGHEADER :: nat where "SIZEOF_LOGHEADER = 4 + 4 * nat LOGSIZE"

definition initlog :: "u32 \<Rightarrow> 'a logfs_scheme \<Rightarrow> 'a logfs_scheme res" where
  "initlog dev s =
     (if SIZEOF_LOGHEADER \<ge> BSIZE then Panic ''initlog: too big logheader''
      else bindr (readsb dev s) (\<lambda>(v, s).
        recover_from_log (upd_log (\<lambda>l. l\<lparr>lstart := sb_logstart v, lsize := sint (sb_nlog v), ldev := dev\<rparr>) s)))"

text \<open>One round of the loop of \<open>begin_op\<close>: after a \<open>sleep\<close> the test is made again.\<close>

definition begin_op :: "'a logfs_scheme \<Rightarrow> 'a logfs_scheme res" where
  "begin_op s =
     (if committing (log s) then Blocked ChLog
      else if lh_n (log s) + (outstanding (log s) + 1) * MAXOPBLOCKS > LOGSIZE then Blocked ChLog
      else Ok (upd_log (\<lambda>l. l\<lparr>outstanding := outstanding l + 1\<rparr>) s))"

definition write_log_one :: "nat \<Rightarrow> 'a logfs_scheme \<Rightarrow> 'a logfs_scheme res" where
  "write_log_one tail s =
     bindr (bread (ldev (log s)) (lstart (log s) + of_nat tail + 1) s) (\<lambda>(to, s).
     bindr (bread (ldev (log s)) (lh_block (log s) tail) s) (\<lambda>(fr, s).
       let s = set_data to (data (bufs s fr)) s in
       bindr (bwrite to s) (\<lambda>s.
       bindr (brelse fr s) (\<lambda>s.
       brelse to s))))"

definition write_log :: "'a logfs_scheme \<Rightarrow> 'a logfs_scheme res" where
  "write_log s = foldr_res write_log_one [0..<nat (lh_n (log s))] s"

definition commit :: "'a logfs_scheme \<Rightarrow> 'a logfs_scheme res" where
  "commit s =
     (if lh_n (log s) > 0
      then bindr (write_log s) (\<lambda>s.
           bindr (write_head s) (\<lambda>s.
           bindr (install_trans s) (\<lambda>s.
           write_head (upd_log (\<lambda>l. l\<lparr>lh_n := 0\<rparr>) s))))
      else Ok s)"

definition end_op :: "'a logfs_scheme \<Rightarrow> 'a logfs_scheme res" where
  "end_op s =
     (let s = upd_log (\<lambda>l. l\<lparr>outstanding := outstanding l - 1\<rparr>) s in
      if committing (log s) then Panic ''log.committing''
      else if outstanding (log s) = 0
      then bindr (commit (upd_log (\<lambda>l. l\<lparr>committing := True\<rparr>) s)) (\<lambda>s.
             Ok (wakeup ChLog (upd_log (\<lambda>l. l\<lparr>committing := False\<rparr>) s)))
      else Ok (wakeup ChLog s))"

definition log_write :: "nat \<Rightarrow> 'a logfs_scheme \<Rightarrow> 'a logfs_scheme res" where
  "log_write b s =
     (if lh_n (log s) \<ge> LOGSIZE \<or> lh_n (log s) \<ge> lsize (log s) - 1 then Panic ''too big a transaction''
      else if outstanding (log s) < 1 then Panic ''log_write outside of trans''
      else
        let n = nat (lh_n (log s));
            i = (case List.find (\<lambda>i. lh_block (log s) i = blockno (bufs s b)) [0..<n] of
                   Some i \<Rightarrow> i | None \<Rightarrow> n);
            s = upd_log (\<lambda>l. l\<lparr>lh_block := (lh_block l)(i := blockno (bufs s b))\<rparr>) s;
            s = (if i = n then upd_log (\<lambda>l. l\<lparr>lh_n := lh_n l + 1\<rparr>) s else s)
        in Ok (set_dirty b s))"

section \<open>The header\<close>

lemma put_hdr_other: "i < 4 \<Longrightarrow> put_hdr bs n d i = d i"
  by (induction n) (auto simp: wr32_other_nat)

lemma put_hdr_n: "rd32 (put_hdr bs n d) 0 = rd32 d 0"
  by (rule rd32_cong_nat) (simp add: put_hdr_other)

lemma put_hdr_block: "i < n \<Longrightarrow> rd32 (put_hdr bs n d) (4 + 4 * i) = bs i"
  by (induction n) (auto simp: less_Suc_eq rd32_wr32_other_nat)

definition enc_hdr :: "int \<Rightarrow> (nat \<Rightarrow> u32) \<Rightarrow> block \<Rightarrow> block" where
  "enc_hdr n bs d = put_hdr bs (nat n) (wr32 d 0 (of_int n))"

lemma sint_of_int_u32: "- (2 ^ 31) \<le> n \<Longrightarrow> n < 2 ^ 31 \<Longrightarrow> sint (of_int n :: u32) = n"
  by (simp add: signed_of_int signed_take_bit_int_eq_self)

lemma enc_hdr_n: "0 \<le> n \<Longrightarrow> n < 2 ^ 31 \<Longrightarrow> hdr_n (enc_hdr n bs d) = n"
  by (simp add: hdr_n_def enc_hdr_def put_hdr_n sint_of_int_u32)

lemma enc_hdr_block: "int i < n \<Longrightarrow> hdr_block (enc_hdr n bs d) i = bs i"
  by (simp add: hdr_block_def enc_hdr_def put_hdr_block)

section \<open>Frames\<close>

lemma upd_log_bcache [simp]:
  "bufs (upd_log f s) = bufs s" "disk (upd_log f s) = disk s" "iolog (upd_log f s) = iolog s"
  "disksize (upd_log f s) = disksize s" "procs (upd_log f s) = procs s" "curproc (upd_log f s) = curproc s"
  "myproc (upd_log f s) = myproc s" "log (upd_log f s) = f (log s)" "sb (upd_log f s) = sb s"
  by (simp_all add: upd_log_def myproc_def)

lemma upd_log_views [simp]:
  "blk (upd_log f s) = blk s" "pinned (upd_log f s) = pinned s" "held (upd_log f s) = held s"
  "cached (upd_log f s) = cached s" "holds (upd_log f s) = holds s" "bio_ok (upd_log f s) = bio_ok s"
proof -
  show "bio_ok (upd_log f s) = bio_ok s"
    by (simp add: bio_ok_def buf_ok_def ring_ok_def nx_def [abs_def] pv_def [abs_def])
qed (auto simp: blk_def pinned_def held_def cached_def holds_def holding_buf_def fun_eq_iff split: option.splits)

text \<open>The log and the superblock are untouched by the buffer routines.\<close>

lemma bio_frame_log:
  assumes "bio_frame s s'"
  shows "log s' = log s" "sb s' = sb s" "disksize s' = disksize s"
proof -
  have e: "s' = s\<lparr>procs := procs s', bufs := bufs s', disk := disk s', iolog := iolog s'\<rparr>"
    using assms by (simp add: bio_frame_def)
  show "log s' = log s" by (subst e) simp
  show "sb s' = sb s" by (subst e) simp
  show "disksize s' = disksize s" by (subst e) simp
qed

definition log_frame :: "'a logfs_scheme \<Rightarrow> 'a logfs_scheme \<Rightarrow> bool" where
  "log_frame s s' \<longleftrightarrow> bio_frame (s\<lparr>log := log s'\<rparr>) s'"

lemma bio_frame_upd_log: "bio_frame s t \<Longrightarrow> bio_frame (s\<lparr>log := l\<rparr>) (t\<lparr>log := l\<rparr>)"
proof -
  assume f: "bio_frame s t"
  then have e: "t = s\<lparr>procs := procs t, bufs := bufs t, disk := disk t, iolog := iolog t\<rparr>"
    by (simp add: bio_frame_def)
  have "t\<lparr>log := l\<rparr> = s\<lparr>log := l, procs := procs t, bufs := bufs t, disk := disk t, iolog := iolog t\<rparr>"
    by (subst e) simp
  then show ?thesis using f by (simp add: bio_frame_def)
qed

lemma log_frame_bio: "bio_frame s s' \<Longrightarrow> log_frame s s'"
  by (simp add: log_frame_def bio_frame_log)

lemma log_frame_upd [simp]: "log_frame s (upd_log f s)"
  by (simp add: log_frame_def upd_log_def)

lemma log_frame_trans: "log_frame s t \<Longrightarrow> log_frame t u \<Longrightarrow> log_frame s u"
proof -
  assume st: "log_frame s t" and tu: "log_frame t u"
  have "bio_frame (s\<lparr>log := log u\<rparr>) (t\<lparr>log := log u\<rparr>)"
    using bio_frame_upd_log [OF st [unfolded log_frame_def], of "log u"] by simp
  then show ?thesis using tu unfolding log_frame_def by (rule bio_frame_trans)
qed

lemma log_frame_eq:
  assumes "log_frame s s'"
  shows "sb s' = sb s" "disksize s' = disksize s" "curproc s' = curproc s" "pid (myproc s') = pid (myproc s)"
    "mem s' = mem s" "freelist s' = freelist s" "kend s' = kend s" "ticks s' = ticks s"
    "logfs.more s' = logfs.more s"
proof -
  have f: "bio_frame (s\<lparr>log := log s'\<rparr>) s'" using assms by (simp add: log_frame_def)
  show "sb s' = sb s" "disksize s' = disksize s" using bio_frame_log [OF f] by simp_all
  show "curproc s' = curproc s" "pid (myproc s') = pid (myproc s)"
    "mem s' = mem s" "freelist s' = freelist s" "kend s' = kend s" "ticks s' = ticks s"
    using bio_frame_eq [OF f] by (auto simp: myproc_def)
  have e: "s' = s\<lparr>log := log s', procs := procs s', bufs := bufs s', disk := disk s', iolog := iolog s'\<rparr>"
    using f by (simp add: bio_frame_def)
  show "logfs.more s' = logfs.more s" by (subst e) simp
qed

section \<open>Copying one block\<close>

text \<open>Nobody holds a buffer; the state between two file-system steps of the log.\<close>

definition quiet :: "'a bcache_scheme \<Rightarrow> bool" where
  "quiet s \<longleftrightarrow> bio_ok s \<and> held s = {}"

text \<open>The disk and the cache's content change by the listed writes, which reach the disk in order.\<close>

definition apply_writes :: "(nat \<times> block) list \<Rightarrow> (nat \<Rightarrow> block) \<Rightarrow> nat \<Rightarrow> block" where
  "apply_writes ws d = fold (\<lambda>(n, b) d. d(n := b)) ws d"

lemma apply_writes_simps [simp]:
  "apply_writes [] d = d" "apply_writes (w # ws) d = apply_writes ws (d(fst w := snd w))"
  "apply_writes (ws @ [w]) d = (apply_writes ws d)(fst w := snd w)"
  by (simp_all add: apply_writes_def split_beta)

lemma apply_writes_append: "apply_writes (ws @ vs) d = apply_writes vs (apply_writes ws d)"
  by (simp add: apply_writes_def)

lemma apply_writes_other: "n \<notin> fst ` set ws \<Longrightarrow> apply_writes ws d n = d n"
  by (induction ws arbitrary: d) auto

lemma apply_writes_map:
  assumes "inj_on f {..<k}" "i < k"
  shows "apply_writes (map (\<lambda>i. (f i, g i)) [0..<k]) d (f i) = g i"
  using assms
proof (induction k)
  case (Suc k)
  show ?case
  proof (cases "i = k")
    case False
    then have "i < k" "f i \<noteq> f k" using Suc.prems by (auto simp: inj_on_def)
    moreover have "inj_on f {..<k}" using Suc.prems(1) by (rule inj_on_subset) auto
    ultimately show ?thesis using Suc.IH by simp
  qed simp
qed simp

definition written :: "'a bcache_scheme \<Rightarrow> (nat \<times> block) list \<Rightarrow> 'a bcache_scheme \<Rightarrow> bool" where
  "written s ws s' \<longleftrightarrow> quiet s' \<and> iolog s' = iolog s @ ws \<and> disk s' = apply_writes ws (disk s)
     \<and> blk s' = apply_writes ws (blk s) \<and> pinned s' = pinned s - fst ` set ws"

lemma written_append:
  assumes "written s ws t" "written t vs u"
  shows "written s (ws @ vs) u"
  using assms unfolding written_def by (simp add: apply_writes_append) blast

lemma holds_distinct: "holds s i n \<Longrightarrow> holds s j m \<Longrightarrow> n \<noteq> m \<Longrightarrow> i \<noteq> j"
  by (auto simp: holds_def cached_def)

text \<open>Both buffers of a copy, read one after the other.\<close>

lemma read_two:
  assumes q: "quiet s" and ab: "a \<noteq> b" "a < disksize s" "b < disksize s"
    and room: "card (pinned s) < NBUF" "unat b \<in> pinned s \<or> card (insert (unat a) (pinned s)) < NBUF"
  shows "\<exists>i s1 j s2. bread ROOTDEV a s = Ok (i, s1) \<and> bread ROOTDEV b s1 = Ok (j, s2) \<and> bio_ok s2
     \<and> holds s2 i (unat a) \<and> holds s2 j (unat b) \<and> i \<noteq> j \<and> bio_frame s s2 \<and> bio_frame s s1 \<and> disk s2 = disk s
     \<and> iolog s2 = iolog s \<and> blk s2 = blk s \<and> pinned s2 = pinned s \<and> held s2 = {unat a, unat b}"
proof -
  have ok: "bio_ok s" "held s = {}" using q by (simp_all add: quiet_def)
  obtain i s1 where s1: "bread ROOTDEV a s = Ok (i, s1)" "bread_post s a i s1"
    using bread_spec [OF ok(1) ab(2)] ok room by auto
  then have p1: "bio_ok s1" "disksize s1 = disksize s" "held s1 = {unat a}" "pinned s1 = pinned s"
    "bio_frame s s1" "holds s1 i (unat a)"
    using ok bio_frame_eq [of s s1] by (simp_all add: bread_post_def)
  have "unat b \<notin> held s1" using p1 ab by (simp add: word_unat_eq_iff)
  moreover have "unat b \<in> pinned s1 \<or> card (pinned s1 \<union> held s1) < NBUF"
    using room p1 by simp
  ultimately obtain j s2 where s2: "bread ROOTDEV b s1 = Ok (j, s2)" "bread_post s1 b j s2"
    using bread_spec [OF p1(1), of b] ab p1 by auto
  then have "holds s2 i (unat a)" "holds s2 j (unat b)" using p1 by (auto simp: bread_post_def)
  moreover have "i \<noteq> j"
    by (rule holds_distinct [OF \<open>holds s2 i (unat a)\<close> \<open>holds s2 j (unat b)\<close>])
      (use ab in \<open>simp add: word_unat_eq_iff\<close>)
  moreover have "bio_frame s s2" using p1 s2 by (auto simp: bread_post_def intro: bio_frame_trans)
  moreover have "bio_ok s2" "disk s2 = disk s" "iolog s2 = iolog s" "blk s2 = blk s" "pinned s2 = pinned s"
    "held s2 = {unat a, unat b}"
    using s1(2) s2(2) p1(3) by (auto simp: bread_post_def)
  ultimately show ?thesis using s1(1) s2(1) p1(5) by blast
qed

text \<open>Writing the source's data through the destination's buffer and releasing both.\<close>

lemma copy_through:
  assumes ok: "bio_ok s" and h: "holds s i n" "holds s j m" "i \<noteq> j" "n \<noteq> m" and hd: "held s = {n, m}"
    and clean: "n \<in> pinned s \<or> blk s n = disk s n"
  shows "\<exists>s1 s2 s3. bwrite j (set_data j (data (bufs s i)) s) = Ok s1 \<and> brelse i s1 = Ok s2 \<and> brelse j s2 = Ok s3
     \<and> written s [(m, blk s n)] s3 \<and> bio_frame s s3"
proof -
  let ?t = "set_data j (data (bufs s i)) s"
  have d: "data (bufs s i) = blk s n" using holds_data [OF ok h(1)] .
  note t = set_data_spec [OF ok h(2), of "data (bufs s i)"]
  obtain s1 where s1: "bwrite j ?t = Ok s1" "bwrite_post ?t m s1"
    using bwrite_spec [OF t(1)] t(5) h(2) by blast
  then have p1: "bio_ok s1" "holds s1 i n" "holds s1 j m" "held s1 = {n, m}" "pinned s1 = pinned s - {m}"
    "disk s1 = (disk s)(m := blk s n)" "blk s1 = (blk s)(m := blk s n)" "iolog s1 = iolog s @ [(m, blk s n)]"
    using h hd t d by (simp_all add: bwrite_post_def)
  have "n \<in> pinned s1 \<or> blk s1 n = disk s1 n" using clean p1 h by auto
  then obtain s2 where s2: "brelse i s1 = Ok s2" "brelse_post s1 i n s2"
    using brelse_spec [OF p1(1,2)] by blast
  then have p2: "bio_ok s2" "holds s2 j m" "disk s2 = disk s1" "blk s2 = blk s1" "held s2 = {m}"
    using p1 h by (auto simp: brelse_post_def)
  then have "blk s2 m = disk s2 m" using p1 by simp
  then obtain s3 where s3: "brelse j s2 = Ok s3" "brelse_post s2 j m s3"
    using brelse_spec [OF p2(1,2)] by blast
  have "written s [(m, blk s n)] s3"
    using s2 s3 p1 p2 by (auto simp: written_def quiet_def brelse_post_def)
  moreover have "bio_frame s s3"
  proof -
    have "bio_frame ?t s1" "bio_frame s1 s2" "bio_frame s2 s3"
      using s1(2) s2(2) s3(2) by (simp_all add: bwrite_post_def brelse_post_def)
    then show ?thesis using t(6) bio_frame_trans by metis
  qed
  ultimately show ?thesis using s1(1) s2(1) s3(1) by blast
qed

section \<open>The loops of a commit\<close>

text \<open>The block numbers of a transaction: log block \<open>i\<close> and its home block.\<close>

definition lblk :: "logst \<Rightarrow> nat \<Rightarrow> nat" where "lblk l i = unat (lstart l) + i + 1"
definition hblk :: "logst \<Rightarrow> nat \<Rightarrow> nat" where "hblk l i = unat (lh_block l i)"

text \<open>
  The header and the log blocks lie on the disk; the home blocks are distinct blocks of the disk
  outside the log; the cache has room for one more block than the transaction pins.
\<close>

definition tx_ok :: "logst \<Rightarrow> u32 \<Rightarrow> bool" where
  "tx_ok l ds \<longleftrightarrow> ldev l = ROOTDEV \<and> 0 \<le> lh_n l \<and> nat (lh_n l) < NBUF
     \<and> unat (lstart l) + nat (lh_n l) < unat ds
     \<and> (\<forall>i<nat (lh_n l). lh_block l i < ds
          \<and> (hblk l i < unat (lstart l) \<or> unat (lstart l) + nat (lh_n l) < hblk l i))
     \<and> inj_on (hblk l) {..<nat (lh_n l)}"

lemma tx_ok_lblk:
  assumes "tx_ok l ds" "i < nat (lh_n l)"
  shows "unat (lstart l + of_nat i + 1) = lblk l i" "lstart l + of_nat i + 1 < ds"
proof -
  have "unat (lstart l) + i + 1 < unat ds" using assms by (simp add: tx_ok_def)
  moreover have "unat ds < 2 ^ 32" by (rule unat_u32_less)
  ultimately have "unat (lstart l) + i + 1 < 2 ^ 32" by linarith
  then have "unat (of_nat (unat (lstart l) + i + 1) :: u32) = unat (lstart l) + i + 1"
    by (rule unat_of_nat_u32)
  moreover have "of_nat (unat (lstart l) + i + 1) = lstart l + of_nat i + 1" by simp
  ultimately show u: "unat (lstart l + of_nat i + 1) = lblk l i" by (simp add: lblk_def ac_simps)
  then show "lstart l + of_nat i + 1 < ds"
    using \<open>unat (lstart l) + i + 1 < unat ds\<close> by (simp add: word_less_nat_alt lblk_def)
qed

lemma tx_ok_start: "tx_ok l ds \<Longrightarrow> lstart l < ds"
  by (simp add: tx_ok_def word_less_nat_alt)

lemma tx_ok_apart:
  assumes "tx_ok l ds" "i < nat (lh_n l)" "j < nat (lh_n l)"
  shows "hblk l i \<noteq> lblk l j" "hblk l i \<noteq> unat (lstart l)" "lblk l i \<noteq> unat (lstart l)"
    "hblk l i < unat ds"
  using assms by (auto simp: tx_ok_def lblk_def hblk_def word_less_nat_alt)

lemma tx_ok_lblk_home:
  assumes "tx_ok l ds" "k < nat (lh_n l)"
  shows "lblk l k \<notin> hblk l ` {..<nat (lh_n l)}"
proof
  assume "lblk l k \<in> hblk l ` {..<nat (lh_n l)}"
  then obtain i where "i < nat (lh_n l)" "lblk l k = hblk l i" by auto
  then show False using tx_ok_apart(1) [OF assms(1) _ assms(2), of i] by simp
qed

lemma inj_lblk: "inj_on (lblk l) A"
  by (simp add: inj_on_def lblk_def)

lemma write_log_one_spec:
  assumes q: "quiet s" and tx: "tx_ok (log s) (disksize s)" and t: "t < nat (lh_n (log s))"
    and p: "hblk (log s) t \<in> pinned s" "card (pinned s) < NBUF"
  shows "\<exists>s'. write_log_one t s = Ok s' \<and> bio_frame s s'
     \<and> written s [(lblk (log s) t, blk s (hblk (log s) t))] s'"
proof -
  let ?a = "lstart (log s) + of_nat t + 1" and ?b = "lh_block (log s) t"
  note a = tx_ok_lblk [OF tx t]
  have dev: "ldev (log s) = ROOTDEV" using tx by (simp add: tx_ok_def)
  have ne: "?a \<noteq> ?b" using a(1) tx_ok_apart(1) [OF tx t t] by (auto simp: hblk_def)
  have b: "?b < disksize s" using tx_ok_apart(4) [OF tx t t] by (simp add: hblk_def word_less_nat_alt)
  obtain i s1 j s2 where r: "bread ROOTDEV ?a s = Ok (i, s1)" "bread ROOTDEV ?b s1 = Ok (j, s2)" "bio_ok s2"
    "holds s2 i (unat ?a)" "holds s2 j (unat ?b)" "i \<noteq> j" "bio_frame s s2" "bio_frame s s1"
    "disk s2 = disk s" "iolog s2 = iolog s" "blk s2 = blk s" "pinned s2 = pinned s" "held s2 = {unat ?a, unat ?b}"
    using read_two [OF q ne a(2) b p(2)] p(1) by (auto simp: hblk_def)
  have "unat ?b \<in> pinned s2" using r p by (simp add: hblk_def)
  then obtain s3 s4 s5 where w: "bwrite i (set_data i (data (bufs s2 j)) s2) = Ok s3" "brelse j s3 = Ok s4"
    "brelse i s4 = Ok s5" "written s2 [(unat ?a, blk s2 (unat ?b))] s5" "bio_frame s2 s5"
    using copy_through [OF r(3,5,4)] r(6,13) ne by (auto simp: word_unat_eq_iff insert_commute)
  have "log s1 = log s" using bio_frame_log [OF r(8)] by simp
  then have "write_log_one t s = Ok s5"
    using r(1,2) w(1-3) dev by (simp add: write_log_one_def Let_def)
  moreover have "written s [(lblk (log s) t, blk s (hblk (log s) t))] s5"
    using w(4) r a(1) by (simp add: written_def hblk_def)
  moreover have "bio_frame s s5" using bio_frame_trans [OF r(7) w(5)] .
  ultimately show ?thesis by blast
qed

lemma install_one_spec:
  assumes q: "quiet s" and tx: "tx_ok (log s) (disksize s)" and t: "t < nat (lh_n (log s))"
    and p: "lblk (log s) t \<notin> pinned s" "card (pinned s) < NBUF" "hblk (log s) t \<in> pinned s \<or> pinned s = {}"
  shows "\<exists>s'. install_one t s = Ok s' \<and> bio_frame s s'
     \<and> written s [(hblk (log s) t, blk s (lblk (log s) t))] s'"
proof -
  let ?a = "lstart (log s) + of_nat t + 1" and ?b = "lh_block (log s) t"
  note a = tx_ok_lblk [OF tx t]
  have dev: "ldev (log s) = ROOTDEV" using tx by (simp add: tx_ok_def)
  have ne: "?a \<noteq> ?b" using a(1) tx_ok_apart(1) [OF tx t t] by (auto simp: hblk_def)
  have b: "?b < disksize s" using tx_ok_apart(4) [OF tx t t] by (simp add: hblk_def word_less_nat_alt)
  have room: "unat ?b \<in> pinned s \<or> card (insert (unat ?a) (pinned s)) < NBUF"
    using p(3) by (auto simp: hblk_def NBUF_def)
  obtain i s1 j s2 where r: "bread ROOTDEV ?a s = Ok (i, s1)" "bread ROOTDEV ?b s1 = Ok (j, s2)" "bio_ok s2"
    "holds s2 i (unat ?a)" "holds s2 j (unat ?b)" "i \<noteq> j" "bio_frame s s2" "bio_frame s s1"
    "disk s2 = disk s" "iolog s2 = iolog s" "blk s2 = blk s" "pinned s2 = pinned s" "held s2 = {unat ?a, unat ?b}"
    using read_two [OF q ne a(2) b p(2) room] by auto
  have "blk s (unat ?a) = disk s (unat ?a)"
    using blk_unpinned [of s "unat ?a"] q p(1) a(1) by (simp add: quiet_def)
  then obtain s3 s4 s5 where w: "bwrite j (set_data j (data (bufs s2 i)) s2) = Ok s3" "brelse i s3 = Ok s4"
    "brelse j s4 = Ok s5" "written s2 [(unat ?b, blk s2 (unat ?a))] s5" "bio_frame s2 s5"
    using copy_through [OF r(3,4,5)] r ne by (auto simp: word_unat_eq_iff)
  have "log s1 = log s" using bio_frame_log [OF r(8)] by simp
  then have "install_one t s = Ok s5"
    using r(1,2) w(1-3) dev by (simp add: install_one_def Let_def)
  moreover have "written s [(hblk (log s) t, blk s (lblk (log s) t))] s5"
    using w(4) r a(1) by (simp add: written_def hblk_def)
  moreover have "bio_frame s s5" using bio_frame_trans [OF r(7) w(5)] .
  ultimately show ?thesis by blast
qed

text \<open>The sequences of writes.\<close>

definition log_writes :: "logst \<Rightarrow> (nat \<Rightarrow> block) \<Rightarrow> nat \<Rightarrow> (nat \<times> block) list" where
  "log_writes l c k = map (\<lambda>i. (lblk l i, c (hblk l i))) [0..<k]"

definition home_writes :: "logst \<Rightarrow> (nat \<Rightarrow> block) \<Rightarrow> nat \<Rightarrow> (nat \<times> block) list" where
  "home_writes l c k = map (\<lambda>i. (hblk l i, c (lblk l i))) [0..<k]"

lemma writes_Suc:
  "log_writes l c (Suc k) = log_writes l c k @ [(lblk l k, c (hblk l k))]"
  "home_writes l c (Suc k) = home_writes l c k @ [(hblk l k, c (lblk l k))]"
  by (simp_all add: log_writes_def home_writes_def)

lemma writes_dom:
  "fst ` set (log_writes l c k) = lblk l ` {..<k}" "fst ` set (home_writes l c k) = hblk l ` {..<k}"
  by (auto simp: log_writes_def home_writes_def image_image lessThan_atLeast0)

lemma write_log_loop:
  assumes q: "quiet s" and tx: "tx_ok (log s) (disksize s)" and k: "k \<le> nat (lh_n (log s))"
    and p: "pinned s = hblk (log s) ` {..<nat (lh_n (log s))}"
  shows "\<exists>s'. foldr_res write_log_one [0..<k] s = Ok s' \<and> bio_frame s s'
     \<and> written s (log_writes (log s) (blk s) k) s' \<and> pinned s' = pinned s"
  using k
proof (induction k)
  case 0
  then show ?case using q by (simp add: written_def log_writes_def)
next
  case (Suc k)
  let ?l = "log s"
  obtain t where t: "foldr_res write_log_one [0..<k] s = Ok t" "bio_frame s t"
    "written s (log_writes ?l (blk s) k) t" "pinned t = pinned s"
    using Suc by auto
  note f = bio_frame_log [OF t(2)]
  have k: "k < nat (lh_n ?l)" using Suc by simp
  have "card (pinned t) < NBUF"
  proof -
    have "card (hblk ?l ` {..<nat (lh_n ?l)}) \<le> nat (lh_n ?l)"
      using card_image_le [of "{..<nat (lh_n ?l)}" "hblk ?l"] by simp
    then show ?thesis using tx p t(4) by (simp add: tx_ok_def)
  qed
  moreover have "hblk ?l k \<in> pinned t" using p t(4) k by simp
  moreover have "quiet t" using t(3) by (simp add: written_def)
  ultimately obtain u where u: "write_log_one k t = Ok u" "bio_frame t u"
    "written t [(lblk ?l k, blk t (hblk ?l k))] u"
    using write_log_one_spec [of t k] tx f k by auto
  have "hblk ?l k \<noteq> lblk ?l x" if "x < k" for x using tx_ok_apart(1) [OF tx k, of x] k that by simp
  then have "hblk ?l k \<notin> lblk ?l ` {..<k}" by auto
  then have "blk t (hblk ?l k) = blk s (hblk ?l k)"
    using t(3) by (simp add: written_def apply_writes_other writes_dom)
  then have "written s (log_writes ?l (blk s) (Suc k)) u"
    using written_append [OF t(3)] u(3) by (simp add: writes_Suc)
  moreover have "pinned u = pinned s"
  proof -
    have "lblk ?l k \<notin> pinned s"
      unfolding p using tx_ok_lblk_home [OF tx k] .
    then show ?thesis using u(3) t(4) by (simp add: written_def)
  qed
  moreover have "bio_frame s u" using bio_frame_trans [OF t(2) u(2)] .
  ultimately show ?case using t(1) u(1) by (auto simp: foldr_res_append)
qed

lemma install_loop:
  assumes q: "quiet s" and tx: "tx_ok (log s) (disksize s)" and k: "k \<le> nat (lh_n (log s))"
    and p: "pinned s = {} \<or> pinned s = hblk (log s) ` {..<nat (lh_n (log s))}"
  shows "\<exists>s'. foldr_res install_one [0..<k] s = Ok s' \<and> bio_frame s s'
     \<and> written s (home_writes (log s) (blk s) k) s'"
  using k
proof (induction k)
  case 0
  then show ?case using q by (simp add: written_def home_writes_def)
next
  case (Suc k)
  let ?l = "log s"
  obtain t where t: "foldr_res install_one [0..<k] s = Ok t" "bio_frame s t"
    "written s (home_writes ?l (blk s) k) t"
    using Suc by auto
  note f = bio_frame_log [OF t(2)]
  have k: "k < nat (lh_n ?l)" using Suc by simp
  have pt: "pinned t = pinned s - hblk ?l ` {..<k}" using t(3) by (simp add: written_def writes_dom)
  have "card (pinned t) < NBUF"
  proof -
    have "pinned t \<subseteq> hblk ?l ` {..<nat (lh_n ?l)}" using pt p by auto
    then have "card (pinned t) \<le> card (hblk ?l ` {..<nat (lh_n ?l)})" by (intro card_mono) auto
    also have "\<dots> \<le> nat (lh_n ?l)" using card_image_le [of "{..<nat (lh_n ?l)}" "hblk ?l"] by simp
    finally show ?thesis using tx by (simp add: tx_ok_def)
  qed
  moreover have "hblk ?l k \<in> pinned t \<or> pinned t = {}"
  proof -
    have "hblk ?l k \<noteq> hblk ?l x" if "x < k" for x
      using tx k that inj_onD [of "hblk ?l" "{..<nat (lh_n ?l)}" k x] by (auto simp: tx_ok_def)
    then have "hblk ?l k \<notin> hblk ?l ` {..<k}" by auto
    then show ?thesis using p pt k by auto
  qed
  moreover have "lblk ?l k \<notin> pinned t"
    using p pt tx_ok_lblk_home [OF tx k] by auto
  moreover have "quiet t" using t(3) by (simp add: written_def)
  ultimately obtain u where u: "install_one k t = Ok u" "bio_frame t u"
    "written t [(hblk ?l k, blk t (lblk ?l k))] u"
    using install_one_spec [of t k] tx f k by auto
  have "lblk ?l k \<noteq> hblk ?l x" if "x < k" for x using tx_ok_apart(1) [OF tx _ k, of x] k that by simp
  then have "lblk ?l k \<notin> hblk ?l ` {..<k}" by auto
  then have "blk t (lblk ?l k) = blk s (lblk ?l k)"
    using t(3) by (simp add: written_def apply_writes_other writes_dom)
  then have "written s (home_writes ?l (blk s) (Suc k)) u"
    using written_append [OF t(3)] u(3) by (simp add: writes_Suc)
  moreover have "bio_frame s u" using bio_frame_trans [OF t(2) u(2)] .
  ultimately show ?case using t(1) u(1) by (auto simp: foldr_res_append)
qed

section \<open>The header\<close>

lemma write_head_spec:
  assumes q: "quiet s" and d: "ldev (log s) = ROOTDEV" "lstart (log s) < disksize s"
    and p: "card (pinned s) < NBUF" "unat (lstart (log s)) \<notin> pinned s"
  shows "\<exists>s'. write_head s = Ok s' \<and> bio_frame s s'
     \<and> written s [(unat (lstart (log s)),
          enc_hdr (lh_n (log s)) (lh_block (log s)) (blk s (unat (lstart (log s)))))] s'"
proof -
  let ?a = "lstart (log s)"
  let ?h = "enc_hdr (lh_n (log s)) (lh_block (log s)) (blk s (unat ?a))"
  have ok: "bio_ok s" "held s = {}" using q by (simp_all add: quiet_def)
  obtain i s1 where s1: "bread ROOTDEV ?a s = Ok (i, s1)" "bread_post s ?a i s1"
    using bread_spec [OF ok(1) d(2)] ok(2) p(1) by auto
  then have p1: "bio_ok s1" "holds s1 i (unat ?a)" "held s1 = {unat ?a}" "pinned s1 = pinned s"
    "bio_frame s s1" "blk s1 = blk s" "disk s1 = disk s" "iolog s1 = iolog s"
    using ok by (simp_all add: bread_post_def)
  have l: "log s1 = log s" using bio_frame_log [OF p1(5)] by simp
  have d1: "data (bufs s1 i) = blk s (unat ?a)" using holds_data [OF p1(1,2)] p1 by simp
  let ?t = "set_data i ?h s1"
  note t = set_data_spec [OF p1(1,2), of ?h]
  obtain s2 where s2: "bwrite i ?t = Ok s2" "bwrite_post ?t (unat ?a) s2"
    using bwrite_spec [OF t(1)] t(5) p1(2) by blast
  then have p2: "bio_ok s2" "holds s2 i (unat ?a)" "blk s2 (unat ?a) = disk s2 (unat ?a)"
    using t p1 by (simp_all add: bwrite_post_def)
  obtain s3 where s3: "brelse i s2 = Ok s3" "brelse_post s2 i (unat ?a) s3"
    using brelse_spec [OF p2(1,2)] p2(3) by blast
  have "write_head s = Ok s3"
    using s1(1) s2(1) s3(1) d(1) l d1 by (simp add: write_head_def Let_def enc_hdr_def)
  moreover have "written s [(unat ?a, ?h)] s3"
    using s2(2) s3(2) t p1 by (auto simp: written_def quiet_def bwrite_post_def brelse_post_def)
  moreover have "bio_frame s s3"
  proof -
    have "bio_frame ?t s2" "bio_frame s2 s3" using s2(2) s3(2) by (simp_all add: bwrite_post_def brelse_post_def)
    then show ?thesis using t(6) p1(5) bio_frame_trans by metis
  qed
  ultimately show ?thesis by blast
qed

lemma read_head_spec:
  assumes q: "quiet s" and d: "ldev (log s) = ROOTDEV" "lstart (log s) < disksize s"
    and p: "pinned s = {}"
  shows "\<exists>s'. read_head s = Ok s' \<and> written s [] s' \<and> log_frame s s'
     \<and> log s' = (log s)\<lparr>lh_n := hdr_n (disk s (unat (lstart (log s)))),
          lh_block := (\<lambda>i. if int i < hdr_n (disk s (unat (lstart (log s))))
            then hdr_block (disk s (unat (lstart (log s)))) i else lh_block (log s) i)\<rparr>"
proof -
  let ?a = "lstart (log s)"
  have ok: "bio_ok s" "held s = {}" using q by (simp_all add: quiet_def)
  have b: "blk s (unat ?a) = disk s (unat ?a)" using blk_unpinned [OF ok(1)] ok(2) p by simp
  obtain i s1 where s1: "bread ROOTDEV ?a s = Ok (i, s1)" "bread_post s ?a i s1"
    using bread_spec [OF ok(1) d(2)] ok(2) p by (auto simp: NBUF_def)
  then have p1: "bio_ok s1" "holds s1 i (unat ?a)" "held s1 = {unat ?a}" "pinned s1 = pinned s"
    "bio_frame s s1" "blk s1 = blk s" "disk s1 = disk s" "iolog s1 = iolog s"
    using ok by (simp_all add: bread_post_def)
  have l: "log s1 = log s" using bio_frame_log [OF p1(5)] by simp
  have d1: "data (bufs s1 i) = disk s (unat ?a)" using holds_data [OF p1(1,2)] p1 b by simp
  define g :: "logst \<Rightarrow> logst" where "g l = l\<lparr>lh_n := hdr_n (disk s (unat ?a)),
          lh_block := (\<lambda>i. if int i < hdr_n (disk s (unat ?a)) then hdr_block (disk s (unat ?a)) i else lh_block l i)\<rparr>" for l
  let ?t = "upd_log g s1"
  have "bio_ok ?t" "holds ?t i (unat ?a)" "blk ?t (unat ?a) = disk ?t (unat ?a)" using p1 b by simp_all
  then obtain s2 where s2: "brelse i ?t = Ok s2" "brelse_post ?t i (unat ?a) s2"
    using brelse_spec by blast
  have "upd_log (\<lambda>l. l\<lparr>lh_block := (\<lambda>i. if int i < lh_n l then hdr_block (disk s (unat ?a)) i else lh_block l i)\<rparr>)
      (upd_log (\<lambda>l. l\<lparr>lh_n := hdr_n (disk s (unat ?a))\<rparr>) s1) = ?t"
    by (simp add: upd_log_def g_def cong: if_cong)
  then have "read_head s = Ok s2"
    using s1(1) s2(1) d(1) d1 by (simp add: read_head_def Let_def cong: if_cong)
  moreover have "written s [] s2"
    using s2(2) p1 by (auto simp: written_def quiet_def brelse_post_def)
  moreover have f: "log s2 = g (log s)"
    using bio_frame_log(1) [of ?t s2] s2(2) l by (simp add: brelse_post_def)
  moreover have "log_frame s s2"
  proof -
    have "bio_frame ?t s2" using s2(2) by (simp add: brelse_post_def)
    then show ?thesis
      using log_frame_trans [OF log_frame_bio [OF p1(5)] log_frame_trans [OF log_frame_upd log_frame_bio]] by blast
  qed
  ultimately show ?thesis by (auto simp: g_def)
qed

section \<open>Commit and recovery\<close>

text \<open>
  The writes of a commit of the transaction \<open>l\<close> with cache content \<open>c\<close>: the log, the header with
  the block numbers, the home blocks, the header with count 0.
\<close>

definition commit_writes :: "logst \<Rightarrow> (nat \<Rightarrow> block) \<Rightarrow> (nat \<times> block) list" where
  "commit_writes l c =
     (let n = nat (lh_n l); h = enc_hdr (lh_n l) (lh_block l) (c (unat (lstart l)))
      in log_writes l c n @ [(unat (lstart l), h)] @ map (\<lambda>i. (hblk l i, c (hblk l i))) [0..<n]
         @ [(unat (lstart l), enc_hdr 0 (lh_block l) h)])"

definition recover_writes :: "logst \<Rightarrow> (nat \<Rightarrow> block) \<Rightarrow> (nat \<times> block) list" where
  "recover_writes l d = home_writes l d (nat (lh_n l))
     @ [(unat (lstart l), enc_hdr 0 (lh_block l) (d (unat (lstart l))))]"

lemma tx_ok_card:
  assumes "tx_ok l ds"
  shows "card (hblk l ` {..<nat (lh_n l)}) < NBUF"
  using assms card_image_le [of "{..<nat (lh_n l)}" "hblk l"] by (simp add: tx_ok_def)

lemma tx_ok_home_start: "tx_ok l ds \<Longrightarrow> unat (lstart l) \<notin> hblk l ` {..<nat (lh_n l)}"
  by (auto simp: tx_ok_def)

lemma install_and_clear:
  assumes q: "quiet s" and tx: "tx_ok (log s) (disksize s)"
    and p: "pinned s = {} \<or> pinned s = hblk (log s) ` {..<nat (lh_n (log s))}"
  shows "\<exists>s'. bindr (install_trans s) (\<lambda>s. write_head (upd_log (\<lambda>l. l\<lparr>lh_n := 0\<rparr>) s)) = Ok s'
     \<and> log_frame s s' \<and> log s' = (log s)\<lparr>lh_n := 0\<rparr> \<and> written s (recover_writes (log s) (blk s)) s' \<and> pinned s' = {}"
proof -
  let ?l = "log s" let ?a = "unat (lstart (log s))"
  obtain t where t: "install_trans s = Ok t" "bio_frame s t" "written s (home_writes ?l (blk s) (nat (lh_n ?l))) t"
    using install_loop [OF q tx order_refl p] by (auto simp: install_trans_def)
  have pt: "pinned t = {}" using t(3) p by (auto simp: written_def writes_dom)
  note f = bio_frame_log [OF t(2)]
  let ?u = "upd_log (\<lambda>l. l\<lparr>lh_n := 0\<rparr>) t"
  have "quiet ?u" using t(3) by (simp add: written_def quiet_def)
  moreover have "lstart ?l < disksize s" using tx_ok_start [OF tx] .
  ultimately obtain v where v: "write_head ?u = Ok v" "bio_frame ?u v"
    "written ?u [(?a, enc_hdr 0 (lh_block ?l) (blk t ?a))] v"
    using write_head_spec [of ?u] f pt tx by (auto simp: NBUF_def tx_ok_def)
  have "blk t ?a = blk s ?a"
    using t(3) tx_ok_home_start [OF tx] by (simp add: written_def apply_writes_other writes_dom)
  moreover have "written t [(?a, enc_hdr 0 (lh_block ?l) (blk t ?a))] v"
    using v(3) by (simp add: written_def)
  ultimately have "written s (recover_writes ?l (blk s)) v"
    using written_append [OF t(3)] by (simp add: recover_writes_def)
  moreover have "log_frame s v"
    using log_frame_trans [OF log_frame_bio [OF t(2)] log_frame_trans [OF log_frame_upd log_frame_bio [OF v(2)]]] .
  moreover have "log v = ?l\<lparr>lh_n := 0\<rparr>" using bio_frame_log [OF v(2)] f by simp
  moreover have "pinned v = {}" using v(3) pt by (simp add: written_def)
  ultimately show ?thesis using t(1) v(1) by auto
qed

lemma commit_spec:
  assumes q: "quiet s" and tx: "tx_ok (log s) (disksize s)" and n: "0 < lh_n (log s)"
    and p: "pinned s = hblk (log s) ` {..<nat (lh_n (log s))}"
  shows "\<exists>s'. commit s = Ok s' \<and> log_frame s s' \<and> log s' = (log s)\<lparr>lh_n := 0\<rparr>
     \<and> written s (commit_writes (log s) (blk s)) s' \<and> pinned s' = {}"
proof -
  let ?l = "log s" let ?n = "nat (lh_n (log s))" let ?a = "unat (lstart (log s))"
  let ?h = "enc_hdr (lh_n ?l) (lh_block ?l) (blk s ?a)"
  obtain t where t: "write_log s = Ok t" "bio_frame s t" "written s (log_writes ?l (blk s) ?n) t" "pinned t = pinned s"
    using write_log_loop [OF q tx order_refl p] by (auto simp: write_log_def)
  note ft = bio_frame_log [OF t(2)]
  have "blk t ?a = blk s ?a"
  proof -
    have "?a \<notin> lblk ?l ` {..<?n}" by (auto simp: lblk_def)
    then show ?thesis using t(3) by (simp add: written_def apply_writes_other writes_dom)
  qed
  moreover have "card (pinned t) < NBUF" "?a \<notin> pinned t"
    using t(4) p tx_ok_card [OF tx] tx_ok_home_start [OF tx] by simp_all
  moreover have "quiet t" using t(3) by (simp add: written_def)
  ultimately obtain u where u: "write_head t = Ok u" "bio_frame t u" "written t [(?a, ?h)] u"
    using write_head_spec [of t] ft tx tx_ok_start [OF tx] by (auto simp: tx_ok_def)
  note fu = bio_frame_log [OF u(2)]
  have wu: "written s (log_writes ?l (blk s) ?n @ [(?a, ?h)]) u" using written_append [OF t(3) u(3)] .
  have pu: "pinned u = hblk ?l ` {..<?n}"
    using u(3) t(4) p tx_ok_home_start [OF tx] by (simp add: written_def)
  have qu: "quiet u" using wu by (simp add: written_def)
  have "log u = ?l" "disksize u = disksize s" using fu ft by simp_all
  then obtain v where v: "bindr (install_trans u) (\<lambda>s. write_head (upd_log (\<lambda>l. l\<lparr>lh_n := 0\<rparr>) s)) = Ok v"
    "log_frame u v" "log v = ?l\<lparr>lh_n := 0\<rparr>" "written u (recover_writes ?l (blk u)) v" "pinned v = {}"
    using install_and_clear [OF qu] tx pu by auto
  have bu: "blk u = apply_writes (log_writes ?l (blk s) ?n @ [(?a, ?h)]) (blk s)" using wu by (simp add: written_def)
  have "blk u (lblk ?l i) = blk s (hblk ?l i)" if "i < ?n" for i
  proof -
    have "lblk ?l i \<noteq> ?a" by (simp add: lblk_def)
    then show ?thesis unfolding bu using that
      by (simp add: log_writes_def apply_writes_map [OF inj_lblk that])
  qed
  then have "home_writes ?l (blk u) ?n = map (\<lambda>i. (hblk ?l i, blk s (hblk ?l i))) [0..<?n]"
    by (simp add: home_writes_def)
  moreover have "blk u ?a = ?h" using bu by simp
  ultimately have "written s (commit_writes ?l (blk s)) v"
    using written_append [OF wu v(4)] by (simp add: commit_writes_def Let_def recover_writes_def)
  moreover have "log_frame s v"
    using log_frame_trans [OF log_frame_bio [OF bio_frame_trans [OF t(2) u(2)]] v(2)] .
  ultimately show ?thesis
    using t(1) u(1) v n by (auto simp: commit_def)
qed

lemma recover_spec:
  assumes q: "quiet s" and p: "pinned s = {}" and l: "l = (log s)\<lparr>lh_n := hdr_n (disk s (unat (lstart (log s)))),
          lh_block := (\<lambda>i. if int i < hdr_n (disk s (unat (lstart (log s))))
            then hdr_block (disk s (unat (lstart (log s)))) i else lh_block (log s) i)\<rparr>"
    and tx: "tx_ok l (disksize s)"
  shows "\<exists>s'. recover_from_log s = Ok s' \<and> log_frame s s' \<and> log s' = l\<lparr>lh_n := 0\<rparr>
     \<and> written s (recover_writes l (disk s)) s' \<and> pinned s' = {}"
proof -
  have d: "ldev (log s) = ROOTDEV" "lstart (log s) < disksize s"
    using tx tx_ok_start [OF tx] l by (simp_all add: tx_ok_def)
  obtain t where t: "read_head s = Ok t" "written s [] t" "log_frame s t" "log t = l"
    using read_head_spec [OF q d p] l by auto
  have qt: "quiet t" "pinned t = {}" "disksize t = disksize s"
    using t p log_frame_eq [OF t(3)] by (simp_all add: written_def)
  obtain v where v: "bindr (install_trans t) (\<lambda>s. write_head (upd_log (\<lambda>l. l\<lparr>lh_n := 0\<rparr>) s)) = Ok v"
    "log_frame t v" "log v = l\<lparr>lh_n := 0\<rparr>" "written t (recover_writes l (blk t)) v" "pinned v = {}"
    using install_and_clear [OF qt(1)] t qt tx by auto
  have "blk t = disk s"
    using t(2) q p blk_unpinned [of s] by (simp add: written_def quiet_def fun_eq_iff)
  then have "written s (recover_writes l (disk s)) v" using written_append [OF t(2) v(4)] by simp
  then show ?thesis
    using t(1) v log_frame_trans [OF t(3) v(2)] by (auto simp: recover_from_log_def)
qed

section \<open>A crash at any moment of a commit\<close>

text \<open>The content of the home blocks (all blocks outside the log) after the transaction.\<close>

definition log_area :: "logst \<Rightarrow> nat set" where
  "log_area l = {unat (lstart l) .. unat (lstart l) + nat (lh_n l)}"

lemma log_area_dom:
  "fst ` set (log_writes l c k) \<subseteq> log_area l" if "k \<le> nat (lh_n l)"
  using that by (auto simp: writes_dom lblk_def log_area_def)

lemma home_not_area: "tx_ok l ds \<Longrightarrow> i < nat (lh_n l) \<Longrightarrow> hblk l i \<notin> log_area l"
  by (auto simp: tx_ok_def log_area_def)

text \<open>Recovery when the header on disk has count 0: no block but the header is written.\<close>

lemma recover_nothing:
  assumes q: "quiet b" "pinned b = {}" and d: "ldev (log b) = ROOTDEV" "lstart (log b) < disksize b"
    and z: "hdr_n (disk b (unat (lstart (log b)))) = 0"
  shows "\<exists>t. recover_from_log b = Ok t \<and> lh_n (log t) = 0 \<and> quiet t \<and> pinned t = {}
     \<and> (\<forall>n. n \<noteq> unat (lstart (log b)) \<longrightarrow> disk t n = disk b n)"
proof -
  define l where "l = (log b)\<lparr>lh_n := hdr_n (disk b (unat (lstart (log b)))),
          lh_block := (\<lambda>i. if int i < hdr_n (disk b (unat (lstart (log b))))
            then hdr_block (disk b (unat (lstart (log b)))) i else lh_block (log b) i)\<rparr>"
  have "tx_ok l (disksize b)"
    using d by (simp add: tx_ok_def l_def z NBUF_def word_less_nat_alt)
  from recover_spec [OF q l_def this] obtain t where t: "recover_from_log b = Ok t"
    "log t = l\<lparr>lh_n := 0\<rparr>" "written b (recover_writes l (disk b)) t" "pinned t = {}" by blast
  have "lstart l = lstart (log b)" "lh_n l = 0" by (simp_all add: l_def z)
  then have "disk t n = disk b n" if "n \<noteq> unat (lstart (log b))" for n
    using t(3) that by (simp add: written_def recover_writes_def home_writes_def)
  then show ?thesis using t by (simp add: written_def)
qed

text \<open>Recovery when the header and the log blocks of the transaction \<open>l\<close> are on disk.\<close>

lemma recover_all:
  assumes q: "quiet b" "pinned b = {}" and tx: "tx_ok l (disksize b)" and n: "lh_n l < 2 ^ 31"
    and b: "ldev (log b) = ldev l" "lstart (log b) = lstart l"
    and h: "disk b (unat (lstart l)) = enc_hdr (lh_n l) (lh_block l) x"
    and lg: "\<And>i. i < nat (lh_n l) \<Longrightarrow> disk b (lblk l i) = c (hblk l i)"
  shows "\<exists>t. recover_from_log b = Ok t \<and> lh_n (log t) = 0 \<and> quiet t \<and> pinned t = {}
     \<and> (\<forall>n. n \<noteq> unat (lstart l) \<longrightarrow> disk t n = (if n \<in> hblk l ` {..<nat (lh_n l)} then c n else disk b n))"
proof -
  have n0: "0 \<le> lh_n l" using tx by (simp add: tx_ok_def)
  have hn: "hdr_n (disk b (unat (lstart l))) = lh_n l" unfolding h using n0 n by (rule enc_hdr_n)
  have hb: "int i < lh_n l \<Longrightarrow> hdr_block (disk b (unat (lstart l))) i = lh_block l i" for i
    by (simp add: h enc_hdr_block)
  define l' where "l' = (log b)\<lparr>lh_n := hdr_n (disk b (unat (lstart (log b)))),
          lh_block := (\<lambda>i. if int i < hdr_n (disk b (unat (lstart (log b))))
            then hdr_block (disk b (unat (lstart (log b)))) i else lh_block (log b) i)\<rparr>"
  have l': "lstart l' = lstart l" "ldev l' = ldev l" "lh_n l' = lh_n l" "\<And>i. i < nat (lh_n l) \<Longrightarrow> lh_block l' i = lh_block l i"
    using b hn hb n0 by (simp_all add: l'_def zless_nat_eq_int_zless)
  then have l'2: "\<And>i. i < nat (lh_n l) \<Longrightarrow> hblk l' i = hblk l i" "lblk l' = lblk l"
    by (simp_all add: hblk_def lblk_def fun_eq_iff)
  have "inj_on (hblk l') {..<nat (lh_n l)} = inj_on (hblk l) {..<nat (lh_n l)}"
    by (rule inj_on_cong) (simp add: l'2)
  then have tx': "tx_ok l' (disksize b)"
    using tx l' l'2 by (simp add: tx_ok_def)
  from recover_spec [OF q l'_def this] obtain t where t: "recover_from_log b = Ok t"
    "log t = l'\<lparr>lh_n := 0\<rparr>" "written b (recover_writes l' (disk b)) t" "pinned t = {}" by blast
  let ?ws = "map (\<lambda>i. (hblk l i, c (hblk l i))) [0..<nat (lh_n l)]"
  have ws: "home_writes l' (disk b) (nat (lh_n l')) = ?ws"
    using lg by (simp add: home_writes_def l' l'2)
  have inj: "inj_on (hblk l) {..<nat (lh_n l)}" using tx by (simp add: tx_ok_def)
  have "disk t n = (if n \<in> hblk l ` {..<nat (lh_n l)} then c n else disk b n)" if "n \<noteq> unat (lstart l)" for n
  proof -
    have "disk t n = apply_writes ?ws (disk b) n"
      using t(3) that unfolding written_def recover_writes_def ws by (simp add: l' apply_writes_append)
    also have "\<dots> = (if n \<in> hblk l ` {..<nat (lh_n l)} then c n else disk b n)"
      using apply_writes_map [OF inj, of _ "\<lambda>i. c (hblk l i)"] apply_writes_other [of n ?ws]
      by (auto simp: image_image lessThan_atLeast0)
    finally show ?thesis .
  qed
  then show ?thesis using t by (simp add: written_def)
qed

text \<open>The machine after a reboot: an empty cache over some disk, and the log's place known.\<close>

definition rebooted :: "'a logfs_scheme \<Rightarrow> (nat \<Rightarrow> block) \<Rightarrow> 'a logfs_scheme \<Rightarrow> bool" where
  "rebooted s d b \<longleftrightarrow> quiet b \<and> pinned b = {} \<and> disk b = d \<and> disksize b = disksize s
     \<and> ldev (log b) = ldev (log s) \<and> lstart (log b) = lstart (log s)"

lemma commit_crash:
  assumes q: "quiet s" and tx: "tx_ok (log s) (disksize s)" and n: "0 < lh_n (log s)"
    and p: "pinned s = hblk (log s) ` {..<nat (lh_n (log s))}"
    and z: "hdr_n (disk s (unat (lstart (log s)))) = 0"
    and b: "rebooted s (apply_writes (take j (commit_writes (log s) (blk s))) (disk s)) b"
  shows "\<exists>t. recover_from_log b = Ok t \<and> quiet t \<and> lh_n (log t) = 0
     \<and> ((\<forall>n. n \<notin> log_area (log s) \<longrightarrow> disk t n = disk s n) \<or> (\<forall>n. n \<notin> log_area (log s) \<longrightarrow> disk t n = blk s n))"
proof -
  let ?l = "log s" let ?n = "nat (lh_n (log s))" let ?a = "unat (lstart (log s))"
  let ?h = "enc_hdr (lh_n ?l) (lh_block ?l) (blk s ?a)"
  let ?lw = "log_writes ?l (blk s) ?n"
  let ?hw = "map (\<lambda>i. (hblk ?l i, blk s (hblk ?l i))) [0..<?n]"
  let ?z = "(?a, enc_hdr 0 (lh_block ?l) ?h)"
  have cw: "commit_writes ?l (blk s) = ?lw @ (?a, ?h) # ?hw @ [?z]" by (simp add: commit_writes_def Let_def)
  have len: "length ?lw = ?n" "length ?hw = ?n" by (simp_all add: log_writes_def)
  have bq: "quiet b" "pinned b = {}" "disksize b = disksize s" "ldev (log b) = ROOTDEV" "lstart (log b) = lstart ?l"
    and bd: "disk b = apply_writes (take j (commit_writes ?l (blk s))) (disk s)"
    using b tx by (auto simp: rebooted_def tx_ok_def)
  have a_lw: "?a \<notin> fst ` set (take k ?lw)" for k
  proof -
    have "fst ` set (take k ?lw) \<subseteq> lblk ?l ` {..<?n}" using set_take_subset [of k ?lw] writes_dom(1) by blast
    then show ?thesis by (auto simp: lblk_def)
  qed
  have lw_area: "m \<notin> log_area ?l \<Longrightarrow> m \<notin> fst ` set (take k ?lw)" for k m
    using log_area_dom [of ?n ?l "blk s"] set_take_subset [of k ?lw] by blast
  have hw_dom: "fst ` set (take k ?hw) \<subseteq> hblk ?l ` {..<?n}" for k
    using set_take_subset [of k ?hw] by (auto simp: lessThan_atLeast0)
  have same: "m \<notin> hblk ?l ` {..<?n} \<Longrightarrow> blk s m = disk s m" for m
    using blk_unpinned [of s m] q p by (simp add: quiet_def)
  have area_a: "m \<notin> log_area ?l \<Longrightarrow> m \<noteq> ?a" for m by (auto simp: log_area_def)
  consider "j \<le> ?n" | k where "j = ?n + 1 + k" "k \<le> ?n" | "j \<ge> 2 * ?n + 2"
  proof -
    assume *: "j \<le> ?n \<Longrightarrow> thesis" "\<And>k. j = ?n + 1 + k \<Longrightarrow> k \<le> ?n \<Longrightarrow> thesis" "j \<ge> 2 * ?n + 2 \<Longrightarrow> thesis"
    show thesis
    proof (cases "j \<le> ?n \<or> j \<ge> 2 * ?n + 2")
      case False
      then have "j = ?n + 1 + (j - ?n - 1)" "j - ?n - 1 \<le> ?n" by linarith+
      then show thesis by (rule *(2))
    qed (use * in blast)
  qed
  then show ?thesis
  proof cases
    case 1
    then have "disk b = apply_writes (take j ?lw) (disk s)" unfolding bd cw using len by simp
    then have d: "disk b ?a = disk s ?a" "m \<notin> log_area ?l \<Longrightarrow> disk b m = disk s m" for m
      using a_lw lw_area by (simp_all add: apply_writes_other)
    with recover_nothing [OF bq(1,2,4)] bq z tx_ok_start [OF tx] obtain t where
      "recover_from_log b = Ok t" "lh_n (log t) = 0" "quiet t" "\<forall>m. m \<noteq> ?a \<longrightarrow> disk t m = disk b m" by auto
    then show ?thesis using d area_a by auto
  next
    case (2 k)
    have take: "take j (commit_writes ?l (blk s)) = ?lw @ (?a, ?h) # take k ?hw"
      unfolding cw 2(1) using len 2(2) by simp
    have d: "disk b = apply_writes (take k ?hw) ((apply_writes ?lw (disk s))(?a := ?h))"
      unfolding bd take by (simp add: apply_writes_append)
    have ha: "disk b ?a = ?h"
    proof -
      have "?a \<notin> fst ` set (take k ?hw)" using tx_ok_home_start [OF tx] hw_dom [of k] by blast
      then show ?thesis unfolding d by (simp add: apply_writes_other)
    qed
    have lg: "disk b (lblk ?l i) = blk s (hblk ?l i)" if "i < ?n" for i
    proof -
      have "lblk ?l i \<notin> fst ` set (take k ?hw)" using tx_ok_lblk_home [OF tx that] hw_dom [of k] by blast
      moreover have "lblk ?l i \<noteq> ?a" by (simp add: lblk_def)
      ultimately show ?thesis unfolding d using that
        by (simp add: apply_writes_other log_writes_def apply_writes_map [OF inj_lblk that])
    qed
    have lt: "lh_n ?l < 2 ^ 31"
    proof -
      have "nat (lh_n ?l) < 30" using tx by (simp add: tx_ok_def NBUF_def)
      then have "lh_n ?l < 30" by linarith
      then show ?thesis by simp
    qed
    obtain t where t: "recover_from_log b = Ok t" "lh_n (log t) = 0" "quiet t"
      "\<forall>m. m \<noteq> ?a \<longrightarrow> disk t m = (if m \<in> hblk ?l ` {..<?n} then blk s m else disk b m)"
      using recover_all [OF bq(1,2), of ?l "blk s ?a" "blk s"] tx bq ha lg lt by (auto simp: tx_ok_def)
    have "disk t m = blk s m" if m: "m \<notin> log_area ?l" for m
    proof (cases "m \<in> hblk ?l ` {..<?n}")
      case True
      then show ?thesis using t(4) area_a [OF m] by simp
    next
      case False
      then have "m \<notin> fst ` set (take k ?hw)" using hw_dom by blast
      then have "disk b m = disk s m"
        unfolding d using area_a [OF m] lw_area [OF m, of ?n] len(1) by (simp add: apply_writes_other)
      then show ?thesis using t(4) area_a [OF m] False same by simp
    qed
    then show ?thesis using t by blast
  next
    case 3
    then have "take j (commit_writes ?l (blk s)) = commit_writes ?l (blk s)" unfolding cw using len by simp
    then have d: "disk b = (apply_writes ?hw ((apply_writes ?lw (disk s))(?a := ?h)))(?a := snd ?z)"
      unfolding bd by (simp add: cw apply_writes_append)
    have "hdr_n (disk b ?a) = 0" by (simp add: d enc_hdr_n)
    with recover_nothing [OF bq(1,2,4)] bq tx_ok_start [OF tx] obtain t where
      t: "recover_from_log b = Ok t" "lh_n (log t) = 0" "quiet t" "\<forall>m. m \<noteq> ?a \<longrightarrow> disk t m = disk b m" by auto
    have "disk b m = blk s m" if m: "m \<notin> log_area ?l" for m
    proof (cases "m \<in> hblk ?l ` {..<?n}")
      case True
      then obtain i where i: "i < ?n" "m = hblk ?l i" by auto
      have "inj_on (hblk ?l) {..<?n}" using tx by (simp add: tx_ok_def)
      from apply_writes_map [OF this i(1), of "\<lambda>i. blk s (hblk ?l i)"] show ?thesis
        unfolding d using area_a [OF m] i by simp
    next
      case False
      then have "m \<notin> fst ` set ?hw" using hw_dom [of ?n] len(2) by auto
      then have "disk b m = disk s m"
        unfolding d using area_a [OF m] lw_area [OF m, of ?n] len(1) by (simp add: apply_writes_other)
      then show ?thesis using False same by simp
    qed
    then show ?thesis using t area_a by auto
  qed
qed

section \<open>Transactions\<close>

text \<open>
  Between operations: every pinned block is in the in-memory header, exactly once.
\<close>

definition log_ok :: "'a logfs_scheme \<Rightarrow> bool" where
  "log_ok s \<longleftrightarrow> bio_ok s \<and> 0 \<le> lh_n (log s) \<and> inj_on (hblk (log s)) {..<nat (lh_n (log s))}
     \<and> pinned s = hblk (log s) ` {..<nat (lh_n (log s))}"

definition log_slot :: "logst \<Rightarrow> u32 \<Rightarrow> nat" where
  "log_slot l n = (case List.find (\<lambda>i. lh_block l i = n) [0..<nat (lh_n l)] of
      Some i \<Rightarrow> i | None \<Rightarrow> nat (lh_n l))"

lemma log_slot_cases:
  "log_slot l n < nat (lh_n l) \<and> lh_block l (log_slot l n) = n
   \<or> log_slot l n = nat (lh_n l) \<and> unat n \<notin> hblk l ` {..<nat (lh_n l)}"
proof (cases "List.find (\<lambda>i. lh_block l i = n) [0..<nat (lh_n l)]")
  case None
  then have "\<forall>i<nat (lh_n l). lh_block l i \<noteq> n" by (simp add: find_upt_None)
  then have "unat n \<notin> hblk l ` {..<nat (lh_n l)}" by (auto simp: hblk_def word_unat_eq_iff)
  then show ?thesis using None by (simp add: log_slot_def)
next
  case (Some i)
  then have "log_slot l n = i" by (simp add: log_slot_def)
  moreover have "i < nat (lh_n l) \<and> lh_block l i = n" using Some unfolding find_upt_Some by blast
  ultimately show ?thesis by simp
qed

lemma log_write_run:
  assumes "lh_n (log s) < LOGSIZE" "lh_n (log s) < lsize (log s) - 1" "1 \<le> outstanding (log s)"
  shows "log_write b s = Ok (set_dirty b
     (upd_log (\<lambda>l. l\<lparr>lh_block := (lh_block l)(log_slot l (blockno (bufs s b)) := blockno (bufs s b)),
        lh_n := (if log_slot l (blockno (bufs s b)) = nat (lh_n l) then lh_n l + 1 else lh_n l)\<rparr>) s))"
  using assms by (simp add: log_write_def log_slot_def Let_def upd_log_def)

lemma set_dirty_upd_log: "set_dirty b (upd_log f s) = upd_log f (set_dirty b s)"
  by (simp add: set_dirty_def upd_buf_def upd_log_def)

lemma log_write_spec:
  assumes ok: "log_ok s" and h: "holds s b n"
    and room: "lh_n (log s) < LOGSIZE" "lh_n (log s) < lsize (log s) - 1" and o: "1 \<le> outstanding (log s)"
  shows "\<exists>s'. log_write b s = Ok s' \<and> log_ok s' \<and> log_frame s s'
     \<and> hblk (log s') ` {..<nat (lh_n (log s'))} = insert n (hblk (log s) ` {..<nat (lh_n (log s))})
     \<and> lh_n (log s') = lh_n (log s) + of_bool (n \<notin> hblk (log s) ` {..<nat (lh_n (log s))})
     \<and> outstanding (log s') = outstanding (log s) \<and> lsize (log s') = lsize (log s)
     \<and> ldev (log s') = ldev (log s) \<and> lstart (log s') = lstart (log s) \<and> committing (log s') = committing (log s)
     \<and> blk s' = blk s \<and> disk s' = disk s \<and> held s' = held s \<and> iolog s' = iolog s \<and> procs s' = procs s
     \<and> (\<forall>j m. holds s' j m = holds s j m)"
proof -
  let ?l = "log s" let ?n = "nat (lh_n (log s))" let ?w = "blockno (bufs s b)"
  have ok': "bio_ok s" "0 \<le> lh_n ?l" "inj_on (hblk ?l) {..<?n}" "pinned s = hblk ?l ` {..<?n}"
    using ok by (simp_all add: log_ok_def)
  have w: "unat ?w = n" using holds_buf [OF h] by simp
  note d = set_dirty_spec [OF ok'(1) h]
  define g :: "logst \<Rightarrow> logst" where "g l = l\<lparr>lh_block := (lh_block l)(log_slot l ?w := ?w),
        lh_n := (if log_slot l ?w = nat (lh_n l) then lh_n l + 1 else lh_n l)\<rparr>" for l
  have run: "log_write b s = Ok (upd_log g (set_dirty b s))"
    using log_write_run [OF room o, of b] by (simp add: set_dirty_upd_log g_def [abs_def])
  have l: "log (set_dirty b s) = ?l" using bio_frame_log(1) [OF d(6)] .
  have g: "lh_n (g ?l) = lh_n ?l + of_bool (n \<notin> hblk ?l ` {..<?n}) \<and> hblk (g ?l) ` {..<nat (lh_n (g ?l))} = insert n (hblk ?l ` {..<?n})
      \<and> inj_on (hblk (g ?l)) {..<nat (lh_n (g ?l))}"
    using log_slot_cases [of ?l ?w]
  proof
    assume *: "log_slot ?l ?w < ?n \<and> lh_block ?l (log_slot ?l ?w) = ?w"
    then have e: "lh_block (g ?l) = lh_block ?l" "lh_n (g ?l) = lh_n ?l" by (simp_all add: g_def fun_upd_idem)
    then have "hblk (g ?l) = hblk ?l" by (simp add: hblk_def fun_eq_iff)
    moreover have "n \<in> hblk ?l ` {..<?n}" using * w by (auto simp: hblk_def intro!: image_eqI [of _ _ "log_slot ?l ?w"])
    ultimately show ?thesis using e ok'(3) by (simp add: insert_absorb)
  next
    assume *: "log_slot ?l ?w = ?n \<and> unat ?w \<notin> hblk ?l ` {..<?n}"
    then have e: "lh_block (g ?l) = (lh_block ?l)(?n := ?w)" "lh_n (g ?l) = lh_n ?l + 1" by (simp_all add: g_def)
    then have hb: "hblk (g ?l) = (hblk ?l)(?n := n)" using w by (auto simp: hblk_def fun_eq_iff)
    have n1: "nat (lh_n (g ?l)) = Suc ?n" using e ok'(2) by simp
    have "hblk (g ?l) ` {..<Suc ?n} = insert n (hblk ?l ` {..<?n})"
      unfolding hb by (auto simp: lessThan_Suc)
    moreover have "inj_on (hblk (g ?l)) {..<Suc ?n}"
    proof -
      have "hblk ?l x \<noteq> n" if "x < ?n" for x using * w that by (metis image_eqI lessThan_iff)
      then show ?thesis unfolding hb lessThan_Suc using ok'(3) by (auto simp: inj_on_def)
    qed
    ultimately show ?thesis using e n1 * w by simp
  qed
  let ?t = "upd_log g (set_dirty b s)"
  have lt: "log ?t = g ?l" using l by simp
  have gf: "outstanding (g ?l) = outstanding ?l" "lsize (g ?l) = lsize ?l" "ldev (g ?l) = ldev ?l"
    "lstart (g ?l) = lstart ?l" "committing (g ?l) = committing ?l"
    by (simp_all add: g_def)
  have gi: "hblk (log ?t) ` {..<nat (lh_n (log ?t))} = insert n (hblk ?l ` {..<?n})"
    and gl: "lh_n (log ?t) = lh_n ?l + of_bool (n \<notin> hblk ?l ` {..<?n})"
    unfolding lt using g by blast+
  have "log_ok ?t" unfolding log_ok_def lt using d g ok' by auto
  moreover have "log_frame s ?t" using log_frame_trans [OF log_frame_bio [OF d(6)] log_frame_upd] .
  ultimately show ?thesis
    unfolding run
    by (intro exI [of _ ?t] conjI allI refl)
      (assumption | rule gi | rule gl | use d lt gf in simp)+
qed

lemma commit_writes_home:
  assumes "tx_ok l ds" "n \<notin> log_area l"
  shows "apply_writes (commit_writes l c) c n = c n"
proof -
  have "n \<notin> fst ` set (log_writes l c (nat (lh_n l)))" "n \<noteq> unat (lstart l)"
    using log_area_dom [of "nat (lh_n l)" l c] assms(2) by (auto simp: log_area_def)
  moreover have "fst ` set (map (\<lambda>i. (hblk l i, c (hblk l i))) [0..<nat (lh_n l)]) = hblk l ` {..<nat (lh_n l)}"
    by (force simp: lessThan_atLeast0)
  moreover have "inj_on (hblk l) {..<nat (lh_n l)}" using assms(1) by (simp add: tx_ok_def)
  note apply_writes_map [OF this, of _ "\<lambda>i. c (hblk l i)"]
  ultimately show ?thesis
    by (cases "n \<in> hblk l ` {..<nat (lh_n l)}")
      (auto simp: commit_writes_def Let_def apply_writes_append apply_writes_other)
qed

text \<open>Waking sleepers does not touch the cache.\<close>

lemma wakeup_views:
  "bio_ok (wakeup c s) = bio_ok s" "pinned (wakeup c s) = pinned s" "held (wakeup c s) = held s"
  "blk (wakeup c s) = blk s" "disk (wakeup c s) = disk s" "log (wakeup c s) = log s"
proof -
  have w: "bufs (wakeup c s) = bufs s" "disk (wakeup c s) = disk s" "disksize (wakeup c s) = disksize s"
    by (simp_all add: wakeup_def wakeup1_def)
  show "bio_ok (wakeup c s) = bio_ok s"
    by (simp add: bio_ok_def buf_ok_def ring_ok_def nx_def [abs_def] pv_def [abs_def] w)
  show "pinned (wakeup c s) = pinned s" "held (wakeup c s) = held s" "blk (wakeup c s) = blk s"
    by (simp_all add: pinned_def held_def blk_def [abs_def] w cong: option.case_cong)
  show "disk (wakeup c s) = disk s" "log (wakeup c s) = log s" by (simp_all add: wakeup_def wakeup1_def)
qed

section \<open>Properties\<close>

text \<open>
  C1: A commit is atomic with respect to crashes. If the machine stops after any number of the
  commit's disk writes and reboots, recovery succeeds, clears the log, and leaves every block
  outside the log with its content before the transaction, or every such block with its content
  after it. The commit itself succeeds and installs the transaction.
\<close>

theorem commit_crash_atomic:
  assumes "quiet s" and "tx_ok (log s) (disksize s)" and "0 < lh_n (log s)"
    and "pinned s = hblk (log s) ` {..<nat (lh_n (log s))}"
    and "hdr_n (disk s (unat (lstart (log s)))) = 0"
  shows "\<exists>s' ws. commit s = Ok s' \<and> iolog s' = iolog s @ ws \<and> blk s' = disk s'
    \<and> (\<forall>n. n \<notin> log_area (log s) \<longrightarrow> disk s' n = blk s n)
    \<and> (\<forall>j b. rebooted s (apply_writes (take j ws) (disk s)) b \<longrightarrow>
        (\<exists>t. recover_from_log b = Ok t \<and> lh_n (log t) = 0
           \<and> ((\<forall>n. n \<notin> log_area (log s) \<longrightarrow> disk t n = disk s n)
              \<or> (\<forall>n. n \<notin> log_area (log s) \<longrightarrow> disk t n = blk s n))))"
proof -
  obtain s' where s': "commit s = Ok s'" "written s (commit_writes (log s) (blk s)) s'" "pinned s' = {}"
    using commit_spec [OF assms(1-4)] by blast
  have eq: "blk s' = disk s'"
    using s' blk_unpinned [of s'] by (auto simp: written_def quiet_def fun_eq_iff)
  have "disk s' n = blk s n" if "n \<notin> log_area (log s)" for n
    using s'(2) eq commit_writes_home [OF assms(2) that, of "blk s"] unfolding written_def by metis
  note inst = this
  let ?ws = "commit_writes (log s) (blk s)"
  have "iolog s' = iolog s @ ?ws" using s'(2) by (simp add: written_def)
  moreover have "\<forall>j b. rebooted s (apply_writes (take j ?ws) (disk s)) b \<longrightarrow>
        (\<exists>t. recover_from_log b = Ok t \<and> lh_n (log t) = 0
           \<and> ((\<forall>n. n \<notin> log_area (log s) \<longrightarrow> disk t n = disk s n)
              \<or> (\<forall>n. n \<notin> log_area (log s) \<longrightarrow> disk t n = blk s n)))"
    using commit_crash [OF assms] by blast
  ultimately show ?thesis using s'(1) eq inst by blast
qed

text \<open>
  Log absorption. \<open>log_write\<close> of a buffer the caller holds adds its block to the transaction
  once: the logged blocks grow by exactly that block, the count by one only if it was not there
  yet, the block is pinned in the cache, nothing is written to disk and no content changes.
\<close>

theorem log_write_absorbs:
  assumes "log_ok s" and "holds s b n" and "lh_n (log s) < LOGSIZE" and "lh_n (log s) < lsize (log s) - 1"
    and "1 \<le> outstanding (log s)"
  shows "\<exists>s'. log_write b s = Ok s' \<and> log_ok s' \<and> pinned s' = insert n (pinned s)
     \<and> lh_n (log s') = lh_n (log s) + of_bool (n \<notin> pinned s) \<and> blk s' = blk s \<and> disk s' = disk s"
proof -
  obtain s' where s': "log_write b s = Ok s'" "log_ok s'" "blk s' = blk s" "disk s' = disk s"
    "hblk (log s') ` {..<nat (lh_n (log s'))} = insert n (hblk (log s) ` {..<nat (lh_n (log s))})"
    "lh_n (log s') = lh_n (log s) + of_bool (n \<notin> hblk (log s) ` {..<nat (lh_n (log s))})"
    using log_write_spec [OF assms] by blast
  have "pinned s' = hblk (log s') ` {..<nat (lh_n (log s'))}" using s'(2) by (simp add: log_ok_def)
  moreover have "pinned s = hblk (log s) ` {..<nat (lh_n (log s))}" using assms(1) by (simp add: log_ok_def)
  ultimately show ?thesis using s' by (intro exI [of _ s']) simp
qed

text \<open>
  C17: The last \<open>end_op\<close> commits. When the only running operation ends with nothing held and its
  blocks logged, \<open>end_op\<close> succeeds and afterwards the disk holds what the cache held for every block
  outside the log, the log is empty, nothing is pinned, no operation or commit is running, and
  whoever slept in \<open>begin_op\<close> has been woken.
\<close>

theorem end_op_commits:
  assumes "log_ok s" and "held s = {}" and "tx_ok (log s) (disksize s)"
    and "outstanding (log s) = 1" and "\<not> committing (log s)"
  shows "\<exists>s'. end_op s = Ok s' \<and> quiet s' \<and> pinned s' = {} \<and> lh_n (log s') = 0
    \<and> outstanding (log s') = 0 \<and> \<not> committing (log s')
    \<and> (\<forall>n. n \<notin> log_area (log s) \<longrightarrow> disk s' n = blk s n)
    \<and> (\<forall>i<NPROC. pstate (procs s' i) \<noteq> SLEEPING \<or> chan (procs s' i) \<noteq> Some ChLog)"
proof -
  let ?t = "upd_log (\<lambda>l. l\<lparr>committing := True\<rparr>) (upd_log (\<lambda>l. l\<lparr>outstanding := outstanding l - 1\<rparr>) s)"
  let ?f = "\<lambda>l :: logst. l\<lparr>committing := False\<rparr>"
  have lt: "log ?t = (log s)\<lparr>committing := True, outstanding := 0\<rparr>" using assms(4) by simp
  have t: "quiet ?t" "tx_ok (log ?t) (disksize ?t)" "pinned ?t = hblk (log ?t) ` {..<nat (lh_n (log ?t))}"
    "lh_n (log ?t) = lh_n (log s)" "log_area (log ?t) = log_area (log s)" "0 \<le> lh_n (log s)"
    using assms by (simp_all add: quiet_def log_ok_def tx_ok_def log_area_def lblk_def hblk_def [abs_def])
  have "\<exists>u. commit ?t = Ok u \<and> quiet u \<and> pinned u = {} \<and> log u = (log ?t)\<lparr>lh_n := 0\<rparr>
     \<and> (\<forall>n. n \<notin> log_area (log s) \<longrightarrow> disk u n = blk s n)"
  proof (cases "lh_n (log s) = 0")
    case True
    then have "pinned s = {}" using assms(1) by (simp add: log_ok_def)
    moreover have "blk s n = disk s n" for n
      using blk_unpinned [of s n] assms(1,2) \<open>pinned s = {}\<close> by (simp add: log_ok_def)
    moreover have "log ?t = (log ?t)\<lparr>lh_n := 0\<rparr>" using True by simp
    ultimately show ?thesis using t True by (intro exI [of _ ?t]) (simp add: commit_def)
  next
    case False
    then have n: "0 < lh_n (log ?t)" using t by simp
    from commit_spec [OF t(1,2) n t(3)] obtain u where u: "commit ?t = Ok u"
      "log u = (log ?t)\<lparr>lh_n := 0\<rparr>" "written ?t (commit_writes (log ?t) (blk ?t)) u" "pinned u = {}" by blast
    have "blk u = disk u"
      using u blk_unpinned [of u] by (auto simp: written_def quiet_def fun_eq_iff)
    moreover have "blk u n = blk s n" if "n \<notin> log_area (log s)" for n
      using u(3) commit_writes_home [OF t(2)] that t(5) by (simp add: written_def)
    ultimately show ?thesis using u by (auto simp: written_def)
  qed
  then obtain u where u: "commit ?t = Ok u" "quiet u" "pinned u = {}" "log u = (log ?t)\<lparr>lh_n := 0\<rparr>"
     "\<forall>n. n \<notin> log_area (log s) \<longrightarrow> disk u n = blk s n" by blast
  let ?v = "wakeup ChLog (upd_log ?f u)"
  have "end_op s = Ok ?v" using u(1) assms(4,5) by (simp add: end_op_def)
  moreover have "quiet ?v \<and> pinned ?v = {} \<and> disk ?v = disk u \<and> log ?v = ?f (log u)"
    using u(2,3) wakeup_views [of ChLog "upd_log ?f u"] by (simp add: quiet_def)
  moreover have "\<forall>i<NPROC. pstate (procs ?v i) \<noteq> SLEEPING \<or> chan (procs ?v i) \<noteq> Some ChLog"
    by (simp add: wakeup_def wakeup1_def wake_proc_def)
  moreover have "lh_n (log u) = 0" "outstanding (log u) = 0" using u(4) lt by simp_all
  ultimately show ?thesis using u(5) by (intro exI [of _ ?v]) simp
qed

text \<open>
  The space that \<open>begin_op\<close> reserves is one block more than \<open>log_write\<close> allows when the log
  has the size \<open>mkfs\<close> gives it. Three operations are admitted to an empty log, reserving
  \<open>3 * MAXOPBLOCKS = LOGSIZE\<close> blocks, but the write of the last of these blocks panics.
\<close>

theorem reservation_exceeds_log:
  assumes "lh_n (log s) = 0" and "outstanding (log s) = 0" and "\<not> committing (log s)"
  shows "(\<exists>t. bindr (bindr (begin_op s) begin_op) begin_op = Ok t \<and> outstanding (log t) = 3
         \<and> outstanding (log t) * MAXOPBLOCKS = LOGSIZE)
    \<and> (\<forall>(u :: 'a logfs_scheme) b. lsize (log u) = LOGSIZE \<and> lh_n (log u) = LOGSIZE - 1
         \<longrightarrow> log_write b u = Panic ''too big a transaction'')"
  using assms by (auto simp: begin_op_def LOGSIZE_def MAXOPBLOCKS_def log_write_def)

section \<open>A sample transaction\<close>

definition log0 :: logfs where
  "log0 = bcache.extend bcache0 (logfs.fields
     \<lparr>lstart = 2, lsize = 30, outstanding = 1, committing = False, ldev = ROOTDEV, lh_n = 0,
       lh_block = (\<lambda>i. 0)\<rparr>
     (dec_sb (\<lambda>i. 0)))"

lemma log0_idle: "\<forall>j. idle_buf (bufs (log0\<lparr>disk := d\<rparr>) j)"
  by (simp add: log0_def bcache0_def kmem0_def kmem.defs bcache.defs logfs.defs idle_zero_buf)

lemma log0_log: "lstart (log log0) = 2" "lsize (log log0) = 30" "outstanding (log log0) = 1"
    "\<not> committing (log log0)" "ldev (log log0) = ROOTDEV" "lh_n (log log0) = 0"
  by (simp_all add: log0_def bcache0_def kmem0_def kmem.defs bcache.defs logfs.defs)

text \<open>One operation holds block 50 of an empty disk and has changed it to all sevens.\<close>

lemma sample_held:
  "\<exists>(s :: logfs) i. log_ok s \<and> holds s i 50 \<and> held s = {50} \<and> log s = log log0 \<and> disksize s = 1000
     \<and> blk s 50 = (\<lambda>i. 7) \<and> disk s = (\<lambda>n i. 0) \<and> pinned s = {}"
proof -
  let ?s = "log0\<lparr>disk := (\<lambda>n i. 0)\<rparr>"
  let ?b = "binit ?s"
  note b = binit_ok [OF log0_idle [of "\<lambda>n i. 0"]]
  have f: "log ?b = log log0" "disksize ?b = 1000" "disk ?b = (\<lambda>n i. 0)"
    by (subst binit_frame, simp add: log0_def bcache0_def kmem0_def kmem.defs bcache.defs logfs.defs)+
  obtain i s1 where s1: "bread_post ?b 50 i s1"
    using bread_spec [OF b(1), of 50] b(3,4) f by (auto simp: NBUF_def)
  then have p1: "bio_ok s1" "holds s1 i 50" "pinned s1 = {}" "held s1 = {50}" "disk s1 = (\<lambda>n i. 0)"
    "log s1 = log log0" "disksize s1 = 1000"
    using b f bio_frame_log [of ?b s1] by (simp_all add: bread_post_def)
  let ?t = "set_data i (\<lambda>i. 7) s1"
  note t = set_data_spec [OF p1(1,2), of "\<lambda>i. 7"]
  have "log ?t = log log0" "disksize ?t = 1000" using bio_frame_log [OF t(6)] p1 by simp_all
  then show ?thesis using t p1 log0_log by (intro exI [of _ ?t] exI [of _ i]) (simp add: log_ok_def)
qed

text \<open>The same operation after logging the block and releasing its buffer.\<close>

lemma sample_tx:
  "\<exists>s :: logfs. log_ok s \<and> held s = {} \<and> tx_ok (log s) (disksize s) \<and> lh_n (log s) = 1 \<and> outstanding (log s) = 1
     \<and> \<not> committing (log s) \<and> lstart (log s) = 2 \<and> blk s 50 = (\<lambda>i. 7) \<and> disk s = (\<lambda>n i. 0)"
proof -
  obtain t :: logfs and i where t: "log_ok t" "holds t i 50" "held t = {50}" "log t = log log0"
    "disksize t = 1000" "blk t 50 = (\<lambda>i. 7)" "disk t = (\<lambda>n i. 0)" "pinned t = {}"
    using sample_held by blast
  obtain u where u: "log_ok u" "log_frame t u" "holds u i 50" "held u = held t" "disk u = disk t"
    "blk u = blk t" "hblk (log u) ` {..<Suc 0} = {50}" "lh_n (log u) = 1"
    "outstanding (log u) = 1" "\<not> committing (log u)" "lstart (log u) = 2" "ldev (log u) = ROOTDEV"
    using log_write_spec [OF t(1,2)] log0_log t(2,4) by (auto simp: LOGSIZE_def MAXOPBLOCKS_def)
  have pu: "50 \<in> pinned u" "bio_ok u" using u(1,7,8) by (simp_all add: log_ok_def)
  then obtain v where v: "brelse_post u i 50 v" using brelse_spec [OF pu(2) u(3)] by blast
  have fv: "log v = log u" "disksize v = 1000"
    using bio_frame_log [of u v] v log_frame_eq [OF u(2)] t by (simp_all add: brelse_post_def)
  have h0: "hblk (log u) 0 = 50" using u(7,8) by (auto simp: lessThan_Suc)
  then have "lh_block (log u) 0 = 50" by (simp add: hblk_def word_unat_eq_iff)
  then have "tx_ok (log v) (disksize v)"
    using u fv h0 by (simp add: tx_ok_def NBUF_def inj_on_def)
  moreover have "held v = {}" using v u t by (simp add: brelse_post_def)
  moreover have "log_ok v" using v u(1) fv by (simp add: brelse_post_def log_ok_def)
  moreover have "blk v 50 = (\<lambda>i. 7)" "disk v = (\<lambda>n i. 0)" using v u t by (simp_all add: brelse_post_def)
  ultimately show ?thesis using fv u by (intro exI [of _ v]) simp
qed

lemma sample_hdr: "hdr_n (\<lambda>i. 0) = 0"
  by (simp add: hdr_n_def rd32_def)

lemma commit_crash_atomic_witness:
  "\<exists>(s :: logfs) s'. lh_n (log s) = 1 \<and> disk s 50 = (\<lambda>i. 0) \<and> blk s 50 = (\<lambda>i. 7) \<and> commit s = Ok s' \<and> disk s' 50 = (\<lambda>i. 7)"
proof -
  obtain s :: logfs where s: "log_ok s" "held s = {}" "tx_ok (log s) (disksize s)" "lh_n (log s) = 1"
    "lstart (log s) = 2" "blk s 50 = (\<lambda>i. 7)" "disk s = (\<lambda>n i. 0)"
    using sample_tx by blast
  have q: "quiet s" "pinned s = hblk (log s) ` {..<nat (lh_n (log s))}" using s by (simp_all add: quiet_def log_ok_def)
  have "hdr_n (disk s (unat (lstart (log s)))) = 0" "0 < lh_n (log s)" using s sample_hdr by simp_all
  from commit_crash_atomic [OF q(1) s(3) this(2) q(2) this(1)]
  obtain s' where "commit s = Ok s'" "\<forall>n. n \<notin> log_area (log s) \<longrightarrow> disk s' n = blk s n" by blast
  moreover have "50 \<notin> log_area (log s)" using s by (simp add: log_area_def)
  ultimately have "disk s' 50 = (\<lambda>i. 7)" "disk s 50 = (\<lambda>i. 0)" using s by simp_all
  then show ?thesis using s \<open>commit s = Ok s'\<close> by blast
qed

lemma end_op_commits_witness:
  "\<exists>(s :: logfs) s'. disk s 50 = (\<lambda>i. 0) \<and> end_op s = Ok s' \<and> disk s' 50 = (\<lambda>i. 7) \<and> lh_n (log s') = 0"
proof -
  obtain s :: logfs where s: "log_ok s" "held s = {}" "tx_ok (log s) (disksize s)" "lh_n (log s) = 1"
    "outstanding (log s) = 1" "\<not> committing (log s)" "lstart (log s) = 2" "blk s 50 = (\<lambda>i. 7)" "disk s = (\<lambda>n i. 0)"
    using sample_tx by blast
  from end_op_commits [OF s(1-3,5,6)] obtain s' where s': "end_op s = Ok s'" "lh_n (log s') = 0"
    "\<forall>n. n \<notin> log_area (log s) \<longrightarrow> disk s' n = blk s n" by blast
  have "50 \<notin> log_area (log s)" using s by (simp add: log_area_def)
  then have "disk s' 50 = blk s 50" using s'(3) by blast
  then have "disk s' 50 = (\<lambda>i. 7)" "disk s 50 = (\<lambda>i. 0)" using s by simp_all
  then show ?thesis using s' by blast
qed

lemma log_write_absorbs_witness:
  "\<exists>(s :: logfs) b s'. log_write b s = Ok s' \<and> lh_n (log s') = 1 \<and> pinned s' = {50}"
proof -
  obtain s :: logfs and i where s: "log_ok s" "holds s i 50" "log s = log log0" "pinned s = {}"
    using sample_held by blast
  have "lh_n (log s) = 0" "lsize (log s) = 30" "outstanding (log s) = 1" using s(3) log0_log by simp_all
  with log_write_absorbs [OF s(1,2)] s(4) show ?thesis by (fastforce simp: LOGSIZE_def MAXOPBLOCKS_def)
qed

lemma reservation_exceeds_log_witness:
  "\<exists>t. bindr (bindr (begin_op (upd_log (\<lambda>l. l\<lparr>outstanding := 0\<rparr>) log0)) begin_op) begin_op = Ok t
     \<and> outstanding (log t) = 3"
  using reservation_exceeds_log [of "upd_log (\<lambda>l. l\<lparr>outstanding := 0\<rparr>) log0"]
  by (auto simp: log0_def bcache0_def kmem0_def kmem.defs bcache.defs logfs.defs)

end
