(* ===== verification/Printf.thy ===== *)
theory Printf
  imports Prelude
begin

text \<open>
  Formatting and parsing of numbers: \<open>printint\<close> and the format loop of \<open>console.c\<close> (\<open>cprintf\<close>) and
  of \<open>printf.c\<close> (\<open>printf\<close>), and \<open>atoi\<close> of \<open>ulib.c\<close>. The output is the list of characters
  written. The arguments of a call are a list, which C reads from the stack; a call with fewer or
  other arguments than its format asks for has no defined result (\<open>None\<close>).
  Lemmas: the digits denote the number, fit the 16-byte buffer, and are read back by \<open>atoi\<close>.
\<close>

section \<open>printint\<close>

text \<open>The do-while loop: the digits of \<open>x\<close>, low digit first, as numbers below \<open>b\<close>.\<close>

function digit_loop :: "nat \<Rightarrow> nat \<Rightarrow> nat list" where
  "digit_loop b x = (if b < 2 then [] else x mod b # (if x div b = 0 then [] else digit_loop b (x div b)))"
  by auto
termination
  by (relation "measure snd") (auto intro: div_less_dividend simp: div_eq_0_iff)

declare digit_loop.simps [simp del]

definition hexdigit :: "u8 \<Rightarrow> nat \<Rightarrow> u8" where
  "hexdigit a n = (if n < 10 then 48 + of_nat n else a + of_nat (n - 10))"

text \<open>
  \<open>a\<close> is the character of digit ten: \<open>'a'\<close> in the kernel's \<open>printint\<close>, \<open>'A'\<close> in the library's.
  The buffer is filled from the low digit, with the sign last, and written out backwards.
\<close>

definition int_buf :: "u8 \<Rightarrow> u32 \<Rightarrow> nat \<Rightarrow> bool \<Rightarrow> u8 list" where
  "int_buf a xx base sign =
     (let neg = sign \<and> xx <s 0;
          x = (if neg then - xx else xx)
      in map (hexdigit a) (digit_loop base (unat x)) @ (if neg then [45] else []))"

definition printint :: "u8 \<Rightarrow> u32 \<Rightarrow> nat \<Rightarrow> bool \<Rightarrow> u8 list" where
  "printint a xx base sign = rev (int_buf a xx base sign)"

definition cprintint :: "u32 \<Rightarrow> nat \<Rightarrow> bool \<Rightarrow> u8 list" where
  "cprintint xx base sign = printint 97 xx base sign"

definition uprintint :: "u32 \<Rightarrow> nat \<Rightarrow> bool \<Rightarrow> u8 list" where
  "uprintint xx base neg = printint 65 xx base neg"

section \<open>The format loops\<close>

datatype arg = ANum u32 | AStr "u8 list option"

text \<open>\<open>"(null)"\<close>\<close>

definition null_str :: "u8 list" where "null_str = [40, 110, 117, 108, 108, 41]"

definition str_arg :: "u8 list option \<Rightarrow> u8 list" where
  "str_arg s = (case s of None \<Rightarrow> null_str | Some cs \<Rightarrow> cs)"

text \<open>\<open>cprintf\<close>: a \<open>%\<close> at the end of the format stops the loop.\<close>

fun cprintf :: "u8 list \<Rightarrow> arg list \<Rightarrow> u8 list option" where
  "cprintf [] as = Some []"
| "cprintf (c # cs) as =
     (if c \<noteq> 37 then map_option (Cons c) (cprintf cs as)
      else case cs of
        [] \<Rightarrow> Some []
      | d # ds \<Rightarrow>
          if d = 100 then (case as of ANum n # as' \<Rightarrow> map_option ((@) (cprintint n 10 True)) (cprintf ds as') | _ \<Rightarrow> None)
          else if d = 120 \<or> d = 112 then (case as of ANum n # as' \<Rightarrow> map_option ((@) (cprintint n 16 False)) (cprintf ds as') | _ \<Rightarrow> None)
          else if d = 115 then (case as of AStr t # as' \<Rightarrow> map_option ((@) (str_arg t)) (cprintf ds as') | _ \<Rightarrow> None)
          else if d = 37 then map_option (Cons 37) (cprintf ds as)
          else map_option (\<lambda>r. 37 # d # r) (cprintf ds as))"

text \<open>\<open>printf\<close>: the flag says whether the last character was an unfinished \<open>%\<close>.\<close>

fun printf_loop :: "bool \<Rightarrow> u8 list \<Rightarrow> arg list \<Rightarrow> u8 list option" where
  "printf_loop st [] as = Some []"
| "printf_loop False (c # cs) as =
     (if c = 37 then printf_loop True cs as else map_option (Cons c) (printf_loop False cs as))"
| "printf_loop True (c # cs) as =
     (if c = 100 then (case as of ANum n # as' \<Rightarrow> map_option ((@) (uprintint n 10 True)) (printf_loop False cs as') | _ \<Rightarrow> None)
      else if c = 120 \<or> c = 112 then (case as of ANum n # as' \<Rightarrow> map_option ((@) (uprintint n 16 False)) (printf_loop False cs as') | _ \<Rightarrow> None)
      else if c = 115 then (case as of AStr t # as' \<Rightarrow> map_option ((@) (str_arg t)) (printf_loop False cs as') | _ \<Rightarrow> None)
      else if c = 99 then (case as of ANum n # as' \<Rightarrow> map_option (Cons (ucast n)) (printf_loop False cs as') | _ \<Rightarrow> None)
      else if c = 37 then map_option (Cons c) (printf_loop False cs as)
      else map_option (\<lambda>r. 37 # c # r) (printf_loop False cs as))"

definition printf :: "u8 list \<Rightarrow> arg list \<Rightarrow> u8 list option" where
  "printf fmt as = printf_loop False fmt as"

section \<open>atoi\<close>

fun atoi_loop :: "u32 \<Rightarrow> u8 list \<Rightarrow> u32" where
  "atoi_loop n [] = n"
| "atoi_loop n (c # cs) = (if 48 \<le> c \<and> c \<le> 57 then atoi_loop (n * 10 + ucast c - 48) cs else n)"

definition atoi :: "u8 list \<Rightarrow> u32" where
  "atoi s = atoi_loop 0 s"

section \<open>The digits\<close>

text \<open>The number that a list of digits denotes, low digit first.\<close>

fun digits_value :: "nat \<Rightarrow> nat list \<Rightarrow> nat" where
  "digits_value b [] = 0"
| "digits_value b (d # ds) = d + b * digits_value b ds"

lemma digit_loop_value: "2 \<le> b \<Longrightarrow> digits_value b (digit_loop b x) = x"
proof (induction b x rule: digit_loop.induct)
  case (1 b x)
  show ?case
  proof (cases "x div b = 0")
    case True
    then have "x < b" using 1(2) by (simp add: div_eq_0_iff)
    then show ?thesis using 1(2) True by (simp add: digit_loop.simps)
  next
    case False
    have "digits_value b (digit_loop b x) = x mod b + b * digits_value b (digit_loop b (x div b))"
      using 1(2) False by (subst digit_loop.simps) simp
    also have "\<dots> = x mod b + b * (x div b)" using 1 False by simp
    finally show ?thesis by simp
  qed
qed

lemma digit_loop_digits: "d \<in> set (digit_loop b x) \<Longrightarrow> d < b"
proof (induction b x rule: digit_loop.induct)
  case (1 b x)
  then show ?case by (subst (asm) digit_loop.simps) (auto split: if_splits)
qed

lemma digit_loop_length: "2 \<le> b \<Longrightarrow> x < b ^ k \<Longrightarrow> 0 < k \<Longrightarrow> length (digit_loop b x) \<le> k"
proof (induction k arbitrary: x)
  case 0
  then show ?case by simp
next
  case (Suc k)
  show ?case
  proof (cases "x div b = 0")
    case True
    then show ?thesis by (subst digit_loop.simps) simp
  next
    case False
    have "x div b < b ^ k" using Suc.prems by (simp add: less_mult_imp_div_less mult.commute)
    moreover have "0 < k" using False calculation by (cases k) auto
    ultimately have "length (digit_loop b (x div b)) \<le> k" using Suc by simp
    then show ?thesis by (subst digit_loop.simps) simp
  qed
qed

lemma int_buf_length:
  assumes "10 \<le> base"
  shows "length (int_buf a xx base sign) \<le> 11"
proof -
  have "length (digit_loop base (unat x)) \<le> 10" for x :: u32
  proof (rule digit_loop_length)
    have "unat x < 10 ^ 10" using unat_u32_less [of x] by simp
    also have "\<dots> \<le> base ^ 10" using assms by (rule power_mono) simp
    finally show "unat x < base ^ 10" .
  qed (use assms in auto)
  from this [of xx] this [of "- xx"] show ?thesis by (simp add: int_buf_def Let_def)
qed

section \<open>atoi reads what printint writes\<close>

definition digit_char :: "u8 \<Rightarrow> bool" where "digit_char c \<longleftrightarrow> 48 \<le> c \<and> c \<le> 57"

lemma atoi_loop_append:
  "(\<forall>c\<in>set cs. digit_char c) \<Longrightarrow> atoi_loop n (cs @ ds) = atoi_loop (atoi_loop n cs) ds"
  by (induction cs arbitrary: n) (auto simp: digit_char_def)

lemma hexdigit_char:
  assumes "d < 10"
  shows "digit_char (hexdigit a d)" "ucast (hexdigit a d) = (48 + of_nat d :: u32)"
proof -
  have u: "unat (hexdigit a d) = 48 + d"
    using assms by (simp add: hexdigit_def unat_word_ariths unsigned_of_nat take_bit_nat_eq_self)
  then show "digit_char (hexdigit a d)"
    using assms by (simp add: digit_char_def word_le_nat_alt)
  have "ucast (hexdigit a d) = (of_nat (unat (hexdigit a d)) :: u32)" by simp
  then show "ucast (hexdigit a d) = (48 + of_nat d :: u32)" by (simp only: u) simp
qed

lemma atoi_loop_digits:
  "(\<forall>d\<in>set ds. d < 10) \<Longrightarrow> atoi_loop n (map (hexdigit a) (rev ds)) = n * 10 ^ length ds + of_nat (digits_value 10 ds)"
proof (induction ds arbitrary: n)
  case Nil
  then show ?case by simp
next
  case (Cons d ds)
  have "\<forall>c\<in>set (map (hexdigit a) (rev ds)). digit_char c"
    using Cons.prems hexdigit_char(1) by auto
  then have "atoi_loop n (map (hexdigit a) (rev (d # ds)))
      = atoi_loop (n * 10 ^ length ds + of_nat (digits_value 10 ds)) [hexdigit a d]"
    using Cons by (simp add: atoi_loop_append)
  also have "\<dots> = (n * 10 ^ length ds + of_nat (digits_value 10 ds)) * 10 + of_nat d"
    using hexdigit_char [of d a] Cons.prems by (simp add: digit_char_def)
  finally show ?case by (simp add: algebra_simps)
qed

lemma atoi_printint:
  assumes "0 \<le>s n" "\<And>c cs. rest = c # cs \<Longrightarrow> \<not> digit_char c"
  shows "atoi (printint a n 10 sign @ rest) = n"
proof -
  let ?ds = "digit_loop 10 (unat n)"
  have p: "printint a n 10 sign = map (hexdigit a) (rev ?ds)"
    using assms(1) by (simp add: printint_def int_buf_def Let_def word_sless_alt word_sle_eq rev_map)
  have d: "\<forall>d\<in>set ?ds. d < 10" using digit_loop_digits [of _ 10 "unat n"] by blast
  then have "\<forall>c\<in>set (map (hexdigit a) (rev ?ds)). digit_char c" using hexdigit_char(1) by auto
  then have "atoi (printint a n 10 sign @ rest) = atoi_loop (of_nat (digits_value 10 ?ds)) rest"
    using atoi_loop_digits [OF d, of 0 a] by (simp add: atoi_def p atoi_loop_append)
  also have "\<dots> = of_nat (digits_value 10 ?ds)"
    using assms(2) by (cases rest) (auto simp: digit_char_def)
  also have "\<dots> = n" by (simp add: digit_loop_value)
  finally show ?thesis .
qed

text \<open>Magnitudes of signed words.\<close>

lemma unat_neg_signed: "sint (x :: u32) < 0 \<Longrightarrow> unat (- x) = nat (- sint x)"
proof -
  assume n: "sint x < 0"
  have "- (2 ^ 31) \<le> sint x" using sint_greater_eq [of x] by simp
  moreover have "- x = word_of_int (- sint x)" by simp
  then have "uint (- x) = take_bit 32 (- sint x)" by (simp only: unsigned_of_int) simp
  ultimately have "uint (- x) = - sint x" using n by (simp add: take_bit_int_eq_self)
  then show ?thesis by (metis unat_eq_nat_uint)
qed

lemma nat_sint_nonneg: "0 \<le> sint (x :: u32) \<Longrightarrow> nat (sint x) = unat x"
proof -
  assume n: "0 \<le> sint x"
  have "sint x < 2 ^ 31" using sint_less [of x] by simp
  moreover have "x = word_of_int (sint x)" by simp
  then have "uint x = take_bit 32 (sint x)" by (simp only: uint_sint) simp
  ultimately have "uint x = sint x" using n by (simp add: take_bit_int_eq_self)
  then show ?thesis by (metis unat_eq_nat_uint)
qed

section \<open>Properties\<close>

text \<open>
  Printing and parsing agree. The characters \<open>printf\<close> writes for \<open>%d\<close> of a non-negative number,
  followed by anything that does not start with a digit, are read back by \<open>atoi\<close> as the number.
\<close>

theorem atoi_printf_roundtrip:
  assumes "0 \<le>s n" and "rest = [] \<or> \<not> (48 \<le> hd rest \<and> hd rest \<le> 57)"
  shows "\<exists>out. printf [37, 100] [ANum n] = Some out \<and> atoi (out @ rest) = n"
proof -
  have "atoi (uprintint n 10 True @ rest) = n"
    unfolding uprintint_def using assms by (intro atoi_printint) (auto simp: digit_char_def)
  then show ?thesis by (simp add: printf_def)
qed

lemma atoi_printf_roundtrip_witness:
  "\<exists>out. printf [37, 100] [ANum 12345] = Some out \<and> atoi (out @ [10]) = 12345"
  using atoi_printf_roundtrip [of 12345 "[10]"] by (simp add: word_sle_eq)

text \<open>
  The 16-byte buffer of \<open>printint\<close> never overflows. For the bases the kernel uses, ten and
  sixteen, a number with its sign needs at most eleven bytes; the digits denote the magnitude, and
  the sign is written exactly for a negative number printed as signed.
\<close>

theorem printint_fits:
  assumes "base = 10 \<or> base = 16" and "m = nat (if sign then \<bar>sint xx\<bar> else uint xx)"
  shows "length (int_buf a xx base sign) \<le> 11
    \<and> printint a xx base sign = (if sign \<and> xx <s 0 then [45] else []) @ map (hexdigit a) (rev (digit_loop base m))
    \<and> digits_value base (digit_loop base m) = m"
proof -
  have "unat (if sign \<and> xx <s 0 then - xx else xx) = m"
    using assms(2) by (auto simp: word_sless_alt unat_neg_signed nat_sint_nonneg)
  then show ?thesis
    using assms(1) int_buf_length [of base a xx sign]
    by (auto simp: printint_def int_buf_def Let_def rev_map digit_loop_value)
qed

lemma printint_fits_witness:
  "length (int_buf 97 (- 42) 10 True) \<le> 11 \<and> printint 97 (- 42) 10 True = [45, 52, 50]"
  using printint_fits [of 10 42 True "- 42" 97]
  by (simp add: digit_loop.simps hexdigit_def word_sless_alt)

end
