(* ===== verification/Grep.thy ===== *)
theory Grep
  imports Prelude
begin

text \<open>
  \<open>grep.c\<close>: the pattern matcher of Kernighan and Pike, and the loop that cuts the input into lines.
  Strings are their characters up to the NUL. The specification is the set of strings a pattern
  denotes (\<open>lang\<close>); the matcher is proved to accept exactly the lines that contain one.
\<close>

section \<open>The matcher\<close>

text \<open>\<open>'.' = 46\<close>, \<open>'*' = 42\<close>, \<open>'$' = 36\<close>, \<open>'^' = 94\<close>; past the end of a string C reads the NUL.\<close>

function matchhere :: "u8 list \<Rightarrow> u8 list \<Rightarrow> bool" and matchstar :: "u8 \<Rightarrow> u8 list \<Rightarrow> u8 list \<Rightarrow> bool" where
  "matchhere re str =
     (case re of
        [] \<Rightarrow> True
      | r # rs \<Rightarrow>
          if rs \<noteq> [] \<and> hd rs = 42 then matchstar r (tl rs) str
          else if r = 36 \<and> rs = [] then str = []
          else if str \<noteq> [] \<and> (r = 46 \<or> r = hd str) then matchhere rs (tl str)
          else False)"
| "matchstar c re str =
     (if matchhere re str then True
      else if str \<noteq> [] \<and> (hd str = c \<or> c = 46) then matchstar c re (tl str)
      else False)"
  by pat_completeness auto
termination
  by (relation "measures [\<lambda>x. case x of Inl (re, t) \<Rightarrow> length re | Inr (c, re, t) \<Rightarrow> length re,
        \<lambda>x. case x of Inl (re, t) \<Rightarrow> length t | Inr (c, re, t) \<Rightarrow> length t,
        \<lambda>x. case x of Inl _ \<Rightarrow> 0 | Inr _ \<Rightarrow> 1]") (auto simp: neq_Nil_conv)

declare matchhere.simps [simp del] matchstar.simps [simp del]

fun match_loop :: "u8 list \<Rightarrow> u8 list \<Rightarrow> bool" where
  "match_loop re str = (if matchhere re str then True else case str of [] \<Rightarrow> False | t # ts \<Rightarrow> match_loop re ts)"

declare match_loop.simps [simp del]

definition match :: "u8 list \<Rightarrow> u8 list \<Rightarrow> bool" where
  "match re str = (if re \<noteq> [] \<and> hd re = 94 then matchhere (tl re) str else match_loop re str)"

section \<open>The line loop\<close>

text \<open>
  The lines of a buffer that end in a newline (\<open>'\n' = 10\<close>), and what is left of it.
\<close>

function grep_lines :: "u8 list \<Rightarrow> u8 list \<Rightarrow> u8 list \<times> u8 list" where
  "grep_lines pat p =
     (if 10 \<in> set p
      then
        let line = takeWhile (\<lambda>c. c \<noteq> 10) p; rest = tl (dropWhile (\<lambda>c. c \<noteq> 10) p);
            (out, left) = grep_lines pat rest
        in ((if match pat line then line @ [10] else []) @ out, left)
      else ([], p))"
  by auto
termination
proof (relation "measure (\<lambda>(pat, p). length p)")
  fix pat p :: "u8 list" and x xa
  assume "10 \<in> set p" "xa = tl (dropWhile (\<lambda>c. c \<noteq> 10) p)"
  moreover have "length (dropWhile (\<lambda>c. c \<noteq> 10) p) \<le> length p" by (rule length_dropWhile_le)
  moreover have "dropWhile (\<lambda>c. c \<noteq> 10) p \<noteq> []" using calculation(1) by (simp add: dropWhile_eq_Nil_conv)
  ultimately show "((pat, xa), pat, p) \<in> measure (\<lambda>(pat, p). length p)"
    by (cases "dropWhile (\<lambda>c. c \<noteq> 10) p") auto
qed simp

declare grep_lines.simps [simp del]

text \<open>
  The outer loop: each element of \<open>chunks\<close> is what one \<open>read\<close> returns (at most the free part of
  the 1024-byte buffer, never empty); \<open>held\<close> is the unfinished line kept at the start of the buffer.
  A line that fills the buffer without a newline is dropped by \<open>if(p == buf) m = 0\<close>.
\<close>

fun grep :: "u8 list \<Rightarrow> u8 list \<Rightarrow> u8 list list \<Rightarrow> u8 list" where
  "grep pat kept [] = []"
| "grep pat kept (chunk # chunks) =
     (let buf = kept @ chunk;
          (out, left) = grep_lines pat buf;
          kept' = (if left = buf then [] else left)
      in out @ grep pat kept' chunks)"

section \<open>The language of a pattern\<close>

datatype tok = One u8 | Star u8

definition chr_ok :: "u8 \<Rightarrow> u8 \<Rightarrow> bool" where "chr_ok c x \<longleftrightarrow> c = 46 \<or> c = x"

text \<open>The tokens of a pattern, and whether it ends in the anchor \<open>$\<close>.\<close>

fun toks :: "u8 list \<Rightarrow> tok list \<times> bool" where
  "toks [] = ([], False)"
| "toks [c] = (if c = 36 then ([], True) else ([One c], False))"
| "toks (c # d # re) =
     (if d = 42 then (case toks re of (ts, a) \<Rightarrow> (Star c # ts, a))
      else (case toks (d # re) of (ts, a) \<Rightarrow> (One c # ts, a)))"

fun lang :: "tok list \<Rightarrow> u8 list set" where
  "lang [] = {[]}"
| "lang (One c # ts) = {x # w | x w. chr_ok c x \<and> w \<in> lang ts}"
| "lang (Star c # ts) = {u @ w | u w. (\<forall>x\<in>set u. chr_ok c x) \<and> w \<in> lang ts}"

definition accepts :: "u8 list \<Rightarrow> u8 list \<Rightarrow> bool" where
  "accepts re str \<longleftrightarrow> (\<exists>u v. str = u @ v \<and> u \<in> lang (fst (toks re)) \<and> (snd (toks re) \<longrightarrow> v = []))"

lemma accepts_Nil: "accepts [] str"
  by (simp add: accepts_def)

lemma accepts_end: "accepts [36] str \<longleftrightarrow> str = []"
  by (simp add: accepts_def)

lemma accepts_One:
  assumes "rs = [] \<or> hd rs \<noteq> 42" "\<not> (r = 36 \<and> rs = [])"
  shows "accepts (r # rs) str \<longleftrightarrow> str \<noteq> [] \<and> chr_ok r (hd str) \<and> accepts rs (tl str)"
proof -
  have t: "fst (toks (r # rs)) = One r # fst (toks rs)" "snd (toks (r # rs)) = snd (toks rs)"
    using assms by (cases rs; auto split: prod.splits)+
  show ?thesis
  proof
    assume "accepts (r # rs) str"
    then obtain y v where y: "str = y @ v" "y \<in> lang (One r # fst (toks rs))" "snd (toks rs) \<longrightarrow> v = []"
      unfolding accepts_def t by blast
    then obtain x w where "str = x # (w @ v)" "chr_ok r x" "w \<in> lang (fst (toks rs))" by auto
    then show "str \<noteq> [] \<and> chr_ok r (hd str) \<and> accepts rs (tl str)"
      using y(3) by (auto simp: accepts_def)
  next
    assume h: "str \<noteq> [] \<and> chr_ok r (hd str) \<and> accepts rs (tl str)"
    then obtain u v where uv: "tl str = u @ v" "u \<in> lang (fst (toks rs))" "snd (toks rs) \<longrightarrow> v = []"
      by (auto simp: accepts_def)
    then have "str = (hd str # u) @ v" using h by (cases str) auto
    moreover have "hd str # u \<in> lang (One r # fst (toks rs))" using h uv by auto
    ultimately show "accepts (r # rs) str" unfolding accepts_def t using uv(3) by blast
  qed
qed

text \<open>A starred token matches nothing, or one character and itself again.\<close>

lemma accepts_Star:
  "accepts (c # 42 # re) str \<longleftrightarrow>
     accepts re str \<or> str \<noteq> [] \<and> chr_ok c (hd str) \<and> accepts (c # 42 # re) (tl str)"
proof -
  have t: "fst (toks (c # 42 # re)) = Star c # fst (toks re)" "snd (toks (c # 42 # re)) = snd (toks re)"
    by (auto split: prod.splits)
  show ?thesis
  proof
    assume "accepts (c # 42 # re) str"
    then obtain y v where y: "str = y @ v" "y \<in> lang (Star c # fst (toks re))" "snd (toks re) \<longrightarrow> v = []"
      unfolding accepts_def t by blast
    then obtain x w where s: "str = (x @ w) @ v" "\<forall>y\<in>set x. chr_ok c y" "w \<in> lang (fst (toks re))"
      "snd (toks re) \<longrightarrow> v = []"
      by auto
    show "accepts re str \<or> str \<noteq> [] \<and> chr_ok c (hd str) \<and> accepts (c # 42 # re) (tl str)"
    proof (cases x)
      case Nil
      then show ?thesis using s by (auto simp: accepts_def)
    next
      case (Cons y ys)
      then have "tl str = (ys @ w) @ v" "ys @ w \<in> lang (Star c # fst (toks re))" using s by auto
      then have "accepts (c # 42 # re) (tl str)" unfolding accepts_def t using s(4) by blast
      then show ?thesis using Cons s by auto
    qed
  next
    assume "accepts re str \<or> str \<noteq> [] \<and> chr_ok c (hd str) \<and> accepts (c # 42 # re) (tl str)"
    then show "accepts (c # 42 # re) str"
    proof
      assume "accepts re str"
      then obtain u v where "str = u @ v" "u \<in> lang (fst (toks re))" "snd (toks re) \<longrightarrow> v = []"
        by (auto simp: accepts_def)
      moreover have "u \<in> lang (Star c # fst (toks re))" using calculation(2) by simp (rule exI [of _ "[]"], simp)
      ultimately show ?thesis unfolding accepts_def t by blast
    next
      assume h: "str \<noteq> [] \<and> chr_ok c (hd str) \<and> accepts (c # 42 # re) (tl str)"
      then obtain y v where y: "tl str = y @ v" "y \<in> lang (Star c # fst (toks re))" "snd (toks re) \<longrightarrow> v = []"
        unfolding accepts_def t by blast
      then obtain x w where s: "tl str = (x @ w) @ v" "\<forall>y\<in>set x. chr_ok c y" "w \<in> lang (fst (toks re))"
        "snd (toks re) \<longrightarrow> v = []"
        by auto
      then have "str = ((hd str # x) @ w) @ v" using h by (cases str) auto
      moreover have "(hd str # x) @ w \<in> lang (Star c # fst (toks re))"
        using h s by simp (rule exI [of _ "hd str # x"], rule exI [of _ w], simp)
      ultimately show ?thesis unfolding accepts_def t using s(4) by blast
    qed
  qed
qed

lemma match_accepts:
  "matchhere re str \<longleftrightarrow> accepts re str"
  "matchstar c re str \<longleftrightarrow> accepts (c # 42 # re) str"
proof (induction re str and c re str rule: matchhere_matchstar.induct)
  case (1 re str)
  show ?case
  proof (cases re)
    case Nil
    then show ?thesis by (subst matchhere.simps) (simp add: accepts_Nil)
  next
    case (Cons r rs)
    consider "rs \<noteq> [] \<and> hd rs = 42" | "r = 36 \<and> rs = []" | "rs = [] \<or> hd rs \<noteq> 42" "\<not> (r = 36 \<and> rs = [])"
      by blast
    then show ?thesis
    proof cases
      case 1
      then have "matchhere re str = matchstar r (tl rs) str"
        using Cons by (subst matchhere.simps) simp
      also have "\<dots> = accepts (r # 42 # tl rs) str" using "1.IH"(1) Cons 1 by simp
      also have "r # 42 # tl rs = re" using Cons 1 by (cases rs) auto
      finally show ?thesis .
    next
      case 2
      then show ?thesis using Cons by (subst matchhere.simps) (simp add: accepts_end)
    next
      case 3
      then have "matchhere re str = (str \<noteq> [] \<and> chr_ok r (hd str) \<and> matchhere rs (tl str))"
        using Cons by (subst matchhere.simps) (auto simp: chr_ok_def)
      also have "\<dots> = (str \<noteq> [] \<and> chr_ok r (hd str) \<and> accepts rs (tl str))"
        using "1.IH"(2) [OF Cons] 3 by (auto simp: chr_ok_def)
      also have "\<dots> = accepts re str" using accepts_One [OF 3] Cons by simp
      finally show ?thesis .
    qed
  qed
next
  case (2 c re str)
  have "matchstar c re str = (matchhere re str \<or> str \<noteq> [] \<and> chr_ok c (hd str) \<and> matchstar c re (tl str))"
    by (subst matchstar.simps) (auto simp: chr_ok_def)
  also have "\<dots> = (accepts re str \<or> str \<noteq> [] \<and> chr_ok c (hd str) \<and> accepts (c # 42 # re) (tl str))"
    using 2 by (auto simp: chr_ok_def)
  also have "\<dots> = accepts (c # 42 # re) str" by (rule accepts_Star [symmetric])
  finally show ?case .
qed

lemma match_loop_accepts: "match_loop re str \<longleftrightarrow> (\<exists>u v. str = u @ v \<and> accepts re v)"
proof (induction str)
  case Nil
  then show ?case by (subst match_loop.simps) (simp add: match_accepts)
next
  case (Cons t ts)
  have "match_loop re (t # ts) \<longleftrightarrow> accepts re (t # ts) \<or> match_loop re ts"
    by (subst match_loop.simps) (simp add: match_accepts)
  also have "\<dots> \<longleftrightarrow> (\<exists>u v. t # ts = u @ v \<and> accepts re v)"
    unfolding Cons.IH by (auto simp: Cons_eq_append_conv)
  finally show ?case .
qed

section \<open>Properties\<close>

text \<open>
  C39: The matcher finds exactly the pattern. \<open>match\<close> accepts a line if and only if some part of it
  is a string the pattern denotes, starting at the beginning of the line if the pattern starts with
  \<open>^\<close> and ending at its end if the pattern ends with \<open>$\<close>.
\<close>

theorem match_iff_contains:
  "match re str \<longleftrightarrow>
     (let anchored = re \<noteq> [] \<and> hd re = 94; body = (if anchored then tl re else re)
      in \<exists>u v w. str = u @ v @ w \<and> v \<in> lang (fst (toks body))
           \<and> (anchored \<longrightarrow> u = []) \<and> (snd (toks body) \<longrightarrow> w = []))"
  by (auto simp: match_def Let_def match_loop_accepts match_accepts accepts_def)

lemma match_iff_contains_witness:
  "match [94, 97, 46, 42, 36] [97, 98] \<and> \<not> match [98, 36] [98, 97]"
  using match_iff_contains [of "[98, 36]" "[98, 97]"] match_iff_contains [of "[94, 97, 46, 42, 36]" "[97, 98]"]
  by (auto simp: chr_ok_def append_eq_Cons_conv Cons_eq_append_conv)

end
