(* ===== verification/Inode.thy ===== *)
theory Inode
  imports Log
begin

text \<open>
  The lower half of \<open>fs.c\<close>: the block bitmap, the inode table on disk, the inode cache, and the
  mapping from a file's blocks to disk blocks. An inode pointer is an index into the cache. Blocks
  are byte functions; a structure in a block is read and written at its byte offset.
\<close>

definition NINODE :: nat where "NINODE = 50"
definition NDIRECT :: nat where "NDIRECT = 12"
definition NINDIRECT :: nat where "NINDIRECT = BSIZE div 4"
definition MAXFILE :: nat where "MAXFILE = NDIRECT + NINDIRECT"
definition SIZEOF_DINODE :: nat where "SIZEOF_DINODE = 64"
definition IPB :: nat where "IPB = BSIZE div SIZEOF_DINODE"
definition BPB :: nat where "BPB = BSIZE * 8"
definition ROOTINO :: u32 where "ROOTINO = 1"

definition T_DIR :: u16 where "T_DIR = 1"
definition T_FILE :: u16 where "T_FILE = 2"
definition T_DEV :: u16 where "T_DEV = 3"

record inode =
  idev :: u32
  inum :: u32
  iref :: int
  ilk :: sleeplock
  ivalid :: bool
  itype :: u16
  major :: u16
  minor :: u16
  nlink :: u16
  isize :: u32
  addrs :: "nat \<Rightarrow> u32"

record icache = logfs +
  inodes :: "nat \<Rightarrow> inode"

definition upd_inode :: "nat \<Rightarrow> (inode \<Rightarrow> inode) \<Rightarrow> 'a icache_scheme \<Rightarrow> 'a icache_scheme" where
  "upd_inode i f s = s\<lparr>inodes := (inodes s)(i := f (inodes s i))\<rparr>"

definition IBLOCK :: "u32 \<Rightarrow> superblock \<Rightarrow> u32" where
  "IBLOCK i v = i div of_nat IPB + sb_inodestart v"

definition BBLOCK :: "u32 \<Rightarrow> superblock \<Rightarrow> u32" where
  "BBLOCK b v = b div of_nat BPB + sb_bmapstart v"

section \<open>Structures in blocks\<close>

text \<open>\<open>struct dinode\<close> at byte offset \<open>o\<close>, as the fields of the cached copy.\<close>

definition dip_offset :: "u32 \<Rightarrow> nat" where
  "dip_offset i = (unat i mod IPB) * SIZEOF_DINODE"

definition dip_type :: "nat \<Rightarrow> block \<Rightarrow> u16" where "dip_type k d = rd16 d k"

fun put_addrs :: "nat \<Rightarrow> (nat \<Rightarrow> u32) \<Rightarrow> nat \<Rightarrow> block \<Rightarrow> block" where
  "put_addrs k a 0 d = d"
| "put_addrs k a (Suc n) d = wr32 (put_addrs k a n d) (k + 12 + 4 * n) (a n)"

definition put_dinode :: "nat \<Rightarrow> inode \<Rightarrow> block \<Rightarrow> block" where
  "put_dinode k ip d =
     (let d = wr16 d k (itype ip);
          d = wr16 d (k + 2) (major ip);
          d = wr16 d (k + 4) (minor ip);
          d = wr16 d (k + 6) (nlink ip);
          d = wr32 d (k + 8) (isize ip)
      in put_addrs k (addrs ip) (NDIRECT + 1) d)"

definition get_dinode :: "nat \<Rightarrow> block \<Rightarrow> inode \<Rightarrow> inode" where
  "get_dinode k d ip = ip\<lparr>itype := dip_type k d, major := rd16 d (k + 2), minor := rd16 d (k + 4),
     nlink := rd16 d (k + 6), isize := rd32 d (k + 8),
     addrs := (\<lambda>n. if n < NDIRECT + 1 then rd32 d (k + 12 + 4 * n) else addrs ip n)\<rparr>"

text \<open>\<open>memset(p, 0, n)\<close> on the bytes of a block from offset \<open>k\<close>.\<close>

definition zero_bytes :: "nat \<Rightarrow> nat \<Rightarrow> block \<Rightarrow> block" where
  "zero_bytes k n d = (\<lambda>i. if k \<le> i \<and> i < k + n then 0 else d i)"

section \<open>Blocks\<close>

definition bzero :: "u32 \<Rightarrow> u32 \<Rightarrow> 'a logfs_scheme \<Rightarrow> 'a logfs_scheme res" where
  "bzero dev bno s =
     bindr (bread dev bno s) (\<lambda>(bp, s).
       let s = set_data bp (zero_bytes 0 BSIZE (data (bufs s bp))) s in
       bindr (log_write bp s) (brelse bp))"

definition bit_free :: "block \<Rightarrow> nat \<Rightarrow> bool" where
  "bit_free d bi \<longleftrightarrow> d (bi div 8) AND push_bit (bi mod 8) 1 = 0"

definition bit_set :: "nat \<Rightarrow> block \<Rightarrow> block" where
  "bit_set bi d = d(bi div 8 := d (bi div 8) OR push_bit (bi mod 8) 1)"

definition bit_clear :: "nat \<Rightarrow> block \<Rightarrow> block" where
  "bit_clear bi d = d(bi div 8 := d (bi div 8) AND NOT (push_bit (bi mod 8) 1))"

text \<open>The loop over the bitmap blocks; \<open>bs\<close> are the block numbers \<open>0, BPB, 2 * BPB, ...\<close> to try.\<close>

fun balloc_loop :: "u32 \<Rightarrow> nat list \<Rightarrow> 'a logfs_scheme \<Rightarrow> (u32 \<times> 'a logfs_scheme) res" where
  "balloc_loop dev [] s = Panic ''balloc: out of blocks''"
| "balloc_loop dev (b # bs) s =
     bindr (bread dev (BBLOCK (of_nat b) (sb s)) s) (\<lambda>(bp, s).
       case List.find (bit_free (data (bufs s bp))) [0..<min BPB (unat (sb_size (sb s)) - b)] of
         Some bi \<Rightarrow>
           let s = set_data bp (bit_set bi (data (bufs s bp))) s in
           bindr (log_write bp s) (\<lambda>s.
           bindr (brelse bp s) (\<lambda>s.
           bindr (bzero dev (of_nat (b + bi)) s) (\<lambda>s.
           Ok (of_nat (b + bi), s))))
       | None \<Rightarrow> bindr (brelse bp s) (balloc_loop dev bs))"

definition balloc :: "u32 \<Rightarrow> 'a logfs_scheme \<Rightarrow> (u32 \<times> 'a logfs_scheme) res" where
  "balloc dev s =
     balloc_loop dev (map (\<lambda>k. k * BPB) [0..<(unat (sb_size (sb s)) + BPB - 1) div BPB]) s"

definition bfree :: "u32 \<Rightarrow> u32 \<Rightarrow> 'a logfs_scheme \<Rightarrow> 'a logfs_scheme res" where
  "bfree dev b s =
     bindr (bread dev (BBLOCK b (sb s)) s) (\<lambda>(bp, s).
       let bi = unat b mod BPB in
       if bit_free (data (bufs s bp)) bi then Panic ''freeing free block''
       else
         let s = set_data bp (bit_clear bi (data (bufs s bp))) s in
         bindr (log_write bp s) (brelse bp))"

section \<open>Inodes\<close>

definition iinit :: "u32 \<Rightarrow> 'a icache_scheme \<Rightarrow> 'a icache_scheme res" where
  "iinit dev s =
     bindr (readsb dev (s\<lparr>inodes := (\<lambda>i. if i < NINODE then (inodes s i)\<lparr>ilk := initsleeplock\<rparr> else inodes s i)\<rparr>))
       (\<lambda>(v, s). Ok (s\<lparr>sb := v\<rparr>))"

definition iget :: "u32 \<Rightarrow> u32 \<Rightarrow> 'a icache_scheme \<Rightarrow> (nat \<times> 'a icache_scheme) res" where
  "iget dev n s =
     (case List.find (\<lambda>i. iref (inodes s i) > 0 \<and> idev (inodes s i) = dev \<and> inum (inodes s i) = n) [0..<NINODE] of
        Some i \<Rightarrow> Ok (i, upd_inode i (\<lambda>ip. ip\<lparr>iref := iref ip + 1\<rparr>) s)
      | None \<Rightarrow>
          (case List.find (\<lambda>i. iref (inodes s i) = 0) [0..<NINODE] of
             None \<Rightarrow> Panic ''iget: no inodes''
           | Some i \<Rightarrow> Ok (i, upd_inode i (\<lambda>ip. ip\<lparr>idev := dev, inum := n, iref := 1, ivalid := False\<rparr>) s)))"

fun ialloc_loop :: "u32 \<Rightarrow> u16 \<Rightarrow> nat list \<Rightarrow> 'a icache_scheme \<Rightarrow> (nat \<times> 'a icache_scheme) res" where
  "ialloc_loop dev t [] s = Panic ''ialloc: no inodes''"
| "ialloc_loop dev t (n # ns) s =
     bindr (bread dev (IBLOCK (of_nat n) (sb s)) s) (\<lambda>(bp, s).
       let k = dip_offset (of_nat n) in
       if dip_type k (data (bufs s bp)) = 0
       then
         let s = set_data bp (wr16 (zero_bytes k SIZEOF_DINODE (data (bufs s bp))) k t) s in
         bindr (log_write bp s) (\<lambda>s.
         bindr (brelse bp s) (\<lambda>s.
         iget dev (of_nat n) s))
       else bindr (brelse bp s) (ialloc_loop dev t ns))"

definition ialloc :: "u32 \<Rightarrow> u16 \<Rightarrow> 'a icache_scheme \<Rightarrow> (nat \<times> 'a icache_scheme) res" where
  "ialloc dev t s = ialloc_loop dev t [1..<unat (sb_ninodes (sb s))] s"

definition iupdate :: "nat \<Rightarrow> 'a icache_scheme \<Rightarrow> 'a icache_scheme res" where
  "iupdate i s =
     (let ip = inodes s i in
      bindr (bread (idev ip) (IBLOCK (inum ip) (sb s)) s) (\<lambda>(bp, s).
        let s = set_data bp (put_dinode (dip_offset (inum ip)) ip (data (bufs s bp))) s in
        bindr (log_write bp s) (brelse bp)))"

definition idup :: "nat \<Rightarrow> 'a icache_scheme \<Rightarrow> 'a icache_scheme" where
  "idup i s = upd_inode i (\<lambda>ip. ip\<lparr>iref := iref ip + 1\<rparr>) s"

definition ilock :: "nat \<Rightarrow> 'a icache_scheme \<Rightarrow> 'a icache_scheme res" where
  "ilock i s =
     (if iref (inodes s i) < 1 then Panic ''ilock''
      else
        bindr (acquiresleep (ChInode i) (pid (myproc s)) (ilk (inodes s i))) (\<lambda>lk.
        let s = upd_inode i (\<lambda>ip. ip\<lparr>ilk := lk\<rparr>) s; ip = inodes s i in
        if ivalid ip then Ok s
        else
          bindr (bread (idev ip) (IBLOCK (inum ip) (sb s)) s) (\<lambda>(bp, s).
          let s = upd_inode i (get_dinode (dip_offset (inum ip)) (data (bufs s bp))) s in
          bindr (brelse bp s) (\<lambda>s.
          let s = upd_inode i (\<lambda>ip. ip\<lparr>ivalid := True\<rparr>) s in
          if itype (inodes s i) = 0 then Panic ''ilock: no type'' else Ok s))))"

definition iunlock :: "nat \<Rightarrow> 'a icache_scheme \<Rightarrow> 'a icache_scheme res" where
  "iunlock i s =
     (if \<not> holdingsleep (pid (myproc s)) (ilk (inodes s i)) \<or> iref (inodes s i) < 1 then Panic ''iunlock''
      else
        let (lk, s) = releasesleep (ChInode i) (ilk (inodes s i)) s
        in Ok (upd_inode i (\<lambda>ip. ip\<lparr>ilk := lk\<rparr>) s))"

text \<open>The two loops of \<open>itrunc\<close>.\<close>

definition itrunc_direct :: "nat \<Rightarrow> nat \<Rightarrow> 'a icache_scheme \<Rightarrow> 'a icache_scheme res" where
  "itrunc_direct i k s =
     (let ip = inodes s i in
      if addrs ip k \<noteq> 0
      then bindr (bfree (idev ip) (addrs ip k) s) (\<lambda>s.
             Ok (upd_inode i (\<lambda>ip. ip\<lparr>addrs := (addrs ip)(k := 0)\<rparr>) s))
      else Ok s)"

definition itrunc_indirect :: "nat \<Rightarrow> nat \<Rightarrow> nat \<Rightarrow> 'a icache_scheme \<Rightarrow> 'a icache_scheme res" where
  "itrunc_indirect i bp j s =
     (let a = rd32 (data (bufs s bp)) (4 * j) in
      if a \<noteq> 0 then bfree (idev (inodes s i)) a s else Ok s)"

definition itrunc :: "nat \<Rightarrow> 'a icache_scheme \<Rightarrow> 'a icache_scheme res" where
  "itrunc i s =
     bindr (foldr_res (itrunc_direct i) [0..<NDIRECT] s) (\<lambda>s.
     bindr
       (let ip = inodes s i in
        if addrs ip NDIRECT \<noteq> 0
        then
          bindr (bread (idev ip) (addrs ip NDIRECT) s) (\<lambda>(bp, s).
          bindr (foldr_res (itrunc_indirect i bp) [0..<NINDIRECT] s) (\<lambda>s.
          bindr (brelse bp s) (\<lambda>s.
          bindr (bfree (idev ip) (addrs ip NDIRECT) s) (\<lambda>s.
          Ok (upd_inode i (\<lambda>ip. ip\<lparr>addrs := (addrs ip)(NDIRECT := 0)\<rparr>) s)))))
        else Ok s)
       (\<lambda>s. iupdate i (upd_inode i (\<lambda>ip. ip\<lparr>isize := 0\<rparr>) s)))"

definition iput :: "nat \<Rightarrow> 'a icache_scheme \<Rightarrow> 'a icache_scheme res" where
  "iput i s =
     bindr (acquiresleep (ChInode i) (pid (myproc s)) (ilk (inodes s i))) (\<lambda>lk.
     let s = upd_inode i (\<lambda>ip. ip\<lparr>ilk := lk\<rparr>) s in
     bindr
       (if ivalid (inodes s i) \<and> nlink (inodes s i) = 0 \<and> iref (inodes s i) = 1
        then
          bindr (itrunc i s) (\<lambda>s.
          bindr (iupdate i (upd_inode i (\<lambda>ip. ip\<lparr>itype := 0\<rparr>) s)) (\<lambda>s.
          Ok (upd_inode i (\<lambda>ip. ip\<lparr>ivalid := False\<rparr>) s)))
        else Ok s)
       (\<lambda>s.
         let (lk, s) = releasesleep (ChInode i) (ilk (inodes s i)) s;
             s = upd_inode i (\<lambda>ip. ip\<lparr>ilk := lk\<rparr>) s
         in Ok (upd_inode i (\<lambda>ip. ip\<lparr>iref := iref ip - 1\<rparr>) s)))"

definition iunlockput :: "nat \<Rightarrow> 'a icache_scheme \<Rightarrow> 'a icache_scheme res" where
  "iunlockput i s = bindr (iunlock i s) (iput i)"

section \<open>The blocks of a file\<close>

definition bmap :: "nat \<Rightarrow> u32 \<Rightarrow> 'a icache_scheme \<Rightarrow> (u32 \<times> 'a icache_scheme) res" where
  "bmap i bn s =
     (let ip = inodes s i in
      if unat bn < NDIRECT
      then
        (if addrs ip (unat bn) = 0
         then bindr (balloc (idev ip) s) (\<lambda>(a, s).
                Ok (a, upd_inode i (\<lambda>ip. ip\<lparr>addrs := (addrs ip)(unat bn := a)\<rparr>) s))
         else Ok (addrs ip (unat bn), s))
      else
        let bn = unat bn - NDIRECT in
        if bn < NINDIRECT
        then
          bindr
            (if addrs ip NDIRECT = 0
             then bindr (balloc (idev ip) s) (\<lambda>(a, s).
                    Ok (a, upd_inode i (\<lambda>ip. ip\<lparr>addrs := (addrs ip)(NDIRECT := a)\<rparr>) s))
             else Ok (addrs ip NDIRECT, s))
            (\<lambda>(addr, s).
              bindr (bread (idev ip) addr s) (\<lambda>(bp, s).
              let a = rd32 (data (bufs s bp)) (4 * bn) in
              if a = 0
              then
                bindr (balloc (idev ip) s) (\<lambda>(a, s).
                let s = set_data bp (wr32 (data (bufs s bp)) (4 * bn) a) s in
                bindr (log_write bp s) (\<lambda>s.
                bindr (brelse bp s) (\<lambda>s. Ok (a, s))))
              else bindr (brelse bp s) (\<lambda>s. Ok (a, s))))
        else Panic ''bmap: out of range'')"

record stat =
  st_type :: u16
  st_dev :: u32
  st_ino :: u32
  st_nlink :: u16
  st_size :: u32

definition stati :: "nat \<Rightarrow> 'a icache_scheme \<Rightarrow> stat" where
  "stati i s =
     (let ip = inodes s i in
      \<lparr>st_type = itype ip, st_dev = idev ip, st_ino = inum ip, st_nlink = nlink ip, st_size = isize ip\<rparr>)"

section \<open>Inodes in blocks\<close>

lemma rd32_put_addrs: "n < m \<Longrightarrow> rd32 (put_addrs k a m d) (k + 12 + 4 * n) = a n"
proof (induction m)
  case (Suc m)
  then show ?case by (cases "n = m") (simp_all add: rd32_wr32_other_nat)
qed simp

lemma put_addrs_other: "i < k + 12 \<or> k + 12 + 4 * m \<le> i \<Longrightarrow> put_addrs k a m d i = d i"
  by (induction m) (auto simp: wr32_other_nat)

lemma rd16_put_addrs: "j + 2 \<le> k + 12 \<Longrightarrow> rd16 (put_addrs k a m d) j = rd16 d j"
  by (rule rd16_cong_nat) (simp add: put_addrs_other)

lemma rd32_put_addrs_other: "j + 4 \<le> k + 12 \<Longrightarrow> rd32 (put_addrs k a m d) j = rd32 d j"
  by (rule rd32_cong_nat) (simp add: put_addrs_other)

lemma get_put_dinode:
  "get_dinode k (put_dinode k ip d) jp =
     jp\<lparr>itype := itype ip, major := major ip, minor := minor ip, nlink := nlink ip, isize := isize ip,
        addrs := (\<lambda>n. if n < NDIRECT + 1 then addrs ip n else addrs jp n)\<rparr>"
  by (simp add: get_dinode_def put_dinode_def dip_type_def Let_def rd16_put_addrs rd32_put_addrs_other
      rd32_put_addrs rd16_wr16_other_nat rd16_wr32_other_nat rd32_wr16_other_nat
      del: put_addrs.simps cong: if_cong)

lemma put_dinode_other: "i < k \<or> k + SIZEOF_DINODE \<le> i \<Longrightarrow> put_dinode k ip d i = d i"
  by (auto simp: put_dinode_def Let_def put_addrs_other wr16_other_nat wr32_other_nat SIZEOF_DINODE_def NDIRECT_def
      simp del: put_addrs.simps)

end
