(* ===== verification/Console.thy ===== *)
theory Console
  imports Inode RingBuf Printf
begin

text \<open>
  \<open>console.c\<close>: the screen, the line editor that the keyboard interrupt runs, and the console device.
  The screen memory and the cursor position (which the hardware keeps) are state; what goes to the
  serial port is recorded in \<open>uartout\<close>. A keyboard interrupt delivers a list of codes, the values
  \<open>getc\<close> returns before it returns a negative one.
  Lemmas: the cursor never leaves the screen, and a reader gets the bytes of the input ring in order.
\<close>

definition INPUT_BUF :: nat where "INPUT_BUF = 128"
definition BACKSPACE :: int where "BACKSPACE = 0x100"
definition CONSOLE :: nat where "CONSOLE = 1"
definition NDEV :: nat where "NDEV = 10"

record cons = icache +
  in_buf :: "nat \<Rightarrow> u8"
  in_r :: u32
  in_w :: u32
  in_e :: u32
  crt :: "nat \<Rightarrow> u16"
  crt_pos :: nat
  uart :: bool
  uartout :: "int list"
  devsw :: "nat \<Rightarrow> bool"

text \<open>\<open>devsw i\<close> says whether \<open>consoleinit\<close> has installed the console's functions for device \<open>i\<close>.\<close>

section \<open>The screen\<close>

definition cga_cell :: "int \<Rightarrow> u16" where
  "cga_cell c = (of_int c AND 0xff) OR 0x0700"

definition scroll :: "(nat \<Rightarrow> u16) \<Rightarrow> nat \<Rightarrow> (nat \<Rightarrow> u16)" where
  "scroll m pos =
     (let m = (\<lambda>i. if i < 23 * 80 then m (i + 80) else m i)
      in (\<lambda>i. if pos \<le> i \<and> i < 24 * 80 then 0 else m i))"

definition cgaputc :: "int \<Rightarrow> 'a cons_scheme \<Rightarrow> 'a cons_scheme res" where
  "cgaputc c s =
     (let (pos, m) =
        (if c = 10 then (crt_pos s + (80 - crt_pos s mod 80), crt s)
         else if c = BACKSPACE then (if crt_pos s > 0 then crt_pos s - 1 else crt_pos s, crt s)
         else (crt_pos s + 1, (crt s)(crt_pos s := cga_cell c)))
      in if pos > 25 * 80 then Panic ''pos under/overflow''
         else
           let (pos, m) = (if pos div 80 \<ge> 24 then (pos - 80, scroll m (pos - 80)) else (pos, m))
           in Ok (s\<lparr>crt_pos := pos, crt := m(pos := 0x0720)\<rparr>))"

definition uartputc :: "int \<Rightarrow> 'a cons_scheme \<Rightarrow> 'a cons_scheme" where
  "uartputc c s = (if \<not> uart s then s else s\<lparr>uartout := uartout s @ [c]\<rparr>)"

text \<open>
  \<open>uartinit\<close> is given the status byte that says whether there is a serial port, and announces the
  kernel with \<open>"xv6...\n"\<close>; \<open>uartgetc\<close> the status and data bytes of the port.
\<close>

definition uartinit :: "u8 \<Rightarrow> 'a cons_scheme \<Rightarrow> 'a cons_scheme" where
  "uartinit status s =
     (if status = 0xFF then s
      else fold uartputc [120, 118, 54, 46, 46, 46, 10] (s\<lparr>uart := True\<rparr>))"

definition uartgetc :: "u8 \<Rightarrow> u8 \<Rightarrow> 'a cons_scheme \<Rightarrow> int" where
  "uartgetc status rx s =
     (if \<not> uart s then - 1 else if status AND 1 = 0 then - 1 else uint rx)"

definition consputc :: "int \<Rightarrow> 'a cons_scheme \<Rightarrow> 'a cons_scheme res" where
  "consputc c s =
     cgaputc c (if c = BACKSPACE then uartputc 8 (uartputc 32 (uartputc 8 s)) else uartputc c s)"

section \<open>Input\<close>

text \<open>The loop of kill-line; \<open>k\<close> is the number of characters between \<open>w\<close> and \<open>e\<close>.\<close>

fun kill_line :: "nat \<Rightarrow> 'a cons_scheme \<Rightarrow> 'a cons_scheme res" where
  "kill_line 0 s = Ok s"
| "kill_line (Suc k) s =
     (if in_buf s (unat (in_e s - 1) mod INPUT_BUF) \<noteq> 10
      then bindr (consputc BACKSPACE (s\<lparr>in_e := in_e s - 1\<rparr>)) (kill_line k)
      else Ok s)"

definition cons_store :: "int \<Rightarrow> 'a cons_scheme \<Rightarrow> 'a cons_scheme res" where
  "cons_store c s =
     (if c \<noteq> 0 \<and> unat (in_e s - in_r s) < INPUT_BUF
      then
        let c = (if c = 13 then 10 else c);
            s = s\<lparr>in_buf := (in_buf s)(unat (in_e s) mod INPUT_BUF := of_int c), in_e := in_e s + 1\<rparr>
        in bindr (consputc c s) (\<lambda>s.
             if c = 10 \<or> c = 4 \<or> in_e s = in_r s + of_nat INPUT_BUF
             then Ok (wakeup ChInput (s\<lparr>in_w := in_e s\<rparr>))
             else Ok s)
      else Ok s)"

definition consoleintr_char :: "int \<Rightarrow> 'a cons_scheme \<Rightarrow> 'a cons_scheme res" where
  "consoleintr_char c s =
     (if c = 16 then Ok s
      else if c = 21 then kill_line (unat (in_e s - in_w s)) s
      else if c = 8 \<or> c = 127 then
        (if in_e s \<noteq> in_w s then consputc BACKSPACE (s\<lparr>in_e := in_e s - 1\<rparr>) else Ok s)
      else cons_store c s)"

text \<open>The interrupt; the flag returned is \<open>doprocdump\<close>.\<close>

fun consoleintr :: "int list \<Rightarrow> 'a cons_scheme \<Rightarrow> (bool \<times> 'a cons_scheme) res" where
  "consoleintr [] s = Ok (False, s)"
| "consoleintr (c # cs) s =
     bindr (consoleintr_char c s) (\<lambda>s.
     bindr (consoleintr cs s) (\<lambda>(dump, s). Ok (c = 16 \<or> dump, s)))"

section \<open>The device\<close>

text \<open>
  A loop that may go to sleep ends with a result, or asleep on a channel with the progress made.
\<close>

datatype 's loop_out = Done int "u8 list" 's | Sleep chan "u8 list" 's

text \<open>\<open>acc\<close> are the bytes already stored at the destination, \<open>n\<close> the bytes still wanted.\<close>

fun consoleread_loop :: "nat \<Rightarrow> u8 list \<Rightarrow> 'a cons_scheme \<Rightarrow> 'a cons_scheme loop_out" where
  "consoleread_loop 0 acc s = Done (int (length acc)) acc s"
| "consoleread_loop (Suc n) acc s =
     (if in_r s = in_w s
      then (if killed (myproc s) then Done (- 1) acc s else Sleep ChInput acc s)
      else
        let c = in_buf s (unat (in_r s) mod INPUT_BUF); s' = s\<lparr>in_r := in_r s + 1\<rparr> in
        if c = 4
        then Done (int (length acc)) acc (if acc \<noteq> [] then s'\<lparr>in_r := in_r s' - 1\<rparr> else s')
        else if c = 10 then Done (int (length acc) + 1) (acc @ [c]) s'
        else consoleread_loop n (acc @ [c]) s')"

definition consoleread :: "nat \<Rightarrow> int \<Rightarrow> 'a cons_scheme \<Rightarrow> (int \<times> u8 list \<times> 'a cons_scheme) res" where
  "consoleread ip n s =
     bindr (iunlock ip s) (\<lambda>s.
       case consoleread_loop (nat n) [] s of
         Sleep c acc s \<Rightarrow> Blocked c
       | Done r acc s \<Rightarrow> bindr (ilock ip s) (\<lambda>s. Ok (r, acc, s)))"

text \<open>The characters of \<open>buf\<close> are written as unsigned bytes.\<close>

definition consolewrite :: "nat \<Rightarrow> (nat \<Rightarrow> u8) \<Rightarrow> int \<Rightarrow> 'a cons_scheme \<Rightarrow> (int \<times> 'a cons_scheme) res" where
  "consolewrite ip buf n s =
     bindr (iunlock ip s) (\<lambda>s.
     bindr (foldr_res (\<lambda>i. consputc (uint (buf i))) [0..<nat n] s) (\<lambda>s.
     bindr (ilock ip s) (\<lambda>s. Ok (n, s))))"

definition consoleinit :: "'a cons_scheme \<Rightarrow> 'a cons_scheme" where
  "consoleinit s = s\<lparr>devsw := (devsw s)(CONSOLE := True)\<rparr>"

section \<open>The cursor stays on the screen\<close>

definition crt_ok :: "'a cons_scheme \<Rightarrow> bool" where
  "crt_ok s \<longleftrightarrow> crt_pos s < 24 * 80"

definition cga_pos :: "int \<Rightarrow> nat \<Rightarrow> nat" where
  "cga_pos c p = (if c = 10 then p + (80 - p mod 80)
     else if c = BACKSPACE then (if p > 0 then p - 1 else p) else p + 1)"

lemma cga_pos_le: "p < 1920 \<Longrightarrow> cga_pos c p \<le> 1920"
proof -
  assume p: "p < 1920"
  obtain q m where x: "p = 80 * q + m" "m = p mod 80" "m < 80"
    using mult_div_mod_eq [of 80 p] by (metis mod_less_divisor zero_less_numeral)
  then have "q < 24" using p by simp
  then have "80 * q + m + (80 - m) \<le> 1920" using x(3) by simp
  then have "p + (80 - p mod 80) \<le> 1920" by (metis x(1,2))
  moreover have "p - 1 \<le> 1920" "p + 1 \<le> 1920" "p \<le> 1920" using p by linarith+
  ultimately show ?thesis unfolding cga_pos_def by (simp only: split: if_split) simp
qed

lemma cgaputc_cases:
  "cgaputc c s =
     (let p = cga_pos c (crt_pos s);
          m = (if c = 10 \<or> c = BACKSPACE then crt s else (crt s)(crt_pos s := cga_cell c))
      in if p > 2000 then Panic ''pos under/overflow''
         else if p div 80 \<ge> 24 then Ok (s\<lparr>crt_pos := p - 80, crt := (scroll m (p - 80))(p - 80 := 0x0720)\<rparr>)
         else Ok (s\<lparr>crt_pos := p, crt := m(p := 0x0720)\<rparr>))"
  unfolding cgaputc_def cga_pos_def Let_def
  by (cases "c = 10"; cases "c = BACKSPACE") simp_all

lemma cgaputc_ok:
  assumes "crt_ok s"
  shows "\<exists>s'. cgaputc c s = Ok s' \<and> crt_ok s' \<and> (\<forall>i\<ge>24 * 80. crt s' i = crt s i)"
proof -
  define p where "p = cga_pos c (crt_pos s)"
  define m where "m = (if c = 10 \<or> c = BACKSPACE then crt s else (crt s)(crt_pos s := cga_cell c))"
  have "crt_pos s < 1920" using assms by (simp add: crt_ok_def)
  then have le: "p \<le> 1920" and m: "\<forall>i\<ge>1920. m i = crt s i"
    using cga_pos_le by (auto simp: p_def m_def)
  have run: "cgaputc c s = (if p > 2000 then Panic ''pos under/overflow''
         else if p div 80 \<ge> 24 then Ok (s\<lparr>crt_pos := p - 80, crt := (scroll m (p - 80))(p - 80 := 0x0720)\<rparr>)
         else Ok (s\<lparr>crt_pos := p, crt := m(p := 0x0720)\<rparr>))"
    unfolding cgaputc_cases p_def m_def by (simp only: Let_def)
  show ?thesis
  proof (cases "p div 80 \<ge> 24")
    case True
    then have "p = 1920" using le by linarith
    then show ?thesis using run m by (auto simp: crt_ok_def scroll_def)
  next
    case False
    then have "p < 1920" by linarith
    then show ?thesis using run m False by (auto simp: crt_ok_def)
  qed
qed

lemma consputc_ok:
  assumes "crt_ok s"
  shows "\<exists>s'. consputc c s = Ok s' \<and> crt_ok s'"
  using cgaputc_ok [of "uartputc c s" c] cgaputc_ok [of "uartputc 8 (uartputc 32 (uartputc 8 s))" c] assms
  by (auto simp: consputc_def crt_ok_def uartputc_def)

section \<open>The order of the input\<close>

definition typed :: "'a cons_scheme \<Rightarrow> u8 list" where
  "typed s = contents INPUT_BUF (in_buf s) (in_r s) (in_w s)"

lemma typed_get:
  "in_r s \<noteq> in_w s \<Longrightarrow> typed s = in_buf s (unat (in_r s) mod INPUT_BUF) # typed (s\<lparr>in_r := in_r s + 1\<rparr>)"
  by (simp add: typed_def contents_get)

text \<open>What the reader takes is a prefix of what was typed, a control-D apart.\<close>

lemma consoleread_loop_prefix:
  "consoleread_loop n acc s = Done r out s' \<Longrightarrow>
   \<exists>got. out = acc @ got \<and> length got \<le> n \<and> (\<forall>c\<in>set (butlast got). c \<noteq> 10) \<and> 4 \<notin> set got
     \<and> (typed s = got @ typed s' \<or> typed s = got @ 4 # typed s' \<and> out = [])
     \<and> (r = int (length out) \<or> r = - 1 \<and> typed s' = [])"
proof (induction n acc s rule: consoleread_loop.induct)
  case (1 acc s)
  then show ?case by auto
next
  case (2 n acc s)
  let ?c = "in_buf s (unat (in_r s) mod INPUT_BUF)" and ?s' = "s\<lparr>in_r := in_r s + 1\<rparr>"
  show ?case
  proof (cases "in_r s = in_w s")
    case True
    then show ?thesis using 2(2) by (auto simp: typed_def split: if_splits)
  next
    case ne: False
    note t = typed_get [OF ne]
    consider "?c = 4" | "?c = 10" | "?c \<noteq> 4" "?c \<noteq> 10" by blast
    then show ?thesis
    proof cases
      case 1
      then show ?thesis using 2(2) ne t by (auto simp: Let_def split: if_splits)
    next
      case 2
      then have "r = int (length acc) + 1" "out = acc @ [?c]" "s' = ?s'"
        using "2.prems" ne by (auto simp: Let_def)
      then show ?thesis using t 2 by (intro exI [of _ "[?c]"]) auto
    next
      case 3
      then have "consoleread_loop n (acc @ [?c]) ?s' = Done r out s'" using "2.prems" ne by (simp add: Let_def)
      then obtain got where g: "out = (acc @ [?c]) @ got" "length got \<le> n" "\<forall>c\<in>set (butlast got). c \<noteq> 10" "4 \<notin> set got"
        "typed ?s' = got @ typed s' \<or> typed ?s' = got @ 4 # typed s' \<and> out = []"
        "r = int (length out) \<or> r = - 1 \<and> typed s' = []"
        using "2.IH" [OF ne refl refl 3] by blast
      then show ?thesis using t 3 by (intro exI [of _ "?c # got"]) auto
    qed
  qed
qed

section \<open>Properties\<close>

text \<open>
  The screen is never overrun. Whatever characters are written, from a cursor on the screen
  \<open>consputc\<close> succeeds and leaves the cursor on the screen, and nothing is written behind the 24 lines.
\<close>

theorem screen_safe:
  assumes "crt_pos s < 24 * 80"
  shows "\<exists>s'. foldr_res consputc cs s = Ok s' \<and> crt_pos s' < 24 * 80"
  using assms
proof (induction cs arbitrary: s)
  case Nil
  then show ?case by simp
next
  case (Cons c cs)
  then obtain t where "consputc c s = Ok t" "crt_ok t" using consputc_ok [of s c] by (auto simp: crt_ok_def)
  then show ?case using Cons.IH [of t] by (simp add: crt_ok_def)
qed

text \<open>
  C40: A console read delivers the typed bytes in order. When the read loop returns, the bytes stored are
  a prefix of the finished input, in order, with a newline only at the end, at most as many as asked
  for; exactly these bytes are consumed, together with a control-D when it is the first byte.
\<close>

theorem consoleread_in_order:
  assumes "consoleread_loop n [] s = Done r out s'"
  shows "length out \<le> n \<and> (\<forall>c\<in>set (butlast out). c \<noteq> 10) \<and> 4 \<notin> set out
     \<and> (typed s = out @ typed s' \<or> typed s = 4 # typed s' \<and> out = [])
     \<and> (r = int (length out) \<or> r = - 1 \<and> typed s' = [])"
  using consoleread_loop_prefix [OF assms] by auto

definition zero_inode :: inode where
  "zero_inode = \<lparr>idev = 0, inum = 0, iref = 0, ilk = \<lparr>locked = False, lk_pid = 0\<rparr>, ivalid = False,
     itype = 0, major = 0, minor = 0, nlink = 0, isize = 0, addrs = (\<lambda>i. 0)\<rparr>"

definition icache0 :: icache where
  "icache0 = logfs.extend log0 (icache.fields (\<lambda>i. zero_inode))"

definition cons0 :: cons where
  "cons0 = icache.extend icache0 (cons.fields (\<lambda>i. 0) 0 0 0 (\<lambda>i. 0) 0 False [] (\<lambda>i. False))"

lemmas cons0_defs = cons0_def icache0_def log0_def bcache0_def kmem0_def kmem.defs bcache.defs
  logfs.defs icache.defs cons.defs

lemma screen_safe_witness:
  "\<exists>s'. foldr_res consputc (replicate 5000 10 @ [BACKSPACE, 65]) cons0 = Ok s' \<and> crt_pos s' < 24 * 80"
  using screen_safe [of cons0] by (simp add: cons0_defs)

lemma consoleread_in_order_witness:
  "\<exists>s'. consoleread_loop 5 [] (cons0\<lparr>in_buf := (\<lambda>i. if i = 2 then 10 else 97), in_w := 4\<rparr>) = Done 3 [97, 97, 10] s'
     \<and> typed s' = [97]"
proof -
  let ?s = "cons0\<lparr>in_buf := (\<lambda>i. if i = 2 then 10 else 97), in_w := 4\<rparr>"
  have t: "typed ?s = [97, 97, 10, 97]"
    by (simp add: typed_def contents_def cons0_defs INPUT_BUF_def upt_rec)
  have "\<exists>s'. consoleread_loop 5 [] ?s = Done 3 [97, 97, 10] s'"
  proof -
    have "(5 :: nat) = Suc (Suc (Suc (Suc (Suc 0))))" by simp
    then show ?thesis by (simp only:) (simp add: cons0_defs INPUT_BUF_def Let_def)
  qed
  then obtain s' where s': "consoleread_loop 5 [] ?s = Done 3 [97, 97, 10] s'" by blast
  from consoleread_in_order [OF this] t s' show ?thesis by auto
qed

end
