(* ===== verification/Fs.thy ===== *)
theory Fs
  imports Console
begin

text \<open>
  The upper half of \<open>fs.c\<close>: file contents, directories and path names. The bytes a read stores at its
  destination are returned as a list, the bytes of a write come from a byte function. A file name is
  a character array of \<open>DIRSIZ\<close> bytes (NUL-terminated when shorter), a path its characters up to the NUL.
  Lemmas: \<open>skipelem\<close> walks exactly the components of a path, and names of 14 bytes compare equal exactly
  when they agree up to the terminator.
\<close>

definition DIRSIZ :: nat where "DIRSIZ = 14"
definition SIZEOF_DIRENT :: nat where "SIZEOF_DIRENT = 16"

section \<open>File contents\<close>

text \<open>Is there a device function for this inode?\<close>

definition dev_ok :: "inode \<Rightarrow> 'a cons_scheme \<Rightarrow> bool" where
  "dev_ok ip s \<longleftrightarrow> \<not> (major ip <s 0 \<or> sint (major ip) \<ge> int NDEV \<or> \<not> devsw s (unat (major ip)))"

definition chunk :: "nat \<Rightarrow> u32 \<Rightarrow> nat" where
  "chunk left off = min left (BSIZE - unat off mod BSIZE)"

lemma chunk_pos: "left \<noteq> 0 \<Longrightarrow> left - chunk left off < left"
  by (simp add: chunk_def BSIZE_def)

function readi_loop :: "nat \<Rightarrow> nat \<Rightarrow> u32 \<Rightarrow> u8 list \<Rightarrow> 'a cons_scheme \<Rightarrow> (u8 list \<times> 'a cons_scheme) res" where
  "readi_loop i left off acc s =
     (if left = 0 then Ok (acc, s)
      else
        bindr (bmap i (off div of_nat BSIZE) s) (\<lambda>(addr, s).
        bindr (bread (idev (inodes s i)) addr s) (\<lambda>(bp, s).
          let m = chunk left off;
              got = map (\<lambda>k. data (bufs s bp) (unat off mod BSIZE + k)) [0..<m]
          in bindr (brelse bp s) (\<lambda>s. readi_loop i (left - m) (off + of_nat m) (acc @ got) s))))"
  by pat_completeness auto
termination
  by (relation "measure (\<lambda>(i, left, off, acc, s). left)") (auto intro: chunk_pos)

declare readi_loop.simps [simp del]

definition readi :: "nat \<Rightarrow> u32 \<Rightarrow> u32 \<Rightarrow> 'a cons_scheme \<Rightarrow> (int \<times> u8 list \<times> 'a cons_scheme) res" where
  "readi i off n s =
     (let ip = inodes s i in
      if itype ip = T_DEV
      then (if \<not> dev_ok ip s then Ok (- 1, [], s) else consoleread i (sint n) s)
      else if off > isize ip \<or> off + n < off then Ok (- 1, [], s)
      else
        let n = (if off + n > isize ip then isize ip - off else n)
        in bindr (readi_loop i (unat n) off [] s) (\<lambda>(got, s). Ok (sint n, got, s)))"

function writei_loop :: "nat \<Rightarrow> (nat \<Rightarrow> u8) \<Rightarrow> nat \<Rightarrow> nat \<Rightarrow> u32 \<Rightarrow> 'a cons_scheme \<Rightarrow> (u32 \<times> 'a cons_scheme) res" where
  "writei_loop i src tot left off s =
     (if left = 0 then Ok (off, s)
      else
        bindr (bmap i (off div of_nat BSIZE) s) (\<lambda>(addr, s).
        bindr (bread (idev (inodes s i)) addr s) (\<lambda>(bp, s).
          let m = chunk left off;
              k = unat off mod BSIZE;
              s = set_data bp (\<lambda>j. if k \<le> j \<and> j < k + m then src (tot + (j - k)) else data (bufs s bp) j) s
          in bindr (log_write bp s) (\<lambda>s.
             bindr (brelse bp s) (\<lambda>s.
             writei_loop i src (tot + m) (left - m) (off + of_nat m) s)))))"
  by pat_completeness auto
termination
  by (relation "measure (\<lambda>(i, src, tot, left, off, s). left)") (auto intro: chunk_pos)

declare writei_loop.simps [simp del]

definition writei :: "nat \<Rightarrow> (nat \<Rightarrow> u8) \<Rightarrow> u32 \<Rightarrow> u32 \<Rightarrow> 'a cons_scheme \<Rightarrow> (int \<times> 'a cons_scheme) res" where
  "writei i src off n s =
     (let ip = inodes s i in
      if itype ip = T_DEV
      then (if \<not> dev_ok ip s then Ok (- 1, s) else consolewrite i src (sint n) s)
      else if off > isize ip \<or> off + n < off then Ok (- 1, s)
      else if off + n > of_nat (MAXFILE * BSIZE) then Ok (- 1, s)
      else
        bindr (writei_loop i src 0 (unat n) off s) (\<lambda>(off, s).
        bindr (if n > 0 \<and> off > isize (inodes s i)
               then iupdate i (upd_inode i (\<lambda>ip. ip\<lparr>isize := off\<rparr>) s)
               else Ok s)
          (\<lambda>s. Ok (sint n, s))))"

section \<open>Directories\<close>

text \<open>\<open>strncmp\<close> and \<open>strncpy\<close> on character arrays, from index \<open>k\<close>.\<close>

fun arr_strncmp :: "(nat \<Rightarrow> u8) \<Rightarrow> (nat \<Rightarrow> u8) \<Rightarrow> nat \<Rightarrow> nat \<Rightarrow> int" where
  "arr_strncmp p q k 0 = 0"
| "arr_strncmp p q k (Suc n) =
     (if p k \<noteq> 0 \<and> p k = q k then arr_strncmp p q (Suc k) n else uint (p k) - uint (q k))"

definition namecmp :: "(nat \<Rightarrow> u8) \<Rightarrow> (nat \<Rightarrow> u8) \<Rightarrow> int" where
  "namecmp s t = arr_strncmp s t 0 DIRSIZ"

text \<open>The bytes \<open>strncpy(d, t, n)\<close> leaves at the destination: padded with NULs after the first one.\<close>

fun arr_strncpy :: "(nat \<Rightarrow> u8) \<Rightarrow> nat \<Rightarrow> nat \<Rightarrow> u8 list" where
  "arr_strncpy t k 0 = []"
| "arr_strncpy t k (Suc n) = (if t k = 0 then replicate (Suc n) 0 else t k # arr_strncpy t (Suc k) n)"

definition de_inum :: "u8 list \<Rightarrow> u16" where
  "de_inum de = rd16 (\<lambda>i. de ! i) (0 :: nat)"

definition de_name :: "u8 list \<Rightarrow> nat \<Rightarrow> u8" where
  "de_name de i = de ! (i + 2)"

definition mk_dirent :: "u16 \<Rightarrow> u8 list \<Rightarrow> nat \<Rightarrow> u8" where
  "mk_dirent n name i = wr16 (\<lambda>i. name ! (i - 2)) (0 :: nat) n i"

definition dir_offsets :: "u32 \<Rightarrow> nat list" where
  "dir_offsets fsz = map (\<lambda>k. k * SIZEOF_DIRENT) [0..<(unat fsz + SIZEOF_DIRENT - 1) div SIZEOF_DIRENT]"

text \<open>The result of \<open>dirlookup\<close> is the inode and the byte offset stored through \<open>poff\<close>.\<close>

fun dirlookup_loop ::
    "nat \<Rightarrow> (nat \<Rightarrow> u8) \<Rightarrow> nat list \<Rightarrow> 'a cons_scheme \<Rightarrow> ((nat \<times> u32) option \<times> 'a cons_scheme) res" where
  "dirlookup_loop dp name [] s = Ok (None, s)"
| "dirlookup_loop dp name (off # offs) s =
     bindr (readi dp (of_nat off) (of_nat SIZEOF_DIRENT) s) (\<lambda>(r, de, s).
       if r \<noteq> int SIZEOF_DIRENT then Panic ''dirlookup read''
       else if de_inum de = 0 then dirlookup_loop dp name offs s
       else if namecmp name (de_name de) = 0
       then bindr (iget (idev (inodes s dp)) (ucast (de_inum de)) s) (\<lambda>(ip, s). Ok (Some (ip, of_nat off), s))
       else dirlookup_loop dp name offs s)"

definition dirlookup :: "nat \<Rightarrow> (nat \<Rightarrow> u8) \<Rightarrow> 'a cons_scheme \<Rightarrow> ((nat \<times> u32) option \<times> 'a cons_scheme) res" where
  "dirlookup dp name s =
     (if itype (inodes s dp) \<noteq> T_DIR then Panic ''dirlookup not DIR''
      else dirlookup_loop dp name (dir_offsets (isize (inodes s dp))) s)"

text \<open>The offset of the first empty entry, or the offset after the last one.\<close>

fun dir_empty_slot :: "nat \<Rightarrow> nat list \<Rightarrow> u32 \<Rightarrow> 'a cons_scheme \<Rightarrow> (u32 \<times> 'a cons_scheme) res" where
  "dir_empty_slot dp [] end_off s = Ok (end_off, s)"
| "dir_empty_slot dp (off # offs) end_off s =
     bindr (readi dp (of_nat off) (of_nat SIZEOF_DIRENT) s) (\<lambda>(r, de, s).
       if r \<noteq> int SIZEOF_DIRENT then Panic ''dirlink read''
       else if de_inum de = 0 then Ok (of_nat off, s)
       else dir_empty_slot dp offs (of_nat (off + SIZEOF_DIRENT)) s)"

definition dirlink :: "nat \<Rightarrow> (nat \<Rightarrow> u8) \<Rightarrow> u32 \<Rightarrow> 'a cons_scheme \<Rightarrow> (int \<times> 'a cons_scheme) res" where
  "dirlink dp name n s =
     bindr (dirlookup dp name s) (\<lambda>(r, s).
       case r of
         Some (ip, off) \<Rightarrow> bindr (iput ip s) (\<lambda>s. Ok (- 1, s))
       | None \<Rightarrow>
           bindr (dir_empty_slot dp (dir_offsets (isize (inodes s dp))) 0 s) (\<lambda>(off, s).
           bindr (writei dp (mk_dirent (ucast n) (arr_strncpy name 0 DIRSIZ)) off (of_nat SIZEOF_DIRENT) s) (\<lambda>(r, s).
             if r \<noteq> int SIZEOF_DIRENT then Panic ''dirlink'' else Ok (0, s))))"

section \<open>Paths\<close>

text \<open>\<open>skipelem\<close> returns the rest of the path and the name buffer; \<open>'/' = 47\<close>.\<close>

definition skipelem :: "u8 list \<Rightarrow> (nat \<Rightarrow> u8) \<Rightarrow> (u8 list \<times> (nat \<Rightarrow> u8)) option" where
  "skipelem path name =
     (let path = dropWhile (\<lambda>c. c = 47) path in
      if path = [] then None
      else
        let s = takeWhile (\<lambda>c. c \<noteq> 47) path; path = dropWhile (\<lambda>c. c \<noteq> 47) path; len = length s;
            name = (if len \<ge> DIRSIZ then (\<lambda>i. if i < DIRSIZ then s ! i else name i)
                    else (\<lambda>i. if i < len then s ! i else if i = len then 0 else name i))
        in Some (dropWhile (\<lambda>c. c = 47) path, name))"

lemma skipelem_shorter:
  assumes "skipelem path name = Some (path', name')"
  shows "length path' < length path"
proof -
  let ?p = "dropWhile (\<lambda>c. c = 47) path"
  have ne: "?p \<noteq> []" and p': "path' = dropWhile (\<lambda>c. c = 47) (dropWhile (\<lambda>c. c \<noteq> 47) ?p)"
    using assms by (auto simp: skipelem_def Let_def split: if_splits)
  have "hd ?p \<noteq> 47" using hd_dropWhile [OF ne] by simp
  then have "dropWhile (\<lambda>c. c \<noteq> 47) ?p = dropWhile (\<lambda>c. c \<noteq> 47) (tl ?p)" using ne by (cases ?p) auto
  then have "length (dropWhile (\<lambda>c. c \<noteq> 47) ?p) \<le> length (tl ?p)" by (metis length_dropWhile_le)
  then have "length path' \<le> length (tl ?p)" using p' by (metis le_trans length_dropWhile_le)
  also have "\<dots> < length ?p" using ne by simp
  also have "\<dots> \<le> length path" by (rule length_dropWhile_le)
  finally show ?thesis .
qed

text \<open>
  The loop of \<open>namex\<close> from inode \<open>ip\<close>; the result is the inode, if any, and the name buffer.
\<close>

function namex_loop ::
    "bool \<Rightarrow> nat \<Rightarrow> u8 list \<Rightarrow> (nat \<Rightarrow> u8) \<Rightarrow> 'a cons_scheme \<Rightarrow> (nat option \<times> (nat \<Rightarrow> u8) \<times> 'a cons_scheme) res" where
  "namex_loop par ip path name s =
     (case skipelem path name of
        None \<Rightarrow>
          if par then bindr (iput ip s) (\<lambda>s. Ok (None, name, s)) else Ok (Some ip, name, s)
      | Some (path', name') \<Rightarrow>
          bindr (ilock ip s) (\<lambda>s.
          if itype (inodes s ip) \<noteq> T_DIR then bindr (iunlockput ip s) (\<lambda>s. Ok (None, name', s))
          else if par \<and> path' = [] then bindr (iunlock ip s) (\<lambda>s. Ok (Some ip, name', s))
          else
            bindr (dirlookup ip name' s) (\<lambda>(r, s).
              case r of
                None \<Rightarrow> bindr (iunlockput ip s) (\<lambda>s. Ok (None, name', s))
              | Some (nxt, off) \<Rightarrow>
                  bindr (iunlockput ip s) (\<lambda>s. namex_loop par nxt path' name' s))))"
  by pat_completeness auto
termination
  by (relation "measure (\<lambda>(par, ip, path, name, s). length path)") (auto dest: skipelem_shorter)

declare namex_loop.simps [simp del]

text \<open>A process without a current directory would be dereferenced as a null pointer.\<close>

definition namex :: "u8 list \<Rightarrow> bool \<Rightarrow> (nat \<Rightarrow> u8) \<Rightarrow> 'a cons_scheme \<Rightarrow> (nat option \<times> (nat \<Rightarrow> u8) \<times> 'a cons_scheme) res" where
  "namex path par name s =
     (if path \<noteq> [] \<and> hd path = 47
      then bindr (iget ROOTDEV ROOTINO s) (\<lambda>(ip, s). namex_loop par ip path name s)
      else
        case cwd (myproc s) of
          None \<Rightarrow> NullDeref
        | Some ip \<Rightarrow> namex_loop par ip path name (idup ip s))"

definition namei :: "u8 list \<Rightarrow> 'a cons_scheme \<Rightarrow> (nat option \<times> 'a cons_scheme) res" where
  "namei path s = bindr (namex path False (\<lambda>i. 0) s) (\<lambda>(ip, name, s). Ok (ip, s))"

definition nameiparent :: "u8 list \<Rightarrow> (nat \<Rightarrow> u8) \<Rightarrow> 'a cons_scheme \<Rightarrow> (nat option \<times> (nat \<Rightarrow> u8) \<times> 'a cons_scheme) res" where
  "nameiparent path name s = namex path True name s"

section \<open>Names\<close>

text \<open>The string in a name buffer.\<close>

definition arr_str :: "(nat \<Rightarrow> u8) \<Rightarrow> u8 list" where
  "arr_str a = takeWhile (\<lambda>c. c \<noteq> 0) (map a [0..<DIRSIZ])"

lemma arr_strncmp_eq:
  "arr_strncmp p q k n = 0 \<longleftrightarrow>
     takeWhile (\<lambda>c. c \<noteq> 0) (map p [k..<k + n]) = takeWhile (\<lambda>c. c \<noteq> 0) (map q [k..<k + n])"
proof (induction n arbitrary: k)
  case 0
  then show ?case by simp
next
  case (Suc n)
  have u: "[k..<k + Suc n] = k # [Suc k..<Suc k + n]" by (simp add: upt_conv_Cons)
  have "p k = q k \<longleftrightarrow> uint (p k) = uint (q k)" by (simp add: word_uint_eq_iff)
  then show ?case using Suc.IH [of "Suc k"] unfolding u by auto
qed

lemma namecmp_eq: "namecmp a b = 0 \<longleftrightarrow> arr_str a = arr_str b"
  using arr_strncmp_eq [of a b 0 DIRSIZ] by (simp add: namecmp_def arr_str_def)

lemma skipelem_name:
  assumes s: "skipelem path name = Some (path', name')" and z: "0 \<notin> set path"
  shows "arr_str name' = take DIRSIZ (takeWhile (\<lambda>c. c \<noteq> 47) (dropWhile (\<lambda>c. c = 47) path))"
proof -
  let ?e = "takeWhile (\<lambda>c. c \<noteq> 47) (dropWhile (\<lambda>c. c = 47) path)"
  have ze: "0 \<notin> set ?e" using z by (auto dest: set_takeWhileD set_dropWhileD)
  have n: "name' = (if length ?e \<ge> DIRSIZ then (\<lambda>i. if i < DIRSIZ then ?e ! i else name i)
                    else (\<lambda>i. if i < length ?e then ?e ! i else if i = length ?e then 0 else name i))"
    using s by (simp add: skipelem_def Let_def split: if_splits)
  show ?thesis
  proof (cases "length ?e \<ge> DIRSIZ")
    case True
    then have "map name' [0..<DIRSIZ] = take DIRSIZ ?e"
      unfolding n by (intro nth_equalityI) auto
    moreover have "\<forall>c\<in>set (take DIRSIZ ?e). c \<noteq> 0" using ze by (metis in_set_takeD)
    ultimately show ?thesis by (simp add: arr_str_def takeWhile_eq_all_conv [THEN iffD2])
  next
    case False
    let ?l = "length ?e"
    have "[0..<DIRSIZ] = [0..<?l] @ ?l # [Suc ?l..<DIRSIZ]"
      using False upt_add_eq_append [of 0 ?l "DIRSIZ - ?l"] by (simp add: upt_conv_Cons)
    moreover have "map name' [0..<?l] = ?e" unfolding n using False by (intro nth_equalityI) auto
    moreover have "name' ?l = 0" unfolding n using False by simp
    ultimately have "map name' [0..<DIRSIZ] = ?e @ 0 # map name' [Suc ?l..<DIRSIZ]" by simp
    moreover have "\<forall>c\<in>set ?e. c \<noteq> 0" using ze by metis
    moreover have "\<forall>c\<in>set e. c \<noteq> 0 \<Longrightarrow> takeWhile (\<lambda>c. c \<noteq> 0) (e @ 0 # r) = e" for e r :: "u8 list"
      by (simp add: takeWhile_append2)
    ultimately have "arr_str name' = ?e" unfolding arr_str_def by metis
    then show ?thesis using False by simp
  qed
qed

section \<open>The components of a path\<close>

text \<open>The names that repeated \<open>skipelem\<close> delivers, as \<open>namex\<close> calls it.\<close>

function path_names :: "u8 list \<Rightarrow> (nat \<Rightarrow> u8) \<Rightarrow> u8 list list" where
  "path_names path name =
     (case skipelem path name of None \<Rightarrow> [] | Some (path', name') \<Rightarrow> arr_str name' # path_names path' name')"
  by pat_completeness auto
termination
  by (relation "measure (\<lambda>(path, name). length path)") (auto dest: skipelem_shorter)

declare path_names.simps [simp del]

text \<open>The reference: cut the path at its slashes, drop the empty pieces.\<close>

fun split_path :: "u8 list \<Rightarrow> u8 list list" where
  "split_path [] = [[]]"
| "split_path (c # cs) =
     (if c = 47 then [] # split_path cs
      else case split_path cs of [] \<Rightarrow> [[c]] | w # ws \<Rightarrow> (c # w) # ws)"

definition components :: "u8 list \<Rightarrow> u8 list list" where
  "components path = map (take DIRSIZ) (filter (\<lambda>w. w \<noteq> []) (split_path path))"

lemma split_path_takeWhile:
  "split_path cs = takeWhile (\<lambda>c. c \<noteq> 47) cs #
     (case dropWhile (\<lambda>c. c \<noteq> 47) cs of [] \<Rightarrow> [] | d # ds \<Rightarrow> split_path ds)"
  by (induction cs) auto

lemma components_slash: "components (47 # cs) = components cs"
  by (simp add: components_def)

lemma components_dropWhile: "components (dropWhile (\<lambda>c. c = 47) cs) = components cs"
  by (induction cs) (auto simp: components_slash)

lemma components_elem:
  assumes "cs \<noteq> []" "hd cs \<noteq> 47"
  shows "components cs = take DIRSIZ (takeWhile (\<lambda>c. c \<noteq> 47) cs) # components (dropWhile (\<lambda>c. c \<noteq> 47) cs)"
proof -
  have ne: "takeWhile (\<lambda>c. c \<noteq> 47) cs \<noteq> []" using assms by (cases cs) auto
  show ?thesis
  proof (cases "dropWhile (\<lambda>c. c \<noteq> 47) cs")
    case Nil
    have "split_path cs = [takeWhile (\<lambda>c. c \<noteq> 47) cs]" unfolding split_path_takeWhile [of cs] Nil by simp
    moreover have "components (dropWhile (\<lambda>c. c \<noteq> 47) cs) = []" unfolding Nil by (simp add: components_def)
    ultimately show ?thesis using ne by (simp add: components_def)
  next
    case (Cons d ds)
    then have "d = 47" using hd_dropWhile [of "\<lambda>c. c \<noteq> 47" cs] by auto
    then have "components (dropWhile (\<lambda>c. c \<noteq> 47) cs) = components ds" using Cons components_slash by simp
    then show ?thesis using ne split_path_takeWhile [of cs] Cons by (simp add: components_def)
  qed
qed

lemma path_names_components: "0 \<notin> set path \<Longrightarrow> path_names path name = components path"
proof (induction path name rule: path_names.induct)
  case (1 path name)
  let ?p = "dropWhile (\<lambda>c. c = 47) path"
  show ?case
  proof (cases "?p = []")
    case True
    then have "components path = components []" by (metis components_dropWhile)
    then show ?thesis using True by (subst path_names.simps) (simp add: skipelem_def components_def)
  next
    case False
    then obtain path' name' where s: "skipelem path name = Some (path', name')"
      and p': "path' = dropWhile (\<lambda>c. c = 47) (dropWhile (\<lambda>c. c \<noteq> 47) ?p)"
      by (simp add: skipelem_def Let_def)
    have "0 \<notin> set path'" using "1.prems" unfolding p' by (auto dest: set_dropWhileD)
    then have "path_names path' name' = components path'" using "1.IH" [OF s refl] by simp
    also have "\<dots> = components (dropWhile (\<lambda>c. c \<noteq> 47) ?p)" unfolding p' by (rule components_dropWhile)
    finally have "path_names path name = take DIRSIZ (takeWhile (\<lambda>c. c \<noteq> 47) ?p) # components (dropWhile (\<lambda>c. c \<noteq> 47) ?p)"
      using s skipelem_name [OF s "1.prems"] by (subst path_names.simps) simp
    also have "\<dots> = components ?p"
      using components_elem [OF False] hd_dropWhile [OF False] by simp
    finally show ?thesis by (simp add: components_dropWhile)
  qed
qed

section \<open>Properties\<close>

text \<open>
  Path parsing is right. Repeating \<open>skipelem\<close>, as \<open>namex\<close> does, yields exactly the non-empty
  pieces between the slashes of the path, in order, each cut to \<open>DIRSIZ\<close> characters.
\<close>

theorem skipelem_components:
  assumes "0 \<notin> set path"
  shows "path_names path name = components path"
  using assms by (rule path_names_components)

text \<open>\<open>///a//bb/\<close>\<close>

lemma skipelem_components_witness:
  "path_names [47, 47, 47, 97, 47, 47, 98, 98, 47] (\<lambda>i. 0) = [[97], [98, 98]]"
  using skipelem_components [of "[47, 47, 47, 97, 47, 47, 98, 98, 47]" "\<lambda>i. 0"]
  by (simp add: components_def DIRSIZ_def)

end
