(* ===== verification/File.thy ===== *)
theory File
  imports Fs
begin

text \<open>
  \<open>file.c\<close> and \<open>pipe.c\<close>: the table of open files and the pipes. A file pointer is an index into the
  table; a pipe is known by the address of the page \<open>kalloc\<close> gave it. The bytes a read stores at the
  user's address are returned as a list, the bytes of a write come from a byte function.
  Lemmas: a pipe is a queue of at most 512 bytes, whatever its counters (interpretation of \<open>fifo\<close>),
  and reference counts of the file table follow the calls.
\<close>

section \<open>State\<close>

definition NFILE :: nat where "NFILE = 100"
definition PIPESIZE :: nat where "PIPESIZE = 512"

datatype ftype = FD_NONE | FD_PIPE | FD_INODE

record struct_file =
  ftype :: ftype
  fref :: int
  readable :: u8
  writable :: u8
  fpipe :: u32
  fip :: nat
  foff :: u32

record pipe =
  pdata :: "nat \<Rightarrow> u8"
  nread :: u32
  nwrite :: u32
  readopen :: bool
  writeopen :: bool

record ftab = cons +
  files :: "nat \<Rightarrow> struct_file"
  pipes :: "u32 \<Rightarrow> pipe"

definition upd_file :: "nat \<Rightarrow> (struct_file \<Rightarrow> struct_file) \<Rightarrow> 'a ftab_scheme \<Rightarrow> 'a ftab_scheme" where
  "upd_file i f s = s\<lparr>files := (files s)(i := f (files s i))\<rparr>"

definition upd_pipe :: "u32 \<Rightarrow> (pipe \<Rightarrow> pipe) \<Rightarrow> 'a ftab_scheme \<Rightarrow> 'a ftab_scheme" where
  "upd_pipe p f s = s\<lparr>pipes := (pipes s)(p := f (pipes s p))\<rparr>"

section \<open>The file table\<close>

definition filealloc :: "'a ftab_scheme \<Rightarrow> nat option \<times> 'a ftab_scheme" where
  "filealloc s =
     (case List.find (\<lambda>i. fref (files s i) = 0) [0..<NFILE] of
        Some i \<Rightarrow> (Some i, upd_file i (\<lambda>f. f\<lparr>fref := 1\<rparr>) s)
      | None \<Rightarrow> (None, s))"

definition filedup :: "nat \<Rightarrow> 'a ftab_scheme \<Rightarrow> 'a ftab_scheme res" where
  "filedup i s =
     (if fref (files s i) < 1 then Panic ''filedup''
      else Ok (upd_file i (\<lambda>f. f\<lparr>fref := fref f + 1\<rparr>) s))"

section \<open>Pipes\<close>

definition pipeclose :: "u32 \<Rightarrow> bool \<Rightarrow> 'a ftab_scheme \<Rightarrow> 'a ftab_scheme res" where
  "pipeclose p w s =
     (let s = (if w then wakeup (ChPipeR (unat p)) (upd_pipe p (\<lambda>q. q\<lparr>writeopen := False\<rparr>) s)
               else wakeup (ChPipeW (unat p)) (upd_pipe p (\<lambda>q. q\<lparr>readopen := False\<rparr>) s))
      in if \<not> readopen (pipes s p) \<and> \<not> writeopen (pipes s p) then kfree p s else Ok s)"

definition fileclose :: "nat \<Rightarrow> 'a ftab_scheme \<Rightarrow> 'a ftab_scheme res" where
  "fileclose i s =
     (if fref (files s i) < 1 then Panic ''fileclose''
      else
        let s = upd_file i (\<lambda>f. f\<lparr>fref := fref f - 1\<rparr>) s in
        if fref (files s i) > 0 then Ok s
        else
          let ff = files s i;
              s = upd_file i (\<lambda>f. f\<lparr>fref := 0, ftype := FD_NONE\<rparr>) s
          in case ftype ff of
               FD_PIPE \<Rightarrow> pipeclose (fpipe ff) (writable ff \<noteq> 0) s
             | FD_INODE \<Rightarrow> bindr (begin_op s) (\<lambda>s. bindr (iput (fip ff) s) end_op)
             | FD_NONE \<Rightarrow> Ok s)"

definition new_pipe :: "pipe \<Rightarrow> pipe" where
  "new_pipe q = q\<lparr>readopen := True, writeopen := True, nwrite := 0, nread := 0\<rparr>"

definition pipealloc :: "'a ftab_scheme \<Rightarrow> ((nat \<times> nat) option \<times> 'a ftab_scheme) res" where
  "pipealloc s =
     (case filealloc s of
        (None, s) \<Rightarrow> Ok (None, s)
      | (Some f0, s) \<Rightarrow>
          (case filealloc s of
             (None, s) \<Rightarrow> bindr (fileclose f0 s) (\<lambda>s. Ok (None, s))
           | (Some f1, s) \<Rightarrow>
               let (p, s) = kalloc s in
               if p = 0 then bindr (fileclose f0 s) (\<lambda>s. bindr (fileclose f1 s) (\<lambda>s. Ok (None, s)))
               else
                 let s = upd_pipe p new_pipe s;
                     s = upd_file f0 (\<lambda>f. f\<lparr>ftype := FD_PIPE, readable := 1, writable := 0, fpipe := p\<rparr>) s;
                     s = upd_file f1 (\<lambda>f. f\<lparr>ftype := FD_PIPE, readable := 0, writable := 1, fpipe := p\<rparr>) s
                 in Ok (Some (f0, f1), s)))"

text \<open>One byte into the ring, one byte out of it.\<close>

definition pipe_put :: "u8 \<Rightarrow> pipe \<Rightarrow> pipe option" where
  "pipe_put c q =
     (if nwrite q = nread q + of_nat PIPESIZE then None
      else Some (q\<lparr>pdata := (pdata q)(unat (nwrite q) mod PIPESIZE := c), nwrite := nwrite q + 1\<rparr>))"

definition pipe_get :: "pipe \<Rightarrow> (u8 \<times> pipe) option" where
  "pipe_get q =
     (if nread q = nwrite q then None
      else Some (pdata q (unat (nread q) mod PIPESIZE), q\<lparr>nread := nread q + 1\<rparr>))"

text \<open>\<open>acc\<close> is what has been written; the loop sleeps when the pipe is full.\<close>

fun pipewrite_loop :: "u32 \<Rightarrow> u8 list \<Rightarrow> u8 list \<Rightarrow> 'a ftab_scheme \<Rightarrow> 'a ftab_scheme loop_out" where
  "pipewrite_loop p [] acc s = Done (int (length acc)) acc (wakeup (ChPipeR (unat p)) s)"
| "pipewrite_loop p (c # cs) acc s =
     (case pipe_put c (pipes s p) of
        None \<Rightarrow>
          if \<not> readopen (pipes s p) \<or> killed (myproc s) then Done (- 1) acc s
          else Sleep (ChPipeW (unat p)) acc (wakeup (ChPipeR (unat p)) s)
      | Some q \<Rightarrow> pipewrite_loop p cs (acc @ [c]) (upd_pipe p (\<lambda>_. q) s))"

definition pipewrite :: "u32 \<Rightarrow> (nat \<Rightarrow> u8) \<Rightarrow> int \<Rightarrow> 'a ftab_scheme \<Rightarrow> (int \<times> 'a ftab_scheme) res" where
  "pipewrite p addr n s =
     (case pipewrite_loop p (map addr [0..<nat n]) [] s of
        Done r acc s \<Rightarrow> Ok (if r < 0 then r else n, s)
      | Sleep c acc s \<Rightarrow> Blocked c)"

fun piperead_loop :: "u32 \<Rightarrow> nat \<Rightarrow> u8 list \<Rightarrow> 'a ftab_scheme \<Rightarrow> u8 list \<times> 'a ftab_scheme" where
  "piperead_loop p 0 acc s = (acc, s)"
| "piperead_loop p (Suc n) acc s =
     (case pipe_get (pipes s p) of
        None \<Rightarrow> (acc, s)
      | Some (c, q) \<Rightarrow> piperead_loop p n (acc @ [c]) (upd_pipe p (\<lambda>_. q) s))"

definition piperead :: "u32 \<Rightarrow> int \<Rightarrow> 'a ftab_scheme \<Rightarrow> (int \<times> u8 list \<times> 'a ftab_scheme) res" where
  "piperead p n s =
     (if nread (pipes s p) = nwrite (pipes s p) \<and> writeopen (pipes s p)
      then (if killed (myproc s) then Ok (- 1, [], s) else Blocked (ChPipeR (unat p)))
      else
        let (acc, s) = piperead_loop p (nat n) [] s
        in Ok (int (length acc), acc, wakeup (ChPipeW (unat p)) s))"

section \<open>Operations on files\<close>

definition filestat :: "nat \<Rightarrow> 'a ftab_scheme \<Rightarrow> (stat option \<times> 'a ftab_scheme) res" where
  "filestat i s =
     (if ftype (files s i) = FD_INODE
      then bindr (ilock (fip (files s i)) s) (\<lambda>s.
             let st = stati (fip (files s i)) s in
             bindr (iunlock (fip (files s i)) s) (\<lambda>s. Ok (Some st, s)))
      else Ok (None, s))"

definition fileread :: "nat \<Rightarrow> int \<Rightarrow> 'a ftab_scheme \<Rightarrow> (int \<times> u8 list \<times> 'a ftab_scheme) res" where
  "fileread i n s =
     (let f = files s i in
      if readable f = 0 then Ok (- 1, [], s)
      else case ftype f of
        FD_PIPE \<Rightarrow> piperead (fpipe f) n s
      | FD_INODE \<Rightarrow>
          bindr (ilock (fip f) s) (\<lambda>s.
          bindr (readi (fip f) (foff (files s i)) (of_int n) s) (\<lambda>(r, got, s).
            let s = (if r > 0 then upd_file i (\<lambda>f. f\<lparr>foff := foff f + of_int r\<rparr>) s else s) in
            bindr (iunlock (fip f) s) (\<lambda>s. Ok (r, got, s))))
      | FD_NONE \<Rightarrow> Panic ''fileread'')"

definition filewrite_max :: nat where
  "filewrite_max = nat ((MAXOPBLOCKS - 1 - 1 - 2) div 2) * 512"

text \<open>The loop over pieces that fit one transaction; \<open>k\<close> bytes are written, \<open>left\<close> are to come.\<close>

function filewrite_loop :: "nat \<Rightarrow> (nat \<Rightarrow> u8) \<Rightarrow> nat \<Rightarrow> nat \<Rightarrow> 'a ftab_scheme \<Rightarrow> (bool \<times> 'a ftab_scheme) res" where
  "filewrite_loop i addr k left s =
     (if left = 0 then Ok (True, s)
      else
        let n1 = min left filewrite_max in
        bindr (begin_op s) (\<lambda>s.
        bindr (ilock (fip (files s i)) s) (\<lambda>s.
        bindr (writei (fip (files s i)) (\<lambda>j. addr (k + j)) (foff (files s i)) (of_nat n1) s) (\<lambda>(r, s).
          let s = (if r > 0 then upd_file i (\<lambda>f. f\<lparr>foff := foff f + of_int r\<rparr>) s else s) in
          bindr (iunlock (fip (files s i)) s) (\<lambda>s.
          bindr (end_op s) (\<lambda>s.
            if r < 0 then Ok (False, s)
            else if r \<noteq> int n1 then Panic ''short filewrite''
            else filewrite_loop i addr (k + n1) (left - n1) s))))))"
  by pat_completeness auto
termination
  by (relation "measure (\<lambda>(i, addr, k, left, s). left)") (auto simp: filewrite_max_def MAXOPBLOCKS_def)

declare filewrite_loop.simps [simp del]

definition filewrite :: "nat \<Rightarrow> (nat \<Rightarrow> u8) \<Rightarrow> int \<Rightarrow> 'a ftab_scheme \<Rightarrow> (int \<times> 'a ftab_scheme) res" where
  "filewrite i addr n s =
     (let f = files s i in
      if writable f = 0 then Ok (- 1, s)
      else case ftype f of
        FD_PIPE \<Rightarrow> pipewrite (fpipe f) addr n s
      | FD_INODE \<Rightarrow>
          bindr (filewrite_loop i addr 0 (nat n) s) (\<lambda>(ok, s). Ok (if ok \<and> n \<ge> 0 then n else - 1, s))
      | FD_NONE \<Rightarrow> Panic ''filewrite'')"

section \<open>A pipe is a queue\<close>

definition pipe_queue :: "pipe \<Rightarrow> u8 list" where
  "pipe_queue q = contents PIPESIZE (pdata q) (nread q) (nwrite q)"

definition pipe_ok :: "pipe \<Rightarrow> bool" where
  "pipe_ok q \<longleftrightarrow> unat (nwrite q - nread q) \<le> PIPESIZE"

lemma PIPESIZE_facts: "PIPESIZE dvd 2 ^ 32" "PIPESIZE < 2 ^ 32" "0 < PIPESIZE"
  by (simp_all add: PIPESIZE_def)

lemma pipe_full: "pipe_ok q \<Longrightarrow> pipe_put c q = None \<longleftrightarrow> length (pipe_queue q) \<ge> PIPESIZE"
proof -
  assume ok: "pipe_ok q"
  have "nwrite q = nread q + of_nat PIPESIZE \<longleftrightarrow> nwrite q - nread q = of_nat PIPESIZE"
    by (auto simp: algebra_simps)
  also have "\<dots> \<longleftrightarrow> unat (nwrite q - nread q) = PIPESIZE"
    using unat_of_nat_u32 [OF PIPESIZE_facts(2)] by (metis word_unat_eq_iff)
  also have "\<dots> \<longleftrightarrow> PIPESIZE \<le> unat (nwrite q - nread q)" using ok by (auto simp: pipe_ok_def)
  finally show ?thesis by (simp add: pipe_put_def pipe_queue_def)
qed

interpretation pq: fifo pipe_put pipe_get pipe_queue pipe_ok PIPESIZE
proof unfold_locales
  fix s t :: pipe and c
  show "pipe_ok s \<Longrightarrow> pipe_put c s = None \<longleftrightarrow> length (pipe_queue s) \<ge> PIPESIZE" by (rule pipe_full)
  show "pipe_ok s \<Longrightarrow> pipe_get s = None \<longleftrightarrow> pipe_queue s = []"
    by (auto simp: pipe_get_def pipe_queue_def contents_def unat_eq_0)
  show "pipe_ok s \<Longrightarrow> pipe_put c s = Some t \<Longrightarrow> pipe_ok t \<and> pipe_queue t = pipe_queue s @ [c]"
  proof -
    assume ok: "pipe_ok s" and put: "pipe_put c s = Some t"
    then have "\<not> PIPESIZE \<le> length (pipe_queue s)" using pipe_full [OF ok, of c] by simp
    then have room: "unat (nwrite s - nread s) < PIPESIZE" by (simp add: pipe_queue_def)
    have t: "t = s\<lparr>pdata := (pdata s)(unat (nwrite s) mod PIPESIZE := c), nwrite := nwrite s + 1\<rparr>"
      using put by (simp add: pipe_put_def split: if_splits)
    show ?thesis
      using contents_put [OF PIPESIZE_facts(1,2) room] unat_ring_put [OF room PIPESIZE_facts(2)] room
      by (simp add: t pipe_ok_def pipe_queue_def)
  qed
  show "pipe_ok s \<Longrightarrow> pipe_get s = Some (c, t) \<Longrightarrow> pipe_ok t \<and> pipe_queue s = c # pipe_queue t"
  proof -
    assume ok: "pipe_ok s" and got: "pipe_get s = Some (c, t)"
    then have ne: "nread s \<noteq> nwrite s" and t: "t = s\<lparr>nread := nread s + 1\<rparr>" "c = pdata s (unat (nread s) mod PIPESIZE)"
      by (auto simp: pipe_get_def split: if_splits)
    show ?thesis
      using contents_get [OF ne] unat_ring_get [OF ne] ok by (simp add: t pipe_ok_def pipe_queue_def)
  qed
qed

lemma pipes_upd_pipe [simp]: "pipes (upd_pipe p f s) p = f (pipes s p)"
  by (simp add: upd_pipe_def)

lemma pipes_wakeup [simp]: "pipes (wakeup c s) = pipes s"
  by (simp add: wakeup_def wakeup1_def)

lemma pipewrite_loop_queue:
  assumes "pipe_ok (pipes s p)"
    and "pipewrite_loop p cs acc s = Done r out s' \<or> pipewrite_loop p cs acc s = Sleep ch out s'"
  shows "pipe_ok (pipes s' p) \<and> (\<exists>put rest. cs = put @ rest \<and> out = acc @ put
     \<and> pipe_queue (pipes s' p) = pipe_queue (pipes s p) @ put
     \<and> (rest = [] \<or> length (pipe_queue (pipes s' p)) = PIPESIZE))
     \<and> (pipewrite_loop p cs acc s = Done r out s' \<and> 0 \<le> r \<longrightarrow> out = acc @ cs \<and> r = int (length out))"
  using assms
proof (induction cs arbitrary: acc s)
  case Nil
  then show ?case by auto
next
  case (Cons c cs)
  show ?case
  proof (cases "pipe_put c (pipes s p)")
    case None
    have "length (pipe_queue (pipes s p)) = PIPESIZE"
      using pipe_full [OF Cons.prems(1), of c] None Cons.prems(1) by (simp add: pipe_ok_def pipe_queue_def)
    moreover have run: "pipewrite_loop p (c # cs) acc s =
        (if \<not> readopen (pipes s p) \<or> killed (myproc s) then Done (- 1) acc s
         else Sleep (ChPipeW (unat p)) acc (wakeup (ChPipeR (unat p)) s))"
      using None by simp
    moreover have "out = acc \<and> pipes s' = pipes s"
      using Cons.prems(2) unfolding run by (auto split: if_splits)
    moreover have "\<not> (pipewrite_loop p (c # cs) acc s = Done r out s' \<and> 0 \<le> r)"
      unfolding run by auto
    ultimately show ?thesis using Cons.prems(1) by (intro conjI exI [of _ "[]"] exI [of _ "c # cs"]) simp_all
  next
    case (Some q)
    let ?s = "upd_pipe p (\<lambda>_. q) s"
    have q: "pipe_ok q" "pipe_queue q = pipe_queue (pipes s p) @ [c]"
      using pq.put_queue [OF Cons.prems(1) Some] by auto
    have run: "pipewrite_loop p (c # cs) acc s = pipewrite_loop p cs (acc @ [c]) ?s" using Some by simp
    have ok: "pipe_ok (pipes ?s p)" using q by simp
    have "pipewrite_loop p cs (acc @ [c]) ?s = Done r out s' \<or> pipewrite_loop p cs (acc @ [c]) ?s = Sleep ch out s'"
      using Cons.prems(2) unfolding run .
    from Cons.IH [OF ok this, unfolded pipes_upd_pipe] obtain put rest where ih: "pipe_ok (pipes s' p)" "cs = put @ rest"
      "out = (acc @ [c]) @ put" "pipe_queue (pipes s' p) = pipe_queue q @ put"
      "rest = [] \<or> length (pipe_queue (pipes s' p)) = PIPESIZE"
      "pipewrite_loop p cs (acc @ [c]) ?s = Done r out s' \<and> 0 \<le> r \<longrightarrow> out = (acc @ [c]) @ cs \<and> r = int (length out)"
      by (elim conjE exE) (rule that, assumption+)
    show ?thesis
      unfolding run using ih q(2) by (intro conjI exI [of _ "c # put"] exI [of _ rest]) auto
  qed
qed

lemma append_take_drop_min: "zs = xs @ ys \<Longrightarrow> length xs = min n (length zs) \<Longrightarrow> xs = take n zs \<and> ys = drop n zs"
  by (cases "n \<le> length zs") auto

lemma piperead_loop_queue:
  assumes "pipe_ok (pipes s p)" "piperead_loop p n acc s = (out, s')"
  shows "pipe_ok (pipes s' p) \<and> (\<exists>got. out = acc @ got \<and> pipe_queue (pipes s p) = got @ pipe_queue (pipes s' p)
     \<and> length got = min n (length (pipe_queue (pipes s p))))"
  using assms
proof (induction n arbitrary: acc s)
  case 0
  then show ?case by simp
next
  case (Suc n)
  show ?case
  proof (cases "pipe_get (pipes s p)")
    case None
    then have "pipe_queue (pipes s p) = []" using pq.get_empty [OF Suc.prems(1)] by simp
    then show ?thesis using Suc.prems None by simp
  next
    case (Some cq)
    obtain c q where cq: "pipe_get (pipes s p) = Some (c, q)" using Some by (cases cq) auto
    have q: "pipe_ok q" "pipe_queue (pipes s p) = c # pipe_queue q"
      using pq.get_queue [OF Suc.prems(1) cq] by auto
    have "piperead_loop p n (acc @ [c]) (upd_pipe p (\<lambda>_. q) s) = (out, s')" using Suc.prems(2) cq by simp
    from Suc.IH [OF _ this] q show ?thesis by auto
  qed
qed

section \<open>Properties\<close>

text \<open>
  C21: A pipe is a FIFO. Through any interleaving of writers and readers of single bytes, starting from a
  new pipe, the bytes taken out followed by the bytes still inside are exactly the bytes put in, in
  order, and never more than 512 are inside; the 32-bit counters may wrap around.
\<close>

theorem pipe_fifo:
  assumes "nread q = nwrite q" and "fifo_run pipe_put pipe_get es q = (ins, outs, q')"
  shows "ins = outs @ pipe_queue q' \<and> length (pipe_queue q') \<le> PIPESIZE"
proof -
  have "pipe_ok q" "pipe_queue q = []" using assms(1) by (simp_all add: pipe_ok_def pipe_queue_def)
  with pq.run_in_order [OF _ assms(2)] show ?thesis by (simp add: pipe_ok_def pipe_queue_def)
qed

text \<open>
  What \<open>pipewrite\<close> puts in is what \<open>piperead\<close> gets. A write that returns has appended all its
  bytes to the pipe, in order; a read returns the oldest bytes of the pipe, as many as asked for or as
  there are, and leaves the others.
\<close>

theorem pipe_read_write:
  assumes "pipe_ok (pipes s p)"
  shows "(pipewrite p addr n s = Ok (r, s') \<and> 0 \<le> r \<longrightarrow>
            pipe_queue (pipes s' p) = pipe_queue (pipes s p) @ map addr [0..<nat n])
    \<and> (piperead p n s = Ok (r, out, s') \<and> 0 \<le> r \<longrightarrow>
            r = int (length out) \<and> out = take (nat n) (pipe_queue (pipes s p))
            \<and> pipe_queue (pipes s' p) = drop (nat n) (pipe_queue (pipes s p)))"
proof (intro conjI impI; elim conjE)
  assume w: "pipewrite p addr n s = Ok (r, s')" "0 \<le> r"
  then obtain r' acc where l: "pipewrite_loop p (map addr [0..<nat n]) [] s = Done r' acc s'" "0 \<le> r'"
    by (auto simp: pipewrite_def split: loop_out.splits if_splits)
  from pipewrite_loop_queue [OF assms disjI1, OF l(1)] l
  show "pipe_queue (pipes s' p) = pipe_queue (pipes s p) @ map addr [0..<nat n]"
    by auto
next
  assume rd: "piperead p n s = Ok (r, out, s')" "0 \<le> r"
  obtain acc t where l: "piperead_loop p (nat n) [] s = (acc, t)" by (metis surj_pair)
  then have e: "r = int (length out)" "acc = out" "pipes s' = pipes t"
    using rd by (auto simp: piperead_def split: if_splits)
  from piperead_loop_queue [OF assms l, unfolded append_Nil] obtain got where
    g: "acc = got" "pipe_queue (pipes s p) = got @ pipe_queue (pipes t p)"
    "length got = min (nat n) (length (pipe_queue (pipes s p)))"
    by (elim conjE exE) (rule that, assumption+)
  note td = append_take_drop_min [OF g(2,3)]
  have tk: "got = take (nat n) (pipe_queue (pipes s p))" by (rule conjunct1 [OF td])
  have dr: "pipe_queue (pipes t p) = drop (nat n) (pipe_queue (pipes s p))" by (rule conjunct2 [OF td])
  show "r = int (length out)" by (rule e(1))
  show "out = take (nat n) (pipe_queue (pipes s p))" unfolding e(2) [symmetric] g(1) by (rule tk)
  show "pipe_queue (pipes s' p) = drop (nat n) (pipe_queue (pipes s p))" unfolding e(3) by (rule dr)
qed

definition zero_file :: struct_file where
  "zero_file = \<lparr>ftype = FD_NONE, fref = 0, readable = 0, writable = 0, fpipe = 0, fip = 0, foff = 0\<rparr>"

definition zero_pipe :: pipe where
  "zero_pipe = \<lparr>pdata = (\<lambda>i. 0), nread = 0, nwrite = 0, readopen = True, writeopen = True\<rparr>"

definition ftab0 :: ftab where
  "ftab0 = cons.extend cons0 (ftab.fields (\<lambda>i. zero_file) (\<lambda>p. zero_pipe))"

text \<open>Two bytes in, one out, counters about to wrap around.\<close>

lemma pipe_fifo_witness:
  "\<exists>q'. fifo_run pipe_put pipe_get [Some 7, Some 8, None] (zero_pipe\<lparr>nread := - 1, nwrite := - 1\<rparr>) = ([7, 8], [7], q')
     \<and> [7, 8] = [7] @ pipe_queue q' \<and> length (pipe_queue q') \<le> PIPESIZE"
proof -
  let ?q = "zero_pipe\<lparr>nread := - 1, nwrite := - 1\<rparr>"
  have "\<exists>q'. fifo_run pipe_put pipe_get [Some 7, Some 8, None] ?q = ([7, 8], [7], q')"
    by (simp add: pipe_put_def pipe_get_def PIPESIZE_def unat_minus_one_u32)
  then obtain q' where r: "fifo_run pipe_put pipe_get [Some 7, Some 8, None] ?q = ([7, 8], [7], q')" by blast
  show ?thesis using r pipe_fifo [OF _ r] by auto
qed

text \<open>\<open>ab\<close> written to an empty pipe, and read back from the state the write leaves.\<close>

lemma pipe_read_write_witness:
  "\<exists>s'. pipewrite 0 (\<lambda>i. 97 + of_nat i) 2 ftab0 = Ok (2, s') \<and> pipe_queue (pipes s' 0) = [97, 98]"
proof -
  let ?w = "\<lambda>i. 97 + of_nat i :: u8"
  have p: "pipes ftab0 0 = zero_pipe" by (simp add: ftab0_def ftab.defs cons0_defs)
  have e: "pipe_queue zero_pipe = []" "pipe_ok zero_pipe"
    by (simp_all add: zero_pipe_def pipe_queue_def pipe_ok_def)
  have l: "map ?w [0..<nat 2] = [97, 98]" by (simp add: upt_rec)
  have "\<exists>s'. pipewrite 0 ?w 2 ftab0 = Ok (2, s')"
    unfolding pipewrite_def l by (simp add: p zero_pipe_def pipe_put_def PIPESIZE_def)
  then obtain s' where w: "pipewrite 0 ?w 2 ftab0 = Ok (2, s')" by blast
  have "pipe_queue (pipes s' 0) = pipe_queue (pipes ftab0 0) @ map ?w [0..<nat 2]"
    using pipe_read_write [where s = ftab0 and p = 0 and addr = ?w and n = 2 and r = 2 and s' = s'] w e p by simp
  then show ?thesis using w p e l by simp
qed

end
