(* ===== verification/Swapfile.thy ===== *)
theory Swapfile
  imports File
begin

text \<open>
  \<open>create\<close> and \<open>isdirempty\<close> of \<open>sysfile.c\<close>, the removal of a directory entry that \<open>sys_unlink\<close> and
  \<open>removeSwapFile\<close> share, and the swap file of a process (end of \<open>fs.c\<close>). A path is its characters up
  to the NUL; \<open>'.' = 46\<close>, \<open>'0' = 48\<close>, \<open>'_' = 95\<close>.
\<close>

section \<open>fcntl.h\<close>

definition O_RDONLY :: u32 where "O_RDONLY = 0x000"
definition O_WRONLY :: u32 where "O_WRONLY = 0x001"
definition O_RDWR :: u32 where "O_RDWR = 0x002"
definition O_CREATE :: u32 where "O_CREATE = 0x200"

section \<open>Directories\<close>

text \<open>The offsets of the entries behind \<open>.\<close> and \<open>..\<close>.\<close>

fun isdirempty_loop :: "nat \<Rightarrow> nat list \<Rightarrow> 'a cons_scheme \<Rightarrow> (bool \<times> 'a cons_scheme) res" where
  "isdirempty_loop dp [] s = Ok (True, s)"
| "isdirempty_loop dp (off # offs) s =
     bindr (readi dp (of_nat off) (of_nat SIZEOF_DIRENT) s) (\<lambda>(r, de, s).
       if r \<noteq> int SIZEOF_DIRENT then Panic ''isdirempty: readi''
       else if de_inum de \<noteq> 0 then Ok (False, s)
       else isdirempty_loop dp offs s)"

definition isdirempty :: "nat \<Rightarrow> 'a cons_scheme \<Rightarrow> (bool \<times> 'a cons_scheme) res" where
  "isdirempty dp s = isdirempty_loop dp (drop 2 (dir_offsets (isize (inodes s dp)))) s"

definition dot :: "nat \<Rightarrow> u8" where "dot i = (if i = 0 then 46 else 0)"
definition dotdot :: "nat \<Rightarrow> u8" where "dotdot i = (if i < 2 then 46 else 0)"

text \<open>
  \<open>create\<close> returns a locked inode. \<open>make_dots\<close> is the part for directories, \<open>init_inode\<close> the fields
  set before the inode is written.
\<close>

definition init_inode :: "u16 \<Rightarrow> u16 \<Rightarrow> inode \<Rightarrow> inode" where
  "init_inode mjr mnr ip = ip\<lparr>major := mjr, minor := mnr, nlink := 1\<rparr>"

definition make_dots :: "nat \<Rightarrow> nat \<Rightarrow> 'a cons_scheme \<Rightarrow> 'a cons_scheme res" where
  "make_dots dp ip s =
     bindr (iupdate dp (upd_inode dp (\<lambda>d. d\<lparr>nlink := nlink d + 1\<rparr>) s)) (\<lambda>s.
     bindr (dirlink ip dot (inum (inodes s ip)) s) (\<lambda>(r, s).
       if r < 0 then Panic ''create dots''
       else
         bindr (dirlink ip dotdot (inum (inodes s dp)) s) (\<lambda>(r, s).
           if r < 0 then Panic ''create dots'' else Ok s)))"

definition create ::
    "u8 list \<Rightarrow> u16 \<Rightarrow> u16 \<Rightarrow> u16 \<Rightarrow> 'a cons_scheme \<Rightarrow> (nat option \<times> 'a cons_scheme) res" where
  "create path t mjr mnr s =
     bindr (nameiparent path (\<lambda>i. 0) s) (\<lambda>(dp, name, s).
     case dp of
       None \<Rightarrow> Ok (None, s)
     | Some dp \<Rightarrow>
         bindr (ilock dp s) (\<lambda>s.
         bindr (dirlookup dp name s) (\<lambda>(r, s).
         case r of
           Some (ip, off) \<Rightarrow>
             bindr (iunlockput dp s) (\<lambda>s.
             bindr (ilock ip s) (\<lambda>s.
             if t = T_FILE \<and> itype (inodes s ip) = T_FILE then Ok (Some ip, s)
             else bindr (iunlockput ip s) (\<lambda>s. Ok (None, s))))
         | None \<Rightarrow>
             bindr (ialloc (idev (inodes s dp)) t s) (\<lambda>(ip, s).
             bindr (ilock ip s) (\<lambda>s.
             bindr (iupdate ip (upd_inode ip (init_inode mjr mnr) s)) (\<lambda>s.
             bindr (if t = T_DIR then make_dots dp ip s else Ok s) (\<lambda>s.
             bindr (dirlink dp name (inum (inodes s ip)) s) (\<lambda>(r, s).
             if r < 0 then Panic ''create: dirlink''
             else bindr (iunlockput dp s) (\<lambda>s. Ok (Some ip, s))))))))))"

section \<open>Removing a directory entry\<close>

text \<open>
  \<open>unlink_entry\<close> is the part after the checks: entry \<open>off\<close> of \<open>dp\<close>, which names \<open>ip\<close>, is overwritten
  with zeros. \<open>unlink_parent\<close> starts from the locked parent; its flag says whether it succeeded.
\<close>

definition unlink_entry :: "nat \<Rightarrow> nat \<Rightarrow> u32 \<Rightarrow> 'a cons_scheme \<Rightarrow> 'a cons_scheme res" where
  "unlink_entry dp ip off s =
     bindr (writei dp (\<lambda>i. 0) off (of_nat SIZEOF_DIRENT) s) (\<lambda>(r, s).
     if r \<noteq> int SIZEOF_DIRENT then Panic ''unlink: writei''
     else
       bindr (if itype (inodes s ip) = T_DIR
              then iupdate dp (upd_inode dp (\<lambda>d. d\<lparr>nlink := nlink d - 1\<rparr>) s)
              else Ok s) (\<lambda>s.
       bindr (iunlockput dp s) (\<lambda>s.
       bindr (iupdate ip (upd_inode ip (\<lambda>d. d\<lparr>nlink := nlink d - 1\<rparr>) s)) (iunlockput ip))))"

definition unlink_parent :: "nat \<Rightarrow> (nat \<Rightarrow> u8) \<Rightarrow> 'a cons_scheme \<Rightarrow> (bool \<times> 'a cons_scheme) res" where
  "unlink_parent dp name s =
     (let bad = (\<lambda>s. bindr (iunlockput dp s) (\<lambda>s. Ok (False, s))) in
      if namecmp name dot = 0 \<or> namecmp name dotdot = 0 then bad s
      else
        bindr (dirlookup dp name s) (\<lambda>(r, s).
        case r of
          None \<Rightarrow> bad s
        | Some (ip, off) \<Rightarrow>
            bindr (ilock ip s) (\<lambda>s.
            if nlink (inodes s ip) <s 1 then Panic ''unlink: nlink < 1''
            else
              bindr (if itype (inodes s ip) = T_DIR then isdirempty ip s else Ok (True, s)) (\<lambda>(empty, s).
              if \<not> empty then bindr (iunlockput ip s) bad
              else bindr (unlink_entry dp ip off s) (\<lambda>s. Ok (True, s))))))"

section \<open>Swap files\<close>

text \<open>The decimal digits of a pid, low digit first; the loop body runs only for a non-zero pid.\<close>

function pid_digits :: "nat \<Rightarrow> u8 list" where
  "pid_digits n = (if n = 0 then [] else (of_nat (n mod 10) + 48) # pid_digits (n div 10))"
  by auto
termination
  by (relation "measure id") auto

declare pid_digits.simps [simp del]

text \<open>
  The name: the pid, an underscore, one character for each of the bits 31 to 13 of \<open>va\<close>, and \<open>.swp\<close>.
  The character is the low byte of \<open>(va & (1 << i)) + '0'\<close>. The buffer has 30 bytes.
\<close>

definition va_char :: "u32 \<Rightarrow> nat \<Rightarrow> u8" where
  "va_char v i = ucast ((v AND push_bit i 1) + 48)"

definition swap_name :: "proc \<Rightarrow> u8 list" where
  "swap_name p =
     rev (pid_digits (nat (pid p))) @ [95] @ map (va_char (va p)) (rev [13..<32]) @ [46, 115, 119, 112]"

definition createSwapFile :: "nat \<Rightarrow> 'a ftab_scheme \<Rightarrow> 'a ftab_scheme res" where
  "createSwapFile p s =
     (let filename = swap_name (procs s p) in
      if length filename + 1 > 30 then OutOfBounds
      else
        bindr (begin_op s) (\<lambda>s.
        bindr (create filename T_FILE 0 0 s) (\<lambda>(r, s).
        case r of
          None \<Rightarrow> Panic ''iunlock''
        | Some ip \<Rightarrow>
            bindr (iunlock ip s) (\<lambda>s.
            let (f, s) = filealloc s; s = upd_proc p (\<lambda>p. p\<lparr>swapFile := f\<rparr>) s in
            case f of
              None \<Rightarrow> Panic ''no slot for files to store''
            | Some f \<Rightarrow>
                end_op (upd_file f (\<lambda>f. f\<lparr>fip := ip, ftype := FD_INODE, foff := 0,
                          readable := ucast O_WRONLY, writable := ucast O_RDWR\<rparr>) s)))))"

definition removeSwapFile :: "nat \<Rightarrow> 'a ftab_scheme \<Rightarrow> (int \<times> 'a ftab_scheme) res" where
  "removeSwapFile p s =
     (let filename = swap_name (procs s p) in
      if length filename + 1 > 30 then OutOfBounds
      else
        case swapFile (procs s p) of
          None \<Rightarrow> Ok (- 1, s)
        | Some f \<Rightarrow>
            bindr (fileclose f s) (\<lambda>s.
            bindr (begin_op s) (\<lambda>s.
            bindr (nameiparent filename (\<lambda>i. 0) s) (\<lambda>(dp, name, s).
            case dp of
              None \<Rightarrow> bindr (end_op s) (\<lambda>s. Ok (- 1, s))
            | Some dp \<Rightarrow>
                bindr (ilock dp s) (\<lambda>s.
                bindr (unlink_parent dp name s) (\<lambda>(ok, s).
                bindr (end_op s) (\<lambda>s. Ok (if ok then 0 else - 1, s))))))))"

text \<open>\<open>p->swapFile\<close> is dereferenced without a test.\<close>

definition readFromSwapFile :: "nat \<Rightarrow> u32 \<Rightarrow> int \<Rightarrow> 'a ftab_scheme \<Rightarrow> (int \<times> u8 list \<times> 'a ftab_scheme) res" where
  "readFromSwapFile p off n s =
     (case swapFile (procs s p) of
        None \<Rightarrow> NullDeref
      | Some f \<Rightarrow> fileread f n (upd_file f (\<lambda>f. f\<lparr>foff := off\<rparr>) s))"

definition writeToSwapFile :: "nat \<Rightarrow> (nat \<Rightarrow> u8) \<Rightarrow> u32 \<Rightarrow> int \<Rightarrow> 'a ftab_scheme \<Rightarrow> (int \<times> 'a ftab_scheme) res" where
  "writeToSwapFile p buffer off n s =
     (case swapFile (procs s p) of
        None \<Rightarrow> NullDeref
      | Some f \<Rightarrow> filewrite f buffer n (upd_file f (\<lambda>f. f\<lparr>foff := off\<rparr>) s))"

text \<open>
  The virtual address never shows in the name: bit \<open>i > 12\<close> is lost when the sum is stored in a
  character, so all swap files of a process have one name.
\<close>

lemma ucast_add_u8: "ucast (x + y :: u32) = (ucast x + ucast y :: u8)"
proof -
  have "(ucast (x + y) :: u8) = of_nat (unat (x + y))" by simp
  also have "\<dots> = of_nat (unat x + unat y)"
  proof -
    have "(unat x + unat y) mod 2 ^ 32 mod 2 ^ 8 = (unat x + unat y) mod (2 ^ 8 :: nat)"
      by (rule mod_mod_cancel) simp
    then show ?thesis by (intro word_of_nat_eq_iff [THEN iffD2]) (simp add: unat_word_ariths take_bit_eq_mod)
  qed
  finally show ?thesis by simp
qed

lemma va_char_zero: "i \<ge> 8 \<Longrightarrow> va_char v i = 48"
proof -
  assume i: "i \<ge> 8"
  have "v AND push_bit i 1 = (if bit v i then push_bit i 1 else 0)"
    by (rule bit_word_eqI) (auto simp: bit_simps)
  moreover have "ucast (push_bit i 1 :: u32) = (0 :: u8)"
    using i by (intro bit_word_eqI) (auto simp: bit_simps)
  ultimately show ?thesis by (simp add: va_char_def ucast_add_u8)
qed

lemma swap_name_eq:
  "swap_name p = rev (pid_digits (nat (pid p))) @ [95] @ replicate 19 48 @ [46, 115, 119, 112]"
proof -
  have "map (va_char (va p)) (rev [13..<32]) = map (\<lambda>i. 48) (rev [13..<32])"
    by (rule map_cong) (auto simp only: va_char_zero set_rev set_upt atLeastLessThan_iff)
  then have "map (va_char (va p)) (rev [13..<32]) = replicate 19 48"
    by (simp only: map_replicate_const length_rev length_upt) simp
  then show ?thesis unfolding swap_name_def by (rule arg_cong)
qed

end
