(* ===== verification/Vm.thy ===== *)
theory Vm
  imports Swapfile
begin

text \<open>
  The page tables of \<open>vm.c\<close> (with \<open>mmu.h\<close>). Page directories and tables live in the kernel's memory
  \<open>mem\<close> and are named by their kernel address; an entry is the word at its address. \<open>cr3\<close> is the page
  directory the hardware uses, and a user address is reached through it as the hardware does. The
  linker symbol \<open>data\<close> is \<open>kdata\<close>.
  What the entries mean is proved in \<open>PageTable\<close>.
\<close>

section \<open>Addresses and entries\<close>

definition PTE_P :: u32 where "PTE_P = 0x001"
definition PTE_W :: u32 where "PTE_W = 0x002"
definition PTE_U :: u32 where "PTE_U = 0x004"
definition PTE_PG :: u32 where "PTE_PG = 0x200"

definition PDX :: "u32 \<Rightarrow> u32" where "PDX a = drop_bit 22 a AND 0x3FF"
definition PTX :: "u32 \<Rightarrow> u32" where "PTX a = drop_bit 12 a AND 0x3FF"
definition PGADDR :: "u32 \<Rightarrow> u32 \<Rightarrow> u32 \<Rightarrow> u32" where
  "PGADDR d t k = push_bit 22 d OR push_bit 12 t OR k"
definition NPDENTRIES :: nat where "NPDENTRIES = 1024"
definition PTE_ADDR :: "u32 \<Rightarrow> u32" where "PTE_ADDR e = e AND NOT 0xFFF"
definition PTE_FLAGS :: "u32 \<Rightarrow> u32" where "PTE_FLAGS e = e AND 0xFFF"

record vmst = ftab +
  kpgdir :: u32
  use_system_pgdir :: bool
  system_pgdir :: u32
  kdata :: u32
  cr3 :: u32

definition pte_at :: "'a kmem_scheme \<Rightarrow> u32 \<Rightarrow> u32" where
  "pte_at s a = rd32 (mem s) a"

definition set_pte :: "u32 \<Rightarrow> u32 \<Rightarrow> 'a kmem_scheme \<Rightarrow> 'a kmem_scheme" where
  "set_pte a v s = s\<lparr>mem := wr32 (mem s) a v\<rparr>"

definition zero_pg :: "u32 \<Rightarrow> 'a kmem_scheme \<Rightarrow> 'a kmem_scheme" where
  "zero_pg a s = s\<lparr>mem := memset (mem s) a 0 PGSIZE\<rparr>"

section \<open>Walking and mapping\<close>

text \<open>The address of the entry, if the page table exists or could be made.\<close>

definition walkpgdir :: "u32 \<Rightarrow> u32 \<Rightarrow> bool \<Rightarrow> 'a kmem_scheme \<Rightarrow> u32 option \<times> 'a kmem_scheme" where
  "walkpgdir pd a alloc s =
     (let pde = pd + 4 * PDX a in
      if pte_at s pde AND PTE_P \<noteq> 0 then (Some (P2V (PTE_ADDR (pte_at s pde)) + 4 * PTX a), s)
      else if \<not> alloc then (None, s)
      else
        case kalloc s of (pgtab, s) \<Rightarrow>
          if pgtab = 0 then (None, s)
          else (Some (pgtab + 4 * PTX a),
                set_pte pde (V2P pgtab OR PTE_P OR PTE_W OR PTE_U) (zero_pg pgtab s)))"

abbreviation lookup :: "u32 \<Rightarrow> u32 \<Rightarrow> 'a kmem_scheme \<Rightarrow> u32 option" where
  "lookup pd a s \<equiv> fst (walkpgdir pd a False s)"

text \<open>
  The loop of \<open>mappages\<close>: \<open>n\<close> more pages after this one. It ends when \<open>a\<close> reaches \<open>last\<close>, which is
  \<open>n\<close> pages further (modulo the size of the address space).
\<close>

fun mappages_loop :: "u32 \<Rightarrow> nat \<Rightarrow> u32 \<Rightarrow> u32 \<Rightarrow> u32 \<Rightarrow> 'a kmem_scheme \<Rightarrow> (int \<times> 'a kmem_scheme) res" where
  "mappages_loop pd n a pa perm s =
     (case walkpgdir pd a True s of
        (None, s) \<Rightarrow> Ok (- 1, s)
      | (Some pte, s) \<Rightarrow>
          if pte_at s pte AND PTE_P \<noteq> 0 then Panic ''remap''
          else
            let s = set_pte pte (pa OR perm OR PTE_P) s in
            case n of
              0 \<Rightarrow> Ok (0, s)
            | Suc n \<Rightarrow> mappages_loop pd n (a + PGSIZE) (pa + PGSIZE) perm s)"

declare mappages_loop.simps [simp del]

definition mappages :: "u32 \<Rightarrow> u32 \<Rightarrow> u32 \<Rightarrow> u32 \<Rightarrow> u32 \<Rightarrow> 'a kmem_scheme \<Rightarrow> (int \<times> 'a kmem_scheme) res" where
  "mappages pd a n pa perm s =
     (let first = PGROUNDDOWN a; final = PGROUNDDOWN (a + n - 1)
      in mappages_loop pd (unat ((final - first) div PGSIZE)) first pa perm s)"

text \<open>The kernel's own mappings, present in every page table: start, physical range, permission.\<close>

definition kmap :: "'a vmst_scheme \<Rightarrow> (u32 \<times> u32 \<times> u32 \<times> u32) list" where
  "kmap s =
     [(KERNBASE, 0, EXTMEM, PTE_W),
      (KERNLINK, V2P KERNLINK, V2P (kdata s), 0),
      (kdata s, V2P (kdata s), PHYSTOP, PTE_W),
      (DEVSPACE, DEVSPACE, 0, PTE_W)]"

section \<open>Switching\<close>

definition switchkvm :: "'a vmst_scheme \<Rightarrow> 'a vmst_scheme" where
  "switchkvm s = s\<lparr>cr3 := V2P (kpgdir s)\<rparr>"

definition switchuvm :: "nat \<Rightarrow> 'a vmst_scheme \<Rightarrow> 'a vmst_scheme res" where
  "switchuvm p s =
     (if kstack (procs s p) = 0 then Panic ''switchuvm: no kstack''
      else if pgdir (procs s p) = 0 then Panic ''switchuvm: no pgdir''
      else Ok (s\<lparr>cr3 := V2P (pgdir (procs s p))\<rparr>))"

section \<open>User memory\<close>

text \<open>Where the hardware finds user address \<open>a\<close>, or \<open>None\<close> for a page fault.\<close>

definition translate :: "'a vmst_scheme \<Rightarrow> u32 \<Rightarrow> u32 option" where
  "translate s a =
     (case lookup (P2V (cr3 s)) a s of
        None \<Rightarrow> None
      | Some pte \<Rightarrow>
          if pte_at s pte AND PTE_P = 0 then None
          else Some (P2V (PTE_ADDR (pte_at s pte)) + (a AND 0xFFF)))"

text \<open>The user's byte at \<open>a + i\<close>, and storing bytes there.\<close>

definition user_byte :: "'a vmst_scheme \<Rightarrow> u32 \<Rightarrow> u8 option" where
  "user_byte s a = map_option (mem s) (translate s a)"

fun put_bytes :: "u32 \<Rightarrow> u8 list \<Rightarrow> memory \<Rightarrow> memory" where
  "put_bytes a [] m = m"
| "put_bytes a (c # cs) m = put_bytes (a + 1) cs (m(a := c))"

fun user_store :: "u32 \<Rightarrow> u8 list \<Rightarrow> 'a vmst_scheme \<Rightarrow> 'a vmst_scheme res" where
  "user_store a [] s = Ok s"
| "user_store a (c # cs) s =
     (case translate s a of
        None \<Rightarrow> NullDeref
      | Some k \<Rightarrow> user_store (a + 1) cs (s\<lparr>mem := (mem s)(k := c)\<rparr>))"

definition uva2ka :: "u32 \<Rightarrow> u32 \<Rightarrow> 'a kmem_scheme \<Rightarrow> u32 res" where
  "uva2ka pd uva s =
     (case lookup pd uva s of
        None \<Rightarrow> NullDeref
      | Some pte \<Rightarrow>
          if pte_at s pte AND PTE_P = 0 then Ok 0
          else if pte_at s pte AND PTE_U = 0 then Ok 0
          else Ok (P2V (PTE_ADDR (pte_at s pte))))"

text \<open>\<open>bytes\<close> are what is still to be copied to \<open>a\<close>.\<close>

definition copy_len :: "u32 \<Rightarrow> nat \<Rightarrow> nat" where
  "copy_len a len = min (unat (PGSIZE - (a - PGROUNDDOWN a))) len"

lemma PGROUNDDOWN_offset: "a - PGROUNDDOWN a = a AND 0xFFF"
proof -
  have "(a AND 0xFFF) + (a AND NOT 0xFFF) = (a AND 0xFFF) OR (a AND NOT 0xFFF)"
    by (rule disjunctive_add) (simp add: bit_simps)
  also have "\<dots> = a" by (rule bit_word_eqI) (auto simp: bit_simps)
  finally have "(a AND 0xFFF) + (a AND NOT 0xFFF) = a" .
  then have "a - (a AND NOT 0xFFF) = a AND 0xFFF" by (metis add_diff_cancel_right')
  then show ?thesis by (simp add: PGROUNDDOWN_def PGSIZE_def)
qed

lemma copy_len_pos: "len \<noteq> 0 \<Longrightarrow> 0 < copy_len a len"
proof -
  have "a AND 0xFFF \<le> 0xFFF" by (rule word_and_le1)
  then have "unat (a AND 0xFFF) \<le> 0xFFF" by (simp add: word_le_nat_alt)
  then have "unat (4096 - (a AND 0xFFF)) \<noteq> 0" by (simp add: unat_sub_if')
  then show "len \<noteq> 0 \<Longrightarrow> 0 < copy_len a len"
    unfolding copy_len_def PGROUNDDOWN_offset PGSIZE_def by (simp add: min_def)
qed

function copyout :: "u32 \<Rightarrow> u32 \<Rightarrow> u8 list \<Rightarrow> 'a kmem_scheme \<Rightarrow> (int \<times> 'a kmem_scheme) res" where
  "copyout pd a buf s =
     (if buf = [] then Ok (0, s)
      else
        bindr (uva2ka pd (PGROUNDDOWN a) s) (\<lambda>pa0.
          if pa0 = 0 then Ok (- 1, s)
          else
            let n = copy_len a (length buf);
                m = put_bytes (pa0 + (a - PGROUNDDOWN a)) (take n buf) (mem s)
            in copyout pd (PGROUNDDOWN a + PGSIZE) (drop n buf) (s\<lparr>mem := m\<rparr>)))"
  by pat_completeness auto
termination
  by (relation "measure (\<lambda>(pd, a, buf, s). length buf)") (auto simp: copy_len_pos)

declare copyout.simps [simp del]

section \<open>Single pages\<close>

text \<open>\<open>inituvm\<close> does not test what \<open>kalloc\<close> returned.\<close>

definition inituvm :: "u32 \<Rightarrow> u8 list \<Rightarrow> 'a kmem_scheme \<Rightarrow> 'a kmem_scheme res" where
  "inituvm pd ini s =
     (if length ini \<ge> unat PGSIZE then Panic ''inituvm: more than a page''
      else
        case kalloc s of (pg, s) \<Rightarrow>
          if pg = 0 then NullDeref
          else
          bindr (mappages pd 0 PGSIZE (V2P pg) (PTE_W OR PTE_U) (zero_pg pg s)) (\<lambda>(r, s).
          Ok (s\<lparr>mem := put_bytes pg ini (mem s)\<rparr>)))"

definition clearpteu :: "u32 \<Rightarrow> u32 \<Rightarrow> 'a kmem_scheme \<Rightarrow> 'a kmem_scheme res" where
  "clearpteu pd uva s =
     (case lookup pd uva s of
        None \<Rightarrow> Panic ''clearpteu''
      | Some pte \<Rightarrow> Ok (set_pte pte (pte_at s pte AND NOT PTE_U) s))"

definition clear_present_set_pagedout :: "u32 \<Rightarrow> u32 \<Rightarrow> 'a kmem_scheme \<Rightarrow> 'a kmem_scheme res" where
  "clear_present_set_pagedout pd a s =
     (case lookup pd a s of
        None \<Rightarrow> Panic ''clear_present_set_pagedout''
      | Some pte \<Rightarrow> Ok (set_pte pte ((pte_at s pte AND NOT PTE_P) OR PTE_PG) s))"

definition set_present_clear_pagedout :: "u32 \<Rightarrow> u32 \<Rightarrow> 'a kmem_scheme \<Rightarrow> 'a kmem_scheme res" where
  "set_present_clear_pagedout pd a s =
     (case lookup pd a s of
        None \<Rightarrow> Panic ''set_present_clear_pagedout''
      | Some pte \<Rightarrow> Ok (set_pte pte ((pte_at s pte AND NOT PTE_PG) OR PTE_P) s))"

text \<open>A kernel state of the examples, before the kernel page directory is set up.\<close>

definition vm0 :: vmst where
  "vm0 = ftab.extend ftab0 (vmst.fields 0 False 0 0 0)"

end
