(* ===== verification/Paging.thy ===== *)
theory Paging
  imports Vm
begin

text \<open>
  The swapping of \<open>vm.c\<close>: each process has a table of \<open>MAX_TOTAL_PAGES\<close> page descriptors and a
  doubly linked list, threaded through the table, of those whose page is in memory. Pointers into
  the table are indices. A walk along a list that is longer than the table is a walk around a cycle
  and never returns (\<open>Hang\<close>); an index past the table is \<open>OutOfBounds\<close>.
  The console messages of these routines are left out.
\<close>

section \<open>The list of pages in memory\<close>

abbreviation curpgs :: "'a ptable_scheme \<Rightarrow> nat \<Rightarrow> page_in_mem" where
  "curpgs s \<equiv> paging_meta_data (myproc s)"

definition upd_cur :: "(proc \<Rightarrow> proc) \<Rightarrow> 'a ptable_scheme \<Rightarrow> 'a ptable_scheme" where
  "upd_cur f s = upd_proc (curproc s) f s"

definition upd_pg :: "nat \<Rightarrow> (page_in_mem \<Rightarrow> page_in_mem) \<Rightarrow> 'a ptable_scheme \<Rightarrow> 'a ptable_scheme" where
  "upd_pg i f s = upd_cur (\<lambda>p. p\<lparr>paging_meta_data := (paging_meta_data p)(i := f (paging_meta_data p i))\<rparr>) s"

text \<open>The last element reached from \<open>i\<close> in at most \<open>n\<close> elements.\<close>

fun list_tail :: "nat \<Rightarrow> (nat \<Rightarrow> page_in_mem) \<Rightarrow> nat \<Rightarrow> nat option" where
  "list_tail 0 m i = None"
| "list_tail (Suc n) m i = (case pg_next (m i) of None \<Rightarrow> Some i | Some j \<Rightarrow> list_tail n m j)"

definition find_va :: "u32 \<Rightarrow> (nat \<Rightarrow> page_in_mem) \<Rightarrow> nat option" where
  "find_va a m = List.find (\<lambda>i. virtualAddr (m i) = a) [0..<MAX_TOTAL_PAGES]"

definition find_state :: "u32 \<Rightarrow> (nat \<Rightarrow> page_in_mem) \<Rightarrow> nat option" where
  "find_state v m = List.find (\<lambda>i. pagestate (m i) = v) [0..<MAX_TOTAL_PAGES]"

text \<open>The fields set by \<open>addNewPageToPhysMem\<close>; then its two ways of finding the descriptor.\<close>

definition fresh_page :: "u32 \<Rightarrow> nat \<Rightarrow> page_in_mem \<Rightarrow> page_in_mem" where
  "fresh_page a i pg = pg\<lparr>pages_array_index := of_nat i, pg_next := None, virtualAddr := a,
     pagestate := 1, counter := 0, offset_in_file := - 1\<rparr>"

definition slot_for :: "u32 \<Rightarrow> (nat \<Rightarrow> page_in_mem) \<Rightarrow> nat option" where
  "slot_for a m = (case find_va (PTE_ADDR a) m of Some i \<Rightarrow> Some i | None \<Rightarrow> find_state 0 m)"

definition addNewPageToPhysMem :: "u32 \<Rightarrow> 'a ptable_scheme \<Rightarrow> 'a ptable_scheme res" where
  "addNewPageToPhysMem a s =
     bindr
       (case head_page_in_mem (myproc s) of
          None \<Rightarrow> Ok (0, upd_cur (\<lambda>p. p\<lparr>head_page_in_mem := Some 0\<rparr>) s)
        | Some h \<Rightarrow>
            (case list_tail MAX_TOTAL_PAGES (curpgs s) h of
               None \<Rightarrow> Hang
             | Some t \<Rightarrow>
                 (case slot_for a (curpgs s) of
                    None \<Rightarrow> OutOfBounds
                  | Some i \<Rightarrow>
                      let s = upd_pg t (\<lambda>pg. pg\<lparr>pg_next := Some i\<rparr>) s;
                          s = upd_pg i (\<lambda>pg. pg\<lparr>pg_prev := Some t\<rparr>) s
                      in Ok (i, upd_pg (unat (pages_array_index (curpgs s t))) (\<lambda>_. curpgs s t) s))))
       (\<lambda>(i, s).
          let s = upd_pg i (fresh_page a i) s
          in Ok (upd_cur (\<lambda>p. p\<lparr>num_pages_in_main_mem := num_pages_in_main_mem p + 1\<rparr>) s))"

definition updateListPointers :: "nat \<Rightarrow> 'a ptable_scheme \<Rightarrow> 'a ptable_scheme" where
  "updateListPointers i s =
     (let pg = curpgs s i;
          s = (case pg_prev pg of
                 Some p \<Rightarrow>
                   let s = upd_pg p (\<lambda>q. q\<lparr>pg_next := pg_next pg\<rparr>) s in
                   (case pg_next pg of
                      Some n \<Rightarrow> upd_pg n (\<lambda>q. q\<lparr>pg_prev := Some p\<rparr>) s
                    | None \<Rightarrow> s)
               | None \<Rightarrow>
                   let s = upd_cur (\<lambda>p. p\<lparr>head_page_in_mem := pg_next pg\<rparr>) s in
                   (case pg_next pg of
                      Some n \<Rightarrow> upd_pg n (\<lambda>q. q\<lparr>pg_prev := None\<rparr>) s
                    | None \<Rightarrow> s))
      in upd_pg i (\<lambda>q. q\<lparr>pg_prev := None, pg_next := None\<rparr>) s)"

text \<open>The element of the list from \<open>i\<close> with the smallest counter, the first one of several.\<close>

fun choose_loop :: "nat \<Rightarrow> (nat \<Rightarrow> page_in_mem) \<Rightarrow> nat \<Rightarrow> nat \<Rightarrow> u32 \<Rightarrow> nat option" where
  "choose_loop 0 m i best least = None"
| "choose_loop (Suc n) m i best least =
     (case pg_next (m i) of
        None \<Rightarrow> Some best
      | Some j \<Rightarrow>
          if counter (m j) < least then choose_loop n m j j (counter (m j))
          else choose_loop n m j best least)"

definition choosePageFromPhysMem :: "'a ptable_scheme \<Rightarrow> nat option res" where
  "choosePageFromPhysMem s =
     (case head_page_in_mem (myproc s) of
        None \<Rightarrow> Ok None
      | Some h \<Rightarrow>
          (case choose_loop MAX_TOTAL_PAGES (curpgs s) h h (counter (curpgs s h)) of
             None \<Rightarrow> Hang
           | Some i \<Rightarrow> Ok (Some i)))"

section \<open>Between memory and the swap file\<close>

definition swap_pgdir :: "'a vmst_scheme \<Rightarrow> u32" where
  "swap_pgdir s = (if use_system_pgdir s then system_pgdir s else pgdir (myproc s))"

text \<open>The bytes of the user's page at \<open>a\<close>; a page that is not mapped faults.\<close>

definition user_page :: "u32 \<Rightarrow> 'a vmst_scheme \<Rightarrow> (nat \<Rightarrow> u8) res" where
  "user_page a s = (case translate s a of None \<Rightarrow> NullDeref | Some k \<Rightarrow> Ok (\<lambda>i. mem s (k + of_nat i)))"

text \<open>
  The test of the source compares the unsigned offset with \<open>-1\<close>; the two ways to write differ in
  the offset, and only the second one stores it.
\<close>

definition writePageToFile :: "nat \<Rightarrow> 'a vmst_scheme \<Rightarrow> (int \<times> 'a vmst_scheme) res" where
  "writePageToFile i s =
     (let a = virtualAddr (curpgs s i) in
      case lookup (swap_pgdir s) a s of
        None \<Rightarrow> Panic ''writePageToFile: page should exist''
      | Some pte \<Rightarrow>
          if pte_at s pte AND PTE_P = 0 then Panic ''writePageToFile: page should be present''
          else
            let offsetExists = offset_in_file (curpgs s i) > - 1;
                off = (if offsetExists then offset_in_file (curpgs s i)
                       else PGSIZE * num_pages_in_file (myproc s))
            in
            bindr (user_page a s) (\<lambda>buf.
            bindr (writeToSwapFile (curproc s) buf off 4096 s) (\<lambda>(r, s).
            if r = - 1 then Ok (- 1, s)
            else
              let s = (if \<not> offsetExists
                       then upd_pg i (\<lambda>pg. pg\<lparr>offset_in_file := PGSIZE * num_pages_in_file (myproc s)\<rparr>) s
                       else s);
                  s = upd_pg i (\<lambda>pg. pg\<lparr>pagestate := 2\<rparr>) s
              in Ok (0, upd_cur (\<lambda>p. p\<lparr>num_pages_in_file := num_pages_in_file p + 1\<rparr>) s))))"

text \<open>A null page, the result of \<open>choosePageFromPhysMem\<close> on an empty list, is dereferenced.\<close>

definition mem2File :: "nat option \<Rightarrow> 'a vmst_scheme \<Rightarrow> (int \<times> 'a vmst_scheme) res" where
  "mem2File pg s =
     (case pg of
        None \<Rightarrow> NullDeref
      | Some i \<Rightarrow>
          let pd = swap_pgdir s; pte = lookup pd (virtualAddr (curpgs s i)) s in
          bindr (writePageToFile i s) (\<lambda>(r, s).
          if r = - 1 then Ok (- 1, s)
          else
            let s = updateListPointers i s in
            bindr (clear_present_set_pagedout pd (virtualAddr (curpgs s i)) s) (\<lambda>s.
            case pte of
              None \<Rightarrow> NullDeref
            | Some e \<Rightarrow>
                bindr (kfree (P2V (PTE_ADDR (pte_at s e))) s) (\<lambda>s.
                let s = upd_cur (\<lambda>p. p\<lparr>num_pages_in_main_mem := num_pages_in_main_mem p - 1\<rparr>) s
                in Ok (0, s\<lparr>cr3 := V2P pd\<rparr>)))))"

text \<open>The descriptor is appended to the list; an empty list is dereferenced.\<close>

definition append_page :: "nat \<Rightarrow> 'a ptable_scheme \<Rightarrow> 'a ptable_scheme res" where
  "append_page i s =
     (case head_page_in_mem (myproc s) of
        None \<Rightarrow> NullDeref
      | Some h \<Rightarrow>
          (case list_tail MAX_TOTAL_PAGES (curpgs s) h of
             None \<Rightarrow> Hang
           | Some t \<Rightarrow>
               let s = upd_pg t (\<lambda>pg. pg\<lparr>pg_next := Some i\<rparr>) s
               in Ok (upd_pg i (\<lambda>pg. pg\<lparr>pg_prev := Some t, pg_next := None\<rparr>) s)))"

definition file2mem :: "nat \<Rightarrow> 'a vmst_scheme \<Rightarrow> (int \<times> 'a vmst_scheme) res" where
  "file2mem i s =
     (let offset = offset_in_file (curpgs s i); a = virtualAddr (curpgs s i); pd = swap_pgdir s in
      if offset <s 0 then Ok (- 1, s)
      else
        case kalloc s of (pg, s) \<Rightarrow>
          if pg = 0 then Panic ''file2mem: out of memory''
          else
            bindr (mappages pd a PGSIZE (V2P pg) (PTE_W OR PTE_U) s) (\<lambda>(_, s).
            bindr (readFromSwapFile (curproc s) offset 4096 s) (\<lambda>(r, got, s).
            let s = s\<lparr>mem := put_bytes pg got (mem s)\<rparr> in
            if r = - 1 then Ok (- 1, s)
            else if lookup pd a s = None then Panic ''file2mem: pte should exist''
            else
              bindr (set_present_clear_pagedout pd a s) (\<lambda>s.
              let s = upd_cur (\<lambda>p. p\<lparr>num_pages_in_main_mem := num_pages_in_main_mem p + 1\<rparr>) s;
                  s = upd_pg i (\<lambda>pg. pg\<lparr>offset_in_file := - 1, pagestate := 1\<rparr>) s;
                  s = upd_cur (\<lambda>p. p\<lparr>num_pages_in_file := num_pages_in_file p - 1\<rparr>) s
              in bindr (append_page i s) (\<lambda>s. Ok (0, s))))))"

definition swapPages :: "u32 \<Rightarrow> 'a vmst_scheme \<Rightarrow> (int \<times> 'a vmst_scheme) res" where
  "swapPages a s =
     bindr (choosePageFromPhysMem s) (\<lambda>out.
     case find_va a (curpgs s) of
       None \<Rightarrow> Ok (- 1, s)
     | Some i \<Rightarrow>
         (case out of
            None \<Rightarrow> NullDeref
          | Some j \<Rightarrow>
              let s = upd_pg j (\<lambda>pg. pg\<lparr>offset_in_file := offset_in_file (curpgs s i)\<rparr>) s in
              bindr (file2mem i s) (\<lambda>(_, s).
              bindr (mem2File (Some j) s) (\<lambda>(_, s). Ok (0, s)))))"

definition deletePage :: "nat \<Rightarrow> 'a vmst_scheme \<Rightarrow> 'a vmst_scheme res" where
  "deletePage i s =
     (let s = (if num_pages_in_main_mem (myproc s) > 0
               then upd_cur (\<lambda>p. p\<lparr>num_pages_in_main_mem := num_pages_in_main_mem p - 1\<rparr>) s else s);
          s = upd_pg i (\<lambda>pg. pg\<lparr>virtualAddr := 0xFFFFFFFF, pagestate := 0, offset_in_file := - 1\<rparr>) s
      in
      bindr
        (if num_pages_in_file (myproc s) > 0
         then (case find_state 2 (curpgs s) of
                 None \<Rightarrow> Ok s
               | Some j \<Rightarrow> bindr (file2mem j s) (\<lambda>(_, s). Ok s))
         else Ok s)
        (\<lambda>s.
           let s = updateListPointers i s
           in Ok (upd_pg (unat (pages_array_index (curpgs s i))) (\<lambda>_. curpgs s i) s)))"

text \<open>
  No unsigned offset is greater than \<open>-1\<close>, so every page is written behind the pages that the count
  says are in the file, whatever its own offset is.
\<close>

lemma offset_never_exists: "\<not> offset_in_file pg > - 1"
  using word_order.extremum [of "offset_in_file pg"] by (simp add: not_less)

lemma write_page_slot:
  assumes "lookup (swap_pgdir s) (virtualAddr (curpgs s i)) s = Some pte" "pte_at s pte AND PTE_P \<noteq> 0"
    and "user_page (virtualAddr (curpgs s i)) s = Ok buf"
    and "writeToSwapFile (curproc s) buf (PGSIZE * num_pages_in_file (myproc s)) 4096 s = Ok (- 1, t)"
  shows "writePageToFile i s = Ok (- 1, t)"
  using assms by (simp add: writePageToFile_def Let_def offset_never_exists)

section \<open>The list of resident pages\<close>

text \<open>
  The neighbours of an element in a list without repetitions. \<open>resident s xs\<close>: the links of the
  current process's descriptors are exactly those of the list \<open>xs\<close>, which the head points to.
\<close>

fun first :: "'b list \<Rightarrow> 'b option" where
  "first [] = None"
| "first (x # xs) = Some x"

fun after :: "'b list \<Rightarrow> 'b \<Rightarrow> 'b option" where
  "after [] i = None"
| "after (x # xs) i = (if x = i then first xs else after xs i)"

definition before :: "'b list \<Rightarrow> 'b \<Rightarrow> 'b option" where
  "before xs i = after (rev xs) i"

definition resident :: "'a ptable_scheme \<Rightarrow> nat list \<Rightarrow> bool" where
  "resident s xs \<longleftrightarrow> distinct xs \<and> set xs \<subseteq> {..<MAX_TOTAL_PAGES}
     \<and> head_page_in_mem (myproc s) = first xs
     \<and> (\<forall>i. pg_next (curpgs s i) = after xs i \<and> pg_prev (curpgs s i) = before xs i)
     \<and> (\<forall>i<MAX_TOTAL_PAGES. pages_array_index (curpgs s i) = of_nat i)"

lemma first_Some: "first xs = Some j \<Longrightarrow> j \<in> set xs"
  by (cases xs) auto

lemma first_append: "first (xs @ ys) = (if xs = [] then first ys else first xs)"
  by (cases xs) auto

lemma after_notin: "i \<notin> set xs \<Longrightarrow> after xs i = None"
  by (induction xs) auto

lemma after_Some: "after xs i = Some j \<Longrightarrow> i \<in> set xs \<and> j \<in> set xs"
  by (induction xs) (auto split: if_splits dest: first_Some)

lemma after_append: "i \<notin> set us \<Longrightarrow> after (us @ i # vs) i = first vs"
  by (induction us) auto

lemma after_snoc: "distinct xs \<Longrightarrow> y \<notin> set xs \<Longrightarrow>
    after (xs @ [y]) i = (if xs \<noteq> [] \<and> i = last xs then Some y else after xs i)"
  by (induction xs) (auto simp: first_append)

lemma first_rev: "first (rev xs) = (if xs = [] then None else Some (last xs))"
  by (cases xs rule: rev_cases) auto

lemma before_snoc: "before (xs @ [y]) i = (if i = y then first (rev xs) else before xs i)"
  by (simp add: before_def)

lemma first_remove1_hd: "first (remove1 i xs) = (if first xs = Some i then after xs i else first xs)"
  by (cases xs) auto

lemma after_remove1: "distinct xs \<Longrightarrow>
    after (remove1 i xs) j = (if j = i then None else if after xs j = Some i then after xs i else after xs j)"
proof (induction xs)
  case (Cons x xs)
  show ?case
  proof (cases "x = i")
    case True
    then have "after xs i = None" "after xs j \<noteq> Some i" using Cons.prems after_notin after_Some by fastforce+
    then show ?thesis using True by simp
  next
    case False
    then show ?thesis using Cons by (auto simp: first_remove1_hd after_notin dest: after_Some)
  qed
qed simp

lemma after_before: "distinct xs \<Longrightarrow> after xs i = Some j \<longleftrightarrow> after (rev xs) j = Some i"
proof (induction xs)
  case (Cons x xs)
  have s: "after (rev xs @ [x]) j = (if rev xs \<noteq> [] \<and> j = last (rev xs) then Some x else after (rev xs) j)"
    using Cons.prems by (intro after_snoc) auto
  show ?case
  proof (cases xs)
    case (Cons y ys)
    have n: "x \<notin> set xs" "y \<notin> set ys" using Cons.prems Cons by auto
    have y: "after (rev xs) y = None" unfolding Cons using n(2)
      by (simp add: after_append [of y "rev ys" "[]"])
    have x: "after (rev xs) j \<noteq> Some x" using n(1) after_Some [of "rev xs" j x] by auto
    have l: "last (rev xs) = y" "rev xs \<noteq> []" using Cons by auto
    show ?thesis
    proof (cases "i = x")
      case True
      then show ?thesis using s x l Cons by auto
    next
      case False
      then have "after (x # xs) i = after xs i" by simp
      moreover have "distinct xs" using Cons.prems by simp
      ultimately show ?thesis using Cons.IH s l y False by auto
    qed
  qed simp
qed simp

lemma before_after: "distinct xs \<Longrightarrow> before xs j = Some i \<longleftrightarrow> after xs i = Some j"
  using after_before [of xs i j] by (simp add: before_def)

lemma rev_remove1: "distinct xs \<Longrightarrow> rev (remove1 i xs) = remove1 i (rev xs)"
  by (simp add: distinct_remove1_removeAll removeAll_filter_not_eq rev_filter)

lemma before_remove1: "distinct xs \<Longrightarrow>
    before (remove1 i xs) j = (if j = i then None else if before xs j = Some i then before xs i else before xs j)"
  using after_remove1 [of "rev xs" i j] by (simp add: before_def rev_remove1)

lemma before_first: "distinct xs \<Longrightarrow> i \<in> set xs \<Longrightarrow> before xs i = None \<longleftrightarrow> first xs = Some i"
proof -
  assume a: "distinct xs" "i \<in> set xs"
  then obtain us vs where xs: "xs = us @ i # vs" by (auto dest: split_list)
  then have "before xs i = first (rev us)"
    using after_append [of i "rev vs" "rev us"] a(1) by (simp add: before_def)
  moreover have "first (rev us) = None \<longleftrightarrow> us = []" by (cases us rule: rev_cases) auto
  moreover have "first xs = Some i \<longleftrightarrow> us = []" using xs a(1) by (cases us) auto
  ultimately show ?thesis by simp
qed

lemma first_remove1: "distinct xs \<Longrightarrow> i \<in> set xs \<Longrightarrow>
    first (remove1 i xs) = (if before xs i = None then after xs i else first xs)"
  by (simp add: before_first first_remove1_hd)

section \<open>What the operations do to the descriptors\<close>

lemma myproc_upd_cur [simp]: "myproc (upd_cur f s) = f (myproc s)"
  by (simp add: upd_cur_def upd_proc_def myproc_def)

lemma curpgs_upd_pg [simp]: "curpgs (upd_pg i f s) = (curpgs s)(i := f (curpgs s i))"
  by (simp add: upd_pg_def)

lemma head_upd_pg [simp]: "head_page_in_mem (myproc (upd_pg i f s)) = head_page_in_mem (myproc s)"
  by (simp add: upd_pg_def)

lemma counts_upd_pg [simp]: "num_pages_in_main_mem (myproc (upd_pg i f s)) = num_pages_in_main_mem (myproc s)"
  "num_pages_in_file (myproc (upd_pg i f s)) = num_pages_in_file (myproc s)"
  by (simp_all add: upd_pg_def)

lemma update_counts: "num_pages_in_main_mem (myproc (updateListPointers i s)) = num_pages_in_main_mem (myproc s)"
  by (simp add: updateListPointers_def Let_def split: option.splits)

lemma update_links:
  "pg_next (curpgs (updateListPointers i s) j) =
     (if j = i then None else if pg_prev (curpgs s i) = Some j then pg_next (curpgs s i) else pg_next (curpgs s j))"
  "pg_prev (curpgs (updateListPointers i s) j) =
     (if j = i then None else if pg_next (curpgs s i) = Some j then pg_prev (curpgs s i) else pg_prev (curpgs s j))"
  "head_page_in_mem (myproc (updateListPointers i s)) =
     (if pg_prev (curpgs s i) = None then pg_next (curpgs s i) else head_page_in_mem (myproc s))"
  by (auto simp: updateListPointers_def Let_def split: option.splits)

lemma update_data:
  "page.truncate (curpgs (updateListPointers i s) j) = page.truncate (curpgs s j)"
  by (auto simp: updateListPointers_def Let_def page.truncate_def split: option.splits)

lemma index_truncate: "pages_array_index pg = pages_array_index (page.truncate pg)"
  by (simp add: page.truncate_def)

lemma upd_pg_same: "pg = curpgs s i \<Longrightarrow> upd_pg i (\<lambda>_. pg) s = s"
  by (simp add: upd_pg_def upd_cur_def upd_proc_def myproc_def)

text \<open>Taking a page off the list.\<close>

lemma update_resident:
  assumes "resident s xs" "i \<in> set xs"
  shows "resident (updateListPointers i s) (remove1 i xs)"
proof -
  have d: "distinct xs" and l: "\<And>j. pg_next (curpgs s j) = after xs j" "\<And>j. pg_prev (curpgs s j) = before xs j"
    using assms(1) by (auto simp: resident_def)
  have "pg_next (curpgs (updateListPointers i s) j) = after (remove1 i xs) j" for j
    using d by (simp add: update_links l after_remove1 before_after)
  moreover have "pg_prev (curpgs (updateListPointers i s) j) = before (remove1 i xs) j" for j
    using d by (simp add: update_links l before_remove1 before_after)
  moreover have "head_page_in_mem (myproc (updateListPointers i s)) = first (remove1 i xs)"
    using assms d by (simp add: update_links l first_remove1 resident_def)
  moreover have "pages_array_index (curpgs (updateListPointers i s) j) = pages_array_index (curpgs s j)" for j
    by (metis index_truncate update_data)
  ultimately show ?thesis
    using assms(1) set_remove1_subset [of i xs] by (simp add: resident_def) blast
qed

lemma list_tail_resident:
  "\<forall>i. pg_next (m i) = after (us @ x # vs) i \<Longrightarrow> distinct (us @ x # vs) \<Longrightarrow> length vs < n \<Longrightarrow>
   list_tail n m x = Some (last (x # vs))"
proof (induction vs arbitrary: n us x)
  case Nil
  then obtain k where "n = Suc k" by (cases n) auto
  then show ?case using Nil by (simp add: after_append)
next
  case (Cons v vs)
  then obtain k where n: "n = Suc k" by (cases n) auto
  have "pg_next (m x) = Some v" using Cons.prems by (simp add: after_append)
  moreover have "list_tail k m v = Some (last (v # vs))"
    using Cons.IH [of "us @ [x]" v k] Cons.prems n by simp
  ultimately show ?case using n by simp
qed

lemma resident_length: "resident s xs \<Longrightarrow> length xs \<le> MAX_TOTAL_PAGES"
proof -
  assume "resident s xs"
  then have "distinct xs" "set xs \<subseteq> {..<MAX_TOTAL_PAGES}" by (simp_all add: resident_def)
  then show ?thesis by (metis card_lessThan card_mono distinct_card finite_lessThan)
qed

lemma tail_resident:
  assumes "resident s xs" "xs \<noteq> []"
  shows "\<exists>h. head_page_in_mem (myproc s) = Some h \<and> list_tail MAX_TOTAL_PAGES (curpgs s) h = Some (last xs)"
proof -
  obtain h vs where xs: "xs = h # vs" using assms(2) by (cases xs) auto
  have "list_tail MAX_TOTAL_PAGES (curpgs s) h = Some (last (h # vs))"
    using assms(1) resident_length [OF assms(1)] unfolding xs
    by (intro list_tail_resident [of _ "[]"]) (auto simp: resident_def)
  then show ?thesis using assms(1) xs by (simp add: resident_def)
qed

section \<open>The choice of a page\<close>

text \<open>The first element of \<open>b # ys\<close> with the least value of \<open>c\<close>.\<close>

fun first_min :: "('b \<Rightarrow> u32) \<Rightarrow> 'b \<Rightarrow> 'b list \<Rightarrow> 'b" where
  "first_min c b [] = b"
| "first_min c b (y # ys) = (if c y < c b then first_min c y ys else first_min c b ys)"

lemma choose_first_min:
  "\<forall>i. pg_next (m i) = after (us @ x # vs) i \<Longrightarrow> distinct (us @ x # vs) \<Longrightarrow> length vs < n \<Longrightarrow>
   choose_loop n m x b (counter (m b)) = Some (first_min (\<lambda>i. counter (m i)) b vs)"
proof (induction vs arbitrary: n us x b)
  case Nil
  then obtain k where "n = Suc k" by (cases n) auto
  then show ?case using Nil by (simp add: after_append)
next
  case (Cons v vs)
  then obtain k where n: "n = Suc k" by (cases n) auto
  have "pg_next (m x) = Some v" using Cons.prems by (simp add: after_append)
  moreover have "choose_loop k m v b' (counter (m b')) = Some (first_min (\<lambda>i. counter (m i)) b' vs)" for b'
    using Cons.IH [of "us @ [x]" v k b'] Cons.prems n by simp
  ultimately show ?case using n by simp
qed

lemma first_min_split:
  "\<exists>us vs. b # ys = us @ first_min c b ys # vs \<and> (\<forall>u\<in>set us. c (first_min c b ys) < c u)
     \<and> (\<forall>v\<in>set vs. c (first_min c b ys) \<le> c v)"
proof (induction ys arbitrary: b)
  case (Cons y ys)
  show ?case
  proof (cases "c y < c b")
    case True
    obtain us vs where h: "y # ys = us @ first_min c y ys # vs" "\<forall>u\<in>set us. c (first_min c y ys) < c u"
      "\<forall>v\<in>set vs. c (first_min c y ys) \<le> c v" using Cons.IH by blast
    have e: "first_min c b (y # ys) = first_min c y ys" using True by simp
    have "c (first_min c y ys) \<le> c y" using h by (cases us) (auto intro: less_imp_le)
    then have "c (first_min c y ys) < c b" using True by (rule le_less_trans)
    then show ?thesis unfolding e
      by (intro exI [of _ "b # us"] exI [of _ vs] conjI) (use h in \<open>simp_all del: first_min.simps\<close>)
  next
    case False
    obtain us vs where h: "b # ys = us @ first_min c b ys # vs" "\<forall>u\<in>set us. c (first_min c b ys) < c u"
      "\<forall>v\<in>set vs. c (first_min c b ys) \<le> c v" using Cons.IH by blast
    show ?thesis
    proof (cases us)
      case Nil
      then have "first_min c b ys = b" "vs = ys" using h(1) unfolding Nil by auto
      then show ?thesis using False h(3) by (intro exI [of _ "[]"] exI [of _ "y # ys"]) simp
    next
      case u: (Cons u us')
      then have u': "u = b" "ys = us' @ first_min c b ys # vs"
        using h(1) by (metis append_Cons list.inject)+
      then have "c (first_min c b ys) < c b" using h(2) u by simp
      then have "c (first_min c b ys) < c y" using False by simp
      have e: "first_min c b (y # ys) = first_min c b ys" using False by simp
      show ?thesis unfolding e
        using \<open>c (first_min c b ys) < c b\<close> \<open>c (first_min c b ys) < c y\<close> h(2,3) u u'
        by (intro exI [of _ "b # y # us'"] exI [of _ vs] conjI) (simp_all del: first_min.simps)
    qed
  qed
qed (intro exI [of _ "[]"], simp)

section \<open>Properties\<close>

text \<open>
  C31: The page chosen for eviction is the right one. When the links form the list \<open>xs\<close> of resident
  pages, \<open>choosePageFromPhysMem\<close> returns without running in circles; it finds a page exactly when there
  is one, and it is the first page of the list whose access counter is least.
\<close>

theorem choose_least_recent:
  assumes "resident s xs"
  shows "choosePageFromPhysMem s =
     Ok (if xs = [] then None else Some (first_min (\<lambda>i. counter (curpgs s i)) (hd xs) (tl xs)))
   \<and> (xs = [] \<or> (\<exists>us i vs. xs = us @ i # vs \<and> choosePageFromPhysMem s = Ok (Some i)
        \<and> (\<forall>u\<in>set us. counter (curpgs s i) < counter (curpgs s u))
        \<and> (\<forall>v\<in>set vs. counter (curpgs s i) \<le> counter (curpgs s v))))"
proof (cases xs)
  case Nil
  then show ?thesis using assms by (simp add: choosePageFromPhysMem_def resident_def)
next
  case (Cons h vs)
  have "choose_loop MAX_TOTAL_PAGES (curpgs s) h h (counter (curpgs s h))
      = Some (first_min (\<lambda>i. counter (curpgs s i)) h vs)"
    using assms resident_length [OF assms] unfolding Cons
    by (intro choose_first_min [of _ "[]"]) (auto simp: resident_def)
  then have "choosePageFromPhysMem s = Ok (Some (first_min (\<lambda>i. counter (curpgs s i)) h vs))"
    using assms Cons by (simp add: choosePageFromPhysMem_def resident_def)
  then show ?thesis using Cons first_min_split [of h vs "\<lambda>i. counter (curpgs s i)"] by auto
qed

text \<open>The table of an example: three of its descriptors are on the list, in the order 4, 0, 7.\<close>

definition three_pages :: "nat \<Rightarrow> page_in_mem" where
  "three_pages i = \<lparr>virtualAddr = (if i = 4 then 0x4000 else if i = 0 then 0x1000 else if i = 7 then 0x7000 else 0xFFFFFFFF),
     pagestate = (if i \<in> {0, 4, 7} then 1 else 0), offset_in_file = - 1,
     counter = (if i = 4 then 9 else if i = 0 then 2 else 5), pages_array_index = of_nat i,
     pg_next = after [4, 0, 7] i, pg_prev = before [4, 0, 7] i\<rparr>"

definition paging0 :: vmst where
  "paging0 = upd_cur (\<lambda>p. p\<lparr>paging_meta_data := three_pages, head_page_in_mem := Some 4,
     num_pages_in_main_mem := 3, num_pages_in_file := 0\<rparr>) vm0"

lemma curpgs_paging0: "curpgs paging0 = three_pages" "head_page_in_mem (myproc paging0) = Some 4"
  "num_pages_in_main_mem (myproc paging0) = 3" "num_pages_in_file (myproc paging0) = 0"
  by (simp_all add: paging0_def)

lemma paging0_resident: "resident paging0 [4, 0, 7]"
  by (simp add: resident_def curpgs_paging0 three_pages_def MAX_TOTAL_PAGES_def)

theorem choose_least_recent_witness:
  "choosePageFromPhysMem paging0 = Ok (Some 0)"
  using choose_least_recent [OF paging0_resident] by (simp add: curpgs_paging0 three_pages_def)

lemma add_nonempty:
  assumes "resident s xs" "xs \<noteq> []" "slot_for a (curpgs s) = Some i" "i \<notin> set xs" "i < MAX_TOTAL_PAGES"
  shows "\<exists>t. addNewPageToPhysMem a s = Ok t \<and> resident t (xs @ [i])
     \<and> virtualAddr (curpgs t i) = a \<and> pagestate (curpgs t i) = 1 \<and> counter (curpgs t i) = 0
     \<and> (\<forall>j. j \<noteq> i \<longrightarrow> page.truncate (curpgs t j) = page.truncate (curpgs s j))
     \<and> num_pages_in_main_mem (myproc t) = num_pages_in_main_mem (myproc s) + 1"
proof -
  obtain h where h: "head_page_in_mem (myproc s) = Some h"
      "list_tail MAX_TOTAL_PAGES (curpgs s) h = Some (last xs)"
    using tail_resident [OF assms(1,2)] by blast
  have d: "distinct xs" "last xs \<in> set xs" "set xs \<subseteq> {..<MAX_TOTAL_PAGES}"
    using assms(1,2) by (auto simp: resident_def)
  then have lt: "last xs < MAX_TOTAL_PAGES" by auto
  have x: "unat (pages_array_index (curpgs s (last xs))) = last xs"
    using assms(1) lt by (simp add: resident_def MAX_TOTAL_PAGES_def unat_of_nat_u32)
  have ne: "last xs \<noteq> i" using d assms(4) by auto
  have l: "\<And>j. pg_next (curpgs s j) = after xs j" "\<And>j. pg_prev (curpgs s j) = before xs j"
    using assms(1) by (auto simp: resident_def)
  define t where "t = upd_cur (\<lambda>p. p\<lparr>num_pages_in_main_mem := num_pages_in_main_mem p + 1\<rparr>)
     (upd_pg i (fresh_page a i) (upd_pg i (\<lambda>pg. pg\<lparr>pg_prev := Some (last xs)\<rparr>)
        (upd_pg (last xs) (\<lambda>pg. pg\<lparr>pg_next := Some i\<rparr>) s)))"
  have "addNewPageToPhysMem a s = Ok t"
    using h assms(3) x ne
    by (simp add: addNewPageToPhysMem_def t_def Let_def upd_pg_same)
  moreover have "resident t (xs @ [i])"
  proof -
    have "pg_next (curpgs t j) = after (xs @ [i]) j" "pg_prev (curpgs t j) = before (xs @ [i]) j" for j
      using ne d(1) assms(2,4) by (simp_all add: t_def fresh_page_def l after_snoc before_snoc after_notin first_rev)
    moreover have "pages_array_index (curpgs t j) = of_nat j" if "j < MAX_TOTAL_PAGES" for j
      using that assms(1) ne by (auto simp: t_def fresh_page_def resident_def)
    moreover have "head_page_in_mem (myproc t) = first (xs @ [i])"
      using assms(1,2) by (simp add: t_def first_append resident_def)
    ultimately show ?thesis using d assms(4,5) by (simp add: resident_def)
  qed
  ultimately show ?thesis by (simp add: t_def fresh_page_def ne page.truncate_def)
qed

lemma find_Some: "List.find P [0..<n] = Some i \<Longrightarrow> i < n \<and> P i \<and> (\<forall>j<i. \<not> P j)"
  by (auto simp: find_Some_iff)

text \<open>
  C30: A new page is appended to the list of resident pages. It gets the lowest free descriptor when
  the list has an element, and descriptor 0 otherwise; its fields are set for a page that is in memory
  with a counter of 0, the count goes up, and no other page's data changes.
\<close>

theorem add_page_appends:
  assumes "resident s xs" "\<forall>j\<in>set xs. pagestate (curpgs s j) = 1"
    and "find_va (PTE_ADDR a) (curpgs s) = None" "find_state 0 (curpgs s) = Some f"
    and i: "i = (if xs = [] then 0 else f)"
  shows "(\<exists>t. addNewPageToPhysMem a s = Ok t \<and> resident t (xs @ [i])
     \<and> virtualAddr (curpgs t i) = a \<and> pagestate (curpgs t i) = 1 \<and> counter (curpgs t i) = 0
     \<and> (\<forall>j. j \<noteq> i \<longrightarrow> page.truncate (curpgs t j) = page.truncate (curpgs s j))
     \<and> num_pages_in_main_mem (myproc t) = num_pages_in_main_mem (myproc s) + 1)
   \<and> f < MAX_TOTAL_PAGES \<and> pagestate (curpgs s f) = 0 \<and> (\<forall>j<f. pagestate (curpgs s j) \<noteq> 0)"
proof (intro conjI)
  have f: "f < MAX_TOTAL_PAGES \<and> pagestate (curpgs s f) = 0 \<and> (\<forall>j<f. pagestate (curpgs s j) \<noteq> 0)"
    using find_Some assms(4) unfolding find_state_def by fast
  then show "f < MAX_TOTAL_PAGES" "pagestate (curpgs s f) = 0" "\<forall>j<f. pagestate (curpgs s j) \<noteq> 0" by simp_all
  show "\<exists>t. addNewPageToPhysMem a s = Ok t \<and> resident t (xs @ [i])
     \<and> virtualAddr (curpgs t i) = a \<and> pagestate (curpgs t i) = 1 \<and> counter (curpgs t i) = 0
     \<and> (\<forall>j. j \<noteq> i \<longrightarrow> page.truncate (curpgs t j) = page.truncate (curpgs s j))
     \<and> num_pages_in_main_mem (myproc t) = num_pages_in_main_mem (myproc s) + 1"
  proof (cases "xs = []")
    case True
    then show ?thesis using assms(1) i
      by (simp add: addNewPageToPhysMem_def resident_def fresh_page_def page.truncate_def MAX_TOTAL_PAGES_def)
         (simp add: before_def)
  next
    case False
    have "f \<notin> set xs" using f assms(2) by auto
    then show ?thesis using add_nonempty [OF assms(1) False, of a f] f assms(3,4) i False
      by (simp add: slot_for_def)
  qed
qed

theorem add_page_appends_witness:
  "\<exists>t. addNewPageToPhysMem 0x9000 paging0 = Ok t \<and> resident t [4, 0, 7, 1] \<and> virtualAddr (curpgs t 1) = 0x9000"
proof -
  have "find_state 0 three_pages = Some 1"
    by (simp add: find_state_def MAX_TOTAL_PAGES_def three_pages_def upt_rec)
  moreover have "find_va (PTE_ADDR 0x9000) three_pages = None"
    by (simp add: find_va_def find_None_iff three_pages_def PTE_ADDR_def)
  ultimately show ?thesis
    using add_page_appends [OF paging0_resident, of "0x9000" 1 1] by (auto simp: curpgs_paging0 three_pages_def)
qed

text \<open>
  Deleting a resident page of a process that has no page in its swap file takes the page, and
  nothing else, off the list, frees its descriptor and lowers the count.
\<close>

theorem delete_page_removes:
  assumes "resident s xs" "i \<in> set xs" "num_pages_in_file (myproc s) = 0"
  shows "\<exists>t. deletePage i s = Ok t \<and> resident t (remove1 i xs)
     \<and> virtualAddr (curpgs t i) = 0xFFFFFFFF \<and> pagestate (curpgs t i) = 0
     \<and> (\<forall>j. j \<noteq> i \<longrightarrow> page.truncate (curpgs t j) = page.truncate (curpgs s j))
     \<and> num_pages_in_main_mem (myproc t) = (if num_pages_in_main_mem (myproc s) = 0 then 0
                                            else num_pages_in_main_mem (myproc s) - 1)"
proof -
  define u where "u = upd_pg i (\<lambda>pg. pg\<lparr>virtualAddr := 0xFFFFFFFF, pagestate := 0, offset_in_file := - 1\<rparr>)
      (if num_pages_in_main_mem (myproc s) > 0
       then upd_cur (\<lambda>p. p\<lparr>num_pages_in_main_mem := num_pages_in_main_mem p - 1\<rparr>) s else s)"
  have "resident u xs" using assms(1) by (simp add: u_def resident_def)
  then have r: "resident (updateListPointers i u) (remove1 i xs)" using assms(2) by (rule update_resident)
  have d: "page.truncate (curpgs (updateListPointers i u) j) = page.truncate (curpgs u j)" for j
    by (rule update_data)
  have i: "i < MAX_TOTAL_PAGES" using assms(1,2) by (auto simp: resident_def)
  then have "unat (pages_array_index (curpgs (updateListPointers i u) i)) = i"
    using r by (simp add: resident_def MAX_TOTAL_PAGES_def unat_of_nat_u32)
  then have "deletePage i s = Ok (updateListPointers i u)"
    using assms(3) by (simp add: deletePage_def u_def Let_def upd_pg_same)
  moreover have "virtualAddr (curpgs (updateListPointers i u) i) = 0xFFFFFFFF"
      "pagestate (curpgs (updateListPointers i u) i) = 0"
    using d [of i] by (simp_all add: page.truncate_def u_def)
  moreover have "num_pages_in_main_mem (myproc (updateListPointers i u)) =
      (if num_pages_in_main_mem (myproc s) = 0 then 0 else num_pages_in_main_mem (myproc s) - 1)"
    by (simp add: update_counts u_def word_neq_0_conv)
  ultimately show ?thesis using r d by (simp add: u_def)
qed

theorem delete_page_removes_witness:
  "\<exists>t. deletePage 0 paging0 = Ok t \<and> resident t [4, 7] \<and> num_pages_in_main_mem (myproc t) = 2"
  using delete_page_removes [OF paging0_resident, of 0] by (auto simp: curpgs_paging0)

end
