(* ===== verification/Uvm.thy ===== *)
theory Uvm
  imports Paging
begin

text \<open>
  The address spaces of \<open>vm.c\<close>: growing and shrinking user memory, making, copying and freeing page
  tables, loading a program segment. A loop over the pages of a range is a recursion on the list of
  their addresses; \<open>deallocuvm\<close>, which also skips whole page tables, counts in natural numbers and
  returns \<open>Hang\<close> where the 32-bit address of the source wraps around and the loop starts over.
\<close>

text \<open>The pages \<open>a, a + PGSIZE, ...\<close> below \<open>b\<close> (for \<open>b\<close> at most \<open>2 ^ 32 - PGSIZE\<close>, where the source does not wrap).\<close>

definition page_range :: "u32 \<Rightarrow> u32 \<Rightarrow> u32 list" where
  "page_range a b = map (\<lambda>k. a + of_nat k * PGSIZE) [0..<(unat b - unat a + 4095) div 4096]"

section \<open>Shrinking\<close>

text \<open>One page of \<open>deallocuvm\<close> whose entry \<open>pte\<close> exists.\<close>

definition forget_page :: "page_in_mem \<Rightarrow> page_in_mem" where
  "forget_page pg = pg\<lparr>virtualAddr := 0xFFFFFFFF, counter := 0, offset_in_file := - 1, pagestate := 0\<rparr>"

definition dealloc_page :: "u32 \<Rightarrow> u32 \<Rightarrow> u32 \<Rightarrow> 'a vmst_scheme \<Rightarrow> 'a vmst_scheme res" where
  "dealloc_page pd a pte s =
     (if pte_at s pte AND PTE_P \<noteq> 0
      then
        let pa = PTE_ADDR (pte_at s pte) in
        if pa = 0 then Panic ''kfree''
        else
          bindr (kfree (P2V pa) s) (\<lambda>s.
          let s = set_pte pte 0 s in
          if pgdir (myproc s) = pd
          then (case find_va a (curpgs s) of Some i \<Rightarrow> deletePage i s | None \<Rightarrow> Ok s)
          else Ok s)
      else if pte_at s pte AND PTE_PG \<noteq> 0 \<and> pd = pgdir (myproc s)
      then
        let s = (case find_va (PTE_ADDR a) (curpgs s) of
                   Some i \<Rightarrow>
                     upd_pg i forget_page
                       (upd_cur (\<lambda>p. p\<lparr>num_pages_in_file := num_pages_in_file p - 1\<rparr>) s)
                 | None \<Rightarrow> s)
        in Ok (set_pte pte 0 s)
      else Ok s)"

text \<open>The first address that the next page table maps.\<close>

definition next_table :: "nat \<Rightarrow> nat" where
  "next_table a = (a div 2 ^ 22 + 1) * 2 ^ 22"

lemma next_table_gt: "a < next_table a"
  by (simp add: next_table_def)

function dealloc_loop :: "u32 \<Rightarrow> nat \<Rightarrow> u32 \<Rightarrow> 'a vmst_scheme \<Rightarrow> 'a vmst_scheme res" where
  "dealloc_loop pd a oldsz s =
     (if 2 ^ 32 \<le> a then Hang
      else if unat oldsz \<le> a then Ok s
      else
        case lookup pd (of_nat a) s of
          None \<Rightarrow> dealloc_loop pd (next_table a) oldsz s
        | Some pte \<Rightarrow> bindr (dealloc_page pd (of_nat a) pte s) (dealloc_loop pd (a + 4096) oldsz))"
  by pat_completeness auto
termination
  by (relation "measure (\<lambda>(pd, a, oldsz, s). 2 ^ 32 - a)") (auto simp: next_table_gt intro!: diff_less_mono2)

declare dealloc_loop.simps [simp del]

definition deallocuvm :: "u32 \<Rightarrow> u32 \<Rightarrow> u32 \<Rightarrow> 'a vmst_scheme \<Rightarrow> (u32 \<times> 'a vmst_scheme) res" where
  "deallocuvm pd oldsz newsz s =
     (if newsz \<ge> oldsz then Ok (oldsz, s)
      else bindr (dealloc_loop pd (unat (PGROUNDUP newsz)) oldsz s) (\<lambda>s. Ok (newsz, s)))"

definition free_table :: "u32 \<Rightarrow> nat \<Rightarrow> 'a vmst_scheme \<Rightarrow> 'a vmst_scheme res" where
  "free_table pd i s =
     (let e = pte_at s (pd + 4 * of_nat i)
      in if e AND PTE_P \<noteq> 0 then kfree (P2V (PTE_ADDR e)) s else Ok s)"

definition freevm :: "u32 \<Rightarrow> 'a vmst_scheme \<Rightarrow> 'a vmst_scheme res" where
  "freevm pd s =
     (if pd = 0 then Panic ''freevm: no pgdir''
      else
        bindr (deallocuvm pd KERNBASE 0 (s\<lparr>use_system_pgdir := True, system_pgdir := pd\<rparr>)) (\<lambda>(_, s).
        bindr (foldr_res (free_table pd) [0..<NPDENTRIES] s) (\<lambda>s.
        kfree pd (s\<lparr>use_system_pgdir := False\<rparr>))))"

section \<open>Making a page table\<close>

fun map_kernel :: "u32 \<Rightarrow> (u32 \<times> u32 \<times> u32 \<times> u32) list \<Rightarrow> 'a vmst_scheme \<Rightarrow> (u32 \<times> 'a vmst_scheme) res" where
  "map_kernel pd [] s = Ok (pd, s)"
| "map_kernel pd ((virt, phys_start, phys_end, perm) # ks) s =
     bindr (mappages pd virt (phys_end - phys_start) phys_start perm s) (\<lambda>(r, s).
       if r < 0 then bindr (freevm pd s) (\<lambda>s. Ok (0, s)) else map_kernel pd ks s)"

definition setupkvm :: "'a vmst_scheme \<Rightarrow> (u32 \<times> 'a vmst_scheme) res" where
  "setupkvm s =
     (case kalloc s of (pd, s) \<Rightarrow>
        if pd = 0 then Ok (0, s)
        else if P2V PHYSTOP > DEVSPACE then Panic ''PHYSTOP too high''
        else map_kernel pd (kmap s) (zero_pg pd s))"

definition kvmalloc :: "'a vmst_scheme \<Rightarrow> 'a vmst_scheme res" where
  "kvmalloc s = bindr (setupkvm s) (\<lambda>(pd, s). Ok (switchkvm (s\<lparr>kpgdir := pd\<rparr>)))"

section \<open>Growing\<close>

text \<open>
  Making room in memory before page \<open>a\<close> of a user process (pid above 2) is added; the result is
  false when the process has too many pages or the swap file could not be written.
\<close>

definition make_room :: "'a vmst_scheme \<Rightarrow> (bool \<times> 'a vmst_scheme) res" where
  "make_room s =
     (if pid (myproc s) > 2 \<and> num_pages_in_main_mem (myproc s) = of_nat MAX_PSYC_PAGES
      then
        if num_pages_in_file (myproc s) = of_nat (MAX_TOTAL_PAGES - MAX_PSYC_PAGES) then Ok (False, s)
        else
          bindr (if swapFile (myproc s) = None then createSwapFile (curproc s) s else Ok s) (\<lambda>s.
          bindr (choosePageFromPhysMem s) (\<lambda>pg.
          bindr (mem2File pg s) (\<lambda>(r, s). Ok (r \<noteq> - 1, s))))
      else Ok (True, s))"

fun alloc_loop :: "u32 \<Rightarrow> u32 \<Rightarrow> u32 \<Rightarrow> u32 list \<Rightarrow> 'a vmst_scheme \<Rightarrow> (u32 \<times> 'a vmst_scheme) res" where
  "alloc_loop pd oldsz newsz [] s = Ok (newsz, s)"
| "alloc_loop pd oldsz newsz (a # as) s =
     bindr (make_room s) (\<lambda>(ok, s).
     if \<not> ok then Ok (0, s)
     else
       case kalloc s of (pg, s) \<Rightarrow>
         if pg = 0 then bindr (deallocuvm pd newsz oldsz s) (\<lambda>(_, s). Ok (0, s))
         else
           bindr (mappages pd a PGSIZE (V2P pg) (PTE_W OR PTE_U) (zero_pg pg s)) (\<lambda>(r, s).
           if r < 0
           then bindr (deallocuvm pd newsz oldsz s) (\<lambda>(_, s). bindr (kfree pg s) (\<lambda>s. Ok (0, s)))
           else bindr (addNewPageToPhysMem a s) (alloc_loop pd oldsz newsz as)))"

definition allocuvm :: "u32 \<Rightarrow> u32 \<Rightarrow> u32 \<Rightarrow> 'a vmst_scheme \<Rightarrow> (u32 \<times> 'a vmst_scheme) res" where
  "allocuvm pd oldsz newsz s =
     (if newsz \<ge> KERNBASE then Ok (0, s)
      else if newsz < oldsz then Ok (oldsz, s)
      else alloc_loop pd oldsz newsz (page_range (PGROUNDUP oldsz) newsz) s)"

section \<open>Copying and loading\<close>

definition page_bytes :: "u32 \<Rightarrow> memory \<Rightarrow> u8 list" where
  "page_bytes a m = map (\<lambda>i. m (a + of_nat i)) [0..<4096]"

text \<open>The flag is false when memory ran out and the copy has to be undone.\<close>

fun copy_loop :: "u32 \<Rightarrow> u32 \<Rightarrow> u32 list \<Rightarrow> 'a vmst_scheme \<Rightarrow> (bool \<times> 'a vmst_scheme) res" where
  "copy_loop pd d [] s = Ok (True, s)"
| "copy_loop pd d (i # is) s =
     (case lookup pd i s of
        None \<Rightarrow> Panic ''copyuvm: pte should exist''
      | Some pte \<Rightarrow>
          if pte_at s pte AND PTE_P = 0 then Panic ''copyuvm: page not present''
          else
            let pa = PTE_ADDR (pte_at s pte); flgs = PTE_FLAGS (pte_at s pte) in
            case kalloc s of (pg, s) \<Rightarrow>
              if pg = 0 then Ok (False, s)
              else
                bindr (mappages d i PGSIZE (V2P pg) flgs
                         (s\<lparr>mem := put_bytes pg (page_bytes (P2V pa) (mem s)) (mem s)\<rparr>)) (\<lambda>(r, s).
                if r < 0 then bindr (kfree pg s) (\<lambda>s. Ok (False, s)) else copy_loop pd d is s))"

definition copyuvm :: "u32 \<Rightarrow> u32 \<Rightarrow> 'a vmst_scheme \<Rightarrow> (u32 \<times> 'a vmst_scheme) res" where
  "copyuvm pd n s =
     bindr (setupkvm s) (\<lambda>(d, s).
     if d = 0 then Ok (0, s)
     else
       bindr (copy_loop pd d (page_range 0 n) s) (\<lambda>(ok, s).
       if ok then Ok (d, s) else bindr (freevm d s) (\<lambda>s. Ok (0, s))))"

text \<open>The pages of the segment, each with the number of bytes to read.\<close>

fun load_loop :: "u32 \<Rightarrow> u32 \<Rightarrow> nat \<Rightarrow> u32 \<Rightarrow> u32 \<Rightarrow> u32 list \<Rightarrow> 'a vmst_scheme \<Rightarrow> (int \<times> 'a vmst_scheme) res" where
  "load_loop pd a ip off n [] s = Ok (0, s)"
| "load_loop pd a ip off n (i # is) s =
     (case lookup pd (a + i) s of
        None \<Rightarrow> Panic ''loaduvm: address should exist''
      | Some pte \<Rightarrow>
          let pa = PTE_ADDR (pte_at s pte); m = (if n - i < PGSIZE then n - i else PGSIZE) in
          bindr (readi ip (off + i) m s) (\<lambda>(r, got, s).
          let s = s\<lparr>mem := put_bytes (P2V pa) got (mem s)\<rparr> in
          if r \<noteq> int (unat m) then Ok (- 1, s) else load_loop pd a ip off n is s))"

definition loaduvm :: "u32 \<Rightarrow> u32 \<Rightarrow> nat \<Rightarrow> u32 \<Rightarrow> u32 \<Rightarrow> 'a vmst_scheme \<Rightarrow> (int \<times> 'a vmst_scheme) res" where
  "loaduvm pd a ip off n s =
     (if a mod PGSIZE \<noteq> 0 then Panic ''loaduvm: addr must be page aligned''
      else load_loop pd a ip off n (page_range 0 n) s)"

end
