(* ===== verification/Proc.thy ===== *)
theory Proc
  imports Uvm
begin

text \<open>
  The life of a process, \<open>proc.c\<close>: allocation of an entry, \<open>fork\<close>, \<open>exit\<close>, \<open>wait\<close>, \<open>growproc\<close>, the
  kernel processes, the scheduler's pass over the table, and the sampling of accesses by the timer.
  Pointers to processes are indices. What is not under \<open>src\<close> as C is a parameter: the addresses of
  \<open>trapret\<close> and \<open>forkret\<close>, the bytes of the assembled \<open>initcode\<close>, and what a process does while it runs.
\<close>

record kernel = vmst +
  time_counter :: u32
  first_run :: bool
  a_trapret :: u32
  a_forkret :: u32

definition SEG_UCODE :: u16 where "SEG_UCODE = 3"
definition SEG_UDATA :: u16 where "SEG_UDATA = 4"
definition DPL_USER :: u16 where "DPL_USER = 3"
definition FL_IF :: u32 where "FL_IF = 0x200"
definition KSTACKSIZE :: u32 where "KSTACKSIZE = 4096"
definition SIZEOF_TRAPFRAME :: u32 where "SIZEOF_TRAPFRAME = 76"
definition SIZEOF_CONTEXT :: u32 where "SIZEOF_CONTEXT = 20"

section \<open>Allocation\<close>

definition reset_page :: "nat \<Rightarrow> page_in_mem \<Rightarrow> page_in_mem" where
  "reset_page i pg = pg\<lparr>virtualAddr := 0xFFFFFFFF, pagestate := 0, offset_in_file := - 1,
     pages_array_index := of_nat i, pg_next := None, pg_prev := None\<rparr>"

definition resetProcessPagesData :: "proc \<Rightarrow> proc" where
  "resetProcessPagesData p = p\<lparr>swapFile := None,
     paging_meta_data := (\<lambda>i. if i < MAX_TOTAL_PAGES then reset_page i (paging_meta_data p i) else paging_meta_data p i),
     num_pages_in_file := 0, num_pages_in_main_mem := 0, head_page_in_mem := None\<rparr>"

text \<open>The initial kernel stack: room for the trap frame, the return address, a zeroed context.\<close>

definition init_stack :: "u32 \<Rightarrow> 'a kernel_scheme \<Rightarrow> u32 \<times> 'a kernel_scheme" where
  "init_stack stk s =
     (let sp = stk + KSTACKSIZE - SIZEOF_TRAPFRAME - 4;
          m = wr32 (mem s) sp (a_trapret s);
          ctx = sp - SIZEOF_CONTEXT;
          m = memset m ctx 0 SIZEOF_CONTEXT;
          m = wr32 m (ctx + 16) (a_forkret s)
      in (ctx, s\<lparr>mem := m\<rparr>))"

text \<open>\<open>nextpid\<close> is an \<open>int\<close> of 32 bits; nothing checks whether it wraps.\<close>

definition int32 :: "int \<Rightarrow> int" where "int32 n = sint (word_of_int n :: u32)"

definition allocproc :: "'a kernel_scheme \<Rightarrow> nat option \<times> 'a kernel_scheme" where
  "allocproc s =
     (case List.find (\<lambda>i. pstate (procs s i) = UNUSED) [0..<NPROC] of
        None \<Rightarrow> (None, s)
      | Some i \<Rightarrow>
          let s = upd_proc i (\<lambda>p. p\<lparr>pstate := EMBRYO, pid := nextpid s, va := 0\<rparr>) (s\<lparr>nextpid := int32 (nextpid s + 1)\<rparr>) in
          case kalloc s of (stk, s) \<Rightarrow>
            if stk = 0 then (None, upd_proc i (\<lambda>p. p\<lparr>kstack := 0, pstate := UNUSED\<rparr>) s)
            else
              case init_stack stk s of (ctx, s) \<Rightarrow>
                (Some i, upd_proc i (\<lambda>p. resetProcessPagesData (p\<lparr>kstack := stk, kcontext := ctx\<rparr>)) s))"

section \<open>The first processes\<close>

definition user_tf :: "u16 \<Rightarrow> u32 \<Rightarrow> trapframe" where
  "user_tf dpl entry = zero_tf\<lparr>tf_cs := push_bit 3 SEG_UCODE OR dpl, tf_ds := push_bit 3 SEG_UDATA OR dpl,
     tf_es := push_bit 3 SEG_UDATA OR dpl, tf_ss := push_bit 3 SEG_UDATA OR dpl,
     tf_eflags := FL_IF, tf_esp := PGSIZE, tf_eip := entry\<rparr>"

text \<open>The name array has 16 bytes, the last one for the NUL.\<close>

definition proc_name :: "string \<Rightarrow> string" where "proc_name cs = take 15 cs"

definition create_kernel_process :: "string \<Rightarrow> u32 \<Rightarrow> 'a kernel_scheme \<Rightarrow> 'a kernel_scheme res" where
  "create_kernel_process name entry s =
     (case allocproc s of
        (None, s) \<Rightarrow> Ok s
      | (Some i, s) \<Rightarrow>
          bindr (setupkvm s) (\<lambda>(pd, s).
          let s = upd_proc i (\<lambda>p. p\<lparr>pgdir := pd\<rparr>) s in
          if pd = 0 then Panic ''out of memory?''
          else
            let s = upd_proc i (\<lambda>p. p\<lparr>sz := PGSIZE, parent := initproc s, tf := user_tf 0 entry,
                      pname := proc_name name\<rparr>) s
            in bindr (namei [47] s) (\<lambda>(dir, s).
               Ok (upd_proc i (\<lambda>p. p\<lparr>cwd := dir, pstate := SLEEPING\<rparr>) s))))"

definition userinit :: "u8 list \<Rightarrow> u32 \<Rightarrow> u32 \<Rightarrow> 'a kernel_scheme \<Rightarrow> 'a kernel_scheme res" where
  "userinit initcode a_swapin a_swapout s =
     (case allocproc s of
        (None, s) \<Rightarrow> NullDeref
      | (Some i, s) \<Rightarrow>
          bindr (setupkvm (s\<lparr>initproc := Some i\<rparr>)) (\<lambda>(pd, s).
          let s = upd_proc i (\<lambda>p. p\<lparr>pgdir := pd\<rparr>) s in
          if pd = 0 then Panic ''userinit: out of memory?''
          else
            bindr (inituvm pd initcode s) (\<lambda>s.
            let s = upd_proc i (\<lambda>p. p\<lparr>sz := PGSIZE, tf := user_tf DPL_USER 0,
                      pname := proc_name ''initcode''\<rparr>) s in
            bindr (namei [47] s) (\<lambda>(dir, s).
            let s = upd_proc i (\<lambda>p. p\<lparr>cwd := dir, pstate := RUNNABLE\<rparr>) s in
            bindr (create_kernel_process ''swapin'' a_swapin s)
              (create_kernel_process ''swapout'' a_swapout)))))"

section \<open>growproc, fork, exit, wait\<close>

definition growproc :: "int \<Rightarrow> 'a kernel_scheme \<Rightarrow> (int \<times> 'a kernel_scheme) res" where
  "growproc n s =
     (let n0 = sz (myproc s);
          s = (if va (myproc s) = 0 then upd_cur (\<lambda>p. p\<lparr>va := n0\<rparr>) s else s)
      in
      bindr
        (if n > 0 then allocuvm (pgdir (myproc s)) n0 (n0 + of_int n) s
         else if n < 0 then deallocuvm (pgdir (myproc s)) n0 (n0 + of_int n) s
         else Ok (n0, s))
        (\<lambda>(n1, s).
           if n \<noteq> 0 \<and> n1 = 0 then Ok (- 1, s)
           else
             bindr (switchuvm (curproc s) (upd_cur (\<lambda>p. p\<lparr>sz := n1\<rparr>) s)) (\<lambda>s. Ok (0, s))))"

text \<open>\<open>fork\<close> duplicates the references to the open files one after the other.\<close>

definition dup_file :: "nat \<Rightarrow> nat \<Rightarrow> 'a kernel_scheme \<Rightarrow> 'a kernel_scheme res" where
  "dup_file np fd s =
     (case ofile (myproc s) fd of
        None \<Rightarrow> Ok s
      | Some f \<Rightarrow>
          bindr (filedup f s) (\<lambda>s. Ok (upd_proc np (\<lambda>p. p\<lparr>ofile := (ofile p)(fd := Some f)\<rparr>) s)))"

definition fork :: "'a kernel_scheme \<Rightarrow> (int \<times> 'a kernel_scheme) res" where
  "fork s =
     (case allocproc s of
        (None, s) \<Rightarrow> Ok (- 1, s)
      | (Some np, s) \<Rightarrow>
          bindr (copyuvm (pgdir (myproc s)) (sz (myproc s)) s) (\<lambda>(pd, s).
          let s = upd_proc np (\<lambda>p. p\<lparr>pgdir := pd\<rparr>) s in
          if pd = 0
          then bindr (kfree (kstack (procs s np)) s) (\<lambda>s.
                 Ok (- 1, upd_proc np (\<lambda>p. p\<lparr>kstack := 0, pstate := UNUSED\<rparr>) s))
          else
            let s = upd_proc np (\<lambda>p. p\<lparr>sz := sz (myproc s), parent := Some (curproc s),
                      tf := (tf (myproc s))\<lparr>tf_eax := 0\<rparr>\<rparr>) s in
            bindr (foldr_res (dup_file np) [0..<NOFILE] s) (\<lambda>s.
            case cwd (myproc s) of
              None \<Rightarrow> NullDeref
            | Some dir \<Rightarrow>
                let s = idup dir s;
                    s = upd_proc np (\<lambda>p. p\<lparr>cwd := Some dir, pname := proc_name (pname (myproc s))\<rparr>) s;
                    n = pid (procs s np)
                in Ok (n, upd_proc np (\<lambda>p. p\<lparr>pstate := RUNNABLE\<rparr>) s))))"

definition close_fd :: "nat \<Rightarrow> 'a kernel_scheme \<Rightarrow> 'a kernel_scheme res" where
  "close_fd fd s =
     (case ofile (myproc s) fd of
        None \<Rightarrow> Ok s
      | Some f \<Rightarrow>
          bindr (fileclose f s) (\<lambda>s. Ok (upd_cur (\<lambda>p. p\<lparr>ofile := (ofile p)(fd := None)\<rparr>) s)))"

text \<open>\<open>wakeup1\<close> on a pointer that may be null: then it wakes those that sleep on no channel.\<close>

definition wakeup1_ptr :: "chan option \<Rightarrow> 'a ptable_scheme \<Rightarrow> 'a ptable_scheme" where
  "wakeup1_ptr c s = s\<lparr>procs := (\<lambda>i.
     if i < NPROC \<and> pstate (procs s i) = SLEEPING \<and> chan (procs s i) = c
     then (procs s i)\<lparr>pstate := RUNNABLE\<rparr> else procs s i)\<rparr>"

definition adopt :: "nat \<Rightarrow> nat \<Rightarrow> 'a ptable_scheme \<Rightarrow> 'a ptable_scheme" where
  "adopt me i s =
     (if parent (procs s i) = Some me
      then
        let s = upd_proc i (\<lambda>p. p\<lparr>parent := initproc s\<rparr>) s in
        if pstate (procs s i) = ZOMBIE then wakeup1_ptr (map_option ChProc (initproc s)) s else s
      else s)"

text \<open>The part of \<open>exit\<close> under the lock of the process table, and the whole of it: the result is the state
  in which it enters the scheduler, from which it does not return.\<close>

definition exit_tail :: "'a ptable_scheme \<Rightarrow> 'a ptable_scheme" where
  "exit_tail s =
     (let s = wakeup1_ptr (map_option ChProc (parent (myproc s))) s;
          s = fold (adopt (curproc s)) [0..<NPROC] s
      in upd_cur (\<lambda>p. p\<lparr>pstate := ZOMBIE\<rparr>) s)"

definition exit :: "'a kernel_scheme \<Rightarrow> 'a kernel_scheme res" where
  "exit s =
     (if initproc s = Some (curproc s) then Panic ''init exiting''
      else
        bindr (foldr_res close_fd [0..<NOFILE] s) (\<lambda>s.
        bindr (begin_op s) (\<lambda>s.
        case cwd (myproc s) of
          None \<Rightarrow> NullDeref
        | Some dir \<Rightarrow>
            bindr (iput dir s) (\<lambda>s.
            bindr (end_op s) (\<lambda>s.
            Ok (exit_tail (upd_cur (\<lambda>p. p\<lparr>cwd := None\<rparr>) s)))))))"

definition reap :: "nat \<Rightarrow> 'a kernel_scheme \<Rightarrow> (int \<times> 'a kernel_scheme) res" where
  "reap i s =
     (let n = pid (procs s i) in
      bindr (kfree (kstack (procs s i)) s) (\<lambda>s.
      bindr (freevm (pgdir (procs s i)) (upd_proc i (\<lambda>p. p\<lparr>kstack := 0\<rparr>) s)) (\<lambda>s.
      Ok (n, upd_proc i (\<lambda>p. p\<lparr>pid := 0, parent := None, pname := [], killed := False,
               pstate := UNUSED\<rparr>) s))))"

text \<open>One round of the loop of \<open>wait\<close>; it goes round again after the sleep.\<close>

definition wait :: "'a kernel_scheme \<Rightarrow> (int \<times> 'a kernel_scheme) res" where
  "wait s =
     (let child = (\<lambda>i. parent (procs s i) = Some (curproc s)) in
      case List.find (\<lambda>i. child i \<and> pstate (procs s i) = ZOMBIE) [0..<NPROC] of
        Some i \<Rightarrow> reap i s
      | None \<Rightarrow>
          if List.find child [0..<NPROC] = None \<or> killed (myproc s) then Ok (- 1, s)
          else Blocked (ChProc (curproc s)))"

section \<open>The scheduler\<close>

text \<open>
  One pass over the table. \<open>run i\<close> is what process \<open>i\<close> does from the switch to it until it switches
  back (with its state changed, as \<open>sched\<close> demands).
\<close>

definition run_proc :: "(nat \<Rightarrow> 'a kernel_scheme \<Rightarrow> 'a kernel_scheme res) \<Rightarrow> nat \<Rightarrow> 'a kernel_scheme \<Rightarrow> 'a kernel_scheme res" where
  "run_proc run i s =
     (if pstate (procs s i) \<noteq> RUNNABLE then Ok s
      else
        bindr (switchuvm i (s\<lparr>curproc := i\<rparr>)) (\<lambda>s.
        bindr (run i (upd_proc i (\<lambda>p. p\<lparr>pstate := RUNNING\<rparr>) s)) (\<lambda>s.
        Ok (switchkvm s))))"

definition scheduler_pass :: "(nat \<Rightarrow> 'a kernel_scheme \<Rightarrow> 'a kernel_scheme res) \<Rightarrow> 'a kernel_scheme \<Rightarrow> 'a kernel_scheme res" where
  "scheduler_pass run s = foldr_res (run_proc run) [0..<NPROC] s"

text \<open>\<open>yield\<close> up to the switch; the first time a process runs it mounts the file system.\<close>

definition yield :: "'a kernel_scheme \<Rightarrow> 'a kernel_scheme" where
  "yield s = upd_cur (\<lambda>p. p\<lparr>pstate := RUNNABLE\<rparr>) s"

definition forkret :: "'a kernel_scheme \<Rightarrow> 'a kernel_scheme res" where
  "forkret s =
     (if first_run s
      then bindr (iinit ROOTDEV (s\<lparr>first_run := False\<rparr>)) (initlog ROOTDEV)
      else Ok s)"

section \<open>Sampling\<close>

text \<open>The walk over the list of one process; \<open>pte\<close> is read through a pointer that may be null.\<close>

fun touch_pages :: "nat \<Rightarrow> nat \<Rightarrow> nat option \<Rightarrow> 'a kernel_scheme \<Rightarrow> 'a kernel_scheme res" where
  "touch_pages n p None s = Ok s"
| "touch_pages 0 p (Some i) s = Hang"
| "touch_pages (Suc n) p (Some i) s =
     (let pg = paging_meta_data (procs s p) i in
      if pagestate pg = 1
      then
        (case lookup (pgdir (procs s p)) (virtualAddr pg) s of
           None \<Rightarrow> NullDeref
         | Some pte \<Rightarrow>
             let s = (if pte_at s pte \<noteq> 0
                      then upd_proc p (\<lambda>q. q\<lparr>paging_meta_data := (paging_meta_data q)
                                (i := (paging_meta_data q i)\<lparr>counter := time_counter s\<rparr>)\<rparr>)
                             (s\<lparr>time_counter := time_counter s + 1\<rparr>)
                      else s)
             in touch_pages n p (pg_next pg) s)
      else touch_pages n p (pg_next pg) s)"

definition touch_proc :: "nat \<Rightarrow> 'a kernel_scheme \<Rightarrow> 'a kernel_scheme res" where
  "touch_proc i s =
     (let p = procs s i in
      if pid p > 2 \<and> pstate p \<noteq> UNUSED \<and> pstate p \<noteq> EMBRYO \<and> pstate p \<noteq> ZOMBIE
      then touch_pages MAX_TOTAL_PAGES i (head_page_in_mem p) s
      else Ok s)"

definition update_recently_accessed :: "'a kernel_scheme \<Rightarrow> 'a kernel_scheme res" where
  "update_recently_accessed s = foldr_res touch_proc [0..<NPROC] s"

section \<open>procdump\<close>

definition state_name :: "procstate \<Rightarrow> string" where
  "state_name st = (case st of UNUSED \<Rightarrow> ''unused'' | EMBRYO \<Rightarrow> ''embryo'' | SLEEPING \<Rightarrow> ''sleep ''
     | RUNNABLE \<Rightarrow> ''runble'' | RUNNING \<Rightarrow> ''run   '' | ZOMBIE \<Rightarrow> ''zombie'')"

definition codes :: "string \<Rightarrow> u8 list" where "codes cs = map (\<lambda>c. of_nat (of_char c)) cs"

text \<open>
  The text printed. \<open>pcs i\<close> are the ten addresses \<open>getcallerpcs\<close> finds on the stack of process \<open>i\<close>; they
  are printed up to the first 0.
\<close>

definition procdump_line :: "proc \<Rightarrow> u32 list \<Rightarrow> u8 list option list" where
  "procdump_line p pcs =
     [cprintf (codes ''%d %s %s'') [ANum (of_int (pid p)), AStr (Some (codes (state_name (pstate p)))),
        AStr (Some (codes (pname p)))]]
     @ (if pstate p = SLEEPING
        then map (\<lambda>pc. cprintf (codes '' %p'') [ANum pc]) (takeWhile (\<lambda>pc. pc \<noteq> 0) (take 10 pcs)) else [])
     @ [cprintf [10] []]"

definition procdump :: "(nat \<Rightarrow> u32 list) \<Rightarrow> 'a ptable_scheme \<Rightarrow> u8 list" where
  "procdump pcs s =
     concat (map the (concat (map (\<lambda>i. procdump_line (procs s i) (pcs i))
       (filter (\<lambda>i. pstate (procs s i) \<noteq> UNUSED) [0..<NPROC]))))"

section \<open>Fairness of the scheduler\<close>

text \<open>
  What the processes do is an argument of the scheduler. To observe the switches, the state is extended by a log: \<open>logs run\<close>
  says that each call of \<open>run\<close> adds an entry, with the process it was called for, that process's state and page directory,
  the processor's current process and the page directory loaded at the moment of the switch. Nothing else adds to the log.
\<close>

record switch =
  sw_proc :: nat
  sw_state :: procstate
  sw_cur :: nat
  sw_pgdir :: u32
  sw_cr3 :: u32

definition switch_to :: "nat \<Rightarrow> 'a kernel_scheme \<Rightarrow> switch" where
  "switch_to i s = \<lparr>sw_proc = i, sw_state = pstate (procs s i), sw_cur = curproc s, sw_pgdir = pgdir (procs s i), sw_cr3 = cr3 s\<rparr>"

definition good_switch :: "switch \<Rightarrow> bool" where
  "good_switch x \<longleftrightarrow> sw_proc x < NPROC \<and> sw_state x = RUNNING \<and> sw_cur x = sw_proc x \<and> sw_cr3 x = V2P (sw_pgdir x)"

definition logs :: "(nat \<Rightarrow> switch list kernel_scheme \<Rightarrow> switch list kernel_scheme res) \<Rightarrow> bool" where
  "logs run \<longleftrightarrow> (\<forall>i s t. run i s = Ok t \<longrightarrow> kernel.more t = kernel.more s @ [switch_to i s])"

text \<open>While a process runs, no other runnable process stops being runnable.\<close>

definition keeps_others :: "(nat \<Rightarrow> 'a kernel_scheme \<Rightarrow> 'a kernel_scheme res) \<Rightarrow> bool" where
  "keeps_others run \<longleftrightarrow> (\<forall>i s t j. run i s = Ok t \<longrightarrow> j \<noteq> i \<longrightarrow> pstate (procs s j) = RUNNABLE \<longrightarrow>
     pstate (procs t j) = RUNNABLE)"

text \<open>
  Every runnable process has a kernel stack and a page directory; a process that is run in such a state switches back to
  the scheduler in such a state.
\<close>

definition has_space :: "'a kernel_scheme \<Rightarrow> bool" where
  "has_space s \<longleftrightarrow> (\<forall>i<NPROC. pstate (procs s i) = RUNNABLE \<longrightarrow> kstack (procs s i) \<noteq> 0 \<and> pgdir (procs s i) \<noteq> 0)"

definition switches_back :: "(nat \<Rightarrow> 'a kernel_scheme \<Rightarrow> 'a kernel_scheme res) \<Rightarrow> bool" where
  "switches_back run \<longleftrightarrow> (\<forall>i s. has_space s \<longrightarrow> (\<exists>t. run i s = Ok t \<and> has_space t))"

lemma run_proc_switches:
  assumes "pstate (procs s i) = RUNNABLE" "i < NPROC" "has_space s" "switches_back run"
  obtains u where "run i (upd_proc i (\<lambda>p. p\<lparr>pstate := RUNNING\<rparr>) (s\<lparr>curproc := i, cr3 := V2P (pgdir (procs s i))\<rparr>)) = Ok u"
    "run_proc run i s = Ok (switchkvm u)" "has_space (switchkvm u)"
proof -
  let ?s = "upd_proc i (\<lambda>p. p\<lparr>pstate := RUNNING\<rparr>) (s\<lparr>curproc := i, cr3 := V2P (pgdir (procs s i))\<rparr>)"
  have "has_space ?s" using assms(3) by (simp add: has_space_def)
  then obtain u where u: "run i ?s = Ok u" "has_space u" using assms(4) unfolding switches_back_def by blast
  have sw: "switchuvm i (s\<lparr>curproc := i\<rparr>) = Ok (s\<lparr>curproc := i, cr3 := V2P (pgdir (procs s i))\<rparr>)"
    using assms(1-3) by (simp add: switchuvm_def has_space_def)
  have "run_proc run i s = Ok (switchkvm u)" using assms(1) u(1) by (simp add: run_proc_def sw)
  moreover have "has_space (switchkvm u)" using u(2) by (simp add: has_space_def switchkvm_def)
  ultimately show ?thesis using that u(1) by blast
qed

text \<open>A pass over the entries \<open>is\<close>, with the switches that it makes.\<close>

definition switched :: "nat list \<Rightarrow> 'a kernel_scheme \<Rightarrow> switch list \<Rightarrow> bool" where
  "switched is s xs \<longleftrightarrow> set (map sw_proc xs) \<subseteq> set is \<and> sorted_wrt (<) (map sw_proc xs)
     \<and> {j \<in> set is. pstate (procs s j) = RUNNABLE} \<subseteq> set (map sw_proc xs) \<and> (\<forall>x\<in>set xs. good_switch x)"

lemma pass_switches:
  assumes "keeps_others run" "logs run" "switches_back run" "has_space s" "sorted_wrt (<) is" "set is \<subseteq> {..<NPROC}"
  shows "\<exists>t xs. foldr_res (run_proc run) is s = Ok t \<and> kernel.more t = kernel.more s @ xs \<and> switched is s xs"
  using assms(4-6)
proof (induction "is" arbitrary: s)
  case Nil
  then show ?case by (simp add: switched_def)
next
  case (Cons i "is")
  have srt: "sorted_wrt (<) is" "\<forall>j\<in>set is. i < j" "set is \<subseteq> {..<NPROC}" "i < NPROC" using Cons.prems(2,3) by simp_all
  show ?case
  proof (cases "pstate (procs s i) = RUNNABLE")
    case False
    then have "run_proc run i s = Ok s" by (simp add: run_proc_def)
    moreover obtain t xs where t: "foldr_res (run_proc run) is s = Ok t" "kernel.more t = kernel.more s @ xs" "switched is s xs"
      using Cons.IH [OF Cons.prems(1) srt(1,3)] by blast
    moreover have "switched (i # is) s xs" using t(3) False by (auto simp: switched_def)
    ultimately show ?thesis by auto
  next
    case True
    let ?s = "upd_proc i (\<lambda>p. p\<lparr>pstate := RUNNING\<rparr>) (s\<lparr>curproc := i, cr3 := V2P (pgdir (procs s i))\<rparr>)"
    obtain u where u: "run i ?s = Ok u" "run_proc run i s = Ok (switchkvm u)" "has_space (switchkvm u)"
      using run_proc_switches [OF True srt(4) Cons.prems(1) assms(3)] by blast
    have m: "kernel.more (switchkvm u) = kernel.more s @ [switch_to i ?s]"
      using assms(2) u(1) unfolding logs_def by (simp add: switchkvm_def switch_to_def upd_proc_def)
    have k: "pstate (procs (switchkvm u) j) = RUNNABLE" if "j \<noteq> i" "pstate (procs s j) = RUNNABLE" for j
    proof -
      have "pstate (procs ?s j) = RUNNABLE" using that by simp
      then show ?thesis using assms(1) u(1) that(1) unfolding keeps_others_def by (simp add: switchkvm_def)
    qed
    obtain t xs where t: "foldr_res (run_proc run) is (switchkvm u) = Ok t" "kernel.more t = kernel.more (switchkvm u) @ xs"
      "switched is (switchkvm u) xs"
      using Cons.IH [OF u(3) srt(1,3)] by blast
    have "sw_proc (switch_to i ?s) = i" "good_switch (switch_to i ?s)" using srt(4) by (simp_all add: good_switch_def switch_to_def upd_proc_def)
    then have "switched (i # is) s (switch_to i ?s # xs)" using t(3) k srt(2) unfolding switched_def by auto
    then show ?thesis using t(1,2) u(2) m by (intro exI [of _ t] exI [of _ "switch_to i ?s # xs"]) simp
  qed
qed

text \<open>
  C29: No process starves. While each process that is run switches back, a pass of the scheduler completes, and every process
  that is runnable when it starts is switched to in it: \<open>run\<close> is called for it. The switches are in the order of the
  table, so none is made twice, and at each of them the process is \<open>RUNNING\<close>, the current one, and in its own page
  directory. While a process runs, the others may be woken or created, but a runnable one stays runnable (which is all
  the kernel does to other processes).
\<close>

theorem scheduler_runs_all:
  assumes "keeps_others run" and "switches_back run" and "logs run" and "has_space s"
  shows "\<exists>t xs. scheduler_pass run s = Ok t \<and> kernel.more t = kernel.more s @ xs
     \<and> {j. j < NPROC \<and> pstate (procs s j) = RUNNABLE} \<subseteq> set (map sw_proc xs) \<and> sorted_wrt (<) (map sw_proc xs)
     \<and> (\<forall>x\<in>set xs. sw_proc x < NPROC \<and> sw_state x = RUNNING \<and> sw_cur x = sw_proc x \<and> sw_cr3 x = V2P (sw_pgdir x))"
proof -
  obtain t xs where t: "foldr_res (run_proc run) [0..<NPROC] s = Ok t" "kernel.more t = kernel.more s @ xs" "switched [0..<NPROC] s xs"
    using pass_switches [OF assms(1,3,2,4), of "[0..<NPROC]"] by (auto simp: atLeast0LessThan)
  then show ?thesis unfolding scheduler_pass_def by (intro exI [of _ t] exI [of _ xs]) (auto simp: switched_def good_switch_def)
qed

definition kernel0 :: kernel where
  "kernel0 = vmst.extend vm0 (kernel.fields 0 True 0 0)"

lemmas kernel0_defs = kernel0_def vm0_def ftab0_def kernel.defs vmst.defs ftab.defs cons0_defs

text \<open>Two runnable processes, each of which yields as soon as it runs.\<close>

definition two_procs :: "switch list kernel_scheme" where
  "two_procs = kernel.extend (kernel0\<lparr>procs := (\<lambda>i. if i = 3 \<or> i = 5
     then zero_proc\<lparr>pstate := RUNNABLE, kstack := 1, pgdir := 1\<rparr> else zero_proc)\<rparr>) []"

definition run_yield :: "nat \<Rightarrow> switch list kernel_scheme \<Rightarrow> switch list kernel_scheme res" where
  "run_yield i s =
     (let l = kernel.more s @ [switch_to i s] in
      if kstack (procs s i) = 0 \<or> pgdir (procs s i) = 0 then Ok (kernel.more_update (\<lambda>_. l) s)
      else Ok (kernel.more_update (\<lambda>_. l) (upd_proc i (\<lambda>p. p\<lparr>pstate := RUNNABLE\<rparr>) s)))"

theorem scheduler_runs_all_witness:
  "\<exists>t. scheduler_pass run_yield two_procs = Ok t \<and> {3, 5} \<subseteq> set (map sw_proc (kernel.more t))"
proof -
  have "keeps_others run_yield" by (auto simp: keeps_others_def run_yield_def Let_def split: if_splits)
  moreover have "switches_back run_yield" by (auto simp: switches_back_def run_yield_def Let_def has_space_def)
  moreover have "logs run_yield" by (auto simp: logs_def run_yield_def Let_def split: if_splits)
  moreover have "has_space two_procs" "kernel.more two_procs = []" by (simp_all add: has_space_def two_procs_def kernel0_defs zero_proc_def)
  moreover have "{3, 5} \<subseteq> {j. j < NPROC \<and> pstate (procs two_procs j) = RUNNABLE}" by (simp add: NPROC_def two_procs_def kernel0_defs)
  ultimately show ?thesis using scheduler_runs_all [of run_yield two_procs] by force
qed

end
