(* ===== verification/Syscall.thy ===== *)
theory Syscall
  imports Proc
begin

text \<open>
  Access to user memory and the arguments of system calls (\<open>syscall.c\<close>). The kernel reads and writes
  user addresses through the page table in use; an address that is not mapped raises a page fault,
  which the T_PGFLT case of \<open>trap\<close> (\<open>page_fault\<close>) resolves for a page in the swap file; any other
  fault in the kernel ends in \<open>panic("trap")\<close>. An argument that is rejected is \<open>None\<close>.
\<close>

section \<open>Page faults\<close>

text \<open>The flag is false where the source jumps to \<open>pf\<close>.\<close>

definition page_fault :: "u32 \<Rightarrow> 'a kernel_scheme \<Rightarrow> (bool \<times> 'a kernel_scheme) res" where
  "page_fault addr s =
     (if pid (myproc s) \<le> 2 then Ok (False, s)
      else
        let a = PGROUNDDOWN addr in
        case lookup (pgdir (myproc s)) a s of
          None \<Rightarrow> NullDeref
        | Some pte \<Rightarrow>
            if pte_at s pte AND PTE_PG = 0 then Ok (False, s)
            else bindr (swapPages a s) (\<lambda>(r, s). Ok (r \<noteq> - 1, s)))"

text \<open>
  The kernel address of user address \<open>a\<close>, after a fault if need be. The access is retried once; when
  the page is still missing the fault repeats forever.
\<close>

definition user_addr :: "u32 \<Rightarrow> 'a kernel_scheme \<Rightarrow> (u32 \<times> 'a kernel_scheme) res" where
  "user_addr a s =
     (case translate s a of
        Some k \<Rightarrow> Ok (k, s)
      | None \<Rightarrow>
          bindr (page_fault a s) (\<lambda>(ok, s).
          if \<not> ok then Panic ''trap''
          else case translate s a of Some k \<Rightarrow> Ok (k, s) | None \<Rightarrow> Hang))"

definition uload :: "u32 \<Rightarrow> 'a kernel_scheme \<Rightarrow> (u8 \<times> 'a kernel_scheme) res" where
  "uload a s = bindr (user_addr a s) (\<lambda>(k, s). Ok (mem s k, s))"

definition ustore :: "u32 \<Rightarrow> u8 \<Rightarrow> 'a kernel_scheme \<Rightarrow> 'a kernel_scheme res" where
  "ustore a c s = bindr (user_addr a s) (\<lambda>(k, s). Ok (s\<lparr>mem := (mem s)(k := c)\<rparr>))"

fun uload_bytes :: "nat \<Rightarrow> u32 \<Rightarrow> 'a kernel_scheme \<Rightarrow> (u8 list \<times> 'a kernel_scheme) res" where
  "uload_bytes 0 a s = Ok ([], s)"
| "uload_bytes (Suc n) a s =
     bindr (uload a s) (\<lambda>(c, s). bindr (uload_bytes n (a + 1) s) (\<lambda>(cs, s). Ok (c # cs, s)))"

fun ustore_bytes :: "u32 \<Rightarrow> u8 list \<Rightarrow> 'a kernel_scheme \<Rightarrow> 'a kernel_scheme res" where
  "ustore_bytes a [] s = Ok s"
| "ustore_bytes a (c # cs) s = bindr (ustore a c s) (ustore_bytes (a + 1) cs)"

definition word_bytes :: "u32 \<Rightarrow> u8 list" where
  "word_bytes v = [byte v 0, byte v 1, byte v 2, byte v 3]"

definition bytes_word :: "u8 list \<Rightarrow> nat \<Rightarrow> u32" where
  "bytes_word bs k = rd32 (\<lambda>i. bs ! i) k"

section \<open>Arguments\<close>

definition fetchint :: "u32 \<Rightarrow> 'a kernel_scheme \<Rightarrow> (u32 option \<times> 'a kernel_scheme) res" where
  "fetchint addr s =
     (let n = sz (myproc s) in
      if addr \<ge> n \<or> addr + 4 > n then Ok (None, s)
      else bindr (uload_bytes 4 addr s) (\<lambda>(bs, s). Ok (Some (bytes_word bs 0), s)))"

text \<open>The characters from \<open>a\<close> up to a NUL that comes within \<open>n\<close> bytes.\<close>

fun fetch_chars :: "nat \<Rightarrow> u32 \<Rightarrow> 'a kernel_scheme \<Rightarrow> (u8 list option \<times> 'a kernel_scheme) res" where
  "fetch_chars 0 a s = Ok (None, s)"
| "fetch_chars (Suc n) a s =
     bindr (uload a s) (\<lambda>(c, s).
       if c = 0 then Ok (Some [], s)
       else bindr (fetch_chars n (a + 1) s) (\<lambda>(r, s). Ok (map_option (Cons c) r, s)))"

text \<open>The string itself stands for the pointer that \<open>fetchstr\<close> stores; its length is the result.\<close>

definition fetchstr :: "u32 \<Rightarrow> 'a kernel_scheme \<Rightarrow> (u8 list option \<times> 'a kernel_scheme) res" where
  "fetchstr addr s =
     (let n = sz (myproc s) in
      if addr \<ge> n then Ok (None, s) else fetch_chars (unat n - unat addr) addr s)"

definition argint :: "u32 \<Rightarrow> 'a kernel_scheme \<Rightarrow> (u32 option \<times> 'a kernel_scheme) res" where
  "argint n s = fetchint (tf_esp (tf (myproc s)) + 4 + 4 * n) s"

definition argptr :: "u32 \<Rightarrow> u32 \<Rightarrow> 'a kernel_scheme \<Rightarrow> (u32 option \<times> 'a kernel_scheme) res" where
  "argptr n len s =
     bindr (argint n s) (\<lambda>(r, s).
     case r of
       None \<Rightarrow> Ok (None, s)
     | Some i \<Rightarrow>
         let bound = sz (myproc s) in
         if len <s 0 \<or> i \<ge> bound \<or> i + len > bound then Ok (None, s) else Ok (Some i, s))"

definition argstr :: "u32 \<Rightarrow> 'a kernel_scheme \<Rightarrow> (u8 list option \<times> 'a kernel_scheme) res" where
  "argstr n s =
     bindr (argint n s) (\<lambda>(r, s).
     case r of None \<Rightarrow> Ok (None, s) | Some addr \<Rightarrow> fetchstr addr s)"

section \<open>The kernel checks what users pass\<close>

lemma fetch_chars_Some:
  "fetch_chars n a s = Ok (Some cs, t) \<Longrightarrow> 0 \<notin> set cs \<and> length cs < n"
proof (induction n arbitrary: a s cs)
  case (Suc n)
  have "cs = [] \<or> (\<exists>c u cs'. cs = c # cs' \<and> c \<noteq> 0 \<and> fetch_chars n (a + 1) u = Ok (Some cs', t))"
    using Suc.prems
    apply (simp only: fetch_chars.simps bindr_eq_Ok)
    apply (elim exE conjE)
    apply (simp add: bindr_eq_Ok split: prod.splits if_splits)
    apply (elim exE conjE)
    apply (intro disjI2 exI conjI)
       apply (erule sym)
      apply assumption
     apply simp
    done
  then show ?case using Suc.IH by fastforce
qed simp


text \<open>
  C20: No argument points outside the process. For a process below \<open>KERNBASE\<close>, a block that \<open>argptr\<close>
  accepts lies within the process's memory, whatever address and length the user passed (the sum does
  not wrap around); so does the word that \<open>fetchint\<close> reads, and so does the whole string that \<open>fetchstr\<close>
  accepts, with its terminating NUL.
\<close>

theorem arguments_in_bounds:
  assumes "sz (myproc s) \<le> KERNBASE" and "sz (myproc t) \<le> KERNBASE"
  shows "(argptr n len s = Ok (Some p, t) \<longrightarrow> unat p + unat len \<le> unat (sz (myproc t)))
    \<and> (fetchint a s = Ok (Some v, t) \<longrightarrow> unat a + 4 \<le> unat (sz (myproc s)))
    \<and> (fetchstr a s = Ok (Some cs, t) \<longrightarrow> unat a + length cs + 1 \<le> unat (sz (myproc s)) \<and> 0 \<notin> set cs)"
proof (intro conjI impI)
  have k: "unat KERNBASE = 2 ^ 31" by (simp add: KERNBASE_def)
  assume "argptr n len s = Ok (Some p, t)"
  then have c: "\<not> len <s 0" "p < sz (myproc t)" "p + len \<le> sz (myproc t)"
    unfolding argptr_def bindr_eq_Ok Let_def by (elim exE conjE, simp split: prod.splits option.splits if_splits)+
  then have "unat len < 2 ^ 31" "unat p < 2 ^ 31"
    using assms(2) k by (auto simp: sless_zero_u32 word_less_nat_alt word_le_nat_alt)
  then have "unat (p + len) = unat p + unat len" by (simp add: unat_word_ariths)
  then show "unat p + unat len \<le> unat (sz (myproc t))" using c(3) by (simp add: word_le_nat_alt)
next
  have k: "unat KERNBASE = 2 ^ 31" by (simp add: KERNBASE_def)
  assume "fetchint a s = Ok (Some v, t)"
  then have c: "a < sz (myproc s)" "a + 4 \<le> sz (myproc s)"
    by (auto simp: fetchint_def Let_def split: if_splits)
  then have "unat a < 2 ^ 31" using assms(1) k by (auto simp: word_less_nat_alt word_le_nat_alt)
  then have "unat (a + 4) = unat a + 4" by (simp add: unat_word_ariths)
  then show "unat a + 4 \<le> unat (sz (myproc s))" using c(2) by (simp add: word_le_nat_alt)
next
  assume "fetchstr a s = Ok (Some cs, t)"
  then have "a < sz (myproc s)" "fetch_chars (unat (sz (myproc s)) - unat a) a s = Ok (Some cs, t)"
    by (auto simp: fetchstr_def Let_def split: if_splits)
  then show "unat a + length cs + 1 \<le> unat (sz (myproc s))" "0 \<notin> set cs"
    using fetch_chars_Some by (fastforce simp: word_less_nat_alt)+
qed

text \<open>
  A process of one page at kernel address \<open>0x80402000\<close>, with the page directory and the page table in
  the two pages before; \<open>w\<close> is the rest of the memory.
\<close>

definition one_page :: "memory \<Rightarrow> kernel" where
  "one_page w = kernel0\<lparr>mem := wr32 (wr32 w 0x80400000 0x00401007) 0x80401000 0x00402007, cr3 := 0x00400000,
     procs := (\<lambda>i. zero_proc\<lparr>sz := 4096, pgdir := 0x80400000, pid := 3, kstack := 0x80403000,
       tf := zero_tf\<lparr>tf_esp := 0x200\<rparr>\<rparr>)\<rparr>"

lemma one_page_translate:
  assumes "a < 4096"
  shows "translate (one_page w) a = Some (0x80402000 + a)"
proof -
  have m: "mem (one_page w) = wr32 (wr32 w 0x80400000 0x00401007) 0x80401000 0x00402007" "cr3 (one_page w) = 0x00400000"
    by (simp_all add: one_page_def)
  have r: "rd32 (mem (one_page w)) 0x80401000 = 0x00402007" unfolding m by simp
  have r': "rd32 (mem (one_page w)) 0x80400000 = 0x00401007"
    unfolding m by (simp add: wr32_def rd32_def byte_def)
  have a: "unat a < 4096" using assms by (simp add: word_less_nat_alt)
  have "a div 2 ^ 22 = 0" "a div 2 ^ 12 = 0" using a by (simp_all add: word_unat_eq_iff unat_div)
  then have px: "PDX a = 0" "PTX a = 0" by (simp_all add: PDX_def PTX_def drop_bit_eq_div)
  have "a AND 0xFFF = take_bit 12 a" by (simp add: take_bit_eq_mask mask_eq_exp_minus_1)
  then have off: "a AND 0xFFF = a"
    using a by (simp add: word_unat_eq_iff unsigned_take_bit_eq take_bit_nat_eq_self)
  show ?thesis
    by (simp add: translate_def walkpgdir_def px off pte_at_def P2V_def PTE_ADDR_def PTE_P_def m(2) KERNBASE_def r r')
qed

lemma one_page_load:
  assumes "a < 4096" and "b = w (0x80402000 + a)"
  shows "uload a (one_page w) = Ok (b, one_page w)"
proof -
  have "unat a < 4096" using assms(1) by (simp add: word_less_nat_alt)
  then have "unat (0x80402000 + a) = 0x80402000 + unat a" by (simp add: unat_word_ariths)
  then have "0x80402000 \<le> 0x80402000 + a" by (simp add: word_le_nat_alt)
  then have "0x80402000 + a \<noteq> k" if "k < 0x80402000" for k using that by (metis not_le)
  moreover have "wr32 (wr32 w 0x80400000 v) 0x80401000 v' x = w x" if "\<And>k. k < 0x80402000 \<Longrightarrow> x \<noteq> k" for v v' x
    by (simp add: wr32_def that)
  ultimately have "wr32 (wr32 w 0x80400000 v) 0x80401000 v' (0x80402000 + a) = w (0x80402000 + a)" for v v'
    by blast
  moreover have "mem (one_page w) = wr32 (wr32 w 0x80400000 0x00401007) 0x80401000 0x00402007"
    by (simp add: one_page_def)
  ultimately have "mem (one_page w) (0x80402000 + a) = w (0x80402000 + a)"
    by simp
  then show ?thesis using one_page_translate [OF assms(1)] assms(2) by (simp add: uload_def user_addr_def)
qed

lemma one_page_proc: "sz (myproc (one_page w)) = 4096" "tf_esp (tf (myproc (one_page w))) = 0x200"
  by (simp_all add: one_page_def myproc_def)

text \<open>The first argument, at \<open>0x204\<close>, is \<open>0x300\<close>: a block of 16 bytes there is accepted.\<close>

lemma arguments_in_bounds_witness:
  "\<exists>s :: kernel. argptr 0 16 s = Ok (Some 0x300, s) \<and> unat (0x300 :: u32) + unat (16 :: u32) \<le> unat (sz (myproc s))"
proof -
  let ?s = "one_page (\<lambda>a. if a = 0x80402205 then 3 else 0)"
  have four: "uload_bytes 4 = uload_bytes (Suc (Suc (Suc (Suc 0))))" by (simp add: numeral_eq_Suc)
  have "uload_bytes 4 0x204 ?s = Ok ([0, 3, 0, 0], ?s)"
    by (simp add: four one_page_load [where b = 0] one_page_load [where b = 3])
  then have "argint 0 ?s = Ok (Some 0x300, ?s)"
    by (simp add: argint_def fetchint_def one_page_proc bytes_word_def rd32_def)
  then have a: "argptr 0 16 ?s = Ok (Some 0x300, ?s)"
    by (simp add: argptr_def one_page_proc sless_zero_u32)
  have k: "sz (myproc ?s) \<le> KERNBASE" by (simp add: one_page_proc KERNBASE_def)
  show ?thesis using arguments_in_bounds [OF k k, of 0 16 "0x300"] a by blast
qed

end
