(* ===== verification/Exec.thy ===== *)
theory Exec
  imports Syscall
begin

text \<open>
  \<open>exec.c\<close>: replacing the program of the current process. The path and the argument strings are given
  as the bytes that \<open>sys_exec\<close> fetched. The ELF structures are read at their byte offsets. Every
  failure after the page table was made goes through \<open>exec_bad\<close>, the label \<open>bad\<close>.
\<close>

definition ELF_MAGIC :: u32 where "ELF_MAGIC = 0x464C457F"
definition ELF_PROG_LOAD :: u32 where "ELF_PROG_LOAD = 1"
definition SIZEOF_ELFHDR :: nat where "SIZEOF_ELFHDR = 52"
definition SIZEOF_PROGHDR :: nat where "SIZEOF_PROGHDR = 32"
definition MAXARG :: nat where "MAXARG = 32"

record elfhdr =
  e_magic :: u32
  e_entry :: u32
  e_phoff :: u32
  e_phnum :: u16

record proghdr =
  ph_type :: u32
  ph_off :: u32
  ph_vaddr :: u32
  ph_filesz :: u32
  ph_memsz :: u32

definition dec_elf :: "u8 list \<Rightarrow> elfhdr" where
  "dec_elf bs = \<lparr>e_magic = bytes_word bs 0, e_entry = bytes_word bs 24, e_phoff = bytes_word bs 28,
     e_phnum = rd16 (\<lambda>i. bs ! i) (44 :: nat)\<rparr>"

definition dec_ph :: "u8 list \<Rightarrow> proghdr" where
  "dec_ph bs = \<lparr>ph_type = bytes_word bs 0, ph_off = bytes_word bs 4, ph_vaddr = bytes_word bs 8,
     ph_filesz = bytes_word bs 16, ph_memsz = bytes_word bs 20\<rparr>"

text \<open>\<open>goto bad\<close> with the page table and the inode that are still held, if any.\<close>

definition exec_bad :: "u32 \<Rightarrow> nat option \<Rightarrow> 'a kernel_scheme \<Rightarrow> (int \<times> 'a kernel_scheme) res" where
  "exec_bad pd ip s =
     bindr (if pd \<noteq> 0 then freevm pd s else Ok s) (\<lambda>s.
     bindr (case ip of Some i \<Rightarrow> bindr (iunlockput i s) end_op | None \<Rightarrow> Ok s) (\<lambda>s.
     Ok (- 1, s)))"

text \<open>The program headers; the result is the size reached, or \<open>None\<close> for \<open>goto bad\<close>.\<close>

fun load_segments ::
    "u32 \<Rightarrow> nat \<Rightarrow> nat \<Rightarrow> u32 \<Rightarrow> u32 \<Rightarrow> 'a kernel_scheme \<Rightarrow> (u32 option \<times> 'a kernel_scheme) res" where
  "load_segments pd ip 0 off n s = Ok (Some n, s)"
| "load_segments pd ip (Suc k) off n s =
     bindr (readi ip off (of_nat SIZEOF_PROGHDR) s) (\<lambda>(r, bs, s).
     if r \<noteq> int SIZEOF_PROGHDR then Ok (None, s)
     else
       let ph = dec_ph bs; off' = off + of_nat SIZEOF_PROGHDR in
       if ph_type ph \<noteq> ELF_PROG_LOAD then load_segments pd ip k off' n s
       else if ph_memsz ph < ph_filesz ph then Ok (None, s)
       else if ph_vaddr ph + ph_memsz ph < ph_vaddr ph then Ok (None, s)
       else
         bindr (allocuvm pd n (ph_vaddr ph + ph_memsz ph) s) (\<lambda>(n, s).
         if n = 0 then Ok (None, s)
         else if ph_vaddr ph mod PGSIZE \<noteq> 0 then Ok (None, s)
         else
           bindr (loaduvm pd (ph_vaddr ph) ip (ph_off ph) (ph_filesz ph) s) (\<lambda>(r, s).
           if r < 0 then Ok (None, s) else load_segments pd ip k off' n s)))"

text \<open>
  The argument strings are pushed one after the other; \<open>ptrs\<close> collects their addresses. The result
  is the stack pointer and the addresses, or \<open>None\<close>.
\<close>

fun push_args ::
    "u32 \<Rightarrow> u8 list list \<Rightarrow> u32 list \<Rightarrow> u32 \<Rightarrow> 'a kernel_scheme \<Rightarrow> ((u32 \<times> u32 list) option \<times> 'a kernel_scheme) res" where
  "push_args pd [] ptrs sp s = Ok (Some (sp, ptrs), s)"
| "push_args pd (arg # args) ptrs sp s =
     (if length ptrs \<ge> MAXARG then Ok (None, s)
      else
        let sp = (sp - of_nat (length arg + 1)) AND NOT 3 in
        bindr (copyout pd sp (arg @ [0]) s) (\<lambda>(r, s).
        if r < 0 then Ok (None, s) else push_args pd args (ptrs @ [sp]) sp s))"

text \<open>The words below the strings: fake return address, argc, argv pointer, the pointers, a null.\<close>

definition ustack :: "u32 \<Rightarrow> u32 list \<Rightarrow> u32 list" where
  "ustack sp ptrs = [0xffffffff, of_nat (length ptrs), sp - of_nat ((length ptrs + 1) * 4)] @ ptrs @ [0]"

text \<open>The part of the path after the last slash.\<close>

definition last_elem :: "u8 list \<Rightarrow> u8 list" where
  "last_elem path = rev (takeWhile (\<lambda>c. c \<noteq> 47) (rev path))"

definition chars :: "u8 list \<Rightarrow> string" where "chars bs = map (\<lambda>c. char_of (unat c)) bs"

definition exec_commit :: "u32 \<Rightarrow> u32 \<Rightarrow> u32 \<Rightarrow> u32 \<Rightarrow> u8 list \<Rightarrow> 'a kernel_scheme \<Rightarrow> (int \<times> 'a kernel_scheme) res" where
  "exec_commit pd n entry sp path s =
     (let oldpgdir = pgdir (myproc s);
          s = upd_cur (\<lambda>p. p\<lparr>pname := proc_name (chars (last_elem path)), pgdir := pd, sz := n,
                tf := (tf p)\<lparr>tf_eip := entry, tf_esp := sp\<rparr>\<rparr>) s
      in bindr (switchuvm (curproc s) s) (\<lambda>s. bindr (freevm oldpgdir s) (\<lambda>s. Ok (0, s))))"

text \<open>The part of \<open>exec\<close> after the program is loaded; \<open>n\<close> is the size so far.\<close>

definition exec_stack ::
    "u32 \<Rightarrow> u32 \<Rightarrow> u32 \<Rightarrow> u8 list \<Rightarrow> u8 list list \<Rightarrow> 'a kernel_scheme \<Rightarrow> (int \<times> 'a kernel_scheme) res" where
  "exec_stack pd n entry path argv s =
     (let n = PGROUNDUP n in
      bindr (allocuvm pd n (n + 2 * PGSIZE) s) (\<lambda>(n, s).
      if n = 0 then exec_bad pd None s
      else
        bindr (clearpteu pd (n - 2 * PGSIZE) s) (\<lambda>s.
        bindr (push_args pd argv [] n s) (\<lambda>(r, s).
        case r of
          None \<Rightarrow> exec_bad pd None s
        | Some (sp, ptrs) \<Rightarrow>
            let sp' = sp - of_nat ((3 + length ptrs + 1) * 4) in
            bindr (copyout pd sp' (concat (map word_bytes (ustack sp ptrs))) s) (\<lambda>(r, s).
            if r < 0 then exec_bad pd None s else exec_commit pd n entry sp' path s)))))"

definition exec :: "u8 list \<Rightarrow> u8 list list \<Rightarrow> 'a kernel_scheme \<Rightarrow> (int \<times> 'a kernel_scheme) res" where
  "exec path argv s =
     bindr (begin_op s) (\<lambda>s.
     bindr (namei path s) (\<lambda>(r, s).
     case r of
       None \<Rightarrow> bindr (end_op s) (\<lambda>s. Ok (- 1, s))
     | Some ip \<Rightarrow>
         bindr (ilock ip s) (\<lambda>s.
         bindr (readi ip 0 (of_nat SIZEOF_ELFHDR) s) (\<lambda>(r, bs, s).
         let elf = dec_elf bs in
         if r \<noteq> int SIZEOF_ELFHDR \<or> e_magic elf \<noteq> ELF_MAGIC then exec_bad 0 (Some ip) s
         else
           bindr (setupkvm s) (\<lambda>(pd, s).
           if pd = 0 then exec_bad 0 (Some ip) s
           else
             bindr (load_segments pd ip (unat (e_phnum elf)) (e_phoff elf) 0 s) (\<lambda>(r, s).
             case r of
               None \<Rightarrow> exec_bad pd (Some ip) s
             | Some n \<Rightarrow>
                 bindr (iunlockput ip s) (\<lambda>s.
                 bindr (end_op s) (exec_stack pd n (e_entry elf) path argv))))))))"

end
