(* ===== verification/Sysfile.thy ===== *)
theory Sysfile
  imports Exec
begin

text \<open>
  \<open>sysfile.c\<close>: the file-system calls. Each returns the value for \<open>%eax\<close> and the new state. The data of
  a \<open>write\<close> are fetched from the user before \<open>filewrite\<close> runs, the data of a \<open>read\<close> are stored after
  \<open>fileread\<close>.
\<close>

section \<open>Descriptors\<close>

definition argfd :: "u32 \<Rightarrow> 'a kernel_scheme \<Rightarrow> ((nat \<times> nat) option \<times> 'a kernel_scheme) res" where
  "argfd n s =
     bindr (argint n s) (\<lambda>(r, s).
     case r of
       None \<Rightarrow> Ok (None, s)
     | Some fd \<Rightarrow>
         if fd <s 0 \<or> sint fd \<ge> int NOFILE then Ok (None, s)
         else case ofile (myproc s) (unat fd) of
                None \<Rightarrow> Ok (None, s)
              | Some f \<Rightarrow> Ok (Some (unat fd, f), s))"

definition set_fd :: "nat \<Rightarrow> nat option \<Rightarrow> 'a ptable_scheme \<Rightarrow> 'a ptable_scheme" where
  "set_fd fd f s = upd_cur (\<lambda>p. p\<lparr>ofile := (ofile p)(fd := f)\<rparr>) s"

definition fdalloc :: "nat \<Rightarrow> 'a ptable_scheme \<Rightarrow> nat option \<times> 'a ptable_scheme" where
  "fdalloc f s =
     (case List.find (\<lambda>fd. ofile (myproc s) fd = None) [0..<NOFILE] of
        Some fd \<Rightarrow> (Some fd, set_fd fd (Some f) s)
      | None \<Rightarrow> (None, s))"

definition sys_dup :: "'a kernel_scheme \<Rightarrow> (int \<times> 'a kernel_scheme) res" where
  "sys_dup s =
     bindr (argfd 0 s) (\<lambda>(r, s).
     case r of
       None \<Rightarrow> Ok (- 1, s)
     | Some (_, f) \<Rightarrow>
         (case fdalloc f s of
            (None, s) \<Rightarrow> Ok (- 1, s)
          | (Some fd, s) \<Rightarrow> bindr (filedup f s) (\<lambda>s. Ok (int fd, s))))"

text \<open>The three arguments of \<open>read\<close> and \<open>write\<close>: file, count, address.\<close>

definition arg_rw :: "'a kernel_scheme \<Rightarrow> ((nat \<times> u32 \<times> u32) option \<times> 'a kernel_scheme) res" where
  "arg_rw s =
     bindr (argfd 0 s) (\<lambda>(r, s).
     case r of
       None \<Rightarrow> Ok (None, s)
     | Some (_, f) \<Rightarrow>
         bindr (argint 2 s) (\<lambda>(r, s).
         case r of
           None \<Rightarrow> Ok (None, s)
         | Some n \<Rightarrow>
             bindr (argptr 1 n s) (\<lambda>(r, s). Ok (map_option (\<lambda>p. (f, n, p)) r, s))))"

definition sys_read :: "'a kernel_scheme \<Rightarrow> (int \<times> 'a kernel_scheme) res" where
  "sys_read s =
     bindr (arg_rw s) (\<lambda>(r, s).
     case r of
       None \<Rightarrow> Ok (- 1, s)
     | Some (f, n, p) \<Rightarrow>
         bindr (fileread f (sint n) s) (\<lambda>(r, got, s).
         bindr (ustore_bytes p got s) (\<lambda>s. Ok (r, s))))"

definition sys_write :: "'a kernel_scheme \<Rightarrow> (int \<times> 'a kernel_scheme) res" where
  "sys_write s =
     bindr (arg_rw s) (\<lambda>(r, s).
     case r of
       None \<Rightarrow> Ok (- 1, s)
     | Some (f, n, p) \<Rightarrow>
         bindr (uload_bytes (unat n) p s) (\<lambda>(bs, s). filewrite f (\<lambda>i. bs ! i) (sint n) s))"

definition sys_close :: "'a kernel_scheme \<Rightarrow> (int \<times> 'a kernel_scheme) res" where
  "sys_close s =
     bindr (argfd 0 s) (\<lambda>(r, s).
     case r of
       None \<Rightarrow> Ok (- 1, s)
     | Some (fd, f) \<Rightarrow> bindr (fileclose f (set_fd fd None s)) (\<lambda>s. Ok (0, s)))"

text \<open>\<open>struct stat\<close> as it lies in memory: 20 bytes, with padding that is not written (kept as it was).\<close>

definition store_stat :: "u32 \<Rightarrow> stat \<Rightarrow> 'a kernel_scheme \<Rightarrow> 'a kernel_scheme res" where
  "store_stat p st s =
     bindr (ustore_bytes p [ucast (st_type st), ucast (drop_bit 8 (st_type st))] s) (\<lambda>s.
     bindr (ustore_bytes (p + 4) (word_bytes (st_dev st) @ word_bytes (st_ino st)
              @ [ucast (st_nlink st), ucast (drop_bit 8 (st_nlink st))]) s)
       (ustore_bytes (p + 16) (word_bytes (st_size st))))"

definition sys_fstat :: "'a kernel_scheme \<Rightarrow> (int \<times> 'a kernel_scheme) res" where
  "sys_fstat s =
     bindr (argfd 0 s) (\<lambda>(r, s).
     case r of
       None \<Rightarrow> Ok (- 1, s)
     | Some (_, f) \<Rightarrow>
         bindr (argptr 1 20 s) (\<lambda>(r, s).
         case r of
           None \<Rightarrow> Ok (- 1, s)
         | Some p \<Rightarrow>
             bindr (filestat f s) (\<lambda>(st, s).
             case st of
               None \<Rightarrow> Ok (- 1, s)
             | Some st \<Rightarrow> bindr (store_stat p st s) (\<lambda>s. Ok (0, s)))))"

section \<open>Links\<close>

text \<open>\<open>link_bad\<close> is the label \<open>bad\<close>; \<open>link_at\<close> enters the name in the parent directory.\<close>

definition link_bad :: "nat \<Rightarrow> 'a cons_scheme \<Rightarrow> (int \<times> 'a cons_scheme) res" where
  "link_bad ip s =
     bindr (ilock ip s) (\<lambda>s.
     bindr (iupdate ip (upd_inode ip (\<lambda>d. d\<lparr>nlink := nlink d - 1\<rparr>) s)) (\<lambda>s.
     bindr (iunlockput ip s) (\<lambda>s.
     bindr (end_op s) (\<lambda>s. Ok (- 1, s)))))"

definition link_at :: "nat \<Rightarrow> u8 list \<Rightarrow> 'a cons_scheme \<Rightarrow> (int \<times> 'a cons_scheme) res" where
  "link_at ip path s =
     bindr (nameiparent path (\<lambda>i. 0) s) (\<lambda>(r, name, s).
     case r of
       None \<Rightarrow> link_bad ip s
     | Some dp \<Rightarrow>
         bindr (ilock dp s) (\<lambda>s.
         bindr (if idev (inodes s dp) \<noteq> idev (inodes s ip) then Ok (- 1, s)
                else dirlink dp name (inum (inodes s ip)) s) (\<lambda>(r, s).
         if r < 0 then bindr (iunlockput dp s) (link_bad ip)
         else
           bindr (iunlockput dp s) (\<lambda>s.
           bindr (iput ip s) (\<lambda>s.
           bindr (end_op s) (\<lambda>s. Ok (0, s)))))))"

definition sys_link :: "'a kernel_scheme \<Rightarrow> (int \<times> 'a kernel_scheme) res" where
  "sys_link s =
     bindr (argstr 0 s) (\<lambda>(old, s).
     case old of
       None \<Rightarrow> Ok (- 1, s)
     | Some old \<Rightarrow>
         bindr (argstr 1 s) (\<lambda>(new, s).
         case new of
           None \<Rightarrow> Ok (- 1, s)
         | Some new \<Rightarrow>
             bindr (begin_op s) (\<lambda>s.
             bindr (namei old s) (\<lambda>(r, s).
             case r of
               None \<Rightarrow> bindr (end_op s) (\<lambda>s. Ok (- 1, s))
             | Some ip \<Rightarrow>
                 bindr (ilock ip s) (\<lambda>s.
                 if itype (inodes s ip) = T_DIR
                 then bindr (iunlockput ip s) (\<lambda>s. bindr (end_op s) (\<lambda>s. Ok (- 1, s)))
                 else
                   bindr (iupdate ip (upd_inode ip (\<lambda>d. d\<lparr>nlink := nlink d + 1\<rparr>) s)) (\<lambda>s.
                   bindr (iunlock ip s) (link_at ip new)))))))"

definition sys_unlink :: "'a kernel_scheme \<Rightarrow> (int \<times> 'a kernel_scheme) res" where
  "sys_unlink s =
     bindr (argstr 0 s) (\<lambda>(r, s).
     case r of
       None \<Rightarrow> Ok (- 1, s)
     | Some path \<Rightarrow>
         bindr (begin_op s) (\<lambda>s.
         bindr (nameiparent path (\<lambda>i. 0) s) (\<lambda>(dp, name, s).
         case dp of
           None \<Rightarrow> bindr (end_op s) (\<lambda>s. Ok (- 1, s))
         | Some dp \<Rightarrow>
             bindr (ilock dp s) (\<lambda>s.
             bindr (unlink_parent dp name s) (\<lambda>(ok, s).
             bindr (end_op s) (\<lambda>s. Ok (if ok then 0 else - 1, s)))))))"

section \<open>open and the making of files\<close>

definition fail_op :: "'a logfs_scheme \<Rightarrow> (int \<times> 'a logfs_scheme) res" where
  "fail_op s = bindr (end_op s) (\<lambda>s. Ok (- 1, s))"

text \<open>The inode that \<open>open\<close> opens, locked.\<close>

definition open_inode :: "u8 list \<Rightarrow> u32 \<Rightarrow> 'a kernel_scheme \<Rightarrow> (nat option \<times> 'a kernel_scheme) res" where
  "open_inode path omode s =
     (if omode AND O_CREATE \<noteq> 0 then create path T_FILE 0 0 s
      else
        bindr (namei path s) (\<lambda>(r, s).
        case r of
          None \<Rightarrow> Ok (None, s)
        | Some ip \<Rightarrow>
            bindr (ilock ip s) (\<lambda>s.
            if itype (inodes s ip) = T_DIR \<and> omode \<noteq> O_RDONLY
            then bindr (iunlockput ip s) (\<lambda>s. Ok (None, s))
            else Ok (Some ip, s))))"

text \<open>A new file with a new descriptor; a file without a descriptor is closed again.\<close>

definition new_fd :: "'a kernel_scheme \<Rightarrow> ((nat \<times> nat) option \<times> 'a kernel_scheme) res" where
  "new_fd s =
     (case filealloc s of
        (None, s) \<Rightarrow> Ok (None, s)
      | (Some f, s) \<Rightarrow>
          (case fdalloc f s of
             (None, s) \<Rightarrow> bindr (fileclose f s) (\<lambda>s. Ok (None, s))
           | (Some fd, s) \<Rightarrow> Ok (Some (f, fd), s)))"

definition open_file :: "nat \<Rightarrow> u32 \<Rightarrow> struct_file \<Rightarrow> struct_file" where
  "open_file ip omode f = f\<lparr>ftype := FD_INODE, fip := ip, foff := 0,
     readable := (if omode AND O_WRONLY = 0 then 1 else 0),
     writable := (if omode AND O_WRONLY \<noteq> 0 \<or> omode AND O_RDWR \<noteq> 0 then 1 else 0)\<rparr>"

definition sys_open :: "'a kernel_scheme \<Rightarrow> (int \<times> 'a kernel_scheme) res" where
  "sys_open s =
     bindr (argstr 0 s) (\<lambda>(path, s).
     case path of
       None \<Rightarrow> Ok (- 1, s)
     | Some path \<Rightarrow>
         bindr (argint 1 s) (\<lambda>(omode, s).
         case omode of
           None \<Rightarrow> Ok (- 1, s)
         | Some omode \<Rightarrow>
             bindr (begin_op s) (\<lambda>s.
             bindr (open_inode path omode s) (\<lambda>(r, s).
             case r of
               None \<Rightarrow> fail_op s
             | Some ip \<Rightarrow>
                 bindr (new_fd s) (\<lambda>(r, s).
                 case r of
                   None \<Rightarrow> bindr (iunlockput ip s) fail_op
                 | Some (f, fd) \<Rightarrow>
                     bindr (iunlock ip s) (\<lambda>s.
                     bindr (end_op s) (\<lambda>s. Ok (int fd, upd_file f (open_file ip omode) s))))))))"

definition sys_mkdir :: "'a kernel_scheme \<Rightarrow> (int \<times> 'a kernel_scheme) res" where
  "sys_mkdir s =
     bindr (begin_op s) (\<lambda>s.
     bindr (argstr 0 s) (\<lambda>(path, s).
     case path of
       None \<Rightarrow> fail_op s
     | Some path \<Rightarrow>
         bindr (create path T_DIR 0 0 s) (\<lambda>(r, s).
         case r of
           None \<Rightarrow> fail_op s
         | Some ip \<Rightarrow> bindr (iunlockput ip s) (\<lambda>s. bindr (end_op s) (\<lambda>s. Ok (0, s))))))"

definition sys_mknod :: "'a kernel_scheme \<Rightarrow> (int \<times> 'a kernel_scheme) res" where
  "sys_mknod s =
     bindr (begin_op s) (\<lambda>s.
     bindr (argstr 0 s) (\<lambda>(path, s).
     case path of
       None \<Rightarrow> fail_op s
     | Some path \<Rightarrow>
         bindr (argint 1 s) (\<lambda>(mj, s).
         case mj of
           None \<Rightarrow> fail_op s
         | Some mj \<Rightarrow>
             bindr (argint 2 s) (\<lambda>(mi, s).
             case mi of
               None \<Rightarrow> fail_op s
             | Some mi \<Rightarrow>
                 bindr (create path T_DEV (ucast mj) (ucast mi) s) (\<lambda>(r, s).
                 case r of
                   None \<Rightarrow> fail_op s
                 | Some ip \<Rightarrow> bindr (iunlockput ip s) (\<lambda>s. bindr (end_op s) (\<lambda>s. Ok (0, s))))))))"

definition sys_chdir :: "'a kernel_scheme \<Rightarrow> (int \<times> 'a kernel_scheme) res" where
  "sys_chdir s =
     bindr (begin_op s) (\<lambda>s.
     bindr (argstr 0 s) (\<lambda>(path, s).
     case path of
       None \<Rightarrow> fail_op s
     | Some path \<Rightarrow>
         bindr (namei path s) (\<lambda>(r, s).
         case r of
           None \<Rightarrow> fail_op s
         | Some ip \<Rightarrow>
             bindr (ilock ip s) (\<lambda>s.
             if itype (inodes s ip) \<noteq> T_DIR then bindr (iunlockput ip s) fail_op
             else
               bindr (iunlock ip s) (\<lambda>s.
               case cwd (myproc s) of
                 None \<Rightarrow> NullDeref
               | Some old \<Rightarrow>
                   bindr (iput old s) (\<lambda>s.
                   bindr (end_op s) (\<lambda>s. Ok (0, upd_cur (\<lambda>p. p\<lparr>cwd := Some ip\<rparr>) s))))))))"

section \<open>exec and pipe\<close>

text \<open>The argument pointers from index \<open>i\<close>; \<open>k\<close> of the \<open>MAXARG\<close> places are left.\<close>

fun fetch_argv :: "nat \<Rightarrow> u32 \<Rightarrow> 'a kernel_scheme \<Rightarrow> (u8 list list option \<times> 'a kernel_scheme) res" where
  "fetch_argv 0 a s = Ok (None, s)"
| "fetch_argv (Suc k) a s =
     bindr (fetchint a s) (\<lambda>(r, s).
     case r of
       None \<Rightarrow> Ok (None, s)
     | Some p \<Rightarrow>
         if p = 0 then Ok (Some [], s)
         else
           bindr (fetchstr p s) (\<lambda>(arg, s).
           case arg of
             None \<Rightarrow> Ok (None, s)
           | Some arg \<Rightarrow>
               bindr (fetch_argv k (a + 4) s) (\<lambda>(args, s). Ok (map_option (Cons arg) args, s))))"

definition sys_exec :: "'a kernel_scheme \<Rightarrow> (int \<times> 'a kernel_scheme) res" where
  "sys_exec s =
     bindr (argstr 0 s) (\<lambda>(path, s).
     case path of
       None \<Rightarrow> Ok (- 1, s)
     | Some path \<Rightarrow>
         bindr (argint 1 s) (\<lambda>(uargv, s).
         case uargv of
           None \<Rightarrow> Ok (- 1, s)
         | Some uargv \<Rightarrow>
             bindr (fetch_argv MAXARG uargv s) (\<lambda>(argv, s).
             case argv of
               None \<Rightarrow> Ok (- 1, s)
             | Some argv \<Rightarrow> exec path argv s)))"

definition sys_pipe :: "'a kernel_scheme \<Rightarrow> (int \<times> 'a kernel_scheme) res" where
  "sys_pipe s =
     bindr (argptr 0 8 s) (\<lambda>(fdp, s).
     case fdp of
       None \<Rightarrow> Ok (- 1, s)
     | Some fdp \<Rightarrow>
         bindr (pipealloc s) (\<lambda>(r, s).
         case r of
           None \<Rightarrow> Ok (- 1, s)
         | Some (fr, fw) \<Rightarrow>
             let bad = (\<lambda>s. bindr (fileclose fr s) (\<lambda>s. bindr (fileclose fw s) (\<lambda>s. Ok (- 1, s)))) in
             case fdalloc fr s of
               (None, s) \<Rightarrow> bad s
             | (Some fd0, s) \<Rightarrow>
                 (case fdalloc fw s of
                    (None, s) \<Rightarrow> bad (set_fd fd0 None s)
                  | (Some fd1, s) \<Rightarrow>
                      bindr (ustore_bytes fdp (word_bytes (of_nat fd0) @ word_bytes (of_nat fd1)) s) (\<lambda>s.
                      Ok (0, s)))))"

end
