(* ===== verification/Trap.thy ===== *)
theory Trap
  imports Sysfile
begin

text \<open>
  \<open>sysproc.c\<close>, the dispatch of system calls (end of \<open>syscall.c\<close>), and \<open>trap.c\<close>. A call that ends the
  process leaves the CPU for good (\<open>Gone\<close>), with the state in which the scheduler takes over. What the
  interrupt hardware supplies (the CPU number, \<open>%cr2\<close>, the key codes, the addresses on kernel stacks)
  is an argument of \<open>trap\<close>.
\<close>

section \<open>sysproc.c\<close>

datatype 's ctl = Back 's | Gone 's

definition sys_kill :: "'a kernel_scheme \<Rightarrow> (int \<times> 'a kernel_scheme) res" where
  "sys_kill s =
     bindr (argint 0 s) (\<lambda>(r, s).
     case r of None \<Rightarrow> Ok (- 1, s) | Some n \<Rightarrow> Ok (kill (sint n) s))"

definition sys_getpid :: "'a kernel_scheme \<Rightarrow> (int \<times> 'a kernel_scheme) res" where
  "sys_getpid s = Ok (pid (myproc s), s)"

definition sys_sbrk :: "'a kernel_scheme \<Rightarrow> (int \<times> 'a kernel_scheme) res" where
  "sys_sbrk s =
     bindr (argint 0 s) (\<lambda>(r, s).
     case r of
       None \<Rightarrow> Ok (- 1, s)
     | Some n \<Rightarrow>
         let addr = sint (sz (myproc s)) in
         bindr (growproc (sint n) s) (\<lambda>(r, s). Ok (if r < 0 then - 1 else addr, s)))"

text \<open>One round of the loop of \<open>sys_sleep\<close>, which began at \<open>ticks0\<close>; the comparison is unsigned.\<close>

definition sleep_round :: "u32 \<Rightarrow> u32 \<Rightarrow> 'a ptable_scheme \<Rightarrow> (int \<times> 'a ptable_scheme) res" where
  "sleep_round ticks0 n s =
     (if ticks s - ticks0 < n then (if killed (myproc s) then Ok (- 1, s) else Blocked ChTicks)
      else Ok (0, s))"

definition sys_sleep :: "'a kernel_scheme \<Rightarrow> (int \<times> 'a kernel_scheme) res" where
  "sys_sleep s =
     bindr (argint 0 s) (\<lambda>(r, s).
     case r of None \<Rightarrow> Ok (- 1, s) | Some n \<Rightarrow> sleep_round (ticks s) n s)"

definition sys_uptime :: "'a kernel_scheme \<Rightarrow> (int \<times> 'a kernel_scheme) res" where
  "sys_uptime s = Ok (sint (ticks s), s)"

section \<open>Dispatch\<close>

text \<open>The table \<open>syscalls\<close>; \<open>SYS_exit\<close> is 2 and does not return.\<close>

definition syscalls :: "int \<Rightarrow> ('a kernel_scheme \<Rightarrow> (int \<times> 'a kernel_scheme) res) option" where
  "syscalls n =
     map_of
       [(1, fork), (3, wait), (4, sys_pipe), (5, sys_read), (6, sys_kill), (7, sys_exec), (8, sys_fstat),
        (9, sys_chdir), (10, sys_dup), (11, sys_getpid), (12, sys_sbrk), (13, sys_sleep), (14, sys_uptime),
        (15, sys_open), (16, sys_write), (17, sys_mknod), (18, sys_unlink), (19, sys_link),
        (20, sys_mkdir), (21, sys_close)] n"

definition SYS_exit :: int where "SYS_exit = 2"

definition set_eax :: "u32 \<Rightarrow> 'a ptable_scheme \<Rightarrow> 'a ptable_scheme" where
  "set_eax v s = upd_cur (\<lambda>p. p\<lparr>tf := (tf p)\<lparr>tf_eax := v\<rparr>\<rparr>) s"

definition syscall :: "'a kernel_scheme \<Rightarrow> 'a kernel_scheme ctl res" where
  "syscall s =
     (let num = sint (tf_eax (tf (myproc s))) in
      if num = SYS_exit then bindr (exit s) (\<lambda>s. Ok (Gone s))
      else
        case syscalls num of
          Some f \<Rightarrow> bindr (f s) (\<lambda>(r, s). Ok (Back (set_eax (of_int r) s)))
        | None \<Rightarrow> Ok (Back (set_eax (- 1) s)))"

section \<open>Traps\<close>

definition T_PGFLT :: u32 where "T_PGFLT = 14"
definition T_IRQ0 :: u32 where "T_IRQ0 = 32"
definition T_SYSCALL :: u32 where "T_SYSCALL = 64"
definition IRQ_TIMER :: u32 where "IRQ_TIMER = 0"
definition IRQ_KBD :: u32 where "IRQ_KBD = 1"
definition IRQ_COM1 :: u32 where "IRQ_COM1 = 4"
definition IRQ_IDE :: u32 where "IRQ_IDE = 14"
definition IRQ_SPURIOUS :: u32 where "IRQ_SPURIOUS = 31"

record hw =
  hw_cpuid :: nat
  hw_cr2 :: u32
  hw_keys :: "int list"
  hw_pcs :: "nat \<Rightarrow> u32 list"

definition timer_tick :: "nat \<Rightarrow> 'a kernel_scheme \<Rightarrow> 'a kernel_scheme res" where
  "timer_tick cpu s =
     (if cpu = 0
      then bindr (update_recently_accessed s) (\<lambda>s. Ok (wakeup ChTicks (s\<lparr>ticks := ticks s + 1\<rparr>)))
      else Ok s)"

text \<open>\<open>kbdintr\<close> and \<open>uartintr\<close>: the codes go to the console; a control-P lists the processes.\<close>

definition input_intr :: "hw \<Rightarrow> 'a kernel_scheme \<Rightarrow> 'a kernel_scheme res" where
  "input_intr h s =
     bindr (consoleintr (hw_keys h) s) (\<lambda>(dump, s).
     if dump then foldr_res consputc (map uint (procdump (hw_pcs h) s)) s else Ok s)"

definition from_user :: "trapframe \<Rightarrow> bool" where
  "from_user f \<longleftrightarrow> tf_cs f AND 3 = DPL_USER"

definition kill_cur :: "'a ptable_scheme \<Rightarrow> 'a ptable_scheme" where
  "kill_cur s = upd_cur (\<lambda>p. p\<lparr>killed := True\<rparr>) s"

text \<open>The label \<open>pf\<close>.\<close>

definition bad_trap :: "trapframe \<Rightarrow> 'a ptable_scheme \<Rightarrow> 'a ptable_scheme res" where
  "bad_trap f s = (if tf_cs f AND 3 = 0 then Panic ''trap'' else Ok (kill_cur s))"

definition trap_cause :: "hw \<Rightarrow> trapframe \<Rightarrow> 'a kernel_scheme \<Rightarrow> 'a kernel_scheme res" where
  "trap_cause h f s =
     (let no = tf_trapno f in
      if no = T_IRQ0 + IRQ_TIMER then timer_tick (hw_cpuid h) s
      else if no = T_IRQ0 + IRQ_IDE \<or> no = T_IRQ0 + IRQ_IDE + 1 then Ok s
      else if no = T_IRQ0 + IRQ_KBD \<or> no = T_IRQ0 + IRQ_COM1 then input_intr h s
      else if no = T_IRQ0 + 7 \<or> no = T_IRQ0 + IRQ_SPURIOUS then Ok s
      else if no = T_PGFLT
      then bindr (page_fault (hw_cr2 h) s) (\<lambda>(ok, s). if ok then Ok s else bad_trap f s)
      else bad_trap f s)"

text \<open>
  After the interrupt: a killed process that was in user mode exits, and the timer makes a running
  process yield. \<open>resume\<close> is what the rest of the machine does until the process runs again.
\<close>

definition trap_tail ::
    "('a kernel_scheme \<Rightarrow> 'a kernel_scheme) \<Rightarrow> trapframe \<Rightarrow> 'a kernel_scheme \<Rightarrow> 'a kernel_scheme ctl res" where
  "trap_tail resume f s =
     (if killed (myproc s) \<and> from_user f then bindr (exit s) (\<lambda>s. Ok (Gone s))
      else
        let s = (if pstate (myproc s) = RUNNING \<and> tf_trapno f = T_IRQ0 + IRQ_TIMER then resume (yield s) else s)
        in if killed (myproc s) \<and> from_user f then bindr (exit s) (\<lambda>s. Ok (Gone s)) else Ok (Back s))"

definition trap ::
    "('a kernel_scheme \<Rightarrow> 'a kernel_scheme) \<Rightarrow> hw \<Rightarrow> trapframe \<Rightarrow> 'a kernel_scheme \<Rightarrow> 'a kernel_scheme ctl res" where
  "trap resume h f s =
     (if tf_trapno f = T_SYSCALL
      then
        if killed (myproc s) then bindr (exit s) (\<lambda>s. Ok (Gone s))
        else
          bindr (syscall (upd_cur (\<lambda>p. p\<lparr>tf := f\<rparr>) s)) (\<lambda>c.
          case c of
            Gone s \<Rightarrow> Ok (Gone s)
          | Back s \<Rightarrow> if killed (myproc s) then bindr (exit s) (\<lambda>s. Ok (Gone s)) else Ok (Back s))
      else bindr (trap_cause h f s) (trap_tail resume f))"

section \<open>Properties\<close>

lemma trap_tail_Back:
  "trap_tail resume f s = Ok (Back t) \<Longrightarrow> from_user f \<Longrightarrow> \<not> killed (myproc t)"
  by (auto simp: trap_tail_def bindr_eq_Ok Let_def split: if_splits)

text \<open>
  C19: A killed process never gets back to user mode. Whenever \<open>trap\<close> returns, for a system call or for
  any interrupt, fault or exception taken in user mode, the process it returns to is not marked killed;
  a process that is leaves through \<open>exit\<close>.
\<close>

theorem killed_never_returns:
  assumes "trap resume h f s = Ok (Back t)" and "from_user f"
  shows "\<not> killed (myproc t)"
proof (cases "tf_trapno f = T_SYSCALL")
  case True
  then obtain c where "syscall (upd_cur (\<lambda>p. p\<lparr>tf := f\<rparr>) s) = Ok c"
      "(case c of Gone s \<Rightarrow> Ok (Gone s)
        | Back s \<Rightarrow> if killed (myproc s) then bindr (exit s) (\<lambda>s. Ok (Gone s)) else Ok (Back s)) = Ok (Back t)"
    using assms(1) by (auto simp: trap_def bindr_eq_Ok split: if_splits)
  then show ?thesis by (cases c) (auto simp: bindr_eq_Ok split: if_splits)
next
  case False
  then show ?thesis using assms trap_tail_Back by (auto simp: trap_def bindr_eq_Ok)
qed

text \<open>A timer interrupt on the second CPU while process 3 runs in user mode.\<close>

definition timer_frame :: trapframe where
  "timer_frame = zero_tf\<lparr>tf_trapno := T_IRQ0 + IRQ_TIMER, tf_cs := 0x1b\<rparr>"

lemma killed_never_returns_witness:
  "\<exists>t. trap (\<lambda>s. s) \<lparr>hw_cpuid = 1, hw_cr2 = 0, hw_keys = [], hw_pcs = (\<lambda>i. [])\<rparr> timer_frame
         (two_procs\<lparr>curproc := 3\<rparr>) = Ok (Back t) \<and> \<not> killed (myproc t)"
proof -
  let ?h = "\<lparr>hw_cpuid = 1, hw_cr2 = 0, hw_keys = [], hw_pcs = (\<lambda>i. [])\<rparr>"
  have u: "from_user timer_frame" by (simp add: from_user_def timer_frame_def DPL_USER_def)
  have "\<exists>t. trap (\<lambda>s. s) ?h timer_frame (two_procs\<lparr>curproc := 3\<rparr>) = Ok (Back t)"
    by (simp add: trap_def timer_frame_def T_IRQ0_def IRQ_TIMER_def T_SYSCALL_def trap_cause_def timer_tick_def
        trap_tail_def myproc_def two_procs_def kernel0_defs zero_proc_def yield_def upd_cur_def upd_proc_def)
  then show ?thesis using killed_never_returns [OF _ u] by blast
qed

lemma syscalls_None: "syscalls n = None \<longleftrightarrow> n \<notin> insert 1 {3..21}"
proof -
  have "{3..21} = {3, 4, 5, 6, 7, 8, 9, 10, 11, 12, 13, 14, 15, 16, 17, 18, 19, 20, 21 :: int}"
    by (simp only: set_eq_iff atLeastAtMost_iff insert_iff empty_iff) presburger
  then show ?thesis by (auto simp: syscalls_def map_of_eq_None_iff)
qed

text \<open>
  The dispatch is total and isolates errors. A call number outside 1 to 21 changes nothing but
  \<open>%eax\<close>, which becomes -1; a valid one other than \<open>exit\<close> runs exactly its entry of the table and puts
  the result in \<open>%eax\<close>.
\<close>

theorem syscall_dispatch:
  "(\<forall>n. n = sint (tf_eax (tf (myproc s))) \<longrightarrow>
      (n < 1 \<or> 21 < n \<longrightarrow> syscall s = Ok (Back (set_eax (- 1) s)))
    \<and> (1 \<le> n \<and> n \<le> 21 \<and> n \<noteq> SYS_exit \<longrightarrow>
         (\<exists>f. syscalls n = Some f \<and> syscall s = bindr (f s) (\<lambda>(r, t). Ok (Back (set_eax (of_int r) t))))))"
proof (intro allI impI conjI)
  fix n
  assume n: "n = sint (tf_eax (tf (myproc s)))"
  show "syscall s = Ok (Back (set_eax (- 1) s))" if "n < 1 \<or> 21 < n"
  proof -
    have "syscalls n = (None :: ('a kernel_scheme \<Rightarrow> _) option)" "n \<noteq> SYS_exit"
      using that by (auto simp: syscalls_None SYS_exit_def)
    then show ?thesis using n by (simp add: syscall_def Let_def)
  qed
  show "\<exists>f. syscalls n = Some f \<and> syscall s = bindr (f s) (\<lambda>(r, t). Ok (Back (set_eax (of_int r) t)))"
    if "1 \<le> n \<and> n \<le> 21 \<and> n \<noteq> SYS_exit"
  proof -
    have "syscalls n \<noteq> (None :: ('a kernel_scheme \<Rightarrow> _) option)"
      using that by (auto simp: syscalls_None SYS_exit_def)
    then obtain f :: "'a kernel_scheme \<Rightarrow> _" where "syscalls n = Some f" by auto
    then show ?thesis using n that by (intro exI [of _ f]) (simp add: syscall_def Let_def)
  qed
qed

lemma syscall_dispatch_witness:
  "syscall (upd_cur (\<lambda>p. p\<lparr>tf := zero_tf\<lparr>tf_eax := 22\<rparr>\<rparr>) kernel0)
     = Ok (Back (set_eax (- 1) (upd_cur (\<lambda>p. p\<lparr>tf := zero_tf\<lparr>tf_eax := 22\<rparr>\<rparr>) kernel0)))"
  using syscall_dispatch [of "upd_cur (\<lambda>p. p\<lparr>tf := zero_tf\<lparr>tf_eax := 22\<rparr>\<rparr>) kernel0"]
  by (simp add: myproc_def upd_cur_def)

text \<open>
  \<open>sleep(n)\<close> returns 0 only when at least \<open>n\<close> ticks (as an unsigned number) have passed since it
  began, and -1 only for a killed process; otherwise it keeps sleeping on \<open>&ticks\<close>. A negative count
  therefore asks for more than two billion ticks.
\<close>

lemma sleep_ticks:
  "(sleep_round ticks0 n s = Ok (0, s) \<longleftrightarrow> unat n \<le> unat (ticks s - ticks0))
   \<and> (sleep_round ticks0 n s = Ok (- 1, s) \<longleftrightarrow> unat (ticks s - ticks0) < unat n \<and> killed (myproc s))
   \<and> (n <s 0 \<and> unat (ticks s - ticks0) < 2 ^ 31 \<longrightarrow> sleep_round ticks0 n s \<noteq> Ok (0, s))"
  by (auto simp: sleep_round_def word_less_nat_alt sless_zero_u32)

end
