(* ===== verification/Sjf.thy ===== *)
theory Sjf
  imports ProcTable
begin

text \<open>
  The kernel of the first two assignments (\<open>Lab1+Lab2\<close>): its \<open>proc.c\<close> replaces the round-robin
  scheduler by one that always runs the runnable process with the least burst time, and counts the
  context switches of each process; its \<open>sysproc.c\<close> adds calls that report on the table. The rest of
  that tree is the same code as the third assignment's, modelled in the other theories.
  \<open>run i\<close> is what process \<open>i\<close> does from the switch to it until it switches back. C integers are words
  that are compared as signed numbers.
\<close>

record sproc =
  s_sz :: u32
  s_pgdir :: u32
  s_kstack :: u32
  s_state :: procstate
  s_pid :: u32
  s_parent :: "nat option"
  s_tf :: trapframe
  s_context :: u32
  s_chan :: "chan option"
  s_killed :: bool
  s_ofile :: "nat \<Rightarrow> nat option"
  s_cwd :: "nat option"
  s_name :: string
  ctxt :: u32
  burst_time :: u32

text \<open>\<open>scur\<close> is \<open>c->proc\<close> of the one CPU.\<close>

record stable =
  sprocs :: "nat \<Rightarrow> sproc"
  scur :: "nat option"
  s_cr3 :: u32
  s_kpgdir :: u32

definition upd_sproc :: "nat \<Rightarrow> (sproc \<Rightarrow> sproc) \<Rightarrow> stable \<Rightarrow> stable" where
  "upd_sproc i f s = s\<lparr>sprocs := (sprocs s)(i := f (sprocs s i))\<rparr>"

text \<open>The fields that \<open>allocproc\<close> sets in the entry it has found.\<close>

definition found :: "u32 \<Rightarrow> sproc \<Rightarrow> sproc" where
  "found n p = p\<lparr>s_state := EMBRYO, s_pid := n, ctxt := 0, burst_time := 1\<rparr>"

section \<open>The scheduler\<close>

text \<open>The inner loop over the entries: \<open>mi\<close> is -1 until a runnable process has been seen.\<close>

fun pick :: "(nat \<Rightarrow> sproc) \<Rightarrow> nat list \<Rightarrow> u32 \<Rightarrow> nat option \<Rightarrow> nat option" where
  "pick ps [] mi next_p = next_p"
| "pick ps (p # is) mi next_p =
     (if s_state (ps p) \<noteq> RUNNABLE then pick ps is mi next_p
      else if mi = - 1 then pick ps is (burst_time (ps p)) (Some p)
      else if burst_time (ps p) <s mi then pick ps is (burst_time (ps p)) (Some p)
      else pick ps is mi next_p)"

definition switchuvm1 :: "nat \<Rightarrow> stable \<Rightarrow> stable res" where
  "switchuvm1 i s =
     (if s_kstack (sprocs s i) = 0 then Panic ''switchuvm: no kstack''
      else if s_pgdir (sprocs s i) = 0 then Panic ''switchuvm: no pgdir''
      else Ok (s\<lparr>s_cr3 := s_pgdir (sprocs s i) - 0x80000000\<rparr>))"

definition run_next :: "(nat \<Rightarrow> stable \<Rightarrow> stable res) \<Rightarrow> stable \<Rightarrow> stable res" where
  "run_next run s =
     (case pick (sprocs s) [0..<NPROC] (- 1) (scur s) of
        None \<Rightarrow> NullDeref
      | Some i \<Rightarrow>
          let s = upd_sproc i (\<lambda>p. p\<lparr>ctxt := ctxt p + 1\<rparr>) (s\<lparr>scur := Some i\<rparr>) in
          bindr (switchuvm1 i s) (\<lambda>s.
          bindr (run i (upd_sproc i (\<lambda>p. p\<lparr>s_state := RUNNING\<rparr>) s)) (\<lambda>s.
          Ok (s\<lparr>s_cr3 := s_kpgdir s - 0x80000000, scur := None\<rparr>))))"

definition sched_entry :: "(nat \<Rightarrow> stable \<Rightarrow> stable res) \<Rightarrow> nat \<Rightarrow> stable \<Rightarrow> stable res" where
  "sched_entry run p1 s = (if s_state (sprocs s p1) \<noteq> RUNNABLE then Ok s else run_next run s)"

definition scheduler_round :: "(nat \<Rightarrow> stable \<Rightarrow> stable res) \<Rightarrow> stable \<Rightarrow> stable res" where
  "scheduler_round run s = foldr_res (sched_entry run) [0..<NPROC] s"

section \<open>The calls\<close>

definition setBurstTime :: "nat \<Rightarrow> u32 \<Rightarrow> stable \<Rightarrow> int \<times> stable" where
  "setBurstTime me n s = (0, upd_sproc me (\<lambda>p. p\<lparr>burst_time := n\<rparr>) s)"

definition getBurstTime :: "nat \<Rightarrow> stable \<Rightarrow> u32" where
  "getBurstTime me s = burst_time (sprocs s me)"

fun count_used :: "(nat \<Rightarrow> sproc) \<Rightarrow> nat list \<Rightarrow> u32 \<Rightarrow> u32" where
  "count_used ps [] cnt = cnt"
| "count_used ps (p # is) cnt = count_used ps is (if s_state (ps p) \<noteq> UNUSED then cnt + 1 else cnt)"

definition sys_getNumProc :: "stable \<Rightarrow> u32" where
  "sys_getNumProc s = count_used (sprocs s) [0..<NPROC] 0"

fun max_pid :: "(nat \<Rightarrow> sproc) \<Rightarrow> nat list \<Rightarrow> u32 \<Rightarrow> u32" where
  "max_pid ps [] ma = ma"
| "max_pid ps (p # is) ma =
     max_pid ps is (if s_state (ps p) \<noteq> UNUSED \<and> ma <s s_pid (ps p) then s_pid (ps p) else ma)"

definition sys_getMaxPid :: "stable \<Rightarrow> u32" where
  "sys_getMaxPid s = max_pid (sprocs s) [0..<NPROC] (- 1)"

record processInfo =
  ppid :: u32
  psize :: u32
  numberContextSwitches :: u32

text \<open>The result -1 leaves the caller's structure alone (\<open>None\<close>).\<close>

definition getProcInfo :: "u32 \<Rightarrow> stable \<Rightarrow> (int \<times> processInfo option) res" where
  "getProcInfo n s =
     (case List.find (\<lambda>i. s_state (sprocs s i) \<noteq> UNUSED \<and> s_pid (sprocs s i) = n) [0..<NPROC] of
        None \<Rightarrow> Ok (- 1, None)
      | Some i \<Rightarrow>
          let p = sprocs s i in
          bindr (if s_pid p = 1 then Ok 0
                 else case s_parent p of None \<Rightarrow> NullDeref | Some q \<Rightarrow> Ok (s_pid (sprocs s q))) (\<lambda>pp.
          Ok (0, Some \<lparr>ppid = pp, psize = s_sz p, numberContextSwitches = ctxt p\<rparr>)))"

section \<open>What the scheduler picks\<close>

lemma sless_linear: "\<not> (a :: u32) <s b \<longleftrightarrow> b \<le>s a"
  by (simp add: word_sless_alt word_sle_eq not_less)

lemma sle_refl [simp]: "(a :: u32) \<le>s a"
  by (simp add: word_sle_eq)

text \<open>
  \<open>i\<close> is a runnable process of \<open>A\<close> with the least burst time, and the first such in the table.
\<close>

definition shortest :: "(nat \<Rightarrow> sproc) \<Rightarrow> nat set \<Rightarrow> nat \<Rightarrow> bool" where
  "shortest ps A i \<longleftrightarrow> i \<in> A \<and> s_state (ps i) = RUNNABLE
     \<and> (\<forall>j\<in>A. s_state (ps j) = RUNNABLE \<longrightarrow>
          burst_time (ps i) \<le>s burst_time (ps j) \<and> (j < i \<longrightarrow> burst_time (ps i) <s burst_time (ps j)))"

lemma shortest_insert:
  "shortest ps A i \<Longrightarrow> s_state (ps y) = RUNNABLE \<longrightarrow>
     burst_time (ps i) \<le>s burst_time (ps y) \<and> (y < i \<longrightarrow> burst_time (ps i) <s burst_time (ps y)) \<Longrightarrow>
   shortest ps (insert y A) i"
  by (auto simp: shortest_def)

lemma pick_from:
  assumes "sorted_wrt (<) (b # is)" "s_state (ps b) = RUNNABLE"
    and "\<forall>i\<in>set (b # is). s_state (ps i) = RUNNABLE \<longrightarrow> burst_time (ps i) \<noteq> - 1"
  shows "\<exists>i. pick ps is (burst_time (ps b)) (Some b) = Some i \<and> shortest ps (set (b # is)) i"
  using assms
proof (induction "is" arbitrary: b)
  case Nil
  then show ?case by (simp add: shortest_def)
next
  case (Cons y ys)
  have ne: "burst_time (ps b) \<noteq> - 1" using Cons.prems(2,3) by auto
  consider (skip) "s_state (ps y) \<noteq> RUNNABLE"
    | (take) "s_state (ps y) = RUNNABLE" "burst_time (ps y) <s burst_time (ps b)"
    | (keep) "s_state (ps y) = RUNNABLE" "\<not> burst_time (ps y) <s burst_time (ps b)" by blast
  then show ?case
  proof cases
    case take
    have "\<exists>i. pick ps ys (burst_time (ps y)) (Some y) = Some i \<and> shortest ps (set (y # ys)) i"
      using Cons.prems take by (intro Cons.IH) auto
    then obtain i where i: "pick ps ys (burst_time (ps y)) (Some y) = Some i" "shortest ps (set (y # ys)) i"
      by blast
    then have "burst_time (ps i) \<le>s burst_time (ps y)" using take(1) by (simp add: shortest_def)
    then have "burst_time (ps i) <s burst_time (ps b) \<and> burst_time (ps i) \<le>s burst_time (ps b)"
      using take(2) by (simp add: word_sless_alt word_sle_eq)
    then have "shortest ps (insert b (set (y # ys))) i" using i(2) by (intro shortest_insert) simp_all
    then show ?thesis using i take ne by simp
  next
    case keep
    have "\<exists>i. pick ps ys (burst_time (ps b)) (Some b) = Some i \<and> shortest ps (set (b # ys)) i"
      using Cons.prems by (intro Cons.IH) auto
    then obtain i where i: "pick ps ys (burst_time (ps b)) (Some b) = Some i" "shortest ps (set (b # ys)) i"
      by blast
    have "burst_time (ps i) \<le>s burst_time (ps b)" "b < i \<Longrightarrow> burst_time (ps i) <s burst_time (ps b)"
      using i(2) Cons.prems(2) by (auto simp: shortest_def)
    moreover have "i = b \<or> b < i" using i(2) Cons.prems(1) by (auto simp: shortest_def)
    moreover have "b < y" using Cons.prems(1) by simp
    ultimately have "burst_time (ps i) \<le>s burst_time (ps y) \<and> (y < i \<longrightarrow> burst_time (ps i) <s burst_time (ps y))"
      using keep by (auto simp: word_sless_alt word_sle_eq)
    then have "shortest ps (insert y (set (b # ys))) i" using i(2) by (intro shortest_insert) simp_all
    then show ?thesis using i keep ne by (simp add: insert_commute)
  next
    case skip
    have "\<exists>i. pick ps ys (burst_time (ps b)) (Some b) = Some i \<and> shortest ps (set (b # ys)) i"
      using Cons.prems by (intro Cons.IH) auto
    then obtain i where i: "pick ps ys (burst_time (ps b)) (Some b) = Some i" "shortest ps (set (b # ys)) i"
      by blast
    have "shortest ps (insert y (set (b # ys))) i" using i(2) skip by (intro shortest_insert) simp_all
    then show ?thesis using i skip by (simp add: insert_commute)
  qed
qed

lemma pick_shortest:
  assumes "sorted_wrt (<) is" "\<exists>i\<in>set is. s_state (ps i) = RUNNABLE"
    and "\<forall>i\<in>set is. s_state (ps i) = RUNNABLE \<longrightarrow> burst_time (ps i) \<noteq> - 1"
  shows "\<exists>i. pick ps is (- 1) np = Some i \<and> shortest ps (set is) i"
  using assms
proof (induction "is")
  case (Cons y ys)
  show ?case
  proof (cases "s_state (ps y) = RUNNABLE")
    case True
    then show ?thesis using pick_from [of y ys ps] Cons.prems by simp
  next
    case False
    have "\<exists>i. pick ps ys (- 1) np = Some i \<and> shortest ps (set ys) i"
      using Cons.prems False by (intro Cons.IH) auto
    then obtain i where i: "pick ps ys (- 1) np = Some i" "shortest ps (set ys) i" by blast
    have "shortest ps (insert y (set ys)) i" using i(2) False by (intro shortest_insert) simp_all
    then show ?thesis using i False by simp
  qed
qed simp

text \<open>Whatever the burst times are, a runnable process is picked if there is one.\<close>

lemma pick_runnable:
  "\<exists>i. pick ps is mi (Some b) = Some i \<and> (i = b \<or> i \<in> set is \<and> s_state (ps i) = RUNNABLE)"
proof (induction "is" arbitrary: mi b)
  case (Cons y ys)
  show ?case using Cons [of "burst_time (ps y)" y] Cons [of mi b] by auto
qed simp

lemma pick_None: "pick ps is (- 1) None = None \<longleftrightarrow> (\<forall>i\<in>set is. s_state (ps i) \<noteq> RUNNABLE)"
proof (induction "is")
  case (Cons y ys)
  show ?case using pick_runnable [of ps ys "burst_time (ps y)" y] Cons by auto
qed simp

section \<open>Properties\<close>

text \<open>
  C24: The scheduler is shortest job first. When some process is runnable and no runnable process has
  the burst time -1, the scheduler switches to a runnable process whose burst time is least as a signed
  number, and to the first of these in the table; it counts the switch, marks the process running and
  lets it run in its own address space.
\<close>

theorem runs_shortest:
  assumes "\<exists>i<NPROC. s_state (sprocs s i) = RUNNABLE"
    and "\<forall>i<NPROC. s_state (sprocs s i) = RUNNABLE \<longrightarrow>
           burst_time (sprocs s i) \<noteq> - 1 \<and> s_kstack (sprocs s i) \<noteq> 0 \<and> s_pgdir (sprocs s i) \<noteq> 0"
  shows "\<exists>i. shortest (sprocs s) {..<NPROC} i
     \<and> run_next run s =
         bindr (run i (s\<lparr>scur := Some i, s_cr3 := s_pgdir (sprocs s i) - 0x80000000,
             sprocs := (sprocs s)(i := (sprocs s i)\<lparr>ctxt := ctxt (sprocs s i) + 1, s_state := RUNNING\<rparr>)\<rparr>))
               (\<lambda>t. Ok (t\<lparr>s_cr3 := s_kpgdir t - 0x80000000, scur := None\<rparr>))"
proof -
  have "\<exists>i. pick (sprocs s) [0..<NPROC] (- 1) (scur s) = Some i \<and> shortest (sprocs s) (set [0..<NPROC]) i"
    using assms by (intro pick_shortest) auto
  then obtain i where i: "pick (sprocs s) [0..<NPROC] (- 1) (scur s) = Some i"
      "shortest (sprocs s) {..<NPROC} i" by (auto simp: atLeast0LessThan)
  then have "s_kstack (sprocs s i) \<noteq> 0" "s_pgdir (sprocs s i) \<noteq> 0"
    using assms(2) by (auto simp: shortest_def)
  then have "run_next run s =
         bindr (run i (s\<lparr>scur := Some i, s_cr3 := s_pgdir (sprocs s i) - 0x80000000,
             sprocs := (sprocs s)(i := (sprocs s i)\<lparr>ctxt := ctxt (sprocs s i) + 1, s_state := RUNNING\<rparr>)\<rparr>))
               (\<lambda>t. Ok (t\<lparr>s_cr3 := s_kpgdir t - 0x80000000, scur := None\<rparr>))"
    using i(1) by (simp add: run_next_def switchuvm1_def upd_sproc_def Let_def)
  then show ?thesis using i(2) by blast
qed

definition sproc0 :: sproc where
  "sproc0 = \<lparr>s_sz = 0, s_pgdir = 0x80400000, s_kstack = 0x80401000, s_state = UNUSED, s_pid = 0, s_parent = None,
     s_tf = zero_tf, s_context = 0, s_chan = None, s_killed = False, s_ofile = (\<lambda>_. None), s_cwd = None,
     s_name = [], ctxt = 0, burst_time = 1\<rparr>"

text \<open>A table of an example: process 2 has burst time 9, process 5 has \<open>b\<close>, process 6 has 4.\<close>

definition stable0 :: "u32 \<Rightarrow> stable" where
  "stable0 b = \<lparr>sprocs = (\<lambda>_. sproc0)
       (2 := sproc0\<lparr>s_state := RUNNABLE, s_pid := 3, s_parent := Some 0, burst_time := 9\<rparr>,
        5 := sproc0\<lparr>s_state := RUNNABLE, s_pid := 7, s_parent := Some 2, burst_time := b\<rparr>,
        6 := sproc0\<lparr>s_state := RUNNABLE, s_pid := 4, s_parent := Some 2, burst_time := 4\<rparr>),
     scur = None, s_cr3 = 0, s_kpgdir = 0\<rparr>"

definition compute_bound :: "nat \<Rightarrow> stable \<Rightarrow> stable res" where
  "compute_bound i s = Ok (upd_sproc i (\<lambda>p. p\<lparr>s_state := RUNNABLE\<rparr>) s)"

lemma stable0_state: "s_state (sprocs (stable0 b) i) = (if i \<in> {2, 5, 6} then RUNNABLE else UNUSED)"
  by (simp add: stable0_def sproc0_def)

lemma stable0_burst: "burst_time (sprocs (stable0 b) i) = (if i = 2 then 9 else if i = 5 then b else if i = 6 then 4 else 1)"
  by (simp add: stable0_def sproc0_def)

lemma stable0_kstack: "s_kstack (sprocs (stable0 b) i) \<noteq> 0" "s_pgdir (sprocs (stable0 b) i) \<noteq> 0"
  by (simp_all add: stable0_def sproc0_def)

theorem runs_shortest_witness:
  "\<exists>t. run_next compute_bound (stable0 (- 3)) = Ok t \<and> ctxt (sprocs t 5) = 1"
proof -
  have "\<exists>i<NPROC. s_state (sprocs (stable0 (- 3)) i) = RUNNABLE"
    by (rule exI [of _ 2]) (simp add: stable0_state NPROC_def)
  moreover have "\<forall>i<NPROC. s_state (sprocs (stable0 (- 3)) i) = RUNNABLE \<longrightarrow>
      burst_time (sprocs (stable0 (- 3)) i) \<noteq> - 1 \<and> s_kstack (sprocs (stable0 (- 3)) i) \<noteq> 0
      \<and> s_pgdir (sprocs (stable0 (- 3)) i) \<noteq> 0"
    by (simp add: stable0_state stable0_burst stable0_kstack)
  ultimately obtain i where i: "shortest (sprocs (stable0 (- 3))) {..<NPROC} i"
    "run_next compute_bound (stable0 (- 3)) = bindr (compute_bound i ((stable0 (- 3))\<lparr>scur := Some i,
        s_cr3 := s_pgdir (sprocs (stable0 (- 3)) i) - 0x80000000,
        sprocs := (sprocs (stable0 (- 3)))(i := (sprocs (stable0 (- 3)) i)
          \<lparr>ctxt := ctxt (sprocs (stable0 (- 3)) i) + 1, s_state := RUNNING\<rparr>)\<rparr>))
      (\<lambda>t. Ok (t\<lparr>s_cr3 := s_kpgdir t - 0x80000000, scur := None\<rparr>))"
    using runs_shortest [of "stable0 (- 3)" compute_bound] by blast
  then have "burst_time (sprocs (stable0 (- 3)) i) \<le>s - 3" "s_state (sprocs (stable0 (- 3)) i) = RUNNABLE"
    by (auto simp: shortest_def stable0_state stable0_burst NPROC_def dest: bspec [of _ _ 5])
  then have "i = 5" by (auto simp: stable0_state stable0_burst word_sle_eq split: if_splits)
  then show ?thesis using i(2) by (simp add: compute_bound_def upd_sproc_def) (simp add: stable0_def sproc0_def)
qed

text \<open>
  The value -1 marks \<open>nothing found yet\<close> in the search but is also a burst time that a process may
  set. A runnable process with burst time -1 loses against any runnable process behind it in the table,
  however long that one's burst is.
\<close>

theorem burst_minus_one_loses:
  assumes "s_state (ps i) = RUNNABLE" "burst_time (ps i) = - 1"
    and "s_state (ps j) = RUNNABLE" "j \<in> set js" "i \<notin> set js" "\<forall>k\<in>set is. s_state (ps k) \<noteq> RUNNABLE"
  shows "\<exists>k\<in>set js. pick ps (is @ i # js) (- 1) np = Some k"
proof -
  have a: "pick ps (is @ i # js) (- 1) np = pick ps js (- 1) (Some i)"
    using assms(1,2,6) by (induction "is") auto
  have "\<exists>k\<in>set js. pick ps js (- 1) q = Some k" for q
    using assms(3,4)
  proof (induction js)
    case (Cons y ys)
    show ?case
    proof (cases "s_state (ps y) = RUNNABLE")
      case True
      then show ?thesis using pick_runnable [of ps ys "burst_time (ps y)" y] by auto
    qed (use Cons in auto)
  qed simp
  then show ?thesis using a by simp
qed

theorem burst_minus_one_loses_witness:
  "pick (sprocs (stable0 (- 1))) [5, 6] (- 1) None = Some 6"
proof -
  have "\<exists>k\<in>set [6]. pick (sprocs (stable0 (- 1))) ([] @ 5 # [6]) (- 1) None = Some k"
    by (rule burst_minus_one_loses [of _ _ 6]) (simp_all add: stable0_state stable0_burst)
  then show ?thesis by simp
qed

text \<open>\<open>t\<close> differs from \<open>s\<close> in no field that the choice depends on, and not in entry \<open>j\<close>.\<close>

definition same_choice :: "nat \<Rightarrow> stable \<Rightarrow> stable \<Rightarrow> bool" where
  "same_choice j s t \<longleftrightarrow> sprocs t j = sprocs s j
     \<and> (\<forall>k. s_state (sprocs t k) = s_state (sprocs s k) \<and> burst_time (sprocs t k) = burst_time (sprocs s k)
          \<and> s_kstack (sprocs t k) = s_kstack (sprocs s k) \<and> s_pgdir (sprocs t k) = s_pgdir (sprocs s k))"

lemma sched_entry_same:
  assumes "i < NPROC" "s_state (sprocs s i) = RUNNABLE" "j < NPROC" "burst_time (sprocs s i) <s burst_time (sprocs s j)"
    and "\<forall>k<NPROC. s_state (sprocs s k) = RUNNABLE \<longrightarrow>
           burst_time (sprocs s k) \<noteq> - 1 \<and> s_kstack (sprocs s k) \<noteq> 0 \<and> s_pgdir (sprocs s k) \<noteq> 0"
  shows "\<exists>t. sched_entry compute_bound p s = Ok t \<and> same_choice j s t"
proof (cases "s_state (sprocs s p) = RUNNABLE")
  case True
  have "\<exists>k. pick (sprocs s) [0..<NPROC] (- 1) (scur s) = Some k \<and> shortest (sprocs s) (set [0..<NPROC]) k"
    using assms by (intro pick_shortest) auto
  then obtain k where k: "pick (sprocs s) [0..<NPROC] (- 1) (scur s) = Some k"
      "shortest (sprocs s) {..<NPROC} k" by (auto simp: atLeast0LessThan)
  have r: "s_state (sprocs s k) = RUNNABLE" "k < NPROC" "burst_time (sprocs s k) \<le>s burst_time (sprocs s i)"
    using k(2) assms(1,2) by (auto simp: shortest_def)
  have "k \<noteq> j" using r(3) assms(4) by (auto simp: word_sless_alt word_sle_eq)
  moreover have "s_kstack (sprocs s k) \<noteq> 0" "s_pgdir (sprocs s k) \<noteq> 0" using assms(5) r by auto
  ultimately show ?thesis using True k(1) r(1)
    by (simp add: sched_entry_def run_next_def switchuvm1_def upd_sproc_def compute_bound_def same_choice_def)
qed (simp add: sched_entry_def same_choice_def)

lemma foldr_res_reaches:
  "P s \<Longrightarrow> (\<And>x s. P s \<Longrightarrow> \<exists>t. f x s = Ok t \<and> P t) \<Longrightarrow> \<exists>t. foldr_res f xs s = Ok t \<and> P t"
proof (induction xs arbitrary: s)
  case (Cons x xs)
  obtain u where "f x s = Ok u" "P u" using Cons.prems by blast
  then show ?case using Cons.IH [of u] Cons.prems(2) by simp
qed simp

text \<open>
  C25: The scheduler is not fair. If every process computes until its time slice ends, a process with a
  longer burst time than another runnable one is not run in any number of rounds: its entry, the count of
  its context switches included, never changes.
\<close>

theorem longer_job_starves:
  assumes "i < NPROC" "s_state (sprocs s i) = RUNNABLE" "s_state (sprocs s j) = RUNNABLE" "j < NPROC"
    and "burst_time (sprocs s i) <s burst_time (sprocs s j)"
    and "\<forall>k<NPROC. s_state (sprocs s k) = RUNNABLE \<longrightarrow>
           burst_time (sprocs s k) \<noteq> - 1 \<and> s_kstack (sprocs s k) \<noteq> 0 \<and> s_pgdir (sprocs s k) \<noteq> 0"
  shows "\<exists>t. foldr_res (\<lambda>_. scheduler_round compute_bound) [0..<n] s = Ok t \<and> sprocs t j = sprocs s j"
proof -
  have e: "\<exists>u. sched_entry compute_bound p t = Ok u \<and> same_choice j s u" if t: "same_choice j s t" for p t
  proof -
    have "\<exists>u. sched_entry compute_bound p t = Ok u \<and> same_choice j t u"
      using assms t by (intro sched_entry_same [of i]) (simp_all add: same_choice_def)
    then show ?thesis using t by (auto simp: same_choice_def)
  qed
  have "\<exists>u. scheduler_round compute_bound t = Ok u \<and> same_choice j s u" if "same_choice j s t" for t
    unfolding scheduler_round_def using that e by (rule foldr_res_reaches)
  then have "\<exists>t. foldr_res (\<lambda>_. scheduler_round compute_bound) [0..<n] s = Ok t \<and> same_choice j s t"
    by (intro foldr_res_reaches) (auto simp: same_choice_def)
  then show ?thesis by (auto simp: same_choice_def)
qed

theorem longer_job_starves_witness:
  "\<exists>t. foldr_res (\<lambda>_. scheduler_round compute_bound) [0..<1000] (stable0 5) = Ok t \<and> ctxt (sprocs t 2) = 0"
proof -
  have "\<exists>t. foldr_res (\<lambda>_. scheduler_round compute_bound) [0..<1000] (stable0 5) = Ok t
      \<and> sprocs t 2 = sprocs (stable0 5) 2"
    by (rule longer_job_starves [of 5])
      (simp_all add: stable0_state stable0_burst stable0_kstack NPROC_def word_sless_alt)
  then show ?thesis by (auto simp: stable0_def sproc0_def)
qed

section \<open>What the calls report\<close>

lemma count_used_card:
  "distinct is \<Longrightarrow> count_used ps is c = c + of_nat (card {i \<in> set is. s_state (ps i) \<noteq> UNUSED})"
proof (induction "is" arbitrary: c)
  case (Cons y ys)
  have "{i \<in> set (y # ys). s_state (ps i) \<noteq> UNUSED} =
      (if s_state (ps y) \<noteq> UNUSED then insert y {i \<in> set ys. s_state (ps i) \<noteq> UNUSED}
       else {i \<in> set ys. s_state (ps i) \<noteq> UNUSED})" by auto
  then show ?case using Cons by (simp add: card_insert_if)
qed simp

lemma max_pid_max:
  "ma \<le>s max_pid ps is ma \<and> (\<forall>i\<in>set is. s_state (ps i) \<noteq> UNUSED \<longrightarrow> s_pid (ps i) \<le>s max_pid ps is ma)
   \<and> (max_pid ps is ma = ma \<or> (\<exists>i\<in>set is. s_state (ps i) \<noteq> UNUSED \<and> s_pid (ps i) = max_pid ps is ma))"
proof (induction "is" arbitrary: ma)
  case (Cons y ys)
  let ?m = "if s_state (ps y) \<noteq> UNUSED \<and> ma <s s_pid (ps y) then s_pid (ps y) else ma"
  have "ma \<le>s ?m" "s_state (ps y) \<noteq> UNUSED \<longrightarrow> s_pid (ps y) \<le>s ?m"
    by (auto simp: word_sle_eq word_sless_alt)
  then show ?case using Cons [of ?m] by (auto simp: word_sle_eq)
qed simp

text \<open>
  The reports are exact. \<open>getNumProc\<close> is the number of entries in use; \<open>getMaxPid\<close> is the greatest
  process identifier in use, or -1; \<open>getProcInfo\<close> reports the size, the switches and the parent's
  identifier of the first entry in use that has the identifier asked for, and -1 if there is none.
\<close>

theorem reports_exact:
  "sys_getNumProc s = of_nat (card {i. i < NPROC \<and> s_state (sprocs s i) \<noteq> UNUSED})
   \<and> (\<forall>i<NPROC. s_state (sprocs s i) \<noteq> UNUSED \<longrightarrow> s_pid (sprocs s i) \<le>s sys_getMaxPid s)
   \<and> (sys_getMaxPid s = - 1 \<or> (\<exists>i<NPROC. s_state (sprocs s i) \<noteq> UNUSED \<and> s_pid (sprocs s i) = sys_getMaxPid s))
   \<and> ((\<forall>i<NPROC. s_state (sprocs s i) \<noteq> UNUSED \<longrightarrow> s_pid (sprocs s i) \<noteq> n) \<longrightarrow> getProcInfo n s = Ok (- 1, None))
   \<and> (\<forall>i q. i < NPROC \<and> s_state (sprocs s i) \<noteq> UNUSED \<and> s_pid (sprocs s i) = n
          \<and> (\<forall>j<i. s_state (sprocs s j) = UNUSED \<or> s_pid (sprocs s j) \<noteq> n) \<and> s_parent (sprocs s i) = Some q \<longrightarrow>
        getProcInfo n s = Ok (0, Some \<lparr>ppid = (if n = 1 then 0 else s_pid (sprocs s q)),
           psize = s_sz (sprocs s i), numberContextSwitches = ctxt (sprocs s i)\<rparr>))"
proof (intro conjI)
  show "sys_getNumProc s = of_nat (card {i. i < NPROC \<and> s_state (sprocs s i) \<noteq> UNUSED})"
    by (simp add: sys_getNumProc_def count_used_card)
  show "\<forall>i<NPROC. s_state (sprocs s i) \<noteq> UNUSED \<longrightarrow> s_pid (sprocs s i) \<le>s sys_getMaxPid s"
    using max_pid_max [of "- 1" "sprocs s" "[0..<NPROC]"] by (simp add: sys_getMaxPid_def)
  show "sys_getMaxPid s = - 1 \<or> (\<exists>i<NPROC. s_state (sprocs s i) \<noteq> UNUSED \<and> s_pid (sprocs s i) = sys_getMaxPid s)"
    using max_pid_max [of "- 1" "sprocs s" "[0..<NPROC]"] by (auto simp: sys_getMaxPid_def)
  show "(\<forall>i<NPROC. s_state (sprocs s i) \<noteq> UNUSED \<longrightarrow> s_pid (sprocs s i) \<noteq> n) \<longrightarrow> getProcInfo n s = Ok (- 1, None)"
    by (auto simp: getProcInfo_def find_upt_None split: option.splits) (auto simp: find_upt_Some)
  show "\<forall>i q. i < NPROC \<and> s_state (sprocs s i) \<noteq> UNUSED \<and> s_pid (sprocs s i) = n
          \<and> (\<forall>j<i. s_state (sprocs s j) = UNUSED \<or> s_pid (sprocs s j) \<noteq> n) \<and> s_parent (sprocs s i) = Some q \<longrightarrow>
        getProcInfo n s = Ok (0, Some \<lparr>ppid = (if n = 1 then 0 else s_pid (sprocs s q)),
           psize = s_sz (sprocs s i), numberContextSwitches = ctxt (sprocs s i)\<rparr>)"
  proof (intro allI impI)
    fix i q
    assume a: "i < NPROC \<and> s_state (sprocs s i) \<noteq> UNUSED \<and> s_pid (sprocs s i) = n
          \<and> (\<forall>j<i. s_state (sprocs s j) = UNUSED \<or> s_pid (sprocs s j) \<noteq> n) \<and> s_parent (sprocs s i) = Some q"
    then have "List.find (\<lambda>i. s_state (sprocs s i) \<noteq> UNUSED \<and> s_pid (sprocs s i) = n) [0..<NPROC] = Some i"
      by (auto simp: find_upt_Some)
    then show "getProcInfo n s = Ok (0, Some \<lparr>ppid = (if n = 1 then 0 else s_pid (sprocs s q)),
           psize = s_sz (sprocs s i), numberContextSwitches = ctxt (sprocs s i)\<rparr>)"
      using a by (simp add: getProcInfo_def Let_def)
  qed
qed

theorem reports_exact_witness:
  "getProcInfo 7 (stable0 5) = Ok (0, Some \<lparr>ppid = 3, psize = 0, numberContextSwitches = 0\<rparr>)"
proof -
  have "getProcInfo 7 (stable0 5) = Ok (0, Some \<lparr>ppid = (if (7 :: u32) = 1 then 0 else s_pid (sprocs (stable0 5) 2)),
      psize = s_sz (sprocs (stable0 5) 5), numberContextSwitches = ctxt (sprocs (stable0 5) 5)\<rparr>)"
    by (rule reports_exact [of "stable0 5" 7, THEN conjunct2, THEN conjunct2, THEN conjunct2, THEN conjunct2, rule_format])
      (auto simp: stable0_def sproc0_def NPROC_def)
  then show ?thesis by (simp add: stable0_def sproc0_def)
qed

end
