(* ===== verification/Spinlock.thy ===== *)
theory Spinlock
  imports Prelude
begin

text \<open>
  \<open>spinlock.c\<close>, with \<open>mycpu\<close> and the checks of \<open>sched\<close> from \<open>proc.c\<close>. A routine runs on the CPU whose local
  APIC has the identifier \<open>a\<close>; \<open>iflag a\<close> is the interrupt flag of that CPU. The atomic exchange is one
  step, and so is each piece of a routine between two accesses that other CPUs can see.
  The call stack that \<open>acquire\<close> records for debugging is left out.
  Lemmas: the flag is restored by nested \<open>pushcli\<close> and \<open>popcli\<close>; mutual exclusion on any number of CPUs.
\<close>

record cpu =
  apicid :: u8
  ncli :: int
  intena :: bool

record spinlock =
  locked :: bool
  lk_cpu :: "nat option"

record smp =
  cpus :: "nat \<Rightarrow> cpu"
  ncpu :: nat
  iflag :: "u8 \<Rightarrow> bool"
  locks :: "nat \<Rightarrow> spinlock"

definition upd_cpu :: "nat \<Rightarrow> (cpu \<Rightarrow> cpu) \<Rightarrow> 'a smp_scheme \<Rightarrow> 'a smp_scheme" where
  "upd_cpu i f s = s\<lparr>cpus := (cpus s)(i := f (cpus s i))\<rparr>"

definition upd_lock :: "nat \<Rightarrow> (spinlock \<Rightarrow> spinlock) \<Rightarrow> 'a smp_scheme \<Rightarrow> 'a smp_scheme" where
  "upd_lock l f s = s\<lparr>locks := (locks s)(l := f (locks s l))\<rparr>"

definition set_if :: "u8 \<Rightarrow> bool \<Rightarrow> 'a smp_scheme \<Rightarrow> 'a smp_scheme" where
  "set_if a b s = s\<lparr>iflag := (iflag s)(a := b)\<rparr>"

definition mycpu :: "u8 \<Rightarrow> 'a smp_scheme \<Rightarrow> nat res" where
  "mycpu a s =
     (if iflag s a then Panic ''mycpu called with interrupts enabled''
      else
        case List.find (\<lambda>i. apicid (cpus s i) = a) [0..<ncpu s] of
          None \<Rightarrow> Panic ''unknown apicid''
        | Some i \<Rightarrow> Ok i)"

section \<open>Interrupts\<close>

definition pushcli :: "u8 \<Rightarrow> 'a smp_scheme \<Rightarrow> 'a smp_scheme res" where
  "pushcli a s =
     (let eflags = iflag s a; s = set_if a False s in
      bindr (mycpu a s) (\<lambda>i.
      let s = (if ncli (cpus s i) = 0 then upd_cpu i (\<lambda>c. c\<lparr>intena := eflags\<rparr>) s else s)
      in Ok (upd_cpu i (\<lambda>c. c\<lparr>ncli := ncli c + 1\<rparr>) s)))"

definition popcli :: "u8 \<Rightarrow> 'a smp_scheme \<Rightarrow> 'a smp_scheme res" where
  "popcli a s =
     (if iflag s a then Panic ''popcli - interruptible''
      else
        bindr (mycpu a s) (\<lambda>i.
        let s = upd_cpu i (\<lambda>c. c\<lparr>ncli := ncli c - 1\<rparr>) s in
        if ncli (cpus s i) < 0 then Panic ''popcli''
        else if ncli (cpus s i) = 0 \<and> intena (cpus s i) then Ok (set_if a True s)
        else Ok s))"

section \<open>Locks\<close>

definition initlock :: "nat \<Rightarrow> 'a smp_scheme \<Rightarrow> 'a smp_scheme" where
  "initlock l s = upd_lock l (\<lambda>k. k\<lparr>locked := False, lk_cpu := None\<rparr>) s"

definition holding :: "u8 \<Rightarrow> nat \<Rightarrow> 'a smp_scheme \<Rightarrow> (bool \<times> 'a smp_scheme) res" where
  "holding a l s =
     bindr (pushcli a s) (\<lambda>s.
     bindr (if locked (locks s l)
            then bindr (mycpu a s) (\<lambda>i. Ok (lk_cpu (locks s l) = Some i)) else Ok False) (\<lambda>r.
     bindr (popcli a s) (\<lambda>s. Ok (r, s))))"

text \<open>\<open>acquire\<close> before the loop, one exchange of the loop (its result is the old value), after the loop.\<close>

definition acquire_enter :: "u8 \<Rightarrow> nat \<Rightarrow> 'a smp_scheme \<Rightarrow> 'a smp_scheme res" where
  "acquire_enter a l s =
     bindr (pushcli a s) (\<lambda>s.
     bindr (holding a l s) (\<lambda>(r, s). if r then Panic ''acquire'' else Ok s))"

definition xchg_locked :: "nat \<Rightarrow> 'a smp_scheme \<Rightarrow> bool \<times> 'a smp_scheme" where
  "xchg_locked l s = (locked (locks s l), upd_lock l (\<lambda>k. k\<lparr>locked := True\<rparr>) s)"

definition acquire_exit :: "u8 \<Rightarrow> nat \<Rightarrow> 'a smp_scheme \<Rightarrow> 'a smp_scheme res" where
  "acquire_exit a l s = bindr (mycpu a s) (\<lambda>i. Ok (upd_lock l (\<lambda>k. k\<lparr>lk_cpu := Some i\<rparr>) s))"

text \<open>When no other CPU releases the lock in between, a lock that is taken makes the loop endless.\<close>

definition acquire :: "u8 \<Rightarrow> nat \<Rightarrow> 'a smp_scheme \<Rightarrow> 'a smp_scheme res" where
  "acquire a l s =
     bindr (acquire_enter a l s) (\<lambda>s.
     case xchg_locked l s of (old, s) \<Rightarrow> if old then Hang else acquire_exit a l s)"

text \<open>\<open>release\<close> up to the first barrier, and the rest.\<close>

definition release_enter :: "u8 \<Rightarrow> nat \<Rightarrow> 'a smp_scheme \<Rightarrow> 'a smp_scheme res" where
  "release_enter a l s =
     bindr (holding a l s) (\<lambda>(r, s).
     if \<not> r then Panic ''release'' else Ok (upd_lock l (\<lambda>k. k\<lparr>lk_cpu := None\<rparr>) s))"

definition release_exit :: "u8 \<Rightarrow> nat \<Rightarrow> 'a smp_scheme \<Rightarrow> 'a smp_scheme res" where
  "release_exit a l s = popcli a (upd_lock l (\<lambda>k. k\<lparr>locked := False\<rparr>) s)"

definition release :: "u8 \<Rightarrow> nat \<Rightarrow> 'a smp_scheme \<Rightarrow> 'a smp_scheme res" where
  "release a l s = bindr (release_enter a l s) (release_exit a l)"

text \<open>
  \<open>sched\<close> up to the switch, with the lock \<open>pt\<close> of the process table and whether the process is still
  marked running; it keeps \<open>intena\<close>, which the part after the switch puts back.
\<close>

definition sched_enter :: "u8 \<Rightarrow> nat \<Rightarrow> bool \<Rightarrow> 'a smp_scheme \<Rightarrow> (bool \<times> 'a smp_scheme) res" where
  "sched_enter a pt running s =
     bindr (holding a pt s) (\<lambda>(r, s).
     if \<not> r then Panic ''sched ptable.lock''
     else
       bindr (mycpu a s) (\<lambda>i.
       if ncli (cpus s i) \<noteq> 1 then Panic ''sched locks''
       else if running then Panic ''sched running''
       else if iflag s a then Panic ''sched interruptible''
       else Ok (intena (cpus s i), s)))"

definition sched_exit :: "u8 \<Rightarrow> bool \<Rightarrow> 'a smp_scheme \<Rightarrow> 'a smp_scheme res" where
  "sched_exit a b s = bindr (mycpu a s) (\<lambda>i. Ok (upd_cpu i (\<lambda>c. c\<lparr>intena := b\<rparr>) s))"

text \<open>The return addresses on a chain of stack frames; \<open>n\<close> entries are still to be filled.\<close>

fun callerpcs :: "nat \<Rightarrow> u32 \<Rightarrow> (u32 \<Rightarrow> u8) \<Rightarrow> u32 list" where
  "callerpcs 0 ebp m = []"
| "callerpcs (Suc n) ebp m =
     (if ebp = 0 \<or> ebp < 0x80000000 \<or> ebp = 0xFFFFFFFF then replicate (Suc n) 0
      else rd32 m (ebp + 4) # callerpcs n (rd32 m ebp) m)"

definition getcallerpcs :: "u32 \<Rightarrow> (u32 \<Rightarrow> u8) \<Rightarrow> u32 list" where
  "getcallerpcs v m = callerpcs 10 (v - 8) m"

section \<open>What the routines do on one CPU\<close>

text \<open>CPU \<open>i\<close> is known by its APIC identifier.\<close>

definition is_cpu :: "'a smp_scheme \<Rightarrow> nat \<Rightarrow> bool" where
  "is_cpu s i \<longleftrightarrow> i < ncpu s \<and> (\<forall>j<ncpu s. apicid (cpus s j) = apicid (cpus s i) \<longrightarrow> j = i)"

abbreviation apic :: "'a smp_scheme \<Rightarrow> nat \<Rightarrow> u8" where
  "apic s i \<equiv> apicid (cpus s i)"

lemma cpu_simps [simp]:
  "cpus (upd_cpu i f s) = (cpus s)(i := f (cpus s i))" "ncpu (upd_cpu i f s) = ncpu s"
  "iflag (upd_cpu i f s) = iflag s" "locks (upd_cpu i f s) = locks s"
  "cpus (upd_lock l g s) = cpus s" "ncpu (upd_lock l g s) = ncpu s" "iflag (upd_lock l g s) = iflag s"
  "locks (upd_lock l g s) = (locks s)(l := g (locks s l))"
  "cpus (set_if a b s) = cpus s" "ncpu (set_if a b s) = ncpu s" "locks (set_if a b s) = locks s"
  "iflag (set_if a b s) = (iflag s)(a := b)"
  by (simp_all add: upd_cpu_def upd_lock_def set_if_def)

lemma mycpu_is: "is_cpu s i \<Longrightarrow> \<not> iflag s (apic s i) \<Longrightarrow> mycpu (apic s i) s = Ok i"
proof -
  assume a: "is_cpu s i" "\<not> iflag s (apic s i)"
  then have "List.find (\<lambda>j. apic s j = apic s i) [0..<ncpu s] = Some i"
    unfolding find_upt_Some is_cpu_def by (blast intro: less_trans dest: less_not_refl2)
  then show ?thesis using a by (simp add: mycpu_def)
qed

lemma pushcli_is:
  assumes "is_cpu s i"
  shows "pushcli (apic s i) s = Ok (upd_cpu i (\<lambda>c. c\<lparr>intena := (if ncli c = 0 then iflag s (apic s i) else intena c),
     ncli := ncli c + 1\<rparr>) (set_if (apic s i) False s))"
proof -
  have "is_cpu (set_if (apic s i) False s) i" using assms by (simp add: is_cpu_def)
  then have "mycpu (apic s i) (set_if (apic s i) False s) = Ok i"
    using mycpu_is [of "set_if (apic s i) False s" i] by simp
  then show ?thesis by (simp add: pushcli_def upd_cpu_def set_if_def)
qed

lemma popcli_is:
  assumes "is_cpu s i" "\<not> iflag s (apic s i)" "0 < ncli (cpus s i)"
  shows "popcli (apic s i) s = Ok (set_if (apic s i) (ncli (cpus s i) = 1 \<and> intena (cpus s i))
     (upd_cpu i (\<lambda>c. c\<lparr>ncli := ncli c - 1\<rparr>) s))"
  using assms mycpu_is [OF assms(1,2)]
  by (auto simp: popcli_def upd_cpu_def set_if_def fun_upd_idem Let_def)

text \<open>Inside a critical section \<open>holding\<close> changes nothing.\<close>

lemma holding_is:
  assumes "is_cpu s i" "\<not> iflag s (apic s i)" "0 < ncli (cpus s i)"
  shows "holding (apic s i) l s = Ok (locked (locks s l) \<and> lk_cpu (locks s l) = Some i, s)"
proof -
  let ?t = "upd_cpu i (\<lambda>c. c\<lparr>intena := intena c, ncli := ncli c + 1\<rparr>) (set_if (apic s i) False s)"
  have t: "pushcli (apic s i) s = Ok ?t" using assms by (simp add: pushcli_is upd_cpu_def)
  have i: "is_cpu ?t i" "\<not> iflag ?t (apic ?t i)" "apic ?t i = apic s i" "0 < ncli (cpus ?t i)"
    using assms by (auto simp: is_cpu_def)
  have "popcli (apic s i) ?t = Ok s"
    using popcli_is [OF i(1,2,4)] assms
    by (simp add: i(3)) (simp add: upd_cpu_def set_if_def fun_upd_idem)
  moreover have "mycpu (apic s i) ?t = Ok i" using mycpu_is [OF i(1,2)] i(3) by simp
  ultimately show ?thesis by (simp add: holding_def t)
qed

section \<open>Nested pushcli and popcli\<close>

datatype cliop = Push | Pop

fun run_cli :: "u8 \<Rightarrow> cliop list \<Rightarrow> 'a smp_scheme \<Rightarrow> 'a smp_scheme res" where
  "run_cli a [] s = Ok s"
| "run_cli a (Push # xs) s = bindr (pushcli a s) (run_cli a xs)"
| "run_cli a (Pop # xs) s = bindr (popcli a s) (run_cli a xs)"

text \<open>The nesting after the operations, unless one of them is a \<open>Pop\<close> without its \<open>Push\<close>.\<close>

fun depth :: "nat \<Rightarrow> cliop list \<Rightarrow> nat option" where
  "depth d [] = Some d"
| "depth d (Push # xs) = depth (Suc d) xs"
| "depth 0 (Pop # xs) = None"
| "depth (Suc d) (Pop # xs) = depth d xs"

definition nested :: "'a smp_scheme \<Rightarrow> nat \<Rightarrow> nat \<Rightarrow> bool \<Rightarrow> bool" where
  "nested s i d f \<longleftrightarrow> is_cpu s i \<and> ncli (cpus s i) = int d \<and> (iflag s (apic s i) \<longleftrightarrow> d = 0 \<and> f)
     \<and> (0 < d \<longrightarrow> intena (cpus s i) = f)"

lemma nested_push:
  assumes "nested s i d f"
  shows "\<exists>t. pushcli (apic s i) s = Ok t \<and> nested t i (Suc d) f \<and> apic t i = apic s i"
  using assms by (auto simp: nested_def pushcli_is is_cpu_def)

lemma nested_pop:
  assumes "nested s i (Suc d) f"
  shows "\<exists>t. popcli (apic s i) s = Ok t \<and> nested t i d f \<and> apic t i = apic s i"
  using assms by (auto simp: nested_def popcli_is is_cpu_def)

lemma nested_pop_none:
  assumes "nested s i 0 f"
  shows "popcli (apic s i) s = Panic (if f then ''popcli - interruptible'' else ''popcli'')"
  using assms by (simp add: nested_def popcli_def mycpu_is upd_cpu_def)

lemma nested_run:
  assumes "nested s i d f"
  shows "case depth d ops of
      Some e \<Rightarrow> \<exists>t. run_cli (apic s i) ops s = Ok t \<and> nested t i e f \<and> apic t i = apic s i
    | None \<Rightarrow> run_cli (apic s i) ops s = Panic (if f then ''popcli - interruptible'' else ''popcli'')"
  using assms
proof (induction ops arbitrary: s d)
  case (Cons x xs)
  show ?case
  proof (cases x)
    case Push
    obtain t where t: "pushcli (apic s i) s = Ok t" "nested t i (Suc d) f" "apic t i = apic s i"
      using nested_push [OF Cons.prems] by blast
    show ?thesis using Cons.IH [OF t(2)] t unfolding Push by (cases f) (simp_all split: option.splits)
  next
    case Pop
    show ?thesis
    proof (cases d)
      case 0
      then show ?thesis using nested_pop_none [of s i f] Cons.prems Pop by simp
    next
      case (Suc e)
      obtain t where t: "popcli (apic s i) s = Ok t" "nested t i e f" "apic t i = apic s i"
        using nested_pop [of s i e f] Cons.prems Suc by blast
      show ?thesis using Cons.IH [OF t(2)] t unfolding Pop Suc by (cases f) (simp_all split: option.splits)
    qed
  qed
qed simp

text \<open>
  \<open>pushcli\<close> and \<open>popcli\<close> nest. Started outside any section, every sequence of them in which no
  \<open>popcli\<close> lacks its \<open>pushcli\<close> runs without panic, and afterwards interrupts are enabled exactly if no
  \<open>pushcli\<close> is open and they were enabled at the start; the first \<open>popcli\<close> too many panics.
\<close>

theorem pushcli_popcli_nest:
  assumes "is_cpu s i" "ncli (cpus s i) = 0"
  shows "(case depth 0 ops of
      Some d \<Rightarrow> \<exists>t. run_cli (apic s i) ops s = Ok t \<and> ncli (cpus t i) = int d
                 \<and> (iflag t (apic s i) \<longleftrightarrow> d = 0 \<and> iflag s (apic s i))
    | None \<Rightarrow> \<exists>m. run_cli (apic s i) ops s = Panic m)"
proof -
  have "nested s i 0 (iflag s (apic s i))" using assms by (simp add: nested_def)
  from nested_run [OF this, of ops] show ?thesis by (auto simp: nested_def split: option.splits)
qed

text \<open>Two CPUs with interrupts enabled and no lock taken.\<close>

definition smp0 :: smp where
  "smp0 = \<lparr>cpus = (\<lambda>i. \<lparr>apicid = of_nat i, ncli = 0, intena = False\<rparr>), ncpu = 2, iflag = (\<lambda>_. True),
     locks = (\<lambda>_. \<lparr>locked = False, lk_cpu = None\<rparr>)\<rparr>"

lemma smp0_cpu: "i < 2 \<Longrightarrow> is_cpu smp0 i"
  by (auto simp: is_cpu_def smp0_def less_2_cases_iff)

theorem pushcli_popcli_nest_witness:
  "\<exists>t. run_cli 1 [Push, Push, Pop, Pop] smp0 = Ok t \<and> iflag t 1"
  using pushcli_popcli_nest [OF smp0_cpu [of 1], of "[Push, Push, Pop, Pop]"] by (auto simp: smp0_def)

section \<open>Mutual exclusion\<close>

text \<open>
  All CPUs at once. \<open>phase i\<close> says where CPU \<open>i\<close> is in \<open>acquire\<close> or \<open>release\<close>; \<open>held i\<close> are the locks of the
  critical sections it is in. A step is one piece of a routine on one CPU. A CPU outside every section
  may enable or disable interrupts; a CPU releases its locks in any order, and what it asks for
  is up to the kernel, except that a CPU only releases what it has acquired.
\<close>

datatype phase = Running | Spinning nat | Grabbed nat | Releasing nat

record conf = smp +
  phase :: "nat \<Rightarrow> phase"
  held :: "nat \<Rightarrow> nat set"

definition go :: "nat \<Rightarrow> phase \<Rightarrow> nat set \<Rightarrow> conf \<Rightarrow> conf" where
  "go i p h s = s\<lparr>phase := (phase s)(i := p), held := (held s)(i := h)\<rparr>"

inductive spin_step :: "conf \<Rightarrow> conf \<Rightarrow> bool" where
  enter: "i < ncpu s \<Longrightarrow> phase s i = Running \<Longrightarrow> acquire_enter (apic s i) l s = Ok t \<Longrightarrow>
            spin_step s (go i (Spinning l) (held s i) t)"
| spin: "i < ncpu s \<Longrightarrow> phase s i = Spinning l \<Longrightarrow> xchg_locked l s = (True, t) \<Longrightarrow> spin_step s t"
| grab: "i < ncpu s \<Longrightarrow> phase s i = Spinning l \<Longrightarrow> xchg_locked l s = (False, t) \<Longrightarrow>
            spin_step s (go i (Grabbed l) (held s i) t)"
| record_cpu: "i < ncpu s \<Longrightarrow> phase s i = Grabbed l \<Longrightarrow> acquire_exit (apic s i) l s = Ok t \<Longrightarrow>
            spin_step s (go i Running (insert l (held s i)) t)"
| let_go: "i < ncpu s \<Longrightarrow> phase s i = Running \<Longrightarrow> l \<in> held s i \<Longrightarrow> release_enter (apic s i) l s = Ok t \<Longrightarrow>
            spin_step s (go i (Releasing l) (held s i - {l}) t)"
| free: "i < ncpu s \<Longrightarrow> phase s i = Releasing l \<Longrightarrow> release_exit (apic s i) l s = Ok t \<Longrightarrow>
            spin_step s (go i Running (held s i) t)"
| sti: "i < ncpu s \<Longrightarrow> phase s i = Running \<Longrightarrow> held s i = {} \<Longrightarrow> spin_step s (set_if (apic s i) b s)"

text \<open>The lock word of \<open>l\<close> was set by CPU \<open>i\<close>, which has not cleared it yet.\<close>

definition owns :: "'a conf_scheme \<Rightarrow> nat \<Rightarrow> nat \<Rightarrow> bool" where
  "owns s i l \<longleftrightarrow> l \<in> held s i \<or> phase s i = Grabbed l \<or> phase s i = Releasing l"

definition cpu_ok :: "'a conf_scheme \<Rightarrow> nat \<Rightarrow> bool" where
  "cpu_ok s i \<longleftrightarrow> is_cpu s i \<and> finite (held s i)
     \<and> ncli (cpus s i) = int (card (held s i)) + (if phase s i = Running then 0 else 1)
     \<and> (0 < ncli (cpus s i) \<longrightarrow> \<not> iflag s (apic s i))
     \<and> (\<forall>l\<in>held s i. phase s i \<noteq> Grabbed l \<and> phase s i \<noteq> Releasing l \<and> phase s i \<noteq> Spinning l
           \<and> lk_cpu (locks s l) = Some i)"

definition spin_ok :: "'a conf_scheme \<Rightarrow> bool" where
  "spin_ok s \<longleftrightarrow> (\<forall>i<ncpu s. cpu_ok s i)
     \<and> (\<forall>l. locked (locks s l) \<longleftrightarrow> (\<exists>i<ncpu s. owns s i l))
     \<and> (\<forall>l i j. i < ncpu s \<longrightarrow> j < ncpu s \<longrightarrow> owns s i l \<longrightarrow> owns s j l \<longrightarrow> i = j)
     \<and> (\<forall>l i. i < ncpu s \<longrightarrow> lk_cpu (locks s l) = Some i \<longrightarrow> l \<in> held s i)"

lemma cpu_okD:
  assumes "spin_ok s" "i < ncpu s"
  shows "is_cpu s i" "finite (held s i)"
    "ncli (cpus s i) = int (card (held s i)) + (if phase s i = Running then 0 else 1)"
    "0 < ncli (cpus s i) \<Longrightarrow> \<not> iflag s (apic s i)" "l \<in> held s i \<Longrightarrow> lk_cpu (locks s l) = Some i"
  using assms unfolding spin_ok_def cpu_ok_def by blast+

lemma inside:
  assumes "spin_ok s" "i < ncpu s" "phase s i \<noteq> Running \<or> held s i \<noteq> {}"
  shows "0 < ncli (cpus s i)" "\<not> iflag s (apic s i)"
proof -
  show "0 < ncli (cpus s i)" using assms cpu_okD [OF assms(1,2)] by (auto simp: card_gt_0_iff)
  then show "\<not> iflag s (apic s i)" using cpu_okD(4) [OF assms(1,2)] by simp
qed

lemma own_iff: "spin_ok s \<Longrightarrow> i < ncpu s \<Longrightarrow> locked (locks s l) \<and> lk_cpu (locks s l) = Some i \<longleftrightarrow> l \<in> held s i"
  unfolding spin_ok_def cpu_ok_def owns_def by blast

text \<open>The effect of the pieces in a state that satisfies the invariant.\<close>

definition pushed :: "nat \<Rightarrow> 'a smp_scheme \<Rightarrow> 'a smp_scheme" where
  "pushed i s = upd_cpu i (\<lambda>c. c\<lparr>intena := (if ncli c = 0 then iflag s (apic s i) else intena c),
     ncli := ncli c + 1\<rparr>) (set_if (apic s i) False s)"

lemma enter_effect:
  assumes "spin_ok s" "i < ncpu s" "phase s i = Running"
  shows "acquire_enter (apic s i) l s = (if l \<in> held s i then Panic ''acquire'' else Ok (pushed i s))"
proof -
  have i: "is_cpu s i" using cpu_okD [OF assms(1,2)] by simp
  have p: "is_cpu (pushed i s) i" "\<not> iflag (pushed i s) (apic (pushed i s) i)" "apic (pushed i s) i = apic s i"
    "0 < ncli (cpus (pushed i s) i)" "locks (pushed i s) = locks s"
    using i cpu_okD [OF assms(1,2)] by (auto simp: pushed_def is_cpu_def)
  show ?thesis
    using holding_is [OF p(1,2,4), of l] own_iff [OF assms(1,2), of l]
    by (simp add: acquire_enter_def pushcli_is [OF i] pushed_def [symmetric] p(3,5))
qed

lemma record_effect:
  assumes "spin_ok s" "i < ncpu s" "phase s i = Grabbed l"
  shows "acquire_exit (apic s i) l s = Ok (upd_lock l (\<lambda>k. k\<lparr>lk_cpu := Some i\<rparr>) s)"
  using mycpu_is [of s i] cpu_okD(1) [OF assms(1,2)] inside [OF assms(1,2)] assms(3)
  by (simp add: acquire_exit_def)

lemma let_go_effect:
  assumes "spin_ok s" "i < ncpu s" "l \<in> held s i"
  shows "release_enter (apic s i) l s = Ok (upd_lock l (\<lambda>k. k\<lparr>lk_cpu := None\<rparr>) s)"
proof -
  have "held s i \<noteq> {}" using assms(3) by auto
  then have "holding (apic s i) l s = Ok (True, s)"
    using holding_is [of s i l] cpu_okD(1) [OF assms(1,2)] inside [OF assms(1,2)] own_iff [OF assms(1,2), of l] assms(3)
    by simp
  then show ?thesis by (simp add: release_enter_def)
qed

lemma free_effect:
  assumes "spin_ok s" "i < ncpu s" "phase s i = Releasing l"
  shows "release_exit (apic s i) l s = Ok (set_if (apic s i) (ncli (cpus s i) = 1 \<and> intena (cpus s i))
     (upd_cpu i (\<lambda>c. c\<lparr>ncli := ncli c - 1\<rparr>) (upd_lock l (\<lambda>k. k\<lparr>locked := False\<rparr>) s)))"
  using popcli_is [of "upd_lock l (\<lambda>k. k\<lparr>locked := False\<rparr>) s" i] cpu_okD(1) [OF assms(1,2)]
    inside [OF assms(1,2)] assms(3)
  by (simp add: release_exit_def is_cpu_def)

lemma go_simps [simp]:
  "cpus (go i p h s) = cpus s" "ncpu (go i p h s) = ncpu s" "iflag (go i p h s) = iflag s"
  "locks (go i p h s) = locks s" "phase (go i p h s) = (phase s)(i := p)" "held (go i p h s) = (held s)(i := h)"
  by (simp_all add: go_def)

lemma conf_simps [simp]:
  "phase (upd_cpu i f c) = phase c" "held (upd_cpu i f c) = held c" "phase (upd_lock l g c) = phase c"
  "held (upd_lock l g c) = held c" "phase (set_if a b c) = phase c" "held (set_if a b c) = held c"
  by (simp_all add: upd_cpu_def upd_lock_def set_if_def)

lemma apic_inj: "spin_ok s \<Longrightarrow> i < ncpu s \<Longrightarrow> j < ncpu s \<Longrightarrow> apic s i = apic s j \<Longrightarrow> i = j"
  using cpu_okD(1) [of s i] unfolding is_cpu_def by metis

text \<open>
  A step of CPU \<open>i\<close> keeps the invariant if it keeps it for \<open>i\<close>, leaves the other CPUs' own state and the
  owner marks of their locks alone, and sets lock words as the owners say.
\<close>

lemma spin_ok_step:
  assumes ok: "spin_ok s" and i: "i < ncpu s" and c: "cpu_ok t i"
    and f: "ncpu t = ncpu s" "\<And>k. apic t k = apic s k" "\<And>a. a \<noteq> apic s i \<Longrightarrow> iflag t a = iflag s a"
      "\<And>j. j \<noteq> i \<Longrightarrow> ncli (cpus t j) = ncli (cpus s j) \<and> phase t j = phase s j \<and> held t j = held s j"
    and l: "\<And>l j. j < ncpu s \<Longrightarrow> j \<noteq> i \<Longrightarrow> lk_cpu (locks t l) = Some j \<longleftrightarrow> lk_cpu (locks s l) = Some j"
      "\<And>l. lk_cpu (locks t l) = Some i \<Longrightarrow> l \<in> held t i"
    and o: "\<And>l. owns t i l \<Longrightarrow> \<not> owns s i l \<Longrightarrow> \<not> locked (locks s l)"
      "\<And>l. locked (locks t l) \<longleftrightarrow> owns t i l \<or> (locked (locks s l) \<and> \<not> owns s i l)"
  shows "spin_ok t"
proof -
  have ow: "owns t j l = owns s j l" if "j \<noteq> i" for j l using f(4) [OF that] by (simp add: owns_def)
  have lk: "locked (locks s l) \<longleftrightarrow> (\<exists>j<ncpu s. owns s j l)" for l using ok by (simp add: spin_ok_def)
  have un: "owns s j l \<Longrightarrow> owns s k l \<Longrightarrow> j < ncpu s \<Longrightarrow> k < ncpu s \<Longrightarrow> j = k" for j k l
    using ok unfolding spin_ok_def by blast
  have ex: "owns t i l \<Longrightarrow> j < ncpu s \<Longrightarrow> owns s j l \<Longrightarrow> j = i" for j l
    using o(1) lk un i by blast
  have "cpu_ok t j" if "j < ncpu t" for j
  proof (cases "j = i")
    case False
    then have j: "j < ncpu s" "j \<noteq> i" using that f(1) by auto
    have a: "apic s j \<noteq> apic s i" using apic_inj [OF ok i j(1)] j(2) by metis
    have "cpu_ok s j" using ok j(1) by (simp add: spin_ok_def)
    then show ?thesis using f(1,2) f(3) [OF a] f(4) [OF j(2)] l(1) [OF j] unfolding cpu_ok_def is_cpu_def by simp
  qed (use c in simp)
  moreover have "locked (locks t l) \<longleftrightarrow> (\<exists>j<ncpu t. owns t j l)" for l
    using o(2) lk ow ex i f(1) un by metis
  moreover have "j = k" if "j < ncpu t" "k < ncpu t" "owns t j l" "owns t k l" for j k l
    using that ex ow un f(1) by metis
  moreover have "l \<in> held t j" if "j < ncpu t" "lk_cpu (locks t l) = Some j" for j l
  proof (cases "j = i")
    case False
    then show ?thesis using that f(1,4) l(1) ok unfolding spin_ok_def by metis
  qed (use that l(2) in simp)
  ultimately show ?thesis unfolding spin_ok_def by blast
qed

lemma lk_held: "spin_ok s \<Longrightarrow> i < ncpu s \<Longrightarrow> lk_cpu (locks s l) = Some i \<Longrightarrow> l \<in> held s i"
  unfolding spin_ok_def by blast

lemma owns_locked: "spin_ok s \<Longrightarrow> i < ncpu s \<Longrightarrow> owns s i l \<Longrightarrow> locked (locks s l)"
  unfolding spin_ok_def by blast

lemma lock_idem: "locked k \<Longrightarrow> k\<lparr>locked := True\<rparr> = k"
  by (cases k) simp

lemma step_keeps_ok:
  assumes "spin_step s t" "spin_ok s"
  shows "spin_ok t"
  using assms
proof (induction rule: spin_step.induct)
  case (enter i s l t)
  then have t: "t = pushed i s" and nl: "l \<notin> held s i" by (auto simp: enter_effect split: if_splits)
  note d = cpu_okD [OF enter.prems enter.hyps(1)]
  have "cpu_ok s i" using enter by (simp add: spin_ok_def)
  then have "cpu_ok (go i (Spinning l) (held s i) t) i"
    using enter.hyps(2) nl by (auto simp: t cpu_ok_def pushed_def is_cpu_def)
  moreover have "owns (go i (Spinning l) (held s i) t) i = owns s i"
    using enter.hyps(2) by (auto simp: owns_def t pushed_def)
  moreover have "locked (locks s k) \<longleftrightarrow> owns s i k \<or> (locked (locks s k) \<and> \<not> owns s i k)" for k
    using enter by (auto simp: spin_ok_def)
  ultimately show ?case
    using enter.hyps(1) enter.prems lk_held [OF enter.prems enter.hyps(1)]
    by (intro spin_ok_step [OF enter.prems enter.hyps(1)])
      (auto simp: t pushed_def)
next
  case (spin i s l t)
  then have "upd_lock l (\<lambda>k. k\<lparr>locked := True\<rparr>) s = s"
    by (auto simp: xchg_locked_def upd_lock_def lock_idem)
  then show ?case using spin by (simp add: xchg_locked_def)
next
  case (grab i s l t)
  then have t: "t = upd_lock l (\<lambda>k. k\<lparr>locked := True\<rparr>) s" and nl: "\<not> locked (locks s l)"
    by (auto simp: xchg_locked_def)
  have own: "owns s i k \<Longrightarrow> locked (locks s k)" for k using grab by (auto simp: spin_ok_def)
  have c: "cpu_ok s i" using grab by (simp add: spin_ok_def)
  then have "cpu_ok (go i (Grabbed l) (held s i) t) i"
    using grab.hyps(2) by (auto simp: t cpu_ok_def is_cpu_def)
  moreover have "owns (go i (Grabbed l) (held s i) t) i k \<longleftrightarrow> k = l \<or> owns s i k" for k
    using grab.hyps(2) by (auto simp: owns_def t)
  ultimately show ?case
    using nl own lk_held [OF grab.prems grab.hyps(1)] grab.prems grab.hyps(1)
    by (intro spin_ok_step [OF grab.prems grab.hyps(1)]) (auto simp: t split: if_splits)
next
  case (record_cpu i s l t)
  then have t: "t = upd_lock l (\<lambda>k. k\<lparr>lk_cpu := Some i\<rparr>) s" by (simp add: record_effect)
  have c: "cpu_ok s i" using record_cpu by (simp add: spin_ok_def)
  then have "cpu_ok (go i Running (insert l (held s i)) t) i"
    using record_cpu.hyps(2) by (auto simp: t cpu_ok_def is_cpu_def)
  moreover have "owns (go i Running (insert l (held s i)) t) i k = owns s i k" for k
    using record_cpu.hyps(2) by (auto simp: owns_def t)
  moreover have "owns s i l" "owns s i k \<Longrightarrow> locked (locks s k)" for k
    using record_cpu by (auto simp: owns_def spin_ok_def)
  moreover have "lk_cpu (locks s l) \<noteq> Some j" if "j < ncpu s" "j \<noteq> i" for j
  proof
    assume "lk_cpu (locks s l) = Some j"
    then have "owns s j l" using record_cpu.prems that(1) by (auto simp: owns_def spin_ok_def)
    then show False using \<open>owns s i l\<close> record_cpu.prems record_cpu.hyps(1) that unfolding spin_ok_def by blast
  qed
  ultimately show ?case
    using lk_held [OF record_cpu.prems record_cpu.hyps(1)] record_cpu.prems record_cpu.hyps(1)
    by (intro spin_ok_step [OF record_cpu.prems record_cpu.hyps(1)]) (auto simp: t split: if_splits)
next
  case (let_go i s l t)
  then have t: "t = upd_lock l (\<lambda>k. k\<lparr>lk_cpu := None\<rparr>) s" by (simp add: let_go_effect)
  have c: "cpu_ok s i" using let_go by (simp add: spin_ok_def)
  then have "0 < card (held s i)" using let_go.hyps(3) by (auto simp: cpu_ok_def card_gt_0_iff)
  then have "cpu_ok (go i (Releasing l) (held s i - {l}) t) i"
    using c let_go.hyps(2,3) by (auto simp: t cpu_ok_def is_cpu_def)
  moreover have "owns (go i (Releasing l) (held s i - {l}) t) i k = owns s i k" for k
    using let_go.hyps(2,3) by (auto simp: owns_def t)
  moreover have "owns s i k \<Longrightarrow> locked (locks s k)" for k using let_go by (auto simp: spin_ok_def)
  moreover have "lk_cpu (locks s l) = Some i" using cpu_okD(5) [OF let_go.prems let_go.hyps(1,3)] .
  ultimately show ?case
    using lk_held [OF let_go.prems let_go.hyps(1)] let_go.prems let_go.hyps(1)
    by (intro spin_ok_step [OF let_go.prems let_go.hyps(1)]) (auto simp: t split: if_splits)
next
  case (free i s l t)
  then have t: "t = set_if (apic s i) (ncli (cpus s i) = 1 \<and> intena (cpus s i))
     (upd_cpu i (\<lambda>c. c\<lparr>ncli := ncli c - 1\<rparr>) (upd_lock l (\<lambda>k. k\<lparr>locked := False\<rparr>) s))"
    by (simp add: free_effect)
  have c: "cpu_ok s i" using free by (simp add: spin_ok_def)
  then have "cpu_ok (go i Running (held s i) t) i"
    using free.hyps(2) by (auto simp: t cpu_ok_def is_cpu_def)
  moreover have "owns (go i Running (held s i) t) i k \<longleftrightarrow> owns s i k \<and> k \<noteq> l" for k
    using free.hyps(2) c by (auto simp: owns_def t cpu_ok_def)
  moreover have "owns s i l" "owns s i k \<Longrightarrow> locked (locks s k)" for k
    using free by (auto simp: owns_def spin_ok_def)
  ultimately show ?case
    using lk_held [OF free.prems free.hyps(1)] free.prems free.hyps(1)
    by (intro spin_ok_step [OF free.prems free.hyps(1)]) (auto simp: t split: if_splits)
next
  case (sti i s b)
  have c: "cpu_ok s i" using sti by (simp add: spin_ok_def)
  then have "cpu_ok (set_if (apic s i) b s) i" using sti.hyps(2,3) by (auto simp: cpu_ok_def is_cpu_def)
  moreover have "owns (set_if (apic s i) b s) i k = owns s i k" "owns s i k \<Longrightarrow> locked (locks s k)" for k
    using sti by (auto simp: owns_def spin_ok_def)
  ultimately show ?case
    using lk_held [OF sti.prems sti.hyps(1)] sti.prems sti.hyps(1)
    by (intro spin_ok_step [OF sti.prems sti.hyps(1)]) auto
qed

text \<open>The state after start-up: CPUs with different identifiers, in no section, and every lock initialised.\<close>

definition started :: "conf \<Rightarrow> bool" where
  "started s \<longleftrightarrow> (\<forall>i<ncpu s. is_cpu s i \<and> ncli (cpus s i) = 0 \<and> phase s i = Running \<and> held s i = {})
     \<and> (\<forall>l. locks s l = locks (initlock l s) l)"

lemma started_ok: "started s \<Longrightarrow> spin_ok s"
proof -
  assume s: "started s"
  then have "\<not> locked (locks s l)" "lk_cpu (locks s l) = None" for l
    unfolding started_def by (metis cpu_simps(8) fun_upd_same initlock_def spinlock.select_convs spinlock.surjective
      spinlock.update_convs)+
  then show ?thesis using s by (simp add: spin_ok_def cpu_ok_def owns_def started_def)
qed

lemma reachable_ok: "spin_step\<^sup>*\<^sup>* s t \<Longrightarrow> spin_ok s \<Longrightarrow> spin_ok t"
  by (induction rule: rtranclp_induct) (auto intro: step_keeps_ok)

text \<open>
  C15: Mutual exclusion. Through any interleaving of any number of CPUs, no two CPUs are inside critical
  sections of one spin lock; a CPU inside one has its interrupts disabled, and \<open>holding\<close> tells it, and
  nobody else, that it holds the lock.
\<close>

theorem spinlock_exclusive:
  assumes "started s" "spin_step\<^sup>*\<^sup>* s t" "i < ncpu t" "l \<in> held t i"
  shows "(\<forall>j<ncpu t. l \<in> held t j \<longrightarrow> j = i) \<and> \<not> iflag t (apic t i) \<and> locked (locks t l)
     \<and> holding (apic t i) l t = Ok (True, t)
     \<and> (\<forall>j<ncpu t. j \<noteq> i \<longrightarrow> phase t j \<noteq> Running \<or> held t j \<noteq> {} \<longrightarrow> holding (apic t j) l t = Ok (False, t))"
proof -
  have ok: "spin_ok t" using reachable_ok [OF assms(2)] started_ok [OF assms(1)] by simp
  have own: "owns t i l" using assms(4) by (simp add: owns_def)
  have un: "\<forall>j<ncpu t. l \<in> held t j \<longrightarrow> j = i"
    using ok own assms(3) unfolding spin_ok_def owns_def by blast
  have h: "holding (apic t j) l t = Ok (l \<in> held t j, t)"
    if "j < ncpu t" "phase t j \<noteq> Running \<or> held t j \<noteq> {}" for j
    using holding_is [OF cpu_okD(1) [OF ok that(1)] inside(2,1) [OF ok that]] own_iff [OF ok that(1)] by simp
  have ne: "held t i \<noteq> {}" using assms(4) by auto
  then have "\<not> iflag t (apic t i)" "holding (apic t i) l t = Ok (True, t)"
    using inside(2) [OF ok assms(3)] h [OF assms(3)] assms(4) by simp_all
  moreover have "holding (apic t j) l t = Ok (False, t)"
    if "j < ncpu t" "j \<noteq> i" "phase t j \<noteq> Running \<or> held t j \<noteq> {}" for j
    using h [OF that(1,3)] un that by auto
  ultimately show ?thesis using un owns_locked [OF ok assms(3) own] by blast
qed

definition conf0 :: conf where
  "conf0 = smp.extend smp0 (conf.fields (\<lambda>_. Running) (\<lambda>_. {}))"

lemma conf0_simps [simp]: "ncpu conf0 = 2" "phase conf0 i = Running" "held conf0 i = {}" "locks conf0 = locks smp0"
  "cpus conf0 = cpus smp0" "iflag conf0 = iflag smp0"
  by (simp_all add: conf0_def conf.defs smp.defs smp0_def)

lemma conf0_started: "started conf0"
proof -
  have "locks smp0 l = locks (initlock l conf0) l" for l by (simp add: initlock_def) (simp add: smp0_def)
  then show ?thesis by (auto simp: started_def is_cpu_def smp0_def less_2_cases_iff)
qed

text \<open>CPU 1 goes through \<open>acquire\<close> of lock 7.\<close>

lemma conf0_acquire: "\<exists>t. spin_step\<^sup>*\<^sup>* conf0 t \<and> ncpu t = 2 \<and> held t 1 = {7} \<and> phase t 1 = Running"
proof -
  have ok: "spin_ok conf0" by (rule started_ok [OF conf0_started])
  let ?a = "go 1 (Spinning 7) {} (pushed 1 conf0)"
  have 1: "spin_step conf0 ?a"
    using spin_step.enter [of 1 conf0 7 "pushed 1 conf0"] enter_effect [OF ok, of 1 7] by simp
  let ?b = "go 1 (Grabbed 7) {} (upd_lock 7 (\<lambda>k. k\<lparr>locked := True\<rparr>) ?a)"
  have 2: "spin_step ?a ?b"
    using spin_step.grab [of 1 ?a 7 "upd_lock 7 (\<lambda>k. k\<lparr>locked := True\<rparr>) ?a"]
    by (simp add: xchg_locked_def pushed_def) (simp add: smp0_def)
  let ?c = "go 1 Running {7} (upd_lock 7 (\<lambda>k. k\<lparr>lk_cpu := Some 1\<rparr>) ?b)"
  have "spin_ok ?b" using step_keeps_ok [OF 2] step_keeps_ok [OF 1 ok] by simp
  then have 3: "spin_step ?b ?c"
    using spin_step.record_cpu [of 1 ?b 7 "upd_lock 7 (\<lambda>k. k\<lparr>lk_cpu := Some 1\<rparr>) ?b"] record_effect [of ?b 1 7]
    by (simp add: pushed_def)
  have "spin_step\<^sup>*\<^sup>* conf0 ?c" using 1 2 3 by (meson converse_rtranclp_into_rtranclp rtranclp.rtrancl_refl)
  then show ?thesis by (intro exI [of _ ?c]) (simp add: pushed_def)
qed

theorem spinlock_exclusive_witness:
  "\<exists>t. spin_step\<^sup>*\<^sup>* conf0 t \<and> holding (apic t 1) 7 t = Ok (True, t)"
proof -
  obtain t where "spin_step\<^sup>*\<^sup>* conf0 t" "ncpu t = 2" "held t 1 = {7}" using conf0_acquire by blast
  then show ?thesis using spinlock_exclusive [OF conf0_started, of t 1 7] by auto
qed

text \<open>
  C37: No spin lock operation panics unless a CPU asks twice for a lock. In every reachable state, \<open>acquire\<close>
  begins without panic if the CPU does not hold the lock and panics if it does; every later piece of
  \<open>acquire\<close>, and \<open>release\<close> of a held lock, runs; and a CPU outside all sections has nesting 0.
\<close>

theorem spinlock_never_panics:
  assumes "started s" "spin_step\<^sup>*\<^sup>* s t" "i < ncpu t"
  shows "(phase t i = Running \<longrightarrow>
            acquire_enter (apic t i) l t = (if l \<in> held t i then Panic ''acquire'' else Ok (pushed i t)))
     \<and> (phase t i = Grabbed l \<longrightarrow> (\<exists>u. acquire_exit (apic t i) l t = Ok u \<and> lk_cpu (locks u l) = Some i))
     \<and> (l \<in> held t i \<longrightarrow> (\<exists>u. release_enter (apic t i) l t = Ok u))
     \<and> (phase t i = Releasing l \<longrightarrow> (\<exists>u. release_exit (apic t i) l t = Ok u \<and> \<not> locked (locks u l)))
     \<and> (phase t i = Running \<and> held t i = {} \<longrightarrow> ncli (cpus t i) = 0)"
proof -
  have ok: "spin_ok t" using reachable_ok [OF assms(2)] started_ok [OF assms(1)] by simp
  show ?thesis
    using enter_effect [OF ok assms(3)] record_effect [OF ok assms(3)] let_go_effect [OF ok assms(3)]
      free_effect [OF ok assms(3)] cpu_okD(3) [OF ok assms(3)] by simp
qed

theorem spinlock_never_panics_witness:
  "\<exists>t. spin_step\<^sup>*\<^sup>* conf0 t \<and> acquire_enter (apic t 1) 7 t = Panic ''acquire''"
proof -
  obtain t where "spin_step\<^sup>*\<^sup>* conf0 t" "ncpu t = 2" "held t 1 = {7}" "phase t 1 = Running" using conf0_acquire by blast
  then show ?thesis using spinlock_never_panics [OF conf0_started, of t 1 7] by auto
qed

end
