(* ===== verification/Ide.thy ===== *)
theory Ide
  imports Bio
begin

text \<open>
  \<open>ide.c\<close>: the driver of the IDE disk, which the standard kernel links in place of \<open>memide.c\<close>. The
  controller is not under \<open>src\<close>: \<open>status\<close> are the bytes that the coming reads of its status port return,
  \<open>outs\<close> records the bytes written to its ports and \<open>outdata\<close> the sectors; the sector that a read
  delivers is an argument of \<open>ideintr\<close>. The queue is threaded through \<open>qnext\<close> as in the code; a walk of
  more than \<open>NBUF\<close> buffers is a walk around a cycle (\<open>Hang\<close>), and so is waiting for a status that the
  controller never gives.
  Lemmas: the controller is told the block; an interrupt completes the request at the head; and the driver with any
  controller that follows the ATA standard (\<open>ata\<close>) refines a queue of requests with a disk (\<open>fifo_server\<close>), where a
  request counts as finished when its process is seen to have been woken with \<open>iderw\<close> at its end.
\<close>

definition IDE_BSY :: u8 where "IDE_BSY = 0x80"
definition IDE_DRDY :: u8 where "IDE_DRDY = 0x40"
definition IDE_DF :: u8 where "IDE_DF = 0x20"
definition IDE_ERR :: u8 where "IDE_ERR = 0x01"
definition IDE_CMD_READ :: u8 where "IDE_CMD_READ = 0x20"
definition IDE_CMD_WRITE :: u8 where "IDE_CMD_WRITE = 0x30"
definition IDE_CMD_RDMUL :: u8 where "IDE_CMD_RDMUL = 0xc4"
definition IDE_CMD_WRMUL :: u8 where "IDE_CMD_WRMUL = 0xc5"
definition SECTOR_SIZE :: nat where "SECTOR_SIZE = 512"
definition FSSIZE :: u32 where "FSSIZE = 1000"

record ide = bcache +
  qnext :: "nat \<Rightarrow> nat option"
  idequeue :: "nat option"
  havedisk1 :: bool
  status :: "u8 list"
  outs :: "(u16 \<times> u8) list"
  outdata :: "block list"

definition outb :: "u16 \<Rightarrow> u8 \<Rightarrow> 'a ide_scheme \<Rightarrow> 'a ide_scheme" where
  "outb p v s = s\<lparr>outs := outs s @ [(p, v)]\<rparr>"

definition ready :: "u8 \<Rightarrow> bool" where
  "ready r \<longleftrightarrow> r AND (IDE_BSY OR IDE_DRDY) = IDE_DRDY"

definition idewait :: "bool \<Rightarrow> 'a ide_scheme \<Rightarrow> (int \<times> 'a ide_scheme) res" where
  "idewait checkerr s =
     (case dropWhile (\<lambda>r. \<not> ready r) (status s) of
        [] \<Rightarrow> Hang
      | r # rs \<Rightarrow> Ok (if checkerr \<and> r AND (IDE_DF OR IDE_ERR) \<noteq> 0 then - 1 else 0, s\<lparr>status := rs\<rparr>))"

text \<open>The second disk is there if one of a thousand reads of its status is not 0.\<close>

definition ideinit :: "'a ide_scheme \<Rightarrow> 'a ide_scheme res" where
  "ideinit s =
     bindr (idewait False s) (\<lambda>(_, s).
     let s = outb 0x1f6 (0xe0 OR push_bit 4 1) s; rs = take 1000 (status s);
         s = s\<lparr>havedisk1 := havedisk1 s \<or> (\<exists>r\<in>set rs. r \<noteq> 0),
               status := drop (min 1000 (Suc (length (takeWhile (\<lambda>r. r = 0) rs)))) (status s)\<rparr>
     in Ok (outb 0x1f6 (0xe0 OR push_bit 4 0) s))"

text \<open>The bytes written to the ports for a request, the last one the command.\<close>

definition request :: "buf \<Rightarrow> (u16 \<times> u8) list" where
  "request b =
     (let spb = BSIZE div SECTOR_SIZE; sector = blockno b * of_nat spb;
          read_cmd = (if spb = 1 then IDE_CMD_READ else IDE_CMD_RDMUL);
          write_cmd = (if spb = 1 then IDE_CMD_WRITE else IDE_CMD_WRMUL)
      in [(0x3f6, 0), (0x1f2, of_nat spb), (0x1f3, ucast (sector AND 0xff)),
          (0x1f4, ucast (drop_bit 8 sector AND 0xff)), (0x1f5, ucast (drop_bit 16 sector AND 0xff)),
          (0x1f6, ucast (0xe0 OR push_bit 4 (bdev b AND 1) OR (drop_bit 24 sector AND 0x0f))),
          (0x1f7, if flags b AND B_DIRTY \<noteq> 0 then write_cmd else read_cmd)])"

definition idestart :: "nat \<Rightarrow> 'a ide_scheme \<Rightarrow> 'a ide_scheme res" where
  "idestart i s =
     (let b = bufs s i in
      if blockno b \<ge> FSSIZE then Panic ''incorrect blockno''
      else if BSIZE div SECTOR_SIZE > 7 then Panic ''idestart''
      else
        bindr (idewait False s) (\<lambda>(_, s).
        Ok (s\<lparr>outs := outs s @ request b,
              outdata := (if flags b AND B_DIRTY \<noteq> 0 then outdata s @ [data b] else outdata s)\<rparr>)))"

text \<open>The interrupt; \<open>got\<close> is the sector the controller delivers.\<close>

definition ideintr_read :: "block \<Rightarrow> nat \<Rightarrow> 'a ide_scheme \<Rightarrow> 'a ide_scheme res" where
  "ideintr_read got i s =
     (if flags (bufs s i) AND B_DIRTY = 0
      then
        bindr (idewait True s) (\<lambda>(r, s).
        Ok (if r \<ge> 0 then upd_buf i (\<lambda>b. b\<lparr>data := (\<lambda>k. if k < BSIZE then got k else data b k)\<rparr>) s else s))
      else Ok s)"

definition ideintr :: "block \<Rightarrow> 'a ide_scheme \<Rightarrow> 'a ide_scheme res" where
  "ideintr got s =
     (case idequeue s of
        None \<Rightarrow> Ok s
      | Some i \<Rightarrow>
          bindr (ideintr_read got i (s\<lparr>idequeue := qnext s i\<rparr>)) (\<lambda>s.
          let s = wakeup (ChIde i) (upd_buf i (\<lambda>b. b\<lparr>flags := (flags b OR B_VALID) AND NOT B_DIRTY\<rparr>) s) in
          case idequeue s of
            None \<Rightarrow> Ok s
          | Some j \<Rightarrow> idestart j s))"

text \<open>The last element of the queue from \<open>i\<close> on.\<close>

fun qtail :: "nat \<Rightarrow> (nat \<Rightarrow> nat option) \<Rightarrow> nat \<Rightarrow> nat option" where
  "qtail 0 qn i = None"
| "qtail (Suc n) qn i = (case qn i of None \<Rightarrow> Some i | Some j \<Rightarrow> qtail n qn j)"

definition enqueue :: "nat \<Rightarrow> 'a ide_scheme \<Rightarrow> 'a ide_scheme res" where
  "enqueue i s =
     (let s = s\<lparr>qnext := (qnext s)(i := None)\<rparr> in
      case idequeue s of
        None \<Rightarrow> Ok (s\<lparr>idequeue := Some i\<rparr>)
      | Some h \<Rightarrow>
          (case qtail NBUF (qnext s) h of
             None \<Rightarrow> Hang
           | Some t \<Rightarrow> Ok (s\<lparr>qnext := (qnext s)(t := Some i)\<rparr>)))"

text \<open>\<open>iderw\<close> up to the loop, and one round of the loop, which sleeps until the request is finished.\<close>

definition iderw_enter :: "nat \<Rightarrow> 'a ide_scheme \<Rightarrow> 'a ide_scheme res" where
  "iderw_enter i s =
     (let b = bufs s i in
      if \<not> holding_buf i s then Panic ''iderw: buf not locked''
      else if flags b AND (B_VALID OR B_DIRTY) = B_VALID then Panic ''iderw: nothing to do''
      else if bdev b \<noteq> 0 \<and> \<not> havedisk1 s then Panic ''iderw: ide disk 1 not present''
      else bindr (enqueue i s) (\<lambda>s. if idequeue s = Some i then idestart i s else Ok s))"

definition iderw_wait :: "nat \<Rightarrow> 'a ide_scheme \<Rightarrow> 'a ide_scheme res" where
  "iderw_wait i s = (if flags (bufs s i) AND (B_VALID OR B_DIRTY) \<noteq> B_VALID then Blocked (ChIde i) else Ok s)"

section \<open>The queue\<close>

text \<open>The buffers on the queue, in order.\<close>

fun chain :: "(nat \<Rightarrow> nat option) \<Rightarrow> nat option \<Rightarrow> nat list \<Rightarrow> bool" where
  "chain qn p [] = (p = None)"
| "chain qn p (i # is) = (p = Some i \<and> chain qn (qn i) is)"

definition queued :: "'a ide_scheme \<Rightarrow> nat list \<Rightarrow> bool" where
  "queued s is \<longleftrightarrow> chain (qnext s) (idequeue s) is \<and> distinct is \<and> set is \<subseteq> {..<NBUF}"

lemma chain_other: "chain qn p is \<Longrightarrow> i \<notin> set is \<Longrightarrow> chain (qn(i := q)) p is"
  by (induction "is" arbitrary: p) auto

lemma chain_tail:
  "chain qn (Some h) is \<Longrightarrow> length is \<le> n \<Longrightarrow> qtail n qn h = Some (last is)"
proof (induction "is" arbitrary: h n)
  case (Cons i "is")
  obtain m where n: "n = Suc m" using Cons.prems(2) by (cases n) auto
  show ?case
  proof (cases "is")
    case (Cons j js)
    then show ?thesis using Cons.IH [of j m] Cons.prems n by simp
  qed (use Cons.prems n in simp)
qed simp

lemma chain_snoc:
  "chain qn p is \<Longrightarrow> distinct is \<Longrightarrow> is \<noteq> [] \<Longrightarrow> i \<notin> set is \<Longrightarrow> qn i = None \<Longrightarrow>
   chain (qn(last is := Some i)) p (is @ [i])"
proof (induction "is" arbitrary: p)
  case (Cons k ks)
  show ?case
  proof (cases ks)
    case Nil
    then show ?thesis using Cons.prems by simp
  next
    case (Cons j js)
    have "k \<noteq> last ks" using Cons.prems Cons last_in_set [of ks] by auto
    then show ?thesis using Cons.IH [of "qn k"] Cons.prems Cons by simp
  qed
qed simp

lemma enqueue_queued:
  assumes "queued s is" "i \<notin> set is" "i < NBUF"
  shows "\<exists>t. enqueue i s = Ok t \<and> queued t (is @ [i]) \<and> bufs t = bufs s \<and> outs t = outs s \<and> status t = status s
     \<and> outdata t = outdata s \<and> procs t = procs s \<and> idequeue t = (if is = [] then Some i else idequeue s)
     \<and> curproc t = curproc s \<and> havedisk1 t = havedisk1 s"
proof (cases "is")
  case Nil
  then show ?thesis using assms by (simp add: enqueue_def queued_def)
next
  case (Cons h hs)
  let ?qn = "(qnext s)(i := None)"
  have c: "chain ?qn (Some h) is" "idequeue s = Some h"
    using assms Cons chain_other [of "qnext s" "Some h" "is" i None] by (auto simp: queued_def)
  have "card (set is) \<le> card {..<NBUF}" using assms by (intro card_mono) (auto simp: queued_def)
  then have "length is \<le> NBUF" using assms by (simp add: queued_def distinct_card)
  then have "enqueue i s = Ok (s\<lparr>qnext := ?qn(last is := Some i)\<rparr>)"
    using chain_tail [OF c(1)] c(2) by (simp add: enqueue_def)
  moreover have "chain (?qn(last is := Some i)) (Some h) (is @ [i])"
    using c assms Cons by (intro chain_snoc) (auto simp: queued_def)
  ultimately show ?thesis using assms c(2) Cons by (simp add: queued_def)
qed

section \<open>Properties\<close>

text \<open>What the controller reads from its ports: the block, the disk, the number of sectors, the command.\<close>

definition port :: "u16 \<Rightarrow> (u16 \<times> u8) list \<Rightarrow> u8" where
  "port p os = the (map_of (rev os) p)"

definition lba :: "(u16 \<times> u8) list \<Rightarrow> u32" where
  "lba os = ucast (port 0x1f3 os) OR push_bit 8 (ucast (port 0x1f4 os)) OR push_bit 16 (ucast (port 0x1f5 os))
     OR push_bit 24 (ucast (port 0x1f6 os) AND 0x0f)"

text \<open>The constants as masks of bits.\<close>

lemma masks: "(0xff :: u32) = mask 8" "(0x0f :: u32) = mask 4" "(0xe0 :: u32) = push_bit 5 (mask 3)"
  by (simp_all add: mask_eq_exp_minus_1)

lemma ports_request:
  "port 0x1f2 (request b) = 1" "port 0x1f3 (request b) = ucast (blockno b AND mask 8)"
  "port 0x1f4 (request b) = ucast (drop_bit 8 (blockno b) AND mask 8)"
  "port 0x1f5 (request b) = ucast (drop_bit 16 (blockno b) AND mask 8)"
  "port 0x1f6 (request b) = ucast (push_bit 5 (mask 3) OR push_bit 4 (bdev b AND 1) OR (drop_bit 24 (blockno b) AND mask 4))"
  "port 0x1f7 (request b) = (if flags b AND B_DIRTY \<noteq> 0 then IDE_CMD_WRITE else IDE_CMD_READ)"
  unfolding masks [symmetric] by (simp_all add: port_def request_def Let_def BSIZE_def SECTOR_SIZE_def)

lemma lba_mask: "lba os = ucast (port 0x1f3 os) OR push_bit 8 (ucast (port 0x1f4 os)) OR push_bit 16 (ucast (port 0x1f5 os))
     OR push_bit 24 (ucast (port 0x1f6 os) AND mask 4)"
  unfolding masks [symmetric] by (simp add: lba_def)

text \<open>
  The controller is told what the buffer says. The sector number it puts together from its four
  address ports is the buffer's block number, for every block below 2^28; the disk bit is the lowest bit of
  the device number; one sector is asked for; and the command writes exactly if the buffer is dirty.
\<close>

theorem request_tells_block:
  assumes "unat (blockno b) < 2 ^ 28"
  shows "lba (request b) = blockno b \<and> (bit (port 0x1f6 (request b)) 4 \<longleftrightarrow> bit (bdev b) 0)
     \<and> port 0x1f2 (request b) = 1
     \<and> port 0x1f7 (request b) = (if dirty b then IDE_CMD_WRITE else IDE_CMD_READ)"
proof (intro conjI)
  have hi: "\<not> bit (blockno b) n" if "28 \<le> n" for n
  proof -
    have "take_bit 28 (blockno b) = blockno b" using assms
      by (simp add: word_unat_eq_iff unsigned_take_bit_eq take_bit_nat_eq_self)
    then show ?thesis using that bit_take_bit_iff [of 28 "blockno b" n] by auto
  qed
  show "lba (request b) = blockno b"
  proof (rule bit_word_eqI)
    fix n :: nat
    assume "n < LENGTH(32)"
    then consider "n < 8" | "8 \<le> n \<and> n < 16" | "16 \<le> n \<and> n < 24" | "24 \<le> n \<and> n < 28" | "28 \<le> n \<and> n < 32"
      by force
    then show "bit (lba (request b)) n = bit (blockno b) n"
      by cases (auto simp: lba_mask ports_request bit_simps hi)
  qed
qed (auto simp: ports_request dirty_def bit_simps)

definition idebuf :: buf where
  "idebuf = (bufs bcache0 0)\<lparr>flags := 0, bdev := 1, blockno := 700, block_lock := \<lparr>locked = True, lk_pid = pid (myproc bcache0)\<rparr>\<rparr>"

theorem request_tells_block_witness: "lba (request idebuf) = 700"
  using request_tells_block [of idebuf] by (simp add: idebuf_def)

section \<open>One interrupt\<close>

text \<open>The controller becomes ready at least \<open>n\<close> times, and never reports an error.\<close>

definition readies :: "nat \<Rightarrow> u8 list \<Rightarrow> bool" where
  "readies n st \<longleftrightarrow> n \<le> length (filter ready st) \<and> (\<forall>r\<in>set st. ready r \<longrightarrow> r AND (IDE_DF OR IDE_ERR) = 0)"

lemma readies_mono: "readies n st \<Longrightarrow> m \<le> n \<Longrightarrow> readies m st"
  by (simp add: readies_def)

lemma idewait_readies:
  assumes "readies (Suc n) (status s)"
  shows "\<exists>st. idewait c s = Ok (0, s\<lparr>status := st\<rparr>) \<and> readies n st"
proof -
  have "\<exists>r rs. dropWhile (\<lambda>r. \<not> ready r) st = r # rs \<and> r AND (IDE_DF OR IDE_ERR) = 0 \<and> readies n rs"
    if "readies (Suc n) st" for st
    using that by (induction st) (auto simp: readies_def split: if_splits)
  then show ?thesis using assms unfolding idewait_def by fastforce
qed

lemma idestart_readies:
  assumes "readies (Suc n) (status s)" "blockno (bufs s i) < FSSIZE"
  shows "\<exists>st. idestart i s = Ok (s\<lparr>status := st, outs := outs s @ request (bufs s i),
      outdata := (if dirty (bufs s i) then outdata s @ [data (bufs s i)] else outdata s)\<rparr>) \<and> readies n st"
proof -
  obtain st where "idewait False s = Ok (0, s\<lparr>status := st\<rparr>)" "readies n st"
    using idewait_readies [OF assms(1)] by blast
  then show ?thesis using assms(2)
    by (intro exI [of _ st]) (simp add: idestart_def Let_def BSIZE_def SECTOR_SIZE_def not_le dirty_def)
qed

lemma chain_hd: "chain qn p is \<Longrightarrow> p = (if is = [] then None else Some (hd is))"
  by (cases "is") auto

lemma mark_done: "valid (b\<lparr>flags := (f OR B_VALID) AND NOT B_DIRTY\<rparr>)"
    "\<not> dirty (b\<lparr>flags := (f OR B_VALID) AND NOT B_DIRTY\<rparr>)"
  by (simp_all add: valid_bit dirty_bit) (simp_all add: B_VALID_def B_DIRTY_def bit_simps)

text \<open>What an interrupt does for buffer \<open>i\<close>, the head of the queue: its contents, and the state.\<close>

definition arrived :: "block \<Rightarrow> buf \<Rightarrow> block" where
  "arrived got b = (if dirty b then data b else (\<lambda>k. if k < BSIZE then got k else data b k))"

definition completed :: "block \<Rightarrow> nat \<Rightarrow> 'a ide_scheme \<Rightarrow> 'a ide_scheme" where
  "completed got i s =
     wakeup (ChIde i)
       (upd_buf i (\<lambda>b. b\<lparr>data := arrived got b,
                        flags := (flags b OR B_VALID) AND NOT B_DIRTY\<rparr>)
         (s\<lparr>idequeue := qnext s i\<rparr>))"

lemma completed_frame:
  "qnext (completed got i s) = qnext s" "idequeue (completed got i s) = qnext s i" "status (completed got i s) = status s"
  "outs (completed got i s) = outs s" "outdata (completed got i s) = outdata s" "havedisk1 (completed got i s) = havedisk1 s"
  "procs (completed got i s) = procs (wakeup (ChIde i) s)" "j \<noteq> i \<Longrightarrow> bufs (completed got i s) j = bufs s j"
  by (simp_all add: completed_def wakeup_def wakeup1_def upd_buf_def cong: if_cong)

lemma completed_buf:
  "valid (bufs (completed got i s) i)" "\<not> dirty (bufs (completed got i s) i)"
  "data (bufs (completed got i s) i) = arrived got (bufs s i)"
  by (simp_all add: completed_def wakeup_def wakeup1_def upd_buf_def mark_done)

text \<open>
  An interrupt completes the request at the head of the queue: when the controller becomes ready, \<open>ideintr\<close> returns
  with the first buffer off the queue, valid and clean, holding the sector that came in if it was to be read, its
  sleepers are runnable, and the controller has been told to start on the next buffer of the queue if there is one.
\<close>

lemma ideintr_completes:
  assumes q: "idequeue s = Some i" and r: "readies (Suc (Suc n)) (status s)"
    and j: "\<And>j. qnext s i = Some j \<Longrightarrow> j \<noteq> i \<and> blockno (bufs s j) < FSSIZE"
  obtains st where "readies n st"
    "ideintr got s = Ok (case qnext s i of
       None \<Rightarrow> (completed got i s)\<lparr>status := st\<rparr>
     | Some j \<Rightarrow> (completed got i s)\<lparr>status := st, outs := outs s @ request (bufs s j),
         outdata := (if dirty (bufs s j) then outdata s @ [data (bufs s j)] else outdata s)\<rparr>)"
proof -
  let ?s = "s\<lparr>idequeue := qnext s i\<rparr>"
  obtain st where st: "readies (Suc n) st" "ideintr_read got i ?s = Ok (upd_buf i (\<lambda>b. b\<lparr>data := arrived got b\<rparr>) (?s\<lparr>status := st\<rparr>))"
  proof (cases "dirty (bufs s i)")
    case True
    have "upd_buf i (\<lambda>b. b\<lparr>data := arrived got b\<rparr>) (?s\<lparr>status := status s\<rparr>) = ?s" using True by (simp add: upd_buf_def fun_upd_idem arrived_def)
    then show ?thesis using that [of "status s"] True readies_mono [OF r, of "Suc n"] by (simp add: ideintr_read_def dirty_def)
  next
    case False
    obtain st where "idewait True ?s = Ok (0, ?s\<lparr>status := st\<rparr>)" "readies (Suc n) st"
      using idewait_readies [of "Suc n" ?s True] r by auto
    then show ?thesis using that [of st] False by (simp add: ideintr_read_def dirty_def upd_buf_def arrived_def)
  qed
  have c: "wakeup (ChIde i) (upd_buf i (\<lambda>b. b\<lparr>flags := (flags b OR B_VALID) AND NOT B_DIRTY\<rparr>)
      (upd_buf i (\<lambda>b. b\<lparr>data := arrived got b\<rparr>) (?s\<lparr>status := st\<rparr>))) = (completed got i s)\<lparr>status := st\<rparr>"
    by (simp add: completed_def wakeup_def wakeup1_def upd_buf_def cong: if_cong)
  have e: "ideintr got s = (case qnext s i of None \<Rightarrow> Ok ((completed got i s)\<lparr>status := st\<rparr>)
     | Some j \<Rightarrow> idestart j ((completed got i s)\<lparr>status := st\<rparr>))"
    unfolding ideintr_def q option.case st(2) bindr.simps c Let_def by (simp add: completed_frame)
  show ?thesis
  proof (cases "qnext s i")
    case None
    then show ?thesis using that [of st] e readies_mono [OF st(1), of n] by simp
  next
    case (Some k)
    have "bufs (completed got i s) k = bufs s k" "blockno (bufs s k) < FSSIZE" using j [OF Some] by (simp_all add: completed_frame)
    then show ?thesis using that e Some idestart_readies [of n "(completed got i s)\<lparr>status := st\<rparr>" k] st(1)
      by (auto simp: completed_frame)
  qed
qed

section \<open>The disk behind the driver\<close>

text \<open>
  The controller is a parameter: from the bytes and the sectors that it has been sent, and the contents of the two
  disks, it yields the sector that it delivers and the new contents. Of it the driver relies on the two commands of
  the ATA standard, for one sector at a 28-bit address and with interrupts enabled.
\<close>

type_synonym drives = "bool \<Rightarrow> nat \<Rightarrow> block"
type_synonym controller = "(u16 \<times> u8) list \<Rightarrow> block list \<Rightarrow> drives \<Rightarrow> block \<times> drives"

definition ata :: "controller \<Rightarrow> bool" where
  "ata exec \<longleftrightarrow> (\<forall>os ds D.
     let disk1 = bit (port 0x1f6 os) 4; n = unat (lba os) in
     port 0x3f6 os = 0 \<and> port 0x1f2 os = 1 \<and> bit (port 0x1f6 os) 6 \<longrightarrow>
       (port 0x1f7 os = IDE_CMD_READ \<longrightarrow> exec os ds D = (D disk1 n, D)) \<and>
       (port 0x1f7 os = IDE_CMD_WRITE \<and> ds \<noteq> [] \<longrightarrow> snd (exec os ds D) = D(disk1 := (D disk1)(n := last ds))))"

text \<open>
  What happens: process \<open>p\<close> calls \<open>iderw\<close> for buffer \<open>i\<close>, which it has brought into the state \<open>b\<close>, up to
  where it sleeps; or the controller interrupts, having carried out what it was told last.
\<close>

datatype ide_event = Request nat nat buf | Interrupt

definition iderw_sleep :: "nat \<Rightarrow> nat \<Rightarrow> buf \<Rightarrow> 'a ide_scheme \<Rightarrow> 'a ide_scheme res" where
  "iderw_sleep p i b s =
     bindr (iderw_enter i (upd_buf i (\<lambda>_. b) (s\<lparr>curproc := p\<rparr>))) (\<lambda>s.
     case iderw_wait i s of Blocked c \<Rightarrow> Ok (sleep_enter c s) | r \<Rightarrow> r)"

definition interrupt :: "controller \<Rightarrow> 'a ide_scheme \<Rightarrow> drives \<Rightarrow> ('a ide_scheme \<times> drives) res" where
  "interrupt exec s D =
     (let (got, D) = (if outs s = [] then (\<lambda>_. 0, D) else exec (outs s) (outdata s) D)
      in bindr (ideintr got (s\<lparr>outs := [], outdata := []\<rparr>)) (\<lambda>t. Ok (t, D)))"

text \<open>
  What the processes see between two states: those that slept for a request and now run find the loop of \<open>iderw\<close>
  at its end, with these bytes in the buffer.
\<close>

definition asleep :: "'a ide_scheme \<Rightarrow> nat \<Rightarrow> nat \<Rightarrow> bool" where
  "asleep s p i \<longleftrightarrow> pstate (procs s p) = SLEEPING \<and> chan (procs s p) = Some (ChIde i)"

definition bytes :: "block \<Rightarrow> u8 list" where
  "bytes x = map x [0..<BSIZE]"

definition returns :: "'a ide_scheme \<Rightarrow> 'a ide_scheme \<Rightarrow> nat \<Rightarrow> (nat \<times> nat \<times> u8 list) list" where
  "returns s t p =
     (case chan (procs s p) of
        Some (ChIde i) \<Rightarrow>
          (if asleep s p i \<and> pstate (procs t p) = RUNNABLE \<and> iderw_wait i t = Ok t
           then [(p, i, bytes (data (bufs t i)))] else [])
      | _ \<Rightarrow> [])"

definition finished :: "'a ide_scheme \<Rightarrow> 'a ide_scheme \<Rightarrow> (nat \<times> nat \<times> u8 list) list" where
  "finished s t = concat (map (returns s t) [0..<NPROC])"

text \<open>A run, with the calls of \<open>iderw\<close> that return in it, as they are seen.\<close>

fun ide_run :: "controller \<Rightarrow> ide_event list \<Rightarrow> 'a ide_scheme \<Rightarrow> drives \<Rightarrow>
    ((nat \<times> nat \<times> u8 list) list \<times> 'a ide_scheme \<times> drives) res" where
  "ide_run exec [] s D = Ok ([], s, D)"
| "ide_run exec (Request p i b # es) s D = bindr (iderw_sleep p i b s) (\<lambda>t. ide_run exec es t D)"
| "ide_run exec (Interrupt # es) s D =
     bindr (interrupt exec s D) (\<lambda>(t, D).
     bindr (ide_run exec es t D) (\<lambda>(d, r). Ok (finished s t @ d, r)))"

text \<open>
  The specification: a queue of requests and a disk; each interrupt serves the request at the head. It yields the
  requests served, with the bytes in the buffer, those left over, and the disk.
\<close>

definition serve :: "buf \<Rightarrow> drives \<Rightarrow> u8 list \<times> drives" where
  "serve b D =
     (let d = bit (bdev b) 0; n = unat (blockno b) in
      if dirty b then (bytes (data b), D(d := (D d)(n := data b))) else (bytes (D d n), D))"

fun fifo_server :: "ide_event list \<Rightarrow> (nat \<times> nat \<times> buf) list \<Rightarrow> drives \<Rightarrow>
    (nat \<times> nat \<times> u8 list) list \<times> (nat \<times> nat \<times> buf) list \<times> drives" where
  "fifo_server [] q D = ([], q, D)"
| "fifo_server (Request p i b # es) q D = fifo_server es (q @ [(p, i, b)]) D"
| "fifo_server (Interrupt # es) [] D = fifo_server es [] D"
| "fifo_server (Interrupt # es) ((p, i, b) # q) D =
     (let (x, D) = serve b D; (d, r) = fifo_server es q D in ((p, i, x) # d, r))"

text \<open>
  The requests the driver accepts: the process holds the buffer and sleeps for no other; the buffer is not with the
  driver already; it is invalid or dirty; its block and its disk exist.
\<close>

definition accepts :: "'a ide_scheme \<Rightarrow> (nat \<times> nat \<times> buf) list \<Rightarrow> nat \<Rightarrow> nat \<Rightarrow> buf \<Rightarrow> bool" where
  "accepts s q p i b \<longleftrightarrow> p < NPROC \<and> p \<notin> fst ` set q \<and> i < NBUF \<and> i \<notin> (fst \<circ> snd) ` set q
     \<and> holdingsleep (pid (procs s p)) (block_lock b) \<and> (dirty b \<or> \<not> valid b)
     \<and> (bdev b = 0 \<or> havedisk1 s) \<and> blockno b < FSSIZE"

fun proper :: "'a ide_scheme \<Rightarrow> (nat \<times> nat \<times> buf) list \<Rightarrow> ide_event list \<Rightarrow> bool" where
  "proper s q [] = True"
| "proper s q (Request p i b # es) = (accepts s q p i b \<and> proper s (q @ [(p, i, b)]) es)"
| "proper s q (Interrupt # es) = proper s (tl q) es"

text \<open>The requests \<open>q\<close> are with the driver: queued, asleep, and the controller told the first.\<close>

definition told :: "'a ide_scheme \<Rightarrow> (nat \<times> nat \<times> buf) list \<Rightarrow> bool" where
  "told s q \<longleftrightarrow> (case q of
      [] \<Rightarrow> outs s = [] \<and> outdata s = []
    | (p, i, b) # _ \<Rightarrow> outs s = request b \<and> outdata s = (if dirty b then [data b] else []))"

definition pending :: "'a ide_scheme \<Rightarrow> (nat \<times> nat \<times> buf) list \<Rightarrow> bool" where
  "pending s q \<longleftrightarrow> queued s (map (fst \<circ> snd) q) \<and> distinct (map fst q)
     \<and> (\<forall>(p, i, b)\<in>set q. p < NPROC \<and> bufs s i = b \<and> blockno b < FSSIZE)
     \<and> (\<forall>p<NPROC. \<forall>i. asleep s p i \<longleftrightarrow> (\<exists>b. (p, i, b) \<in> set q)) \<and> told s q"

section \<open>One event\<close>

lemma told_cong: "outs s = outs t \<Longrightarrow> outdata s = outdata t \<Longrightarrow> told s q = told t q"
  by (simp add: told_def split: list.split)

lemma request_flags: "port 0x3f6 (request b) = 0" "bit (port 0x1f6 (request b)) 6"
  subgoal by (simp add: port_def request_def Let_def)
  subgoal unfolding ports_request(5) bit_unsigned_iff bit_or_iff bit_push_bit_iff by (simp add: bit_mask_iff)
  done

text \<open>The controller carries out the request that it has been told.\<close>

lemma controller_serves:
  assumes "ata exec" "blockno b < FSSIZE" and e: "exec (request b) (if dirty b then [data b] else []) D = (x, D')"
  shows "D' = snd (serve b D) \<and> bytes (arrived x b) = fst (serve b D)"
proof -
  let ?os = "request b"
  have "unat (blockno b) < 2 ^ 28" using assms(2) by (simp add: FSSIZE_def word_less_nat_alt)
  note r = request_tells_block [OF this] request_flags [of b]
  have a: "port 0x1f7 ?os = IDE_CMD_READ \<Longrightarrow> exec ?os ds D = (D (bit (bdev b) 0) (unat (blockno b)), D)"
    "port 0x1f7 ?os = IDE_CMD_WRITE \<Longrightarrow> ds \<noteq> [] \<Longrightarrow>
      snd (exec ?os ds D) = D(bit (bdev b) 0 := (D (bit (bdev b) 0))(unat (blockno b) := last ds))" for ds
    using assms(1) [unfolded ata_def, THEN spec, THEN spec, THEN spec, of ?os ds D] r by (simp_all add: Let_def)
  show ?thesis
  proof (cases "dirty b")
    case True
    then show ?thesis using a(2) [of "[data b]"] r e by (simp add: serve_def Let_def arrived_def)
  next
    case False
    then show ?thesis using a(1) [of "[]"] r e by (auto simp: serve_def Let_def arrived_def bytes_def)
  qed
qed

lemma iderw_sleep_pending:
  assumes pd: "pending s q" and ac: "accepts s q p i b" and st: "readies (Suc n) (status s)"
  obtains t where "iderw_sleep p i b s = Ok t" "pending t (q @ [(p, i, b)])" "readies n (status t)"
    "havedisk1 t = havedisk1 s" "\<And>j. pid (procs t j) = pid (procs s j)"
proof -
  let ?is = "map (fst \<circ> snd) q"
  define s1 where "s1 = upd_buf i (\<lambda>_. b) (s\<lparr>curproc := p\<rparr>)"
  have a: "p < NPROC" "p \<notin> fst ` set q" "i < NBUF" "i \<notin> set ?is" "holdingsleep (pid (procs s p)) (block_lock b)"
    "dirty b \<or> \<not> valid b" "bdev b = 0 \<or> havedisk1 s" "blockno b < FSSIZE"
    using ac by (simp_all add: accepts_def)
  have qd: "queued s ?is" and tl: "told s q" using pd by (simp_all add: pending_def)
  have s1: "bufs s1 = (bufs s)(i := b)" "outs s1 = outs s" "outdata s1 = outdata s" "status s1 = status s" "procs s1 = procs s"
    "curproc s1 = p" "idequeue s1 = idequeue s" "havedisk1 s1 = havedisk1 s" "queued s1 ?is" "holding_buf i s1"
    using qd a(5) by (simp_all add: s1_def upd_buf_def queued_def holding_buf_def myproc_def)
  obtain u where u: "enqueue i s1 = Ok u" "queued u (?is @ [i])" "bufs u = bufs s1" "outs u = outs s" "status u = status s"
    "outdata u = outdata s" "procs u = procs s" "idequeue u = (if q = [] then Some i else idequeue s)" "curproc u = p" "havedisk1 u = havedisk1 s"
    using enqueue_queued [OF s1(9) a(4,3)] s1 by auto
  have e: "iderw_enter i s1 = (if idequeue u = Some i then idestart i u else Ok u)"
    unfolding iderw_enter_def Let_def using s1 a(6,7) u(1) by (auto simp: flags_valid_only)
  obtain v where v: "iderw_enter i s1 = Ok v" "queued v (?is @ [i])" "bufs v = bufs s1" "procs v = procs s" "curproc v = p"
    "havedisk1 v = havedisk1 s" "readies n (status v)" "told v (q @ [(p, i, b)])"
  proof (cases q)
    case Nil
    have b: "bufs u i = b" "readies (Suc n) (status u)" "outs u = []" "outdata u = []"
      using u(3,4,5,6) s1(1) st tl Nil by (simp_all add: told_def)
    obtain st' where i: "idestart i u = Ok (u\<lparr>status := st', outs := request b, outdata := (if dirty b then [data b] else [])\<rparr>)"
        "readies n st'"
      using idestart_readies [OF b(2), of i] a(8) unfolding b(1,3,4) append_Nil by blast
    show ?thesis
      by (rule that [of "u\<lparr>status := st', outs := request b, outdata := (if dirty b then [data b] else [])\<rparr>"])
        (use i e u Nil in \<open>simp_all add: told_def queued_def\<close>)
  next
    case (Cons c cs)
    have "idequeue u \<noteq> Some i" using u(8) qd a(4) Cons by (auto simp: queued_def)
    then show ?thesis
      by (intro that [of u]) (use e u tl Cons readies_mono [OF st, of n] in \<open>auto simp: told_def split: prod.splits\<close>)
  qed
  define t where "t = sleep_enter (ChIde i) v"
  have t: "bufs t = (bufs s)(i := b)" "procs t = (procs s)(p := (procs s p)\<lparr>chan := Some (ChIde i), pstate := SLEEPING\<rparr>)"
    "queued t (?is @ [i])" "status t = status v" "havedisk1 t = havedisk1 s" "outs t = outs v" "outdata t = outdata v"
    using v s1(1) by (simp_all add: t_def sleep_enter_def upd_proc_def queued_def)
  have "told t (q @ [(p, i, b)])" using told_cong [OF t(6,7)] v(8) by simp
  note t = t(1-5) this
  have "\<not> (valid b \<and> \<not> dirty b)" using a(6) by blast
  then have "iderw_sleep p i b s = Ok t"
    using v(1,3) s1(1) by (simp add: iderw_sleep_def s1_def [symmetric] iderw_wait_def t_def flags_valid_only)
  moreover have "pending t (q @ [(p, i, b)])"
    unfolding pending_def
  proof (intro conjI)
    have "i \<noteq> j" if "(r, j, c) \<in> set q" for r j c using a(4) that by force
    then show "\<forall>(p, j, c)\<in>set (q @ [(p, i, b)]). p < NPROC \<and> bufs t j = c \<and> blockno c < FSSIZE"
      using pd a(1,8) t(1) by (fastforce simp: pending_def)
    have "(r, j, c) \<notin> set q" if "r = p" for r j c using a(2) that by force
    then show "\<forall>r<NPROC. \<forall>j. asleep t r j \<longleftrightarrow> (\<exists>c. (r, j, c) \<in> set (q @ [(p, i, b)]))"
      using pd t(2) by (auto simp: pending_def asleep_def)
  qed (use pd a(2) t(3,6) in \<open>auto simp: pending_def\<close>)
  ultimately show ?thesis using that [of t] t v(7) by simp
qed

lemma interrupt_idle: "pending s [] \<Longrightarrow> interrupt exec s D = Ok (s, D)"
  by (simp add: pending_def told_def interrupt_def ideintr_def queued_def)

lemma finished_one:
  assumes "p < NPROC" "returns s t p = [r]" "\<And>j. j < NPROC \<Longrightarrow> j \<noteq> p \<Longrightarrow> returns s t j = []"
  shows "finished s t = [r]"
proof -
  have "concat (map (returns s t) [0..<n]) = (if p < n then [r] else [])" if "n \<le> NPROC" for n
    using that by (induction n) (use assms in \<open>auto simp: less_Suc_eq\<close>)
  then show ?thesis using assms(1) by (simp add: finished_def)
qed

lemma finished_none:
  assumes "\<And>p. p < NPROC \<Longrightarrow> pstate (procs t p) = pstate (procs s p)"
  shows "finished s t = []"
  using assms by (auto simp: finished_def returns_def asleep_def split: option.split chan.split)

lemma interrupt_pending:
  assumes "ata exec" and pd: "pending s ((p, i, b) # q)" and st: "readies (Suc (Suc n)) (status s)"
  obtains t where "interrupt exec s D = Ok (t, snd (serve b D))" "pending t q" "finished s t = [(p, i, fst (serve b D))]"
    "readies n (status t)" "havedisk1 t = havedisk1 s" "\<And>j. pid (procs t j) = pid (procs s j)"
proof -
  let ?is = "map (fst \<circ> snd) q" and ?s = "s\<lparr>outs := [], outdata := []\<rparr>"
  have qd: "idequeue s = Some i" "chain (qnext s) (qnext s i) ?is" "i \<notin> set ?is" "distinct ?is" "set ?is \<subseteq> {..<NBUF}"
    and tl: "outs s = request b" "outdata s = (if dirty b then [data b] else [])"
    and b: "p < NPROC" "bufs s i = b" "blockno b < FSSIZE" and bs: "\<And>r j c. (r, j, c) \<in> set q \<Longrightarrow> r < NPROC \<and> bufs s j = c \<and> blockno c < FSSIZE"
    and sl: "\<And>r j. r < NPROC \<Longrightarrow> asleep s r j \<longleftrightarrow> (r = p \<and> j = i) \<or> (\<exists>c. (r, j, c) \<in> set q)"
    and dp: "p \<notin> fst ` set q" "distinct (map fst q)"
    using pd by (auto simp: pending_def queued_def told_def)
  obtain x D' where x: "exec (request b) (if dirty b then [data b] else []) D = (x, D')" by fastforce
  note x' = controller_serves [OF assms(1) b(3) x]
  have nq: "request b \<noteq> []" by (simp add: request_def Let_def)
  have h: "qnext s i = (if q = [] then None else Some (fst (snd (hd q))))"
    using chain_hd [OF qd(2)] by (simp add: hd_map)
  have j: "j \<noteq> i \<and> blockno (bufs s j) < FSSIZE \<and> (\<exists>r c. hd q = (r, j, c) \<and> q \<noteq> [] \<and> bufs s j = c)" if "qnext s i = Some j" for j
  proof -
    have "q \<noteq> []" "fst (snd (hd q)) = j" using h that by (simp_all split: if_splits)
    then obtain r c where "q \<noteq> []" "hd q = (r, j, c)" by (metis prod.collapse)
    then have "(r, j, c) \<in> set q" using hd_in_set [of q] by simp
    then show ?thesis using bs qd(3) \<open>q \<noteq> []\<close> \<open>hd q = (r, j, c)\<close> by force
  qed
  let ?c = "completed x i ?s"
  obtain st' where st': "readies n st'" and
    i: "ideintr x ?s = Ok (case qnext s i of None \<Rightarrow> ?c\<lparr>status := st'\<rparr>
        | Some j \<Rightarrow> ?c\<lparr>status := st', outs := request (bufs s j), outdata := (if dirty (bufs s j) then [data (bufs s j)] else [])\<rparr>)"
  proof -
    have s: "idequeue ?s = Some i" "readies (Suc (Suc n)) (status ?s)" using qd(1) st by simp_all
    have "j \<noteq> i \<and> blockno (bufs ?s j) < FSSIZE" if "qnext ?s i = Some j" for j using j that by simp
    from ideintr_completes [OF s this, of x] obtain st' where "readies n st'" and
      i: "ideintr x ?s = Ok (case qnext ?s i of None \<Rightarrow> ?c\<lparr>status := st'\<rparr>
        | Some j \<Rightarrow> ?c\<lparr>status := st', outs := outs ?s @ request (bufs ?s j),
            outdata := (if dirty (bufs ?s j) then outdata ?s @ [data (bufs ?s j)] else outdata ?s)\<rparr>)" by blast
    then show ?thesis by (intro that [of st']) (simp_all cong: option.case_cong if_cong)
  qed
  define t where "t = (case qnext s i of None \<Rightarrow> ?c\<lparr>status := st'\<rparr>
        | Some j \<Rightarrow> ?c\<lparr>status := st', outs := request (bufs s j), outdata := (if dirty (bufs s j) then [data (bufs s j)] else [])\<rparr>)"
  have t: "bufs t = bufs ?c" "procs t = procs (wakeup (ChIde i) s)" "qnext t = qnext s" "idequeue t = qnext s i"
    "status t = st'" "havedisk1 t = havedisk1 s"
    by (simp_all add: t_def completed_frame wakeup_def wakeup1_def cong: if_cong split: option.split)
  have tb: "bufs t j = bufs s j" if "j \<noteq> i" for j using that by (simp add: t(1) completed_frame)
  have tp: "procs t r = (if r < NPROC then wake_proc (ChIde i) (procs s r) else procs s r)" for r
    by (simp add: t(2) wakeup_def wakeup1_def)
  have ni: "j \<noteq> i" if "(r, j, c) \<in> set q" for r j c using qd(3) that by force
  have "interrupt exec s D = Ok (t, snd (serve b D))"
    using i x x' nq by (simp add: interrupt_def tl t_def)
  moreover have "told t q"
    using j h by (cases q) (auto simp: told_def t_def completed_frame)
  moreover have "asleep t r k \<longleftrightarrow> (\<exists>c. (r, k, c) \<in> set q)" if "r < NPROC" for r k
  proof -
    have "asleep t r k \<longleftrightarrow> asleep s r k \<and> k \<noteq> i" using that by (auto simp: asleep_def tp wake_proc_def)
    then show ?thesis using sl [OF that] ni by blast
  qed
  ultimately have t1: "interrupt exec s D = Ok (t, snd (serve b D))" "pending t q"
    using qd t(3,4) tb ni bs dp(2) unfolding pending_def queued_def by (simp, fastforce)
  have w: "iderw_wait i t = Ok t" using completed_buf [of x i ?s] by (simp add: iderw_wait_def flags_valid_only t(1))
  have d: "bytes (data (bufs t i)) = fst (serve b D)" using completed_buf(3) [of x i ?s] x' b(2) by (simp add: t(1))
  have a: "asleep s p i" using sl [OF b(1)] by blast
  then have c: "chan (procs s p) = Some (ChIde i)" "pstate (procs t p) = RUNNABLE"
    using b(1) by (simp_all add: asleep_def tp wake_proc_def)
  have "finished s t = [(p, i, fst (serve b D))]"
  proof (rule finished_one [OF b(1)])
    show "returns s t p = [(p, i, fst (serve b D))]" using a c w d by (simp add: returns_def)
    show "returns s t r = []" if "r < NPROC" "r \<noteq> p" for r
    proof -
      have "k \<noteq> i" if "asleep s r k" for k using sl [OF \<open>r < NPROC\<close>] that \<open>r \<noteq> p\<close> ni by blast
      then show ?thesis using that(1)
        by (auto simp: returns_def asleep_def tp wake_proc_def split: option.split chan.split)
    qed
  qed
  then show ?thesis using that [OF t1] st' t(5,6) by (simp add: t(2))
qed

section \<open>Requests are served in order\<close>

lemma accepts_cong:
  "havedisk1 t = havedisk1 s \<Longrightarrow> (\<And>j. pid (procs t j) = pid (procs s j)) \<Longrightarrow> accepts t = accepts s"
  by (simp add: accepts_def fun_eq_iff)

lemma proper_cong: "accepts t = accepts s \<Longrightarrow> proper t q es = proper s q es"
  by (induction s q es rule: proper.induct) auto

lemma ide_run_serves:
  assumes "ata exec" "pending s q" "readies (2 * length es) (status s)" "proper s q es"
  shows "\<exists>d t w D'. ide_run exec es s D = Ok (d, t, D') \<and> fifo_server es q D = (d, w, D') \<and> pending t w"
  using assms(2-)
proof (induction es arbitrary: s q D)
  case (Cons e es)
  have r: "readies (Suc (Suc (2 * length es))) (status s)" using Cons.prems(2) by simp
  show ?case
  proof (cases e)
    case (Request p i b)
    have a: "accepts s q p i b" "proper s (q @ [(p, i, b)]) es" using Cons.prems(3) Request by simp_all
    obtain t where t: "iderw_sleep p i b s = Ok t" "pending t (q @ [(p, i, b)])" "readies (Suc (2 * length es)) (status t)"
        "havedisk1 t = havedisk1 s" "\<And>j. pid (procs t j) = pid (procs s j)"
      using iderw_sleep_pending [OF Cons.prems(1) a(1) r] by blast
    then show ?thesis
      using Cons.IH [OF t(2) readies_mono [OF t(3)], of D] a(2) proper_cong [OF accepts_cong [OF t(4,5)]] Request by simp
  next
    case Interrupt
    show ?thesis
    proof (cases q)
      case Nil
      then show ?thesis
        using Cons.IH [of s "[]" D] Cons.prems Interrupt interrupt_idle [of s exec D] finished_none [of s s]
          readies_mono [OF r, of "2 * length es"] by auto
    next
      case (Cons c q')
      obtain p i b where c: "c = (p, i, b)" by (cases c)
      obtain t where t: "interrupt exec s D = Ok (t, snd (serve b D))" "pending t q'" "finished s t = [(p, i, fst (serve b D))]"
          "readies (2 * length es) (status t)" "havedisk1 t = havedisk1 s" "\<And>j. pid (procs t j) = pid (procs s j)"
        using interrupt_pending [OF assms(1) _ r, of p i b q' D] Cons.prems(1) Cons c by blast
      have "proper t q' es" using Cons.prems(3) Cons Interrupt proper_cong [OF accepts_cong [OF t(5,6)]] by simp
      then obtain d u w D' where "ide_run exec es t (snd (serve b D)) = Ok (d, u, D')"
          "fifo_server es q' (snd (serve b D)) = (d, w, D')" "pending u w"
        using Cons.IH [OF t(2,4)] by blast
      then show ?thesis using t(1,3) Cons c Interrupt by (simp add: case_prod_unfold)
    qed
  qed
qed simp

text \<open>
  C22: The driver serves requests in the order in which they come in, each with the right data. From an empty queue, for any
  interleaving of requests that the driver accepts with interrupts, the driver and an ATA controller that becomes ready often enough
  and reports no error behave as a queue with a disk: the run ends without a panic, the calls of \<open>iderw\<close> that return are those
  that the specification serves, in its order, a read with the bytes that the disk has after the writes before it; the disk ends
  with what was written; and the requests left over are queued, with their processes asleep.
\<close>

theorem ide_serves_in_order:
  assumes "ata exec" and "idequeue s = None" "outs s = []" "outdata s = []" "\<forall>p<NPROC. \<forall>i. \<not> asleep s p i"
    and "readies (2 * length es) (status s)" and "proper s [] es"
  shows "\<exists>d t w D'. ide_run exec es s D = Ok (d, t, D') \<and> fifo_server es [] D = (d, w, D')
     \<and> queued t (map (fst \<circ> snd) w) \<and> (\<forall>p<NPROC. \<forall>i. asleep t p i \<longleftrightarrow> (\<exists>b. (p, i, b) \<in> set w))"
proof -
  have "pending s []" using assms by (simp add: pending_def queued_def told_def)
  then obtain d t w D' where "ide_run exec es s D = Ok (d, t, D')" "fifo_server es [] D = (d, w, D')" "pending t w"
    using ide_run_serves [OF assms(1) _ assms(6,7)] by blast
  then show ?thesis by (simp add: pending_def)
qed

text \<open>A controller, and a machine with two disks on which process 0 writes a block, and process 1 then reads it.\<close>

definition ata_disk :: controller where
  "ata_disk os ds D =
     (let d = bit (port 0x1f6 os) 4; n = unat (lba os) in
      (D d n, if port 0x1f7 os = IDE_CMD_WRITE \<and> ds \<noteq> [] then D(d := (D d)(n := last ds)) else D))"

lemma ata_ata_disk: "ata ata_disk"
  by (simp add: ata_def ata_disk_def Let_def IDE_CMD_READ_def IDE_CMD_WRITE_def)

definition ide0 :: ide where
  "ide0 = bcache.extend bcache0 (ide.fields (\<lambda>_. None) None True (replicate 10 IDE_DRDY) [] [])"

definition wbuf :: buf where "wbuf = idebuf\<lparr>flags := B_DIRTY, data := (\<lambda>_. 7)\<rparr>"

lemma ide0_simps: "idequeue ide0 = None" "status ide0 = replicate 10 IDE_DRDY" "outs ide0 = []" "outdata ide0 = []"
  "havedisk1 ide0" "procs ide0 i = zero_proc" "pid (myproc bcache0) = 0" "ready IDE_DRDY" "IDE_DRDY AND (IDE_DF OR IDE_ERR) = 0"
  by (simp_all add: ide0_def bcache.defs ide.defs bcache0_def kmem0_def kmem.defs zero_proc_def myproc_def
    ready_def IDE_BSY_def IDE_DRDY_def IDE_DF_def IDE_ERR_def)

lemma bufs_simps: "dirty wbuf" "\<not> dirty idebuf" "\<not> valid idebuf" "data wbuf = (\<lambda>_. 7)" "blockno idebuf = 700" "blockno wbuf = 700"
  "bdev idebuf = 1" "bdev wbuf = 1" "holdingsleep 0 (block_lock idebuf)" "holdingsleep 0 (block_lock wbuf)"
  by (simp_all add: wbuf_def idebuf_def dirty_def valid_def B_DIRTY_def holdingsleep_def ide0_simps(7))

theorem ide_serves_in_order_witness:
  "\<exists>t D'. ide_run ata_disk [Request 0 3 wbuf, Request 1 8 idebuf, Interrupt, Interrupt, Interrupt] ide0 (\<lambda>_ _ _. 0)
     = Ok ([(0, 3, replicate 512 7), (1, 8, replicate 512 7)], t, D') \<and> D' True 700 = (\<lambda>_. 7)"
proof -
  let ?es = "[Request 0 3 wbuf, Request 1 8 idebuf, Interrupt, Interrupt, Interrupt]" and ?D = "\<lambda>_ _ _. 0"
  have "readies (2 * length ?es) (status ide0)" by (simp add: readies_def ide0_simps)
  moreover have "proper ide0 [] ?es"
    by (simp add: accepts_def ide0_simps bufs_simps zero_proc_def NPROC_def NBUF_def FSSIZE_def)
  moreover have "\<forall>p<NPROC. \<forall>i. \<not> asleep ide0 p i" by (simp add: asleep_def ide0_simps zero_proc_def)
  ultimately obtain d t w D' where r: "ide_run ata_disk ?es ide0 ?D = Ok (d, t, D')" "fifo_server ?es [] ?D = (d, w, D')"
    using ide_serves_in_order [OF ata_ata_disk, of ide0 ?es ?D] by (auto simp: ide0_simps)
  have "bytes (\<lambda>_. 7) = replicate 512 7" unfolding bytes_def by (simp add: BSIZE_def map_replicate_const)
  then have "d = [(0, 3, replicate 512 7), (1, 8, replicate 512 7)] \<and> D' True 700 = (\<lambda>_. 7)"
    using r(2) by (auto simp: serve_def Let_def bufs_simps)
  then show ?thesis using r(1) by blast
qed

end
