(* ===== verification/PageTable.thy ===== *)
theory PageTable
  imports Vm
begin

text \<open>
  What the page tables of \<open>Vm\<close> mean: \<open>pte\<close> is the entry for an address, 0 where there is no page table,
  and \<open>vm_ok\<close> says that the page directory, its page tables and the free pages are pages of their own.
  Lemmas: \<open>walkpgdir\<close> changes no entry when it makes a page table, and \<open>mappages\<close> changes exactly the
  entries of its range.
\<close>

section \<open>Words in pages\<close>

definition entry :: "u32 \<Rightarrow> nat \<Rightarrow> u32" where
  "entry x n = x + 4 * of_nat n"

lemma aligned_dest: "(x :: u32) mod PGSIZE = 0 \<Longrightarrow> \<exists>k < 2 ^ 20. unat x = 4096 * k"
proof -
  assume "x mod PGSIZE = 0"
  then have "unat x mod 4096 = 0" using page_mod_unat [of x] by (simp add: PGSIZE_def)
  then obtain k where "unat x = 4096 * k" by (auto elim!: dvdE simp: mod_eq_0_iff_dvd)
  moreover have "unat x < 2 ^ 32" by (rule unat_u32_less)
  ultimately show ?thesis by (intro exI [of _ k]) simp
qed

lemma unat_entry:
  assumes "x mod PGSIZE = 0" "n < 1024" "i < 4"
  shows "unat (entry x n + of_nat i) = unat x + 4 * n + i"
proof -
  obtain k where k: "k < 2 ^ 20" "unat x = 4096 * k" using aligned_dest [OF assms(1)] by blast
  have e: "entry x n + of_nat i = of_nat (unat x + 4 * n + i)" by (simp add: entry_def)
  have "unat x + 4 * n + i < 2 ^ 32" using k assms(2,3) by simp
  then show ?thesis unfolding e by (rule unat_of_nat_u32)
qed

lemma entry_other:
  assumes "x mod PGSIZE = 0" "n < 1024" "i < 4" "y mod PGSIZE = 0" "k < 1024" "j < 4"
    and "entry x n + of_nat i = entry y k + of_nat j"
  shows "x = y \<and> n = k \<and> i = j"
proof -
  obtain a b where ab: "unat x = 4096 * a" "unat y = 4096 * b"
    using aligned_dest [OF assms(1)] aligned_dest [OF assms(4)] by blast
  have "4096 * a + 4 * n + i = 4096 * b + 4 * k + j"
    using unat_entry [OF assms(1-3)] unat_entry [OF assms(4-6)] assms(7) ab by simp
  then have e: "4096 * a + (4 * n + i) = 4096 * b + (4 * k + j)" and l: "4 * n + i < 4096" "4 * k + j < 4096"
    using assms(2,3,5,6) by simp_all
  have "\<not> a < b" "\<not> b < a" using e l by linarith+
  then have "a = b" by simp
  then have f: "4 * n + i = 4 * k + j" using e by simp
  have "\<not> n < k" "\<not> k < n" using f assms(3,6) by linarith+
  then have "n = k" by simp
  then have "i = j" using f by simp
  note this \<open>a = b\<close> \<open>n = k\<close>
  then show ?thesis using ab by (simp add: word_unat_eq_iff)
qed

lemma rd32_entry: "rd32 m (entry x n) = ucast (m (entry x n + of_nat 0)) OR push_bit 8 (ucast (m (entry x n + of_nat 1)))
     OR push_bit 16 (ucast (m (entry x n + of_nat 2))) OR push_bit 24 (ucast (m (entry x n + of_nat 3)))"
  by (simp add: rd32_def)

lemma rd32_wr32_entry:
  assumes "x mod PGSIZE = 0" "n < 1024" "y mod PGSIZE = 0" "k < 1024"
  shows "rd32 (wr32 m (entry x n) v) (entry y k) = (if x = y \<and> n = k then v else rd32 m (entry y k))"
proof (cases "x = y \<and> n = k")
  case False
  have ne: "entry y k + of_nat j \<noteq> entry x n + of_nat i" if "i < 4" "j < 4" for i j
    using entry_other [OF assms(1,2) that(1) assms(3,4) that(2)] False by metis
  have "wr32 m (entry x n) v (entry y k + of_nat j) = m (entry y k + of_nat j)" if "j < 4" for j
    using ne [OF _ that, of 0] ne [OF _ that, of 1] ne [OF _ that, of 2] ne [OF _ that, of 3]
    by (simp add: wr32_def)
  from this [of 0] this [of 1] this [of 2] this [of 3] show ?thesis
    unfolding if_not_P [OF False] rd32_entry by simp
qed simp

lemma rd32_zero_entry:
  assumes "x mod PGSIZE = 0" "y mod PGSIZE = 0" "k < 1024"
  shows "rd32 (memset m x 0 PGSIZE) (entry y k) = (if x = y then 0 else rd32 m (entry y k))"
proof -
  have "memset m x 0 PGSIZE (entry y k + of_nat j) = (if x = y then 0 else m (entry y k + of_nat j))" if "j < 4" for j
  proof -
    have o: "unat (4 * of_nat k + of_nat j :: u32) = 4 * k + j"
      using unat_of_nat_u32 [of "4 * k + j"] assms(3) that by simp
    have e: "entry y k + of_nat j - x = y + (4 * of_nat k + of_nat j) - x" by (simp add: entry_def)
    show ?thesis
    proof (cases "x = y")
      case True
      then show ?thesis using o assms(3) that unfolding memset_filled filled_def e by (simp add: PGSIZE_def)
    next
      case False
      have "4096 \<le> unat (y + (4 * of_nat k + of_nat j) - x)"
        using assms o False that by (intro other_page) (auto simp: PGSIZE_def)
      then show ?thesis using False unfolding memset_filled filled_def e by (simp add: PGSIZE_def)
    qed
  qed
  from this [of 0] this [of 1] this [of 2] this [of 3] show ?thesis unfolding rd32_entry by simp
qed

section \<open>Addresses\<close>

lemma low_bits: "(0x3FF :: u32) = mask 10" "(0xFFF :: u32) = mask 12" "PGSIZE - 1 = mask 12"
  by (simp_all add: mask_eq_exp_minus_1 PGSIZE_def)

lemma PDX_less: "unat (PDX a) < 1024"
proof -
  have "PDX a \<le> 0x3FF" unfolding PDX_def by (rule word_and_le1)
  then show ?thesis by (simp add: word_le_nat_alt)
qed
text \<open>Two addresses lie in one page if they have the same entry.\<close>


lemma same_entry: "PDX a = PDX b \<and> PTX a = PTX b \<longleftrightarrow> PGROUNDDOWN a = PGROUNDDOWN b"
proof
  assume h: "PDX a = PDX b \<and> PTX a = PTX b"
  show "PGROUNDDOWN a = PGROUNDDOWN b"
  proof (rule bit_word_eqI)
    fix n :: nat
    assume n: "n < LENGTH(32)"
    have "bit a n = bit b n" if "12 \<le> n"
    proof (cases "n < 22")
      case True
      have "bit (PTX a) (n - 12) = bit (PTX b) (n - 12)" using h by simp
      moreover have "n - 12 < 10" using that True by simp
      ultimately show ?thesis using that by (simp add: PTX_def low_bits bit_simps)
    next
      case False
      have "bit (PDX a) (n - 22) = bit (PDX b) (n - 22)" using h by simp
      moreover have "n - 22 < 10" using False n by simp
      ultimately show ?thesis using False by (simp add: PDX_def low_bits bit_simps)
    qed
    then show "bit (PGROUNDDOWN a) n = bit (PGROUNDDOWN b) n"
      by (auto simp: PGROUNDDOWN_def low_bits bit_simps)
  qed
next
  assume h: "PGROUNDDOWN a = PGROUNDDOWN b"
  have b: "bit a n = bit b n" if "12 \<le> n" "n < 32" for n
  proof -
    have "bit (PGROUNDDOWN a) n = bit (PGROUNDDOWN b) n" using h by simp
    then show ?thesis using that by (simp add: PGROUNDDOWN_def low_bits bit_simps)
  qed
  have "PDX a = PDX b" by (rule bit_word_eqI) (auto simp: PDX_def low_bits bit_simps b)
  moreover have "PTX a = PTX b" by (rule bit_word_eqI) (auto simp: PTX_def low_bits bit_simps b)
  ultimately show "PDX a = PDX b \<and> PTX a = PTX b" by simp
qed

lemma aligned_bits: "(x :: u32) mod PGSIZE = 0 \<longleftrightarrow> take_bit 12 x = 0"
  by (simp add: take_bit_eq_mod PGSIZE_def)

lemma pte_addr_flags:
  assumes "x mod PGSIZE = 0" "f AND NOT 0xFFF = 0"
  shows "PTE_ADDR (x OR f) = x"
proof (rule bit_word_eqI)
  fix n :: nat
  assume n: "n < LENGTH(32)"
  have x: "\<not> bit x n" if "n < 12"
  proof -
    have "bit (take_bit 12 x) n = False" using assms(1) by (simp add: aligned_bits)
    then show ?thesis using that by (simp add: bit_simps)
  qed
  have f: "\<not> bit f n" if "12 \<le> n"
  proof -
    have "bit (f AND NOT 0xFFF) n = False" using assms(2) by simp
    then show ?thesis using that n by (simp add: low_bits bit_simps)
  qed
  show "bit (PTE_ADDR (x OR f)) n = bit x n"
    using x f n by (auto simp: PTE_ADDR_def low_bits bit_simps)
qed

lemma V2P_aligned: "x mod PGSIZE = 0 \<Longrightarrow> V2P x mod PGSIZE = 0"
  using page_diff [of x KERNBASE] page_mod_unat [of "V2P x"] by (simp add: V2P_def KERNBASE_def PGSIZE_def)

lemma P2V_is_V2P: "P2V a = V2P a"
  by (simp add: P2V_def V2P_def KERNBASE_def)

lemma aligned_PTE_ADDR: "P2V (PTE_ADDR e) mod PGSIZE = 0"
proof -
  have "take_bit 12 (PTE_ADDR e) = 0"
    by (rule bit_word_eqI) (auto simp: PTE_ADDR_def low_bits bit_simps)
  then have "PTE_ADDR e mod PGSIZE = 0" by (simp add: aligned_bits)
  then show ?thesis unfolding P2V_is_V2P by (rule V2P_aligned)
qed

lemma P2V_V2P [simp]: "P2V (V2P x) = x"
  by (simp add: P2V_def V2P_def)

lemma PTX_less: "unat (PTX a) < 1024"
proof -
  have "PTX a \<le> 0x3FF" unfolding PTX_def by (rule word_and_le1)
  then show ?thesis by (simp add: word_le_nat_alt)
qed

section \<open>Page tables\<close>

text \<open>
  The page table for directory entry \<open>d\<close>; the entry for an address, as \<open>walkpgdir\<close> finds it; the pages of
  the structure.
\<close>

definition table :: "u32 \<Rightarrow> 'a kmem_scheme \<Rightarrow> nat \<Rightarrow> u32 option" where
  "table pd s d = (let e = pte_at s (entry pd d) in if e AND PTE_P = 0 then None else Some (P2V (PTE_ADDR e)))"

definition pte :: "u32 \<Rightarrow> 'a kmem_scheme \<Rightarrow> u32 \<Rightarrow> u32" where
  "pte pd s a = (case lookup pd a s of None \<Rightarrow> 0 | Some p \<Rightarrow> pte_at s p)"

definition vm_ok :: "u32 \<Rightarrow> u32 list \<Rightarrow> 'a kmem_scheme \<Rightarrow> bool" where
  "vm_ok pd X s \<longleftrightarrow> kmem_free s X \<and> pd mod PGSIZE = 0 \<and> pd \<notin> set X
     \<and> (\<forall>d<1024. \<forall>t. table pd s d = Some t \<longrightarrow> t \<noteq> pd \<and> t \<notin> set X)
     \<and> (\<forall>d<1024. \<forall>e<1024. \<forall>t. table pd s d = Some t \<longrightarrow> table pd s e = Some t \<longrightarrow> d = e)"

lemma table_aligned: "table pd s d = Some t \<Longrightarrow> t mod PGSIZE = 0"
  by (auto simp: table_def Let_def aligned_PTE_ADDR split: if_splits)

lemma entry_PDX: "pd + 4 * PDX a = entry pd (unat (PDX a))" "t + 4 * PTX a = entry t (unat (PTX a))"
  by (simp_all add: entry_def)

lemma walk_table:
  "walkpgdir pd a False s =
     (case table pd s (unat (PDX a)) of None \<Rightarrow> None | Some t \<Rightarrow> Some (entry t (unat (PTX a))), s)"
  by (simp add: walkpgdir_def table_def Let_def entry_PDX)

lemma pte_table: "pte pd s a = (case table pd s (unat (PDX a)) of None \<Rightarrow> 0 | Some t \<Rightarrow> pte_at s (entry t (unat (PTX a))))"
  by (simp add: pte_def walk_table split: option.split)

lemma kmem_free_mem:
  assumes "kmem_free s X" "\<And>x. x \<in> set X \<Longrightarrow> rd32 m x = rd32 (mem s) x"
  shows "kmem_free (s\<lparr>mem := m\<rparr>) X"
  using assms flist_cong [of X "mem s" m "freelist s"] by (simp add: kmem_free_def page_ok_def)

lemma entry_0: "entry x 0 = x"
  by (simp add: entry_def)

lemma free_aligned: "kmem_free s X \<Longrightarrow> x \<in> set X \<Longrightarrow> x mod PGSIZE = 0"
  by (simp add: kmem_free_def page_ok_def)

text \<open>Writing an entry of a page table changes the entries of one page.\<close>

lemma set_entry:
  fixes v :: u32
  assumes "vm_ok pd X s" "table pd s (unat (PDX a)) = Some t"
  defines "u \<equiv> set_pte (entry t (unat (PTX a))) v s"
  shows "vm_ok pd X u" "\<And>b. pte pd u b = (if PGROUNDDOWN b = PGROUNDDOWN a then v else pte pd s b)"
proof -
  have t: "t mod PGSIZE = 0" "t \<noteq> pd" "t \<notin> set X" "pd mod PGSIZE = 0"
    using assms(1,2) PDX_less [of a] table_aligned by (auto simp: vm_ok_def)
  have e: "pte_at u (entry x k) = (if t = x \<and> unat (PTX a) = k then v else pte_at s (entry x k))"
    if "x mod PGSIZE = 0" "k < 1024" for x k
    using rd32_wr32_entry [OF t(1) PTX_less that] by (simp add: u_def pte_at_def set_pte_def)
  have tb: "table pd u d = table pd s d" if "d < 1024" for d
    using e [OF t(4) that] t(2) by (simp add: table_def)
  have "kmem_free s X" using assms(1) by (simp add: vm_ok_def)
  moreover have "rd32 (wr32 (mem s) (entry t (unat (PTX a))) v) x = rd32 (mem s) x" if "x \<in> set X" for x
    using rd32_wr32_entry [OF t(1) PTX_less [of a] free_aligned [OF calculation that], of 0] that t(3)
    by (auto simp: entry_0)
  ultimately have "kmem_free u X" unfolding u_def set_pte_def by (rule kmem_free_mem)
  then show "vm_ok pd X u" using assms(1) tb unfolding vm_ok_def by simp
  show "pte pd u b = (if PGROUNDDOWN b = PGROUNDDOWN a then v else pte pd s b)" for b
  proof (cases "table pd s (unat (PDX b))")
    case None
    then have "PDX b \<noteq> PDX a" using assms(2) by auto
    then have "PGROUNDDOWN b \<noteq> PGROUNDDOWN a" using same_entry by metis
    then show ?thesis using None tb PDX_less by (simp add: pte_table)
  next
    case (Some x)
    have x: "x mod PGSIZE = 0" using Some by (rule table_aligned)
    have "t = x \<longleftrightarrow> PDX a = PDX b"
    proof
      assume "t = x"
      then have "unat (PDX a) = unat (PDX b)" using assms(1,2) Some PDX_less unfolding vm_ok_def by blast
      then show "PDX a = PDX b" by (simp add: word_unat_eq_iff)
    qed (use assms(2) Some in simp)
    then have "(t = x \<and> unat (PTX a) = unat (PTX b)) \<longleftrightarrow> PGROUNDDOWN b = PGROUNDDOWN a"
      using same_entry [of a b] by (auto simp: word_unat_eq_iff)
    then show ?thesis using Some tb PDX_less [of b] e [OF x PTX_less [of b]] by (simp add: pte_table)
  qed
qed

text \<open>Making a page table for a directory entry that has none changes no entry of any page.\<close>

lemma add_table:
  assumes "vm_ok pd (x # X) s" "table pd s (unat (PDX a)) = None"
    and m: "mem u = mem s" and f: "kmem_free u X"
  defines "w \<equiv> set_pte (entry pd (unat (PDX a))) (V2P x OR PTE_P OR PTE_W OR PTE_U) (zero_pg x u)"
  shows "vm_ok pd X w" "table pd w (unat (PDX a)) = Some x" "\<And>b. pte pd w b = pte pd s b"
proof -
  have p: "pd mod PGSIZE = 0" "x mod PGSIZE = 0" "pd \<noteq> x" "pd \<notin> set X" "x \<notin> set X"
    using assms(1) by (auto simp: vm_ok_def kmem_free_def page_ok_def)
  let ?v = "V2P x OR PTE_P OR PTE_W OR PTE_U"
  have e: "pte_at w (entry y k) = (if y = pd \<and> k = unat (PDX a) then ?v else if y = x then 0 else pte_at s (entry y k))"
    if "y mod PGSIZE = 0" "k < 1024" for y k
    using rd32_wr32_entry [OF p(1) PDX_less that] rd32_zero_entry [OF p(2) that] m
    by (auto simp: w_def pte_at_def set_pte_def zero_pg_def)
  have fl: "PTE_ADDR ?v = V2P x" "?v AND PTE_P \<noteq> 0"
  proof -
    have "PTE_ADDR (V2P x OR (PTE_P OR PTE_W OR PTE_U)) = V2P x"
      by (rule pte_addr_flags [OF V2P_aligned [OF p(2)]]) (simp add: PTE_P_def PTE_W_def PTE_U_def)
    then show "PTE_ADDR ?v = V2P x" by (simp add: or.assoc)
    have "bit (?v AND PTE_P) 0" by (simp add: PTE_P_def bit_simps)
    then show "?v AND PTE_P \<noteq> 0" by auto
  qed
  have tb: "table pd w d = (if d = unat (PDX a) then Some x else table pd s d)" if "d < 1024" for d
    using e [OF p(1) that] fl p(3) by (simp add: table_def Let_def)
  show "table pd w (unat (PDX a)) = Some x" using tb PDX_less by simp
  have "rd32 (mem w) y = rd32 (mem u) y" if y: "y \<in> set X" for y
  proof -
    have "y mod PGSIZE = 0" "y \<noteq> x" "y \<noteq> pd" using free_aligned [OF f y] y p(4,5) by auto
    then show ?thesis using e [of y 0] m by (simp add: pte_at_def entry_0)
  qed
  then have "kmem_free (u\<lparr>mem := mem w\<rparr>) X" by (rule kmem_free_mem [OF f])
  moreover have "u\<lparr>mem := mem w\<rparr> = w" by (simp add: w_def set_pte_def zero_pg_def)
  ultimately have "kmem_free w X" by simp
  moreover have "table pd s d \<noteq> Some x" if "d < 1024" for d
    using assms(1) that by (auto simp: vm_ok_def)
  ultimately show "vm_ok pd X w" using assms(1) p tb unfolding vm_ok_def by (auto split: if_splits)
  show "pte pd w b = pte pd s b" for b
  proof (cases "unat (PDX b) = unat (PDX a)")
    case True
    then show ?thesis using assms(2) e [OF p(2) PTX_less [of b]] p(3) tb [OF PDX_less [of b]]
      by (simp add: pte_table)
  next
    case False
    show ?thesis
    proof (cases "table pd s (unat (PDX b))")
      case (Some y)
      then have "y \<noteq> x" "y \<noteq> pd" using assms(1) PDX_less [of b] by (auto simp: vm_ok_def)
      then show ?thesis using Some False e [OF table_aligned [OF Some] PTX_less [of b]] tb [OF PDX_less [of b]]
        by (simp add: pte_table)
    qed (use False tb [OF PDX_less [of b]] in \<open>simp add: pte_table\<close>)
  qed
qed

text \<open>The walk that may allocate.\<close>

lemma walk_alloc:
  assumes "vm_ok pd X s"
  shows "(walkpgdir pd a True s = (None, s) \<and> X = [])
     \<or> (\<exists>t Y u. walkpgdir pd a True s = (Some (entry t (unat (PTX a))), u) \<and> vm_ok pd Y u
          \<and> table pd u (unat (PDX a)) = Some t \<and> (\<forall>b. pte pd u b = pte pd s b))"
proof (cases "table pd s (unat (PDX a))")
  case (Some t)
  then have "walkpgdir pd a True s = (Some (entry t (unat (PTX a))), s)"
    by (auto simp: walkpgdir_def table_def Let_def entry_PDX split: if_splits)
  then show ?thesis using assms Some by blast
next
  case None
  then have e: "pte_at s (entry pd (unat (PDX a))) AND PTE_P = 0"
    by (simp add: table_def Let_def split: if_splits)
  have f: "kmem_free s X" using assms by (simp add: vm_ok_def)
  show ?thesis
  proof (cases X)
    case Nil
    then have "kalloc s = (0, s)" using kalloc_free [OF f] by simp
    then show ?thesis using e Nil by (simp add: walkpgdir_def Let_def entry_PDX)
  next
    case (Cons x Y)
    then obtain u where u: "kalloc s = (x, u)" "x \<noteq> 0" "mem u = mem s" "kmem_free u Y"
      using kalloc_free [OF f] by auto
    let ?w = "set_pte (entry pd (unat (PDX a))) (V2P x OR PTE_P OR PTE_W OR PTE_U) (zero_pg x u)"
    have "walkpgdir pd a True s = (Some (entry x (unat (PTX a))), ?w)"
      using e u by (simp add: walkpgdir_def Let_def entry_PDX)
    then show ?thesis using add_table [OF _ None u(3,4), of x] assms Cons by blast
  qed
qed

section \<open>Mapping a range\<close>

lemma pte_page: "PGROUNDDOWN a = PGROUNDDOWN b \<Longrightarrow> pte pd s a = pte pd s b"
  using same_entry [of a b] by (simp add: pte_table split: option.split)

lemma rounddown_aligned: "PGROUNDDOWN a mod PGSIZE = 0"
proof -
  have "take_bit 12 (PGROUNDDOWN a) = 0"
    by (rule bit_word_eqI) (auto simp: PGROUNDDOWN_def low_bits bit_simps)
  then show ?thesis by (simp add: aligned_bits)
qed

lemma aligned_rounddown: "a mod PGSIZE = 0 \<Longrightarrow> PGROUNDDOWN a = a"
proof -
  assume "a mod PGSIZE = 0"
  then have "a AND 0xFFF = 0" by (simp add: aligned_bits low_bits take_bit_eq_mask)
  then show ?thesis using PGROUNDDOWN_offset [of a] by simp
qed

lemma unat_pages: "k < 2 ^ 20 \<Longrightarrow> unat (of_nat k * PGSIZE) = 4096 * k"
  using unat_of_nat_u32 [of "4096 * k"] by (simp add: PGSIZE_def mult.commute)

lemma next_aligned: "a mod PGSIZE = 0 \<Longrightarrow> (a + of_nat k * PGSIZE) mod PGSIZE = 0"
proof -
  assume a: "a mod PGSIZE = 0"
  have k: "unat (of_nat k * PGSIZE) mod 4096 = 0"
  proof -
    have "of_nat k * PGSIZE = of_nat (k * 4096)" by (simp add: PGSIZE_def)
    then have "unat (of_nat k * PGSIZE) = k * 4096 mod 2 ^ 32"
      by (simp only: unsigned_of_nat take_bit_eq_mod) simp
    then show ?thesis by (simp add: mod_mod_cancel)
  qed
  have "unat (a + of_nat k * PGSIZE) mod 4096 = (unat a + unat (of_nat k * PGSIZE)) mod 2 ^ 32 mod 4096"
    by (simp add: unat_word_ariths)
  also have "\<dots> = (unat a + unat (of_nat k * PGSIZE)) mod 4096" by (simp add: mod_mod_cancel)
  also have "\<dots> = 0" using k a page_mod_unat [of a] by (simp add: PGSIZE_def mod_eq_0_iff_dvd)
  finally show ?thesis using page_mod_unat [of "a + of_nat k * PGSIZE"] by (simp add: PGSIZE_def)
qed

text \<open>The entry after the pages from \<open>a\<close> have been mapped to the frames from \<open>pa\<close>.\<close>

lemma mappages_loop_maps:
  assumes "vm_ok pd X s" "a mod PGSIZE = 0" "n < 2 ^ 20"
    and "\<forall>k\<le>n. pte pd s (a + of_nat k * PGSIZE) AND PTE_P = 0"
  shows "\<exists>r t Y. mappages_loop pd n a pa perm s = Ok (r, t) \<and> vm_ok pd Y t
     \<and> (\<forall>b. (\<forall>k\<le>n. PGROUNDDOWN b \<noteq> a + of_nat k * PGSIZE) \<longrightarrow> pte pd t b = pte pd s b)
     \<and> (r = 0 \<and> (\<forall>k\<le>n. pte pd t (a + of_nat k * PGSIZE) = (pa + of_nat k * PGSIZE) OR perm OR PTE_P)
        \<or> r = - 1 \<and> Y = [])"
  using assms
proof (induction n arbitrary: a pa s X)
  case 0
  from walk_alloc [OF 0(1), of a] show ?case
  proof (elim disjE conjE exE)
    assume "walkpgdir pd a True s = (None, s)" "X = []"
    then show ?thesis using 0(1) by (simp add: mappages_loop.simps)
  next
    fix t Y u
    assume u: "walkpgdir pd a True s = (Some (entry t (unat (PTX a))), u)" "vm_ok pd Y u"
      "table pd u (unat (PDX a)) = Some t" "\<forall>b. pte pd u b = pte pd s b"
    have "pte_at u (entry t (unat (PTX a))) AND PTE_P = 0"
      using u(3,4) 0(4) pte_table [of pd u a] by simp
    then show ?thesis
      using u set_entry [OF u(2,3), of "pa OR perm OR PTE_P"] aligned_rounddown [OF 0(2)]
      by (simp add: mappages_loop.simps) blast
  qed
next
  case (Suc n)
  from walk_alloc [OF Suc.prems(1), of a] show ?case
  proof (elim disjE conjE exE)
    assume "walkpgdir pd a True s = (None, s)" "X = []"
    then show ?thesis using Suc.prems(1) by (simp add: mappages_loop.simps)
  next
    fix t Y u
    assume u: "walkpgdir pd a True s = (Some (entry t (unat (PTX a))), u)" "vm_ok pd Y u"
      "table pd u (unat (PDX a)) = Some t" "\<forall>b. pte pd u b = pte pd s b"
    define w where "w = set_pte (entry t (unat (PTX a))) (pa OR perm OR PTE_P) u"
    have w: "vm_ok pd Y w" "\<And>b. pte pd w b = (if PGROUNDDOWN b = a then pa OR perm OR PTE_P else pte pd s b)"
      using set_entry [OF u(2,3), of "pa OR perm OR PTE_P"] u(4) aligned_rounddown [OF Suc.prems(2)] by (simp_all add: w_def)
    have "pte pd s (a + of_nat 0 * PGSIZE) AND PTE_P = 0" using Suc.prems(4) by blast
    then have "pte_at u (entry t (unat (PTX a))) AND PTE_P = 0"
      using u(3,4) pte_table [of pd u a] by simp
    then have e: "mappages_loop pd (Suc n) a pa perm s = mappages_loop pd n (a + PGSIZE) (pa + PGSIZE) perm w"
      using u(1) by (simp add: mappages_loop.simps [of pd "Suc n"] w_def)
    have sh: "a + PGSIZE + of_nat k * PGSIZE = a + of_nat (Suc k) * PGSIZE" for k by (simp add: algebra_simps)
    have al: "(a + PGSIZE) mod PGSIZE = 0" using next_aligned [OF Suc.prems(2), of 1] by simp
    have ne: "a + of_nat (Suc k) * PGSIZE \<noteq> a" if "k \<le> n" for k
    proof -
      have "unat (of_nat (Suc k) * PGSIZE) = 4096 * Suc k" using that Suc.prems(3) by (intro unat_pages) simp
      then show ?thesis by (metis add_cancel_left_right mult_is_0 nat.distinct(1) unat_0 zero_neq_numeral)
    qed
    have pw: "pte pd w (a + of_nat (Suc k) * PGSIZE) = pte pd s (a + of_nat (Suc k) * PGSIZE)" if "k \<le> n" for k
      using ne [OF that] aligned_rounddown [OF next_aligned [OF Suc.prems(2), of "Suc k"]] w(2) by metis
    have "\<forall>k\<le>n. pte pd w (a + PGSIZE + of_nat k * PGSIZE) AND PTE_P = 0"
      using Suc.prems(4) pw unfolding sh by (metis Suc_le_mono)
    from Suc.IH [OF w(1) al _ this, of "pa + PGSIZE"] Suc.prems(3)
    obtain r v Z where v: "mappages_loop pd n (a + PGSIZE) (pa + PGSIZE) perm w = Ok (r, v)" "vm_ok pd Z v"
      "\<forall>b. (\<forall>k\<le>n. PGROUNDDOWN b \<noteq> a + of_nat (Suc k) * PGSIZE) \<longrightarrow> pte pd v b = pte pd w b"
      "r = 0 \<and> (\<forall>k\<le>n. pte pd v (a + of_nat (Suc k) * PGSIZE) = (pa + PGSIZE + of_nat k * PGSIZE) OR perm OR PTE_P)
        \<or> r = - 1 \<and> Z = []"
      unfolding sh by auto
    have a0: "pte pd v a = pa OR perm OR PTE_P"
      using v(3) ne w(2) aligned_rounddown [OF Suc.prems(2)] by metis
    have "pte pd v b = pte pd s b" if "\<forall>k\<le>Suc n. PGROUNDDOWN b \<noteq> a + of_nat k * PGSIZE" for b
    proof -
      have "PGROUNDDOWN b \<noteq> a + of_nat 0 * PGSIZE" using that by blast
      moreover have "\<forall>k\<le>n. PGROUNDDOWN b \<noteq> a + of_nat (Suc k) * PGSIZE" using that by (metis Suc_le_mono)
      ultimately show ?thesis using v(3) w(2) by simp
    qed
    moreover have "pte pd v (a + of_nat k * PGSIZE) = (pa + of_nat k * PGSIZE) OR perm OR PTE_P"
      if "r = 0" "k \<le> Suc n" for k
    proof (cases k)
      case (Suc j)
      have "pa + PGSIZE + of_nat j * PGSIZE = pa + of_nat k * PGSIZE" unfolding Suc by (simp add: algebra_simps)
      moreover have "pte pd v (a + of_nat k * PGSIZE) = (pa + PGSIZE + of_nat j * PGSIZE) OR perm OR PTE_P"
        using v(4) that unfolding Suc by auto
      ultimately show ?thesis by (simp only:)
    qed (use a0 in simp)
    ultimately show ?thesis using e v(1,2,4) by auto
  qed
qed

lemma unat_page_count: "unat x mod 4096 = 0 \<Longrightarrow> unat x = 4096 * unat (x div PGSIZE)" for x :: u32
  using mult_div_mod_eq [of 4096 "unat x"] by (simp add: unat_div PGSIZE_def)

text \<open>Address \<open>b\<close> lies in a page that the range of \<open>n\<close> bytes from \<open>a\<close> touches.\<close>

definition in_range :: "u32 \<Rightarrow> u32 \<Rightarrow> u32 \<Rightarrow> bool" where
  "in_range a n b \<longleftrightarrow> PGROUNDDOWN b - PGROUNDDOWN a \<le> PGROUNDDOWN (a + n - 1) - PGROUNDDOWN a"

lemma in_range_pages:
  "in_range a n b \<longleftrightarrow> (\<exists>k\<le>unat ((PGROUNDDOWN (a + n - 1) - PGROUNDDOWN a) div PGSIZE).
     PGROUNDDOWN b = PGROUNDDOWN a + of_nat k * PGSIZE)"
proof -
  let ?f = "PGROUNDDOWN a" and ?l = "PGROUNDDOWN (a + n - 1)" and ?b = "PGROUNDDOWN b"
  let ?N = "unat ((?l - ?f) div PGSIZE)"
  have d: "unat (?l - ?f) = 4096 * ?N" "unat (?b - ?f) = 4096 * unat ((?b - ?f) div PGSIZE)"
    using rounddown_aligned [unfolded PGSIZE_def] by (intro unat_page_count page_diff; simp)+
  have lt: "?N < 2 ^ 20" using unat_u32_less [of "?l - ?f"] d(1) by simp
  show ?thesis
  proof
    assume "in_range a n b"
    then have le: "unat ((?b - ?f) div PGSIZE) \<le> ?N" using d by (simp add: in_range_def word_le_nat_alt)
    have "unat (of_nat (unat ((?b - ?f) div PGSIZE)) * PGSIZE) = 4096 * unat ((?b - ?f) div PGSIZE)"
      using le lt by (intro unat_pages) simp
    then have "unat (of_nat (unat ((?b - ?f) div PGSIZE)) * PGSIZE) = unat (?b - ?f)" using d(2) by (rule trans [OF _ sym])
    then have "?b - ?f = of_nat (unat ((?b - ?f) div PGSIZE)) * PGSIZE" by (simp only: word_unat_eq_iff)
    then have "?b = ?f + of_nat (unat ((?b - ?f) div PGSIZE)) * PGSIZE" by (metis diff_add_cancel add.commute)
    then show "\<exists>k\<le>?N. ?b = ?f + of_nat k * PGSIZE" using le by blast
  next
    assume "\<exists>k\<le>?N. ?b = ?f + of_nat k * PGSIZE"
    then obtain k where k: "k \<le> ?N" "?b - ?f = of_nat k * PGSIZE" by auto
    have "unat (of_nat k * PGSIZE) = 4096 * k" using k(1) lt by (intro unat_pages) simp
    then show "in_range a n b" using k d(1) by (simp add: in_range_def word_le_nat_alt)
  qed
qed

text \<open>
  C12: \<open>mappages\<close> maps exactly its range. In a sound page directory, when no page that the range touches is
  present, \<open>mappages\<close> returns without panic and leaves the directory sound. If it succeeds, the entry
  of each page of the range holds the corresponding physical page with the permissions, and every other
  address keeps its entry; it fails only when no page is free, and then it has changed no
  entry outside the range either.
\<close>

theorem mappages_maps:
  assumes "vm_ok pd X s" and "\<forall>b. in_range a n b \<longrightarrow> pte pd s b AND PTE_P = 0"
  shows "\<exists>r t Y. mappages pd a n pa perm s = Ok (r, t) \<and> vm_ok pd Y t
     \<and> (\<forall>b. \<not> in_range a n b \<longrightarrow> pte pd t b = pte pd s b)
     \<and> (r = 0 \<and> (\<forall>b. in_range a n b \<longrightarrow> pte pd t b = (pa + (PGROUNDDOWN b - PGROUNDDOWN a)) OR perm OR PTE_P)
        \<or> r = - 1 \<and> Y = [])"
proof -
  let ?f = "PGROUNDDOWN a" and ?N = "unat ((PGROUNDDOWN (a + n - 1) - PGROUNDDOWN a) div PGSIZE)"
  have lt: "?N < 2 ^ 20"
    using unat_u32_less [of "PGROUNDDOWN (a + n - 1) - PGROUNDDOWN a"] by (simp add: unat_div PGSIZE_def)
  have al: "PGROUNDDOWN (?f + of_nat k * PGSIZE) = ?f + of_nat k * PGSIZE" for k
    by (rule aligned_rounddown [OF next_aligned [OF rounddown_aligned]])
  have "\<forall>k\<le>?N. pte pd s (?f + of_nat k * PGSIZE) AND PTE_P = 0"
    using assms(2) in_range_pages al by metis
  from mappages_loop_maps [OF assms(1) rounddown_aligned lt this, of pa perm]
  obtain r t Y where t: "mappages_loop pd ?N ?f pa perm s = Ok (r, t)" "vm_ok pd Y t"
    "\<forall>b. (\<forall>k\<le>?N. PGROUNDDOWN b \<noteq> ?f + of_nat k * PGSIZE) \<longrightarrow> pte pd t b = pte pd s b"
    "r = 0 \<and> (\<forall>k\<le>?N. pte pd t (?f + of_nat k * PGSIZE) = (pa + of_nat k * PGSIZE) OR perm OR PTE_P)
      \<or> r = - 1 \<and> Y = []" by blast
  have "pte pd t b = (pa + (PGROUNDDOWN b - ?f)) OR perm OR PTE_P" if r: "r = 0" "in_range a n b" for b
  proof -
    obtain k where k: "k \<le> ?N" "PGROUNDDOWN b = ?f + of_nat k * PGSIZE" using r(2) in_range_pages by blast
    have "pte pd t b = pte pd t (?f + of_nat k * PGSIZE)" using k(2) al by (intro pte_page) simp
    moreover have "PGROUNDDOWN b - ?f = of_nat k * PGSIZE" using k(2) by simp
    ultimately show ?thesis using t(4) r(1) k(1) by auto
  qed
  then show ?thesis using t in_range_pages unfolding mappages_def Let_def by blast
qed

text \<open>An empty page directory and two free pages.\<close>

definition pages0 :: kmem where
  "pages0 = kmem0\<lparr>mem := wr32 (\<lambda>_. 0) 0x80402000 0x80401000, freelist := 0x80402000\<rparr>"

lemma pages0_entry:
  "y mod PGSIZE = 0 \<Longrightarrow> k < 1024 \<Longrightarrow>
   pte_at pages0 (entry y k) = (if y = 0x80402000 \<and> k = 0 then 0x80401000 else 0)"
  using rd32_wr32_entry [of "0x80402000" 0 y k "\<lambda>_. 0" "0x80401000"]
  by (auto simp: pages0_def pte_at_def entry_0 PGSIZE_def) (simp_all add: rd32_def)

lemma pages0_ok: "vm_ok 0x80400000 [0x80402000, 0x80401000] pages0"
proof -
  have "table 0x80400000 pages0 d = None" if "d < 1024" for d
    using pages0_entry [of "0x80400000" d] that by (simp add: table_def PGSIZE_def)
  moreover have "rd32 (mem pages0) 0x80402000 = 0x80401000" "rd32 (mem pages0) 0x80401000 = 0"
    using pages0_entry [of "0x80402000" 0] pages0_entry [of "0x80401000" 0]
    by (simp_all add: pte_at_def entry_0 PGSIZE_def)
  ultimately show ?thesis
    by (simp add: vm_ok_def kmem_free_def page_ok_def V2P_def KERNBASE_def PHYSTOP_def PGSIZE_def)
      (simp add: pages0_def kmem0_def)
qed

theorem mappages_maps_witness:
  "\<exists>t. mappages 0x80400000 0x7123 1 0x5000 PTE_W pages0 = Ok (0, t) \<and> pte 0x80400000 t 0x7FFF = 0x5003
     \<and> pte 0x80400000 t 0x8000 = 0"
proof -
  have p0: "pte 0x80400000 pages0 b = 0" for b
    using pages0_entry [of "0x80400000" "unat (PDX b)"] PDX_less [of b]
    by (simp add: pte_table table_def PGSIZE_def)
  from mappages_maps [OF pages0_ok, of "0x7123" 1 "0x5000" PTE_W]
  obtain r t Y where t: "mappages 0x80400000 0x7123 1 0x5000 PTE_W pages0 = Ok (r, t)" "vm_ok 0x80400000 Y t"
    "\<forall>b. \<not> in_range 0x7123 1 b \<longrightarrow> pte 0x80400000 t b = 0"
    "r = 0 \<and> (\<forall>b. in_range 0x7123 1 b \<longrightarrow> pte 0x80400000 t b
        = (0x5000 + (PGROUNDDOWN b - PGROUNDDOWN 0x7123)) OR PTE_W OR PTE_P) \<or> r = - 1 \<and> Y = []"
    by (auto simp: p0)
  obtain p u where w: "walkpgdir 0x80400000 0x7000 True pages0 = (Some p, u)"
    using walk_alloc [OF pages0_ok, of "0x7000"] by auto
  have "mappages 0x80400000 0x7123 1 0x5000 PTE_W pages0 = mappages_loop 0x80400000 0 0x7000 0x5000 PTE_W pages0"
    by (simp add: mappages_def PGROUNDDOWN_def PGSIZE_def)
  then have "r = 0" using t(1) w by (auto simp: mappages_loop.simps split: if_splits)
  moreover have "in_range 0x7123 1 0x7FFF" "\<not> in_range 0x7123 1 0x8000"
    by (simp_all add: in_range_def PGROUNDDOWN_def PGSIZE_def)
  ultimately show ?thesis using t by (auto simp: PGROUNDDOWN_def PGSIZE_def PTE_W_def PTE_P_def)
qed

end
