(* ===== verification/ProcLife.thy ===== *)
theory ProcLife
  imports Proc
begin

text \<open>
  Parents and children: what \<open>exit\<close> leaves behind, and what \<open>wait\<close> finds. \<open>asleep c s\<close> says that some
  process sleeps on channel \<open>c\<close>.
\<close>

definition asleep :: "chan \<Rightarrow> 'a ptable_scheme \<Rightarrow> bool" where
  "asleep c s \<longleftrightarrow> (\<exists>i<NPROC. pstate (procs s i) = SLEEPING \<and> chan (procs s i) = Some c)"

text \<open>\<open>t\<close> follows from \<open>s\<close> by waking processes and changing parents.\<close>

definition only_woken :: "'a ptable_scheme \<Rightarrow> 'a ptable_scheme \<Rightarrow> bool" where
  "only_woken s t \<longleftrightarrow> curproc t = curproc s \<and> initproc t = initproc s
     \<and> (\<forall>i. chan (procs t i) = chan (procs s i) \<and> killed (procs t i) = killed (procs s i) \<and>
          pid (procs t i) = pid (procs s i) \<and> (pstate (procs t i) = pstate (procs s i)
            \<or> pstate (procs s i) = SLEEPING \<and> pstate (procs t i) = RUNNABLE))"

lemma only_woken_refl: "only_woken s s"
  by (simp add: only_woken_def)

lemma only_woken_trans: "only_woken s t \<Longrightarrow> only_woken t u \<Longrightarrow> only_woken s u"
  unfolding only_woken_def by (metis procstate.distinct)

lemma woken_asleep: "only_woken s t \<Longrightarrow> asleep c t \<Longrightarrow> asleep c s"
  unfolding only_woken_def asleep_def by (metis procstate.distinct)

lemma wakeup1_ptr_woken: "only_woken s (wakeup1_ptr c s)"
  by (simp add: only_woken_def wakeup1_ptr_def)

lemma wakeup1_ptr_asleep: "\<not> asleep c (wakeup1_ptr (Some c) s)"
  by (auto simp: asleep_def wakeup1_ptr_def)

lemma wakeup1_ptr_parent [simp]: "parent (procs (wakeup1_ptr c s) i) = parent (procs s i)"
  by (simp add: wakeup1_ptr_def)

lemma adopt_woken: "only_woken s (adopt me i s)"
proof -
  have "only_woken s (upd_proc i (\<lambda>p. p\<lparr>parent := initproc s\<rparr>) s)" by (simp add: only_woken_def upd_proc_def)
  then show ?thesis
    by (auto simp: adopt_def Let_def only_woken_refl intro: only_woken_trans [OF _ wakeup1_ptr_woken])
qed

lemma adopt_parent:
  "parent (procs (adopt me i s) j) = (if j = i \<and> parent (procs s i) = Some me then initproc s else parent (procs s j))"
  by (auto simp: adopt_def Let_def upd_proc_def)

lemma adopt_zombie:
  "parent (procs s i) = Some me \<Longrightarrow> pstate (procs s i) = ZOMBIE \<Longrightarrow> initproc s = Some q \<Longrightarrow>
   \<not> asleep (ChProc q) (adopt me i s)"
  by (simp add: adopt_def upd_proc_def wakeup1_ptr_asleep)

lemma adopts_woken: "only_woken s (fold (adopt me) is s)"
  by (induction "is" arbitrary: s) (auto simp: only_woken_refl intro: only_woken_trans adopt_woken)

lemma adopts_parent:
  "initproc s \<noteq> Some me \<Longrightarrow>
   parent (procs (fold (adopt me) is s) j) =
     (if j \<in> set is \<and> parent (procs s j) = Some me then initproc s else parent (procs s j))"
proof (induction "is" arbitrary: s)
  case (Cons i "is")
  have "initproc (adopt me i s) = initproc s" using adopt_woken by (auto simp: only_woken_def)
  then show ?case using Cons by (auto simp: adopt_parent)
qed simp

lemma adopts_zombie:
  "initproc s = Some q \<Longrightarrow> q \<noteq> me \<Longrightarrow> i \<in> set is \<Longrightarrow> parent (procs s i) = Some me \<Longrightarrow>
   pstate (procs s i) = ZOMBIE \<Longrightarrow> \<not> asleep (ChProc q) (fold (adopt me) is s)"
proof (induction "is" arbitrary: s)
  case (Cons k ks)
  have w: "only_woken s (adopt me k s)" by (rule adopt_woken)
  show ?case
  proof (cases "k = i")
    case True
    then have "\<not> asleep (ChProc q) (adopt me k s)" using adopt_zombie Cons.prems by blast
    then show ?thesis using woken_asleep [OF adopts_woken] by auto
  next
    case False
    have "pstate (procs (adopt me k s) i) = ZOMBIE" "initproc (adopt me k s) = Some q"
      using w Cons.prems unfolding only_woken_def by (metis procstate.distinct)+
    then show ?thesis using Cons.IH [of "adopt me k s"] Cons.prems False by (simp add: adopt_parent)
  qed
qed simp

lemma wait_finds:
  assumes "i < NPROC" "parent (procs s i) = Some (curproc s)" "pstate (procs s i) = ZOMBIE"
  shows "\<exists>j<NPROC. parent (procs s j) = Some (curproc s) \<and> pstate (procs s j) = ZOMBIE \<and> wait s = reap j s"
proof (cases "List.find (\<lambda>i. parent (procs s i) = Some (curproc s) \<and> pstate (procs s i) = ZOMBIE) [0..<NPROC]")
  case None
  then show ?thesis using assms by (auto simp: find_upt_None)
next
  case (Some j)
  then have "wait s = reap j s" by (simp add: wait_def)
  then show ?thesis using Some unfolding find_upt_Some by blast
qed

text \<open>
  C16: No exit is missed. When a process whose parent is \<open>p\<close> exits, it becomes a zombie; its children, and no
  others, get \<open>init\<close> as their parent, and \<open>init\<close> does not sleep on if one of them is a zombie; \<open>p\<close> does
  not sleep on either; no process is disturbed otherwise; and when \<open>p\<close> then calls \<open>wait\<close>, it reaps a
  zombie child at once.
\<close>

theorem exit_wakes_parent:
  assumes "parent (myproc s) = Some p" "p \<noteq> curproc s" "initproc s = Some q" "q \<noteq> curproc s" "curproc s < NPROC"
  defines "t \<equiv> exit_tail s"
  shows "pstate (procs t (curproc s)) = ZOMBIE
     \<and> (\<forall>i. parent (procs t i) = (if i < NPROC \<and> parent (procs s i) = Some (curproc s) then Some q else parent (procs s i)))
     \<and> ((\<exists>i<NPROC. parent (procs s i) = Some (curproc s) \<and> pstate (procs s i) = ZOMBIE) \<longrightarrow> \<not> asleep (ChProc q) t)
     \<and> \<not> asleep (ChProc p) t
     \<and> (\<forall>i. i \<noteq> curproc s \<longrightarrow> pstate (procs t i) = pstate (procs s i)
            \<or> pstate (procs s i) = SLEEPING \<and> pstate (procs t i) = RUNNABLE)
     \<and> (\<exists>j<NPROC. parent (procs t j) = Some p \<and> pstate (procs t j) = ZOMBIE
            \<and> wait (t\<lparr>curproc := p\<rparr>) = reap j (t\<lparr>curproc := p\<rparr>))"
proof -
  define u where "u = wakeup1_ptr (Some (ChProc p)) s"
  define v where "v = fold (adopt (curproc s)) [0..<NPROC] u"
  have u: "only_woken s u" "\<not> asleep (ChProc p) u" "parent (procs u i) = parent (procs s i)" for i
    by (simp_all add: u_def wakeup1_ptr_woken wakeup1_ptr_asleep)
  have uc: "curproc u = curproc s" "initproc u = Some q" using u(1) assms(3) by (simp_all add: only_woken_def)
  have v: "only_woken u v" by (simp add: v_def adopts_woken)
  have t: "t = upd_cur (\<lambda>p. p\<lparr>pstate := ZOMBIE\<rparr>) v"
    using assms(1) uc by (simp add: t_def exit_tail_def Let_def u_def v_def)
  have vc: "curproc v = curproc s" using v uc by (simp add: only_woken_def)
  have tp: "procs t i = (if i = curproc s then (procs v i)\<lparr>pstate := ZOMBIE\<rparr> else procs v i)" for i
    by (simp add: t upd_cur_def upd_proc_def vc)
  have ta: "asleep c t \<Longrightarrow> asleep c v" for c by (auto simp: asleep_def tp split: if_splits)
  have par: "parent (procs t i) = (if i < NPROC \<and> parent (procs s i) = Some (curproc s) then Some q else parent (procs s i))" for i
  proof -
    have "parent (procs t i) = parent (procs v i)" by (simp add: tp)
    then show ?thesis using adopts_parent [of u "curproc s" "[0..<NPROC]" i] uc assms(4) u(3) by (simp add: v_def)
  qed
  have z: "\<not> asleep (ChProc q) t" if "i < NPROC" "parent (procs s i) = Some (curproc s)" "pstate (procs s i) = ZOMBIE" for i
  proof -
    have "pstate (procs u i) = ZOMBIE" using u(1) that(3) unfolding only_woken_def by (metis procstate.distinct)
    then have "\<not> asleep (ChProc q) v"
      unfolding v_def using that u(3) uc assms(4) by (intro adopts_zombie [of u q "curproc s" i]) auto
    then show ?thesis using ta by blast
  qed
  have sp: "\<not> asleep (ChProc p) t" using ta woken_asleep [OF v] u(2) by blast
  have ot: "pstate (procs t i) = pstate (procs s i) \<or> pstate (procs s i) = SLEEPING \<and> pstate (procs t i) = RUNNABLE"
    if "i \<noteq> curproc s" for i
    using only_woken_trans [OF u(1) v] that by (auto simp: only_woken_def tp)
  have me: "pstate (procs t (curproc s)) = ZOMBIE" by (simp add: tp)
  moreover have "parent (procs t (curproc s)) = Some p"
    using par [of "curproc s"] assms(1,2) by (simp add: myproc_def)
  ultimately have w: "\<exists>j<NPROC. parent (procs t j) = Some p \<and> pstate (procs t j) = ZOMBIE
      \<and> wait (t\<lparr>curproc := p\<rparr>) = reap j (t\<lparr>curproc := p\<rparr>)"
    using wait_finds [of "curproc s" "t\<lparr>curproc := p\<rparr>"] assms(5) by simp
  show ?thesis using me par z sp ot w by blast
qed

lemma exit_tail_chan: "chan (procs (exit_tail s) i) = chan (procs s i)"
proof -
  have w: "only_woken s (fold (adopt me) [0..<NPROC] (wakeup1_ptr c s))" for me c
    by (rule only_woken_trans [OF wakeup1_ptr_woken adopts_woken])
  show ?thesis unfolding exit_tail_def Let_def upd_cur_def upd_proc_def
    using w unfolding only_woken_def by simp
qed

text \<open>Process 3 is a child of process 2, which sleeps in \<open>wait\<close>; process 1 is \<open>init\<close>.\<close>

definition family :: kernel where
  "family = kernel0\<lparr>curproc := 3, initproc := Some 1, procs := (\<lambda>i. zero_proc)
     (1 := zero_proc\<lparr>pstate := SLEEPING, pid := 1, chan := Some (ChProc 1)\<rparr>,
      2 := zero_proc\<lparr>pstate := SLEEPING, pid := 4, parent := Some 1, chan := Some (ChProc 2)\<rparr>,
      3 := zero_proc\<lparr>pstate := RUNNING, pid := 5, parent := Some 2\<rparr>)\<rparr>"

lemma family_simps: "curproc family = 3" "initproc family = Some 1" "parent (myproc family) = Some 2"
  "pstate (procs family 2) = SLEEPING" "chan (procs family 2) = Some (ChProc 2)"
  by (simp_all add: family_def myproc_def)

theorem exit_wakes_parent_witness:
  "pstate (procs (exit_tail family) 2) = RUNNABLE \<and> pstate (procs (exit_tail family) 3) = ZOMBIE"
proof -
  have e: "pstate (procs (exit_tail family) 3) = ZOMBIE" "\<not> asleep (ChProc 2) (exit_tail family)"
    "\<forall>i. i \<noteq> 3 \<longrightarrow> pstate (procs (exit_tail family) i) = pstate (procs family i)
       \<or> pstate (procs family i) = SLEEPING \<and> pstate (procs (exit_tail family) i) = RUNNABLE"
    using exit_wakes_parent [of family 2 1] by (simp_all add: family_simps NPROC_def)
  from e(3) have f: "pstate (procs (exit_tail family) 2) = SLEEPING \<or> pstate (procs (exit_tail family) 2) = RUNNABLE"
    using family_simps(4) by (metis numeral_eq_iff semiring_norm(88))
  have "chan (procs (exit_tail family) 2) = Some (ChProc 2)" by (simp add: exit_tail_chan family_simps)
  then show ?thesis using e(1,2) f by (auto simp: asleep_def NPROC_def)
qed

text \<open>
  What \<open>wait\<close> does. With a zombie child, it reaps the first one in the table: the result is the child's
  identifier, and the entry is free again with no identifier, parent or kill mark. Without one it fails
  if the process has no child or was killed, and otherwise sleeps until a child exits.
\<close>

theorem wait_reaps:
  shows "(\<forall>i n t. i < NPROC \<and> parent (procs s i) = Some (curproc s) \<and> pstate (procs s i) = ZOMBIE
       \<and> (\<forall>j<i. \<not> (parent (procs s j) = Some (curproc s) \<and> pstate (procs s j) = ZOMBIE))
       \<and> wait s = Ok (n, t) \<longrightarrow>
       n = pid (procs s i) \<and> pstate (procs t i) = UNUSED \<and> pid (procs t i) = 0 \<and> parent (procs t i) = None
       \<and> \<not> killed (procs t i))
   \<and> ((\<forall>i<NPROC. \<not> (parent (procs s i) = Some (curproc s) \<and> pstate (procs s i) = ZOMBIE)) \<longrightarrow>
       wait s = (if (\<forall>i<NPROC. parent (procs s i) \<noteq> Some (curproc s)) \<or> killed (myproc s) then Ok (- 1, s)
                 else Blocked (ChProc (curproc s))))"
proof (intro conjI allI impI)
  fix i n t
  assume a: "i < NPROC \<and> parent (procs s i) = Some (curproc s) \<and> pstate (procs s i) = ZOMBIE
       \<and> (\<forall>j<i. \<not> (parent (procs s j) = Some (curproc s) \<and> pstate (procs s j) = ZOMBIE)) \<and> wait s = Ok (n, t)"
  then have "List.find (\<lambda>i. parent (procs s i) = Some (curproc s) \<and> pstate (procs s i) = ZOMBIE) [0..<NPROC] = Some i"
    unfolding find_upt_Some by blast
  then have "reap i s = Ok (n, t)" using a by (simp add: wait_def)
  then obtain u where "n = pid (procs s i)" "t = upd_proc i (\<lambda>p. p\<lparr>pid := 0, parent := None, pname := [], killed := False,
               pstate := UNUSED\<rparr>) u"
    unfolding reap_def Let_def by (elim bindr_OkE) auto
  then show "n = pid (procs s i)" "pstate (procs t i) = UNUSED" "pid (procs t i) = 0" "parent (procs t i) = None"
    "\<not> killed (procs t i)" by (simp_all add: upd_proc_def)
next
  assume "\<forall>i<NPROC. \<not> (parent (procs s i) = Some (curproc s) \<and> pstate (procs s i) = ZOMBIE)"
  then have f: "List.find (\<lambda>i. parent (procs s i) = Some (curproc s) \<and> pstate (procs s i) = ZOMBIE) [0..<NPROC] = None"
    unfolding find_upt_None .
  show "wait s = (if (\<forall>i<NPROC. parent (procs s i) \<noteq> Some (curproc s)) \<or> killed (myproc s) then Ok (- 1, s)
                 else Blocked (ChProc (curproc s)))"
    unfolding wait_def Let_def f find_upt_None by simp
qed

theorem wait_reaps_witness:
  "wait (family\<lparr>curproc := 2\<rparr>) = Blocked (ChProc 2) \<and> wait family = Ok (- 1, family)"
proof -
  have z: "pstate (procs family i) \<noteq> ZOMBIE" "\<not> killed (procs family i)" for i
    by (simp_all add: family_def zero_proc_def)
  have c: "parent (procs family 3) = Some 2" "parent (procs family i) \<noteq> Some 3" for i
    by (simp_all add: family_def zero_proc_def)
  have "\<not> (\<forall>i<NPROC. parent (procs family i) \<noteq> Some 2)" using c(1) by (intro notI) (simp add: NPROC_def)
  then show ?thesis
    using wait_reaps [THEN conjunct2, THEN mp, of "family\<lparr>curproc := 2\<rparr>"]
      wait_reaps [THEN conjunct2, THEN mp, of family] z c(2)
    by (simp add: family_simps myproc_def)
qed

section \<open>Allocating an entry\<close>

text \<open>
  The identifiers in use are positive, below the next one, and all different; the next one is an \<open>int\<close>.
\<close>

definition pids_ok :: "'a ptable_scheme \<Rightarrow> bool" where
  "pids_ok s \<longleftrightarrow> 0 < nextpid s \<and> nextpid s < 2 ^ 31
     \<and> (\<forall>i<NPROC. pstate (procs s i) \<noteq> UNUSED \<longrightarrow> 0 < pid (procs s i) \<and> pid (procs s i) < nextpid s)
     \<and> (\<forall>i<NPROC. \<forall>j<NPROC. pstate (procs s i) \<noteq> UNUSED \<longrightarrow> pstate (procs s j) \<noteq> UNUSED \<longrightarrow>
          pid (procs s i) = pid (procs s j) \<longrightarrow> i = j)"

lemma int32_id: "- (2 ^ 31) \<le> n \<Longrightarrow> n < 2 ^ 31 \<Longrightarrow> int32 n = n"
  by (simp add: int32_def signed_take_bit_int_eq_self signed_of_int)

text \<open>Behind the largest \<open>int\<close> the counter goes on with the smallest one, so identifiers become negative.\<close>

lemma int32_wraps: "int32 (2 ^ 31) = - (2 ^ 31)"
  by (simp add: int32_def)

lemma kalloc_procs: "kalloc s = (r, t) \<Longrightarrow> procs t = procs s \<and> nextpid t = nextpid s"
  by (auto simp: kalloc_def Let_def split: if_splits)

lemma init_stack_procs: "init_stack stk s = (c, t) \<Longrightarrow> procs t = procs s \<and> nextpid t = nextpid s"
  by (auto simp: init_stack_def Let_def)

text \<open>
  C33: Process identifiers stay unique as long as the 32-bit counter does not wrap. \<open>allocproc\<close> takes the first unused
  entry of the table and gives it an identifier that no process has had since the start, and the page at the head of the
  free list for its kernel stack; it leaves all other entries as they were. It fails exactly when the table is full or
  no page is free, and then no entry has come into use. Without a hypothesis on the counter all this but the
  uniqueness holds: the identifier is the counter, which goes on modulo \<open>2 ^ 32\<close> as a signed number.
\<close>

theorem allocproc_fresh:
  assumes "allocproc s = (r, t)"
  shows "(pids_ok s \<and> nextpid s < 2 ^ 31 - 1 \<longrightarrow> pids_ok t)
     \<and> (r = None \<longleftrightarrow> (\<forall>i<NPROC. pstate (procs s i) \<noteq> UNUSED) \<or> freelist s = 0)
     \<and> (case r of
          Some i \<Rightarrow> i < NPROC \<and> pstate (procs s i) = UNUSED \<and> (\<forall>j<i. pstate (procs s j) \<noteq> UNUSED)
            \<and> pstate (procs t i) = EMBRYO \<and> pid (procs t i) = nextpid s \<and> nextpid t = int32 (nextpid s + 1)
            \<and> kstack (procs t i) = freelist s \<and> head_page_in_mem (procs t i) = None
            \<and> (\<forall>j. j \<noteq> i \<longrightarrow> procs t j = procs s j)
        | None \<Rightarrow> \<forall>j. pstate (procs t j) = pstate (procs s j))"
proof (cases "List.find (\<lambda>i. pstate (procs s i) = UNUSED) [0..<NPROC]")
  case None
  then have "r = None" "t = s" using assms by (simp_all add: allocproc_def)
  moreover have "\<forall>i<NPROC. pstate (procs s i) \<noteq> UNUSED" using None unfolding find_upt_None by simp
  ultimately show ?thesis by (simp add: pids_ok_def)
next
  case (Some i)
  then have i: "i < NPROC" "pstate (procs s i) = UNUSED" "\<forall>j<i. pstate (procs s j) \<noteq> UNUSED"
    unfolding find_upt_Some by simp_all
  define u where "u = upd_proc i (\<lambda>p. p\<lparr>pstate := EMBRYO, pid := nextpid s, va := 0\<rparr>) (s\<lparr>nextpid := int32 (nextpid s + 1)\<rparr>)"
  have u: "nextpid u = int32 (nextpid s + 1)" "procs u = (procs s)(i := (procs s i)\<lparr>pstate := EMBRYO, pid := nextpid s, va := 0\<rparr>)"
    "freelist u = freelist s" by (simp_all add: u_def upd_proc_def)
  have nx: "int32 (nextpid s + 1) = nextpid s + 1" if "pids_ok s" "nextpid s < 2 ^ 31 - 1"
    using that by (intro int32_id) (simp_all add: pids_ok_def)
  obtain stk v where v: "kalloc u = (stk, v)" by (cases "kalloc u")
  have stk: "stk = freelist s" using v u(3) by (auto simp: kalloc_def Let_def split: if_splits)
  note p = kalloc_procs [OF v]
  show ?thesis
  proof (cases "stk = 0")
    case True
    then have "r = None" "t = upd_proc i (\<lambda>p. p\<lparr>kstack := 0, pstate := UNUSED\<rparr>) v"
      using assms Some v by (simp_all add: allocproc_def u_def [symmetric])
    then show ?thesis using i(2) p u nx stk True by (auto simp: upd_proc_def pids_ok_def)
  next
    case False
    obtain c w where w: "init_stack stk v = (c, w)" by (cases "init_stack stk v")
    have r: "r = Some i" "t = upd_proc i (\<lambda>p. resetProcessPagesData (p\<lparr>kstack := stk, kcontext := c\<rparr>)) w"
      using assms Some v w False by (simp_all add: allocproc_def u_def [symmetric])
    have t: "procs t = (procs s)(i := resetProcessPagesData ((procs s i)\<lparr>pstate := EMBRYO, pid := nextpid s, va := 0,
        kstack := stk, kcontext := c\<rparr>))" "nextpid t = int32 (nextpid s + 1)"
      using r(2) p u init_stack_procs [OF w] by (simp_all add: upd_proc_def)
    have "pids_ok t" if "pids_ok s" "nextpid s < 2 ^ 31 - 1"
      using that i t nx [OF that] by (auto simp: pids_ok_def resetProcessPagesData_def)
    then show ?thesis using i r(1) t stk False by (auto simp: resetProcessPagesData_def)
  qed
qed

theorem allocproc_fresh_witness:
  "\<exists>t. allocproc (family\<lparr>nextpid := 6, freelist := 0x80400000\<rparr>) = (Some 0, t) \<and> pids_ok t \<and> pid (procs t 0) = 6"
proof -
  let ?s = "family\<lparr>nextpid := 6, freelist := 0x80400000\<rparr>"
  have ok: "pids_ok ?s" by (simp add: pids_ok_def family_def zero_proc_def)
  obtain r t where t: "allocproc ?s = (r, t)" by (cases "allocproc ?s")
  have "List.find (\<lambda>i. pstate (procs family i) = UNUSED) [0..<NPROC] = Some 0"
    unfolding find_upt_Some by (simp add: family_def zero_proc_def NPROC_def)
  then have "r = Some 0" using t by (simp add: allocproc_def kalloc_def upd_proc_def split: prod.splits)
  then show ?thesis using allocproc_fresh [OF t] t ok by simp
qed

end
