(* ===== verification/Sh.thy ===== *)
theory Sh
  imports Sysfile
begin

text \<open>
  The shell, \<open>sh.c\<close>: its parser and \<open>runcmd\<close>. The text still to be parsed is the list of its characters up to the end of
  the command (the pointers \<open>ps\<close> and \<open>es\<close>); a counted string of the command is the list of its characters,
  so that \<open>nulterminate\<close>, which stores the NUL behind each of them, has nothing to do. \<open>panic\<close> of the shell
  prints and exits, the result \<open>Panic\<close>. \<open>malloc\<close> is taken not to fail, as in the code.
  Of a process \<open>runcmd\<close> keeps its table of descriptors. Lemmas: parsing ends on every input; it reads back
  every command that is written out; and every program starts with the descriptors it should have.
\<close>

definition MAXARGS :: nat where "MAXARGS = 10"

text \<open>A redirection is the file, the mode for \<open>open\<close> and the descriptor.\<close>

datatype cmd =
    EXEC "u8 list list"
  | REDIR cmd "u8 list" u32 nat
  | PIPE cmd cmd
  | LIST cmd cmd
  | BACK cmd

section \<open>Tokens\<close>

definition whitespace :: "u8 list" where "whitespace = [32, 9, 13, 10, 11]"
definition symbols :: "u8 list" where "symbols = [60, 124, 62, 38, 59, 40, 41]"

definition skip :: "u8 list \<Rightarrow> u8 list" where
  "skip s = dropWhile (\<lambda>c. c \<in> set whitespace) s"

definition ordinary :: "u8 \<Rightarrow> bool" where
  "ordinary c \<longleftrightarrow> c \<notin> set whitespace \<and> c \<notin> set symbols"

text \<open>The kind of the token (\<open>'a' = 97\<close> for a word, \<open>'+' = 43\<close> for \<open>>>\<close>), its characters, and the rest.\<close>

definition gettoken :: "u8 list \<Rightarrow> u8 \<times> u8 list \<times> u8 list" where
  "gettoken s =
     (case skip s of
        [] \<Rightarrow> (0, [], [])
      | c # cs \<Rightarrow>
          if c \<in> {124, 40, 41, 59, 38, 60} then (c, [c], skip cs)
          else if c = 62
          then (if cs \<noteq> [] \<and> hd cs = 62 then (43, [62, 62], skip (tl cs)) else (62, [62], skip cs))
          else (97, takeWhile ordinary (c # cs), skip (dropWhile ordinary (c # cs))))"

definition peek :: "u8 list \<Rightarrow> u8 list \<Rightarrow> bool" where
  "peek s toks \<longleftrightarrow> skip s \<noteq> [] \<and> hd (skip s) \<in> set toks"

lemma length_skip: "length (skip s) \<le> length s"
  by (simp add: skip_def length_dropWhile_le)

lemma skip_skip [simp]: "skip (skip s) = skip s"
  unfolding skip_def by (induction s) auto

lemma gettoken_shorter:
  assumes "gettoken s = (t, q, r)"
  shows "length r \<le> length s" "t \<noteq> 0 \<Longrightarrow> length r < length s"
proof -
  have "length r < length s" if "skip s = c # cs" for c cs
  proof -
    have l: "length (c # cs) \<le> length s" using length_skip [of s] that by simp
    have d: "length (dropWhile ordinary (c # cs)) < length (c # cs)"
      if "c \<notin> {124, 40, 41, 59, 38, 60}" "c \<noteq> 62"
    proof -
      have "hd (skip s) \<notin> set whitespace"
        using \<open>skip s = c # cs\<close> hd_dropWhile [of "\<lambda>c. c \<in> set whitespace" s] by (auto simp: skip_def)
      then have "ordinary c" using that \<open>skip s = c # cs\<close> by (auto simp: ordinary_def symbols_def)
      then show ?thesis using length_dropWhile_le [of ordinary cs] by simp
    qed
    show ?thesis
      using assms l d length_skip [of cs] length_skip [of "tl cs"] length_skip [of "dropWhile ordinary (c # cs)"] that
      by (auto simp: gettoken_def split: if_splits)
  qed
  then show "length r \<le> length s" "t \<noteq> 0 \<Longrightarrow> length r < length s"
    using assms by (auto simp: gettoken_def less_imp_le split: list.splits)
qed

lemma peek_shorter: "peek s toks \<Longrightarrow> gettoken s = (t, q, r) \<Longrightarrow> length r < length s"
proof -
  assume a: "peek s toks" "gettoken s = (t, q, r)"
  then have "t \<noteq> 0" by (auto simp: peek_def gettoken_def split: list.splits if_splits)
  then show ?thesis using gettoken_shorter(2) a(2) by blast
qed

lemma two_tokens: "gettoken s = (t, q, s1) \<Longrightarrow> gettoken s1 = (97, q', s2) \<Longrightarrow> length s2 < length s"
  using gettoken_shorter [of s t q s1] gettoken_shorter [of s1 97 q' s2] by simp

section \<open>The parser\<close>

type_synonym redir = "u8 list \<times> u32 \<times> nat"

definition redircmd :: "redir \<Rightarrow> cmd \<Rightarrow> cmd" where
  "redircmd r c = (case r of (file, mode, fd) \<Rightarrow> REDIR c file mode fd)"

function parseredirs :: "redir list \<Rightarrow> u8 list \<Rightarrow> (redir list \<times> u8 list) res" where
  "parseredirs rs s =
     (if \<not> peek s [60, 62] then Ok (rs, skip s)
      else
        case gettoken s of (t, _, s1) \<Rightarrow>
        case gettoken s1 of (t1, q, s2) \<Rightarrow>
          if t1 \<noteq> 97 then Panic ''missing file for redirection''
          else if t = 60 then parseredirs (rs @ [(q, O_RDONLY, 0)]) s2
          else parseredirs (rs @ [(q, O_WRONLY OR O_CREATE, 1)]) s2)"
  by pat_completeness auto
termination
  by (relation "measure (\<lambda>(rs, s). length s)") (auto dest: two_tokens [OF sym sym])

declare parseredirs.simps [simp del]

fun wrap :: "cmd \<Rightarrow> redir list \<Rightarrow> cmd" where
  "wrap c [] = c"
| "wrap c (r # rs) = wrap (redircmd r c) rs"

lemma parseredirs_shorter: "parseredirs rs s = Ok (rs', t) \<Longrightarrow> length t \<le> length s"
proof (induction rs s rule: parseredirs.induct)
  case (1 rs s)
  obtain k q0 s1 where k: "gettoken s = (k, q0, s1)" by (cases "gettoken s")
  obtain k1 q s2 where k1: "gettoken s1 = (k1, q, s2)" by (cases "gettoken s1")
  show ?case
  proof (cases "peek s [60, 62]")
    case False
    then show ?thesis using "1.prems" length_skip [of s] by (auto simp: parseredirs.simps)
  next
    case True
    then have "k1 = 97" using "1.prems" k k1 by (simp add: parseredirs.simps [of rs s] split: if_splits)
    then have "length t \<le> length s2 \<and> length s2 < length s"
      using 1 True k k1 two_tokens [OF k] by (auto simp: parseredirs.simps [of rs s] split: if_splits)
    then show ?thesis by simp
  qed
qed

text \<open>The loop of \<open>parseexec\<close> over the words; \<open>ret\<close> grows by the redirections between them.\<close>

function parseargs :: "u8 list list \<Rightarrow> redir list \<Rightarrow> u8 list \<Rightarrow> (u8 list list \<times> redir list \<times> u8 list) res" where
  "parseargs args rs s =
     (if peek s [124, 41, 38, 59] then Ok (args, rs, skip s)
      else
        case gettoken s of (t, q, s1) \<Rightarrow>
          if t = 0 then Ok (args, rs, s1)
          else if t \<noteq> 97 then Panic ''syntax''
          else if length args + 1 \<ge> MAXARGS then Panic ''too many args''
          else bindr (parseredirs rs s1) (\<lambda>(rs, s). parseargs (args @ [q]) rs s))"
  by pat_completeness auto
termination
  by (relation "measure (\<lambda>(args, rs, s). length s)")
    (auto dest!: parseredirs_shorter gettoken_shorter(2) [OF sym])

declare parseargs.simps [simp del]

definition parseblock :: "(u8 list \<Rightarrow> (cmd \<times> u8 list) res) \<Rightarrow> u8 list \<Rightarrow> (cmd \<times> u8 list) res" where
  "parseblock line s =
     (if \<not> peek s [40] then Panic ''parseblock''
      else
        case gettoken s of (_, _, s) \<Rightarrow>
          bindr (line s) (\<lambda>(c, s).
          if \<not> peek s [41] then Panic ''syntax - missing )''
          else
            case gettoken s of (_, _, s) \<Rightarrow>
              bindr (parseredirs [] s) (\<lambda>(rs, s). Ok (wrap c rs, s))))"

definition parseexec :: "(u8 list \<Rightarrow> (cmd \<times> u8 list) res) \<Rightarrow> u8 list \<Rightarrow> (cmd \<times> u8 list) res" where
  "parseexec line s =
     (if peek s [40] then parseblock line s
      else
        bindr (parseredirs [] s) (\<lambda>(rs, s).
        bindr (parseargs [] rs s) (\<lambda>(args, rs, s). Ok (wrap (EXEC args) rs, s))))"

text \<open>The fuel of \<open>parsepipe\<close> and \<open>parseline\<close> bounds the nesting, which the length of the text bounds.\<close>

primrec parsepipe :: "nat \<Rightarrow> (u8 list \<Rightarrow> (cmd \<times> u8 list) res) \<Rightarrow> u8 list \<Rightarrow> (cmd \<times> u8 list) res" where
  "parsepipe 0 line s = Hang"
| "parsepipe (Suc n) line s =
     bindr (parseexec line s) (\<lambda>(c, s).
     if peek s [124]
     then (case gettoken s of (_, _, s) \<Rightarrow>
             bindr (parsepipe n line s) (\<lambda>(d, s). Ok (PIPE c d, s)))
     else Ok (c, skip s))"

function parseback :: "cmd \<Rightarrow> u8 list \<Rightarrow> cmd \<times> u8 list" where
  "parseback c s =
     (if peek s [38] then (case gettoken s of (_, _, s) \<Rightarrow> parseback (BACK c) s) else (c, skip s))"
  by pat_completeness auto
termination
  by (relation "measure (\<lambda>(c, s). length s)") (auto dest: peek_shorter [OF _ sym])

declare parseback.simps [simp del]

primrec parseline :: "nat \<Rightarrow> u8 list \<Rightarrow> (cmd \<times> u8 list) res" where
  "parseline 0 = (\<lambda>s. Hang)"
| "parseline (Suc n) = (\<lambda>s.
     bindr (parsepipe (Suc (length s)) (parseline n) s) (\<lambda>(c, s).
     case parseback c s of (c, s) \<Rightarrow>
       if peek s [59]
       then (case gettoken s of (_, _, s) \<Rightarrow>
               bindr (parseline n s) (\<lambda>(d, s). Ok (LIST c d, s)))
       else Ok (c, skip s)))"

definition parsecmd :: "u8 list \<Rightarrow> cmd res" where
  "parsecmd buf =
     (let s = takeWhile (\<lambda>c. c \<noteq> 0) buf in
      bindr (parseline (Suc (length s)) s) (\<lambda>(c, s).
      if skip s \<noteq> [] then Panic ''syntax'' else Ok c))"

section \<open>Parsing ends, and its result is sound\<close>

text \<open>A word, and a command whose argument vectors have room for the final null pointer.\<close>

definition word_ok :: "u8 list \<Rightarrow> bool" where
  "word_ok w \<longleftrightarrow> w \<noteq> [] \<and> (\<forall>c\<in>set w. ordinary c \<and> c \<noteq> 0)"

fun cmd_ok :: "cmd \<Rightarrow> bool" where
  "cmd_ok (EXEC args) = (length args < MAXARGS \<and> (\<forall>w\<in>set args. word_ok w))"
| "cmd_ok (REDIR c file mode fd) =
     (cmd_ok c \<and> word_ok file \<and> (mode = O_RDONLY \<and> fd = 0 \<or> mode = O_WRONLY OR O_CREATE \<and> fd = 1))"
| "cmd_ok (PIPE c d) = (cmd_ok c \<and> cmd_ok d)"
| "cmd_ok (LIST c d) = (cmd_ok c \<and> cmd_ok d)"
| "cmd_ok (BACK c) = cmd_ok c"

definition redir_ok :: "redir \<Rightarrow> bool" where
  "redir_ok r \<longleftrightarrow> (case r of (file, mode, fd) \<Rightarrow> word_ok file
     \<and> (mode = O_RDONLY \<and> fd = 0 \<or> mode = O_WRONLY OR O_CREATE \<and> fd = 1))"

lemma wrap_ok: "cmd_ok c \<Longrightarrow> \<forall>r\<in>set rs. redir_ok r \<Longrightarrow> cmd_ok (wrap c rs)"
  by (induction rs arbitrary: c) (auto simp: redir_ok_def redircmd_def split: prod.splits)

text \<open>
  \<open>sound P s r\<close>: the result \<open>r\<close> of parsing \<open>s\<close> is a panic, or satisfies \<open>P\<close> with a rest that is no longer
  and has no NUL.
\<close>

definition sound :: "('a \<Rightarrow> bool) \<Rightarrow> u8 list \<Rightarrow> ('a \<times> u8 list) res \<Rightarrow> bool" where
  "sound P s r \<longleftrightarrow> (\<exists>m. r = Panic m) \<or> (\<exists>x t. r = Ok (x, t) \<and> P x \<and> length t \<le> length s \<and> set t \<subseteq> set s)"

lemma sound_Ok: "P x \<Longrightarrow> length t \<le> length s \<Longrightarrow> set t \<subseteq> set s \<Longrightarrow> sound P s (Ok (x, t))"
  by (simp add: sound_def)

lemma sound_Panic: "sound P s (Panic m)"
  by (simp add: sound_def)

lemma sound_bind:
  assumes "sound P s r" "length s \<le> length s0" "set s \<subseteq> set s0"
    and "\<And>x t. r = Ok (x, t) \<Longrightarrow> P x \<Longrightarrow> length t \<le> length s \<Longrightarrow> set t \<subseteq> set s \<Longrightarrow> sound Q s0 (f (x, t))"
  shows "sound Q s0 (bindr r f)"
  using assms by (auto simp: sound_def [of P] sound_Panic)

lemma sound_weaken: "sound P s r \<Longrightarrow> length s \<le> length s0 \<Longrightarrow> set s \<subseteq> set s0 \<Longrightarrow> sound P s0 r"
  by (force simp: sound_def)

lemma set_skip: "set (skip s) \<subseteq> set s"
  by (auto simp: skip_def dest: set_dropWhileD)

lemma gettoken_sound:
  assumes "gettoken s = (t, q, r)"
  shows "set r \<subseteq> set s" "t = 97 \<Longrightarrow> 0 \<notin> set s \<Longrightarrow> word_ok q"
proof -
  have c: "set r \<subseteq> set s \<and> (t = 97 \<longrightarrow> 0 \<notin> set s \<longrightarrow> word_ok q)" if "skip s = c # cs" for c cs
  proof -
    have sub: "set (c # cs) \<subseteq> set s" using set_skip [of s] that by simp
    have "hd (skip s) \<notin> set whitespace"
      using that hd_dropWhile [of "\<lambda>c. c \<in> set whitespace" s] by (auto simp: skip_def)
    then have "word_ok (takeWhile ordinary (c # cs))" if "0 \<notin> set s" "c \<notin> {124, 40, 41, 59, 38, 60}" "c \<noteq> 62"
    proof -
      have "ordinary c" using that \<open>skip s = c # cs\<close> \<open>hd (skip s) \<notin> set whitespace\<close>
        by (auto simp: ordinary_def symbols_def)
      moreover have "x \<noteq> 0" if "x \<in> set (takeWhile ordinary (c # cs))" for x
        using set_takeWhileD [OF that] sub \<open>0 \<notin> set s\<close> by auto
      ultimately show ?thesis unfolding word_ok_def by (auto dest: set_takeWhileD)
    qed
    moreover have "set (skip (dropWhile ordinary (c # cs))) \<subseteq> set s" "set (skip cs) \<subseteq> set s" "set (skip (tl cs)) \<subseteq> set s"
    proof -
      have "set cs \<subseteq> set s" using sub by simp
      moreover have "set (tl cs) \<subseteq> set cs" by (cases cs) auto
      moreover have "set (dropWhile ordinary (c # cs)) \<subseteq> set (c # cs)" by (meson set_dropWhileD subsetI)
      ultimately show "set (skip (dropWhile ordinary (c # cs))) \<subseteq> set s" "set (skip cs) \<subseteq> set s"
        "set (skip (tl cs)) \<subseteq> set s"
        using set_skip sub by (meson subset_trans)+
    qed
    ultimately show ?thesis using assms that by (auto simp: gettoken_def split: if_splits)
  qed
  then show "set r \<subseteq> set s" "t = 97 \<Longrightarrow> 0 \<notin> set s \<Longrightarrow> word_ok q"
    using assms by (auto simp: gettoken_def split: list.splits)
qed

lemma parseredirs_sound:
  "0 \<notin> set s \<Longrightarrow> \<forall>r\<in>set rs. redir_ok r \<Longrightarrow> sound (\<lambda>rs. \<forall>r\<in>set rs. redir_ok r) s (parseredirs rs s)"
proof (induction rs s rule: parseredirs.induct)
  case (1 rs s)
  obtain k q0 s1 where k: "gettoken s = (k, q0, s1)" by (cases "gettoken s")
  obtain k1 q s2 where k1: "gettoken s1 = (k1, q, s2)" by (cases "gettoken s1")
  note g = gettoken_sound [OF k] gettoken_sound [OF k1]
  show ?case
  proof (cases "peek s [60, 62] \<and> k1 = 97")
    case False
    then show ?thesis using "1.prems" length_skip [of s] set_skip [of s] k k1
      by (auto simp: parseredirs.simps [of rs s] intro: sound_Ok sound_Panic)
  next
    case True
    then have k97: "gettoken s1 = (97, q, s2)" using k1 by simp
    have z: "0 \<notin> set s2" "length s2 \<le> length s" "set s2 \<subseteq> set s" "word_ok q"
      using g True "1.prems"(1) two_tokens [OF k k97] by auto
    have "sound (\<lambda>rs. \<forall>r\<in>set rs. redir_ok r) s2 (parseredirs (rs @ [r]) s2)"
      if "r = (if k = 60 then (q, O_RDONLY, 0) else (q, O_WRONLY OR O_CREATE, 1))" for r
      using "1.IH" k k97 True z "1.prems"(2) that by (auto simp: redir_ok_def)
    then show ?thesis
      using True k k97 z by (auto simp: parseredirs.simps [of rs s] intro: sound_weaken)
  qed
qed

lemma parseargs_sound:
  "0 \<notin> set s \<Longrightarrow> \<forall>r\<in>set rs. redir_ok r \<Longrightarrow> \<forall>w\<in>set args. word_ok w \<Longrightarrow> length args < MAXARGS \<Longrightarrow>
   case parseargs args rs s of
     Ok (args', rs', t) \<Rightarrow> (\<forall>w\<in>set args'. word_ok w) \<and> length args' < MAXARGS \<and> (\<forall>r\<in>set rs'. redir_ok r)
       \<and> length t \<le> length s \<and> set t \<subseteq> set s
   | Panic m \<Rightarrow> True | _ \<Rightarrow> False"
proof (induction args rs s rule: parseargs.induct)
  case (1 args rs s)
  obtain k q s1 where k: "gettoken s = (k, q, s1)" by (cases "gettoken s")
  note g = gettoken_sound [OF k] gettoken_shorter(1) [OF k]
  show ?case
  proof (cases "\<not> peek s [124, 41, 38, 59] \<and> k = 97 \<and> \<not> length args + 1 \<ge> MAXARGS")
    case False
    then show ?thesis using "1.prems" length_skip [of s] set_skip [of s] k g
      by (auto simp: parseargs.simps [of args rs s])
  next
    case True
    have z: "0 \<notin> set s1" "word_ok q" using g True "1.prems"(1) by auto
    from parseredirs_sound [OF z(1) "1.prems"(2)] show ?thesis
    proof (unfold sound_def, elim disjE exE conjE)
      fix m
      assume "parseredirs rs s1 = Panic m"
      then show ?thesis using True k by (simp add: parseargs.simps [of args rs s])
    next
      fix rs' t
      assume t: "parseredirs rs s1 = Ok (rs', t)" "\<forall>r\<in>set rs'. redir_ok r" "length t \<le> length s1" "set t \<subseteq> set s1"
      have "0 \<notin> set t" using t(4) z(1) by auto
      then have "case parseargs (args @ [q]) rs' t of
          Ok (args', rs', u) \<Rightarrow> (\<forall>w\<in>set args'. word_ok w) \<and> length args' < MAXARGS \<and> (\<forall>r\<in>set rs'. redir_ok r)
            \<and> length u \<le> length t \<and> set u \<subseteq> set t
        | Panic m \<Rightarrow> True | _ \<Rightarrow> False"
        using "1.IH" [OF _ k [symmetric] refl] k True t(1,2) z "1.prems"(3,4) by auto
      then show ?thesis using True k t(1,3,4) g
        by (auto simp: parseargs.simps [of args rs s] split: res.splits)
    qed
  qed
qed

lemma parseexec_sound:
  assumes line: "\<And>t. length t < length s \<Longrightarrow> 0 \<notin> set t \<Longrightarrow> sound cmd_ok t (line t)" and z: "0 \<notin> set s"
  shows "sound cmd_ok s (parseexec line s)"
proof (cases "peek s [40]")
  case True
  obtain k q s1 where k: "gettoken s = (k, q, s1)" by (cases "gettoken s")
  have s1: "length s1 < length s" "set s1 \<subseteq> set s" "0 \<notin> set s1"
    using peek_shorter [OF True k] gettoken_sound(1) [OF k] z by auto
  have "sound cmd_ok s (bindr (line s1) (\<lambda>(c, s).
          if \<not> peek s [41] then Panic ''syntax - missing )''
          else case gettoken s of (_, _, s) \<Rightarrow> bindr (parseredirs [] s) (\<lambda>(rs, s). Ok (wrap c rs, s))))"
  proof (rule sound_bind [OF line [OF s1(1,3)]])
    fix c t
    assume t: "cmd_ok c" "length t \<le> length s1" "set t \<subseteq> set s1"
    obtain k2 q2 s2 where k2: "gettoken t = (k2, q2, s2)" by (cases "gettoken t")
    have s2: "length s2 \<le> length s" "set s2 \<subseteq> set s" "0 \<notin> set s2"
      using gettoken_shorter(1) [OF k2] gettoken_sound(1) [OF k2] t s1 by auto
    have "sound cmd_ok s (bindr (parseredirs [] s2) (\<lambda>(rs, s). Ok (wrap c rs, s)))"
    proof (rule sound_bind [OF parseredirs_sound [OF s2(3)] s2(1,2)])
      fix rs u
      assume "\<forall>r\<in>set rs. redir_ok r" "length u \<le> length s2" "set u \<subseteq> set s2"
      then show "sound cmd_ok s (case (rs, u) of (rs, s) \<Rightarrow> Ok (wrap c rs, s))"
        using wrap_ok [OF t(1)] s2 by (auto intro!: sound_Ok)
    qed simp
    then show "sound cmd_ok s (case (c, t) of (c, s) \<Rightarrow>
          if \<not> peek s [41] then Panic ''syntax - missing )''
          else case gettoken s of (_, _, s) \<Rightarrow> bindr (parseredirs [] s) (\<lambda>(rs, s). Ok (wrap c rs, s)))"
      by (simp add: k2 sound_Panic)
  qed (use s1 in auto)
  then show ?thesis using True k by (simp add: parseexec_def parseblock_def)
next
  case False
  have "sound cmd_ok s (bindr (parseredirs [] s) (\<lambda>(rs, s).
        bindr (parseargs [] rs s) (\<lambda>(args, rs, s). Ok (wrap (EXEC args) rs, s))))"
  proof (rule sound_bind [OF parseredirs_sound [OF z]])
    fix rs t
    assume t: "\<forall>r\<in>set rs. redir_ok r" "length t \<le> length s" "set t \<subseteq> set s"
    then have "0 \<notin> set t" using z by auto
    then show "sound cmd_ok s (case (rs, t) of (rs, s) \<Rightarrow>
        bindr (parseargs [] rs s) (\<lambda>(args, rs, s). Ok (wrap (EXEC args) rs, s)))"
      using parseargs_sound [of t rs "[]"] t wrap_ok
      by (auto simp: sound_def MAXARGS_def split: res.splits)
  qed auto
  then show ?thesis using False by (simp add: parseexec_def)
qed

lemma parsepipe_sound:
  assumes "\<And>t. length t < length s0 \<Longrightarrow> 0 \<notin> set t \<Longrightarrow> sound cmd_ok t (line t)"
  shows "length s < n \<Longrightarrow> length s \<le> length s0 \<Longrightarrow> 0 \<notin> set s \<Longrightarrow> sound cmd_ok s (parsepipe n line s)"
proof (induction n arbitrary: s)
  case (Suc n)
  have e: "sound cmd_ok s (parseexec line s)" using assms Suc.prems by (intro parseexec_sound) auto
  show ?case unfolding parsepipe.simps
  proof (rule sound_bind [OF e])
    fix c t
    assume t: "cmd_ok c" "length t \<le> length s" "set t \<subseteq> set s"
    obtain k q u where k: "gettoken t = (k, q, u)" by (cases "gettoken t")
    show "sound cmd_ok s (case (c, t) of (c, s) \<Rightarrow>
        if peek s [124] then (case gettoken s of (_, _, s) \<Rightarrow> bindr (parsepipe n line s) (\<lambda>(d, s). Ok (PIPE c d, s)))
        else Ok (c, skip s))"
    proof (cases "peek t [124]")
      case True
      have u: "length u < length t" "set u \<subseteq> set t" using peek_shorter [OF True k] gettoken_sound(1) [OF k] by auto
      have "sound cmd_ok s (bindr (parsepipe n line u) (\<lambda>(d, s). Ok (PIPE c d, s)))"
        using u t Suc.prems by (intro sound_bind [OF Suc.IH [of u]]) (auto intro!: sound_Ok)
      then show ?thesis using True k by simp
    next
      case False
      then show ?thesis using t length_skip [of t] set_skip [of t] by (auto intro!: sound_Ok)
    qed
  qed auto
qed simp

lemma parseback_sound: "cmd_ok c \<Longrightarrow> sound cmd_ok s (Ok (parseback c s))"
proof (induction c s rule: parseback.induct)
  case (1 c s)
  obtain k q u where k: "gettoken s = (k, q, u)" by (cases "gettoken s")
  show ?case
  proof (cases "peek s [38]")
    case True
    have "length u \<le> length s" "set u \<subseteq> set s" using gettoken_shorter(1) [OF k] gettoken_sound(1) [OF k] by auto
    moreover have "sound cmd_ok u (Ok (parseback (BACK c) u))" using "1.IH" True k "1.prems" by auto
    ultimately show ?thesis using True k by (simp add: parseback.simps [of c s] sound_weaken)
  next
    case False
    then show ?thesis using "1.prems" length_skip [of s] set_skip [of s] by (simp add: parseback.simps [of c s] sound_Ok)
  qed
qed

lemma parseline_sound: "length s < n \<Longrightarrow> 0 \<notin> set s \<Longrightarrow> sound cmd_ok s (parseline n s)"
proof (induction n arbitrary: s)
  case (Suc n)
  have p: "sound cmd_ok s (parsepipe (Suc (length s)) (parseline n) s)"
    using Suc by (intro parsepipe_sound [of s]) auto
  show ?case unfolding parseline.simps
  proof (rule sound_bind [OF p])
    fix c t
    assume t: "cmd_ok c" "length t \<le> length s" "set t \<subseteq> set s"
    obtain d u where u: "parseback c t = (d, u)" by (cases "parseback c t")
    have d: "cmd_ok d" "length u \<le> length s" "set u \<subseteq> set s"
      using parseback_sound [OF t(1), of t] u t by (auto simp: sound_def)
    obtain k q v where k: "gettoken u = (k, q, v)" by (cases "gettoken u")
    show "sound cmd_ok s (case (c, t) of (c, s) \<Rightarrow>
        case parseback c s of (c, s) \<Rightarrow>
          if peek s [59] then (case gettoken s of (_, _, s) \<Rightarrow> bindr (parseline n s) (\<lambda>(d, s). Ok (LIST c d, s)))
          else Ok (c, skip s))"
    proof (cases "peek u [59]")
      case True
      have v: "length v < length u" "set v \<subseteq> set u" using peek_shorter [OF True k] gettoken_sound(1) [OF k] by auto
      have "sound cmd_ok s (bindr (parseline n v) (\<lambda>(e, s). Ok (LIST d e, s)))"
        using v d Suc.prems by (intro sound_bind [OF Suc.IH [of v]]) (auto intro!: sound_Ok)
      then show ?thesis using True k u by simp
    next
      case False
      then show ?thesis using u d length_skip [of u] set_skip [of u] by (auto intro!: sound_Ok)
    qed
  qed auto
qed simp

text \<open>
  C36: The parser returns on every input, with a command or with one of its error messages. In the command,
  every argument vector leaves room for its null pointer, every word is non-empty and free of blanks and
  symbols, and every redirection opens its file in the mode that belongs to the descriptor.
\<close>

theorem parsecmd_sound:
  "(\<exists>c. parsecmd buf = Ok c \<and> cmd_ok c) \<or> (\<exists>m. parsecmd buf = Panic m)"
proof -
  let ?s = "takeWhile (\<lambda>c. c \<noteq> 0) buf"
  have "0 \<notin> set ?s" by (auto dest: set_takeWhileD)
  then have "sound cmd_ok ?s (parseline (Suc (length ?s)) ?s)" by (intro parseline_sound) simp_all
  then show ?thesis by (auto simp: sound_def parsecmd_def Let_def simp del: parseline.simps split: if_splits)
qed

section \<open>Parsing what was written out\<close>

text \<open>A command as text: every part of a larger command stands in parentheses.\<close>

fun words :: "u8 list list \<Rightarrow> u8 list" where
  "words [] = []"
| "words [w] = w"
| "words (w # ws) = w @ 32 # words ws"

fun text_of :: "cmd \<Rightarrow> u8 list" where
  "text_of (EXEC args) = words args"
| "text_of (REDIR c file mode fd) = 40 # text_of c @ 41 # (if fd = 0 then 60 else 62) # file"
| "text_of (PIPE c d) = 40 # text_of c @ 41 # 124 # 40 # text_of d @ [41]"
| "text_of (LIST c d) = 40 # text_of c @ 41 # 59 # 40 # text_of d @ [41]"
| "text_of (BACK c) = 40 # text_of c @ [41, 38]"

text \<open>What may follow a command: nothing, or a closing parenthesis.\<close>

definition closes :: "u8 list \<Rightarrow> bool" where
  "closes r \<longleftrightarrow> r = [] \<or> hd r = 41"

lemma skip_symbol: "c \<in> set symbols \<Longrightarrow> skip (c # cs) = c # cs"
  by (auto simp: skip_def symbols_def whitespace_def)

lemma skip_closes: "closes r \<Longrightarrow> skip r = r"
  by (cases r) (auto simp: closes_def skip_def whitespace_def)

lemma skip_word: "word_ok w \<Longrightarrow> skip (w @ r) = w @ r"
  by (cases w) (auto simp: word_ok_def skip_def ordinary_def)

lemma symbol_simps: "60 \<in> set symbols" "124 \<in> set symbols" "62 \<in> set symbols" "38 \<in> set symbols"
  "59 \<in> set symbols" "40 \<in> set symbols" "41 \<in> set symbols"
  by (simp_all add: symbols_def)

lemma peek_symbol: "c \<in> set symbols \<Longrightarrow> peek (c # cs) toks \<longleftrightarrow> c \<in> set toks"
  by (simp add: peek_def skip_symbol)

lemma peek_closes: "closes r \<Longrightarrow> 41 \<notin> set toks \<Longrightarrow> \<not> peek r toks"
  by (auto simp: peek_def skip_closes) (simp add: closes_def)

lemma word_hd: "word_ok w \<Longrightarrow> \<exists>c cs. w = c # cs \<and> ordinary c"
  by (cases w) (auto simp: word_ok_def)

lemma peek_word: "word_ok w \<Longrightarrow> set toks \<subseteq> set symbols \<Longrightarrow> \<not> peek (w @ r) toks"
  using word_hd [of w] by (auto simp: peek_def skip_word ordinary_def)

lemma token_symbol: "c \<in> {124, 40, 41, 59, 38, 60} \<Longrightarrow> gettoken (c # cs) = (c, [c], skip cs)"
  using skip_symbol [of c cs] by (auto simp: gettoken_def symbols_def)

lemma token_gt: "word_ok w \<Longrightarrow> gettoken (62 # w @ r) = (62, [62], w @ r)"
  using word_hd [of w] skip_word [of w r]
  by (auto simp: gettoken_def skip_symbol symbol_simps ordinary_def symbols_def)

lemma token_word:
  assumes "word_ok w" "r = [] \<or> \<not> ordinary (hd r)"
  shows "gettoken (w @ r) = (97, w, skip r)"
proof -
  obtain c cs where w: "w = c # cs" "ordinary c" using word_hd [OF assms(1)] by blast
  have t: "takeWhile ordinary (w @ r) = w" "dropWhile ordinary (w @ r) = r"
    using assms by (auto simp: word_ok_def takeWhile_append dropWhile_append) (cases r; auto)+
  have "c \<notin> {124, 40, 41, 59, 38, 60}" "c \<noteq> 62" using w(2) by (auto simp: ordinary_def symbols_def)
  then show ?thesis using skip_word [OF assms(1), of r] w t by (auto simp: gettoken_def)
qed

lemma not_ordinary: "closes r \<Longrightarrow> r = [] \<or> \<not> ordinary (hd r)" "\<not> ordinary 32" "c \<in> set symbols \<Longrightarrow> \<not> ordinary c"
  by (auto simp: closes_def ordinary_def symbols_def whitespace_def)

lemma redirs_none: "\<not> peek s [60, 62] \<Longrightarrow> parseredirs rs s = Ok (rs, skip s)"
  by (simp add: parseredirs.simps [of rs s])

text \<open>The words of a command.\<close>

lemma words_Cons: "words (w # ws) = (if ws = [] then w else w @ 32 # words ws)"
  by (cases ws) auto

lemma args_words:
  assumes "closes r"
  shows "\<forall>w\<in>set ws. word_ok w \<Longrightarrow> length args + length ws < MAXARGS \<Longrightarrow>
    parseargs args rs (words ws @ r) = Ok (args @ ws, rs, r)"
proof (induction ws arbitrary: args)
  case Nil
  have "r = [] \<or> peek r [124, 41, 38, 59]"
    using assms by (cases r) (auto simp: closes_def peek_symbol symbol_simps)
  moreover have "gettoken [] = (0, [], [])" by (simp add: gettoken_def skip_def)
  ultimately show ?case using skip_closes [OF assms]
    by (auto simp: parseargs.simps [of args rs r] peek_def)
next
  case (Cons w ws)
  have w: "word_ok w" using Cons.prems by simp
  define u where "u = (if ws = [] then r else 32 # words ws @ r)"
  have wu: "words (w # ws) @ r = w @ u" by (simp add: words_Cons u_def)
  have sk: "skip u = words ws @ r"
  proof (cases ws)
    case (Cons v vs)
    then have "skip (words ws @ r) = words ws @ r"
      using Cons.prems skip_word [of v] by (auto simp: words_Cons)
    then show ?thesis using Cons by (simp add: u_def skip_def whitespace_def)
  qed (simp add: u_def skip_closes [OF assms])
  have t: "gettoken (w @ u) = (97, w, words ws @ r)"
    using token_word [OF w, of u] not_ordinary(1) [OF assms] not_ordinary(2) sk by (auto simp: u_def)
  have "\<not> peek (words ws @ r) [60, 62]"
    using Cons.prems peek_word [of "hd ws" "[60, 62]"] peek_closes [OF assms, of "[60, 62]"]
    by (cases ws) (auto simp: words_Cons symbol_simps)
  moreover have "skip (words ws @ r) = words ws @ r" using sk by (metis skip_skip)
  ultimately have "parseredirs rs (words ws @ r) = Ok (rs, words ws @ r)" by (simp add: redirs_none)
  moreover have "\<not> peek (w @ u) [124, 41, 38, 59]" using peek_word [OF w] by (simp add: symbol_simps)
  ultimately show ?case
    using Cons.IH [of "args @ [w]"] Cons.prems t by (simp add: wu parseargs.simps [of args rs "w @ u"])
qed

text \<open>A command in parentheses.\<close>

definition reads :: "nat \<Rightarrow> cmd \<Rightarrow> bool" where
  "reads n c \<longleftrightarrow> (\<forall>r. closes r \<longrightarrow> parseline n (text_of c @ r) = Ok (c, r))"

lemma skip_text: "cmd_ok c \<Longrightarrow> skip (text_of c @ 41 # r) = text_of c @ 41 # r"
proof (cases c)
  case (EXEC ws)
  assume "cmd_ok c"
  then show ?thesis using EXEC skip_word [of "hd ws"]
    by (cases ws) (auto simp: words_Cons skip_symbol symbol_simps)
qed (auto simp: skip_symbol symbol_simps)

lemma block_reads:
  assumes "reads n c" "cmd_ok c"
  shows "parseexec (parseline n) (40 # text_of c @ 41 # r)
    = bindr (parseredirs [] (skip r)) (\<lambda>(rs, s). Ok (wrap c rs, s))"
proof -
  have "parseline n (text_of c @ 41 # r) = Ok (c, 41 # r)" using assms(1) by (simp add: reads_def closes_def)
  then show ?thesis
    by (simp add: parseexec_def parseblock_def peek_symbol symbol_simps token_symbol skip_text [OF assms(2)]
        del: parseline.simps)
qed

lemma block_reads_plain:
  assumes "reads n c" "cmd_ok c" "skip r = r" "\<not> peek r [60, 62]"
  shows "parseexec (parseline n) (40 # text_of c @ 41 # r) = Ok (c, r)"
  using assms by (simp add: block_reads redirs_none del: parseline.simps)

lemma back_none: "\<not> peek s [38] \<Longrightarrow> parseback c s = (c, skip s)"
  by (simp add: parseback.simps [of c s])

lemma line_ends:
  assumes "parsepipe (Suc (length s)) (parseline n) s = Ok (c, r)" "closes r"
  shows "parseline (Suc n) s = Ok (c, r)"
  using assms peek_closes [OF assms(2), of "[38]"] peek_closes [OF assms(2), of "[59]"]
  by (simp add: back_none skip_closes del: parsepipe.simps)

lemma pipe_ends:
  assumes "parseexec line s = Ok (c, r)" "\<not> peek r [124]" "skip r = r"
  shows "parsepipe (Suc m) line s = Ok (c, r)"
  using assms by simp

lemma pipe_paren:
  assumes "reads n c" "cmd_ok c" "closes r"
  shows "parsepipe (Suc m) (parseline n) (40 # text_of c @ 41 # r) = Ok (c, r)"
  using assms block_reads_plain [OF assms(1,2) skip_closes [OF assms(3)]] peek_closes [OF assms(3)]
  by (intro pipe_ends) (auto simp: skip_closes)

lemma line_paren: "reads n c \<Longrightarrow> cmd_ok c \<Longrightarrow> closes r \<Longrightarrow> parseline (Suc n) (40 # text_of c @ 41 # r) = Ok (c, r)"
  by (intro line_ends pipe_paren)

lemma text_reads: "cmd_ok c \<Longrightarrow> length (text_of c) < n \<Longrightarrow> reads n c"
proof (induction c arbitrary: n)
  case (EXEC ws)
  obtain m where n: "n = Suc m" using EXEC by (cases n) auto
  show ?case unfolding reads_def n text_of.simps
  proof (intro allI impI line_ends pipe_ends)
    fix r
    assume r: "closes r"
    have p: "\<not> peek (words ws @ r) toks" if "41 \<notin> set toks" "set toks \<subseteq> set symbols" for toks
      using peek_word [OF _ that(2), of "hd ws"] peek_closes [OF r that(1)] EXEC.prems(1)
      by (cases ws) (auto simp: words_Cons)
    have sk: "skip (words ws @ r) = words ws @ r"
      using EXEC.prems(1) skip_word [of "hd ws"] skip_closes [OF r] by (cases ws) (auto simp: words_Cons)
    show "parseexec (parseline m) (words ws @ r) = Ok (EXEC ws, r)"
      using args_words [OF r, of ws "[]" "[]"] EXEC.prems(1) p [of "[40]"] p [of "[60, 62]"] sk
      by (simp add: parseexec_def symbol_simps redirs_none del: parseline.simps)
    show "\<not> peek r [124]" "skip r = r" "closes r" using r peek_closes skip_closes by auto
  qed
next
  case (REDIR c f mode fd)
  obtain m where n: "n = Suc m" using REDIR by (cases n) auto
  have c: "reads m c" "cmd_ok c" using REDIR n by auto
  have w: "word_ok f" using REDIR.prems(1) by simp
  define k :: u8 where "k = (if fd = 0 then 60 else 62)"
  have k: "k \<in> set symbols" by (simp add: k_def symbol_simps)
  show ?case unfolding reads_def n
  proof (intro allI impI line_ends pipe_ends)
    fix r
    assume r: "closes r"
    have t1: "gettoken (k # f @ r) = (k, [k], f @ r)"
      using token_gt [OF w, of r] token_symbol [of 60 "f @ r"] skip_word [OF w, of r] by (simp add: k_def)
    have t2: "gettoken (f @ r) = (97, f, skip r)" by (rule token_word [OF w not_ordinary(1) [OF r]])
    have "parseredirs [(f, mode, fd)] (skip r) = Ok ([(f, mode, fd)], r)"
      using redirs_none [of r] peek_closes [OF r, of "[60, 62]"] skip_closes [OF r] by simp
    then have "parseredirs [] (k # f @ r) = Ok ([(f, mode, fd)], r)"
      using t1 t2 REDIR.prems(1) unfolding parseredirs.simps [of "[]" "k # f @ r"] peek_symbol [OF k]
      by (auto simp: k_def)
    then show "parseexec (parseline m) (text_of (REDIR c f mode fd) @ r) = Ok (REDIR c f mode fd, r)"
      using block_reads [OF c, of "k # f @ r"] skip_symbol [OF k, of "f @ r"]
      by (simp add: k_def redircmd_def del: parseline.simps cong: if_cong)
    show "\<not> peek r [124]" "skip r = r" "closes r" using r peek_closes skip_closes by auto
  qed
next
  case (PIPE c d)
  obtain m where n: "n = Suc m" using PIPE by (cases n) auto
  have c: "reads m c" "cmd_ok c" and d: "reads m d" "cmd_ok d" using PIPE n by auto
  show ?case unfolding reads_def n
  proof (intro allI impI line_ends)
    fix r
    assume r: "closes r"
    have "parseexec (parseline m) (40 # text_of c @ 41 # 124 # 40 # text_of d @ 41 # r)
        = Ok (c, 124 # 40 # text_of d @ 41 # r)"
      by (rule block_reads_plain [OF c]) (simp_all add: skip_symbol peek_symbol symbol_simps)
    then have "parsepipe (Suc (Suc k)) (parseline m) (text_of (PIPE c d) @ r) = Ok (PIPE c d, r)" for k
      using pipe_paren [OF d r, of k] unfolding parsepipe.simps(2) [of "Suc k"]
      by (simp add: peek_symbol token_symbol skip_symbol symbol_simps del: parseline.simps parsepipe.simps)
    moreover have "length (text_of (PIPE c d) @ r) = Suc (length (text_of (PIPE c d) @ r) - 1)" by simp
    ultimately show "parsepipe (Suc (length (text_of (PIPE c d) @ r))) (parseline m) (text_of (PIPE c d) @ r)
        = Ok (PIPE c d, r)" by metis
  qed
next
  case (LIST c d)
  obtain m where n: "n = Suc m" using LIST by (cases n) auto
  obtain m' where m: "m = Suc m'" using LIST n by (cases m) auto
  have c: "reads m c" "cmd_ok c" and d: "reads m' d" "cmd_ok d" using LIST n m by auto
  show ?case unfolding reads_def n
  proof (intro allI impI)
    fix r
    assume r: "closes r"
    have "parseexec (parseline m) (40 # text_of c @ 41 # 59 # 40 # text_of d @ 41 # r)
        = Ok (c, 59 # 40 # text_of d @ 41 # r)"
      by (rule block_reads_plain [OF c]) (simp_all add: skip_symbol peek_symbol symbol_simps)
    then have "parsepipe (Suc k) (parseline m) (text_of (LIST c d) @ r) = Ok (c, 59 # 40 # text_of d @ 41 # r)" for k
      by (simp add: peek_symbol skip_symbol symbol_simps del: parseline.simps)
    moreover have "parseline m (40 # text_of d @ 41 # r) = Ok (d, r)" unfolding m by (rule line_paren [OF d r])
    ultimately show "parseline (Suc m) (text_of (LIST c d) @ r) = Ok (LIST c d, r)"
      by (simp add: back_none peek_symbol token_symbol skip_symbol symbol_simps skip_closes [OF r]
          del: parsepipe.simps text_of.simps) 
  qed
next
  case (BACK c)
  obtain m where n: "n = Suc m" using BACK by (cases n) auto
  have c: "reads m c" "cmd_ok c" using BACK n by auto
  show ?case unfolding reads_def n
  proof (intro allI impI)
    fix r
    assume r: "closes r"
    have "parseexec (parseline m) (40 # text_of c @ 41 # 38 # r) = Ok (c, 38 # r)"
      by (rule block_reads_plain [OF c]) (simp_all add: skip_symbol peek_symbol symbol_simps)
    then have "parsepipe (Suc k) (parseline m) (text_of (BACK c) @ r) = Ok (c, 38 # r)" for k
      by (simp add: peek_symbol skip_symbol symbol_simps del: parseline.simps)
    moreover have "parseback c (38 # r) = (BACK c, r)"
      using back_none [of r "BACK c"] peek_closes [OF r, of "[38]"]
      by (simp add: parseback.simps [of c] peek_symbol token_symbol symbol_simps skip_closes [OF r])
    ultimately show "parseline (Suc m) (text_of (BACK c) @ r) = Ok (BACK c, r)"
      using peek_closes [OF r, of "[59]"] skip_closes [OF r] by (simp del: parsepipe.simps text_of.simps)
  qed
qed

text \<open>
  C26: The parser reads back what is written out. Any command whose words are free of blanks and symbols and
  whose argument lists are shorter than \<open>MAXARGS\<close>, with any nesting of redirections, pipes, lists and
  background commands, is what \<open>parsecmd\<close> makes of its text with every part in parentheses.
\<close>

theorem parsecmd_roundtrip:
  assumes "cmd_ok c"
  shows "parsecmd (text_of c) = Ok c"
proof -
  have z: "0 \<notin> set (text_of d)" if "cmd_ok d" for d
    using that
  proof (induction d)
    case (EXEC ws)
    then have "0 \<notin> set (words ws)" by (induction ws) (auto simp: words_Cons word_ok_def MAXARGS_def)
    then show ?case by simp
  qed (auto simp: word_ok_def)
  have t: "takeWhile (\<lambda>x. x \<noteq> 0) (text_of c) = text_of c" using z [OF assms] by (auto simp: takeWhile_eq_all_conv)
  have "parseline (Suc (length (text_of c))) (text_of c @ []) = Ok (c, [])"
    using text_reads [OF assms] unfolding reads_def closes_def by blast
  then show ?thesis unfolding parsecmd_def t Let_def by (simp add: skip_def del: parseline.simps)
qed

theorem parsecmd_roundtrip_witness:
  "parsecmd [40, 108, 115, 32, 97, 41, 124, 40, 119, 99, 41]
    = Ok (PIPE (EXEC [[108, 115], [97]]) (EXEC [[119, 99]]))"
  using parsecmd_roundtrip [of "PIPE (EXEC [[108, 115], [97]]) (EXEC [[119, 99]])"]
  by (simp add: MAXARGS_def word_ok_def ordinary_def whitespace_def symbols_def)

section \<open>Running a command\<close>

text \<open>
  What a descriptor refers to, and the system calls that the shell makes on the table of a process, as
  \<open>sysfile.c\<close> has them: the lowest free descriptor is taken. A pipe is known by a number.
\<close>

datatype fdobj = Device | Opened "u8 list" u32 | PipeR nat | PipeW nat

type_synonym fds = "nat \<Rightarrow> fdobj option"

definition lowest :: "fds \<Rightarrow> nat option" where
  "lowest t = List.find (\<lambda>i. t i = None) [0..<NOFILE]"

text \<open>It is the descriptor that the kernel's \<open>fdalloc\<close> takes.\<close>

lemma fdalloc_lowest:
  "fdalloc f s =
     (case lowest (\<lambda>fd. map_option obj (ofile (myproc s) fd)) of
        None \<Rightarrow> (None, s)
      | Some fd \<Rightarrow> (Some fd, set_fd fd (Some f) s))"
  by (simp add: fdalloc_def lowest_def)

definition close_call :: "nat \<Rightarrow> fds \<Rightarrow> fds" where
  "close_call fd t = t(fd := None)"

definition dup_call :: "nat \<Rightarrow> fds \<Rightarrow> fds" where
  "dup_call fd t = (case (t fd, lowest t) of (Some x, Some k) \<Rightarrow> t(k \<mapsto> x) | _ \<Rightarrow> t)"

definition open_call :: "(u8 list \<Rightarrow> u32 \<Rightarrow> bool) \<Rightarrow> u8 list \<Rightarrow> u32 \<Rightarrow> fds \<Rightarrow> fds option" where
  "open_call opens name mode t =
     (case lowest t of
        Some k \<Rightarrow> if opens name mode then Some (t(k \<mapsto> Opened name mode)) else None
      | None \<Rightarrow> None)"

definition pipe_call :: "nat \<Rightarrow> fds \<Rightarrow> (nat \<times> nat \<times> fds) option" where
  "pipe_call n t =
     (case lowest t of
        None \<Rightarrow> None
      | Some a \<Rightarrow>
          (case lowest (t(a \<mapsto> PipeR n)) of
             None \<Rightarrow> None
           | Some b \<Rightarrow> Some (a, b, t(a \<mapsto> PipeR n, b \<mapsto> PipeW n))))"

text \<open>
  The programs that \<open>runcmd\<close> starts, each with its arguments and descriptors, in the order of the code, and
  the number of the next pipe. A forked process has a copy of the table. \<open>opens\<close> says which files can be
  opened in which mode; \<open>fork\<close> succeeds; when \<open>pipe\<close> fails the shell panics. The processes it waits for end.
\<close>

fun runcmd :: "(u8 list \<Rightarrow> u32 \<Rightarrow> bool) \<Rightarrow> cmd \<Rightarrow> fds \<Rightarrow> nat \<Rightarrow> (u8 list list \<times> fds) list \<times> nat" where
  "runcmd opens (EXEC args) t n = (if args = [] then ([], n) else ([(args, t)], n))"
| "runcmd opens (REDIR c name mode fd) t n =
     (case open_call opens name mode (close_call fd t) of
        None \<Rightarrow> ([], n)
      | Some t \<Rightarrow> runcmd opens c t n)"
| "runcmd opens (LIST c d) t n =
     (case runcmd opens c t n of (l1, n) \<Rightarrow>
      case runcmd opens d t n of (l2, n) \<Rightarrow> (l1 @ l2, n))"
| "runcmd opens (PIPE c d) t n =
     (case pipe_call n t of
        None \<Rightarrow> ([], n)
      | Some (p0, p1, t) \<Rightarrow>
          (case runcmd opens c (close_call p1 (close_call p0 (dup_call p1 (close_call 1 t)))) (Suc n) of (l1, n) \<Rightarrow>
           case runcmd opens d (close_call p1 (close_call p0 (dup_call p0 (close_call 0 t)))) n of (l2, n) \<Rightarrow>
             (l1 @ l2, n)))"
| "runcmd opens (BACK c) t n = runcmd opens c t n"

lemma lowest_is: "t k = None \<Longrightarrow> k < NOFILE \<Longrightarrow> \<forall>i<k. t i \<noteq> None \<Longrightarrow> lowest t = Some k"
  unfolding lowest_def find_upt_Some by simp

lemma std_dom:
  assumes "dom t = {0, 1, 2}"
  shows "t 0 \<noteq> None" "t (Suc 0) \<noteq> None" "t 2 \<noteq> None" "k \<noteq> 0 \<Longrightarrow> k \<noteq> 1 \<Longrightarrow> k \<noteq> 2 \<Longrightarrow> t k = None"
proof -
  have d: "t j \<noteq> None \<longleftrightarrow> j \<in> {0, 1, 2}" for j using assms domIff [of j t] by simp
  show "t 0 \<noteq> None" "t (Suc 0) \<noteq> None" "t 2 \<noteq> None" "k \<noteq> 0 \<Longrightarrow> k \<noteq> 1 \<Longrightarrow> k \<noteq> 2 \<Longrightarrow> t k = None"
    using d [of 0] d [of "Suc 0"] d [of 2] d [of k] by auto
qed

lemma below: "(\<forall>i<3. P i) \<longleftrightarrow> P 0 \<and> P 1 \<and> P (2 :: nat)" "(\<forall>i<4. P i) \<longleftrightarrow> P 0 \<and> P 1 \<and> P 2 \<and> P (3 :: nat)"
  "(\<forall>i<Suc 0. P i) \<longleftrightarrow> P 0"
  by (auto simp: numeral_eq_Suc less_Suc_eq)

lemma pipe_std:
  assumes "dom t = {0, 1, 2}"
  shows "pipe_call n t = Some (3, 4, t(3 \<mapsto> PipeR n, 4 \<mapsto> PipeW n))"
proof -
  have "lowest t = Some 3" using std_dom [OF assms] by (intro lowest_is) (auto simp: NOFILE_def below)
  moreover have "lowest (t(3 \<mapsto> PipeR n)) = Some 4"
    using std_dom [OF assms] by (intro lowest_is) (auto simp: NOFILE_def below)
  ultimately show ?thesis by (simp add: pipe_call_def)
qed

lemma redir_std:
  assumes "dom t = {0, 1, 2}" "fd \<le> 1" "opens name mode"
  shows "open_call opens name mode (close_call fd t) = Some (t(fd \<mapsto> Opened name mode))"
proof -
  have "fd = 0 \<or> fd = 1" using assms(2) by auto
  then have "lowest (t(fd := None)) = Some fd"
    using std_dom [OF assms(1)] by (intro lowest_is) (auto simp: NOFILE_def below)
  then show ?thesis using assms(3) by (simp add: open_call_def close_call_def)
qed

lemma pipe_ends_std:
  assumes "dom t = {0, 1, 2}"
  shows "close_call 4 (close_call 3 (dup_call 4 (close_call 1 (t(3 \<mapsto> PipeR n, 4 \<mapsto> PipeW n))))) = t(1 \<mapsto> PipeW n)"
    "close_call 4 (close_call 3 (dup_call 3 (close_call 0 (t(3 \<mapsto> PipeR n, 4 \<mapsto> PipeW n))))) = t(0 \<mapsto> PipeR n)"
proof -
  have "lowest (close_call 1 (t(3 \<mapsto> PipeR n, 4 \<mapsto> PipeW n))) = Some 1"
    "lowest (close_call 0 (t(3 \<mapsto> PipeR n, 4 \<mapsto> PipeW n))) = Some 0"
    using std_dom [OF assms] by (auto intro!: lowest_is simp: NOFILE_def below close_call_def)
  then show "close_call 4 (close_call 3 (dup_call 4 (close_call 1 (t(3 \<mapsto> PipeR n, 4 \<mapsto> PipeW n))))) = t(1 \<mapsto> PipeW n)"
    "close_call 4 (close_call 3 (dup_call 3 (close_call 0 (t(3 \<mapsto> PipeR n, 4 \<mapsto> PipeW n))))) = t(0 \<mapsto> PipeR n)"
    using std_dom [OF assms] by (auto simp: dup_call_def close_call_def fun_eq_iff)
qed

text \<open>
  C27: Programs start with the descriptors they should have. When the shell has exactly the descriptors 0, 1
  and 2, the left side of a pipe runs with its output, and the right side with its input, in the new pipe; a
  redirection replaces the descriptor it names; and every program that a parsed command starts,
  whatever its nesting, has exactly the descriptors 0, 1 and 2: no end of a pipe is left open.
\<close>

theorem runcmd_descriptors:
  assumes "dom t = {0, 1, 2}"
  shows "runcmd opens (PIPE c d) t n =
      (case runcmd opens c (t(1 \<mapsto> PipeW n)) (Suc n) of (l1, m) \<Rightarrow>
       case runcmd opens d (t(0 \<mapsto> PipeR n)) m of (l2, k) \<Rightarrow> (l1 @ l2, k))
    \<and> (fd \<le> 1 \<and> opens name mode \<longrightarrow>
        runcmd opens (REDIR c name mode fd) t n = runcmd opens c (t(fd \<mapsto> Opened name mode)) n)
    \<and> (cmd_ok e \<longrightarrow> (\<forall>(args, u)\<in>set (fst (runcmd opens e t n)). args \<noteq> [] \<and> dom u = {0, 1, 2} \<and> u 2 = t 2))"
proof (intro conjI impI)
  show "runcmd opens (PIPE c d) t n =
      (case runcmd opens c (t(1 \<mapsto> PipeW n)) (Suc n) of (l1, m) \<Rightarrow>
       case runcmd opens d (t(0 \<mapsto> PipeR n)) m of (l2, k) \<Rightarrow> (l1 @ l2, k))"
    using pipe_std [OF assms] pipe_ends_std [OF assms] by simp
  show "runcmd opens (REDIR c name mode fd) t n = runcmd opens c (t(fd \<mapsto> Opened name mode)) n"
    if "fd \<le> 1 \<and> opens name mode"
    using redir_std [OF assms, of fd opens name mode] that by simp
  show "\<forall>(args, u)\<in>set (fst (runcmd opens e t n)). args \<noteq> [] \<and> dom u = {0, 1, 2} \<and> u 2 = t 2" if "cmd_ok e"
    using assms that
  proof (induction e arbitrary: t n)
    case (REDIR c f m fd)
    show ?case
    proof (cases "opens f m")
      case True
      have fd: "fd \<le> 1" using REDIR.prems(2) by auto
      have "dom (t(fd \<mapsto> Opened f m)) = {0, 1, 2}" "(t(fd \<mapsto> Opened f m)) 2 = t 2"
        using REDIR.prems(1) fd by auto
      then show ?thesis using REDIR.IH [of "t(fd \<mapsto> Opened f m)" n] REDIR.prems(2) redir_std [OF REDIR.prems(1) fd, of opens f m] True
        by (simp del: fun_upd_apply)
    next
      case False
      then show ?thesis by (simp add: open_call_def split: option.splits)
    qed
  next
    case (PIPE c d)
    obtain l1 m where l1: "runcmd opens c (t(1 \<mapsto> PipeW n)) (Suc n) = (l1, m)" by fastforce
    obtain l2 k where l2: "runcmd opens d (t(0 \<mapsto> PipeR n)) m = (l2, k)" by fastforce
    have "runcmd opens (PIPE c d) t n = (l1 @ l2, k)"
      using pipe_std [OF PIPE.prems(1)] pipe_ends_std [OF PIPE.prems(1)] l1 l2 by simp
    then have run: "fst (runcmd opens (PIPE c d) t n) = l1 @ l2" by (simp del: runcmd.simps)
    have dom: "dom (t(1 \<mapsto> PipeW n)) = {0, 1, 2}" "dom (t(0 \<mapsto> PipeR n)) = {0, 1, 2}"
      using PIPE.prems(1) by auto
    have ok: "cmd_ok c" "cmd_ok d" using PIPE.prems(2) by simp_all
    have "\<forall>(args, u)\<in>set l1. args \<noteq> [] \<and> dom u = {0, 1, 2} \<and> u 2 = t 2"
      using PIPE.IH(1) [OF dom(1) ok(1), of "Suc n"] unfolding l1 by simp
    moreover have "\<forall>(args, u)\<in>set l2. args \<noteq> [] \<and> dom u = {0, 1, 2} \<and> u 2 = t 2"
      using PIPE.IH(2) [OF dom(2) ok(2), of m] unfolding l2 by simp
    ultimately show ?case unfolding run set_append ball_Un by blast
  next
    case (LIST c d)
    obtain l1 m where l1: "runcmd opens c t n = (l1, m)" by fastforce
    obtain l2 k where l2: "runcmd opens d t m = (l2, k)" by fastforce
    have ok: "cmd_ok c" "cmd_ok d" using LIST.prems(2) by simp_all
    have "\<forall>(args, u)\<in>set l1. args \<noteq> [] \<and> dom u = {0, 1, 2} \<and> u 2 = t 2"
      using LIST.IH(1) [OF LIST.prems(1) ok(1), of n] unfolding l1 by simp
    moreover have "\<forall>(args, u)\<in>set l2. args \<noteq> [] \<and> dom u = {0, 1, 2} \<and> u 2 = t 2"
      using LIST.IH(2) [OF LIST.prems(1) ok(2), of m] unfolding l2 by simp
    moreover have "fst (runcmd opens (LIST c d) t n) = l1 @ l2" using l1 l2 by simp
    ultimately show ?case by (simp only: set_append ball_Un)
  qed auto
qed

theorem runcmd_descriptors_witness:
  "runcmd (\<lambda>_ _. True) (PIPE (EXEC [[97]]) (EXEC [[98]])) (\<lambda>i. if i < 3 then Some Device else None) 7
   = ([([[97]], (\<lambda>i. if i < 3 then Some Device else None)(1 \<mapsto> PipeW 7)),
       ([[98]], (\<lambda>i. if i < 3 then Some Device else None)(0 \<mapsto> PipeR 7))], 8)"
proof -
  have "dom (\<lambda>i :: nat. if i < 3 then Some Device else None) = {0, 1, 2}" by (auto simp: dom_def)
  from runcmd_descriptors [OF this, of "\<lambda>_ _. True" "EXEC [[97]]" "EXEC [[98]]" 7] show ?thesis by simp
qed

end
