(* ===== verification/Balloc.thy ===== *)
theory Balloc
  imports Inode
begin

text \<open>
  The block allocator of \<open>fs.c\<close>, on the content of blocks as the cache shows it. First, what a
  file-system routine does to a running transaction (\<open>txn\<close>): the blocks it logs, and nothing else changes.
  Then the bitmap: \<open>balloc\<close> takes the first free block, \<open>bfree\<close> gives a block back, and every other block
  keeps its content.
\<close>

section \<open>Steps of a transaction\<close>

text \<open>
  \<open>room s n\<close>: the running operation may log \<open>n\<close> more blocks, beside those of the bitmap, which are counted
  from the start. The bound is the smaller of the log and of the cache (of whose \<open>NBUF\<close> buffers two must stay
  free of logged blocks).
\<close>

definition bitmap_blocks :: "superblock \<Rightarrow> nat set" where
  "bitmap_blocks v = (\<lambda>k. unat (sb_bmapstart v) + k) ` {..<(unat (sb_size v) + BPB - 1) div BPB}"

definition room :: "'a logfs_scheme \<Rightarrow> nat \<Rightarrow> bool" where
  "room s n \<longleftrightarrow> int (card (pinned s \<union> bitmap_blocks (sb s)) + n) < min 29 (lsize (log s) - 1)"

definition in_op :: "'a logfs_scheme \<Rightarrow> bool" where
  "in_op s \<longleftrightarrow> log_ok s \<and> 1 \<le> outstanding (log s)"

definition keeps :: "'a logfs_scheme \<Rightarrow> 'a logfs_scheme \<Rightarrow> bool" where
  "keeps s s' \<longleftrightarrow> log_frame s s' \<and> disk s' = disk s \<and> iolog s' = iolog s
     \<and> outstanding (log s') = outstanding (log s) \<and> lsize (log s') = lsize (log s) \<and> ldev (log s') = ldev (log s)
     \<and> lstart (log s') = lstart (log s) \<and> committing (log s') = committing (log s)"

text \<open>From \<open>s\<close> to \<open>s'\<close> exactly the blocks \<open>W\<close> were logged; all others have their content.\<close>

definition txn :: "'a logfs_scheme \<Rightarrow> nat set \<Rightarrow> 'a logfs_scheme \<Rightarrow> bool" where
  "txn s W s' \<longleftrightarrow> keeps s s' \<and> log_ok s' \<and> pinned s' = W \<union> pinned s \<and> (\<forall>n. n \<notin> W \<longrightarrow> blk s' n = blk s n)
     \<and> held s' = held s \<and> (\<forall>j m. holds s j m \<longrightarrow> holds s' j m)"

lemma keeps_refl [simp]: "keeps s s"
  by (simp add: keeps_def log_frame_def)

lemma keeps_trans: "keeps s t \<Longrightarrow> keeps t u \<Longrightarrow> keeps s u"
  unfolding keeps_def by (auto elim: log_frame_trans)

lemma keeps_bio: "bio_frame s t \<Longrightarrow> disk t = disk s \<Longrightarrow> iolog t = iolog s \<Longrightarrow> keeps s t"
  unfolding keeps_def by (simp add: log_frame_bio bio_frame_log)

lemma keeps_eq:
  assumes "keeps s s'"
  shows "sb s' = sb s" "disksize s' = disksize s" "curproc s' = curproc s" "pid (myproc s') = pid (myproc s)"
    "logfs.more s' = logfs.more s" "lsize (log s') = lsize (log s)" "outstanding (log s') = outstanding (log s)"
  using assms log_frame_eq [of s s'] unfolding keeps_def by blast+

lemma txn_refl: "log_ok s \<Longrightarrow> txn s {} s"
  by (simp add: txn_def)

lemma txn_trans: "txn s V t \<Longrightarrow> txn t W u \<Longrightarrow> txn s (V \<union> W) u"
  unfolding txn_def by (auto elim: keeps_trans)

lemma txn_eq:
  assumes "txn s W s'"
  shows "sb s' = sb s" "disksize s' = disksize s" "curproc s' = curproc s" "pid (myproc s') = pid (myproc s)"
    "logfs.more s' = logfs.more s" "lsize (log s') = lsize (log s)" "outstanding (log s') = outstanding (log s)"
    "log_ok s'" "held s' = held s" "pinned s' = W \<union> pinned s" "n \<notin> W \<Longrightarrow> blk s' n = blk s n"
    "holds s j m \<Longrightarrow> holds s' j m"
  using assms keeps_eq [of s s'] by (simp_all add: txn_def)

lemma in_op_txn: "in_op s \<Longrightarrow> txn s W s' \<Longrightarrow> in_op s'"
  using txn_eq [of s W s'] by (simp add: in_op_def)

lemma finite_bitmap [simp]: "finite (bitmap_blocks v)"
  by (simp add: bitmap_blocks_def)

lemma room_less: "room s n \<Longrightarrow> m \<le> n \<Longrightarrow> room s m"
  by (simp add: room_def)

text \<open>Blocks of the bitmap are free of charge, another block costs one.\<close>

lemma room_txn:
  assumes "room s n" "txn s W s'" "card (W - bitmap_blocks (sb s)) \<le> k" "k \<le> n"
  shows "room s' (n - k)"
proof -
  let ?B = "bitmap_blocks (sb s)"
  have "pinned s' \<union> bitmap_blocks (sb s') = (pinned s \<union> ?B) \<union> (W - ?B)" using txn_eq [OF assms(2)] by auto
  then have "card (pinned s' \<union> bitmap_blocks (sb s')) \<le> card (pinned s \<union> ?B) + k"
    using card_Un_le [of "pinned s \<union> ?B" "W - ?B"] assms(3) by simp
  then show ?thesis using assms(1,4) txn_eq [OF assms(2)] by (auto simp: room_def)
qed

lemma room_pinned: "room s n \<Longrightarrow> int (card (pinned s)) < min 29 (lsize (log s) - 1)"
  using card_mono [of "pinned s \<union> bitmap_blocks (sb s)" "pinned s"] by (simp add: room_def)

lemma room_bread: "room s n \<Longrightarrow> card (held s) \<le> 1 \<Longrightarrow> card (pinned s \<union> held s) < NBUF"
  using room_pinned [of s n] card_Un_le [of "pinned s" "held s"] by (simp add: NBUF_def)

text \<open>A block has been read and is held; it is released, unchanged or with new content.\<close>

definition opened :: "'a logfs_scheme \<Rightarrow> nat \<Rightarrow> nat \<Rightarrow> 'a logfs_scheme \<Rightarrow> bool" where
  "opened s n bp t \<longleftrightarrow> keeps s t \<and> log_ok t \<and> pinned t = pinned s \<and> blk t = blk s \<and> held t = insert n (held s)
     \<and> holds t bp n \<and> data (bufs t bp) = blk s n \<and> (\<forall>j m. holds s j m \<longrightarrow> holds t j m)
     \<and> (n \<in> pinned t \<or> blk t n = disk t n)"

definition closed :: "'a logfs_scheme \<Rightarrow> nat \<Rightarrow> nat set \<Rightarrow> 'a logfs_scheme \<Rightarrow> bool" where
  "closed u n W s \<longleftrightarrow> keeps u s \<and> log_ok s \<and> pinned s = W \<union> pinned u \<and> (\<forall>m. m \<notin> W \<longrightarrow> blk s m = blk u m)
     \<and> held s = held u - {n} \<and> (\<forall>j m. m \<noteq> n \<longrightarrow> holds u j m \<longrightarrow> holds s j m)"

lemma in_op_ok: "in_op s \<Longrightarrow> log_ok s"
  by (simp add: in_op_def)

lemma log_ok_bio: "log_ok s \<Longrightarrow> keeps s t \<Longrightarrow> log t = log s \<Longrightarrow> bio_ok t \<Longrightarrow> pinned t = pinned s \<Longrightarrow> log_ok t"
  by (simp add: log_ok_def)

lemma read_block:
  assumes "log_ok s" "n < disksize s" "unat n \<notin> held s" "card (pinned s \<union> held s) < NBUF"
  obtains bp t where "bread ROOTDEV n s = Ok (bp, t)" "opened s (unat n) bp t"
proof -
  have ok: "bio_ok s" using assms(1) by (simp add: log_ok_def)
  obtain bp t where b: "bread ROOTDEV n s = Ok (bp, t)" "bread_post s n bp t"
    using bread_spec [OF ok assms(2,3)] assms(4) by blast
  then have k: "keeps s t" "bio_ok t" "pinned t = pinned s" "blk t = blk s" "holds t bp (unat n)" "disk t = disk s"
    "log t = log s"
    by (auto simp: bread_post_def bio_frame_log intro: keeps_bio)
  have "unat n \<in> pinned t \<or> blk t (unat n) = disk t (unat n)"
    using blk_unpinned [OF ok _ assms(3)] k by auto
  then have "opened s (unat n) bp t"
    using b(2) k log_ok_bio [OF assms(1) k(1,7,2,3)] holds_data [OF k(2,5)]
    by (simp add: opened_def bread_post_def)
  then show thesis using that b(1) by blast
qed

lemma close_block:
  assumes "log_ok u" "holds u bp n" "n \<in> pinned u \<or> blk u n = disk u n"
  obtains s where "brelse bp u = Ok s" "closed u n {} s"
proof -
  have ok: "bio_ok u" using assms(1) by (simp add: log_ok_def)
  obtain s where s: "brelse bp u = Ok s" "brelse_post u bp n s" using brelse_spec [OF ok assms(2,3)] by blast
  then have k: "keeps u s" "log s = log u" "bio_ok s" "pinned s = pinned u"
    by (auto simp: brelse_post_def bio_frame_log intro: keeps_bio)
  have "j \<noteq> bp" if "holds u j m" "m \<noteq> n" for j m using that assms(2) by (auto simp: holds_def cached_def)
  then have "closed u n {} s"
    using s(2) k log_ok_bio [OF assms(1) k] by (auto simp: closed_def brelse_post_def)
  then show thesis using that s(1) by blast
qed

lemma write_block:
  assumes u: "in_op u" "holds u bp n" and room: "int (card (pinned u)) < min 29 (lsize (log u) - 1)"
  obtains s where "bindr (log_write bp (set_data bp d u)) (brelse bp) = Ok s" "closed u n {n} s" "blk s n = d"
proof -
  have ok: "bio_ok u" "log_ok u" using u(1) by (simp_all add: in_op_def log_ok_def)
  define v where "v = set_data bp d u"
  note v = set_data_spec [OF ok(1) u(2), of d, folded v_def]
  have lv: "log v = log u" by (rule bio_frame_log [OF v(6)])
  have lv': "log_ok v" using ok v lv by (simp add: log_ok_def)
  have c: "card (pinned u) = nat (lh_n (log u))" using ok(2) by (simp add: log_ok_def card_image)
  have r: "lh_n (log v) < LOGSIZE" "lh_n (log v) < lsize (log v) - 1" "1 \<le> outstanding (log v)"
    using room u(1) lv c ok(2) by (auto simp: in_op_def LOGSIZE_def MAXOPBLOCKS_def log_ok_def)
  have hv: "holds v bp n" using v u(2) by simp
  obtain w where w: "log_write bp v = Ok w" "log_ok w" "log_frame v w" "blk w = blk v" "disk w = disk v"
    "iolog w = iolog v" "held w = held v" "\<forall>j m. holds w j m = holds v j m"
    "hblk (log w) ` {..<nat (lh_n (log w))} = insert n (hblk (log v) ` {..<nat (lh_n (log v))})"
    "outstanding (log w) = outstanding (log v)" "lsize (log w) = lsize (log v)" "ldev (log w) = ldev (log v)"
    "lstart (log w) = lstart (log v)" "committing (log w) = committing (log v)"
    using log_write_spec [OF lv' hv r] by blast
  have kw: "keeps u w" using w lv keeps_bio [OF v(6,7,8)] keeps_trans [of u v w] by (simp add: keeps_def)
  have pw: "pinned w = insert n (pinned u)" using w(2,9) lv' lv v(3) by (simp add: log_ok_def)
    have hw: "holds w bp n" using w(8) hv by blast
  obtain s where s: "brelse bp w = Ok s" "closed w n {} s" using close_block [OF w(2) hw] pw by blast
  have "closed u n {n} s"
    using s(2) kw pw w(4,7,8) v(2,4,5) keeps_trans [of u w s] by (auto simp: closed_def)
  moreover have "blk s n = d" using s(2) w(4) v(2) by (simp add: closed_def)
  ultimately show thesis using that w(1) s(1) by (simp add: v_def)
qed

lemma opened_closed:
  assumes "opened s n bp t" "txn t W u" "closed u n V s'" "n \<notin> held s"
  shows "txn s (V \<union> W) s'"
proof -
  have "holds s' j m" if "holds s j m" for j m
  proof -
    have "m \<noteq> n" using holds_held [OF that] assms(4) by blast
    then show ?thesis using that assms(1-3) by (simp add: opened_def txn_def closed_def)
  qed
  then show ?thesis
    using assms keeps_trans [of s t u] keeps_trans [of s u s'] unfolding opened_def txn_def closed_def by auto
qed

lemma opened_txn: "opened s n bp t \<Longrightarrow> txn t {} t"
  by (simp add: opened_def txn_def)

text \<open>Reading a block, and changing a block, as one step each.\<close>

lemma peek_block:
  assumes "log_ok s" "n < disksize s" "unat n \<notin> held s" "card (pinned s \<union> held s) < NBUF"
  obtains bp t s' where "bread ROOTDEV n s = Ok (bp, t)" "data (bufs t bp) = blk s (unat n)" "brelse bp t = Ok s'"
    "txn s {} s'" "keeps s t"
proof -
  obtain bp t where t: "bread ROOTDEV n s = Ok (bp, t)" "opened s (unat n) bp t" using read_block [OF assms] .
  have o: "log_ok t" "holds t bp (unat n)" "unat n \<in> pinned t \<or> blk t (unat n) = disk t (unat n)"
    using t(2) unfolding opened_def by blast+
  obtain s' where s': "brelse bp t = Ok s'" "closed t (unat n) {} s'" using close_block [OF o] .
  have "txn s ({} \<union> {}) s'" by (rule opened_closed [OF t(2) opened_txn [OF t(2)] s'(2) assms(3)])
  then show thesis using that t s'(1) by (simp add: opened_def)
qed

lemma poke_block:
  assumes "in_op s" "n < disksize s" "unat n \<notin> held s" "room s k" "card (held s) \<le> 1"
  obtains bp t where "bread ROOTDEV n s = Ok (bp, t)" "data (bufs t bp) = blk s (unat n)" "keeps s t"
    "\<forall>d. \<exists>s'. bindr (log_write bp (set_data bp d t)) (brelse bp) = Ok s' \<and> txn s {unat n} s' \<and> blk s' (unat n) = d"
proof -
  obtain bp t where t: "bread ROOTDEV n s = Ok (bp, t)" "opened s (unat n) bp t"
    using read_block [OF in_op_ok [OF assms(1)] assms(2,3) room_bread [OF assms(4,5)]] .
  have o: "log_ok t" "holds t bp (unat n)" "data (bufs t bp) = blk s (unat n)" "keeps s t" "pinned t = pinned s"
    using t(2) by (simp_all add: opened_def)
  have io: "in_op t" using assms(1) o keeps_eq [OF o(4)] by (simp add: in_op_def)
  have r: "int (card (pinned t)) < min 29 (lsize (log t) - 1)"
    using room_pinned [OF assms(4)] o keeps_eq [OF o(4)] by simp
  have "\<exists>s'. bindr (log_write bp (set_data bp d t)) (brelse bp) = Ok s' \<and> txn s {unat n} s' \<and> blk s' (unat n) = d" for d
  proof -
    obtain s' where s': "bindr (log_write bp (set_data bp d t)) (brelse bp) = Ok s'" "closed t (unat n) {unat n} s'"
      "blk s' (unat n) = d"
      using write_block [OF io o(2) r] .
    then have "txn s ({unat n} \<union> {}) s'" using opened_closed [OF t(2) opened_txn [OF t(2)] s'(2) assms(3)] by simp
    then show ?thesis using s' by auto
  qed
  then show thesis using that t(1) o(3,4) by blast
qed

section \<open>The bitmap\<close>

lemma bit_free_iff: "bit_free d i \<longleftrightarrow> \<not> bit (d (i div 8)) (i mod 8)"
  using and_exp_eq_0_iff_not_bit [of "d (i div 8)" "i mod 8"] by (simp add: bit_free_def push_bit_eq_mult)

lemma bit_two_power: "i < 8 \<Longrightarrow> bit (2 ^ i :: u8) j \<longleftrightarrow> j = i"
  by (auto simp: bit_exp_iff)

lemma same_bit: "i div 8 = j div 8 \<Longrightarrow> i mod 8 = j mod 8 \<Longrightarrow> i = (j :: nat)"
  by (metis div_mult_mod_eq)

lemma bit_free_set [simp]: "bit_free (bit_set i d) j \<longleftrightarrow> j \<noteq> i \<and> bit_free d j"
  using same_bit [of i j] unfolding bit_free_iff bit_set_def by (auto simp: bit_or_iff bit_two_power push_bit_eq_mult)

lemma bit_free_clear [simp]: "bit_free (bit_clear i d) j \<longleftrightarrow> j = i \<or> bit_free d j"
  using same_bit [of i j] unfolding bit_free_iff bit_clear_def
  by (auto simp: bit_and_iff bit_not_iff bit_two_power push_bit_eq_mult)

text \<open>Is block \<open>b\<close> marked in use? The file system lies on the disk, and its bitmap within itself.\<close>

definition bm :: "'a logfs_scheme \<Rightarrow> nat \<Rightarrow> nat" where
  "bm s b = unat (sb_bmapstart (sb s)) + b div BPB"

definition fssize :: "'a logfs_scheme \<Rightarrow> nat" where "fssize s = unat (sb_size (sb s))"

definition allocated :: "'a logfs_scheme \<Rightarrow> nat \<Rightarrow> bool" where
  "allocated s b \<longleftrightarrow> \<not> bit_free (blk s (bm s b)) (b mod BPB)"

definition layout :: "'a logfs_scheme \<Rightarrow> bool" where
  "layout s \<longleftrightarrow> fssize s \<le> unat (disksize s) \<and> fssize s + BPB \<le> 2 ^ 31
     \<and> unat (sb_bmapstart (sb s)) + (fssize s + BPB - 1) div BPB \<le> fssize s"

text \<open>The bitmap's own blocks and the blocks that are held are in use; at most one block is held.\<close>

definition alloc_ok :: "'a logfs_scheme \<Rightarrow> bool" where
  "alloc_ok s \<longleftrightarrow> in_op s \<and> layout s \<and> card (held s) \<le> 1 \<and> held s \<inter> bitmap_blocks (sb s) = {}
     \<and> (\<forall>b \<in> bitmap_blocks (sb s) \<union> held s. b < fssize s \<longrightarrow> allocated s b)"

lemma BPB_pos: "BPB = 4096" by (simp add: BPB_def BSIZE_def)

lemma div_BPB_less: "b < fssize s \<Longrightarrow> b div BPB < (fssize s + BPB - 1) div BPB"
  unfolding BPB_pos by linarith

lemma unat_BBLOCK:
  assumes "layout s" "b < fssize s"
  shows "unat (BBLOCK (of_nat b) (sb s)) = bm s b" "bm s b < fssize s" "bm s b < unat (disksize s)"
    "bm s b \<in> bitmap_blocks (sb s)" "BBLOCK (of_nat b) (sb s) < disksize s"
proof -
  let ?v = "sb s"
  have l: "fssize s \<le> unat (disksize s)" "fssize s + BPB \<le> 2 ^ 31"
    "unat (sb_bmapstart ?v) + (fssize s + BPB - 1) div BPB \<le> fssize s"
    using assms(1) by (simp_all add: layout_def)
  show bm: "bm s b < fssize s" using div_BPB_less [OF assms(2)] l(3) by (simp add: bm_def)
  then show "bm s b < unat (disksize s)" using l by simp
  have b: "unat (of_nat b :: u32) = b" using assms(2) l(2) by (intro unat_of_nat_u32) simp
  have d: "unat ((of_nat b :: u32) div of_nat BPB) = b div BPB"
    by (simp add: unat_div_distrib b) (simp add: BPB_pos)
  have "unat ((of_nat b :: u32) div of_nat BPB) + unat (sb_bmapstart ?v) < 2 ^ 32"
    using bm l(2) by (simp add: d bm_def)
  then show u: "unat (BBLOCK (of_nat b) ?v) = bm s b"
    by (simp add: BBLOCK_def unat_word_ariths(1) take_bit_nat_eq_self bm_def d)
  show "bm s b \<in> bitmap_blocks ?v"
    using div_BPB_less [OF assms(2)] by (auto simp: bitmap_blocks_def bm_def fssize_def)
  show "BBLOCK (of_nat b) ?v < disksize s" using u \<open>bm s b < unat (disksize s)\<close> by (simp add: word_less_nat_alt)
qed

lemma bm_keeps: "sb s' = sb s \<Longrightarrow> bm s' = bm s" "sb s' = sb s \<Longrightarrow> fssize s' = fssize s"
  by (simp_all add: bm_def fssize_def fun_eq_iff)

lemma allocated_cong: "sb s' = sb s \<Longrightarrow> blk s' (bm s b) = blk s (bm s b) \<Longrightarrow> allocated s' b = allocated s b"
  by (simp add: allocated_def bm_keeps [of s' s])

lemma alloc_ok_txn_nil: "alloc_ok s \<Longrightarrow> txn s {} t \<Longrightarrow> alloc_ok t"
  using txn_eq [of s "{}" t] allocated_cong [of t s] bm_keeps [of t s] in_op_txn [of s "{}" t]
  by (simp add: alloc_ok_def layout_def)

section \<open>Allocation\<close>

text \<open>Block \<open>b\<close> has been taken: its bit is set, its bytes are zero, and no other block has changed.\<close>

definition taken :: "'a logfs_scheme \<Rightarrow> nat \<Rightarrow> 'a logfs_scheme \<Rightarrow> bool" where
  "taken s b s' \<longleftrightarrow> txn s {bm s b, b} s' \<and> (\<forall>k<BSIZE. blk s' b k = 0)
     \<and> blk s' (bm s b) = bit_set (b mod BPB) (blk s (bm s b))"

lemma bzero_spec:
  assumes "in_op s" "b < disksize s" "unat b \<notin> held s" "room s k" "card (held s) \<le> 1"
  obtains s' where "bzero ROOTDEV b s = Ok s'" "txn s {unat b} s'" "\<forall>k<BSIZE. blk s' (unat b) k = 0"
proof -
  obtain bp t where t: "bread ROOTDEV b s = Ok (bp, t)"
    "\<forall>d. \<exists>s'. bindr (log_write bp (set_data bp d t)) (brelse bp) = Ok s' \<and> txn s {unat b} s' \<and> blk s' (unat b) = d"
    by (rule poke_block [OF assms])
  obtain s' where s': "bindr (log_write bp (set_data bp (zero_bytes 0 BSIZE (data (bufs t bp))) t)) (brelse bp) = Ok s'"
    "txn s {unat b} s'" "blk s' (unat b) = zero_bytes 0 BSIZE (data (bufs t bp))"
    using t(2) by blast
  then show thesis using that t(1) by (simp add: bzero_def Let_def zero_bytes_def)
qed

lemma take_block:
  assumes ok: "alloc_ok s" and room: "room s 1" and b: "b < fssize s" and free: "\<not> allocated s b"
  obtains bp t u s' where "bread ROOTDEV (BBLOCK (of_nat b) (sb s)) s = Ok (bp, t)" "data (bufs t bp) = blk s (bm s b)"
    "bindr (log_write bp (set_data bp (bit_set (b mod BPB) (blk s (bm s b))) t)) (brelse bp) = Ok u"
    "bzero ROOTDEV (of_nat b) u = Ok s'" "taken s b s'"
proof -
  have s: "in_op s" "layout s" "card (held s) \<le> 1" using ok by (simp_all add: alloc_ok_def)
  note B = unat_BBLOCK [OF s(2) b]
  have bu: "unat (of_nat b :: u32) = b" "of_nat b < disksize s"
    using b s(2) unat_of_nat_u32 [of b] by (simp_all add: layout_def word_less_nat_alt)
  have bits: "allocated s c" if "c \<in> bitmap_blocks (sb s) \<union> held s" "c < fssize s" for c
    using ok that by (simp add: alloc_ok_def)
  have nb: "b \<notin> held s" "b \<notin> bitmap_blocks (sb s)" using bits [of b] b free by auto
  have disj: "held s \<inter> bitmap_blocks (sb s) = {}" using ok by (simp add: alloc_ok_def)
  have nh: "unat (BBLOCK (of_nat b) (sb s)) \<notin> held s" "b \<noteq> bm s b" using disj B(1,4) nb(2) by auto
  obtain bp t where t: "bread ROOTDEV (BBLOCK (of_nat b) (sb s)) s = Ok (bp, t)" "data (bufs t bp) = blk s (bm s b)"
    "\<forall>d. \<exists>s'. bindr (log_write bp (set_data bp d t)) (brelse bp) = Ok s' \<and> txn s {bm s b} s' \<and> blk s' (bm s b) = d"
    by (rule poke_block [OF s(1) B(5) nh(1) room s(3)], unfold B(1))
  obtain u where u: "bindr (log_write bp (set_data bp (bit_set (b mod BPB) (blk s (bm s b))) t)) (brelse bp) = Ok u"
    "txn s {bm s b} u" "blk u (bm s b) = bit_set (b mod BPB) (blk s (bm s b))"
    using t(3) by blast
  note ue = txn_eq [OF u(2)]
  have "card ({bm s b} - bitmap_blocks (sb s)) \<le> 0" using B(4) by simp
  then have ru: "room u 1" using room_txn [OF room u(2), of 0] by simp
  obtain s' where s': "bzero ROOTDEV (of_nat b) u = Ok s'" "txn u {unat (of_nat b :: u32)} s'"
    "\<forall>k<BSIZE. blk s' (unat (of_nat b :: u32)) k = 0"
  proof (rule bzero_spec [of u "of_nat b"])
    show "in_op u" using in_op_txn [OF s(1) u(2)] .
    show "room u 1" "(of_nat b :: u32) < disksize u" "unat (of_nat b :: u32) \<notin> held u" "card (held u) \<le> 1"
      using ue ru bu nb s(3) by simp_all
  qed
  have "txn s ({bm s b} \<union> {b}) s'" using txn_trans [OF u(2)] s'(2) bu(1) by metis
  moreover have "blk s' (bm s b) = blk u (bm s b)" using txn_eq(11) [OF s'(2), of "bm s b"] bu(1) nh(2) by simp
  ultimately have "taken s b s'" using s'(3) u(3) bu(1) by (simp add: taken_def insert_commute)
  then show thesis using that t(1,2) u(1) s'(1) by blast
qed

lemma taken_after: "txn s {} t \<Longrightarrow> taken t b u \<Longrightarrow> taken s b u"
  using txn_trans [of s "{}" t "{bm t b, b}" u] txn_eq [of s "{}" t] bm_keeps [of t s]
  by (simp add: taken_def)

lemma allocated_txn_nil: "txn s {} t \<Longrightarrow> allocated t = allocated s"
  using txn_eq [of s "{}" t] allocated_cong [of t s] by (simp add: fun_eq_iff)

lemma block_of_bit:
  assumes "i < BPB"
  shows "(j * BPB + i) div BPB = j" "(j * BPB + i) mod BPB = i"
  using assms by simp_all

lemma balloc_loop_spec:
  assumes "alloc_ok s" "room s 1" "j \<le> (fssize s + BPB - 1) div BPB"
  shows "(\<exists>c s'. balloc_loop ROOTDEV (map (\<lambda>k. k * BPB) [j..<(fssize s + BPB - 1) div BPB]) s = Ok (of_nat c, s')
        \<and> c < fssize s \<and> \<not> allocated s c \<and> (\<forall>d<c. j \<le> d div BPB \<longrightarrow> allocated s d) \<and> taken s c s')
    \<or> balloc_loop ROOTDEV (map (\<lambda>k. k * BPB) [j..<(fssize s + BPB - 1) div BPB]) s = Panic ''balloc: out of blocks''
        \<and> (\<forall>d<fssize s. j \<le> d div BPB \<longrightarrow> allocated s d)"
    (is "?took s j \<or> ?none s j")
  using assms
proof (induction "(fssize s + BPB - 1) div BPB - j" arbitrary: j s)
  case 0
  then have "j = (fssize s + BPB - 1) div BPB" by simp
  then have "\<not> j \<le> d div BPB" if "d < fssize s" for d using div_BPB_less [OF that] by simp
  then have "?none s j" using 0 by simp
  then show ?case ..
next
  case (Suc n)
  let ?K = "(fssize s + BPB - 1) div BPB"
  let ?b = "j * BPB"
  let ?f = "List.find (bit_free (blk s (bm s ?b))) [0..<min BPB (unat (sb_size (sb s)) - ?b)]"
  have j: "j < ?K" "?b < fssize s" using Suc.hyps(2) unfolding BPB_pos by linarith+
  have s: "in_op s" "layout s" "card (held s) \<le> 1" "held s \<inter> bitmap_blocks (sb s) = {}"
    using Suc.prems(1) by (simp_all add: alloc_ok_def)
  note B = unat_BBLOCK [OF s(2) j(2)]
  have same: "bm s (?b + i) = bm s ?b" "\<not> allocated s (?b + i) \<longleftrightarrow> bit_free (blk s (bm s ?b)) i" if "i < BPB" for i
    using block_of_bit [OF that] by (simp_all add: bm_def allocated_def BPB_pos)
  have step: "map (\<lambda>k. k * BPB) [j..<?K] = ?b # map (\<lambda>k. k * BPB) [Suc j..<?K]" using j by (simp add: upt_conv_Cons)
  have h: "unat (BBLOCK (of_nat ?b) (sb s)) \<notin> held s" using s(4) B(1,4) by auto
  obtain bp t v where t: "bread ROOTDEV (BBLOCK (of_nat ?b) (sb s)) s = Ok (bp, t)" "data (bufs t bp) = blk s (bm s ?b)"
    "brelse bp t = Ok v" "txn s {} v" "keeps s t"
    by (rule peek_block [OF in_op_ok [OF s(1)] B(5) h room_bread [OF Suc.prems(2) s(3)]], unfold B(1))
  have st: "sb t = sb s" using keeps_eq [OF t(5)] by simp
  show ?case
  proof (cases ?f)
    case None
    have full: "allocated s d" if "d < fssize s" "d div BPB = j" for d
    proof -
      have "d = ?b + d mod BPB" using that(2) by (metis div_mult_mod_eq)
      moreover have "d mod BPB < min BPB (unat (sb_size (sb s)) - ?b)"
        using calculation that(1) unfolding fssize_def by (simp add: BPB_pos)
      ultimately show ?thesis using None same(2) [of "d mod BPB"] by (auto simp: find_upt_None)
    qed
    have run: "balloc_loop ROOTDEV (map (\<lambda>k. k * BPB) [j..<?K]) s
        = balloc_loop ROOTDEV (map (\<lambda>k. k * BPB) [Suc j..<?K]) v"
      unfolding step using None t(1-3) st by simp
    have v: "fssize v = fssize s" "allocated v = allocated s" "alloc_ok v" "room v 1"
      using txn_eq [OF t(4)] bm_keeps [of v s] allocated_txn_nil [OF t(4)] alloc_ok_txn_nil [OF Suc.prems(1) t(4)]
        room_txn [OF Suc.prems(2) t(4), of 0] by simp_all
    have all: "allocated s d" if "d < fssize s" "j \<le> d div BPB" "Suc j \<le> d div BPB \<Longrightarrow> allocated s d" for d
      using that full [of d] by (cases "d div BPB = j") auto
    have "?took v (Suc j) \<or> ?none v (Suc j)"
      using Suc.hyps(1) [of v "Suc j"] Suc.hyps(2) v j(1) by simp
    then show ?thesis
    proof
      assume "?took v (Suc j)"
      then obtain c s' where c: "balloc_loop ROOTDEV (map (\<lambda>k. k * BPB) [Suc j..<?K]) v = Ok (of_nat c, s')"
        "c < fssize s" "\<not> allocated s c" "\<forall>d<c. Suc j \<le> d div BPB \<longrightarrow> allocated s d" "taken v c s'"
        unfolding v by blast
      have "allocated s d" if "d < c" "j \<le> d div BPB" for d
        using all [of d] that c(2,4) by simp
      then have "?took s j"
        unfolding run using c taken_after [OF t(4) c(5)]
        by (intro exI [of _ c] exI [of _ s'] conjI allI impI) auto
      then show ?thesis ..
    next
      assume "?none v (Suc j)"
      then have "?none s j" unfolding run using all v by auto
      then show ?thesis ..
    qed
  next
    case (Some i)
    then have i: "i < BPB" "?b + i < fssize s" "bit_free (blk s (bm s ?b)) i" "\<forall>k<i. \<not> bit_free (blk s (bm s ?b)) k"
      by (auto simp: find_upt_Some fssize_def)
    note c = same [OF i(1)]
    have eq: "BBLOCK (of_nat (?b + i)) (sb s) = BBLOCK (of_nat ?b) (sb s)"
      using unat_BBLOCK(1) [OF s(2) i(2)] B(1) c(1) by (simp add: word_unat_eq_iff)
    have nal: "\<not> allocated s (?b + i)" using c(2) i(3) by simp
    obtain bp' t' u s' where u: "bread ROOTDEV (BBLOCK (of_nat (?b + i)) (sb s)) s = Ok (bp', t')"
      "data (bufs t' bp') = blk s (bm s (?b + i))"
      "bindr (log_write bp' (set_data bp' (bit_set ((?b + i) mod BPB) (blk s (bm s (?b + i)))) t')) (brelse bp') = Ok u"
      "bzero ROOTDEV (of_nat (?b + i)) u = Ok s'" "taken s (?b + i) s'"
      using take_block [OF Suc.prems(1,2) i(2) nal] .
    have "bp' = bp" "t' = t" using u(1) t(1) unfolding eq by simp_all
    then have w: "bindr (log_write bp (set_data bp (bit_set i (blk s (bm s ?b))) t)) (brelse bp) = Ok u"
      using u(3) block_of_bit [OF i(1)] c(1) by simp
    obtain w' where w': "log_write bp (set_data bp (bit_set i (blk s (bm s ?b))) t) = Ok w'" "brelse bp w' = Ok u"
      using w by (auto elim: bindr_OkE)
    have "balloc_loop ROOTDEV (map (\<lambda>k. k * BPB) [j..<?K]) s = Ok (of_nat (?b + i), s')"
      unfolding step using Some t(1,2) st w' u(4) by (simp add: Let_def)
    moreover have "allocated s d" if "d < ?b + i" "j \<le> d div BPB" for d
    proof -
      have "d div BPB = j" using that i(1) unfolding BPB_pos by linarith
      then have d: "d = ?b + d mod BPB" by (metis div_mult_mod_eq)
      then have "d mod BPB < i" using that(1) by linarith
      then show ?thesis using i same(2) [of "d mod BPB"] d by (simp add: BPB_pos)
    qed
    ultimately have "?took s j" using i(2) nal u(5) by blast
    then show ?thesis ..
  qed
qed

lemma balloc_spec:
  assumes "alloc_ok s" "room s 1"
  shows "(\<exists>c s'. balloc ROOTDEV s = Ok (of_nat c, s') \<and> c < fssize s \<and> \<not> allocated s c \<and> (\<forall>d<c. allocated s d) \<and> taken s c s')
    \<or> balloc ROOTDEV s = Panic ''balloc: out of blocks'' \<and> (\<forall>d<fssize s. allocated s d)"
  using balloc_loop_spec [OF assms, of 0] by (simp add: balloc_def fssize_def)

lemma other_bit: "bm s d = bm s c \<Longrightarrow> d mod BPB = c mod BPB \<Longrightarrow> d = c"
  unfolding bm_def by (metis add_left_cancel div_mult_mod_eq)

lemma taken_allocated:
  assumes "alloc_ok s" "c < fssize s" "\<not> allocated s c" "taken s c s'" "d < fssize s"
  shows "allocated s' d \<longleftrightarrow> d = c \<or> allocated s d"
proof -
  have t: "txn s {bm s c, c} s'" "blk s' (bm s c) = bit_set (c mod BPB) (blk s (bm s c))"
    using assms(4) by (simp_all add: taken_def)
  have l: "layout s" using assms(1) by (simp add: alloc_ok_def)
  have "c \<notin> bitmap_blocks (sb s)" using assms(1-3) by (auto simp: alloc_ok_def)
  then have dc: "bm s d \<noteq> c" using unat_BBLOCK(4) [OF l assms(5)] by auto
  have bm: "bm s' d = bm s d" using bm_keeps [of s' s] txn_eq(1) [OF t(1)] by simp
  show ?thesis
  proof (cases "bm s d = bm s c")
    case True
    have "allocated s' d \<longleftrightarrow> \<not> (d mod BPB \<noteq> c mod BPB \<and> bit_free (blk s (bm s c)) (d mod BPB))"
      unfolding allocated_def bm True t(2) bit_free_set ..
    then show ?thesis using other_bit [OF True] True by (auto simp: allocated_def)
  next
    case False
    then have "blk s' (bm s d) = blk s (bm s d)" using txn_eq(11) [OF t(1), of "bm s d"] dc by simp
    moreover have "d \<noteq> c" using False by blast
    ultimately show ?thesis by (simp add: allocated_def bm)
  qed
qed

lemma taken_alloc_ok:
  assumes "alloc_ok s" "c < fssize s" "\<not> allocated s c" "taken s c s'"
  shows "alloc_ok s'"
proof -
  have t: "txn s {bm s c, c} s'" using assms(4) by (simp add: taken_def)
  show ?thesis
    using assms(1) txn_eq [OF t] in_op_txn [OF _ t] bm_keeps [of s' s] taken_allocated [OF assms] by (simp add: alloc_ok_def layout_def)
qed

lemma bfree_spec:
  assumes ok: "alloc_ok s" and room: "room s 0" and b: "b < fssize s"
  shows "if allocated s b
    then \<exists>s'. bfree ROOTDEV (of_nat b) s = Ok s' \<and> txn s {bm s b} s' \<and> blk s' (bm s b) = bit_clear (b mod BPB) (blk s (bm s b))
    else bfree ROOTDEV (of_nat b) s = Panic ''freeing free block''"
proof -
  have s: "in_op s" "layout s" "card (held s) \<le> 1" "held s \<inter> bitmap_blocks (sb s) = {}"
    using ok by (simp_all add: alloc_ok_def)
  note B = unat_BBLOCK [OF s(2) b]
  have bu: "unat (of_nat b :: u32) = b" using b s(2) unat_of_nat_u32 [of b] by (simp add: layout_def)
  have h: "unat (BBLOCK (of_nat b) (sb s)) \<notin> held s" using s(4) B(1,4) by auto
  obtain bp t where t: "bread ROOTDEV (BBLOCK (of_nat b) (sb s)) s = Ok (bp, t)" "data (bufs t bp) = blk s (bm s b)"
    "\<forall>d. \<exists>s'. bindr (log_write bp (set_data bp d t)) (brelse bp) = Ok s' \<and> txn s {bm s b} s' \<and> blk s' (bm s b) = d"
    by (rule poke_block [OF s(1) B(5) h room s(3)], unfold B(1))
  show ?thesis
  proof (cases "allocated s b")
    case True
    then show ?thesis using t by (simp add: bfree_def allocated_def Let_def bu)
  next
    case False
    then show ?thesis using t by (simp add: bfree_def allocated_def Let_def bu)
  qed
qed

lemma freed_allocated:
  assumes "alloc_ok s" "b < fssize s" "b \<notin> bitmap_blocks (sb s)" "d < fssize s"
    and t: "txn s {bm s b} s'" "blk s' (bm s b) = bit_clear (b mod BPB) (blk s (bm s b))"
  shows "allocated s' d \<longleftrightarrow> d \<noteq> b \<and> allocated s d"
proof -
  have bm: "bm s' d = bm s d" using bm_keeps [of s' s] txn_eq(1) [OF t(1)] by simp
  show ?thesis
  proof (cases "bm s d = bm s b")
    case True
    have "allocated s' d \<longleftrightarrow> \<not> (d mod BPB = b mod BPB \<or> bit_free (blk s (bm s b)) (d mod BPB))"
      unfolding allocated_def bm True t(2) bit_free_clear ..
    then show ?thesis using other_bit [OF True] True by (auto simp: allocated_def)
  next
    case False
    then have "blk s' (bm s d) = blk s (bm s d)" using txn_eq(11) [OF t(1), of "bm s d"] by simp
    moreover have "d \<noteq> b" using False by blast
    ultimately show ?thesis by (simp add: allocated_def bm)
  qed
qed

text \<open>How many blocks are free.\<close>

definition nfree :: "'a logfs_scheme \<Rightarrow> nat" where
  "nfree s = card {c. c < fssize s \<and> \<not> allocated s c}"

lemma nfree_taken:
  assumes "alloc_ok s" "c < fssize s" "\<not> allocated s c" "taken s c s'"
  shows "nfree s = Suc (nfree s')"
proof -
  have "fssize s' = fssize s" using assms(4) txn_eq(1) bm_keeps(2) unfolding taken_def by metis
  then have "{d. d < fssize s \<and> \<not> allocated s d} = insert c {d. d < fssize s' \<and> \<not> allocated s' d}"
    using assms taken_allocated [OF assms] by auto
  moreover have "c \<notin> {d. d < fssize s' \<and> \<not> allocated s' d}" using taken_allocated [OF assms assms(2)] by simp
  ultimately show ?thesis by (simp add: nfree_def)
qed

lemma balloc_succeeds:
  assumes "alloc_ok s" "room s 1" "0 < nfree s"
  obtains c s' where "balloc ROOTDEV s = Ok (of_nat c, s')" "c < fssize s" "\<not> allocated s c" "taken s c s'"
proof -
  have "\<exists>c. c < fssize s \<and> \<not> allocated s c" using assms(3) unfolding nfree_def card_gt_0_iff by blast
  then show thesis using balloc_spec [OF assms(1,2)] that by blast
qed

text \<open>
  C18: \<open>balloc\<close> is exact. Inside an operation with room for one more block, it returns the first block of the
  file system whose bit is clear: that block's bit becomes set and no other, its bytes are zero, and no block
  but it and its bitmap block changes; these two are in the transaction. When every bit is set it panics.
\<close>

theorem balloc_takes_first_free:
  assumes "alloc_ok s" and "room s 1"
  shows "(\<exists>c s'. balloc ROOTDEV s = Ok (of_nat c, s') \<and> c < fssize s \<and> \<not> allocated s c \<and> (\<forall>d<c. allocated s d)
        \<and> (\<forall>d<fssize s. allocated s' d \<longleftrightarrow> d = c \<or> allocated s d)
        \<and> (\<forall>k<BSIZE. blk s' c k = 0) \<and> (\<forall>n. n \<noteq> c \<and> n \<noteq> bm s c \<longrightarrow> blk s' n = blk s n)
        \<and> pinned s' = {bm s c, c} \<union> pinned s \<and> alloc_ok s')
    \<or> balloc ROOTDEV s = Panic ''balloc: out of blocks'' \<and> (\<forall>d<fssize s. allocated s d)"
proof (cases "\<forall>d<fssize s. allocated s d")
  case True
  then show ?thesis using balloc_spec [OF assms] by blast
next
  case False
  then obtain c s' where c: "balloc ROOTDEV s = Ok (of_nat c, s')" "c < fssize s" "\<not> allocated s c" "\<forall>d<c. allocated s d"
    "taken s c s'"
    using balloc_spec [OF assms] by blast
  have t: "txn s {bm s c, c} s'" using c(5) by (simp add: taken_def)
  have "(\<forall>k<BSIZE. blk s' c k = 0) \<and> (\<forall>n. n \<noteq> c \<and> n \<noteq> bm s c \<longrightarrow> blk s' n = blk s n)"
    using c(5) txn_eq(11) [OF t] by (simp add: taken_def)
  then show ?thesis
    using c txn_eq(10) [OF t] taken_allocated [OF assms(1) c(2,3,5)] taken_alloc_ok [OF assms(1) c(2,3,5)] by blast
qed

text \<open>
  \<open>bfree\<close> gives back exactly one block: of a block in use it clears the bit, keeps every other bit and
  every block but the bitmap block, and a following \<open>balloc\<close> may hand it out again; a block that is free
  already makes it panic.
\<close>

theorem bfree_frees_one:
  assumes "alloc_ok s" and "room s 0" and "b < fssize s" and "b \<notin> bitmap_blocks (sb s)"
  shows "if allocated s b
    then \<exists>s'. bfree ROOTDEV (of_nat b) s = Ok s' \<and> (\<forall>d<fssize s. allocated s' d \<longleftrightarrow> d \<noteq> b \<and> allocated s d)
      \<and> (\<forall>n. n \<noteq> bm s b \<longrightarrow> blk s' n = blk s n) \<and> pinned s' = insert (bm s b) (pinned s)
    else bfree ROOTDEV (of_nat b) s = Panic ''freeing free block''"
proof (cases "allocated s b")
  case True
  then obtain s' where s': "bfree ROOTDEV (of_nat b) s = Ok s'" "txn s {bm s b} s'"
    "blk s' (bm s b) = bit_clear (b mod BPB) (blk s (bm s b))"
    using bfree_spec [OF assms(1-3)] by auto
  have "(\<forall>n. n \<noteq> bm s b \<longrightarrow> blk s' n = blk s n) \<and> pinned s' = insert (bm s b) (pinned s)"
    using txn_eq(10,11) [OF s'(2)] by simp
  then show ?thesis using True s'(1) freed_allocated [OF assms(1,3,4) _ s'(2,3)] by auto
next
  case False
  then show ?thesis using bfree_spec [OF assms(1-3)] by simp
qed

section \<open>A sample file system\<close>

text \<open>
  A file system of 1000 blocks as \<open>mkfs\<close> lays it out: log from block 2, inodes from 32, bitmap in 58; the
  blocks up to 58 are marked, those behind are free.
\<close>

definition sample_sb :: superblock where
  "sample_sb = \<lparr>sb_size = 1000, sb_nblocks = 941, sb_ninodes = 200, sb_nlog = 30, sb_logstart = 2, sb_inodestart = 32,
     sb_bmapstart = 58\<rparr>"

definition sample_disk :: "nat \<Rightarrow> block" where
  "sample_disk n i = (if n = 58 then (if i < 7 then 255 else if i = 7 then 7 else 0) else 0)"

definition sample_fs :: "'a logfs_scheme \<Rightarrow> bool" where
  "sample_fs s \<longleftrightarrow> bio_ok s \<and> log s = log log0 \<and> sb s = sample_sb \<and> disksize s = 1000 \<and> blk s = sample_disk
     \<and> pinned s = {} \<and> held s = {}"

lemma sample_fs_binit:
  assumes "\<forall>j. idle_buf (bufs s j)" "log s = log log0" "sb s = sample_sb" "disksize s = 1000" "disk s = sample_disk"
  shows "sample_fs (binit s)"
proof -
  have "log (binit s) = log s" "sb (binit s) = sb s" "disksize (binit s) = disksize s" by (subst binit_frame, simp)+
  then show ?thesis using binit_ok [OF assms(1)] assms by (simp add: sample_fs_def)
qed

lemma sample_bitmap: "bitmap_blocks sample_sb = {58}"
  by (simp add: bitmap_blocks_def sample_sb_def BPB_pos lessThan_Suc)

lemma bit_255: "i < 8 \<Longrightarrow> bit (255 :: u8) i"
proof -
  have "(255 :: u8) = mask 8" by (simp add: mask_eq_exp_minus_1)
  then show "i < 8 \<Longrightarrow> bit (255 :: u8) i" unfolding \<open>255 = mask 8\<close> bit_mask_iff by simp
qed

lemma bit_7: "i < 8 \<Longrightarrow> bit (7 :: u8) i \<longleftrightarrow> i < 3"
proof -
  have "(7 :: u8) = mask 3" by (simp add: mask_eq_exp_minus_1)
  then show "i < 8 \<Longrightarrow> bit (7 :: u8) i \<longleftrightarrow> i < 3" unfolding \<open>7 = mask 3\<close> bit_mask_iff by auto
qed

lemma sample_allocated:
  assumes "sample_fs s" "b < 1000"
  shows "allocated s b \<longleftrightarrow> b < 59" "bm s b = 58"
proof -
  show bm: "bm s b = 58" using assms by (simp add: bm_def sample_fs_def sample_sb_def BPB_pos)
  have "b div 8 < 7 \<longleftrightarrow> b < 56" "b div 8 = 7 \<Longrightarrow> (b mod 8 < 3 \<longleftrightarrow> b < 59)" "b div 8 > 7 \<longleftrightarrow> b \<ge> 64"
    using div_mult_mod_eq [of b 8] by linarith+
  then show "allocated s b \<longleftrightarrow> b < 59"
    using assms bm bit_255 [of "b mod 8"] bit_7 [of "b mod 8"]
    by (auto simp: allocated_def bit_free_iff sample_fs_def sample_disk_def BPB_pos)
qed

lemma sample_alloc_ok:
  assumes "sample_fs s"
  shows "alloc_ok s" "n < 28 \<Longrightarrow> room s n"
proof -
  have s: "fssize s = 1000" "bitmap_blocks (sb s) = {58}" "unat (sb_bmapstart (sb s)) = 58"
    using assms sample_bitmap by (auto simp: fssize_def sample_fs_def) (simp_all add: sample_sb_def)
  show "alloc_ok s"
    using assms s sample_allocated [OF assms, of 58] log0_log
    by (simp add: alloc_ok_def in_op_def log_ok_def layout_def sample_fs_def BPB_pos)
  show "n < 28 \<Longrightarrow> room s n" using assms s(2) log0_log by (simp add: room_def sample_fs_def)
qed

definition logfs0 :: logfs where
  "logfs0 = binit (log0\<lparr>disk := sample_disk, sb := sample_sb\<rparr>)"

lemma sample_logfs0: "sample_fs logfs0"
  unfolding logfs0_def
  by (rule sample_fs_binit) (simp_all add: log0_def bcache0_def kmem0_def kmem.defs bcache.defs logfs.defs idle_zero_buf)

theorem balloc_takes_first_free_witness:
  "\<exists>s'. balloc ROOTDEV logfs0 = Ok (59, s') \<and> allocated s' 59 \<and> \<not> allocated s' 60"
proof -
  have f: "fssize logfs0 = 1000" using sample_logfs0 by (simp add: fssize_def sample_fs_def sample_sb_def)
  note a = sample_allocated [OF sample_logfs0]
  obtain c s' where c: "balloc ROOTDEV logfs0 = Ok (of_nat c, s')" "c < 1000" "\<not> allocated logfs0 c"
    "\<forall>d<c. allocated logfs0 d" "\<forall>d<1000. allocated s' d \<longleftrightarrow> d = c \<or> allocated logfs0 d"
    using balloc_takes_first_free [OF sample_alloc_ok(1) [OF sample_logfs0] sample_alloc_ok(2) [OF sample_logfs0]] a(1) [of 999]
    unfolding f by auto
  have "\<not> c < 59" using c(2,3) a(1) [of c] by simp
  moreover have "\<not> 59 < c" using c(4) a(1) [of 59] by auto
  ultimately have "c = 59" by simp
  then show ?thesis using c a by auto
qed

theorem bfree_frees_one_witness:
  "bfree ROOTDEV 60 logfs0 = Panic ''freeing free block'' \<and> (\<exists>s'. bfree ROOTDEV 57 logfs0 = Ok s' \<and> \<not> allocated s' 57)"
proof -
  have f: "fssize logfs0 = 1000" "bitmap_blocks (sb logfs0) = {58}"
    using sample_logfs0 sample_bitmap by (auto simp: fssize_def sample_fs_def sample_sb_def)
  note a = sample_allocated [OF sample_logfs0]
  note free = bfree_frees_one [OF sample_alloc_ok(1) [OF sample_logfs0] sample_alloc_ok(2) [OF sample_logfs0]]
  show ?thesis using free [of 60] free [of 57] a [of 57] a [of 60] f by auto
qed

end
