(* ===== verification/FileData.thy ===== *)
theory FileData
  imports Balloc Fs
begin

text \<open>
  Files as arrays of bytes: \<open>bmap\<close>, \<open>readi\<close> and \<open>writei\<close> of \<open>fs.c\<close>. A file is abstracted to the function from
  offsets to bytes that its blocks hold (\<open>fbyte\<close>, zero where no block is mapped). \<open>bmap\<close> does not change it,
  \<open>readi\<close> returns a piece of it, and \<open>writei\<close> replaces a piece.
\<close>

section \<open>States that differ in the inode cache\<close>

lemma inodes_upd [simp]:
  "bufs (s\<lparr>inodes := x\<rparr>) = bufs s" "disk (s\<lparr>inodes := x\<rparr>) = disk s" "disksize (s\<lparr>inodes := x\<rparr>) = disksize s"
  "log (s\<lparr>inodes := x\<rparr>) = log s" "sb (s\<lparr>inodes := x\<rparr>) = sb s" "myproc (s\<lparr>inodes := x\<rparr>) = myproc s"
  "blk (s\<lparr>inodes := x\<rparr>) = blk s" "pinned (s\<lparr>inodes := x\<rparr>) = pinned s" "held (s\<lparr>inodes := x\<rparr>) = held s"
  "bm (s\<lparr>inodes := x\<rparr>) = bm s" "fssize (s\<lparr>inodes := x\<rparr>) = fssize s"
  by (simp_all add: myproc_def blk_def pinned_def held_def bm_def fssize_def fun_eq_iff split: option.split)

lemma inodes_upd_preds [simp]:
  "holds (s\<lparr>inodes := x\<rparr>) j m = holds s j m" "bio_ok (s\<lparr>inodes := x\<rparr>) = bio_ok s" "log_ok (s\<lparr>inodes := x\<rparr>) = log_ok s"
  "allocated (s\<lparr>inodes := x\<rparr>) = allocated s" "room (s\<lparr>inodes := x\<rparr>) n = room s n" "in_op (s\<lparr>inodes := x\<rparr>) = in_op s"
proof -
  have "nx (s\<lparr>inodes := x\<rparr>) = nx s" "pv (s\<lparr>inodes := x\<rparr>) = pv s" by (simp_all add: nx_def pv_def fun_eq_iff)
  then have r: "ring_ok (s\<lparr>inodes := x\<rparr>) = ring_ok s" by (rule ring_ok_cong)
  show "holds (s\<lparr>inodes := x\<rparr>) j m = holds s j m" by (simp add: holds_def cached_def holding_buf_def)
  show b: "bio_ok (s\<lparr>inodes := x\<rparr>) = bio_ok s" using r by (simp add: bio_ok_def buf_ok_def)
  show l: "log_ok (s\<lparr>inodes := x\<rparr>) = log_ok s" using b by (simp add: log_ok_def)
  show "allocated (s\<lparr>inodes := x\<rparr>) = allocated s" by (simp add: allocated_def fun_eq_iff)
  show "room (s\<lparr>inodes := x\<rparr>) n = room s n" by (simp add: room_def)
  show "in_op (s\<lparr>inodes := x\<rparr>) = in_op s" using l by (simp add: in_op_def)
qed

lemma alloc_ok_inodes [simp]: "alloc_ok (s\<lparr>inodes := x\<rparr>) = alloc_ok s" "nfree (s\<lparr>inodes := x\<rparr>) = nfree s"
  by (simp_all add: alloc_ok_def layout_def nfree_def)

lemma inodes_keeps: "keeps s s' \<Longrightarrow> inodes s' = inodes s"
proof -
  assume "keeps s s'"
  then have "bio_frame (s\<lparr>log := log s'\<rparr>) s'" by (simp add: keeps_def log_frame_def)
  then have e: "s' = s\<lparr>log := log s', procs := procs s', bufs := bufs s', disk := disk s', iolog := iolog s'\<rparr>"
    by (simp add: bio_frame_def)
  show ?thesis by (subst e) simp
qed

lemma keeps_inodes: "keeps s t \<Longrightarrow> keeps (s\<lparr>inodes := x\<rparr>) (t\<lparr>inodes := x\<rparr>)"
proof -
  assume k: "keeps s t"
  then have f: "bio_frame (s\<lparr>log := log t\<rparr>) t" by (simp add: keeps_def log_frame_def)
  then have e: "t = s\<lparr>log := log t, procs := procs t, bufs := bufs t, disk := disk t, iolog := iolog t\<rparr>"
    by (simp add: bio_frame_def)
  have "t\<lparr>inodes := x\<rparr> = s\<lparr>inodes := x, log := log t, procs := procs t, bufs := bufs t, disk := disk t, iolog := iolog t\<rparr>"
    by (subst e) simp
  then show ?thesis using k f by (simp add: keeps_def log_frame_def bio_frame_def)
qed

text \<open>A transaction step of the file system, which may also change the cached inodes.\<close>

definition ftxn :: "'a icache_scheme \<Rightarrow> nat set \<Rightarrow> 'a icache_scheme \<Rightarrow> bool" where
  "ftxn s W s' \<longleftrightarrow> txn (s\<lparr>inodes := inodes s'\<rparr>) W s'"

lemma txn_inodes: "txn s W t \<Longrightarrow> txn (s\<lparr>inodes := x\<rparr>) W (t\<lparr>inodes := x\<rparr>)"
  unfolding txn_def using keeps_inodes by auto

lemma ftxn_txn: "txn s W s' \<Longrightarrow> ftxn s W s'"
  using inodes_keeps [of s s'] by (simp add: ftxn_def txn_def)

lemma ftxn_trans: "ftxn s V t \<Longrightarrow> ftxn t W u \<Longrightarrow> ftxn s (V \<union> W) u"
  unfolding ftxn_def using txn_inodes [of "s\<lparr>inodes := inodes t\<rparr>" V t "inodes u"] by (auto elim: txn_trans)

lemma ftxn_upd [simp]: "log_ok s \<Longrightarrow> ftxn s {} (upd_inode i f s)"
  by (simp add: ftxn_def upd_inode_def txn_refl)

lemma ftxn_eq:
  assumes "ftxn s W s'"
  shows "sb s' = sb s" "disksize s' = disksize s" "log_ok s'" "held s' = held s" "pinned s' = W \<union> pinned s"
    "n \<notin> W \<Longrightarrow> blk s' n = blk s n" "bm s' = bm s" "fssize s' = fssize s" "outstanding (log s') = outstanding (log s)"
    "lsize (log s') = lsize (log s)" "curproc s' = curproc s" "pid (myproc s') = pid (myproc s)"
  using txn_eq [OF assms [unfolded ftxn_def]] bm_keeps [of s' s] by simp_all

lemma room_ftxn:
  assumes "room s n" "ftxn s W s'" "card (W - bitmap_blocks (sb s)) \<le> k" "k \<le> n"
  shows "room s' (n - k)"
  using room_txn [of "s\<lparr>inodes := inodes s'\<rparr>" n W s' k] assms unfolding ftxn_def by simp

section \<open>The blocks of a file\<close>

lemma sizes: "NDIRECT = 12" "NINDIRECT = 128" "MAXFILE = 140" "BSIZE = 512"
  by (simp_all add: NDIRECT_def NINDIRECT_def MAXFILE_def BSIZE_def)

text \<open>
  The disk block of block \<open>k\<close> of a file, 0 if there is none; \<open>slot\<close> adds the indirect block as number
  \<open>MAXFILE\<close>. \<open>iblock\<close> is the block of the inode itself.
\<close>

definition indirect :: "'a icache_scheme \<Rightarrow> nat \<Rightarrow> nat" where
  "indirect s i = unat (addrs (inodes s i) NDIRECT)"

definition fblk :: "'a icache_scheme \<Rightarrow> nat \<Rightarrow> nat \<Rightarrow> nat" where
  "fblk s i k =
     (if k < NDIRECT then unat (addrs (inodes s i) k)
      else if indirect s i = 0 then 0
      else unat (rd32 (blk s (indirect s i)) (4 * (k - NDIRECT))))"

definition slot :: "'a icache_scheme \<Rightarrow> nat \<Rightarrow> nat \<Rightarrow> nat" where
  "slot s i k = (if k < MAXFILE then fblk s i k else indirect s i)"

definition iblock :: "'a icache_scheme \<Rightarrow> nat \<Rightarrow> nat" where
  "iblock s i = unat (IBLOCK (inum (inodes s i)) (sb s))"

definition fbyte :: "'a icache_scheme \<Rightarrow> nat \<Rightarrow> nat \<Rightarrow> u8" where
  "fbyte s i x = (if fblk s i (x div BSIZE) = 0 then 0 else blk s (fblk s i (x div BSIZE)) (x mod BSIZE))"

text \<open>A block that a file may own: in use, and not one of the bitmap.\<close>

definition owned :: "'a logfs_scheme \<Rightarrow> nat \<Rightarrow> bool" where
  "owned s n \<longleftrightarrow> n < fssize s \<and> allocated s n \<and> n \<notin> bitmap_blocks (sb s)"

text \<open>The file's blocks are owned and distinct, from each other and from the inode's block.\<close>

definition file_ok :: "'a icache_scheme \<Rightarrow> nat \<Rightarrow> bool" where
  "file_ok s i \<longleftrightarrow> idev (inodes s i) = ROOTDEV \<and> allocated s 0 \<and> owned s (iblock s i)
     \<and> (\<forall>k\<le>MAXFILE. slot s i k \<noteq> 0 \<longrightarrow> owned s (slot s i k) \<and> slot s i k \<noteq> iblock s i)
     \<and> (\<forall>k\<le>MAXFILE. \<forall>l\<le>MAXFILE. slot s i k = slot s i l \<and> slot s i k \<noteq> 0 \<longrightarrow> k = l)"

lemma file_okD:
  assumes "file_ok s i"
  shows "idev (inodes s i) = ROOTDEV" "allocated s 0" "owned s (iblock s i)"
    "k \<le> MAXFILE \<Longrightarrow> slot s i k \<noteq> 0 \<Longrightarrow> owned s (slot s i k)"
    "k \<le> MAXFILE \<Longrightarrow> slot s i k \<noteq> 0 \<Longrightarrow> slot s i k \<noteq> iblock s i"
    "k \<le> MAXFILE \<Longrightarrow> l \<le> MAXFILE \<Longrightarrow> slot s i k = slot s i l \<Longrightarrow> slot s i k \<noteq> 0 \<Longrightarrow> k = l"
  using assms by (simp_all add: file_ok_def)

lemma slot_simps: "k < MAXFILE \<Longrightarrow> slot s i k = fblk s i k" "slot s i MAXFILE = indirect s i"
  by (simp_all add: slot_def)

lemma owned_disk: "owned s n \<Longrightarrow> layout s \<Longrightarrow> n < unat (disksize s)"
  by (simp add: owned_def layout_def)

lemma fblk_cong:
  assumes "addrs (inodes s' i) = addrs (inodes s i)" "indirect s i \<noteq> 0 \<Longrightarrow> blk s' (indirect s i) = blk s (indirect s i)"
  shows "fblk s' i = fblk s i" "slot s' i = slot s i" "indirect s' i = indirect s i"
proof -
  show i: "indirect s' i = indirect s i" by (simp add: indirect_def assms(1))
  have "fblk s' i k = fblk s i k" for k
    using i assms by (cases "indirect s i = 0") (simp_all add: fblk_def)
  then show "fblk s' i = fblk s i" "slot s' i = slot s i" using i by (simp_all add: slot_def fun_eq_iff)
qed

section \<open>Growing a file\<close>

text \<open>Slot \<open>k\<close> of the file, empty so far, gets the free block \<open>c\<close>; the blocks \<open>W\<close> are logged.\<close>

definition grow :: "'a icache_scheme \<Rightarrow> nat \<Rightarrow> nat \<Rightarrow> nat \<Rightarrow> nat set \<Rightarrow> 'a icache_scheme \<Rightarrow> bool" where
  "grow s i k c W s' \<longleftrightarrow> ftxn s W s' \<and> inodes s' = (inodes s)(i := (inodes s i)\<lparr>addrs := addrs (inodes s' i)\<rparr>)
     \<and> (\<forall>l\<le>MAXFILE. slot s' i l = (if l = k then c else slot s i l))
     \<and> c < fssize s \<and> \<not> allocated s c \<and> (\<forall>d<fssize s. allocated s' d \<longleftrightarrow> d = c \<or> allocated s d)
     \<and> alloc_ok s' \<and> (\<forall>m<BSIZE. k < MAXFILE \<longrightarrow> blk s' c m = 0)
     \<and> (\<forall>n\<in>W. n \<in> bitmap_blocks (sb s) \<or> n = c \<or> n = indirect s i \<and> n \<noteq> 0) \<and> nfree s = Suc (nfree s')"

lemma grow_file_ok:
  assumes ok: "file_ok s i" "alloc_ok s" "k \<le> MAXFILE" "slot s i k = 0" and g: "grow s i k c W s'"
  shows "file_ok s' i" "x < MAXFILE * BSIZE \<Longrightarrow> fbyte s' i x = fbyte s i x"
proof -
  have f: "ftxn s W s'" "inodes s' = (inodes s)(i := (inodes s i)\<lparr>addrs := addrs (inodes s' i)\<rparr>)"
    "c < fssize s" "\<not> allocated s c" "alloc_ok s'"
    using g by (simp_all add: grow_def)
  have sl: "slot s' i l = (if l = k then c else slot s i l)" if "l \<le> MAXFILE" for l using g that by (simp add: grow_def)
  have al: "allocated s' d \<longleftrightarrow> d = c \<or> allocated s d" if "d < fssize s" for d using g that by (simp add: grow_def)
  note e = ftxn_eq [OF f(1)]
  have ind: "idev (inodes s' i) = idev (inodes s i)" "iblock s' i = iblock s i"
    by (subst f(2), simp) (subst iblock_def, subst f(2), simp add: e iblock_def)
  have c: "c \<notin> bitmap_blocks (sb s)" "c \<noteq> 0" "c \<noteq> iblock s i" "owned s' c"
    using ok(2) f(3-5) al file_okD(2,3) [OF ok(1)] e by (auto simp: alloc_ok_def owned_def)
  have mono: "owned s' n" if "owned s n" for n using that al e by (simp add: owned_def)
  have nc: "slot s i l \<noteq> c" if "l \<le> MAXFILE" for l
    using file_okD(4) [OF ok(1) that] c(2) f(4) by (auto simp: owned_def)
  show "file_ok s' i"
    unfolding file_ok_def ind
  proof (intro conjI allI impI)
    show "idev (inodes s i) = ROOTDEV" by (rule file_okD [OF ok(1)])
    show "allocated s' 0" using al [of 0] file_okD(2) [OF ok(1)] f(3) by simp
    show "owned s' (iblock s i)" using mono file_okD(3) [OF ok(1)] by blast
    fix l
    assume l: "l \<le> MAXFILE" "slot s' i l \<noteq> 0"
    then show "owned s' (slot s' i l)" "slot s' i l \<noteq> iblock s i"
      using sl [OF l(1)] c mono file_okD(4,5) [OF ok(1) l(1)] by (auto split: if_splits)
  next
    fix l m
    assume l: "l \<le> MAXFILE" "m \<le> MAXFILE" "slot s' i l = slot s' i m \<and> slot s' i l \<noteq> 0"
    then show "l = m"
      using sl [OF l(1)] sl [OF l(2)] nc file_okD(6) [OF ok(1) l(1,2)] by (metis)
  qed
  show "fbyte s' i x = fbyte s i x" if x: "x < MAXFILE * BSIZE"
  proof -
    let ?l = "x div BSIZE"
    have l: "?l < MAXFILE" using x by (simp add: sizes less_mult_imp_div_less)
    then have fb: "fblk s' i ?l = (if ?l = k then c else fblk s i ?l)" using sl [of ?l] by (simp add: slot_simps)
    have W: "n \<in> bitmap_blocks (sb s) \<or> n = c \<or> n = indirect s i \<and> n \<noteq> 0" if "n \<in> W" for n using g that by (simp add: grow_def)
    show ?thesis
    proof (cases "?l = k")
      case True
      then have "fblk s i ?l = 0" using ok(4) l by (simp add: slot_simps)
      moreover have "blk s' c (x mod BSIZE) = 0" using g True l by (simp add: grow_def sizes)
      ultimately show ?thesis using fb True by (simp add: fbyte_def)
    next
      case False
      have "blk s' (fblk s i ?l) = blk s (fblk s i ?l)" if "fblk s i ?l \<noteq> 0"
      proof (rule e(6))
        have "fblk s i ?l \<noteq> indirect s i"
          using file_okD(6) [OF ok(1), of ?l MAXFILE] l that by (auto simp: slot_simps)
        moreover have "fblk s i ?l \<noteq> c" "fblk s i ?l \<notin> bitmap_blocks (sb s)"
          using nc [of ?l] file_okD(4) [OF ok(1), of ?l] l that by (auto simp: slot_simps owned_def)
        ultimately show "fblk s i ?l \<notin> W" using W by blast
      qed
      then show ?thesis using fb False by (simp add: fbyte_def)
    qed
  qed
qed

lemma inodes_upd_inode: "inodes (upd_inode i f s) = (inodes s)(i := f (inodes s i))"
  by (simp add: upd_inode_def)

lemma upd_inode_views [simp]:
  "blk (upd_inode i f s) = blk s" "sb (upd_inode i f s) = sb s" "held (upd_inode i f s) = held s"
  "alloc_ok (upd_inode i f s) = alloc_ok s" "allocated (upd_inode i f s) = allocated s" "nfree (upd_inode i f s) = nfree s"
  "fssize (upd_inode i f s) = fssize s" "room (upd_inode i f s) n = room s n" "log_ok (upd_inode i f s) = log_ok s"
  "pinned (upd_inode i f s) = pinned s" "in_op (upd_inode i f s) = in_op s"
  by (simp_all add: upd_inode_def)

lemma bmap_block: "alloc_ok s \<Longrightarrow> c < fssize s \<Longrightarrow> bm s c \<in> bitmap_blocks (sb s)"
  by (rule unat_BBLOCK(4)) (simp_all add: alloc_ok_def)

lemma bitmap_blocks_less: "layout s \<Longrightarrow> n \<in> bitmap_blocks (sb s) \<Longrightarrow> n < fssize s"
  by (auto simp: bitmap_blocks_def layout_def fssize_def)

lemma unat_block: "alloc_ok s \<Longrightarrow> c < fssize s \<Longrightarrow> unat (of_nat c :: u32) = c"
  by (rule unat_of_nat_u32) (simp add: alloc_ok_def layout_def)

text \<open>A new direct block or a new indirect block: its number is stored in the cached inode.\<close>

lemma grow_addr:
  assumes ok: "file_ok s i" "alloc_ok s" and j: "j \<le> NDIRECT" "addrs (inodes s i) j = 0"
    and c: "c < fssize s" "\<not> allocated s c" "taken s c u"
  shows "grow s i (if j = NDIRECT then MAXFILE else j) c {bm s c, c}
    (upd_inode i (\<lambda>ip. ip\<lparr>addrs := (addrs ip)(j := of_nat c)\<rparr>) u)"
proof -
  let ?s' = "upd_inode i (\<lambda>ip. ip\<lparr>addrs := (addrs ip)(j := of_nat c)\<rparr>) u"
  have t: "txn s {bm s c, c} u" "\<forall>k<BSIZE. blk u c k = 0" using c(3) by (simp_all add: taken_def)
  have iu: "inodes u = inodes s" using t(1) by (simp add: txn_def inodes_keeps)
  have ftxn: "ftxn s {bm s c, c} ?s'"
    using ftxn_trans [OF ftxn_txn [OF t(1)] ftxn_upd [OF txn_eq(8) [OF t(1)]]] by simp
  have ci: "indirect s i \<noteq> 0 \<Longrightarrow> blk u (indirect s i) = blk s (indirect s i)"
  proof -
    assume "indirect s i \<noteq> 0"
    then have o: "owned s (indirect s i)" using file_okD(4) [OF ok(1), of MAXFILE] by (simp add: slot_simps)
    then have "indirect s i \<noteq> c" "indirect s i \<noteq> bm s c"
      using c(2) bmap_block [OF ok(2) c(1)] by (auto simp: owned_def)
    then show ?thesis using txn_eq(11) [OF t(1), of "indirect s i"] by simp
  qed
  have uc: "unat (of_nat c :: u32) = c" by (rule unat_block [OF ok(2) c(1)])
  have sl: "slot ?s' i l = (if l = (if j = NDIRECT then MAXFILE else j) then c else slot s i l)" if "l \<le> MAXFILE" for l
  proof (cases "j = NDIRECT")
    case True
    have z: "rd32 (blk u c) (4 * (l - NDIRECT)) = 0" if "l < MAXFILE"
      using t(2) that by (simp add: rd32_def sizes)
    show ?thesis
      using True j(2) that iu uc z
      by (cases "l < MAXFILE") (auto simp: slot_def fblk_def indirect_def inodes_upd_inode sizes)
  next
    case False
    then show ?thesis
      using j that iu uc ci by (auto simp: slot_def fblk_def indirect_def inodes_upd_inode sizes)
  qed
  have "inodes ?s' = (inodes s)(i := (inodes s i)\<lparr>addrs := addrs (inodes ?s' i)\<rparr>)"
    using iu by (simp add: inodes_upd_inode)
  then show ?thesis
    unfolding grow_def
    using ftxn sl c taken_allocated [OF ok(2) c] taken_alloc_ok [OF ok(2) c] nfree_taken [OF ok(2) c] t(2)
      bmap_block [OF ok(2) c(1)] by simp
qed

lemma alloc_ok_opened:
  assumes "alloc_ok s" "held s = {}" "opened s n bp t" "owned s n"
  shows "alloc_ok t" "nfree t = nfree s" "room t k = room s k" "bm t = bm s" "fssize t = fssize s" "allocated t = allocated s"
proof -
  have t: "keeps s t" "log_ok t" "pinned t = pinned s" "blk t = blk s" "held t = {n}"
    using assms(2,3) by (simp_all add: opened_def)
  note k = keeps_eq [OF t(1)]
  show bm: "bm t = bm s" "fssize t = fssize s" using bm_keeps [of t s] k by simp_all
  show al: "allocated t = allocated s" using allocated_cong [of t s] k t(4) by (simp add: fun_eq_iff)
  show "nfree t = nfree s" by (simp add: nfree_def bm al)
  show "room t k = room s k" using k t(3) by (simp add: room_def)
  show "alloc_ok t"
    using assms(1,4) k t al bm by (simp add: alloc_ok_def layout_def in_op_def owned_def)
qed

lemma rd32_put_entry: "rd32 (wr32 d (4 * n :: nat) v) (4 * k) = (if k = n then v else rd32 d (4 * k))"
  by (cases "k = n", simp, simp, rule rd32_wr32_other_nat, arith)

text \<open>The last part of \<open>bmap\<close>: an entry of the indirect block, which is filled in if it is empty.\<close>

definition bmap_entry :: "nat \<Rightarrow> u32 \<Rightarrow> nat \<Rightarrow> 'a icache_scheme \<Rightarrow> (u32 \<times> 'a icache_scheme) res" where
  "bmap_entry i addr bn s =
     bindr (bread ROOTDEV addr s) (\<lambda>(bp, s).
       let a = rd32 (data (bufs s bp)) (4 * bn) in
       if a = 0
       then
         bindr (balloc ROOTDEV s) (\<lambda>(a, s).
         let s = set_data bp (wr32 (data (bufs s bp)) (4 * bn) a) s in
         bindr (log_write bp s) (\<lambda>s.
         bindr (brelse bp s) (\<lambda>s. Ok (a, s))))
       else bindr (brelse bp s) (\<lambda>s. Ok (a, s)))"

lemma bmap_entry_old:
  assumes "log_ok s" "held s = {}" "card (pinned s) < NBUF" "unat a < unat (disksize s)" "a = addrs (inodes s i) NDIRECT"
    and "fblk s i (NDIRECT + bn) \<noteq> 0"
  obtains w s' where "bmap_entry i a bn s = Ok (w, s')" "unat w = fblk s i (NDIRECT + bn)" "txn s {} s'"
proof -
  have a: "a < disksize s" "unat a \<notin> held s" "card (pinned s \<union> held s) < NBUF"
    using assms by (simp_all add: word_less_nat_alt)
  obtain bp t s' where t: "bread ROOTDEV a s = Ok (bp, t)" "data (bufs t bp) = blk s (unat a)" "brelse bp t = Ok s'"
    "txn s {} s'"
    using peek_block [OF assms(1) a] by blast
  have w: "unat (rd32 (blk s (unat a)) (4 * bn)) = fblk s i (NDIRECT + bn)"
    using assms(5,6) by (simp add: fblk_def indirect_def split: if_splits)
  then have "rd32 (blk s (unat a)) (4 * bn) \<noteq> 0" using assms(6) by auto
  then have "bmap_entry i a bn s = Ok (rd32 (blk s (unat a)) (4 * bn), s')"
    using t(1-3) by (simp add: bmap_entry_def Let_def)
  then show thesis using that w t(4) by blast
qed

lemma bmap_entry_new:
  assumes ok: "file_ok s i" "alloc_ok s" "held s = {}" "room s 1" "0 < nfree s" and bn: "bn < NINDIRECT"
    and a: "a = addrs (inodes s i) NDIRECT" "a \<noteq> 0" and new: "fblk s i (NDIRECT + bn) = 0"
  obtains w s' W where "bmap_entry i a bn s = Ok (w, s')" "grow s i (NDIRECT + bn) (unat w) W s'"
    "W \<subseteq> insert (unat a) (insert (unat w) (bitmap_blocks (sb s)))"
proof -
  have ia: "unat a = indirect s i" "indirect s i \<noteq> 0" using a by (simp_all add: indirect_def unat_eq_0)
  have oa: "owned s (unat a)" using file_okD(4) [OF ok(1), of MAXFILE] ia by (simp add: slot_simps)
  have s: "log_ok s" "layout s" "in_op s" using ok(2) by (simp_all add: alloc_ok_def in_op_def)
  have ar: "a < disksize s" "unat a \<notin> held s" "card (pinned s \<union> held s) < NBUF"
    using owned_disk [OF oa s(2)] ok(3) room_bread [OF ok(4)] by (simp_all add: word_less_nat_alt)
  obtain bp t where t: "bread ROOTDEV a s = Ok (bp, t)" "opened s (unat a) bp t" by (rule read_block [OF s(1) ar])
  note ot = alloc_ok_opened [OF ok(2,3) t(2) oa]
  have tt: "data (bufs t bp) = blk s (unat a)" "blk t = blk s" "holds t bp (unat a)" "keeps s t" "pinned t = pinned s"
    using t(2) by (simp_all add: opened_def)
  have "room t 1" using ot(3) ok(4) by simp
  then obtain c u where c: "balloc ROOTDEV t = Ok (of_nat c, u)" "c < fssize t" "\<not> allocated t c" "taken t c u"
    using balloc_succeeds [OF ot(1)] ok(5) ot(2) by metis
  have tu: "txn t {bm s c, c} u" "\<forall>k<BSIZE. blk u c k = 0" using c(4) ot(4) by (simp_all add: taken_def)
  have cs: "c < fssize s" "\<not> allocated s c" using c(2,3) ot by simp_all
  have bb: "bm s c \<in> bitmap_blocks (sb s)" by (rule bmap_block [OF ok(2) cs(1)])
  have ne: "unat a \<noteq> c" "unat a \<noteq> bm s c" "c \<noteq> bm s c"
    using oa cs bb ok(2) by (auto simp: owned_def alloc_ok_def)
  have ub: "blk u (unat a) = blk s (unat a)" "holds u bp (unat a)" "in_op u"
    using txn_eq(11) [OF tu(1), of "unat a"] ne(1,2) txn_eq(12) [OF tu(1) tt(3)] in_op_txn [OF _ tu(1)] ot(1) tt(2)
    by (simp_all add: alloc_ok_def)
  have du: "data (bufs u bp) = blk s (unat a)"
    using holds_data [OF _ ub(2)] ub(1,3) by (simp add: in_op_def log_ok_def)
  have sbt: "sb t = sb s" using keeps_eq(1) [OF tt(4)] .
  have "card ({bm s c, c} - bitmap_blocks (sb t)) \<le> 1"
    using bb sbt by (simp add: insert_Diff_if)
  then have "room u 0" using room_txn [OF \<open>room t 1\<close> tu(1), of 1] by simp
  then have ru: "int (card (pinned u)) < min 29 (lsize (log u) - 1)" by (rule room_pinned)
  obtain s' where s': "bindr (log_write bp (set_data bp (wr32 (blk s (unat a)) (4 * bn) (of_nat c)) u)) (brelse bp) = Ok s'"
    "closed u (unat a) {unat a} s'" "blk s' (unat a) = wr32 (blk s (unat a)) (4 * bn) (of_nat c)"
    by (rule write_block [OF ub(3,2) ru])
  have txn: "txn s ({unat a} \<union> {bm s c, c}) s'" by (rule opened_closed [OF t(2) tu(1) s'(2) ar(2)])
  have uc: "unat (of_nat c :: u32) = c" by (rule unat_block [OF ok(2) cs(1)])
  obtain w where w: "log_write bp (set_data bp (wr32 (blk s (unat a)) (4 * bn) (of_nat c)) u) = Ok w" "brelse bp w = Ok s'"
    using s'(1) by (auto elim: bindr_OkE)
  have "rd32 (blk s (unat a)) (4 * bn) = 0"
    using new ia by (simp add: fblk_def unat_eq_0)
  then have run: "bmap_entry i a bn s = Ok (of_nat c, s')"
    using t(1) tt(1) c(1) w du by (simp add: bmap_entry_def Let_def)
  note e = txn_eq [OF txn]
  have su: "blk s' m = blk u m" if "m \<noteq> unat a" for m using s'(2) that by (simp add: closed_def)
  have bm': "bm s' = bm s" "fssize s' = fssize s" using bm_keeps [of s' s] e by simp_all
  have alu: "allocated s' d = allocated u d" if "d < fssize s" for d
  proof -
    have "bm s d \<noteq> unat a" using bmap_block [OF ok(2) that] oa by (auto simp: owned_def)
    moreover have "bm u d = bm s d" using bm_keeps [of u t] txn_eq(1) [OF tu(1)] ot(4) by simp
    ultimately show ?thesis using su by (simp add: allocated_def bm')
  qed
  have al: "allocated s' d \<longleftrightarrow> d = c \<or> allocated s d" if "d < fssize s" for d
    using alu that taken_allocated [OF ot(1) c(2-4), of d] ot by simp
  have "alloc_ok s'"
    using ok(2,3) e al bm' in_op_txn [OF s(3) txn] by (simp add: alloc_ok_def layout_def)
  moreover have "nfree s = Suc (nfree s')"
  proof -
    have "{d. d < fssize s' \<and> \<not> allocated s' d} = {d. d < fssize u \<and> \<not> allocated u d}"
      using alu bm'(2) bm_keeps(2) [of u t] txn_eq(1) [OF tu(1)] ot(5) by auto
    then show ?thesis using nfree_taken [OF ot(1) c(2-4)] ot(2) by (simp add: nfree_def)
  qed
  moreover have ino: "inodes s' = inodes s" using txn by (simp add: txn_def inodes_keeps)
  moreover have "slot s' i l = (if l = NDIRECT + bn then c else slot s i l)" if "l \<le> MAXFILE" for l
    using ia bn that ino s'(3) uc a(1)
    by (auto simp: slot_def fblk_def indirect_def sizes rd32_put_entry)
  moreover have "blk s' c m = 0" if "m < BSIZE" for m using su [of c] ne(1) tu(2) that by simp
  ultimately have "grow s i (NDIRECT + bn) c ({unat a} \<union> {bm s c, c}) s'"
    unfolding grow_def using ftxn_txn [OF txn] cs al bb ia by auto
  then show thesis using that [of "of_nat c" s'] run uc bb by auto
qed

section \<open>Steps on one file\<close>

text \<open>
  A step on file \<open>i\<close>: its cached inode may get blocks and another size, no other inode changes; a slot
  keeps its block, or is filled with a block nobody owned; only blocks of the file system are written, and among
  those somebody owned only the ones of this file and its inode's block.
\<close>

definition fstep :: "'a icache_scheme \<Rightarrow> nat \<Rightarrow> nat set \<Rightarrow> 'a icache_scheme \<Rightarrow> bool" where
  "fstep s i W s' \<longleftrightarrow> ftxn s W s' \<and> alloc_ok s' \<and> file_ok s' i
     \<and> inodes s' = (inodes s)(i := (inodes s i)\<lparr>addrs := addrs (inodes s' i), isize := isize (inodes s' i)\<rparr>)
     \<and> (\<forall>l\<le>MAXFILE. slot s' i l = slot s i l \<or> slot s i l = 0 \<and> \<not> owned s (slot s' i l))
     \<and> (\<forall>n. owned s n \<longrightarrow> owned s' n)
     \<and> (\<forall>n\<in>W. n < fssize s \<and> (owned s n \<longrightarrow> n = iblock s i \<or> n \<in> slot s i ` {..MAXFILE}))"

lemma fstepD:
  assumes "fstep s i W s'"
  shows "ftxn s W s'" "alloc_ok s'" "file_ok s' i" "idev (inodes s' i) = idev (inodes s i)" "inum (inodes s' i) = inum (inodes s i)"
    "itype (inodes s' i) = itype (inodes s i)" "iblock s' i = iblock s i" "j \<noteq> i \<Longrightarrow> inodes s' j = inodes s j"
    "l \<le> MAXFILE \<Longrightarrow> slot s i l \<noteq> 0 \<Longrightarrow> slot s' i l = slot s i l"
proof -
  have e: "inodes s' = (inodes s)(i := (inodes s i)\<lparr>addrs := addrs (inodes s' i), isize := isize (inodes s' i)\<rparr>)"
    using assms by (simp add: fstep_def)
  show f: "ftxn s W s'" "alloc_ok s'" "file_ok s' i" using assms by (simp_all add: fstep_def)
  show "idev (inodes s' i) = idev (inodes s i)" "itype (inodes s' i) = itype (inodes s i)"
    "j \<noteq> i \<Longrightarrow> inodes s' j = inodes s j"
    by (subst e, simp)+
  show i: "inum (inodes s' i) = inum (inodes s i)" by (subst e, simp)
  then show "iblock s' i = iblock s i" using ftxn_eq(1) [OF f(1)] by (simp add: iblock_def)
  show "l \<le> MAXFILE \<Longrightarrow> slot s i l \<noteq> 0 \<Longrightarrow> slot s' i l = slot s i l" using assms by (auto simp: fstep_def)
qed

lemma fstep_inum: "fstep s i W s' \<Longrightarrow> inum (inodes s' i) = inum (inodes s i)"
proof -
  assume "fstep s i W s'"
  then have e: "inodes s' = (inodes s)(i := (inodes s i)\<lparr>addrs := addrs (inodes s' i), isize := isize (inodes s' i)\<rparr>)"
    by (simp add: fstep_def)
  show ?thesis by (subst e) simp
qed

lemma inode_upd_twice:
  assumes "g = f(i := (f i)\<lparr>addrs := a, isize := b\<rparr>)" "h = g(i := (g i)\<lparr>addrs := c, isize := d\<rparr>)"
  shows "h = f(i := (f i)\<lparr>addrs := c, isize := d\<rparr>)"
  unfolding assms(2) by (simp add: assms(1))

lemma fstep_trans:
  assumes st: "fstep s i V t" and tu: "fstep t i W u"
  shows "fstep s i (V \<union> W) u"
  unfolding fstep_def
proof (intro conjI allI impI ballI)
  show "ftxn s (V \<union> W) u" using ftxn_trans [OF fstepD(1) [OF st] fstepD(1) [OF tu]] .
  show "alloc_ok u" "file_ok u i" using fstepD(2,3) [OF tu] .
  have "inodes t = (inodes s)(i := (inodes s i)\<lparr>addrs := addrs (inodes t i), isize := isize (inodes t i)\<rparr>)"
    "inodes u = (inodes t)(i := (inodes t i)\<lparr>addrs := addrs (inodes u i), isize := isize (inodes u i)\<rparr>)"
    using st tu by (simp_all add: fstep_def)
  then show "inodes u = (inodes s)(i := (inodes s i)\<lparr>addrs := addrs (inodes u i), isize := isize (inodes u i)\<rparr>)"
    by (rule inode_upd_twice)
  have mono: "owned s n \<Longrightarrow> owned t n" "owned t n \<Longrightarrow> owned u n" for n using st tu by (simp_all add: fstep_def)
  show "owned s n \<Longrightarrow> owned u n" for n using mono by blast
  have sl: "slot t i l = slot s i l \<or> slot s i l = 0 \<and> \<not> owned s (slot t i l)"
    "slot u i l = slot t i l \<or> slot t i l = 0 \<and> \<not> owned t (slot u i l)" if "l \<le> MAXFILE" for l
    using st tu that by (simp_all add: fstep_def)
  show "slot u i l = slot s i l \<or> slot s i l = 0 \<and> \<not> owned s (slot u i l)" if "l \<le> MAXFILE" for l
    using sl [OF that] mono by metis
  show "n < fssize s" if "n \<in> V \<union> W" for n
    using that st tu ftxn_eq(8) [OF fstepD(1) [OF st]] by (auto simp: fstep_def)
  show "n = iblock s i \<or> n \<in> slot s i ` {..MAXFILE}" if n: "n \<in> V \<union> W" "owned s n" for n
  proof (cases "n \<in> V")
    case True
    then show ?thesis using st n by (simp add: fstep_def)
  next
    case False
    then have "n = iblock t i \<or> n \<in> slot t i ` {..MAXFILE}" using tu n mono by (simp add: fstep_def)
    then consider "n = iblock s i" | l where "l \<le> MAXFILE" "n = slot t i l" using fstepD(7) [OF st] by auto
    then show ?thesis
    proof cases
      case 2
      then have "n = slot s i l" using sl(1) [OF 2(1)] n(2) by auto
      then show ?thesis using 2(1) by blast
    qed simp
  qed
qed

text \<open>A step that allocates nothing.\<close>

lemma allocated_plain:
  assumes "alloc_ok s" "txn s V s'" "V \<inter> bitmap_blocks (sb s) = {}" "d < fssize s"
  shows "allocated s' d = allocated s d"
proof -
  have "bm s d \<notin> V" using bmap_block [OF assms(1,4)] assms(3) by blast
  then show ?thesis using allocated_cong [of s' s] txn_eq [OF assms(2)] by simp
qed

lemma alloc_ok_plain:
  assumes "alloc_ok s" "txn s V s'" "V \<inter> bitmap_blocks (sb s) = {}"
  shows "alloc_ok s'" "nfree s' = nfree s" "owned s' = owned s"
proof -
  note e = txn_eq [OF assms(2)] and al = allocated_plain [OF assms] and b = bm_keeps [of s' s]
  show "alloc_ok s'"
    using assms(1) e al b in_op_txn [OF _ assms(2)] by (simp add: alloc_ok_def layout_def)
  have "{c. c < fssize s' \<and> \<not> allocated s' c} = {c. c < fssize s \<and> \<not> allocated s c}" using al b e by auto
  then show "nfree s' = nfree s" by (simp add: nfree_def)
  show "owned s' = owned s" using al b e by (auto simp: owned_def fun_eq_iff)
qed

lemma fstep_plain:
  assumes ok: "file_ok s i" "alloc_ok s" and t: "txn s V s'" and V: "V \<inter> bitmap_blocks (sb s) = {}" "indirect s i \<notin> V \<or> indirect s i = 0"
    and own: "\<forall>n\<in>V. n < fssize s \<and> (owned s n \<longrightarrow> n = iblock s i \<or> n \<in> slot s i ` {..MAXFILE})"
  shows "fstep s i V s'" "slot s' i = slot s i" "fblk s' i = fblk s i" "nfree s' = nfree s" "inodes s' = inodes s"
proof -
  note e = txn_eq [OF t] and a = alloc_ok_plain [OF ok(2) t V(1)]
  show ino: "inodes s' = inodes s" using t by (simp add: txn_def inodes_keeps)
  show fb: "fblk s' i = fblk s i" "slot s' i = slot s i" using fblk_cong [of s' i s] ino e V(2) by auto
  have ib: "iblock s' i = iblock s i" using ino e by (simp add: iblock_def)
  have "0 < fssize s" using file_okD(3) [OF ok(1)] by (simp add: owned_def)
  then have "allocated s' 0" using allocated_plain [OF ok(2) t V(1)] file_okD(2) [OF ok(1)] by simp
  then have "file_ok s' i" using ok(1) by (simp add: file_ok_def ino fb a ib)
  then show "fstep s i V s'"
    unfolding fstep_def using ftxn_txn [OF t] a ino fb own by simp
  show "nfree s' = nfree s" by (rule a)
qed

lemma fstep_nil:
  assumes "file_ok s i" "alloc_ok s" "txn s {} s'"
  shows "fstep s i {} s'" "slot s' i = slot s i" "fbyte s' i = fbyte s i" "nfree s' = nfree s"
proof -
  note p = fstep_plain [OF assms]
  show "fstep s i {} s'" "slot s' i = slot s i" "nfree s' = nfree s" by (rule p; simp)+
  show "fbyte s' i = fbyte s i" using p(3) txn_eq(11) [OF assms(3)] by (simp add: fbyte_def fun_eq_iff)
qed

lemma fstep_grow:
  assumes ok: "file_ok s i" "alloc_ok s" "k \<le> MAXFILE" "slot s i k = 0" and g: "grow s i k c W s'"
  shows "fstep s i W s'"
  unfolding fstep_def
proof (intro conjI allI impI ballI)
  show "ftxn s W s'" "alloc_ok s'" using g by (simp_all add: grow_def)
  show "file_ok s' i" using grow_file_ok(1) [OF assms] .
  have e: "inodes s' = (inodes s)(i := (inodes s i)\<lparr>addrs := addrs (inodes s' i)\<rparr>)" using g by (simp add: grow_def)
  have z: "isize (inodes s' i) = isize (inodes s i)" by (subst e, simp)
  show "inodes s' = (inodes s)(i := (inodes s i)\<lparr>addrs := addrs (inodes s' i), isize := isize (inodes s' i)\<rparr>)"
    unfolding z by (subst e, simp)
  have c: "c < fssize s" "\<not> allocated s c" "\<not> owned s c" using g by (simp_all add: grow_def owned_def)
  show "slot s' i l = slot s i l \<or> slot s i l = 0 \<and> \<not> owned s (slot s' i l)" if "l \<le> MAXFILE" for l
    using g that ok(4) c by (auto simp: grow_def)
  show "owned s' n" if "owned s n" for n
    using g that ftxn_eq [of s W s'] by (auto simp: grow_def owned_def)
  have ly: "layout s" using ok(2) by (simp add: alloc_ok_def)
  show "n < fssize s" if "n \<in> W" for n
  proof -
    have "n \<in> bitmap_blocks (sb s) \<or> n = c \<or> n = slot s i MAXFILE \<and> n \<noteq> 0" using g that by (auto simp: grow_def slot_simps)
    then show ?thesis using bitmap_blocks_less [OF ly] c(1) file_okD(4) [OF ok(1), of MAXFILE] by (auto simp: owned_def)
  qed
  show "n = iblock s i \<or> n \<in> slot s i ` {..MAXFILE}" if "n \<in> W" "owned s n" for n
  proof -
    have "n \<in> bitmap_blocks (sb s) \<or> n = c \<or> n = indirect s i" using g that(1) by (auto simp: grow_def)
    then have "n = slot s i MAXFILE" using that(2) c by (auto simp: owned_def slot_simps)
    then show ?thesis by blast
  qed
qed

text \<open>The block of the inode itself is not among the blocks that growing writes.\<close>

lemma grow_iblock:
  assumes ok: "file_ok s i" "alloc_ok s" and g: "grow s i k c W s'"
  shows "iblock s i \<notin> W"
proof
  assume "iblock s i \<in> W"
  then have "iblock s i \<in> bitmap_blocks (sb s) \<or> iblock s i = c \<or> iblock s i = indirect s i \<and> iblock s i \<noteq> 0" and "\<not> allocated s c"
    using g by (auto simp: grow_def)
  then show False using file_okD(3) [OF ok(1)] file_okD(5) [OF ok(1), of MAXFILE] by (auto simp: owned_def slot_simps)
qed

section \<open>bmap\<close>

lemma bmap_eq:
  assumes "idev (inodes s i) = ROOTDEV"
  shows "bmap i bn s =
    (if unat bn < NDIRECT
     then if addrs (inodes s i) (unat bn) = 0
       then bindr (balloc ROOTDEV s) (\<lambda>(a, s). Ok (a, upd_inode i (\<lambda>ip. ip\<lparr>addrs := (addrs ip)(unat bn := a)\<rparr>) s))
       else Ok (addrs (inodes s i) (unat bn), s)
     else if unat bn - NDIRECT < NINDIRECT
     then bindr
       (if addrs (inodes s i) NDIRECT = 0
        then bindr (balloc ROOTDEV s) (\<lambda>(a, s). Ok (a, upd_inode i (\<lambda>ip. ip\<lparr>addrs := (addrs ip)(NDIRECT := a)\<rparr>) s))
        else Ok (addrs (inodes s i) NDIRECT, s))
       (\<lambda>(addr, s). bmap_entry i addr (unat bn - NDIRECT) s)
     else Panic ''bmap: out of range'')"
  unfolding bmap_def bmap_entry_def Let_def assms by (rule refl)

text \<open>What \<open>bmap\<close> does: file block \<open>k\<close> is disk block \<open>w\<close> afterwards; at most two blocks are charged.\<close>

definition bmapped :: "'a icache_scheme \<Rightarrow> nat \<Rightarrow> nat \<Rightarrow> u32 \<Rightarrow> nat set \<Rightarrow> 'a icache_scheme \<Rightarrow> bool" where
  "bmapped s i k w W s' \<longleftrightarrow> fstep s i W s' \<and> fblk s' i k = unat w \<and> w \<noteq> 0
     \<and> (\<forall>x<MAXFILE * BSIZE. fbyte s' i x = fbyte s i x) \<and> isize (inodes s' i) = isize (inodes s i)
     \<and> card (insert (unat w) W - bitmap_blocks (sb s)) \<le> 2 \<and> finite W \<and> nfree s \<le> nfree s' + 2 \<and> iblock s i \<notin> W"

lemma card_charged:
  assumes "V \<subseteq> {a, b} \<union> B"
  shows "card (V - B) \<le> 2"
proof -
  have "card (V - B) \<le> card {a, b}" using assms by (intro card_mono) auto
  also have "\<dots> \<le> 2" by (simp add: card_insert_if)
  finally show ?thesis .
qed

lemma grow_slot: "grow s i k c W s' \<Longrightarrow> l < MAXFILE \<Longrightarrow> l \<noteq> k \<Longrightarrow> fblk s' i l = fblk s i l"
  by (auto simp: grow_def slot_def dest: spec [of _ l])

lemma grow_nfree: "grow s i k c W s' \<Longrightarrow> nfree s = Suc (nfree s')"
  by (simp add: grow_def)

lemma grow_isize: "grow s i k c W s' \<Longrightarrow> isize (inodes s' i) = isize (inodes s i)"
proof -
  assume "grow s i k c W s'"
  then have e: "inodes s' = (inodes s)(i := (inodes s i)\<lparr>addrs := addrs (inodes s' i)\<rparr>)" by (simp add: grow_def)
  show ?thesis by (subst e) simp
qed

lemma bmapped_old:
  assumes "file_ok s i" "alloc_ok s" "txn s {} s'" "unat w = fblk s i k" "w \<noteq> 0"
  shows "bmapped s i k w {} s'"
proof -
  note n = fstep_nil [OF assms(1-3)]
  have i: "inodes s' = inodes s" using assms(3) by (simp add: txn_def inodes_keeps)
  have fb: "fblk s' i = fblk s i" using fblk_cong(1) [of s' i s] i txn_eq [OF assms(3)] by simp
  have "card (insert (unat w) {} - bitmap_blocks (sb s)) \<le> 2" by (rule card_charged) auto
  then show ?thesis unfolding bmapped_def using n fb i assms(4,5) by simp
qed

lemma bmapped_grow:
  assumes "file_ok s i" "alloc_ok s" "k < MAXFILE" "fblk s i k = 0" "grow s i k (unat w) W s'" "W \<subseteq> {unat w, b} \<union> bitmap_blocks (sb s)"
  shows "bmapped s i k w W s'"
proof -
  have k: "k \<le> MAXFILE" "slot s i k = 0" using assms(3,4) by (simp_all add: slot_simps)
  have "slot s' i k = unat w" using assms(5) k(1) by (simp add: grow_def)
  then have g: "fblk s' i k = unat w" "nfree s = Suc (nfree s')" "\<not> allocated s (unat w)"
    using assms(5,3) by (simp_all add: grow_def slot_simps)
  have "unat w \<noteq> 0" using g(3) file_okD(2) [OF assms(1)] by metis
  moreover have "finite W" using finite_subset [OF assms(6)] by simp
  moreover have "card (insert (unat w) W - bitmap_blocks (sb s)) \<le> 2" using assms(6) by (intro card_charged) auto
  ultimately show ?thesis
    unfolding bmapped_def using fstep_grow [OF assms(1,2) k assms(5)] grow_file_ok(2) [OF assms(1,2) k assms(5)]
      grow_isize [OF assms(5)] grow_iblock [OF assms(1,2,5)] g by (auto simp: unat_eq_0)
qed

lemma bmap_spec:
  assumes ok: "file_ok s i" "alloc_ok s" "held s = {}" "room s 2" "2 \<le> nfree s" and bn: "unat bn < MAXFILE"
  obtains w s' W where "bmap i bn s = Ok (w, s')" "bmapped s i (unat bn) w W s'"
proof -
  let ?k = "unat bn"
  note eq = bmap_eq [OF file_okD(1) [OF ok(1)], of bn]
  have lo: "log_ok s" "layout s" using ok(2) by (simp_all add: alloc_ok_def in_op_def)
  have r1: "room s 1" and n0: "0 < nfree s" using room_less [OF ok(4)] ok(5) by simp_all
  show thesis
  proof (cases "?k < NDIRECT")
    case True
    show thesis
    proof (cases "addrs (inodes s i) ?k = 0")
      case False
      then have "bmapped s i ?k (addrs (inodes s i) ?k) {} s"
        using bmapped_old [OF ok(1,2) txn_refl [OF lo(1)]] True by (simp add: fblk_def)
      then show thesis using that True False eq by simp
    next
      case z: True
      obtain c u where c: "balloc ROOTDEV s = Ok (of_nat c, u)" "c < fssize s" "\<not> allocated s c" "taken s c u"
        using balloc_succeeds [OF ok(2) r1] ok(5) by auto
      let ?s' = "upd_inode i (\<lambda>ip. ip\<lparr>addrs := (addrs ip)(?k := of_nat c)\<rparr>) u"
      have g: "grow s i ?k (unat (of_nat c :: u32)) {bm s c, c} ?s'"
        using grow_addr [OF ok(1,2) _ z c(2-4)] True unat_block [OF ok(2) c(2)] by simp
      have "bmapped s i ?k (of_nat c) {bm s c, c} ?s'"
        by (rule bmapped_grow [OF ok(1,2) bn _ g])
          (use True z bmap_block [OF ok(2) c(2)] unat_block [OF ok(2) c(2)] in \<open>simp_all add: fblk_def\<close>)
      then show thesis using that True z eq c(1) by simp
    qed
  next
    case False
    then have k: "?k - NDIRECT < NINDIRECT" "NDIRECT + (?k - NDIRECT) = ?k" "?k \<le> MAXFILE" using bn by (simp_all add: sizes)
    show thesis
    proof (cases "addrs (inodes s i) NDIRECT = 0")
      case nz: False
      let ?a = "addrs (inodes s i) NDIRECT"
      have run: "bmap i bn s = bmap_entry i ?a (?k - NDIRECT) s" using eq False k nz by simp
      show thesis
      proof (cases "fblk s i ?k = 0")
        case True
        have fe: "fblk s i (NDIRECT + (?k - NDIRECT)) = 0" using True k(2) by simp
        obtain w s' W where w: "bmap_entry i ?a (?k - NDIRECT) s = Ok (w, s')" "grow s i ?k (unat w) W s'"
          "W \<subseteq> insert (unat ?a) (insert (unat w) (bitmap_blocks (sb s)))"
          by (rule bmap_entry_new [OF ok(1-3) r1 n0 k(1) refl nz fe], unfold k(2))
        have "bmapped s i ?k w W s'" using bmapped_grow [OF ok(1,2) bn True w(2)] w(3) by (auto simp: insert_commute)
        then show thesis using that w(1) run by simp
      next
        case f: False
        have ind: "indirect s i \<noteq> 0" using nz by (simp add: indirect_def unat_eq_0)
        then have "unat ?a < unat (disksize s)"
          using owned_disk [OF file_okD(4) [OF ok(1), of MAXFILE] lo(2)] by (simp add: slot_simps indirect_def)
        moreover have "card (pinned s) < NBUF" using room_bread [OF ok(4)] ok(3) by simp
        ultimately obtain w s' where w: "bmap_entry i ?a (?k - NDIRECT) s = Ok (w, s')" "unat w = fblk s i ?k" "txn s {} s'"
          using bmap_entry_old [OF lo(1) ok(3) _ _ refl, of i "?k - NDIRECT"] f k(2) by auto
        have "w \<noteq> 0" using w(2) f by auto
        then show thesis using that bmapped_old [OF ok(1,2) w(3,2)] w(1) run by simp
      qed
    next
      case z: True
      then have ind: "indirect s i = 0" "fblk s i ?k = 0" "slot s i MAXFILE = 0"
        using False by (simp_all add: indirect_def fblk_def slot_simps)
      obtain c u where c: "balloc ROOTDEV s = Ok (of_nat c, u)" "c < fssize s" "\<not> allocated s c" "taken s c u"
        using balloc_succeeds [OF ok(2) r1] ok(5) by auto
      let ?t = "upd_inode i (\<lambda>ip. ip\<lparr>addrs := (addrs ip)(NDIRECT := of_nat c)\<rparr>) u"
      have g: "grow s i MAXFILE c {bm s c, c} ?t" using grow_addr [OF ok(1,2) le_refl z c(2-4)] by simp
      note gt = fstep_grow [OF ok(1,2) le_refl ind(3) g]
      note tf = grow_slot [OF g bn less_not_refl3 [OF bn], unfolded ind(2)] grow_nfree [OF g]
      have t: "file_ok ?t i" "alloc_ok ?t" "held ?t = {}" "nfree s = Suc (nfree ?t)" "fblk ?t i ?k = 0" "sb ?t = sb s"
        using fstepD(2,3) [OF gt] ftxn_eq(1,4) [OF fstepD(1) [OF gt]] ok(3) tf by simp_all
      have b: "bm s c \<in> bitmap_blocks (sb s)" by (rule bmap_block [OF ok(2) c(2)])
      have "card ({bm s c, c} - bitmap_blocks (sb s)) \<le> 1" using b by (simp add: insert_Diff_if)
      then have rt: "room ?t 1" using room_ftxn [OF ok(4) fstepD(1) [OF gt], of 1] by simp
      have c0: "c \<noteq> 0" using c(3) file_okD(2) [OF ok(1)] by metis
      have uc: "unat (of_nat c :: u32) = c" by (rule unat_block [OF ok(2) c(2)])
      have c1: "(of_nat c :: u32) \<noteq> 0" using uc c0 by (intro notI) simp
      have n1: "0 < nfree ?t" using ok(5) t(4) by simp
      have fe: "fblk ?t i (NDIRECT + (?k - NDIRECT)) = 0" using t(5) k(2) by simp
      have at: "of_nat c = addrs (inodes ?t i) NDIRECT" by (simp add: inodes_upd_inode)
      obtain w s' W where w: "bmap_entry i (of_nat c) (?k - NDIRECT) ?t = Ok (w, s')" "grow ?t i ?k (unat w) W s'"
        "W \<subseteq> insert c (insert (unat w) (bitmap_blocks (sb s)))"
        by (rule bmap_entry_new [OF t(1-3) rt n1 k(1) at c1 fe], unfold k(2) t(6) uc)
      have m: "bmapped ?t i ?k w W s'" by (rule bmapped_grow [OF t(1,2) bn t(5) w(2)]) (use w(3) t(6) in auto)
      have "card (insert (unat w) ({bm s c, c} \<union> W) - bitmap_blocks (sb s)) \<le> 2"
        by (rule card_charged [of _ c "unat w"]) (use w(3) b in auto)
      then have "bmapped s i ?k w ({bm s c, c} \<union> W) s'"
        using m fstep_trans [OF gt] grow_file_ok(2) [OF ok(1,2) le_refl ind(3) g] grow_isize [OF g] t(4)
          grow_nfree [OF w(2)] grow_iblock [OF ok(1,2) g] fstepD(7) [OF gt] by (auto simp: bmapped_def)
      then show thesis using that False k z eq c(1) w(1) by simp
    qed
  qed
qed

section \<open>Reading\<close>

definition can_read :: "'a icache_scheme \<Rightarrow> nat \<Rightarrow> bool" where
  "can_read s i \<longleftrightarrow> idev (inodes s i) = ROOTDEV \<and> log_ok s \<and> held s = {} \<and> card (pinned s) < NBUF
     \<and> (\<forall>k\<le>MAXFILE. slot s i k < unat (disksize s))"

lemma bmap_mapped:
  assumes r: "can_read s i" and bn: "unat bn < MAXFILE" "fblk s i (unat bn) \<noteq> 0"
  obtains w s' where "bmap i bn s = Ok (w, s')" "unat w = fblk s i (unat bn)" "txn s {} s'"
proof (cases "unat bn < NDIRECT")
  case True
  then show thesis
    using that [of "addrs (inodes s i) (unat bn)" s] bn r txn_refl [of s] bmap_eq [of s i bn]
    by (simp add: can_read_def fblk_def unat_eq_0)
next
  case False
  then have k: "unat bn - NDIRECT < NINDIRECT" "NDIRECT + (unat bn - NDIRECT) = unat bn" using bn by (simp_all add: sizes)
  let ?a = "addrs (inodes s i) NDIRECT"
  have a: "?a \<noteq> 0" using bn(2) False by (auto simp: fblk_def indirect_def)
  have "slot s i MAXFILE < unat (disksize s)" using r by (simp add: can_read_def)
  then have d: "unat ?a < unat (disksize s)" by (simp add: slot_simps indirect_def)
  have run: "bmap i bn s = bmap_entry i ?a (unat bn - NDIRECT) s"
    using bmap_eq [of s i bn] r False k(1) a by (simp add: can_read_def)
  have l: "log_ok s" "held s = {}" "card (pinned s) < NBUF" using r by (simp_all add: can_read_def)
  have f: "fblk s i (NDIRECT + (unat bn - NDIRECT)) \<noteq> 0" using bn(2) k(2) by simp
  obtain w s' where "bmap_entry i ?a (unat bn - NDIRECT) s = Ok (w, s')" "unat w = fblk s i (NDIRECT + (unat bn - NDIRECT))"
    "txn s {} s'"
    by (rule bmap_entry_old [OF l d refl f])
  then show thesis using that run k(2) by simp
qed

lemma can_read_txn:
  assumes "can_read s i" "txn s {} s'"
  shows "can_read s' i" "fblk s' i = fblk s i" "fbyte s' i = fbyte s i" "inodes s' = inodes s"
proof -
  note e = txn_eq [OF assms(2)]
  show ino: "inodes s' = inodes s" using assms(2) by (simp add: txn_def inodes_keeps)
  show fb: "fblk s' i = fblk s i" using fblk_cong(1) [of s' i s] ino e by simp
  have "slot s' i = slot s i" using fblk_cong(2) [of s' i s] ino e by simp
  then show "can_read s' i" using assms(1) e ino by (simp add: can_read_def)
  show "fbyte s' i = fbyte s i" using fb e by (simp add: fbyte_def fun_eq_iff)
qed

lemma chunk_div:
  assumes "k < chunk left (of_nat off)" "off < 2 ^ 32"
  shows "(off + k) div BSIZE = off div BSIZE" "(off + k) mod BSIZE = off mod BSIZE + k"
proof -
  have "k < BSIZE - off mod BSIZE" using assms unat_of_nat_u32 [OF assms(2)] by (simp add: chunk_def)
  then have k: "off mod BSIZE + k < BSIZE" by linarith
  have e: "off + k = off div BSIZE * BSIZE + (off mod BSIZE + k)" using div_mult_mod_eq [of off BSIZE] by linarith
  have g: "(q * b + r) div b = q" "(q * b + r) mod b = r" if "r < b" for q b r :: nat using that by simp_all
  show "(off + k) div BSIZE = off div BSIZE" by (subst e, rule g [OF k])
  show "(off + k) mod BSIZE = off mod BSIZE + k" by (subst e, rule g [OF k])
qed

lemma off_word:
  assumes "off \<le> MAXFILE * BSIZE"
  shows "unat (of_nat off :: u32) = off" "unat ((of_nat off :: u32) div of_nat BSIZE) = off div BSIZE" "off < 2 ^ 32"
proof -
  show "off < 2 ^ 32" using assms by (simp add: sizes)
  then show "unat (of_nat off :: u32) = off" by (rule unat_of_nat_u32)
  then show "unat ((of_nat off :: u32) div of_nat BSIZE) = off div BSIZE"
    by (simp add: unat_div_distrib) (simp add: sizes)
qed

lemma readi_loop_spec:
  assumes "can_read s i" "off + left \<le> MAXFILE * BSIZE" "\<forall>x. off \<le> x \<and> x < off + left \<longrightarrow> fblk s i (x div BSIZE) \<noteq> 0"
  shows "\<exists>s'. readi_loop i left (of_nat off) acc s = Ok (acc @ map (fbyte s i) [off..<off + left], s') \<and> txn s {} s'"
  using assms
proof (induction left arbitrary: off acc s rule: less_induct)
  case (less left)
  show ?case
  proof (cases "left = 0")
    case True
    then show ?thesis using less.prems(1) by (auto simp: readi_loop.simps [of i 0] can_read_def txn_refl)
  next
    case False
    let ?o = "of_nat off :: u32" and ?k = "off div BSIZE"
    have o: "unat ?o = off" "unat (?o div of_nat BSIZE) = ?k" "off < 2 ^ 32" using off_word [of off] less.prems(2) by simp_all
    have "?k < MAXFILE" using less.prems(2) False by (simp add: sizes less_mult_imp_div_less)
    then have k: "unat (?o div of_nat BSIZE) < MAXFILE" "fblk s i (unat (?o div of_nat BSIZE)) \<noteq> 0"
      using less.prems(3) False o(2) by simp_all
    obtain w t where w: "bmap i (?o div of_nat BSIZE) s = Ok (w, t)" "unat w = fblk s i ?k" "txn s {} t"
      using bmap_mapped [OF less.prems(1) k] o(2) by metis
    note rt = can_read_txn [OF less.prems(1) w(3)]
    have dt: "idev (inodes t i) = ROOTDEV" "log_ok t" "held t = {}" "card (pinned t) < NBUF"
      "slot t i ?k < unat (disksize t)"
      using rt(1) k(1) o(2) by (simp_all add: can_read_def)
    then have wd: "w < disksize t" "unat w \<notin> held t" "card (pinned t \<union> held t) < NBUF"
      using w(2) rt(2) k(1) o(2) by (simp_all add: word_less_nat_alt slot_simps)
    obtain bp u v where u: "bread ROOTDEV w t = Ok (bp, u)" "data (bufs u bp) = blk t (unat w)" "brelse bp u = Ok v" "txn t {} v"
      using peek_block [OF dt(2) wd] by blast
    have sv: "txn s {} v" using txn_trans [OF w(3) u(4)] by simp
    note rv = can_read_txn [OF less.prems(1) sv]
    let ?m = "chunk left ?o"
    have m: "?m \<le> left" "0 < ?m" using False o(1) by (simp_all add: chunk_def sizes)
    have got: "map (\<lambda>k. data (bufs u bp) (unat ?o mod BSIZE + k)) [0..<?m] = map (fbyte s i) [off..<off + ?m]"
    proof (rule nth_equalityI)
      show "length (map (\<lambda>k. data (bufs u bp) (unat ?o mod BSIZE + k)) [0..<?m]) = length (map (fbyte s i) [off..<off + ?m])"
        by simp
      fix j
      assume "j < length (map (\<lambda>k. data (bufs u bp) (unat ?o mod BSIZE + k)) [0..<?m])"
      then have j: "j < ?m" by simp
      have "blk t = blk s" using txn_eq(11) [OF w(3)] by auto
      then show "map (\<lambda>k. data (bufs u bp) (unat ?o mod BSIZE + k)) [0..<?m] ! j = map (fbyte s i) [off..<off + ?m] ! j"
        using j chunk_div [OF j o(3)] u(2) w(2) k(2) o by (simp add: fbyte_def)
    qed
    have "\<exists>s'. readi_loop i (left - ?m) (of_nat (off + ?m)) (acc @ map (fbyte s i) [off..<off + ?m]) v
        = Ok ((acc @ map (fbyte s i) [off..<off + ?m]) @ map (fbyte v i) [off + ?m..<off + ?m + (left - ?m)], s') \<and> txn v {} s'"
      by (rule less.IH) (use m rv less.prems in auto)
    then obtain s' where s': "readi_loop i (left - ?m) (?o + of_nat ?m) (acc @ map (fbyte s i) [off..<off + ?m]) v
        = Ok (acc @ map (fbyte s i) [off..<off + left], s')" "txn v {} s'"
      using rv(3) m upt_add_eq_append [of off "off + ?m" "left - ?m"] by (auto simp: map_append [symmetric] simp del: map_append)
    have "readi_loop i left ?o acc s = Ok (acc @ map (fbyte s i) [off..<off + left], s')"
      using False w(1) u(1,3) dt(1) got s'(1) by (simp add: readi_loop.simps [of i left] Let_def)
    then show ?thesis using txn_trans [OF sv s'(2)] by auto
  qed
qed

section \<open>Writing\<close>

text \<open>The number of blocks that \<open>left\<close> bytes from \<open>off\<close> touch.\<close>

definition nblocks :: "nat \<Rightarrow> nat \<Rightarrow> nat" where
  "nblocks off left = (if left = 0 then 0 else (off + left - 1) div BSIZE - off div BSIZE + 1)"

lemma nblocks_step:
  assumes "0 < left" "off < 2 ^ 32" "m = chunk left (of_nat off)"
  shows "nblocks off left = Suc (nblocks (off + m) (left - m))"
proof -
  have u: "unat (of_nat off :: u32) = off" using assms(2) by (rule unat_of_nat_u32)
  show ?thesis
  proof (cases "left \<le> BSIZE - off mod BSIZE")
    case True
    then have m: "m = left" using assms(3) u by (simp add: chunk_def)
    have "left - 1 < chunk left (of_nat off)" using assms(1,3) m by simp
    then have "(off + (left - 1)) div BSIZE = off div BSIZE" by (rule chunk_div) (rule assms(2))
    then show ?thesis using m assms(1) by (simp add: nblocks_def)
  next
    case False
    have c: "m = BSIZE - off mod BSIZE" "m < left" using assms(3) u False by (simp_all add: chunk_def)
    moreover have "off mod BSIZE < BSIZE" by (simp add: sizes)
    ultimately have "off + m = off div BSIZE * BSIZE + BSIZE" using div_mult_mod_eq [of off BSIZE] by linarith
    then have m: "off + m = (off div BSIZE + 1) * BSIZE" "m < left" using c(2) by simp_all
    then have d: "(off + m) div BSIZE = off div BSIZE + 1" by (simp add: sizes)
    have "off + m \<le> off + left - 1" using m(2) by linarith
    then have "off div BSIZE + 1 \<le> (off + left - 1) div BSIZE" using d div_le_mono by metis
    then show ?thesis using m(2) assms(1) d by (simp add: nblocks_def)
  qed
qed

text \<open>A mapped block of the file is overwritten.\<close>

lemma fstep_write:
  assumes ok: "file_ok s i" "alloc_ok s" and k: "k < MAXFILE" "fblk s i k \<noteq> 0" and t: "txn s {fblk s i k} s'"
  shows "fstep s i {fblk s i k} s'" "fblk s' i = fblk s i" "nfree s' = nfree s" "inodes s' = inodes s"
    "x div BSIZE < MAXFILE \<Longrightarrow> fbyte s' i x = (if x div BSIZE = k then blk s' (fblk s i k) (x mod BSIZE) else fbyte s i x)"
proof -
  have sl: "slot s i k = fblk s i k" "k \<le> MAXFILE" using k(1) by (simp_all add: slot_simps)
  have o: "owned s (fblk s i k)" using file_okD(4) [OF ok(1) sl(2)] sl(1) k(2) by simp
  have ne: "indirect s i \<noteq> fblk s i k \<or> indirect s i = 0"
    using file_okD(6) [OF ok(1) sl(2) le_refl] sl(1) k by (auto simp: slot_simps)
  have V: "{fblk s i k} \<inter> bitmap_blocks (sb s) = {}" "indirect s i \<notin> {fblk s i k} \<or> indirect s i = 0"
    "\<forall>n\<in>{fblk s i k}. n < fssize s \<and> (owned s n \<longrightarrow> n = iblock s i \<or> n \<in> slot s i ` {..MAXFILE})"
    using o ne image_eqI [of "fblk s i k" "slot s i" k "{..MAXFILE}"] sl by (simp_all add: owned_def)
  note p = fstep_plain [OF ok t V]
  show "fstep s i {fblk s i k} s'" "fblk s' i = fblk s i" "nfree s' = nfree s" "inodes s' = inodes s" using p by simp_all
  assume x: "x div BSIZE < MAXFILE"
  have "fblk s i (x div BSIZE) \<noteq> fblk s i k" if "x div BSIZE \<noteq> k" "fblk s i (x div BSIZE) \<noteq> 0"
    using file_okD(6) [OF ok(1) _ sl(2), of "x div BSIZE"] that x sl(1) by (auto simp: slot_simps)
  then show "fbyte s' i x = (if x div BSIZE = k then blk s' (fblk s i k) (x mod BSIZE) else fbyte s i x)"
    using p(3) k(2) txn_eq(11) [OF t] by (simp add: fbyte_def)
qed

text \<open>The effect of a write of \<open>len\<close> bytes at \<open>off\<close>, the first of which is \<open>src tot\<close>.\<close>

definition wrote :: "'a icache_scheme \<Rightarrow> nat \<Rightarrow> (nat \<Rightarrow> u8) \<Rightarrow> nat \<Rightarrow> nat \<Rightarrow> nat \<Rightarrow> nat set \<Rightarrow> 'a icache_scheme \<Rightarrow> bool" where
  "wrote s i src tot len off W s' \<longleftrightarrow> fstep s i W s' \<and> isize (inodes s' i) = isize (inodes s i) \<and> finite W \<and> iblock s i \<notin> W
     \<and> card (W - bitmap_blocks (sb s)) \<le> 2 * nblocks off len \<and> nfree s \<le> nfree s' + 2 * nblocks off len
     \<and> (\<forall>x<MAXFILE * BSIZE. fbyte s' i x = (if off \<le> x \<and> x < off + len then src (tot + (x - off)) else fbyte s i x))
     \<and> (\<forall>x. off \<le> x \<and> x < off + len \<longrightarrow> fblk s' i (x div BSIZE) \<noteq> 0)"

lemma wrote_nil: "file_ok s i \<Longrightarrow> alloc_ok s \<Longrightarrow> wrote s i src tot 0 off {} s"
  using fstep_nil(1) [of s i s] txn_refl [of s] by (auto simp: wrote_def alloc_ok_def in_op_def)

text \<open>One round of the loop of \<open>writei\<close>.\<close>

lemma write_chunk:
  assumes ok: "file_ok s i" "alloc_ok s" "held s = {}" "room s 2" "2 \<le> nfree s"
    and off: "off < MAXFILE * BSIZE" and m: "m = chunk left (of_nat off)"
  obtains w t bp u s' W where "bmap i (of_nat off div of_nat BSIZE) s = Ok (w, t)" "idev (inodes t i) = ROOTDEV"
    "bread ROOTDEV w t = Ok (bp, u)"
    "bindr (log_write bp (set_data bp (\<lambda>j. if off mod BSIZE \<le> j \<and> j < off mod BSIZE + m then src (tot + (j - off mod BSIZE))
        else data (bufs u bp) j) u)) (brelse bp) = Ok s'"
    "fstep s i W s'" "isize (inodes s' i) = isize (inodes s i)" "finite W" "card (W - bitmap_blocks (sb s)) \<le> 2"
    "nfree s \<le> nfree s' + 2" "fblk s' i (off div BSIZE) \<noteq> 0" "iblock s i \<notin> W"
    "\<forall>x<MAXFILE * BSIZE. fbyte s' i x = (if off \<le> x \<and> x < off + m then src (tot + (x - off)) else fbyte s i x)"
proof -
  let ?o = "of_nat off :: u32" and ?k = "off div BSIZE"
  have o: "unat ?o = off" "unat (?o div of_nat BSIZE) = ?k" "off < 2 ^ 32" using off_word [of off] off by simp_all
  have k: "?k < MAXFILE" "unat (?o div of_nat BSIZE) < MAXFILE" using off o(2) by (simp_all add: sizes less_mult_imp_div_less)
  obtain w t V where w: "bmap i (?o div of_nat BSIZE) s = Ok (w, t)" "bmapped s i ?k w V t"
    by (rule bmap_spec [OF ok k(2)], unfold o(2))
  have t: "fstep s i V t" "fblk t i ?k = unat w" "unat w \<noteq> 0" "\<forall>x<MAXFILE * BSIZE. fbyte t i x = fbyte s i x"
    "isize (inodes t i) = isize (inodes s i)" "card (insert (unat w) V - bitmap_blocks (sb s)) \<le> 2" "finite V"
    "nfree s \<le> nfree t + 2" "iblock s i \<notin> V"
    using w(2) by (simp_all add: bmapped_def unat_eq_0)
  note ft = fstepD [OF t(1)] and et = ftxn_eq [OF fstepD(1) [OF t(1)]]
  have ow: "owned t (unat w)" using file_okD(4) [OF ft(3), of ?k] k(1) t(2,3) by (simp add: slot_simps)
  have "layout t" "in_op t" using ft(2) by (simp_all add: alloc_ok_def)
  then have wd: "w < disksize t" "unat w \<notin> held t" "card (held t) \<le> 1"
    using owned_disk [OF ow] et(4) ok(3) by (simp_all add: word_less_nat_alt)
  have "card (V - bitmap_blocks (sb s)) \<le> card (insert (unat w) V - bitmap_blocks (sb s))"
    using t(7) by (intro card_mono) auto
  then have "room t 0" using room_ftxn [OF ok(4) ft(1), of 2] t(6) by simp
  then obtain bp u where u: "bread ROOTDEV w t = Ok (bp, u)" "data (bufs u bp) = blk t (unat w)"
    "\<forall>d. \<exists>s'. bindr (log_write bp (set_data bp d u)) (brelse bp) = Ok s' \<and> txn t {unat w} s' \<and> blk s' (unat w) = d"
    using poke_block [OF \<open>in_op t\<close> wd(1,2) _ wd(3)] by metis
  define d where "d = (\<lambda>j. if off mod BSIZE \<le> j \<and> j < off mod BSIZE + m then src (tot + (j - off mod BSIZE)) else data (bufs u bp) j)"
  obtain s' where s': "bindr (log_write bp (set_data bp d u)) (brelse bp) = Ok s'" "txn t {unat w} s'" "blk s' (unat w) = d"
    using u(3) by blast
  have fk: "fblk t i ?k \<noteq> 0" "txn t {fblk t i ?k} s'" using t(2,3) s'(2) by simp_all
  note f2 = fstep_write [OF ft(3,2) k(1) fk]
  have st: "fstep s i (V \<union> {unat w}) s'" using fstep_trans [OF t(1) f2(1)] t(2) by simp
  have "fbyte s' i x = (if off \<le> x \<and> x < off + m then src (tot + (x - off)) else fbyte s i x)" if x: "x < MAXFILE * BSIZE" for x
  proof -
    have "x div BSIZE < MAXFILE" using x by (simp add: sizes less_mult_imp_div_less)
    then have fx: "fbyte s' i x = (if x div BSIZE = ?k then d (x mod BSIZE) else fbyte t i x)" using f2(5) s'(3) t(2) by simp
    have eq: "off \<le> x \<and> x < off + m \<longleftrightarrow> x div BSIZE = ?k \<and> off mod BSIZE \<le> x mod BSIZE \<and> x mod BSIZE < off mod BSIZE + m"
    proof
      assume a: "off \<le> x \<and> x < off + m"
      then have "x - off < chunk left (of_nat off)" using m by linarith
      note c = chunk_div [OF this o(3)]
      have x: "off + (x - off) = x" "x - off < m" using a by (simp, linarith)
      show "x div BSIZE = ?k \<and> off mod BSIZE \<le> x mod BSIZE \<and> x mod BSIZE < off mod BSIZE + m"
        using c x(2) unfolding x(1) by simp
    next
      assume a: "x div BSIZE = ?k \<and> off mod BSIZE \<le> x mod BSIZE \<and> x mod BSIZE < off mod BSIZE + m"
      then have "?k * BSIZE + x mod BSIZE = x" using div_mult_mod_eq [of x BSIZE] by simp
      then show "off \<le> x \<and> x < off + m" using a div_mult_mod_eq [of off BSIZE] by linarith
    qed
    have "x mod BSIZE - off mod BSIZE = x - off" if "x div BSIZE = ?k"
    proof -
      have "?k * BSIZE + x mod BSIZE = x" using that div_mult_mod_eq [of x BSIZE] by simp
      then show ?thesis using div_mult_mod_eq [of off BSIZE] by linarith
    qed
    moreover have "data (bufs u bp) (x mod BSIZE) = fbyte t i x" if "x div BSIZE = ?k"
      using that u(2) t(2,3) by (simp add: fbyte_def)
    ultimately show ?thesis using fx t(4) x unfolding eq d_def by auto
  qed
  moreover have "card ((V \<union> {unat w}) - bitmap_blocks (sb s)) \<le> 2" using t(6) by (simp add: Un_commute)
  moreover have "iblock s i \<notin> V \<union> {unat w}"
    using t(2,3,9) file_okD(5) [OF ft(3), of ?k] ft(7) k(1) by (auto simp: slot_simps)
  ultimately show thesis
    using that [OF w(1) _ u(1) s'(1) [unfolded d_def] st] f2(2-4) t(2,3,5,7,8) ft(4) file_okD(1) [OF ok(1)] by simp
qed

lemma writei_loop_spec:
  assumes "file_ok s i" "alloc_ok s" "held s = {}" "room s (2 * nblocks off left)" "2 * nblocks off left \<le> nfree s"
    "off + left \<le> MAXFILE * BSIZE"
  shows "\<exists>s' W. writei_loop i src tot left (of_nat off) s = Ok (of_nat (off + left), s') \<and> wrote s i src tot left off W s'"
  using assms
proof (induction left arbitrary: off tot s rule: less_induct)
  case (less left)
  show ?case
  proof (cases "left = 0")
    case True
    then show ?thesis using wrote_nil [OF less.prems(1,2)] by (auto simp: writei_loop.simps [of i src tot 0])
  next
    case False
    let ?o = "of_nat off :: u32" and ?m = "chunk left (of_nat off)" and ?q = "nblocks (off + chunk left (of_nat off)) (left - chunk left (of_nat off))"
    have off: "off < MAXFILE * BSIZE" "off < 2 ^ 32" "unat ?o = off"
      using less.prems(6) False off_word [of off] by (simp_all add: sizes)
    have nb: "nblocks off left = Suc ?q" by (rule nblocks_step) (use False off in simp_all)
    have r: "room s 2" "2 \<le> nfree s" using room_less [OF less.prems(4)] less.prems(5) nb by simp_all
    obtain w t bp u v V where w: "bmap i (?o div of_nat BSIZE) s = Ok (w, t)" "idev (inodes t i) = ROOTDEV"
      "bread ROOTDEV w t = Ok (bp, u)"
      "bindr (log_write bp (set_data bp (\<lambda>j. if off mod BSIZE \<le> j \<and> j < off mod BSIZE + ?m then src (tot + (j - off mod BSIZE))
        else data (bufs u bp) j) u)) (brelse bp) = Ok v"
      and v: "fstep s i V v" "isize (inodes v i) = isize (inodes s i)" "finite V" "card (V - bitmap_blocks (sb s)) \<le> 2"
      "nfree s \<le> nfree v + 2" "fblk v i (off div BSIZE) \<noteq> 0" "iblock s i \<notin> V"
      "\<forall>x<MAXFILE * BSIZE. fbyte v i x = (if off \<le> x \<and> x < off + ?m then src (tot + (x - off)) else fbyte s i x)"
      using write_chunk [OF less.prems(1-3) r off(1) refl, where left = left and src = src and tot = tot] by blast
    note fv = fstepD [OF v(1)] and ev = ftxn_eq [OF fstepD(1) [OF v(1)]]
    have m: "?m \<le> left" "0 < ?m" using False off(3) by (simp_all add: chunk_def sizes)
    have rv: "room v (2 * ?q)" using room_ftxn [OF less.prems(4) fv(1) v(4)] nb by simp
    have "\<exists>s' W. writei_loop i src (tot + ?m) (left - ?m) (of_nat (off + ?m)) v = Ok (of_nat (off + ?m + (left - ?m)), s')
        \<and> wrote v i src (tot + ?m) (left - ?m) (off + ?m) W s'"
      by (rule less.IH) (use m fv ev less.prems rv v(5) nb in simp_all)
    then obtain s' W where s': "writei_loop i src (tot + ?m) (left - ?m) (of_nat (off + ?m)) v = Ok (of_nat (off + left), s')"
      "wrote v i src (tot + ?m) (left - ?m) (off + ?m) W s'"
      using m by auto
    obtain z where z: "log_write bp (set_data bp (\<lambda>j. if off mod BSIZE \<le> j \<and> j < off mod BSIZE + ?m
        then src (tot + (j - off mod BSIZE)) else data (bufs u bp) j) u) = Ok z" "brelse bp z = Ok v"
      using w(4) by (auto elim: bindr_OkE)
    have run: "writei_loop i src tot left ?o s = Ok (of_nat (off + left), s')"
      using False w(1-3) z s'(1) off(3) by (simp add: writei_loop.simps [of i src tot left] Let_def)
    show ?thesis
    proof (intro exI conjI)
      show "writei_loop i src tot left ?o s = Ok (of_nat (off + left), s')" by (rule run)
      have W: "fstep v i W s'" "finite W" "card (W - bitmap_blocks (sb s)) \<le> 2 * ?q" "nfree v \<le> nfree s' + 2 * ?q"
        "isize (inodes s' i) = isize (inodes v i)"
        "\<forall>x<MAXFILE * BSIZE. fbyte s' i x = (if off + ?m \<le> x \<and> x < off + left then src (tot + ?m + (x - (off + ?m))) else fbyte v i x)"
        "\<forall>x. off + ?m \<le> x \<and> x < off + left \<longrightarrow> fblk s' i (x div BSIZE) \<noteq> 0" "iblock v i \<notin> W"
        using s'(2) m(1) ev(1) by (simp_all add: wrote_def)
      have "card ((V \<union> W) - bitmap_blocks (sb s)) \<le> card (V - bitmap_blocks (sb s)) + card (W - bitmap_blocks (sb s))"
        unfolding Un_Diff by (rule card_Un_le)
      then have c: "card ((V \<union> W) - bitmap_blocks (sb s)) \<le> 2 * nblocks off left" using v(4) W(3) nb by simp
      have fb: "fbyte s' i x = (if off \<le> x \<and> x < off + left then src (tot + (x - off)) else fbyte s i x)"
        if "x < MAXFILE * BSIZE" for x
        using that W(6) v(8) m(1) by auto
      have "fblk s' i (x div BSIZE) \<noteq> 0" if x: "off \<le> x" "x < off + left" for x
      proof (cases "x < off + ?m")
        case True
        then have "x - off < ?m" using x by linarith
        from chunk_div(1) [OF this off(2)] x have k: "x div BSIZE = off div BSIZE" by simp
        have "off div BSIZE < MAXFILE" using off(1) by (simp add: sizes less_mult_imp_div_less)
        then show ?thesis using fstepD(9) [OF W(1), of "off div BSIZE"] v(6) k by (simp add: slot_simps)
      qed (use W(7) x in simp)
      then show "wrote s i src tot left off (V \<union> W) s'"
        using fstep_trans [OF v(1) W(1)] c fb v(2,3,5,7) W(2,4,5,8) nb fv(7) by (simp add: wrote_def)
    qed
  qed
qed

section \<open>readi and writei\<close>

lemma file_can_read:
  assumes "file_ok s i" "alloc_ok s" "held s = {}" "room s n"
  shows "can_read s i"
proof -
  have "slot s i k < unat (disksize s)" if "k \<le> MAXFILE" for k
    using file_okD(4) [OF assms(1) that] file_okD(3) [OF assms(1)] assms(2) owned_disk [of s]
    by (cases "slot s i k = 0") (auto simp: alloc_ok_def owned_def layout_def)
  then show ?thesis
    using assms file_okD(1) [OF assms(1)] room_bread [OF assms(4)] by (simp add: can_read_def alloc_ok_def in_op_def)
qed

lemma sint_nat: "n < 2 ^ 31 \<Longrightarrow> sint (of_nat n :: u32) = int n"
  using sint_of_int_u32 [of "int n"] by simp

lemma readi_spec:
  assumes r: "can_read s i" "itype (inodes s i) \<noteq> T_DEV" and sz: "unat (isize (inodes s i)) \<le> MAXFILE * BSIZE"
    and mapped: "\<forall>x<unat (isize (inodes s i)). fblk s i (x div BSIZE) \<noteq> 0"
    and off: "off \<le> unat (isize (inodes s i))" "n < 2 ^ 31"
  shows "\<exists>s'. readi i (of_nat off) (of_nat n) s
      = Ok (int (min n (unat (isize (inodes s i)) - off)), map (fbyte s i) [off..<min (off + n) (unat (isize (inodes s i)))], s')
    \<and> txn s {} s'"
proof -
  let ?z = "unat (isize (inodes s i))" and ?o = "of_nat off :: u32" and ?n = "of_nat n :: u32"
  let ?m = "min n (?z - off)"
  have u: "unat ?o = off" "unat ?n = n" "unat (?o + ?n) = off + n"
    using off sz unat_of_nat_u32 [of "off + n"] by (simp_all add: sizes unat_of_nat_u32)
  have c: "\<not> isize (inodes s i) < ?o" "\<not> ?o + ?n < ?o" "isize (inodes s i) < ?o + ?n \<longleftrightarrow> ?z < off + n"
    using u off by (simp_all add: word_less_nat_alt)
  have "unat (isize (inodes s i) - ?o) = ?z - off" using c(1) u(1) by (simp add: unat_sub not_less)
  moreover have "unat (of_nat (?z - off) :: u32) = ?z - off" by (rule unat_of_nat_u32) (use sz in \<open>simp add: sizes\<close>)
  ultimately have m: "(if isize (inodes s i) < ?o + ?n then isize (inodes s i) - ?o else ?n) = of_nat ?m"
    using c(3) by (auto simp: word_unat_eq_iff unat_of_nat_u32 min_def u)
  have um: "unat (of_nat ?m :: u32) = ?m" "sint (of_nat ?m :: u32) = int ?m"
    using off by (intro unat_of_nat_u32 sint_nat; simp)+
  have "\<exists>s'. readi_loop i ?m ?o [] s = Ok ([] @ map (fbyte s i) [off..<off + ?m], s') \<and> txn s {} s'"
    by (rule readi_loop_spec [OF r(1)]) (use off sz mapped in auto)
  then obtain s' where s': "readi_loop i ?m ?o [] s = Ok (map (fbyte s i) [off..<off + ?m], s')" "txn s {} s'" by auto
  have "off + ?m = min (off + n) ?z" using off(1) by linarith
  moreover have "readi i ?o ?n s = Ok (int ?m, map (fbyte s i) [off..<off + ?m], s')"
    using r(2) c(1,2) s'(1) um unfolding readi_def Let_def m by simp
  ultimately show ?thesis using s'(2) by auto
qed

lemma iupdate_spec:
  assumes ok: "file_ok s i" "alloc_ok s" "held s = {}" "room s k"
  obtains s' where "iupdate i s = Ok s'" "txn s {iblock s i} s'"
    "blk s' (iblock s i) = put_dinode (dip_offset (inum (inodes s i))) (inodes s i) (blk s (iblock s i))"
proof -
  let ?b = "IBLOCK (inum (inodes s i)) (sb s)"
  have o: "owned s (unat ?b)" using file_okD(3) [OF ok(1)] by (simp add: iblock_def)
  have s: "in_op s" "layout s" using ok(2) by (simp_all add: alloc_ok_def)
  have b: "?b < disksize s" "unat ?b \<notin> held s" "card (held s) \<le> 1"
    using owned_disk [OF o s(2)] ok(3) by (simp_all add: word_less_nat_alt)
  obtain bp t where t: "bread ROOTDEV ?b s = Ok (bp, t)" "data (bufs t bp) = blk s (unat ?b)" "keeps s t"
    "\<forall>d. \<exists>s'. bindr (log_write bp (set_data bp d t)) (brelse bp) = Ok s' \<and> txn s {unat ?b} s' \<and> blk s' (unat ?b) = d"
    by (rule poke_block [OF s(1) b(1,2) ok(4) b(3)])
  let ?d = "put_dinode (dip_offset (inum (inodes s i))) (inodes s i) (blk s (unat ?b))"
  obtain s' where "bindr (log_write bp (set_data bp ?d t)) (brelse bp) = Ok s'" "txn s {unat ?b} s'" "blk s' (unat ?b) = ?d"
    using t(4) by blast
  then show thesis using that t(1,2) file_okD(1) [OF ok(1)] by (simp add: iupdate_def iblock_def Let_def)
qed

lemma isize_step:
  fixes s :: "'a icache_scheme" and z :: u32
  assumes "file_ok s i" "alloc_ok s"
  defines "t \<equiv> upd_inode i (\<lambda>ip. ip\<lparr>isize := z\<rparr>) s"
  shows "fstep s i {} t" "fblk t i = fblk s i" "fbyte t i = fbyte s i" "isize (inodes t i) = z" "iblock t i = iblock s i"
    "slot t i = slot s i" "file_ok t i"
proof -
  have ino: "inodes t = (inodes s)(i := (inodes s i)\<lparr>isize := z\<rparr>)" by (simp add: t_def inodes_upd_inode)
  have b: "blk t = blk s" "sb t = sb s" "allocated t = allocated s" "fssize t = fssize s" by (simp_all add: t_def)
  show f: "fblk t i = fblk s i" "slot t i = slot s i"
    using fblk_cong [of t i s] ino b by simp_all
  show ib: "iblock t i = iblock s i" using ino b by (simp add: iblock_def)
  show "fbyte t i = fbyte s i" using f b by (simp add: fbyte_def fun_eq_iff)
  show "isize (inodes t i) = z" using ino by simp
  have ow: "owned t = owned s" using b by (simp add: owned_def fun_eq_iff)
  show ok: "file_ok t i" using assms(1) by (simp add: file_ok_def ow f b ib) (simp add: ino)
  have "ftxn s {} t" using assms(2) by (simp add: t_def alloc_ok_def in_op_def)
  then show "fstep s i {} t"
    unfolding fstep_def using ok assms(2) f ow ino by (simp add: t_def)
qed

text \<open>The inode's block holds the sizes and addresses, not the bytes of the file.\<close>

lemma iupdate_step:
  assumes ok: "file_ok s i" "alloc_ok s" "held s = {}" "room s k"
  obtains s' where "iupdate i s = Ok s'" "fstep s i {iblock s i} s'" "fblk s' i = fblk s i" "nfree s' = nfree s"
    "inodes s' = inodes s" "\<forall>x<MAXFILE * BSIZE. fbyte s' i x = fbyte s i x"
proof -
  obtain s' where s': "iupdate i s = Ok s'" "txn s {iblock s i} s'" by (rule iupdate_spec [OF ok])
  have V: "{iblock s i} \<inter> bitmap_blocks (sb s) = {}" "indirect s i \<notin> {iblock s i} \<or> indirect s i = 0"
    "\<forall>n\<in>{iblock s i}. n < fssize s \<and> (owned s n \<longrightarrow> n = iblock s i \<or> n \<in> slot s i ` {..MAXFILE})"
    using file_okD(3) [OF ok(1)] file_okD(5) [OF ok(1), of MAXFILE]
    by (cases "indirect s i = 0"; auto simp: owned_def slot_simps)+
  note p = fstep_plain [OF ok(1,2) s'(2) V]
  have "fbyte s' i x = fbyte s i x" if "x < MAXFILE * BSIZE" for x
  proof -
    have l: "x div BSIZE < MAXFILE" using that by (simp add: sizes less_mult_imp_div_less)
    then have "fblk s i (x div BSIZE) \<noteq> 0 \<Longrightarrow> fblk s i (x div BSIZE) \<noteq> iblock s i"
      using file_okD(5) [OF ok(1), of "x div BSIZE"] by (simp add: slot_simps)
    then show ?thesis using p(3) txn_eq(11) [OF s'(2)] by (simp add: fbyte_def)
  qed
  then show thesis using that s'(1) p by blast
qed

text \<open>
  The whole of \<open>writei\<close>. The block with the inode is written exactly if the file has grown, and then the cached inode is
  in its place in it.
\<close>

lemma writei_disk_spec:
  assumes ok: "file_ok s i" "alloc_ok s" "held s = {}" and ty: "itype (inodes s i) \<noteq> T_DEV"
    and off: "off \<le> unat (isize (inodes s i))" "off + n \<le> MAXFILE * BSIZE" "unat (isize (inodes s i)) \<le> MAXFILE * BSIZE"
    and room: "room s (2 * nblocks off n + 1)" "2 * nblocks off n \<le> nfree s"
  obtains s' W where "writei i src (of_nat off) (of_nat n) s = Ok (int n, s')" "fstep s i W s'" "finite W"
    "card (W - bitmap_blocks (sb s)) \<le> 2 * nblocks off n + 1"
    "unat (isize (inodes s' i)) = max (unat (isize (inodes s i))) (off + n)"
    "\<forall>x<MAXFILE * BSIZE. fbyte s' i x = (if off \<le> x \<and> x < off + n then src (x - off) else fbyte s i x)"
    "\<forall>x. off \<le> x \<and> x < off + n \<longrightarrow> fblk s' i (x div BSIZE) \<noteq> 0" "nfree s \<le> nfree s' + 2 * nblocks off n"
    "blk s' (iblock s i) = (if unat (isize (inodes s i)) < off + n
       then put_dinode (dip_offset (inum (inodes s i))) (inodes s' i) (blk s (iblock s i)) else blk s (iblock s i))"
proof -
  let ?z = "unat (isize (inodes s i))" and ?o = "of_nat off :: u32" and ?n = "of_nat n :: u32"
  have u: "unat ?o = off" "unat ?n = n" "unat (?o + ?n) = off + n" "unat (of_nat (off + n) :: u32) = off + n" "sint ?n = int n"
    using off(2) unat_of_nat_u32 [of "off + n"] sint_nat [of n] by (simp_all add: sizes unat_of_nat_u32)
  have c: "\<not> isize (inodes s i) < ?o" "\<not> ?o + ?n < ?o" "\<not> (of_nat (MAXFILE * BSIZE) :: u32) < ?o + ?n"
    using u off by (simp_all add: word_less_nat_alt) (simp add: sizes)
  obtain v V where v: "writei_loop i src 0 n ?o s = Ok (of_nat (off + n), v)" "wrote s i src 0 n off V v"
    using writei_loop_spec [OF ok room_less [OF room(1)] room(2) off(2), of src 0] by auto
  have w: "fstep s i V v" "isize (inodes v i) = isize (inodes s i)" "finite V" "card (V - bitmap_blocks (sb s)) \<le> 2 * nblocks off n"
    "\<forall>x<MAXFILE * BSIZE. fbyte v i x = (if off \<le> x \<and> x < off + n then src (x - off) else fbyte s i x)"
    "\<forall>x. off \<le> x \<and> x < off + n \<longrightarrow> fblk v i (x div BSIZE) \<noteq> 0" "nfree s \<le> nfree v + 2 * nblocks off n" "iblock s i \<notin> V"
    using v(2) by (simp_all add: wrote_def)
  note fv = fstepD [OF w(1)] and ev = ftxn_eq [OF fstepD(1) [OF w(1)]]
  have vb: "blk v (iblock s i) = blk s (iblock s i)" by (rule ev(6) [OF w(8)])
  have grows: "0 < ?n \<and> isize (inodes v i) < of_nat (off + n) \<longleftrightarrow> ?z < off + n"
    using u w(2) off(1) by (auto simp: word_less_nat_alt)
  have run: "writei i src ?o ?n s = bindr (if 0 < ?n \<and> isize (inodes v i) < of_nat (off + n)
      then iupdate i (upd_inode i (\<lambda>ip. ip\<lparr>isize := of_nat (off + n)\<rparr>) v) else Ok v) (\<lambda>s. Ok (sint ?n, s))"
    using ty c v(1) u(2) unfolding writei_def Let_def by simp
  note run = run [unfolded grows u(5)]
  show thesis
  proof (cases "?z < off + n")
    case False
    show thesis
      by (rule that [of v V]) (use run False w vb in simp_all)
  next
    case True
    let ?t = "upd_inode i (\<lambda>ip. ip\<lparr>isize := of_nat (off + n)\<rparr>) v"
    note it = isize_step [OF fv(3,2), of "of_nat (off + n)"]
    have t: "alloc_ok ?t" "held ?t = {}" "room ?t 1"
      using fv(2) ev(4) ok(3) room_ftxn [OF room(1) fv(1) w(4)] by simp_all
    obtain s' where s': "iupdate i ?t = Ok s'" "fstep ?t i {iblock ?t i} s'" "fblk s' i = fblk ?t i" "nfree s' = nfree ?t"
      "inodes s' = inodes ?t" "\<forall>x<MAXFILE * BSIZE. fbyte s' i x = fbyte ?t i x"
      by (rule iupdate_step [OF it(7) t])
    have st: "fstep s i (V \<union> ({} \<union> {iblock ?t i})) s'" by (rule fstep_trans [OF w(1) fstep_trans [OF it(1) s'(2)]])
    have "card (V \<union> {iblock ?t i} - bitmap_blocks (sb s)) \<le> card (insert (iblock ?t i) (V - bitmap_blocks (sb s)))"
      using w(3) by (intro card_mono) auto
    also have "\<dots> \<le> 2 * nblocks off n + 1" using w(3,4) by (simp add: card_insert_if)
    finally have ca: "card (V \<union> ({} \<union> {iblock ?t i}) - bitmap_blocks (sb s)) \<le> 2 * nblocks off n + 1" by simp
    show thesis
    proof (rule that [OF _ st _ ca])
      show "writei i src ?o ?n s = Ok (int n, s')" using run True s'(1) by simp
      show "finite (V \<union> ({} \<union> {iblock ?t i}))" using w(3) by simp
      show "unat (isize (inodes s' i)) = max ?z (off + n)" unfolding s'(5) it(4) u(4) using True by simp
      show "\<forall>x<MAXFILE * BSIZE. fbyte s' i x = (if off \<le> x \<and> x < off + n then src (x - off) else fbyte s i x)"
        using s'(6) it(3) w(5) by simp
      show "\<forall>x. off \<le> x \<and> x < off + n \<longrightarrow> fblk s' i (x div BSIZE) \<noteq> 0" using s'(3) it(2) w(6) by simp
      show "nfree s \<le> nfree s' + 2 * nblocks off n" using s'(4) w(7) by simp
      have "blk s' (iblock ?t i) = put_dinode (dip_offset (inum (inodes ?t i))) (inodes ?t i) (blk ?t (iblock ?t i))"
        by (rule iupdate_spec [OF it(7) t]) (use s'(1) in simp)
      moreover have "iblock ?t i = iblock s i" "inum (inodes ?t i) = inum (inodes s i)" "blk ?t = blk v"
        using it(5) fv(7) fstep_inum [OF fstep_trans [OF w(1) it(1)]] by simp_all
      ultimately show "blk s' (iblock s i) = (if ?z < off + n
          then put_dinode (dip_offset (inum (inodes s i))) (inodes s' i) (blk s (iblock s i)) else blk s (iblock s i))"
        using True s'(5) vb by simp
    qed
  qed
qed

lemma writei_spec:
  assumes ok: "file_ok s i" "alloc_ok s" "held s = {}" and ty: "itype (inodes s i) \<noteq> T_DEV"
    and off: "off \<le> unat (isize (inodes s i))" "off + n \<le> MAXFILE * BSIZE" "unat (isize (inodes s i)) \<le> MAXFILE * BSIZE"
    and room: "room s (2 * nblocks off n + 1)" "2 * nblocks off n \<le> nfree s"
  obtains s' W where "writei i src (of_nat off) (of_nat n) s = Ok (int n, s')" "fstep s i W s'" "finite W"
    "card (W - bitmap_blocks (sb s)) \<le> 2 * nblocks off n + 1"
    "unat (isize (inodes s' i)) = max (unat (isize (inodes s i))) (off + n)"
    "\<forall>x<MAXFILE * BSIZE. fbyte s' i x = (if off \<le> x \<and> x < off + n then src (x - off) else fbyte s i x)"
    "\<forall>x. off \<le> x \<and> x < off + n \<longrightarrow> fblk s' i (x div BSIZE) \<noteq> 0" "nfree s \<le> nfree s' + 2 * nblocks off n"
  by (rule writei_disk_spec [OF assms])

text \<open>\<open>ilock\<close> of an entry that is not in memory yet loads it from its place in its block.\<close>

lemma opened_inodes: "opened s n bp t \<Longrightarrow> opened (s\<lparr>inodes := x\<rparr>) n bp (t\<lparr>inodes := x\<rparr>)"
  using keeps_inodes [of s t x] by (auto simp: opened_def)

lemma txn_ino: "txn s W t \<Longrightarrow> inodes t = inodes s"
  by (simp add: txn_def inodes_keeps)

lemma ilock_loads:
  assumes l: "log_ok s" "held s = {}" "card (pinned s) < NBUF"
    and i: "0 < iref (inodes s i)" "idev (inodes s i) = ROOTDEV" "\<not> locked (ilk (inodes s i))" "\<not> ivalid (inodes s i)"
    and d: "IBLOCK (inum (inodes s i)) (sb s) < disksize s"
    and ty: "dip_type (dip_offset (inum (inodes s i))) (blk s (iblock s i)) \<noteq> 0"
  obtains t where "ilock i s = Ok t" "ftxn s {} t"
    "inodes t = (inodes s)(i := (get_dinode (dip_offset (inum (inodes s i))) (blk s (iblock s i)) (inodes s i))
       \<lparr>ilk := (ilk (inodes s i))\<lparr>locked := True, lk_pid := pid (myproc s)\<rparr>, ivalid := True\<rparr>)"
proof -
  let ?me = "pid (myproc s)" and ?n = "inum (inodes s i)" and ?b = "iblock s i"
  let ?lk = "(ilk (inodes s i))\<lparr>locked := True, lk_pid := ?me\<rparr>"
  let ?u = "upd_inode i (\<lambda>ip. ip\<lparr>ilk := ?lk\<rparr>) s" and ?g = "get_dinode (dip_offset ?n) (blk s ?b)"
  have ib: "unat (IBLOCK ?n (sb s)) = ?b" by (simp add: iblock_def)
  have aq: "acquiresleep (ChInode i) ?me (ilk (inodes s i)) = Ok ?lk" using i(3) by (simp add: acquiresleep_def)
  have iu: "inodes ?u = (inodes s)(i := (inodes s i)\<lparr>ilk := ?lk\<rparr>)" by (simp add: inodes_upd_inode)
  have fu: "ftxn s {} ?u" using l(1) by simp
  have "disksize ?u = disksize s" by (simp add: upd_inode_def)
  then have "log_ok ?u" "IBLOCK ?n (sb s) < disksize ?u" "unat (IBLOCK ?n (sb s)) \<notin> held ?u" "card (pinned ?u \<union> held ?u) < NBUF"
    using d l by simp_all
  then obtain bp v where v: "bread ROOTDEV (IBLOCK ?n (sb s)) ?u = Ok (bp, v)" "opened ?u ?b bp v"
    using read_block ib by metis
  let ?x = "(inodes ?u)(i := ?g (inodes ?u i))"
  have iv: "inodes v = inodes ?u" and dv: "data (bufs v bp) = blk s ?b" using v(2) by (simp_all add: opened_def inodes_keeps)
  have ox: "opened (?u\<lparr>inodes := ?x\<rparr>) ?b bp (v\<lparr>inodes := ?x\<rparr>)" by (rule opened_inodes [OF v(2)])
  then have "log_ok (v\<lparr>inodes := ?x\<rparr>)" "holds (v\<lparr>inodes := ?x\<rparr>) bp ?b"
    "?b \<in> pinned (v\<lparr>inodes := ?x\<rparr>) \<or> blk (v\<lparr>inodes := ?x\<rparr>) ?b = disk (v\<lparr>inodes := ?x\<rparr>) ?b"
    unfolding opened_def by blast+
  then obtain w where w: "brelse bp (v\<lparr>inodes := ?x\<rparr>) = Ok w" "closed (v\<lparr>inodes := ?x\<rparr>) ?b {} w" by (rule close_block)
  have tw: "txn (?u\<lparr>inodes := ?x\<rparr>) {} w" using opened_closed [OF ox opened_txn [OF ox] w(2)] l(2) by simp
  have iw: "inodes w = ?x" using txn_ino [OF tw] by simp
  let ?t = "upd_inode i (\<lambda>ip. ip\<lparr>ivalid := True\<rparr>) w"
  have "ftxn ?u {} w" using tw iw by (simp add: ftxn_def)
  then have fw: "ftxn s {} w" using ftxn_trans [OF fu] by fastforce
  then have ft: "ftxn s {} ?t" using ftxn_trans [OF fw ftxn_upd] ftxn_eq(3) [OF fw] by fastforce
  have g: "?g ((inodes s i)\<lparr>ilk := ?lk\<rparr>) = (?g (inodes s i))\<lparr>ilk := ?lk\<rparr>" by (simp add: get_dinode_def cong: if_cong)
  have "brelse bp (v\<lparr>inodes := (inodes v)(i := ?g (inodes v i))\<rparr>) = Ok w" using w(1) iv by simp
  moreover have "itype (?g (inodes s i)) \<noteq> 0" using ty by (simp add: get_dinode_def)
  ultimately have "ilock i s = Ok ?t"
    using i(1,2,4) aq v(1) iw g iu unfolding ilock_def by (simp add: Let_def dv upd_inode_def)
  moreover have "inodes ?t = (inodes s)(i := (?g (inodes s i))\<lparr>ilk := ?lk, ivalid := True\<rparr>)"
    unfolding inodes_upd_inode iw iu by (simp add: g)
  ultimately show thesis using that ft by blast
qed

section \<open>Properties\<close>

text \<open>
  C5: A file is an array of bytes, and \<open>writei\<close> updates it. For a consistent file, an operation with room in its
  transaction and enough free blocks, a write that starts inside the file and ends below the largest file
  size succeeds completely: the bytes written are those of the source, every other byte of the file is what it was
  (zero in the blocks that are new), the size grows to the end of the write if that lies behind it, the file stays
  consistent, no other inode changes, what was owned stays owned, and no block that somebody owned changes unless it is
  this file's. In the block of the inode the neighbouring inodes keep their bytes, and if the file has grown, what is
  read back from the place of this one is the inode in memory; otherwise the block is as it was. The log has at most two
  more blocks per file block touched, one for the inode, and those of the bitmap.
\<close>

theorem writei_updates:
  assumes "file_ok s i" and "alloc_ok s" and "held s = {}" and "itype (inodes s i) \<noteq> T_DEV"
    and "off \<le> unat (isize (inodes s i))" and "off + n \<le> MAXFILE * BSIZE" and "unat (isize (inodes s i)) \<le> MAXFILE * BSIZE"
    and "room s (2 * nblocks off n + 1)" and "2 * nblocks off n \<le> nfree s" and "k = dip_offset (inum (inodes s i))"
  shows "\<exists>s'. writei i src (of_nat off) (of_nat n) s = Ok (int n, s')
    \<and> (\<forall>x<MAXFILE * BSIZE. fbyte s' i x = (if off \<le> x \<and> x < off + n then src (x - off) else fbyte s i x))
    \<and> unat (isize (inodes s' i)) = max (unat (isize (inodes s i))) (off + n)
    \<and> file_ok s' i \<and> alloc_ok s' \<and> held s' = {} \<and> (\<forall>j. j \<noteq> i \<longrightarrow> inodes s' j = inodes s j) \<and> (\<forall>b. owned s b \<longrightarrow> owned s' b)
    \<and> (\<forall>b. owned s b \<and> b \<noteq> iblock s i \<and> b \<notin> slot s i ` {..MAXFILE} \<longrightarrow> blk s' b = blk s b)
    \<and> (\<forall>x. x < k \<or> k + SIZEOF_DINODE \<le> x \<longrightarrow> blk s' (iblock s i) x = blk s (iblock s i) x)
    \<and> (if unat (isize (inodes s i)) < off + n then get_dinode k (blk s' (iblock s i)) (inodes s' i) = inodes s' i
       else blk s' (iblock s i) = blk s (iblock s i))
    \<and> finite (pinned s') \<and> card (pinned s' - pinned s - bitmap_blocks (sb s)) \<le> 2 * nblocks off n + 1"
proof -
  obtain s' W where w: "writei i src (of_nat off) (of_nat n) s = Ok (int n, s')" "fstep s i W s'" "finite W"
    "card (W - bitmap_blocks (sb s)) \<le> 2 * nblocks off n + 1"
    "unat (isize (inodes s' i)) = max (unat (isize (inodes s i))) (off + n)"
    "\<forall>x<MAXFILE * BSIZE. fbyte s' i x = (if off \<le> x \<and> x < off + n then src (x - off) else fbyte s i x)"
    "\<forall>x. off \<le> x \<and> x < off + n \<longrightarrow> fblk s' i (x div BSIZE) \<noteq> 0" "nfree s \<le> nfree s' + 2 * nblocks off n"
    "blk s' (iblock s i) = (if unat (isize (inodes s i)) < off + n
       then put_dinode k (inodes s' i) (blk s (iblock s i)) else blk s (iblock s i))"
    by (rule writei_disk_spec [OF assms(1-9), folded assms(10)])
  note f = fstepD [OF w(2)] and e = ftxn_eq [OF fstepD(1) [OF w(2)]]
  have frame: "blk s' b = blk s b" if "owned s b" "b \<noteq> iblock s i" "b \<notin> slot s i ` {..MAXFILE}" for b
  proof (rule e(6))
    show "b \<notin> W" using w(2) that by (auto simp: fstep_def)
  qed
  have "card (pinned s' - pinned s - bitmap_blocks (sb s)) \<le> card (W - bitmap_blocks (sb s))"
    using w(3) e(5) by (intro card_mono) auto
  then have p: "card (pinned s' - pinned s - bitmap_blocks (sb s)) \<le> 2 * nblocks off n + 1" using w(4) by simp
  have own: "owned s' b" if "owned s b" for b using w(2) that by (simp add: fstep_def)
  have "get_dinode k (put_dinode k (inodes s' i) d) (inodes s' i) = inodes s' i" for d
    unfolding get_put_dinode by (simp cong: if_cong)
  then show ?thesis using w(1,5,6,9) f(2,3,8) e(4) assms(3) frame p own put_dinode_other by (intro exI [of _ s']) simp
qed

text \<open>
  C3: What is written is what is read. After such a write to a file all of whose blocks below its size are mapped, every
  read returns the file's bytes from its offset, cut off at the new size: the new bytes where the write was,
  the old ones elsewhere. Reading changes no block and no inode.
\<close>

theorem read_after_write:
  assumes "file_ok s i" and "alloc_ok s" and "held s = {}" and "itype (inodes s i) \<noteq> T_DEV"
    and "off \<le> unat (isize (inodes s i))" and "off + n \<le> MAXFILE * BSIZE" and "unat (isize (inodes s i)) \<le> MAXFILE * BSIZE"
    and "room s (2 * nblocks off n + 1)" and "2 * nblocks off n \<le> nfree s"
    and "\<forall>x<unat (isize (inodes s i)). fblk s i (x div BSIZE) \<noteq> 0"
    and "p \<le> max (unat (isize (inodes s i))) (off + n)" and "m < 2 ^ 31"
  shows "\<exists>s' t. writei i src (of_nat off) (of_nat n) s = Ok (int n, s')
    \<and> (let e = min (p + m) (max (unat (isize (inodes s i))) (off + n)) in
        readi i (of_nat p) (of_nat m) s' = Ok (int (e - p), map (\<lambda>x. if off \<le> x \<and> x < off + n then src (x - off) else fbyte s i x) [p..<e], t))
    \<and> blk t = blk s' \<and> inodes t = inodes s'"
proof -
  obtain s' W where w: "writei i src (of_nat off) (of_nat n) s = Ok (int n, s')" "fstep s i W s'" "finite W"
    "card (W - bitmap_blocks (sb s)) \<le> 2 * nblocks off n + 1"
    "unat (isize (inodes s' i)) = max (unat (isize (inodes s i))) (off + n)"
    "\<forall>x<MAXFILE * BSIZE. fbyte s' i x = (if off \<le> x \<and> x < off + n then src (x - off) else fbyte s i x)"
    "\<forall>x. off \<le> x \<and> x < off + n \<longrightarrow> fblk s' i (x div BSIZE) \<noteq> 0"
    by (rule writei_spec [OF assms(1-9)])
  let ?z = "unat (isize (inodes s' i))"
  note f = fstepD [OF w(2)] and e = ftxn_eq [OF fstepD(1) [OF w(2)]]
  have "room s' 0" using room_ftxn [OF assms(8) f(1) w(4)] by simp
  then have r: "can_read s' i" using file_can_read [OF f(3,2)] e(4) assms(3) by simp
  have le: "?z \<le> MAXFILE * BSIZE" using w(5) assms(6,7) by simp
  have mapped: "fblk s' i (x div BSIZE) \<noteq> 0" if x: "x < ?z" for x
  proof (cases "off \<le> x \<and> x < off + n")
    case True
    then show ?thesis using w(7) by simp
  next
    case False
    then have "x < unat (isize (inodes s i))" using x assms(5) w(5) by (auto simp: max_def split: if_splits)
    then have "fblk s i (x div BSIZE) \<noteq> 0" using assms(10) by simp
    moreover have "x div BSIZE < MAXFILE" using x le by (simp add: sizes less_mult_imp_div_less)
    ultimately show ?thesis using f(9) [of "x div BSIZE"] by (simp add: slot_simps)
  qed
  have "\<exists>t. readi i (of_nat p) (of_nat m) s' = Ok (int (min m (?z - p)), map (fbyte s' i) [p..<min (p + m) ?z], t) \<and> txn s' {} t"
    by (rule readi_spec [OF r _ le]) (use mapped f(6) assms(4,11,12) w(5) in simp_all)
  then obtain t where t: "readi i (of_nat p) (of_nat m) s' = Ok (int (min m (?z - p)), map (fbyte s' i) [p..<min (p + m) ?z], t)"
    "txn s' {} t" by blast
  have "map (fbyte s' i) [p..<min (p + m) ?z] = map (\<lambda>x. if off \<le> x \<and> x < off + n then src (x - off) else fbyte s i x) [p..<min (p + m) ?z]"
    by (rule map_cong) (use w(6) le in auto)
  moreover have "min m (?z - p) = min (p + m) ?z - p" using assms(11) w(5) by linarith
  moreover have "blk t = blk s'" "inodes t = inodes s'"
    using txn_eq(11) [OF t(2)] t(2) by (auto simp: txn_def inodes_keeps)
  ultimately show ?thesis using w(1) t(1) unfolding w(5) Let_def by auto
qed

section \<open>An empty file of the sample file system\<close>

definition fsstate0 :: cons where
  "fsstate0 = (binit (cons0\<lparr>disk := sample_disk, sb := sample_sb\<rparr>))
     \<lparr>inodes := (\<lambda>i. zero_inode\<lparr>idev := ROOTDEV, inum := 1, itype := T_FILE\<rparr>)\<rparr>"

lemma sample_nfree: "sample_fs s \<Longrightarrow> nfree s = 941"
proof -
  assume s: "sample_fs s"
  then have f: "fssize s = 1000" by (simp add: fssize_def sample_fs_def sample_sb_def)
  have "{c. c < fssize s \<and> \<not> allocated s c} = {59..<1000}" using sample_allocated(1) [OF s] f by auto
  then show ?thesis by (simp add: nfree_def)
qed

lemma sample_fsstate0: "sample_fs fsstate0"
proof -
  have "sample_fs (binit (cons0\<lparr>disk := sample_disk, sb := sample_sb\<rparr>))"
    by (rule sample_fs_binit) (simp_all add: cons0_defs idle_zero_buf)
  then show ?thesis by (simp add: fsstate0_def sample_fs_def)
qed

lemma sample_file:
  "file_ok fsstate0 i" "alloc_ok fsstate0" "held fsstate0 = {}" "itype (inodes fsstate0 i) \<noteq> T_DEV"
  "unat (isize (inodes fsstate0 i)) = 0" "n < 28 \<Longrightarrow> room fsstate0 n" "nfree fsstate0 = 941" "fbyte fsstate0 i x = 0"
proof -
  note s = sample_fsstate0
  have ino: "inodes fsstate0 i = zero_inode\<lparr>idev := ROOTDEV, inum := 1, itype := T_FILE\<rparr>" by (simp add: fsstate0_def)
  have sl: "slot fsstate0 i k = 0" "fblk fsstate0 i k = 0" for k
    by (simp_all add: slot_def fblk_def indirect_def ino zero_inode_def)
  have sb: "sb fsstate0 = sample_sb" using s by (simp add: sample_fs_def)
  have "iblock fsstate0 i = 32"
    by (simp add: iblock_def ino sb IBLOCK_def sample_sb_def IPB_def BSIZE_def SIZEOF_DINODE_def)
  moreover have "owned fsstate0 32"
    using sample_allocated [OF s, of 32] sample_bitmap sb by (simp add: owned_def fssize_def) (simp add: sample_sb_def)
  ultimately show "file_ok fsstate0 i"
    using sl sample_allocated [OF s, of 0] by (simp add: file_ok_def) (simp add: ino)
  show "alloc_ok fsstate0" "n < 28 \<Longrightarrow> room fsstate0 n" using sample_alloc_ok [OF s] by blast+
  show "held fsstate0 = {}" using s by (simp add: sample_fs_def)
  show "nfree fsstate0 = 941" by (rule sample_nfree [OF s])
  show "itype (inodes fsstate0 i) \<noteq> T_DEV" "unat (isize (inodes fsstate0 i)) = 0"
    by (simp_all add: ino T_DEV_def T_FILE_def zero_inode_def)
  show "fbyte fsstate0 i x = 0" by (simp add: fbyte_def sl)
qed

lemma sample_blocks: "nblocks 0 600 = 2"
  by (simp add: nblocks_def sizes)

theorem writei_updates_witness:
  "\<exists>s'. writei 3 (\<lambda>k. of_nat k + 1) 0 600 fsstate0 = Ok (600, s') \<and> fbyte s' 3 0 = 1 \<and> fbyte s' 3 599 = 88
     \<and> isize (inodes s' 3) = 600 \<and> rd32 (blk s' (iblock fsstate0 3)) (dip_offset 1 + 8) = 600"
proof -
  obtain s' where s': "writei 3 (\<lambda>k. of_nat k + 1) (of_nat 0) (of_nat 600) fsstate0 = Ok (int 600, s')"
    "\<forall>x<MAXFILE * BSIZE. fbyte s' 3 x = (if 0 \<le> x \<and> x < 0 + 600 then of_nat (x - 0) + 1 else fbyte fsstate0 3 x)"
    "unat (isize (inodes s' 3)) = max (unat (isize (inodes fsstate0 3))) (0 + 600)"
    "get_dinode (dip_offset (inum (inodes fsstate0 3))) (blk s' (iblock fsstate0 3)) (inodes s' 3) = inodes s' 3"
    using writei_updates [OF sample_file(1) [of 3] sample_file(2,3) sample_file(4) [of 3] _ _ _ _ _ refl, where off = 0 and n = 600 and src = "\<lambda>k. of_nat k + 1"]
      sample_file sample_blocks by (auto simp: sizes)
  have z: "isize (inodes s' 3) = 600" using s'(3) sample_file(5) by (simp add: word_unat_eq_iff)
  have "isize (get_dinode (dip_offset (inum (inodes fsstate0 3))) (blk s' (iblock fsstate0 3)) (inodes s' 3)) = 600" using s'(4) z by simp
  then have "rd32 (blk s' (iblock fsstate0 3)) (dip_offset 1 + 8) = 600" by (simp add: get_dinode_def fsstate0_def)
  then show ?thesis using s' z by (auto simp: sizes)
qed

theorem read_after_write_witness:
  "\<exists>s' t. writei 3 (\<lambda>k. of_nat k + 1) 0 600 fsstate0 = Ok (600, s') \<and> readi 3 597 9 s' = Ok (3, [86, 87, 88], t)"
proof -
  obtain s' t where s': "writei 3 (\<lambda>k. of_nat k + 1) (of_nat 0) (of_nat 600) fsstate0 = Ok (int 600, s')"
    "let e = min (597 + 9) (max (unat (isize (inodes fsstate0 3))) (0 + 600)) in
      readi 3 (of_nat 597) (of_nat 9) s' = Ok (int (e - 597),
        map (\<lambda>x. if 0 \<le> x \<and> x < 0 + 600 then of_nat (x - 0) + 1 else fbyte fsstate0 3 x) [597..<e], t)"
    using read_after_write [of fsstate0 3 0 600 597 9 "\<lambda>k. of_nat k + 1"] sample_file sample_blocks by (auto simp: sizes)
  then show ?thesis using sample_file(5) by (auto simp: upt_rec)
qed

end
