(* ===== verification/Durable.thy ===== *)
theory Durable
  imports FileData Swapfile
begin

text \<open>
  Writing and reading an open file, across transactions: \<open>filewrite\<close> cuts a write into operations that fit the
  log, and every one of them is committed before the next begins. The swap file of a process is such a file.
  Lemmas: between operations the disk holds what the cache shows (\<open>ready\<close>); a page written to the swap file is
  read back.
\<close>

section \<open>Ending an operation\<close>

text \<open>Two states with the same cache and log show the same blocks.\<close>

lemma same_cache:
  assumes "bufs t = bufs s" "disk t = disk s" "disksize t = disksize s" "log t = log s" "sb t = sb s"
  shows "blk t = blk s" "pinned t = pinned s" "held t = held s" "bio_ok t = bio_ok s" "log_ok t = log_ok s"
    "in_op t = in_op s" "bm t = bm s" "fssize t = fssize s" "allocated t = allocated s" "room t n = room s n"
    "alloc_ok t = alloc_ok s" "nfree t = nfree s" "owned t = owned s" "layout t = layout s"
proof -
  show b: "blk t = blk s" "pinned t = pinned s" "held t = held s" "bm t = bm s" "fssize t = fssize s"
    using assms by (simp_all add: blk_def [abs_def] pinned_def held_def bm_def [abs_def] fssize_def cong: option.case_cong)
  have "nx t = nx s" "pv t = pv s" using assms(1) by (simp_all add: nx_def pv_def fun_eq_iff)
  then have "ring_ok t = ring_ok s" by (rule ring_ok_cong)
  then show o: "bio_ok t = bio_ok s" using assms by (simp add: bio_ok_def buf_ok_def)
  show l: "log_ok t = log_ok s" using assms b o by (simp add: log_ok_def)
  show i: "in_op t = in_op s" using assms l by (simp add: in_op_def)
  show a: "allocated t = allocated s" using b by (simp add: allocated_def [abs_def])
  show "room t n = room s n" using assms b by (simp add: room_def)
  show y: "layout t = layout s" using assms b by (simp add: layout_def)
  show "alloc_ok t = alloc_ok s" using assms a b i y by (simp add: alloc_ok_def)
  show "nfree t = nfree s" "owned t = owned s" using assms a b by (simp_all add: nfree_def owned_def [abs_def])
qed

lemma wakeup_cache:
  "bufs (wakeup c s) = bufs s" "disk (wakeup c s) = disk s" "disksize (wakeup c s) = disksize s"
  "log (wakeup c s) = log s" "sb (wakeup c s) = sb s" "inodes (wakeup c s') = inodes s'"
  by (simp_all add: wakeup_def wakeup1_def)

lemma log_frame_wakeup: "log_frame s (wakeup c s)"
  by (simp add: log_frame_def bio_frame_def woken_wakeup) (simp add: wakeup_def wakeup1_def)

lemma end_op_spec:
  assumes ok: "log_ok s" "held s = {}" and tx: "tx_ok (log s) (disksize s)" and o: "outstanding (log s) = 1" "\<not> committing (log s)"
  obtains s' where "end_op s = Ok s'" "log_frame s s'" "log_ok s'" "held s' = {}" "pinned s' = {}" "blk s' = disk s'"
    "log s' = (log s)\<lparr>outstanding := 0, committing := False, lh_n := 0\<rparr>" "\<forall>n. n \<notin> log_area (log s) \<longrightarrow> blk s' n = blk s n"
proof -
  let ?g = "\<lambda>l :: logst. l\<lparr>outstanding := outstanding l - 1, committing := True\<rparr>"
  let ?f = "\<lambda>l :: logst. l\<lparr>committing := False\<rparr>"
  let ?t = "upd_log ?g s"
  have lt: "log ?t = (log s)\<lparr>committing := True, outstanding := 0\<rparr>" using o by simp
  have t: "quiet ?t" "tx_ok (log ?t) (disksize ?t)" "pinned ?t = hblk (log ?t) ` {..<nat (lh_n (log ?t))}" "blk ?t = blk s"
    "lh_n (log ?t) = lh_n (log s)" "log_area (log ?t) = log_area (log s)" "0 \<le> lh_n (log s)"
    using ok tx by (simp_all add: quiet_def log_ok_def tx_ok_def log_area_def hblk_def [abs_def])
  have "\<exists>u. commit ?t = Ok u \<and> quiet u \<and> pinned u = {} \<and> log u = (log ?t)\<lparr>lh_n := 0\<rparr> \<and> log_frame ?t u
     \<and> (\<forall>n. n \<notin> log_area (log s) \<longrightarrow> blk u n = blk s n)"
  proof (cases "lh_n (log s) = 0")
    case True
    then have "pinned s = {}" using ok by (simp add: log_ok_def)
    then show ?thesis using True t log_frame_bio [OF bio_frame_refl, of ?t] by (intro exI [of _ ?t]) (simp add: commit_def)
  next
    case False
    then have "0 < lh_n (log ?t)" using t by simp
    from commit_spec [OF t(1,2) this t(3)] obtain u where u: "commit ?t = Ok u" "log_frame ?t u" "log u = (log ?t)\<lparr>lh_n := 0\<rparr>"
      "written ?t (commit_writes (log ?t) (blk ?t)) u" "pinned u = {}" by blast
    then show ?thesis using commit_writes_home [OF t(2)] t by (auto simp: written_def quiet_def)
  qed
  then obtain u where u: "commit ?t = Ok u" "quiet u" "pinned u = {}" "log u = (log ?t)\<lparr>lh_n := 0\<rparr>" "log_frame ?t u"
    "\<forall>n. n \<notin> log_area (log s) \<longrightarrow> blk u n = blk s n" by blast
  let ?v = "upd_log ?f u"
  let ?w = "wakeup ChLog ?v"
  note w = same_cache [OF wakeup_cache(1-5), of ChLog ?v]
  have run: "end_op s = Ok ?w" using u(1) o by (simp add: end_op_def Let_def upd_log_def)
  have fr: "log_frame s ?w"
    using log_frame_trans [OF log_frame_trans [OF log_frame_upd u(5)] log_frame_trans [OF log_frame_upd log_frame_wakeup]] by blast
  have lw: "log ?w = (log s)\<lparr>outstanding := 0, committing := False, lh_n := 0\<rparr>"
    using u(4) lt by (simp add: wakeup_cache)
  have "blk u = disk u" using blk_unpinned [of u] u(2,3) by (auto simp: quiet_def fun_eq_iff)
  then have "blk ?w = disk ?w" "held ?w = {}" "pinned ?w = {}" "blk ?w = blk u" using u(2,3) w by (simp_all add: quiet_def wakeup_cache)
  moreover have "log_ok ?w" using u(2,3) w lw by (simp add: log_ok_def quiet_def)
  ultimately show thesis using that [OF run fr] lw u(6) by simp
qed

section \<open>A file between two operations\<close>

text \<open>
  Between two system calls the log is empty and nothing is locked. The log's own blocks are in use and belong
  to no file, and a transaction of nine blocks fits. The file is consistent, unlocked and in memory, and has
  a block for every byte.
\<close>

definition log_zone :: "logst \<Rightarrow> nat set" where
  "log_zone l = {unat (lstart l)..<unat (lstart l) + nat (lsize l)}"

definition idle_log :: "'a logfs_scheme \<Rightarrow> bool" where
  "idle_log s \<longleftrightarrow> log_ok s \<and> held s = {} \<and> lh_n (log s) = 0 \<and> outstanding (log s) = 0 \<and> \<not> committing (log s)
     \<and> ldev (log s) = ROOTDEV"

definition zone_ok :: "'a icache_scheme \<Rightarrow> nat \<Rightarrow> bool" where
  "zone_ok s i \<longleftrightarrow> unat (lstart (log s)) + nat (lsize (log s)) \<le> fssize s
     \<and> int (card (bitmap_blocks (sb s))) + 9 < min 29 (lsize (log s) - 1)
     \<and> (\<forall>n\<in>log_zone (log s). owned s n \<and> n \<noteq> iblock s i \<and> n \<notin> slot s i ` {..MAXFILE})"

definition resting :: "inode \<Rightarrow> bool" where
  "resting ip \<longleftrightarrow> \<not> locked (ilk ip) \<and> 1 \<le> iref ip \<and> ivalid ip \<and> itype ip \<noteq> T_DEV"

definition mapped :: "'a icache_scheme \<Rightarrow> nat \<Rightarrow> bool" where
  "mapped s i \<longleftrightarrow> unat (isize (inodes s i)) \<le> MAXFILE * BSIZE \<and> (\<forall>x<unat (isize (inodes s i)). fblk s i (x div BSIZE) \<noteq> 0)"

definition disk_ok :: "'a icache_scheme \<Rightarrow> nat \<Rightarrow> bool" where
  "disk_ok s i \<longleftrightarrow> layout s \<and> (\<forall>b\<in>bitmap_blocks (sb s). allocated s b) \<and> zone_ok s i \<and> file_ok s i \<and> mapped s i"

definition ready :: "'a icache_scheme \<Rightarrow> nat \<Rightarrow> bool" where
  "ready s i \<longleftrightarrow> idle_log s \<and> disk_ok s i \<and> resting (inodes s i)"

text \<open>States that show the same blocks outside \<open>Z\<close>, where the bitmap and the file have none.\<close>

lemma same_file:
  assumes sb: "sb t = sb s" "disksize t = disksize s" and ip: "idev (inodes t i) = idev (inodes s i)" "inum (inodes t i) = inum (inodes s i)"
      "addrs (inodes t i) = addrs (inodes s i)"
    and b: "\<forall>n. n \<notin> Z \<longrightarrow> blk t n = blk s n" and Z: "bitmap_blocks (sb s) \<inter> Z = {}" "\<forall>k\<le>MAXFILE. slot s i k \<noteq> 0 \<longrightarrow> slot s i k \<notin> Z"
    and ok: "layout s" "file_ok s i"
  shows "layout t" "d < fssize s \<Longrightarrow> allocated t d = allocated s d" "owned t = owned s" "nfree t = nfree s" "fblk t i = fblk s i"
    "slot t i = slot s i" "iblock t i = iblock s i" "file_ok t i" "x < MAXFILE * BSIZE \<Longrightarrow> fbyte t i x = fbyte s i x"
proof -
  note k = bm_keeps [of t s, OF sb(1)]
  show "layout t" using ok(1) sb k by (simp add: layout_def)
  have bm: "bm s d \<in> bitmap_blocks (sb s)" if "d < fssize s" for d by (rule unat_BBLOCK(4) [OF ok(1) that])
  show al: "allocated t d = allocated s d" if "d < fssize s" for d
    by (rule allocated_cong [OF sb(1)]) (use b Z(1) bm [OF that] in blast)
  show ow: "owned t = owned s" using al k sb by (auto simp: owned_def fun_eq_iff)
  have "{c. c < fssize t \<and> \<not> allocated t c} = {c. c < fssize s \<and> \<not> allocated s c}" using al k by auto
  then show "nfree t = nfree s" by (simp add: nfree_def)
  have "blk t (indirect s i) = blk s (indirect s i)" if "indirect s i \<noteq> 0"
    using b Z(2) that slot_simps(2) [of s i] by (metis le_refl)
  then show fb: "fblk t i = fblk s i" "slot t i = slot s i" using fblk_cong [of t i s] ip(3) by auto
  show ib: "iblock t i = iblock s i" using ip sb by (simp add: iblock_def)
  have "0 < fssize s" using file_okD(3) [OF ok(2)] by (simp add: owned_def)
  then show "file_ok t i" using ok(2) al [of 0] ip by (simp add: file_ok_def ow fb ib)
  show "fbyte t i x = fbyte s i x" if "x < MAXFILE * BSIZE"
  proof -
    have "x div BSIZE < MAXFILE" using that by (simp add: sizes less_mult_imp_div_less)
    then have "fblk s i (x div BSIZE) \<noteq> 0 \<Longrightarrow> fblk s i (x div BSIZE) \<notin> Z"
      using Z(2) by (metis less_imp_le slot_simps(1))
    then show ?thesis using b fb by (simp add: fbyte_def)
  qed
qed

lemma same_disk_ok:
  assumes "disk_ok s i" "sb t = sb s" "disksize t = disksize s" "idev (inodes t i) = idev (inodes s i)" "inum (inodes t i) = inum (inodes s i)"
      "addrs (inodes t i) = addrs (inodes s i)" "isize (inodes t i) = isize (inodes s i)"
    and b: "\<forall>n. n \<notin> log_zone (log s) \<longrightarrow> blk t n = blk s n" and l: "lstart (log t) = lstart (log s)" "lsize (log t) = lsize (log s)"
  shows "disk_ok t i" "nfree t = nfree s" "x < MAXFILE * BSIZE \<Longrightarrow> fbyte t i x = fbyte s i x" "fblk t i = fblk s i" "owned t = owned s"
    "slot t i = slot s i" "iblock t i = iblock s i"
proof -
  have d: "layout s" "file_ok s i" "zone_ok s i" "mapped s i" "\<forall>b\<in>bitmap_blocks (sb s). allocated s b" using assms(1) by (simp_all add: disk_ok_def)
  have Z: "bitmap_blocks (sb s) \<inter> log_zone (log s) = {}" "\<forall>k\<le>MAXFILE. slot s i k \<noteq> 0 \<longrightarrow> slot s i k \<notin> log_zone (log s)"
    using d(3) by (auto simp: zone_ok_def owned_def)
  note f = same_file [OF assms(2-6) b Z d(1,2)]
  have "log_zone (log t) = log_zone (log s)" using l by (simp add: log_zone_def)
  then have "zone_ok t i" using d(3) f bm_keeps [of t s] assms(2) l by (simp add: zone_ok_def)
  moreover have "\<forall>b\<in>bitmap_blocks (sb t). allocated t b" using d(5) f(2) bitmap_blocks_less [OF d(1)] assms(2) by simp
  ultimately show "disk_ok t i" using f d(4) assms(7) by (simp add: disk_ok_def mapped_def)
  show "nfree t = nfree s" "x < MAXFILE * BSIZE \<Longrightarrow> fbyte t i x = fbyte s i x" "fblk t i = fblk s i" "owned t = owned s"
    "slot t i = slot s i" "iblock t i = iblock s i" by (rule f; simp)+
qed

section \<open>One operation on a file\<close>

text \<open>An operation begins and locks the inode.\<close>

lemma start_op:
  fixes s :: "'a icache_scheme"
  assumes "ready s i"
  defines "t \<equiv> upd_inode i (\<lambda>ip. ip\<lparr>ilk := (ilk ip)\<lparr>locked := True, lk_pid := pid (myproc s)\<rparr>\<rparr>) (upd_log (\<lambda>l. l\<lparr>outstanding := 1\<rparr>) s)"
  shows "begin_op s = Ok (upd_log (\<lambda>l. l\<lparr>outstanding := 1\<rparr>) s)" "ilock i (upd_log (\<lambda>l. l\<lparr>outstanding := 1\<rparr>) s) = Ok t"
    "disk_ok t i" "alloc_ok t" "held t = {}" "room t 9" "pinned t = {}" "nfree t = nfree s" "fblk t i = fblk s i"
    "x < MAXFILE * BSIZE \<Longrightarrow> fbyte t i x = fbyte s i x"
proof -
  have s: "idle_log s" "disk_ok s i" "resting (inodes s i)" using assms(1) by (simp_all add: ready_def)
  then have l: "log_ok s" "held s = {}" "pinned s = {}" "outstanding (log s) = 0" "\<not> committing (log s)" "lh_n (log s) = 0"
    by (simp_all add: idle_log_def log_ok_def)
  let ?u = "upd_log (\<lambda>l. l\<lparr>outstanding := 1\<rparr>) s"
  have "(\<lambda>l :: logst. l\<lparr>outstanding := outstanding l + 1\<rparr>) (log s) = (log s)\<lparr>outstanding := 1\<rparr>" using l(4) by simp
  then show "begin_op s = Ok ?u"
    using l(4-6) by (simp add: begin_op_def upd_log_def MAXOPBLOCKS_def LOGSIZE_def)
  have "pid (myproc ?u) = pid (myproc s)" "inodes ?u i = inodes s i" by (simp_all add: myproc_def upd_log_def)
  then show "ilock i ?u = Ok t"
    using s(3) by (simp add: ilock_def resting_def acquiresleep_def t_def upd_inode_def)
  have e: "blk t = blk s" "sb t = sb s" "disksize t = disksize s" "log t = (log s)\<lparr>outstanding := 1\<rparr>" "held t = held s" "pinned t = pinned s"
    "inodes t = (inodes s)(i := (inodes s i)\<lparr>ilk := (ilk (inodes s i))\<lparr>locked := True, lk_pid := pid (myproc s)\<rparr>\<rparr>)"
    by (simp_all add: t_def upd_inode_def) (simp_all add: upd_log_def)
  have d: "disk_ok t i" "nfree t = nfree s" "x < MAXFILE * BSIZE \<Longrightarrow> fbyte t i x = fbyte s i x" "fblk t i = fblk s i"
    by (rule same_disk_ok [OF s(2)]; simp add: e)+
  show "held t = {}" "pinned t = {}" using e l by simp_all
  have "log_ok t" unfolding t_def using l(1) by (simp add: upd_inode_def log_ok_def hblk_def [abs_def])
  then show "alloc_ok t" using d(1) e l(2) by (simp add: alloc_ok_def in_op_def disk_ok_def)
  show "room t 9" using s(2) l(3) e by (simp add: room_def disk_ok_def zone_ok_def)
  show "disk_ok t i" "nfree t = nfree s" "fblk t i = fblk s i" "x < MAXFILE * BSIZE \<Longrightarrow> fbyte t i x = fbyte s i x" by (rule d; simp)+
qed

text \<open>The log's blocks stay out of the transaction.\<close>

lemma fstep_zone:
  assumes t: "disk_ok t i" "fstep t i W v"
  shows "W \<inter> log_zone (log t) = {}" "lstart (log v) = lstart (log t) \<Longrightarrow> mapped v i \<Longrightarrow> disk_ok v i"
proof -
  have z: "\<forall>n\<in>log_zone (log t). owned t n \<and> n \<noteq> iblock t i \<and> n \<notin> slot t i ` {..MAXFILE}" using t(1) by (simp add: disk_ok_def zone_ok_def)
  show "W \<inter> log_zone (log t) = {}" using t(2) z by (auto simp: fstep_def)
  assume lm: "lstart (log v) = lstart (log t)" "mapped v i"
  note f = fstepD [OF t(2)] and e = ftxn_eq [OF fstepD(1) [OF t(2)]]
  have lz: "log_zone (log v) = log_zone (log t)" using lm(1) e(10) by (simp add: log_zone_def)
  have sl: "slot v i l = slot t i l \<or> \<not> owned t (slot v i l)" if "l \<le> MAXFILE" for l using t(2) that by (auto simp: fstep_def)
  have "owned v n \<and> n \<noteq> iblock v i \<and> n \<notin> slot v i ` {..MAXFILE}" if n: "n \<in> log_zone (log t)" for n
  proof -
    have "owned t n" "n \<noteq> iblock t i" "n \<notin> slot t i ` {..MAXFILE}" using z n by auto
    moreover have "owned v n" using t(2) \<open>owned t n\<close> by (simp add: fstep_def)
    moreover have "n \<noteq> slot v i l" if "l \<le> MAXFILE" for l using sl [OF that] calculation that by auto
    ultimately show ?thesis using f(7) by auto
  qed
  then have "zone_ok v i" using t(1) lz lm(1) e by (simp add: disk_ok_def zone_ok_def)
  moreover have "\<forall>b\<in>bitmap_blocks (sb v). allocated v b" "layout v"
    using f(2) bitmap_blocks_less [of v] by (simp_all add: alloc_ok_def)
  ultimately show "disk_ok v i" using f(3) lm(2) by (simp add: disk_ok_def)
qed

text \<open>What one operation keeps besides the blocks: \<open>w\<close> is only released and committed.\<close>

definition released :: "'a icache_scheme \<Rightarrow> nat \<Rightarrow> 'a icache_scheme \<Rightarrow> bool" where
  "released w i s' \<longleftrightarrow> (\<exists>p b d io l. s' = w\<lparr>procs := p, bufs := b, disk := d, iolog := io, log := l,
       inodes := (inodes w)(i := (inodes w i)\<lparr>ilk := unlocked (ilk (inodes w i))\<rparr>)\<rparr> \<and> (\<forall>j. woken (procs w j) (p j)))"

lemma log_frame_fields:
  assumes "log_frame s s'"
  shows "\<exists>p b d io l. s' = s\<lparr>procs := p, bufs := b, disk := d, iolog := io, log := l\<rparr> \<and> (\<forall>j. woken (procs s j) (p j))"
proof -
  have e: "s' = s\<lparr>log := log s', procs := procs s', bufs := bufs s', disk := disk s', iolog := iolog s'\<rparr>"
    and w: "\<forall>j. woken (procs s j) (procs s' j)"
    using assms by (simp_all add: log_frame_def bio_frame_def)
  show ?thesis
    by (rule exI [of _ "procs s'"], rule exI [of _ "bufs s'"], rule exI [of _ "disk s'"], rule exI [of _ "iolog s'"], rule exI [of _ "log s'"])
      (rule conjI [OF _ w], subst e, simp)
qed

lemma finish_op:
  fixes v :: "'a icache_scheme"
  assumes v: "disk_ok v i" "alloc_ok v" "held v = {}" "room v 0" "\<forall>n\<in>pinned v. n < fssize v \<and> n \<notin> log_zone (log v)"
    and l: "outstanding (log v) = 1" "\<not> committing (log v)" "ldev (log v) = ROOTDEV"
    and ip: "holdingsleep (pid (myproc v)) (ilk (inodes v i))" "1 \<le> iref (inodes v i)" "ivalid (inodes v i)" "itype (inodes v i) \<noteq> T_DEV"
  obtains s' where "bindr (iunlock i v) end_op = Ok s'" "ready s' i" "nfree s' = nfree v"
    "\<forall>x<MAXFILE * BSIZE. fbyte s' i x = fbyte v i x" "released v i s'" "disk s' = blk s'"
    "\<forall>n. n \<notin> log_zone (log v) \<longrightarrow> blk s' n = blk v n"
proof -
  let ?w = "wakeup (ChInode i) v"
  let ?u = "upd_inode i (\<lambda>ip. ip\<lparr>ilk := unlocked (ilk (inodes v i))\<rparr>) ?w"
  have run: "iunlock i v = Ok ?u" using ip(1,2) by (simp add: iunlock_def releasesleep_def)
  note c = wakeup_cache [of "ChInode i" v] and w = same_cache [OF wakeup_cache(1-5), of "ChInode i" v]
  have ino: "inodes ?u = (inodes v)(i := (inodes v i)\<lparr>ilk := unlocked (ilk (inodes v i))\<rparr>)"
    by (simp add: inodes_upd_inode wakeup_cache)
  have u: "log_ok ?u" "held ?u = {}" "pinned ?u = pinned v" "log ?u = log v" "blk ?u = blk v" "disksize ?u = disksize v" "sb ?u = sb v"
    using v(2,3) w c by (simp_all add: alloc_ok_def in_op_def upd_inode_def)
  let ?n = "nat (lh_n (log v))"
  have lv: "log_ok v" "0 \<le> lh_n (log v)" "inj_on (hblk (log v)) {..<?n}" "pinned v = hblk (log v) ` {..<?n}"
    using v(2) by (simp_all add: alloc_ok_def in_op_def log_ok_def)
  have "?n = card (pinned v)" using lv(3,4) by (simp add: card_image)
  also have "\<dots> \<le> card (pinned v \<union> bitmap_blocks (sb v))" using lv(4) by (intro card_mono) auto
  finally have n: "int ?n < min 29 (lsize (log v) - 1)" using v(4) unfolding room_def by linarith
  then have nl: "?n < nat (lsize (log v))" by linarith
  have z: "unat (lstart (log v)) + nat (lsize (log v)) \<le> fssize v" "fssize v \<le> unat (disksize v)"
    using v(1) by (simp_all add: disk_ok_def zone_ok_def layout_def)
  have area: "log_area (log v) \<subseteq> log_zone (log v)" using nl by (auto simp: log_area_def log_zone_def)
  have hb: "hblk (log v) j < fssize v \<and> hblk (log v) j \<notin> log_zone (log v)" if "j < ?n" for j using v(5) lv(4) that by auto
  have out: "hblk (log v) j < unat (lstart (log v)) \<or> unat (lstart (log v)) + ?n < hblk (log v) j" if "j < ?n" for j
    using hb [OF that] nl by (auto simp: log_zone_def)
  have lb: "lh_block (log v) j < disksize v" if "j < ?n" for j using hb [OF that] z(2) by (simp add: hblk_def word_less_nat_alt)
  have "?n < 30" "unat (lstart (log v)) + ?n < unat (disksize v)" using n nl z by linarith+
  then have "tx_ok (log ?u) (disksize ?u)"
    unfolding tx_ok_def u(4,6) using l(3) lv(2,3) out lb by (simp add: NBUF_def)
  then obtain s' where s': "end_op ?u = Ok s'" "log_frame ?u s'" "log_ok s'" "held s' = {}" "pinned s' = {}" "blk s' = disk s'"
    "log s' = (log ?u)\<lparr>outstanding := 0, committing := False, lh_n := 0\<rparr>" "\<forall>n. n \<notin> log_area (log ?u) \<longrightarrow> blk s' n = blk ?u n"
    using end_op_spec [OF u(1,2)] l u(4) by metis
  obtain p b d io l' where f: "s' = ?u\<lparr>procs := p, bufs := b, disk := d, iolog := io, log := l'\<rparr>" "\<forall>j. woken (procs ?u j) (p j)"
    using log_frame_fields [OF s'(2)] by blast
  have is': "inodes s' = inodes ?u" "sb s' = sb v" "disksize s' = disksize v" unfolding f(1) using u(6,7) by simp_all
  have fr: "\<forall>n. n \<notin> log_zone (log v) \<longrightarrow> blk s' n = blk v n" using s'(8) u(4,5) area by auto
  have d: "disk_ok s' i" "nfree s' = nfree v" "x < MAXFILE * BSIZE \<Longrightarrow> fbyte s' i x = fbyte v i x" for x
    by (rule same_disk_ok [OF v(1)]; simp add: is' ino s'(7) u(4) fr)+
  have "idle_log s'" using s' l u(4) by (simp add: idle_log_def)
  moreover have "resting (inodes s' i)" using ip is'(1) ino by (simp add: resting_def unlocked_def)
  ultimately have r: "ready s' i" using d(1) by (simp add: ready_def)
  have "released v i s'"
    unfolding released_def
  proof (intro exI conjI)
    show "s' = v\<lparr>procs := p, bufs := b, disk := d, iolog := io, log := l',
        inodes := (inodes v)(i := (inodes v i)\<lparr>ilk := unlocked (ilk (inodes v i))\<rparr>)\<rparr>"
      unfolding f(1) by (simp add: upd_inode_def wakeup_def wakeup1_def)
    show "\<forall>j. woken (procs v j) (p j)"
      using f(2) woken_trans [OF woken_wakeup [of v _ "ChInode i"]] by (simp add: upd_inode_def)
  qed
  then show thesis using that [of s'] run s'(1,6) r d fr by simp
qed

section \<open>filewrite\<close>

text \<open>The fields a write to open file \<open>f\<close> leaves alone; processes may be woken.\<close>

definition elsewhere :: "'a ftab_scheme \<Rightarrow> nat \<Rightarrow> 'a ftab_scheme \<Rightarrow> bool" where
  "elsewhere s f s' \<longleftrightarrow> files s' = (files s)(f := (files s f)\<lparr>foff := foff (files s' f)\<rparr>) \<and> pipes s' = pipes s
     \<and> curproc s' = curproc s \<and> (\<forall>j. woken (procs s j) (procs s' j))
     \<and> (\<forall>j. j \<noteq> fip (files s f) \<longrightarrow> inodes s' j = inodes s j)"

lemma elsewhereD:
  assumes "elsewhere s f s'"
  shows "fip (files s' f) = fip (files s f)" "readable (files s' f) = readable (files s f)" "writable (files s' f) = writable (files s f)"
    "ftype (files s' f) = ftype (files s f)" "swapFile (procs s' p) = swapFile (procs s p)"
proof -
  have e: "files s' = (files s)(f := (files s f)\<lparr>foff := foff (files s' f)\<rparr>)" and w: "woken (procs s p) (procs s' p)"
    using assms by (simp_all add: elsewhere_def)
  show "fip (files s' f) = fip (files s f)" "readable (files s' f) = readable (files s f)" "writable (files s' f) = writable (files s f)"
    "ftype (files s' f) = ftype (files s f)" by (subst e, simp)+
  show "swapFile (procs s' p) = swapFile (procs s p)" using w by (auto simp: woken_def)
qed

lemma elsewhere_refl [simp]: "elsewhere s f s"
  by (simp add: elsewhere_def)

lemma elsewhere_trans:
  assumes "elsewhere s f t" "elsewhere t f u"
  shows "elsewhere s f u"
proof -
  have e: "files t = (files s)(f := (files s f)\<lparr>foff := foff (files t f)\<rparr>)" "files u = (files t)(f := (files t f)\<lparr>foff := foff (files u f)\<rparr>)"
    using assms by (simp_all add: elsewhere_def)
  have "files u = (files s)(f := (files s f)\<lparr>foff := foff (files u f)\<rparr>)"
  proof -
    have "(files t f)\<lparr>foff := z\<rparr> = (files s f)\<lparr>foff := z\<rparr>" for z by (subst e(1), simp)
    then show ?thesis by (subst e(2), subst e(1)) simp
  qed
  then show ?thesis using assms elsewhereD(1) [OF assms(1)] by (auto simp: elsewhere_def intro: woken_trans)
qed

lemma elsewhere_released: "released w (fip (files w f)) s' \<Longrightarrow> elsewhere w f s'"
  by (auto simp: released_def elsewhere_def)

lemma elsewhere_fstep:
  assumes "fstep s (fip (files s f)) W s'"
  shows "elsewhere s f s'" "files s' = files s" "committing (log s') = committing (log s)" "ldev (log s') = ldev (log s)" "lstart (log s') = lstart (log s)"
proof -
  have k: "keeps (s\<lparr>inodes := inodes s'\<rparr>) s'" using fstepD(1) [OF assms] by (simp add: ftxn_def txn_def)
  then show "committing (log s') = committing (log s)" "ldev (log s') = ldev (log s)" "lstart (log s') = lstart (log s)"
    by (simp_all add: keeps_def)
  obtain p b d io l where f: "s' = (s\<lparr>inodes := inodes s'\<rparr>)\<lparr>procs := p, bufs := b, disk := d, iolog := io, log := l\<rparr>"
    "\<forall>j. woken (procs (s\<lparr>inodes := inodes s'\<rparr>) j) (p j)"
    using log_frame_fields [of "s\<lparr>inodes := inodes s'\<rparr>" s'] k by (auto simp: keeps_def)
  show fs: "files s' = files s" by (subst f(1), simp)
  have "pipes s' = pipes s" "curproc s' = curproc s" "procs s' = p" by (subst f(1), simp)+
  then show "elsewhere s f s'" using fs f(2) fstepD(8) [OF assms] by (simp add: elsewhere_def)
qed

lemma filewrite_max: "filewrite_max = 1536"
  by (simp add: filewrite_max_def MAXOPBLOCKS_def)

lemma nblocks_small: "n \<le> 1536 \<Longrightarrow> nblocks off n \<le> 4"
proof -
  assume "n \<le> 1536"
  then have "off + n - 1 \<le> off + 1535" by simp
  then have "(off + n - 1) div 512 \<le> (off + 1535) div 512" by (rule div_le_mono)
  also have "\<dots> \<le> off div 512 + 3" by linarith
  finally show ?thesis by (auto simp: nblocks_def sizes)
qed

text \<open>The offset is part of no predicate on the disk.\<close>

lemma upd_file_views [simp]:
  "bufs (upd_file f g s) = bufs s" "disk (upd_file f g s) = disk s" "disksize (upd_file f g s) = disksize s"
  "log (upd_file f g s) = log s" "sb (upd_file f g s) = sb s" "inodes (upd_file f g s) = inodes s"
  "procs (upd_file f g s) = procs s" "curproc (upd_file f g s) = curproc s" "pipes (upd_file f g s) = pipes s"
  "files (upd_file f g s) = (files s)(f := g (files s f))"
  by (simp_all add: upd_file_def)

lemma upd_file_blocks [simp]:
  "blk (upd_file f g s) = blk s" "pinned (upd_file f g s) = pinned s" "held (upd_file f g s) = held s"
  "alloc_ok (upd_file f g s) = alloc_ok s" "room (upd_file f g s) n = room s n" "nfree (upd_file f g s) = nfree s"
  "fssize (upd_file f g s) = fssize s" "log_ok (upd_file f g s) = log_ok s" "pid (myproc (upd_file f g s)) = pid (myproc s)"
  using same_cache [of "upd_file f g s" s] by (simp_all add: myproc_def)

lemma upd_file_file [simp]:
  "disk_ok s i \<Longrightarrow> disk_ok (upd_file f g s) i" "disk_ok s i \<Longrightarrow> x < MAXFILE * BSIZE \<Longrightarrow> fbyte (upd_file f g s) i x = fbyte s i x"
  by (rule same_disk_ok [of s i]; simp)+

lemma ready_upd_file: "ready s i \<Longrightarrow> ready (upd_file f g s) i"
  by (simp add: ready_def idle_log_def)

lemma filewrite_step:
  fixes s :: "'a ftab_scheme"
  assumes s: "ready s i" "i = fip (files s f)" "foff (files s f) = of_nat off"
    and off: "off \<le> unat (isize (inodes s i))" "off + left \<le> MAXFILE * BSIZE" "0 < left" "8 \<le> nfree s"
  defines "n \<equiv> min left filewrite_max"
  obtains s' where "filewrite_loop f addr k left s = filewrite_loop f addr (k + n) (left - n) s'" "ready s' i"
    "elsewhere s f s'" "foff (files s' f) = of_nat (off + n)" "unat (isize (inodes s' i)) = max (unat (isize (inodes s i))) (off + n)"
    "\<forall>x<MAXFILE * BSIZE. fbyte s' i x = (if off \<le> x \<and> x < off + n then addr (k + (x - off)) else fbyte s i x)"
    "nfree s \<le> nfree s' + 8" "disk s' = blk s'"
proof -
  note st = start_op [OF s(1)]
  let ?u = "upd_log (\<lambda>l. l\<lparr>outstanding := 1\<rparr>) s"
  let ?t = "upd_inode i (\<lambda>ip. ip\<lparr>ilk := (ilk ip)\<lparr>locked := True, lk_pid := pid (myproc s)\<rparr>\<rparr>) ?u"
  let ?src = "\<lambda>j. addr (k + j)"
  have n: "nblocks off n \<le> 4" "0 < n" "n \<le> left" using nblocks_small [of n off] off(3) by (simp_all add: n_def filewrite_max)
  have r: "resting (inodes s i)" "idle_log s" "disk_ok s i" using s(1) by (simp_all add: ready_def)
  have it: "isize (inodes ?t i) = isize (inodes s i)" "itype (inodes ?t i) = itype (inodes s i)" "ilk (inodes ?t i) = (ilk (inodes s i))\<lparr>locked := True, lk_pid := pid (myproc s)\<rparr>"
    "iref (inodes ?t i) = iref (inodes s i)" "ivalid (inodes ?t i) = ivalid (inodes s i)"
    by (simp_all add: upd_inode_def upd_log_def)
  have sz: "unat (isize (inodes s i)) \<le> MAXFILE * BSIZE" using r(3) by (simp add: disk_ok_def mapped_def)
  obtain v W where v: "writei i ?src (of_nat off) (of_nat n) ?t = Ok (int n, v)" "fstep ?t i W v"
    "card (W - bitmap_blocks (sb ?t)) \<le> 2 * nblocks off n + 1"
    "unat (isize (inodes v i)) = max (unat (isize (inodes ?t i))) (off + n)"
    "\<forall>x<MAXFILE * BSIZE. fbyte v i x = (if off \<le> x \<and> x < off + n then ?src (x - off) else fbyte ?t i x)"
    "\<forall>x. off \<le> x \<and> x < off + n \<longrightarrow> fblk v i (x div BSIZE) \<noteq> 0" "nfree ?t \<le> nfree v + 2 * nblocks off n"
  proof (rule writei_spec [of ?t i off n ?src])
    show "file_ok ?t i" using st(3) by (simp add: disk_ok_def)
    show "itype (inodes ?t i) \<noteq> T_DEV" using r(1) it by (simp add: resting_def)
    show "room ?t (2 * nblocks off n + 1)" by (rule room_less [OF st(6)]) (use n in simp)
  qed (use st off sz it n in auto)
  have ft: "fip (files ?t f) = i" using s(2) by (simp add: upd_inode_def upd_log_def)
  note fv = fstepD [OF v(2)] and ev = ftxn_eq [OF fstepD(1) [OF v(2)]] and el = elsewhere_fstep [of ?t f, unfolded ft, OF v(2)]
  have mv: "mapped v i"
    unfolding mapped_def
  proof (intro conjI allI impI)
    show "unat (isize (inodes v i)) \<le> MAXFILE * BSIZE" using v(4) it(1) sz off n by simp
    fix x
    assume x: "x < unat (isize (inodes v i))"
    show "fblk v i (x div BSIZE) \<noteq> 0"
    proof (cases "off \<le> x \<and> x < off + n")
      case False
      then have z: "x < unat (isize (inodes s i))" using x off(1) v(4) it(1) by auto
      then have "fblk ?t i (x div BSIZE) \<noteq> 0" using r(3) st(9) by (simp add: disk_ok_def mapped_def)
      moreover have "x div BSIZE < MAXFILE" using z sz by (simp add: sizes less_mult_imp_div_less)
      ultimately show ?thesis using fv(9) [of "x div BSIZE"] by (simp add: slot_simps)
    qed (use v(6) in simp)
  qed
  have dv: "disk_ok v i" by (rule fstep_zone(2) [OF st(3) v(2) el(5) mv])
  let ?w = "upd_file f (\<lambda>f. f\<lparr>foff := foff f + of_int (int n)\<rparr>) v"
  have pv: "pinned v = W" "held v = {}" using ev(4,5) st(5,7) by simp_all
  have lz: "log_zone (log v) = log_zone (log ?t)" using el(5) ev(10) by (simp add: log_zone_def)
  have Wv: "\<forall>n\<in>W. n < fssize v \<and> n \<notin> log_zone (log v)"
    using fstep_zone(1) [OF st(3) v(2)] v(2) lz ev(8) by (auto simp: fstep_def)
  have "room v 0" by (rule room_less [OF room_ftxn [OF st(6) fv(1) v(3)]]) (use n in simp_all)
  have lt: "outstanding (log v) = 1" "\<not> committing (log v)" "ldev (log v) = ROOTDEV"
    using ev(9) el(3,4) r(2) by (simp_all add: idle_log_def upd_inode_def upd_log_def)
  have pid: "pid (myproc v) = pid (myproc s)" using ev(12) by (simp add: upd_inode_def upd_log_def myproc_def)
  have ii: "inodes v i = (inodes ?t i)\<lparr>addrs := addrs (inodes v i), isize := isize (inodes v i)\<rparr>"
  proof -
    have "inodes v = (inodes ?t)(i := (inodes ?t i)\<lparr>addrs := addrs (inodes v i), isize := isize (inodes v i)\<rparr>)"
      using v(2) by (simp add: fstep_def)
    from fun_cong [OF this, of i] show ?thesis by simp
  qed
  have iv: "ilk (inodes v i) = ilk (inodes ?t i)" "iref (inodes v i) = iref (inodes ?t i)" "ivalid (inodes v i) = ivalid (inodes ?t i)"
    by (subst ii, simp)+
  obtain s' where s': "bindr (iunlock i ?w) end_op = Ok s'" "ready s' i" "nfree s' = nfree ?w"
    "\<forall>x<MAXFILE * BSIZE. fbyte s' i x = fbyte ?w i x" "released ?w i s'" "disk s' = blk s'"
  proof (rule finish_op [of ?w i])
    show "holdingsleep (pid (myproc ?w)) (ilk (inodes ?w i))" using pid iv it by (simp add: holdingsleep_def)
    show "1 \<le> iref (inodes ?w i)" "ivalid (inodes ?w i)" "itype (inodes ?w i) \<noteq> T_DEV"
      using iv it fv(6) r(1) by (simp_all add: resting_def)
  qed (use dv fv(2) pv Wv \<open>room v 0\<close> lt in simp_all)
  have fi: "fip (files ?w f) = i" "fip (files v f) = i" using elsewhereD(1) [OF el(1)] ft by simp_all
  have "elsewhere s f ?t" using s(2) by (simp add: elsewhere_def upd_inode_def upd_log_def)
  moreover have "elsewhere v f ?w" by (simp add: elsewhere_def)
  moreover have "elsewhere ?w f s'" by (rule elsewhere_released) (use s'(5) fi in simp)
  ultimately have es: "elsewhere s f s'" using el(1) by (blast intro: elsewhere_trans)
  obtain x where x: "iunlock i ?w = Ok x" "end_op x = Ok s'" using s'(1) by (auto elim: bindr_OkE)
  have run: "filewrite_loop f addr k left s = filewrite_loop f addr (k + n) (left - n) s'"
    using off(3) st(1,2) v(1) x s(2,3) fi(2) n(2) ft
    by (subst filewrite_loop.simps) (simp add: n_def [symmetric] Let_def upd_inode_def upd_log_def)
  show thesis
  proof (rule that [OF run s'(2) es])
    have "files s' f = files ?w f" "inodes s' i = (inodes ?w i)\<lparr>ilk := unlocked (ilk (inodes ?w i))\<rparr>"
      using s'(5) by (auto simp: released_def)
    moreover have "foff (files v f) = foff (files s f)"
      using el(2) by (simp add: upd_inode_def upd_log_def)
    ultimately show "foff (files s' f) = of_nat (off + n)" "unat (isize (inodes s' i)) = max (unat (isize (inodes s i))) (off + n)"
      using s(3) v(4) it(1) by simp_all
    show "\<forall>x<MAXFILE * BSIZE. fbyte s' i x = (if off \<le> x \<and> x < off + n then addr (k + (x - off)) else fbyte s i x)"
      using s'(4) v(5) st(10) upd_file_file(2) [OF dv] by simp
    show "nfree s \<le> nfree s' + 8" using s'(3) v(7) n(1) st(8) by simp
    show "disk s' = blk s'" by (rule s'(6))
  qed
qed

lemma ready_disk: "ready s i \<Longrightarrow> disk s = blk s"
proof -
  assume "ready s i"
  then have "bio_ok s" "held s = {}" "pinned s = {}" by (simp_all add: ready_def idle_log_def log_ok_def)
  then show ?thesis using blk_unpinned [of s] by auto
qed

lemma filewrite_loop_spec:
  assumes "ready s i" "i = fip (files s f)" "foff (files s f) = of_nat off" "off \<le> unat (isize (inodes s i))"
    "off + left \<le> MAXFILE * BSIZE" "8 * ((left + 1535) div 1536) \<le> nfree s"
  shows "\<exists>s'. filewrite_loop f addr k left s = Ok (True, s') \<and> ready s' i \<and> elsewhere s f s'
     \<and> foff (files s' f) = of_nat (off + left) \<and> unat (isize (inodes s' i)) = max (unat (isize (inodes s i))) (off + left)
     \<and> (\<forall>x<MAXFILE * BSIZE. fbyte s' i x = (if off \<le> x \<and> x < off + left then addr (k + (x - off)) else fbyte s i x))"
  using assms
proof (induction left arbitrary: off k s rule: less_induct)
  case (less left)
  show ?case
  proof (cases "left = 0")
    case True
    then show ?thesis using less.prems by (intro exI [of _ s]) (auto simp: filewrite_loop.simps [of f addr k 0])
  next
    case False
    let ?n = "min left filewrite_max"
    have n: "0 < ?n" "?n \<le> left" using False by (simp_all add: filewrite_max)
    have "1 \<le> (left + 1535) div 1536" using div_le_mono [of 1536 "left + 1535" 1536] False by simp
    then have "8 \<le> nfree s" using less.prems(6) by simp
    then obtain t where t: "filewrite_loop f addr k left s = filewrite_loop f addr (k + ?n) (left - ?n) t" "ready t i"
      "elsewhere s f t" "foff (files t f) = of_nat (off + ?n)" "unat (isize (inodes t i)) = max (unat (isize (inodes s i))) (off + ?n)"
      "\<forall>x<MAXFILE * BSIZE. fbyte t i x = (if off \<le> x \<and> x < off + ?n then addr (k + (x - off)) else fbyte s i x)"
      "nfree s \<le> nfree t + 8"
      using filewrite_step [OF less.prems(1-5), of addr k] False by blast
    have "8 * ((left - ?n + 1535) div 1536) + 8 \<le> 8 * ((left + 1535) div 1536) \<or> left - ?n = 0"
    proof (cases "left \<le> 1536")
      case big: False
      then have "left - ?n + 1535 + 1536 = left + 1535" by (simp add: filewrite_max)
      then have "(left + 1535) div 1536 = Suc ((left - ?n + 1535) div 1536)" by (metis add.commute div_add_self1 plus_1_eq_Suc zero_neq_numeral)
      then show ?thesis by simp
    qed (simp add: filewrite_max)
    then have f: "8 * ((left - ?n + 1535) div 1536) \<le> nfree t" using less.prems(6) t(7) by auto
    have "\<exists>s'. filewrite_loop f addr (k + ?n) (left - ?n) t = Ok (True, s') \<and> ready s' i \<and> elsewhere t f s'
       \<and> foff (files s' f) = of_nat (off + ?n + (left - ?n)) \<and> unat (isize (inodes s' i)) = max (unat (isize (inodes t i))) (off + ?n + (left - ?n))
       \<and> (\<forall>x<MAXFILE * BSIZE. fbyte s' i x = (if off + ?n \<le> x \<and> x < off + ?n + (left - ?n) then addr (k + ?n + (x - (off + ?n))) else fbyte t i x))"
    proof (rule less.IH)
      show "left - ?n < left" "off + ?n + (left - ?n) \<le> MAXFILE * BSIZE" "off + ?n \<le> unat (isize (inodes t i))"
        using n less.prems(5) t(5) by simp_all
      show "i = fip (files t f)" using elsewhereD(1) [OF t(3)] less.prems(2) by simp
    qed (rule t(2), rule t(4), rule f)
    then obtain s' where s': "filewrite_loop f addr (k + ?n) (left - ?n) t = Ok (True, s')" "ready s' i" "elsewhere t f s'"
      "foff (files s' f) = of_nat (off + left)" "unat (isize (inodes s' i)) = max (unat (isize (inodes t i))) (off + left)"
      "\<forall>x<MAXFILE * BSIZE. fbyte s' i x = (if off + ?n \<le> x \<and> x < off + left then addr (k + ?n + (x - (off + ?n))) else fbyte t i x)"
      using n(2) by auto
    have "fbyte s' i x = (if off \<le> x \<and> x < off + left then addr (k + (x - off)) else fbyte s i x)" if "x < MAXFILE * BSIZE" for x
      using that s'(6) t(6) n(2) by auto
    moreover have "max (unat (isize (inodes t i))) (off + left) = max (unat (isize (inodes s i))) (off + left)"
      using t(5) n(2) by simp
    ultimately show ?thesis using t(1) s' elsewhere_trans [OF t(3) s'(3)] by (intro exI [of _ s']) simp
  qed
qed

lemma filewrite_spec:
  assumes s: "ready s (fip (files s f))" "ftype (files s f) = FD_INODE" "writable (files s f) \<noteq> 0" "foff (files s f) = of_nat off"
    and off: "off \<le> unat (isize (inodes s (fip (files s f))))" "off + n \<le> MAXFILE * BSIZE" "8 * ((n + 1535) div 1536) \<le> nfree s"
  obtains s' where "filewrite f addr (int n) s = Ok (int n, s')" "ready s' (fip (files s f))" "elsewhere s f s'"
    "unat (isize (inodes s' (fip (files s f)))) = max (unat (isize (inodes s (fip (files s f))))) (off + n)"
    "\<forall>x<MAXFILE * BSIZE. fbyte s' (fip (files s f)) x = (if off \<le> x \<and> x < off + n then addr (x - off) else fbyte s (fip (files s f)) x)"
proof -
  obtain s' where "filewrite_loop f addr 0 n s = Ok (True, s')" "ready s' (fip (files s f))" "elsewhere s f s'"
    "unat (isize (inodes s' (fip (files s f)))) = max (unat (isize (inodes s (fip (files s f))))) (off + n)"
    "\<forall>x<MAXFILE * BSIZE. fbyte s' (fip (files s f)) x = (if off \<le> x \<and> x < off + n then addr (0 + (x - off)) else fbyte s (fip (files s f)) x)"
    using filewrite_loop_spec [OF s(1) refl s(4) off, of addr 0] by blast
  then show thesis using that s(2,3) by (simp add: filewrite_def)
qed

section \<open>fileread\<close>

lemma fileread_spec:
  fixes s :: "'a ftab_scheme"
  assumes s: "ready s i" "fip (files s f) = i" "ftype (files s f) = FD_INODE" "readable (files s f) \<noteq> 0" "foff (files s f) = of_nat off"
    and off: "off \<le> unat (isize (inodes s i))" "n < 2 ^ 31"
  defines "e \<equiv> min (off + n) (unat (isize (inodes s i)))"
  obtains s' where "fileread f (int n) s = Ok (int (e - off), map (fbyte s i) [off..<e], s')" "ready s' i" "elsewhere s f s'"
    "blk s' = blk s" "isize (inodes s' i) = isize (inodes s i)" "\<forall>x<MAXFILE * BSIZE. fbyte s' i x = fbyte s i x"
proof -
  let ?t = "upd_inode i (\<lambda>ip. ip\<lparr>ilk := (ilk ip)\<lparr>locked := True, lk_pid := pid (myproc s)\<rparr>\<rparr>) s"
  have r: "resting (inodes s i)" "idle_log s" "disk_ok s i" using s(1) by (simp_all add: ready_def)
  have lk: "ilock i s = Ok ?t" using r(1) by (simp add: ilock_def resting_def acquiresleep_def upd_inode_def)
  have ino: "inodes ?t = (inodes s)(i := (inodes s i)\<lparr>ilk := (ilk (inodes s i))\<lparr>locked := True, lk_pid := pid (myproc s)\<rparr>\<rparr>)"
    "log ?t = log s" "sb ?t = sb s" "blk ?t = blk s" "disksize ?t = disksize s" "files ?t = files s"
    by (simp_all add: upd_inode_def)
  have d: "disk_ok ?t i" "x < MAXFILE * BSIZE \<Longrightarrow> fbyte ?t i x = fbyte s i x" "fblk ?t i = fblk s i" for x
    by (rule same_disk_ok [OF r(3)]; simp add: ino)+
  have "log_ok s" "held s = {}" "pinned s = {}" using r(2) by (simp_all add: idle_log_def log_ok_def)
  then have lo: "log_ok ?t" "held ?t = {}" "pinned ?t = {}" by (simp_all add: upd_inode_def)
  have z: "unat (isize (inodes s i)) \<le> MAXFILE * BSIZE" "\<forall>x<unat (isize (inodes s i)). fblk s i (x div BSIZE) \<noteq> 0"
    using r(3) by (simp_all add: disk_ok_def mapped_def)
  have fo: "file_ok ?t i" "layout ?t" using d(1) by (simp_all add: disk_ok_def)
  have sl: "slot ?t i k < unat (disksize ?t)" if "k \<le> MAXFILE" for k
    using file_okD(4) [OF fo(1) that] file_okD(3) [OF fo(1)] owned_disk [OF _ fo(2)] by (cases "slot ?t i k = 0") fastforce+
  have cr: "can_read ?t i" using lo file_okD(1) [OF fo(1)] sl by (simp add: can_read_def NBUF_def)
  have "\<exists>u. readi i (of_nat off) (of_nat n) ?t = Ok (int (min n (unat (isize (inodes ?t i)) - off)),
       map (fbyte ?t i) [off..<min (off + n) (unat (isize (inodes ?t i)))], u) \<and> txn ?t {} u"
    by (rule readi_spec [OF cr]) (use r(1) z off d(3) ino(1) in \<open>simp_all add: resting_def\<close>)
  then obtain u where u: "readi i (of_nat off) (of_nat n) ?t = Ok (int (min n (unat (isize (inodes s i)) - off)), map (fbyte ?t i) [off..<e], u)"
    "txn ?t {} u"
    using ino(1) by (auto simp: e_def)
  have e: "min n (unat (isize (inodes s i)) - off) = e - off" "e \<le> MAXFILE * BSIZE" using off(1) z(1) by (auto simp: e_def)
  have m: "map (fbyte ?t i) [off..<e] = map (fbyte s i) [off..<e]" by (rule map_cong [OF refl]) (use d(2) e(2) in auto)
  note run = u(1) [unfolded e(1) m]
  define w where "w = (if int (e - off) > 0 then upd_file f (\<lambda>f. f\<lparr>foff := foff f + of_int (int (e - off))\<rparr>) u else u)"
  let ?x = "wakeup (ChInode i) w"
  define y where "y = upd_inode i (\<lambda>ip. ip\<lparr>ilk := unlocked (ilk (inodes w i))\<rparr>) ?x"
  note eu = txn_eq [OF u(2)]
  have iu: "inodes u = inodes ?t" using u(2) by (simp add: txn_def inodes_keeps)
  have k: "keeps ?t u" using u(2) by (simp add: txn_def)
  obtain p b dd io l where f: "u = ?t\<lparr>procs := p, bufs := b, disk := dd, iolog := io, log := l\<rparr>" "\<forall>j. woken (procs ?t j) (p j)"
    using log_frame_fields [OF conjunct1 [OF k [unfolded keeps_def]]] by (elim exE conjE)
  have fu: "files u = files s" "pipes u = pipes s" "curproc u = curproc s" "procs u = p" "procs ?t = procs s"
    by (subst f(1), simp add: upd_inode_def)+ (simp add: upd_inode_def)
  have ww: "inodes w = inodes ?t" "blk w = blk s" "log w = log u" "sb w = sb s" "disksize w = disksize s" "procs w = p" "log_ok w"
    "held w = {}" "pinned w = {}" "pid (myproc w) = pid (myproc s)" "pipes w = pipes s" "curproc w = curproc s"
    unfolding w_def using iu eu lo ino fu by (auto simp: upd_inode_def)
  note c = wakeup_cache [of "ChInode i" w] and sc = same_cache [OF wakeup_cache(1-5), of "ChInode i" w]
  have ip: "holdingsleep (pid (myproc w)) (ilk (inodes w i))" "1 \<le> iref (inodes w i)"
    using ww(1,10) ino(1) r(1) by (simp_all add: holdingsleep_def resting_def)
  then have ul: "iunlock i w = Ok y" by (simp add: iunlock_def releasesleep_def y_def)
  have iy: "inodes y = (inodes s)(i := (inodes s i)\<lparr>ilk := unlocked (ilk (inodes w i))\<rparr>)"
    using c(6) ww(1) ino(1) by (simp add: y_def inodes_upd_inode)
  have yy: "blk y = blk s" "sb y = sb s" "disksize y = disksize s" "log y = log u" "log_ok y" "held y = {}"
    using sc c ww by (simp_all add: y_def upd_inode_def)
  have lu: "lh_n (log u) = 0" "committing (log u) = committing (log s)" "ldev (log u) = ldev (log s)" "lstart (log u) = lstart (log s)"
    "lsize (log u) = lsize (log s)" "outstanding (log u) = outstanding (log s)"
    using k eu(8,10) lo(3) ino(2) by (simp_all add: keeps_def log_ok_def lessThan_empty_iff bot_nat_def)
  have dy: "disk_ok y i" "x < MAXFILE * BSIZE \<Longrightarrow> fbyte y i x = fbyte s i x" for x
    by (rule same_disk_ok [OF r(3)]; simp add: yy iy lu)+
  have ry: "ready y i" using dy(1) yy lu r(1,2) iy by (simp add: ready_def idle_log_def resting_def unlocked_def)
  show thesis
  proof (rule that [of y])
    show "fileread f (int n) s = Ok (int (e - off), map (fbyte s i) [off..<e], y)"
      using s(2-5) lk run ul ino(6) by (simp add: fileread_def Let_def w_def)
    have "files y = files w" "pipes y = pipes s" "curproc y = curproc s" by (simp_all add: y_def upd_inode_def wakeup_def wakeup1_def ww)
    moreover have "files w = (files s)(f := (files s f)\<lparr>foff := foff (files w f)\<rparr>)" using fu(1) by (simp add: w_def)
    moreover have "woken (procs s j) (procs y j)" for j
      using f(2) fu(5) ww(6) woken_trans [OF _ woken_wakeup [of w j "ChInode i"]] by (simp add: y_def upd_inode_def)
    ultimately show "elsewhere s f y" using iy s(2) by (simp add: elsewhere_def)
    show "blk y = blk s" "ready y i" "\<forall>x<MAXFILE * BSIZE. fbyte y i x = fbyte s i x" "isize (inodes y i) = isize (inodes s i)"
      using yy ry dy(2) iy by simp_all
  qed
qed

section \<open>Properties\<close>

text \<open>Page \<open>j\<close> of the file.\<close>

definition page_of :: "'a icache_scheme \<Rightarrow> nat \<Rightarrow> nat \<Rightarrow> nat \<Rightarrow> u8" where
  "page_of s i j x = fbyte s i (4096 * j + x)"

text \<open>
  C2: The swap file is an array of pages, on the disk. Between two system calls, with a consistent open swap file
  and 24 free blocks, \<open>writeToSwapFile\<close> of a page at slot \<open>k\<close>, which lies inside the file or directly behind it, writes the
  whole page although it takes three transactions; afterwards \<open>readFromSwapFile\<close> of any slot inside the
  file returns that page for \<open>k\<close> and the old content for the others. After the write and after the
  read the file is again consistent and the log empty, and the disk itself, not only the cache, holds every block.
\<close>

theorem swap_file_pages:
  assumes "ready s i" and "swapFile (procs s p) = Some f" and "fip (files s f) = i" and "ftype (files s f) = FD_INODE"
    and "readable (files s f) \<noteq> 0" and "writable (files s f) \<noteq> 0"
    and "4096 * k \<le> unat (isize (inodes s i))" and "4096 * (k + 1) \<le> MAXFILE * BSIZE" and "24 \<le> nfree s"
  shows "\<exists>s'. writeToSwapFile p buf (of_nat (4096 * k)) 4096 s = Ok (4096, s') \<and> ready s' i \<and> disk s' = blk s'
    \<and> (\<forall>j. 4096 * (j + 1) \<le> max (unat (isize (inodes s i))) (4096 * (k + 1)) \<longrightarrow>
         (\<exists>t. readFromSwapFile p (of_nat (4096 * j)) 4096 s' = Ok (4096, map (if j = k then buf else page_of s i j) [0..<4096], t)
            \<and> ready t i \<and> disk t = blk s'))"
proof -
  define off where "off = 4096 * k"
  let ?s = "upd_file f (\<lambda>g. g\<lparr>foff := of_nat off\<rparr>) s"
  let ?z = "max (unat (isize (inodes s i))) (4096 * (k + 1))"
  have d: "disk_ok s i" using assms(1) by (simp add: ready_def)
  have r: "ready ?s (fip (files ?s f))" using assms(1,3) by (simp add: ready_upd_file)
  have fs: "fip (files ?s f) = i" "ftype (files ?s f) = FD_INODE" "writable (files ?s f) \<noteq> 0" "foff (files ?s f) = of_nat off"
    "inodes ?s = inodes s" "nfree ?s = nfree s"
    using assms(3,4,6) by simp_all
  have o: "off \<le> unat (isize (inodes ?s (fip (files ?s f))))" "off + 4096 \<le> MAXFILE * BSIZE"
    "8 * ((4096 + 1535) div 1536) \<le> nfree ?s"
    using assms(7-9) fs by (simp_all add: off_def)
  obtain s' where s': "filewrite f buf (int 4096) ?s = Ok (int 4096, s')" "ready s' i" "elsewhere ?s f s'"
    "unat (isize (inodes s' i)) = max (unat (isize (inodes ?s i))) (off + 4096)"
    "\<forall>x<MAXFILE * BSIZE. fbyte s' i x = (if off \<le> x \<and> x < off + 4096 then buf (x - off) else fbyte ?s i x)"
    using filewrite_spec [OF r fs(2-4) o, of buf] unfolding fs(1) by blast
  have w: "writeToSwapFile p buf (of_nat (4096 * k)) 4096 s = Ok (4096, s')" using s'(1) assms(2) by (simp add: writeToSwapFile_def off_def)
  note el = elsewhereD [OF s'(3)]
  have z: "unat (isize (inodes s' i)) = ?z" using s'(4) by (simp add: off_def)
  have le: "?z \<le> MAXFILE * BSIZE" using assms(8) d by (simp add: disk_ok_def mapped_def)
  have "\<exists>t. readFromSwapFile p (of_nat (4096 * j)) 4096 s' = Ok (4096, map (if j = k then buf else page_of s i j) [0..<4096], t)
      \<and> ready t i \<and> disk t = blk s'" if j: "4096 * (j + 1) \<le> ?z" for j
  proof -
    let ?t = "upd_file f (\<lambda>g. g\<lparr>foff := of_nat (4096 * j)\<rparr>) s'"
    have d': "disk_ok s' i" using s'(2) by (simp add: ready_def)
    have e: "min (4096 * j + 4096) (unat (isize (inodes ?t i))) = 4096 * j + 4096" using j z by simp
    have rt: "ready ?t i" using s'(2) by (rule ready_upd_file)
    obtain t where t: "fileread f (int 4096) ?t = Ok (int (4096 * j + 4096 - 4096 * j), map (fbyte ?t i) [4096 * j..<4096 * j + 4096], t)"
      "ready t i" "blk t = blk ?t"
    proof (rule fileread_spec [of ?t i f "4096 * j" 4096, unfolded e])
      show "ready ?t i" by (rule rt)
    qed (use el assms(3-5) j z in simp_all)
    have "map (fbyte ?t i) [4096 * j..<4096 * j + 4096] = map (if j = k then buf else page_of s i j) [0..<4096]"
    proof (rule nth_equalityI)
      fix x
      assume "x < length (map (fbyte ?t i) [4096 * j..<4096 * j + 4096])"
      then have x: "x < 4096" by simp
      have "4096 * j + 4096 \<le> MAXFILE * BSIZE" using order_trans [OF j le] by simp
      then have l: "4096 * j + x < MAXFILE * BSIZE" using x by linarith
      have "fbyte ?t i (4096 * j + x) = (if j = k then buf else page_of s i j) x"
      proof (cases "j = k")
        case False
        then have "\<not> (off \<le> 4096 * j + x \<and> 4096 * j + x < off + 4096)" using x unfolding off_def by linarith
        then have "fbyte s' i (4096 * j + x) = fbyte ?s i (4096 * j + x)" using s'(5) l by (simp only: if_False)
        then show ?thesis using False l d d' by (simp add: page_of_def)
      qed (use s'(5) l d' x in \<open>simp add: off_def\<close>)
      then show "map (fbyte ?t i) [4096 * j..<4096 * j + 4096] ! x = map (if j = k then buf else page_of s i j) [0..<4096] ! x"
        using x by simp
    qed simp
    then show ?thesis
      using t el(5) [of p] assms(2) ready_disk [OF t(2)] by (simp add: readFromSwapFile_def)
  qed
  then show ?thesis using w s'(2) ready_disk [OF s'(2)] by blast
qed

section \<open>An empty swap file\<close>

definition swapstate0 :: ftab where
  "swapstate0 = (upd_log (\<lambda>l. l\<lparr>outstanding := 0\<rparr>) (binit (ftab0\<lparr>disk := sample_disk, sb := sample_sb\<rparr>)))
     \<lparr>inodes := (\<lambda>i. zero_inode\<lparr>idev := ROOTDEV, inum := 1, itype := T_FILE, iref := 1, ivalid := True\<rparr>),
      files := (\<lambda>i. zero_file\<lparr>ftype := FD_INODE, fref := 1, fip := 3, readable := 1, writable := 2\<rparr>),
      procs := (\<lambda>i. zero_proc\<lparr>swapFile := Some 7\<rparr>)\<rparr>"

lemma sample_swap:
  "ready swapstate0 3" "nfree swapstate0 = 941"
proof -
  let ?b = "binit (ftab0\<lparr>disk := sample_disk, sb := sample_sb\<rparr>)"
  have s: "sample_fs ?b" by (rule sample_fs_binit) (simp_all add: ftab0_def ftab.defs cons0_defs idle_zero_buf)
  let ?v = "swapstate0\<lparr>log := log ?b\<rparr>"
  have "bufs ?v = bufs ?b" "disk ?v = disk ?b" "disksize ?v = disksize ?b" "log ?v = log ?b" "sb ?v = sb ?b"
    by (simp_all add: swapstate0_def upd_log_def)
  note v = same_cache [OF this]
  have sv: "sample_fs ?v" using s v by (simp add: sample_fs_def swapstate0_def upd_log_def)
  let ?s = swapstate0
  have e: "sb ?s = sb ?v" "disksize ?s = disksize ?v" "blk ?s = blk ?v" "bm ?s = bm ?v" "fssize ?s = fssize ?v" "held ?s = held ?v"
    "pinned ?s = pinned ?v" "bio_ok ?s = bio_ok ?v"
  proof -
    have "bufs ?s = bufs ?v" "disk ?s = disk ?v" "disksize ?s = disksize ?v" "sb ?s = sb ?v" by simp_all
    then show "sb ?s = sb ?v" "disksize ?s = disksize ?v" "blk ?s = blk ?v" "bm ?s = bm ?v" "fssize ?s = fssize ?v" "held ?s = held ?v"
      "pinned ?s = pinned ?v" by (simp_all add: blk_def [abs_def] pinned_def held_def bm_def [abs_def] fssize_def cong: option.case_cong)
    have "nx ?s = nx ?v" "pv ?s = pv ?v" by (simp_all add: nx_def pv_def fun_eq_iff)
    then have "ring_ok ?s = ring_ok ?v" by (rule ring_ok_cong)
    then show "bio_ok ?s = bio_ok ?v" by (simp add: bio_ok_def buf_ok_def)
  qed
  have lg: "log ?s = (log log0)\<lparr>outstanding := 0\<rparr>" using s by (simp add: swapstate0_def sample_fs_def upd_log_def)
  have f1: "sb ?s = sample_sb" "disksize ?s = 1000" using sv by (simp_all add: sample_fs_def)
  then have f: "sb ?s = sample_sb" "fssize ?s = 1000" "bitmap_blocks (sb ?s) = {58}" "disksize ?s = 1000"
    using sample_bitmap by (simp_all add: fssize_def) (simp add: sample_sb_def)
  have b: "bio_ok ?s" "held ?s = {}" "pinned ?s = {}" unfolding e(6-8) using sv by (simp_all only: sample_fs_def)
  have al: "allocated ?s c \<longleftrightarrow> c < 59" if "c < 1000" for c
    using sample_allocated(1) [OF sv that] unfolding allocated_def e(3,4) .
  have "{c. c < fssize ?s \<and> \<not> allocated ?s c} = {59..<1000}" using al f by auto
  then show "nfree ?s = 941" by (simp add: nfree_def)
  have ino: "inodes ?s 3 = zero_inode\<lparr>idev := ROOTDEV, inum := 1, itype := T_FILE, iref := 1, ivalid := True\<rparr>"
    by (simp add: swapstate0_def)
  have sl: "slot ?s 3 k = 0" "fblk ?s 3 k = 0" for k by (simp_all add: slot_def fblk_def indirect_def ino zero_inode_def)
  have ib: "iblock ?s 3 = 32" by (simp add: iblock_def ino f(1) IBLOCK_def sample_sb_def IPB_def BSIZE_def SIZEOF_DINODE_def)
  have ow: "owned ?s c \<longleftrightarrow> c < 58" for c
    unfolding owned_def f(2,3) using al [of c] by (cases "c < 1000") auto
  have "file_ok ?s 3" using sl ib ow al [of 0] by (simp add: file_ok_def) (simp add: ino)
  moreover have "mapped ?s 3" by (simp add: mapped_def ino zero_inode_def)
  moreover have "zone_ok ?s 3"
    using f lg log0_log ow sl ib by (auto simp: zone_ok_def log_zone_def)
  moreover have "layout ?s" using f by (simp add: layout_def BPB_pos) (simp add: sample_sb_def)
  ultimately have "disk_ok ?s 3" using al [of 58] f by (simp add: disk_ok_def)
  moreover have "idle_log ?s" using b lg log0_log by (simp add: idle_log_def log_ok_def)
  moreover have "resting (inodes ?s 3)" by (simp add: ino resting_def zero_inode_def T_DEV_def T_FILE_def initsleeplock_def)
  ultimately show "ready ?s 3" by (simp add: ready_def)
qed

theorem swap_file_pages_witness:
  "\<exists>s' t. writeToSwapFile 5 (\<lambda>x. of_nat x) 0 4096 swapstate0 = Ok (4096, s')
     \<and> readFromSwapFile 5 0 4096 s' = Ok (4096, map (\<lambda>x. of_nat x) [0..<4096], t)"
proof -
  obtain s' where s': "writeToSwapFile 5 (\<lambda>x. of_nat x) (of_nat (4096 * 0)) 4096 swapstate0 = Ok (4096, s')"
    "\<forall>j. 4096 * (j + 1) \<le> max (unat (isize (inodes swapstate0 3))) (4096 * (0 + 1)) \<longrightarrow>
       (\<exists>t. readFromSwapFile 5 (of_nat (4096 * j)) 4096 s'
          = Ok (4096, map (if j = 0 then (\<lambda>x. of_nat x) else page_of swapstate0 3 j) [0..<4096], t) \<and> ready t 3 \<and> disk t = blk s')"
    using swap_file_pages [of swapstate0 3 5 7 0 "\<lambda>x. of_nat x"] sample_swap by (auto simp: swapstate0_def zero_file_def sizes)
  then show ?thesis using s'(2) [THEN spec, of 0] by auto
qed

end
