(* ===== verification/Directory.thy ===== *)
theory Directory
  imports FileData
begin

text \<open>
  Directories as finite maps from names to inode numbers. The entries of a directory are pieces of 16 bytes of
  its file; an entry with number 0 is empty. \<open>dirlookup\<close> is the lookup in the map, \<open>dirlink\<close> inserts.
  Also the round trip of an inode through the disk: \<open>iupdate\<close>, and later \<open>iget\<close> and \<open>ilock\<close>.
\<close>

section \<open>Entries\<close>

definition dirent :: "'a icache_scheme \<Rightarrow> nat \<Rightarrow> nat \<Rightarrow> u8 list" where
  "dirent s i k = map (fbyte s i) [k * SIZEOF_DIRENT..<k * SIZEOF_DIRENT + SIZEOF_DIRENT]"

definition ent_inum :: "'a icache_scheme \<Rightarrow> nat \<Rightarrow> nat \<Rightarrow> u16" where
  "ent_inum s i k = de_inum (dirent s i k)"

definition ent_name :: "'a icache_scheme \<Rightarrow> nat \<Rightarrow> nat \<Rightarrow> u8 list" where
  "ent_name s i k = arr_str (de_name (dirent s i k))"

definition nents :: "'a icache_scheme \<Rightarrow> nat \<Rightarrow> nat" where
  "nents s i = unat (isize (inodes s i)) div SIZEOF_DIRENT"

text \<open>The entry that a name selects, and the map.\<close>

definition dir_find :: "'a icache_scheme \<Rightarrow> nat \<Rightarrow> u8 list \<Rightarrow> nat option" where
  "dir_find s i nm = List.find (\<lambda>k. ent_inum s i k \<noteq> 0 \<and> ent_name s i k = nm) [0..<nents s i]"

definition dir_map :: "'a icache_scheme \<Rightarrow> nat \<Rightarrow> u8 list \<rightharpoonup> u16" where
  "dir_map s i nm = map_option (ent_inum s i) (dir_find s i nm)"

text \<open>A directory in memory whose blocks are all there.\<close>

definition dir_ok :: "'a icache_scheme \<Rightarrow> nat \<Rightarrow> bool" where
  "dir_ok s i \<longleftrightarrow> itype (inodes s i) = T_DIR \<and> SIZEOF_DIRENT dvd unat (isize (inodes s i))
     \<and> unat (isize (inodes s i)) \<le> MAXFILE * BSIZE \<and> (\<forall>x<unat (isize (inodes s i)). fblk s i (x div BSIZE) \<noteq> 0)"

lemma entry_size: "SIZEOF_DIRENT = 16" by (simp add: SIZEOF_DIRENT_def)

lemma nents_size: "dir_ok s i \<Longrightarrow> unat (isize (inodes s i)) = nents s i * SIZEOF_DIRENT"
  by (simp add: dir_ok_def nents_def)

lemma dir_offsets_eq: "dir_ok s i \<Longrightarrow> dir_offsets (isize (inodes s i)) = map (\<lambda>k. k * SIZEOF_DIRENT) [0..<nents s i]"
proof -
  assume "dir_ok s i"
  then have "(unat (isize (inodes s i)) + SIZEOF_DIRENT - 1) div SIZEOF_DIRENT = nents s i"
    unfolding nents_size [OF \<open>dir_ok s i\<close>] entry_size by simp
  then show ?thesis by (simp add: dir_offsets_def)
qed

lemma dir_same:
  assumes "fbyte t i = fbyte s i" "fblk t i = fblk s i" "inodes t = inodes s"
  shows "dirent t i = dirent s i" "ent_inum t i = ent_inum s i" "ent_name t i = ent_name s i" "nents t i = nents s i"
    "dir_find t i = dir_find s i" "dir_map t i = dir_map s i" "dir_ok t i = dir_ok s i"
  using assms by (simp_all add: dirent_def [abs_def] ent_inum_def [abs_def] ent_name_def [abs_def] nents_def
      dir_find_def [abs_def] dir_map_def [abs_def] dir_ok_def)

section \<open>Lookup\<close>

lemma read_entry:
  assumes "can_read s i" "dir_ok s i" "k < nents s i"
  obtains t where "readi i (of_nat (k * SIZEOF_DIRENT)) (of_nat SIZEOF_DIRENT) s = Ok (int SIZEOF_DIRENT, dirent s i k, t)"
    "txn s {} t" "can_read t i" "dir_ok t i" "inodes t = inodes s" "fbyte t i = fbyte s i" "fblk t i = fblk s i"
proof -
  let ?z = "unat (isize (inodes s i))" and ?o = "k * SIZEOF_DIRENT"
  have d: "itype (inodes s i) \<noteq> T_DEV" "?z \<le> MAXFILE * BSIZE" "\<forall>x<?z. fblk s i (x div BSIZE) \<noteq> 0"
    using assms(2) by (simp_all add: dir_ok_def T_DIR_def T_DEV_def)
  have "Suc k * SIZEOF_DIRENT \<le> nents s i * SIZEOF_DIRENT" by (rule mult_le_mono1) (use assms(3) in simp)
  then have o: "?o + SIZEOF_DIRENT \<le> ?z" unfolding nents_size [OF assms(2)] by simp
  have m: "min SIZEOF_DIRENT (?z - ?o) = SIZEOF_DIRENT" "min (?o + SIZEOF_DIRENT) ?z = ?o + SIZEOF_DIRENT"
    using o by simp_all
  have "\<exists>t. readi i (of_nat ?o) (of_nat SIZEOF_DIRENT) s
      = Ok (int (min SIZEOF_DIRENT (?z - ?o)), map (fbyte s i) [?o..<min (?o + SIZEOF_DIRENT) ?z], t) \<and> txn s {} t"
    by (rule readi_spec [OF assms(1) d(1,2,3)]) (use o in \<open>simp_all add: entry_size\<close>)
  then obtain t where t: "readi i (of_nat ?o) (of_nat SIZEOF_DIRENT) s = Ok (int SIZEOF_DIRENT, dirent s i k, t)" "txn s {} t"
    unfolding m dirent_def by blast
  note c = can_read_txn [OF assms(1) t(2)]
  show thesis by (rule that [OF t c(1) _ c(4,3,2)]) (use dir_same(7) [OF c(3,2,4)] assms(2) in simp)
qed

lemma dirlookup_loop_spec:
  assumes "can_read s i" "dir_ok s i" "\<forall>k\<in>set ks. k < nents s i"
  shows "\<exists>t. txn s {} t \<and> dirlookup_loop i name (map (\<lambda>k. k * SIZEOF_DIRENT) ks) s =
    (case List.find (\<lambda>k. ent_inum s i k \<noteq> 0 \<and> ent_name s i k = arr_str name) ks of
       None \<Rightarrow> Ok (None, t)
     | Some k \<Rightarrow> bindr (iget ROOTDEV (ucast (ent_inum s i k)) t) (\<lambda>(ip, s). Ok (Some (ip, of_nat (k * SIZEOF_DIRENT)), s)))"
  using assms
proof (induction ks arbitrary: s)
  case Nil
  then show ?case using txn_refl [of s] by (auto simp: can_read_def)
next
  case (Cons k ks)
  obtain t where t: "readi i (of_nat (k * SIZEOF_DIRENT)) (of_nat SIZEOF_DIRENT) s = Ok (int SIZEOF_DIRENT, dirent s i k, t)"
    "txn s {} t" "can_read t i" "dir_ok t i" "inodes t = inodes s" "fbyte t i = fbyte s i" "fblk t i = fblk s i"
    using read_entry [OF Cons.prems(1,2), of k] Cons.prems(3) by auto
  note d = dir_same [OF t(6,7,5)]
  have dev: "idev (inodes t i) = ROOTDEV" using t(3) by (simp add: can_read_def)
  have nm: "namecmp name (de_name (dirent s i k)) = 0 \<longleftrightarrow> ent_name s i k = arr_str name"
    unfolding ent_name_def namecmp_eq by (rule eq_commute)
  have run: "dirlookup_loop i name (map (\<lambda>k. k * SIZEOF_DIRENT) (k # ks)) s =
      (if ent_inum s i k = 0 then dirlookup_loop i name (map (\<lambda>k. k * SIZEOF_DIRENT) ks) t
       else if ent_name s i k = arr_str name
       then bindr (iget ROOTDEV (ucast (ent_inum s i k)) t) (\<lambda>(ip, s). Ok (Some (ip, of_nat (k * SIZEOF_DIRENT)), s))
       else dirlookup_loop i name (map (\<lambda>k. k * SIZEOF_DIRENT) ks) t)"
    unfolding list.map dirlookup_loop.simps t(1) nm [symmetric] ent_inum_def by (simp add: dev)
  show ?case
  proof (cases "ent_inum s i k \<noteq> 0 \<and> ent_name s i k = arr_str name")
    case True
    then show ?thesis unfolding run using t(2) by (intro exI [of _ t]) simp
  next
    case False
    have "\<forall>k\<in>set ks. k < nents t i" using Cons.prems(3) d(4) by simp
    from Cons.IH [OF t(3,4) this, unfolded d] obtain u where u: "txn t {} u" "dirlookup_loop i name (map (\<lambda>k. k * SIZEOF_DIRENT) ks) t =
      (case List.find (\<lambda>k. ent_inum s i k \<noteq> 0 \<and> ent_name s i k = arr_str name) ks of
         None \<Rightarrow> Ok (None, u)
       | Some k \<Rightarrow> bindr (iget ROOTDEV (ucast (ent_inum s i k)) u) (\<lambda>(ip, s). Ok (Some (ip, of_nat (k * SIZEOF_DIRENT)), s)))"
      by blast
    have "txn s {} u" using txn_trans [OF t(2) u(1)] by simp
    then show ?thesis unfolding run u(2) using False by (intro exI [of _ u]) auto
  qed
qed

lemma dirlookup_spec:
  assumes "can_read s i" "dir_ok s i"
  obtains t where "txn s {} t" "dirlookup i name s =
    (case dir_find s i (arr_str name) of
       None \<Rightarrow> Ok (None, t)
     | Some k \<Rightarrow> bindr (iget ROOTDEV (ucast (ent_inum s i k)) t) (\<lambda>(ip, s). Ok (Some (ip, of_nat (k * SIZEOF_DIRENT)), s)))"
proof -
  have "itype (inodes s i) = T_DIR" using assms(2) by (simp add: dir_ok_def)
  moreover have "\<exists>t. txn s {} t \<and> dirlookup_loop i name (map (\<lambda>k. k * SIZEOF_DIRENT) [0..<nents s i]) s =
    (case dir_find s i (arr_str name) of
       None \<Rightarrow> Ok (None, t)
     | Some k \<Rightarrow> bindr (iget ROOTDEV (ucast (ent_inum s i k)) t) (\<lambda>(ip, s). Ok (Some (ip, of_nat (k * SIZEOF_DIRENT)), s)))"
    unfolding dir_find_def by (rule dirlookup_loop_spec [OF assms]) simp
  ultimately show thesis using that by (auto simp: dirlookup_def dir_offsets_eq [OF assms(2)])
qed

section \<open>Insertion\<close>

lemma dir_empty_slot_spec:
  assumes "can_read s i" "dir_ok s i" "k \<le> nents s i"
  shows "\<exists>t. txn s {} t \<and> dir_empty_slot i (map (\<lambda>k. k * SIZEOF_DIRENT) [k..<nents s i]) (of_nat (k * SIZEOF_DIRENT)) s =
    Ok (of_nat ((k + length (takeWhile (\<lambda>k. ent_inum s i k \<noteq> 0) [k..<nents s i])) * SIZEOF_DIRENT), t)"
  using assms
proof (induction "nents s i - k" arbitrary: k s)
  case 0
  then show ?case using txn_refl [of s] by (auto simp: can_read_def)
next
  case (Suc m)
  then have k: "k < nents s i" "[k..<nents s i] = k # [Suc k..<nents s i]" by (simp_all add: upt_conv_Cons)
  obtain t where t: "readi i (of_nat (k * SIZEOF_DIRENT)) (of_nat SIZEOF_DIRENT) s = Ok (int SIZEOF_DIRENT, dirent s i k, t)"
    "txn s {} t" "can_read t i" "dir_ok t i" "inodes t = inodes s" "fbyte t i = fbyte s i" "fblk t i = fblk s i"
    using read_entry [OF Suc.prems(1,2) k(1)] by auto
  note d = dir_same [OF t(6,7,5)]
  have run: "dir_empty_slot i (map (\<lambda>k. k * SIZEOF_DIRENT) (k # [Suc k..<nents s i])) (of_nat (k * SIZEOF_DIRENT)) s =
      (if ent_inum s i k = 0 then Ok (of_nat (k * SIZEOF_DIRENT), t)
       else dir_empty_slot i (map (\<lambda>k. k * SIZEOF_DIRENT) [Suc k..<nents s i]) (of_nat (Suc k * SIZEOF_DIRENT)) t)"
    unfolding list.map dir_empty_slot.simps t(1) ent_inum_def by (simp add: add.commute)
  show ?case
  proof (cases "ent_inum s i k = 0")
    case True
    then show ?thesis unfolding k(2) run using t(2) by (intro exI [of _ t]) simp
  next
    case False
    have "m = nents t i - Suc k" "Suc k \<le> nents t i" using Suc.hyps(2) k(1) d(4) by simp_all
    from Suc.hyps(1) [OF this(1) t(3,4) this(2), unfolded d] obtain u where u: "txn t {} u"
      "dir_empty_slot i (map (\<lambda>k. k * SIZEOF_DIRENT) [Suc k..<nents s i]) (of_nat (Suc k * SIZEOF_DIRENT)) t =
        Ok (of_nat ((Suc k + length (takeWhile (\<lambda>k. ent_inum s i k \<noteq> 0) [Suc k..<nents s i])) * SIZEOF_DIRENT), u)" by blast
    have "txn s {} u" using txn_trans [OF t(2) u(1)] by simp
    then show ?thesis unfolding k(2) run u(2) using False by (intro exI [of _ u]) simp
  qed
qed

text \<open>A new entry holds its number and the name up to the NUL.\<close>

lemma arr_strncpy_props:
  "length (arr_strncpy t k n) = n"
  "takeWhile (\<lambda>c. c \<noteq> 0) (arr_strncpy t k n) = takeWhile (\<lambda>c. c \<noteq> 0) (map t [k..<k + n])"
proof -
  show "length (arr_strncpy t k n) = n" by (induction n arbitrary: k) simp_all
  show "takeWhile (\<lambda>c. c \<noteq> 0) (arr_strncpy t k n) = takeWhile (\<lambda>c. c \<noteq> 0) (map t [k..<k + n])"
  proof (induction n arbitrary: k)
    case (Suc n)
    have "[k..<k + Suc n] = k # [Suc k..<Suc k + n]" by (simp add: upt_conv_Cons)
    then show ?case using Suc.IH [of "Suc k"] by (simp del: upt_Suc)
  qed simp
qed

lemma new_entry:
  "de_inum (map (mk_dirent n (arr_strncpy name 0 DIRSIZ)) [0..<SIZEOF_DIRENT]) = n"
  "arr_str (de_name (map (mk_dirent n (arr_strncpy name 0 DIRSIZ)) [0..<SIZEOF_DIRENT])) = arr_str name"
proof -
  let ?c = "arr_strncpy name 0 DIRSIZ"
  let ?e = "map (mk_dirent n ?c) [0..<SIZEOF_DIRENT]"
  have nth: "?e ! i = mk_dirent n ?c i" if "i < 16" for i using that by (simp add: entry_size)
  have "de_inum ?e = rd16 (mk_dirent n ?c) (0 :: nat)" by (simp add: de_inum_def rd16_def nth)
  also have "\<dots> = rd16 (wr16 (\<lambda>i. ?c ! (i - 2)) (0 :: nat) n) 0" by (simp add: mk_dirent_def [abs_def])
  finally show "de_inum ?e = n" by simp
  have "map (de_name ?e) [0..<DIRSIZ] = ?c"
  proof (rule nth_equalityI)
    show "length (map (de_name ?e) [0..<DIRSIZ]) = length ?c" by (simp add: arr_strncpy_props)
    fix i
    assume "i < length (map (de_name ?e) [0..<DIRSIZ])"
    then have i: "i < 14" by (simp add: DIRSIZ_def)
    then have "de_name ?e i = mk_dirent n ?c (i + 2)" by (simp add: de_name_def nth)
    also have "\<dots> = ?c ! i" by (simp add: mk_dirent_def wr16_def)
    finally show "map (de_name ?e) [0..<DIRSIZ] ! i = ?c ! i" using i by (simp add: DIRSIZ_def)
  qed
  then show "arr_str (de_name ?e) = arr_str name" using arr_strncpy_props(2) [of name 0 DIRSIZ] by (simp add: arr_str_def)
qed

text \<open>Where the new entry goes: the first empty one, or behind the last.\<close>

definition free_entry :: "'a icache_scheme \<Rightarrow> nat \<Rightarrow> nat" where
  "free_entry s i = length (takeWhile (\<lambda>k. ent_inum s i k \<noteq> 0) [0..<nents s i])"

lemma free_entry_props: "free_entry s i \<le> nents s i" "free_entry s i < nents s i \<Longrightarrow> ent_inum s i (free_entry s i) = 0"
proof -
  have "free_entry s i \<le> length [0..<nents s i]" unfolding free_entry_def by (rule length_takeWhile_le)
  then show "free_entry s i \<le> nents s i" by simp
  assume "free_entry s i < nents s i"
  then show "ent_inum s i (free_entry s i) = 0"
    using nth_length_takeWhile [of "\<lambda>k. ent_inum s i k \<noteq> 0" "[0..<nents s i]"] by (simp add: free_entry_def)
qed

text \<open>The map after one entry has changed.\<close>

lemma find_range:
  assumes "\<forall>k. k \<noteq> e \<longrightarrow> P k = Q k" "\<not> P e \<or> n \<le> e" "\<not> Q e" "m = n \<or> e = n \<and> m = Suc n"
  shows "List.find Q [0..<m] = List.find P [0..<n]"
proof -
  have "List.find Q [0..<n] = List.find P [0..<n]" by (rule find_cong [OF refl]) (use assms(1-3) in \<open>metis atLeastLessThan_iff linorder_not_less set_upt\<close>)
  moreover have "List.find Q (xs @ [e]) = List.find Q xs" for xs using assms(3) by (induction xs) auto
  ultimately show ?thesis using assms(4) by auto
qed

lemma dir_map_insert:
  assumes e: "e \<le> nents s i" "e < nents s i \<Longrightarrow> ent_inum s i e = 0" and n: "nents t i = max (nents s i) (Suc e)"
    and new: "ent_inum t i e = v" "v \<noteq> 0" "ent_name t i e = nm"
    and old: "\<forall>k. k \<noteq> e \<and> k < nents s i \<longrightarrow> dirent t i k = dirent s i k"
    and none: "dir_map s i nm = None"
  shows "dir_map t i = (dir_map s i)(nm \<mapsto> v)"
proof
  fix x
  define P where "P = (\<lambda>y k. k < nents s i \<and> ent_inum s i k \<noteq> 0 \<and> ent_name s i k = y)"
  define Q where "Q = (\<lambda>y k. k < nents t i \<and> ent_inum t i k \<noteq> 0 \<and> ent_name t i k = y)"
  have f: "dir_find s i y = List.find (P y) [0..<nents s i]" "dir_find t i y = List.find (Q y) [0..<nents t i]" for y
    unfolding dir_find_def P_def Q_def by (rule find_cong; simp)+
  have m: "nents t i = nents s i \<or> e = nents s i \<and> nents t i = Suc (nents s i)" using e(1) n by auto
  have ext: "P y k = Q y k" if "k \<noteq> e" for y k
    using that old n e(1) by (auto simp: P_def Q_def ent_inum_def ent_name_def)
  have pe: "\<not> P y e" for y using e(2) by (auto simp: P_def)
  show "dir_map t i x = ((dir_map s i)(nm \<mapsto> v)) x"
  proof (cases "x = nm")
    case True
    have "List.find (P nm) [0..<nents s i] = None" using none f by (simp add: dir_map_def)
    then have no: "\<not> P nm k" for k by (auto simp: find_None_iff P_def)
    have q: "Q nm k \<longleftrightarrow> k = e" for k
    proof (cases "k = e")
      case True
      then show ?thesis using new n by (simp add: Q_def)
    qed (use ext no in metis)
    then have "Q nm = (\<lambda>k. k = e)" by blast
    then have "List.find (Q nm) [0..<nents t i] = Some e"
      unfolding find_Some_iff using n by (intro exI [of _ e]) simp
    then show ?thesis using True new(1) f by (simp add: dir_map_def)
  next
    case False
    have qe: "\<not> Q x e" using False new(3) by (auto simp: Q_def)
    have "List.find (Q x) [0..<nents t i] = List.find (P x) [0..<nents s i]"
      by (rule find_range [of e]) (use ext pe qe m in auto)
    moreover have "ent_inum t i k = ent_inum s i k" if "List.find (P x) [0..<nents s i] = Some k" for k
    proof -
      have "P x k" using that by (auto simp: find_Some_iff)
      then have "k \<noteq> e" "k < nents s i" using pe by (auto simp: P_def)
      then show ?thesis using old by (simp add: ent_inum_def)
    qed
    ultimately show ?thesis using False f
      by (cases "List.find (P x) [0..<nents s i]") (simp_all add: dir_map_def)
  qed
qed

lemma nblocks_entry: "nblocks (k * SIZEOF_DIRENT) SIZEOF_DIRENT = 1"
proof -
  have "(k * 16 + 15) div (16 * 32) = k * 16 div (16 * 32)" unfolding div_mult2_eq by simp
  then show ?thesis by (simp add: nblocks_def sizes entry_size)
qed

lemma entry_cong:
  assumes "\<forall>x<MAXFILE * BSIZE. x < k * SIZEOF_DIRENT \<or> k * SIZEOF_DIRENT + SIZEOF_DIRENT \<le> x \<or> fbyte t i x = fbyte s i x"
    and "k * SIZEOF_DIRENT + SIZEOF_DIRENT \<le> MAXFILE * BSIZE"
  shows "dirent t i k = dirent s i k"
  unfolding dirent_def
proof (rule map_cong [OF refl])
  fix x
  assume "x \<in> set [k * SIZEOF_DIRENT..<k * SIZEOF_DIRENT + SIZEOF_DIRENT]"
  then show "fbyte t i x = fbyte s i x" using assms(1) [rule_format, of x] assms(2) by auto
qed

text \<open>An entry is written.\<close>

lemma write_entry:
  assumes ok: "file_ok s i" "alloc_ok s" "held s = {}" "room s 3" "2 \<le> nfree s" and d: "dir_ok s i"
    and e: "e \<le> nents s i" "e * SIZEOF_DIRENT + SIZEOF_DIRENT \<le> MAXFILE * BSIZE"
  obtains t W where "writei i src (of_nat (e * SIZEOF_DIRENT)) (of_nat SIZEOF_DIRENT) s = Ok (int SIZEOF_DIRENT, t)" "fstep s i W t"
    "finite W" "card (W - bitmap_blocks (sb s)) \<le> 3" "nfree s \<le> nfree t + 2" "dir_ok t i" "nents t i = max (nents s i) (Suc e)"
    "dirent t i e = map src [0..<SIZEOF_DIRENT]" "\<forall>k. k \<noteq> e \<and> k < nents s i \<longrightarrow> dirent t i k = dirent s i k"
proof -
  let ?o = "e * SIZEOF_DIRENT" and ?z = "unat (isize (inodes s i))"
  have z: "?z = nents s i * SIZEOF_DIRENT" by (rule nents_size [OF d])
  have mz: "?z \<le> MAXFILE * BSIZE" "\<forall>x<?z. fblk s i (x div BSIZE) \<noteq> 0" "itype (inodes s i) \<noteq> T_DEV"
    using d by (simp_all add: dir_ok_def T_DIR_def T_DEV_def)
  have oz: "?o \<le> ?z" unfolding z by (rule mult_le_mono1 [OF e(1)])
  obtain t W where t: "writei i src (of_nat ?o) (of_nat SIZEOF_DIRENT) s = Ok (int SIZEOF_DIRENT, t)" "fstep s i W t" "finite W"
    "card (W - bitmap_blocks (sb s)) \<le> 2 * nblocks ?o SIZEOF_DIRENT + 1" "unat (isize (inodes t i)) = max ?z (?o + SIZEOF_DIRENT)"
    "\<forall>x<MAXFILE * BSIZE. fbyte t i x = (if ?o \<le> x \<and> x < ?o + SIZEOF_DIRENT then src (x - ?o) else fbyte s i x)"
    "\<forall>x. ?o \<le> x \<and> x < ?o + SIZEOF_DIRENT \<longrightarrow> fblk t i (x div BSIZE) \<noteq> 0" "nfree s \<le> nfree t + 2 * nblocks ?o SIZEOF_DIRENT"
    by (rule writei_spec [of s i ?o SIZEOF_DIRENT src]) (use ok e(2) oz mz in \<open>simp_all add: nblocks_entry\<close>)
  note f = fstepD [OF t(2)]
  have nt: "unat (isize (inodes t i)) = max (nents s i) (Suc e) * SIZEOF_DIRENT"
    using t(5) unfolding z by (simp add: max_def entry_size)
  have "fblk t i (x div BSIZE) \<noteq> 0" if x: "x < unat (isize (inodes t i))" for x
  proof (cases "?o \<le> x \<and> x < ?o + SIZEOF_DIRENT")
    case False
    then have xz: "x < ?z" using x t(5) oz by auto
    then have "fblk s i (x div BSIZE) \<noteq> 0" "x div BSIZE < MAXFILE"
      using mz by (simp, simp add: sizes less_mult_imp_div_less)
    then show ?thesis using f(9) [of "x div BSIZE"] by (simp add: slot_simps)
  qed (use t(7) in simp)
  then have dt: "dir_ok t i" using d f(6) nt t(5) mz(1) e(2) by (simp add: dir_ok_def)
  have new: "dirent t i e = map src [0..<SIZEOF_DIRENT]"
    unfolding dirent_def by (rule nth_equalityI) (use t(6) e(2) in simp_all)
  have old: "dirent t i k = dirent s i k" if k: "k \<noteq> e" "k < nents s i" for k
  proof (rule entry_cong)
    have "Suc k * SIZEOF_DIRENT \<le> nents s i * SIZEOF_DIRENT" by (rule mult_le_mono1) (use k(2) in simp)
    then show "k * SIZEOF_DIRENT + SIZEOF_DIRENT \<le> MAXFILE * BSIZE" using z mz(1) by simp
    show "\<forall>x<MAXFILE * BSIZE. x < k * SIZEOF_DIRENT \<or> k * SIZEOF_DIRENT + SIZEOF_DIRENT \<le> x \<or> fbyte t i x = fbyte s i x"
      using t(6) k(1) unfolding entry_size by auto
  qed
  show thesis
    by (rule that [OF t(1-3) _ _ dt _ new]) (use t(4,8) nt old in \<open>simp_all add: nblocks_entry [unfolded entry_size] nents_def entry_size\<close>)
qed

lemma dirlink_spec:
  assumes ok: "file_ok s i" "alloc_ok s" "held s = {}" "room s 3" "2 \<le> nfree s" and d: "dir_ok s i"
    and new: "dir_map s i (arr_str name) = None" "(ucast n :: u16) \<noteq> 0" "unat (isize (inodes s i)) + SIZEOF_DIRENT \<le> MAXFILE * BSIZE"
  obtains t W where "dirlink i name n s = Ok (0, t)" "fstep s i W t" "dir_ok t i" "dir_map t i = (dir_map s i)(arr_str name \<mapsto> ucast n)"
    "card (W - bitmap_blocks (sb s)) \<le> 3" "nfree s \<le> nfree t + 2"
proof -
  have r: "can_read s i" by (rule file_can_read [OF ok(1-4)])
  have none: "dir_find s i (arr_str name) = None" using new(1) by (simp add: dir_map_def)
  obtain u where u: "txn s {} u" "dirlookup i name s = Ok (None, u)"
    using dirlookup_spec [OF r d, of name] none by auto
  note cu = can_read_txn [OF r u(1)] and du = dir_same [OF can_read_txn(3,2,4) [OF r u(1)]]
  have dok: "dir_ok u i" using du(7) d by simp
  let ?e = "free_entry s i"
  have "\<exists>v. txn u {} v \<and> dir_empty_slot i (map (\<lambda>k. k * SIZEOF_DIRENT) [0..<nents u i]) (of_nat (0 * SIZEOF_DIRENT)) u =
    Ok (of_nat ((0 + length (takeWhile (\<lambda>k. ent_inum u i k \<noteq> 0) [0..<nents u i])) * SIZEOF_DIRENT), v)"
    by (rule dir_empty_slot_spec [OF cu(1) dok]) simp
  then obtain v where v: "txn u {} v" "dir_empty_slot i (dir_offsets (isize (inodes u i))) 0 u = Ok (of_nat (?e * SIZEOF_DIRENT), v)"
    unfolding dir_offsets_eq [OF dok] du free_entry_def by auto
  have sv: "txn s {} v" using txn_trans [OF u(1) v(1)] by simp
  note n = fstep_nil [OF ok(1,2) sv] and dv = dir_same [OF can_read_txn(3,2,4) [OF r sv]]
  note fn = fstepD [OF n(1)] and en = ftxn_eq [OF fstepD(1) [OF n(1)]]
  have rv: "room v 3" using room_txn [OF ok(4) sv, of 0] by simp
  have dvok: "dir_ok v i" using dv(7) d by simp
  have e: "?e \<le> nents v i" "?e * SIZEOF_DIRENT + SIZEOF_DIRENT \<le> MAXFILE * BSIZE"
  proof -
    show "?e \<le> nents v i" using free_entry_props(1) dv(4) by simp
    have "?e * SIZEOF_DIRENT \<le> nents s i * SIZEOF_DIRENT" by (rule mult_le_mono1 [OF free_entry_props(1)])
    then show "?e * SIZEOF_DIRENT + SIZEOF_DIRENT \<le> MAXFILE * BSIZE" using new(3) nents_size [OF d] by linarith
  qed
  let ?src = "mk_dirent (ucast n) (arr_strncpy name 0 DIRSIZ)"
  have hv: "held v = {}" using en(4) ok(3) by simp
  have nv: "2 \<le> nfree v" using n(4) ok(5) by simp
  obtain t W where t: "writei i ?src (of_nat (?e * SIZEOF_DIRENT)) (of_nat SIZEOF_DIRENT) v = Ok (int SIZEOF_DIRENT, t)" "fstep v i W t"
    "finite W" "card (W - bitmap_blocks (sb v)) \<le> 3" "nfree v \<le> nfree t + 2" "dir_ok t i" "nents t i = max (nents v i) (Suc ?e)"
    "dirent t i ?e = map ?src [0..<SIZEOF_DIRENT]" "\<forall>k. k \<noteq> ?e \<and> k < nents v i \<longrightarrow> dirent t i k = dirent v i k"
    by (rule write_entry [OF fn(3,2) hv rv nv dvok e, of ?src])
  have new_ent: "ent_inum t i ?e = ucast n" "ent_name t i ?e = arr_str name"
    unfolding ent_inum_def ent_name_def t(8) by (rule new_entry)+
  have m: "dir_map t i = (dir_map s i)(arr_str name \<mapsto> ucast n)"
    by (rule dir_map_insert [OF free_entry_props]) (use t(7,9) dv new new_ent in simp_all)
  have run: "dirlink i name n s = Ok (0, t)" using u(2) v(2) t(1) by (simp add: dirlink_def)
  show thesis
    by (rule that [OF run _ t(6) m]) (use fstep_trans [OF n(1) t(2)] t(4,5) n(4) en(1) in simp_all)
qed

section \<open>The inode cache\<close>

lemma iget_spec:
  assumes "\<exists>j<NINODE. iref (inodes s j) = 0 \<or> iref (inodes s j) > 0 \<and> idev (inodes s j) = dev \<and> inum (inodes s j) = n"
  obtains ip g where "iget dev n s = Ok (ip, upd_inode ip g s)" "ip < NINODE"
    "iref (inodes s ip) > 0 \<and> idev (inodes s ip) = dev \<and> inum (inodes s ip) = n \<and> g = (\<lambda>ip. ip\<lparr>iref := iref ip + 1\<rparr>)
     \<or> iref (inodes s ip) = 0 \<and> g = (\<lambda>ip. ip\<lparr>idev := dev, inum := n, iref := 1, ivalid := False\<rparr>)"
proof (cases "List.find (\<lambda>i. iref (inodes s i) > 0 \<and> idev (inodes s i) = dev \<and> inum (inodes s i) = n) [0..<NINODE]")
  case (Some ip)
  then have "iget dev n s = Ok (ip, upd_inode ip (\<lambda>ip. ip\<lparr>iref := iref ip + 1\<rparr>) s)" by (simp add: iget_def)
  moreover have "ip < NINODE" "iref (inodes s ip) > 0 \<and> idev (inodes s ip) = dev \<and> inum (inodes s ip) = n"
    using Some by (auto simp: find_Some_iff)
  ultimately show thesis using that by blast
next
  case None
  then have "\<exists>j<NINODE. iref (inodes s j) = 0" using assms by (auto simp: find_None_iff)
  then obtain ip where ip: "List.find (\<lambda>i. iref (inodes s i) = 0) [0..<NINODE] = Some ip"
    by (cases "List.find (\<lambda>i. iref (inodes s i) = 0) [0..<NINODE]") (auto simp: find_None_iff)
  then have "iget dev n s = Ok (ip, upd_inode ip (\<lambda>ip. ip\<lparr>idev := dev, inum := n, iref := 1, ivalid := False\<rparr>) s)"
    using None by (simp add: iget_def)
  moreover have "ip < NINODE" "iref (inodes s ip) = 0" using ip by (auto simp: find_Some_iff)
  ultimately show thesis using that by blast
qed

section \<open>An inode written and loaded again\<close>

text \<open>What a cached inode says of the file, apart from its place in the cache.\<close>

definition same_file :: "inode \<Rightarrow> inode \<Rightarrow> bool" where
  "same_file a b \<longleftrightarrow> itype a = itype b \<and> major a = major b \<and> minor a = minor b \<and> nlink a = nlink b \<and> isize a = isize b
     \<and> (\<forall>k\<le>NDIRECT. addrs a k = addrs b k)"

text \<open>
  A state in which inode \<open>n\<close> is not in the cache (any more) but there is room for it, and the block \<open>b\<close> has the content it
  has in \<open>t\<close>: the buffer may have been evicted, the transaction committed, other inodes changed.
\<close>

definition recycled :: "'a icache_scheme \<Rightarrow> nat \<Rightarrow> u32 \<Rightarrow> 'a icache_scheme \<Rightarrow> bool" where
  "recycled t b n u \<longleftrightarrow> log_ok u \<and> held u = {} \<and> card (pinned u) < NBUF \<and> sb u = sb t \<and> disksize u = disksize t \<and> blk u b = blk t b
     \<and> (\<forall>j<NINODE. \<not> (iref (inodes u j) > 0 \<and> idev (inodes u j) = ROOTDEV \<and> inum (inodes u j) = n))
     \<and> (\<exists>j<NINODE. iref (inodes u j) = 0) \<and> (\<forall>j<NINODE. iref (inodes u j) = 0 \<longrightarrow> \<not> locked (ilk (inodes u j)))"

lemma get_put_same: "same_file (get_dinode k (put_dinode k ip d) jp) ip" "dip_type k (put_dinode k ip d) = itype ip"
proof -
  note g = get_put_dinode [of k ip d jp]
  show "same_file (get_dinode k (put_dinode k ip d) jp) ip" unfolding g by (simp add: same_file_def)
  show "dip_type k (put_dinode k ip d) = itype ip" using arg_cong [OF g, of itype] by (simp add: get_dinode_def)
qed

lemma iget_ilock:
  assumes u: "recycled t (unat (IBLOCK n (sb t))) n u" and d: "IBLOCK n (sb t) < disksize t"
    and b: "blk t (unat (IBLOCK n (sb t))) = put_dinode (dip_offset n) ip x" "itype ip \<noteq> 0"
  obtains j v w where "iget ROOTDEV n u = Ok (j, v)" "ilock j v = Ok w" "idev (inodes w j) = ROOTDEV" "inum (inodes w j) = n"
    "iref (inodes w j) = 1" "ivalid (inodes w j)" "same_file (inodes w j) ip" "\<forall>i. i \<noteq> j \<longrightarrow> inodes w i = inodes u i"
proof -
  have ex: "\<exists>j<NINODE. iref (inodes u j) = 0 \<or> iref (inodes u j) > 0 \<and> idev (inodes u j) = ROOTDEV \<and> inum (inodes u j) = n"
    using u by (auto simp: recycled_def)
  obtain j g where j: "iget ROOTDEV n u = Ok (j, upd_inode j g u)" "j < NINODE"
    "iref (inodes u j) > 0 \<and> idev (inodes u j) = ROOTDEV \<and> inum (inodes u j) = n \<and> g = (\<lambda>ip. ip\<lparr>iref := iref ip + 1\<rparr>)
     \<or> iref (inodes u j) = 0 \<and> g = (\<lambda>ip. ip\<lparr>idev := ROOTDEV, inum := n, iref := 1, ivalid := False\<rparr>)"
    by (rule iget_spec [OF ex])
  then have g: "iref (inodes u j) = 0" "g = (\<lambda>ip. ip\<lparr>idev := ROOTDEV, inum := n, iref := 1, ivalid := False\<rparr>)"
    using u by (auto simp: recycled_def)
  let ?v = "upd_inode j g u"
  have iv: "inodes ?v = (inodes u)(j := g (inodes u j))" by (rule inodes_upd_inode)
  have ib: "iblock ?v j = unat (IBLOCK n (sb t))" using u by (simp add: iblock_def recycled_def g(2) inodes_upd_inode)
  have vi: "0 < iref (inodes ?v j)" "idev (inodes ?v j) = ROOTDEV" "\<not> locked (ilk (inodes ?v j))" "\<not> ivalid (inodes ?v j)" "inum (inodes ?v j) = n"
    using u j(2) g by (simp_all add: inodes_upd_inode recycled_def)
  have dv: "disksize ?v = disksize u" by (simp add: upd_inode_def)
  have l: "log_ok ?v" "held ?v = {}" "card (pinned ?v) < NBUF" "IBLOCK (inum (inodes ?v j)) (sb ?v) < disksize ?v"
    using u d vi(5) dv by (simp_all add: recycled_def)
  have bl: "blk ?v (iblock ?v j) = put_dinode (dip_offset n) ip x" using u b(1) ib by (simp add: recycled_def)
  obtain w where w: "ilock j ?v = Ok w"
    "inodes w = (inodes ?v)(j := (get_dinode (dip_offset n) (put_dinode (dip_offset n) ip x) (inodes ?v j))
       \<lparr>ilk := (ilk (inodes ?v j))\<lparr>locked := True, lk_pid := pid (myproc ?v)\<rparr>, ivalid := True\<rparr>)"
    using ilock_loads [OF l(1-3) vi(1-4) l(4)] bl vi(5) get_put_same(2) b(2) by metis
  have "same_file (get_dinode (dip_offset n) (put_dinode (dip_offset n) ip x) (inodes ?v j)) ip" by (rule get_put_same)
  then have "same_file (inodes w j) ip" unfolding w(2) by (simp add: same_file_def)
  moreover have "idev (inodes w j) = ROOTDEV" "inum (inodes w j) = n" "iref (inodes w j) = 1" "ivalid (inodes w j)"
    unfolding w(2) iv by (simp_all add: get_put_dinode) (simp_all add: g(2))
  moreover have "\<forall>i. i \<noteq> j \<longrightarrow> inodes w i = inodes u i" unfolding w(2) iv by simp
  ultimately show thesis using that [OF j(1) w(1)] by blast
qed

text \<open>
  C32: What \<open>iupdate\<close> writes is what \<open>ilock\<close> reads back. For an inode in memory, \<open>iupdate\<close> succeeds, enters its block in the
  log, changes no other block and none of the bytes of its neighbours in the block, and leaves the cache as it is. In every later
  state in which the inode has left the cache and the block still has that content, \<open>iget\<close> of its number followed by \<open>ilock\<close>
  succeeds and brings back the type, device numbers, link count, size and all addresses into an entry of its own.
\<close>

theorem iupdate_ilock_roundtrip:
  assumes "file_ok s i" and "alloc_ok s" and "held s = {}" and "room s 1" and "itype (inodes s i) \<noteq> 0"
    and "n = inum (inodes s i)" and "k = dip_offset n"
  shows "\<exists>t. iupdate i s = Ok t \<and> inodes t = inodes s \<and> pinned t = insert (iblock s i) (pinned s)
     \<and> (\<forall>b. b \<noteq> iblock s i \<longrightarrow> blk t b = blk s b)
     \<and> (\<forall>x. x < k \<or> k + SIZEOF_DINODE \<le> x \<longrightarrow> blk t (iblock s i) x = blk s (iblock s i) x)
     \<and> (\<forall>u. recycled t (iblock s i) n u \<longrightarrow>
          (\<exists>j v w. iget ROOTDEV n u = Ok (j, v) \<and> ilock j v = Ok w \<and> idev (inodes w j) = ROOTDEV \<and> inum (inodes w j) = n
             \<and> iref (inodes w j) = 1 \<and> ivalid (inodes w j) \<and> same_file (inodes w j) (inodes s i)
             \<and> (\<forall>i. i \<noteq> j \<longrightarrow> inodes w i = inodes u i)))"
proof -
  obtain t where t: "iupdate i s = Ok t" "txn s {iblock s i} t"
    "blk t (iblock s i) = put_dinode k (inodes s i) (blk s (iblock s i))"
    using iupdate_spec [OF assms(1-4)] assms(6,7) by metis
  note e = txn_eq [OF t(2)]
  have ib: "iblock s i = unat (IBLOCK n (sb t))" using e(1) assms(6) by (simp add: iblock_def)
  have "layout s" using assms(2) by (simp add: alloc_ok_def)
  then have d: "IBLOCK n (sb t) < disksize t"
    using owned_disk [OF file_okD(3) [OF assms(1)]] e ib by (simp add: word_less_nat_alt)
  have "\<exists>j v w. iget ROOTDEV n u = Ok (j, v) \<and> ilock j v = Ok w \<and> idev (inodes w j) = ROOTDEV \<and> inum (inodes w j) = n
      \<and> iref (inodes w j) = 1 \<and> ivalid (inodes w j) \<and> same_file (inodes w j) (inodes s i) \<and> (\<forall>i. i \<noteq> j \<longrightarrow> inodes w i = inodes u i)"
    if "recycled t (iblock s i) n u" for u
    using iget_ilock [OF that [unfolded ib] d t(3) [unfolded ib assms(7)] assms(5)] by metis
  moreover have "inodes t = inodes s" by (rule txn_ino [OF t(2)])
  moreover have "pinned t = insert (iblock s i) (pinned s)" using t(2) by (simp add: txn_def)
  moreover have "\<forall>b. b \<noteq> iblock s i \<longrightarrow> blk t b = blk s b" using t(2) by (simp add: txn_def)
  moreover have "\<forall>x. x < k \<or> k + SIZEOF_DINODE \<le> x \<longrightarrow> blk t (iblock s i) x = blk s (iblock s i) x"
    unfolding t(3) using put_dinode_other by blast
  ultimately show ?thesis using t(1) by blast
qed

section \<open>Properties\<close>

text \<open>
  C6: A directory is a map from names to inode numbers, and \<open>dirlink\<close> inserts. For a consistent directory without
  the name and an operation with room for three blocks, \<open>dirlink\<close> succeeds, the map of the new directory is
  the old one with the name bound to the number, names being compared up to the NUL or \<open>DIRSIZ\<close> characters,
  and \<open>dirlookup\<close> computes the new map: it finds nothing for a name that is not bound, and an
  inode of the cache with the number bound to it for the others.
\<close>

theorem dirlink_inserts:
  assumes "file_ok s i" and "alloc_ok s" and "held s = {}" and "room s 3" and "2 \<le> nfree s" and "dir_ok s i"
    and "dir_map s i (arr_str name) = None" and "(ucast n :: u16) \<noteq> 0"
    and "unat (isize (inodes s i)) + SIZEOF_DIRENT \<le> MAXFILE * BSIZE" and "\<exists>j<NINODE. iref (inodes s j) = 0"
  shows "\<exists>t. dirlink i name n s = Ok (0, t) \<and> dir_map t i = (dir_map s i)(arr_str name \<mapsto> ucast n)
    \<and> file_ok t i \<and> alloc_ok t \<and> dir_ok t i
    \<and> (\<forall>nm. dir_map t i (arr_str nm) = None \<longrightarrow> (\<exists>u. dirlookup i nm t = Ok (None, u)))
    \<and> (\<forall>nm v. dir_map t i (arr_str nm) = Some v \<longrightarrow>
         (\<exists>ip off u. dirlookup i nm t = Ok (Some (ip, off), u) \<and> idev (inodes u ip) = ROOTDEV \<and> inum (inodes u ip) = ucast v))"
proof -
  obtain t W where t: "dirlink i name n s = Ok (0, t)" "fstep s i W t" "dir_ok t i"
    "dir_map t i = (dir_map s i)(arr_str name \<mapsto> ucast n)" "card (W - bitmap_blocks (sb s)) \<le> 3"
    by (rule dirlink_spec [OF assms(1-9)])
  note f = fstepD [OF t(2)] and e = ftxn_eq [OF fstepD(1) [OF t(2)]]
  have "room t 0" using room_ftxn [OF assms(4) f(1) t(5)] by simp
  then have r: "can_read t i" using file_can_read [OF f(3,2)] e(4) assms(3) by simp
  have "inodes t = (inodes s)(i := (inodes s i)\<lparr>addrs := addrs (inodes t i), isize := isize (inodes t i)\<rparr>)"
    using t(2) by (simp add: fstep_def)
  from arg_cong [OF this, of "\<lambda>x. iref (x j)" for j] have ref: "iref (inodes t j) = iref (inodes s j)" for j by (simp split: if_splits)
  have none: "\<exists>u. dirlookup i nm t = Ok (None, u)" if "dir_map t i (arr_str nm) = None" for nm
  proof -
    obtain u where "dirlookup i nm t =
      (case dir_find t i (arr_str nm) of
         None \<Rightarrow> Ok (None, u)
       | Some k \<Rightarrow> bindr (iget ROOTDEV (ucast (ent_inum t i k)) u) (\<lambda>(ip, s). Ok (Some (ip, of_nat (k * SIZEOF_DIRENT)), s)))"
      by (rule dirlookup_spec [OF r t(3)])
    then show ?thesis using that by (simp add: dir_map_def)
  qed
  have some: "\<exists>ip off u. dirlookup i nm t = Ok (Some (ip, off), u) \<and> idev (inodes u ip) = ROOTDEV \<and> inum (inodes u ip) = ucast v"
    if m: "dir_map t i (arr_str nm) = Some v" for nm v
  proof -
    obtain u where u: "txn t {} u" "dirlookup i nm t =
      (case dir_find t i (arr_str nm) of
         None \<Rightarrow> Ok (None, u)
       | Some k \<Rightarrow> bindr (iget ROOTDEV (ucast (ent_inum t i k)) u) (\<lambda>(ip, s). Ok (Some (ip, of_nat (k * SIZEOF_DIRENT)), s)))"
      by (rule dirlookup_spec [OF r t(3)])
    obtain k where k: "dir_find t i (arr_str nm) = Some k" "ent_inum t i k = v" using m unfolding dir_map_def by auto
    have "inodes u = inodes t" using u(1) by (simp add: txn_def inodes_keeps)
    then have ex: "\<exists>j<NINODE. iref (inodes u j) = 0 \<or> iref (inodes u j) > 0 \<and> idev (inodes u j) = ROOTDEV \<and> inum (inodes u j) = ucast v"
      using assms(10) ref by auto
    obtain ip g where ip: "iget ROOTDEV (ucast v) u = Ok (ip, upd_inode ip g u)"
      "iref (inodes u ip) > 0 \<and> idev (inodes u ip) = ROOTDEV \<and> inum (inodes u ip) = ucast v \<and> g = (\<lambda>ip. ip\<lparr>iref := iref ip + 1\<rparr>)
     \<or> iref (inodes u ip) = 0 \<and> g = (\<lambda>ip. ip\<lparr>idev := ROOTDEV, inum := ucast v, iref := 1, ivalid := False\<rparr>)"
      by (rule iget_spec [OF ex])
    have "idev (inodes (upd_inode ip g u) ip) = ROOTDEV" "inum (inodes (upd_inode ip g u) ip) = ucast v"
      using ip(2) by (auto simp: inodes_upd_inode)
    then show ?thesis using u(2) k ip(1) by (intro exI [of _ ip] exI [of _ "of_nat (k * SIZEOF_DIRENT)"] exI [of _ "upd_inode ip g u"]) simp
  qed
  show ?thesis using t(1,3,4) f(2,3) none some by blast
qed

section \<open>An empty directory\<close>

definition dirstate0 :: cons where
  "dirstate0 = fsstate0\<lparr>inodes := (\<lambda>i. zero_inode\<lparr>idev := ROOTDEV, inum := 1, itype := T_DIR\<rparr>)\<rparr>"

lemma sample_dir:
  "file_ok dirstate0 i" "alloc_ok dirstate0" "held dirstate0 = {}" "room dirstate0 3" "2 \<le> nfree dirstate0" "dir_ok dirstate0 i"
  "dir_map dirstate0 i nm = None"
proof -
  have ino: "inodes dirstate0 i = zero_inode\<lparr>idev := ROOTDEV, inum := 1, itype := T_DIR\<rparr>" by (simp add: dirstate0_def)
  have sl: "slot dirstate0 i k = 0" for k by (simp add: slot_def fblk_def indirect_def ino zero_inode_def)
  have ib: "iblock dirstate0 i = iblock fsstate0 i" by (simp add: iblock_def dirstate0_def fsstate0_def)
  have ow: "owned dirstate0 = owned fsstate0" by (simp add: owned_def [abs_def] dirstate0_def)
  have al: "allocated dirstate0 = allocated fsstate0" by (simp add: dirstate0_def)
  show "file_ok dirstate0 i" using sample_file(1) [of i] sl ib ow al by (simp add: file_ok_def) (simp add: ino)
  show "alloc_ok dirstate0" "held dirstate0 = {}" "room dirstate0 3" "2 \<le> nfree dirstate0"
    using sample_file(2,3,7) sample_file(6) [of 3] by (simp_all add: dirstate0_def)
  show "dir_ok dirstate0 i" by (simp add: dir_ok_def ino zero_inode_def)
  show "dir_map dirstate0 i nm = None" by (simp add: dir_map_def dir_find_def nents_def ino zero_inode_def)
qed

text \<open>The name \<open>ab\<close> for inode 7.\<close>

theorem dirlink_inserts_witness:
  "\<exists>t ip off u. dirlink 3 (\<lambda>i. if i = 0 then 97 else if i = 1 then 98 else 0) 7 dirstate0 = Ok (0, t)
     \<and> dirlookup 3 (\<lambda>i. if i = 0 then 97 else if i = 1 then 98 else 0) t = Ok (Some (ip, off), u) \<and> inum (inodes u ip) = 7"
proof -
  let ?n = "\<lambda>i :: nat. if i = 0 then 97 else if i = 1 then 98 else 0 :: u8"
  have h: "\<exists>j<NINODE. iref (inodes dirstate0 j) = 0" "unat (isize (inodes dirstate0 3)) + SIZEOF_DIRENT \<le> MAXFILE * BSIZE"
    "(ucast (7 :: u32) :: u16) \<noteq> 0"
    by (simp_all add: dirstate0_def zero_inode_def NINODE_def sizes entry_size) (intro exI [of _ 0], simp)
  obtain t where t: "dirlink 3 ?n 7 dirstate0 = Ok (0, t)" "dir_map t 3 = (dir_map dirstate0 3)(arr_str ?n \<mapsto> ucast (7 :: u32))"
    "\<forall>nm v. dir_map t 3 (arr_str nm) = Some v \<longrightarrow>
         (\<exists>ip off u. dirlookup 3 nm t = Ok (Some (ip, off), u) \<and> idev (inodes u ip) = ROOTDEV \<and> inum (inodes u ip) = ucast v)"
    using dirlink_inserts [OF sample_dir h(3,2,1)] by blast
  have "dir_map t 3 (arr_str ?n) = Some 7" using t(2) by simp
  then have "\<exists>ip off u. dirlookup 3 ?n t = Ok (Some (ip, off), u) \<and> idev (inodes u ip) = ROOTDEV \<and> inum (inodes u ip) = ucast (7 :: u16)"
    using t(3) by blast
  then show ?thesis using t(1) by auto
qed

text \<open>An inode with a new size is written, dropped from the cache, and found again with that size.\<close>

theorem iupdate_ilock_roundtrip_witness:
  "\<exists>t j v w. iupdate 3 (upd_inode 3 (\<lambda>ip. ip\<lparr>isize := 77\<rparr>) fsstate0) = Ok t
     \<and> iget ROOTDEV 1 (t\<lparr>inodes := (\<lambda>i. zero_inode)\<rparr>) = Ok (j, v) \<and> ilock j v = Ok w \<and> isize (inodes w j) = 77"
proof -
  let ?s = "upd_inode 3 (\<lambda>ip. ip\<lparr>isize := 77\<rparr>) fsstate0"
  have s: "file_ok ?s 3" "alloc_ok ?s" "held ?s = {}" "room ?s 1" "itype (inodes ?s 3) \<noteq> 0" "inum (inodes ?s 3) = 1" "isize (inodes ?s 3) = 77"
    using isize_step(7) [OF sample_file(1,2)] sample_file by (simp_all add: inodes_upd_inode) (simp_all add: fsstate0_def T_FILE_def)
  obtain t where t: "iupdate 3 ?s = Ok t" "pinned t = insert (iblock ?s 3) (pinned ?s)"
    "\<forall>u. recycled t (iblock ?s 3) 1 u \<longrightarrow>
          (\<exists>j v w. iget ROOTDEV 1 u = Ok (j, v) \<and> ilock j v = Ok w \<and> idev (inodes w j) = ROOTDEV \<and> inum (inodes w j) = 1
             \<and> iref (inodes w j) = 1 \<and> ivalid (inodes w j) \<and> same_file (inodes w j) (inodes ?s 3)
             \<and> (\<forall>i. i \<noteq> j \<longrightarrow> inodes w i = inodes u i))"
    using iupdate_ilock_roundtrip [OF s(1-5) refl refl] s(6) by auto
  let ?u = "t\<lparr>inodes := (\<lambda>i. zero_inode)\<rparr>"
  obtain t' where t': "iupdate 3 ?s = Ok t'" "txn ?s {iblock ?s 3} t'" by (rule iupdate_spec [OF s(1-4)])
  then have x: "txn ?s {iblock ?s 3} t" using t(1) by simp
  note e = txn_eq [OF txn_inodes [OF x, of "\<lambda>i. zero_inode"]]
  have "card (pinned ?s) < 29" using room_pinned [OF s(4)] by simp
  moreover have "pinned ?u = pinned t" using e(5) t(2) by simp
  moreover have "card (pinned t) \<le> Suc (card (pinned ?s))" using t(2) card_Un_le [of "{iblock ?s 3}" "pinned ?s"] by simp
  ultimately have "card (pinned ?u) < NBUF" by (simp add: NBUF_def)
  then have "recycled t (iblock ?s 3) 1 ?u"
    using e s(3) by (simp add: recycled_def zero_inode_def NINODE_def initsleeplock_def exI [of _ 0])
  then show ?thesis using t(1,3) s(7) by (fastforce simp: same_file_def)
qed

end
