(* ===== verification/Path.thy ===== *)
theory Path
  imports Directory Durable
begin

text \<open>
  Path names: \<open>namei\<close> and \<open>nameiparent\<close> walk the tree of directories on the disk. The tree is given by the inodes
  as they are on the disk (\<open>dinode\<close>, \<open>ntype\<close>, \<open>ndir\<close>); the inode cache holds copies of some of them (\<open>cache_ok\<close>).
  The walk takes and drops references, and leaves those it found.
\<close>

section \<open>Inodes on the disk\<close>

definition dinode :: "'a icache_scheme \<Rightarrow> u32 \<Rightarrow> inode" where
  "dinode s n = get_dinode (dip_offset n) (blk s (unat (IBLOCK n (sb s)))) (zero_inode\<lparr>idev := ROOTDEV, inum := n\<rparr>)"

definition view :: "'a icache_scheme \<Rightarrow> u32 \<Rightarrow> 'a icache_scheme" where
  "view s n = s\<lparr>inodes := (\<lambda>i. dinode s n)\<rparr>"

lemma view_simps [simp]: "blk (view s n) = blk s" "inodes (view s n) i = dinode s n"
  by (simp_all add: view_def)

definition ntype :: "'a icache_scheme \<Rightarrow> u32 \<Rightarrow> u16" where
  "ntype s n = itype (dinode s n)"

definition ndir :: "'a icache_scheme \<Rightarrow> u32 \<Rightarrow> u8 list \<rightharpoonup> u16" where
  "ndir s n = dir_map (view s n) 0"

text \<open>The inodes \<open>N\<close> are in use and linked, and the directories among them lead to inodes of \<open>N\<close>.\<close>

definition tree_ok :: "'a icache_scheme \<Rightarrow> u32 set \<Rightarrow> bool" where
  "tree_ok s N \<longleftrightarrow> (\<forall>n\<in>N. IBLOCK n (sb s) < disksize s \<and> ntype s n \<noteq> 0 \<and> nlink (dinode s n) \<noteq> 0
     \<and> (ntype s n = T_DIR \<longrightarrow> dir_ok (view s n) 0 \<and> (\<forall>k\<le>MAXFILE. slot (view s n) 0 k < unat (disksize s))
          \<and> (\<forall>nm m. ndir s n nm = Some m \<longrightarrow> ucast m \<in> N)))"

lemma dinode_ftxn:
  assumes "ftxn s {} t"
  shows "dinode t = dinode s" "ntype t = ntype s" "ndir t = ndir s" "tree_ok t N = tree_ok s N"
proof -
  note e = ftxn_eq [OF assms]
  have b: "blk t = blk s" using e(6) by auto
  show d: "dinode t = dinode s" using b e(1) by (simp add: dinode_def [abs_def])
  then show nt: "ntype t = ntype s" by (simp add: ntype_def [abs_def])
  have v: "fblk (view t n) 0 = fblk (view s n) 0" "slot (view t n) 0 = slot (view s n) 0" for n
    using fblk_cong [of "view t n" 0 "view s n"] b d by simp_all
  have fb: "fbyte (view t n) 0 = fbyte (view s n) 0" for n
    using v b by (simp add: fbyte_def fun_eq_iff)
  have ino: "inodes (view t n) = inodes (view s n)" for n using d by (simp add: view_def)
  note ds = dir_same [OF fb v(1) ino]
  show nd: "ndir t = ndir s" using ds(6) by (simp add: ndir_def [abs_def])
  show "tree_ok t N = tree_ok s N" using e(1,2) nt nd d v ds(7) by (simp add: tree_ok_def)
qed

text \<open>A cached inode that agrees with the one on the disk.\<close>

definition same_inode :: "inode \<Rightarrow> inode \<Rightarrow> bool" where
  "same_inode a b \<longleftrightarrow> itype a = itype b \<and> nlink a = nlink b \<and> isize a = isize b \<and> (\<forall>k\<le>NDIRECT. addrs a k = addrs b k)"

lemma same_inode_view:
  assumes "same_inode (inodes s i) (dinode s n)"
  shows "fblk s i = fblk (view s n) 0" "slot s i = slot (view s n) 0" "dir_map s i = ndir s n" "dir_ok s i = dir_ok (view s n) 0"
    "itype (inodes s i) = ntype s n" "nlink (inodes s i) = nlink (dinode s n)"
proof -
  have a: "addrs (inodes s i) k = addrs (dinode s n) k" if "k \<le> NDIRECT" for k using assms that by (simp add: same_inode_def)
  have ind: "indirect s i = indirect (view s n) 0" using a [of NDIRECT] by (simp add: indirect_def)
  have "addrs (inodes (view s n) 0) k = addrs (inodes s i) k" if "k < NDIRECT" for k
    using a [of k] that by simp
  then have "fblk s i k = fblk (view s n) 0 k" for k using ind by (simp add: fblk_def)
  then show f: "fblk s i = fblk (view s n) 0" "slot s i = slot (view s n) 0" using ind by (simp_all add: fun_eq_iff slot_def)
  have fb: "fbyte s i = fbyte (view s n) 0" using f by (simp add: fbyte_def fun_eq_iff)
  have z: "isize (inodes s i) = isize (inodes (view s n) 0)" "itype (inodes s i) = itype (inodes (view s n) 0)"
    using assms by (simp_all add: same_inode_def)
  have d: "dirent s i = dirent (view s n) 0" "nents s i = nents (view s n) 0"
    using fb z by (simp_all add: dirent_def [abs_def] nents_def)
  then have "ent_inum s i = ent_inum (view s n) 0" "ent_name s i = ent_name (view s n) 0"
    by (simp_all add: ent_inum_def [abs_def] ent_name_def [abs_def])
  then show "dir_map s i = ndir s n" using d by (simp add: ndir_def dir_map_def [abs_def] dir_find_def)
  show "dir_ok s i = dir_ok (view s n) 0" using f z by (simp add: dir_ok_def)
  show "itype (inodes s i) = ntype s n" "nlink (inodes s i) = nlink (dinode s n)"
    using assms by (simp_all add: same_inode_def ntype_def)
qed

section \<open>The inode cache\<close>

definition entry_ok :: "'a icache_scheme \<Rightarrow> u32 set \<Rightarrow> nat \<Rightarrow> bool" where
  "entry_ok s N i \<longleftrightarrow> 0 \<le> iref (inodes s i)
     \<and> (0 < iref (inodes s i) \<longrightarrow> idev (inodes s i) = ROOTDEV \<and> inum (inodes s i) \<in> N
          \<and> (ivalid (inodes s i) \<longrightarrow> same_inode (inodes s i) (dinode s (inum (inodes s i)))))"

text \<open>The inodes \<open>L\<close> are locked by this process, no others are.\<close>

definition cache_ok :: "'a icache_scheme \<Rightarrow> u32 set \<Rightarrow> nat set \<Rightarrow> bool" where
  "cache_ok s N L \<longleftrightarrow> log_ok s \<and> held s = {} \<and> card (pinned s) < NBUF \<and> tree_ok s N
     \<and> (\<forall>i<NINODE. entry_ok s N i \<and> (if i \<in> L then holdingsleep (pid (myproc s)) (ilk (inodes s i)) else \<not> locked (ilk (inodes s i))))"

lemma cache_ok_step:
  assumes "cache_ok s N L" "ftxn s {} t"
    and "\<And>i. i < NINODE \<Longrightarrow> entry_ok t N i \<and> (if i \<in> L' then holdingsleep (pid (myproc s)) (ilk (inodes t i)) else \<not> locked (ilk (inodes t i)))"
  shows "cache_ok t N L'"
  using assms(1,3) ftxn_eq [OF assms(2)] dinode_ftxn(4) [OF assms(2)] by (simp add: cache_ok_def)

lemma entry_ok_same:
  "ftxn s {} t \<Longrightarrow> inodes t i = inodes s i \<Longrightarrow> entry_ok t N i = entry_ok s N i"
  using dinode_ftxn(1) [of s t] by (simp add: entry_ok_def)

lemma cache_ok_txn: "cache_ok s N L \<Longrightarrow> txn s {} t \<Longrightarrow> cache_ok t N L"
proof -
  assume c: "cache_ok s N L" and t: "txn s {} t"
  have i: "inodes t = inodes s" using t by (simp add: txn_def inodes_keeps)
  show ?thesis
    by (rule cache_ok_step [OF c ftxn_txn [OF t]]) (use c entry_ok_same [OF ftxn_txn [OF t]] i in \<open>simp add: cache_ok_def\<close>)
qed

text \<open>
  References are counted from a state \<open>s0\<close>: \<open>E\<close> says how many more there are to each entry. An entry in use there
  is still the same inode.
\<close>

definition anchored :: "'a icache_scheme \<Rightarrow> (nat \<Rightarrow> nat) \<Rightarrow> 'a icache_scheme \<Rightarrow> bool" where
  "anchored s0 E s \<longleftrightarrow> (\<forall>j. iref (inodes s j) = iref (inodes s0 j) + int (E j)
     \<and> (0 < iref (inodes s0 j) \<longrightarrow> inum (inodes s j) = inum (inodes s0 j)))"

lemma anchored_same:
  "anchored s0 E s \<Longrightarrow> \<forall>j. iref (inodes t j) = iref (inodes s j) \<and> inum (inodes t j) = inum (inodes s j) \<Longrightarrow> anchored s0 E t"
  by (simp add: anchored_def)

lemma iget_ok:
  assumes c: "cache_ok s N L" and n: "n \<in> N" and L: "\<forall>i\<in>L. 0 < iref (inodes s i)"
    and a: "anchored s0 E s" "\<forall>j<NINODE. 0 \<le> iref (inodes s0 j)" and free: "\<exists>j<NINODE. iref (inodes s j) = 0"
  obtains ip t where "iget ROOTDEV n s = Ok (ip, t)" "ip < NINODE" "cache_ok t N L" "ftxn s {} t" "inum (inodes t ip) = n"
    "anchored s0 (E(ip := Suc (E ip))) t" "\<forall>j. 0 < iref (inodes s j) \<longrightarrow> ivalid (inodes t j) = ivalid (inodes s j)"
proof -
  have ex: "\<exists>j<NINODE. iref (inodes s j) = 0 \<or> iref (inodes s j) > 0 \<and> idev (inodes s j) = ROOTDEV \<and> inum (inodes s j) = n"
    using free by blast
  obtain ip g where ip: "iget ROOTDEV n s = Ok (ip, upd_inode ip g s)" "ip < NINODE"
    "iref (inodes s ip) > 0 \<and> idev (inodes s ip) = ROOTDEV \<and> inum (inodes s ip) = n \<and> g = (\<lambda>ip. ip\<lparr>iref := iref ip + 1\<rparr>)
     \<or> iref (inodes s ip) = 0 \<and> g = (\<lambda>ip. ip\<lparr>idev := ROOTDEV, inum := n, iref := 1, ivalid := False\<rparr>)"
    by (rule iget_spec [OF ex])
  let ?t = "upd_inode ip g s"
  have f: "ftxn s {} ?t" using c by (simp add: cache_ok_def)
  have g: "ilk (g (inodes s ip)) = ilk (inodes s ip)" "inum (g (inodes s ip)) = n" "iref (g (inodes s ip)) = iref (inodes s ip) + 1"
    using ip(3) by auto
  have c': "cache_ok ?t N L"
  proof (rule cache_ok_step [OF c f])
    fix i
    assume i: "i < NINODE"
    have e: "entry_ok s N i" and l: "if i \<in> L then holdingsleep (pid (myproc s)) (ilk (inodes s i)) else \<not> locked (ilk (inodes s i))"
      using c i by (simp_all add: cache_ok_def)
    have "entry_ok ?t N i"
    proof (cases "i = ip")
      case True
      have "dinode ?t = dinode s" by (rule dinode_ftxn(1) [OF f])
      then show ?thesis using e ip(3) n True by (auto simp: entry_ok_def inodes_upd_inode same_inode_def)
    qed (use e entry_ok_same [OF f, of i] in \<open>simp add: inodes_upd_inode\<close>)
    then show "entry_ok ?t N i \<and> (if i \<in> L then holdingsleep (pid (myproc s)) (ilk (inodes ?t i)) else \<not> locked (ilk (inodes ?t i)))"
      using l g(1) by (auto simp: inodes_upd_inode split: if_splits)
  qed
  have "iref (inodes s0 ip) > 0 \<longrightarrow> inum (inodes s ip) = n"
    using ip(2,3) a by (auto simp: anchored_def)
  then have "anchored s0 (E(ip := Suc (E ip))) ?t" using a(1) g by (auto simp: anchored_def inodes_upd_inode)
  moreover have "\<forall>j. 0 < iref (inodes s j) \<longrightarrow> ivalid (inodes ?t j) = ivalid (inodes s j)"
    using ip(3) by (auto simp: inodes_upd_inode)
  ultimately show thesis using that [OF ip(1,2) c' f] g(2) by (simp add: inodes_upd_inode)
qed

text \<open>\<open>ilock\<close> brings the inode into memory.\<close>

lemma ftxn_pid: "ftxn s W t \<Longrightarrow> pid (myproc t) = pid (myproc s)"
  by (rule ftxn_eq)

lemma ilock_ok:
  assumes c: "cache_ok s N {}" and i: "i < NINODE" "0 < iref (inodes s i)"
  obtains t where "ilock i s = Ok t" "cache_ok t N {i}" "ftxn s {} t" "ivalid (inodes t i)"
    "\<forall>j. iref (inodes t j) = iref (inodes s j) \<and> inum (inodes t j) = inum (inodes s j)"
proof -
  let ?me = "pid (myproc s)" and ?n = "inum (inodes s i)"
  have e: "entry_ok s N i" "\<not> locked (ilk (inodes s i))" and l: "log_ok s" "held s = {}" "card (pinned s) < NBUF" and tr: "tree_ok s N"
    using c i by (simp_all add: cache_ok_def)
  then have n: "idev (inodes s i) = ROOTDEV" "?n \<in> N" using i(2) by (simp_all add: entry_ok_def)
  then have d: "IBLOCK ?n (sb s) < disksize s" "itype (dinode s ?n) \<noteq> 0" using tr by (auto simp: tree_ok_def ntype_def)
  let ?u = "upd_inode i (\<lambda>ip. ip\<lparr>ilk := (ilk (inodes s i))\<lparr>locked := True, lk_pid := ?me\<rparr>\<rparr>) s"
  have aq: "acquiresleep (ChInode i) ?me (ilk (inodes s i)) = Ok ((ilk (inodes s i))\<lparr>locked := True, lk_pid := ?me\<rparr>)"
    using e(2) by (simp add: acquiresleep_def)
  have fu: "ftxn s {} ?u" using l(1) by simp
  have others: "entry_ok t N j \<and> (if j \<in> {i} then holdingsleep ?me (ilk (inodes t j)) else \<not> locked (ilk (inodes t j)))"
    if "ftxn s {} t" "inodes t j = inodes s j" "j \<noteq> i" "j < NINODE" for j t
    using c that entry_ok_same [OF that(1,2)] by (simp add: cache_ok_def)
  show thesis
  proof (cases "ivalid (inodes s i)")
    case True
    have ei: "entry_ok ?u N i" using e(1) dinode_ftxn(1) [OF fu] by (simp add: entry_ok_def inodes_upd_inode same_inode_def)
    have "cache_ok ?u N {i}"
    proof (rule cache_ok_step [OF c fu])
      fix j
      assume "j < NINODE"
      then show "entry_ok ?u N j \<and> (if j \<in> {i} then holdingsleep ?me (ilk (inodes ?u j)) else \<not> locked (ilk (inodes ?u j)))"
        using others [OF fu, of j] ei by (cases "j = i") (simp_all add: inodes_upd_inode holdingsleep_def)
    qed
    moreover have "ilock i s = Ok ?u" using i(2) aq True by (simp add: ilock_def inodes_upd_inode)
    ultimately show thesis using that [of ?u] fu True by (simp add: inodes_upd_inode)
  next
    case False
    let ?l = "(ilk (inodes s i))\<lparr>locked := True, lk_pid := ?me\<rparr>" and ?g = "get_dinode (dip_offset ?n) (blk s (iblock s i)) (inodes s i)"
    have "dip_type (dip_offset ?n) (blk s (iblock s i)) \<noteq> 0" using d(2) by (simp add: dinode_def get_dinode_def iblock_def)
    then obtain t where run: "ilock i s = Ok t" and ft: "ftxn s {} t"
      and it: "inodes t = (inodes s)(i := ?g\<lparr>ilk := ?l, ivalid := True\<rparr>)"
      using ilock_loads [OF l i(2) n(1) e(2) False d(1)] by blast
    have gs: "same_inode (?g\<lparr>ilk := ?l, ivalid := True\<rparr>) (dinode s ?n)"
      by (simp add: same_inode_def dinode_def get_dinode_def iblock_def)
    have gk: "iref ?g = iref (inodes s i)" "inum ?g = ?n" "idev ?g = ROOTDEV" using n(1) by (simp_all add: get_dinode_def)
    have "cache_ok t N {i}"
    proof (rule cache_ok_step [OF c ft])
      fix j
      assume j: "j < NINODE"
      show "entry_ok t N j \<and> (if j \<in> {i} then holdingsleep ?me (ilk (inodes t j)) else \<not> locked (ilk (inodes t j)))"
      proof (cases "j = i")
        case True
        have "dinode t = dinode s" by (rule dinode_ftxn(1) [OF ft])
        then show ?thesis using True i(2) n(2) gs gk it by (simp add: entry_ok_def holdingsleep_def)
      qed (use others [OF ft _ _ j] it in simp)
    qed
    moreover have "\<forall>j. iref (inodes t j) = iref (inodes s j) \<and> inum (inodes t j) = inum (inodes s j)"
      using gk(1,2) unfolding it by simp
    moreover have "ivalid (inodes t i)" unfolding it by simp
    ultimately show thesis using that [OF run _ ft] by blast
  qed
qed

text \<open>\<open>iunlock\<close> and \<open>iput\<close> change the lock and the count.\<close>

lemma ftxn_wakeup: "log_ok s \<Longrightarrow> ftxn s {} (wakeup c s)"
proof -
  assume l: "log_ok s"
  have k: "keeps s (wakeup c s)"
    unfolding keeps_def using log_frame_wakeup [of s c] by (simp add: wakeup_cache) (simp add: wakeup_def wakeup1_def)
  have "pid (myproc (wakeup c s)) = pid (myproc s)" using keeps_eq [OF k] by simp
  moreover have "bufs (wakeup c s) = bufs s" by (rule wakeup_cache)
  ultimately have h: "holds (wakeup c s) j m = holds s j m" for j m by (simp add: holds_def cached_def holding_buf_def)
  have "txn s {} (wakeup c s)"
    unfolding txn_def using k l same_cache [OF wakeup_cache(1-5), of c s] h by simp
  then show ?thesis by (rule ftxn_txn)
qed

text \<open>An entry whose lock is changed and whose count is lowered; the others stay.\<close>

lemma cache_ok_unlock:
  assumes c: "cache_ok s N L" "L \<subseteq> {i}" and f: "ftxn s {} t" and r: "0 \<le> r" "r \<le> iref (inodes s i)" "\<not> locked l"
    and t: "inodes t = (inodes s)(i := (inodes s i)\<lparr>ilk := l, iref := r\<rparr>)"
  shows "cache_ok t N {}"
proof (rule cache_ok_step [OF c(1) f])
  fix j
  assume j: "j < NINODE"
  have e: "entry_ok s N j" "j \<notin> L \<Longrightarrow> \<not> locked (ilk (inodes s j))" using c(1) j by (simp_all add: cache_ok_def)
  have d: "dinode t = dinode s" by (rule dinode_ftxn(1) [OF f])
  show "entry_ok t N j \<and> (if j \<in> {} then holdingsleep (pid (myproc s)) (ilk (inodes t j)) else \<not> locked (ilk (inodes t j)))"
  proof (cases "j = i")
    case True
    then show ?thesis using e(1) r d by (simp add: entry_ok_def t same_inode_def)
  next
    case False
    then have "j \<notin> L" using c(2) by auto
    then show ?thesis using e False entry_ok_same [OF f, of j] by (simp add: t)
  qed
qed

lemma ftxn_upd_trans: "ftxn s {} t \<Longrightarrow> ftxn s {} (upd_inode i f t)"
  using ftxn_trans [of s "{}" t "{}" "upd_inode i f t"] ftxn_eq(3) [of s "{}" t] by simp

lemma iunlock_ok:
  assumes c: "cache_ok s N {i}" and i: "i < NINODE" "0 < iref (inodes s i)"
  obtains t where "iunlock i s = Ok t" "cache_ok t N {}" "ftxn s {} t"
    "inodes t = (inodes s)(i := (inodes s i)\<lparr>ilk := unlocked (ilk (inodes s i))\<rparr>)"
proof -
  let ?w = "wakeup (ChInode i) s"
  let ?t = "upd_inode i (\<lambda>ip. ip\<lparr>ilk := unlocked (ilk (inodes s i))\<rparr>) ?w"
  have h: "holdingsleep (pid (myproc s)) (ilk (inodes s i))" "log_ok s" "entry_ok s N i" using c i by (simp_all add: cache_ok_def)
  have f: "ftxn s {} ?t" by (rule ftxn_upd_trans [OF ftxn_wakeup [OF h(2)]])
  have it: "inodes ?t = (inodes s)(i := (inodes s i)\<lparr>ilk := unlocked (ilk (inodes s i))\<rparr>)"
    by (simp add: inodes_upd_inode wakeup_cache)
  have run: "iunlock i s = Ok ?t" using h(1) i by (simp add: iunlock_def releasesleep_def)
  have "cache_ok ?t N {}"
    by (rule cache_ok_unlock [OF c order_refl f, of "iref (inodes s i)"]) (use i it in \<open>simp_all add: unlocked_def\<close>)
  then show thesis using that [OF run _ f it] by blast
qed

lemma iput_ok:
  assumes c: "cache_ok s N {}" and i: "i < NINODE" "0 < iref (inodes s i)"
  obtains t where "iput i s = Ok t" "cache_ok t N {}" "ftxn s {} t"
    "\<forall>j. iref (inodes t j) = (if j = i then iref (inodes s i) - 1 else iref (inodes s j)) \<and> inum (inodes t j) = inum (inodes s j)"
proof -
  let ?me = "pid (myproc s)" and ?lk = "(ilk (inodes s i))\<lparr>locked := True, lk_pid := pid (myproc s)\<rparr>"
  have e: "\<not> locked (ilk (inodes s i))" "log_ok s" "entry_ok s N i" "tree_ok s N" using c i by (simp_all add: cache_ok_def)
  let ?u = "upd_inode i (\<lambda>ip. ip\<lparr>ilk := ?lk\<rparr>) s"
  let ?w = "wakeup (ChInode i) ?u"
  let ?v = "upd_inode i (\<lambda>ip. ip\<lparr>ilk := unlocked ?lk\<rparr>) ?w"
  let ?t = "upd_inode i (\<lambda>ip. ip\<lparr>iref := iref ip - 1\<rparr>) ?v"
  have iu: "inodes ?u i = (inodes s i)\<lparr>ilk := ?lk\<rparr>" by (simp add: upd_inode_def)
  have nl: "nlink (inodes s i) \<noteq> 0" if "ivalid (inodes s i)"
    using e(3,4) that i(2) by (auto simp: entry_ok_def tree_ok_def same_inode_def)
  have fu: "ftxn s {} ?u" using e(2) by simp
  then have "log_ok ?u" by (rule ftxn_eq)
  then have "ftxn s {} ?w" using ftxn_trans [OF fu ftxn_wakeup] by fastforce
  then have f: "ftxn s {} ?t" by (intro ftxn_upd_trans)
  have it: "inodes ?t = (inodes s)(i := (inodes s i)\<lparr>ilk := unlocked ?lk, iref := iref (inodes s i) - 1\<rparr>)"
    by (simp add: inodes_upd_inode wakeup_cache)
  have aq: "acquiresleep (ChInode i) ?me (ilk (inodes s i)) = Ok ?lk" using e(1) by (simp add: acquiresleep_def)
  have cond: "\<not> (ivalid (inodes ?u i) \<and> nlink (inodes ?u i) = 0 \<and> iref (inodes ?u i) = 1)" using nl iu by auto
  have run: "iput i s = Ok ?t"
    unfolding iput_def aq bindr.simps Let_def if_not_P [OF cond] releasesleep_def by (simp add: iu)
  have "cache_ok ?t N {}"
    by (rule cache_ok_unlock [OF c empty_subsetI f _ _ _ it]) (use i(2) in \<open>simp_all add: unlocked_def\<close>)
  then show thesis by (rule that [OF run _ f]) (simp add: it)
qed

lemma iunlockput_ok:
  assumes c: "cache_ok s N {i}" and i: "i < NINODE" "0 < iref (inodes s i)" and a: "anchored s0 E s" "0 < E i"
  obtains t where "iunlockput i s = Ok t" "cache_ok t N {}" "ftxn s {} t" "anchored s0 (E(i := E i - 1)) t"
    "\<forall>j. inum (inodes t j) = inum (inodes s j)"
proof -
  obtain u where u: "iunlock i s = Ok u" "cache_ok u N {}" "ftxn s {} u"
    "inodes u = (inodes s)(i := (inodes s i)\<lparr>ilk := unlocked (ilk (inodes s i))\<rparr>)" by (rule iunlock_ok [OF c i])
  have iu: "iref (inodes u j) = iref (inodes s j)" "inum (inodes u j) = inum (inodes s j)" for j unfolding u(4) by simp_all
  obtain t where t: "iput i u = Ok t" "cache_ok t N {}" "ftxn u {} t"
    "\<forall>j. iref (inodes t j) = (if j = i then iref (inodes u i) - 1 else iref (inodes u j)) \<and> inum (inodes t j) = inum (inodes u j)"
    using iput_ok [OF u(2) i(1)] i(2) iu(1) by metis
  have "ftxn s {} t" using ftxn_trans [OF u(3) t(3)] by simp
  moreover have "anchored s0 (E(i := E i - 1)) t" using a t(4) iu by (auto simp: anchored_def)
  ultimately show thesis using that [of t] u(1) t(1,2,4) iu by (simp add: iunlockput_def)
qed

section \<open>One step of the walk\<close>

lemma lookup_ok:
  assumes c: "cache_ok s N {i}" and i: "i < NINODE" "0 < iref (inodes s i)" "ivalid (inodes s i)"
    and n: "n = inum (inodes s i)" "ntype s n = T_DIR"
    and a: "anchored s0 E s" "\<forall>j<NINODE. 0 \<le> iref (inodes s0 j)" and free: "\<exists>j<NINODE. iref (inodes s j) = 0"
  obtains (none) t where "ndir s n (arr_str name) = None" "dirlookup i name s = Ok (None, t)" "cache_ok t N {i}" "ftxn s {} t"
      "inodes t = inodes s"
  | (some) m ip off t where "ndir s n (arr_str name) = Some m" "dirlookup i name s = Ok (Some (ip, off), t)" "ip < NINODE" "ucast m \<in> N"
      "cache_ok t N {i}" "ftxn s {} t" "inum (inodes t ip) = ucast m" "anchored s0 (E(ip := Suc (E ip))) t" "0 < iref (inodes t i)"
proof -
  have e: "entry_ok s N i" "log_ok s" "held s = {}" "card (pinned s) < NBUF" "tree_ok s N" using c i(1) by (simp_all add: cache_ok_def)
  then have sm: "same_inode (inodes s i) (dinode s n)" "n \<in> N" "idev (inodes s i) = ROOTDEV" using i n by (simp_all add: entry_ok_def)
  note v = same_inode_view [OF sm(1)]
  have d: "dir_ok s i" "\<forall>k\<le>MAXFILE. slot s i k < unat (disksize s)" "\<forall>nm m. ndir s n nm = Some m \<longrightarrow> ucast m \<in> N"
    using e(5) sm(2) n(2) v by (auto simp: tree_ok_def)
  have r: "can_read s i" using e sm(3) d(2) by (simp add: can_read_def)
  obtain u where u: "txn s {} u" "dirlookup i name s =
    (case dir_find s i (arr_str name) of
       None \<Rightarrow> Ok (None, u)
     | Some k \<Rightarrow> bindr (iget ROOTDEV (ucast (ent_inum s i k)) u) (\<lambda>(ip, s). Ok (Some (ip, of_nat (k * SIZEOF_DIRENT)), s)))"
    by (rule dirlookup_spec [OF r d(1)])
  have fu: "ftxn s {} u" "cache_ok u N {i}" "inodes u = inodes s"
    using ftxn_txn [OF u(1)] cache_ok_txn [OF c u(1)] txn_ino [OF u(1)] by simp_all
  show thesis
  proof (cases "dir_find s i (arr_str name)")
    case None
    then show thesis using none [of u] fu u(2) v(3) [symmetric] by (simp add: dir_map_def)
  next
    case (Some k)
    let ?m = "ent_inum s i k"
    have m: "ndir s n (arr_str name) = Some ?m" using Some v(3) [symmetric] by (simp add: dir_map_def)
    then have mN: "ucast ?m \<in> N" using d(3) by blast
    have h: "\<forall>j\<in>{i}. 0 < iref (inodes u j)" "anchored s0 E u" "\<exists>j<NINODE. iref (inodes u j) = 0"
      using fu(3) i(2) a(1) free by (simp_all add: anchored_def)
    obtain ip t where t: "iget ROOTDEV (ucast ?m) u = Ok (ip, t)" "ip < NINODE" "cache_ok t N {i}" "ftxn u {} t" "inum (inodes t ip) = ucast ?m"
      "anchored s0 (E(ip := Suc (E ip))) t"
      by (rule iget_ok [OF fu(2) mN h(1,2) a(2) h(3)])
    have "iref (inodes t i) \<ge> iref (inodes s i)" using t(6) a(1) by (simp add: anchored_def)
    moreover have "ftxn s {} t" using ftxn_trans [OF fu(1) t(4)] by simp
    ultimately show thesis using some [of ?m ip "of_nat (k * SIZEOF_DIRENT)" t] m mN t u(2) Some i(2) by simp
  qed
qed

section \<open>The walk\<close>

text \<open>
  From directory \<open>n\<close> along names: to the inode the path names, or, with \<open>par\<close>, to the directory that holds its last
  name, which need not exist.
\<close>

fun walk :: "bool \<Rightarrow> 'a icache_scheme \<Rightarrow> u32 \<Rightarrow> u8 list list \<Rightarrow> u32 option" where
  "walk par s n [] = (if par then None else Some n)"
| "walk par s n (c # cs) =
     (if ntype s n \<noteq> T_DIR then None
      else if par \<and> cs = [] then Some n
      else case ndir s n c of None \<Rightarrow> None | Some m \<Rightarrow> walk par s (ucast m) cs)"

lemma walk_ftxn: "ftxn s {} t \<Longrightarrow> walk par t n cs = walk par s n cs"
  by (induction cs arbitrary: n) (simp_all add: dinode_ftxn(2,3) [of s t] split: option.split)

lemma path_names_Nil: "skipelem path name = Some (path', name') \<Longrightarrow> path_names path' name' = [] \<longleftrightarrow> path' = []"
proof -
  assume "skipelem path name = Some (path', name')"
  then have p: "path' = dropWhile (\<lambda>c. c = 47) path'" by (auto simp: skipelem_def Let_def split: if_splits)
  have "skipelem path' name' = None \<longleftrightarrow> path' = []"
  proof
    assume "skipelem path' name' = None"
    then have "dropWhile (\<lambda>c. c = 47) path' = []" by (simp add: skipelem_def Let_def split: if_splits)
    then show "path' = []" using p by simp
  qed (simp add: skipelem_def)
  then show ?thesis by (subst path_names.simps) (auto split: option.split)
qed

text \<open>What a walk leaves: the disk as it was, and one more reference to the inode it returns, or none.\<close>

definition same_disk :: "'a icache_scheme \<Rightarrow> 'a icache_scheme \<Rightarrow> bool" where
  "same_disk s t \<longleftrightarrow> blk t = blk s \<and> sb t = sb s \<and> disksize t = disksize s"

lemma same_disk_ftxn: "ftxn s {} t \<Longrightarrow> same_disk s0 s \<Longrightarrow> same_disk s0 t"
  using ftxn_eq [of s "{}" t] by (auto simp: same_disk_def)

definition walked :: "'a icache_scheme \<Rightarrow> u32 set \<Rightarrow> u32 option \<Rightarrow> nat option \<Rightarrow> 'a icache_scheme \<Rightarrow> bool" where
  "walked s N w r t \<longleftrightarrow> cache_ok t N {} \<and> same_disk s t
     \<and> (case w of
          None \<Rightarrow> r = None \<and> anchored s (\<lambda>j. 0) t
        | Some m \<Rightarrow> (\<exists>ip<NINODE. r = Some ip \<and> inum (inodes t ip) = m \<and> anchored s ((\<lambda>j. 0)(ip := 1)) t))"

lemma ex_other: "2 \<le> card A \<Longrightarrow> \<exists>j\<in>A. j \<noteq> (i :: nat)"
proof (rule ccontr)
  assume "2 \<le> card A" "\<not> (\<exists>j\<in>A. j \<noteq> i)"
  moreover then have "A \<subseteq> {i}" by blast
  ultimately show False using card_mono [of "{i}" A] by simp
qed

lemma namex_loop_spec:
  assumes "cache_ok s N {}" "ip < NINODE" "anchored s0 ((\<lambda>j. 0)(ip := 1)) s" "\<forall>j<NINODE. 0 \<le> iref (inodes s0 j)"
    "2 \<le> card {j. j < NINODE \<and> iref (inodes s0 j) = 0}" "same_disk s0 s"
  shows "\<exists>r nm t. namex_loop par ip path name s = Ok (r, nm, t)
    \<and> walked s0 N (walk par s (inum (inodes s ip)) (path_names path name)) r t
    \<and> (par \<and> r \<noteq> None \<longrightarrow> arr_str nm = last (path_names path name))"
  using assms
proof (induction "length path" arbitrary: ip path name s rule: less_induct)
  case less
  let ?n = "inum (inodes s ip)"
  have i: "0 < iref (inodes s ip)" using less.prems(2-4) by (auto simp: anchored_def)
  have e0: "((\<lambda>j. 0)(ip := 1))(ip := ((\<lambda>j. 0)(ip := 1)) ip - 1) = (\<lambda>j :: nat. 0 :: nat)" by auto
  show ?case
  proof (cases "skipelem path name")
    case None
    then have pn: "path_names path name = []" by (subst path_names.simps) simp
    show ?thesis
    proof (cases par)
      case True
      obtain t where t: "iput ip s = Ok t" "cache_ok t N {}" "ftxn s {} t"
        "\<forall>j. iref (inodes t j) = (if j = ip then iref (inodes s ip) - 1 else iref (inodes s j)) \<and> inum (inodes t j) = inum (inodes s j)"
        by (rule iput_ok [OF less.prems(1,2) i])
      have "same_disk s0 t" by (rule same_disk_ftxn [OF t(3) less.prems(6)])
      then have "walked s0 N None None t" using t(2,4) less.prems(3) by (auto simp: walked_def anchored_def)
      moreover have "namex_loop par ip path name s = Ok (None, name, t)"
        using None True t(1) by (subst namex_loop.simps) simp
      ultimately show ?thesis using True pn by (intro exI [of _ None] exI [of _ name] exI [of _ t]) simp
    next
      case False
      have "namex_loop par ip path name s = Ok (Some ip, name, s)" using None False by (subst namex_loop.simps) simp
      moreover have "walked s0 N (Some ?n) (Some ip) s" using less.prems(1-3,6) by (auto simp: walked_def)
      ultimately show ?thesis using False pn by (intro exI [of _ "Some ip"] exI [of _ name] exI [of _ s]) simp
    qed
  next
    case (Some pq)
    obtain path' name' where sk: "skipelem path name = Some (path', name')" using Some by (cases pq) auto
    have pn: "path_names path name = arr_str name' # path_names path' name'" using sk by (subst path_names.simps) simp
    obtain u where u: "ilock ip s = Ok u" "cache_ok u N {ip}" "ftxn s {} u" "ivalid (inodes u ip)"
      "\<forall>j. iref (inodes u j) = iref (inodes s j) \<and> inum (inodes u j) = inum (inodes s j)"
      by (rule ilock_ok [OF less.prems(1,2) i])
    have iu: "0 < iref (inodes u ip)" "inum (inodes u ip) = ?n" using u(5) i by auto
    have au: "anchored s0 ((\<lambda>j. 0)(ip := 1)) u" by (rule anchored_same [OF less.prems(3) u(5)])
    have bu: "same_disk s0 u" by (rule same_disk_ftxn [OF u(3) less.prems(6)])
    have dt: "ntype u = ntype s" "ndir u = ndir s" using dinode_ftxn [OF u(3)] by simp_all
    have "entry_ok u N ip" using u(2) less.prems(2) by (simp add: cache_ok_def)
    then have "same_inode (inodes u ip) (dinode u ?n)" using u(4) iu by (simp add: entry_ok_def)
    then have ty: "itype (inodes u ip) = ntype s ?n" using same_inode_view(5) dt by metis
    note step = namex_loop.simps [of par ip path name s]
    have put: "\<exists>t. iunlockput ip v = Ok t \<and> walked s0 N None None t"
      if v: "cache_ok v N {ip}" "inodes v = inodes u" "same_disk s0 v" for v
    proof -
      have av: "anchored s0 ((\<lambda>j. 0)(ip := 1)) v" "0 < iref (inodes v ip)" "0 < ((\<lambda>j. 0)(ip := 1 :: nat)) ip"
        using au v(2) iu by (simp_all add: anchored_def)
      obtain t where t: "iunlockput ip v = Ok t" "cache_ok t N {}" "ftxn v {} t" "anchored s0 (\<lambda>j. 0) t"
        by (rule iunlockput_ok [OF v(1) less.prems(2) av(2,1,3), unfolded e0])
      then show ?thesis using same_disk_ftxn [OF t(3) v(3)] unfolding walked_def by auto
    qed
    consider (leaf) "ntype s ?n \<noteq> T_DIR" | (stop) "ntype s ?n = T_DIR" "par" "path' = []"
      | (go) "ntype s ?n = T_DIR" "\<not> (par \<and> path' = [])" by blast
    then show ?thesis
    proof cases
      case leaf
      obtain t where t: "iunlockput ip u = Ok t" "walked s0 N None None t" using put [OF u(2) refl bu] by blast
      then show ?thesis using leaf sk u(1) ty pn by (simp add: step)
    next
      case stop
      obtain t where t: "iunlock ip u = Ok t" "cache_ok t N {}" "ftxn u {} t"
        "inodes t = (inodes u)(ip := (inodes u ip)\<lparr>ilk := unlocked (ilk (inodes u ip))\<rparr>)"
        by (rule iunlock_ok [OF u(2) less.prems(2) iu(1)])
      have "anchored s0 ((\<lambda>j. 0)(ip := 1)) t" by (rule anchored_same [OF au]) (simp add: t(4))
      moreover have "inum (inodes t ip) = ?n" using iu(2) by (simp add: t(4))
      moreover have "same_disk s0 t" by (rule same_disk_ftxn [OF t(3) bu])
      ultimately have "walked s0 N (Some ?n) (Some ip) t" using t(2) less.prems(2) by (auto simp: walked_def)
      moreover have "path_names path' name' = []" using path_names_Nil [OF sk] stop(3) by simp
      moreover have "namex_loop par ip path name s = Ok (Some ip, name', t)" unfolding step using stop sk u(1) ty t(1) by simp
      ultimately show ?thesis using stop pn by (intro exI [of _ "Some ip"] exI [of _ name'] exI [of _ t]) simp
    next
      case go
      have ne: "\<not> (par \<and> path_names path' name' = [])" using path_names_Nil [OF sk] go(2) by simp
      obtain j where j: "j < NINODE" "iref (inodes s0 j) = 0" "j \<noteq> ip" using ex_other [OF less.prems(5), of ip] by auto
      then have free: "\<exists>j<NINODE. iref (inodes u j) = 0" using au by (intro exI [of _ j]) (simp add: anchored_def)
      have tu: "ntype u ?n = T_DIR" using go(1) dt by simp
      show ?thesis
      proof (cases rule: lookup_ok [OF u(2) less.prems(2) iu(1) u(4) iu(2) [symmetric] tu au less.prems(4) free, of name', case_names none some])
        case (none v)
        have "same_disk s0 v" by (rule same_disk_ftxn [OF none(4) bu])
        then obtain t where t: "iunlockput ip v = Ok t" "walked s0 N None None t" using put [OF none(3,5)] by blast
        have run: "namex_loop par ip path name s = Ok (None, name', t)"
          unfolding step using go sk u(1) ty none(2) t(1) by (simp add: if_not_P [OF go(2)] del: de_Morgan_conj)
        have "walk par s ?n (path_names path name) = None" using go(1) ne none(1) dt(2) pn by auto
        then show ?thesis using run t(2) by (intro exI [of _ None] exI [of _ name'] exI [of _ t]) simp
      next
        case (some m q off v)
        let ?E = "((\<lambda>j. 0)(ip := 1))(q := Suc (((\<lambda>j. 0)(ip := 1)) q))"
        have E: "?E(ip := ?E ip - 1) = (\<lambda>j. 0)(q := 1)" "0 < ?E ip" by auto
        obtain t where t: "iunlockput ip v = Ok t" "cache_ok t N {}" "ftxn v {} t" "anchored s0 ((\<lambda>j. 0)(q := 1)) t"
          "\<forall>j. inum (inodes t j) = inum (inodes v j)"
          by (rule iunlockput_ok [OF some(5) less.prems(2) some(9,8) E(2), unfolded E(1)])
        have st: "ftxn s {} t" using ftxn_trans [OF ftxn_trans [OF u(3) some(6)] t(3)] by simp
        have bt: "same_disk s0 t" by (rule same_disk_ftxn [OF st less.prems(6)])
        have "\<exists>r nm w. namex_loop par q path' name' t = Ok (r, nm, w)
          \<and> walked s0 N (walk par t (inum (inodes t q)) (path_names path' name')) r w
          \<and> (par \<and> r \<noteq> None \<longrightarrow> arr_str nm = last (path_names path' name'))"
          by (rule less.hyps [OF skipelem_shorter [OF sk] t(2) some(3) t(4) less.prems(4,5) bt])
        then obtain r nm w where w: "namex_loop par q path' name' t = Ok (r, nm, w)"
          "walked s0 N (walk par s (ucast m) (path_names path' name')) r w" "par \<and> r \<noteq> None \<longrightarrow> arr_str nm = last (path_names path' name')"
          using t(5) some(7) walk_ftxn [OF st] by auto
        have run: "namex_loop par ip path name s = Ok (r, nm, w)"
          unfolding step using go sk u(1) ty some(2) t(1) w(1) by (simp add: if_not_P [OF go(2)] del: de_Morgan_conj)
        have wk: "walk par s ?n (path_names path name) = walk par s (ucast m) (path_names path' name')"
          using go(1) ne some(1) dt(2) pn by simp
        have "par \<and> r \<noteq> None \<longrightarrow> arr_str nm = last (path_names path name)" using w(3) ne pn by auto
        then show ?thesis using run w(2) wk by (intro exI conjI) simp_all
      qed
    qed
  qed
qed

section \<open>namei\<close>

lemma idup_ok:
  assumes c: "cache_ok s N {}" and i: "i < NINODE" "0 < iref (inodes s i)"
  shows "cache_ok (idup i s) N {}" "ftxn s {} (idup i s)" "anchored s ((\<lambda>j. 0)(i := 1)) (idup i s)"
    "inum (inodes (idup i s) i) = inum (inodes s i)"
proof -
  show f: "ftxn s {} (idup i s)" using c by (simp add: idup_def cache_ok_def)
  have it: "inodes (idup i s) = (inodes s)(i := (inodes s i)\<lparr>iref := iref (inodes s i) + 1\<rparr>)" by (simp add: idup_def inodes_upd_inode)
  show "cache_ok (idup i s) N {}"
  proof (rule cache_ok_step [OF c f])
    fix j
    assume j: "j < NINODE"
    have "dinode (idup i s) = dinode s" by (rule dinode_ftxn(1) [OF f])
    moreover have "entry_ok s N j" "\<not> locked (ilk (inodes s j))" using c j by (simp_all add: cache_ok_def)
    ultimately show "entry_ok (idup i s) N j \<and> (if j \<in> {} then holdingsleep (pid (myproc s)) (ilk (inodes (idup i s) j)) else \<not> locked (ilk (inodes (idup i s) j)))"
      using i(2) by (cases "j = i") (simp_all add: entry_ok_def it same_inode_def)
  qed
  show "anchored s ((\<lambda>j. 0)(i := 1)) (idup i s)" "inum (inodes (idup i s) i) = inum (inodes s i)" by (simp_all add: anchored_def it)
qed

text \<open>The directory a path starts from.\<close>

definition start_of :: "'a icache_scheme \<Rightarrow> u8 list \<Rightarrow> nat \<Rightarrow> u32" where
  "start_of s path c = (if path \<noteq> [] \<and> hd path = 47 then ROOTINO else inum (inodes s c))"

lemma namex_spec:
  assumes c: "cache_ok s N {}" "ROOTINO \<in> N" "2 \<le> card {j. j < NINODE \<and> iref (inodes s j) = 0}"
    and cwd: "cwd (myproc s) = Some d" "d < NINODE" "0 < iref (inodes s d)"
  shows "\<exists>r nm t. namex path par name s = Ok (r, nm, t) \<and> walked s N (walk par s (start_of s path d) (path_names path name)) r t
    \<and> (par \<and> r \<noteq> None \<longrightarrow> arr_str nm = last (path_names path name))"
proof -
  have pos: "\<forall>j<NINODE. 0 \<le> iref (inodes s j)" using c(1) by (simp add: cache_ok_def entry_ok_def)
  have "\<exists>ip t. ip < NINODE \<and> cache_ok t N {} \<and> ftxn s {} t \<and> anchored s ((\<lambda>j. 0)(ip := 1)) t \<and> inum (inodes t ip) = start_of s path d
    \<and> namex path par name s = namex_loop par ip path name t"
  proof (cases "path \<noteq> [] \<and> hd path = 47")
    case True
    obtain j where "j < NINODE" "iref (inodes s j) = 0" using ex_other [OF c(3)] by auto
    then have free: "\<exists>j<NINODE. iref (inodes s j) = 0" by blast
    have a: "anchored s (\<lambda>j. 0) s" by (simp add: anchored_def)
    obtain ip t where t: "iget ROOTDEV ROOTINO s = Ok (ip, t)" "ip < NINODE" "cache_ok t N {}" "ftxn s {} t" "inum (inodes t ip) = ROOTINO"
      "anchored s ((\<lambda>j. 0)(ip := Suc 0)) t"
      by (rule iget_ok [OF c(1,2) _ a pos free]) simp_all
    then show ?thesis using True by (intro exI [of _ ip] exI [of _ t]) (simp add: namex_def start_of_def)
  next
    case False
    note u = idup_ok [OF c(1) cwd(2,3)]
    show ?thesis using False u cwd by (intro exI [of _ d] exI [of _ "idup d s"]) (auto simp: namex_def start_of_def)
  qed
  then obtain ip t where t: "ip < NINODE" "cache_ok t N {}" "ftxn s {} t" "anchored s ((\<lambda>j. 0)(ip := 1)) t"
    "inum (inodes t ip) = start_of s path d" "namex path par name s = namex_loop par ip path name t" by blast
  have b: "same_disk s t" by (rule same_disk_ftxn [OF t(3)]) (simp add: same_disk_def)
  show ?thesis using namex_loop_spec [OF t(2,1,4) pos c(3) b, of par path name] walk_ftxn [OF t(3)] t(5,6) by simp
qed

lemma namei_spec:
  assumes "cache_ok s N {}" and "ROOTINO \<in> N" and "2 \<le> card {j. j < NINODE \<and> iref (inodes s j) = 0}"
    and "cwd (myproc s) = Some d" and "d < NINODE" and "0 < iref (inodes s d)" and "0 \<notin> set path"
  shows "\<exists>r t. namei path s = Ok (r, t) \<and> walked s N (walk False s (start_of s path d) (components path)) r t"
proof -
  have p: "path_names path nm = components path" for nm by (rule path_names_components [OF assms(7)])
  show ?thesis using namex_spec [OF assms(1-6), of path False "\<lambda>i. 0"] unfolding p by (auto simp: namei_def)
qed

section \<open>Properties\<close>

text \<open>
  C4: Path lookup walks the tree. For any path, an inode cache that agrees with the disk and two free entries in it,
  \<open>namei\<close> returns, and \<open>None\<close> exactly when the walk along the components of the path, from the root or the
  current directory, meets a name that is not bound or something that is no directory; otherwise it returns an
  entry of the cache for the inode that the walk ends at. It takes one reference to that entry and leaves every other
  count as it was, no lock stays held and no block changes. \<open>nameiparent\<close> does the same for the directory of the last
  component, and delivers its name.
\<close>

theorem namei_walks:
  assumes "cache_ok s N {}" and "ROOTINO \<in> N" and "2 \<le> card {j. j < NINODE \<and> iref (inodes s j) = 0}"
    and "cwd (myproc s) = Some d" and "d < NINODE" and "0 < iref (inodes s d)" and "0 \<notin> set path"
  shows "(\<exists>r t. namei path s = Ok (r, t) \<and> walked s N (walk False s (start_of s path d) (components path)) r t)
    \<and> (\<exists>r nm t. nameiparent path name s = Ok (r, nm, t) \<and> walked s N (walk True s (start_of s path d) (components path)) r t
         \<and> (r \<noteq> None \<longrightarrow> arr_str nm = last (components path)))"
proof -
  have p: "path_names path nm = components path" for nm by (rule path_names_components [OF assms(7)])
  show ?thesis
    using namei_spec [OF assms] namex_spec [OF assms(1-6), of path True name] unfolding p by (simp add: nameiparent_def)
qed

section \<open>A root directory that contains itself\<close>

definition name_a :: "nat \<Rightarrow> u8" where "name_a i = (if i = 0 then 97 else 0)"

definition root_inode :: inode where
  "root_inode = zero_inode\<lparr>itype := T_DIR, nlink := 1, isize := 16, addrs := (\<lambda>k. if k = 0 then 59 else 0)\<rparr>"

definition tree_disk :: "nat \<Rightarrow> block" where
  "tree_disk n = (if n = 32 then put_dinode 64 root_inode (\<lambda>i. 0)
     else if n = 59 then (\<lambda>i. if i < 16 then mk_dirent 1 (arr_strncpy name_a 0 DIRSIZ) i else 0) else (\<lambda>i. 0))"

definition treestate0 :: cons where
  "treestate0 = (binit (cons0\<lparr>disk := tree_disk, sb := sample_sb\<rparr>))
     \<lparr>inodes := (\<lambda>i. zero_inode\<lparr>idev := ROOTDEV, inum := 1, iref := (if i = 0 then 1 else 0), ilk := initsleeplock\<rparr>),
      procs := (\<lambda>i. zero_proc\<lparr>cwd := Some 0\<rparr>)\<rparr>"

lemma sample_tree:
  "cache_ok treestate0 {1} {}" "ntype treestate0 1 = T_DIR"
  "ndir treestate0 1 nm = (if nm = [97] then Some 1 else None)"
proof -
  let ?s = treestate0 and ?b = "binit (cons0\<lparr>disk := tree_disk, sb := sample_sb\<rparr>)"
  have b: "bio_ok ?b" "blk ?b = tree_disk" "pinned ?b = {}" "held ?b = {}"
    using binit_ok [of "cons0\<lparr>disk := tree_disk, sb := sample_sb\<rparr>"] by (simp_all add: cons0_defs idle_zero_buf)
  have fr: "log ?b = log log0" "sb ?b = sample_sb" "disksize ?b = 1000" by (subst binit_frame, simp add: cons0_defs)+
  have "bufs ?s = bufs ?b" "disk ?s = disk ?b" "disksize ?s = disksize ?b" "log ?s = log ?b" "sb ?s = sb ?b"
    by (simp_all add: treestate0_def)
  note e = this same_cache [OF this]
  have s: "blk ?s = tree_disk" "log_ok ?s" "held ?s = {}" "pinned ?s = {}" "sb ?s = sample_sb" "disksize ?s = 1000"
    using e b fr log0_log by (simp_all add: log_ok_def)
  have ib: "unat (IBLOCK 1 sample_sb) = 32" "IBLOCK 1 sample_sb = 32" "dip_offset 1 = 64" by (simp_all add: IBLOCK_def sample_sb_def IPB_def BSIZE_def SIZEOF_DINODE_def dip_offset_def)
  have d: "itype (dinode ?s 1) = T_DIR" "nlink (dinode ?s 1) = 1" "isize (dinode ?s 1) = 16"
    "addrs (dinode ?s 1) k = (if k = 0 then 59 else 0)" for k
    unfolding dinode_def s(1,5) ib by (simp_all add: tree_disk_def get_put_dinode root_inode_def zero_inode_def NDIRECT_def)
  show "ntype ?s 1 = T_DIR" using d(1) by (simp add: ntype_def)
  let ?v = "view ?s 1"
  have fb: "fblk ?v 0 k = (if k = 0 then 59 else 0)" for k by (simp add: fblk_def indirect_def d(4) NDIRECT_def)
  have sl: "slot ?v 0 k = (if k = 0 then 59 else 0)" for k using fb d(4) by (simp add: slot_def indirect_def NDIRECT_def MAXFILE_def NINDIRECT_def)
  have fy: "fbyte ?v 0 x = mk_dirent 1 (arr_strncpy name_a 0 DIRSIZ) x" if "x < 16" for x
    using that fb s(1) by (simp add: fbyte_def sizes tree_disk_def)
  have ne: "nents ?v 0 = 1" using d(3) by (simp add: nents_def entry_size)
  have de: "dirent ?v 0 0 = map (mk_dirent 1 (arr_strncpy name_a 0 DIRSIZ)) [0..<SIZEOF_DIRENT]"
    unfolding dirent_def by (rule map_cong) (use fy in \<open>simp_all add: entry_size\<close>)
  have en: "ent_inum ?v 0 0 = 1" "ent_name ?v 0 0 = arr_str name_a"
    unfolding ent_inum_def ent_name_def de by (rule new_entry)+
  have "arr_str name_a = [97]" by (simp add: arr_str_def name_a_def DIRSIZ_def upt_rec)
  then show nd: "ndir ?s 1 nm = (if nm = [97] then Some 1 else None)" for nm
    using ne en by (auto simp: ndir_def dir_map_def dir_find_def)
  have "tree_ok ?s {1}"
    using s d nd fb sl ib T_DIR_def by (auto simp: tree_ok_def ntype_def dir_ok_def entry_size sizes split: if_splits)
  then show "cache_ok ?s {1} {}"
    using s by (simp add: cache_ok_def NBUF_def) (simp add: treestate0_def entry_ok_def zero_inode_def initsleeplock_def)
qed

theorem namei_walks_witness:
  "\<exists>r t. namei [47, 97, 47, 97] treestate0 = Ok (Some r, t) \<and> inum (inodes t r) = 1"
proof -
  have c: "card {j. j < NINODE \<and> iref (inodes treestate0 j) = 0} = card {1..<NINODE}"
    by (rule arg_cong [of _ _ card]) (auto simp: treestate0_def)
  have h: "cwd (myproc treestate0) = Some 0" "iref (inodes treestate0 0) = 1" by (simp_all add: treestate0_def myproc_def)
  have p: "components [47, 97, 47, 97] = [[97], [97]]" by (simp add: components_def DIRSIZ_def)
  have w: "walk False treestate0 (start_of treestate0 [47, 97, 47, 97] 0) (components [47, 97, 47, 97]) = Some 1"
    unfolding p by (simp add: start_of_def ROOTINO_def sample_tree)
  have "(\<exists>r t. namei [47, 97, 47, 97] treestate0 = Ok (r, t)
      \<and> walked treestate0 {1} (walk False treestate0 (start_of treestate0 [47, 97, 47, 97] 0) (components [47, 97, 47, 97])) r t)"
    using namei_walks [of treestate0 "{1}" 0 "[47, 97, 47, 97]" "\<lambda>i. 0"] sample_tree(1) c h by (simp add: ROOTINO_def NINODE_def)
  then show ?thesis unfolding w by (auto simp: walked_def)
qed

end
