(* ===== verification/Kbd.thy ===== *)
theory Kbd
  imports Console
begin

text \<open>
  The keyboard: \<open>kbd.c\<close> and the tables of \<open>kbd.h\<close>. The controller delivers scan codes; \<open>kbdgetc\<close> keeps the state
  of the modifier keys and turns a code into a character, or 0. Lemmas: every text that the keyboard has keys for
  is delivered when it is typed, with the shift key where it is needed.
\<close>

section \<open>kbd.h\<close>

definition KBS_DIB :: u32 where "KBS_DIB = 0x01"
definition SHIFT :: u32 where "SHIFT = 1"
definition CTL :: u32 where "CTL = 2"
definition ALT :: u32 where "ALT = 4"
definition CAPSLOCK :: u32 where "CAPSLOCK = 8"
definition NUMLOCK :: u32 where "NUMLOCK = 16"
definition SCROLLLOCK :: u32 where "SCROLLLOCK = 32"
definition E0ESC :: u32 where "E0ESC = 64"

text \<open>A table of 256 characters: the first ones in a row, some at given places, the others 0.\<close>

definition table :: "u8 list \<Rightarrow> (nat \<times> u8) list \<Rightarrow> nat \<Rightarrow> u8" where
  "table xs es i = (case map_of es i of Some v \<Rightarrow> v | None \<Rightarrow> if i < length xs then xs ! i else 0)"

definition shiftcode :: "nat \<Rightarrow> u32" where
  "shiftcode i = (case map_of [(0x1D, CTL), (0x2A, SHIFT), (0x36, SHIFT), (0x38, ALT), (0x9D, CTL), (0xB8, ALT)] i of
     Some v \<Rightarrow> v | None \<Rightarrow> 0)"

definition togglecode :: "nat \<Rightarrow> u32" where
  "togglecode i = (case map_of [(0x3A, CAPSLOCK), (0x45, NUMLOCK), (0x46, SCROLLLOCK)] i of Some v \<Rightarrow> v | None \<Rightarrow> 0)"

definition special :: "u8 \<Rightarrow> u8 \<Rightarrow> (nat \<times> u8) list" where
  "special enter slash =
     [(0x9C, enter), (0xB5, slash), (0xC8, 0xE2), (0xD0, 0xE3), (0xC9, 0xE6), (0xD1, 0xE7), (0xCB, 0xE4), (0xCD, 0xE5),
      (0x97, 0xE0), (0xCF, 0xE1), (0xD2, 0xE8), (0xD3, 0xE9)]"

definition normal_keys :: "u8 list" where
  "normal_keys =
    [0, 27, 49, 50, 51, 52, 53, 54, 55, 56, 57, 48, 45, 61, 8, 9,
     113, 119, 101, 114, 116, 121, 117, 105, 111, 112, 91, 93, 10, 0, 97, 115,
     100, 102, 103, 104, 106, 107, 108, 59, 39, 96, 0, 92, 122, 120, 99, 118,
     98, 110, 109, 44, 46, 47, 0, 42, 0, 32, 0, 0, 0, 0, 0, 0,
     0, 0, 0, 0, 0, 0, 0, 55, 56, 57, 45, 52, 53, 54, 43, 49,
     50, 51, 48, 46, 0, 0, 0, 0]"

definition shift_keys :: "u8 list" where
  "shift_keys =
    [0, 27, 33, 64, 35, 36, 37, 94, 38, 42, 40, 41, 95, 43, 8, 9,
     81, 87, 69, 82, 84, 89, 85, 73, 79, 80, 123, 125, 10, 0, 65, 83,
     68, 70, 71, 72, 74, 75, 76, 58, 34, 126, 0, 124, 90, 88, 67, 86,
     66, 78, 77, 60, 62, 63, 0, 42, 0, 32, 0, 0, 0, 0, 0, 0,
     0, 0, 0, 0, 0, 0, 0, 55, 56, 57, 45, 52, 53, 54, 43, 49,
     50, 51, 48, 46, 0, 0, 0, 0]"

definition ctl_keys :: "u8 list" where
  "ctl_keys =
    [0, 0, 0, 0, 0, 0, 0, 0, 0, 0, 0, 0, 0, 0, 0, 0,
     17, 23, 5, 18, 20, 25, 21, 9, 15, 16, 0, 0, 13, 0, 1, 19,
     4, 6, 7, 8, 10, 11, 12, 0, 0, 0, 0, 28, 26, 24, 3, 22,
     2, 14, 13, 0, 0, 239, 0, 0]"

definition normalmap :: "nat \<Rightarrow> u8" where "normalmap = table normal_keys (special 10 47)"
definition shiftmap :: "nat \<Rightarrow> u8" where "shiftmap = table shift_keys (special 10 47)"
definition ctlmap :: "nat \<Rightarrow> u8" where "ctlmap = table ctl_keys (special 13 0xEF)"

section \<open>kbd.c\<close>

definition charcode :: "u32 \<Rightarrow> nat \<Rightarrow> u8" where
  "charcode i = (if i = 0 then normalmap else if i = 1 then shiftmap else ctlmap)"

text \<open>
  \<open>st\<close> and \<open>code\<close> are what the status and the data port deliver; the state is \<open>shift\<close>. The result is the
  character, 0 for none, or -1 when the controller has no data.
\<close>

definition kbdgetc :: "u8 \<Rightarrow> u8 \<Rightarrow> u32 \<Rightarrow> int \<times> u32" where
  "kbdgetc st code shift =
     (if ucast st AND KBS_DIB = 0 then (- 1, shift)
      else if code = 0xE0 then (0, shift OR E0ESC)
      else if code AND 0x80 \<noteq> 0
      then
        let d = (if shift AND E0ESC \<noteq> 0 then unat code else unat (code AND 0x7F))
        in (0, shift AND NOT (shiftcode d OR E0ESC))
      else
        let d = (if shift AND E0ESC \<noteq> 0 then unat (code OR 0x80) else unat code);
            shift = (if shift AND E0ESC \<noteq> 0 then shift AND NOT E0ESC else shift);
            shift = (shift OR shiftcode d) XOR togglecode d;
            c = charcode (shift AND (CTL OR SHIFT)) d;
            c = (if shift AND CAPSLOCK = 0 then c
                 else if 97 \<le> c \<and> c \<le> 122 then c - 32
                 else if 65 \<le> c \<and> c \<le> 90 then c + 32 else c)
        in (uint c, shift))"

text \<open>The codes that the controller delivers until it has none; \<open>kbdintr\<close> hands the characters to the console.\<close>

fun kbd_drain :: "u8 list \<Rightarrow> u32 \<Rightarrow> int list \<times> u32" where
  "kbd_drain [] shift = ([], shift)"
| "kbd_drain (code # codes) shift =
     (let (c, shift) = kbdgetc 1 code shift; (cs, shift) = kbd_drain codes shift in (c # cs, shift))"

definition kbdintr :: "u8 list \<Rightarrow> u32 \<Rightarrow> 'a cons_scheme \<Rightarrow> (bool \<times> u32 \<times> 'a cons_scheme) res" where
  "kbdintr codes shift s =
     (let (cs, shift) = kbd_drain codes shift in bindr (consoleintr cs s) (\<lambda>(dump, s). Ok (dump, shift, s)))"

section \<open>Keys\<close>

text \<open>The codes sent for a character: press and release, of the shift key around it where it is needed.\<close>

definition plain_key :: "u8 \<Rightarrow> nat option" where
  "plain_key c = List.find (\<lambda>k. normal_keys ! k = c) [0..<length normal_keys]"

definition shift_key :: "u8 \<Rightarrow> nat option" where
  "shift_key c = List.find (\<lambda>k. shift_keys ! k = c) [0..<length shift_keys]"

definition press :: "nat \<Rightarrow> u8 list" where
  "press k = [of_nat k, of_nat k OR 0x80]"

definition strokes :: "u8 \<Rightarrow> u8 list" where
  "strokes c =
     (case plain_key c of
        Some k \<Rightarrow> press k
      | None \<Rightarrow> (case shift_key c of Some k \<Rightarrow> [0x2A] @ press k @ [0xAA] | None \<Rightarrow> []))"

definition typeable :: "u8 \<Rightarrow> bool" where
  "typeable c \<longleftrightarrow> c \<noteq> 0 \<and> (plain_key c \<noteq> None \<or> shift_key c \<noteq> None)"

lemma kbd_drain_append:
  "kbd_drain (xs @ ys) sh = (fst (kbd_drain xs sh) @ fst (kbd_drain ys (snd (kbd_drain xs sh))), snd (kbd_drain ys (snd (kbd_drain xs sh))))"
  by (induction xs arbitrary: sh) (simp_all add: split_beta Let_def)

lemma lengths: "length normal_keys = 88" "length shift_keys = 88"
  by (simp_all add: normal_keys_def shift_keys_def)

text \<open>A key with a character, pressed and released, without and with the shift key: all keys are tried.\<close>

lemma press_plain: "k < 88 \<Longrightarrow> normal_keys ! k \<noteq> 0 \<Longrightarrow> kbd_drain (press k) 0 = ([uint (normal_keys ! k), 0], 0)"
proof -
  have "list_all (\<lambda>k. normal_keys ! k \<noteq> 0 \<longrightarrow> kbd_drain (press k) 0 = ([uint (normal_keys ! k), 0], 0)) [0..<88]"
    by code_simp
  then show "k < 88 \<Longrightarrow> normal_keys ! k \<noteq> 0 \<Longrightarrow> kbd_drain (press k) 0 = ([uint (normal_keys ! k), 0], 0)"
    by (simp add: list_all_iff)
qed

lemma press_shift:
  "k < 88 \<Longrightarrow> shift_keys ! k \<noteq> 0 \<Longrightarrow> kbd_drain ([0x2A] @ press k @ [0xAA]) 0 = ([0, uint (shift_keys ! k), 0, 0], 0)"
proof -
  have "list_all (\<lambda>k. shift_keys ! k \<noteq> 0 \<longrightarrow> kbd_drain ([0x2A] @ press k @ [0xAA]) 0 = ([0, uint (shift_keys ! k), 0, 0], 0)) [0..<88]"
    by code_simp
  then show "k < 88 \<Longrightarrow> shift_keys ! k \<noteq> 0 \<Longrightarrow> kbd_drain ([0x2A] @ press k @ [0xAA]) 0 = ([0, uint (shift_keys ! k), 0, 0], 0)"
    by (simp add: list_all_iff)
qed

lemma strokes_drain:
  assumes "typeable c"
  shows "filter (\<lambda>x. x \<noteq> 0) (fst (kbd_drain (strokes c) 0)) = [uint c]" "snd (kbd_drain (strokes c) 0) = 0"
proof -
  have c: "c \<noteq> 0" "uint c \<noteq> 0" using assms by (simp_all add: typeable_def uint_0_iff)
  have "filter (\<lambda>x. x \<noteq> 0) (fst (kbd_drain (strokes c) 0)) = [uint c] \<and> snd (kbd_drain (strokes c) 0) = 0"
  proof (cases "plain_key c")
    case (Some k)
    then have "k < 88" "normal_keys ! k = c" by (auto simp: plain_key_def find_Some_iff lengths)
    then show ?thesis using press_plain [of k] Some c by (simp add: strokes_def)
  next
    case None
    then obtain k where k: "shift_key c = Some k" using assms by (auto simp: typeable_def)
    then have "k < 88" "shift_keys ! k = c" by (auto simp: shift_key_def find_Some_iff lengths)
    then show ?thesis using press_shift [of k] None k c by (simp add: strokes_def)
  qed
  then show "filter (\<lambda>x. x \<noteq> 0) (fst (kbd_drain (strokes c) 0)) = [uint c]" "snd (kbd_drain (strokes c) 0) = 0" by simp_all
qed

lemma strokes_drain_text:
  assumes "\<forall>c\<in>set cs. typeable c"
  shows "filter (\<lambda>x. x \<noteq> 0) (fst (kbd_drain (concat (map strokes cs)) 0)) = map uint cs" "snd (kbd_drain (concat (map strokes cs)) 0) = 0"
  using assms
proof (induction cs)
  case (Cons c cs)
  { case 1 then show ?case using Cons.IH strokes_drain [of c] by (simp add: kbd_drain_append) }
  { case 2 then show ?case using Cons.IH strokes_drain [of c] by (simp add: kbd_drain_append) }
qed simp_all

text \<open>The console ignores the zeros.\<close>

lemma bindr_Ok_right: "bindr x Ok = x"
  by (cases x) simp_all

lemma consoleintr_zeros: "consoleintr cs s = consoleintr (filter (\<lambda>c. c \<noteq> 0) cs) s"
  by (induction cs arbitrary: s) (simp_all add: consoleintr_char_def cons_store_def bindr_Ok_right)

section \<open>Properties\<close>

text \<open>
  C28: What is typed arrives. For every text of characters that have a key, alone or with shift, the interrupt that
  drains the scan codes of typing it does to the console exactly what its characters do, and leaves no
  modifier set.
\<close>

theorem typing_arrives:
  assumes "\<forall>c\<in>set cs. typeable c"
  shows "kbdintr (concat (map strokes cs)) 0 s = bindr (consoleintr (map uint cs) s) (\<lambda>(dump, s). Ok (dump, 0, s))"
  using strokes_drain_text [OF assms] consoleintr_zeros [of "fst (kbd_drain (concat (map strokes cs)) 0)" s]
  by (simp add: kbdintr_def split_beta)

text \<open>\<open>Hi!\<close> and a newline\<close>

theorem typing_arrives_witness:
  "concat (map strokes [72, 105, 33, 10]) = [0x2A, 0x23, 0xA3, 0xAA, 0x17, 0x97, 0x2A, 0x02, 0x82, 0xAA, 0x1C, 0x9C]
   \<and> kbdintr (concat (map strokes [72, 105, 33, 10])) 0 cons0 = bindr (consoleintr [72, 105, 33, 10] cons0) (\<lambda>(dump, s). Ok (dump, 0, s))"
proof
  show "concat (map strokes [72, 105, 33, 10]) = [0x2A, 0x23, 0xA3, 0xAA, 0x17, 0x97, 0x2A, 0x02, 0x82, 0xAA, 0x1C, 0x9C]"
    by code_simp
  have "list_all typeable [72, 105, 33, 10]" by code_simp
  then have "\<forall>c\<in>set [72, 105, 33, 10]. typeable c" by (simp add: list_all_iff)
  from typing_arrives [OF this, of cons0]
  show "kbdintr (concat (map strokes [72, 105, 33, 10])) 0 cons0 = bindr (consoleintr [72, 105, 33, 10] cons0) (\<lambda>(dump, s). Ok (dump, 0, s))"
    by simp
qed

end
