(* ===== verification/Boot.thy ===== *)
theory Boot
  imports CString Exec
begin

text \<open>
  The boot loader \<open>bootmain.c\<close>: it reads the kernel's ELF image from the disk, sector by sector, and copies its
  segments to where they run. Memory is a function from 32-bit addresses to bytes; the drive is a
  parameter, the bytes of the sector that the port bytes select. The wait for the drive is left out.
  Lemmas: every segment is in memory as the image has it, zero-filled to its size.
\<close>

section \<open>The drive\<close>

definition SECTSIZE :: u32 where "SECTSIZE = 512"

text \<open>The bytes that \<open>readsect\<close> puts in the ports 0x1F3 to 0x1F6.\<close>

definition lba_ports :: "u32 \<Rightarrow> u8 list" where
  "lba_ports off = [ucast off, ucast (drop_bit 8 off), ucast (drop_bit 16 off), ucast (drop_bit 24 off) OR 0xE0]"

text \<open>\<open>insl\<close> stores \<open>n\<close> bytes from the data port.\<close>

definition insl :: "(nat \<Rightarrow> u8) \<Rightarrow> u32 \<Rightarrow> nat \<Rightarrow> memory \<Rightarrow> memory" where
  "insl src dst n m = (\<lambda>a. if unat (a - dst) < n then src (unat (a - dst)) else m a)"

definition readsect :: "(u8 list \<Rightarrow> nat \<Rightarrow> u8) \<Rightarrow> u32 \<Rightarrow> u32 \<Rightarrow> memory \<Rightarrow> memory" where
  "readsect drive dst off m = insl (drive (lba_ports off)) dst (4 * unat (SECTSIZE div 4)) m"

text \<open>The loop ends unless the pointer wraps around below \<open>epa\<close>.\<close>

partial_function (option) readseg_loop ::
    "(u8 list \<Rightarrow> nat \<Rightarrow> u8) \<Rightarrow> u32 \<Rightarrow> u32 \<Rightarrow> u32 \<Rightarrow> memory \<Rightarrow> memory option" where
  "readseg_loop drive pa epa off m =
     (if pa < epa then readseg_loop drive (pa + SECTSIZE) epa (off + 1) (readsect drive pa off m) else Some m)"

definition readseg :: "(u8 list \<Rightarrow> nat \<Rightarrow> u8) \<Rightarrow> u32 \<Rightarrow> u32 \<Rightarrow> u32 \<Rightarrow> memory \<Rightarrow> memory option" where
  "readseg drive pa count off m =
     readseg_loop drive (pa - off mod SECTSIZE) (pa + count) (off div SECTSIZE + 1) m"

section \<open>bootmain\<close>

definition SIZEOF_PROGHDR :: u32 where "SIZEOF_PROGHDR = 32"

definition load_segment :: "(u8 list \<Rightarrow> nat \<Rightarrow> u8) \<Rightarrow> u32 \<Rightarrow> memory \<Rightarrow> memory option" where
  "load_segment drive ph m =
     (let pa = rd32 m (ph + 12) in
      case readseg drive pa (rd32 m (ph + 16)) (rd32 m (ph + 4)) m of
        None \<Rightarrow> None
      | Some m \<Rightarrow>
          Some (if rd32 m (ph + 20) > rd32 m (ph + 16)
                then stosb m (pa + rd32 m (ph + 16)) 0 (unat (rd32 m (ph + 20) - rd32 m (ph + 16))) else m))"

partial_function (option) load_loop :: "(u8 list \<Rightarrow> nat \<Rightarrow> u8) \<Rightarrow> u32 \<Rightarrow> u32 \<Rightarrow> memory \<Rightarrow> memory option" where
  "load_loop drive ph eph m =
     (if ph < eph then (case load_segment drive ph m of None \<Rightarrow> None | Some m \<Rightarrow> load_loop drive (ph + SIZEOF_PROGHDR) eph m)
      else Some m)"

text \<open>The result is the entry point that is called, or nothing if the image is no ELF file, and the memory.\<close>

definition bootmain :: "(u8 list \<Rightarrow> nat \<Rightarrow> u8) \<Rightarrow> memory \<Rightarrow> (u32 option \<times> memory) option" where
  "bootmain drive m =
     (let elf = 0x10000 in
      case readseg drive elf 4096 0 m of
        None \<Rightarrow> None
      | Some m \<Rightarrow>
          if rd32 m elf \<noteq> ELF_MAGIC then Some (None, m)
          else
            let ph = elf + rd32 m (elf + 28);
                eph = ph + SIZEOF_PROGHDR * ucast (rd16 m (elf + 44))
            in (case load_loop drive ph eph m of None \<Rightarrow> None | Some m \<Rightarrow> Some (Some (rd32 m (elf + 24)), m)))"

section \<open>Reading a segment\<close>

text \<open>Byte \<open>x\<close> of the image, which starts at sector 1.\<close>

definition image :: "(u8 list \<Rightarrow> nat \<Rightarrow> u8) \<Rightarrow> nat \<Rightarrow> u8" where
  "image drive x = drive (lba_ports (of_nat (x div 512 + 1))) (x mod 512)"

lemma eq_of_nat_u32: "unat (x :: u32) = n \<Longrightarrow> x = of_nat n"
  by auto

lemma unat_add_u32: "unat (x :: u32) + n < 2 ^ 32 \<Longrightarrow> unat (x + of_nat n) = unat x + n"
proof -
  assume "unat x + n < 2 ^ 32"
  then have "unat (of_nat (unat x + n) :: u32) = unat x + n" by (rule unat_of_nat_u32)
  moreover have "of_nat (unat x + n) = x + of_nat n" by simp
  ultimately show ?thesis by metis
qed

lemma unat_sub_word: "unat (a - of_nat p :: u32) = (if p \<le> unat a then unat a - p else unat a + 2 ^ 32 - p)" if "p < 2 ^ 32"
proof -
  have u: "unat (of_nat p :: u32) = p" using that by (rule unat_of_nat_u32)
  show ?thesis
  proof (cases "p \<le> unat a")
    case True
    then have "of_nat p \<le> a" using u by (simp add: word_le_nat_alt)
    then show ?thesis using True u by (simp add: unat_sub)
  next
    case False
    have "(a - of_nat p) = of_nat (unat a + 2 ^ 32 - p)" 
    proof -
      have "of_nat (unat a + 2 ^ 32 - p) = (of_nat (unat a + 2 ^ 32) - of_nat p :: u32)" using False that by (intro of_nat_diff) simp
      also have "\<dots> = a + 2 ^ 32 - of_nat p" by simp
      also have "(2 ^ 32 :: u32) = 0" by simp
      finally show ?thesis by simp
    qed
    moreover have "unat a + 2 ^ 32 - p < 2 ^ 32" using False by simp
    ultimately show ?thesis using False unat_of_nat_u32 by simp
  qed
qed

lemma insl_at:
  assumes "p + n \<le> 2 ^ 32"  "n < 2 ^ 32" "p < 2 ^ 32"
  shows "insl src (of_nat p) n m a = (if p \<le> unat a \<and> unat a < p + n then src (unat a - p) else m a)"
  using unat_sub_word [OF assms(3), of a] assms(1) unat_u32_less [of a] by (auto simp: insl_def)

lemma readseg_loop_spec:
  assumes "p + 512 * n < 2 ^ 32" "unat epa \<le> p + 512 * n" "0 < n \<Longrightarrow> p + 512 * (n - 1) < unat epa"
  shows "readseg_loop drive (of_nat p) epa (of_nat s) m =
    Some (\<lambda>a. if p \<le> unat a \<and> unat a < p + 512 * n
      then drive (lba_ports (of_nat (s + (unat a - p) div 512))) ((unat a - p) mod 512) else m a)"
  using assms
proof (induction n arbitrary: p s m)
  case 0
  then have "\<not> of_nat p < epa" by (simp add: word_less_nat_alt unat_of_nat_u32)
  then show ?case by (subst readseg_loop.simps) (auto simp: fun_eq_iff)
next
  case (Suc n)
  have u: "unat (of_nat p :: u32) = p" using Suc.prems(1) by (intro unat_of_nat_u32) simp
  have lt: "of_nat p < epa" using Suc.prems(3) u by (simp add: word_less_nat_alt)
  have nx: "of_nat p + SECTSIZE = of_nat (p + 512)" "of_nat s + 1 = (of_nat (Suc s) :: u32)" by (simp_all add: SECTSIZE_def)
  let ?m = "readsect drive (of_nat p) (of_nat s) m"
  have m: "?m = (\<lambda>a. if p \<le> unat a \<and> unat a < p + 512 then drive (lba_ports (of_nat s)) (unat a - p) else m a)"
    unfolding readsect_def by (rule ext, subst insl_at) (use Suc.prems(1) in \<open>simp_all add: SECTSIZE_def\<close>)
  have "readseg_loop drive (of_nat (p + 512)) epa (of_nat (Suc s)) ?m =
    Some (\<lambda>a. if p + 512 \<le> unat a \<and> unat a < p + 512 + 512 * n
      then drive (lba_ports (of_nat (Suc s + (unat a - (p + 512)) div 512))) ((unat a - (p + 512)) mod 512) else ?m a)"
    by (rule Suc.IH) (use Suc.prems in \<open>cases n; simp\<close>)+
  moreover have "(if p + 512 \<le> unat a \<and> unat a < p + 512 + 512 * n
      then drive (lba_ports (of_nat (Suc s + (unat a - (p + 512)) div 512))) ((unat a - (p + 512)) mod 512) else ?m a)
    = (if p \<le> unat a \<and> unat a < p + 512 * Suc n
      then drive (lba_ports (of_nat (s + (unat a - p) div 512))) ((unat a - p) mod 512) else m a)" for a :: u32
  proof (cases "p + 512 \<le> unat a")
    case True
    then obtain d where d: "unat a = p + 512 + d" using le_Suc_ex by blast
    then have "unat a - p = 512 + d" "unat a - (p + 512) = d" by simp_all
    moreover have "(512 + d) div 512 = Suc (d div 512)" "(512 + d) mod 512 = d mod 512" by simp_all
    ultimately show ?thesis using d m by simp
  next
    case False
    then show ?thesis using m by (auto simp: not_le)
  qed
  moreover have "readseg_loop drive (of_nat p) epa (of_nat s) m = readseg_loop drive (of_nat (p + 512)) epa (of_nat (Suc s)) ?m"
    unfolding nx [symmetric] by (subst readseg_loop.simps) (simp only: lt if_True)
  ultimately show ?case by (simp only:)
qed

text \<open>Where a segment comes from and the sectors it takes, from the fields of its header as numbers.\<close>

definition sector_start :: "nat \<Rightarrow> nat \<Rightarrow> nat" where
  "sector_start pa off = pa - off mod 512"

definition sector_end :: "nat \<Rightarrow> nat \<Rightarrow> nat \<Rightarrow> nat" where
  "sector_end pa off n = sector_start pa off + 512 * ((off mod 512 + n + 511) div 512)"

lemma readseg_spec:
  assumes "unat off mod 512 \<le> unat pa" "unat pa + unat n + 512 < 2 ^ 32"
  shows "readseg drive pa n off m =
    Some (\<lambda>a. if sector_start (unat pa) (unat off) \<le> unat a \<and> unat a < sector_end (unat pa) (unat off) (unat n)
      then image drive (unat off - unat off mod 512 + (unat a - sector_start (unat pa) (unat off))) else m a)"
proof -
  let ?p = "sector_start (unat pa) (unat off)" and ?k = "(unat off mod 512 + unat n + 511) div 512"
  have p: "?p + unat off mod 512 = unat pa" using assms(1) by (simp add: sector_start_def)
  have "unat (pa - off mod SECTSIZE) = ?p"
    using assms(1) by (subst unat_sub) (simp_all add: SECTSIZE_def word_le_nat_alt unat_mod sector_start_def)
  then have pw: "pa - off mod SECTSIZE = of_nat ?p" by (rule eq_of_nat_u32)
  have "unat (off div SECTSIZE) = unat off div 512" by (simp add: unat_div_distrib SECTSIZE_def)
  then have "off div SECTSIZE = of_nat (unat off div 512)" by (rule eq_of_nat_u32)
  then have sw: "off div SECTSIZE + 1 = of_nat (unat off div 512 + 1)" by simp
  have e: "unat (pa + n) = unat pa + unat n" using assms(2) unat_add_u32 [of pa "unat n"] by simp
  have k: "unat off mod 512 + unat n \<le> 512 * ?k" "512 * ?k \<le> unat off mod 512 + unat n + 511"
    "0 < ?k \<Longrightarrow> 512 * (?k - 1) < unat off mod 512 + unat n" by linarith+
  have "readseg_loop drive (of_nat ?p) (pa + n) (of_nat (unat off div 512 + 1)) m =
    Some (\<lambda>a. if ?p \<le> unat a \<and> unat a < ?p + 512 * ?k
      then drive (lba_ports (of_nat (unat off div 512 + 1 + (unat a - ?p) div 512))) ((unat a - ?p) mod 512) else m a)"
    by (rule readseg_loop_spec) (use p k e assms(2) in linarith)+
  moreover have "drive (lba_ports (of_nat (unat off div 512 + 1 + d div 512))) (d mod 512) = image drive (unat off - unat off mod 512 + d)" for d
  proof -
    have "unat off - unat off mod 512 = 512 * (unat off div 512)" by (simp add: minus_mod_eq_mult_div)
    then have "(unat off - unat off mod 512 + d) div 512 = unat off div 512 + d div 512" "(unat off - unat off mod 512 + d) mod 512 = d mod 512"
      by simp_all
    then show ?thesis by (simp add: image_def add.commute)
  qed
  ultimately show ?thesis unfolding readseg_def pw sw sector_end_def by (simp only:)
qed

section \<open>Loading the segments\<close>

text \<open>The fields of header \<open>k\<close> of the table at \<open>ph\<close>, and the memory that loading the segment may change.\<close>

definition seg_off :: "memory \<Rightarrow> u32 \<Rightarrow> nat \<Rightarrow> nat" where "seg_off m ph k = unat (rd32 m (ph + of_nat (32 * k) + 4))"
definition seg_pa :: "memory \<Rightarrow> u32 \<Rightarrow> nat \<Rightarrow> nat" where "seg_pa m ph k = unat (rd32 m (ph + of_nat (32 * k) + 12))"
definition seg_filesz :: "memory \<Rightarrow> u32 \<Rightarrow> nat \<Rightarrow> nat" where "seg_filesz m ph k = unat (rd32 m (ph + of_nat (32 * k) + 16))"
definition seg_memsz :: "memory \<Rightarrow> u32 \<Rightarrow> nat \<Rightarrow> nat" where "seg_memsz m ph k = unat (rd32 m (ph + of_nat (32 * k) + 20))"

definition footprint :: "memory \<Rightarrow> u32 \<Rightarrow> nat \<Rightarrow> nat set" where
  "footprint m ph k = {sector_start (seg_pa m ph k) (seg_off m ph k)..<sector_end (seg_pa m ph k) (seg_off m ph k) (seg_filesz m ph k)}
     \<union> {seg_pa m ph k..<seg_pa m ph k + seg_memsz m ph k}"

definition header_page :: "nat set" where "header_page = {0x10000..<0x11000}"

text \<open>
  The table lies in the page that was read first; segments are aligned with their place in the image, leave that page
  alone and do not run into one that is already loaded.
\<close>

definition boot_ok :: "memory \<Rightarrow> u32 \<Rightarrow> nat \<Rightarrow> bool" where
  "boot_ok m ph n \<longleftrightarrow> 0x10000 \<le> unat ph \<and> unat ph + 32 * n \<le> 0x11000
     \<and> (\<forall>k<n. seg_off m ph k mod 512 \<le> seg_pa m ph k \<and> seg_filesz m ph k \<le> seg_memsz m ph k
          \<and> seg_pa m ph k + seg_memsz m ph k + 512 < 2 ^ 32 \<and> footprint m ph k \<inter> header_page = {}
          \<and> (\<forall>j<k. footprint m ph k \<inter> {seg_pa m ph j..<seg_pa m ph j + seg_memsz m ph j} = {}))"

definition loaded :: "(u8 list \<Rightarrow> nat \<Rightarrow> u8) \<Rightarrow> memory \<Rightarrow> u32 \<Rightarrow> nat \<Rightarrow> memory \<Rightarrow> bool" where
  "loaded drive m ph k m' \<longleftrightarrow> (\<forall>i < seg_memsz m ph k. m' (of_nat (seg_pa m ph k + i)) =
     (if i < seg_filesz m ph k then image drive (seg_off m ph k + i) else 0))"

lemma rd32_page:
  fixes p :: u32
  assumes "\<forall>a. unat a \<in> header_page \<longrightarrow> m' a = m a" "0x10000 \<le> unat p" "unat p + 4 \<le> 0x11000"
  shows "rd32 m' p = rd32 m p"
proof -
  have "unat (p + of_nat i) \<in> header_page" if "i < 4" for i
  proof -
    have "unat (p + of_nat i) = unat p + i" by (rule unat_add_u32) (use that assms(2,3) in simp)
    then show ?thesis using that assms(2,3) by (simp add: header_page_def)
  qed
  from this [of 0] this [of 1] this [of 2] this [of 3] show ?thesis using assms(1) by (simp add: rd32_def)
qed

lemma stosb_at:
  assumes "p + n \<le> 2 ^ 32" "n < 2 ^ 32" "p < 2 ^ 32"
  shows "stosb m (of_nat p) 0 n a = (if p \<le> unat a \<and> unat a < p + n then 0 else m a)"
  using unat_sub_word [OF assms(3), of a] assms(1) unat_u32_less [of a] by (auto simp: stosb_filled [OF assms(2)] filled_def)

lemma load_segment_spec:
  assumes ok: "boot_ok m1 ph n" "k < n" and page: "\<forall>a. unat a \<in> header_page \<longrightarrow> m a = m1 a"
  obtains m' where "load_segment drive (ph + of_nat (32 * k)) m = Some m'" "loaded drive m1 ph k m'"
    "\<forall>a. unat a \<notin> footprint m1 ph k \<longrightarrow> m' a = m a"
proof -
  let ?h = "ph + of_nat (32 * k)"
  have b: "0x10000 \<le> unat ph" "unat ph + 32 * n \<le> 0x11000" "seg_off m1 ph k mod 512 \<le> seg_pa m1 ph k"
    "seg_filesz m1 ph k \<le> seg_memsz m1 ph k" "seg_pa m1 ph k + seg_memsz m1 ph k + 512 < 2 ^ 32" "footprint m1 ph k \<inter> header_page = {}"
    using ok by (simp_all add: boot_ok_def)
  have h: "unat (?h + of_nat c) = unat ph + 32 * k + c" "0x10000 \<le> unat (?h + of_nat c)" "unat (?h + of_nat c) + 4 \<le> 0x11000" if "c \<le> 28" for c
  proof -
    have "unat ph + 32 * k + c < 2 ^ 32" using b(2) ok(2) that by simp
    then show "unat (?h + of_nat c) = unat ph + 32 * k + c"
      using unat_add_u32 [of ph "32 * k"] unat_add_u32 [of ?h c] by simp
    then show "0x10000 \<le> unat (?h + of_nat c)" "unat (?h + of_nat c) + 4 \<le> 0x11000" using b(1,2) ok(2) that by simp_all
  qed
  have rd: "rd32 m (?h + of_nat c) = rd32 m1 (?h + of_nat c)" if "c \<le> 28" for c by (rule rd32_page [OF page h(2,3) [OF that]])
  define pa where "pa = rd32 m1 (?h + 12)"
  define off where "off = rd32 m1 (?h + 4)"
  define fsz where "fsz = rd32 m1 (?h + 16)"
  define msz where "msz = rd32 m1 (?h + 20)"
  have f: "rd32 m (?h + 12) = pa" "rd32 m (?h + 4) = off" "rd32 m (?h + 16) = fsz"
    using rd [of 12] rd [of 4] rd [of 16] by (simp_all add: pa_def off_def fsz_def)
  have sg: "seg_pa m1 ph k = unat pa" "seg_off m1 ph k = unat off" "seg_filesz m1 ph k = unat fsz" "seg_memsz m1 ph k = unat msz"
    by (simp_all add: pa_def off_def fsz_def msz_def seg_pa_def seg_off_def seg_filesz_def seg_memsz_def)
  note b = b(3-6) [unfolded sg footprint_def]
  let ?s = "sector_start (unat pa) (unat off)" and ?e = "sector_end (unat pa) (unat off) (unat fsz)"
  let ?u = "\<lambda>a. if ?s \<le> unat a \<and> unat a < ?e then image drive (unat off - unat off mod 512 + (unat a - ?s)) else m a"
  have r: "readseg drive pa fsz off m = Some ?u" by (rule readseg_spec) (use b in simp_all)
  have "\<forall>a. unat a \<in> header_page \<longrightarrow> ?u a = m1 a" using b(4) page by auto
  then have ru: "rd32 ?u (?h + of_nat c) = rd32 m1 (?h + of_nat c)" if "c \<le> 28" for c by (rule rd32_page [OF _ h(2,3) [OF that]])
  have fu: "rd32 ?u (?h + 16) = fsz" "rd32 ?u (?h + 20) = msz" using ru [of 16] ru [of 20] by (simp_all add: fsz_def msz_def)
  define m' where "m' = (if msz > fsz then stosb ?u (pa + fsz) 0 (unat (msz - fsz)) else ?u)"
  have run: "load_segment drive ?h m = Some m'"
    unfolding load_segment_def Let_def f r option.case fu m'_def ..
  have le: "fsz \<le> msz" using b(2) by (simp add: word_le_nat_alt)
  have m': "m' a = (if unat pa + unat fsz \<le> unat a \<and> unat a < unat pa + unat msz then 0 else ?u a)" for a
  proof (cases "msz > fsz")
    case True
    have d: "unat (msz - fsz) = unat msz - unat fsz" "pa + fsz = of_nat (unat pa + unat fsz)" using le by (simp_all add: unat_sub)
    have "stosb ?u (of_nat (unat pa + unat fsz)) 0 (unat msz - unat fsz) a =
      (if unat pa + unat fsz \<le> unat a \<and> unat a < unat pa + unat fsz + (unat msz - unat fsz) then 0 else ?u a)"
      by (rule stosb_at) (use b(2,3) in simp_all)
    then show ?thesis using True b(2) unfolding m'_def d by simp
  next
    case False
    then show ?thesis using le unfolding m'_def by auto
  qed
  have s: "?s + unat off mod 512 = unat pa" using b(1) by (simp add: sector_start_def)
  have e: "unat pa + unat fsz \<le> ?e" using s unfolding sector_end_def by linarith
  have "loaded drive m1 ph k m'"
    unfolding loaded_def sg
  proof (intro allI impI)
    fix i
    assume i: "i < unat msz"
    have u: "unat (of_nat (unat pa + i) :: u32) = unat pa + i" by (rule unat_of_nat_u32) (use i b(3) in simp)
    have "unat off - unat off mod 512 + (unat pa + i - ?s) = unat off + i" using s mod_less_eq_dividend [of "unat off" 512] by linarith
    then show "m' (of_nat (unat pa + i)) = (if i < unat fsz then image drive (unat off + i) else 0)"
      using i s e unfolding m' u by auto
  qed
  moreover have "\<forall>a. unat a \<notin> footprint m1 ph k \<longrightarrow> m' a = m a"
    unfolding footprint_def sg m' using b(2) by auto
  ultimately show thesis using that run by blast
qed

lemma load_loop_spec:
  assumes ok: "boot_ok m1 ph n" and "k \<le> n" and "\<forall>a. unat a \<in> header_page \<longrightarrow> m a = m1 a" and "\<forall>j<k. loaded drive m1 ph j m"
  shows "\<exists>m'. load_loop drive (ph + of_nat (32 * k)) (ph + of_nat (32 * n)) m = Some m' \<and> (\<forall>j<n. loaded drive m1 ph j m')
    \<and> (\<forall>a. unat a \<in> header_page \<longrightarrow> m' a = m1 a)"
  using assms(2-4)
proof (induction "n - k" arbitrary: k m)
  case 0
  then show ?case by (subst load_loop.simps) simp
next
  case (Suc d)
  have k: "k < n" using Suc.hyps(2) by simp
  have b: "unat ph + 32 * n \<le> 0x11000" using ok by (simp add: boot_ok_def)
  then have u: "unat (ph + of_nat (32 * i)) = unat ph + 32 * i" if "i \<le> n" for i by (intro unat_add_u32) (use that in simp)
  have lt: "ph + of_nat (32 * k) < ph + of_nat (32 * n)" unfolding word_less_nat_alt using u [of k] u [of n] k by simp
  obtain v where v: "load_segment drive (ph + of_nat (32 * k)) m = Some v" "loaded drive m1 ph k v"
    "\<forall>a. unat a \<notin> footprint m1 ph k \<longrightarrow> v a = m a"
    by (rule load_segment_spec [OF ok k Suc.prems(2)])
  have f: "footprint m1 ph k \<inter> header_page = {}" "\<forall>j<k. footprint m1 ph k \<inter> {seg_pa m1 ph j..<seg_pa m1 ph j + seg_memsz m1 ph j} = {}"
    "\<forall>j<n. seg_pa m1 ph j + seg_memsz m1 ph j + 512 < 2 ^ 32"
    using ok k by (simp_all add: boot_ok_def)
  have page: "\<forall>a. unat a \<in> header_page \<longrightarrow> v a = m1 a" using v(3) f(1) Suc.prems(2) by (metis disjoint_iff)
  have old: "loaded drive m1 ph j v" if j: "j < k" for j
  proof -
    have "v (of_nat (seg_pa m1 ph j + i)) = m (of_nat (seg_pa m1 ph j + i))" if i: "i < seg_memsz m1 ph j" for i
    proof -
      have "seg_pa m1 ph j + i < 2 ^ 32" using f(3) j k i by (meson add_lessD1 add_strict_left_mono less_trans)
      then have "unat (of_nat (seg_pa m1 ph j + i) :: u32) = seg_pa m1 ph j + i" by (rule unat_of_nat_u32)
      moreover have "seg_pa m1 ph j + i \<in> {seg_pa m1 ph j..<seg_pa m1 ph j + seg_memsz m1 ph j}" using i by simp
      ultimately have "unat (of_nat (seg_pa m1 ph j + i) :: u32) \<notin> footprint m1 ph k" using f(2) j by (metis disjoint_iff)
      then show ?thesis using v(3) by blast
    qed
    then show ?thesis using Suc.prems(3) j by (simp add: loaded_def)
  qed
  have "\<forall>j<Suc k. loaded drive m1 ph j v" using old v(2) by (auto simp: less_Suc_eq)
  moreover have "d = n - Suc k" "Suc k \<le> n" using Suc.hyps(2) k by simp_all
  ultimately obtain m' where m': "load_loop drive (ph + of_nat (32 * Suc k)) (ph + of_nat (32 * n)) v = Some m'" "\<forall>j<n. loaded drive m1 ph j m'"
    "\<forall>a. unat a \<in> header_page \<longrightarrow> m' a = m1 a" using Suc.hyps(1) [of "Suc k" v] page by blast
  have "ph + of_nat (32 * k) + SIZEOF_PROGHDR = ph + of_nat (32 * Suc k)" by (simp add: SIZEOF_PROGHDR_def)
  then have "load_loop drive (ph + of_nat (32 * k)) (ph + of_nat (32 * n)) m = Some m'"
    using m'(1) by (subst load_loop.simps) (simp only: lt if_True v(1) option.case)
  then show ?case using m'(2,3) by blast
qed

section \<open>Properties\<close>

text \<open>Memory after the first page of the image has been read.\<close>

definition first_page :: "(u8 list \<Rightarrow> nat \<Rightarrow> u8) \<Rightarrow> memory \<Rightarrow> memory" where
  "first_page drive m = (\<lambda>a. if unat a \<in> header_page then image drive (unat a - 0x10000) else m a)"

lemma read_first_page: "readseg drive 0x10000 4096 0 m = Some (first_page drive m)"
proof -
  have u: "unat (0 :: u32) = 0" "unat (0x10000 :: u32) = 0x10000" "unat (4096 :: u32) = 4096" by simp_all
  have "readseg drive 0x10000 4096 0 m =
    Some (\<lambda>a. if sector_start 0x10000 0 \<le> unat a \<and> unat a < sector_end 0x10000 0 4096
      then image drive (0 - 0 mod 512 + (unat a - sector_start 0x10000 0)) else m a)"
    using readseg_spec [of 0 "0x10000" 4096 drive m] unfolding u by simp
  moreover have "sector_start 0x10000 0 = 0x10000" "sector_end 0x10000 0 4096 = 0x11000"
    by (simp_all add: sector_start_def sector_end_def)
  ultimately show ?thesis by (simp add: first_page_def header_page_def cong: if_cong)
qed

text \<open>
  C23: The boot loader loads the kernel. If the disk holds an ELF image from sector 1 whose program headers lie in its first
  page and whose segments neither overwrite that page nor one loaded before, \<open>bootmain\<close> ends by calling
  the entry point of the image with every segment in place: its bytes are those of the image, from any offset and although
  whole sectors are read, and the rest of its memory is zero.
\<close>

theorem boot_loads_kernel:
  assumes "m1 = first_page drive m" and "rd32 m1 0x10000 = ELF_MAGIC"
    and "ph = 0x10000 + rd32 m1 (0x10000 + 28)" and "n = unat (rd16 m1 (0x10000 + 44))" and "boot_ok m1 ph n"
  shows "\<exists>m'. bootmain drive m = Some (Some (rd32 m1 (0x10000 + 24)), m')
    \<and> (\<forall>k<n. \<forall>i < seg_memsz m1 ph k. m' (of_nat (seg_pa m1 ph k + i)) =
          (if i < seg_filesz m1 ph k then image drive (seg_off m1 ph k + i) else 0))"
proof -
  obtain m' where m': "load_loop drive (ph + of_nat (32 * 0)) (ph + of_nat (32 * n)) m1 = Some m'" "\<forall>j<n. loaded drive m1 ph j m'"
    "\<forall>a. unat a \<in> header_page \<longrightarrow> m' a = m1 a"
    using load_loop_spec [OF assms(5), of 0 m1 drive] by blast
  have "rd32 m' (0x10000 + 24) = rd32 m1 (0x10000 + 24)" by (rule rd32_page [OF m'(3)]) simp_all
  moreover have "SIZEOF_PROGHDR * ucast (rd16 m1 (0x10000 + 44)) = of_nat (32 * n)" by (simp add: assms(4) SIZEOF_PROGHDR_def)
  moreover have "readseg drive 0x10000 4096 0 m = Some m1" unfolding assms(1) by (rule read_first_page)
  ultimately have "bootmain drive m = Some (Some (rd32 m1 (0x10000 + 24)), m')"
    using assms(2,3) m'(1) by (simp add: bootmain_def Let_def)
  then show ?thesis using m'(2) by (auto simp: loaded_def)
qed

text \<open>One segment of 600 bytes at 0x100000, from offset 4096 of the image, with 400 zeros behind it.\<close>

definition sample_header :: "nat \<Rightarrow> u8" where
  "sample_header i = (case map_of [(0, 0x7F), (1, 0x45), (2, 0x4C), (3, 0x46), (24, 0x0C), (26, 0x10), (28, 52), (44, 1), (52, 1), (57, 0x10),
     (66, 0x10), (68, 0x58), (69, 2), (72, 0xE8), (73, 3)] i of Some v \<Rightarrow> v | None \<Rightarrow> 0)"

definition sample_drive :: "u8 list \<Rightarrow> nat \<Rightarrow> u8" where
  "sample_drive ports i = (if ports = lba_ports 1 then sample_header i else of_nat i)"

lemma sample_page:
  "0x10000 \<le> unat a \<Longrightarrow> unat a < 0x10200 \<Longrightarrow> first_page sample_drive m a = sample_header (unat a - 0x10000)"
  by (simp add: first_page_def header_page_def image_def sample_drive_def)

lemma sample_words:
  fixes m defines "m1 \<equiv> first_page sample_drive m"
  shows "rd32 m1 0x10000 = ELF_MAGIC" "rd32 m1 0x1001C = 52" "rd16 m1 0x1002C = 1" "rd32 m1 0x10018 = 0x10000C"
    "rd32 m1 0x10038 = 0x1000" "rd32 m1 0x10040 = 0x100000" "rd32 m1 0x10044 = 600" "rd32 m1 0x10048 = 1000"
  by (simp_all add: m1_def rd32_def rd16_def sample_page sample_header_def ELF_MAGIC_def)

lemma sample_ok: "boot_ok (first_page sample_drive m) 0x10034 1"
  by (auto simp: boot_ok_def seg_off_def seg_pa_def seg_filesz_def seg_memsz_def footprint_def header_page_def sample_words
      sector_start_def sector_end_def)

lemma boot_loads_kernel_witness:
  "\<exists>m'. bootmain sample_drive (\<lambda>a. 7) = Some (Some 0x10000C, m')
    \<and> m' 0x100000 = image sample_drive 4096 \<and> m' 0x100257 = image sample_drive 4695 \<and> m' 0x100258 = 0 \<and> m' 0x1003E7 = 0"
proof -
  let ?m1 = "first_page sample_drive (\<lambda>a. 7)"
  have n: "1 = unat (rd16 ?m1 (0x10000 + 44))" by (simp add: sample_words)
  have "\<exists>m'. bootmain sample_drive (\<lambda>a. 7) = Some (Some (rd32 ?m1 (0x10000 + 24)), m')
    \<and> (\<forall>k<1. \<forall>i < seg_memsz ?m1 0x10034 k. m' (of_nat (seg_pa ?m1 0x10034 k + i)) =
          (if i < seg_filesz ?m1 0x10034 k then image sample_drive (seg_off ?m1 0x10034 k + i) else 0))"
    by (rule boot_loads_kernel [OF refl _ _ n sample_ok]) (simp_all add: sample_words)
  then obtain m' where m': "bootmain sample_drive (\<lambda>a. 7) = Some (Some 0x10000C, m')"
    "\<forall>i < 1000. m' (of_nat (0x100000 + i)) = (if i < 600 then image sample_drive (4096 + i) else 0)"
    by (auto simp: sample_words seg_memsz_def seg_pa_def seg_filesz_def seg_off_def)
  show ?thesis using m'(1) m'(2) [rule_format, of 0] m'(2) [rule_format, of 599] m'(2) [rule_format, of 600] m'(2) [rule_format, of 999]
    by simp
qed

end
