(* ===== verification/Umalloc.thy ===== *)
theory Umalloc
  imports Ring CString Kalloc
begin

text \<open>
  The storage allocator of user programs, \<open>umalloc.c\<close>. The heap is the process's memory with the allocator's
  two static variables: \<open>freep\<close>, and the header \<open>base\<close> at a fixed address below the heap. A header is
  two words in memory: the next block of the circular free list and the size in units of eight bytes.
  \<open>sbrk\<close> is the system call as the program sees it; whether the kernel has the pages is a parameter.
  Lemmas: the circular list in memory refines an ordered list of free blocks that do not touch; what \<open>free\<close> and
  \<open>malloc\<close> do to it, and that neither writes into a block in use.
\<close>

section \<open>Headers\<close>

record uheap =
  um :: memory
  freep :: u32
  brk :: u32

definition SIZEOF_HEADER :: u32 where "SIZEOF_HEADER = 8"

definition hptr :: "uheap \<Rightarrow> u32 \<Rightarrow> u32" where "hptr h p = rd32 (um h) p"
definition hsize :: "uheap \<Rightarrow> u32 \<Rightarrow> u32" where "hsize h p = rd32 (um h) (p + 4)"
definition set_ptr :: "u32 \<Rightarrow> u32 \<Rightarrow> uheap \<Rightarrow> uheap" where "set_ptr p v h = h\<lparr>um := wr32 (um h) p v\<rparr>"
definition set_size :: "u32 \<Rightarrow> u32 \<Rightarrow> uheap \<Rightarrow> uheap" where "set_size p v h = h\<lparr>um := wr32 (um h) (p + 4) v\<rparr>"

section \<open>free\<close>

text \<open>The loop stops at the block after which \<open>bp\<close> belongs; on a list without such a block it never ends.\<close>

definition between :: "uheap \<Rightarrow> u32 \<Rightarrow> u32 \<Rightarrow> bool" where
  "between h bp p \<longleftrightarrow> bp > p \<and> bp < hptr h p \<or> p \<ge> hptr h p \<and> (bp > p \<or> bp < hptr h p)"

partial_function (option) free_loop :: "uheap \<Rightarrow> u32 \<Rightarrow> u32 \<Rightarrow> u32 option" where
  "free_loop h bp p = (if between h bp p then Some p else free_loop h bp (hptr h p))"

definition join_next :: "u32 \<Rightarrow> u32 \<Rightarrow> uheap \<Rightarrow> uheap" where
  "join_next bp p h =
     (if bp + SIZEOF_HEADER * hsize h bp = hptr h p
      then let h = set_size bp (hsize h bp + hsize h (hptr h p)) h in set_ptr bp (hptr h (hptr h p)) h
      else set_ptr bp (hptr h p) h)"

definition join_prev :: "u32 \<Rightarrow> u32 \<Rightarrow> uheap \<Rightarrow> uheap" where
  "join_prev bp p h =
     (if p + SIZEOF_HEADER * hsize h p = bp
      then let h = set_size p (hsize h p + hsize h bp) h in set_ptr p (hptr h bp) h
      else set_ptr p bp h)"

definition free :: "u32 \<Rightarrow> uheap \<Rightarrow> uheap option" where
  "free ap h =
     (let bp = ap - SIZEOF_HEADER in
      case free_loop h bp (freep h) of
        None \<Rightarrow> None
      | Some p \<Rightarrow> Some ((join_prev bp p (join_next bp p h))\<lparr>freep := p\<rparr>))"

section \<open>malloc\<close>

text \<open>
  \<open>sbrk\<close> as the kernel's \<open>growproc\<close> answers it: the old end of the process, or -1. The process may
  not grow up to \<open>KERNBASE\<close>, nor beyond the memory there is, which \<open>room\<close> decides.
\<close>

definition sbrk :: "(u32 \<Rightarrow> u32 \<Rightarrow> bool) \<Rightarrow> u32 \<Rightarrow> uheap \<Rightarrow> u32 \<times> uheap" where
  "sbrk room n h =
     (if 0 <s n
      then if brk h + n \<ge> KERNBASE \<or> \<not> room (brk h) n then (- 1, h) else (brk h, h\<lparr>brk := brk h + n\<rparr>)
      else if n <s 0
      then if brk h + n = 0 then (- 1, h)
           else (brk h, h\<lparr>brk := (if brk h + n \<ge> brk h then brk h else brk h + n)\<rparr>)
      else (brk h, h))"

definition morecore :: "(u32 \<Rightarrow> u32 \<Rightarrow> bool) \<Rightarrow> u32 \<Rightarrow> uheap \<Rightarrow> (u32 \<times> uheap) option" where
  "morecore room nu h =
     (let nu = (if nu < 4096 then 4096 else nu);
          (hp, h) = sbrk room (nu * SIZEOF_HEADER) h
      in if hp = - 1 then Some (0, h)
         else (case free (hp + SIZEOF_HEADER) (set_size hp nu h) of
                 None \<Rightarrow> None
               | Some h \<Rightarrow> Some (freep h, h)))"

definition carve :: "u32 \<Rightarrow> u32 \<Rightarrow> u32 \<Rightarrow> uheap \<Rightarrow> u32 \<times> uheap" where
  "carve nunits prevp p h =
     (if hsize h p = nunits then (p + SIZEOF_HEADER, (set_ptr prevp (hptr h p) h)\<lparr>freep := prevp\<rparr>)
      else
        let h = set_size p (hsize h p - nunits) h;
            q = p + SIZEOF_HEADER * hsize h p
        in (q + SIZEOF_HEADER, (set_size q nunits h)\<lparr>freep := prevp\<rparr>))"

partial_function (option) malloc_loop ::
    "(u32 \<Rightarrow> u32 \<Rightarrow> bool) \<Rightarrow> u32 \<Rightarrow> u32 \<Rightarrow> u32 \<Rightarrow> uheap \<Rightarrow> (u32 \<times> uheap) option" where
  "malloc_loop room nunits prevp p h =
     (if hsize h p \<ge> nunits then Some (carve nunits prevp p h)
      else if p = freep h
      then (case morecore room nunits h of
              None \<Rightarrow> None
            | Some (p, h) \<Rightarrow> if p = 0 then Some (0, h) else malloc_loop room nunits p (hptr h p) h)
      else malloc_loop room nunits p (hptr h p) h)"

definition units :: "u32 \<Rightarrow> u32" where
  "units nbytes = (nbytes + SIZEOF_HEADER - 1) div SIZEOF_HEADER + 1"

definition malloc :: "(u32 \<Rightarrow> u32 \<Rightarrow> bool) \<Rightarrow> u32 \<Rightarrow> u32 \<Rightarrow> uheap \<Rightarrow> (u32 \<times> uheap) option" where
  "malloc room base nbytes h =
     (let (prevp, h) = (if freep h = 0 then (base, set_size base 0 (set_ptr base base (h\<lparr>freep := base\<rparr>))) else (freep h, h))
      in malloc_loop room (units nbytes) prevp (hptr h prevp) h)"

section \<open>Reading and writing headers\<close>

text \<open>Two headers that do not overlap; a header lies below the end of the address space.\<close>

definition away :: "u32 \<Rightarrow> u32 \<Rightarrow> bool" where
  "away p q \<longleftrightarrow> unat p + 8 \<le> 2 ^ 32 \<and> unat q + 8 \<le> 2 ^ 32 \<and> (unat p + 8 \<le> unat q \<or> unat q + 8 \<le> unat p)"

lemma away_sym: "away p q \<longleftrightarrow> away q p"
  by (auto simp: away_def)

lemma unat_plus_u32: "unat (x :: u32) + n < 2 ^ 32 \<Longrightarrow> unat (x + of_nat n) = unat x + n"
proof -
  assume "unat x + n < 2 ^ 32"
  then have "unat (of_nat (unat x + n) :: u32) = unat x + n" by (rule unat_of_nat_u32)
  moreover have "of_nat (unat x + n) = x + of_nat n" by simp
  ultimately show ?thesis by metis
qed

lemma wr32_far:
  fixes p a :: u32
  assumes "unat p + 4 \<le> 2 ^ 32" "unat a < unat p \<or> unat p + 4 \<le> unat a"
  shows "wr32 m p v a = m a"
proof -
  have "a \<noteq> p + of_nat i" if "i < 4" for i using unat_plus_u32 [of p i] assms that by auto
  from this [of 0] this [of 1] this [of 2] this [of 3] show ?thesis by (simp add: wr32_def)
qed

lemma rd32_cong_word: "(\<And>i. i < 4 \<Longrightarrow> m' (a + of_nat i) = m (a + of_nat i)) \<Longrightarrow> rd32 m' (a :: u32) = rd32 m a"
proof -
  assume e: "\<And>i. i < 4 \<Longrightarrow> m' (a + of_nat i) = m (a + of_nat i)"
  show ?thesis using e [of 0] e [of 1] e [of 2] e [of 3] by (simp add: rd32_def)
qed

lemma rd32_wr32_far:
  fixes p q :: u32
  assumes "unat p + 4 \<le> 2 ^ 32" "unat q + 4 \<le> 2 ^ 32" "unat p + 4 \<le> unat q \<or> unat q + 4 \<le> unat p"
  shows "rd32 (wr32 m p v) q = rd32 m q"
proof -
  have "wr32 m p v (q + of_nat i) = m (q + of_nat i)" if "i < 4" for i
    using that assms unat_plus_u32 [of q i] by (intro wr32_far) auto
  from this [of 0] this [of 1] this [of 2] this [of 3] show ?thesis by (simp add: rd32_def)
qed

lemma size_addr: "unat (p :: u32) + 8 \<le> 2 ^ 32 \<Longrightarrow> unat (p + 4) = unat p + 4"
  using unat_plus_u32 [of p 4] by simp

lemma header_upd:
  assumes "unat p + 8 \<le> 2 ^ 32"
  shows "hptr (set_ptr p v h) p = v" "hsize (set_ptr p v h) p = hsize h p"
    "hptr (set_size p v h) p = hptr h p" "hsize (set_size p v h) p = v"
  using assms size_addr [OF assms] by (simp_all add: hptr_def hsize_def set_ptr_def set_size_def rd32_wr32_far)

lemma header_other:
  assumes "away p q"
  shows "hptr (set_ptr p v h) q = hptr h q" "hsize (set_ptr p v h) q = hsize h q"
    "hptr (set_size p v h) q = hptr h q" "hsize (set_size p v h) q = hsize h q"
  using assms size_addr [of p] size_addr [of q]
  by (auto simp: away_def hptr_def hsize_def set_ptr_def set_size_def intro!: rd32_wr32_far)

lemma set_fields [simp]:
  "freep (set_ptr p v h) = freep h" "brk (set_ptr p v h) = brk h"
  "freep (set_size p v h) = freep h" "brk (set_size p v h) = brk h"
  "hptr (h\<lparr>freep := x\<rparr>) = hptr h" "hsize (h\<lparr>freep := x\<rparr>) = hsize h" "um (h\<lparr>freep := x\<rparr>) = um h"
  "hptr (h\<lparr>brk := y\<rparr>) = hptr h" "hsize (h\<lparr>brk := y\<rparr>) = hsize h"
  by (simp_all add: set_ptr_def set_size_def hptr_def hsize_def fun_eq_iff)

lemma header_bytes:
  assumes "unat p + 8 \<le> 2 ^ 32" "unat a < unat p \<or> unat p + 8 \<le> unat a"
  shows "um (set_ptr p v h) a = um h a" "um (set_size p v h) a = um h a"
  using assms size_addr [OF assms(1)] by (auto simp: set_ptr_def set_size_def intro!: wr32_far)

section \<open>The free list\<close>

text \<open>A block is its address and its size in units. Blocks in order, with room between any two; \<open>lim\<close> is the end of the last.\<close>

fun apart :: "nat \<Rightarrow> (nat \<times> nat) list \<Rightarrow> bool" where
  "apart e [] \<longleftrightarrow> True"
| "apart e ((a, s) # xs) \<longleftrightarrow> e < a \<and> 0 < s \<and> apart (a + 8 * s) xs"

fun lim :: "nat \<Rightarrow> (nat \<times> nat) list \<Rightarrow> nat" where
  "lim e [] = e"
| "lim e ((a, s) # xs) = lim (a + 8 * s) xs"

definition addrs :: "(nat \<times> nat) list \<Rightarrow> u32 list" where
  "addrs fs = map (\<lambda>(a, s). of_nat a) fs"

lemma addrs_simps [simp]:
  "addrs [] = []" "addrs ((a, s) # fs) = of_nat a # addrs fs" "addrs (us @ vs) = addrs us @ addrs vs"
  by (simp_all add: addrs_def)

lemma apart_append: "apart e (us @ vs) \<longleftrightarrow> apart e us \<and> apart (lim e us) vs"
  by (induction e us rule: apart.induct) auto

lemma lim_append [simp]: "lim e (us @ vs) = lim (lim e us) vs"
  by (induction e us rule: lim.induct) auto

lemma apart_mono: "apart e xs \<Longrightarrow> d \<le> e \<Longrightarrow> apart d xs"
  by (cases xs) auto

lemma apart_above: "apart e xs \<Longrightarrow> (a, s) \<in> set xs \<Longrightarrow> e < a \<and> 0 < s"
  by (induction e xs rule: apart.induct) fastforce+

lemma apart_below: "apart e xs \<Longrightarrow> (a, s) \<in> set xs \<Longrightarrow> a + 8 * s \<le> lim e xs"
proof (induction e xs rule: apart.induct)
  case (2 e c t xs)
  have "d \<le> lim d xs" if "apart d xs" for d xs using that by (induction d xs rule: apart.induct) auto
  then show ?case using 2 by auto
qed simp

lemma lim_le: "e \<le> m \<Longrightarrow> \<forall>(a, s)\<in>set xs. a + 8 * s \<le> m \<Longrightarrow> lim e xs \<le> m"
  by (induction e xs rule: lim.induct) auto

text \<open>The list as the memory holds it, behind the header \<open>base\<close> of size 0.\<close>

definition ublocks :: "nat \<Rightarrow> uheap \<Rightarrow> (nat \<times> nat) list \<Rightarrow> bool" where
  "ublocks b h fs \<longleftrightarrow> chain (hptr h) (of_nat b) (addrs fs) (of_nat b) \<and> hsize h (of_nat b) = 0
     \<and> (\<forall>(a, s)\<in>set fs. hsize h (of_nat a) = of_nat s)"

lemma chain_cong: "\<forall>x\<in>set (a # xs). f x = g x \<Longrightarrow> chain f a xs b = chain g a xs b"
  by (induction xs arbitrary: a) auto

lemma away_nat: "c + 8 \<le> 2 ^ 32 \<Longrightarrow> d + 8 \<le> 2 ^ 32 \<Longrightarrow> c + 8 \<le> d \<or> d + 8 \<le> c \<Longrightarrow> away (of_nat c) (of_nat d)"
  by (simp add: away_def unat_of_nat_u32)

section \<open>What free does\<close>

lemma free_loop_walk:
  "chain (hptr h) q xs y \<Longrightarrow> \<forall>x\<in>set (q # xs). \<not> between h bp x \<Longrightarrow> free_loop h bp q = free_loop h bp y"
proof (induction xs arbitrary: q)
  case Nil
  then show ?case by (subst free_loop.simps) simp
next
  case (Cons x xs)
  then have "free_loop h bp x = free_loop h bp y" by simp
  then show ?case using Cons.prems by (subst free_loop.simps) simp
qed

text \<open>In an ordered ring the walk ends at the last node below the block, wherever it begins.\<close>

lemma free_loop_finds:
  assumes c: "chain (hptr h) base (xs @ ys) base" and s: "sorted_wrt (<) (base # xs @ ys)"
    and b: "\<forall>x\<in>set (base # xs). x < bp" "\<forall>y\<in>set ys. bp < y" and q: "q \<in> set (base # xs @ ys)"
  shows "free_loop h bp q = Some (last (base # xs))"
proof -
  let ?p = "last (base # xs)"
  have nxt: "hptr h x = hd (B @ [base])" if "base # xs @ ys = A @ x # B" for A x B
    using that c by (cases A) (auto simp: chain_append chain_first)
  have up: "x < hd B \<and> hd B \<in> set B" if "base # xs @ ys = A @ x # B" "B \<noteq> []" for A x B
    using s that by (cases B) (auto simp: sorted_wrt_append)
  obtain zs where zs: "base # xs = zs @ [?p]" by (metis append_butlast_last_id list.distinct(1))
  have low: "free_loop h bp x = Some ?p" if x: "x \<in> set (base # xs)" for x
  proof -
    obtain A B where AB: "base # xs = A @ x # B" using split_list [OF x] by blast
    have stop: "between h bp ?p"
    proof -
      have "hptr h ?p = hd (ys @ [base])" using zs by (intro nxt [of zs]) simp
      moreover have "base \<le> ?p" using s by (cases xs) (auto simp: less_imp_le)
      moreover have "?p < bp" using b(1) zs by (metis in_set_conv_decomp)
      ultimately show ?thesis using b(2) by (cases ys) (auto simp: between_def)
    qed
    show ?thesis
    proof (cases B rule: rev_cases)
      case Nil
      then have "x = ?p" using AB by simp
      then show ?thesis using stop by (subst free_loop.simps) simp
    next
      case (snoc C z)
      then have "z = ?p" using AB by simp
      moreover have "chain (hptr h) x C z"
        using c AB snoc by (cases A) (auto simp: chain_append)
      moreover have "\<not> between h bp w" if w: "w \<in> set (x # C)" for w
      proof -
        obtain D F where D: "x # C = D @ w # F" using split_list [OF w] by blast
        have e: "base # xs @ ys = (A @ D) @ w # (F @ [z] @ ys)" using AB snoc D by simp
        have "w < hd (F @ [z])" using up [OF e] by (cases F) simp_all
        moreover have "hd (F @ [z]) \<in> set (base # xs)"
        proof -
          have "set (base # xs) = set A \<union> set (D @ w # F) \<union> {z}" unfolding AB snoc D [symmetric] by auto
          then show ?thesis by (cases F) auto
        qed
        moreover have "hptr h w = hd (F @ [z])" using nxt [OF e] by (cases F) simp_all
        ultimately show ?thesis using b(1) by (auto simp: between_def dest: order.strict_trans)
      qed
      ultimately have "free_loop h bp x = free_loop h bp ?p" using free_loop_walk by blast
      then show ?thesis using stop by (subst (asm) (2) free_loop.simps) simp
    qed
  qed
  show ?thesis
  proof (cases "q \<in> set (base # xs)")
    case False
    then have "q \<in> set ys" using q by auto
    then obtain A B where AB: "ys = A @ q # B" using split_list by fast
    have "chain (hptr h) q B base" using c AB chain_append [of "hptr h" base "xs @ A" q B base] by simp
    moreover have "\<not> between h bp w" if w: "w \<in> set (q # B)" for w
    proof -
      obtain D F where D: "q # B = D @ w # F" using split_list [OF w] by blast
      have e: "base # xs @ ys = (base # xs @ A @ D) @ w # F" using AB D by simp
      have "bp < w" using b(2) AB w by auto
      then show ?thesis using up [OF e] nxt [OF e] b(1) by (cases F) (auto simp: between_def)
    qed
    ultimately have "free_loop h bp q = free_loop h bp base" using free_loop_walk by blast
    then show ?thesis using low [of base] by simp
  qed (rule low)
qed

text \<open>The abstract counterpart: a block joined with the one that begins where it ends, and with the one that ends where it begins.\<close>

fun merge_next :: "nat \<Rightarrow> nat \<Rightarrow> (nat \<times> nat) list \<Rightarrow> nat \<times> (nat \<times> nat) list" where
  "merge_next a s [] = (s, [])"
| "merge_next a s ((c, t) # vs) = (if a + 8 * s = c then (s + t, vs) else (s, (c, t) # vs))"

definition merge_prev :: "(nat \<times> nat) list \<Rightarrow> nat \<Rightarrow> nat \<Rightarrow> (nat \<times> nat) list" where
  "merge_prev us a s =
     (if us \<noteq> [] \<and> fst (last us) + 8 * snd (last us) = a then butlast us @ [(fst (last us), snd (last us) + s)]
      else us @ [(a, s)])"

lemma chain_head: "chain f x xs b \<Longrightarrow> f y = f x \<Longrightarrow> chain f y xs b"
  by (cases xs) auto

lemma eq_u32: "x < 2 ^ 32 \<Longrightarrow> y < 2 ^ 32 \<Longrightarrow> (of_nat x :: u32) = of_nat y \<longleftrightarrow> x = y"
  by (metis unat_of_nat_u32)

lemma end_u32: "of_nat a + SIZEOF_HEADER * of_nat s = of_nat (a + 8 * s)"
  by (simp add: SIZEOF_HEADER_def)

text \<open>The situation of \<open>free\<close>: a block \<open>(a, s)\<close> between the parts \<open>us\<close> and \<open>vs\<close> of the list.\<close>

definition fits :: "nat \<Rightarrow> uheap \<Rightarrow> (nat \<times> nat) list \<Rightarrow> nat \<Rightarrow> nat \<Rightarrow> (nat \<times> nat) list \<Rightarrow> bool" where
  "fits b h us a s vs \<longleftrightarrow> ublocks b h (us @ vs) \<and> apart (b + 7) (us @ vs) \<and> b + 8 \<le> a \<and> 0 < s
     \<and> (\<forall>(c, t)\<in>set us. c + 8 * t \<le> a) \<and> (\<forall>(c, t)\<in>set vs. a + 8 * s \<le> c \<and> c + 8 * t < 2 ^ 31) \<and> a + 8 * s < 2 ^ 31
     \<and> hsize h (of_nat a) = of_nat s"

lemma fits_away:
  assumes "fits b h us a s vs"
  shows "away (of_nat a) (of_nat b)" "(c, t) \<in> set (us @ vs) \<Longrightarrow> away (of_nat a) (of_nat c)"
    "(c, t) \<in> set (us @ vs) \<Longrightarrow> away (of_nat b) (of_nat c)"
proof -
  show "away (of_nat a) (of_nat b)" using assms by (intro away_nat) (auto simp: fits_def)
  assume c: "(c, t) \<in> set (us @ vs)"
  then have "b + 7 < c" "0 < t" using assms apart_above by (fastforce simp: fits_def)+
  moreover have "c + 8 * t \<le> a \<or> a + 8 * s \<le> c \<and> c + 8 * t < 2 ^ 31" using c assms by (auto simp: fits_def)
  ultimately show "away (of_nat a) (of_nat c)" "away (of_nat b) (of_nat c)"
    using assms by (auto simp: fits_def intro!: away_nat)
qed

lemma fits_away_last: "away (of_nat a) (last (of_nat b # addrs us))" if f: "fits b h us a s vs"
proof (cases us rule: rev_cases)
  case Nil
  then show ?thesis using fits_away(1) [OF f] by simp
next
  case (snoc ys y)
  obtain c t where "y = (c, t)" by (cases y)
  then show ?thesis using fits_away(2) [OF f, of c t] snoc by simp
qed

lemma fits_next:
  assumes "fits b h us a s vs"
  shows "hptr h (last (of_nat b # addrs us)) = hd (addrs vs @ [of_nat b])"
    "(c, t) # ws = vs \<Longrightarrow> chain (hptr h) (of_nat c) (addrs ws) (of_nat b)"
proof -
  have c: "chain (hptr h) (of_nat b) (addrs us @ addrs vs) (of_nat b)" using assms by (simp add: fits_def ublocks_def)
  show "hptr h (last (of_nat b # addrs us)) = hd (addrs vs @ [of_nat b])"
  proof (cases us rule: rev_cases)
    case Nil
    then show ?thesis using c by (auto simp: chain_first)
  next
    case (snoc us' x)
    then show ?thesis using c by (cases x) (auto simp: chain_append chain_first)
  qed
  show "chain (hptr h) (of_nat c) (addrs ws) (of_nat b)" if "(c, t) # ws = vs" using c that [symmetric] by (simp add: chain_append)
qed

lemma addrs_mem: "x \<in> set (addrs fs) \<longleftrightarrow> (\<exists>(c, t)\<in>set fs. x = of_nat c)"
  by (auto simp: addrs_def)

lemma addrs_ball: "(\<forall>x\<in>set (addrs fs). P x) \<longleftrightarrow> (\<forall>(c, t)\<in>set fs. P (of_nat c))"
  by (auto simp: addrs_def)

lemma join_next_spec:
  assumes f: "fits b h us a s vs" and m: "merge_next a s vs = (s1, vs1)"
    and h1: "h1 = join_next (of_nat a) (last (of_nat b # addrs us)) h"
  shows "chain (hptr h1) (of_nat a) (addrs vs1) (of_nat b)" "hsize h1 (of_nat a) = of_nat s1"
    "away (of_nat a) q \<Longrightarrow> hptr h1 q = hptr h q \<and> hsize h1 q = hsize h q"
    "freep h1 = freep h" "brk h1 = brk h" "unat x \<notin> {a..<a + 8} \<Longrightarrow> um h1 x = um h x"
proof -
  let ?bp = "of_nat a :: u32" and ?b = "of_nat b :: u32" and ?p = "last (of_nat b # addrs us) :: u32"
  have nat: "a + 8 < 2 ^ 32" "unat ?bp = a" using f by (auto simp: fits_def unat_of_nat_u32)
  have sz: "hsize h ?bp = of_nat s" using f by (simp add: fits_def)
  note nx = fits_next [OF f]
  have p: "away ?bp ?p" by (rule fits_away_last [OF f])
  have ce: "?bp + SIZEOF_HEADER * hsize h ?bp = hptr h ?p \<longleftrightarrow> (\<exists>c t ws. vs = (c, t) # ws \<and> a + 8 * s = c)"
  proof (cases vs)
    case Nil
    have "of_nat (a + 8 * s) \<noteq> ?b" using f by (subst eq_u32) (auto simp: fits_def)
    then show ?thesis using Nil nx(1) unfolding sz end_u32 by simp
  next
    case (Cons v ws)
    obtain c t where v: "v = (c, t)" by (cases v)
    have "of_nat (a + 8 * s) = (of_nat c :: u32) \<longleftrightarrow> a + 8 * s = c" using f v Cons by (subst eq_u32) (auto simp: fits_def)
    then show ?thesis using Cons v nx(1) unfolding sz end_u32 by simp
  qed
  have e: "\<exists>n g. h1 = set_ptr ?bp n g \<and> (g = h \<or> (\<exists>z. g = set_size ?bp z h))"
    using h1 by (auto simp: join_next_def Let_def)
  then show same: "away ?bp q \<Longrightarrow> hptr h1 q = hptr h q \<and> hsize h1 q = hsize h q" for q using header_other by metis
  show "freep h1 = freep h" "brk h1 = brk h" using e by auto
  show "um h1 x = um h x" if "unat x \<notin> {a..<a + 8}" for x
    using e that nat header_bytes [of ?bp x] by auto
  have keep: "\<forall>x\<in>set (addrs ws). hptr h1 x = hptr h x" if ws: "set ws \<subseteq> set vs" for ws
  proof
    fix x assume "x \<in> set (addrs ws)"
    then obtain c t where "(c, t) \<in> set ws" "x = of_nat c" by (auto simp: addrs_mem)
    then show "hptr h1 x = hptr h x" using same fits_away(2) [OF f, of c t] ws by auto
  qed
  have "chain (hptr h1) ?bp (addrs vs1) ?b \<and> hsize h1 ?bp = of_nat s1"
  proof (cases "\<exists>c t ws. vs = (c, t) # ws \<and> a + 8 * s = c")
    case True
    then obtain t where v: "vs = (a + 8 * s, t) # vs1" "s1 = s + t" using m by auto
    let ?c = "of_nat (a + 8 * s) :: u32" and ?g = "set_size ?bp (of_nat s + hsize h (hptr h ?p)) h"
    have c: "hptr h ?p = ?c" "hsize h ?c = of_nat t" "away ?bp ?c"
      using nx(1) v f fits_away(2) [OF f, of "a + 8 * s" t] by (simp_all add: fits_def ublocks_def)
    have "h1 = set_ptr ?bp (hptr h ?c) ?g"
      using h1 ce True c(1,3) p sz by (simp add: join_next_def Let_def header_other)
    then have "hptr h1 ?bp = hptr h ?c" "hsize h1 ?bp = of_nat s1"
      using nat v(2) c(1,2) by (simp_all add: header_upd)
    moreover have "chain (hptr h1) ?c (addrs vs1) ?b"
    proof -
      have "\<forall>x\<in>set (?c # addrs vs1). hptr h1 x = hptr h x" using keep [of vs] v(1) by simp
      from chain_cong [OF this] show ?thesis using nx(2) v(1) by simp
    qed
    moreover have "hptr h1 ?c = hptr h ?c" using same c(3) by blast
    ultimately show ?thesis using chain_head by metis
  next
    case False
    then have v: "s1 = s" "vs1 = vs" using m by (cases vs; fastforce)+
    have e1: "h1 = set_ptr ?bp (hptr h ?p) h" using h1 ce False by (simp add: join_next_def)
    then have n: "hptr h1 ?bp = hd (addrs vs @ [?b])" using nat nx(1) by (simp add: header_upd)
    have "chain (hptr h1) ?bp (addrs vs) ?b"
    proof (cases vs)
      case (Cons w ws)
      obtain c t where w: "w = (c, t)" by (cases w)
      have "\<forall>x\<in>set (of_nat c # addrs ws). hptr h1 x = hptr h x" using keep [of vs] Cons w by simp
      from chain_cong [OF this] have "chain (hptr h1) (of_nat c) (addrs ws) ?b" using nx(2) Cons w by simp
      then show ?thesis using n Cons w by simp
    qed (use n in simp)
    then show ?thesis using v e1 nat sz by (simp add: header_upd)
  qed
  then show "chain (hptr h1) ?bp (addrs vs1) ?b" "hsize h1 ?bp = of_nat s1" by simp_all
qed

lemma apart_disjoint:
  "apart e xs \<Longrightarrow> (c, t) \<in> set xs \<Longrightarrow> (d, w) \<in> set xs \<Longrightarrow> (c, t) = (d, w) \<or> c + 8 * t < d \<or> d + 8 * w < c"
  by (induction e xs rule: apart.induct) (auto dest: apart_above)

lemma fits_pair:
  assumes f: "fits b h us a s vs" and c: "(c, t) \<in> set (us @ vs)" and d: "(d, w) \<in> set (us @ vs)" "c \<noteq> d"
  shows "away (of_nat c) (of_nat d)"
proof -
  have "c + 8 * t < d \<or> d + 8 * w < c" using apart_disjoint [OF _ c d(1)] d(2) f by (auto simp: fits_def)
  moreover have "0 < t" "0 < w" using c d(1) f apart_above by (fastforce simp: fits_def)+
  moreover have "c + 8 * t < 2 ^ 31" "d + 8 * w < 2 ^ 31" using c d(1) f by (auto simp: fits_def)
  ultimately show ?thesis by (intro away_nat) auto
qed

lemma merge_next_subset: "merge_next a s vs = (s1, vs1) \<Longrightarrow> set vs1 \<subseteq> set vs \<and> s \<le> s1"
  by (cases "(a, s, vs)" rule: merge_next.cases) (auto split: if_splits)

lemma join_prev_spec:
  assumes f: "fits b h us a s vs" and m: "merge_next a s vs = (s1, vs1)"
    and h2: "h2 = join_prev (of_nat a) (last (of_nat b # addrs us)) (join_next (of_nat a) (last (of_nat b # addrs us)) h)"
  shows "ublocks b h2 (merge_prev us a s1 @ vs1)" "freep h2 = freep h" "brk h2 = brk h"
    "\<forall>(c, t)\<in>set us. away (of_nat c) q \<Longrightarrow> away (of_nat b) q \<Longrightarrow> away (of_nat a) q \<Longrightarrow> hsize h2 q = hsize h q"
    "\<lbrakk>unat x \<notin> {a..<a + 8}; unat x \<notin> {b..<b + 8}; \<forall>(c, t)\<in>set us. unat x \<notin> {c..<c + 8}\<rbrakk> \<Longrightarrow> um h2 x = um h x"
proof -
  let ?bp = "of_nat a :: u32" and ?b = "of_nat b :: u32" and ?p = "last (of_nat b # addrs us) :: u32"
  define h1 where "h1 = join_next ?bp ?p h"
  note j = join_next_spec [OF f m h1_def]
  have nat: "a + 8 < 2 ^ 32" "b + 8 < 2 ^ 32" "unat ?bp = a" "unat ?b = b" using f by (auto simp: fits_def unat_of_nat_u32)
  have sub: "set vs1 \<subseteq> set vs" using merge_next_subset [OF m] by simp
  have sz: "(c, t) \<in> set (us @ vs) \<Longrightarrow> hsize h1 (of_nat c) = of_nat t" for c t
    using j(3) fits_away(2) [OF f, of c t] f by (auto simp: fits_def ublocks_def)
  have szb: "hsize h1 ?b = 0" using j(3) fits_away(1) [OF f] f by (simp add: fits_def ublocks_def)
  have e: "\<exists>n g. h2 = set_ptr ?p n g \<and> (g = h1 \<or> (\<exists>z. g = set_size ?p z h1))"
    using h2 h1_def by (auto simp: join_prev_def Let_def)
  then have same: "hptr h2 q = hptr h1 q \<and> hsize h2 q = hsize h1 q" if "away ?p q" for q using that header_other by metis
  have fields: "freep h2 = freep h" "brk h2 = brk h" using e j(4,5) by auto
  have front: "chain (hptr h2) ?b (addrs ys) q" if "chain (hptr h) ?b (addrs ys) q" "set ys \<subseteq> set us"
      "\<forall>x\<in>set (?b # addrs ys). away ?p x" for ys q
  proof -
    have "\<forall>x\<in>set (?b # addrs ys). hptr h2 x = hptr h x"
    proof
      fix x assume x: "x \<in> set (?b # addrs ys)"
      then have "away ?bp x" using fits_away [OF f] that(2) by (fastforce simp: addrs_mem)
      then show "hptr h2 x = hptr h x" using same j(3) that(3) x by metis
    qed
    from chain_cong [OF this] that(1) show ?thesis by blast
  qed
  have rear: "chain (hptr h2) q (addrs vs1) ?b" if q: "hptr h2 q = hptr h1 ?bp" and w: "\<forall>x\<in>set (addrs vs1). away ?p x" for q
  proof (cases vs1)
    case Nil
    then show ?thesis using q j(1) by simp
  next
    case (Cons y ws)
    obtain c t where y: "y = (c, t)" by (cases y)
    have "\<forall>x\<in>set (of_nat c # addrs ws). hptr h2 x = hptr h1 x" using w same Cons y by auto
    from chain_cong [OF this] show ?thesis using j(1) q Cons y by simp
  qed
  have "ublocks b h2 (merge_prev us a s1 @ vs1)
    \<and> (unat x \<notin> {b..<b + 8} \<longrightarrow> (\<forall>(c, t)\<in>set us. unat x \<notin> {c..<c + 8}) \<longrightarrow> um h2 x = um h1 x) \<and> (us \<noteq> [] \<longrightarrow> ?p \<in> set (addrs us))" for x
  proof (cases us rule: rev_cases)
    case Nil
    have ws: "away ?b (of_nat c)" if "(c, t) \<in> set vs" for c t using fits_away(3) [OF f, of c t] that by simp
    have "?b \<noteq> ?bp" using f by (subst eq_u32) (auto simp: fits_def)
    then have g: "h2 = set_ptr ?b ?bp h1" using h2 Nil szb h1_def by (simp add: join_prev_def)
    have sa: "hptr h2 ?bp = hptr h1 ?bp" "hsize h2 ?bp = of_nat s1" using same [of ?bp] fits_away(1) [OF f] Nil j(2) by (simp_all add: away_sym)
    have "\<forall>x\<in>set (addrs vs1). away ?p x" using ws sub Nil unfolding addrs_ball by auto
    then have "chain (hptr h2) ?bp (addrs vs1) ?b" by (rule rear [OF sa(1)])
    moreover have "hptr h2 ?b = ?bp" "hsize h2 ?b = 0" using g nat(2,4) szb by (simp_all add: header_upd)
    moreover have "hsize h2 (of_nat c) = of_nat t" if "(c, t) \<in> set vs1" for c t
      using same [of "of_nat c"] ws that sub sz [of c t] Nil by auto
    ultimately show ?thesis using Nil sa(2) g nat header_bytes(1) [of ?b x] by (auto simp: ublocks_def merge_prev_def)
  next
    case (snoc ys y)
    obtain c t where y: "y = (c, t)" by (cases y)
    have p: "?p = of_nat c" "(c, t) \<in> set (us @ vs)" using snoc y by simp_all
    have cu: "c + 8 < 2 ^ 32" "unat (of_nat c :: u32) = c" using fits_away(2) [OF f p(2)] fits_away(3) [OF f p(2)] f snoc y
      by (auto simp: fits_def unat_of_nat_u32 apart_append)
    have pb: "away ?p ?b" "away ?p ?bp" using fits_away(2,3) [OF f p(2)] p(1) by (simp_all add: away_sym)
    have ap: "apart (b + 7) (ys @ (c, t) # vs)" using f snoc y by (simp add: fits_def)
    have pn: "away ?p (of_nat d)" if "(d, w) \<in> set ys \<or> (d, w) \<in> set vs" for d w
    proof -
      have "c \<noteq> d" using ap that apart_below [of _ ys d w] apart_above by (fastforce simp: apart_append)
      then show ?thesis using fits_pair [OF f p(2), of d w] that snoc p(1) by auto
    qed
    have "\<forall>x\<in>set (addrs ys). away ?p x" unfolding addrs_ball by (blast intro: pn)
    moreover have "\<forall>x\<in>set (addrs vs1). away ?p x" unfolding addrs_ball using sub by (blast intro: pn)
    ultimately have wf1: "\<forall>x\<in>set (?b # addrs ys). away ?p x" "\<forall>x\<in>set (addrs vs1). away ?p x"
      using pb(1) by (simp_all del: last.simps)
    have ch: "chain (hptr h) ?b (addrs ys) ?p" using f snoc y p(1) by (auto simp: fits_def ublocks_def chain_append)
    have szt: "hsize h1 ?p = of_nat t" using sz [OF p(2)] p(1) by simp
    have "of_nat (c + 8 * t) = ?bp \<longleftrightarrow> c + 8 * t = a" using f snoc y by (subst eq_u32) (auto simp: fits_def)
    then have ce: "?p + SIZEOF_HEADER * hsize h1 ?p = ?bp \<longleftrightarrow> c + 8 * t = a" unfolding p(1) szt [unfolded p(1)] end_u32 .
    have pc: "hptr (set_ptr ?p n g) ?p = n" "hsize (set_ptr ?p n g) ?p = hsize g ?p" "hsize (set_size ?p z g) ?p = z"
      for n g z using cu p(1) by (simp_all add: header_upd)
    have keep: "hsize h2 (of_nat d) = of_nat w" if "(d, w) \<in> set ys \<or> (d, w) \<in> set vs1" for d w
      using same [of "of_nat d"] pn [of d w] that sub sz [of d w] snoc by auto
    have b0: "hsize h2 ?b = 0" using same pb(1) szb by simp
    have bytes: "um h2 x = um h1 x" if "unat x \<notin> {c..<c + 8}" using e header_bytes [of ?p x] that cu p(1) by auto
    have fr: "chain (hptr h2) ?b (addrs ys) (of_nat c)" using front [of ys ?p] ch snoc wf1(1) p(1) by auto
    have "ublocks b h2 (merge_prev us a s1 @ vs1)"
    proof (cases "c + 8 * t = a")
      case True
      then have "h2 = set_ptr ?p (hptr h1 ?bp) (set_size ?p (of_nat t + of_nat s1) h1)"
        using ce h2 h1_def szt j(2) pb(2) by (simp add: join_prev_def Let_def header_other)
      then have q: "hptr h2 ?p = hptr h1 ?bp" "hsize h2 ?p = of_nat (t + s1)" by (simp_all add: pc del: last.simps)
      have "chain (hptr h2) (of_nat c) (addrs vs1) ?b" using rear [OF q(1) wf1(2)] p(1) by simp
      then show ?thesis using True snoc y fr b0 keep q(2) p(1) by (auto simp: ublocks_def merge_prev_def chain_append)
    next
      case False
      then have "h2 = set_ptr ?p ?bp h1" using ce h2 h1_def by (simp add: join_prev_def)
      then have q: "hptr h2 ?p = ?bp" "hsize h2 ?p = of_nat t" using szt by (simp_all add: pc del: last.simps)
      have r: "hptr h2 ?bp = hptr h1 ?bp" "hsize h2 ?bp = of_nat s1" using same pb(2) j(2) by simp_all
      have "chain (hptr h2) ?bp (addrs vs1) ?b" by (rule rear [OF r(1) wf1(2)])
      then show ?thesis using False snoc y fr b0 keep q p(1) r(2) by (auto simp: ublocks_def merge_prev_def chain_append)
    qed
    then show ?thesis using bytes snoc y by auto
  qed note main = this
  show "ublocks b h2 (merge_prev us a s1 @ vs1)" using main by blast
  show "freep h2 = freep h" "brk h2 = brk h" by (fact fields)+
  show "um h2 x = um h x" if "unat x \<notin> {a..<a + 8}" "unat x \<notin> {b..<b + 8}" "\<forall>(c, t)\<in>set us. unat x \<notin> {c..<c + 8}"
    using main [of x] j(6) [of x] that by simp
  show "hsize h2 q = hsize h q" if "\<forall>(c, t)\<in>set us. away (of_nat c) q" "away ?b q" "away ?bp q" for q
  proof -
    have "\<forall>x\<in>set (addrs us). away x q" using that(1) by (simp add: addrs_ball)
    moreover have "us \<noteq> [] \<Longrightarrow> ?p \<in> set (addrs us)" using main by blast
    ultimately have "away ?p q" using that(2) by (cases "us = []") simp_all
    then show ?thesis using same j(3) that(3) by simp
  qed
qed

section \<open>The heap\<close>

text \<open>The addresses that a set of blocks covers.\<close>

definition span :: "(nat \<times> nat) set \<Rightarrow> nat set" where "span X = (\<Union>(a, s)\<in>X. {a..<a + 8 * s})"

lemma span_simps [simp]:
  "span {} = {}" "span (insert (a, s) X) = {a..<a + 8 * s} \<union> span X" "span (X \<union> Y) = span X \<union> span Y"
  by (auto simp: span_def)

text \<open>
  \<open>fs\<close> are the free blocks in order and \<open>L\<close> the blocks that the program holds. No two of them overlap, no two
  free ones touch, and together they are all that \<open>sbrk\<close> has delivered above \<open>lo\<close>.
\<close>

definition heap_ok :: "nat \<Rightarrow> nat \<Rightarrow> (nat \<times> nat) list \<Rightarrow> (nat \<times> nat) set \<Rightarrow> uheap \<Rightarrow> bool" where
  "heap_ok b lo fs L h \<longleftrightarrow> 0 < b \<and> b + 8 \<le> lo \<and> lo \<le> unat (brk h) \<and> unat (brk h) < 2 ^ 31
     \<and> apart (b + 7) fs \<and> ublocks b h fs \<and> freep h \<in> set (of_nat b # addrs fs)
     \<and> (\<forall>(a, s)\<in>L. 0 < s \<and> hsize h (of_nat a) = of_nat s \<and> {a..<a + 8 * s} \<inter> span (set fs) = {})
     \<and> (\<forall>x\<in>L. \<forall>y\<in>L. x \<noteq> y \<longrightarrow> span {x} \<inter> span {y} = {})
     \<and> span (set fs) \<union> span L = {lo..<unat (brk h)}"

lemma span_mem: "(a, s) \<in> X \<Longrightarrow> {a..<a + 8 * s} \<subseteq> span X"
  by (auto simp: span_def)

lemma intervals_disjoint: "{a..<a + 8 * s} \<inter> {c..<c + 8 * t} = {} \<Longrightarrow> 0 < s \<Longrightarrow> 0 < t \<Longrightarrow> a + 8 * s \<le> c \<or> c + 8 * t \<le> (a :: nat)"
proof (rule ccontr)
  assume d: "{a..<a + 8 * s} \<inter> {c..<c + 8 * t} = {}" and "0 < s" "0 < t" and "\<not> (a + 8 * s \<le> c \<or> c + 8 * t \<le> a)"
  then have "max a c \<in> {a..<a + 8 * s} \<inter> {c..<c + 8 * t}" by auto
  then show False using d by blast
qed

lemma heap_bounds:
  assumes "heap_ok b lo fs L h"
  shows "(a, s) \<in> set fs \<union> L \<Longrightarrow> lo \<le> a \<and> 0 < s \<and> a + 8 * s \<le> unat (brk h)"
    "(a, s) \<in> L \<Longrightarrow> (c, t) \<in> set fs \<Longrightarrow> a + 8 * s \<le> c \<or> c + 8 * t \<le> a"
    "(a, s) \<in> L \<Longrightarrow> (c, t) \<in> L \<Longrightarrow> (a, s) \<noteq> (c, t) \<Longrightarrow> a + 8 * s \<le> c \<or> c + 8 * t \<le> a"
proof -
  have pos: "0 < s" if "(a, s) \<in> set fs \<union> L" for a s
    using that assms apart_above [of "b + 7" fs a s] by (auto simp: heap_ok_def)
  have all: "span (set fs \<union> L) = {lo..<unat (brk h)}" using assms by (simp add: heap_ok_def)
  show "lo \<le> a \<and> 0 < s \<and> a + 8 * s \<le> unat (brk h)" if m: "(a, s) \<in> set fs \<union> L"
  proof -
    have "{a..<a + 8 * s} \<subseteq> {lo..<unat (brk h)}" using span_mem [OF m] all by simp
    then show ?thesis using pos [OF m] by simp
  qed
  show "a + 8 * s \<le> c \<or> c + 8 * t \<le> a" if "(a, s) \<in> L" "(c, t) \<in> set fs"
  proof (rule intervals_disjoint)
    have "{a..<a + 8 * s} \<inter> span (set fs) = {}" using that(1) assms by (auto simp: heap_ok_def)
    then show "{a..<a + 8 * s} \<inter> {c..<c + 8 * t} = {}" using span_mem [OF that(2)] by blast
  qed (use pos that in auto)
  show "a + 8 * s \<le> c \<or> c + 8 * t \<le> a" if "(a, s) \<in> L" "(c, t) \<in> L" "(a, s) \<noteq> (c, t)"
  proof (rule intervals_disjoint)
    have "span {(a, s)} \<inter> span {(c, t)} = {}" using that assms unfolding heap_ok_def by blast
    then show "{a..<a + 8 * s} \<inter> {c..<c + 8 * t} = {}" by simp
  qed (use pos that in auto)
qed

lemma merge_next_span: "merge_next a s vs = (s1, vs1) \<Longrightarrow> {a..<a + 8 * s1} \<union> span (set vs1) = {a..<a + 8 * s} \<union> span (set vs)"
  by (cases "(a, s, vs)" rule: merge_next.cases) (auto split: if_splits)

lemma merge_prev_span: "span (set (merge_prev us a s)) = span (set us) \<union> {a..<a + 8 * s}"
proof (cases us rule: rev_cases)
  case (snoc ys y)
  obtain c t where "y = (c, t)" by (cases y)
  then show ?thesis using snoc by (auto simp: merge_prev_def)
qed (simp add: merge_prev_def)

lemma merge_next_apart:
  assumes "merge_next a s vs = (s1, vs1)" "0 < s" "apart e vs" "\<forall>(c, t)\<in>set vs. a + 8 * s \<le> c"
  shows "apart (a + 8 * s1) vs1 \<and> 0 < s1"
  using assms by (cases "(a, s, vs)" rule: merge_next.cases) (auto simp: add.assoc [symmetric] split: if_splits)

lemma merge_prev_apart:
  assumes "apart e us" "lim e us \<le> a" "e < a" "0 < s" "apart (a + 8 * s) vs"
  shows "apart e (merge_prev us a s @ vs)"
proof (cases us rule: rev_cases)
  case (snoc ys y)
  obtain c t where "y = (c, t)" by (cases y)
  then show ?thesis using snoc assms by (auto simp: merge_prev_def apart_append add.assoc [symmetric])
qed (use assms in \<open>simp add: merge_prev_def\<close>)

text \<open>A list of ordered blocks, cut where a block that overlaps none of them belongs.\<close>

lemma split_at:
  assumes "apart e fs" "\<forall>(c, t)\<in>set fs. a + 8 * s \<le> c \<or> c + 8 * t \<le> a"
  obtains us vs where "fs = us @ vs" "\<forall>(c, t)\<in>set us. c + 8 * t \<le> a" "\<forall>(c, t)\<in>set vs. a + 8 * s \<le> c"
proof -
  let ?P = "\<lambda>(c, t). c + 8 * t \<le> a"
  have "apart e xs \<Longrightarrow> \<forall>(c, t)\<in>set xs. a + 8 * s \<le> c \<or> c + 8 * t \<le> a \<Longrightarrow> \<forall>(c, t)\<in>set (dropWhile ?P xs). a + 8 * s \<le> c" for xs
  proof (induction e xs rule: apart.induct)
    case (2 e c t xs)
    have "a + 8 * s \<le> d" if "a + 8 * s \<le> c" "(d, w) \<in> set xs" for d w
      using apart_above [of "c + 8 * t" xs d w] 2(2) that by simp
    then show ?case using 2 by auto
  qed simp
  then have "\<forall>(c, t)\<in>set (dropWhile ?P fs). a + 8 * s \<le> c" using assms by blast
  moreover have "\<forall>(c, t)\<in>set (takeWhile ?P fs). c + 8 * t \<le> a" using set_takeWhileD by fastforce
  ultimately show ?thesis using that [of "takeWhile ?P fs" "dropWhile ?P fs"] by simp
qed

lemma addrs_sorted:
  assumes "apart e fs" "\<forall>(c, t)\<in>set fs. c + 8 * t < 2 ^ 31" "b \<le> e"
  shows "sorted_wrt (<) (of_nat b # addrs fs)"
proof -
  have u: "of_nat c < (of_nat d :: u32)" if "c < d" "d < 2 ^ 31" for c d
    using that by (simp add: word_less_nat_alt unat_of_nat_u32)
  have "sorted_wrt (<) (addrs fs)" using assms(1,2)
  proof (induction e fs rule: apart.induct)
    case (2 e c t xs)
    have "of_nat c < (of_nat d :: u32)" if "(d, w) \<in> set xs" for d w
      using apart_above [of "c + 8 * t" xs d w] 2(2,3) that by (intro u) auto
    then have "\<forall>x\<in>set (addrs xs). of_nat c < x" unfolding addrs_ball by blast
    then show ?case using 2 by simp
  qed simp
  moreover have "\<forall>x\<in>set (addrs fs). of_nat b < x"
  proof -
    have "of_nat b < (of_nat d :: u32)" if "(d, w) \<in> set fs" for d w
      using apart_above [OF assms(1) that] assms(2,3) that by (intro u) auto
    then show ?thesis unfolding addrs_ball by blast
  qed
  ultimately show ?thesis by simp
qed

lemma free_spec:
  assumes ok: "heap_ok b lo fs (insert (a, s) L) h" and new: "(a, s) \<notin> L"
  obtains h' fs' where "free (of_nat (a + 8)) h = Some h'" "heap_ok b lo fs' L h'" "brk h' = brk h"
    "span (set fs') = span (set fs) \<union> {a..<a + 8 * s}" "\<forall>x. unat x \<in> span L \<longrightarrow> um h' x = um h x"
    "\<exists>(c, t)\<in>set fs'. s \<le> t"
proof -
  note hb = heap_bounds [OF ok]
  have o: "0 < b" "b + 8 \<le> lo" "unat (brk h) < 2 ^ 31" "apart (b + 7) fs" "ublocks b h fs" "freep h \<in> set (of_nat b # addrs fs)"
    "lo \<le> unat (brk h)" "hsize h (of_nat a) = of_nat s" using ok by (simp_all add: heap_ok_def)
  have a: "lo \<le> a" "0 < s" "a + 8 * s \<le> unat (brk h)" using hb(1) [of a s] by simp_all
  have hl: "a + 8 * s \<le> c \<or> c + 8 * t \<le> a" if "(c, t) \<in> L" for c t
  proof -
    have "(a, s) \<noteq> (c, t)" using that new by blast
    then show ?thesis using hb(3) [of a s c t] that by simp
  qed
  have fb: "c + 8 * t < 2 ^ 31" if "(c, t) \<in> set fs" for c t using hb(1) [of c t] that o(3) by simp
  have dis: "\<forall>(c, t)\<in>set fs. a + 8 * s \<le> c \<or> c + 8 * t \<le> a" using hb(2) [of a s] by blast
  from split_at [OF o(4) dis] obtain us vs where uv: "fs = us @ vs" "\<forall>(c, t)\<in>set us. c + 8 * t \<le> a" "\<forall>(c, t)\<in>set vs. a + 8 * s \<le> c" .
  have f: "fits b h us a s vs" using o a uv fb by (auto simp: fits_def)
  let ?bp = "of_nat a :: u32" and ?p = "last (of_nat b # addrs us) :: u32"
  have loop: "free_loop h ?bp (freep h) = Some ?p"
  proof (rule free_loop_finds)
    show "chain (hptr h) (of_nat b) (addrs us @ addrs vs) (of_nat b)" using o(5) uv(1) by (simp add: ublocks_def)
    show "sorted_wrt (<) (of_nat b # addrs us @ addrs vs)" using addrs_sorted [OF o(4), of b] fb uv(1) by auto
    show "freep h \<in> set (of_nat b # addrs us @ addrs vs)" using o(6) uv(1) by simp
    have lt: "of_nat c < (of_nat d :: u32)" if "c < d" "d < 2 ^ 31" for c d
      using that by (simp add: word_less_nat_alt unat_of_nat_u32)
    have "of_nat c < ?bp" if "(c, t) \<in> set us" for c t
    proof -
      have "0 < t" using apart_above [OF o(4), of c t] that uv(1) by simp
      then show ?thesis using uv(2) that a o(3) by (intro lt) auto
    qed
    then have "\<forall>x\<in>set (addrs us). x < ?bp" unfolding addrs_ball by blast
    moreover have "of_nat b < ?bp" using o(2,3) a by (intro lt) auto
    ultimately show "\<forall>x\<in>set (of_nat b # addrs us). x < ?bp" by simp
    have "?bp < of_nat c" if "(c, t) \<in> set vs" for c t using uv(1,3) that a fb [of c t] by (intro lt) auto
    then show "\<forall>y\<in>set (addrs vs). ?bp < y" unfolding addrs_ball by blast
  qed
  obtain s1 vs1 where m: "merge_next a s vs = (s1, vs1)" by (cases "merge_next a s vs")
  define h2 where "h2 = join_prev ?bp ?p (join_next ?bp ?p h)"
  note j = join_prev_spec [OF f m h2_def]
  let ?fs = "merge_prev us a s1 @ vs1" and ?h = "h2\<lparr>freep := ?p\<rparr>"
  have "of_nat (a + 8) - SIZEOF_HEADER = ?bp" by (simp add: SIZEOF_HEADER_def)
  then have run: "free (of_nat (a + 8)) h = Some ?h" unfolding free_def Let_def using loop by (simp add: h2_def)
  have sp: "span (set ?fs) = span (set fs) \<union> {a..<a + 8 * s}"
    using merge_prev_span [of us a s1] merge_next_span [OF m] uv(1) by auto
  have ap: "apart (b + 7) ?fs"
  proof -
    have "apart (b + 7) us" "apart (lim (b + 7) us) vs" using o(4) uv(1) by (simp_all add: apart_append)
    moreover have "lim (b + 7) us \<le> a" using uv(2) o(2) a(1) by (intro lim_le) auto
    moreover have "b + 7 < a" using o(2) a(1) by simp
    moreover have "apart (a + 8 * s1) vs1 \<and> 0 < s1"
      by (rule merge_next_apart [OF m a(2) calculation(2) uv(3)])
    ultimately show ?thesis using merge_prev_apart by blast
  qed
  have pin: "?p \<in> set (of_nat b # addrs ?fs)"
  proof (cases us rule: rev_cases)
    case (snoc ys y)
    obtain c t where "y = (c, t)" by (cases y)
    then show ?thesis using snoc by (simp add: merge_prev_def)
  qed simp
  have away_live: "away (of_nat d) (of_nat c)" if c: "(c, t) \<in> L" and d: "d = b \<or> d = a \<or> (\<exists>w. (d, w) \<in> set us)" for c t d
  proof -
    have c1: "lo \<le> c" "0 < t" "c + 8 * t \<le> unat (brk h)" using hb(1) [of c t] c by simp_all
    have "d + 8 \<le> c \<or> c + 8 * t \<le> d" if "(d, w) \<in> set us" for w
    proof -
      have "0 < w" using apart_above [OF o(4), of d w] that uv(1) by simp
      then show ?thesis using hb(2) [of c t d w] c that uv(1) by auto
    qed
    moreover have "a + 8 \<le> c \<or> c + 8 * t \<le> a" using hl [of c t] c a(2) by auto
    ultimately have "d + 8 \<le> c \<or> c + 8 * t \<le> d" using d c1 o(2) by auto
    moreover have "d + 8 \<le> 2 ^ 32"
      using d
    proof (elim disjE exE)
      fix w assume "(d, w) \<in> set us"
      then show "d + 8 \<le> 2 ^ 32" using fb [of d w] uv(1) by simp
    qed (use o(2,3,7) a in simp_all)
    ultimately show ?thesis using c1 o(3) by (intro away_nat) auto
  qed
  have live: "hsize ?h (of_nat c) = of_nat t" if "(c, t) \<in> L" for c t
  proof -
    have "hsize h2 (of_nat c) = hsize h (of_nat c)" using away_live [OF that] by (intro j(4)) auto
    then show ?thesis using that ok by (auto simp: heap_ok_def)
  qed
  have bytes: "um ?h x = um h x" if x: "unat x \<in> span L" for x
  proof -
    obtain c t where c: "(c, t) \<in> L" "unat x \<in> {c..<c + 8 * t}" using x by (auto simp: span_def)
    have "um h2 x = um h x"
    proof (rule j(5))
      show "unat x \<notin> {a..<a + 8}" using hl [of c t] c a(2) by auto
      show "unat x \<notin> {b..<b + 8}" using hb(1) [of c t] c o(2) by auto
      have "unat x \<notin> {d..<d + 8}" if "(d, w) \<in> set us" for d w
      proof -
        have "0 < w" using apart_above [OF o(4), of d w] that uv(1) by simp
        then show ?thesis using hb(2) [of c t d w] c that uv(1) by auto
      qed
      then show "\<forall>(d, w)\<in>set us. unat x \<notin> {d..<d + 8}" by blast
    qed
    then show ?thesis by simp
  qed
  have "heap_ok b lo ?fs L ?h"
    unfolding heap_ok_def
  proof (intro conjI)
    show "\<forall>(c, t)\<in>L. 0 < t \<and> hsize ?h (of_nat c) = of_nat t \<and> {c..<c + 8 * t} \<inter> span (set ?fs) = {}"
    proof (intro ballI, clarify)
      fix c t assume c: "(c, t) \<in> L"
      then have "0 < t" "{c..<c + 8 * t} \<inter> span (set fs) = {}" using ok by (auto simp: heap_ok_def)
      moreover have "{c..<c + 8 * t} \<inter> {a..<a + 8 * s} = {}" using hl [OF c] by auto
      ultimately show "0 < t \<and> hsize ?h (of_nat c) = of_nat t \<and> {c..<c + 8 * t} \<inter> span (set ?fs) = {}"
        using live [OF c] sp by auto
    qed
    show "\<forall>x\<in>L. \<forall>y\<in>L. x \<noteq> y \<longrightarrow> span {x} \<inter> span {y} = {}" using ok by (simp add: heap_ok_def)
    show "span (set ?fs) \<union> span L = {lo..<unat (brk ?h)}" using ok sp j(3) by (auto simp: heap_ok_def)
    show "ublocks b ?h ?fs" using j(1) by (simp add: ublocks_def)
  qed (use o ap pin j(3) in simp_all)
  moreover have "\<exists>(c, t)\<in>set ?fs. s \<le> t" using merge_next_subset [OF m] by (auto simp: merge_prev_def intro: trans_le_add2)
  ultimately show ?thesis using that [OF run] sp bytes j(3) by simp
qed

section \<open>What malloc does\<close>

lemma chain_rotate:
  assumes "chain f b ns b" "q \<in> set (b # ns)"
  obtains xs where "chain f q xs q" "set (q # xs) = set (b # ns)" "distinct (b # ns) \<Longrightarrow> q \<notin> set xs"
proof (cases "q = b")
  case True
  then show ?thesis using that [of ns] assms(1) by simp
next
  case False
  then have "q \<in> set ns" using assms(2) by simp
  then obtain A B where ns: "ns = A @ q # B" using split_list by fast
  then have "chain f b A q" "chain f q B b" using assms(1) by (simp_all add: chain_append)
  then have "chain f q (B @ b # A) q" by (simp add: chain_append)
  then show ?thesis using that [of "B @ b # A"] ns by auto
qed

text \<open>In a ring without repetitions a node has one predecessor.\<close>

lemma chain_pred:
  assumes c: "chain f b (us @ y # vs) b" and d: "distinct (b # us @ y # vs)" and x: "x \<in> set (b # us @ y # vs)" "f x = y"
  shows "x = last (b # us)"
proof -
  obtain A B where AB: "b # us @ y # vs = A @ x # B" using split_list [OF x(1)] by blast
  have "f x = hd (B @ [b])" using AB c by (cases A) (auto simp: chain_append chain_first)
  then have "hd (B @ [b]) = y" using x(2) by simp
  moreover have "y \<noteq> b" using d by auto
  ultimately obtain B' where B: "B = y # B'" by (cases B) auto
  have "(b # us) @ y # vs = (A @ [x]) @ y # B'" using AB B by simp
  moreover have "y \<notin> set (b # us)" using d by auto
  moreover have "y \<notin> set vs" using d by auto
  ultimately have "b # us = A @ [x]" by (metis append_Cons_eq_iff)
  then show ?thesis by simp
qed

text \<open>Headers do not overlap.\<close>

lemma heap_disjoint:
  assumes ok: "heap_ok b lo fs L h" and p: "(p, s) \<in> set fs \<union> L" and q: "(q, t) \<in> set fs \<union> L" "(p, s) \<noteq> (q, t)"
  shows "p + 8 * s \<le> q \<or> q + 8 * t \<le> p"
proof -
  have "p + 8 * s < q \<or> q + 8 * t < p" if "(p, s) \<in> set fs" "(q, t) \<in> set fs"
    using apart_disjoint [OF _ that] q(2) ok by (auto simp: heap_ok_def)
  then show ?thesis using heap_bounds(2,3) [OF ok] p q by (metis Un_iff less_imp_le)
qed

lemma heap_away:
  assumes ok: "heap_ok b lo fs L h" and p: "(p, s) \<in> set fs \<union> L" and r: "p \<le> r" "r + 8 \<le> p + 8 * s"
  shows "away (of_nat r) (of_nat b)" "(q, t) \<in> set fs \<union> L \<Longrightarrow> (p, s) \<noteq> (q, t) \<Longrightarrow> away (of_nat r) (of_nat q)"
proof -
  have o: "b + 8 \<le> lo" "unat (brk h) < 2 ^ 31" using ok by (simp_all add: heap_ok_def)
  note pb = heap_bounds(1) [OF ok p]
  show "away (of_nat r) (of_nat b)" using o pb r by (intro away_nat) auto
  assume q: "(q, t) \<in> set fs \<union> L" "(p, s) \<noteq> (q, t)"
  show "away (of_nat r) (of_nat q)"
    using o pb r heap_bounds(1) [OF ok q(1)] heap_disjoint [OF ok p q] by (intro away_nat) auto
qed

lemma heap_away_base:
  assumes ok: "heap_ok b lo fs L h" and q: "(q, t) \<in> set fs \<union> L"
  shows "away (of_nat b) (of_nat q)"
  using heap_away(1) [OF ok q, of q] heap_bounds(1) [OF ok q] by (simp add: away_sym)

lemma pairwise_insert:
  assumes ok: "heap_ok b lo fs L h" and a: "{a..<a + 8 * n} \<subseteq> span (set fs)"
  shows "\<forall>x\<in>insert (a, n) L. \<forall>y\<in>insert (a, n) L. x \<noteq> y \<longrightarrow> span {x} \<inter> span {y} = {}"
proof -
  have p: "span {x} \<inter> span {y} = {}" if "x \<in> L" "y \<in> L" "x \<noteq> y" for x y using that ok unfolding heap_ok_def by blast
  have l: "span {x} \<inter> span {(a, n)} = {}" if x: "x \<in> L" for x
  proof -
    obtain d w where d: "x = (d, w)" by (cases x)
    have "{d..<d + 8 * w} \<inter> span (set fs) = {}" using ok x d by (auto simp: heap_ok_def)
    moreover have "span {x} = {d..<d + 8 * w}" "span {(a, n)} = {a..<a + 8 * n}" using d by simp_all
    ultimately show ?thesis using a by blast
  qed
  show ?thesis
  proof (intro ballI impI)
    fix x y assume xy: "x \<in> insert (a, n) L" "y \<in> insert (a, n) L" "x \<noteq> y"
    then consider "x \<in> L" "y \<in> L" | "x = (a, n)" "y \<in> L" | "x \<in> L" "y = (a, n)" by blast
    then show "span {x} \<inter> span {y} = {}" using p l xy(3) by cases (auto simp: Int_commute)
  qed
qed

text \<open>A free block of at least \<open>n\<close> units is given out whole, or its upper end is.\<close>

lemma carve_whole:
  assumes ok: "heap_ok b lo (us @ (c, n) # vs) L h" and pv: "prevp = last (of_nat b # addrs us)"
    and h': "h' = (set_ptr prevp (hptr h (of_nat c)) h)\<lparr>freep := prevp\<rparr>"
  shows "(c, n) \<notin> L \<and> heap_ok b lo (us @ vs) (insert (c, n) L) h' \<and> (\<forall>x. unat x \<in> span L \<longrightarrow> um h' x = um h x)"
proof -
  let ?fs = "us @ (c, n) # vs"
  note hb = heap_bounds [OF ok]
  have o: "0 < b" "b + 8 \<le> lo" "unat (brk h) < 2 ^ 31" "apart (b + 7) ?fs" "ublocks b h ?fs" "lo \<le> unat (brk h)"
    using ok by (simp_all add: heap_ok_def)
  have cn: "0 < n" using hb(1) [of c n] by simp
  have sep: "{c..<c + 8 * n} \<inter> span (set (us @ vs)) = {}"
  proof -
    have "{c..<c + 8 * n} \<inter> {d..<d + 8 * w} = {}" if dw: "(d, w) \<in> set (us @ vs)" for d w
    proof -
      have "(c, n) \<noteq> (d, w)" using o(4) dw apart_below [of "b + 7" us d w] apart_above [of "c + 8 * n" vs d w] cn by (auto simp: apart_append)
      then show ?thesis using heap_disjoint [OF ok, of c n d w] dw by auto
    qed
    then show ?thesis unfolding span_def by blast
  qed
  have new: "(c, n) \<notin> L"
  proof
    assume "(c, n) \<in> L"
    then have "{c..<c + 8 * n} \<inter> span (set ?fs) = {}" using ok by (auto simp: heap_ok_def)
    then show False using cn by auto
  qed
  have pn: "prevp = of_nat b \<and> us = [] \<or> (\<exists>ys d w. us = ys @ [(d, w)] \<and> prevp = of_nat d)"
  proof (cases us rule: rev_cases)
    case (snoc ys y)
    then show ?thesis using pv by (cases y) simp
  qed (use pv in simp)
  have "apart (b + 7) us" "apart (lim (b + 7) us) ((c, n) # vs)" using o(4) by (simp_all only: apart_append)
  then have ap: "apart (b + 7) (us @ vs)" using apart_mono [of "c + 8 * n" vs "lim (b + 7) us"] by (simp add: apart_append)
  have pin: "prevp \<in> set (of_nat b # addrs (us @ vs))" using pn by auto
  have aw: "away prevp (of_nat q)" if q: "q = b \<or> (\<exists>t. (q, t) \<in> set ?fs \<union> L)" "of_nat q \<noteq> prevp" for q
    using pn
  proof (elim disjE exE conjE)
    assume "prevp = of_nat b"
    then show ?thesis using q heap_away_base [OF ok, of q] by auto
  next
    fix ys d w assume d: "us = ys @ [(d, w)]" "prevp = of_nat d"
    have dw: "(d, w) \<in> set ?fs \<union> L" using d by simp
    have r: "d + 8 \<le> d + 8 * w" using hb(1) [OF dw] by simp
    show ?thesis using q heap_away [OF ok dw order_refl r] d(2) by auto
  qed
  have "\<exists>q. prevp = of_nat q \<and> q < 2 ^ 31"
    using pn
  proof (elim disjE exE conjE)
    fix ys d w assume d: "us = ys @ [(d, w)]" "prevp = of_nat d"
    then show ?thesis using hb(1) [of d w] o(3) by auto
  qed (use o in auto)
  then have pok: "unat prevp + 8 \<le> 2 ^ 32" by (auto simp: unat_of_nat_u32)
  have upd: "hptr h' prevp = hptr h (of_nat c)" "hsize h' prevp = hsize h prevp" using h' pok by (simp_all add: header_upd)
  have same: "hptr h' (of_nat q) = hptr h (of_nat q) \<and> hsize h' (of_nat q) = hsize h (of_nat q)"
    if "q = b \<or> (\<exists>t. (q, t) \<in> set ?fs \<union> L)" "of_nat q \<noteq> prevp" for q
    using h' aw [OF that] by (simp add: header_other)
  have sz: "hsize h' (of_nat q) = hsize h (of_nat q)" if "q = b \<or> (\<exists>t. (q, t) \<in> set ?fs \<union> L)" for q
    using same [OF that] upd(2) by metis
  have ch: "chain (hptr h) (of_nat b) (addrs us @ of_nat c # addrs vs) (of_nat b)" using o(5) by (simp add: ublocks_def)
  have dist: "distinct (of_nat b # addrs us @ of_nat c # addrs vs)"
  proof -
    have "\<forall>(c, t)\<in>set ?fs. c + 8 * t < 2 ^ 31" using hb(1) o(3) by fastforce
    then show ?thesis using addrs_sorted [OF o(4), of b] strict_sorted_iff [of "of_nat b # addrs ?fs"] by simp
  qed
  have nxt: "hptr h (of_nat c) = hd (addrs vs @ [of_nat b])" using ch by (auto simp: chain_append chain_first)
  have "ublocks b h' (us @ vs)"
    unfolding ublocks_def
  proof (intro conjI)
    have "\<forall>x\<in>set (of_nat b # addrs us @ addrs vs). ((hptr h)(prevp := hptr h (of_nat c))) x = hptr h' x"
    proof
      fix x assume "x \<in> set (of_nat b # addrs us @ addrs vs)"
      then obtain q where "x = of_nat q" "q = b \<or> (\<exists>t. (q, t) \<in> set ?fs \<union> L)" by (auto simp: addrs_mem)
      then show "((hptr h)(prevp := hptr h (of_nat c))) x = hptr h' x" using same [of q] upd(1) by auto
    qed
    note e = chain_cong [OF this, of "of_nat b"]
    have "chain ((hptr h)(prevp := hptr h (of_nat c))) (of_nat b) (addrs us @ addrs vs) (of_nat b)"
      unfolding pv using chain_cut [OF ch dist refl] unfolding nxt .
    then show "chain (hptr h') (of_nat b) (addrs (us @ vs)) (of_nat b)" unfolding e by simp
    show "hsize h' (of_nat b) = 0" using sz [of b] o(5) by (simp add: ublocks_def)
    have "hsize h' (of_nat d) = of_nat w" if dw: "(d, w) \<in> set (us @ vs)" for d w
    proof -
      have "hsize h' (of_nat d) = hsize h (of_nat d)" by (rule sz) (use dw in auto)
      moreover have "hsize h (of_nat d) = of_nat w" using o(5) dw by (auto simp: ublocks_def)
      ultimately show ?thesis by simp
    qed
    then show "\<forall>(d, w)\<in>set (us @ vs). hsize h' (of_nat d) = of_nat w" by blast
  qed
  moreover have "\<forall>(d, w)\<in>insert (c, n) L. 0 < w \<and> hsize h' (of_nat d) = of_nat w \<and> {d..<d + 8 * w} \<inter> span (set (us @ vs)) = {}"
  proof (intro ballI, clarify)
    fix d w assume dw: "(d, w) \<in> insert (c, n) L"
    have "hsize h' (of_nat d) = hsize h (of_nat d)" using sz [of d] dw by auto
    then show "0 < w \<and> hsize h' (of_nat d) = of_nat w \<and> {d..<d + 8 * w} \<inter> span (set (us @ vs)) = {}"
      using dw ok o(5) cn sep by (auto simp: heap_ok_def ublocks_def)
  qed
  moreover have "\<forall>x\<in>insert (c, n) L. \<forall>y\<in>insert (c, n) L. x \<noteq> y \<longrightarrow> span {x} \<inter> span {y} = {}"
    by (rule pairwise_insert [OF ok]) simp
  moreover have "span (set (us @ vs)) \<union> span (insert (c, n) L) = {lo..<unat (brk h')}"
    using ok h' by (auto simp: heap_ok_def)
  ultimately have "heap_ok b lo (us @ vs) (insert (c, n) L) h'"
    using o ap pin h' unfolding heap_ok_def by simp
  moreover have "um h' x = um h x" if x: "unat x \<in> span L" for x
  proof -
    obtain d w where d: "(d, w) \<in> L" "unat x \<in> {d..<d + 8 * w}" using x by (auto simp: span_def)
    have "unat x \<notin> {unat prevp..<unat prevp + 8}"
      using pn
    proof (elim disjE exE conjE)
      assume "prevp = of_nat b"
      moreover have "unat (of_nat b :: u32) = b" using o by (intro unat_of_nat_u32) auto
      ultimately show ?thesis using hb(1) [of d w] d o(2) by auto
    next
      fix ys e z assume e: "us = ys @ [(e, z)]" "prevp = of_nat e"
      have ez: "(e, z) \<in> set ?fs" using e by simp
      have "unat prevp = e" "0 < z" using hb(1) [OF UnI1 [OF ez]] o(3) e(2) by (simp_all add: unat_of_nat_u32)
      then show ?thesis using hb(2) [OF d(1) ez] d(2) by auto
    qed
    then show ?thesis using h' header_bytes(1) [OF pok] by auto
  qed
  ultimately show ?thesis using new by blast
qed

lemma carve_part:
  assumes ok: "heap_ok b lo (us @ (c, t) # vs) L h" and n: "0 < n" "n < t"
    and pv: "prevp \<in> set (of_nat b # addrs (us @ (c, t) # vs))"
    and h': "h' = (set_size (of_nat (c + 8 * (t - n))) (of_nat n) (set_size (of_nat c) (of_nat (t - n)) h))\<lparr>freep := prevp\<rparr>"
  shows "(c + 8 * (t - n), n) \<notin> L \<and> heap_ok b lo (us @ (c, t - n) # vs) (insert (c + 8 * (t - n), n) L) h'
    \<and> (\<forall>x. unat x \<in> span L \<longrightarrow> um h' x = um h x)"
proof -
  let ?fs = "us @ (c, t) # vs" and ?gs = "us @ (c, t - n) # vs" and ?a = "c + 8 * (t - n)"
  note hb = heap_bounds [OF ok]
  have o: "0 < b" "b + 8 \<le> lo" "unat (brk h) < 2 ^ 31" "apart (b + 7) ?fs" "ublocks b h ?fs" "lo \<le> unat (brk h)"
    using ok by (simp_all add: heap_ok_def)
  have ct: "(c, t) \<in> set ?fs \<union> L" by simp
  note cb = hb(1) [OF ct]
  have tn: "c + 8 * t = ?a + 8 * n" "c + 8 \<le> ?a" using n by auto
  have aw: "away (of_nat c) (of_nat q) \<and> away (of_nat ?a) (of_nat q)"
    if q: "q = b \<or> (\<exists>w. (q, w) \<in> set ?fs \<union> L \<and> (q, w) \<noteq> (c, t))" for q
    using q
  proof (elim disjE exE conjE)
    show ?thesis if "q = b" using heap_away(1) [OF ok ct, of c] heap_away(1) [OF ok ct, of ?a] n tn that by simp
    fix w assume w: "(q, w) \<in> set ?fs \<union> L" "(q, w) \<noteq> (c, t)"
    note away_q = heap_away(2) [OF ok ct _ _ w(1) w(2) [symmetric]]
    show ?thesis by (intro conjI away_q) (use n tn in auto)
  qed
  have aca: "away (of_nat c) (of_nat ?a)" using tn cb o(3) n by (intro away_nat) auto
  have ok8: "unat (of_nat c :: u32) + 8 \<le> 2 ^ 32" "unat (of_nat ?a :: u32) + 8 \<le> 2 ^ 32" using aca by (simp_all only: away_def)
  have hd: "hsize h' (of_nat c) = of_nat (t - n)" "hsize h' (of_nat ?a) = of_nat n" "hptr h' (of_nat c) = hptr h (of_nat c)"
    using h' ok8 aca by (simp_all add: header_upd header_other away_sym)
  have same: "hptr h' (of_nat q) = hptr h (of_nat q) \<and> hsize h' (of_nat q) = hsize h (of_nat q)"
    if q: "q = b \<or> (\<exists>w. (q, w) \<in> set ?fs \<union> L \<and> (q, w) \<noteq> (c, t))" for q
    using h' aw [OF q] by (simp add: header_other)
  have split: "{c..<c + 8 * t} = {c..<c + 8 * (t - n)} \<union> {?a..<?a + 8 * n}" using n by auto
  have sp: "span (set ?fs) = span (set ?gs) \<union> {?a..<?a + 8 * n}"
    using split by auto
  have cus: "(c, w) \<notin> set us \<and> (c, w) \<notin> set vs" for w
    using o(4) apart_below [of "b + 7" us c w] apart_above [of "b + 7" us c w] apart_above [of "c + 8 * t" vs c w] n by (auto simp: apart_append)
  have apg: "apart (b + 7) ?gs"
  proof -
    have "apart (c + 8 * t) vs" using o(4) by (simp add: apart_append)
    then have "apart (c + 8 * (t - n)) vs" by (rule apart_mono) simp
    then show ?thesis using o(4) n by (simp add: apart_append)
  qed
  have sep: "{?a..<?a + 8 * n} \<inter> span (set ?gs) = {}"
  proof -
    have "{?a..<?a + 8 * n} \<inter> {d..<d + 8 * w} = {}" if dw: "(d, w) \<in> set ?gs" for d w
    proof (cases "(d, w) = (c, t - n)")
      case False
      then have "(d, w) \<in> set ?fs \<union> L" "(d, w) \<noteq> (c, t)" using dw cus by auto
      from heap_disjoint [OF ok this(1) ct this(2)] show ?thesis using tn by auto
    qed auto
    then show ?thesis unfolding span_def by blast
  qed
  have new: "(?a, n) \<notin> L"
  proof
    assume "(?a, n) \<in> L"
    then have "{?a..<?a + 8 * n} \<inter> span (set ?fs) = {}" using ok by (auto simp: heap_ok_def)
    then show False using n split by auto
  qed
  have "chain (hptr h') (of_nat b) (addrs ?gs) (of_nat b)"
  proof -
    have "\<forall>x\<in>set (of_nat b # addrs ?gs). hptr h' x = hptr h x"
    proof
      fix x assume "x \<in> set (of_nat b # addrs ?gs)"
      then have "x = of_nat b \<or> x = of_nat c \<or> (\<exists>d w. x = of_nat d \<and> (d, w) \<in> set us \<union> set vs)" by (auto simp: addrs_mem)
      then show "hptr h' x = hptr h x"
      proof (elim disjE exE conjE)
        fix d w assume "x = of_nat d" "(d, w) \<in> set us \<union> set vs"
        moreover from this have "d = b \<or> (\<exists>w. (d, w) \<in> set ?fs \<union> L \<and> (d, w) \<noteq> (c, t))" using cus by auto
        ultimately show ?thesis using same by blast
      qed (use hd(3) same [of b] in simp_all)
    qed
    from chain_cong [OF this] show ?thesis using o(5) by (simp add: ublocks_def)
  qed
  moreover have "hsize h' (of_nat d) = of_nat w" if dw: "(d, w) \<in> set ?gs" for d w
  proof (cases "(d, w) = (c, t - n)")
    case False
    then have "hsize h' (of_nat d) = hsize h (of_nat d)" using same [of d] dw cus by fastforce
    moreover have "hsize h (of_nat d) = of_nat w" using o(5) dw False by (auto simp: ublocks_def)
    ultimately show ?thesis by simp
  qed (use hd(1) in simp)
  moreover have "hsize h' (of_nat b) = 0" using same [of b] o(5) by (simp add: ublocks_def)
  ultimately have ub: "ublocks b h' ?gs" unfolding ublocks_def by blast
  have live: "\<forall>(d, w)\<in>insert (?a, n) L. 0 < w \<and> hsize h' (of_nat d) = of_nat w \<and> {d..<d + 8 * w} \<inter> span (set ?gs) = {}"
  proof (intro ballI, clarify)
    fix d w assume dw: "(d, w) \<in> insert (?a, n) L"
    show "0 < w \<and> hsize h' (of_nat d) = of_nat w \<and> {d..<d + 8 * w} \<inter> span (set ?gs) = {}"
    proof (cases "(d, w) = (?a, n)")
      case True
      then show ?thesis using n hd(2) sep by simp
    next
      case False
      then have l: "(d, w) \<in> L" using dw by blast
      then have k: "0 < w" "hsize h (of_nat d) = of_nat w" "{d..<d + 8 * w} \<inter> span (set ?fs) = {}" using ok by (auto simp: heap_ok_def)
      have "(d, w) \<noteq> (c, t)" using k(1,3) by auto
      then have "hsize h' (of_nat d) = hsize h (of_nat d)" using same [of d] l by auto
      moreover have "span (set ?gs) \<subseteq> span (set ?fs)" using sp by blast
      ultimately show ?thesis using k by auto
    qed
  qed
  have pw: "\<forall>x\<in>insert (?a, n) L. \<forall>y\<in>insert (?a, n) L. x \<noteq> y \<longrightarrow> span {x} \<inter> span {y} = {}"
    by (rule pairwise_insert [OF ok]) (use sp in blast)
  have "span (set ?fs) \<union> span L = {lo..<unat (brk h)}" using ok unfolding heap_ok_def by blast
  then have "span (set ?gs) \<union> span (insert (?a, n) L) = {lo..<unat (brk h)}" unfolding span_simps(2) sp by blast
  moreover have "brk h' = brk h" using h' by simp
  ultimately have "span (set ?gs) \<union> span (insert (?a, n) L) = {lo..<unat (brk h')}" by simp
  then have "heap_ok b lo ?gs (insert (?a, n) L) h'"
    using o apg ub live pw pv h' unfolding heap_ok_def by simp
  moreover have "um h' x = um h x" if x: "unat x \<in> span L" for x
  proof -
    obtain d w where d: "(d, w) \<in> L" "unat x \<in> {d..<d + 8 * w}" using x by (auto simp: span_def)
    have "c < 2 ^ 32" "?a < 2 ^ 32" using cb tn o(3) by auto
    note u = this [THEN unat_of_nat_u32]
    have "unat x \<notin> {c..<c + 8 * t}" using hb(2) [OF d(1), of c t] d(2) by auto
    then have "unat x \<notin> {c..<c + 8}" "unat x \<notin> {?a..<?a + 8}" using n tn by auto
    then show ?thesis using h' header_bytes(2) [OF ok8(1), of x] header_bytes(2) [OF ok8(2), of x] unfolding u by auto
  qed
  ultimately show ?thesis using new by blast
qed

lemma carve_spec:
  assumes ok: "heap_ok b lo fs L h" and ct: "(c, t) \<in> set fs" and n: "0 < n" "n \<le> t"
    and pv: "prevp \<in> set (of_nat b # addrs fs)" "hptr h prevp = of_nat c"
  obtains a h' fs' where "carve (of_nat n) prevp (of_nat c) h = (of_nat (a + 8), h')" "(a, n) \<notin> L"
    "heap_ok b lo fs' (insert (a, n) L) h'" "brk h' = brk h" "\<forall>x. unat x \<in> span L \<longrightarrow> um h' x = um h x"
proof -
  obtain us vs where uv: "fs = us @ (c, t) # vs" using split_list [OF ct] by blast
  have o: "apart (b + 7) fs" "ublocks b h fs" "unat (brk h) < 2 ^ 31" using ok by (simp_all add: heap_ok_def)
  have sz: "hsize h (of_nat c) = of_nat t" using o(2) uv by (simp add: ublocks_def)
  have lim: "c + 8 * t < 2 ^ 31" using heap_bounds(1) [OF ok, of c t] ct o(3) by simp
  show ?thesis
  proof (cases "t = n")
    case True
    have "prevp = last (of_nat b # addrs us)"
    proof (rule chain_pred)
      show "chain (hptr h) (of_nat b) (addrs us @ of_nat c # addrs vs) (of_nat b)" using o(2) uv by (simp add: ublocks_def)
      have "\<forall>(c, t)\<in>set fs. c + 8 * t < 2 ^ 31" using heap_bounds(1) [OF ok] o(3) by fastforce
      then show "distinct (of_nat b # addrs us @ of_nat c # addrs vs)"
        using addrs_sorted [OF o(1), of b] strict_sorted_iff [of "of_nat b # addrs fs"] uv by simp
    qed (use pv uv in auto)
    note whole = carve_whole [OF ok [unfolded uv True] this refl]
    have "carve (of_nat n) prevp (of_nat c) h = (of_nat (c + 8), (set_ptr prevp (hptr h (of_nat c)) h)\<lparr>freep := prevp\<rparr>)"
      by (simp add: carve_def sz True SIZEOF_HEADER_def)
    from that [OF this] whole show ?thesis by auto
  next
    case False
    then have lt: "n < t" using n by simp
    have ne: "of_nat t \<noteq> (of_nat n :: u32)" using lim lt by (subst eq_u32) auto
    have sub: "of_nat t - of_nat n = (of_nat (t - n) :: u32)" using lt by simp
    have ad: "hsize (set_size (of_nat c) (of_nat (t - n)) h) (of_nat c) = of_nat (t - n)"
      using lim n lt by (intro header_upd) (simp add: unat_of_nat_u32)
    have q: "of_nat c + SIZEOF_HEADER * of_nat (t - n) = of_nat (c + 8 * (t - n))" by (rule end_u32)
    have r: "of_nat (c + 8 * (t - n)) + SIZEOF_HEADER = of_nat (c + 8 * (t - n) + 8)" by (simp add: SIZEOF_HEADER_def)
    have "carve (of_nat n) prevp (of_nat c) h = (of_nat (c + 8 * (t - n) + 8),
        (set_size (of_nat (c + 8 * (t - n))) (of_nat n) (set_size (of_nat c) (of_nat (t - n)) h))\<lparr>freep := prevp\<rparr>)"
      unfolding carve_def sz sub Let_def ad q r using ne by simp
    from that [OF this] carve_part [OF ok [unfolded uv] n(1) lt pv(1) [unfolded uv] refl] show ?thesis by auto
  qed
qed

lemma chain_last: "chain f a xs b \<Longrightarrow> f (last (a # xs)) = b"
  by (induction xs arbitrary: a) auto

lemma malloc_walk:
  "chain (hptr h) prevp xs y \<Longrightarrow> \<forall>x\<in>set xs. \<not> n \<le> hsize h x \<and> x \<noteq> freep h \<Longrightarrow>
    malloc_loop room n prevp (hptr h prevp) h = malloc_loop room n (last (prevp # xs)) y h"
proof (induction xs arbitrary: prevp)
  case (Cons x xs)
  then have "malloc_loop room n prevp (hptr h prevp) h = malloc_loop room n x (hptr h x) h"
    by (subst malloc_loop.simps) simp
  then show ?case using Cons by simp
qed simp

lemma heap_nodes:
  assumes ok: "heap_ok b lo fs L h"
  shows "chain (hptr h) (of_nat b) (addrs fs) (of_nat b)" "distinct (of_nat b # addrs fs)" "freep h \<in> set (of_nat b # addrs fs)"
    "x \<in> set (of_nat b # addrs fs) \<Longrightarrow> x \<noteq> 0"
    "x \<in> set (of_nat b # addrs fs) \<Longrightarrow> 0 < n \<Longrightarrow> n < 2 ^ 31 \<Longrightarrow> of_nat n \<le> hsize h x \<longleftrightarrow> (\<exists>c t. x = of_nat c \<and> (c, t) \<in> set fs \<and> n \<le> t)"
proof -
  have o: "0 < b" "b + 8 \<le> lo" "lo \<le> unat (brk h)" "unat (brk h) < 2 ^ 31" "apart (b + 7) fs" "ublocks b h fs" using ok by (simp_all add: heap_ok_def)
  note hb = heap_bounds(1) [OF ok]
  show "chain (hptr h) (of_nat b) (addrs fs) (of_nat b)" using o(6) by (simp add: ublocks_def)
  have "\<forall>(c, t)\<in>set fs. c + 8 * t < 2 ^ 31" using hb o(4) by fastforce
  then show d: "distinct (of_nat b # addrs fs)"
    using addrs_sorted [OF o(5), of b] strict_sorted_iff [of "of_nat b # addrs fs"] by simp
  show "freep h \<in> set (of_nat b # addrs fs)" using ok by (simp add: heap_ok_def)
  have nz: "of_nat k \<noteq> (0 :: u32)" if "0 < k" "k < 2 ^ 31" for k using eq_u32 [of k 0] that by simp
  have node: "x = of_nat b \<or> (\<exists>c t. x = of_nat c \<and> (c, t) \<in> set fs)" if "x \<in> set (of_nat b # addrs fs)" using that by (auto simp: addrs_mem)
  show "x \<noteq> 0" if "x \<in> set (of_nat b # addrs fs)"
    using node [OF that]
  proof (elim disjE exE conjE)
    fix c t assume c: "x = of_nat c" "(c, t) \<in> set fs"
    then show ?thesis using nz [of c] hb [of c t] o by auto
  qed (use nz [of b] o in auto)
  show "of_nat n \<le> hsize h x \<longleftrightarrow> (\<exists>c t. x = of_nat c \<and> (c, t) \<in> set fs \<and> n \<le> t)"
    if x: "x \<in> set (of_nat b # addrs fs)" and n: "0 < n" "n < 2 ^ 31"
  proof -
    have un: "unat (of_nat n :: u32) = n" using n(2) by (simp add: unat_of_nat_u32)
    show ?thesis
      using node [OF x]
    proof (elim disjE exE conjE)
      assume xb: "x = of_nat b"
      have "\<nexists>c t. x = of_nat c \<and> (c, t) \<in> set fs" using d xb by (auto simp: addrs_mem)
      moreover have "hsize h x = 0" using xb o(6) by (simp add: ublocks_def)
      ultimately show ?thesis using n(1) un by (auto simp: word_le_nat_alt)
    next
      fix c t assume c: "x = of_nat c" "(c, t) \<in> set fs"
      have bd: "e + 8 * w < 2 ^ 31" if "(e, w) \<in> set fs" for e w using hb [of e w] that o(4) by simp
      have un': "unat (hsize h x) = t" using c bd [OF c(2)] o(6) by (auto simp: ublocks_def unat_of_nat_u32)
      have same: "w = t" if "x = of_nat e" "(e, w) \<in> set fs" for e w
      proof -
        have "e = c" using eq_u32 [of e c] bd [OF c(2)] bd [OF that(2)] c(1) that(1) by simp
        then show ?thesis using apart_disjoint [OF o(5) c(2) that(2)] hb [of c t] c(2) by auto
      qed
      have "of_nat n \<le> hsize h x \<longleftrightarrow> n \<le> t" using un un' by (simp add: word_le_nat_alt)
      then show ?thesis using c same by blast
    qed
  qed
qed

text \<open>With a block that is large enough somewhere in the list the search ends at the first one after \<open>freep\<close>.\<close>

lemma malloc_fit:
  assumes ok: "heap_ok b lo fs L h" and n: "0 < n" "n < 2 ^ 31" and fit: "(c, t) \<in> set fs" "n \<le> t"
  obtains a h' fs' where "malloc_loop room (of_nat n) (freep h) (hptr h (freep h)) h = Some (of_nat (a + 8), h')" "(a, n) \<notin> L"
    "heap_ok b lo fs' (insert (a, n) L) h'" "brk h' = brk h" "\<forall>x. unat x \<in> span L \<longrightarrow> um h' x = um h x"
proof -
  note hn = heap_nodes [OF ok]
  from chain_rotate [OF hn(1,3)] obtain xs where xs: "chain (hptr h) (freep h) xs (freep h)"
    "set (freep h # xs) = set (of_nat b # addrs fs)" "freep h \<notin> set xs" using hn(2) by metis
  let ?P = "\<lambda>x. of_nat n \<le> hsize h x"
  have "of_nat c \<in> set (of_nat b # addrs fs)" using fit by (auto simp: addrs_mem)
  then have "of_nat c \<in> set (xs @ [freep h])" "?P (of_nat c)" using xs(2) hn(5) [of "of_nat c" n] n fit by auto
  then obtain A y B where AB: "xs @ [freep h] = A @ y # B" "?P y" "\<forall>z\<in>set A. \<not> ?P z"
    using split_list_first_prop [of "xs @ [freep h]" ?P] by blast
  have sub: "set A \<subseteq> set xs" "y \<in> set (freep h # xs)"
  proof -
    have "y \<in> set (xs @ [freep h])" unfolding AB(1) by simp
    then show "y \<in> set (freep h # xs)" by auto
    show "set A \<subseteq> set xs" using AB(1) by (cases B rule: rev_cases) auto
  qed
  have ch: "chain (hptr h) (freep h) A y"
    using xs(1) AB(1) by (cases B rule: rev_cases) (auto simp: chain_append)
  have "\<forall>x\<in>set A. \<not> of_nat n \<le> hsize h x \<and> x \<noteq> freep h" using AB(3) sub(1) xs(3) by blast
  note w = malloc_walk [OF ch this, of room]
  let ?p = "last (freep h # A)"
  have p: "?p \<in> set (of_nat b # addrs fs)" "hptr h ?p = y"
  proof -
    have "?p \<in> set (freep h # A)" by (rule last_in_set) simp
    then have "?p \<in> set (freep h # xs)" using sub(1) by auto
    then show "?p \<in> set (of_nat b # addrs fs)" unfolding xs(2) .
    show "hptr h ?p = y" using chain_last [OF ch] .
  qed
  obtain d u where d: "y = of_nat d" "(d, u) \<in> set fs" "n \<le> u" using hn(5) [of y n] n AB(2) sub(2) xs(2) by auto
  obtain a h' fs' where r: "carve (of_nat n) ?p (of_nat d) h = (of_nat (a + 8), h')" "(a, n) \<notin> L"
    "heap_ok b lo fs' (insert (a, n) L) h'" "brk h' = brk h" "\<forall>x. unat x \<in> span L \<longrightarrow> um h' x = um h x"
    using carve_spec [OF ok d(2) n(1) d(3) p(1)] p(2) d(1) by metis
  have "malloc_loop room (of_nat n) ?p y h = Some (of_nat (a + 8), h')"
    using AB(2) r(1) d(1) by (subst malloc_loop.simps) simp
  then show ?thesis using that [OF _ r(2-5)] w by simp
qed

lemma pos_u32: "x \<noteq> 0 \<Longrightarrow> unat (x :: u32) < 2 ^ 31 \<Longrightarrow> 0 <s x"
proof -
  assume x: "x \<noteq> 0" "unat x < 2 ^ 31"
  have "(sint x = 0) = (x = 0)" by (rule signed_eq_0_iff)
  then show "0 <s x" using x sless_zero_u32 [of x] by (simp add: word_sless_alt)
qed

text \<open>More memory is a block that nobody holds, freed at once.\<close>

lemma morecore_spec:
  assumes ok: "heap_ok b lo fs L h" and n: "0 < n" "8 * max 4096 n < 2 ^ 31"
  obtains "morecore room (of_nat n) h = Some (0, h)"
      "unat (brk h) + 8 * max 4096 n \<ge> 2 ^ 31 \<or> \<not> room (brk h) (of_nat (8 * max 4096 n))"
  | h' fs' c t where "morecore room (of_nat n) h = Some (freep h', h')" "heap_ok b lo fs' L h'" "(c, t) \<in> set fs'" "n \<le> t"
      "\<forall>x. unat x \<in> span L \<longrightarrow> um h' x = um h x"
proof -
  define m where "m = max 4096 n"
  have m: "0 < m" "n \<le> m" "8 * m < 2 ^ 31" using n by (auto simp: m_def)
  have nu: "(if of_nat n < (4096 :: u32) then 4096 else of_nat n) = (of_nat m :: u32)"
    using n by (auto simp: m_def word_less_nat_alt unat_of_nat_u32 max_def)
  have o: "0 < b" "b + 8 \<le> lo" "lo \<le> unat (brk h)" "unat (brk h) < 2 ^ 31" using ok by (simp_all add: heap_ok_def)
  let ?d = "of_nat m * SIZEOF_HEADER :: u32" and ?a = "unat (brk h)"
  have de: "?d = of_nat (8 * m)" by (simp add: SIZEOF_HEADER_def)
  have ud: "unat ?d = 8 * m" unfolding de using m by (intro unat_of_nat_u32) simp
  have "?d \<noteq> 0" using ud m(1) by auto
  then have pos: "0 <s ?d" using ud m(3) pos_u32 [of ?d] by simp
  have sum: "unat (brk h + ?d) = ?a + 8 * m" using unat_plus_u32 [of "brk h" "8 * m"] o m unfolding de by simp
  show ?thesis
  proof (cases "brk h + ?d \<ge> KERNBASE \<or> \<not> room (brk h) ?d")
    case True
    then have "morecore room (of_nat n) h = Some (0, h)" using pos by (simp add: morecore_def nu sbrk_def)
    moreover have "?a + 8 * m \<ge> 2 ^ 31 \<or> \<not> room (brk h) (of_nat (8 * m))"
      using True sum unfolding de by (auto simp: word_le_nat_alt KERNBASE_def)
    ultimately show ?thesis using that(1) unfolding m_def by blast
  next
    case False
    let ?h = "set_size (brk h) (of_nat m) (h\<lparr>brk := brk h + ?d\<rparr>)"
    have lim: "?a + 8 * m < 2 ^ 31" using False sum by (simp add: word_le_nat_alt KERNBASE_def)
    have "brk h < 0x80000000" using o(4) by (simp add: word_less_nat_alt)
    then have hp: "brk h \<noteq> - 1" by auto
    have new: "(?a, m) \<notin> L" using heap_bounds(1) [OF ok, of ?a m] m(1) by auto
    have top: "of_nat ?a = brk h" by simp
    have away_top: "away (brk h) (of_nat q)" if q: "q = b \<or> (\<exists>w. (q, w) \<in> set fs \<union> L)" for q
    proof -
      have "q + 8 \<le> ?a" using q
      proof (elim disjE exE)
        fix w assume "(q, w) \<in> set fs \<union> L"
        from heap_bounds(1) [OF ok this] show ?thesis by auto
      qed (use o in simp)
      then have "away (of_nat ?a) (of_nat q)" using o m lim by (intro away_nat) auto
      then show ?thesis unfolding top .
    qed
    have same: "hptr ?h (of_nat q) = hptr h (of_nat q) \<and> hsize ?h (of_nat q) = hsize h (of_nat q)"
      if "q = b \<or> (\<exists>w. (q, w) \<in> set fs \<union> L)" for q using away_top [OF that] by (simp add: header_other)
    have "ublocks b ?h fs"
      unfolding ublocks_def
    proof (intro conjI)
      have "\<forall>x\<in>set (addrs fs). hptr ?h x = hptr h x" unfolding addrs_ball using same by blast
      then have "\<forall>x\<in>set (of_nat b # addrs fs). hptr ?h x = hptr h x" using same [of b] by simp
      from chain_cong [OF this] show "chain (hptr ?h) (of_nat b) (addrs fs) (of_nat b)" using ok by (simp add: heap_ok_def ublocks_def)
      show "hsize ?h (of_nat b) = 0" using same [of b] ok by (simp add: heap_ok_def ublocks_def)
      have "hsize ?h (of_nat d) = of_nat w" if dw: "(d, w) \<in> set fs" for d w
      proof -
        have "hsize ?h (of_nat d) = hsize h (of_nat d)" using same dw by blast
        then show ?thesis using ok dw by (auto simp: heap_ok_def ublocks_def)
      qed
      then show "\<forall>(d, w)\<in>set fs. hsize ?h (of_nat d) = of_nat w" by blast
    qed
    moreover have "\<forall>(d, w)\<in>insert (?a, m) L. 0 < w \<and> hsize ?h (of_nat d) = of_nat w \<and> {d..<d + 8 * w} \<inter> span (set fs) = {}"
    proof (intro ballI, clarify)
      fix d w assume dw: "(d, w) \<in> insert (?a, m) L"
      show "0 < w \<and> hsize ?h (of_nat d) = of_nat w \<and> {d..<d + 8 * w} \<inter> span (set fs) = {}"
      proof (cases "(d, w) = (?a, m)")
        case True
        have "hsize ?h (brk h) = of_nat m" using o(4) by (intro header_upd) simp
        moreover have "span (set fs) \<subseteq> {lo..<?a}" using ok by (auto simp: heap_ok_def)
        ultimately show ?thesis using True m(1) by auto
      next
        case False
        then have l: "(d, w) \<in> L" using dw by blast
        then have "hsize ?h (of_nat d) = hsize h (of_nat d)" using same by blast
        then show ?thesis using ok l by (auto simp: heap_ok_def)
      qed
    qed
    moreover have "\<forall>x\<in>insert (?a, m) L. \<forall>y\<in>insert (?a, m) L. x \<noteq> y \<longrightarrow> span {x} \<inter> span {y} = {}"
    proof -
      have "span L \<subseteq> {lo..<?a}" using ok by (auto simp: heap_ok_def)
      moreover have "{lo..<?a} \<inter> {?a..<?a + 8 * m} = {}" by auto
      moreover have "span {x} \<subseteq> span L" if "x \<in> L" for x using that by (auto simp: span_def)
      moreover have "span {(?a, m)} = {?a..<?a + 8 * m}" by simp
      ultimately have l: "span {x} \<inter> span {(?a, m)} = {}" if "x \<in> L" for x using that by blast
      have p: "span {x} \<inter> span {y} = {}" if "x \<in> L" "y \<in> L" "x \<noteq> y" for x y using that ok unfolding heap_ok_def by blast
      show ?thesis
      proof (intro ballI impI)
        fix x y assume xy: "x \<in> insert (?a, m) L" "y \<in> insert (?a, m) L" "x \<noteq> y"
        then consider "x \<in> L" "y \<in> L" | "x = (?a, m)" "y \<in> L" | "x \<in> L" "y = (?a, m)" by blast
        then show "span {x} \<inter> span {y} = {}"
        proof cases
          case 1
          then show ?thesis using p xy(3) by blast
        next
          case 2
          show ?thesis using l [OF 2(2)] unfolding 2(1) by blast
        next
          case 3
          show ?thesis unfolding 3(2) by (rule l [OF 3(1)])
        qed
      qed
    qed
    moreover have "span (set fs) \<union> span (insert (?a, m) L) = {lo..<unat (brk ?h)}"
    proof -
      have "span (set fs) \<union> span L = {lo..<?a}" using ok by (simp add: heap_ok_def)
      then have "span (set fs) \<union> span (insert (?a, m) L) = {lo..<?a} \<union> {?a..<?a + 8 * m}" unfolding span_simps by blast
      also have "\<dots> = {lo..<?a + 8 * m}" using o(3) by auto
      finally show ?thesis using sum by simp
    qed
    ultimately have ok': "heap_ok b lo fs (insert (?a, m) L) ?h"
      using ok sum lim o unfolding heap_ok_def by simp
    obtain h' fs' where f: "free (of_nat (?a + 8)) ?h = Some h'" "heap_ok b lo fs' L h'" "\<exists>(c, t)\<in>set fs'. m \<le> t"
      "\<forall>x. unat x \<in> span L \<longrightarrow> um h' x = um ?h x" using free_spec [OF ok' new] by metis
    have "brk h + SIZEOF_HEADER = of_nat (?a + 8)" by (simp add: SIZEOF_HEADER_def)
    then have "morecore room (of_nat n) h = Some (freep h', h')"
      using pos False hp f(1) unfolding morecore_def Let_def nu sbrk_def by simp
    moreover obtain c t where "(c, t) \<in> set fs'" "n \<le> t" using f(3) m(2) by auto
    moreover have "um h' x = um h x" if x: "unat x \<in> span L" for x
    proof -
      have "span L \<subseteq> {lo..<?a}" using ok by (auto simp: heap_ok_def)
      then have "unat x < ?a" using x by auto
      then have "um ?h x = um h x" using header_bytes(2) [of "brk h" x] o(4) by simp
      then show ?thesis using f(4) x by simp
    qed
    ultimately show ?thesis using that(2) [OF _ f(2)] by blast
  qed
qed

lemma malloc_loop_spec:
  assumes ok: "heap_ok b lo fs L h" and n: "0 < n" "8 * max 4096 n < 2 ^ 31"
  obtains "malloc_loop room (of_nat n) (freep h) (hptr h (freep h)) h = Some (0, h)"
      "unat (brk h) + 8 * max 4096 n \<ge> 2 ^ 31 \<or> \<not> room (brk h) (of_nat (8 * max 4096 n))"
  | a h' fs' where "malloc_loop room (of_nat n) (freep h) (hptr h (freep h)) h = Some (of_nat (a + 8), h')" "(a, n) \<notin> L"
      "heap_ok b lo fs' (insert (a, n) L) h'" "\<forall>x. unat x \<in> span L \<longrightarrow> um h' x = um h x"
proof (cases "\<exists>(c, t)\<in>set fs. n \<le> t")
  case True
  then obtain c t where "(c, t) \<in> set fs" "n \<le> t" by blast
  moreover have "n < 2 ^ 31" using n(2) by simp
  ultimately show ?thesis using malloc_fit [OF ok n(1)] that(2) by metis
next
  case False
  have n31: "n < 2 ^ 31" using n(2) by simp
  note hn = heap_nodes [OF ok]
  have unfit: "\<not> of_nat n \<le> hsize h x" if "x \<in> set (of_nat b # addrs fs)" for x
    using hn(5) [OF that n(1) n31] False by blast
  from chain_rotate [OF hn(1,3)] obtain xs where xs: "chain (hptr h) (freep h) xs (freep h)"
    "set (freep h # xs) = set (of_nat b # addrs fs)" "freep h \<notin> set xs" using hn(2) by metis
  have "\<forall>x\<in>set xs. \<not> of_nat n \<le> hsize h x \<and> x \<noteq> freep h"
  proof
    fix x assume x: "x \<in> set xs"
    then have "x \<in> set (of_nat b # addrs fs)" using xs(2) by (metis list.set_intros(2))
    then show "\<not> of_nat n \<le> hsize h x \<and> x \<noteq> freep h" using unfit xs(3) x by blast
  qed
  note w = malloc_walk [OF xs(1) this, of room]
  have last: "malloc_loop room (of_nat n) q (freep h) h =
    (case morecore room (of_nat n) h of None \<Rightarrow> None
     | Some (p, h) \<Rightarrow> if p = 0 then Some (0, h) else malloc_loop room (of_nat n) p (hptr h p) h)" for q
    using unfit [OF hn(3)] by (subst malloc_loop.simps) simp
  show ?thesis
  proof (rule morecore_spec [OF ok n, of room])
    assume "morecore room (of_nat n) h = Some (0, h)"
      and ref: "unat (brk h) + 8 * max 4096 n \<ge> 2 ^ 31 \<or> \<not> room (brk h) (of_nat (8 * max 4096 n))"
    then show ?thesis using that(1) [OF _ ref] w last by simp
  next
    fix h1 fs1 c t assume m: "morecore room (of_nat n) h = Some (freep h1, h1)" "heap_ok b lo fs1 L h1" "(c, t) \<in> set fs1" "n \<le> t"
      "\<forall>x. unat x \<in> span L \<longrightarrow> um h1 x = um h x"
    have "freep h1 \<noteq> 0" using heap_nodes(3,4) [OF m(2)] by blast
    then have e: "malloc_loop room (of_nat n) (freep h) (hptr h (freep h)) h = malloc_loop room (of_nat n) (freep h1) (hptr h1 (freep h1)) h1"
      using w last m(1) by simp
    obtain a h' fs' where r: "malloc_loop room (of_nat n) (freep h1) (hptr h1 (freep h1)) h1 = Some (of_nat (a + 8), h')"
      "(a, n) \<notin> L" "heap_ok b lo fs' (insert (a, n) L) h'" "\<forall>x. unat x \<in> span L \<longrightarrow> um h' x = um h1 x"
      using malloc_fit [OF m(2) n(1) n31 m(3,4)] by metis
    show ?thesis using that(2) [OF _ r(2,3)] r(1,4) e m(5) by simp
  qed
qed

text \<open>Requests up to this size are rounded up to units without overflow.\<close>

definition fair :: "u32 \<Rightarrow> bool" where "fair nbytes \<longleftrightarrow> nbytes \<le> 0x7FFFFFE0"

lemma units_fair:
  assumes "fair n"
  shows "unat (units n) = (unat n + 7) div 8 + 1" "0 < unat (units n)" "8 * max 4096 (unat (units n)) < 2 ^ 31"
    "unat n + 8 \<le> 8 * unat (units n)"
proof -
  have n: "unat n \<le> 0x7FFFFFE0" using assms by (simp add: fair_def word_le_nat_alt)
  have "n + SIZEOF_HEADER - 1 = n + of_nat 7" by (simp add: SIZEOF_HEADER_def)
  moreover have "unat (n + of_nat 7) = unat n + 7" by (rule unat_plus_u32) (use n in simp)
  ultimately have "unat (n + SIZEOF_HEADER - 1) = unat n + 7" by (simp only:)
  then have "unat ((n + SIZEOF_HEADER - 1) div SIZEOF_HEADER) = (unat n + 7) div 8" by (simp add: unat_div SIZEOF_HEADER_def)
  moreover have "(unat n + 7) div 8 \<le> unat n + 7" by simp
  then have "(unat n + 7) div 8 + 1 < 2 ^ 32" using n by simp
  ultimately show u: "unat (units n) = (unat n + 7) div 8 + 1"
    using unat_plus_u32 [of "(n + SIZEOF_HEADER - 1) div SIZEOF_HEADER" 1] by (simp add: units_def)
  show "0 < unat (units n)" unfolding u by simp
  have "(unat n + 7) div 8 \<le> (0x7FFFFFE0 + 7) div 8" by (rule div_le_mono) (use n in simp)
  then show "8 * max 4096 (unat (units n)) < 2 ^ 31" unfolding u by (simp add: max_def)
  show "unat n + 8 \<le> 8 * unat (units n)" unfolding u by simp
qed

end
