(* ===== verification/UserHeap.thy ===== *)
theory UserHeap
  imports Umalloc
begin

text \<open>
  A program that uses \<open>umalloc.c\<close>: any sequence of \<open>malloc\<close>, \<open>free\<close> and stores into its own blocks. Lemmas: its blocks
  are independent arrays, and \<open>malloc\<close> fails only when the kernel refuses memory.
\<close>

section \<open>A program that allocates\<close>

text \<open>
  Its blocks are addresses with the size that was asked for and what was stored, byte by byte. It frees only
  what it holds, and stores only inside its blocks.
\<close>

datatype uop = Malloc u32 | Free nat | Store nat nat u8

type_synonym held = "u32 \<times> u32 \<times> (nat \<Rightarrow> u8 option)"

fun user_step :: "(u32 \<Rightarrow> u32 \<Rightarrow> bool) \<Rightarrow> u32 \<Rightarrow> uop \<Rightarrow> held list \<Rightarrow> uheap \<Rightarrow> (held list \<times> uheap) option" where
  "user_step room base (Malloc n) bs h =
     (case malloc room base n h of
        None \<Rightarrow> None
      | Some (p, h) \<Rightarrow> Some (if p = 0 then bs else (p, n, \<lambda>j. None) # bs, h))"
| "user_step room base (Free i) bs h =
     (if i < length bs
      then (case free (fst (bs ! i)) h of None \<Rightarrow> None | Some h \<Rightarrow> Some (take i bs @ drop (Suc i) bs, h))
      else Some (bs, h))"
| "user_step room base (Store i j v) bs h =
     (if i < length bs
      then (case bs ! i of (p, n, c) \<Rightarrow>
              if j < unat n then Some (bs[i := (p, n, c(j := Some v))], h\<lparr>um := (um h)(p + of_nat j := v)\<rparr>) else Some (bs, h))
      else Some (bs, h))"

fun user_run :: "(u32 \<Rightarrow> u32 \<Rightarrow> bool) \<Rightarrow> u32 \<Rightarrow> uop list \<Rightarrow> held list \<Rightarrow> uheap \<Rightarrow> (held list \<times> uheap) option" where
  "user_run room base [] bs h = Some (bs, h)"
| "user_run room base (x # xs) bs h =
     (case user_step room base x bs h of None \<Rightarrow> None | Some (bs, h) \<Rightarrow> user_run room base xs bs h)"

text \<open>The header of a block, and what holds of all blocks.\<close>

definition blk :: "held \<Rightarrow> nat \<times> nat" where "blk x = (unat (fst x) - 8, unat (units (fst (snd x))))"

definition held_ok :: "uheap \<Rightarrow> held \<Rightarrow> bool" where
  "held_ok h x \<longleftrightarrow> 8 \<le> unat (fst x) \<and> fair (fst (snd x))
     \<and> (\<forall>j v. snd (snd x) j = Some v \<longrightarrow> j < unat (fst (snd x)) \<and> um h (fst x + of_nat j) = v)"

definition program_ok :: "nat \<Rightarrow> nat \<Rightarrow> held list \<Rightarrow> uheap \<Rightarrow> bool" where
  "program_ok b lo bs h \<longleftrightarrow> (\<exists>fs. heap_ok b lo fs (set (map blk bs)) h) \<and> distinct (map blk bs) \<and> (\<forall>x\<in>set bs. held_ok h x)"

lemma payload:
  assumes ok: "heap_ok b lo fs L h" and x: "blk (p, n, c) \<in> L" "8 \<le> unat p" "fair n" and j: "j < unat n"
  shows "unat (p + of_nat j) = unat p + j" "unat (p + of_nat j) \<in> span {blk (p, n, c)}" "unat p + j < 2 ^ 31"
    "unat p - 8 + 8 \<le> unat (p + of_nat j)"
proof -
  obtain a s where as: "blk (p, n, c) = (a, s)" by (cases "blk (p, n, c)")
  then have a: "a = unat p - 8" "s = unat (units n)" by (simp_all add: blk_def)
  have bd: "a + 8 * s < 2 ^ 31" using heap_bounds(1) [OF ok, of a s] x(1) as ok by (auto simp: heap_ok_def)
  have n: "unat n + 8 \<le> 8 * s" using units_fair(4) [OF x(3)] a by simp
  then show lt: "unat p + j < 2 ^ 31" using bd a x(2) j by linarith
  then show u: "unat (p + of_nat j) = unat p + j" using unat_plus_u32 [of p j] by simp
  show "unat (p + of_nat j) \<in> span {blk (p, n, c)}" 
  proof -
    have "a \<le> unat p + j" "unat p + j < a + 8 * s" using a(1) x(2) j n by linarith+
    then show ?thesis unfolding u as by simp
  qed
  show "unat p - 8 + 8 \<le> unat (p + of_nat j)" unfolding u using x(2) by simp
qed

lemma of_nat_u32: "unat (x :: u32) = n \<Longrightarrow> x = of_nat n"
  by auto

lemma held_kept:
  assumes ok: "heap_ok b lo fs L h" and x: "blk x \<in> L" "held_ok h x" and um: "\<forall>a. unat a \<in> span L \<longrightarrow> um h' a = um h a"
  shows "held_ok h' x"
proof -
  obtain p n c where e: "x = (p, n, c)" by (cases x)
  have "um h' (p + of_nat j) = v" if c: "c j = Some v" for j v
  proof -
    have j: "j < unat n" "um h (p + of_nat j) = v" using x(2) c e by (auto simp: held_ok_def)
    have "unat (p + of_nat j) \<in> span {blk x}" using payload(2) [OF ok, of p n c] x e j(1) by (simp add: held_ok_def)
    then have "unat (p + of_nat j) \<in> span L" using x(1) by (auto simp: span_def)
    then show ?thesis using um j(2) by simp
  qed
  then show ?thesis using x(2) e by (auto simp: held_ok_def)
qed

lemma malloc_step:
  assumes ok: "program_ok b lo bs h" and n: "fair n" and p: "malloc_loop room (units n) (freep h) (hptr h (freep h)) h = Some (p, h')"
  shows "program_ok b lo (if p = 0 then bs else (p, n, \<lambda>j. None) # bs) h'"
proof -
  let ?L = "set (map blk bs)"
  obtain fs where fs: "heap_ok b lo fs ?L h" "distinct (map blk bs)" "\<forall>x\<in>set bs. held_ok h x" using ok by (auto simp: program_ok_def)
  note u = units_fair [OF n]
  have un: "of_nat (unat (units n)) = units n" by simp
  show ?thesis
  proof (rule malloc_loop_spec [OF fs(1) u(2,3), of room], unfold un)
    assume "malloc_loop room (units n) (freep h) (hptr h (freep h)) h = Some (0, h)"
    then show ?thesis using p ok by simp
  next
    fix a h1 fs1 assume r: "malloc_loop room (units n) (freep h) (hptr h (freep h)) h = Some (of_nat (a + 8), h1)"
      "(a, unat (units n)) \<notin> ?L" "heap_ok b lo fs1 (insert (a, unat (units n)) ?L) h1"
      "\<forall>x. unat x \<in> span ?L \<longrightarrow> um h1 x = um h x"
    have e: "p = of_nat (a + 8)" "h' = h1" using p r(1) by simp_all
    have "a + 8 * unat (units n) < 2 ^ 31" using heap_bounds(1) [OF r(3), of a "unat (units n)"] r(3) by (auto simp: heap_ok_def)
    then have "unat (of_nat (a + 8) :: u32) = a + 8" using u(2) by (intro unat_of_nat_u32) simp
    then have up: "unat p = a + 8" unfolding e(1) .
    then have "p \<noteq> 0" by auto
    have b: "blk (p, n, \<lambda>j. None) = (a, unat (units n))" using up by (simp add: blk_def)
    have "held_ok h1 x" if "x \<in> set bs" for x
      using held_kept [OF fs(1), of x h1] fs(3) that r(4) by simp
    moreover have "held_ok h1 (p, n, \<lambda>j. None)" using up n by (simp add: held_ok_def)
    ultimately have "program_ok b lo ((p, n, \<lambda>j. None) # bs) h1"
      using r(2,3) fs(2) b unfolding program_ok_def by (auto intro!: exI [of _ fs1])
    then show ?thesis using \<open>p \<noteq> 0\<close> e(2) by simp
  qed
qed

text \<open>What \<open>malloc\<close> does not get from its list it asks the kernel for, in pieces of at least 4096 units.\<close>

definition granted :: "(u32 \<Rightarrow> u32 \<Rightarrow> bool) \<Rightarrow> u32 \<Rightarrow> uheap \<Rightarrow> bool" where
  "granted room n h \<longleftrightarrow> unat (brk h) + 8 * max 4096 (unat (units n)) < 2 ^ 31
     \<and> room (brk h) (of_nat (8 * max 4096 (unat (units n))))"

lemma malloc_returns:
  assumes ok: "program_ok b lo bs h" and n: "fair n"
  obtains p h' where "malloc_loop room (units n) (freep h) (hptr h (freep h)) h = Some (p, h')" "granted room n h \<Longrightarrow> p \<noteq> 0"
proof -
  obtain fs where fs: "heap_ok b lo fs (set (map blk bs)) h" using ok by (auto simp: program_ok_def)
  have un: "of_nat (unat (units n)) = units n" by simp
  note u = units_fair [OF n]
  show ?thesis
  proof (rule malloc_loop_spec [OF fs u(2,3), of room], unfold un)
    assume "malloc_loop room (units n) (freep h) (hptr h (freep h)) h = Some (0, h)"
      "unat (brk h) + 8 * max 4096 (unat (units n)) \<ge> 2 ^ 31 \<or> \<not> room (brk h) (of_nat (8 * max 4096 (unat (units n))))"
    then show ?thesis by (intro that [of 0 h]) (auto simp: granted_def)
  next
    fix a h1 fs1 assume r: "malloc_loop room (units n) (freep h) (hptr h (freep h)) h = Some (of_nat (a + 8), h1)"
      "heap_ok b lo fs1 (insert (a, unat (units n)) (set (map blk bs))) h1"
    have "a + 8 * unat (units n) < 2 ^ 31" using heap_bounds(1) [OF r(2), of a "unat (units n)"] r(2) by (auto simp: heap_ok_def)
    then have "of_nat (a + 8) \<noteq> (0 :: u32)" using eq_u32 [of "a + 8" 0] u(2) by simp
    then show ?thesis using that r(1) by blast
  qed
qed

lemma freep_set: "program_ok b lo bs h \<Longrightarrow> freep h \<noteq> 0"
  unfolding program_ok_def using heap_nodes(3,4) by blast

lemma free_step:
  assumes ok: "program_ok b lo bs h" and i: "i < length bs"
  obtains h' where "free (fst (bs ! i)) h = Some h'" "program_ok b lo (take i bs @ drop (Suc i) bs) h'"
proof -
  obtain fs where fs: "heap_ok b lo fs (set (map blk bs)) h" "distinct (map blk bs)" "\<forall>x\<in>set bs. held_ok h x" using ok by (auto simp: program_ok_def)
  let ?x = "bs ! i" and ?cs = "take i bs @ drop (Suc i) bs"
  obtain a s where as: "blk ?x = (a, s)" by (cases "blk ?x")
  have bs: "bs = take i bs @ ?x # drop (Suc i) bs" using i by (rule id_take_nth_drop)
  have sub: "set ?cs \<subseteq> set bs" by (auto dest: in_set_takeD in_set_dropD)
  have "map blk bs = map blk (take i bs) @ (a, s) # map blk (drop (Suc i) bs)" using arg_cong [OF bs, of "map blk"] as by simp
  then have L: "set (map blk bs) = insert (a, s) (set (map blk ?cs))" "(a, s) \<notin> set (map blk ?cs)" "distinct (map blk ?cs)"
    using fs(2) by auto
  have "8 \<le> unat (fst ?x)" using fs(3) i by (simp add: held_ok_def)
  then have "unat (fst ?x) = a + 8" using as by (auto simp: blk_def)
  then have p: "fst ?x = of_nat (a + 8)" by (rule of_nat_u32)
  obtain h' fs' where r: "free (of_nat (a + 8)) h = Some h'" "heap_ok b lo fs' (set (map blk ?cs)) h'"
    "\<forall>x. unat x \<in> span (set (map blk ?cs)) \<longrightarrow> um h' x = um h x"
    using free_spec [OF fs(1) [unfolded L(1)] L(2)] by metis
  have sp: "span (set (map blk ?cs)) \<subseteq> span (set (map blk bs))" unfolding L(1) by simp
  have "held_ok h' x" if x: "x \<in> set ?cs" for x
  proof -
    have k: "held_ok (h\<lparr>um := um h'\<rparr>) x"
    proof -
      obtain p n c where e: "x = (p, n, c)" by (cases x)
      have o: "held_ok h x" using fs(3) x sub by blast
      have "um h' (p + of_nat j) = v" if c: "c j = Some v" for j v
      proof -
        have j: "j < unat n" "um h (p + of_nat j) = v" using o c e by (auto simp: held_ok_def)
        have "blk x \<in> set (map blk bs)" using x sub by auto
        then have "unat (p + of_nat j) \<in> span {blk x}" using payload(2) [OF fs(1), of p n c] o e j(1) by (simp add: held_ok_def)
        moreover have "span {blk x} \<subseteq> span (set (map blk ?cs))" using x by (auto simp: span_def)
        ultimately show ?thesis using r(3) j(2) by auto
      qed
      then show ?thesis using o e by (auto simp: held_ok_def)
    qed
    then show ?thesis by (simp add: held_ok_def)
  qed
  then have "program_ok b lo ?cs h'" using r(2) L(3) unfolding program_ok_def by blast
  then show ?thesis using that r(1) p by simp
qed

lemma store_step:
  assumes ok: "program_ok b lo bs h" and i: "i < length bs" and x: "bs ! i = (p, n, c)" and j: "j < unat n"
  shows "program_ok b lo (bs[i := (p, n, c(j := Some v))]) (h\<lparr>um := (um h)(p + of_nat j := v)\<rparr>)"
proof -
  obtain fs where fs: "heap_ok b lo fs (set (map blk bs)) h" "distinct (map blk bs)" "\<forall>x\<in>set bs. held_ok h x" using ok by (auto simp: program_ok_def)
  let ?h = "h\<lparr>um := (um h)(p + of_nat j := v)\<rparr>" and ?y = "(p, n, c(j := Some v))" and ?L = "set (map blk bs)"
  have hx: "held_ok h (p, n, c)" and xL: "blk (p, n, c) \<in> ?L" using fs(3) i x by (metis nth_mem, metis nth_map nth_mem length_map i x)
  then have p8: "8 \<le> unat p" "fair n" by (simp_all add: held_ok_def)
  note pay = payload [OF fs(1) xL p8]
  obtain a s where as: "blk (p, n, c) = (a, s)" by (cases "blk (p, n, c)")
  have ap: "a = unat p - 8" using as by (simp add: blk_def)
  have inb: "unat (p + of_nat j) \<in> {a + 8..<a + 8 * s}" using pay(2,4) [OF j] as ap by simp
  have as_L: "(a, s) \<in> ?L" using xL as by simp
  have far: "hptr ?h (of_nat q) = hptr h (of_nat q) \<and> hsize ?h (of_nat q) = hsize h (of_nat q)"
    if q: "q = b \<or> (\<exists>w. (q, w) \<in> set fs \<union> ?L)" for q
  proof -
    have "unat (p + of_nat j) < q \<or> q + 8 \<le> unat (p + of_nat j)" "q + 8 \<le> 2 ^ 32"
    proof -
      have o: "b + 8 \<le> lo" "unat (brk h) < 2 ^ 31" "lo \<le> unat (brk h)" using fs(1) by (simp_all add: heap_ok_def)
      have bd: "lo \<le> a" "a + 8 * s \<le> unat (brk h)" using heap_bounds(1) [OF fs(1), of a s] as_L by simp_all
      have "(unat (p + of_nat j) < q \<or> q + 8 \<le> unat (p + of_nat j)) \<and> q + 8 \<le> 2 ^ 32"
        using q
      proof (elim disjE exE)
        fix w assume w: "(q, w) \<in> set fs \<union> ?L"
        have qb: "0 < w" "q + 8 * w \<le> unat (brk h)" using heap_bounds(1) [OF fs(1) w] by simp_all
        show ?thesis
        proof (cases "(a, s) = (q, w)")
          case False
          have "a + 8 * s \<le> q \<or> q + 8 * w \<le> a" using heap_disjoint [OF fs(1) _ w False] as_L by simp
          then show ?thesis using inb qb o by auto
        qed (use inb qb o in auto)
      qed (use inb bd o in auto)
      then show "unat (p + of_nat j) < q \<or> q + 8 \<le> unat (p + of_nat j)" "q + 8 \<le> 2 ^ 32" by simp_all
    qed
    then have "um ?h (of_nat q + of_nat i) = um h (of_nat q + of_nat i)" if "i < 8" for i
    proof -
      have "unat (of_nat q + of_nat i :: u32) = q + i"
        using that \<open>q + 8 \<le> 2 ^ 32\<close> unat_plus_u32 [of "of_nat q" i] by (simp add: unat_of_nat_u32)
      then have "of_nat q + of_nat i \<noteq> p + of_nat j" using that \<open>unat (p + of_nat j) < q \<or> q + 8 \<le> unat (p + of_nat j)\<close> by auto
      then show ?thesis by simp
    qed note b8 = this
    have "rd32 (um ?h) (of_nat q) = rd32 (um h) (of_nat q)" by (rule rd32_cong_word) (use b8 in simp)
    moreover have "rd32 (um ?h) (of_nat q + 4) = rd32 (um h) (of_nat q + 4)"
    proof (rule rd32_cong_word)
      fix i :: nat assume "i < 4"
      then have "um ?h (of_nat q + of_nat (4 + i)) = um h (of_nat q + of_nat (4 + i))" by (intro b8) simp
      then show "um ?h (of_nat q + 4 + of_nat i) = um h (of_nat q + 4 + of_nat i)" by (simp only: of_nat_add of_nat_numeral add.assoc)
    qed
    ultimately show ?thesis by (simp add: hptr_def hsize_def)
  qed
  have ub: "ublocks b ?h fs"
    unfolding ublocks_def
  proof (intro conjI)
    have "\<forall>x\<in>set (addrs fs). hptr ?h x = hptr h x" unfolding addrs_ball using far by blast
    then have "\<forall>x\<in>set (of_nat b # addrs fs). hptr ?h x = hptr h x" using far [of b] by simp
    from chain_cong [OF this] show "chain (hptr ?h) (of_nat b) (addrs fs) (of_nat b)" using fs(1) by (simp add: heap_ok_def ublocks_def)
    show "hsize ?h (of_nat b) = 0" using far [of b] fs(1) by (simp add: heap_ok_def ublocks_def)
    have "hsize ?h (of_nat d) = of_nat w" if dw: "(d, w) \<in> set fs" for d w
    proof -
      have "hsize ?h (of_nat d) = hsize h (of_nat d)" using far dw by blast
      then show ?thesis using fs(1) dw by (auto simp: heap_ok_def ublocks_def)
    qed
    then show "\<forall>(d, w)\<in>set fs. hsize ?h (of_nat d) = of_nat w" by blast
  qed
  have "hsize ?h (of_nat d) = of_nat w" if dw: "(d, w) \<in> ?L" for d w
  proof -
    have "hsize ?h (of_nat d) = hsize h (of_nat d)" using far dw by blast
    then show ?thesis using fs(1) dw by (auto simp: heap_ok_def)
  qed
  then have live: "\<forall>(d, w)\<in>?L. 0 < w \<and> hsize ?h (of_nat d) = of_nat w \<and> {d..<d + 8 * w} \<inter> span (set fs) = {}"
    using fs(1) unfolding heap_ok_def by blast
  have ok': "heap_ok b lo fs ?L ?h"
    using fs(1) ub live unfolding heap_ok_def by simp
  have bl: "map blk (bs[i := ?y]) = map blk bs"
  proof -
    have "blk ?y = map blk bs ! i" using i x by (simp add: blk_def)
    then show ?thesis by (simp add: map_update list_update_id)
  qed
  have "held_ok ?h z" if z: "z \<in> set (bs[i := ?y])" for z
  proof -
    obtain k where k: "k < length bs" "z = bs[i := ?y] ! k" using z by (metis in_set_conv_nth length_list_update)
    show ?thesis
    proof (cases "k = i")
      case True
      have "um ?h (p + of_nat l) = w" if w: "(c(j := Some v)) l = Some w" for l w
      proof (cases "l = j")
        case False
        then have l: "l < unat n" "um h (p + of_nat l) = w" using w hx by (auto simp: held_ok_def)
        then have "p + of_nat l \<noteq> p + of_nat j" using pay(1) [OF l(1)] pay(1) [OF j] False by auto
        then show ?thesis using l by simp
      qed (use w in simp)
      then show ?thesis using True k i hx j by (auto simp: held_ok_def)
    next
      case False
      obtain q m e where zq: "bs ! k = (q, m, e)" by (cases "bs ! k")
      have zz: "z = (q, m, e)" using k zq False by simp
      have hz: "held_ok h (q, m, e)" and zL: "blk (q, m, e) \<in> ?L" using fs(3) k(1) zq by (metis nth_mem, metis nth_map nth_mem length_map k(1) zq)
      have ne: "blk (q, m, e) \<noteq> blk (p, n, c)" 
      proof -
        have "map blk bs ! k \<noteq> map blk bs ! i" using fs(2) False k(1) i unfolding distinct_conv_nth length_map by blast
        then show ?thesis using k(1) i zq x by simp
      qed
      have "um ?h (q + of_nat l) = w" if w: "e l = Some w" for l w
      proof -
        have l: "l < unat m" "um h (q + of_nat l) = w" "8 \<le> unat q" "fair m" using hz w by (auto simp: held_ok_def)
        have "unat (q + of_nat l) \<in> span {blk (q, m, e)}" by (rule payload(2) [OF fs(1) zL l(3,4,1)])
        moreover have "span {blk (q, m, e)} \<inter> span {blk (p, n, c)} = {}" using fs(1) zL xL ne unfolding heap_ok_def by blast
        ultimately have "q + of_nat l \<noteq> p + of_nat j" using pay(2) [OF j] by auto
        then show ?thesis using l(2) by simp
      qed
      then show ?thesis using hz zz by (auto simp: held_ok_def)
    qed
  qed
  then show ?thesis unfolding program_ok_def bl using ok' fs(2) by blast
qed

text \<open>The first call of \<open>malloc\<close> makes the list: \<open>base\<close> alone.\<close>

lemma first_list:
  assumes "0 < unat base" "unat base + 8 \<le> unat (brk h)" "unat (brk h) < 2 ^ 31"
  shows "program_ok (unat base) (unat (brk h)) [] (set_size base 0 (set_ptr base base (h\<lparr>freep := base\<rparr>)))"
proof -
  have "unat base + 8 \<le> 2 ^ 32" using assms by simp
  then show ?thesis using assms by (simp add: program_ok_def heap_ok_def ublocks_def header_upd exI [of _ "[]"])
qed

definition user_ok :: "u32 \<Rightarrow> nat \<Rightarrow> held list \<Rightarrow> uheap \<Rightarrow> bool" where
  "user_ok base lo bs h \<longleftrightarrow> program_ok (unat base) lo bs h
     \<or> bs = [] \<and> freep h = 0 \<and> 0 < unat base \<and> unat base + 8 \<le> lo \<and> lo < 2 ^ 31 \<and> lo = unat (brk h)"

lemma user_okI: "program_ok (unat base) lo bs h \<Longrightarrow> user_ok base lo bs h"
  by (simp add: user_ok_def)

lemma user_malloc:
  assumes ok: "user_ok base lo bs h" and n: "fair n"
  obtains p h' where "malloc room base n h = Some (p, h')" "user_ok base lo (if p = 0 then bs else (p, n, \<lambda>j. None) # bs) h'"
    "granted room n h \<Longrightarrow> p \<noteq> 0"
proof (cases "program_ok (unat base) lo bs h")
  case True
  obtain p h' where p: "malloc_loop room (units n) (freep h) (hptr h (freep h)) h = Some (p, h')" "granted room n h \<Longrightarrow> p \<noteq> 0"
    using malloc_returns [OF True n, of room] by metis
  have "malloc room base n h = Some (p, h')" using freep_set [OF True] p(1) by (simp add: malloc_def)
  moreover have "user_ok base lo (if p = 0 then bs else (p, n, \<lambda>j. None) # bs) h'"
    by (rule user_okI, rule malloc_step [OF True n p(1)])
  ultimately show ?thesis using that p(2) by blast
next
  case False
  then have f: "bs = []" "freep h = 0" "0 < unat base" "unat base + 8 \<le> lo" "lo < 2 ^ 31" "lo = unat (brk h)"
    using ok by (simp_all add: user_ok_def)
  let ?h = "set_size base 0 (set_ptr base base (h\<lparr>freep := base\<rparr>))"
  have o: "program_ok (unat base) lo [] ?h" using first_list [of base h] f by simp
  obtain p h' where p: "malloc_loop room (units n) (freep ?h) (hptr ?h (freep ?h)) ?h = Some (p, h')" "granted room n ?h \<Longrightarrow> p \<noteq> 0"
    using malloc_returns [OF o n, of room] by metis
  have "malloc room base n h = Some (p, h')" using f(2) p(1) by (simp add: malloc_def)
  moreover have "granted room n h \<Longrightarrow> p \<noteq> 0" using p(2) by (simp add: granted_def)
  moreover have "user_ok base lo (if p = 0 then bs else (p, n, \<lambda>j. None) # bs) h'"
    unfolding f(1) by (rule user_okI, rule malloc_step [OF o n p(1)])
  ultimately show ?thesis using that by blast
qed

lemma user_step_ok:
  assumes ok: "user_ok base lo bs h" and n: "\<forall>n. x = Malloc n \<longrightarrow> fair n"
  obtains bs' h' where "user_step room base x bs h = Some (bs', h')" "user_ok base lo bs' h'"
proof (cases x)
  case (Malloc n)
  have "fair n" using n Malloc by simp
  then obtain p h' where p: "malloc room base n h = Some (p, h')" "user_ok base lo (if p = 0 then bs else (p, n, \<lambda>j. None) # bs) h'"
    using user_malloc [OF ok, of n room] by metis
  show ?thesis by (rule that [OF _ p(2)]) (simp add: Malloc p(1))
next
  case (Free i)
  show ?thesis
  proof (cases "i < length bs")
    case True
    then have "program_ok (unat base) lo bs h" using ok by (auto simp: user_ok_def)
    from free_step [OF this True] obtain h' where f: "free (fst (bs ! i)) h = Some h'"
      "program_ok (unat base) lo (take i bs @ drop (Suc i) bs) h'" by metis
    show ?thesis by (rule that [OF _ user_okI [OF f(2)]]) (simp add: Free True f(1))
  qed (use that ok Free in simp)
next
  case (Store i j v)
  show ?thesis
  proof (cases "i < length bs")
    case True
    then have p: "program_ok (unat base) lo bs h" using ok by (auto simp: user_ok_def)
    obtain q n c where e: "bs ! i = (q, n, c)" by (cases "bs ! i")
    show ?thesis
    proof (cases "j < unat n")
      case True
      show ?thesis by (rule that [OF _ user_okI [OF store_step [OF p \<open>i < length bs\<close> e True]]]) (simp add: Store e \<open>i < length bs\<close> True)
    qed (use that ok Store True e in simp)
  qed (use that ok Store in simp)
qed

lemma user_run_ok:
  "user_ok base lo bs h \<Longrightarrow> \<forall>n. Malloc n \<in> set ops \<longrightarrow> fair n \<Longrightarrow>
    \<exists>bs' h'. user_run room base ops bs h = Some (bs', h') \<and> user_ok base lo bs' h'"
proof (induction ops arbitrary: bs h)
  case (Cons x ops)
  have "\<forall>n. x = Malloc n \<longrightarrow> fair n" using Cons.prems(2) by auto
  then obtain bs1 h1 where "user_step room base x bs h = Some (bs1, h1)" "user_ok base lo bs1 h1"
    using user_step_ok [OF Cons.prems(1), of x room] by metis
  then show ?case using Cons by simp
qed simp

section \<open>Properties\<close>

text \<open>
  C14: The allocator gives a program independent arrays. Whatever sequence of \<open>malloc\<close>, \<open>free\<close> and stores into its
  blocks a program makes, every call returns; the blocks that it holds lie above the static data and below the end of the
  process, no two overlap, every byte that was stored in one is still there, and the next \<open>malloc\<close> succeeds if the
  kernel grants memory.
\<close>

theorem malloc_gives_arrays:
  assumes "freep h = 0" and "0 < unat base" and "unat base + 8 \<le> unat (brk h)" and "unat (brk h) < 2 ^ 31"
    and "\<forall>n. Malloc n \<in> set ops \<longrightarrow> fair n"
  shows "\<exists>bs h'. user_run room base ops [] h = Some (bs, h')
    \<and> (\<forall>(p, n, c)\<in>set bs. unat base + 8 \<le> unat p \<and> unat p + unat n \<le> unat (brk h')
          \<and> (\<forall>j v. c j = Some v \<longrightarrow> um h' (p + of_nat j) = v))
    \<and> (\<forall>i<length bs. \<forall>k<i. case (bs ! i, bs ! k) of ((p, n, c), (q, m, d)) \<Rightarrow> unat p + unat n \<le> unat q \<or> unat q + unat m \<le> unat p)
    \<and> (\<forall>n. fair n \<and> granted room n h' \<longrightarrow> (\<exists>p h''. malloc room base n h' = Some (p, h'') \<and> p \<noteq> 0))"
proof -
  have "user_ok base (unat (brk h)) [] h" using assms by (simp add: user_ok_def)
  from user_run_ok [OF this assms(5)] obtain bs h' where r: "user_run room base ops [] h = Some (bs, h')"
    "user_ok base (unat (brk h)) bs h'" by blast
  have last: "\<exists>p h''. malloc room base n h' = Some (p, h'') \<and> p \<noteq> 0" if "fair n" "granted room n h'" for n
    using user_malloc [OF r(2) that(1), of room] that(2) by metis
  show ?thesis
  proof (cases "program_ok (unat base) (unat (brk h)) bs h'")
    case True
    then obtain fs where fs: "heap_ok (unat base) (unat (brk h)) fs (set (map blk bs)) h'" "distinct (map blk bs)" "\<forall>x\<in>set bs. held_ok h' x"
      by (auto simp: program_ok_def)
    have blkb: "unat p - 8 + 8 = unat p" "unat p + unat n \<le> fst (blk (p, n, c)) + 8 * snd (blk (p, n, c))" "fst (blk (p, n, c)) + 8 = unat p"
      if "(p, n, c) \<in> set bs" for p n c
    proof -
      have "8 \<le> unat p" "fair n" using fs(3) that by (auto simp: held_ok_def)
      then show "unat p - 8 + 8 = unat p" "unat p + unat n \<le> fst (blk (p, n, c)) + 8 * snd (blk (p, n, c))" "fst (blk (p, n, c)) + 8 = unat p"
        using units_fair(4) [of n] by (simp_all add: blk_def)
    qed
    have one: "unat base + 8 \<le> unat p \<and> unat p + unat n \<le> unat (brk h') \<and> (\<forall>j v. c j = Some v \<longrightarrow> um h' (p + of_nat j) = v)"
      if x: "(p, n, c) \<in> set bs" for p n c
    proof -
      have "(fst (blk (p, n, c)), snd (blk (p, n, c))) \<in> set fs \<union> set (map blk bs)" using x by force
      note hb = heap_bounds(1) [OF fs(1) this]
      have "\<forall>j v. c j = Some v \<longrightarrow> um h' (p + of_nat j) = v" using fs(3) x by (auto simp: held_ok_def)
      moreover have "unat base + 8 \<le> unat p" using hb blkb(3) [OF x] assms(3) by linarith
      moreover have "unat p + unat n \<le> unat (brk h')" using hb blkb(2) [OF x] by linarith
      ultimately show ?thesis by blast
    qed
    have two: "unat p + unat n \<le> unat q \<or> unat q + unat m \<le> unat p"
      if ik: "i < length bs" "k < i" "bs ! i = (p, n, c)" "bs ! k = (q, m, d)" for i k p n c q m d
    proof -
      have k: "k < length bs" using ik(1,2) by simp
      have x: "(p, n, c) \<in> set bs" "(q, m, d) \<in> set bs" using nth_mem [OF ik(1)] nth_mem [OF k] ik(3,4) by simp_all
      have "blk (bs ! i) \<noteq> blk (bs ! k)" using fs(2) ik(1,2) by (simp add: distinct_conv_nth)
      then have ne: "(fst (blk (p, n, c)), snd (blk (p, n, c))) \<noteq> (fst (blk (q, m, d)), snd (blk (q, m, d)))" using ik(3,4) by simp
      have m: "(fst (blk (p, n, c)), snd (blk (p, n, c))) \<in> set fs \<union> set (map blk bs)"
        "(fst (blk (q, m, d)), snd (blk (q, m, d))) \<in> set fs \<union> set (map blk bs)" using x by force+
      from heap_disjoint [OF fs(1) m ne] blkb(2,3) [OF x(1)] blkb(2,3) [OF x(2)] show ?thesis by linarith
    qed
    show ?thesis
    proof (intro exI [of _ bs] exI [of _ h'] conjI allI impI ballI)
      show "user_run room base ops [] h = Some (bs, h')" by (rule r(1))
      show "case x of (p, n, c) \<Rightarrow> unat base + 8 \<le> unat p \<and> unat p + unat n \<le> unat (brk h')
          \<and> (\<forall>j v. c j = Some v \<longrightarrow> um h' (p + of_nat j) = v)" if "x \<in> set bs" for x
        using one that by (cases x) blast
      show "case (bs ! i, bs ! k) of ((p, n, c), (q, m, d)) \<Rightarrow> unat p + unat n \<le> unat q \<or> unat q + unat m \<le> unat p"
        if "i < length bs" "k < i" for i k
        using two [OF that] by (cases "bs ! i"; cases "bs ! k") simp
      show "\<exists>p h''. malloc room base n h' = Some (p, h'') \<and> p \<noteq> 0" if "fair n \<and> granted room n h'" for n
        using last that by blast
    qed
  next
    case False
    then have "bs = []" using r(2) by (simp add: user_ok_def)
    then show ?thesis using r(1) last by (intro exI [of _ bs] exI [of _ h']) simp
  qed
qed

text \<open>A process of three pages; its memory ends at 0x3000, \<open>base\<close> is at 0x1F00.\<close>

lemma malloc_gives_arrays_witness:
  "\<exists>bs h'. user_run (\<lambda>a n. True) 0x1F00 [Malloc 100, Malloc 0, Store 1 99 7, Malloc 40000, Free 1, Malloc 50, Store 0 3 9] []
      \<lparr>um = (\<lambda>a. 0), freep = 0, brk = 0x3000\<rparr> = Some (bs, h')
    \<and> (\<forall>(p, n, c)\<in>set bs. \<forall>j v. c j = Some v \<longrightarrow> um h' (p + of_nat j) = v)"
proof -
  have "\<forall>n. Malloc n \<in> set [Malloc 100, Malloc 0, Store 1 99 7, Malloc 40000, Free 1, Malloc 50, Store 0 3 9] \<longrightarrow> fair n"
    by (simp add: fair_def)
  from malloc_gives_arrays [OF _ _ _ _ this, where h = "\<lparr>um = (\<lambda>a. 0), freep = 0, brk = 0x3000\<rparr>" and base = "0x1F00" and room = "\<lambda>a n. True"]
  show ?thesis by fastforce
qed

text \<open>
  Larger requests are not safe. The rounding in \<open>malloc\<close> overflows for the seven largest ones, which are served like a
  request of no bytes.
\<close>

lemma malloc_overflows:
  assumes "0xFFFFFFF9 \<le> nbytes"
  shows "malloc room base nbytes h = malloc room base 0 h"
proof -
  have "0xFFFFFFF9 \<le> unat nbytes" using assms by (simp add: word_le_nat_alt)
  then have "nbytes + 7 < 7"
  proof -
    have "unat (nbytes + 7) = (unat nbytes + 7) mod 2 ^ 32" by (simp add: unat_word_ariths)
    moreover have "unat nbytes < 2 ^ 32" by (rule unat_u32_less)
    ultimately show ?thesis using \<open>0xFFFFFFF9 \<le> unat nbytes\<close> by (auto simp: word_less_nat_alt mod_if)
  qed
  moreover have "nbytes + SIZEOF_HEADER - 1 = nbytes + 7" by (simp add: SIZEOF_HEADER_def)
  ultimately have "unat (nbytes + SIZEOF_HEADER - 1) < 8" by (simp only: word_less_nat_alt) simp
  then have "unat ((nbytes + SIZEOF_HEADER - 1) div SIZEOF_HEADER) = 0" by (simp only: unat_div) (simp add: SIZEOF_HEADER_def)
  then have "(nbytes + SIZEOF_HEADER - 1) div SIZEOF_HEADER = 0" by (simp only: unat_eq_0)
  moreover have "(0 + SIZEOF_HEADER - 1) div SIZEOF_HEADER = 0" by (simp add: SIZEOF_HEADER_def)
  ultimately have "units nbytes = units 0" by (simp only: units_def)
  then show ?thesis by (simp add: malloc_def)
qed

end
