(* ===== verification/Devices.thy ===== *)
theory Devices
  imports CString
begin

text \<open>
  The interrupt hardware: the I/O APIC (\<open>ioapic.c\<close>), the local APIC and the clock (\<open>lapic.c\<close>), the old controllers
  (\<open>picirq.c\<close>), and the descriptor tables that the processor reads (\<open>mmu.h\<close>, \<open>tvinit\<close> of \<open>trap.c\<close>, \<open>seginit\<close> of \<open>vm.c\<close>).
  A device is the file of its registers. Lemmas: the interrupts delivered are those that were enabled; every gate leads
  to its vector, and user code can call that of system calls only; the clock's date is decoded.
\<close>

section \<open>I/O APIC\<close>

definition REG_ID :: nat where "REG_ID = 0x00"
definition REG_VER :: nat where "REG_VER = 0x01"
definition REG_TABLE :: nat where "REG_TABLE = 0x10"
definition INT_DISABLED :: u32 where "INT_DISABLED = 0x00010000"
definition T_IRQ0 :: nat where "T_IRQ0 = 32"

type_synonym ioapic = "nat \<Rightarrow> u32"

definition ioapicread :: "nat \<Rightarrow> ioapic \<Rightarrow> u32" where "ioapicread reg s = s reg"
definition ioapicwrite :: "nat \<Rightarrow> u32 \<Rightarrow> ioapic \<Rightarrow> ioapic" where "ioapicwrite reg v s = s(reg := v)"

definition ioapic_mask :: "nat \<Rightarrow> ioapic \<Rightarrow> ioapic" where
  "ioapic_mask i s = ioapicwrite (REG_TABLE + 2 * i + 1) 0 (ioapicwrite (REG_TABLE + 2 * i) (INT_DISABLED OR of_nat (T_IRQ0 + i)) s)"

definition maxintr :: "ioapic \<Rightarrow> nat" where
  "maxintr s = unat (drop_bit 16 (ioapicread REG_VER s) AND 0xFF)"

text \<open>The result also says whether the message about a wrong identifier is printed.\<close>

definition ioapicinit :: "u8 \<Rightarrow> ioapic \<Rightarrow> bool \<times> ioapic" where
  "ioapicinit ioapicid s = (drop_bit 24 (ioapicread REG_ID s) \<noteq> ucast ioapicid, fold ioapic_mask [0..<Suc (maxintr s)] s)"

definition ioapicenable :: "nat \<Rightarrow> u32 \<Rightarrow> ioapic \<Rightarrow> ioapic" where
  "ioapicenable irq cpunum s =
     ioapicwrite (REG_TABLE + 2 * irq + 1) (push_bit 24 cpunum) (ioapicwrite (REG_TABLE + 2 * irq) (of_nat (T_IRQ0 + irq)) s)"

text \<open>What the device does with an interrupt: nothing if it is masked, else the vector and the processor.\<close>

definition route :: "ioapic \<Rightarrow> nat \<Rightarrow> (u8 \<times> u8) option" where
  "route s irq =
     (if s (REG_TABLE + 2 * irq) AND INT_DISABLED \<noteq> 0 then None
      else Some (ucast (s (REG_TABLE + 2 * irq)), ucast (drop_bit 24 (s (REG_TABLE + 2 * irq + 1)))))"

lemma vector_enabled: "k < 2 ^ 16 \<Longrightarrow> of_nat k AND INT_DISABLED = 0"
proof (rule bit_word_eqI)
  fix n assume k: "k < 2 ^ 16" and "n < LENGTH(32)"
  have "bit (0x10000 :: u32) n \<longleftrightarrow> n = 16" if "n < 32" for n
    using that bit_push_bit_iff [of 16 "1 :: u32" n] by (auto simp: bit_simps)
  moreover have "\<not> bit k 16" using k by (metis bit_take_bit_iff less_irrefl take_bit_nat_eq_self)
  ultimately show "bit (of_nat k AND INT_DISABLED) n \<longleftrightarrow> bit (0 :: u32) n"
    using \<open>n < LENGTH(32)\<close> by (auto simp: INT_DISABLED_def bit_simps)
qed

lemma masked_disabled: "(INT_DISABLED OR x) AND INT_DISABLED \<noteq> 0"
proof -
  have "(INT_DISABLED OR x) AND INT_DISABLED = INT_DISABLED" by (rule bit_word_eqI) (auto simp: bit_simps)
  then show ?thesis by (simp add: INT_DISABLED_def)
qed

lemma ucast_low: "ucast (of_nat k :: u32) = (of_nat k :: u8)"
  by (rule bit_word_eqI) (auto simp: bit_simps)

lemma ucast_u8_inverse: "ucast (ucast (c :: u8) :: u32) = c"
  by (rule bit_word_eqI) (auto simp: bit_simps)

lemma ucast_u8_zero: "ucast (c :: u8) = (0 :: u32) \<longleftrightarrow> c = 0"
  by (metis ucast_u8_inverse unsigned_0)

lemma route_enable:
  assumes "irq < 2 ^ 15" and "k < 2 ^ 15"
  shows "route (ioapicenable k (ucast c) s) irq = (if irq = k then Some (of_nat (T_IRQ0 + irq), c) else route s irq)"
proof (cases "irq = k")
  case True
  have "drop_bit 24 (push_bit 24 (ucast c :: u32)) = ucast c"
    by (rule bit_word_eqI) (auto simp: bit_simps dest: bit_imp_le_length)
  moreover have "ucast (ucast c :: u32) = c" by (rule ucast_u8_inverse)
  moreover have "of_nat (T_IRQ0 + irq) AND INT_DISABLED = 0" by (rule vector_enabled) (use assms in \<open>simp add: T_IRQ0_def\<close>)
  moreover have "ucast (of_nat (T_IRQ0 + irq) :: u32) = (of_nat (T_IRQ0 + irq) :: u8)" by (rule ucast_low)
  ultimately show ?thesis using True by (simp add: route_def ioapicenable_def ioapicwrite_def del: of_nat_add)
next
  case False
  have "2 * irq \<noteq> 2 * k" "2 * irq \<noteq> 2 * k + 1" "2 * irq + 1 \<noteq> 2 * k" using False by presburger+
  then show ?thesis using False by (simp add: route_def ioapicenable_def ioapicwrite_def)
qed

lemma route_mask: "route (ioapic_mask k s) irq = (if irq = k then None else route s irq)"
proof -
  have "2 * irq \<noteq> 2 * k + 1" "2 * irq + 1 \<noteq> 2 * k" by presburger+
  then show ?thesis using masked_disabled by (auto simp: route_def ioapic_mask_def ioapicwrite_def)
qed

lemma route_masks: "route (fold ioapic_mask ks s) irq = (if irq \<in> set ks then None else route s irq)"
  by (induction ks arbitrary: s) (auto simp: route_mask)

section \<open>Local APIC\<close>

text \<open>The registers, and the commands written to the interrupt command register, first to last.\<close>

record lapic =
  lreg :: "nat \<Rightarrow> u32"
  commands :: "(u32 \<times> u32) list"

definition LID :: nat where "LID = 0x0020 div 4"
definition LVER :: nat where "LVER = 0x0030 div 4"
definition TPR :: nat where "TPR = 0x0080 div 4"
definition EOI :: nat where "EOI = 0x00B0 div 4"
definition SVR :: nat where "SVR = 0x00F0 div 4"
definition ENABLE :: u32 where "ENABLE = 0x00000100"
definition ESR :: nat where "ESR = 0x0280 div 4"
definition ICRLO :: nat where "ICRLO = 0x0300 div 4"
definition INIT :: u32 where "INIT = 0x00000500"
definition STARTUP :: u32 where "STARTUP = 0x00000600"
definition ASSERT :: u32 where "ASSERT = 0x00004000"
definition LEVEL :: u32 where "LEVEL = 0x00008000"
definition BCAST :: u32 where "BCAST = 0x00080000"
definition ICRHI :: nat where "ICRHI = 0x0310 div 4"
definition TIMER :: nat where "TIMER = 0x0320 div 4"
definition X1 :: u32 where "X1 = 0x0000000B"
definition PERIODIC :: u32 where "PERIODIC = 0x00020000"
definition PCINT :: nat where "PCINT = 0x0340 div 4"
definition LINT0 :: nat where "LINT0 = 0x0350 div 4"
definition LINT1 :: nat where "LINT1 = 0x0360 div 4"
definition LERROR :: nat where "LERROR = 0x0370 div 4"
definition MASKED :: u32 where "MASKED = 0x00010000"
definition TICR :: nat where "TICR = 0x0380 div 4"
definition TDCR :: nat where "TDCR = 0x03E0 div 4"

text \<open>Writing the low word of the command register sends the command to the processor in the high word.\<close>

definition lapicw :: "nat \<Rightarrow> u32 \<Rightarrow> lapic \<Rightarrow> lapic" where
  "lapicw index v s =
     s\<lparr>lreg := (lreg s)(index := v),
       commands := commands s @ (if index = ICRLO then [(lreg s ICRHI, v)] else [])\<rparr>"

text \<open>The wait for the delivery of the last command is left out; \<open>None\<close> is a machine without local APIC.\<close>

definition lapicinit :: "lapic option \<Rightarrow> lapic option" where
  "lapicinit = map_option (\<lambda>s.
     let s = lapicw SVR (ENABLE OR 63) s;
         s = lapicw TDCR X1 s;
         s = lapicw TIMER (PERIODIC OR 32) s;
         s = lapicw TICR 10000000 s;
         s = lapicw LINT0 MASKED s;
         s = lapicw LINT1 MASKED s;
         s = (if drop_bit 16 (lreg s LVER) AND 0xFF \<ge> 4 then lapicw PCINT MASKED s else s);
         s = lapicw LERROR 51 s;
         s = lapicw ESR 0 s;
         s = lapicw ESR 0 s;
         s = lapicw EOI 0 s;
         s = lapicw ICRHI 0 s;
         s = lapicw ICRLO (BCAST OR INIT OR LEVEL) s
     in lapicw TPR 0 s)"

definition lapicid :: "lapic option \<Rightarrow> u32" where
  "lapicid s = (case s of None \<Rightarrow> 0 | Some s \<Rightarrow> drop_bit 24 (lreg s LID))"

definition lapiceoi :: "lapic option \<Rightarrow> lapic option" where
  "lapiceoi = map_option (lapicw EOI 0)"

text \<open>
  Starting a processor: the warm reset vector in memory, the shutdown code in the CMOS (returned as writes to ports)
  and the commands.
\<close>

definition startup :: "u8 \<Rightarrow> u32 \<Rightarrow> lapic \<Rightarrow> lapic" where
  "startup apicid addr s = lapicw ICRLO (STARTUP OR drop_bit 12 addr) (lapicw ICRHI (push_bit 24 (ucast apicid)) s)"

definition lapicstartap :: "u8 \<Rightarrow> u32 \<Rightarrow> memory \<Rightarrow> lapic \<Rightarrow> (u16 \<times> u8) list \<times> memory \<times> lapic" where
  "lapicstartap apicid addr m s =
     (let wrv = 0x80000467;
          m = wr16 m wrv 0;
          m = wr16 m (wrv + 2) (ucast (drop_bit 4 addr));
          s = lapicw ICRHI (push_bit 24 (ucast apicid)) s;
          s = lapicw ICRLO (INIT OR LEVEL OR ASSERT) s;
          s = lapicw ICRLO (INIT OR LEVEL) s
      in ([(0x70, 0xF), (0x71, 0x0A)], m, startup apicid addr (startup apicid addr s)))"

section \<open>The clock\<close>

record rtcdate =
  second :: u32
  minute :: u32
  hour :: u32
  day :: u32
  month :: u32
  year :: u32

text \<open>The clock is a parameter: what the \<open>n\<close>-th read delivers from a register.\<close>

type_synonym cmos = "nat \<Rightarrow> u32 \<Rightarrow> u8"

definition cmos_read :: "cmos \<Rightarrow> u32 \<Rightarrow> nat \<Rightarrow> u32 \<times> nat" where
  "cmos_read clock reg n = (ucast (clock n reg), Suc n)"

definition fill_rtcdate :: "cmos \<Rightarrow> nat \<Rightarrow> rtcdate \<times> nat" where
  "fill_rtcdate clock n =
     (let (s, n) = cmos_read clock 0x00 n;
          (mi, n) = cmos_read clock 0x02 n;
          (h, n) = cmos_read clock 0x04 n;
          (d, n) = cmos_read clock 0x07 n;
          (mo, n) = cmos_read clock 0x08 n;
          (y, n) = cmos_read clock 0x09 n
      in (\<lparr>second = s, minute = mi, hour = h, day = d, month = mo, year = y\<rparr>, n))"

partial_function (option) cmos_loop :: "cmos \<Rightarrow> nat \<Rightarrow> (rtcdate \<times> nat) option" where
  "cmos_loop clock n =
     (let (t1, n) = fill_rtcdate clock n;
          (a, n) = cmos_read clock 0x0A n
      in if a AND 0x80 \<noteq> 0 then cmos_loop clock n
         else
           let (t2, n) = fill_rtcdate clock n in if t1 = t2 then Some (t1, n) else cmos_loop clock n)"

definition CONV :: "u32 \<Rightarrow> u32" where "CONV x = drop_bit 4 x * 10 + (x AND 0xF)"

definition cmostime :: "cmos \<Rightarrow> nat \<Rightarrow> (rtcdate \<times> nat) option" where
  "cmostime clock n =
     (let (sb, n) = cmos_read clock 0x0B n;
          bcd = (sb AND 4 = 0)
      in case cmos_loop clock n of
           None \<Rightarrow> None
         | Some (t, n) \<Rightarrow>
             let t = (if bcd
                      then \<lparr>second = CONV (second t), minute = CONV (minute t), hour = CONV (hour t), day = CONV (day t),
                            month = CONV (month t), year = CONV (year t)\<rparr>
                      else t)
             in Some (t\<lparr>year := year t + 2000\<rparr>, n))"

section \<open>Old interrupt controllers\<close>

definition picinit :: "(u16 \<times> u8) list" where "picinit = [(0x20 + 1, 0xFF), (0xA0 + 1, 0xFF)]"

section \<open>Descriptor tables\<close>

text \<open>A bit field of the structure is a word of its width; storing into it drops the upper bits.\<close>

record segdesc =
  lim_15_0 :: "16 word"
  base_15_0 :: "16 word"
  base_23_16 :: "8 word"
  sd_type :: "4 word"
  sd_s :: "1 word"
  sd_dpl :: "2 word"
  sd_p :: "1 word"
  lim_19_16 :: "4 word"
  sd_avl :: "1 word"
  sd_rsv1 :: "1 word"
  sd_db :: "1 word"
  sd_g :: "1 word"
  base_31_24 :: "8 word"

definition SEG :: "u32 \<Rightarrow> u32 \<Rightarrow> u32 \<Rightarrow> u32 \<Rightarrow> segdesc" where
  "SEG ty base lim dpl =
     \<lparr>lim_15_0 = ucast (drop_bit 12 lim AND 0xFFFF), base_15_0 = ucast (base AND 0xFFFF),
      base_23_16 = ucast (drop_bit 16 base AND 0xFF), sd_type = ucast ty, sd_s = 1, sd_dpl = ucast dpl, sd_p = 1,
      lim_19_16 = ucast (drop_bit 28 lim), sd_avl = 0, sd_rsv1 = 0, sd_db = 1, sd_g = 1, base_31_24 = ucast (drop_bit 24 base)\<rparr>"

text \<open>\<open>seginit\<close> fills entries 1 to 4 of the processor's table.\<close>

definition seginit :: "(nat \<Rightarrow> segdesc) \<Rightarrow> nat \<Rightarrow> segdesc" where
  "seginit gdt =
     gdt(1 := SEG (0x8 OR 0x2) 0 0xFFFFFFFF 0, 2 := SEG 0x2 0 0xFFFFFFFF 0,
         3 := SEG (0x8 OR 0x2) 0 0xFFFFFFFF 3, 4 := SEG 0x2 0 0xFFFFFFFF 3)"

record gatedesc =
  off_15_0 :: "16 word"
  gd_cs :: "16 word"
  gd_args :: "5 word"
  gd_rsv1 :: "3 word"
  gd_type :: "4 word"
  gd_s :: "1 word"
  gd_dpl :: "2 word"
  gd_p :: "1 word"
  off_31_16 :: "16 word"

definition STS_IG32 :: u32 where "STS_IG32 = 0xE"
definition STS_TG32 :: u32 where "STS_TG32 = 0xF"
definition T_SYSCALL :: nat where "T_SYSCALL = 64"

definition SETGATE :: "bool \<Rightarrow> u32 \<Rightarrow> u32 \<Rightarrow> u32 \<Rightarrow> gatedesc" where
  "SETGATE istrap sel off d =
     \<lparr>off_15_0 = ucast (off AND 0xFFFF), gd_cs = ucast sel, gd_args = 0, gd_rsv1 = 0,
      gd_type = ucast (if istrap then STS_TG32 else STS_IG32), gd_s = 0, gd_dpl = ucast d, gd_p = 1,
      off_31_16 = ucast (drop_bit 16 off)\<rparr>"

text \<open>\<open>vectors\<close> are the entry points that \<open>vectors.S\<close> lists.\<close>

definition tvinit :: "(nat \<Rightarrow> u32) \<Rightarrow> (nat \<Rightarrow> gatedesc) \<Rightarrow> nat \<Rightarrow> gatedesc" where
  "tvinit vectors idt =
     (let idt = fold (\<lambda>i idt. idt(i := SETGATE False (push_bit 3 1) (vectors i) 0)) [0..<256] idt
      in idt(T_SYSCALL := SETGATE True (push_bit 3 1) (vectors T_SYSCALL) 3))"

text \<open>How the processor reads the tables: the base and the limit of a segment, the handler of a gate.\<close>

definition seg_base :: "segdesc \<Rightarrow> u32" where
  "seg_base d = ucast (base_15_0 d) OR push_bit 16 (ucast (base_23_16 d)) OR push_bit 24 (ucast (base_31_24 d))"

definition seg_limit :: "segdesc \<Rightarrow> u32" where
  "seg_limit d = (let l = ucast (lim_15_0 d) OR push_bit 16 (ucast (lim_19_16 d)) in if sd_g d = 1 then push_bit 12 l OR 0xFFF else l)"

definition gate_offset :: "gatedesc \<Rightarrow> u32" where
  "gate_offset d = ucast (off_15_0 d) OR push_bit 16 (ucast (off_31_16 d))"

lemma masks_u32: "(0xFFFF :: u32) = mask 16" "(0xFF :: u32) = mask 8" "(0xFFF :: u32) = mask 12"
  by (simp_all add: mask_eq_exp_minus_1)

lemma bit_split: "m \<le> n \<Longrightarrow> bit (x :: u32) (m + (n - m)) = bit x n"
  by simp

lemma gate_offset_SETGATE: "gate_offset (SETGATE t sel off d) = off"
  unfolding gate_offset_def SETGATE_def masks_u32 by (rule bit_word_eqI) (auto simp: bit_simps)

lemma eq_by_cut: "(\<And>n. n < 32 \<Longrightarrow> k \<le> n \<Longrightarrow> bit x n = bit y n) \<Longrightarrow> (\<And>n. n < k \<Longrightarrow> bit x n = bit y n) \<Longrightarrow> x = (y :: u32)"
proof (rule bit_word_eqI)
  fix n
  assume "\<And>n. n < 32 \<Longrightarrow> k \<le> n \<Longrightarrow> bit x n = bit y n" "\<And>n. n < k \<Longrightarrow> bit x n = bit y n" "n < LENGTH(32)"
  then show "bit x n = bit y n" by (cases "k \<le> n") simp_all
qed

lemma seg_base_SEG: "seg_base (SEG ty base lim dpl) = base"
  unfolding seg_base_def SEG_def masks_u32 by (rule eq_by_cut [of 24]) (auto simp: bit_simps dest: bit_imp_le_length)

lemma seg_limit_SEG: "seg_limit (SEG ty base lim dpl) = lim OR 0xFFF"
  unfolding seg_limit_def SEG_def masks_u32 by (rule eq_by_cut [of 28]) (auto simp: bit_simps Let_def dest: bit_imp_le_length)

section \<open>Properties\<close>

text \<open>
  Interrupts are routed as they were enabled. After \<open>ioapicinit\<close> and any calls of \<open>ioapicenable\<close>, an interrupt of
  the controller is delivered exactly if it was enabled, with the vector \<open>T_IRQ0 + irq\<close>, to the processor of the last call.
\<close>

theorem ioapic_routes:
  assumes "\<forall>(k, c)\<in>set es. k \<le> maxintr s" and "irq \<le> maxintr s"
  shows "route (fold (\<lambda>(k, c). ioapicenable k (ucast c)) es (snd (ioapicinit ioapicid s))) irq =
    map_option (\<lambda>c. (of_nat (T_IRQ0 + irq), c)) (map_of (rev es) irq)"
proof -
  have "unat (drop_bit 16 (ioapicread REG_VER s) AND 0xFF) \<le> unat (0xFF :: u32)"
    using word_and_le1 [of "drop_bit 16 (ioapicread REG_VER s)" "0xFF"] by (simp only: word_le_nat_alt)
  then have m: "maxintr s < 2 ^ 15" by (simp add: maxintr_def)
  have "route (snd (ioapicinit ioapicid s)) irq = None" using assms(2) by (simp add: ioapicinit_def route_masks del: upt_Suc)
  then show ?thesis
    using assms(1)
  proof (induction es rule: rev_induct)
    case (snoc e es)
    obtain k c where e: "e = (k, c)" by (cases e)
    have "irq < 2 ^ 15" "k < 2 ^ 15" using m assms(2) snoc.prems(2) e by auto
    then show ?case using snoc e by (simp add: route_enable)
  qed simp
qed

text \<open>A controller with 24 inputs; the keyboard and the disk are enabled, the disk twice.\<close>

lemma ioapic_routes_witness:
  "route (fold (\<lambda>(k, c). ioapicenable k (ucast c)) [(1, 0), (14, 0), (14, 1)] (snd (ioapicinit 0 ((\<lambda>r. 0)(REG_VER := 0x00170000))))) 14
     = Some (46, 1)
   \<and> route (fold (\<lambda>(k, c). ioapicenable k (ucast c)) [(1, 0), (14, 0), (14, 1)] (snd (ioapicinit 0 ((\<lambda>r. 0)(REG_VER := 0x00170000))))) 4
     = None"
proof -
  have "maxintr ((\<lambda>r. 0)(REG_VER := 0x00170000)) = 23" by (simp add: maxintr_def ioapicread_def)
  then show ?thesis
    using ioapic_routes [of "[(1, 0), (14, 0), (14, 1)]" "(\<lambda>r. 0)(REG_VER := 0x00170000)" 14 0]
      ioapic_routes [of "[(1, 0), (14, 0), (14, 1)]" "(\<lambda>r. 0)(REG_VER := 0x00170000)" 4 0]
    by (simp add: T_IRQ0_def)
qed

text \<open>
  C34: The interrupt descriptor table. Every gate is present and leads to its own vector in the kernel's code segment; the
  only one that user code may call is the gate of system calls, and every other one disables interrupts.
\<close>

theorem tvinit_gates:
  "\<forall>i<256. gate_offset (tvinit vectors idt i) = vectors i \<and> gd_p (tvinit vectors idt i) = 1 \<and> gd_cs (tvinit vectors idt i) = 8
     \<and> (gd_dpl (tvinit vectors idt i) = 3 \<longleftrightarrow> i = T_SYSCALL)
     \<and> (gd_type (tvinit vectors idt i) = ucast (if i = T_SYSCALL then STS_TG32 else STS_IG32))"
proof (intro allI impI)
  fix i :: nat
  assume i: "i < 256"
  have f: "fold (\<lambda>i idt. idt(i := SETGATE False (push_bit 3 1) (vectors i) 0)) xs idt j =
    (if j \<in> set xs then SETGATE False (push_bit 3 1) (vectors j) 0 else idt j)" for xs idt j
    by (induction xs arbitrary: idt) auto
  have "tvinit vectors idt i = SETGATE (i = T_SYSCALL) (push_bit 3 1) (vectors i) (if i = T_SYSCALL then 3 else 0)"
    unfolding tvinit_def Let_def f using i by simp
  then show "gate_offset (tvinit vectors idt i) = vectors i \<and> gd_p (tvinit vectors idt i) = 1 \<and> gd_cs (tvinit vectors idt i) = 8
     \<and> (gd_dpl (tvinit vectors idt i) = 3 \<longleftrightarrow> i = T_SYSCALL)
     \<and> (gd_type (tvinit vectors idt i) = ucast (if i = T_SYSCALL then STS_TG32 else STS_IG32))"
    using gate_offset_SETGATE [of "i = T_SYSCALL" "push_bit 3 1" "vectors i" "if i = T_SYSCALL then 3 else 0"]
    by (simp add: SETGATE_def)
qed

definition idt0 :: "nat \<Rightarrow> gatedesc" where
  "idt0 i = \<lparr>off_15_0 = 0, gd_cs = 0, gd_args = 0, gd_rsv1 = 0, gd_type = 0, gd_s = 0, gd_dpl = 0, gd_p = 0, off_31_16 = 0\<rparr>"

lemma tvinit_gates_witness:
  "gate_offset (tvinit (\<lambda>i. 0x80106000 + of_nat i) idt0 14) = 0x8010600E \<and> gd_dpl (tvinit (\<lambda>i. 0x80106000 + of_nat i) idt0 14) \<noteq> 3
   \<and> gd_dpl (tvinit (\<lambda>i. 0x80106000 + of_nat i) idt0 64) = 3"
  using tvinit_gates [of "\<lambda>i. 0x80106000 + of_nat i" idt0] by (simp add: T_SYSCALL_def)

text \<open>The four segments cover the whole address space, two of them for user code.\<close>

lemma seginit_flat:
  "\<forall>i\<in>{1..4}. seg_base (seginit gdt i) = 0 \<and> seg_limit (seginit gdt i) = 0xFFFFFFFF \<and> (sd_dpl (seginit gdt i) = 3 \<longleftrightarrow> 3 \<le> i)"
proof -
  have "{1..4 :: nat} = {1, 2, 3, 4}" by auto
  then show ?thesis by (simp add: seginit_def seg_base_SEG seg_limit_SEG) (simp add: SEG_def)
qed

text \<open>A clock that stands at a date, in binary or in decimal digits, is read and decoded.\<close>

definition bcd :: "nat \<Rightarrow> u8" where "bcd x = of_nat (16 * (x div 10) + x mod 10)"

definition shows_date :: "bool \<Rightarrow> (u32 \<Rightarrow> nat) \<Rightarrow> cmos \<Rightarrow> bool" where
  "shows_date digits d clock \<longleftrightarrow> (\<forall>n. (\<forall>r\<in>{0, 2, 4, 7, 8, 9}. d r < 100 \<and> clock n r = (if digits then bcd (d r) else of_nat (d r)))
     \<and> clock n 0x0A AND 0x80 = 0 \<and> (clock n 0x0B AND 4 = 0 \<longleftrightarrow> digits))"

lemma CONV_bcd: "x < 100 \<Longrightarrow> CONV (ucast (bcd x)) = of_nat x"
proof -
  have "list_all (\<lambda>x. CONV (ucast (bcd x)) = of_nat x) [0..<100]" by code_simp
  then show "x < 100 \<Longrightarrow> CONV (ucast (bcd x)) = of_nat x" by (auto simp: list_all_iff)
qed

lemma cmostime_decodes:
  assumes "shows_date digits d clock"
  shows "\<exists>n'. cmostime clock n = Some (\<lparr>second = of_nat (d 0), minute = of_nat (d 2), hour = of_nat (d 4), day = of_nat (d 7),
    month = of_nat (d 8), year = of_nat (d 9) + 2000\<rparr>, n')"
proof -
  let ?e = "\<lambda>r. ucast (if digits then bcd (d r) else of_nat (d r)) :: u32"
  have fill: "fill_rtcdate clock k = (\<lparr>second = ?e 0, minute = ?e 2, hour = ?e 4, day = ?e 7, month = ?e 8, year = ?e 9\<rparr>, k + 6)" for k
    using assms by (simp add: fill_rtcdate_def cmos_read_def shows_date_def)
  have a: "ucast (clock k 0x0A) AND (0x80 :: u32) = 0" for k
  proof -
    have "ucast (clock k 0x0A) AND (0x80 :: u32) = ucast (clock k 0x0A AND 0x80)" by (rule bit_word_eqI) (auto simp: bit_simps dest: bit_imp_le_length)
    then show ?thesis using assms by (simp add: shows_date_def)
  qed
  have b: "ucast (clock k 0x0B) AND (4 :: u32) = 0 \<longleftrightarrow> digits" for k
  proof -
    have "ucast (clock k 0x0B) AND (4 :: u32) = ucast (clock k 0x0B AND 4)" by (rule bit_word_eqI) (auto simp: bit_simps dest: bit_imp_le_length)
    then show ?thesis using assms by (simp add: shows_date_def ucast_u8_zero)
  qed
  have loop: "cmos_loop clock k = Some (fst (fill_rtcdate clock k), k + 13)" for k
    by (subst cmos_loop.simps) (simp add: fill cmos_read_def a)
  have dec: "CONV (ucast (bcd (d r))) = of_nat (d r)" "ucast (of_nat (d r) :: u8) = (of_nat (d r) :: u32)"
    if "r \<in> {0, 2, 4, 7, 8, 9}" for r
  proof -
    have lt: "d r < 100" using assms that unfolding shows_date_def by blast
    then show "CONV (ucast (bcd (d r))) = of_nat (d r)" by (rule CONV_bcd)
    show "ucast (of_nat (d r) :: u8) = (of_nat (d r) :: u32)" using lt by (simp add: unsigned_of_nat take_bit_nat_eq_self)
  qed
  show ?thesis
    by (cases digits) (simp_all add: cmostime_def cmos_read_def b loop fill dec)
qed

end
