(* ===== verification/Mp.thy ===== *)
theory Mp
  imports CString Kalloc
begin

text \<open>
  The discovery of processors, \<open>mp.c\<close>: the search for the floating pointer structure in low memory, the check of the
  configuration table, and the walk over its entries. The tables are bytes in memory. Lemmas: a table of known
  entries is read completely; one with an unknown entry is never left.
\<close>

section \<open>mp.h\<close>

definition SIZEOF_MP :: u32 where "SIZEOF_MP = 16"
definition SIZEOF_MPCONF :: u32 where "SIZEOF_MPCONF = 44"
definition SIZEOF_MPPROC :: u32 where "SIZEOF_MPPROC = 20"
definition SIZEOF_MPIOAPIC :: u32 where "SIZEOF_MPIOAPIC = 8"
definition MPPROC :: u8 where "MPPROC = 0x00"
definition MPBUS :: u8 where "MPBUS = 0x01"
definition MPIOAPIC :: u8 where "MPIOAPIC = 0x02"
definition MPIOINTR :: u8 where "MPIOINTR = 0x03"
definition MPLINTR :: u8 where "MPLINTR = 0x04"

section \<open>The search\<close>

fun sum_loop :: "memory \<Rightarrow> u32 \<Rightarrow> nat \<Rightarrow> int \<Rightarrow> int" where
  "sum_loop m a 0 s = s"
| "sum_loop m a (Suc n) s = sum_loop m (a + 1) n (s + uint (m a))"

definition mpsum :: "memory \<Rightarrow> u32 \<Rightarrow> nat \<Rightarrow> u8" where
  "mpsum m a len = of_int (sum_loop m a len 0)"

text \<open>The comparison of four bytes with a string of the program.\<close>

definition signature :: "memory \<Rightarrow> u32 \<Rightarrow> u8 list \<Rightarrow> bool" where
  "signature m p cs \<longleftrightarrow> [m p, m (p + 1), m (p + 2), m (p + 3)] = cs"

partial_function (option) mpsearch1_loop :: "memory \<Rightarrow> u32 \<Rightarrow> u32 \<Rightarrow> u32 option option" where
  "mpsearch1_loop m p e =
     (if p < e
      then if signature m p [0x5F, 0x4D, 0x50, 0x5F] \<and> mpsum m p (unat SIZEOF_MP) = 0 then Some (Some p)
           else mpsearch1_loop m (p + SIZEOF_MP) e
      else Some None)"

definition mpsearch1 :: "memory \<Rightarrow> u32 \<Rightarrow> u32 \<Rightarrow> u32 option option" where
  "mpsearch1 m a len = mpsearch1_loop m (P2V a) (P2V a + len)"

text \<open>A null pointer is \<open>None\<close>; a search that wraps around for ever is the outer \<open>None\<close>.\<close>

definition mpsearch :: "memory \<Rightarrow> u32 option option" where
  "mpsearch m =
     (let bda = P2V 0x400;
          p = push_bit 4 (push_bit 8 (ucast (m (bda + 0x0F))) OR ucast (m (bda + 0x0E)));
          first = (if p \<noteq> 0 then mpsearch1 m p 1024
                   else mpsearch1 m ((push_bit 8 (ucast (m (bda + 0x14))) OR ucast (m (bda + 0x13))) * 1024 - 1024) 1024)
      in case first of
           None \<Rightarrow> None
         | Some (Some mp) \<Rightarrow> Some (Some mp)
         | Some None \<Rightarrow> mpsearch1 m 0xF0000 0x10000)"

definition mpconfig :: "memory \<Rightarrow> (u32 \<times> u32) option option" where
  "mpconfig m =
     (case mpsearch m of
        None \<Rightarrow> None
      | Some None \<Rightarrow> Some None
      | Some (Some mp) \<Rightarrow>
          if rd32 m (mp + 4) = 0 then Some None
          else
            let conf = P2V (rd32 m (mp + 4))
            in if \<not> signature m conf [0x50, 0x43, 0x4D, 0x50] then Some None
               else if m (conf + 6) \<noteq> 1 \<and> m (conf + 6) \<noteq> 4 then Some None
               else if mpsum m conf (unat (rd16 m (conf + 4))) \<noteq> 0 then Some None
               else Some (Some (mp, conf)))"

section \<open>The table\<close>

record cpus =
  apicids :: "nat \<Rightarrow> u8"
  ncpu :: nat
  ioapicid :: u8
  lapic_addr :: u32

definition NCPU :: nat where "NCPU = 8"

text \<open>\<open>break\<close> ends the switch, not the loop.\<close>

partial_function (option) mp_loop :: "memory \<Rightarrow> u32 \<Rightarrow> u32 \<Rightarrow> bool \<Rightarrow> cpus \<Rightarrow> (bool \<times> cpus) option" where
  "mp_loop m p e ismp s =
     (if p < e
      then if m p = MPPROC
           then mp_loop m (p + SIZEOF_MPPROC) e ismp
                  (if ncpu s < NCPU then s\<lparr>apicids := (apicids s)(ncpu s := m (p + 1)), ncpu := ncpu s + 1\<rparr> else s)
           else if m p = MPIOAPIC then mp_loop m (p + SIZEOF_MPIOAPIC) e ismp (s\<lparr>ioapicid := m (p + 1)\<rparr>)
           else if m p = MPBUS \<or> m p = MPIOINTR \<or> m p = MPLINTR then mp_loop m (p + 8) e ismp s
           else mp_loop m p e False s
      else Some (ismp, s))"

text \<open>\<open>imcr\<close> is what port 0x23 delivers; the result has the bytes written to ports.\<close>

definition mpinit :: "memory \<Rightarrow> u8 \<Rightarrow> cpus \<Rightarrow> (cpus \<times> (u16 \<times> u8) list) res option" where
  "mpinit m imcr s =
     (case mpconfig m of
        None \<Rightarrow> None
      | Some None \<Rightarrow> Some (Panic ''Expect to run on an SMP'')
      | Some (Some (mp, conf)) \<Rightarrow>
          (case mp_loop m (conf + SIZEOF_MPCONF) (conf + ucast (rd16 m (conf + 4))) True (s\<lparr>lapic_addr := rd32 m (conf + 36)\<rparr>) of
             None \<Rightarrow> None
           | Some (ismp, s) \<Rightarrow>
               if \<not> ismp then Some (Panic ''Did not find a suitable machine'')
               else Some (Ok (s, if m (mp + 12) \<noteq> 0 then [(0x22, 0x70), (0x23, imcr OR 1)] else []))))"

section \<open>Reading the table\<close>

datatype mpentry = Processor u8 | Controller u8 | Other u8

text \<open>Entries from \<open>p\<close> to \<open>q\<close>, each of them beginning below \<open>e\<close>.\<close>

fun entries_at :: "memory \<Rightarrow> u32 \<Rightarrow> mpentry list \<Rightarrow> u32 \<Rightarrow> u32 \<Rightarrow> bool" where
  "entries_at m p [] q e \<longleftrightarrow> p = q"
| "entries_at m p (Processor a # es) q e \<longleftrightarrow> p < e \<and> m p = MPPROC \<and> m (p + 1) = a \<and> entries_at m (p + SIZEOF_MPPROC) es q e"
| "entries_at m p (Controller a # es) q e \<longleftrightarrow> p < e \<and> m p = MPIOAPIC \<and> m (p + 1) = a \<and> entries_at m (p + SIZEOF_MPIOAPIC) es q e"
| "entries_at m p (Other t # es) q e \<longleftrightarrow> p < e \<and> m p = t \<and> t \<in> {MPBUS, MPIOINTR, MPLINTR} \<and> entries_at m (p + 8) es q e"

fun add_entry :: "mpentry \<Rightarrow> cpus \<Rightarrow> cpus" where
  "add_entry (Processor a) s = (if ncpu s < NCPU then s\<lparr>apicids := (apicids s)(ncpu s := a), ncpu := ncpu s + 1\<rparr> else s)"
| "add_entry (Controller a) s = s\<lparr>ioapicid := a\<rparr>"
| "add_entry (Other t) s = s"

lemmas entry_types = MPPROC_def MPBUS_def MPIOAPIC_def MPIOINTR_def MPLINTR_def

lemma mp_loop_entries:
  "entries_at m p es q e \<Longrightarrow> mp_loop m p e b s = mp_loop m q e b (fold add_entry es s)"
proof (induction m p es q e arbitrary: s rule: entries_at.induct)
  case (2 m p a es q e)
  then show ?case by (subst mp_loop.simps) simp
next
  case (3 m p a es q e)
  then show ?case by (subst mp_loop.simps) (simp add: entry_types)
next
  case (4 m p t es q e)
  then show ?case by (subst mp_loop.simps) (auto simp: entry_types)
qed simp

text \<open>At an entry of another type the loop stays for ever.\<close>

definition unknown :: "u8 \<Rightarrow> bool" where
  "unknown t \<longleftrightarrow> t \<notin> {MPPROC, MPBUS, MPIOAPIC, MPIOINTR, MPLINTR}"

lemma mp_loop_stuck:
  assumes "p < e" "unknown (m p)"
  shows "mp_loop m p e b s = None"
proof (rule ccontr)
  assume "mp_loop m p e b s \<noteq> None"
  then obtain r where r: "mp_loop m p e b s = Some r" by blast
  have "\<not> (p < e \<and> unknown (m p))"
  proof (rule mp_loop.raw_induct [where P = "\<lambda>m p e b s r. \<not> (p < e \<and> unknown (m p))", OF _ r], rule notI, goal_cases)
    case (1 loop m p e b s r)
    then have "loop m p e False s = Some r" by (auto simp: unknown_def)
    then show False using 1(1) [of m p e False s r] 1(3) by blast
  qed
  then show False using assms by blast
qed

fun processors :: "mpentry list \<Rightarrow> u8 list" where
  "processors [] = []"
| "processors (Processor a # es) = a # processors es"
| "processors (Controller a # es) = processors es"
| "processors (Other t # es) = processors es"

fun controllers :: "mpentry list \<Rightarrow> u8 list" where
  "controllers [] = []"
| "controllers (Processor a # es) = controllers es"
| "controllers (Controller a # es) = a # controllers es"
| "controllers (Other t # es) = controllers es"

lemma fold_add_entry:
  assumes "ncpu s \<le> NCPU"
  shows "ncpu (fold add_entry es s) = min NCPU (ncpu s + length (processors es))
    \<and> (\<forall>i<ncpu (fold add_entry es s). apicids (fold add_entry es s) i = (if i < ncpu s then apicids s i else processors es ! (i - ncpu s)))
    \<and> ioapicid (fold add_entry es s) = last (ioapicid s # controllers es) \<and> lapic_addr (fold add_entry es s) = lapic_addr s"
  using assms
proof (induction es arbitrary: s)
  case (Cons x es)
  show ?case
  proof (cases x)
    case (Processor a)
    let ?s = "add_entry x s"
    have n: "ncpu ?s \<le> NCPU" using Cons.prems Processor by simp
    note ih = Cons.IH [OF n]
    show ?thesis
    proof (cases "ncpu s < NCPU")
      case True
      have e: "add_entry x s = s\<lparr>apicids := (apicids s)(ncpu s := a), ncpu := ncpu s + 1\<rparr>" using True Processor by simp
      have "(if i < Suc (ncpu s) then ((apicids s)(ncpu s := a)) i else processors es ! (i - Suc (ncpu s)))
        = (if i < ncpu s then apicids s i else (a # processors es) ! (i - ncpu s))" for i
      proof (cases "i \<le> ncpu s")
        case False
        then obtain j where "i = Suc (ncpu s + j)" using less_imp_Suc_add not_le by metis
        then show ?thesis by simp
      qed auto
      then show ?thesis using ih Processor by (simp add: e)
    next
      case False
      then show ?thesis using ih Cons.prems Processor by auto
    qed
  qed (use Cons in auto)
qed simp

section \<open>Properties\<close>

text \<open>
  C35: The processors are found. If low memory holds a valid configuration table, \<open>mpinit\<close> returns with the identifiers of the
  first \<open>NCPU\<close> processors in the order of the table, the identifier of its last interrupt controller and the address of the
  local one.
\<close>

theorem mpinit_finds_cpus:
  assumes "mpconfig m = Some (Some (mp, conf))" and "ncpu s = 0"
    and "entries_at m (conf + SIZEOF_MPCONF) es q (conf + ucast (rd16 m (conf + 4)))" and "\<not> q < conf + ucast (rd16 m (conf + 4))"
  shows "\<exists>s' outs. mpinit m imcr s = Some (Ok (s', outs)) \<and> ncpu s' = min NCPU (length (processors es))
    \<and> (\<forall>i<ncpu s'. apicids s' i = processors es ! i)
    \<and> ioapicid s' = last (ioapicid s # controllers es) \<and> lapic_addr s' = rd32 m (conf + 36)"
proof -
  let ?s = "s\<lparr>lapic_addr := rd32 m (conf + 36)\<rparr>"
  have "mp_loop m (conf + SIZEOF_MPCONF) (conf + ucast (rd16 m (conf + 4))) True ?s = Some (True, fold add_entry es ?s)"
    using mp_loop_entries [OF assms(3), of True ?s] assms(4) by (simp add: mp_loop.simps)
  then show ?thesis using fold_add_entry [of ?s es] assms(1,2) by (simp add: mpinit_def NCPU_def)
qed

text \<open>
  A table with an entry of an unknown type makes \<open>mpinit\<close> loop for ever: the \<open>break\<close> of its default case leaves the switch
  and not the loop, which does not advance. The panic for an unsuitable machine is never reached.
\<close>

theorem mpinit_unknown_entry_hangs:
  assumes "mpconfig m = Some (Some (mp, conf))"
    and "entries_at m (conf + SIZEOF_MPCONF) es q (conf + ucast (rd16 m (conf + 4)))" and "q < conf + ucast (rd16 m (conf + 4))"
    and "unknown (m q)"
  shows "mpinit m imcr s = None"
proof -
  let ?s = "s\<lparr>lapic_addr := rd32 m (conf + 36)\<rparr>"
  have "mp_loop m (conf + SIZEOF_MPCONF) (conf + ucast (rd16 m (conf + 4))) True ?s = None"
    using mp_loop_entries [OF assms(2), of True ?s] mp_loop_stuck [of q _ m, OF assms(3,4)] by simp
  then show ?thesis using assms(1) by (simp add: mpinit_def)
qed

text \<open>
  The extended BIOS data area is at 0x9FC00, with the floating pointer structure first; the table at 0x9FD00 has two processors,
  a bus and an interrupt controller, or \<open>t\<close> instead of the bus.
\<close>

definition sample_tables :: "u8 \<Rightarrow> u8 \<Rightarrow> memory" where
  "sample_tables t check a = (case map_of
    [(0x8000040E, 0xC0), (0x8000040F, 0x9F),
     (0x8009FC00, 0x5F), (0x8009FC01, 0x4D), (0x8009FC02, 0x50), (0x8009FC03, 0x5F), (0x8009FC05, 0xFD), (0x8009FC06, 0x09),
     (0x8009FC08, 1), (0x8009FC09, 4), (0x8009FC0A, 0x9A),
     (0x8009FD00, 0x50), (0x8009FD01, 0x43), (0x8009FD02, 0x4D), (0x8009FD03, 0x50), (0x8009FD04, 100), (0x8009FD06, 4), (0x8009FD07, check),
     (0x8009FD26, 0xE0), (0x8009FD27, 0xFE),
     (0x8009FD41, 1), (0x8009FD54, t), (0x8009FD5C, 2), (0x8009FD5D, 5)] a of Some v \<Rightarrow> v | None \<Rightarrow> 0)"

lemma sum_loop_numeral: "sum_loop m a (numeral n) s = sum_loop m (a + 1) (pred_numeral n) (s + uint (m a))"
  by (simp add: numeral_eq_Suc)

lemma sample_checked:
  "mpsum (sample_tables t c) 0x8009FC00 16 = 0" "mpsum (sample_tables 1 0x81) 0x8009FD00 100 = 0" "mpsum (sample_tables 9 0x79) 0x8009FD00 100 = 0"
  by (simp_all add: mpsum_def sum_loop_numeral sample_tables_def)

lemma sample_config:
  assumes "mpsum (sample_tables t c) 0x8009FD00 100 = 0"
  shows "mpconfig (sample_tables t c) = Some (Some (0x8009FC00, 0x8009FD00))"
proof -
  have "mpsearch1_loop (sample_tables t c) 0x8009FC00 0x800A0000 = Some (Some 0x8009FC00)"
    by (subst mpsearch1_loop.simps) (simp add: sample_checked(1) SIZEOF_MP_def signature_def, simp add: sample_tables_def)
  moreover have "sample_tables t c 0x8000040E = 0xC0" "sample_tables t c 0x8000040F = 0x9F" by (simp_all add: sample_tables_def)
  ultimately have "mpsearch (sample_tables t c) = Some (Some 0x8009FC00)"
    by (simp add: mpsearch_def mpsearch1_def P2V_def KERNBASE_def Let_def)
  moreover have "rd32 (sample_tables t c) 0x8009FC04 = 0x0009FD00" by (simp add: rd32_def) (simp add: sample_tables_def)
  moreover have "rd16 (sample_tables t c) 0x8009FD04 = 100" by (simp add: rd16_def) (simp add: sample_tables_def)
  moreover have "signature (sample_tables t c) 0x8009FD00 [0x50, 0x43, 0x4D, 0x50]" by (simp add: signature_def) (simp add: sample_tables_def)
  moreover have "sample_tables t c 0x8009FD06 = 4" by (simp add: sample_tables_def)
  ultimately show ?thesis using assms by (simp add: mpconfig_def P2V_def KERNBASE_def)
qed

lemma mpinit_finds_cpus_witness:
  "\<exists>s' outs. mpinit (sample_tables 1 0x81) 0 \<lparr>apicids = (\<lambda>i. 0), ncpu = 0, ioapicid = 0, lapic_addr = 0\<rparr> = Some (Ok (s', outs))
    \<and> ncpu s' = 2 \<and> apicids s' 1 = 1 \<and> ioapicid s' = 5 \<and> lapic_addr s' = 0xFEE00000"
proof -
  let ?m = "sample_tables 1 0x81"
  have len: "rd16 ?m 0x8009FD04 = 100" by (simp add: rd16_def) (simp add: sample_tables_def)
  have lap: "rd32 ?m 0x8009FD24 = 0xFEE00000" by (simp add: rd32_def) (simp add: sample_tables_def)
  have "entries_at ?m (0x8009FD00 + SIZEOF_MPCONF) [Processor 0, Processor 1, Other 1, Controller 5] 0x8009FD64 (0x8009FD00 + ucast (rd16 ?m (0x8009FD00 + 4)))"
    by (simp add: len SIZEOF_MPCONF_def SIZEOF_MPPROC_def SIZEOF_MPIOAPIC_def entry_types) (simp add: sample_tables_def)
  from mpinit_finds_cpus [OF sample_config [OF sample_checked(2)] _ this, of "\<lparr>apicids = (\<lambda>i. 0), ncpu = 0, ioapicid = 0, lapic_addr = 0\<rparr>" 0]
  show ?thesis by (auto simp: len lap NCPU_def)
qed

lemma mpinit_unknown_entry_hangs_witness:
  "mpinit (sample_tables 9 0x79) 0 \<lparr>apicids = (\<lambda>i. 0), ncpu = 0, ioapicid = 0, lapic_addr = 0\<rparr> = None"
proof -
  let ?m = "sample_tables 9 0x79"
  have len: "rd16 ?m 0x8009FD04 = 100" by (simp add: rd16_def) (simp add: sample_tables_def)
  have e: "entries_at ?m (0x8009FD00 + SIZEOF_MPCONF) [Processor 0, Processor 1] 0x8009FD54 (0x8009FD00 + ucast (rd16 ?m (0x8009FD00 + 4)))"
    by (simp add: len SIZEOF_MPCONF_def SIZEOF_MPPROC_def SIZEOF_MPIOAPIC_def entry_types) (simp add: sample_tables_def)
  show ?thesis
    by (rule mpinit_unknown_entry_hangs [OF sample_config [OF sample_checked(3)] e])
      (simp add: len, simp add: unknown_def entry_types sample_tables_def)
qed

end
