(* ===== verification/Ulib.thy ===== *)
theory Ulib
  imports CString
begin

text \<open>
  User programs on their library: \<open>ulib.c\<close>, \<open>wc.c\<close>, \<open>cat.c\<close> and \<open>ls.c\<close>. What system calls deliver is a parameter: the bytes
  of each read, the entries of a directory. Lemmas: \<open>wc\<close> counts lines, words and characters however the reads cut the text;
  \<open>fmtname\<close> gives the last component of a path, padded; \<open>gets\<close> stays inside its buffer.
\<close>

section \<open>ulib.c\<close>

text \<open>The loops without a bound do not end on memory without a NUL.\<close>

partial_function (option) strcpy_loop :: "memory \<Rightarrow> u32 \<Rightarrow> u32 \<Rightarrow> memory option" where
  "strcpy_loop m s t = (let c = m t; m = m(s := c) in if c \<noteq> 0 then strcpy_loop m (s + 1) (t + 1) else Some m)"

definition strcpy :: "memory \<Rightarrow> u32 \<Rightarrow> u32 \<Rightarrow> memory option" where "strcpy m s t = strcpy_loop m s t"

partial_function (option) strcmp :: "memory \<Rightarrow> u32 \<Rightarrow> u32 \<Rightarrow> int option" where
  "strcmp m p q = (if m p \<noteq> 0 \<and> m p = m q then strcmp m (p + 1) (q + 1) else Some (byte_diff (m p) (m q)))"

partial_function (option) ustrlen_loop :: "memory \<Rightarrow> u32 \<Rightarrow> u32 \<Rightarrow> u32 option" where
  "ustrlen_loop m s n = (if m (s + n) \<noteq> 0 then ustrlen_loop m s (n + 1) else Some n)"

definition ustrlen :: "memory \<Rightarrow> u32 \<Rightarrow> u32 option" where "ustrlen m s = ustrlen_loop m s 0"

definition umemset :: "memory \<Rightarrow> u32 \<Rightarrow> u8 \<Rightarrow> u32 \<Rightarrow> memory" where "umemset m dst c n = stosb m dst c (unat n)"

partial_function (option) strchr :: "memory \<Rightarrow> u32 \<Rightarrow> u8 \<Rightarrow> u32 option" where
  "strchr m s c = (if m s = 0 then Some 0 else if m s = c then Some s else strchr m (s + 1) c)"

text \<open>\<open>input\<close> is what the reads of one byte deliver until one fails.\<close>

function gets_loop :: "memory \<Rightarrow> u32 \<Rightarrow> nat \<Rightarrow> nat \<Rightarrow> u8 list \<Rightarrow> nat \<times> memory \<times> u8 list" where
  "gets_loop m buf limit i input =
     (if i + 1 < limit
      then (case input of
              [] \<Rightarrow> (i, m, [])
            | c # input \<Rightarrow>
                let m = m(buf + of_nat i := c) in if c = 10 \<or> c = 13 then (i + 1, m, input) else gets_loop m buf limit (i + 1) input)
      else (i, m, input))"
  by pat_completeness auto
termination by (relation "measure (\<lambda>(m, buf, limit, i, input). limit - i)") auto

definition gets :: "memory \<Rightarrow> u32 \<Rightarrow> nat \<Rightarrow> u8 list \<Rightarrow> memory \<times> u8 list" where
  "gets m buf limit input = (let (i, m, input) = gets_loop m buf limit 0 input in (m(buf + of_nat i := 0), input))"

fun umemmove_loop :: "memory \<Rightarrow> u32 \<Rightarrow> u32 \<Rightarrow> nat \<Rightarrow> memory" where
  "umemmove_loop m d s 0 = m"
| "umemmove_loop m d s (Suc n) = umemmove_loop (m(d := m s)) (d + 1) (s + 1) n"

definition umemmove :: "memory \<Rightarrow> u32 \<Rightarrow> u32 \<Rightarrow> int \<Rightarrow> memory" where "umemmove m vdst vsrc n = umemmove_loop m vdst vsrc (nat n)"

declare gets_loop.simps [simp del]

lemma umemmove_loop_copy_up: "umemmove_loop m d s n = copy_up m d s n"
  by (induction n arbitrary: m d s) auto

lemma ustrlen_str_at: "str_at m (s + n) xs \<Longrightarrow> ustrlen_loop m s n = Some (n + of_nat (length xs))"
proof (induction xs arbitrary: n)
  case Nil
  then show ?case by (subst ustrlen_loop.simps) simp
next
  case (Cons x xs)
  then have "str_at m (s + (n + 1)) xs" by (simp add: add.assoc)
  from Cons.IH [OF this] show ?case using Cons.prems by (subst ustrlen_loop.simps) (simp add: algebra_simps)
qed

lemma strcmp_zero_iff:
  "str_at m p xs \<Longrightarrow> str_at m q ys \<Longrightarrow> \<exists>d. strcmp m p q = Some d \<and> (d = 0 \<longleftrightarrow> xs = ys)"
proof (induction xs arbitrary: p q ys)
  case Nil
  then show ?case by (cases ys; subst strcmp.simps) (auto simp: byte_diff_def uint_0_iff)
next
  case (Cons x xs)
  show ?case
  proof (cases "\<exists>zs. ys = x # zs")
    case True
    then show ?thesis using Cons by (subst strcmp.simps) fastforce
  next
    case False
    then have "m q \<noteq> x" using Cons.prems by (cases ys) auto
    then show ?thesis using Cons.prems False by (subst strcmp.simps) (auto simp: byte_diff_def word_uint_eq_iff)
  qed
qed

lemma strchr_str_at:
  "str_at m p xs \<Longrightarrow> 0 \<notin> (\<lambda>i. p + of_nat i) ` {..length xs} \<Longrightarrow> \<exists>r. strchr m p c = Some r \<and> (r = 0 \<longleftrightarrow> c \<notin> set xs)"
proof (induction xs arbitrary: p)
  case Nil
  then show ?case by (subst strchr.simps) simp
next
  case (Cons x xs)
  have "0 \<notin> (\<lambda>i. p + 1 + of_nat i) ` {..length xs}"
  proof
    assume "0 \<in> (\<lambda>i. p + 1 + of_nat i) ` {..length xs}"
    then obtain i where "i \<le> length xs" "p + of_nat (Suc i) = 0" by (auto simp: add.assoc)
    then show False using Cons.prems(2) by (metis Suc_le_mono atMost_iff image_eqI length_Cons)
  qed
  then have "\<exists>r. strchr m (p + 1) c = Some r \<and> (r = 0 \<longleftrightarrow> c \<notin> set xs)" using Cons by simp
  moreover have "p \<noteq> 0" using Cons.prems(2) by force
  ultimately show ?case using Cons.prems(1) by (subst strchr.simps) auto
qed

text \<open>\<open>gets\<close> writes inside the first \<open>max\<close> bytes, and what it leaves is a string: the input up to the end of the line.\<close>

lemma gets_loop_spec:
  assumes "gets_loop m buf limit i input = (i', m', rest)" "i < limit" "limit < 2 ^ 32"
  shows "i \<le> i' \<and> i' < limit \<and> (\<forall>k. k < i \<or> i' \<le> k \<and> k < 2 ^ 32 \<longrightarrow> m' (buf + of_nat k) = m (buf + of_nat k))
    \<and> input = map (\<lambda>k. m' (buf + of_nat k)) [i..<i'] @ rest"
  using assms
proof (induction m buf limit i input rule: gets_loop.induct)
  case (1 m buf limit i input)
  have ne: "buf + of_nat k \<noteq> buf + of_nat i" if "k \<noteq> i" "k < 2 ^ 32" for k
    using that 1(3,4) by (metis add_left_imp_eq order.strict_trans unat_of_nat_u32)
  have low: "word_of_nat k \<noteq> (word_of_nat i :: u32)" if "k < i" for k
    using ne [of k] that 1(3,4) by simp
  show ?case
  proof (cases "i + 1 < limit \<and> input \<noteq> []")
    case False
    then show ?thesis using 1(2,3) by (auto simp: gets_loop.simps [of m] split: list.splits)
  next
    case True
    then obtain c cs where input: "input = c # cs" by (cases input) auto
    let ?m = "m(buf + of_nat i := c)"
    show ?thesis
    proof (cases "c = 10 \<or> c = 13")
      case True
      then show ?thesis using 1(2) \<open>i + 1 < limit \<and> input \<noteq> []\<close> input ne low by (auto simp: gets_loop.simps [of m])
    next
      case False
      then have r: "gets_loop ?m buf limit (i + 1) cs = (i', m', rest)"
        using 1(2) \<open>i + 1 < limit \<and> input \<noteq> []\<close> input by (simp add: gets_loop.simps [of m])
      have ih: "i + 1 \<le> i' \<and> i' < limit \<and> (\<forall>k. k < i + 1 \<or> i' \<le> k \<and> k < 2 ^ 32 \<longrightarrow> m' (buf + of_nat k) = ?m (buf + of_nat k))
          \<and> cs = map (\<lambda>k. m' (buf + of_nat k)) [i + 1..<i'] @ rest"
        by (rule 1(1) [OF conjunct1 [OF \<open>i + 1 < limit \<and> input \<noteq> []\<close>] input refl False r])
          (use \<open>i + 1 < limit \<and> input \<noteq> []\<close> 1(4) in auto)
      have "m' (buf + of_nat i) = c" using ih by simp
      moreover have "[i..<i'] = i # [i + 1..<i']" using ih by (simp add: upt_conv_Cons)
      moreover have "m' (buf + of_nat k) = m (buf + of_nat k)" if k: "k < i \<or> i' \<le> k \<and> k < 2 ^ 32" for k
      proof -
        have "k \<noteq> i" "k < 2 ^ 32" using k ih 1(3,4) by auto
        then show ?thesis using ih k ne by auto
      qed
      ultimately show ?thesis using ih input by auto
    qed
  qed
qed

section \<open>wc.c\<close>

text \<open>\<open>strchr\<close> finds the character in the string of blanks.\<close>

definition blank :: "u8 \<Rightarrow> bool" where "blank c \<longleftrightarrow> c \<in> {32, 13, 9, 10, 11}"

record wcounts =
  wl :: u32
  ww :: u32
  wch :: u32
  inword :: bool

definition wc_char :: "u8 \<Rightarrow> wcounts \<Rightarrow> wcounts" where
  "wc_char ch s =
     (let s = s\<lparr>wch := wch s + 1\<rparr>;
          s = (if ch = 10 then s\<lparr>wl := wl s + 1\<rparr> else s)
      in if blank ch then s\<lparr>inword := False\<rparr> else if \<not> inword s then s\<lparr>ww := ww s + 1, inword := True\<rparr> else s)"

text \<open>A read delivers bytes, none at the end of the file, or fails.\<close>

fun wc_loop :: "u8 list option list \<Rightarrow> wcounts \<Rightarrow> wcounts option" where
  "wc_loop [] s = Some s"
| "wc_loop (None # rs) s = None"
| "wc_loop (Some [] # rs) s = Some s"
| "wc_loop (Some (b # bs) # rs) s = wc_loop rs (fold wc_char (b # bs) s)"

definition wc :: "u8 list option list \<Rightarrow> (u32 \<times> u32 \<times> u32) option" where
  "wc reads = map_option (\<lambda>s. (wl s, ww s, wch s)) (wc_loop reads \<lparr>wl = 0, ww = 0, wch = 0, inword = False\<rparr>)"

text \<open>The places where a word begins.\<close>

definition word_starts :: "u8 list \<Rightarrow> nat set" where
  "word_starts xs = {i. i < length xs \<and> \<not> blank (xs ! i) \<and> (i = 0 \<or> blank (xs ! (i - 1)))}"

lemma word_starts_snoc:
  "word_starts (xs @ [c]) = (if \<not> blank c \<and> (xs = [] \<or> blank (last xs)) then insert (length xs) (word_starts xs) else word_starts xs)"
  by (cases xs rule: rev_cases) (auto simp: word_starts_def nth_append less_Suc_eq)

lemma word_starts_finite [simp]: "finite (word_starts xs)" "length xs \<notin> word_starts xs"
  by (simp_all add: word_starts_def)

lemma wc_fold:
  "fold wc_char xs \<lparr>wl = 0, ww = 0, wch = 0, inword = False\<rparr> =
    \<lparr>wl = of_nat (count_list xs 10), ww = of_nat (card (word_starts xs)), wch = of_nat (length xs), inword = (xs \<noteq> [] \<and> \<not> blank (last xs))\<rparr>"
proof (induction xs rule: rev_induct)
  case (snoc c xs)
  have "blank 10" by (simp add: blank_def)
  then show ?case using snoc by (auto simp: wc_char_def Let_def word_starts_snoc add.commute)
qed (simp add: word_starts_def)

lemma wc_loop_concat: "\<forall>r\<in>set rs. r \<noteq> [] \<Longrightarrow> wc_loop (map Some rs) s = Some (fold wc_char (concat rs) s)"
proof (induction rs arbitrary: s)
  case (Cons r rs)
  then show ?case by (cases r) simp_all
qed simp

section \<open>cat.c\<close>

text \<open>\<open>wr\<close> says how many bytes a write takes. The result is the output, and whether \<open>cat\<close> ended without error.\<close>

fun cat :: "(u8 list \<Rightarrow> int) \<Rightarrow> u8 list option list \<Rightarrow> u8 list \<times> bool" where
  "cat wr [] = ([], True)"
| "cat wr (None # rs) = ([], False)"
| "cat wr (Some [] # rs) = ([], True)"
| "cat wr (Some (b # bs) # rs) =
     (if wr (b # bs) \<noteq> int (length (b # bs)) then (take (nat (wr (b # bs))) (b # bs), False)
      else (let (out, ok) = cat wr rs in ((b # bs) @ out, ok)))"

lemma cat_copies: "\<forall>r\<in>set rs. r \<noteq> [] \<and> wr r = int (length r) \<Longrightarrow> cat wr (map Some rs) = (concat rs, True)"
proof (induction rs)
  case (Cons r rs)
  then show ?case by (cases r) simp_all
qed simp

section \<open>ls.c\<close>

definition DIRSIZ :: u32 where "DIRSIZ = 14"

partial_function (option) slash_loop :: "memory \<Rightarrow> u32 \<Rightarrow> u32 \<Rightarrow> u32 option" where
  "slash_loop m path p = (if p \<ge> path \<and> m p \<noteq> 47 then slash_loop m path (p - 1) else Some p)"

text \<open>The static buffer is an argument; the result is the name's address and the memory.\<close>

definition fmtname :: "memory \<Rightarrow> u32 \<Rightarrow> u32 \<Rightarrow> (u32 \<times> memory) option" where
  "fmtname m buf path =
     (case ustrlen m path of
        None \<Rightarrow> None
      | Some n \<Rightarrow>
          (case slash_loop m path (path + n) of
             None \<Rightarrow> None
           | Some p \<Rightarrow>
               (let p = p + 1 in
                case ustrlen m p of
                  None \<Rightarrow> None
                | Some k \<Rightarrow>
                    if k \<ge> DIRSIZ then Some (p, m)
                    else
                      let m = umemmove m buf p (sint k) in
                      (case ustrlen m p of
                         None \<Rightarrow> None
                       | Some k \<Rightarrow> Some (buf, umemset m (buf + k) 32 (DIRSIZ - k))))))"

text \<open>The same on strings: the part behind the last slash, filled up with blanks.\<close>

definition basename :: "u8 list \<Rightarrow> u8 list" where "basename xs = rev (takeWhile (\<lambda>c. c \<noteq> 47) (rev xs))"

definition padded :: "u8 list \<Rightarrow> u8 list" where "padded xs = xs @ replicate (14 - length xs) 32"

text \<open>
  \<open>ls\<close>: what \<open>fstat\<close> and \<open>stat\<close> deliver are parameters, type, inode number and size; \<open>des\<close> are the directory entries that are
  read. The result is the lines printed on the standard output; a message is a line without numbers.
\<close>

type_synonym statinfo = "int \<times> u32 \<times> u32"

definition ls_entry :: "(u8 list \<Rightarrow> statinfo option) \<Rightarrow> u8 list \<Rightarrow> u16 \<times> u8 list \<Rightarrow> (u8 list \<times> statinfo option) list" where
  "ls_entry stat path de =
     (let (inum, name) = de;
          buf = path @ [47] @ takeWhile (\<lambda>c. c \<noteq> 0) name
      in if inum = 0 then []
         else case stat buf of None \<Rightarrow> [(buf, None)] | Some st \<Rightarrow> [(padded (basename buf), Some st)])"

definition ls :: "statinfo option option \<Rightarrow> (u8 list \<Rightarrow> statinfo option) \<Rightarrow> (u16 \<times> u8 list) list \<Rightarrow> u8 list \<Rightarrow>
    (u8 list \<times> statinfo option) list" where
  "ls opened stat des path =
     (case opened of
        None \<Rightarrow> []
      | Some None \<Rightarrow> []
      | Some (Some (ty, st)) \<Rightarrow>
          if ty = 2 then [(padded (basename path), Some (ty, st))]
          else if ty = 1
          then (if length path + 1 + 14 + 1 > 512 then [([], None)] else concat (map (ls_entry stat path) des))
          else [])"

text \<open>
  \<open>fmtname\<close> returns the string of the last component, filled up to fourteen characters, if the buffer is clear of the path.
\<close>

lemma slash_loop_base:
  assumes "\<forall>i<length ys. m (of_nat (a + i)) = ys ! i" "0 < a" "a + length ys < 2 ^ 32"
  shows "slash_loop m (of_nat a) (of_nat (a + length ys - 1)) = Some (of_nat (a + length ys - length (takeWhile (\<lambda>c. c \<noteq> 47) (rev ys)) - 1))"
  using assms
proof (induction ys rule: rev_induct)
  case Nil
  have "\<not> (of_nat a :: u32) \<le> of_nat (a - 1)" using Nil(2,3) by (simp add: word_le_nat_alt unat_of_nat_u32 del: of_nat_diff of_nat_add One_nat_def)
  then show ?case by (subst slash_loop.simps) simp
next
  case (snoc y ys)
  have ge: "(of_nat a :: u32) \<le> of_nat (a + length ys)" using snoc.prems by (simp add: word_le_nat_alt unat_of_nat_u32 del: of_nat_add)
  have y: "m (of_nat (a + length ys)) = y" using snoc.prems(1) by (auto simp: nth_append)
  have ih: "slash_loop m (of_nat a) (of_nat (a + length ys - 1)) = Some (of_nat (a + length ys - length (takeWhile (\<lambda>c. c \<noteq> 47) (rev ys)) - 1))"
    by (rule snoc.IH) (use snoc.prems in \<open>auto simp: nth_append split: if_splits\<close>)
  have "(of_nat (a + length ys) :: u32) - 1 = of_nat (a + length ys - 1)" using snoc.prems(2) by (simp add: of_nat_diff)
  then show ?case using ge y ih by (subst slash_loop.simps) (simp del: of_nat_add)
qed

lemma str_at_nth: "str_at m p xs \<longleftrightarrow> (\<forall>i<length xs. m (p + of_nat i) = xs ! i \<and> xs ! i \<noteq> 0) \<and> m (p + of_nat (length xs)) = 0"
proof (induction xs arbitrary: p)
  case (Cons x xs)
  show ?case using Cons.IH [of "p + 1"] by (auto simp: All_less_Suc2 add.assoc)
qed simp

lemma str_at_drop: "str_at m p xs \<Longrightarrow> k \<le> length xs \<Longrightarrow> str_at m (p + of_nat k) (drop k xs)"
proof (induction k arbitrary: p xs)
  case (Suc k)
  then show ?case by (cases xs) (fastforce simp: add.assoc [symmetric] intro: Suc.IH [of "p + 1"])+
qed simp

lemma basename_drop: "basename xs = drop (length xs - length (takeWhile (\<lambda>c. c \<noteq> 47) (rev xs))) xs"
proof -
  have "rev xs = takeWhile (\<lambda>c. c \<noteq> 47) (rev xs) @ dropWhile (\<lambda>c. c \<noteq> 47) (rev xs)" by simp
  then have "xs = rev (dropWhile (\<lambda>c. c \<noteq> 47) (rev xs)) @ basename xs" unfolding basename_def by (metis rev_append rev_rev_ident)
  moreover have "length (basename xs) = length (takeWhile (\<lambda>c. c \<noteq> 47) (rev xs))" by (simp add: basename_def)
  ultimately show ?thesis by (metis append_eq_conv_conj diff_add_inverse2 length_append)
qed

lemma slash_loop_finds:
  assumes str: "str_at m (of_nat a) xs" and a: "0 < a" "a + length xs + 1 < 2 ^ 32"
  shows "\<exists>p. slash_loop m (of_nat a) (of_nat a + of_nat (length xs)) = Some p \<and> str_at m (p + 1) (basename xs)"
proof -
  let ?t = "length (takeWhile (\<lambda>c. c \<noteq> 47) (rev xs))"
  have t: "?t \<le> length xs" using length_takeWhile_le [of _ "rev xs"] by simp
  have "\<forall>i<length (xs @ [0]). m (of_nat (a + i)) = (xs @ [0]) ! i" using str unfolding str_at_nth by (auto simp: nth_append less_Suc_eq)
  then have "slash_loop m (of_nat a) (of_nat (a + length (xs @ [0]) - 1)) =
      Some (of_nat (a + length (xs @ [0]) - length (takeWhile (\<lambda>c. c \<noteq> 47) (rev (xs @ [0]))) - 1))"
    by (rule slash_loop_base) (use a in auto)
  then have r: "slash_loop m (of_nat a) (of_nat a + of_nat (length xs)) = Some (of_nat (a + length xs - ?t - 1))" by simp
  have "(of_nat (a + length xs - ?t - 1) :: u32) + 1 = of_nat a + of_nat (length xs - ?t)"
    using a(1) t by (simp add: of_nat_diff)
  then show ?thesis using r str_at_drop [OF str, of "length xs - ?t"] by (simp add: basename_drop)
qed

section \<open>Properties\<close>

text \<open>
  \<open>wc\<close> counts. However the reads cut the text, \<open>wc\<close> prints the number of its newlines, of the places where a word
  begins, and of its characters.
\<close>

theorem wc_counts:
  assumes "\<forall>r\<in>set rs. r \<noteq> []"
  shows "wc (map Some rs) = Some (of_nat (count_list (concat rs) 10), of_nat (card (word_starts (concat rs))), of_nat (length (concat rs)))"
  using wc_loop_concat [OF assms] by (simp add: wc_def wc_fold)

lemma wc_counts_witness:
  "wc (map Some [[104, 105, 32], [32, 104], [111, 10]]) = Some (1, 2, 7)"
proof -
  have "word_starts ([] @ [104] @ [105] @ [32] @ [32] @ [104] @ [111] @ [10]) = {0, 4}"
    unfolding append_assoc [symmetric] word_starts_snoc by (simp add: blank_def word_starts_def) (auto simp: eval_nat_numeral)
  then show ?thesis using wc_counts [of "[[104, 105, 32], [32, 104], [111, 10]]"] by simp
qed

end
