(* ===== verification/Mkfs.thy ===== *)
theory Mkfs
  imports Directory
begin

text \<open>
  \<open>mkfs.c\<close>: the tool that builds the first file system. Its state is the image file, a sequence of sectors, and two
  counters for the next free inode and the next free block. A system call or an assertion that fails ends the program,
  which is the value \<open>None\<close>; the host is little-endian. Lemmas: \<open>iappend\<close> appends bytes to one file and leaves the others
  alone, the image holds the given files under their names, and an inode that the kernel has loaded from it is a file
  with those contents.
\<close>

section \<open>The program\<close>

definition NINODES :: nat where "NINODES = 200"
definition FSSIZE :: nat where "FSSIZE = 1000"
definition nbitmap :: nat where "nbitmap = FSSIZE div (BSIZE * 8) + 1"
definition ninodeblocks :: nat where "ninodeblocks = NINODES div IPB + 1"
definition nlog :: nat where "nlog = nat LOGSIZE"
definition nmeta :: nat where "nmeta = 2 + nlog + ninodeblocks + nbitmap"
definition mnblocks :: nat where "mnblocks = FSSIZE - nmeta"

record mkimg =
  img :: "nat \<Rightarrow> block"
  nsect :: nat
  msb :: superblock
  freeinode :: u32
  freeblock :: u32

definition xshort :: "u16 \<Rightarrow> u16" where
  "xshort x = rd16 (\<lambda>i. if i = 0 then ucast x else ucast (drop_bit 8 x)) (0 :: nat)"

definition xint :: "u32 \<Rightarrow> u32" where
  "xint x = rd32 (\<lambda>i. ucast (drop_bit (8 * i) x)) (0 :: nat)"

text \<open>The sector at the byte offset \<open>sec * BSIZE\<close>, an unsigned product.\<close>

definition sect :: "u32 \<Rightarrow> nat" where "sect sec = unat (sec * of_nat BSIZE) div BSIZE"

definition wsect :: "u32 \<Rightarrow> block \<Rightarrow> mkimg \<Rightarrow> mkimg" where
  "wsect sec buf s = s\<lparr>img := (img s)(sect sec := buf), nsect := max (nsect s) (sect sec + 1)\<rparr>"

text \<open>A read behind the end of the image fails.\<close>

definition rsect :: "u32 \<Rightarrow> mkimg \<Rightarrow> block option" where
  "rsect sec s = (if sect sec < nsect s then Some (img s (sect sec)) else None)"

definition winode :: "u32 \<Rightarrow> inode \<Rightarrow> mkimg \<Rightarrow> mkimg option" where
  "winode ino ip s =
     (let bn = IBLOCK ino (msb s) in
      map_option (\<lambda>buf. wsect bn (put_dinode (dip_offset ino) ip buf) s) (rsect bn s))"

definition rinode :: "u32 \<Rightarrow> mkimg \<Rightarrow> inode option" where
  "rinode ino s = map_option (\<lambda>buf. get_dinode (dip_offset ino) buf zero_inode) (rsect (IBLOCK ino (msb s)) s)"

definition mkialloc :: "u16 \<Rightarrow> mkimg \<Rightarrow> (u32 \<times> mkimg) option" where
  "mkialloc type s =
     (let ino = freeinode s;
          s = s\<lparr>freeinode := ino + 1\<rparr>;
          din = zero_inode\<lparr>itype := xshort type, nlink := xshort 1, isize := xint 0\<rparr>
      in map_option (Pair ino) (winode ino din s))"

definition mkballoc :: "int \<Rightarrow> mkimg \<Rightarrow> mkimg option" where
  "mkballoc used s =
     (if used < int (BSIZE * 8) then Some (wsect (sb_bmapstart (msb s)) (fold bit_set [0..<nat used] (\<lambda>i. 0)) s) else None)"

text \<open>The block of a file block, allocated when there is none.\<close>

definition take_block :: "mkimg \<Rightarrow> u32 \<times> mkimg" where
  "take_block s = (freeblock s, s\<lparr>freeblock := freeblock s + 1\<rparr>)"

definition addr_block :: "nat \<Rightarrow> inode \<Rightarrow> mkimg \<Rightarrow> inode \<times> mkimg" where
  "addr_block n din s =
     (if xint (addrs din n) = 0
      then let (b, s) = take_block s in (din\<lparr>addrs := (addrs din)(n := xint b)\<rparr>, s)
      else (din, s))"

definition append_block :: "nat \<Rightarrow> inode \<Rightarrow> mkimg \<Rightarrow> (u32 \<times> inode \<times> mkimg) option" where
  "append_block fbn din s =
     (if fbn < NDIRECT
      then let (din, s) = addr_block fbn din s in Some (xint (addrs din fbn), din, s)
      else
        let (din, s) = addr_block NDIRECT din s in
        case rsect (xint (addrs din NDIRECT)) s of
          None \<Rightarrow> None
        | Some ind \<Rightarrow>
            let k = 4 * (fbn - NDIRECT);
                (ind, s) = (if rd32 ind k = 0
                            then let (b, s) = take_block s; ind = wr32 ind k (xint b) in (ind, wsect (xint (addrs din NDIRECT)) ind s)
                            else (ind, s))
            in Some (xint (rd32 ind k), din, s))"

definition bcopy :: "u8 list \<Rightarrow> nat \<Rightarrow> block \<Rightarrow> block" where
  "bcopy p o' buf = (\<lambda>i. if o' \<le> i \<and> i < o' + length p then p ! (i - o') else buf i)"

text \<open>\<open>p\<close> is what is left to write.\<close>

function iappend_loop :: "u32 \<Rightarrow> inode \<Rightarrow> u8 list \<Rightarrow> mkimg \<Rightarrow> (u32 \<times> inode \<times> mkimg) option" where
  "iappend_loop off din p s =
     (if p = [] then Some (off, din, s)
      else
        let fbn = unat off div BSIZE in
        if \<not> fbn < MAXFILE then None
        else
          case append_block fbn din s of
            None \<Rightarrow> None
          | Some (x, din, s) \<Rightarrow>
              let n1 = min (length p) ((fbn + 1) * BSIZE - unat off) in
              (case rsect x s of
                 None \<Rightarrow> None
               | Some buf \<Rightarrow>
                   iappend_loop (off + of_nat n1) din (drop n1 p) (wsect x (bcopy (take n1 p) (unat off - fbn * BSIZE) buf) s)))"
  by pat_completeness auto
termination
proof (relation "measure (\<lambda>(off, din, p, s). length p)", goal_cases)
  case (2 off din p s)
  have "unat off < (unat off div BSIZE + 1) * BSIZE" using div_mult_mod_eq [of "unat off" BSIZE] by (simp add: sizes)
  then show ?case using 2 by simp
qed simp

declare iappend_loop.simps [simp del]

definition iappend :: "u32 \<Rightarrow> u8 list \<Rightarrow> mkimg \<Rightarrow> mkimg option" where
  "iappend ino p s =
     (case rinode ino s of
        None \<Rightarrow> None
      | Some din \<Rightarrow>
          (case iappend_loop (xint (isize din)) din p s of
             None \<Rightarrow> None
           | Some (off, din, s) \<Rightarrow> winode ino (din\<lparr>isize := xint off\<rparr>) s))"

text \<open>A directory entry: zeroes, the number, and the name as \<open>strncpy\<close> leaves it.\<close>

definition mkentry :: "u32 \<Rightarrow> u8 list \<Rightarrow> u8 list" where
  "mkentry ino name =
     map (mk_dirent (xshort (ucast ino)) (arr_strncpy (\<lambda>i. if i < length name then name ! i else 0) 0 DIRSIZ)) [0..<SIZEOF_DIRENT]"

text \<open>A file to add is its name and, if it can be opened, what the reads deliver.\<close>

fun add_reads :: "u32 \<Rightarrow> u8 list list \<Rightarrow> mkimg \<Rightarrow> mkimg option" where
  "add_reads ino [] s = Some s"
| "add_reads ino (r # rs) s = (if r = [] then Some s else Option.bind (iappend ino r s) (add_reads ino rs))"

definition skip_underscore :: "u8 list \<Rightarrow> u8 list" where
  "skip_underscore name = (if name \<noteq> [] \<and> hd name = 95 then tl name else name)"

fun add_files :: "u32 \<Rightarrow> (u8 list \<times> u8 list list option) list \<Rightarrow> mkimg \<Rightarrow> mkimg option" where
  "add_files rootino [] s = Some s"
| "add_files rootino ((name, content) # fs) s =
     (if 47 \<in> set name then None
      else case content of
        None \<Rightarrow> None
      | Some reads \<Rightarrow>
          Option.bind (mkialloc T_FILE s) (\<lambda>(ino, s).
          Option.bind (iappend rootino (mkentry ino (skip_underscore name)) s) (\<lambda>s.
          Option.bind (add_reads ino reads s) (add_files rootino fs))))"

definition mksb :: superblock where
  "mksb = \<lparr>sb_size = xint (of_nat FSSIZE), sb_nblocks = xint (of_nat mnblocks), sb_ninodes = xint (of_nat NINODES),
     sb_nlog = xint (of_nat nlog), sb_logstart = xint 2, sb_inodestart = xint (of_nat (2 + nlog)),
     sb_bmapstart = xint (of_nat (2 + nlog + ninodeblocks))\<rparr>"

definition put_sb :: "superblock \<Rightarrow> block \<Rightarrow> block" where
  "put_sb v d = wr32 (wr32 (wr32 (wr32 (wr32 (wr32 (wr32 d 0 (sb_size v)) 4 (sb_nblocks v)) 8 (sb_ninodes v)) 12 (sb_nlog v))
     16 (sb_logstart v)) 20 (sb_inodestart v)) 24 (sb_bmapstart v)"

definition fix_root :: "u32 \<Rightarrow> mkimg \<Rightarrow> mkimg option" where
  "fix_root rootino s =
     Option.bind (rinode rootino s) (\<lambda>din.
       let off = xint (isize din);
           off = (off div of_nat BSIZE + 1) * of_nat BSIZE
       in winode rootino (din\<lparr>isize := xint off\<rparr>) s)"

definition mkfs_zero :: mkimg where
  "mkfs_zero = fold (\<lambda>i. wsect (of_nat i) (\<lambda>_. 0)) [0..<FSSIZE]
     \<lparr>img = (\<lambda>_ _. 0), nsect = 0, msb = mksb, freeinode = 1, freeblock = of_nat nmeta\<rparr>"

definition mkfs :: "(u8 list \<times> u8 list list option) list \<Rightarrow> mkimg option" where
  "mkfs files =
     Option.bind (mkialloc T_DIR (wsect 1 (put_sb mksb (\<lambda>_. 0)) mkfs_zero)) (\<lambda>(rootino, s).
     if rootino \<noteq> ROOTINO then None
     else
       Option.bind (iappend rootino (mkentry rootino [46]) s) (\<lambda>s.
       Option.bind (iappend rootino (mkentry rootino [46, 46]) s) (\<lambda>s.
       Option.bind (add_files rootino files s) (\<lambda>s.
       Option.bind (fix_root rootino s) (\<lambda>s.
       mkballoc (sint (freeblock s)) s)))))"

section \<open>Sectors and inodes\<close>

lemma mk_sizes: "FSSIZE = 1000" "nlog = 30" "ninodeblocks = 26" "nbitmap = 1" "nmeta = 59" "mnblocks = 941" "IPB = 8"
  "SIZEOF_DINODE = 64"
  by (simp_all add: FSSIZE_def nlog_def LOGSIZE_def MAXOPBLOCKS_def ninodeblocks_def NINODES_def IPB_def BSIZE_def SIZEOF_DINODE_def
      nbitmap_def nmeta_def mnblocks_def)

lemma xint_id [simp]: "xint x = x"
  using bytes_join32 [of x] by (simp add: xint_def rd32_def byte_def)

lemma xshort_id [simp]: "xshort x = x"
  using bytes_join16 [of x] by (simp add: xshort_def rd16_def)

lemma mksb_sample: "mksb = sample_sb"
  by (simp add: mksb_def sample_sb_def mk_sizes NINODES_def)

text \<open>What the kernel decodes from the superblock on the disk is what the tool computed.\<close>

lemma dec_put_sb: "dec_sb (put_sb v d) = v"
  by (simp add: dec_sb_def put_sb_def rd32_wr32_other_nat)

lemma sect_unat: "unat sec < 2 ^ 23 \<Longrightarrow> sect sec = unat sec"
proof -
  assume s: "unat sec < 2 ^ 23"
  have "unat (of_nat BSIZE :: u32) = 512" by (simp add: BSIZE_def)
  then have "unat (sec * of_nat BSIZE) = unat sec * 512" using s by (subst unat_mult_lem [THEN iffD1]) simp_all
  then show ?thesis by (simp add: sect_def BSIZE_def)
qed

lemma sect_of_nat: "n < 2 ^ 23 \<Longrightarrow> sect (of_nat n) = n"
  by (simp add: sect_unat unat_of_nat_u32)

section \<open>The blocks of the files\<close>

text \<open>
  Slot \<open>k\<close> of an inode is its block number \<open>k\<close>, 0 if there is none, and slot \<open>MAXFILE\<close> its indirect block. \<open>D j\<close> is inode
  \<open>j\<close> of the table; \<open>slots\<close> are the places that hold a block.
\<close>

definition mslot :: "(nat \<Rightarrow> block) \<Rightarrow> inode \<Rightarrow> nat \<Rightarrow> nat" where
  "mslot m ip k =
     (if k < NDIRECT then unat (addrs ip k)
      else if k < MAXFILE then (if addrs ip NDIRECT = 0 then 0 else unat (rd32 (m (unat (addrs ip NDIRECT))) (4 * (k - NDIRECT))))
      else unat (addrs ip NDIRECT))"

definition mbyte :: "(nat \<Rightarrow> block) \<Rightarrow> inode \<Rightarrow> nat \<Rightarrow> u8" where
  "mbyte m ip x = (if mslot m ip (x div BSIZE) = 0 then 0 else m (mslot m ip (x div BSIZE)) (x mod BSIZE))"

definition ntable :: nat where "ntable = ninodeblocks * IPB"

definition slots :: "mkimg \<Rightarrow> (nat \<Rightarrow> inode) \<Rightarrow> (nat \<times> nat) set" where
  "slots s D = {(j, k). j < ntable \<and> k \<le> MAXFILE \<and> mslot (img s) (D j) k \<noteq> 0}"

text \<open>The blocks in use are those from \<open>nmeta\<close> to the counter, each in exactly one slot; the others are zero.\<close>

definition mk_inv :: "mkimg \<Rightarrow> (nat \<Rightarrow> inode) \<Rightarrow> bool" where
  "mk_inv s D \<longleftrightarrow> nsect s = FSSIZE \<and> msb s = mksb \<and> unat (freeblock s) \<le> FSSIZE \<and> nmeta \<le> unat (freeblock s)
     \<and> bij_betw (\<lambda>(j, k). mslot (img s) (D j) k) (slots s D) {nmeta..<unat (freeblock s)}
     \<and> (\<forall>b\<ge>unat (freeblock s). img s b = (\<lambda>_. 0))"

text \<open>Every file keeps its bytes, and the blocks before the data stay as they are.\<close>

definition keeps_bytes :: "mkimg \<Rightarrow> (nat \<Rightarrow> inode) \<Rightarrow> mkimg \<Rightarrow> (nat \<Rightarrow> inode) \<Rightarrow> bool" where
  "keeps_bytes s D t E \<longleftrightarrow> freeinode t = freeinode s \<and> (\<forall>b<nmeta. img t b = img s b)
     \<and> (\<forall>j<ntable. \<forall>x<MAXFILE * BSIZE. mbyte (img t) (E j) x = mbyte (img s) (D j) x)"

lemma keeps_bytes_refl [simp]: "keeps_bytes s D s D"
  by (simp add: keeps_bytes_def)

lemma keeps_bytes_trans: "keeps_bytes s D t E \<Longrightarrow> keeps_bytes t E u G \<Longrightarrow> keeps_bytes s D u G"
  by (simp add: keeps_bytes_def)

lemma mk_invD:
  assumes "mk_inv s D"
  shows "nsect s = FSSIZE" "msb s = mksb" "unat (freeblock s) \<le> FSSIZE" "nmeta \<le> unat (freeblock s)"
    "b \<ge> unat (freeblock s) \<Longrightarrow> img s b = (\<lambda>_. 0)"
    "j < ntable \<Longrightarrow> k \<le> MAXFILE \<Longrightarrow> mslot (img s) (D j) k \<noteq> 0 \<Longrightarrow> nmeta \<le> mslot (img s) (D j) k"
    "j < ntable \<Longrightarrow> k \<le> MAXFILE \<Longrightarrow> mslot (img s) (D j) k \<noteq> 0 \<Longrightarrow> mslot (img s) (D j) k < unat (freeblock s)"
proof -
  show "nsect s = FSSIZE" "msb s = mksb" "unat (freeblock s) \<le> FSSIZE" "nmeta \<le> unat (freeblock s)"
    "b \<ge> unat (freeblock s) \<Longrightarrow> img s b = (\<lambda>_. 0)" using assms by (simp_all add: mk_inv_def)
  have "mslot (img s) (D j) k \<in> {nmeta..<unat (freeblock s)}"
    if "j < ntable" "k \<le> MAXFILE" "mslot (img s) (D j) k \<noteq> 0"
  proof -
    have "(j, k) \<in> slots s D" using that by (simp add: slots_def)
    moreover have "bij_betw (\<lambda>(j, k). mslot (img s) (D j) k) (slots s D) {nmeta..<unat (freeblock s)}"
      using assms by (simp add: mk_inv_def)
    ultimately show ?thesis using bij_betwE by fastforce
  qed
  then show "j < ntable \<Longrightarrow> k \<le> MAXFILE \<Longrightarrow> mslot (img s) (D j) k \<noteq> 0 \<Longrightarrow> nmeta \<le> mslot (img s) (D j) k"
    "j < ntable \<Longrightarrow> k \<le> MAXFILE \<Longrightarrow> mslot (img s) (D j) k \<noteq> 0 \<Longrightarrow> mslot (img s) (D j) k < unat (freeblock s)"
    by simp_all
qed

lemma mk_inj:
  assumes "mk_inv s D" "i < ntable" "j < ntable" "k \<le> MAXFILE" "l \<le> MAXFILE"
    "mslot (img s) (D i) k = mslot (img s) (D j) l" "mslot (img s) (D i) k \<noteq> 0"
  shows "i = j \<and> k = l"
proof -
  have "inj_on (\<lambda>(j, k). mslot (img s) (D j) k) (slots s D)" using assms(1) by (simp add: mk_inv_def bij_betw_def)
  moreover have "(i, k) \<in> slots s D" "(j, l) \<in> slots s D" using assms by (auto simp: slots_def)
  ultimately show ?thesis using assms(6) inj_onD [of "\<lambda>(j, k). mslot (img s) (D j) k" "slots s D" "(i, k)" "(j, l)"] by simp
qed

lemma slots_finite [simp]: "finite (slots s D)"
  by (rule finite_subset [of _ "{..<ntable} \<times> {..MAXFILE}"]) (auto simp: slots_def)

lemma mk_card: "mk_inv s D \<Longrightarrow> unat (freeblock s) = nmeta + card (slots s D)"
  using bij_betw_same_card [of "\<lambda>(j, k). mslot (img s) (D j) k" "slots s D" "{nmeta..<unat (freeblock s)}"]
  by (simp add: mk_inv_def)

text \<open>There is a block left as long as not all places are taken.\<close>

lemma mk_room:
  assumes "mk_inv s D" "slots s D \<subseteq> F" "finite F" "nmeta + card F \<le> FSSIZE" "p \<in> F" "p \<notin> slots s D"
  shows "unat (freeblock s) < FSSIZE"
proof -
  have "card (slots s D) < card F" using assms by (intro psubset_card_mono) auto
  then show ?thesis using mk_card [OF assms(1)] assms(4) by simp
qed

lemma mslot_indirect: "mslot m ip MAXFILE = unat (addrs ip NDIRECT)"
  by (simp add: mslot_def MAXFILE_def)

lemma mslot_cong:
  assumes "addrs jp = addrs ip" "addrs ip NDIRECT \<noteq> 0 \<Longrightarrow> m' (unat (addrs ip NDIRECT)) = m (unat (addrs ip NDIRECT))"
  shows "mslot m' jp = mslot m ip"
  by (rule ext) (use assms in \<open>auto simp: mslot_def\<close>)

lemma mbyte_cong:
  assumes "\<And>k. k < MAXFILE \<Longrightarrow> mslot m' jp k = mslot m ip k" "\<And>k. k < MAXFILE \<Longrightarrow> mslot m ip k \<noteq> 0 \<Longrightarrow> m' (mslot m ip k) = m (mslot m ip k)"
    "x < MAXFILE * BSIZE"
  shows "mbyte m' jp x = mbyte m ip x"
proof -
  have "x div BSIZE < MAXFILE" using assms(3) by (simp add: sizes less_mult_imp_div_less)
  then show ?thesis using assms(1,2) by (simp add: mbyte_def)
qed

text \<open>A slot that was empty takes the next block.\<close>

lemma mk_take:
  assumes inv: "mk_inv s D" and i: "i < ntable" and k: "k \<le> MAXFILE" "mslot (img s) (D i) k = 0" and room: "unat (freeblock s) < FSSIZE"
    and t: "nsect t = nsect s" "msb t = msb s" "freeblock t = freeblock s + 1" "freeinode t = freeinode s"
    and E: "\<And>l. l \<le> MAXFILE \<Longrightarrow> mslot (img t) (E i) l = (if l = k then unat (freeblock s) else mslot (img s) (D i) l)"
    and other: "\<And>j l. j < ntable \<Longrightarrow> j \<noteq> i \<Longrightarrow> l \<le> MAXFILE \<Longrightarrow> mslot (img t) (E j) l = mslot (img s) (D j) l"
    and im: "\<And>b. (\<forall>j<ntable. b \<noteq> mslot (img s) (D j) MAXFILE) \<or> b < nmeta \<or> unat (freeblock s) \<le> b \<Longrightarrow> img t b = img s b"
  shows "mk_inv t E" "keeps_bytes s D t E" "slots t E = insert (i, k) (slots s D)"
proof -
  have fb: "unat (freeblock t) = Suc (unat (freeblock s))"
    using room t(3) by (simp add: mk_sizes unat_word_ariths unat_of_nat)
  have pos: "unat (freeblock s) \<noteq> 0" using mk_invD(4) [OF inv] by (simp add: mk_sizes)
  show sl: "slots t E = insert (i, k) (slots s D)"
  proof (rule set_eqI)
    fix p :: "nat \<times> nat"
    obtain j l where p: "p = (j, l)" by fastforce
    show "p \<in> slots t E \<longleftrightarrow> p \<in> insert (i, k) (slots s D)"
      unfolding p slots_def using i k E [of l] other [of j l] pos by (cases "j = i") auto
  qed
  have new: "(i, k) \<notin> slots s D" using k by (simp add: slots_def)
  let ?f = "\<lambda>(j, k). mslot (img s) (D j) k" and ?g = "\<lambda>(j, k). mslot (img t) (E j) k"
  have "?g p = ?f p" if "p \<in> slots s D" for p
  proof -
    obtain j l where p: "p = (j, l)" by fastforce
    then show ?thesis using that E [of l] other [of j l] new by (cases "j = i") (auto simp: slots_def)
  qed
  moreover have "bij_betw ?f (slots s D) {nmeta..<unat (freeblock s)}" using inv by (simp add: mk_inv_def)
  ultimately have "bij_betw ?g (slots s D) {nmeta..<unat (freeblock s)}" using bij_betw_cong [of "slots s D" ?g ?f] by blast
  moreover have "?g (i, k) = unat (freeblock s)" using E k by simp
  ultimately have "bij_betw ?g (slots s D \<union> {(i, k)}) ({nmeta..<unat (freeblock s)} \<union> {unat (freeblock s)})"
    using notIn_Un_bij_betw [of "(i, k)" "slots s D" ?g "{nmeta..<unat (freeblock s)}"] new by simp
  moreover have "{nmeta..<unat (freeblock s)} \<union> {unat (freeblock s)} = {nmeta..<unat (freeblock t)}"
    using mk_invD(4) [OF inv] fb by auto
  ultimately have bij: "bij_betw ?g (slots t E) {nmeta..<unat (freeblock t)}" by (simp add: sl)
  have "img t b = (\<lambda>_. 0)" if "unat (freeblock t) \<le> b" for b using im [of b] mk_invD(5) [OF inv, of b] fb that by simp
  then show "mk_inv t E" unfolding mk_inv_def using mk_invD(1-4) [OF inv] t fb room bij by auto
  have "mbyte (img t) (E j) x = mbyte (img s) (D j) x" if j: "j < ntable" and x: "x < MAXFILE * BSIZE" for j x
  proof (cases "j = i \<and> x div BSIZE = k")
    case True
    have "img t (unat (freeblock s)) = (\<lambda>_. 0)" using im [of "unat (freeblock s)"] mk_invD(5) [OF inv, of "unat (freeblock s)"] by simp
    then show ?thesis using True E k by (simp add: mbyte_def)
  next
    case False
    let ?b = "x div BSIZE"
    have b: "?b < MAXFILE" using x by (simp add: sizes less_mult_imp_div_less)
    have e: "mslot (img t) (E j) ?b = mslot (img s) (D j) ?b" using False b j E [of ?b] other [of j ?b] by (cases "j = i") auto
    have "img t (mslot (img s) (D j) ?b) = img s (mslot (img s) (D j) ?b)" if nz: "mslot (img s) (D j) ?b \<noteq> 0"
    proof (rule im)
      have "mslot (img s) (D j) ?b \<noteq> mslot (img s) (D l) MAXFILE" if "l < ntable" for l
        using mk_inj [OF inv j that, of ?b MAXFILE] b nz by auto
      then show "(\<forall>l<ntable. mslot (img s) (D j) ?b \<noteq> mslot (img s) (D l) MAXFILE) \<or> mslot (img s) (D j) ?b < nmeta
        \<or> unat (freeblock s) \<le> mslot (img s) (D j) ?b" by simp
    qed
    then show ?thesis using e by (auto simp: mbyte_def)
  qed
  then show "keeps_bytes s D t E" using im t(4) by (simp add: keeps_bytes_def)
qed

text \<open>One address of the inode.\<close>

definition addr_slot :: "nat \<Rightarrow> nat" where "addr_slot n = (if n < NDIRECT then n else MAXFILE)"

lemma addr_slot_props: "n \<le> NDIRECT \<Longrightarrow> mslot m ip (addr_slot n) = unat (addrs ip n)" "n \<le> NDIRECT \<Longrightarrow> addr_slot n \<le> MAXFILE"
  by (auto simp: addr_slot_def mslot_def sizes)

lemma addr_block_spec:
  assumes inv: "mk_inv s D" and i: "i < ntable" and n: "n \<le> NDIRECT"
    and F: "slots s D \<subseteq> F" "finite F" "nmeta + card F \<le> FSSIZE" "(i, addr_slot n) \<in> F"
  obtains e t where "addr_block n (D i) s = (e, t)" "mk_inv t (D(i := e))" "keeps_bytes s D t (D(i := e))"
    "slots t (D(i := e)) = insert (i, addr_slot n) (slots s D)" "addrs e n \<noteq> 0" "e = (D i)\<lparr>addrs := addrs e\<rparr>"
proof (cases "addrs (D i) n = 0")
  case False
  have "(i, addr_slot n) \<in> slots s D" using False i n addr_slot_props [OF n] by (simp add: slots_def unat_gt_0)
  then have "insert (i, addr_slot n) (slots s D) = slots s D" by blast
  then show ?thesis using that [of "D i" s] inv False by (simp add: addr_block_def)
next
  case True
  let ?e = "(D i)\<lparr>addrs := (addrs (D i))(n := freeblock s)\<rparr>" and ?t = "s\<lparr>freeblock := freeblock s + 1\<rparr>"
  note p = addr_slot_props [OF n]
  have free: "mslot (img s) (D i) (addr_slot n) = 0" using True p by simp
  have room: "unat (freeblock s) < FSSIZE" by (rule mk_room [OF inv F]) (use free in \<open>simp add: slots_def\<close>)
  have zero: "img s (unat (freeblock s)) = (\<lambda>_. 0)" using mk_invD(5) [OF inv] by simp
  have z: "rd32 (\<lambda>_. 0) k = (0 :: u32)" for k :: nat by (simp add: rd32_def)
  have E: "mslot (img ?t) ?e l = (if l = addr_slot n then unat (freeblock s) else mslot (img s) (D i) l)" if "l \<le> MAXFILE" for l
    using that n True zero z by (auto simp: mslot_def addr_slot_def sizes)
  note t = mk_take [OF inv i p(2) free room, of ?t "D(i := ?e)"]
  have f: "freeblock s \<noteq> 0" using mk_invD(4) [OF inv] by (auto simp: mk_sizes)
  show ?thesis
  proof (rule that)
    show "addr_block n (D i) s = (?e, ?t)" using True by (simp add: addr_block_def take_block_def)
    show "mk_inv ?t (D(i := ?e))" "keeps_bytes s D ?t (D(i := ?e))" "slots ?t (D(i := ?e)) = insert (i, addr_slot n) (slots s D)"
      by (rule t; use E in simp)+
    show "addrs ?e n \<noteq> 0" "?e = (D i)\<lparr>addrs := addrs ?e\<rparr>" using f by simp_all
  qed
qed

text \<open>One entry of the indirect block.\<close>

definition entry_block :: "nat \<Rightarrow> u32 \<Rightarrow> mkimg \<Rightarrow> u32 \<times> mkimg" where
  "entry_block k a s =
     (let ind = img s (unat a)
      in if rd32 ind k = 0
         then let (b, s) = take_block s; ind = wr32 ind k b in (rd32 ind k, wsect a ind s)
         else (rd32 ind k, s))"

lemma rd32_zero_wr: "rd32 (wr32 d (4 * n :: nat) v) (4 * k) = (if k = n then v else rd32 d (4 * k))"
  by (rule rd32_put_entry)

lemma entry_block_spec:
  assumes inv: "mk_inv s D" and i: "i < ntable" and k: "NDIRECT \<le> k" "k < MAXFILE" and a: "addrs (D i) NDIRECT \<noteq> 0"
    and F: "slots s D \<subseteq> F" "finite F" "nmeta + card F \<le> FSSIZE" "(i, k) \<in> F"
  obtains x t where "entry_block (4 * (k - NDIRECT)) (addrs (D i) NDIRECT) s = (x, t)" "mk_inv t D" "keeps_bytes s D t D"
    "slots t D = insert (i, k) (slots s D)" "unat x = mslot (img t) (D i) k"
proof -
  let ?a = "unat (addrs (D i) NDIRECT)" and ?k = "4 * (k - NDIRECT)"
  have ms: "mslot m (D i) k = unat (rd32 (m ?a) ?k)" for m using k a by (simp add: mslot_def)
  have am: "mslot (img s) (D i) MAXFILE = ?a" "?a \<noteq> 0" using a by (simp_all add: mslot_indirect unat_eq_0)
  have bound: "nmeta \<le> ?a" "?a < unat (freeblock s)" using mk_invD(6,7) [OF inv i, of MAXFILE] am by simp_all
  then have sa: "sect (addrs (D i) NDIRECT) = ?a" using mk_invD(3) [OF inv] by (intro sect_unat) (simp add: mk_sizes)
  show ?thesis
  proof (cases "rd32 (img s ?a) ?k = 0")
    case False
    then have "(i, k) \<in> slots s D" using i k ms by (simp add: slots_def unat_gt_0)
    then have "insert (i, k) (slots s D) = slots s D" by blast
    then show ?thesis using that [of "rd32 (img s ?a) ?k" s] inv False ms by (simp add: entry_block_def)
  next
    case True
    let ?ind = "wr32 (img s ?a) ?k (freeblock s)"
    let ?t = "wsect (addrs (D i) NDIRECT) ?ind (s\<lparr>freeblock := freeblock s + 1\<rparr>)"
    have free: "mslot (img s) (D i) k = 0" using True ms by simp
    have room: "unat (freeblock s) < FSSIZE" by (rule mk_room [OF inv F]) (use free in \<open>simp add: slots_def\<close>)
    have im: "img ?t = (img s)(?a := ?ind)" and ns: "nsect ?t = nsect s"
      using sa mk_invD(1,3) [OF inv] bound by (simp_all add: wsect_def)
    have E: "mslot (img ?t) (D i) l = (if l = k then unat (freeblock s) else mslot (img s) (D i) l)" if "l \<le> MAXFILE" for l
    proof -
      have "l - NDIRECT = k - NDIRECT \<longleftrightarrow> l = k" if "NDIRECT \<le> l" using that k by linarith
      then show ?thesis using k a by (auto simp: mslot_def im rd32_put_entry)
    qed
    have other: "mslot (img ?t) (D j) l = mslot (img s) (D j) l" if j: "j < ntable" "j \<noteq> i" for j l
    proof -
      have "mslot (img s) (D j) MAXFILE \<noteq> ?a" if "addrs (D j) NDIRECT \<noteq> 0"
        using mk_inj [OF inv j(1) i, of MAXFILE MAXFILE] am j(2) by auto
      then have "mslot (img ?t) (D j) = mslot (img s) (D j)" by (intro mslot_cong) (auto simp: im mslot_indirect)
      then show ?thesis by simp
    qed
    have others: "img ?t b = img s b" if b: "(\<forall>j<ntable. b \<noteq> mslot (img s) (D j) MAXFILE) \<or> b < nmeta \<or> unat (freeblock s) \<le> b" for b
    proof -
      have "b \<noteq> ?a" using b i bound am(1) by auto
      then show ?thesis by (simp add: im)
    qed
    have kl: "k \<le> MAXFILE" using k by simp
    have f: "msb ?t = msb s" "freeblock ?t = freeblock s + 1" "freeinode ?t = freeinode s" by (simp_all add: wsect_def)
    note t = mk_take [OF inv i kl free room ns f, of D]
    show ?thesis
    proof (rule that)
      show "entry_block ?k (addrs (D i) NDIRECT) s = (freeblock s, ?t)" using True by (simp add: entry_block_def take_block_def)
      show "mk_inv ?t D" "keeps_bytes s D ?t D" "slots ?t D = insert (i, k) (slots s D)"
        by (rule t; use E other others in blast)+
      show "unat (freeblock s) = mslot (img ?t) (D i) k" using E k by simp
    qed
  qed
qed

lemma append_block_eq:
  assumes "\<not> fbn < NDIRECT" "addr_block NDIRECT din s = (e, t)" "sect (addrs e NDIRECT) = unat (addrs e NDIRECT)"
    "unat (addrs e NDIRECT) < nsect t"
  shows "append_block fbn din s = (let (x, t) = entry_block (4 * (fbn - NDIRECT)) (addrs e NDIRECT) t in Some (x, e, t))"
  using assms by (simp add: append_block_def entry_block_def rsect_def take_block_def Let_def split: prod.splits)

lemma append_block_spec:
  assumes inv: "mk_inv s D" and i: "i < ntable" and k: "k < MAXFILE"
    and F: "slots s D \<subseteq> F" "finite F" "nmeta + card F \<le> FSSIZE" "(i, k) \<in> F" "NDIRECT \<le> k \<Longrightarrow> (i, MAXFILE) \<in> F"
  obtains x e t where "append_block k (D i) s = Some (x, e, t)" "mk_inv t (D(i := e))" "keeps_bytes s D t (D(i := e))"
    "slots t (D(i := e)) = insert (i, k) (slots s D \<union> (if k < NDIRECT then {} else {(i, MAXFILE)}))"
    "unat x = mslot (img t) e k" "e = (D i)\<lparr>addrs := addrs e\<rparr>"
proof (cases "k < NDIRECT")
  case True
  have k': "k \<le> NDIRECT" "(i, addr_slot k) \<in> F" "addr_slot k = k" using True F(4) by (simp_all add: addr_slot_def)
  obtain e t where t: "addr_block k (D i) s = (e, t)" "mk_inv t (D(i := e))" "keeps_bytes s D t (D(i := e))"
    "slots t (D(i := e)) = insert (i, addr_slot k) (slots s D)" "addrs e k \<noteq> 0" "e = (D i)\<lparr>addrs := addrs e\<rparr>"
    by (rule addr_block_spec [OF inv i k'(1) F(1-3) k'(2)])
  then show ?thesis using that [of "addrs e k" e t] True k'(3) by (simp add: append_block_def mslot_def)
next
  case False
  have n: "(i, addr_slot NDIRECT) \<in> F" "addr_slot NDIRECT = MAXFILE" using False F(5) by (simp_all add: addr_slot_def)
  obtain e t where t: "addr_block NDIRECT (D i) s = (e, t)" "mk_inv t (D(i := e))" "keeps_bytes s D t (D(i := e))"
    "slots t (D(i := e)) = insert (i, addr_slot NDIRECT) (slots s D)" "addrs e NDIRECT \<noteq> 0" "e = (D i)\<lparr>addrs := addrs e\<rparr>"
    by (rule addr_block_spec [OF inv i order.refl F(1-3) n(1)])
  have sub: "slots t (D(i := e)) \<subseteq> F" using t(4) F(1) n by simp
  have a: "addrs ((D(i := e)) i) NDIRECT \<noteq> 0" using t(5) by simp
  obtain x u where u: "entry_block (4 * (k - NDIRECT)) (addrs ((D(i := e)) i) NDIRECT) t = (x, u)" "mk_inv u (D(i := e))"
    "keeps_bytes t (D(i := e)) u (D(i := e))" "slots u (D(i := e)) = insert (i, k) (slots t (D(i := e)))"
    "unat x = mslot (img u) ((D(i := e)) i) k"
    by (rule entry_block_spec [OF t(2) i _ k a sub F(2-4)]) (use False in simp)
  have "unat (addrs e NDIRECT) < unat (freeblock t)" using mk_invD(7) [OF t(2) i, of MAXFILE] t(5) by (simp add: mslot_indirect unat_eq_0)
  then have "unat (addrs e NDIRECT) < nsect t" "unat (addrs e NDIRECT) < 2 ^ 23" using mk_invD(1,3) [OF t(2)] by (simp_all add: mk_sizes)
  then have "append_block k (D i) s = Some (x, e, u)" using append_block_eq [OF False t(1)] u(1) by (simp add: sect_unat)
  then show ?thesis
  proof (rule that)
    show "mk_inv u (D(i := e))" "e = (D i)\<lparr>addrs := addrs e\<rparr>" "unat x = mslot (img u) e k" using u(2,5) t(6) by simp_all
    show "keeps_bytes s D u (D(i := e))" by (rule keeps_bytes_trans [OF t(3) u(3)])
    show "slots u (D(i := e)) = insert (i, k) (slots s D \<union> (if k < NDIRECT then {} else {(i, MAXFILE)}))"
      unfolding u(4) t(4) n(2) using False by simp
  qed
qed

section \<open>Appending\<close>

lemma mk_write:
  assumes inv: "mk_inv s D" and i: "i < ntable" and k: "k < MAXFILE" and x: "unat x = mslot (img s) (D i) k" "unat x \<noteq> 0"
  shows "rsect x s = Some (img s (unat x))" "mk_inv (wsect x d s) D" "slots (wsect x d s) D = slots s D"
    "freeinode (wsect x d s) = freeinode s" "b < nmeta \<Longrightarrow> img (wsect x d s) b = img s b"
    "j < ntable \<Longrightarrow> l \<le> MAXFILE \<Longrightarrow> mslot (img (wsect x d s)) (D j) l = mslot (img s) (D j) l"
    "j < ntable \<Longrightarrow> y < MAXFILE * BSIZE \<Longrightarrow>
      mbyte (img (wsect x d s)) (D j) y = (if j = i \<and> y div BSIZE = k then d (y mod BSIZE) else mbyte (img s) (D j) y)"
proof -
  have bound: "nmeta \<le> unat x" "unat x < unat (freeblock s)" using mk_invD(6,7) [OF inv i, of k] k x by simp_all
  then have sx: "sect x = unat x" using mk_invD(3) [OF inv] by (intro sect_unat) (simp add: mk_sizes)
  show "rsect x s = Some (img s (unat x))" using sx bound mk_invD(1,3) [OF inv] by (simp add: rsect_def)
  have im: "img (wsect x d s) = (img s)(unat x := d)" and f: "nsect (wsect x d s) = nsect s" "msb (wsect x d s) = msb s"
    "freeblock (wsect x d s) = freeblock s" "freeinode (wsect x d s) = freeinode s"
    using sx bound mk_invD(1,3) [OF inv] by (simp_all add: wsect_def)
  show "freeinode (wsect x d s) = freeinode s" "b < nmeta \<Longrightarrow> img (wsect x d s) b = img s b" using f im bound by simp_all
  have ms: "mslot (img (wsect x d s)) (D j) = mslot (img s) (D j)" if j: "j < ntable" for j
  proof (rule mslot_cong)
    assume "addrs (D j) NDIRECT \<noteq> 0"
    then have "unat (addrs (D j) NDIRECT) \<noteq> unat x" using mk_inj [OF inv j i, of MAXFILE k] k x by (auto simp: mslot_indirect)
    then show "img (wsect x d s) (unat (addrs (D j) NDIRECT)) = img s (unat (addrs (D j) NDIRECT))" by (simp add: im)
  qed simp
  then show "j < ntable \<Longrightarrow> l \<le> MAXFILE \<Longrightarrow> mslot (img (wsect x d s)) (D j) l = mslot (img s) (D j) l" by simp
  show sl: "slots (wsect x d s) D = slots s D" using ms by (auto simp: slots_def)
  have "bij_betw (\<lambda>(j, k). mslot (img (wsect x d s)) (D j) k) (slots s D) {nmeta..<unat (freeblock s)}"
  proof (subst bij_betw_cong [where g = "\<lambda>(j, k). mslot (img s) (D j) k"])
    show "(case p of (j, k) \<Rightarrow> mslot (img (wsect x d s)) (D j) k) = (case p of (j, k) \<Rightarrow> mslot (img s) (D j) k)"
      if "p \<in> slots s D" for p using that ms by (auto simp: slots_def)
  qed (use inv in \<open>simp add: mk_inv_def\<close>)
  moreover have "img (wsect x d s) b = (\<lambda>_. 0)" if "unat (freeblock s) \<le> b" for b
    using mk_invD(5) [OF inv that] bound that by (simp add: im)
  ultimately show "mk_inv (wsect x d s) D" using mk_invD(1-4) [OF inv] by (simp add: mk_inv_def sl f)
  show "mbyte (img (wsect x d s)) (D j) y = (if j = i \<and> y div BSIZE = k then d (y mod BSIZE) else mbyte (img s) (D j) y)"
    if j: "j < ntable" and y: "y < MAXFILE * BSIZE"
  proof (cases "j = i \<and> y div BSIZE = k")
    case True
    then show ?thesis using ms [OF j] x by (simp add: mbyte_def im)
  next
    case False
    let ?b = "mslot (img s) (D j) (y div BSIZE)"
    have "y div BSIZE \<le> MAXFILE" using y by (simp add: sizes div_le_mono)
    then have "?b \<noteq> 0 \<Longrightarrow> ?b \<noteq> unat x" using mk_inj [OF inv j i, of "y div BSIZE" k] False k x by auto
    then show ?thesis using False ms [OF j] by (auto simp: mbyte_def im)
  qed
qed

text \<open>The slots that a file of size \<open>z\<close> needs.\<close>

definition need :: "nat \<Rightarrow> nat \<Rightarrow> bool" where
  "need k z \<longleftrightarrow> (if k < MAXFILE then k * BSIZE < z else NDIRECT * BSIZE < z)"

lemma need_step:
  assumes "1 \<le> n" "n \<le> BSIZE - off mod BSIZE" "off div BSIZE < MAXFILE" "k \<le> MAXFILE"
  shows "need k (off + n) \<longleftrightarrow> need k off \<or> k = off div BSIZE \<or> k = MAXFILE \<and> \<not> off div BSIZE < NDIRECT"
proof -
  have d: "off = off div 512 * 512 + off mod 512" "off mod 512 < 512" by simp_all
  show ?thesis
  proof (cases "k < MAXFILE")
    case True
    have "k * 512 < off + n \<longleftrightarrow> k * 512 < off \<or> k = off div 512"
    proof (cases "k < off div 512 \<or> k = off div 512")
      case True
      then have "k * 512 \<le> off div 512 * 512" by auto
      then show ?thesis using True d assms(1) by linarith
    next
      case False
      then have "(off div 512 + 1) * 512 \<le> k * 512" by (intro mult_le_mono1) simp
      moreover have "n \<le> 512 - off mod 512" using assms(2) by (simp add: sizes)
      moreover have "(off div 512 + 1) * 512 = off div 512 * 512 + 512" by simp
      ultimately have "\<not> k * 512 < off + n" using d by linarith
      then have "\<not> k * 512 < off + n" "\<not> k * 512 < off" by simp_all
      then show ?thesis using False by simp
    qed
    then show ?thesis using True by (simp add: need_def sizes)
  next
    case False
    have q: "off div 512 < 12 \<longleftrightarrow> off < 6144" by (simp add: div_less_iff_less_mult)
    have "off + n \<le> 6144" if "off < 6144"
    proof -
      have "off div 512 \<le> 11" "n \<le> 512 - off mod 512" using that q assms(2) by (simp_all add: sizes)
      then show ?thesis using d by linarith
    qed
    then have "6144 < off + n \<longleftrightarrow> 6144 < off \<or> \<not> off div 512 < 12" unfolding q using assms(1) by linarith
    moreover have "k \<noteq> off div BSIZE" "k = MAXFILE" using False assms(3,4) by auto
    ultimately show ?thesis using False by (simp add: need_def sizes)
  qed
qed

text \<open>The bytes \<open>p\<close> have been put into file \<open>i\<close> from offset \<open>o'\<close>; its inode is now \<open>e\<close>.\<close>

definition appended :: "nat \<Rightarrow> nat \<Rightarrow> u8 list \<Rightarrow> mkimg \<Rightarrow> (nat \<Rightarrow> inode) \<Rightarrow> mkimg \<Rightarrow> inode \<Rightarrow> bool" where
  "appended i o' p s D t e \<longleftrightarrow> mk_inv t (D(i := e)) \<and> freeinode t = freeinode s \<and> (\<forall>b<nmeta. img t b = img s b)
    \<and> (\<forall>j<ntable. j \<noteq> i \<longrightarrow> (\<forall>y<MAXFILE * BSIZE. mbyte (img t) (D j) y = mbyte (img s) (D j) y))
    \<and> (\<forall>y<MAXFILE * BSIZE. mbyte (img t) e y = (if o' \<le> y \<and> y < o' + length p then p ! (y - o') else mbyte (img s) (D i) y))
    \<and> slots t (D(i := e)) = slots s D \<union> {(i, k) | k. k \<le> MAXFILE \<and> need k (o' + length p)} \<and> e = (D i)\<lparr>addrs := addrs e\<rparr>"

lemma appendedD:
  assumes "appended i o' p s D t e"
  shows "mk_inv t (D(i := e))" "freeinode t = freeinode s" "b < nmeta \<Longrightarrow> img t b = img s b"
    "j < ntable \<Longrightarrow> j \<noteq> i \<Longrightarrow> y < MAXFILE * BSIZE \<Longrightarrow> mbyte (img t) (D j) y = mbyte (img s) (D j) y"
    "y < MAXFILE * BSIZE \<Longrightarrow> mbyte (img t) e y = (if o' \<le> y \<and> y < o' + length p then p ! (y - o') else mbyte (img s) (D i) y)"
    "slots t (D(i := e)) = slots s D \<union> {(i, k) | k. k \<le> MAXFILE \<and> need k (o' + length p)}" "e = (D i)\<lparr>addrs := addrs e\<rparr>"
proof -
  note a = assms [unfolded appended_def]
  show "mk_inv t (D(i := e))" by (rule a [THEN conjunct1])
  show "freeinode t = freeinode s" by (rule a [THEN conjunct2, THEN conjunct1])
  show "b < nmeta \<Longrightarrow> img t b = img s b" by (rule a [THEN conjunct2, THEN conjunct2, THEN conjunct1, rule_format])
  note b = a [THEN conjunct2, THEN conjunct2, THEN conjunct2]
  show "j < ntable \<Longrightarrow> j \<noteq> i \<Longrightarrow> y < MAXFILE * BSIZE \<Longrightarrow> mbyte (img t) (D j) y = mbyte (img s) (D j) y"
    by (rule b [THEN conjunct1, rule_format])
  show "y < MAXFILE * BSIZE \<Longrightarrow> mbyte (img t) e y = (if o' \<le> y \<and> y < o' + length p then p ! (y - o') else mbyte (img s) (D i) y)"
    by (rule b [THEN conjunct2, THEN conjunct1, rule_format])
  show "slots t (D(i := e)) = slots s D \<union> {(i, k) | k. k \<le> MAXFILE \<and> need k (o' + length p)}"
    by (rule b [THEN conjunct2, THEN conjunct2, THEN conjunct1])
  show "e = (D i)\<lparr>addrs := addrs e\<rparr>" by (rule b [THEN conjunct2, THEN conjunct2, THEN conjunct2])
qed

lemma need_mono: "a \<le> b \<Longrightarrow> need k a \<Longrightarrow> need k b"
  by (auto simp: need_def split: if_splits)

text \<open>The step of the loop: the block is there, and the bytes go into it.\<close>

lemma append_step:
  assumes inv: "mk_inv s D" and i: "i < ntable" and p: "p \<noteq> []" and off: "unat off + length p \<le> MAXFILE * BSIZE"
    and ex: "\<forall>k\<le>MAXFILE. (i, k) \<in> slots s D \<longleftrightarrow> need k (unat off)"
    and F: "slots s D \<subseteq> F" "finite F" "nmeta + card F \<le> FSSIZE" "\<forall>k\<le>MAXFILE. need k (unat off + length p) \<longrightarrow> (i, k) \<in> F"
    and n: "n = min (length p) (BSIZE - unat off mod BSIZE)"
  obtains e t where "iappend_loop off (D i) p s = iappend_loop (off + of_nat n) e (drop n p) t" "appended i (unat off) (take n p) s D t e"
proof -
  let ?o = "unat off" and ?k = "unat off div BSIZE" and ?m = "unat off mod BSIZE"
  have om: "?o = ?k * BSIZE + ?m" "?m < BSIZE" by (simp_all add: sizes)
  have n1: "1 \<le> n" "n \<le> BSIZE - ?m" "n \<le> length p" using p om n by (simp_all add: Suc_le_eq)
  have k: "?k < MAXFILE" using off p by (intro less_mult_imp_div_less) (cases p; simp)
  note st = need_step [OF n1(1,2) k]
  have mono: "need l (?o + n) \<Longrightarrow> need l (?o + length p)" for l using n1(3) by (auto simp: need_def split: if_splits)
  have "(i, ?k) \<in> F" "NDIRECT \<le> ?k \<Longrightarrow> (i, MAXFILE) \<in> F" using F(4) mono st k by (auto simp: not_less)
  then obtain x e t where t: "append_block ?k (D i) s = Some (x, e, t)" "mk_inv t (D(i := e))" "keeps_bytes s D t (D(i := e))"
    "slots t (D(i := e)) = insert (i, ?k) (slots s D \<union> (if ?k < NDIRECT then {} else {(i, MAXFILE)}))"
    "unat x = mslot (img t) e ?k" "e = (D i)\<lparr>addrs := addrs e\<rparr>"
    by (rule append_block_spec [OF inv i k F(1-3)])
  have "(i, ?k) \<in> slots t (D(i := e))" using t(4) by simp
  then have nz: "unat x \<noteq> 0" using t(5) by (simp add: slots_def)
  let ?d = "bcopy (take n p) ?m (img t (unat x))"
  have xs: "unat x = mslot (img t) ((D(i := e)) i) ?k" using t(5) by simp
  note w = mk_write [OF t(2) i k xs nz]
  have mn: "min (length p) ((?k + 1) * BSIZE - ?o) = n" proof -
    have "(?k + 1) * BSIZE = ?k * BSIZE + BSIZE" by simp
    then have "(?k + 1) * BSIZE - ?o = BSIZE - ?m" using om by linarith
    then show ?thesis using n by simp
  qed
  have so: "?o - ?k * BSIZE = ?m" using om by linarith
  show ?thesis
  proof (rule that)
    show "iappend_loop off (D i) p s = iappend_loop (off + of_nat n) e (drop n p) (wsect x ?d t)"
      using p k t(1) w(1) by (subst iappend_loop.simps) (simp add: mn [simplified] so)
    have len: "length (take n p) = n" using n1(3) by simp
    have kb: "mbyte (img t) ((D(i := e)) j) y = mbyte (img s) (D j) y" if "j < ntable" "y < MAXFILE * BSIZE" for j y
      using t(3) that unfolding keeps_bytes_def by blast
    show "appended i ?o (take n p) s D (wsect x ?d t) e"
      unfolding appended_def len
    proof (intro conjI)
    show "mk_inv (wsect x ?d t) (D(i := e))" by (rule w(2))
    show "freeinode (wsect x ?d t) = freeinode s" "\<forall>b<nmeta. img (wsect x ?d t) b = img s b"
      using w(4,5) t(3) by (simp_all add: keeps_bytes_def)
    show "\<forall>j<ntable. j \<noteq> i \<longrightarrow> (\<forall>y<MAXFILE * BSIZE. mbyte (img (wsect x ?d t)) (D j) y = mbyte (img s) (D j) y)"
      using w(7) [of _ _ ?d] kb by (metis fun_upd_other)
    show "\<forall>y<MAXFILE * BSIZE. mbyte (img (wsect x ?d t)) e y = (if ?o \<le> y \<and> y < ?o + n then take n p ! (y - ?o) else mbyte (img s) (D i) y)"
    proof (intro allI impI)
      fix y
      assume y: "y < MAXFILE * BSIZE"
      have c: "mbyte (img (wsect x ?d t)) e y = (if y div BSIZE = ?k then ?d (y mod BSIZE) else mbyte (img t) e y)"
        using w(7) [OF i y, of ?d] by simp
      have ym: "y = y div BSIZE * BSIZE + y mod BSIZE" "y mod BSIZE < BSIZE" by (simp_all add: sizes)
      have b: "mbyte (img t) e y = mbyte (img s) (D i) y" using kb [OF i y] by simp
      show "mbyte (img (wsect x ?d t)) e y = (if ?o \<le> y \<and> y < ?o + n then take n p ! (y - ?o) else mbyte (img s) (D i) y)"
      proof (cases "y div BSIZE = ?k")
        case True
        have y2: "y = ?k * BSIZE + y mod BSIZE" using ym(1) True by simp
        have yo: "?o \<le> y \<longleftrightarrow> ?m \<le> y mod BSIZE" "y < ?o + n \<longleftrightarrow> y mod BSIZE < ?m + n"
          using om(1) y2 by (intro iffI; linarith)+
        have ys: "y mod BSIZE - ?m = y - ?o" using om(1) y2 by linarith
        have "img t (unat x) (y mod BSIZE) = mbyte (img t) e y" using True t(5) nz by (simp add: mbyte_def)
        then show ?thesis using c True b n1(3) by (auto simp: bcopy_def min_absorb2 ys simp flip: yo)
      next
        case False
        have "\<not> (?o \<le> y \<and> y < ?o + n)"
        proof
          assume a: "?o \<le> y \<and> y < ?o + n"
          then have "?k \<le> y div BSIZE" by (simp add: div_le_mono)
          moreover have "(?k + 1) * BSIZE = ?k * BSIZE + BSIZE" by simp
          then have "y < (?k + 1) * BSIZE" using a n1(2) om by linarith
          then have "y div BSIZE < ?k + 1" by (rule less_mult_imp_div_less)
          ultimately show False using False by simp
        qed
        then show ?thesis using c False b by auto
      qed
    qed
    show "slots (wsect x ?d t) (D(i := e)) = slots s D \<union> {(i, k) | k. k \<le> MAXFILE \<and> need k (?o + n)}"
      unfolding w(3) t(4) using st ex k by (auto simp: not_less)
    show "e = (D i)\<lparr>addrs := addrs e\<rparr>" by (rule t(6))
    qed
  qed
qed

lemma appended_trans:
  assumes "appended i o' (take n p) s D t e" "appended i (o' + n) (drop n p) t (D(i := e)) u e'" "n \<le> length p"
  shows "appended i o' p s D u e'"
  unfolding appended_def
proof (intro conjI allI impI)
  note a = appendedD [OF assms(1)] and b = appendedD [OF assms(2)]
  have len: "length (take n p) = n" "o' + n + length (drop n p) = o' + length p" using assms(3) by simp_all
  show "mk_inv u (D(i := e'))" using b(1) by simp
  show "freeinode u = freeinode s" using a(2) b(2) by simp
  show "img u x = img s x" if "x < nmeta" for x using a(3) b(3) that by simp
  show "mbyte (img u) (D j) y = mbyte (img s) (D j) y" if "j < ntable" "j \<noteq> i" "y < MAXFILE * BSIZE" for j y
    using a(4) [OF that] b(4) [OF that] that(2) by simp
  show "mbyte (img u) e' y = (if o' \<le> y \<and> y < o' + length p then p ! (y - o') else mbyte (img s) (D i) y)" if y: "y < MAXFILE * BSIZE" for y
  proof (cases "o' + n \<le> y \<and> y < o' + length p")
    case True
    then have "drop n p ! (y - (o' + n)) = p ! (y - o')" using assms(3) by (simp add: nth_drop)
    then show ?thesis using b(5) [OF y] True len by auto
  next
    case False
    then have e: "mbyte (img u) e' y = mbyte (img t) e y" using b(5) [OF y] len by auto
    have "take n p ! (y - o') = p ! (y - o')" if "o' \<le> y" "y < o' + n" using that by (intro nth_take) linarith
    then show ?thesis using a(5) [OF y] e False len assms(3) by auto
  qed
  show "slots u (D(i := e')) = slots s D \<union> {(i, k) | k. k \<le> MAXFILE \<and> need k (o' + length p)}"
    using a(6) b(6) need_mono [of "o' + n" "o' + length p"] assms(3) len by auto
  have "addrs e' = addrs (e\<lparr>addrs := addrs e'\<rparr>)" by simp
  show "e' = (D i)\<lparr>addrs := addrs e'\<rparr>" by (subst b(7), subst fun_upd_same, subst a(7)) simp
qed

lemma iappend_loop_spec:
  assumes "mk_inv s D" "i < ntable" "unat off + length p \<le> MAXFILE * BSIZE"
    and "\<forall>k\<le>MAXFILE. (i, k) \<in> slots s D \<longleftrightarrow> need k (unat off)"
    and "slots s D \<subseteq> F" "finite F" "nmeta + card F \<le> FSSIZE" "\<forall>k\<le>MAXFILE. need k (unat off + length p) \<longrightarrow> (i, k) \<in> F"
  shows "\<exists>off' e t. iappend_loop off (D i) p s = Some (off', e, t) \<and> unat off' = unat off + length p \<and> appended i (unat off) p s D t e"
  using assms
proof (induction "length p" arbitrary: p off D s rule: less_induct)
  case (less p off D s)
  let ?o = "unat off"
  show ?case
  proof (cases "p = []")
    case True
    have "slots s D \<union> {(i, k) | k. k \<le> MAXFILE \<and> need k ?o} = slots s D" using less.prems(4) by blast
    then show ?thesis using True less.prems(1) by (auto simp: iappend_loop.simps appended_def)
  next
    case False
    let ?n = "min (length p) (BSIZE - ?o mod BSIZE)"
    obtain e t where t: "iappend_loop off (D i) p s = iappend_loop (off + of_nat ?n) e (drop ?n p) t" "appended i ?o (take ?n p) s D t e"
      by (rule append_step [OF less.prems(1,2) False less.prems(3-8) refl])
    have "?o mod BSIZE < BSIZE" by (simp add: sizes)
    then have n: "1 \<le> ?n" "?n \<le> length p" using False by (simp_all add: Suc_le_eq)
    have "?o + ?n < 2 ^ 32" using less.prems(3) n(2) by (simp add: sizes)
    then have o1: "unat (off + of_nat ?n) = ?o + ?n" by (simp add: unat_word_ariths unat_of_nat_u32)
    have len: "?o + ?n + length (drop ?n p) = ?o + length p" "?o + length (take ?n p) = ?o + ?n" using n(2) by simp_all
    have sub: "length (drop ?n p) < length p" using n unfolding length_drop by linarith
    note a = appendedD [OF t(2)]
    have "\<exists>off' e' u. iappend_loop (off + of_nat ?n) ((D(i := e)) i) (drop ?n p) t = Some (off', e', u)
      \<and> unat off' = unat (off + of_nat ?n) + length (drop ?n p) \<and> appended i (unat (off + of_nat ?n)) (drop ?n p) t (D(i := e)) u e'"
    proof (rule less.hyps [OF sub a(1) less.prems(2)])
      show "unat (off + of_nat ?n) + length (drop ?n p) \<le> MAXFILE * BSIZE" unfolding o1 len by (rule less.prems(3))
      show "\<forall>k\<le>MAXFILE. (i, k) \<in> slots t (D(i := e)) \<longleftrightarrow> need k (unat (off + of_nat ?n))"
        unfolding o1 a(6) len using less.prems(4) need_mono [of ?o "?o + ?n"] by auto
      show "slots t (D(i := e)) \<subseteq> F"
        unfolding a(6) len using less.prems(5,8) need_mono [of "?o + ?n" "?o + length p"] n(2) by auto
      show "\<forall>k\<le>MAXFILE. need k (unat (off + of_nat ?n) + length (drop ?n p)) \<longrightarrow> (i, k) \<in> F" unfolding o1 len by (rule less.prems(8))
    qed (use less.prems(6,7) in auto)
    then obtain off' e' u where u: "iappend_loop (off + of_nat ?n) e (drop ?n p) t = Some (off', e', u)"
      "unat off' = ?o + length p" "appended i (?o + ?n) (drop ?n p) t (D(i := e)) u e'"
      unfolding o1 len fun_upd_same by blast
    have "appended i ?o p s D u e'" by (rule appended_trans [OF t(2) u(3) n(2)])
    then show ?thesis using t(1) u(1,2) by auto
  qed
qed

section \<open>The table of inodes\<close>

definition dino :: "mkimg \<Rightarrow> nat \<Rightarrow> inode" where
  "dino s j = get_dinode (dip_offset (of_nat j)) (img s (32 + j div 8)) zero_inode"

lemma ntable_eq: "ntable = 208" by (simp add: ntable_def mk_sizes)

lemma mk_IBLOCK: "j < ntable \<Longrightarrow> unat (IBLOCK (of_nat j) mksb) = 32 + j div 8"
proof -
  assume j: "j < ntable"
  then have "unat (of_nat j :: u32) = j" by (simp add: ntable_eq unat_of_nat_u32)
  then have "unat (of_nat j div of_nat IPB :: u32) = j div 8" by (simp add: unat_div_distrib mk_sizes)
  then show ?thesis using j by (simp add: IBLOCK_def mksb_def mk_sizes unat_word_ariths ntable_eq)
qed

lemma dip_apart:
  assumes "i < ntable" "j < ntable" "i \<noteq> j" "i div 8 = j div 8"
  shows "dip_offset (of_nat i) + SIZEOF_DINODE \<le> dip_offset (of_nat j) \<or> dip_offset (of_nat j) + SIZEOF_DINODE \<le> dip_offset (of_nat i)"
proof -
  have "i mod 8 \<noteq> j mod 8" using assms(3,4) by (metis div_mult_mod_eq)
  then have "i mod 8 + 1 \<le> j mod 8 \<or> j mod 8 + 1 \<le> i mod 8" by linarith
  then show ?thesis using assms(1,2) by (auto simp: dip_offset_def mk_sizes ntable_eq unat_of_nat_u32)
qed

lemma get_dinode_cong:
  "(\<And>x. k \<le> x \<Longrightarrow> x < k + SIZEOF_DINODE \<Longrightarrow> d' x = d x) \<Longrightarrow> get_dinode k d' ip = get_dinode k d ip"
proof -
  assume eq: "\<And>x. k \<le> x \<Longrightarrow> x < k + SIZEOF_DINODE \<Longrightarrow> d' x = d x"
  have "rd16 d' (k + a) = rd16 d (k + a)" if "a < 8" for a by (rule rd16_cong_nat) (use that eq in \<open>simp add: mk_sizes\<close>)
  moreover have "rd32 d' (k + 8) = rd32 d (k + 8)" by (rule rd32_cong_nat) (use eq in \<open>simp add: mk_sizes\<close>)
  moreover have "rd32 d' (k + 12 + 4 * n) = rd32 d (k + 12 + 4 * n)" if "n < NDIRECT + 1" for n
    by (rule rd32_cong_nat) (use that eq in \<open>simp add: mk_sizes sizes\<close>)
  moreover have "rd16 d' k = rd16 d k" by (rule rd16_cong_nat) (use eq in \<open>simp add: mk_sizes\<close>)
  ultimately show ?thesis by (simp add: get_dinode_def dip_type_def del: add_2_eq_Suc add_2_eq_Suc' cong: if_cong)
qed

lemma winode_spec:
  assumes "nsect s = FSSIZE" "msb s = mksb" "i < ntable"
  obtains t where "winode (of_nat i) ip s = Some t" "nsect t = nsect s" "msb t = msb s" "freeblock t = freeblock s"
    "freeinode t = freeinode s" "\<forall>b. b \<noteq> 32 + i div 8 \<longrightarrow> img t b = img s b" "\<forall>j<ntable. j \<noteq> i \<longrightarrow> dino t j = dino s j"
    "dino t i = zero_inode\<lparr>itype := itype ip, major := major ip, minor := minor ip, nlink := nlink ip, isize := isize ip,
       addrs := (\<lambda>n. if n < NDIRECT + 1 then addrs ip n else addrs zero_inode n)\<rparr>"
proof -
  let ?b = "IBLOCK (of_nat i) mksb" and ?k = "dip_offset (of_nat i)"
  let ?t = "wsect ?b (put_dinode ?k ip (img s (32 + i div 8))) s"
  have "32 + i div 8 < 1000" using assms(3) unfolding ntable_eq by linarith
  then have b: "sect ?b = 32 + i div 8" "sect ?b < nsect s" using mk_IBLOCK [OF assms(3)] assms(1) by (simp_all add: sect_unat mk_sizes)
  then have t: "img ?t = (img s)(32 + i div 8 := put_dinode ?k ip (img s (32 + i div 8)))" by (simp add: wsect_def)
  show ?thesis
  proof (rule that)
    show "winode (of_nat i) ip s = Some ?t" using b assms(2) by (simp add: winode_def rsect_def)
    show "nsect ?t = nsect s" using b by (simp add: wsect_def max_def)
    show "msb ?t = msb s" "freeblock ?t = freeblock s" "freeinode ?t = freeinode s" by (simp_all add: wsect_def)
    show "\<forall>b. b \<noteq> 32 + i div 8 \<longrightarrow> img ?t b = img s b" using t by simp
    show "dino ?t i = zero_inode\<lparr>itype := itype ip, major := major ip, minor := minor ip, nlink := nlink ip, isize := isize ip,
       addrs := (\<lambda>n. if n < NDIRECT + 1 then addrs ip n else addrs zero_inode n)\<rparr>"
      using t by (simp add: dino_def get_put_dinode)
    show "\<forall>j<ntable. j \<noteq> i \<longrightarrow> dino ?t j = dino s j"
    proof (intro allI impI)
      fix j
      assume j: "j < ntable" "j \<noteq> i"
      show "dino ?t j = dino s j"
      proof (cases "j div 8 = i div 8")
        case True
        then show ?thesis unfolding dino_def t
          using dip_apart [OF assms(3) j(1)] j(2) by (intro get_dinode_cong) (auto simp: put_dinode_other)
      qed (simp add: dino_def t)
    qed
  qed
qed

lemma rinode_dino: "nsect s = FSSIZE \<Longrightarrow> msb s = mksb \<Longrightarrow> i < ntable \<Longrightarrow> rinode (of_nat i) s = Some (dino s i)"
proof -
  assume s: "nsect s = FSSIZE" "msb s = mksb" "i < ntable"
  then have "32 + i div 8 < 1000" unfolding ntable_eq by linarith
  then show ?thesis using s mk_IBLOCK [OF s(3)] by (simp add: rinode_def rsect_def dino_def sect_unat mk_sizes)
qed

section \<open>Files on the image\<close>

definition fsize :: "mkimg \<Rightarrow> nat \<Rightarrow> nat" where "fsize s j = unat (isize (dino s j))"

definition mfile :: "mkimg \<Rightarrow> nat \<Rightarrow> u8 list" where "mfile s j = map (mbyte (img s) (dino s j)) [0..<fsize s j]"

text \<open>Every file has exactly the blocks that its size needs, and is zero behind its end.\<close>

definition disk_inv :: "mkimg \<Rightarrow> bool" where
  "disk_inv s \<longleftrightarrow> mk_inv s (dino s)
     \<and> (\<forall>j<ntable. fsize s j \<le> MAXFILE * BSIZE \<and> (\<forall>k\<le>MAXFILE. (j, k) \<in> slots s (dino s) \<longleftrightarrow> need k (fsize s j))
         \<and> (\<forall>y<MAXFILE * BSIZE. fsize s j \<le> y \<longrightarrow> mbyte (img s) (dino s j) y = 0))"

definition used :: "nat \<Rightarrow> nat" where
  "used z = (z + BSIZE - 1) div BSIZE + (if NDIRECT * BSIZE < z then 1 else 0)"

lemma card_need: "z \<le> MAXFILE * BSIZE \<Longrightarrow> card {k. k \<le> MAXFILE \<and> need k z} = used z"
proof -
  assume z: "z \<le> MAXFILE * BSIZE"
  have lt: "k * 512 < z \<longleftrightarrow> k < (z + 511) div 512" for k
    using less_eq_div_iff_mult_less_eq [of 512 "Suc k" "z + 511"] by (simp add: Suc_le_eq)
  have "(z + 511) div 512 \<le> 140" using z by (simp add: sizes)
  then have "{k. k \<le> MAXFILE \<and> need k z} = {..<(z + 511) div 512} \<union> (if NDIRECT * BSIZE < z then {140} else {})"
    by (auto simp: need_def sizes lt)
  then show ?thesis using \<open>(z + 511) div 512 \<le> 140\<close> by (simp add: used_def sizes)
qed

text \<open>The places that files of sizes \<open>Z\<close> take.\<close>

definition places :: "(nat \<Rightarrow> nat) \<Rightarrow> (nat \<times> nat) set" where
  "places Z = (SIGMA j:{..<ntable}. {k. k \<le> MAXFILE \<and> need k (Z j)})"

lemma card_places:
  assumes "\<forall>j<ntable. Z j \<le> MAXFILE * BSIZE"
  shows "card (places Z) = (\<Sum>j<ntable. used (Z j))" "finite (places Z)"
proof -
  have "finite {k. k \<le> MAXFILE \<and> need k (Z j)}" for j by simp
  then show "finite (places Z)" by (simp add: places_def)
  show "card (places Z) = (\<Sum>j<ntable. used (Z j))" unfolding places_def using assms by (simp add: card_need)
qed

lemma disk_inv_slots: "disk_inv s \<Longrightarrow> slots s (dino s) = places (fsize s)"
  by (auto simp: disk_inv_def places_def) (auto simp: slots_def)

lemma disk_inv_used: "disk_inv s \<Longrightarrow> unat (freeblock s) = nmeta + (\<Sum>j<ntable. used (fsize s j))"
  using mk_card [of s "dino s"] disk_inv_slots [of s] card_places(1) [of "fsize s"] by (simp add: disk_inv_def)

lemma mbyte_addrs:
  "(\<And>k. k \<le> NDIRECT \<Longrightarrow> addrs e k = addrs d k) \<Longrightarrow> mslot m e = mslot m d"
  by (rule ext) (auto simp: mslot_def)

text \<open>Only the blocks of the inodes change.\<close>

lemma mk_frame:
  assumes inv: "mk_inv t D" and u: "nsect u = nsect t" "msb u = msb t" "freeblock u = freeblock t" "\<forall>b\<ge>nmeta. img u b = img t b"
    and E: "\<forall>j<ntable. \<forall>k\<le>NDIRECT. addrs (E j) k = addrs (D j) k"
  shows "j < ntable \<Longrightarrow> k \<le> MAXFILE \<Longrightarrow> mslot (img u) (E j) k = mslot (img t) (D j) k" "slots u E = slots t D" "mk_inv u E"
    "j < ntable \<Longrightarrow> y < MAXFILE * BSIZE \<Longrightarrow> mbyte (img u) (E j) y = mbyte (img t) (D j) y"
proof -
  have ms: "mslot (img u) (E j) = mslot (img t) (D j)" if j: "j < ntable" for j
  proof -
    have "mslot (img u) (E j) = mslot (img u) (D j)" by (rule mbyte_addrs) (use E j in simp)
    also have "\<dots> = mslot (img t) (D j)"
    proof (rule mslot_cong)
      assume "addrs (D j) NDIRECT \<noteq> 0"
      then have "nmeta \<le> unat (addrs (D j) NDIRECT)"
        using mk_invD(6) [OF inv j, of MAXFILE] by (simp add: mslot_indirect unat_gt_0)
      then show "img u (unat (addrs (D j) NDIRECT)) = img t (unat (addrs (D j) NDIRECT))" using u(4) by simp
    qed simp
    finally show ?thesis .
  qed
  then show "j < ntable \<Longrightarrow> k \<le> MAXFILE \<Longrightarrow> mslot (img u) (E j) k = mslot (img t) (D j) k" by simp
  show sl: "slots u E = slots t D" using ms by (auto simp: slots_def)
  have "bij_betw (\<lambda>(j, k). mslot (img u) (E j) k) (slots t D) {nmeta..<unat (freeblock t)}"
  proof (subst bij_betw_cong [where g = "\<lambda>(j, k). mslot (img t) (D j) k"])
    show "(case p of (j, k) \<Rightarrow> mslot (img u) (E j) k) = (case p of (j, k) \<Rightarrow> mslot (img t) (D j) k)"
      if "p \<in> slots t D" for p using that ms by (auto simp: slots_def)
  qed (use inv in \<open>simp add: mk_inv_def\<close>)
  moreover have "img u b = (\<lambda>_. 0)" if "unat (freeblock t) \<le> b" for b
    using mk_invD(4,5) [OF inv] u(4) that by simp
  ultimately show "mk_inv u E" using mk_invD(1-4) [OF inv] by (simp add: mk_inv_def sl u(1-3))
  show "mbyte (img u) (E j) y = mbyte (img t) (D j) y" if "j < ntable" "y < MAXFILE * BSIZE"
  proof (rule mbyte_cong)
    show "img u (mslot (img t) (D j) k) = img t (mslot (img t) (D j) k)" if "k < MAXFILE" "mslot (img t) (D j) k \<noteq> 0" for k
      using mk_invD(6) [OF inv \<open>j < ntable\<close>, of k] that u(4) by simp
  qed (use ms that in simp_all)
qed

text \<open>Files of sizes \<open>Z\<close> fit on the disk.\<close>

definition fits :: "(nat \<Rightarrow> nat) \<Rightarrow> bool" where
  "fits Z \<longleftrightarrow> nmeta + (\<Sum>j<ntable. used (Z j)) \<le> FSSIZE"

lemma used_mono: "a \<le> b \<Longrightarrow> used a \<le> used b"
proof -
  assume "a \<le> b"
  then have "(a + BSIZE - 1) div BSIZE \<le> (b + BSIZE - 1) div BSIZE" by (intro div_le_mono) simp
  then show ?thesis using \<open>a \<le> b\<close> by (simp add: used_def)
qed

lemma fits_mono: "fits Z \<Longrightarrow> (\<And>j. j < ntable \<Longrightarrow> Y j \<le> Z j) \<Longrightarrow> fits Y"
proof -
  assume f: "fits Z" and le: "\<And>j. j < ntable \<Longrightarrow> Y j \<le> Z j"
  have "(\<Sum>j<ntable. used (Y j)) \<le> (\<Sum>j<ntable. used (Z j))" by (rule sum_mono) (simp add: used_mono le)
  then show "fits Y" using f by (simp add: fits_def)
qed

text \<open>What an operation on file \<open>i\<close> leaves alone.\<close>

definition others_kept :: "nat \<Rightarrow> mkimg \<Rightarrow> mkimg \<Rightarrow> bool" where
  "others_kept i s t \<longleftrightarrow> freeinode t = freeinode s \<and> (\<forall>j<ntable. j \<noteq> i \<longrightarrow> mfile t j = mfile s j)
     \<and> (\<forall>j<ntable. itype (dino t j) = itype (dino s j) \<and> nlink (dino t j) = nlink (dino s j))
     \<and> (\<forall>b. b < 32 \<or> b = 58 \<longrightarrow> img t b = img s b)"

lemma mfile_length [simp]: "length (mfile s j) = fsize s j"
  by (simp add: mfile_def)

lemma iappend_spec:
  assumes inv: "disk_inv s" and i: "i < ntable" and size: "fsize s i + length p \<le> MAXFILE * BSIZE"
    and room: "fits (\<lambda>j. if j = i then fsize s i + length p else fsize s j)"
  shows "\<exists>t. iappend (of_nat i) p s = Some t \<and> disk_inv t \<and> mfile t i = mfile s i @ p \<and> others_kept i s t"
proof -
  let ?z = "fsize s i" and ?Z = "\<lambda>j. if j = i then fsize s i + length p else fsize s j"
  have mk: "mk_inv s (dino s)" and sz: "\<forall>j<ntable. fsize s j \<le> MAXFILE * BSIZE"
    using inv by (simp_all add: disk_inv_def)
  have ex: "\<forall>k\<le>MAXFILE. (j, k) \<in> slots s (dino s) \<longleftrightarrow> need k (fsize s j)" if "j < ntable" for j
    using inv that by (simp add: disk_inv_def)
  have Z: "\<forall>j<ntable. ?Z j \<le> MAXFILE * BSIZE" using sz size by simp
  have F: "slots s (dino s) \<subseteq> places ?Z" "finite (places ?Z)" "nmeta + card (places ?Z) \<le> FSSIZE"
    "\<forall>k\<le>MAXFILE. need k (?z + length p) \<longrightarrow> (i, k) \<in> places ?Z"
    using disk_inv_slots [OF inv] card_places [OF Z] room [unfolded fits_def] i need_mono [of ?z "?z + length p"] by (auto simp: places_def)
  let ?off = "isize (dino s i)"
  have off: "unat ?off = ?z" by (simp add: fsize_def)
  have "\<exists>off' e t. iappend_loop ?off (dino s i) p s = Some (off', e, t) \<and> unat off' = unat ?off + length p
    \<and> appended i (unat ?off) p s (dino s) t e"
    by (rule iappend_loop_spec [OF mk i _ _ F(1-3)]) (use F(4) off ex [OF i] size in simp_all)
  then obtain off' e t where t: "iappend_loop ?off (dino s i) p s = Some (off', e, t)" "unat off' = ?z + length p"
    "appended i ?z p s (dino s) t e" unfolding off by blast
  note ap = appendedD [OF t(3)]
  have dt: "dino t j = dino s j" if "j < ntable" for j
  proof -
    have "32 + j div 8 < nmeta" using that unfolding ntable_eq mk_sizes by linarith
    then show ?thesis using ap(3) by (simp add: dino_def)
  qed
  obtain u where u: "winode (of_nat i) (e\<lparr>isize := off'\<rparr>) t = Some u" "nsect u = nsect t" "msb u = msb t" "freeblock u = freeblock t"
    "freeinode u = freeinode t" "\<forall>b. b \<noteq> 32 + i div 8 \<longrightarrow> img u b = img t b" "\<forall>j<ntable. j \<noteq> i \<longrightarrow> dino u j = dino t j"
    "dino u i = zero_inode\<lparr>itype := itype (e\<lparr>isize := off'\<rparr>), major := major (e\<lparr>isize := off'\<rparr>), minor := minor (e\<lparr>isize := off'\<rparr>),
       nlink := nlink (e\<lparr>isize := off'\<rparr>), isize := isize (e\<lparr>isize := off'\<rparr>),
       addrs := (\<lambda>n. if n < NDIRECT + 1 then addrs (e\<lparr>isize := off'\<rparr>) n else addrs zero_inode n)\<rparr>"
    by (rule winode_spec [OF mk_invD(1,2) [OF ap(1)] i])
  have ib: "32 + i div 8 < 58" using i unfolding ntable_eq by linarith
  have high: "\<forall>b\<ge>nmeta. img u b = img t b" using u(6) ib by (simp add: mk_sizes)
  have ad: "\<forall>j<ntable. \<forall>k\<le>NDIRECT. addrs (dino u j) k = addrs (((dino s)(i := e)) j) k"
    using u(7,8) dt by simp
  note fr = mk_frame [OF ap(1) u(2-4) high ad]
  have zi: "fsize u i = ?z + length p" using u(8) t(2) by (simp add: fsize_def)
  have zj: "fsize u j = fsize s j" if "j < ntable" "j \<noteq> i" for j using u(7) dt that by (simp add: fsize_def)
  have sl: "slots u (dino u) = slots s (dino s) \<union> {(i, k) | k. k \<le> MAXFILE \<and> need k (?z + length p)}" by (rule trans [OF fr(2) ap(6)])
  have "disk_inv u"
    unfolding disk_inv_def
  proof (intro conjI allI impI)
    show "mk_inv u (dino u)" by (rule fr(3))
    show "fsize u j \<le> MAXFILE * BSIZE" if "j < ntable" for j using that zi zj sz size by (cases "j = i") simp_all
    show "(j, k) \<in> slots u (dino u) \<longleftrightarrow> need k (fsize u j)" if "j < ntable" "k \<le> MAXFILE" for j k
      using that ex [of j] zi zj sl need_mono [of ?z "?z + length p" k] by (cases "j = i") auto
    show "mbyte (img u) (dino u j) y = 0" if "j < ntable" "y < MAXFILE * BSIZE" "fsize u j \<le> y" for j y
    proof (cases "j = i")
      case True
      then show ?thesis using fr(4) [OF i that(2)] ap(5) [OF that(2)] that inv zi by (auto simp: disk_inv_def)
    next
      case False
      then show ?thesis using fr(4) [OF that(1,2)] ap(4) [OF that(1) False that(2)] that inv zj by (simp add: disk_inv_def)
    qed
  qed
  moreover have "iappend (of_nat i) p s = Some u"
    using rinode_dino [OF mk_invD(1,2) [OF mk] i] t(1) u(1) by (simp add: iappend_def)
  moreover have "mfile u i = mfile s i @ p"
  proof (rule nth_equalityI)
    show "length (mfile u i) = length (mfile s i @ p)" using zi by simp
    fix y
    assume "y < length (mfile u i)"
    then have y: "y < ?z + length p" using zi by simp
    then have "mbyte (img u) (dino u i) y = (if ?z \<le> y then p ! (y - ?z) else mbyte (img s) (dino s i) y)"
      using fr(4) [OF i, of y] ap(5) [of y] size by simp
    then show "mfile u i ! y = (mfile s i @ p) ! y" using y zi by (simp add: mfile_def nth_append)
  qed
  moreover have "mfile u j = mfile s j" if j: "j < ntable" "j \<noteq> i" for j
    unfolding mfile_def zj [OF j]
    by (rule map_cong [OF refl]) (use j fr(4) ap(4) sz order_less_le_trans in fastforce)
  moreover have "itype (dino u j) = itype (dino s j) \<and> nlink (dino u j) = nlink (dino s j)" if "j < ntable" for j
  proof (cases "j = i")
    case True
    have "itype e = itype (dino s i)" "nlink e = nlink (dino s i)" by (subst ap(7); simp)+
    then show ?thesis using u(8) True by simp
  next
    case False
    then show ?thesis using u(7) dt that by simp
  qed
  moreover have "img u b = img s b" if "b < 32 \<or> b = 58" for b
    using that u(6) ap(3) ib by (auto simp: mk_sizes)
  ultimately show ?thesis using u(5) ap(2) by (auto simp: others_kept_def)
qed

section \<open>The empty file system\<close>

lemma fold_wsect_zero:
  "n \<le> FSSIZE \<Longrightarrow> img s = (\<lambda>_ _. 0) \<Longrightarrow> nsect s = 0 \<Longrightarrow> fold (\<lambda>i. wsect (of_nat i) (\<lambda>_. 0)) [0..<n] s = s\<lparr>nsect := n\<rparr>"
proof (induction n)
  case (Suc n)
  then have f: "fold (\<lambda>i. wsect (of_nat i) (\<lambda>_. 0)) [0..<n] s = s\<lparr>nsect := n\<rparr>" by simp
  have "sect (of_nat n) = n" using Suc.prems(1) by (intro sect_of_nat) (simp add: mk_sizes)
  moreover have "(img s)(n := \<lambda>_. 0) = img s" unfolding Suc.prems(2) by (rule ext) simp
  ultimately have "wsect (of_nat n) (\<lambda>_. 0) (s\<lparr>nsect := n\<rparr>) = s\<lparr>nsect := Suc n\<rparr>" by (simp add: wsect_def)
  then show ?case using f by simp
qed simp

lemma mkfs_zero_eq: "mkfs_zero = \<lparr>img = (\<lambda>_ _. 0), nsect = FSSIZE, msb = mksb, freeinode = 1, freeblock = of_nat nmeta\<rparr>"
  unfolding mkfs_zero_def by (subst fold_wsect_zero) simp_all

definition mkfs_start :: mkimg where "mkfs_start = wsect 1 (put_sb mksb (\<lambda>_. 0)) mkfs_zero"

lemma mkfs_start_simps [simp]:
  "nsect mkfs_start = FSSIZE" "msb mkfs_start = mksb" "freeinode mkfs_start = 1" "unat (freeblock mkfs_start) = nmeta"
  "img mkfs_start = (\<lambda>_ _. 0)(1 := put_sb mksb (\<lambda>_. 0))"
proof -
  have "sect 1 = 1" using sect_of_nat [of 1] by simp
  then show "nsect mkfs_start = FSSIZE" "msb mkfs_start = mksb" "freeinode mkfs_start = 1" "unat (freeblock mkfs_start) = nmeta"
    "img mkfs_start = (\<lambda>_ _. 0)(1 := put_sb mksb (\<lambda>_. 0))"
    by (simp_all add: mkfs_start_def mkfs_zero_eq wsect_def mk_sizes)
qed

lemma dino_start: "isize (dino mkfs_start j) = 0" "addrs (dino mkfs_start j) k = 0"
  by (simp_all add: dino_def get_dinode_def rd32_def zero_inode_def)

lemma disk_inv_start: "disk_inv mkfs_start" "fsize mkfs_start j = 0" "mfile mkfs_start j = []"
proof -
  show z: "fsize mkfs_start j = 0" "mfile mkfs_start j = []" for j by (simp_all add: fsize_def mfile_def dino_start)
  have ms: "mslot m (dino mkfs_start j) k = 0" for m j k by (simp add: mslot_def dino_start)
  then have sl: "slots mkfs_start (dino mkfs_start) = {}" by (simp add: slots_def)
  have "mk_inv mkfs_start (dino mkfs_start)" by (simp add: mk_inv_def sl mk_sizes bij_betw_def)
  then show "disk_inv mkfs_start" by (simp add: disk_inv_def sl z need_def mbyte_def ms)
qed

section \<open>A new inode\<close>

lemma mkialloc_spec:
  assumes inv: "disk_inv s" and i: "i < ntable" "freeinode s = of_nat i" "fsize s i = 0"
  shows "\<exists>t. mkialloc ty s = Some (of_nat i, t) \<and> disk_inv t \<and> freeinode t = of_nat (Suc i) \<and> (\<forall>j<ntable. fsize t j = fsize s j \<and> mfile t j = mfile s j)
    \<and> itype (dino t i) = ty \<and> nlink (dino t i) = 1
    \<and> (\<forall>j<ntable. j \<noteq> i \<longrightarrow> itype (dino t j) = itype (dino s j) \<and> nlink (dino t j) = nlink (dino s j))
    \<and> (\<forall>b. b < 32 \<or> b = 58 \<longrightarrow> img t b = img s b)"
proof -
  let ?d = "zero_inode\<lparr>itype := xshort ty, nlink := xshort 1, isize := xint 0\<rparr>" and ?s = "s\<lparr>freeinode := of_nat i + 1\<rparr>"
  have mk: "mk_inv s (dino s)" using inv by (simp add: disk_inv_def)
  have ds: "dino ?s = dino s" by (simp add: dino_def [abs_def])
  have mk': "mk_inv ?s (dino s)" using mk by (simp add: mk_inv_def slots_def)
  have none: "addrs (dino s i) k = 0" if "k \<le> NDIRECT" for k
  proof -
    have "(i, addr_slot k) \<notin> slots s (dino s)"
      using inv i addr_slot_props(2) [OF that] by (auto simp: disk_inv_def need_def)
    then have "unat (addrs (dino s i) k) = 0" using i(1) addr_slot_props [OF that] by (simp add: slots_def)
    then show ?thesis by (simp only: unat_eq_0)
  qed
  have n: "nsect ?s = FSSIZE" "msb ?s = mksb" using mk_invD(1,2) [OF mk'] by simp_all
  obtain t where t: "winode (of_nat i) ?d ?s = Some t" "nsect t = nsect ?s" "msb t = msb ?s" "freeblock t = freeblock ?s"
    "freeinode t = freeinode ?s" "\<forall>b. b \<noteq> 32 + i div 8 \<longrightarrow> img t b = img ?s b" "\<forall>j<ntable. j \<noteq> i \<longrightarrow> dino t j = dino ?s j"
    "dino t i = zero_inode\<lparr>itype := itype ?d, major := major ?d, minor := minor ?d, nlink := nlink ?d, isize := isize ?d,
       addrs := (\<lambda>n. if n < NDIRECT + 1 then addrs ?d n else addrs zero_inode n)\<rparr>"
    by (rule winode_spec [OF n i(1)])
  have ib: "32 + i div 8 < 58" using i(1) unfolding ntable_eq by linarith
  have high: "\<forall>b\<ge>nmeta. img t b = img ?s b" using t(6) ib by (simp add: mk_sizes)
  have ad: "\<forall>j<ntable. \<forall>k\<le>NDIRECT. addrs (dino t j) k = addrs (dino s j) k"
  proof (intro allI impI)
    fix j k
    assume "j < ntable" "k \<le> NDIRECT"
    then show "addrs (dino t j) k = addrs (dino s j) k" using t(7,8) none ds by (cases "j = i") (simp_all add: zero_inode_def)
  qed
  note fr = mk_frame [OF mk' t(2-4) high ad]
  have z: "fsize t j = fsize s j" if "j < ntable" for j
    using t(7,8) ds i(3) that by (cases "j = i") (simp_all add: fsize_def)
  have sl: "slots ?s (dino s) = slots s (dino s)" by (simp add: slots_def)
  have bytes: "mbyte (img t) (dino t j) y = mbyte (img s) (dino s j) y" if "j < ntable" "y < MAXFILE * BSIZE" for j y
    using fr(4) [OF that] by simp
  have "disk_inv t" unfolding disk_inv_def using fr(3) fr(2) inv by (auto simp: disk_inv_def z sl bytes)
  moreover have "mfile t j = mfile s j" if "j < ntable" for j
    unfolding mfile_def z [OF that] by (rule map_cong [OF refl]) (use that inv bytes in \<open>auto simp: disk_inv_def\<close>)
  moreover have "mkialloc ty s = Some (of_nat i, t)" using t(1) i(2) by (simp add: mkialloc_def)
  moreover have "itype (dino t i) = ty" "nlink (dino t i) = 1" using t(8) by simp_all
  moreover have "img t b = img s b" if "b < 32 \<or> b = 58" for b using that t(6) ib by auto
  ultimately show ?thesis using t(5,7) z ds by (auto simp: add.commute)
qed

section \<open>Adding files\<close>

lemma others_kept_trans: "others_kept i s t \<Longrightarrow> others_kept i t u \<Longrightarrow> others_kept i s u"
  by (simp add: others_kept_def)

lemma fsize_mfile: "mfile t j = mfile s k \<Longrightarrow> fsize t j = fsize s k"
  using mfile_length [of t j] mfile_length [of s k] by simp

lemma add_reads_spec:
  "disk_inv s \<Longrightarrow> i < ntable \<Longrightarrow> [] \<notin> set rs \<Longrightarrow> fsize s i + length (concat rs) \<le> MAXFILE * BSIZE
    \<Longrightarrow> fits (\<lambda>j. if j = i then fsize s i + length (concat rs) else fsize s j)
    \<Longrightarrow> \<exists>t. add_reads (of_nat i) rs s = Some t \<and> disk_inv t \<and> mfile t i = mfile s i @ concat rs \<and> others_kept i s t"
proof (induction rs arbitrary: s)
  case Nil
  then show ?case by (simp add: others_kept_def)
next
  case (Cons r rs)
  have "fits (\<lambda>j. if j = i then fsize s i + length r else fsize s j)"
    using Cons.prems(5) by (rule fits_mono) simp
  then obtain t where t: "iappend (of_nat i) r s = Some t" "disk_inv t" "mfile t i = mfile s i @ r" "others_kept i s t"
    using iappend_spec [OF Cons.prems(1,2), of r] Cons.prems(4) by auto
  have zi: "fsize t i = fsize s i + length r" using mfile_length [of t i] t(3) by simp
  have zj: "fsize t j = fsize s j" if "j < ntable" "j \<noteq> i" for j
    by (rule fsize_mfile) (use t(4) that in \<open>simp add: others_kept_def\<close>)
  have "fits (\<lambda>j. if j = i then fsize t i + length (concat rs) else fsize t j)"
    using Cons.prems(5) by (rule fits_mono) (simp add: zi zj)
  then obtain u where u: "add_reads (of_nat i) rs t = Some u" "disk_inv u" "mfile u i = mfile t i @ concat rs" "others_kept i t u"
    using Cons.IH [OF t(2) Cons.prems(2)] Cons.prems(3,4) zi by auto
  then show ?case using t Cons.prems(3) others_kept_trans [OF t(4) u(4)] by auto
qed

text \<open>The directory entries of files that get the inodes from \<open>i\<close>.\<close>

fun entries :: "nat \<Rightarrow> (u8 list \<times> u8 list list) list \<Rightarrow> u8 list" where
  "entries i [] = []"
| "entries i ((name, rs) # fs) = mkentry (of_nat i) (skip_underscore name) @ entries (Suc i) fs"

lemma mkentry_length [simp]: "length (mkentry ino name) = 16"
  by (simp add: mkentry_def SIZEOF_DIRENT_def)

lemma entries_length: "length (entries i fs) = 16 * length fs"
  by (induction i fs rule: entries.induct) simp_all

definition file_sizes :: "(nat \<Rightarrow> nat) \<Rightarrow> nat \<Rightarrow> (u8 list \<times> u8 list list) list \<Rightarrow> nat \<Rightarrow> nat" where
  "file_sizes Z i fs j =
     (if j = 1 then Z 1 + 16 * length fs else if i \<le> j \<and> j < i + length fs then length (concat (snd (fs ! (j - i)))) else Z j)"

definition good_file :: "u8 list \<times> u8 list list \<Rightarrow> bool" where
  "good_file f \<longleftrightarrow> 47 \<notin> set (fst f) \<and> [] \<notin> set (snd f) \<and> length (concat (snd f)) \<le> MAXFILE * BSIZE"

lemma add_file:
  assumes inv: "disk_inv s" and i: "freeinode s = of_nat i" "2 \<le> i" "i < ntable" "fsize s i = 0"
    and f: "good_file (name, rs)" and room: "fits (file_sizes (fsize s) i [(name, rs)])" "fsize s 1 + 16 \<le> MAXFILE * BSIZE"
  obtains t where "add_files 1 ((name, Some rs) # fs) s = add_files 1 fs t" "disk_inv t" "freeinode t = of_nat (Suc i)"
    "mfile t 1 = mfile s 1 @ mkentry (of_nat i) (skip_underscore name)" "mfile t i = concat rs"
    "\<forall>j<ntable. j \<noteq> 1 \<and> j \<noteq> i \<longrightarrow> mfile t j = mfile s j" "itype (dino t i) = T_FILE" "nlink (dino t i) = 1"
    "\<forall>j<ntable. j \<noteq> i \<longrightarrow> itype (dino t j) = itype (dino s j) \<and> nlink (dino t j) = nlink (dino s j)"
    "\<forall>b. b < 32 \<or> b = 58 \<longrightarrow> img t b = img s b"
proof -
  have one: "1 < ntable" by (simp add: ntable_eq)
  obtain t where t: "mkialloc T_FILE s = Some (of_nat i, t)" "disk_inv t" "freeinode t = of_nat (Suc i)"
    "\<forall>j<ntable. fsize t j = fsize s j \<and> mfile t j = mfile s j" "itype (dino t i) = T_FILE" "nlink (dino t i) = 1"
    "\<forall>j<ntable. j \<noteq> i \<longrightarrow> itype (dino t j) = itype (dino s j) \<and> nlink (dino t j) = nlink (dino s j)"
    "\<forall>b. b < 32 \<or> b = 58 \<longrightarrow> img t b = img s b"
    using mkialloc_spec [OF inv i(3,1,4), of T_FILE] by blast
  let ?e = "mkentry (of_nat i) (skip_underscore name)"
  have "fits (\<lambda>j. if j = 1 then fsize t 1 + length ?e else fsize t j)"
    using room(1) by (rule fits_mono) (use t(4) i one in \<open>auto simp: file_sizes_def less_Suc_eq\<close>)
  then obtain u where u: "iappend (of_nat 1) ?e t = Some u" "disk_inv u" "mfile u 1 = mfile t 1 @ ?e" "others_kept 1 t u"
    using iappend_spec [OF t(2) one, of ?e] room(2) t(4) one by auto
  have zu: "fsize u j = (if j = 1 then fsize s 1 + 16 else fsize s j)" if "j < ntable" for j
  proof (cases "j = 1")
    case True
    then show ?thesis using arg_cong [OF u(3), of length] t(4) one by simp
  next
    case False
    then have "fsize u j = fsize t j" using u(4) that by (intro fsize_mfile) (simp add: others_kept_def)
    then show ?thesis using False t(4) that by simp
  qed
  have ui: "fsize u i = 0" using zu [OF i(3)] i by simp
  have "fits (\<lambda>j. if j = i then fsize u i + length (concat rs) else fsize u j)"
    using room(1) by (rule fits_mono) (use zu i ui in \<open>auto simp: file_sizes_def\<close>)
  then obtain v where v: "add_reads (of_nat i) rs u = Some v" "disk_inv v" "mfile v i = mfile u i @ concat rs" "others_kept i u v"
    using add_reads_spec [OF u(2) i(3), of rs] f ui by (auto simp: good_file_def)
  have "mfile u i = []" using ui by (simp add: mfile_def)
  then have vi: "mfile v i = concat rs" using v(3) by simp
  show ?thesis
  proof (rule that [of v])
    show "add_files 1 ((name, Some rs) # fs) s = add_files 1 fs v" using f t(1) u(1) v(1) by (simp add: good_file_def)
    show "disk_inv v" "mfile v i = concat rs" by (rule v(2), rule vi)
    show "freeinode v = of_nat (Suc i)" using t(3) u(4) v(4) by (simp add: others_kept_def)
    show "mfile v 1 = mfile s 1 @ ?e" using u(3) v(4) t(4) i(2) one by (simp add: others_kept_def)
    show "\<forall>j<ntable. j \<noteq> 1 \<and> j \<noteq> i \<longrightarrow> mfile v j = mfile s j" using u(4) v(4) t(4) by (simp add: others_kept_def)
    show "itype (dino v i) = T_FILE" "nlink (dino v i) = 1" using t(5,6) u(4) v(4) i(3) by (simp_all add: others_kept_def)
    show "\<forall>j<ntable. j \<noteq> i \<longrightarrow> itype (dino v j) = itype (dino s j) \<and> nlink (dino v j) = nlink (dino s j)"
      using t(7) u(4) v(4) by (simp add: others_kept_def)
    show "\<forall>b. b < 32 \<or> b = 58 \<longrightarrow> img v b = img s b" using t(8) u(4) v(4) by (auto simp: others_kept_def)
  qed
qed

definition files_added :: "mkimg \<Rightarrow> nat \<Rightarrow> (u8 list \<times> u8 list list) list \<Rightarrow> mkimg \<Rightarrow> bool" where
  "files_added s i fs t \<longleftrightarrow> disk_inv t \<and> mfile t 1 = mfile s 1 @ entries i fs
      \<and> (\<forall>k<length fs. mfile t (i + k) = concat (snd (fs ! k)) \<and> itype (dino t (i + k)) = T_FILE \<and> nlink (dino t (i + k)) = 1)
      \<and> (\<forall>j<ntable. j \<noteq> 1 \<and> \<not> (i \<le> j \<and> j < i + length fs) \<longrightarrow> mfile t j = mfile s j)
      \<and> (\<forall>j<i. itype (dino t j) = itype (dino s j) \<and> nlink (dino t j) = nlink (dino s j))
      \<and> (\<forall>b. b < 32 \<or> b = 58 \<longrightarrow> img t b = img s b)"

lemma add_files_spec:
  "disk_inv s \<Longrightarrow> freeinode s = of_nat i \<Longrightarrow> 2 \<le> i \<Longrightarrow> i + length fs \<le> ntable \<Longrightarrow> \<forall>j<ntable. i \<le> j \<longrightarrow> fsize s j = 0
    \<Longrightarrow> \<forall>f\<in>set fs. good_file f \<Longrightarrow> fits (file_sizes (fsize s) i fs) \<Longrightarrow> fsize s 1 + 16 * length fs \<le> MAXFILE * BSIZE
    \<Longrightarrow> \<exists>t. add_files 1 (map (map_prod id Some) fs) s = Some t \<and> files_added s i fs t"
proof (induction fs arbitrary: i s)
  case Nil
  then show ?case by (simp add: files_added_def)
next
  case (Cons f fs)
  obtain name rs where f: "f = (name, rs)" by fastforce
  have i: "i < ntable" "fsize s i = 0" using Cons.prems(4,5) by simp_all
  have g: "good_file (name, rs)" "\<forall>f\<in>set fs. good_file f" using Cons.prems(6) f by simp_all
  have r: "fits (file_sizes (fsize s) i [(name, rs)])"
    using Cons.prems(7) by (rule fits_mono) (use Cons.prems(5) in \<open>auto simp: file_sizes_def f\<close>)
  have r1: "fsize s 1 + 16 \<le> MAXFILE * BSIZE" using Cons.prems(8) by simp
  obtain t where t: "add_files 1 ((name, Some rs) # map (map_prod id Some) fs) s = add_files 1 (map (map_prod id Some) fs) t" "disk_inv t"
    "freeinode t = of_nat (Suc i)" "mfile t 1 = mfile s 1 @ mkentry (of_nat i) (skip_underscore name)" "mfile t i = concat rs"
    "\<forall>j<ntable. j \<noteq> 1 \<and> j \<noteq> i \<longrightarrow> mfile t j = mfile s j" "itype (dino t i) = T_FILE" "nlink (dino t i) = 1"
    "\<forall>j<ntable. j \<noteq> i \<longrightarrow> itype (dino t j) = itype (dino s j) \<and> nlink (dino t j) = nlink (dino s j)"
    "\<forall>b. b < 32 \<or> b = 58 \<longrightarrow> img t b = img s b"
    by (rule add_file [OF Cons.prems(1-3) i g(1) r r1])
  have z1: "fsize t 1 = fsize s 1 + 16" using arg_cong [OF t(4), of length] by simp
  have zi: "fsize t i = length (concat rs)" using arg_cong [OF t(5), of length] by simp
  have zj: "fsize t j = fsize s j" if "j < ntable" "j \<noteq> 1" "j \<noteq> i" for j by (rule fsize_mfile) (use t(6) that in simp)
  have "fits (file_sizes (fsize t) (Suc i) fs)"
    using Cons.prems(7)
  proof (rule fits_mono)
    fix j
    assume "j < ntable"
    then show "file_sizes (fsize t) (Suc i) fs j \<le> file_sizes (fsize s) i (f # fs) j"
      using z1 zi zj [of j] Cons.prems(3) Suc_diff_Suc [of i j] by (auto simp: file_sizes_def f nth_Cons split: nat.splits)
  qed
  moreover have "\<forall>j<ntable. Suc i \<le> j \<longrightarrow> fsize t j = 0" using zj Cons.prems(3,5) by simp
  moreover have "Suc i + length fs \<le> ntable" "2 \<le> Suc i" "fsize t 1 + 16 * length fs \<le> MAXFILE * BSIZE"
    using Cons.prems(3,4,8) z1 by simp_all
  ultimately have "\<exists>u. add_files 1 (map (map_prod id Some) fs) t = Some u \<and> files_added t (Suc i) fs u"
    using Cons.IH [OF t(2,3)] g(2) by blast
  then obtain u where u0: "add_files 1 (map (map_prod id Some) fs) t = Some u" "files_added t (Suc i) fs u" by blast
  have u: "disk_inv u" "mfile u 1 = mfile t 1 @ entries (Suc i) fs"
    "\<forall>k<length fs. mfile u (Suc i + k) = concat (snd (fs ! k)) \<and> itype (dino u (Suc i + k)) = T_FILE \<and> nlink (dino u (Suc i + k)) = 1"
    "\<forall>j<ntable. j \<noteq> 1 \<and> \<not> (Suc i \<le> j \<and> j < Suc i + length fs) \<longrightarrow> mfile u j = mfile t j"
    "\<forall>j<Suc i. itype (dino u j) = itype (dino t j) \<and> nlink (dino u j) = nlink (dino t j)" "\<forall>b. b < 32 \<or> b = 58 \<longrightarrow> img u b = img t b"
    using u0(2) unfolding files_added_def by blast+
  have k: "mfile u (i + k) = concat (snd ((f # fs) ! k)) \<and> itype (dino u (i + k)) = T_FILE \<and> nlink (dino u (i + k)) = 1"
    if "k < length (f # fs)" for k
  proof (cases k)
    case 0
    then show ?thesis using u(4,5) t(5,7,8) i Cons.prems(3) f by simp
  next
    case (Suc n)
    then show ?thesis using u(3) that by simp
  qed
  have oth: "mfile u j = mfile s j" if "j < ntable" "j \<noteq> 1" "\<not> (i \<le> j \<and> j < i + length (f # fs))" for j
    using u(4) t(6) that by (cases "j = i") auto
  have ty: "itype (dino u j) = itype (dino s j) \<and> nlink (dino u j) = nlink (dino s j)" if "j < i" for j
    using u(5) t(9) that i by simp
  have low: "img u b = img s b" if "b < 32 \<or> b = 58" for b using u(6) t(10) that by auto
  have "add_files 1 (map (map_prod id Some) (f # fs)) s = Some u" using t(1) u0(1) by (simp add: f)
  moreover have "mfile u 1 = mfile s 1 @ entries i (f # fs)" using u(2) t(4) by (simp add: f)
  ultimately show ?case using u(1) k oth ty low unfolding files_added_def by blast
qed

section \<open>The image\<close>

lemma fix_root_spec:
  assumes inv: "disk_inv s" and z: "fsize s 1 < MAXFILE * BSIZE"
  shows "\<exists>t. fix_root 1 s = Some t \<and> mk_inv t (dino t) \<and> freeblock t = freeblock s
    \<and> mfile t 1 = mfile s 1 @ replicate ((fsize s 1 div BSIZE + 1) * BSIZE - fsize s 1) 0
    \<and> (\<forall>j<ntable. j \<noteq> 1 \<longrightarrow> mfile t j = mfile s j) \<and> slots t (dino t) = slots s (dino s)
    \<and> (\<forall>j<ntable. itype (dino t j) = itype (dino s j) \<and> nlink (dino t j) = nlink (dino s j))
    \<and> (\<forall>b. b < 32 \<or> b = 58 \<longrightarrow> img t b = img s b)"
proof -
  have one: "1 < ntable" by (simp add: ntable_eq)
  have mk: "mk_inv s (dino s)" using inv by (simp add: disk_inv_def)
  let ?z = "(fsize s 1 div BSIZE + 1) * BSIZE" and ?off = "(isize (dino s 1) div of_nat BSIZE + 1) * of_nat BSIZE"
  let ?d = "(dino s 1)\<lparr>isize := ?off\<rparr>"
  have zb: "?z \<le> MAXFILE * BSIZE"
    using z by (intro mult_le_mono1) (simp add: Suc_le_eq less_mult_imp_div_less)
  have "isize (dino s 1) = of_nat (fsize s 1)" by (simp add: fsize_def)
  then have "?off = of_nat ?z" by (simp add: word_arith_nat_div unat_of_nat_u32 sizes fsize_def)
  then have off: "unat ?off = ?z" using zb by (simp add: unat_of_nat_u32 sizes del: of_nat_mult of_nat_add)
  obtain t where t: "winode (of_nat 1) ?d s = Some t" "nsect t = nsect s" "msb t = msb s" "freeblock t = freeblock s"
    "freeinode t = freeinode s" "\<forall>b. b \<noteq> 32 + 1 div 8 \<longrightarrow> img t b = img s b" "\<forall>j<ntable. j \<noteq> 1 \<longrightarrow> dino t j = dino s j"
    "dino t 1 = zero_inode\<lparr>itype := itype ?d, major := major ?d, minor := minor ?d, nlink := nlink ?d, isize := isize ?d,
       addrs := (\<lambda>n. if n < NDIRECT + 1 then addrs ?d n else addrs zero_inode n)\<rparr>"
    by (rule winode_spec [OF mk_invD(1,2) [OF mk] one])
  have high: "\<forall>b\<ge>nmeta. img t b = img s b" using t(6) by (simp add: mk_sizes)
  have ad: "\<forall>j<ntable. \<forall>k\<le>NDIRECT. addrs (dino t j) k = addrs (dino s j) k"
  proof (intro allI impI)
    fix j k
    assume "j < ntable" "k \<le> NDIRECT"
    then show "addrs (dino t j) k = addrs (dino s j) k" using t(7,8) by (cases "j = 1") simp_all
  qed
  note fr = mk_frame [OF mk t(2-4) high ad]
  have z1: "fsize t 1 = ?z" using t(8) off by (simp add: fsize_def)
  have "fsize s 1 = fsize s 1 div BSIZE * BSIZE + fsize s 1 mod BSIZE" "fsize s 1 mod BSIZE < BSIZE" by (simp_all add: sizes)
  moreover have "?z = fsize s 1 div BSIZE * BSIZE + BSIZE" by simp
  ultimately have le: "fsize s 1 \<le> ?z" by linarith
  have "mfile t 1 = mfile s 1 @ replicate (?z - fsize s 1) 0"
  proof (rule nth_equalityI)
    show "length (mfile t 1) = length (mfile s 1 @ replicate (?z - fsize s 1) 0)" using z1 le by simp
    fix y
    assume "y < length (mfile t 1)"
    then have y: "y < ?z" using z1 by simp
    then have "mbyte (img t) (dino t 1) y = mbyte (img s) (dino s 1) y" using fr(4) [OF one, of y] zb by simp
    moreover have "fsize s 1 \<le> y \<Longrightarrow> mbyte (img s) (dino s 1) y = 0" using inv one y zb by (simp add: disk_inv_def)
    ultimately show "mfile t 1 ! y = (mfile s 1 @ replicate (?z - fsize s 1) 0) ! y" using y z1 by (simp add: mfile_def nth_append)
  qed
  moreover have "mfile t j = mfile s j" if j: "j < ntable" "j \<noteq> 1" for j
  proof -
    have zj: "fsize t j = fsize s j" using t(7) j by (simp add: fsize_def)
    show ?thesis unfolding mfile_def zj by (rule map_cong [OF refl]) (use j fr(4) inv in \<open>auto simp: disk_inv_def\<close>)
  qed
  moreover have "fix_root 1 s = Some t" using rinode_dino [OF mk_invD(1,2) [OF mk] one] t(1) by (simp add: fix_root_def)
  moreover have "itype (dino t j) = itype (dino s j) \<and> nlink (dino t j) = nlink (dino s j)" if "j < ntable" for j
    using t(7,8) that by (cases "j = 1") simp_all
  moreover have "img t b = img s b" if "b < 32 \<or> b = 58" for b using t(6) that by auto
  ultimately show ?thesis using t(4) fr(2,3) by blast
qed

lemma bit_free_fold: "bit_free (fold bit_set [0..<n] (\<lambda>_. 0)) k \<longleftrightarrow> n \<le> k"
proof (induction n)
  case 0
  show ?case by (simp add: bit_free_def)
next
  case (Suc n)
  then show ?case by auto
qed

lemma mkballoc_spec:
  assumes inv: "mk_inv s (dino s)"
  shows "\<exists>t. mkballoc (sint (freeblock s)) s = Some t \<and> mk_inv t (dino t) \<and> freeblock t = freeblock s \<and> (\<forall>j<ntable. dino t j = dino s j)
    \<and> (\<forall>j<ntable. \<forall>y<MAXFILE * BSIZE. mbyte (img t) (dino t j) y = mbyte (img s) (dino s j) y) \<and> slots t (dino t) = slots s (dino s)
    \<and> (\<forall>b. b \<noteq> 58 \<longrightarrow> img t b = img s b) \<and> (\<forall>b. bit_free (img t 58) b \<longleftrightarrow> unat (freeblock s) \<le> b)"
proof -
  have fb: "unat (freeblock s) \<le> 1000" using mk_invD(3) [OF inv] by (simp add: mk_sizes)
  then have si: "sint (freeblock s) = int (unat (freeblock s))" using sint_nat [of "unat (freeblock s)"] by simp
  have lt: "sint (freeblock s) < int (BSIZE * 8)" unfolding si sizes using fb by linarith
  have nn: "nat (sint (freeblock s)) = unat (freeblock s)" unfolding si by (rule nat_int)
  have b: "sect (sb_bmapstart (msb s)) = 58" using mk_invD(2) [OF inv] sect_of_nat [of 58] by (simp add: mksb_def mk_sizes)
  have r: "mkballoc (sint (freeblock s)) s = Some (wsect (sb_bmapstart (msb s)) (fold bit_set [0..<unat (freeblock s)] (\<lambda>_. 0)) s)"
    by (simp only: mkballoc_def lt nn if_True)
  let ?t = "wsect (sb_bmapstart (msb s)) (fold bit_set [0..<unat (freeblock s)] (\<lambda>_. 0)) s"
  have t: "img ?t = (img s)(58 := fold bit_set [0..<unat (freeblock s)] (\<lambda>_. 0))" "nsect ?t = nsect s" "msb ?t = msb s"
    "freeblock ?t = freeblock s"
    using b mk_invD(1) [OF inv] by (simp_all add: wsect_def mk_sizes)
  have high: "\<forall>b\<ge>nmeta. img ?t b = img s b" using t(1) by (simp add: mk_sizes)
  have d: "dino ?t j = dino s j" if "j < ntable" for j
  proof -
    have "32 + j div 8 \<noteq> 58" using that unfolding ntable_eq by linarith
    then show ?thesis using t(1) by (simp add: dino_def)
  qed
  have ad: "\<forall>j<ntable. \<forall>k\<le>NDIRECT. addrs (dino ?t j) k = addrs (dino s j) k" using d by simp
  note fr = mk_frame [OF inv t(2-4) high ad]
  have free: "bit_free (img ?t 58) b \<longleftrightarrow> unat (freeblock s) \<le> b" for b unfolding t(1) by (simp add: bit_free_fold)
  show ?thesis
  proof (intro exI conjI allI impI)
    show "mkballoc (sint (freeblock s)) s = Some ?t" by (rule r)
    show "mk_inv ?t (dino ?t)" by (rule fr(3))
    show "dino ?t j = dino s j" if "j < ntable" for j by (rule d [OF that])
    show "mbyte (img ?t) (dino ?t j) y = mbyte (img s) (dino s j) y" if "j < ntable" "y < MAXFILE * BSIZE" for j y by (rule fr(4) [OF that])
    show "slots ?t (dino ?t) = slots s (dino s)" by (rule fr(2))
    show "img ?t b = img s b" if "b \<noteq> 58" for b using that t(1) by simp
    show "bit_free (img ?t 58) b \<longleftrightarrow> unat (freeblock s) \<le> b" for b by (rule free)
  qed (rule t(4))
qed

text \<open>The directory that the image begins with, and the files that are put on it.\<close>

definition root_bytes :: "(u8 list \<times> u8 list list) list \<Rightarrow> u8 list" where
  "root_bytes fs = mkentry 1 [46] @ mkentry 1 [46, 46] @ entries 2 fs"

lemma root_bytes_length: "length (root_bytes fs) = 16 * (length fs + 2)"
  by (simp add: root_bytes_def entries_length)

definition image_of :: "(u8 list \<times> u8 list list) list \<Rightarrow> mkimg \<Rightarrow> bool" where
  "image_of fs m \<longleftrightarrow> mk_inv m (dino m) \<and> dec_sb (img m 1) = mksb
     \<and> mfile m 1 = root_bytes fs @ replicate ((length (root_bytes fs) div BSIZE + 1) * BSIZE - length (root_bytes fs)) 0
     \<and> itype (dino m 1) = T_DIR \<and> nlink (dino m 1) = 1
     \<and> (\<forall>k<length fs. mfile m (2 + k) = concat (snd (fs ! k)) \<and> itype (dino m (2 + k)) = T_FILE \<and> nlink (dino m (2 + k)) = 1)
     \<and> (\<forall>b. bit_free (img m 58) b \<longleftrightarrow> unat (freeblock m) \<le> b)
     \<and> (\<forall>k\<le>MAXFILE. (1, k) \<in> slots m (dino m) \<longleftrightarrow> need k (length (root_bytes fs)))
     \<and> unat (freeblock m) = nmeta + used (length (root_bytes fs)) + (\<Sum>f\<leftarrow>fs. used (length (concat (snd f))))
     \<and> (\<forall>j<length fs. \<forall>k\<le>MAXFILE. (2 + j, k) \<in> slots m (dino m) \<longleftrightarrow> need k (length (concat (snd (fs ! j)))))
     \<and> (\<forall>b. 2 \<le> b \<and> b < 32 \<longrightarrow> img m b = (\<lambda>_. 0))"

lemma image_ofD:
  assumes "image_of fs m"
  shows "mk_inv m (dino m)" "dec_sb (img m 1) = mksb" "itype (dino m 1) = T_DIR" "bit_free (img m 58) b \<longleftrightarrow> unat (freeblock m) \<le> b"
    "mfile m 1 = root_bytes fs @ replicate ((length (root_bytes fs) div BSIZE + 1) * BSIZE - length (root_bytes fs)) 0"
    "k < length fs \<Longrightarrow> mfile m (2 + k) = concat (snd (fs ! k))"
    "unat (freeblock m) = nmeta + used (length (root_bytes fs)) + (\<Sum>f\<leftarrow>fs. used (length (concat (snd f))))"
    "k \<le> MAXFILE \<Longrightarrow> (1, k) \<in> slots m (dino m) \<longleftrightarrow> need k (length (root_bytes fs))"
    "j < length fs \<Longrightarrow> k \<le> MAXFILE \<Longrightarrow> (2 + j, k) \<in> slots m (dino m) \<longleftrightarrow> need k (length (concat (snd (fs ! j))))"
    "2 \<le> b \<Longrightarrow> b < 32 \<Longrightarrow> img m b = (\<lambda>_. 0)"
    "k < length fs \<Longrightarrow> itype (dino m (2 + k)) = T_FILE" "k < length fs \<Longrightarrow> nlink (dino m (2 + k)) = 1" "nlink (dino m 1) = 1"
  using assms by (simp_all add: image_of_def)

lemma used_zero [simp]: "used 0 = 0"
  by (simp add: used_def sizes)

lemma sum_places:
  assumes "length fs + 2 \<le> ntable" "Z 1 = z" "\<forall>k<length fs. Z (2 + k) = length (concat (snd (fs ! k)))"
    "\<forall>j<ntable. j \<noteq> 1 \<and> \<not> (2 \<le> j \<and> j < 2 + length fs) \<longrightarrow> Z j = 0"
  shows "(\<Sum>j<ntable. used (Z j)) = used z + (\<Sum>f\<leftarrow>fs. used (length (concat (snd f))))"
proof -
  let ?S = "insert 1 ((+) 2 ` {..<length fs})"
  have "(\<Sum>j<ntable. used (Z j)) = (\<Sum>j\<in>?S. used (Z j))"
  proof (rule sum.mono_neutral_right)
    show "?S \<subseteq> {..<ntable}" using assms(1) by (auto simp: ntable_eq)
    show "\<forall>j\<in>{..<ntable} - ?S. used (Z j) = 0"
    proof
      fix j
      assume j: "j \<in> {..<ntable} - ?S"
      have "j \<in> (+) 2 ` {..<length fs}" if "2 \<le> j" "j < 2 + length fs"
        by (rule image_eqI [of j "(+) 2" "j - 2"]) (use that in auto)
      then have "\<not> (2 \<le> j \<and> j < 2 + length fs)" using j by blast
      then show "used (Z j) = 0" using j assms(4) by auto
    qed
  qed simp
  also have "\<dots> = used z + (\<Sum>j\<in>(+) 2 ` {..<length fs}. used (Z j))" using assms(2) by (subst sum.insert) auto
  also have "(\<Sum>j\<in>(+) 2 ` {..<length fs}. used (Z j)) = (\<Sum>k<length fs. used (length (concat (snd (fs ! k)))))"
    using assms(3) by (subst sum.reindex) (auto intro: sum.cong)
  also have "\<dots> = (\<Sum>f\<leftarrow>fs. used (length (concat (snd f))))"
    by (simp add: sum_list_sum_nth atLeast0LessThan)
  finally show ?thesis .
qed

text \<open>The superblock is written, the root directory gets its first two entries.\<close>

lemma mkfs_root:
  obtains s where "Option.bind (mkialloc T_DIR (wsect 1 (put_sb mksb (\<lambda>_. 0)) mkfs_zero)) (\<lambda>(rootino, s).
     if rootino \<noteq> ROOTINO then None
     else
       Option.bind (iappend rootino (mkentry rootino [46]) s) (\<lambda>s.
       Option.bind (iappend rootino (mkentry rootino [46, 46]) s) (f rootino))) = f 1 s"
    "disk_inv s" "freeinode s = of_nat 2" "mfile s 1 = mkentry 1 [46] @ mkentry 1 [46, 46]" "\<forall>j<ntable. j \<noteq> 1 \<longrightarrow> fsize s j = 0"
    "itype (dino s 1) = T_DIR" "nlink (dino s 1) = 1" "\<forall>b. b < 32 \<or> b = 58 \<longrightarrow> img s b = img mkfs_start b"
proof -
  have one: "1 < ntable" by (simp add: ntable_eq)
  obtain s where s: "mkialloc T_DIR mkfs_start = Some (of_nat 1, s)" "disk_inv s" "freeinode s = of_nat (Suc 1)"
    "\<forall>j<ntable. fsize s j = fsize mkfs_start j \<and> mfile s j = mfile mkfs_start j" "itype (dino s 1) = T_DIR" "nlink (dino s 1) = 1"
    "\<forall>b. b < 32 \<or> b = 58 \<longrightarrow> img s b = img mkfs_start b"
    using mkialloc_spec [OF disk_inv_start(1) one, of T_DIR] disk_inv_start(2) by auto
  have zs: "fsize s j = 0" if "j < ntable" for j using s(4) disk_inv_start(2) that by simp
  have fit: "fits (\<lambda>j. if j = 1 then a else 0)" if "a \<le> 512" for a
  proof -
    have "(\<Sum>j<ntable. used (if j = 1 then a else 0)) = (\<Sum>j<ntable. if j = 1 then used a else 0)" by (rule sum.cong) auto
    then have "(\<Sum>j<ntable. used (if j = 1 then a else 0)) = used a" using one by simp
    moreover have "used a \<le> used 512" by (rule used_mono [OF that])
    ultimately show ?thesis by (simp add: fits_def mk_sizes used_def sizes)
  qed
  have "fits (\<lambda>j. if j = 1 then fsize s 1 + length (mkentry 1 [46]) else fsize s j)"
    using fit [of 16] by (rule fits_mono) (use zs one in auto)
  then obtain t where t: "iappend (of_nat 1) (mkentry 1 [46]) s = Some t" "disk_inv t" "mfile t 1 = mfile s 1 @ mkentry 1 [46]" "others_kept 1 s t"
    using iappend_spec [OF s(2) one, of "mkentry 1 [46]"] zs one by (auto simp: sizes)
  have s1: "mfile s 1 = []" using zs [OF one] by (simp add: mfile_def)
  have t1: "fsize t 1 = 16" using arg_cong [OF t(3), of length] zs [OF one] by simp
  have zt: "fsize t j = 0" if "j < ntable" "j \<noteq> 1" for j
  proof -
    have "fsize t j = fsize s j" by (rule fsize_mfile) (use t(4) that in \<open>simp add: others_kept_def\<close>)
    then show ?thesis using zs that by simp
  qed
  have "fits (\<lambda>j. if j = 1 then fsize t 1 + length (mkentry 1 [46, 46]) else fsize t j)"
    using fit [of 32] by (rule fits_mono) (use zt t1 in auto)
  then obtain u where u: "iappend (of_nat 1) (mkentry 1 [46, 46]) t = Some u" "disk_inv u" "mfile u 1 = mfile t 1 @ mkentry 1 [46, 46]" "others_kept 1 t u"
    using iappend_spec [OF t(2) one, of "mkentry 1 [46, 46]"] t1 by (auto simp: sizes)
  have zu: "fsize u j = 0" if "j < ntable" "j \<noteq> 1" for j
  proof -
    have "fsize u j = fsize t j" by (rule fsize_mfile) (use u(4) that in \<open>simp add: others_kept_def\<close>)
    then show ?thesis using zt that by simp
  qed
  show ?thesis
  proof (rule that [of u])
    show "Option.bind (mkialloc T_DIR (wsect 1 (put_sb mksb (\<lambda>_. 0)) mkfs_zero)) (\<lambda>(rootino, s).
     if rootino \<noteq> ROOTINO then None
     else
       Option.bind (iappend rootino (mkentry rootino [46]) s) (\<lambda>s.
       Option.bind (iappend rootino (mkentry rootino [46, 46]) s) (f rootino))) = f 1 u"
      using s(1) t(1) u(1) by (simp add: mkfs_start_def ROOTINO_def)
    show "freeinode u = of_nat 2" using s(3) t(4) u(4) by (simp add: others_kept_def)
    show "mfile u 1 = mkentry 1 [46] @ mkentry 1 [46, 46]" using u(3) t(3) s1 by simp
    show "itype (dino u 1) = T_DIR" "nlink (dino u 1) = 1" using s(5,6) t(4) u(4) one by (simp_all add: others_kept_def)
    show "\<forall>b. b < 32 \<or> b = 58 \<longrightarrow> img u b = img mkfs_start b" using s(7) t(4) u(4) by (auto simp: others_kept_def)
  qed (use u(2) zu in auto)
qed

lemma mkfs_image:
  assumes good: "\<forall>f\<in>set fs. good_file f" and few: "length fs + 2 \<le> NINODES"
    and room: "nmeta + used (16 * (length fs + 2)) + (\<Sum>f\<leftarrow>fs. used (length (concat (snd f)))) \<le> FSSIZE"
  shows "\<exists>m. mkfs (map (map_prod id Some) fs) = Some m \<and> image_of fs m"
proof -
  let ?files = "map (map_prod id Some) fs"
  let ?f = "\<lambda>rootino s. Option.bind (add_files rootino ?files s) (\<lambda>s. Option.bind (fix_root rootino s) (\<lambda>s. mkballoc (sint (freeblock s)) s))"
  have one: "1 < ntable" and tab: "2 + length fs \<le> ntable" using few by (simp_all add: ntable_eq NINODES_def)
  obtain s where s: "mkfs ?files = ?f 1 s" "disk_inv s" "freeinode s = of_nat 2" "mfile s 1 = mkentry 1 [46] @ mkentry 1 [46, 46]"
    "\<forall>j<ntable. j \<noteq> 1 \<longrightarrow> fsize s j = 0" "itype (dino s 1) = T_DIR" "nlink (dino s 1) = 1"
    "\<forall>b. b < 32 \<or> b = 58 \<longrightarrow> img s b = img mkfs_start b"
    unfolding mkfs_def by (rule mkfs_root [of ?f])
  have s1: "fsize s 1 = 32" using arg_cong [OF s(4), of length] by simp
  have "(\<Sum>j<ntable. used (file_sizes (fsize s) 2 fs j)) = used (16 * (length fs + 2)) + (\<Sum>f\<leftarrow>fs. used (length (concat (snd f))))"
    by (rule sum_places) (use tab s(5) s1 in \<open>auto simp: file_sizes_def\<close>)
  then have fit: "fits (file_sizes (fsize s) 2 fs)" using room by (simp add: fits_def)
  have "\<forall>j<ntable. 2 \<le> j \<longrightarrow> fsize s j = 0" "fsize s 1 + 16 * length fs \<le> MAXFILE * BSIZE"
    using s(5) s1 few by (simp_all add: sizes NINODES_def)
  then obtain t where t: "add_files 1 ?files s = Some t" "files_added s 2 fs t"
    using add_files_spec [OF s(2,3) order.refl tab _ good fit] by blast
  have a: "disk_inv t" "mfile t 1 = mfile s 1 @ entries 2 fs"
    "\<forall>k<length fs. mfile t (2 + k) = concat (snd (fs ! k)) \<and> itype (dino t (2 + k)) = T_FILE \<and> nlink (dino t (2 + k)) = 1"
    "\<forall>j<ntable. j \<noteq> 1 \<and> \<not> (2 \<le> j \<and> j < 2 + length fs) \<longrightarrow> mfile t j = mfile s j"
    "\<forall>j<2. itype (dino t j) = itype (dino s j) \<and> nlink (dino t j) = nlink (dino s j)" "\<forall>b. b < 32 \<or> b = 58 \<longrightarrow> img t b = img s b"
    using t(2) unfolding files_added_def by blast+
  have root: "mfile t 1 = root_bytes fs" using a(2) s(4) by (simp add: root_bytes_def)
  have t1: "fsize t 1 = length (root_bytes fs)" using arg_cong [OF root, of length] by simp
  then have "fsize t 1 < MAXFILE * BSIZE" using few by (simp add: root_bytes_length sizes NINODES_def)
  then obtain u where u: "fix_root 1 t = Some u" "mk_inv u (dino u)" "freeblock u = freeblock t"
    "mfile u 1 = mfile t 1 @ replicate ((fsize t 1 div BSIZE + 1) * BSIZE - fsize t 1) 0"
    "\<forall>j<ntable. j \<noteq> 1 \<longrightarrow> mfile u j = mfile t j" "slots u (dino u) = slots t (dino t)"
    "\<forall>j<ntable. itype (dino u j) = itype (dino t j) \<and> nlink (dino u j) = nlink (dino t j)" "\<forall>b. b < 32 \<or> b = 58 \<longrightarrow> img u b = img t b"
    using fix_root_spec [OF a(1)] by blast
  obtain m where m: "mkballoc (sint (freeblock u)) u = Some m" "mk_inv m (dino m)" "freeblock m = freeblock u" "\<forall>j<ntable. dino m j = dino u j"
    "\<forall>j<ntable. \<forall>y<MAXFILE * BSIZE. mbyte (img m) (dino m j) y = mbyte (img u) (dino u j) y" "slots m (dino m) = slots u (dino u)"
    "\<forall>b. b \<noteq> 58 \<longrightarrow> img m b = img u b" "\<forall>b. bit_free (img m 58) b \<longleftrightarrow> unat (freeblock u) \<le> b"
    using mkballoc_spec [OF u(2)] by blast
  have usz: "fsize u j \<le> MAXFILE * BSIZE" if "j < ntable" for j
  proof (cases "j = 1")
    case True
    have "fsize u 1 = fsize t 1 + ((fsize t 1 div BSIZE + 1) * BSIZE - fsize t 1)" using arg_cong [OF u(4), of length] by simp
    moreover have "fsize t 1 div BSIZE * BSIZE \<le> fsize t 1" by simp
    ultimately show ?thesis using True \<open>fsize t 1 < MAXFILE * BSIZE\<close> few t1 by (simp add: root_bytes_length sizes NINODES_def)
  next
    case False
    then have "fsize u j = fsize t j" using u(5) that by (intro fsize_mfile) simp
    then show ?thesis using a(1) that by (simp add: disk_inv_def)
  qed
  have mu: "mfile m j = mfile u j" if j: "j < ntable" for j
  proof -
    have z: "fsize m j = fsize u j" using m(4) j by (simp add: fsize_def)
    show ?thesis unfolding mfile_def z by (rule map_cong [OF refl]) (use j m(5) usz [OF j] in auto)
  qed
  have "img m 1 = img mkfs_start 1" using m(7) u(8) a(6) s(8) by simp
  then have sb: "dec_sb (img m 1) = mksb" by (simp add: dec_put_sb)
  have files: "mfile m (2 + k) = concat (snd (fs ! k)) \<and> itype (dino m (2 + k)) = T_FILE \<and> nlink (dino m (2 + k)) = 1"
    if "k < length fs" for k
    using that tab mu [of "2 + k"] u(5,7) m(4) a(3) by simp
  have "unat (freeblock t) = nmeta + (\<Sum>j<ntable. used (fsize t j))" by (rule disk_inv_used [OF a(1)])
  also have "(\<Sum>j<ntable. used (fsize t j)) = used (length (root_bytes fs)) + (\<Sum>f\<leftarrow>fs. used (length (concat (snd f))))"
  proof (rule sum_places)
    show "fsize t 1 = length (root_bytes fs)" by (rule t1)
    show "\<forall>k<length fs. fsize t (2 + k) = length (concat (snd (fs ! k)))"
      using a(3) mfile_length [of t] by metis
    show "\<forall>j<ntable. j \<noteq> 1 \<and> \<not> (2 \<le> j \<and> j < 2 + length fs) \<longrightarrow> fsize t j = 0"
    proof (intro allI impI)
      fix j
      assume j: "j < ntable" "j \<noteq> 1 \<and> \<not> (2 \<le> j \<and> j < 2 + length fs)"
      then have "fsize t j = fsize s j" using a(4) by (intro fsize_mfile) simp
      then show "fsize t j = 0" using s(5) j by simp
    qed
  qed (use tab in simp)
  finally have fb: "unat (freeblock m) = nmeta + used (length (root_bytes fs)) + (\<Sum>f\<leftarrow>fs. used (length (concat (snd f))))"
    using m(3) u(3) by simp
  have "mkfs ?files = Some m" using s(1) t(1) u(1) m(1) by simp
  moreover have "image_of fs m"
    unfolding image_of_def
  proof (intro conjI allI impI)
    show "mfile m 1 = root_bytes fs @ replicate ((length (root_bytes fs) div BSIZE + 1) * BSIZE - length (root_bytes fs)) 0"
      using mu [OF one] u(4) t1 root by simp
    show "itype (dino m 1) = T_DIR" "nlink (dino m 1) = 1" using m(4) u(7) a(5) s(6,7) one by simp_all
    show "bit_free (img m 58) b \<longleftrightarrow> unat (freeblock m) \<le> b" for b using m(3,8) by simp
    show "(1, k) \<in> slots m (dino m) \<longleftrightarrow> need k (length (root_bytes fs))" if "k \<le> MAXFILE" for k
      using that a(1) one t1 m(6) u(6) by (simp add: disk_inv_def)
    show "(2 + j, k) \<in> slots m (dino m) \<longleftrightarrow> need k (length (concat (snd (fs ! j))))" if "j < length fs" "k \<le> MAXFILE" for j k
    proof -
      have "fsize t (2 + j) = length (concat (snd (fs ! j)))" using a(3) mfile_length [of t "2 + j"] that(1) by metis
      then show ?thesis using that a(1) tab m(6) u(6) by (simp add: disk_inv_def)
    qed
    show "img m b = (\<lambda>_. 0)" if "2 \<le> b \<and> b < 32" for b using that m(7) u(8) a(6) s(8) by simp
  qed (use m(2) sb files fb in blast)+
  ultimately show ?thesis by blast
qed

text \<open>
  C8: \<open>mkfs\<close> builds the file system that it is asked for. If the names contain no slash and the files fit on the disk, it
  succeeds; the image has the superblock that the kernel decodes, a root directory that lists \<open>.\<close>, \<open>..\<close> and the files under
  their names (rounded up by zeroes), and every file with its contents; no two files share a block, and the bitmap marks
  exactly the blocks in use. The log is empty.
\<close>

theorem mkfs_builds_image:
  assumes good: "\<forall>f\<in>set fs. good_file f" and few: "length fs + 2 \<le> NINODES"
    and room: "nmeta + used (16 * (length fs + 2)) + (\<Sum>f\<leftarrow>fs. used (length (concat (snd f)))) \<le> FSSIZE"
  shows "\<exists>m. mkfs (map (map_prod id Some) fs) = Some m \<and> image_of fs m"
  by (rule mkfs_image [OF assms])

theorem mkfs_builds_image_witness:
  "\<exists>m. mkfs [([95, 65], Some [[1, 2], [3]])] = Some m \<and> mfile m 2 = [1, 2, 3] \<and> itype (dino m 1) = T_DIR \<and> unat (freeblock m) = 61"
proof -
  have "\<exists>m. mkfs (map (map_prod id Some) [([95, 65], [[1, 2], [3]])]) = Some m \<and> image_of [([95, 65], [[1, 2], [3]])] m"
    by (rule mkfs_builds_image) (simp_all add: good_file_def sizes NINODES_def mk_sizes used_def)
  then obtain m where m: "mkfs [([95, 65], Some [[1, 2], [3]])] = Some m" "image_of [([95, 65], [[1, 2], [3]])] m" by auto
  have "mfile m (2 + 0) = [1, 2, 3]" by (subst image_ofD(6) [OF m(2)]) simp_all
  moreover have "unat (freeblock m) = 61" by (subst image_ofD(7) [OF m(2)]) (simp add: root_bytes_length mk_sizes used_def sizes)
  ultimately show ?thesis using m(1) image_ofD(3) [OF m(2)] by simp
qed

section \<open>The kernel on the image\<close>

text \<open>Cache entry \<open>i\<close> of the kernel is a copy of inode \<open>n\<close>, as \<open>ilock\<close> loads it.\<close>

definition loaded :: "'a icache_scheme \<Rightarrow> nat \<Rightarrow> nat \<Rightarrow> bool" where
  "loaded s i n \<longleftrightarrow> idev (inodes s i) = ROOTDEV \<and> inum (inodes s i) = of_nat n
     \<and> inodes s i = get_dinode (dip_offset (inum (inodes s i))) (blk s (iblock s i)) (inodes s i)"

lemma loaded_file:
  assumes im: "image_of fs m" and s: "\<forall>b<FSSIZE. blk s b = img m b" "sb s = dec_sb (img m 1)" and n: "n < ntable" and l: "loaded s i n"
  shows "file_ok s i" "isize (inodes s i) = isize (dino m n)" "fsize m n \<le> MAXFILE * BSIZE \<Longrightarrow> map (fbyte s i) [0..<fsize m n] = mfile m n"
    "k \<le> MAXFILE \<Longrightarrow> slot s i k \<noteq> 0 \<longleftrightarrow> (n, k) \<in> slots m (dino m)" "itype (inodes s i) = itype (dino m n)" "nlink (inodes s i) = nlink (dino m n)"
proof -
  have mk: "mk_inv m (dino m)" and sb: "sb s = mksb" using image_ofD(1,2) [OF im] s(2) by simp_all
  have ib: "iblock s i = 32 + n div 8" using l mk_IBLOCK [OF n] sb by (simp add: iblock_def loaded_def)
  have ibl: "32 + n div 8 < 58" using n unfolding ntable_eq by linarith
  then have bi: "blk s (iblock s i) = img m (32 + n div 8)" using s(1) ib by (simp add: mk_sizes)
  have g: "inodes s i = get_dinode (dip_offset (of_nat n)) (img m (32 + n div 8)) (inodes s i)"
  proof -
    have l': "inum (inodes s i) = of_nat n" "inodes s i = get_dinode (dip_offset (inum (inodes s i))) (blk s (iblock s i)) (inodes s i)"
      using l unfolding loaded_def by blast+
    show ?thesis using l'(2) unfolding l'(1) bi .
  qed
  show z: "isize (inodes s i) = isize (dino m n)"
    using arg_cong [OF g, of isize] by (simp add: dino_def get_dinode_def)
  show "itype (inodes s i) = itype (dino m n)" "nlink (inodes s i) = nlink (dino m n)"
    using arg_cong [OF g, of itype] arg_cong [OF g, of nlink] by (simp_all add: dino_def get_dinode_def)
  have ad: "addrs (inodes s i) k = addrs (dino m n) k" if "k \<le> NDIRECT" for k
    using arg_cong [OF g, of "\<lambda>ip. addrs ip k"] that by (simp add: dino_def get_dinode_def)
  have fb: "unat (freeblock m) \<le> 1000" using mk_invD(3) [OF mk] by (simp add: mk_sizes)
  have low: "59 \<le> mslot (img m) (dino m n) k \<and> mslot (img m) (dino m n) k < unat (freeblock m)"
    if "k \<le> MAXFILE" "mslot (img m) (dino m n) k \<noteq> 0" for k
    using mk_invD(6,7) [OF mk n that] by (simp add: mk_sizes)
  have sl: "slot s i k = mslot (img m) (dino m n) k" if k: "k \<le> MAXFILE" for k
  proof -
    have "blk s (unat (addrs (dino m n) NDIRECT)) = img m (unat (addrs (dino m n) NDIRECT))" if "addrs (dino m n) NDIRECT \<noteq> 0"
      using low [of MAXFILE] fb s(1) that by (simp add: mslot_indirect unat_gt_0 mk_sizes)
    then show ?thesis using k ad [of k] ad [of NDIRECT] by (auto simp: slot_def fblk_def indirect_def mslot_def sizes unat_eq_0)
  qed
  show "k \<le> MAXFILE \<Longrightarrow> slot s i k \<noteq> 0 \<longleftrightarrow> (n, k) \<in> slots m (dino m)" using sl n by (simp add: slots_def)
  have bm: "bm s b = 58" if "b < 4096" for b using that sb by (simp add: bm_def mksb_def mk_sizes BPB_pos)
  have al: "allocated s b \<longleftrightarrow> b < unat (freeblock m)" if "b < 4096" for b
    using that bm [OF that] image_ofD(4) [OF im] s(1) by (simp add: allocated_def BPB_pos mk_sizes not_le)
  have fs: "fssize s = 1000" using sb by (simp add: fssize_def mksb_def mk_sizes)
  have bb: "bitmap_blocks (sb s) = {58}" unfolding sb mksb_sample by (rule sample_bitmap)
  have lo: "59 \<le> unat (freeblock m)" using mk_invD(4) [OF mk] by (simp add: mk_sizes)
  have own: "owned s (slot s i k)" if "k \<le> MAXFILE" "slot s i k \<noteq> 0" for k
    using low [of k] sl [of k] al [of "slot s i k"] fb that by (simp add: owned_def fs bb)
  have inj: "k = k'" if "k \<le> MAXFILE" "k' \<le> MAXFILE" "slot s i k = slot s i k'" "slot s i k \<noteq> 0" for k k'
    using mk_inj [OF mk n n that(1,2)] that sl by simp
  have "owned s (iblock s i)" "allocated s 0"
    using al [of "iblock s i"] al [of 0] lo ibl ib by (simp_all add: owned_def fs bb)
  moreover have "slot s i k \<noteq> iblock s i" if "k \<le> MAXFILE" "slot s i k \<noteq> 0" for k
    using low [of k] sl [of k] that ib ibl by simp
  ultimately show "file_ok s i" unfolding file_ok_def using own inj l by (simp add: loaded_def)
  show "map (fbyte s i) [0..<fsize m n] = mfile m n" if le: "fsize m n \<le> MAXFILE * BSIZE"
    unfolding mfile_def
  proof (rule map_cong [OF refl])
    fix x
    assume "x \<in> set [0..<fsize m n]"
    then have x: "x div BSIZE < MAXFILE" using le by (intro less_mult_imp_div_less) simp
    then have "fblk s i (x div BSIZE) = mslot (img m) (dino m n) (x div BSIZE)" using sl [of "x div BSIZE"] by (simp add: slot_simps)
    then show "fbyte s i x = mbyte (img m) (dino m n) x"
      using low [of "x div BSIZE"] x fb s(1) by (cases "mslot (img m) (dino m n) (x div BSIZE) = 0") (simp_all add: fbyte_def mbyte_def mk_sizes)
  qed
qed

section \<open>The size of the root directory\<close>

text \<open>
  The size is rounded up even when the entries fill their blocks: it then ends behind a block that the directory does not
  have. With 30 files, or 62, the kernel allocates that block on every lookup that reads so far.
\<close>

theorem root_lacks_last_block:
  assumes "image_of fs m" "length fs + 2 \<le> NINODES" "(length fs + 2) mod 32 = 0"
  shows "fsize m 1 = length (root_bytes fs) + BSIZE \<and> mslot (img m) (dino m 1) (length (root_bytes fs) div BSIZE) = 0"
proof -
  let ?L = "length (root_bytes fs)"
  obtain q where q: "length fs + 2 = 32 * q" using assms(3) by (metis mod_0_imp_dvd dvdE)
  then have L: "?L = q * BSIZE" by (simp add: root_bytes_length sizes)
  then have z: "fsize m 1 = ?L + BSIZE" using arg_cong [OF image_ofD(5) [OF assms(1)], of length] by (simp add: sizes)
  have k: "q \<le> MAXFILE" using q assms(2) by (simp add: sizes NINODES_def)
  then have "q < MAXFILE" using q assms(2) by (simp add: sizes NINODES_def)
  then have "(1, q) \<notin> slots m (dino m)" using image_ofD(8) [OF assms(1) k] L by (simp add: need_def sizes)
  moreover have "1 < ntable" by (simp add: ntable_eq)
  ultimately have "mslot (img m) (dino m 1) q = 0" using k by (simp add: slots_def)
  moreover have "?L div BSIZE = q" using L by (simp add: sizes)
  ultimately show ?thesis using z by simp
qed

end
