(* ===== verification/AddressSpace.thy ===== *)
theory AddressSpace
  imports PageTable Uvm
begin

text \<open>
  Address spaces as what a process sees: \<open>umem pd s\<close> maps each user address to its byte. Lemmas: an address space is
  sound (\<open>space_ok\<close>) when its frames are pages of their own; \<open>copyout\<close> is an update of the bytes of this map, \<open>setupkvm\<close>
  makes a page directory without user pages, and \<open>copyuvm\<close>, the core of \<open>fork\<close>, makes an equal address space on new frames.
\<close>

section \<open>Pages\<close>

lemma page_offset: "a AND 0xFFF = a mod (4096 :: u32)"
  unfolding low_bits(2) take_bit_eq_mask [symmetric] by (simp add: take_bit_eq_mod)

lemma PGROUNDDOWN_unat: "unat (PGROUNDDOWN a) = unat a - unat a mod 4096"
proof -
  have "PGROUNDDOWN a = a - a mod 4096" using PGROUNDDOWN_offset [of a] by (simp add: page_offset algebra_simps)
  moreover have "a mod 4096 \<le> a" by (simp add: word_le_nat_alt unat_mod)
  ultimately show ?thesis by (simp add: unat_sub unat_mod)
qed

lemma page_offset_unat: "unat (a AND 0xFFF) = unat a mod 4096" for a :: u32
  by (simp add: page_offset unat_mod)

lemma page_split: "PGROUNDDOWN a + (a AND 0xFFF) = a"
  using PGROUNDDOWN_offset [of a] by (simp add: algebra_simps)

lemma page_of:
  assumes "y mod PGSIZE = 0" "unat k < 4096"
  shows "PGROUNDDOWN (y + k) = y" "unat (y + k) = unat y + unat k" "(y + k) AND 0xFFF = k"
proof -
  obtain a where a: "a < 2 ^ 20" "unat y = 4096 * a" using aligned_dest [OF assms(1)] by blast
  show u: "unat (y + k) = unat y + unat k" using a assms(2) by (simp add: unat_word_ariths)
  have "unat (PGROUNDDOWN (y + k)) = unat y" using u a assms(2) by (simp add: PGROUNDDOWN_unat)
  then show p: "PGROUNDDOWN (y + k) = y" by (simp only: word_unat_eq_iff)
  show "(y + k) AND 0xFFF = k" using PGROUNDDOWN_offset [of "y + k"] p by simp
qed

lemma page_of_entry: "y mod PGSIZE = 0 \<Longrightarrow> k < 1024 \<Longrightarrow> j < 4 \<Longrightarrow> PGROUNDDOWN (entry y k + of_nat j) = y"
proof -
  assume a: "y mod PGSIZE = 0" "k < 1024" "j < 4"
  have "unat (4 * of_nat k + of_nat j :: u32) = 4 * k + j" using unat_of_nat_u32 [of "4 * k + j"] a by simp
  then have "PGROUNDDOWN (y + (4 * of_nat k + of_nat j)) = y" using a by (intro page_of(1)) simp_all
  then show ?thesis by (simp add: entry_def add.assoc)
qed

text \<open>Memory is the same outside the pages \<open>S\<close>.\<close>

definition agree :: "u32 set \<Rightarrow> 'a kmem_scheme \<Rightarrow> 'b kmem_scheme \<Rightarrow> bool" where
  "agree S s t \<longleftrightarrow> (\<forall>x. PGROUNDDOWN x \<notin> S \<longrightarrow> mem t x = mem s x)"

lemma agree_refl [simp]: "agree S s s"
  by (simp add: agree_def)

lemma agree_mono: "agree S s t \<Longrightarrow> S \<subseteq> T \<Longrightarrow> agree T s t"
  by (auto simp: agree_def)

lemma agree_trans: "agree S s t \<Longrightarrow> agree T t u \<Longrightarrow> agree (S \<union> T) s u"
  by (simp add: agree_def)

lemma agree_entry: "agree S s t \<Longrightarrow> y mod PGSIZE = 0 \<Longrightarrow> y \<notin> S \<Longrightarrow> k < 1024 \<Longrightarrow> pte_at t (entry y k) = pte_at s (entry y k)"
  using page_of_entry [of y k 0] page_of_entry [of y k 1] page_of_entry [of y k 2] page_of_entry [of y k 3]
  unfolding pte_at_def rd32_entry agree_def by simp

lemma agree_free:
  assumes "kmem_free s X" "agree S s t" "set X \<inter> S = {}" "freelist t = freelist s" "kend t = kend s"
  shows "kmem_free t X"
proof -
  have "rd32 (mem t) x = rd32 (mem s) x" if x: "x \<in> set X" for x
    using agree_entry [OF assms(2) free_aligned [OF assms(1) x], of 0] x assms(3) by (auto simp: pte_at_def entry_0)
  then show ?thesis using assms(1,4,5) flist_cong [of X "mem t" "mem s"] by (simp add: kmem_free_def page_ok_def)
qed

section \<open>What a process sees\<close>

definition tables :: "u32 \<Rightarrow> 'a kmem_scheme \<Rightarrow> u32 set" where
  "tables pd s = {t. \<exists>d<1024. table pd s d = Some t}"

definition vpages :: "u32 \<Rightarrow> 'a kmem_scheme \<Rightarrow> u32 set" where "vpages pd s = insert pd (tables pd s)"

definition usr :: "u32 \<Rightarrow> 'a kmem_scheme \<Rightarrow> u32 \<Rightarrow> bool" where
  "usr pd s a \<longleftrightarrow> pte pd s a AND PTE_P \<noteq> 0 \<and> pte pd s a AND PTE_U \<noteq> 0"

definition frame :: "u32 \<Rightarrow> 'a kmem_scheme \<Rightarrow> u32 \<Rightarrow> u32" where "frame pd s a = P2V (PTE_ADDR (pte pd s a))"

definition frames :: "u32 \<Rightarrow> 'a kmem_scheme \<Rightarrow> u32 set" where "frames pd s = {frame pd s a | a. usr pd s a}"

definition umem :: "u32 \<Rightarrow> 'a kmem_scheme \<Rightarrow> u32 \<Rightarrow> u8 option" where
  "umem pd s a = (if usr pd s a then Some (mem s (frame pd s a + (a AND 0xFFF))) else None)"

text \<open>The frames are pages of their own: not free, not part of the page tables, and each mapped once.\<close>

definition space_ok :: "u32 \<Rightarrow> u32 list \<Rightarrow> 'a kmem_scheme \<Rightarrow> bool" where
  "space_ok pd X s \<longleftrightarrow> vm_ok pd X s \<and> frames pd s \<inter> set X = {} \<and> frames pd s \<inter> vpages pd s = {} \<and> 0 \<notin> frames pd s
     \<and> (\<forall>a b. usr pd s a \<and> usr pd s b \<and> frame pd s a = frame pd s b \<longrightarrow> PGROUNDDOWN a = PGROUNDDOWN b)"

lemma frame_aligned: "frame pd s a mod PGSIZE = 0"
  by (simp add: frame_def aligned_PTE_ADDR)

lemma usr_page: "PGROUNDDOWN a = PGROUNDDOWN b \<Longrightarrow> usr pd s a = usr pd s b" "PGROUNDDOWN a = PGROUNDDOWN b \<Longrightarrow> frame pd s a = frame pd s b"
  using pte_page [of a b pd s] by (simp_all add: usr_def frame_def)

lemma vm_okD:
  assumes "vm_ok pd X s"
  shows "kmem_free s X" "pd mod PGSIZE = 0" "vpages pd s \<inter> set X = {}" "pd \<notin> tables pd s" "finite (tables pd s)" "card (tables pd s) \<le> 1024"
    "x \<in> vpages pd s \<Longrightarrow> x mod PGSIZE = 0"
proof -
  show "kmem_free s X" "pd mod PGSIZE = 0" "vpages pd s \<inter> set X = {}" "pd \<notin> tables pd s"
    using assms by (auto simp: vm_ok_def vpages_def tables_def)
  have sub: "tables pd s \<subseteq> (\<lambda>d. the (table pd s d)) ` {..<1024}" by (force simp: tables_def)
  then show "finite (tables pd s)" by (rule finite_subset) simp
  have "card (tables pd s) \<le> card ((\<lambda>d. the (table pd s d)) ` {..<1024})" using sub by (intro card_mono) simp_all
  also have "\<dots> \<le> 1024" using card_image_le [of "{..<1024}" "\<lambda>d. the (table pd s d)"] by simp
  finally show "card (tables pd s) \<le> 1024" .
  show "x \<in> vpages pd s \<Longrightarrow> x mod PGSIZE = 0"
    using \<open>pd mod PGSIZE = 0\<close> table_aligned unfolding vpages_def tables_def by blast
qed

text \<open>A change outside the page tables changes no entry.\<close>

lemma agree_pte:
  assumes "vm_ok pd X s" "agree S s t" "vpages pd s \<inter> S = {}"
  shows "d < 1024 \<Longrightarrow> table pd t d = table pd s d" "pte pd t b = pte pd s b" "tables pd t = tables pd s" "vpages pd t = vpages pd s"
proof -
  have tb: "table pd t d = table pd s d" if "d < 1024" for d
  proof -
    have "pte_at t (entry pd d) = pte_at s (entry pd d)"
      by (rule agree_entry [OF assms(2) vm_okD(2) [OF assms(1)] _ that]) (use assms(3) in \<open>auto simp: vpages_def\<close>)
    then show ?thesis by (simp add: table_def)
  qed
  then show "d < 1024 \<Longrightarrow> table pd t d = table pd s d" .
  show "tables pd t = tables pd s" using tb by (auto simp: tables_def)
  then show "vpages pd t = vpages pd s" by (simp add: vpages_def)
  show "pte pd t b = pte pd s b"
  proof (cases "table pd s (unat (PDX b))")
    case (Some y)
    then have "y \<in> tables pd s" using PDX_less [of b] unfolding tables_def by blast
    then have "pte_at t (entry y (unat (PTX b))) = pte_at s (entry y (unat (PTX b)))"
      by (intro agree_entry [OF assms(2) table_aligned [OF Some] _ PTX_less]) (use assms(3) in \<open>auto simp: vpages_def\<close>)
    then show ?thesis using Some tb [OF PDX_less] by (simp add: pte_table)
  qed (simp add: pte_table tb [OF PDX_less])
qed

lemma agree_vm_ok:
  assumes "vm_ok pd X s" "agree S s t" "vpages pd s \<inter> S = {}" "set X \<inter> S = {}" "freelist t = freelist s" "kend t = kend s"
  shows "vm_ok pd X t"
  using assms(1) agree_pte(1) [OF assms(1-3)] agree_free [OF vm_okD(1) [OF assms(1)] assms(2,4-6)] unfolding vm_ok_def by simp

lemma agree_usr:
  assumes "vm_ok pd X s" "agree S s t" "vpages pd s \<inter> S = {}"
  shows "usr pd t = usr pd s" "frame pd t = frame pd s" "frames pd t = frames pd s"
proof -
  show u: "usr pd t = usr pd s" "frame pd t = frame pd s" using agree_pte(2) [OF assms] by (simp_all add: usr_def frame_def fun_eq_iff)
  then show "frames pd t = frames pd s" by (simp add: frames_def)
qed

lemma umem_frame: "PGROUNDDOWN (frame pd s a + (b AND 0xFFF)) = frame pd s a"
  by (rule page_of(1) [OF frame_aligned]) (simp add: page_offset_unat)

lemma agree_umem:
  assumes "vm_ok pd X s" "agree S s t" "vpages pd s \<inter> S = {}" "frames pd s \<inter> S = {}"
  shows "umem pd t = umem pd s"
proof (rule ext)
  fix a
  have "mem t (frame pd s a + (a AND 0xFFF)) = mem s (frame pd s a + (a AND 0xFFF))" if "usr pd s a"
  proof -
    have "frame pd s a \<in> frames pd s" using that by (auto simp: frames_def)
    then have "frame pd s a \<notin> S" using assms(4) by blast
    then show ?thesis using assms(2) umem_frame [of pd s a a] by (simp add: agree_def)
  qed
  then show "umem pd t a = umem pd s a" using agree_usr [OF assms(1-3)] by (simp add: umem_def)
qed

lemma agree_space_ok:
  assumes "space_ok pd X s" "agree S s t" "vpages pd s \<inter> S = {}" "set X \<inter> S = {}" "freelist t = freelist s" "kend t = kend s"
  shows "space_ok pd X t"
proof -
  have vm: "vm_ok pd X s" using assms(1) by (simp add: space_ok_def)
  show ?thesis
    using assms(1) agree_vm_ok [OF vm assms(2-6)] agree_usr [OF vm assms(2,3)] agree_pte(4) [OF vm assms(2,3)]
    by (simp add: space_ok_def)
qed

text \<open>Writing in the frame of a page changes the bytes of this page only.\<close>

lemma write_frame:
  assumes ok: "space_ok pd X s" and a: "usr pd s a" and t: "agree {frame pd s a} s t" "freelist t = freelist s" "kend t = kend s"
  shows "space_ok pd X t" "pte pd t b = pte pd s b"
    "umem pd t b = (if PGROUNDDOWN b = PGROUNDDOWN a then Some (mem t (frame pd s a + (b AND 0xFFF))) else umem pd s b)"
    "tables pd t = tables pd s"
proof -
  have vm: "vm_ok pd X s" using ok by (simp add: space_ok_def)
  have f: "frame pd s a \<in> frames pd s" using a by (auto simp: frames_def)
  then have d: "vpages pd s \<inter> {frame pd s a} = {}" "set X \<inter> {frame pd s a} = {}" using ok by (auto simp: space_ok_def)
  show "space_ok pd X t" by (rule agree_space_ok [OF ok t(1) d t(2,3)])
  show "pte pd t b = pte pd s b" "tables pd t = tables pd s" using agree_pte(2,3) [OF vm t(1) d(1)] by blast+
  note u = agree_usr [OF vm t(1) d(1)]
  show "umem pd t b = (if PGROUNDDOWN b = PGROUNDDOWN a then Some (mem t (frame pd s a + (b AND 0xFFF))) else umem pd s b)"
  proof (cases "PGROUNDDOWN b = PGROUNDDOWN a")
    case True
    then show ?thesis using u usr_page [OF True, of pd s] a by (simp add: umem_def)
  next
    case False
    have "mem t (frame pd s b + (b AND 0xFFF)) = mem s (frame pd s b + (b AND 0xFFF))" if "usr pd s b"
    proof -
      have "frame pd s b \<noteq> frame pd s a" using ok that a False unfolding space_ok_def by blast
      then show ?thesis using t(1) umem_frame [of pd s b b] by (simp add: agree_def)
    qed
    then show ?thesis using u False by (simp add: umem_def)
  qed
qed

lemma put_bytes_at:
  "length cs \<le> 2 ^ 32 \<Longrightarrow> put_bytes a cs m x = (if unat (x - a) < length cs then cs ! unat (x - a) else m x)"
proof (induction cs arbitrary: a m)
  case (Cons c cs)
  show ?case
  proof (cases "x = a")
    case True
    have "a - (a + 1) = (- 1 :: u32)" by simp
    then have "unat (a - (a + 1)) = 2 ^ 32 - 1" by (simp only: unsigned_minus_1_eq_mask) (simp add: mask_eq_exp_minus_1)
    then show ?thesis using Cons True by simp
  next
    case False
    then have nz: "unat (x - a) \<noteq> 0" by (simp only: unat_eq_0) simp
    have "unat (x - a - 1) = unat (x - a) - 1" by (rule unat_minus_one) (use False in simp)
    moreover have "x - (a + 1) = x - a - 1" by simp
    ultimately have "unat (x - (a + 1)) = unat (x - a) - 1" by (simp only:)
    then show ?thesis using Cons False nz by (simp add: nth_Cons split: nat.split)
  qed
qed simp

section \<open>copyout\<close>

lemma uva2ka_spec:
  "uva2ka pd a s = (if table pd s (unat (PDX a)) = None then NullDeref else Ok (if usr pd s a then frame pd s a else 0))"
  by (auto simp: uva2ka_def walk_table pte_table usr_def frame_def split: option.split)

text \<open>
  The first chunk of \<open>copyout\<close>, inside one page, is the bytes from \<open>a\<close>.
\<close>

lemma copyout_chunk:
  assumes ok: "space_ok pd X s" and a: "usr pd s a" and len: "unat a + length buf \<le> 2 ^ 32"
    and n: "n = copy_len a (length buf)"
    and t: "t = s\<lparr>mem := put_bytes (frame pd s a + (a - PGROUNDDOWN a)) (take n buf) (mem s)\<rparr>"
  shows "space_ok pd X t" "pte pd t b = pte pd s b" "tables pd t = tables pd s"
    "umem pd t b = (if unat a \<le> unat b \<and> unat b < unat a + n then Some (buf ! (unat b - unat a)) else umem pd s b)"
    "agree {frame pd s a} s t"
proof -
  let ?f = "frame pd s a" and ?o = "unat a mod 4096"
  have f: "?f mod PGSIZE = 0" by (rule frame_aligned)
  have "a AND 0xFFF \<le> 0xFFF" by (rule word_and_le1)
  then have "unat (PGSIZE - (a - PGROUNDDOWN a)) = 4096 - ?o"
    unfolding PGROUNDDOWN_offset by (simp add: PGSIZE_def unat_sub word_le_nat_alt page_offset_unat)
  then have n': "n = min (4096 - ?o) (length buf)" by (simp add: n copy_len_def)
  have o: "?o < 4096" by simp
  have lt: "length (take n buf) = n" "n \<le> 4096 - ?o" using n' by simp_all
  have off: "a - PGROUNDDOWN a = a AND 0xFFF" by (rule PGROUNDDOWN_offset)
  have at: "mem t x = (if unat (x - (?f + (a AND 0xFFF))) < n then take n buf ! unat (x - (?f + (a AND 0xFFF))) else mem s x)" for x
    unfolding t off using lt o by (simp add: put_bytes_at)
  have rel: "unat (?f + k - (?f + (a AND 0xFFF))) < n \<longleftrightarrow> ?o \<le> unat k \<and> unat k < ?o + n"
    "?o \<le> unat k \<Longrightarrow> unat (?f + k - (?f + (a AND 0xFFF))) = unat k - ?o" if "unat k < 4096" for k
  proof -
    have e: "?f + k - (?f + (a AND 0xFFF)) = k - (a AND 0xFFF)" by simp
    have "unat (k - (a AND 0xFFF)) = (if ?o \<le> unat k then unat k - ?o else unat k + 2 ^ 32 - ?o)"
      using unat_sub_if' [of k "a AND 0xFFF"] unat_u32_less [of k] by (simp add: page_offset_unat)
    then show "unat (?f + k - (?f + (a AND 0xFFF))) < n \<longleftrightarrow> ?o \<le> unat k \<and> unat k < ?o + n"
      "?o \<le> unat k \<Longrightarrow> unat (?f + k - (?f + (a AND 0xFFF))) = unat k - ?o"
      unfolding e using lt that by (auto split: if_splits)
  qed
  show agr: "agree {?f} s t"
    unfolding agree_def
  proof (intro allI impI)
    fix x
    assume x: "PGROUNDDOWN x \<notin> {?f}"
    have "\<not> unat (x - (?f + (a AND 0xFFF))) < n"
    proof
      assume lt': "unat (x - (?f + (a AND 0xFFF))) < n"
      define k where "k = x - (?f + (a AND 0xFFF))"
      have k: "unat k < n" "x = ?f + ((a AND 0xFFF) + k)" using lt' by (simp_all add: k_def)
      have "unat ((a AND 0xFFF) + k) = ?o + unat k" using k(1) lt o by (simp add: unat_word_ariths page_offset_unat)
      then have "unat ((a AND 0xFFF) + k) < 4096" using k(1) lt by simp
      then have "PGROUNDDOWN (?f + ((a AND 0xFFF) + k)) = ?f" by (rule page_of(1) [OF f])
      then show False using x k(2) by simp
    qed
    then show "mem t x = mem s x" by (simp add: at)
  qed
  have tl: "freelist t = freelist s" "kend t = kend s" using t by simp_all
  note w = write_frame [OF ok a agr tl]
  show "space_ok pd X t" "pte pd t b = pte pd s b" "tables pd t = tables pd s" by (rule w)+
  have aa: "unat a = unat (PGROUNDDOWN a) + ?o" "unat b = unat (PGROUNDDOWN b) + unat b mod 4096" by (simp_all add: PGROUNDDOWN_unat)
  show "umem pd t b = (if unat a \<le> unat b \<and> unat b < unat a + n then Some (buf ! (unat b - unat a)) else umem pd s b)"
  proof (cases "PGROUNDDOWN b = PGROUNDDOWN a")
    case True
    have k: "unat (b AND 0xFFF) < 4096" by (simp add: page_offset_unat)
    have iff: "unat a \<le> unat b \<and> unat b < unat a + n \<longleftrightarrow> ?o \<le> unat (b AND 0xFFF) \<and> unat (b AND 0xFFF) < ?o + n"
      "unat b - unat a = unat (b AND 0xFFF) - ?o"
      using aa True by (simp_all add: page_offset_unat) linarith
    have "umem pd t b = Some (mem t (?f + (b AND 0xFFF)))" using w(3) True by simp
    moreover have "mem t (?f + (b AND 0xFFF)) = (if ?o \<le> unat (b AND 0xFFF) \<and> unat (b AND 0xFFF) < ?o + n
        then buf ! (unat (b AND 0xFFF) - ?o) else mem s (?f + (b AND 0xFFF)))"
      using at rel [OF k] by auto
    moreover have "umem pd s b = Some (mem s (?f + (b AND 0xFFF)))" using usr_page [OF True, of pd s] a by (simp add: umem_def)
    ultimately show ?thesis unfolding iff by simp
  next
    case False
    have "\<not> (unat a \<le> unat b \<and> unat b < unat a + n)"
    proof
      assume h: "unat a \<le> unat b \<and> unat b < unat a + n"
      have "unat b < unat a - unat a mod 4096 + 4096" using h lt(2) o mod_less_eq_dividend [of "unat a" 4096] by linarith
      then have "unat b div 4096 = unat a div 4096"
        using h div_mult_mod_eq [of "unat a" 4096] div_mult_mod_eq [of "unat b" 4096] o by linarith
      then have "unat (PGROUNDDOWN b) = unat (PGROUNDDOWN a)" by (simp add: PGROUNDDOWN_unat minus_mod_eq_mult_div)
      then show False using False by (simp add: word_unat_eq_iff)
    qed
    then show ?thesis using w(3) False by auto
  qed
qed

text \<open>All the calls of \<open>copyout\<close>: \<open>q\<close> bytes lie in user pages, and the one behind them does not.\<close>

lemma copyout_spec:
  assumes "space_ok pd X s" "unat a + length buf \<le> 2 ^ 32" "q \<le> length buf" "\<forall>k<q. usr pd s (a + of_nat k)"
    and "q < length buf \<longrightarrow> \<not> usr pd s (a + of_nat q)"
  shows "if q < length buf \<and> table pd s (unat (PDX (a + of_nat q))) = None then copyout pd a buf s = NullDeref
     else \<exists>t. copyout pd a buf s = Ok (if q = length buf then 0 else - 1, t) \<and> space_ok pd X t \<and> tables pd t = tables pd s
       \<and> (\<forall>b. pte pd t b = pte pd s b)
       \<and> (\<forall>b. umem pd t b = (if unat a \<le> unat b \<and> unat b < unat a + q then Some (buf ! (unat b - unat a)) else umem pd s b))
       \<and> agree (frames pd s) s t"
  using assms
proof (induction "length buf" arbitrary: buf a s q rule: less_induct)
  case (less buf a s q)
  show ?case
  proof (cases "buf = []")
    case True
    then show ?thesis using less.prems by (auto simp: copyout.simps)
  next
    case False
    have page: "uva2ka pd (PGROUNDDOWN a) s = (if table pd s (unat (PDX a)) = None then NullDeref else Ok (if usr pd s a then frame pd s a else 0))"
    proof -
      have p: "PGROUNDDOWN (PGROUNDDOWN a) = PGROUNDDOWN a" by (rule aligned_rounddown [OF rounddown_aligned])
      then have "PDX (PGROUNDDOWN a) = PDX a" using same_entry by blast
      then show ?thesis using usr_page [OF p, of pd s] by (simp add: uva2ka_spec)
    qed
    show ?thesis
    proof (cases "usr pd s a")
      case False
      then have "q = 0" using less.prems(4) [rule_format, of 0] by (cases q) simp_all
      then show ?thesis using page False less.prems(1) \<open>buf \<noteq> []\<close> by (auto simp: copyout.simps)
    next
      case True
      have tb: "table pd s (unat (PDX a)) \<noteq> None" using True by (cases "table pd s (unat (PDX a))") (simp_all add: usr_def pte_table)
      have nz: "frame pd s a \<noteq> 0" using less.prems(1) True unfolding space_ok_def frames_def by force
      define n where "n = copy_len a (length buf)"
      define t where "t = s\<lparr>mem := put_bytes (frame pd s a + (a - PGROUNDDOWN a)) (take n buf) (mem s)\<rparr>"
      have n: "0 < n" "n \<le> length buf" using \<open>buf \<noteq> []\<close> copy_len_pos by (simp_all add: n_def) (simp add: copy_len_def)
      have step: "copyout pd a buf s = copyout pd (PGROUNDDOWN a + PGSIZE) (drop n buf) t"
        using \<open>buf \<noteq> []\<close> page True tb nz by (subst copyout.simps) (simp add: n_def t_def Let_def)
      note c = copyout_chunk [OF less.prems(1) True less.prems(2) n_def t_def]
      have "a AND 0xFFF \<le> 0xFFF" by (rule word_and_le1)
      then have left: "unat (PGSIZE - (a - PGROUNDDOWN a)) = 4096 - unat a mod 4096"
        unfolding PGROUNDDOWN_offset by (simp add: PGSIZE_def unat_sub word_le_nat_alt page_offset_unat)
      have n': "n = min (4096 - unat a mod 4096) (length buf)" by (simp add: n_def copy_len_def left)
      have nq: "n \<le> q"
      proof (rule ccontr)
        assume "\<not> n \<le> q"
        then have q: "q < n" "q < length buf" using n(2) by simp_all
        have "q < 4096 - unat a mod 4096" using q(1) n' by simp
        then have lq: "unat a mod 4096 + q < 4096" by linarith
        then have "unat (of_nat q :: u32) = q" by (intro unat_of_nat_u32) simp
        then have "unat ((a AND 0xFFF) + of_nat q) < 4096" using lq by (simp add: unat_word_ariths page_offset_unat)
        then have "PGROUNDDOWN (PGROUNDDOWN a + ((a AND 0xFFF) + of_nat q)) = PGROUNDDOWN a" by (rule page_of(1) [OF rounddown_aligned])
        then have "PGROUNDDOWN (a + of_nat q) = PGROUNDDOWN a" using page_split [of a] by (simp add: add.assoc [symmetric])
        then show False using usr_page(1) [of "a + of_nat q" a pd s] True less.prems(5) q(2) by simp
      qed
      show ?thesis
      proof (cases "n = length buf")
        case True
        then have q: "q = length buf" using nq less.prems(3) by simp
        have "frame pd s a \<in> frames pd s" using \<open>usr pd s a\<close> by (auto simp: frames_def)
        then have "agree (frames pd s) s t" by (intro agree_mono [OF c(5)]) simp
        then show ?thesis using step True c(1-4) q by (simp add: copyout.simps)
      next
        case False
        then have nn: "n = 4096 - unat a mod 4096" "n < length buf" using n' n(2) by auto
        have up: "unat (PGROUNDDOWN a) = unat a - unat a mod 4096" by (rule PGROUNDDOWN_unat)
        have lt: "unat a + n < 2 ^ 32" using less.prems(2) nn(2) by simp
        have na: "PGROUNDDOWN a + PGSIZE = a + of_nat n"
        proof -
          have "unat (PGROUNDDOWN a + PGSIZE) = unat a + n"
            using lt nn(1) up by (simp add: unat_word_ariths PGSIZE_def)
          moreover have "unat (a + of_nat n) = unat a + n" using lt by (simp add: unat_word_ariths unat_of_nat_u32)
          ultimately show ?thesis by (simp only: word_unat_eq_iff)
        qed
        have un: "unat (a + of_nat n) = unat a + n" using lt by (simp add: unat_word_ariths unat_of_nat_u32)
        have us: "usr pd t b = usr pd s b" for b using c(2) by (simp add: usr_def)
        have sh: "a + of_nat n + of_nat k = a + of_nat (n + k)" for k by simp
        have fr: "frames pd t = frames pd s" using c(2) by (simp add: frames_def usr_def frame_def)
        have tbt: "table pd t (unat (PDX b)) = None \<longleftrightarrow> table pd s (unat (PDX b)) = None" for b
        proof -
          have vm: "vm_ok pd X s" and d: "vpages pd s \<inter> {frame pd s a} = {}"
            using less.prems(1) \<open>usr pd s a\<close> by (auto simp: space_ok_def frames_def)
          show ?thesis using agree_pte(1) [OF vm c(5) d PDX_less] by simp
        qed
        have ih: "if q - n < length (drop n buf) \<and> table pd t (unat (PDX (a + of_nat n + of_nat (q - n)))) = None
           then copyout pd (a + of_nat n) (drop n buf) t = NullDeref
           else \<exists>u. copyout pd (a + of_nat n) (drop n buf) t = Ok (if q - n = length (drop n buf) then 0 else - 1, u) \<and> space_ok pd X u
             \<and> tables pd u = tables pd t \<and> (\<forall>b. pte pd u b = pte pd t b)
             \<and> (\<forall>b. umem pd u b = (if unat (a + of_nat n) \<le> unat b \<and> unat b < unat (a + of_nat n) + (q - n)
                  then Some (drop n buf ! (unat b - unat (a + of_nat n))) else umem pd t b))
             \<and> agree (frames pd t) t u"
        proof (rule less.hyps [OF _ c(1)])
          show "length (drop n buf) < length buf" using n by simp
          show "unat (a + of_nat n) + length (drop n buf) \<le> 2 ^ 32" using less.prems(2) un nn(2) by simp
          show "q - n \<le> length (drop n buf)" using less.prems(3) by simp
          show "\<forall>k<q - n. usr pd t (a + of_nat n + of_nat k)"
          proof (intro allI impI)
            fix k
            assume "k < q - n"
            then have "n + k < q" by simp
            then show "usr pd t (a + of_nat n + of_nat k)" unfolding us sh using less.prems(4) by blast
          qed
          have "n + (q - n) = q" using nq by simp
          then show "q - n < length (drop n buf) \<longrightarrow> \<not> usr pd t (a + of_nat n + of_nat (q - n))"
            unfolding us sh using less.prems(5) by auto
        qed
        have e: "a + of_nat n + of_nat (q - n) = a + of_nat q" using nq by (simp add: of_nat_diff)
        have l: "q - n < length (drop n buf) \<longleftrightarrow> q < length buf" "q - n = length (drop n buf) \<longleftrightarrow> q = length buf" using nq nn(2) by auto
        show ?thesis
        proof (cases "q < length buf \<and> table pd s (unat (PDX (a + of_nat q))) = None")
          case True
          then show ?thesis using ih step na unfolding e l tbt by simp
        next
          case False
          then obtain u where u: "copyout pd (a + of_nat n) (drop n buf) t = Ok (if q = length buf then 0 else - 1, u)" "space_ok pd X u"
            "tables pd u = tables pd t" "\<forall>b. pte pd u b = pte pd t b"
            "\<forall>b. umem pd u b = (if unat a + n \<le> unat b \<and> unat b < unat a + n + (q - n) then Some (drop n buf ! (unat b - (unat a + n))) else umem pd t b)"
            "agree (frames pd t) t u"
            using ih unfolding e l tbt un by (simp only: if_False) blast
          have b: "umem pd u b = (if unat a \<le> unat b \<and> unat b < unat a + q then Some (buf ! (unat b - unat a)) else umem pd s b)" for b
          proof (cases "unat a + n \<le> unat b \<and> unat b < unat a + q")
            case True
            then have "drop n buf ! (unat b - (unat a + n)) = buf ! (unat b - unat a)" using nn(2) by (simp add: nth_drop)
            then show ?thesis using True u(5) nq by simp
          next
            case False
            then have "umem pd u b = umem pd t b" using u(5) nq by auto
            then show ?thesis using c(4) [of b] False nq by auto
          qed
          have "frame pd s a \<in> frames pd s" using \<open>usr pd s a\<close> by (auto simp: frames_def)
          then have "agree (frames pd s) s u" using agree_trans [OF c(5) u(6)] fr by (simp add: insert_absorb)
          then show ?thesis using False step na u(1-4) c(2,3) b by (simp only: if_False) auto
        qed
      qed
    qed
  qed
qed

section \<open>Making page tables\<close>

text \<open>Page tables have been added, from the front of the free list; only they and the directory have changed.\<close>

definition extends :: "u32 \<Rightarrow> u32 list \<Rightarrow> 'a kmem_scheme \<Rightarrow> u32 list \<Rightarrow> 'a kmem_scheme \<Rightarrow> bool" where
  "extends pd X s Y t \<longleftrightarrow> vm_ok pd Y t \<and> agree (vpages pd t) s t \<and> (\<exists>Z. X = Z @ Y \<and> tables pd t = tables pd s \<union> set Z)
     \<and> t = s\<lparr>mem := mem t, freelist := freelist t\<rparr>"

lemma extends_refl: "vm_ok pd X s \<Longrightarrow> extends pd X s X s"
  by (simp add: extends_def)

lemma extends_trans:
  assumes "extends pd X s Y t" "extends pd Y t W u"
  shows "extends pd X s W u"
proof -
  obtain Z where Z: "X = Z @ Y" "tables pd t = tables pd s \<union> set Z" using assms(1) by (auto simp: extends_def)
  obtain Z' where Z': "Y = Z' @ W" "tables pd u = tables pd t \<union> set Z'" using assms(2) by (auto simp: extends_def)
  have "agree (vpages pd t \<union> vpages pd u) s u" using assms by (auto simp: extends_def intro: agree_trans)
  moreover have "vpages pd t \<union> vpages pd u = vpages pd u" using Z' by (auto simp: vpages_def)
  moreover have "X = (Z @ Z') @ W" "tables pd u = tables pd s \<union> set (Z @ Z')" using Z Z' by auto
  moreover have "u = s\<lparr>mem := mem u, freelist := freelist u\<rparr>"
  proof -
    have "u = t\<lparr>mem := mem u, freelist := freelist u\<rparr>" "t = s\<lparr>mem := mem t, freelist := freelist t\<rparr>" using assms by (simp_all add: extends_def)
    then have "u = s\<lparr>mem := mem t, freelist := freelist t\<rparr>\<lparr>mem := mem u, freelist := freelist u\<rparr>" by metis
    then show ?thesis by simp
  qed
  ultimately show ?thesis using assms(2) unfolding extends_def by metis
qed

lemma extends_card:
  assumes "extends pd X s Y t" "vm_ok pd X s"
  shows "card (tables pd t) + length Y = card (tables pd s) + length X"
proof -
  obtain Z where Z: "X = Z @ Y" "tables pd t = tables pd s \<union> set Z" using assms(1) by (auto simp: extends_def)
  have "distinct X" using vm_okD(1) [OF assms(2)] by (simp add: kmem_free_def)
  then have "card (set Z) = length Z" using Z(1) by (simp add: distinct_card)
  moreover have "tables pd s \<inter> set Z = {}" using vm_okD(3) [OF assms(2)] Z(1) by (auto simp: vpages_def)
  ultimately show ?thesis using Z vm_okD(5) [OF assms(2)] by (simp add: card_Un_disjoint)
qed

lemma agree_set_pte: "y mod PGSIZE = 0 \<Longrightarrow> k < 1024 \<Longrightarrow> agree {y} s (set_pte (entry y k) v s)"
  using page_of_entry [of y k 0] page_of_entry [of y k 1] page_of_entry [of y k 2] page_of_entry [of y k 3]
  by (auto simp: agree_def set_pte_def wr32_def)

lemma agree_zero_pg: "y mod PGSIZE = 0 \<Longrightarrow> agree {y} s (zero_pg y s)"
proof -
  assume y: "y mod PGSIZE = 0"
  have "mem (zero_pg y s) x = mem s x" if "PGROUNDDOWN x \<noteq> y" for x
  proof -
    have "\<not> unat (x - y) < 4096"
    proof
      assume "unat (x - y) < 4096"
      then have "PGROUNDDOWN (y + (x - y)) = y" by (rule page_of(1) [OF y])
      then show False using that by simp
    qed
    then show ?thesis by (simp add: zero_pg_def memset_filled filled_def PGSIZE_def)
  qed
  then show ?thesis by (simp add: agree_def)
qed

lemma set_pte_extends:
  assumes "vm_ok pd X s" "table pd s (unat (PDX a)) = Some t"
  shows "extends pd X s X (set_pte (entry t (unat (PTX a))) v s)" "pte pd (set_pte (entry t (unat (PTX a))) v s) b =
      (if PGROUNDDOWN b = PGROUNDDOWN a then v else pte pd s b)"
proof -
  let ?u = "set_pte (entry t (unat (PTX a))) v s"
  note e = set_entry [OF assms, of v]
  show "pte pd ?u b = (if PGROUNDDOWN b = PGROUNDDOWN a then v else pte pd s b)" by (rule e(2))
  have t: "t mod PGSIZE = 0" "t \<in> tables pd s" using assms(2) table_aligned PDX_less [of a] unfolding tables_def by blast+
  have ag: "agree {t} s ?u" by (rule agree_set_pte [OF t(1) PTX_less])
  have pd: "t \<noteq> pd" using assms PDX_less [of a] by (auto simp: vm_ok_def)
  have tb: "table pd ?u d = table pd s d" if "d < 1024" for d
    using agree_entry [OF ag vm_okD(2) [OF assms(1)] _ that] pd by (simp add: table_def)
  then have ts: "tables pd ?u = tables pd s" by (auto simp: tables_def)
  have "agree (vpages pd ?u) s ?u" by (rule agree_mono [OF ag]) (use t ts in \<open>simp add: vpages_def\<close>)
  then show "extends pd X s X ?u" using e(1) ts by (simp add: extends_def set_pte_def)
qed

lemma walk_extends:
  assumes "vm_ok pd X s"
  shows "(walkpgdir pd a True s = (None, s) \<and> X = [])
     \<or> (\<exists>t Y u. walkpgdir pd a True s = (Some (entry t (unat (PTX a))), u) \<and> extends pd X s Y u
          \<and> table pd u (unat (PDX a)) = Some t \<and> (\<forall>b. pte pd u b = pte pd s b))"
proof (cases "table pd s (unat (PDX a))")
  case (Some t)
  then have "walkpgdir pd a True s = (Some (entry t (unat (PTX a))), s)"
    by (auto simp: walkpgdir_def table_def Let_def entry_PDX split: if_splits)
  then show ?thesis using extends_refl [OF assms] Some by blast
next
  case None
  then have e: "pte_at s (entry pd (unat (PDX a))) AND PTE_P = 0" by (simp add: table_def Let_def split: if_splits)
  have f: "kmem_free s X" using assms by (simp add: vm_ok_def)
  show ?thesis
  proof (cases X)
    case Nil
    then have "kalloc s = (0, s)" using kalloc_free [OF f] by simp
    then show ?thesis using e Nil by (simp add: walkpgdir_def Let_def entry_PDX)
  next
    case (Cons x Y)
    then obtain u where u: "kalloc s = (x, u)" "x \<noteq> 0" "mem u = mem s" "kmem_free u Y" using kalloc_free [OF f] by auto
    have us: "u = s\<lparr>freelist := freelist u\<rparr>" using u(1,2) by (auto simp: kalloc_def Let_def split: if_splits)
    let ?v = "V2P x OR PTE_P OR PTE_W OR PTE_U"
    let ?w = "set_pte (entry pd (unat (PDX a))) ?v (zero_pg x u)"
    have w: "walkpgdir pd a True s = (Some (entry x (unat (PTX a))), ?w)"
      using e u by (simp add: walkpgdir_def Let_def entry_PDX)
    note ad = add_table [OF _ None u(3,4), of x]
    have vm: "vm_ok pd (x # Y) s" using assms Cons by simp
    have x: "x mod PGSIZE = 0" "x \<noteq> pd" using free_aligned [OF f, of x] vm_okD(3) [OF vm] Cons by (auto simp: vpages_def)
    have pda: "pd mod PGSIZE = 0" by (rule vm_okD(2) [OF assms])
    have a1: "agree {x} s (zero_pg x u)" using agree_zero_pg [OF x(1), of u] u(3) by (simp add: agree_def)
    have tb: "table pd ?w d = (if d = unat (PDX a) then Some x else table pd s d)" if d: "d < 1024" for d
    proof (cases "d = unat (PDX a)")
      case True
      then show ?thesis using ad(2) vm by simp
    next
      case False
      have "pte_at ?w (entry pd d) = pte_at (zero_pg x u) (entry pd d)"
        using rd32_wr32_entry [OF pda PDX_less pda d, of "mem (zero_pg x u)" a ?v] False by (simp add: pte_at_def set_pte_def)
      also have "\<dots> = pte_at s (entry pd d)" by (rule agree_entry [OF a1 pda _ d]) (use x(2) in simp)
      finally show ?thesis using False by (simp add: table_def)
    qed
    have ts: "tables pd ?w = insert x (tables pd s)"
    proof (rule set_eqI)
      fix t
      show "t \<in> tables pd ?w \<longleftrightarrow> t \<in> insert x (tables pd s)"
      proof
        assume "t \<in> tables pd ?w"
        then show "t \<in> insert x (tables pd s)" using tb unfolding tables_def by (auto split: if_splits)
      next
        assume "t \<in> insert x (tables pd s)"
        then consider "t = x" | d where "d < 1024" "table pd s d = Some t" by (auto simp: tables_def)
        then show "t \<in> tables pd ?w"
        proof cases
          case 1
          then have "table pd ?w (unat (PDX a)) = Some t" using tb [OF PDX_less] by simp
          then show ?thesis using PDX_less unfolding tables_def by blast
        next
          case 2
          then have "table pd ?w d = Some t" using tb [OF 2(1)] None by auto
          then show ?thesis using 2(1) unfolding tables_def by blast
        qed
      qed
    qed
    have "agree ({x} \<union> {pd}) s ?w" by (rule agree_trans [OF a1 agree_set_pte [OF pda PDX_less]])
    then have "agree (vpages pd ?w) s ?w" by (rule agree_mono) (use ts in \<open>simp add: vpages_def\<close>)
    moreover have "?w = s\<lparr>mem := mem ?w, freelist := freelist ?w\<rparr>" by (subst us) (simp add: set_pte_def zero_pg_def u(3))
    moreover have "X = [x] @ Y" "tables pd ?w = tables pd s \<union> set [x]" using Cons ts by simp_all
    ultimately have "extends pd X s Y ?w" unfolding extends_def using ad(1) vm by blast
    then show ?thesis using w ad(2,3) vm by blast
  qed
qed

lemma mappages_loop_extends:
  "vm_ok pd X s \<Longrightarrow> mappages_loop pd n a pa perm s = Ok (r, t) \<Longrightarrow> \<exists>Y. extends pd X s Y t \<and> (r = 0 \<or> r = - 1 \<and> Y = [])"
proof (induction n arbitrary: a pa s X)
  case 0
  from walk_extends [OF 0(1), of a] show ?case
  proof (elim disjE conjE exE)
    assume "walkpgdir pd a True s = (None, s)" "X = []"
    then show ?thesis using 0 extends_refl by (simp add: mappages_loop.simps)
  next
    fix x Y u
    assume u: "walkpgdir pd a True s = (Some (entry x (unat (PTX a))), u)" "extends pd X s Y u" "table pd u (unat (PDX a)) = Some x"
    have vm: "vm_ok pd Y u" using u(2) by (simp add: extends_def)
    show ?thesis using 0(2) u(1) extends_trans [OF u(2) set_pte_extends(1) [OF vm u(3)]]
      by (auto simp: mappages_loop.simps split: if_splits)
  qed
next
  case (Suc n)
  from walk_extends [OF Suc.prems(1), of a] show ?case
  proof (elim disjE conjE exE)
    assume "walkpgdir pd a True s = (None, s)" "X = []"
    then show ?thesis using Suc.prems extends_refl by (simp add: mappages_loop.simps)
  next
    fix x Y u
    assume u: "walkpgdir pd a True s = (Some (entry x (unat (PTX a))), u)" "extends pd X s Y u" "table pd u (unat (PDX a)) = Some x"
    have vm: "vm_ok pd Y u" using u(2) by (simp add: extends_def)
    let ?w = "set_pte (entry x (unat (PTX a))) (pa OR perm OR PTE_P) u"
    have w: "extends pd X s Y ?w" by (rule extends_trans [OF u(2) set_pte_extends(1) [OF vm u(3)]])
    then have vw: "vm_ok pd Y ?w" by (simp add: extends_def)
    have "mappages_loop pd n (a + PGSIZE) (pa + PGSIZE) perm ?w = Ok (r, t)"
      using Suc.prems(2) u(1) by (simp add: mappages_loop.simps [of pd "Suc n"] split: if_splits)
    from Suc.IH [OF vw this] show ?thesis using extends_trans [OF w] by blast
  qed
qed

text \<open>With memory left over, a range that is free is mapped.\<close>

lemma mappages_spec:
  assumes vm: "vm_ok pd X s" and free: "\<forall>b. in_range a n b \<longrightarrow> pte pd s b AND PTE_P = 0" and room: "1024 < card (tables pd s) + length X"
  obtains t Y where "mappages pd a n pa perm s = Ok (0, t)" "extends pd X s Y t" "\<forall>b. \<not> in_range a n b \<longrightarrow> pte pd t b = pte pd s b"
    "\<forall>b. in_range a n b \<longrightarrow> pte pd t b = (pa + (PGROUNDDOWN b - PGROUNDDOWN a)) OR perm OR PTE_P"
proof -
  obtain r t Y where t: "mappages pd a n pa perm s = Ok (r, t)" "\<forall>b. \<not> in_range a n b \<longrightarrow> pte pd t b = pte pd s b"
    "r = 0 \<and> (\<forall>b. in_range a n b \<longrightarrow> pte pd t b = (pa + (PGROUNDDOWN b - PGROUNDDOWN a)) OR perm OR PTE_P) \<or> r = - 1 \<and> Y = []"
    using mappages_maps [OF vm free, of pa perm] by blast
  obtain W where W: "extends pd X s W t" "r = 0 \<or> r = - 1 \<and> W = []"
    using mappages_loop_extends [OF vm] t(1) unfolding mappages_def Let_def by blast
  have "card (tables pd t) \<le> 1024" using vm_okD(6) W(1) by (auto simp: extends_def)
  then have "W \<noteq> []" using extends_card [OF W(1) vm] room by auto
  then have "r = 0" using W(2) by simp
  then show ?thesis using that t W(1) by auto
qed

section \<open>The kernel's mappings\<close>

lemma aligned_minus: "x mod PGSIZE = 0 \<Longrightarrow> y mod PGSIZE = 0 \<Longrightarrow> (x - y) mod PGSIZE = 0"
  using page_diff [of x y] page_mod_unat [of "x - y"] by (simp add: PGSIZE_def)

lemma aligned_plus: "x mod PGSIZE = 0 \<Longrightarrow> y mod PGSIZE = 0 \<Longrightarrow> (x + y) mod PGSIZE = 0"
proof -
  assume x: "x mod PGSIZE = 0" "y mod PGSIZE = 0"
  have "(0 :: u32) mod PGSIZE = 0" by simp
  then have "(x - (0 - y)) mod PGSIZE = 0" by (intro aligned_minus x)
  then show ?thesis by simp
qed

lemma in_range_aligned:
  assumes "a mod PGSIZE = 0" "n mod PGSIZE = 0" "n \<noteq> 0"
  shows "in_range a n b \<longleftrightarrow> b - a < n"
proof -
  have n1: "(n - PGSIZE) mod PGSIZE = 0" by (rule aligned_minus [OF assms(2)]) simp
  have e: "a + n - 1 = (a + (n - PGSIZE)) + 0xFFF" by (simp add: PGSIZE_def)
  have l: "PGROUNDDOWN (a + n - 1) = a + (n - PGSIZE)"
    unfolding e by (rule page_of(1) [OF aligned_plus [OF assms(1) n1]]) simp
  let ?p = "PGROUNDDOWN b - a"
  have p: "?p mod PGSIZE = 0" by (rule aligned_minus [OF rounddown_aligned assms(1)])
  have ba: "b - a = ?p + (b AND 0xFFF)" using page_split [of b] by (simp add: algebra_simps)
  have off: "unat (b AND 0xFFF) < 4096" by (simp add: page_offset_unat)
  have u: "unat (b - a) = unat ?p + unat (b AND 0xFFF)" unfolding ba by (rule page_of(2) [OF p off])
  obtain k where k: "unat n = 4096 * k" using aligned_dest [OF assms(2)] by blast
  obtain j where j: "unat ?p = 4096 * j" using aligned_dest [OF p] by blast
  have "unat n \<noteq> 0" using assms(3) by (simp only: unat_eq_0) simp
  then have k0: "0 < k" using k by simp
  then have "PGSIZE \<le> n" using k by (simp add: word_le_nat_alt PGSIZE_def)
  then have n2: "unat (n - PGSIZE) = 4096 * k - 4096" using k by (simp add: unat_sub PGSIZE_def)
  have "in_range a n b \<longleftrightarrow> ?p \<le> n - PGSIZE" using l aligned_rounddown [OF assms(1)] by (simp add: in_range_def)
  also have "\<dots> \<longleftrightarrow> 4096 * j \<le> 4096 * k - 4096" using n2 j by (simp add: word_le_nat_alt)
  also have "\<dots> \<longleftrightarrow> 4096 * j + unat (b AND 0xFFF) < 4096 * k" 
  proof -
    have "4096 * j \<le> 4096 * k - 4096 \<longleftrightarrow> j < k" using k0 by (cases k) auto
    moreover have "4096 * j + unat (b AND 0xFFF) < 4096 * k \<longleftrightarrow> j < k"
    proof
      assume "4096 * j + unat (b AND 0xFFF) < 4096 * k"
      then have "4096 * j < 4096 * k" by linarith
      then show "j < k" by simp
    next
      assume "j < k"
      then have "4096 * j + 4096 \<le> 4096 * k" by simp
      moreover have "4096 * j + unat (b AND 0xFFF) < 4096 * j + 4096" using off by (rule add_strict_left_mono)
      ultimately show "4096 * j + unat (b AND 0xFFF) < 4096 * k" by (rule less_le_trans [rotated])
    qed
    ultimately show ?thesis by simp
  qed
  also have "\<dots> \<longleftrightarrow> b - a < n" using u j k by (simp add: word_less_nat_alt)
  finally show ?thesis .
qed

lemma word_range: "unat v + unat l \<le> 2 ^ 32 \<Longrightarrow> b - v < l \<longleftrightarrow> unat v \<le> unat b \<and> unat b < unat v + unat l" for b v l :: u32
proof -
  assume le: "unat v + unat l \<le> 2 ^ 32"
  have b: "unat b < 2 ^ 32" by (rule unat_u32_less)
  show ?thesis
  proof (cases "v \<le> b")
    case True
    then have "unat (b - v) = unat b - unat v" by (rule unat_sub)
    then show ?thesis using True by (auto simp: word_less_nat_alt word_le_nat_alt)
  next
    case False
    then have "unat (b - v) = unat b + 2 ^ 32 - unat v" by (simp add: unat_sub_if' word_le_nat_alt)
    moreover have "unat v < 2 ^ 32" by (rule unat_u32_less)
    ultimately show ?thesis using False le by (auto simp: word_less_nat_alt word_le_nat_alt)
  qed
qed

text \<open>The addresses of an entry of \<open>kmap\<close>; entries that can be mapped.\<close>

definition in_map :: "u32 \<times> u32 \<times> u32 \<times> u32 \<Rightarrow> u32 \<Rightarrow> bool" where
  "in_map k b = (case k of (virt, ps, pe, perm) \<Rightarrow> b - virt < pe - ps)"

definition map_ok :: "u32 \<times> u32 \<times> u32 \<times> u32 \<Rightarrow> bool" where
  "map_ok k = (case k of (virt, ps, pe, perm) \<Rightarrow> virt mod PGSIZE = 0 \<and> ps mod PGSIZE = 0 \<and> (pe - ps) mod PGSIZE = 0 \<and> pe - ps \<noteq> 0
     \<and> perm AND PTE_U = 0)"

fun apart_maps :: "(u32 \<times> u32 \<times> u32 \<times> u32) list \<Rightarrow> bool" where
  "apart_maps [] = True"
| "apart_maps (k # ks) = ((\<forall>k'\<in>set ks. \<forall>b. \<not> (in_map k b \<and> in_map k' b)) \<and> apart_maps ks)"

lemma aligned_no_user: "x mod PGSIZE = 0 \<Longrightarrow> perm AND PTE_U = 0 \<Longrightarrow> (x OR perm OR PTE_P) AND PTE_U = 0"
proof -
  assume x: "x mod PGSIZE = 0" and p: "perm AND PTE_U = 0"
  have "bit (take_bit 12 x) 2 = False" using x by (simp add: aligned_bits)
  then have x2: "\<not> bit x 2" by (simp add: bit_simps)
  have u: "(4 :: u32) = push_bit 2 1" by simp
  have "bit (perm AND PTE_U) 2 = False" using p by simp
  then have p2: "\<not> bit perm 2" unfolding PTE_U_def u by (simp add: bit_simps)
  have q2: "\<not> bit PTE_P 2" by (simp add: PTE_P_def bit_simps)
  show ?thesis
  proof (rule bit_word_eqI)
    fix n :: nat
    show "bit ((x OR perm OR PTE_P) AND PTE_U) n = bit (0 :: u32) n"
      unfolding PTE_U_def u using x2 p2 q2 by (auto simp: bit_simps simp del: push_bit_of_1 push_bit_numeral)
  qed
qed

lemma map_kernel_spec:
  "vm_ok pd X s \<Longrightarrow> \<forall>k\<in>set ks. map_ok k \<and> (\<forall>b. in_map k b \<longrightarrow> pte pd s b AND PTE_P = 0) \<Longrightarrow> apart_maps ks
    \<Longrightarrow> 1024 < card (tables pd s) + length X
    \<Longrightarrow> \<exists>t Y. map_kernel pd ks s = Ok (pd, t) \<and> extends pd X s Y t \<and> (\<forall>b. (\<forall>k\<in>set ks. \<not> in_map k b) \<longrightarrow> pte pd t b = pte pd s b)
      \<and> (\<forall>b. (\<exists>k\<in>set ks. in_map k b) \<longrightarrow> pte pd t b AND PTE_U = 0)"
proof (induction ks arbitrary: s X)
  case Nil
  then show ?case using extends_refl [OF Nil(1)] by auto
next
  case (Cons k ks)
  obtain virt ps pe perm where k: "k = (virt, ps, pe, perm)" by (cases k)
  have m: "map_ok k" using Cons.prems(2) by simp
  then have al: "virt mod PGSIZE = 0" "ps mod PGSIZE = 0" "(pe - ps) mod PGSIZE = 0" "pe - ps \<noteq> 0" "perm AND PTE_U = 0"
    by (simp_all add: map_ok_def k)
  have rng: "in_range virt (pe - ps) b \<longleftrightarrow> in_map k b" for b using in_range_aligned [OF al(1,3,4)] by (simp add: in_map_def k)
  have free: "\<forall>b. in_range virt (pe - ps) b \<longrightarrow> pte pd s b AND PTE_P = 0" using Cons.prems(2) rng by simp
  obtain t Y where t: "mappages pd virt (pe - ps) ps perm s = Ok (0, t)" "extends pd X s Y t"
    "\<forall>b. \<not> in_range virt (pe - ps) b \<longrightarrow> pte pd t b = pte pd s b"
    "\<forall>b. in_range virt (pe - ps) b \<longrightarrow> pte pd t b = (ps + (PGROUNDDOWN b - PGROUNDDOWN virt)) OR perm OR PTE_P"
    by (rule mappages_spec [OF Cons.prems(1) free Cons.prems(4)])
  have nu: "pte pd t b AND PTE_U = 0" if "in_map k b" for b
  proof -
    have "(ps + (PGROUNDDOWN b - PGROUNDDOWN virt)) mod PGSIZE = 0"
      by (rule aligned_plus [OF al(2) aligned_minus [OF rounddown_aligned rounddown_aligned]])
    then show ?thesis using t(4) that rng aligned_no_user al(5) by simp
  qed
  have vt: "vm_ok pd Y t" using t(2) by (simp add: extends_def)
  have "\<exists>u W. map_kernel pd ks t = Ok (pd, u) \<and> extends pd Y t W u \<and> (\<forall>b. (\<forall>k\<in>set ks. \<not> in_map k b) \<longrightarrow> pte pd u b = pte pd t b)
      \<and> (\<forall>b. (\<exists>k\<in>set ks. in_map k b) \<longrightarrow> pte pd u b AND PTE_U = 0)"
  proof (rule Cons.IH [OF vt])
    show "\<forall>k\<in>set ks. map_ok k \<and> (\<forall>b. in_map k b \<longrightarrow> pte pd t b AND PTE_P = 0)"
    proof (intro ballI conjI allI impI)
      fix k' b
      assume k': "k' \<in> set ks" "in_map k' b"
      then have "\<not> in_map k b" using Cons.prems(3) by (metis apart_maps.simps(2))
      then show "pte pd t b AND PTE_P = 0" using t(3) rng k' Cons.prems(2) by simp
    qed (use Cons.prems(2) in simp)
    show "apart_maps ks" using Cons.prems(3) by simp
    show "1024 < card (tables pd t) + length Y" using extends_card [OF t(2) Cons.prems(1)] Cons.prems(4) by simp
  qed
  then obtain u W where u: "map_kernel pd ks t = Ok (pd, u)" "extends pd Y t W u" "\<forall>b. (\<forall>k\<in>set ks. \<not> in_map k b) \<longrightarrow> pte pd u b = pte pd t b"
    "\<forall>b. (\<exists>k\<in>set ks. in_map k b) \<longrightarrow> pte pd u b AND PTE_U = 0" by blast
  have "map_kernel pd (k # ks) s = Ok (pd, u)" using t(1) u(1) by (simp add: k)
  moreover have "pte pd u b = pte pd s b" if "\<forall>k'\<in>set (k # ks). \<not> in_map k' b" for b using that u(3) t(3) rng by simp
  moreover have "pte pd u b AND PTE_U = 0" if "\<exists>k'\<in>set (k # ks). in_map k' b" for b
    using that u(3,4) nu by (cases "\<exists>k'\<in>set ks. in_map k' b") auto
  ultimately show ?case using extends_trans [OF t(2) u(2)] by blast
qed

text \<open>The kernel's data begin behind its text and end below the top of memory.\<close>

definition kdata_ok :: "'a vmst_scheme \<Rightarrow> bool" where
  "kdata_ok s \<longleftrightarrow> kdata s mod PGSIZE = 0 \<and> KERNLINK < kdata s \<and> kdata s < P2V PHYSTOP"

lemma kmap_spec:
  assumes "kdata_ok s"
  shows "\<forall>k\<in>set (kmap s). map_ok k" "apart_maps (kmap s)" "k \<in> set (kmap s) \<Longrightarrow> in_map k b \<Longrightarrow> 2 ^ 31 \<le> unat b"
proof -
  have kd: "kdata s mod PGSIZE = 0" "0x80100000 < unat (kdata s)" "unat (kdata s) < 0x80F00000"
    using assms by (simp_all add: kdata_ok_def KERNLINK_def KERNBASE_def EXTMEM_def P2V_def PHYSTOP_def word_less_nat_alt)
  have m1: "in_map (KERNBASE, 0, EXTMEM, PTE_W) b \<longleftrightarrow> 0x80000000 \<le> unat b \<and> unat b < 0x80100000" for b
    unfolding in_map_def by (simp add: KERNBASE_def EXTMEM_def word_range)
  have d2: "V2P (kdata s) - V2P KERNLINK = kdata s - KERNLINK" by (simp add: V2P_def)
  have u2: "unat (kdata s - KERNLINK) = unat (kdata s) - 0x80100000"
    using kd(2) by (simp add: unat_sub word_le_nat_alt KERNLINK_def KERNBASE_def EXTMEM_def)
  have m2: "in_map (KERNLINK, V2P KERNLINK, V2P (kdata s), 0) b \<longleftrightarrow> 0x80100000 \<le> unat b \<and> unat b < unat (kdata s)" for b
    unfolding in_map_def prod.case d2 using word_range [of KERNLINK "kdata s - KERNLINK" b] u2 kd(2,3)
    by (simp add: KERNLINK_def KERNBASE_def EXTMEM_def)
  have d3: "PHYSTOP - V2P (kdata s) = 0x80F00000 - kdata s" by (simp add: V2P_def PHYSTOP_def KERNBASE_def)
  have u3: "unat (0x80F00000 - kdata s) = 0x80F00000 - unat (kdata s)" using kd(3) by (simp add: unat_sub word_le_nat_alt)
  have m3: "in_map (kdata s, V2P (kdata s), PHYSTOP, PTE_W) b \<longleftrightarrow> unat (kdata s) \<le> unat b \<and> unat b < 0x80F00000" for b
    unfolding in_map_def prod.case d3 using word_range [of "kdata s" "0x80F00000 - kdata s" b] u3 kd(3) by simp
  have m4: "in_map (DEVSPACE, DEVSPACE, 0, PTE_W) b \<longleftrightarrow> 0xFE000000 \<le> unat b" for b
    unfolding in_map_def prod.case using word_range [of DEVSPACE "0 - DEVSPACE" b] unat_u32_less [of b] by (simp add: DEVSPACE_def)
  show "k \<in> set (kmap s) \<Longrightarrow> in_map k b \<Longrightarrow> 2 ^ 31 \<le> unat b"
    using m1 [of b] m2 [of b] m3 [of b] m4 [of b] kd by (auto simp: kmap_def)
  show "apart_maps (kmap s)" using kd unfolding kmap_def by (simp add: m1 m2 m3 m4)
  have "KERNLINK mod PGSIZE = 0" "KERNBASE mod PGSIZE = 0" "DEVSPACE mod PGSIZE = 0" "EXTMEM mod PGSIZE = 0" "(0 :: u32) mod PGSIZE = 0"
    "PHYSTOP mod PGSIZE = 0" by (simp_all add: KERNLINK_def KERNBASE_def DEVSPACE_def EXTMEM_def PGSIZE_def PHYSTOP_def)
  note al = this kd(1)
  have nz: "kdata s - KERNLINK \<noteq> 0" "0x80F00000 - kdata s \<noteq> 0" using kd(2,3) by (auto simp: KERNLINK_def KERNBASE_def EXTMEM_def)
  have "map_ok (KERNBASE, 0, EXTMEM, PTE_W)" "map_ok (DEVSPACE, DEVSPACE, 0, PTE_W)"
    using al aligned_minus [OF al(5,3)] by (simp_all add: map_ok_def PTE_W_def PTE_U_def) (simp_all add: EXTMEM_def DEVSPACE_def)
  moreover have "map_ok (KERNLINK, V2P KERNLINK, V2P (kdata s), 0)"
    using al V2P_aligned aligned_minus [OF al(7) al(1)] nz(1) unfolding map_ok_def prod.case d2 by simp
  moreover have "map_ok (kdata s, V2P (kdata s), PHYSTOP, PTE_W)"
    using al V2P_aligned aligned_minus [OF al(6) V2P_aligned [OF al(7)]] nz(2) unfolding map_ok_def prod.case d3 [symmetric]
    by (simp add: PTE_W_def PTE_U_def)
  ultimately show "\<forall>k\<in>set (kmap s). map_ok k" by (simp add: kmap_def)
qed

lemma setupkvm_spec:
  assumes free: "kmem_free s X" and kd: "kdata_ok s" and room: "1025 < length X"
  obtains d Z Y t where "setupkvm s = Ok (d, t)" "X = d # Z @ Y" "vm_ok d Y t" "tables d t = set Z" "\<forall>b. pte d t b AND PTE_U = 0"
    "\<forall>b. unat b < 2 ^ 31 \<longrightarrow> pte d t b = 0" "agree (insert d (set Z)) s t" "t = s\<lparr>mem := mem t, freelist := freelist t\<rparr>" "d \<noteq> 0"
proof -
  obtain d X1 where X: "X = d # X1" using room by (cases X) auto
  obtain s1 where s1: "kalloc s = (d, s1)" "d \<noteq> 0" "mem s1 = mem s" "kmem_free s1 X1" using kalloc_free [OF free] X by auto
  have s1s: "s1 = s\<lparr>freelist := freelist s1\<rparr>" using s1(1,2) by (auto simp: kalloc_def Let_def split: if_splits)
  let ?z = "zero_pg d s1"
  have d: "d mod PGSIZE = 0" "d \<notin> set X1" using free_aligned [OF free] free X by (simp_all add: kmem_free_def)
  have a1: "agree {d} s ?z" using agree_zero_pg [OF d(1), of s1] s1(3) by (simp add: agree_def)
  have zf: "kmem_free ?z X1"
    by (rule agree_free [OF s1(4) agree_zero_pg [OF d(1)]]) (use d(2) in \<open>simp_all add: zero_pg_def\<close>)
  have none: "table d ?z k = None" if "k < 1024" for k
  proof -
    have "pte_at ?z (entry d k) = 0" using rd32_zero_entry [OF d(1) d(1) that, of "mem s1"] by (simp add: pte_at_def zero_pg_def)
    then show ?thesis by (simp add: table_def)
  qed
  then have ts: "tables d ?z = {}" by (auto simp: tables_def)
  have vm: "vm_ok d X1 ?z" using zf d none by (simp add: vm_ok_def)
  have p0: "pte d ?z b = 0" for b using none [OF PDX_less [of b]] by (simp add: pte_table)
  have km: "kmap s1 = kmap s" by (subst s1s) (simp add: kmap_def)
  note k = kmap_spec [OF kd]
  have "\<exists>t Y. map_kernel d (kmap s) ?z = Ok (d, t) \<and> extends d X1 ?z Y t \<and> (\<forall>b. (\<forall>k\<in>set (kmap s). \<not> in_map k b) \<longrightarrow> pte d t b = pte d ?z b)
      \<and> (\<forall>b. (\<exists>k\<in>set (kmap s). in_map k b) \<longrightarrow> pte d t b AND PTE_U = 0)"
    by (rule map_kernel_spec [OF vm _ k(2)]) (use k(1) p0 X room ts in auto)
  then obtain t Y where t: "map_kernel d (kmap s) ?z = Ok (d, t)" "extends d X1 ?z Y t"
    "\<forall>b. (\<forall>k\<in>set (kmap s). \<not> in_map k b) \<longrightarrow> pte d t b = pte d ?z b" "\<forall>b. (\<exists>k\<in>set (kmap s). in_map k b) \<longrightarrow> pte d t b AND PTE_U = 0" by blast
  obtain Z where Z: "X1 = Z @ Y" "tables d t = set Z" using t(2) ts by (auto simp: extends_def)
  show ?thesis
  proof (rule that)
    have "\<not> P2V PHYSTOP > DEVSPACE" by (simp add: P2V_def PHYSTOP_def DEVSPACE_def KERNBASE_def)
    then show "setupkvm s = Ok (d, t)" using s1(1,2) t(1) km by (simp add: setupkvm_def)
    show "X = d # Z @ Y" "tables d t = set Z" using X Z by simp_all
    show "vm_ok d Y t" using t(2) by (simp add: extends_def)
    show "\<forall>b. pte d t b AND PTE_U = 0" using t(3,4) p0 by (metis and_zero_eq bit.conj_zero_left)
    show "\<forall>b. unat b < 2 ^ 31 \<longrightarrow> pte d t b = 0"
    proof (intro allI impI)
      fix b :: u32
      assume "unat b < 2 ^ 31"
      then have "\<forall>k\<in>set (kmap s). \<not> in_map k b" using k(3) [of _ b] by (auto simp: not_le [symmetric])
      then show "pte d t b = 0" using t(3) p0 by simp
    qed
    have "agree (vpages d t) ?z t" using t(2) by (simp add: extends_def)
    then have "agree ({d} \<union> vpages d t) s t" by (rule agree_trans [OF a1])
    then show "agree (insert d (set Z)) s t" using Z(2) by (simp add: vpages_def)
    have "t = ?z\<lparr>mem := mem t, freelist := freelist t\<rparr>" using t(2) by (simp add: extends_def)
    also have "\<dots> = s1\<lparr>mem := mem t, freelist := freelist t\<rparr>" by (simp add: zero_pg_def)
    also have "\<dots> = s\<lparr>mem := mem t, freelist := freelist t\<rparr>" by (subst s1s) simp
    finally show "t = s\<lparr>mem := mem t, freelist := freelist t\<rparr>" .
    show "d \<noteq> 0" by (rule s1(2))
  qed
qed

section \<open>Copying an address space\<close>

text \<open>An address space that another operation does not touch.\<close>

lemma space_ok_other:
  assumes ok: "space_ok pd X s" and t: "agree S s t" "vpages pd s \<inter> S = {}" and Y: "set Y \<subseteq> set X" "kmem_free t Y"
  shows "space_ok pd Y t"
proof -
  have vm: "vm_ok pd X s" using ok by (simp add: space_ok_def)
  have "vm_ok pd Y t" using vm agree_pte(1) [OF vm t] Y unfolding vm_ok_def by auto
  then show ?thesis using ok Y(1) agree_usr [OF vm t] agree_pte(4) [OF vm t] unfolding space_ok_def by auto
qed

text \<open>The two address spaces are sound and share no page.\<close>

definition two_spaces :: "u32 \<Rightarrow> u32 \<Rightarrow> u32 list \<Rightarrow> 'a kmem_scheme \<Rightarrow> bool" where
  "two_spaces pd d X s \<longleftrightarrow> space_ok pd X s \<and> space_ok d X s \<and> (vpages pd s \<union> frames pd s) \<inter> (vpages d s \<union> frames d s) = {}"

lemma flags_entry:
  assumes "x mod PGSIZE = 0"
  shows "PTE_ADDR (x OR PTE_FLAGS e OR PTE_P) = x" "(x OR PTE_FLAGS e OR PTE_P) AND PTE_P \<noteq> 0"
    "((x OR PTE_FLAGS e OR PTE_P) AND PTE_U \<noteq> 0) = (e AND PTE_U \<noteq> 0)"
proof -
  have "PTE_ADDR (x OR (PTE_FLAGS e OR PTE_P)) = x"
    by (rule pte_addr_flags [OF assms]) (rule bit_word_eqI, auto simp: PTE_FLAGS_def PTE_P_def low_bits bit_simps)
  then show "PTE_ADDR (x OR PTE_FLAGS e OR PTE_P) = x" by (simp add: or.assoc)
  have "bit ((x OR PTE_FLAGS e OR PTE_P) AND PTE_P) 0" by (simp add: PTE_P_def bit_simps)
  then show "(x OR PTE_FLAGS e OR PTE_P) AND PTE_P \<noteq> 0" by auto
  have u: "PTE_U = push_bit 2 1" by (simp add: PTE_U_def)
  have x2: "\<not> bit x 2"
  proof -
    have "bit (take_bit 12 x) 2 = False" using assms by (simp add: aligned_bits)
    then show ?thesis by (simp add: bit_simps)
  qed
  have bt: "(y AND PTE_U \<noteq> 0) = bit y 2" for y :: u32
    using and_exp_eq_0_iff_not_bit [of y 2] by (simp add: PTE_U_def)
  have "bit (x OR PTE_FLAGS e OR PTE_P) 2 = bit e 2" using x2 by (simp add: PTE_FLAGS_def PTE_P_def low_bits bit_simps)
  then show "((x OR PTE_FLAGS e OR PTE_P) AND PTE_U \<noteq> 0) = (e AND PTE_U \<noteq> 0)" unfolding bt .
qed

lemma copy_page:
  assumes two: "two_spaces pd d X s" and i: "i mod PGSIZE = 0" "pte pd s i AND PTE_P \<noteq> 0" "\<forall>b. PGROUNDDOWN b = i \<longrightarrow> pte d s b AND PTE_P = 0"
    and room: "1025 < card (tables d s) + length X"
  obtains t Y where "copy_loop pd d (i # is) s = copy_loop pd d is t" "two_spaces pd d Y t" "\<forall>b. pte pd t b = pte pd s b"
    "\<forall>b. PGROUNDDOWN b \<noteq> i \<longrightarrow> pte d t b = pte d s b" "umem pd t = umem pd s"
    "\<forall>b. umem d t b = (if PGROUNDDOWN b = i then umem pd s b else umem d s b)"
    "card (tables d t) + length Y + 1 = card (tables d s) + length X" "t = s\<lparr>mem := mem t, freelist := freelist t\<rparr>"
proof -
  have okp: "space_ok pd X s" and okd: "space_ok d X s" and sep: "(vpages pd s \<union> frames pd s) \<inter> (vpages d s \<union> frames d s) = {}"
    using two by (simp_all add: two_spaces_def)
  have vp: "vm_ok pd X s" and vd: "vm_ok d X s" using okp okd by (simp_all add: space_ok_def)
  have free: "kmem_free s X" by (rule vm_okD(1) [OF vp])
  have "X \<noteq> []" using room vm_okD(6) [OF vd] by auto
  then obtain pg X1 where X: "X = pg # X1" by (cases X) auto
  obtain s1 where s1: "kalloc s = (pg, s1)" "pg \<noteq> 0" "mem s1 = mem s" "kmem_free s1 X1" using kalloc_free [OF free] X by auto
  have s1s: "s1 = s\<lparr>freelist := freelist s1\<rparr>" using s1(1,2) by (auto simp: kalloc_def Let_def split: if_splits)
  have dist: "pg \<notin> set X1" "pg mod PGSIZE = 0" using free free_aligned [OF free] X by (simp_all add: kmem_free_def)
  let ?e = "pte pd s i"
  let ?f = "frame pd s i"
  let ?s2 = "s1\<lparr>mem := put_bytes pg (page_bytes ?f (mem s1)) (mem s1)\<rparr>"
  have len: "length (page_bytes ?f (mem s1)) = 4096" by (simp add: page_bytes_def)
  have copied: "mem ?s2 (pg + k) = mem s (?f + k)" if "unat k < 4096" for k
    using that len by (simp add: put_bytes_at page_bytes_def s1(3))
  have ag2: "agree {pg} s ?s2"
  proof -
    have "mem ?s2 x = mem s x" if "PGROUNDDOWN x \<noteq> pg" for x
    proof -
      have "\<not> unat (x - pg) < 4096"
      proof
        assume "unat (x - pg) < 4096"
        then have "PGROUNDDOWN (pg + (x - pg)) = pg" by (rule page_of(1) [OF dist(2)])
        then show False using that by simp
      qed
      then show ?thesis using len by (simp add: put_bytes_at s1(3))
    qed
    then show ?thesis by (simp add: agree_def)
  qed
  have pgn: "pg \<notin> vpages pd s" "pg \<notin> vpages d s" "pg \<notin> frames pd s" "pg \<notin> frames d s"
    using vm_okD(3) [OF vp] vm_okD(3) [OF vd] okp okd X by (auto simp: space_ok_def)
  have f1: "kmem_free ?s2 X1"
  proof (rule agree_free [OF s1(4)])
    show "agree {pg} s1 ?s2" using ag2 s1(3) by (simp add: agree_def)
  qed (use dist(1) in simp_all)
  have okd2: "space_ok d X1 ?s2" by (rule space_ok_other [OF okd ag2]) (use pgn X f1 in auto)
  have vd2: "vm_ok d X1 ?s2" using okd2 by (simp add: space_ok_def)
  have dd: "vpages d s \<inter> {pg} = {}" "vpages pd s \<inter> {pg} = {}" using pgn by simp_all
  note same2 = agree_pte(2-4) [OF vd ag2 dd(1)]
  have rng: "in_range i PGSIZE b \<longleftrightarrow> PGROUNDDOWN b = i" for b
  proof -
    have "in_range i PGSIZE b \<longleftrightarrow> b - i < PGSIZE" by (rule in_range_aligned [OF i(1)]) (simp_all add: PGSIZE_def)
    also have "\<dots> \<longleftrightarrow> unat (b - i) < 4096" by (simp add: word_less_nat_alt PGSIZE_def)
    also have "\<dots> \<longleftrightarrow> PGROUNDDOWN b = i"
    proof
      assume "unat (b - i) < 4096"
      then have "PGROUNDDOWN (i + (b - i)) = i" by (rule page_of(1) [OF i(1)])
      then show "PGROUNDDOWN b = i" by simp
    next
      assume "PGROUNDDOWN b = i"
      then have "b - i = b AND 0xFFF" using PGROUNDDOWN_offset [of b] by simp
      then show "unat (b - i) < 4096" by (simp add: page_offset_unat)
    qed
    finally show ?thesis .
  qed
  have nofree: "\<forall>b. in_range i PGSIZE b \<longrightarrow> pte d ?s2 b AND PTE_P = 0" using i(3) rng same2(1) by simp
  have room2: "1024 < card (tables d ?s2) + length X1" using room X same2(2) by simp
  obtain t Y where t: "mappages d i PGSIZE (V2P pg) (PTE_FLAGS ?e) ?s2 = Ok (0, t)" "extends d X1 ?s2 Y t"
    "\<forall>b. \<not> in_range i PGSIZE b \<longrightarrow> pte d t b = pte d ?s2 b"
    "\<forall>b. in_range i PGSIZE b \<longrightarrow> pte d t b = (V2P pg + (PGROUNDDOWN b - PGROUNDDOWN i)) OR PTE_FLAGS ?e OR PTE_P"
    by (rule mappages_spec [OF vd2 nofree room2])
  obtain Z where Z: "X1 = Z @ Y" "tables d t = tables d s \<union> set Z" using t(2) same2(2) by (auto simp: extends_def)
  have vt: "vpages d t = vpages d s \<union> set Z" using Z(2) by (auto simp: vpages_def)
  have pts: "pte d t b = pte d s b" if "PGROUNDDOWN b \<noteq> i" for b using t(3) rng that same2(1) by simp
  have pti: "pte d t b = V2P pg OR PTE_FLAGS ?e OR PTE_P" if "PGROUNDDOWN b = i" for b
    using t(4) rng that aligned_rounddown [OF i(1)] by simp
  note fl = flags_entry [OF V2P_aligned [OF dist(2)], of ?e]
  have ui: "usr d t b = usr pd s b" "frame d t b = pg" "frame pd s b = ?f" if b: "PGROUNDDOWN b = i" for b
  proof -
    have e: "pte pd s b = ?e" using pte_page [of b i pd s] b aligned_rounddown [OF i(1)] by simp
    show "usr d t b = usr pd s b" "frame d t b = pg" "frame pd s b = ?f"
      using fl pti [OF b] e i(2) by (simp_all add: usr_def frame_def)
  qed
  have uo: "usr d t b = usr d s b" "frame d t b = frame d s b" if "PGROUNDDOWN b \<noteq> i" for b
    using pts [OF that] by (simp_all add: usr_def frame_def)
  have ft: "frames d t \<subseteq> insert pg (frames d s)"
  proof
    fix x
    assume "x \<in> frames d t"
    then obtain a where "usr d t a" "x = frame d t a" by (auto simp: frames_def)
    then show "x \<in> insert pg (frames d s)" using ui(2) [of a] uo [of a] by (cases "PGROUNDDOWN a = i") (auto simp: frames_def)
  qed
  have agt: "agree (vpages d t) ?s2 t" using t(2) by (simp add: extends_def)
  have ag: "agree ({pg} \<union> vpages d t) s t" by (rule agree_trans [OF ag2 agt])
  have Zd: "set Z \<subseteq> set X" "set Y \<subseteq> set X" "pg \<notin> set Z" "pg \<notin> set Y" "set Z \<inter> set Y = {}"
    using Z(1) X dist(1) free by (auto simp: kmem_free_def)
  have frd: "frames pd s \<inter> set X = {}" "frames d s \<inter> set X = {}" "frames d s \<inter> vpages d s = {}" "0 \<notin> frames d s"
    using okp okd by (simp_all add: space_ok_def)
  have vX: "vpages pd s \<inter> set X = {}" "vpages d s \<inter> set X = {}" using vm_okD(3) vp vd by blast+
  have sp: "vpages pd s \<inter> ({pg} \<union> vpages d t) = {}" "frames pd s \<inter> ({pg} \<union> vpages d t) = {}"
    using sep vt vX(1) frd(1) Zd(1) pgn(1,3) by auto
  have kf: "kmem_free t Y" using t(2) by (auto simp: extends_def vm_ok_def)
  have okp': "space_ok pd Y t" by (rule space_ok_other [OF okp ag sp(1) Zd(2) kf])
  have "frames d t \<inter> set Y = {}" using ft frd(2) Zd(2,4) by auto
  moreover have "frames d t \<inter> vpages d t = {}" using ft frd(2,3) vt Zd(1,3) pgn(2) by auto
  moreover have "0 \<notin> frames d t" using ft frd(4) s1(2) by auto
  moreover have "PGROUNDDOWN a = PGROUNDDOWN b" if u: "usr d t a" "usr d t b" "frame d t a = frame d t b" for a b
  proof (cases "PGROUNDDOWN a = i"; cases "PGROUNDDOWN b = i")
    assume h: "PGROUNDDOWN a = i" "PGROUNDDOWN b \<noteq> i"
    then have "pg \<in> frames d s" using u ui(2) [OF h(1)] uo [OF h(2)] by (auto simp: frames_def)
    then show ?thesis using pgn(4) by simp
  next
    assume h: "PGROUNDDOWN a \<noteq> i" "PGROUNDDOWN b = i"
    then have "pg \<in> frames d s" using u ui(2) [OF h(2)] uo [OF h(1)] by (auto simp: frames_def)
    then show ?thesis using pgn(4) by simp
  next
    assume h: "PGROUNDDOWN a \<noteq> i" "PGROUNDDOWN b \<noteq> i"
    then have "usr d s a" "usr d s b" "frame d s a = frame d s b" using u uo by simp_all
    then show ?thesis using okd unfolding space_ok_def by blast
  qed simp
  ultimately have okd': "space_ok d Y t" using t(2) unfolding space_ok_def extends_def by blast
  have fp: "frames pd t = frames pd s" "vpages pd t = vpages pd s" "pte pd t b = pte pd s b" for b
    using agree_usr(3) [OF vp ag sp(1)] agree_pte(2,4) [OF vp ag sp(1)] by blast+
  have "(vpages pd t \<union> frames pd t) \<inter> (vpages d t \<union> frames d t) = {}"
    unfolding fp(1,2) using sp ft sep pgn by blast
  then have two': "two_spaces pd d Y t" using okp' okd' by (simp add: two_spaces_def)
  have um: "umem pd t = umem pd s" by (rule agree_umem [OF vp ag sp])
  have cd: "umem d t b = (if PGROUNDDOWN b = i then umem pd s b else umem d s b)" for b
  proof (cases "PGROUNDDOWN b = i")
    case True
    have o: "unat (b AND 0xFFF) < 4096" by (simp add: page_offset_unat)
    have "PGROUNDDOWN (pg + (b AND 0xFFF)) = pg" by (rule page_of(1) [OF dist(2) o])
    moreover have "pg \<notin> vpages d t" using vt pgn(2) Zd(3) by simp
    ultimately have "mem t (pg + (b AND 0xFFF)) = mem ?s2 (pg + (b AND 0xFFF))" using agt by (simp add: agree_def)
    then show ?thesis using True ui [OF True] copied [OF o] by (simp add: umem_def)
  next
    case False
    have "mem t (frame d s b + (b AND 0xFFF)) = mem s (frame d s b + (b AND 0xFFF))" if "usr d s b"
    proof -
      have "frame d s b \<in> frames d s" using that by (auto simp: frames_def)
      then have "frame d s b \<notin> {pg} \<union> vpages d t" using pgn(4) vt frd(2,3) Zd(1) by auto
      then show ?thesis using ag umem_frame [of d s b b] by (simp add: agree_def)
    qed
    then show ?thesis using False uo [OF False] by (simp add: umem_def)
  qed
  have cardt: "card (tables d t) + length Y + 1 = card (tables d s) + length X"
    using extends_card [OF t(2) vd2] same2(2) X by simp
  have rec: "t = s\<lparr>mem := mem t, freelist := freelist t\<rparr>"
  proof -
    have "t = ?s2\<lparr>mem := mem t, freelist := freelist t\<rparr>" using t(2) by (simp add: extends_def)
    also have "\<dots> = s1\<lparr>mem := mem t, freelist := freelist t\<rparr>" by simp
    also have "\<dots> = s\<lparr>mem := mem t, freelist := freelist t\<rparr>" by (subst s1s) simp
    finally show ?thesis .
  qed
  have "copy_loop pd d (i # is) s = copy_loop pd d is t"
  proof -
    obtain x where x: "table pd s (unat (PDX i)) = Some x" using i(2) by (cases "table pd s (unat (PDX i))") (auto simp: pte_table)
    then have "lookup pd i s = Some (entry x (unat (PTX i)))" "pte_at s (entry x (unat (PTX i))) = ?e"
      by (simp_all add: walk_table pte_table)
    then show ?thesis using i(2) s1(1,2) t(1) by (simp add: frame_def Let_def)
  qed
  then show ?thesis using that two' fp(3) pts um cd cardt rec by blast
qed

lemma copy_loop_spec:
  "two_spaces pd d X s \<Longrightarrow> \<forall>i\<in>set is. i mod PGSIZE = 0 \<and> pte pd s i AND PTE_P \<noteq> 0 \<Longrightarrow> \<forall>b. PGROUNDDOWN b \<in> set is \<longrightarrow> pte d s b AND PTE_P = 0
    \<Longrightarrow> distinct is \<Longrightarrow> 1024 + length is < card (tables d s) + length X
    \<Longrightarrow> \<exists>t Y. copy_loop pd d is s = Ok (True, t) \<and> two_spaces pd d Y t \<and> umem pd t = umem pd s
      \<and> (\<forall>b. umem d t b = (if PGROUNDDOWN b \<in> set is then umem pd s b else umem d s b))
      \<and> t = s\<lparr>mem := mem t, freelist := freelist t\<rparr>"
proof (induction "is" arbitrary: s X)
  case Nil
  then show ?case by auto
next
  case (Cons i "is")
  have i: "i mod PGSIZE = 0" "pte pd s i AND PTE_P \<noteq> 0" "\<forall>b. PGROUNDDOWN b = i \<longrightarrow> pte d s b AND PTE_P = 0" "1025 < card (tables d s) + length X"
    using Cons.prems(2,3,5) by simp_all
  obtain t Y where t: "copy_loop pd d (i # is) s = copy_loop pd d is t" "two_spaces pd d Y t" "\<forall>b. pte pd t b = pte pd s b"
    "\<forall>b. PGROUNDDOWN b \<noteq> i \<longrightarrow> pte d t b = pte d s b" "umem pd t = umem pd s"
    "\<forall>b. umem d t b = (if PGROUNDDOWN b = i then umem pd s b else umem d s b)"
    "card (tables d t) + length Y + 1 = card (tables d s) + length X" "t = s\<lparr>mem := mem t, freelist := freelist t\<rparr>"
    by (rule copy_page [OF Cons.prems(1) i])
  have "\<exists>u W. copy_loop pd d is t = Ok (True, u) \<and> two_spaces pd d W u \<and> umem pd u = umem pd t
      \<and> (\<forall>b. umem d u b = (if PGROUNDDOWN b \<in> set is then umem pd t b else umem d t b)) \<and> u = t\<lparr>mem := mem u, freelist := freelist u\<rparr>"
  proof (rule Cons.IH [OF t(2)])
    show "\<forall>i\<in>set is. i mod PGSIZE = 0 \<and> pte pd t i AND PTE_P \<noteq> 0" using Cons.prems(2) t(3) by simp
    show "\<forall>b. PGROUNDDOWN b \<in> set is \<longrightarrow> pte d t b AND PTE_P = 0" using Cons.prems(3,4) t(4) by (metis distinct.simps(2) list.set_intros(2))
    show "1024 + length is < card (tables d t) + length Y" using Cons.prems(5) t(7) by simp
  qed (use Cons.prems(4) in simp)
  then obtain u W where u: "copy_loop pd d is t = Ok (True, u)" "two_spaces pd d W u" "umem pd u = umem pd t"
    "\<forall>b. umem d u b = (if PGROUNDDOWN b \<in> set is then umem pd t b else umem d t b)" "u = t\<lparr>mem := mem u, freelist := freelist u\<rparr>" by blast
  have "u = s\<lparr>mem := mem u, freelist := freelist u\<rparr>"
  proof -
    have "u = s\<lparr>mem := mem t, freelist := freelist t\<rparr>\<lparr>mem := mem u, freelist := freelist u\<rparr>" using u(5) t(8) by metis
    then show ?thesis by simp
  qed
  moreover have "umem d u b = (if PGROUNDDOWN b \<in> set (i # is) then umem pd s b else umem d s b)" for b
    using u(4) t(5,6) by simp
  moreover have "copy_loop pd d (i # is) s = Ok (True, u)" using t(1) u(1) by (simp only:)
  moreover have "umem pd u = umem pd s" using u(3) t(5) by simp
  ultimately show ?case using u(2) by blast
qed

section \<open>A process with one page\<close>

text \<open>Any set of pages can be made the free list.\<close>

fun free_pages :: "u32 list \<Rightarrow> 'a kmem_scheme \<Rightarrow> 'a kmem_scheme" where
  "free_pages [] s = s"
| "free_pages (x # xs) s = (let t = free_pages xs s in case kfree x t of Ok u \<Rightarrow> u | _ \<Rightarrow> t)"

lemma free_pages:
  "kmem_free s [] \<Longrightarrow> distinct xs \<Longrightarrow> \<forall>x\<in>set xs. page_ok s x
    \<Longrightarrow> kmem_free (free_pages xs s) xs \<and> agree (set xs) s (free_pages xs s)
        \<and> free_pages xs s = s\<lparr>mem := mem (free_pages xs s), freelist := freelist (free_pages xs s)\<rparr>"
proof (induction xs)
  case Nil
  then show ?case by simp
next
  case (Cons x xs)
  define t where "t = free_pages xs s"
  have t: "kmem_free t xs" "agree (set xs) s t" "t = s\<lparr>mem := mem t, freelist := freelist t\<rparr>" using Cons by (simp_all add: t_def)
  have "kend t = kend s" by (subst t(3)) simp
  then have x: "page_ok t x" "x \<notin> set xs" using Cons.prems(2,3) by (simp_all add: page_ok_def)
  obtain u where u: "kfree x t = Ok u" "kmem_free u (x # xs)" using kfree_free [OF t(1) x] by blast
  then have uu: "u = t\<lparr>mem := wr32 (memset (mem t) x 1 PGSIZE) x (freelist t), freelist := x\<rparr>"
    by (auto simp: kfree_def Let_def split: if_splits)
  have xa: "x mod PGSIZE = 0" using x(1) by (simp add: page_ok_def)
  have "agree {x} t u"
    unfolding agree_def
  proof (intro allI impI)
    fix y
    assume "PGROUNDDOWN y \<notin> {x}"
    moreover have "PGROUNDDOWN (x + (y - x)) = x" if "unat (y - x) < 4096" by (rule page_of(1) [OF xa that])
    ultimately have "\<not> unat (y - x) < 4096" by auto
    then show "mem u y = mem t y" by (simp add: uu kfree_memory)
  qed
  then have "agree (set xs \<union> {x}) s u" using agree_trans [OF t(2)] by blast
  moreover have "u = s\<lparr>mem := mem u, freelist := freelist u\<rparr>"
  proof -
    have "u = t\<lparr>mem := mem u, freelist := freelist u\<rparr>" by (simp add: uu)
    then have "u = s\<lparr>mem := mem t, freelist := freelist t\<rparr>\<lparr>mem := mem u, freelist := freelist u\<rparr>" using t(3) by metis
    then show ?thesis by simp
  qed
  moreover have "free_pages (x # xs) s = u" using u(1) by (simp add: t_def)
  ultimately show ?case using u(2) by simp
qed

text \<open>
  The page directory is at \<open>0x80400000\<close>, its only table in the next page, and the one page of the process, with the byte 42 at
  address 5, behind that; 1100 pages are free.
\<close>

definition one_page_pd :: u32 where "one_page_pd = 0x80400000"

definition one_page_mem :: memory where
  "one_page_mem = (wr32 (wr32 (\<lambda>_. 0) (entry one_page_pd 0) 0x00401007) (entry 0x80401000 0) 0x00402007) (0x80402005 := 42)"

definition one_page :: vmst where
  "one_page = free_pages (page_run 0x80500000 1100) (vm0\<lparr>mem := one_page_mem, kdata := 0x80108000\<rparr>)"

lemma free_run:
  assumes "x \<in> set (page_run 0x80500000 1100)"
  shows "x mod PGSIZE = 0" "0x80500000 \<le> x" "x < 0x8094C000"
proof -
  obtain i where i: "i < 1100" "x = 0x80500000 + of_nat i * PGSIZE" using assms by (auto simp: page_run_def)
  have u: "unat x = 0x80500000 + 4096 * i" using i unat_pages [where k = i] by (simp add: unat_word_ariths)
  show "0x80500000 \<le> x" "x < 0x8094C000" using u i(1) by (simp_all add: word_le_nat_alt word_less_nat_alt)
  have "unat x mod 4096 = 0" using u by (simp add: mod_add_eq [symmetric])
  then show "x mod PGSIZE = 0" unfolding PGSIZE_def by (simp add: word_unat_eq_iff unat_mod)
qed

lemma one_page_start:
  "kmem_free one_page (page_run 0x80500000 1100)" "agree (set (page_run 0x80500000 1100)) (vm0\<lparr>mem := one_page_mem\<rparr>) one_page"
  "kdata one_page = 0x80108000"
proof -
  let ?s = "vm0\<lparr>mem := one_page_mem, kdata := 0x80108000\<rparr>"
  have k: "kend ?s = 0x80115000" "freelist ?s = 0" by (simp_all add: vm0_def ftab0_def vmst.defs ftab.defs cons0_defs)
  have "kmem_free ?s []" using k by (simp add: kmem_free_def)
  moreover have "distinct (page_run 0x80500000 1100)"
    unfolding page_run_def distinct_map
  proof (intro conjI inj_onI)
    fix i j :: nat
    assume ij: "i \<in> set [0..<1100]" "j \<in> set [0..<1100]" "0x80500000 + of_nat i * PGSIZE = 0x80500000 + of_nat j * PGSIZE"
    have "4096 * i = unat (of_nat i * PGSIZE)" using unat_pages [where k = i] ij(1) by simp
    also have "of_nat i * PGSIZE = of_nat j * PGSIZE" using ij(3) by simp
    also have "unat (of_nat j * PGSIZE) = 4096 * j" using unat_pages [where k = j] ij(2) by simp
    finally show "i = j" by simp
  qed simp
  moreover have "page_ok ?s x" if "x \<in> set (page_run 0x80500000 1100)" for x
  proof -
    note f = free_run [OF that]
    have "unat x < 0x8094C000" "0x80500000 \<le> unat x" using f(2,3) by (simp_all add: word_le_nat_alt word_less_nat_alt)
    then have "unat (V2P x) < 0x94C000" by (simp add: V2P_def KERNBASE_def unat_sub word_le_nat_alt)
    then show ?thesis using f k by (simp add: page_ok_def PHYSTOP_def word_le_nat_alt word_less_nat_alt)
  qed
  ultimately have F: "kmem_free one_page (page_run 0x80500000 1100)" "agree (set (page_run 0x80500000 1100)) ?s one_page"
    "one_page = ?s\<lparr>mem := mem one_page, freelist := freelist one_page\<rparr>"
    using free_pages [of ?s "page_run 0x80500000 1100"] unfolding one_page_def by blast+
  show "kmem_free one_page (page_run 0x80500000 1100)" by (rule F(1))
  show "agree (set (page_run 0x80500000 1100)) (vm0\<lparr>mem := one_page_mem\<rparr>) one_page" using F(2) by (simp add: agree_def)
  show "kdata one_page = 0x80108000" by (subst F(3)) simp
qed

lemma one_page_entry:
  assumes "y \<in> {one_page_pd, 0x80401000}" "k < 1024"
  shows "pte_at one_page (entry y k) = (if k = 0 then if y = one_page_pd then 0x00401007 else 0x00402007 else 0)"
proof -
  have al: "y mod PGSIZE = 0" "one_page_pd mod PGSIZE = 0" "(0x80401000 :: u32) mod PGSIZE = 0"
    using assms(1) by (auto simp: one_page_pd_def PGSIZE_def)
  have "y \<notin> set (page_run 0x80500000 1100)" using assms(1) free_run(2) [of y] by (auto simp: one_page_pd_def)
  then have "pte_at one_page (entry y k) = pte_at (vm0\<lparr>mem := one_page_mem\<rparr>) (entry y k)"
    by (rule agree_entry [OF one_page_start(2) al(1) _ assms(2)])
  also have "\<dots> = pte_at (vm0\<lparr>mem := wr32 (wr32 (\<lambda>_. 0) (entry one_page_pd 0) 0x00401007) (entry 0x80401000 0) 0x00402007\<rparr>) (entry y k)"
  proof (rule agree_entry [OF _ al(1) _ assms(2)])
    have "PGROUNDDOWN (0x80402005 :: u32) = 0x80402000" by (simp add: PGROUNDDOWN_def PGSIZE_def)
    then show "agree {0x80402000} (vm0\<lparr>mem := wr32 (wr32 (\<lambda>_. 0) (entry one_page_pd 0) 0x00401007) (entry 0x80401000 0) 0x00402007\<rparr>)
      (vm0\<lparr>mem := one_page_mem\<rparr>)" by (auto simp: agree_def one_page_mem_def)
    show "y \<notin> {0x80402000}" using assms(1) by (auto simp: one_page_pd_def)
  qed
  also have "\<dots> = (if k = 0 then if y = one_page_pd then 0x00401007 else 0x00402007 else 0)"
    using assms al rd32_wr32_entry [of "0x80401000" 0 y k] rd32_wr32_entry [of one_page_pd 0 y k]
    by (auto simp: pte_at_def one_page_pd_def rd32_def)
  finally show ?thesis .
qed

lemma one_page_tables:
  "k < 1024 \<Longrightarrow> table one_page_pd one_page k = (if k = 0 then Some 0x80401000 else None)"
  using one_page_entry [of one_page_pd k]
  by (simp add: table_def PTE_P_def PTE_ADDR_def P2V_def KERNBASE_def)

lemma one_page_pte: "pte one_page_pd one_page a = (if PGROUNDDOWN a = 0 then 0x00402007 else 0)"
proof -
  have "PGROUNDDOWN a = 0 \<longleftrightarrow> PDX a = 0 \<and> PTX a = 0" using same_entry [of a 0] by (simp add: PGROUNDDOWN_def PDX_def PTX_def)
  then have "PGROUNDDOWN a = 0 \<longleftrightarrow> unat (PDX a) = 0 \<and> unat (PTX a) = 0" by (simp only: unat_eq_0)
  then show ?thesis
    using one_page_tables [OF PDX_less [of a]] one_page_entry [OF _ PTX_less [of a], of "0x80401000"]
    by (auto simp: pte_table one_page_pd_def)
qed

lemma one_page_view:
  "usr one_page_pd one_page a \<longleftrightarrow> PGROUNDDOWN a = 0" "PGROUNDDOWN a = 0 \<Longrightarrow> frame one_page_pd one_page a = 0x80402000"
  "vpages one_page_pd one_page = {0x80400000, 0x80401000}" "frames one_page_pd one_page \<subseteq> {0x80402000}"
proof -
  show u: "usr one_page_pd one_page a \<longleftrightarrow> PGROUNDDOWN a = 0" for a by (simp add: usr_def one_page_pte PTE_P_def PTE_U_def)
  show f: "PGROUNDDOWN a = 0 \<Longrightarrow> frame one_page_pd one_page a = 0x80402000" for a
    by (simp add: frame_def one_page_pte PTE_ADDR_def P2V_def KERNBASE_def)
  show "frames one_page_pd one_page \<subseteq> {0x80402000}" using u f by (auto simp: frames_def)
  have "tables one_page_pd one_page = {0x80401000}" using one_page_tables by (auto simp: tables_def split: if_splits intro: exI [of _ 0])
  then show "vpages one_page_pd one_page = {0x80400000, 0x80401000}" by (simp add: vpages_def one_page_pd_def)
qed

lemma one_page_ok: "space_ok one_page_pd (page_run 0x80500000 1100) one_page" "kdata_ok one_page"
proof -
  have x: "x \<notin> set (page_run 0x80500000 1100)" if "x \<le> 0x80402000" for x
  proof
    assume "x \<in> set (page_run 0x80500000 1100)"
    then have "0x80500000 \<le> x" by (rule free_run(2))
    then show False using that by (simp add: word_le_nat_alt)
  qed
  have "vm_ok one_page_pd (page_run 0x80500000 1100) one_page"
    unfolding vm_ok_def using one_page_start(1) one_page_tables x [of one_page_pd] x [of "0x80401000"]
    by (auto simp: one_page_pd_def PGSIZE_def split: if_splits)
  then show "space_ok one_page_pd (page_run 0x80500000 1100) one_page"
    using one_page_view x [of "0x80402000"] by (auto simp: space_ok_def)
  show "kdata_ok one_page" using one_page_start(3) by (simp add: kdata_ok_def PGSIZE_def KERNLINK_def KERNBASE_def EXTMEM_def P2V_def PHYSTOP_def)
qed

lemma one_page_umem: "umem one_page_pd one_page 5 = Some 42" "umem one_page_pd one_page 4096 = None"
proof -
  have p: "PGROUNDDOWN 5 = 0" "PGROUNDDOWN 4096 = 4096" "PGROUNDDOWN 0x80402005 = 0x80402000" by (simp_all add: PGROUNDDOWN_def PGSIZE_def)
  have "0x80402000 \<notin> set (page_run 0x80500000 1100)" using free_run(2) [of "0x80402000"] by auto
  then have "mem one_page 0x80402005 = 42" using one_page_start(2) p(3) by (simp add: agree_def one_page_mem_def)
  then show "umem one_page_pd one_page 5 = Some 42" using one_page_view p(1) by (simp add: umem_def)
  show "umem one_page_pd one_page 4096 = None" using one_page_view(1) p(2) by (simp add: umem_def)
qed

section \<open>Properties\<close>

text \<open>
  C10: \<open>copyout\<close> is an update of the process's memory. Let \<open>q\<close> bytes of the destination lie in the process's pages and the one
  behind them not. The first \<open>q\<close> bytes are stored, every other byte of the process keeps its value, no mapping changes, and
  an address space that shares no page with this one keeps all its bytes; the result is 0 if that was everything and -1
  otherwise. Only where even the page table is missing, the kernel follows a null pointer.
\<close>

theorem copyout_writes:
  assumes "space_ok pd X s" and "unat a + length buf \<le> 2 ^ 32" and "q \<le> length buf" and "\<forall>k<q. usr pd s (a + of_nat k)"
    and "q < length buf \<longrightarrow> \<not> usr pd s (a + of_nat q)"
  shows "if q < length buf \<and> lookup pd (a + of_nat q) s = None then copyout pd a buf s = NullDeref
     else \<exists>t. copyout pd a buf s = Ok (if q = length buf then 0 else - 1, t) \<and> space_ok pd X t \<and> (\<forall>b. pte pd t b = pte pd s b)
       \<and> (\<forall>b. umem pd t b = (if unat a \<le> unat b \<and> unat b < unat a + q then Some (buf ! (unat b - unat a)) else umem pd s b))
       \<and> (\<forall>p Y. space_ok p Y s \<and> (vpages p s \<union> frames p s) \<inter> frames pd s = {} \<longrightarrow> umem p t = umem p s)"
proof -
  have l: "lookup pd b s = None \<longleftrightarrow> table pd s (unat (PDX b)) = None" for b by (simp add: walk_table split: option.split)
  have o: "umem p t = umem p s"
    if "agree (frames pd s) s t" "space_ok p Y s" "(vpages p s \<union> frames p s) \<inter> frames pd s = {}" for t p Y
    using agree_umem [of p Y s "frames pd s" t] that by (auto simp: space_ok_def)
  show ?thesis unfolding l using copyout_spec [OF assms] o by (auto split: if_splits)
qed

theorem copyout_writes_witness:
  "\<exists>t. copyout one_page_pd 4094 [7, 8, 9] one_page = Ok (- 1, t) \<and> umem one_page_pd t 4095 = Some 8 \<and> umem one_page_pd t 5 = Some 42
     \<and> umem one_page_pd t 4096 = None"
proof -
  have p: "PGROUNDDOWN 4094 = 0" "PGROUNDDOWN 4095 = 0" "PGROUNDDOWN 4096 = 4096" by (simp_all add: PGROUNDDOWN_def PGSIZE_def)
  have u: "usr one_page_pd one_page (4094 + of_nat k)" if "k < 2" for k
    using that p one_page_view(1) by (cases k) (auto simp: less_Suc_eq numeral_2_eq_2)
  have "lookup one_page_pd 4096 one_page \<noteq> None"
    using one_page_tables [of 0] by (simp add: walk_table PDX_def)
  then obtain t where "copyout one_page_pd 4094 [7, 8, 9] one_page = Ok (- 1, t)"
    "\<forall>b. umem one_page_pd t b = (if 4094 \<le> unat b \<and> unat b < 4094 + 2 then Some ([7, 8, 9] ! (unat b - 4094)) else umem one_page_pd one_page b)"
    using copyout_writes [OF one_page_ok(1), of 4094 "[7, 8, 9]" 2] u one_page_view(1) [of 4096] p by auto
  then show ?thesis using one_page_umem by simp
qed

text \<open>
  C9: \<open>fork\<close> copies the address space. When every page below \<open>n\<close> is in memory and enough pages are free, \<open>copyuvm\<close> returns a
  new page directory in which every user address in the pages below \<open>n\<close> has the parent's byte, or is inaccessible as it is
  for the parent, and every other address is inaccessible; the parent's memory is as it was, and parent and child
  share no page.
\<close>

theorem copyuvm_copies:
  assumes ok: "space_ok pd X s" and kd: "kdata_ok s" and n: "n \<le> KERNBASE" and present: "\<forall>b<n. pte pd s b AND PTE_P \<noteq> 0"
    and room: "1025 + (unat n + 4095) div 4096 < length X"
  shows "\<exists>d t Y. copyuvm pd n s = Ok (d, t) \<and> d \<noteq> 0 \<and> two_spaces pd d Y t \<and> umem pd t = umem pd s
     \<and> (\<forall>b. umem d t b = (if PGROUNDDOWN b < n then umem pd s b else None)) \<and> t = s\<lparr>mem := mem t, freelist := freelist t\<rparr>"
proof -
  have vm: "vm_ok pd X s" using ok by (simp add: space_ok_def)
  have "1025 < length X" using room by simp
  then obtain d Z Y t where t: "setupkvm s = Ok (d, t)" "X = d # Z @ Y" "vm_ok d Y t" "tables d t = set Z" "\<forall>b. pte d t b AND PTE_U = 0"
    "\<forall>b. unat b < 2 ^ 31 \<longrightarrow> pte d t b = 0" "agree (insert d (set Z)) s t" "t = s\<lparr>mem := mem t, freelist := freelist t\<rparr>" "d \<noteq> 0"
    by (rule setupkvm_spec [OF vm_okD(1) [OF vm] kd])
  have vX: "vpages pd s \<inter> set X = {}" "frames pd s \<inter> set X = {}" using vm_okD(3) [OF vm] ok by (simp_all add: space_ok_def)
  have sep: "vpages pd s \<inter> insert d (set Z) = {}" "frames pd s \<inter> insert d (set Z) = {}" using vX t(2) by auto
  have okp: "space_ok pd Y t" by (rule space_ok_other [OF ok t(7) sep(1)]) (use t(2,3) in \<open>auto simp: vm_ok_def\<close>)
  have nou: "usr d t b = False" for b using t(5) by (simp add: usr_def)
  have fd: "frames d t = {}" using nou by (simp add: frames_def)
  have okd: "space_ok d Y t" using t(3) nou fd by (simp add: space_ok_def)
  have "vpages pd t = vpages pd s" "frames pd t = frames pd s"
    using agree_pte(4) [OF vm t(7) sep(1)] agree_usr(3) [OF vm t(7) sep(1)] by blast+
  then have two: "two_spaces pd d Y t" using okp okd fd sep t(4) by (auto simp: two_spaces_def vpages_def)
  have um: "umem pd t = umem pd s" by (rule agree_umem [OF vm t(7) sep])
  have pt: "pte pd t b = pte pd s b" for b by (rule agree_pte(2) [OF vm t(7) sep(1)])
  let ?N = "(unat n + 4095) div 4096"
  have n31: "unat n \<le> 2 ^ 31" using n by (simp add: word_le_nat_alt KERNBASE_def)
  then have N: "?N \<le> 2 ^ 19" by simp
  have pg: "unat (of_nat k * PGSIZE) = 4096 * k" if "k < ?N" for k using that N by (intro unat_pages) simp
  have lt: "4096 * k < unat n \<longleftrightarrow> k < ?N" for k using less_eq_div_iff_mult_less_eq [of 4096 "Suc k" "unat n + 4095"] by (auto simp: Suc_le_eq mult.commute)
  have range: "page_range 0 n = map (\<lambda>k. of_nat k * PGSIZE) [0..<?N]" by (simp add: page_range_def)
  have below: "PGROUNDDOWN b \<in> set (page_range 0 n) \<longleftrightarrow> PGROUNDDOWN b < n" for b
  proof
    assume "PGROUNDDOWN b \<in> set (page_range 0 n)"
    then obtain k where "k < ?N" "PGROUNDDOWN b = of_nat k * PGSIZE" by (auto simp: range)
    then show "PGROUNDDOWN b < n" using pg [of k] lt [of k] by (simp add: word_less_nat_alt)
  next
    assume l: "PGROUNDDOWN b < n"
    obtain k where k: "unat (PGROUNDDOWN b) = 4096 * k" using aligned_dest [OF rounddown_aligned] by blast
    then have kN: "k < ?N" using l lt [of k] by (simp add: word_less_nat_alt)
    then have "PGROUNDDOWN b = of_nat k * PGSIZE" using pg [OF kN] k by (simp add: word_unat_eq_iff)
    then show "PGROUNDDOWN b \<in> set (page_range 0 n)" using kN by (auto simp: range)
  qed
  have pages: "i mod PGSIZE = 0 \<and> pte pd t i AND PTE_P \<noteq> 0" if i: "i \<in> set (page_range 0 n)" for i
  proof -
    obtain k where k: "k < ?N" "i = of_nat k * PGSIZE" using i by (auto simp: range)
    have "i mod PGSIZE = 0" using next_aligned [of 0 k] k(2) by simp
    moreover have "i < n" using pg [OF k(1)] lt [of k] k by (simp add: word_less_nat_alt)
    ultimately show ?thesis using present pt by simp
  qed
  have free: "pte d t b AND PTE_P = 0" if "PGROUNDDOWN b \<in> set (page_range 0 n)" for b
  proof -
    have "unat (PGROUNDDOWN b) < 2 ^ 31" using that below n31 by (simp add: word_less_nat_alt)
    then have "pte d t (PGROUNDDOWN b) = 0" using t(6) by simp
    then show ?thesis using pte_page [of b "PGROUNDDOWN b" d t] aligned_rounddown [OF rounddown_aligned] by simp
  qed
  have "distinct (page_range 0 n)" unfolding range distinct_map
  proof (intro conjI inj_onI)
    fix j k
    assume jk: "j \<in> set [0..<?N]" "k \<in> set [0..<?N]" "of_nat j * PGSIZE = of_nat k * PGSIZE"
    have "4096 * j = unat (of_nat j * PGSIZE)" using pg jk(1) by simp
    also have "\<dots> = 4096 * k" unfolding jk(3) using pg jk(2) by simp
    finally show "j = k" by simp
  qed simp
  moreover have "1024 + length (page_range 0 n) < card (tables d t) + length Y"
  proof -
    have "distinct X" using vm_okD(1) [OF vm] by (simp add: kmem_free_def)
    then have "card (set Z) = length Z" using t(2) by (simp add: distinct_card)
    then show ?thesis using room t(2,4) range by simp
  qed
  ultimately have "\<exists>u W. copy_loop pd d (page_range 0 n) t = Ok (True, u) \<and> two_spaces pd d W u \<and> umem pd u = umem pd t
      \<and> (\<forall>b. umem d u b = (if PGROUNDDOWN b \<in> set (page_range 0 n) then umem pd t b else umem d t b))
      \<and> u = t\<lparr>mem := mem u, freelist := freelist u\<rparr>"
    by (intro copy_loop_spec [OF two]) (simp_all add: pages free)
  then obtain u W where u: "copy_loop pd d (page_range 0 n) t = Ok (True, u)" "two_spaces pd d W u" "umem pd u = umem pd t"
    "\<forall>b. umem d u b = (if PGROUNDDOWN b \<in> set (page_range 0 n) then umem pd t b else umem d t b)" "u = t\<lparr>mem := mem u, freelist := freelist u\<rparr>" by blast
  have "umem d t b = None" for b using nou by (simp add: umem_def)
  then have "umem d u b = (if PGROUNDDOWN b < n then umem pd s b else None)" for b using u(4) below um by simp
  moreover have "copyuvm pd n s = Ok (d, u)" using t(1,9) u(1) by (simp add: copyuvm_def)
  moreover have "u = s\<lparr>mem := mem u, freelist := freelist u\<rparr>"
  proof -
    have "u = s\<lparr>mem := mem t, freelist := freelist t\<rparr>\<lparr>mem := mem u, freelist := freelist u\<rparr>" using u(5) t(8) by metis
    then show ?thesis by simp
  qed
  ultimately show ?thesis using t(9) u(2,3) um by metis
qed

theorem copyuvm_copies_witness:
  "\<exists>d t. copyuvm one_page_pd 4096 one_page = Ok (d, t) \<and> umem d t 5 = Some 42 \<and> umem d t 4096 = None \<and> umem one_page_pd t 5 = Some 42"
proof -
  have p: "PGROUNDDOWN 5 = 0" "PGROUNDDOWN 4096 = 4096" by (simp_all add: PGROUNDDOWN_def PGSIZE_def)
  have "PGROUNDDOWN b = 0" if "b < 4096" for b
  proof -
    have "unat b < 4096" using that by (simp add: word_less_nat_alt)
    then have "unat (PGROUNDDOWN b) = 0" by (simp add: PGROUNDDOWN_unat)
    then show ?thesis by (simp only: unat_eq_0)
  qed
  then have "\<forall>b<4096. pte one_page_pd one_page b AND PTE_P \<noteq> 0" by (simp add: one_page_pte PTE_P_def)
  then obtain d t where "copyuvm one_page_pd 4096 one_page = Ok (d, t)" "umem one_page_pd t = umem one_page_pd one_page"
    "\<forall>b. umem d t b = (if PGROUNDDOWN b < 4096 then umem one_page_pd one_page b else None)"
    using copyuvm_copies [OF one_page_ok, of 4096] by (auto simp: KERNBASE_def page_run_def)
  then show ?thesis using one_page_umem p by simp
qed

end
