(* ===== verification/FirstBoot.thy ===== *)
theory FirstBoot
  imports Mkfs Path Proc
begin

text \<open>
  The first boot on a disk that \<open>mkfs\<close> has written: the first process reads the superblock and the (empty) log in
  \<open>forkret\<close>, and finds the files by their names. Lemmas: the mount leaves the disk's content and sets the superblock; the root
  directory binds the names of the files; the tree of directories is the one that \<open>namei\<close> walks.
\<close>

section \<open>Mounting\<close>

text \<open>
  The machine at the first \<open>forkret\<close>: nothing is in the buffer cache that the disk does not have, no buffer is held, and the
  only inode referred to is the root directory, the working directory of the process, not read yet.
\<close>

definition boot_state :: "mkimg \<Rightarrow> nat \<Rightarrow> 'a kernel_scheme \<Rightarrow> bool" where
  "boot_state m d s \<longleftrightarrow> first_run s \<and> quiet s \<and> pinned s = {} \<and> disksize s = of_nat FSSIZE \<and> (\<forall>b<FSSIZE. disk s b = img m b)
     \<and> cwd (myproc s) = Some d \<and> d < NINODE \<and> (\<forall>j. iref (inodes s j) = (if j = d then 1 else 0))
     \<and> idev (inodes s d) = ROOTDEV \<and> inum (inodes s d) = ROOTINO \<and> \<not> ivalid (inodes s d)"

lemma log_frame_more: "log_frame s s' \<Longrightarrow> inodes s' = inodes s \<and> cwd (procs s' p) = cwd (procs s p) \<and> curproc s' = curproc s"
proof -
  assume "log_frame s s'"
  then have f: "bio_frame (s\<lparr>log := log s'\<rparr>) s'" by (simp add: log_frame_def)
  then have e: "s' = s\<lparr>log := log s', procs := procs s', bufs := bufs s', disk := disk s', iolog := iolog s'\<rparr>"
    by (simp add: bio_frame_def)
  have "inodes s' = inodes s" "curproc s' = curproc s" by (subst e, simp)+
  moreover have "woken (procs s p) (procs s' p)" using f by (simp add: bio_frame_def)
  ultimately show ?thesis by (auto simp: woken_def)
qed

lemma quiet_blk: "quiet s \<Longrightarrow> pinned s = {} \<Longrightarrow> blk s = disk s"
  using blk_unpinned [of s] by (auto simp: quiet_def)

lemma readsb_reads:
  assumes q: "quiet s" "pinned s = {}" and d: "1 < disksize s"
  obtains t where "readsb ROOTDEV s = Ok (dec_sb (disk s 1), t)" "bio_frame s t" "quiet t" "pinned t = {}" "disk t = disk s"
proof -
  have ok: "bio_ok s" "held s = {}" using q(1) by (simp_all add: quiet_def)
  have b: "blk s = disk s" by (rule quiet_blk [OF q])
  obtain i s1 where s1: "bread ROOTDEV 1 s = Ok (i, s1)" "bread_post s 1 i s1"
    using bread_spec [OF ok(1) d] ok(2) q(2) by (auto simp: NBUF_def)
  then have p1: "bio_ok s1" "holds s1 i 1" "held s1 = {1}" "pinned s1 = pinned s"
    "bio_frame s s1" "blk s1 = blk s" "disk s1 = disk s"
    using ok by (simp_all add: bread_post_def)
  have d1: "data (bufs s1 i) = disk s 1" using holds_data [OF p1(1,2)] p1 b by simp
  have "blk s1 1 = disk s1 1" using p1 b by simp
  then obtain s2 where s2: "brelse i s1 = Ok s2" "brelse_post s1 i 1 s2" using brelse_spec [OF p1(1,2)] by blast
  have "readsb ROOTDEV s = Ok (dec_sb (disk s 1), s2)" using s1(1) s2(1) d1 by (simp add: readsb_def Let_def)
  moreover have "bio_frame s s2" using s2(2) p1(5) bio_frame_trans by (auto simp: brelse_post_def)
  moreover have "quiet s2" "pinned s2 = {}" "disk s2 = disk s" using s2(2) p1 q by (auto simp: quiet_def brelse_post_def)
  ultimately show thesis using that by blast
qed

lemma quiet_sb: "quiet (s\<lparr>sb := x\<rparr>) = quiet s" "pinned (s\<lparr>sb := x\<rparr>) = pinned s"
proof -
  let ?t = "s\<lparr>sb := x\<rparr>"
  show "pinned ?t = pinned s" by (simp add: pinned_def)
  have c: "held ?t = held s" "blk ?t = blk s" by (simp_all add: blk_def [abs_def] held_def cong: option.case_cong)
  have "nx ?t = nx s" "pv ?t = pv s" by (simp_all add: nx_def pv_def fun_eq_iff)
  then have "ring_ok ?t = ring_ok s" by (rule ring_ok_cong)
  then show "quiet ?t = quiet s" using c by (simp add: quiet_def bio_ok_def buf_ok_def)
qed

lemma wr_zero: "wr32 (\<lambda>_. 0) (a :: nat) 0 = (\<lambda>_. 0)"
  by (auto simp: wr32_def byte_def)

definition mounted :: "mkimg \<Rightarrow> 'a kernel_scheme \<Rightarrow> 'a kernel_scheme \<Rightarrow> bool" where
  "mounted m s t \<longleftrightarrow> log_ok t \<and> held t = {} \<and> pinned t = {} \<and> disksize t = disksize s \<and> sb t = mksb \<and> (\<forall>b<FSSIZE. blk t b = img m b)
     \<and> inodes t = (\<lambda>i. if i < NINODE then (inodes s i)\<lparr>ilk := initsleeplock\<rparr> else inodes s i) \<and> cwd (myproc t) = cwd (myproc s)"

lemma forkret_mounts:
  assumes im: "image_of fs m" and s: "boot_state m d s"
  obtains t where "forkret s = Ok t" "mounted m s t"
proof -
  let ?u = "(s\<lparr>first_run := False\<rparr>)\<lparr>inodes := (\<lambda>i. if i < NINODE then (inodes s i)\<lparr>ilk := initsleeplock\<rparr> else inodes s i)\<rparr>"
  have b: "first_run s" "quiet s" "pinned s = {}" "disksize s = 1000" "\<forall>b<FSSIZE. disk s b = img m b"
    using s by (simp_all add: boot_state_def FSSIZE_def)
  have u: "bufs ?u = bufs s" "disk ?u = disk s" "disksize ?u = disksize s" "iolog ?u = iolog s" by simp_all
  have "quiet ?u" "pinned ?u = {}" "1 < disksize ?u" using b same_cache [OF u(1,2,3)] by (simp_all add: quiet_def)
  then obtain v where v: "readsb ROOTDEV ?u = Ok (dec_sb (disk ?u 1), v)" "bio_frame ?u v" "quiet v" "pinned v = {}" "disk v = disk ?u"
    by (rule readsb_reads)
  have sbv: "dec_sb (disk ?u 1) = mksb" using image_ofD(2) [OF im] b(5) by (simp add: FSSIZE_def)
  have ii: "iinit ROOTDEV (s\<lparr>first_run := False\<rparr>) = Ok (v\<lparr>sb := mksb\<rparr>)" using v(1) sbv by (simp add: iinit_def cong: if_cong)
  let ?v = "v\<lparr>sb := mksb\<rparr>"
  have "quiet ?v" "pinned ?v = {}" "1 < disksize ?v" using v b log_frame_eq [OF log_frame_bio [OF v(2)]] by (simp_all add: quiet_sb)
  then obtain w where w: "readsb ROOTDEV ?v = Ok (dec_sb (disk ?v 1), w)" "bio_frame ?v w" "quiet w" "pinned w = {}" "disk w = disk ?v"
    by (rule readsb_reads)
  have sbw: "dec_sb (disk ?v 1) = mksb" using v(5) sbv by simp
  let ?x = "upd_log (\<lambda>l. l\<lparr>lstart := sb_logstart mksb, lsize := sint (sb_nlog mksb), ldev := ROOTDEV\<rparr>) w"
  have dx: "disk ?x = disk s" "disksize ?x = 1000" "lstart (log ?x) = 2"
    using w(5) v(5) b(4) log_frame_eq(2) [OF log_frame_bio [OF w(2)]] log_frame_eq(2) [OF log_frame_bio [OF v(2)]]
    by (simp_all add: mksb_def mk_sizes upd_log_def)
  have z: "img m 2 = (\<lambda>_. 0)" using image_ofD(10) [OF im, of 2] by simp
  then have h: "disk ?x (unat (lstart (log ?x))) = (\<lambda>_. 0)" using dx(1,3) b(5) by (simp add: FSSIZE_def)
  have h0: "hdr_n (disk ?x (unat (lstart (log ?x)))) = 0" unfolding h by (simp add: hdr_n_def rd32_def)
  have qx: "quiet ?x" "pinned ?x = {}" using w by (simp_all add: quiet_def)
  define l where "l = (log ?x)\<lparr>lh_n := hdr_n (disk ?x (unat (lstart (log ?x)))), lh_block := (\<lambda>i. if int i < hdr_n (disk ?x (unat (lstart (log ?x))))
            then hdr_block (disk ?x (unat (lstart (log ?x)))) i else lh_block (log ?x) i)\<rparr>"
  have ls: "lh_n l = 0" "lstart l = 2" "ldev l = ROOTDEV" using h0 dx(3) by (simp_all add: l_def upd_log_def)
  then have "tx_ok l (disksize ?x)" using dx(2) by (simp add: tx_ok_def NBUF_def)
  from recover_spec [OF qx l_def this] obtain t where t: "recover_from_log ?x = Ok t" "log_frame ?x t" "log t = l\<lparr>lh_n := 0\<rparr>"
    "written ?x (recover_writes l (disk ?x)) t" "pinned t = {}" by blast
  have "recover_writes l (disk ?x) = [(2, \<lambda>_. 0)]"
    using ls h dx(3) by (simp add: recover_writes_def home_writes_def enc_hdr_def wr_zero)
  then have bt: "quiet t" "disk t = (disk s)(2 := (\<lambda>_. 0))" using t(4) dx(1) by (simp_all add: written_def apply_writes_def)
  have "initlog ROOTDEV ?v = Ok t"
    using w(1) sbw t(1) by (simp add: initlog_def SIZEOF_LOGHEADER_def LOGSIZE_def MAXOPBLOCKS_def BSIZE_def)
  then have run: "forkret s = Ok t" using ii b(1) by (simp add: forkret_def)
  have sbt: "sb t = mksb" "disksize t = disksize s"
    using log_frame_eq(1,2) [OF t(2)] log_frame_eq(1,2) [OF log_frame_bio [OF w(2)]] log_frame_eq(2) [OF log_frame_bio [OF v(2)]]
    by (simp_all add: upd_log_def)
  have ino: "inodes t = inodes ?u" "\<forall>p. cwd (procs t p) = cwd (procs ?u p)" "curproc t = curproc ?u"
    using log_frame_more [OF t(2)] log_frame_more [OF log_frame_bio [OF w(2)]] log_frame_more [OF log_frame_bio [OF v(2)]]
    by (simp_all add: upd_log_def)
  have cw: "cwd (myproc t) = cwd (myproc s)" using ino(2,3) by (simp add: myproc_def)
  have it: "inodes t = (\<lambda>i. if i < NINODE then (inodes s i)\<lparr>ilk := initsleeplock\<rparr> else inodes s i)" unfolding ino(1) by simp
  have "blk t = (disk s)(2 := (\<lambda>_. 0))" using quiet_blk [OF bt(1) t(5)] bt(2) by simp
  then have "\<forall>b<FSSIZE. blk t b = img m b" using b(5) z by simp
  moreover have "log_ok t" "held t = {}" using bt(1) t(3,5) ls(1) by (simp_all add: log_ok_def quiet_def)
  ultimately have "mounted m s t" using sbt cw it t(5) by (simp add: mounted_def)
  then show thesis using that run by blast
qed

section \<open>The root directory\<close>

lemma get_dinode_idem: "get_dinode k d (get_dinode k d ip) = get_dinode k d ip"
  by (simp add: get_dinode_def cong: if_cong)

lemma view_loaded: "loaded (view t (of_nat n)) 0 n"
proof -
  have i: "idev (dinode t x) = ROOTDEV" "inum (dinode t x) = x" for x by (simp_all add: dinode_def get_dinode_def)
  have "sb (view t x) = sb t" for x by (simp add: view_def)
  then have "iblock (view t (of_nat n)) 0 = unat (IBLOCK (of_nat n) (sb t))" using i by (simp add: iblock_def)
  then show ?thesis using i get_dinode_idem by (simp add: loaded_def) (simp add: dinode_def get_dinode_idem)
qed

text \<open>The entries of the root directory: itself twice, then the files, then zeroes.\<close>

definition file_name :: "(u8 list \<times> u8 list list) list \<Rightarrow> nat \<Rightarrow> u8 list" where
  "file_name fs e = (if e = 0 then [46] else if e = 1 then [46, 46] else skip_underscore (fst (fs ! (e - 2))))"

lemma entries_nth: "k < length fs \<Longrightarrow> take 16 (drop (16 * k) (entries i fs)) = mkentry (of_nat (i + k)) (skip_underscore (fst (fs ! k)))"
proof (induction fs arbitrary: i k)
  case (Cons f fs)
  obtain name rs where f: "f = (name, rs)" by fastforce
  show ?case
  proof (cases k)
    case 0
    then show ?thesis by (simp add: f)
  next
    case (Suc n)
    have "take 16 (drop (16 * n) (entries (Suc i) fs)) = mkentry (of_nat (Suc i + n)) (skip_underscore (fst (fs ! n)))"
      by (rule Cons.IH) (use Cons.prems Suc in simp)
    then show ?thesis using Suc by (simp add: f del: of_nat_add of_nat_Suc)
  qed
qed simp

lemma root_nth:
  assumes "e < length fs + 2"
  shows "take 16 (drop (16 * e) (root_bytes fs)) = mkentry (if e < 2 then 1 else of_nat e) (file_name fs e)"
proof (cases "e < 2")
  case True
  then have "e = 0 \<or> e = 1" by linarith
  then show ?thesis by (auto simp: root_bytes_def file_name_def)
next
  case False
  define k where "k = e - 2"
  then have k: "e = 2 + k" "k < length fs" using False assms by simp_all
  then have "take 16 (drop (16 * e) (root_bytes fs)) = take 16 (drop (16 * k) (entries 2 fs))" by (simp add: root_bytes_def)
  then show ?thesis using entries_nth [OF k(2), of 2] k(1) by (simp add: file_name_def)
qed

lemma ucast_of_nat_16: "(ucast (of_nat n :: u32) :: u16) = of_nat n"
  by (rule bit_word_eqI) (auto simp: bit_simps)

lemma root_dirents:
  assumes im: "image_of fs m" and few: "length fs + 2 \<le> NINODES"
    and s: "\<forall>b<FSSIZE. blk s b = img m b" "sb s = mksb" and l: "loaded s r 1"
  shows "e < length fs + 2 \<Longrightarrow> e < nents s r \<and> ent_inum s r e = (if e < 2 then 1 else of_nat e)
      \<and> ent_name s r e = arr_str (\<lambda>i. if i < length (file_name fs e) then file_name fs e ! i else 0)"
    "length fs + 2 \<le> e \<Longrightarrow> e < nents s r \<Longrightarrow> ent_inum s r e = 0"
proof -
  let ?L = "length (root_bytes fs)" and ?e = "e * SIZEOF_DIRENT"
  have one: "1 < ntable" by (simp add: ntable_eq)
  have sbs: "sb s = dec_sb (img m 1)" using image_ofD(2) [OF im] s(2) by simp
  note g = loaded_file [OF im s(1) sbs one l]
  have mr: "mfile m 1 = root_bytes fs @ replicate ((?L div BSIZE + 1) * BSIZE - ?L) 0" by (rule image_ofD(5) [OF im])
  have len: "?L = 16 * (length fs + 2)" by (rule root_bytes_length)
  have up: "?L = ?L div BSIZE * BSIZE + ?L mod BSIZE" "?L mod BSIZE < BSIZE" by (simp_all add: sizes)
  have z: "fsize m 1 = (?L div BSIZE + 1) * BSIZE" using arg_cong [OF mr, of length] up by simp
  have zb: "fsize m 1 \<le> MAXFILE * BSIZE" using z few len by (simp add: sizes NINODES_def)
  have nz: "nents s r * SIZEOF_DIRENT = fsize m 1" using g(2) z by (simp add: nents_def fsize_def SIZEOF_DIRENT_def sizes)
  have root: "map (fbyte s r) [0..<fsize m 1] = mfile m 1" by (rule g(3) [OF zb])
  have at: "fbyte s r x = mfile m 1 ! x" if "x < fsize m 1" for x using root that by (metis nth_map_upt add_0 diff_zero)
  have de: "dirent s r e = take 16 (drop (16 * e) (mfile m 1))" if "e < nents s r"
  proof (rule nth_equalityI)
    have "?e + 16 \<le> fsize m 1" using that nz by (simp add: SIZEOF_DIRENT_def)
    then show "length (dirent s r e) = length (take 16 (drop (16 * e) (mfile m 1)))" by (simp add: dirent_def SIZEOF_DIRENT_def)
    fix i
    assume "i < length (dirent s r e)"
    then show "dirent s r e ! i = take 16 (drop (16 * e) (mfile m 1)) ! i"
      using at [of "16 * e + i"] \<open>?e + 16 \<le> fsize m 1\<close> by (simp add: dirent_def SIZEOF_DIRENT_def mult.commute)
  qed
  show "e < nents s r \<and> ent_inum s r e = (if e < 2 then 1 else of_nat e)
      \<and> ent_name s r e = arr_str (\<lambda>i. if i < length (file_name fs e) then file_name fs e ! i else 0)" if e: "e < length fs + 2"
  proof -
    have lt: "e < nents s r"
    proof -
      have "16 * e + 16 \<le> ?L" using e len by simp
      moreover have "fsize m 1 = ?L div BSIZE * BSIZE + BSIZE" using z by simp
      ultimately have "16 * e < fsize m 1" using up by linarith
      then show ?thesis using nz by (simp add: SIZEOF_DIRENT_def)
    qed
    have "take 16 (drop (16 * e) (mfile m 1)) = take 16 (drop (16 * e) (root_bytes fs))" unfolding mr using e len by simp
    then have d: "dirent s r e = mkentry (if e < 2 then 1 else of_nat e) (file_name fs e)" using de [OF lt] root_nth [OF e] by simp
    have "ent_inum s r e = ucast (if e < 2 then 1 else of_nat e :: u32)"
      "ent_name s r e = arr_str (\<lambda>i. if i < length (file_name fs e) then file_name fs e ! i else 0)"
      unfolding ent_inum_def ent_name_def d mkentry_def new_entry by simp_all
    then show ?thesis using lt ucast_of_nat_16 [of e] by simp
  qed
  show "ent_inum s r e = 0" if e: "length fs + 2 \<le> e" "e < nents s r"
  proof -
    have "16 * e + 16 \<le> fsize m 1" using e(2) nz by (simp add: SIZEOF_DIRENT_def)
    then have "dirent s r e = replicate 16 0" using de [OF e(2)] e(1) len z unfolding mr by simp
    then show ?thesis by (simp add: ent_inum_def de_inum_def rd16_def)
  qed
qed

section \<open>The tree\<close>

text \<open>The names of the files are not empty, and as far as the directory keeps them, different from each other, \<open>.\<close> and \<open>..\<close>.\<close>

definition names_ok :: "(u8 list \<times> u8 list list) list \<Rightarrow> bool" where
  "names_ok fs \<longleftrightarrow> (\<forall>f\<in>set fs. 0 \<notin> set (fst f) \<and> skip_underscore (fst f) \<noteq> [])
     \<and> distinct (map (take DIRSIZ \<circ> file_name fs) [0..<length fs + 2])"

lemma arr_str_name: "0 \<notin> set nm \<Longrightarrow> arr_str (\<lambda>i. if i < length nm then nm ! i else 0) = take DIRSIZ nm"
proof -
  assume z: "0 \<notin> set nm"
  let ?a = "\<lambda>i. if i < length nm then nm ! i else 0"
  have "map ?a [0..<DIRSIZ] = take DIRSIZ nm @ replicate (DIRSIZ - length nm) 0"
    by (rule nth_equalityI) (auto simp: nth_append)
  moreover have "\<forall>c\<in>set (take DIRSIZ nm). c \<noteq> 0" using z by (auto dest: in_set_takeD)
  ultimately show ?thesis by (simp add: arr_str_def takeWhile_append2 takeWhile_replicate)
qed

lemma file_name_ok: "names_ok fs \<Longrightarrow> e < length fs + 2 \<Longrightarrow> 0 \<notin> set (file_name fs e)"
proof -
  assume n: "names_ok fs" and e: "e < length fs + 2"
  have "set (skip_underscore w) \<subseteq> set w" for w :: "u8 list" by (cases w) (auto simp: skip_underscore_def)
  moreover have "0 \<notin> set (fst (fs ! (e - 2)))" if "2 \<le> e" using n e that by (simp add: names_ok_def)
  ultimately show ?thesis unfolding file_name_def by (cases "e < 2") (auto dest: subsetD)
qed

lemma mounted_tree:
  assumes im: "image_of fs m" and few: "length fs + 2 \<le> NINODES" and full: "(length fs + 2) mod 32 \<noteq> 0" and nm: "names_ok fs"
    and t: "mounted m s t" "disksize s = of_nat FSSIZE" and n: "1 \<le> n" "n < length fs + 2"
  shows "file_ok (view t (of_nat n)) 0" "ntype t (of_nat n) = (if n = 1 then T_DIR else T_FILE)" "nlink (dinode t (of_nat n)) = 1"
    "k \<le> MAXFILE \<Longrightarrow> slot (view t (of_nat n)) 0 k < unat (disksize t)"
    "e < length fs + 2 \<Longrightarrow> ndir t 1 (take DIRSIZ (file_name fs e)) = Some (if e < 2 then 1 else of_nat e)"
    "ndir t 1 c = Some v \<Longrightarrow> \<exists>e<length fs + 2. 1 \<le> e \<and> v = of_nat e"
    "dir_ok (view t 1) 0"
proof -
  have bt: "\<forall>b<FSSIZE. blk (view t x) b = img m b" "sb (view t x) = mksb" "sb (view t x) = dec_sb (img m 1)" for x
    using t(1) image_ofD(2) [OF im] by (simp_all add: mounted_def view_def)
  have tab: "n < ntable" "1 < ntable" using n few by (simp_all add: ntable_eq NINODES_def)
  note f = loaded_file [OF im bt(1,3) tab(1) view_loaded [of t n]]
  show ok: "file_ok (view t (of_nat n)) 0" by (rule f(1))
  have "itype (dino m n) = (if n = 1 then T_DIR else T_FILE) \<and> nlink (dino m n) = 1"
  proof (cases "n = 1")
    case False
    then have "n - 2 < length fs" "2 + (n - 2) = n" using n by linarith+
    then show ?thesis using image_ofD(11,12) [OF im, of "n - 2"] False by simp
  qed (use image_ofD(3,13) [OF im] in simp)
  then show "ntype t (of_nat n) = (if n = 1 then T_DIR else T_FILE)" "nlink (dinode t (of_nat n)) = 1"
    using f(5,6) by (simp_all add: ntype_def)
  have fz: "fssize (view t (of_nat n)) = 1000" using bt(2) [of "of_nat n"] by (simp add: fssize_def mksb_def mk_sizes)
  show "slot (view t (of_nat n)) 0 k < unat (disksize t)" if "k \<le> MAXFILE"
    using file_okD(4) [OF ok that] t fz by (cases "slot (view t (of_nat n)) 0 k = 0") (auto simp: owned_def mounted_def FSSIZE_def)
  have l1: "loaded (view t 1) 0 1" using view_loaded [of t 1] by simp
  note g = loaded_file [OF im bt(1,3) tab(2) l1]
  note de = root_dirents [OF im few bt(1,2) l1]
  have en: "e < nents (view t 1) 0" "ent_inum (view t 1) 0 e = (if e < 2 then 1 else of_nat e)"
    "ent_name (view t 1) 0 e = take DIRSIZ (file_name fs e)" if "e < length fs + 2" for e
    using de(1) [OF that] arr_str_name [OF file_name_ok [OF nm that]] by simp_all
  have nz: "(of_nat e :: u16) \<noteq> 0" if "1 \<le> e" "e < length fs + 2" for e
  proof -
    have "unat (of_nat e :: u16) = e" using that few by (simp add: unat_of_nat NINODES_def)
    then show ?thesis using that by auto
  qed
  have i0: "ent_inum (view t 1) 0 e \<noteq> 0" if "e < length fs + 2" for e using en(2) [OF that] nz [of e] that by auto
  show "ndir t 1 (take DIRSIZ (file_name fs e)) = Some (if e < 2 then 1 else of_nat e)" if e: "e < length fs + 2"
  proof -
    have "take DIRSIZ (file_name fs j) \<noteq> take DIRSIZ (file_name fs e)" if "j < e" for j
      using nm e that nth_eq_iff_index_eq [of "map (take DIRSIZ \<circ> file_name fs) [0..<length fs + 2]" j e]
      unfolding names_ok_def by (simp del: upt_Suc)
    then have "List.find (\<lambda>k. ent_inum (view t 1) 0 k \<noteq> 0 \<and> ent_name (view t 1) 0 k = take DIRSIZ (file_name fs e)) [0..<nents (view t 1) 0] = Some e"
      unfolding find_upt_Some using en e i0 by auto
    then show ?thesis using en(2) [OF e] by (simp add: ndir_def dir_map_def dir_find_def)
  qed
  show "\<exists>e<length fs + 2. 1 \<le> e \<and> v = of_nat e" if v: "ndir t 1 c = Some v"
  proof -
    obtain e where e: "e < nents (view t 1) 0" "ent_inum (view t 1) 0 e \<noteq> 0" "v = ent_inum (view t 1) 0 e"
      using v by (auto simp: ndir_def dir_map_def dir_find_def find_upt_Some)
    then have "e < length fs + 2" using de(2) [of e] by force
    then show ?thesis using en(2) e(3) by (intro exI [of _ "if e < 2 then 1 else e"]) auto
  qed
  have L: "length (root_bytes fs) = 16 * (length fs + 2)" by (rule root_bytes_length)
  let ?q = "length (root_bytes fs) div BSIZE"
  have mr: "mfile m 1 = root_bytes fs @ replicate ((?q + 1) * BSIZE - length (root_bytes fs)) 0" by (rule image_ofD(5) [OF im])
  have up: "length (root_bytes fs) = ?q * BSIZE + length (root_bytes fs) mod BSIZE" "length (root_bytes fs) mod BSIZE < BSIZE" by (simp_all add: sizes)
  have z: "fsize m 1 = ?q * BSIZE + BSIZE" using arg_cong [OF mr, of length] up by simp
  have part: "?q * BSIZE < length (root_bytes fs)"
  proof -
    have "length (root_bytes fs) mod BSIZE = 16 * ((length fs + 2) mod 32)"
      using L mult_mod_right [of 16 "length fs + 2" 32] by (simp add: sizes)
    then have "length (root_bytes fs) mod BSIZE \<noteq> 0" using full by simp
    then show ?thesis using up(1) by linarith
  qed
  have zs: "unat (isize (inodes (view t 1) 0)) = fsize m 1" using g(2) by (simp add: fsize_def)
  have few': "?q < MAXFILE" using few L by (simp add: sizes NINODES_def)
  have "fblk (view t 1) 0 (x div BSIZE) \<noteq> 0" if x: "x < fsize m 1" for x
  proof -
    have "x div BSIZE < ?q + 1" using x z by (intro less_mult_imp_div_less) simp
    then have k: "x div BSIZE \<le> ?q" by simp
    then have "x div BSIZE * BSIZE \<le> ?q * BSIZE" by (rule mult_le_mono1)
    then have "x div BSIZE * BSIZE < length (root_bytes fs)" using part by (rule le_less_trans)
    then have "need (x div BSIZE) (length (root_bytes fs))" using k few' by (simp add: need_def)
    then have "slot (view t 1) 0 (x div BSIZE) \<noteq> 0" using g(4) [of "x div BSIZE"] image_ofD(8) [OF im, of "x div BSIZE"] k few' by simp
    then show ?thesis using k few' by (simp add: slot_simps)
  qed
  moreover have "SIZEOF_DIRENT dvd fsize m 1" using z by (simp add: SIZEOF_DIRENT_def sizes)
  moreover have "fsize m 1 \<le> MAXFILE * BSIZE" using z few' by (simp add: sizes)
  ultimately show "dir_ok (view t 1) 0" unfolding dir_ok_def zs using g(5) image_ofD(3) [OF im] by simp
qed

definition root_inodes :: "(u8 list \<times> u8 list list) list \<Rightarrow> u32 set" where "root_inodes fs = of_nat ` {1..<length fs + 2}"

lemma ucast_of_nat_32: "e < 2 ^ 16 \<Longrightarrow> (ucast (of_nat e :: u16) :: u32) = of_nat e"
  by (simp add: word_unat_eq_iff unsigned_ucast_eq unsigned_of_nat take_bit_nat_eq_self)

lemma mounted_cache:
  assumes im: "image_of fs m" and few: "length fs + 2 \<le> NINODES" and full: "(length fs + 2) mod 32 \<noteq> 0" and nm: "names_ok fs"
    and t: "mounted m s t" and s: "boot_state m d s"
  shows "cache_ok t (root_inodes fs) {}"
proof -
  have ds: "disksize s = of_nat FSSIZE" using s by (simp add: boot_state_def)
  note mt = mounted_tree [OF im few full nm t ds]
  have tree: "tree_ok t (root_inodes fs)"
    unfolding tree_ok_def
  proof
    fix x
    assume "x \<in> root_inodes fs"
    then obtain n where n: "1 \<le> n" "n < length fs + 2" "x = of_nat n" by (auto simp: root_inodes_def)
    have "n < ntable" using n(2) few by (simp add: ntable_eq NINODES_def)
    then have "unat (IBLOCK x (sb t)) = 32 + n div 8" "32 + n div 8 < 1000"
      using mk_IBLOCK [of n] n(3) t by (simp_all add: mounted_def ntable_eq)
    moreover have "disksize t = 1000" using t ds by (simp add: mounted_def FSSIZE_def)
    ultimately have "IBLOCK x (sb t) < disksize t" by (simp add: word_less_nat_alt)
    moreover have "ntype t x \<noteq> 0" "nlink (dinode t x) \<noteq> 0" using mt(2,3) [OF n(1,2)] n(3) by (simp_all add: T_DIR_def T_FILE_def)
    moreover have "dir_ok (view t x) 0 \<and> (\<forall>k\<le>MAXFILE. slot (view t x) 0 k < unat (disksize t)) \<and> (\<forall>nm v. ndir t x nm = Some v \<longrightarrow> ucast v \<in> root_inodes fs)"
      if "ntype t x = T_DIR"
    proof -
      have x: "n = 1" "x = 1" using mt(2) [OF n(1,2)] n(3) that by (auto simp: T_DIR_def T_FILE_def split: if_splits)
      have "ucast v \<in> root_inodes fs" if v: "ndir t 1 c = Some v" for c v
      proof -
        obtain e where e: "e < length fs + 2" "1 \<le> e" "v = of_nat e" using mt(6) [OF n(1,2) v] by blast
        then have "ucast v = (of_nat e :: u32)" using few by (simp add: ucast_of_nat_32 NINODES_def)
        then show ?thesis using e by (auto simp: root_inodes_def)
      qed
      then show ?thesis using mt(4,7) [OF n(1,2)] x by simp
    qed
    ultimately show "IBLOCK x (sb t) < disksize t \<and> ntype t x \<noteq> 0 \<and> nlink (dinode t x) \<noteq> 0
       \<and> (ntype t x = T_DIR \<longrightarrow> dir_ok (view t x) 0 \<and> (\<forall>k\<le>MAXFILE. slot (view t x) 0 k < unat (disksize t))
          \<and> (\<forall>nm v. ndir t x nm = Some v \<longrightarrow> ucast v \<in> root_inodes fs))" by blast
  qed
  have one: "1 \<in> root_inodes fs" unfolding root_inodes_def by (rule image_eqI [of _ _ 1]) simp_all
  have "entry_ok t (root_inodes fs) i \<and> \<not> locked (ilk (inodes t i))" if "i < NINODE" for i
    using that t s one by (auto simp: mounted_def boot_state_def entry_ok_def initsleeplock_def ROOTINO_def split: if_splits)
  then show ?thesis using t tree by (simp add: cache_ok_def mounted_def NBUF_def)
qed

text \<open>One file, from its name to its contents.\<close>

lemma file_found:
  assumes im: "image_of fs m" and good: "\<forall>f\<in>set fs. good_file f" and few: "length fs + 2 \<le> NINODES"
    and full: "(length fs + 2) mod 32 \<noteq> 0" and nm: "names_ok fs" and t: "mounted m s t" and s: "boot_state m d s" and k: "k < length fs"
  shows "\<exists>ip u v w. namei (47 # skip_underscore (fst (fs ! k))) t = Ok (Some ip, u) \<and> ilock ip u = Ok v
    \<and> itype (inodes v ip) = T_FILE \<and> unat (isize (inodes v ip)) = length (concat (snd (fs ! k)))
    \<and> readi ip 0 (isize (inodes v ip)) v = Ok (int (length (concat (snd (fs ! k)))), concat (snd (fs ! k)), w)"
proof -
  let ?nm = "skip_underscore (fst (fs ! k))" and ?n = "2 + k" and ?c = "concat (snd (fs ! k))" and ?N = "root_inodes fs"
  have ds: "disksize s = of_nat FSSIZE" using s by (simp add: boot_state_def)
  have n: "1 \<le> ?n" "?n < length fs + 2" "?n < ntable" using k few by (simp_all add: ntable_eq NINODES_def)
  note mt = mounted_tree [OF im few full nm t ds n(1,2)]
  note c = mounted_cache [OF im few full nm t s]
  have gf: "47 \<notin> set (fst (fs ! k))" "length ?c \<le> MAXFILE * BSIZE" "0 \<notin> set (fst (fs ! k))" "?nm \<noteq> []"
    using good nm k by (simp_all add: good_file_def names_ok_def)
  have "set ?nm \<subseteq> set (fst (fs ! k))" by (cases "fst (fs ! k)") (auto simp: skip_underscore_def)
  then have sl: "47 \<notin> set ?nm" "0 \<notin> set (47 # ?nm)" using gf(1,3) by auto
  have tw: "takeWhile (\<lambda>c. c \<noteq> 47) ?nm = ?nm" "dropWhile (\<lambda>c. c \<noteq> 47) ?nm = []" using sl(1) by (auto simp: takeWhile_eq_all_conv)
  have "hd ?nm \<noteq> 47" using gf(4) sl(1) hd_in_set by metis
  then have "components ?nm = take DIRSIZ ?nm # components []" using components_elem [OF gf(4)] tw by simp
  then have comp: "components (47 # ?nm) = [take DIRSIZ ?nm]" by (simp add: components_slash) (simp add: components_def)
  have "file_name fs ?n = ?nm" by (simp add: file_name_def)
  then have nd: "ndir t 1 (take DIRSIZ ?nm) = Some (of_nat ?n)" using mt(5) [OF n(2)] by simp
  have "ntype t 1 = T_DIR" using mounted_tree(2) [OF im few full nm t ds, of 1] by simp
  then have w: "walk False t (start_of t (47 # ?nm) d) (components (47 # ?nm)) = Some (of_nat ?n)"
    using nd few k ucast_of_nat_32 [of ?n] unfolding comp start_of_def by (simp add: ROOTINO_def NINODES_def)
  have "card {j. j < NINODE \<and> j \<noteq> d} = card ({..<NINODE} - {d})" by (rule arg_cong [of _ _ card]) auto
  moreover have "{j. j < NINODE \<and> iref (inodes t j) = 0} = {j. j < NINODE \<and> j \<noteq> d}" using t s by (auto simp: mounted_def boot_state_def)
  ultimately have free: "2 \<le> card {j. j < NINODE \<and> iref (inodes t j) = 0}" by (simp add: NINODE_def card_Diff_singleton_if)
  have cw: "cwd (myproc t) = Some d" "d < NINODE" "0 < iref (inodes t d)" "ROOTINO \<in> ?N"
    using t s image_eqI [of "1 :: u32" of_nat 1] by (auto simp: mounted_def boot_state_def root_inodes_def ROOTINO_def)
  obtain r u where r: "namei (47 # ?nm) t = Ok (r, u)" "walked t ?N (Some (of_nat ?n)) r u"
    using namei_spec [OF c cw(4) free cw(1-3) sl(2)] unfolding w by blast
  then obtain ip where ip: "ip < NINODE" "r = Some ip" "inum (inodes u ip) = of_nat ?n" "cache_ok u ?N {}" "same_disk t u"
    "anchored t ((\<lambda>j. 0)(ip := 1)) u" by (auto simp: walked_def)
  have "0 \<le> iref (inodes t ip)" using c ip(1) by (simp add: cache_ok_def entry_ok_def)
  then have i: "0 < iref (inodes u ip)" using ip(6) by (simp add: anchored_def)
  obtain v where v: "ilock ip u = Ok v" "cache_ok v ?N {ip}" "ftxn u {} v" "ivalid (inodes v ip)"
    "\<forall>j. iref (inodes v j) = iref (inodes u j) \<and> inum (inodes v j) = inum (inodes u j)"
    by (rule ilock_ok [OF ip(4,1) i])
  have sd: "same_disk t v" by (rule same_disk_ftxn [OF v(3) ip(5)])
  have "entry_ok v ?N ip" using v(2) ip(1) by (simp add: cache_ok_def)
  then have "same_inode (inodes v ip) (dinode v (of_nat ?n))" using v(4,5) i ip(3) by (simp add: entry_ok_def)
  note sv = same_inode_view [OF this] and si = this
  have dv: "idev (inodes v ip) = ROOTDEV" using \<open>entry_ok v ?N ip\<close> v(5) i by (simp add: entry_ok_def)
  have bv: "\<forall>b<FSSIZE. blk (view v x) b = img m b" "sb (view v x) = dec_sb (img m 1)" for x
    using t sd image_ofD(2) [OF im] by (simp_all add: mounted_def same_disk_def view_def)
  note f = loaded_file [OF im bv n(3) view_loaded [of v ?n]]
  have mf: "mfile m ?n = ?c" by (rule image_ofD(6) [OF im k])
  have z: "fsize m ?n = length ?c" using arg_cong [OF mf, of length] by simp
  have iz: "isize (inodes v ip) = isize (dino m ?n)" using f(2) si by (simp add: same_inode_def)
  then have sz: "unat (isize (inodes v ip)) = length ?c" using z by (simp add: fsize_def)
  have fb: "fbyte v ip = fbyte (view v (of_nat ?n)) 0" using sv(1) by (simp add: fbyte_def fun_eq_iff)
  have data: "map (fbyte v ip) [0..<length ?c] = ?c" using f(3) z mf gf(2) fb by simp
  have ty: "itype (inodes v ip) = T_FILE" using sv(5) f(5) image_ofD(11) [OF im k] by (simp add: ntype_def)
  have mapped: "fblk v ip (x div BSIZE) \<noteq> 0" if x: "x < length ?c" for x
  proof -
    have l: "x div BSIZE < MAXFILE" using x gf(2) by (intro less_mult_imp_div_less) simp
    have "x div BSIZE * BSIZE < length ?c" using div_times_less_eq_dividend x by (rule le_less_trans)
    then have "need (x div BSIZE) (length ?c)" using l by (simp add: need_def)
    then have "slot (view v (of_nat ?n)) 0 (x div BSIZE) \<noteq> 0" using f(4) [of "x div BSIZE"] image_ofD(9) [OF im k, of "x div BSIZE"] l by simp
    then show ?thesis using l sv(1) by (simp add: slot_simps)
  qed
  have "slot v ip j < unat (disksize v)" if "j \<le> MAXFILE" for j
  proof -
    have "fssize (view v (of_nat ?n)) = 1000" using bv(2) [of "of_nat ?n"] image_ofD(2) [OF im] by (simp add: fssize_def mksb_def mk_sizes)
    moreover have "disksize v = 1000" using sd t ds by (simp add: same_disk_def mounted_def FSSIZE_def)
    ultimately show ?thesis using file_okD(4) [OF f(1) that] sv(2) by (cases "slot v ip j = 0") (auto simp: owned_def)
  qed
  then have cr: "can_read v ip" using v(2) dv by (simp add: can_read_def cache_ok_def)
  obtain y where "readi ip (of_nat 0) (of_nat (length ?c)) v = Ok (int (min (length ?c) (unat (isize (inodes v ip)) - 0)),
      map (fbyte v ip) [0..<min (0 + length ?c) (unat (isize (inodes v ip)))], y)"
    using readi_spec [OF cr, of 0 "length ?c"] ty sz gf(2) mapped by (auto simp: T_FILE_def T_DEV_def sizes)
  moreover have "of_nat (length ?c) = isize (inodes v ip)" by (simp add: sz [symmetric])
  ultimately have "readi ip 0 (isize (inodes v ip)) v = Ok (int (length ?c), ?c, y)" using sz data by simp
  then show ?thesis using r(1) ip(2) v(1) ty sz by blast
qed

section \<open>Properties\<close>

text \<open>
  C7: The kernel finds what \<open>mkfs\<close> wrote. Let the files fit on the disk and have names that differ in the first fourteen
  characters, the leading underscore aside, and let the directory not fill its last block. Then \<open>mkfs\<close> succeeds, and whenever the
  first process starts on a machine with this disk and empty caches, \<open>forkret\<close> mounts it, and for each file \<open>namei\<close> of its
  name in the root directory yields an inode that \<open>ilock\<close> brings into memory, with the type of a file and the size of the contents,
  and from which \<open>readi\<close> reads the contents given to \<open>mkfs\<close>.
\<close>

theorem boot_finds_files:
  assumes good: "\<forall>f\<in>set fs. good_file f" and few: "length fs + 2 \<le> NINODES"
    and room: "nmeta + used (16 * (length fs + 2)) + (\<Sum>f\<leftarrow>fs. used (length (concat (snd f)))) \<le> FSSIZE"
    and full: "(length fs + 2) mod 32 \<noteq> 0" and nm: "names_ok fs"
  shows "\<exists>m. mkfs (map (map_prod id Some) fs) = Some m
    \<and> (\<forall>d s. boot_state m d s \<longrightarrow> (\<exists>t. forkret s = Ok t
         \<and> (\<forall>k<length fs. \<exists>ip u v w. namei (47 # skip_underscore (fst (fs ! k))) t = Ok (Some ip, u) \<and> ilock ip u = Ok v
              \<and> itype (inodes v ip) = T_FILE \<and> unat (isize (inodes v ip)) = length (concat (snd (fs ! k)))
              \<and> readi ip 0 (isize (inodes v ip)) v = Ok (int (length (concat (snd (fs ! k)))), concat (snd (fs ! k)), w))))"
proof -
  obtain m where m: "mkfs (map (map_prod id Some) fs) = Some m" and im: "image_of fs m"
    using mkfs_image [OF good few room] by blast
  have "\<exists>t. forkret s = Ok t \<and> (\<forall>k<length fs. \<exists>ip u v w. namei (47 # skip_underscore (fst (fs ! k))) t = Ok (Some ip, u) \<and> ilock ip u = Ok v
              \<and> itype (inodes v ip) = T_FILE \<and> unat (isize (inodes v ip)) = length (concat (snd (fs ! k)))
              \<and> readi ip 0 (isize (inodes v ip)) v = Ok (int (length (concat (snd (fs ! k)))), concat (snd (fs ! k)), w))"
    if s: "boot_state m d s" for d s
  proof -
    obtain t where t: "forkret s = Ok t" "mounted m s t" by (rule forkret_mounts [OF im s])
    show ?thesis using t(1) file_found [OF im good few full nm t(2) s] by blast
  qed
  then show ?thesis using m by blast
qed

text \<open>A machine that starts on the disk \<open>m\<close>.\<close>

definition boot0 :: "mkimg \<Rightarrow> kernel" where
  "boot0 m = (binit (kernel0\<lparr>disk := img m, disksize := 1000\<rparr>))
     \<lparr>inodes := (\<lambda>j. if j = 0 then zero_inode\<lparr>idev := ROOTDEV, inum := ROOTINO, iref := 1\<rparr> else zero_inode),
      procs := (\<lambda>i. zero_proc\<lparr>cwd := Some 0\<rparr>)\<rparr>"

lemma boot0_state: "boot_state m 0 (boot0 m)"
proof -
  let ?k = "kernel0\<lparr>disk := img m, disksize := 1000\<rparr>" and ?s = "boot0 m"
  have b: "bio_ok (binit ?k)" "pinned (binit ?k) = {}" "held (binit ?k) = {}"
    using binit_ok [of ?k] by (simp_all add: kernel0_defs idle_zero_buf)
  have fr: "disk (binit ?k) = img m" "disksize (binit ?k) = 1000" "first_run (binit ?k)" by (subst binit_frame, simp add: kernel0_defs)+
  have e: "bufs ?s = bufs (binit ?k)" "disk ?s = disk (binit ?k)" "disksize ?s = disksize (binit ?k)" "log ?s = log (binit ?k)" "sb ?s = sb (binit ?k)"
    by (simp_all add: boot0_def)
  note c = same_cache [OF e]
  show ?thesis
    unfolding boot_state_def quiet_def using b c e fr
    by (simp add: FSSIZE_def) (simp add: boot0_def fr myproc_def zero_inode_def NINODE_def)
qed

theorem boot_finds_files_witness:
  "\<exists>m t ip u v w. mkfs [([95, 65], Some [[1, 2], [3]])] = Some m \<and> forkret (boot0 m) = Ok t \<and> namei [47, 65] t = Ok (Some ip, u)
     \<and> ilock ip u = Ok v \<and> readi ip 0 (isize (inodes v ip)) v = Ok (3, [1, 2, 3], w)"
proof -
  let ?fs = "[([95, 65], [[1, 2], [3 :: u8]])] :: (u8 list \<times> u8 list list) list"
  have names: "names_ok ?fs" by (simp add: names_ok_def file_name_def skip_underscore_def DIRSIZ_def)
  have "\<exists>m. mkfs (map (map_prod id Some) ?fs) = Some m
    \<and> (\<forall>d (s :: kernel). boot_state m d s \<longrightarrow> (\<exists>t. forkret s = Ok t
         \<and> (\<forall>k<length ?fs. \<exists>ip u v w. namei (47 # skip_underscore (fst (?fs ! k))) t = Ok (Some ip, u) \<and> ilock ip u = Ok v
              \<and> itype (inodes v ip) = T_FILE \<and> unat (isize (inodes v ip)) = length (concat (snd (?fs ! k)))
              \<and> readi ip 0 (isize (inodes v ip)) v = Ok (int (length (concat (snd (?fs ! k)))), concat (snd (?fs ! k)), w))))"
    by (rule boot_finds_files) (use names in \<open>simp_all add: good_file_def sizes NINODES_def mk_sizes used_def\<close>)
  then obtain m where m: "mkfs (map (map_prod id Some) ?fs) = Some m"
    "\<forall>d (s :: kernel). boot_state m d s \<longrightarrow> (\<exists>t. forkret s = Ok t
         \<and> (\<forall>k<length ?fs. \<exists>ip u v w. namei (47 # skip_underscore (fst (?fs ! k))) t = Ok (Some ip, u) \<and> ilock ip u = Ok v
              \<and> itype (inodes v ip) = T_FILE \<and> unat (isize (inodes v ip)) = length (concat (snd (?fs ! k)))
              \<and> readi ip 0 (isize (inodes v ip)) v = Ok (int (length (concat (snd (?fs ! k)))), concat (snd (?fs ! k)), w)))" by blast
  then obtain t where t: "forkret (boot0 m) = Ok t" "\<exists>ip u v w. namei (47 # skip_underscore [95, 65]) t = Ok (Some ip, u) \<and> ilock ip u = Ok v
              \<and> readi ip 0 (isize (inodes v ip)) v = Ok (int 3, [1, 2, 3], w)"
    using boot0_state [of m] by force
  then show ?thesis using m(1) by (intro exI [of _ m] exI [of _ t]) (simp add: skip_underscore_def)
qed

end
