(* ===== verification/Spec2Isabelle.thy ===== *)
theory Spec2Isabelle
  imports Prelude CString ProcTable Kalloc SleepLock Ring RingBuf Bio Log Printf Grep Inode Console Fs File
    Swapfile Vm Paging Uvm Proc Syscall Exec Sysfile Trap Sjf Spinlock Ide PageTable ProcLife Sh
    Balloc FileData Durable Directory Path Kbd Boot Umalloc UserHeap Devices Mp Ulib Mkfs
    AddressSpace FirstBoot
begin

text \<open>
  A model of the xv6 kernels of this repository, and proofs about them.

  The program. The repository holds two variants of the teaching operating system xv6, each a kernel, its
  user programs and its tools in C. \<open>Lab3/OS3-main/xv6-public\<close> adds paging to a swap file to the original
  kernel; \<open>Lab1+Lab2/xv6-public\<close> replaces its scheduler by a shortest-job-first one and adds system calls
  that report on processes. The two trees share most of their code. What they share is modelled once,
  from the files of \<open>Lab3\<close>; file names below are those of that tree unless \<open>Lab1+Lab2\<close> is named.

  How the parts interact. A trap (\<open>trap.c\<close>) enters the kernel; a system call is dispatched to its handler
  (\<open>syscall.c\<close>, \<open>sysproc.c\<close>, \<open>sysfile.c\<close>, \<open>exec.c\<close>), which works on processes (\<open>proc.c\<close>), address spaces
  (\<open>vm.c\<close>) and files. Files (\<open>file.c\<close>) are inodes, pipes (\<open>pipe.c\<close>) or the console (\<open>console.c\<close>). Inodes
  and directories (\<open>fs.c\<close>) live in disk blocks that are read and written through the buffer cache
  (\<open>bio.c\<close>) and made durable by the write-ahead log (\<open>log.c\<close>); below the cache is the IDE driver (\<open>ide.c\<close>) or
  the memory disk (\<open>memide.c\<close>). Physical pages come from \<open>kalloc.c\<close>. Spin locks (\<open>spinlock.c\<close>) protect all of
  it between CPUs, sleep locks (\<open>sleeplock.c\<close>) protect buffers and inodes between processes.

  The state. It is one record that grows as the components do, each theory extending the record of the
  one below: \<open>ptable\<close> (processes) \<open>\<subset>\<close> \<open>kmem\<close> (memory and free list) \<open>\<subset>\<close> \<open>bcache\<close> (buffers and disk) \<open>\<subset>\<close>
  \<open>logfs\<close> \<open>\<subset>\<close> \<open>icache\<close> (inodes) \<open>\<subset>\<close> \<open>cons\<close> (console) \<open>\<subset>\<close> \<open>ftab\<close> (files and pipes) \<open>\<subset>\<close> \<open>vmst\<close> (page
  tables) \<open>\<subset>\<close> \<open>kernel\<close>. An operation is a function from state to state, polymorphic in what the components
  above it add. A pointer to an element of a kernel table is its index; a pointer to memory is a 32-bit
  address. C integers are words of their width, except process identifiers, which are \<open>int\<close> and whose counter
  wraps around as a signed 32-bit number (\<open>int32\<close>), and the log's counters, which are \<open>int\<close>. A routine returns a \<open>res\<close>: \<open>Ok\<close> with its value, or the way in which it does not return:
  \<open>Panic\<close>, \<open>NullDeref\<close>, \<open>OutOfBounds\<close>, \<open>Hang\<close> (a loop that never ends) or \<open>Blocked\<close> on a sleep channel. A
  routine that sleeps in the middle is the function up to the sleep and the function after it, or the
  round of its loop. A spin lock makes a routine of the single-CPU model atomic; \<open>Spinlock\<close> proves what this
  rests on, with all CPUs interleaved.

  The theories.
    \<^item> \<open>Prelude\<close>: integers, \<open>res\<close>, sequencing, bytes and little-endian words, shared lemmas.
    \<^item> \<open>CString\<close>: \<open>string.c\<close>. Lemmas: \<open>memmove\<close> with overlap, both paths of \<open>memset\<close>, \<open>safestrcpy\<close> in bounds.
    \<^item> \<open>ProcTable\<close>: \<open>proc.h\<close>, sleep, wakeup and kill.
    \<^item> \<open>Kalloc\<close>: \<open>kalloc.c\<close>, with the locale \<open>page_allocator\<close>: no page is handed out twice or lost;
      \<open>freerange\<close> returns and frees its range.
    \<^item> \<open>Spinlock\<close>: \<open>spinlock.c\<close>, \<open>mycpu\<close>, \<open>sched\<close>. A step relation over any number of CPUs: mutual exclusion,
      no panic, nesting of \<open>pushcli\<close>. \<open>SleepLock\<close>: \<open>sleeplock.c\<close>, with the locale \<open>mutex\<close>.
    \<^item> \<open>Ring\<close>, \<open>RingBuf\<close>: circular lists and ring buffers, the second a locale that pipes and the
      console interpret.
    \<^item> \<open>Bio\<close>: \<open>bio.c\<close>, \<open>memide.c\<close>. One buffer per block, \<open>bread\<close> returns the block's content, \<open>bwrite\<close> puts it
      on the disk. \<open>Ide\<close>: \<open>ide.c\<close>. With any controller that follows the ATA standard, the driver refines a queue of
      requests with a disk: calls of \<open>iderw\<close> return in order and with the right data.
    \<^item> \<open>Log\<close>: \<open>log.c\<close>. A crash at any write of a commit leaves all of a transaction or none.
    \<^item> \<open>Inode\<close>, \<open>Fs\<close>: the two halves of \<open>fs.c\<close>. Layout of the inode on disk; path elements.
      \<open>Swapfile\<close>: creation and removal of swap files, in \<open>fs.c\<close> and \<open>sysfile.c\<close>.
    \<^item> \<open>Balloc\<close>: what a transaction may change, and the block allocator: the first free block, exactly its bit.
      \<open>FileData\<close>: a file is an array of bytes that \<open>writei\<close> updates and \<open>readi\<close> returns, whatever blocks it takes.
      \<open>Durable\<close>: the same for an open file across transactions, up to the swap file as an array of pages on disk.
      \<open>Directory\<close>: a directory is a map from names to inode numbers; what \<open>iupdate\<close> writes is what
      \<open>iget\<close> and \<open>ilock\<close> bring back. \<open>Path\<close>: path lookup walks the tree that the
      directories on the disk make, and keeps the reference counts of the inode cache.
    \<^item> \<open>Printf\<close>, \<open>Console\<close>: \<open>printf.c\<close>, \<open>console.c\<close>, \<open>uart.c\<close>. \<open>atoi\<close> reads back what \<open>printf\<close> writes; the screen
      and the line editor stay in bounds and in order.
    \<^item> \<open>File\<close>: \<open>file.c\<close>, \<open>pipe.c\<close>. A pipe refines a bounded queue.
    \<^item> \<open>Vm\<close>, \<open>PageTable\<close>: the page tables of \<open>vm.c\<close>; \<open>mappages\<close> changes exactly its range. \<open>Uvm\<close>: building, growing
      and freeing address spaces. \<open>AddressSpace\<close>: an address space as the bytes its process sees; \<open>copyout\<close> stores exactly its
      bytes, and the copy that \<open>fork\<close> makes has the same bytes on frames of its own.
      \<open>Paging\<close>: the swapping that \<open>Lab3\<close> adds; the links of the resident pages refine a list, and the page
      chosen is the first with the least counter.
    \<^item> \<open>Proc\<close>, \<open>ProcLife\<close>: \<open>proc.c\<close>. The scheduler's pass switches to every runnable process; exit and wait meet;
      identifiers are unique until their counter wraps. \<open>Sjf\<close>: the scheduler and the calls of \<open>Lab1+Lab2\<close>.
    \<^item> \<open>Syscall\<close>, \<open>Exec\<close>, \<open>Sysfile\<close>, \<open>Trap\<close>: arguments in bounds, page faults, \<open>exec\<close>, the calls, the dispatch; a
      killed process does not get back to user mode.
    \<^item> \<open>Grep\<close>: the matcher and the line loop of \<open>grep.c\<close>; a line matches exactly when a part of it is in the language
      of the pattern. \<open>Sh\<close>: the parser and \<open>runcmd\<close> of \<open>sh.c\<close>; what is written out is read back, and every program
      starts with its three descriptors.
    \<^item> \<open>Kbd\<close>: \<open>kbd.c\<close> and its tables; what is typed arrives. \<open>Boot\<close>: \<open>bootmain.c\<close>; the segments of the kernel are in
      place when its entry point is called.
    \<^item> \<open>Umalloc\<close>, \<open>UserHeap\<close>: \<open>umalloc.c\<close>; a program that allocates gets arrays that never overlap and keep their contents.
      \<open>Ulib\<close>: \<open>ulib.c\<close>, \<open>wc.c\<close>, \<open>cat.c\<close>, \<open>ls.c\<close>; \<open>wc\<close> counts lines, words and characters.
    \<^item> \<open>Mkfs\<close>: \<open>mkfs.c\<close>; the image holds the files it is given. \<open>FirstBoot\<close>: the kernel that starts on that image mounts it and
      finds every file under its name with its contents.
    \<^item> \<open>Devices\<close>: \<open>ioapic.c\<close>, \<open>lapic.c\<close>, \<open>picirq.c\<close>, \<open>seginit\<close> and \<open>tvinit\<close>; interrupts are routed as enabled, gates lead to
      their vectors. \<open>Mp\<close>: \<open>mp.c\<close>; the processors of the configuration table are found.

  Bounds and fuel. A walk along links that the code does by a loop takes as fuel the size of the table
  the links point into (\<open>NBUF\<close>, \<open>MAX_TOTAL_PAGES\<close>); a walk that is longer visits an element twice and, since
  it changes nothing, never ends, which is the value \<open>Hang\<close>. The loops of \<open>freerange\<close>, \<open>deallocuvm\<close> and their
  like run on addresses; they are recursion on the remaining distance or \<open>partial_function\<close>, and a pointer
  that wraps around is a loop that does not end. All other recursion is structural or has its measure.

  Not modelled, and why. The boot code, \<open>entry.S\<close>, \<open>swtch.S\<close>, \<open>trapasm.S\<close> and the generated vectors are
  assembler. \<open>main.c\<close> only calls the initialisations of the components in order and starts the other
  processors on \<open>entryother.S\<close>. The small user programs (\<open>echo.c\<close>, \<open>init.c\<close>, \<open>kill.c\<close>, \<open>ln.c\<close>, \<open>mkdir.c\<close>, \<open>rm.c\<close>,
  \<open>zombie.c\<close>) and the test programs (\<open>usertests.c\<close>, \<open>forktest.c\<close> and others) only call the system. The interleaving of processes inside file-system routines is not modelled: each runs to
  its next sleep. Messages that the kernel prints for tracing are left out.
\<close>

end
